(* ===== verification/Prelude.thy ===== *)
theory Prelude
  imports Main "HOL-Library.Word" "HOL-Library.Monad_Syntax"
begin

text \<open>
  Shared vocabulary of the LightOS development: the machine integers of
  \<^verbatim>\<open>src/include/sys/types.h\<close>, the way a stopped kernel is modelled, and the
  generic facts on words, lists and options that the component theories use.

  \<^item> A C integer is a word of its width; \<open>unat\<close> reads it unsigned, \<open>sint\<close> signed.
    Signed and unsigned 32-bit values share \<open>u32\<close>; a signed comparison is written with
    the signed order of the word library.
  \<^item> \<^verbatim>\<open>assert\<close> and \<^verbatim>\<open>panic\<close> (\<^verbatim>\<open>kernel/assert.c\<close>) print a message and never return.
    A computation that reaches one of them, divides by zero or dereferences a null
    pointer has no result, so fallible code has type \<open>'a option\<close> with \<open>None\<close> for
    the stopped kernel, and is written in the option monad. A loop that never ends also
    has the value \<open>None\<close>; where the source's loop ends, that is proved.
\<close>

unbundle bit_operations_syntax

type_synonym u8 = "8 word"
type_synonym u16 = "16 word"
type_synonym u32 = "32 word"
type_synonym u64 = "64 word"

named_theorems kdefs \<open>definitions unfolded by component proofs\<close>
named_theorems inv_intros \<open>preservation of component invariants\<close>

section \<open>Stopping the kernel\<close>

definition kassert :: "bool \<Rightarrow> unit option" where
  "kassert b = (if b then Some () else None)"

abbreviation kpanic :: "'a option" where
  "kpanic \<equiv> None"

lemma bind_kassert [simp]: "Option.bind (kassert b) f = (if b then f () else None)"
  by (simp add: kassert_def)

lemma kassert_eq_Some [simp]: "kassert b = Some u \<longleftrightarrow> b"
  by (simp add: kassert_def)

lemma bind_eq_SomeE [elim]:
  assumes "Option.bind m f = Some y"
  obtains x where "m = Some x" "f x = Some y"
  using assms by (cases m) auto

section \<open>Constants of sys/types.h and sys/global.h\<close>

definition EOF :: u32 where "EOF = -1"
definition EOS :: u8 where "EOS = 0"
definition PAGE_SIZE :: u32 where "PAGE_SIZE = 4096"

lemma PAGE_SIZE_nz [simp]: "PAGE_SIZE \<noteq> 0"
  by (simp add: PAGE_SIZE_def)

lemma unat_EOF [simp]: "unat EOF = 4294967295"
  by (simp add: EOF_def unsigned_minus_1_eq_mask mask_eq_exp_minus_1)

section \<open>Words\<close>

lemma unat_of_nat_less [simp]: "n < 2 ^ LENGTH('a) \<Longrightarrow> unat (of_nat n :: 'a::len word) = n"
  by (simp add: unat_of_nat take_bit_nat_eq_self)

lemma word_of_nat_unat: "word_of_nat (unat w) = w"
  by simp

lemma unat_lt2p: "unat (w :: 'a::len word) < 2 ^ LENGTH('a)"
  by (rule unsigned_less)

lemma unat_plus_less:
  "unat (a :: 'a::len word) + unat b < 2 ^ LENGTH('a) \<Longrightarrow> unat (a + b) = unat a + unat b"
  by (simp add: unat_word_ariths)

lemma unat_Suc_less:
  "unat (a :: 'a::len word) + 1 < 2 ^ LENGTH('a) \<Longrightarrow> unat (a + 1) = Suc (unat a)"
  by (cases "LENGTH('a) = 1") (auto simp: unat_word_ariths)

section \<open>Lists\<close>


text \<open>Reading a C array at an index: out of range is not a value.\<close>

definition aget :: "'a list \<Rightarrow> nat \<Rightarrow> 'a option" where
  "aget xs i = (if i < length xs then Some (xs ! i) else None)"

definition aset :: "'a list \<Rightarrow> nat \<Rightarrow> 'a \<Rightarrow> 'a list option" where
  "aset xs i v = (if i < length xs then Some (xs[i := v]) else None)"

lemma aget_in [simp]: "i < length xs \<Longrightarrow> aget xs i = Some (xs ! i)"
  by (simp add: aget_def)

lemma aset_in [simp]: "i < length xs \<Longrightarrow> aset xs i v = Some (xs[i := v])"
  by (simp add: aset_def)

lemma aget_SomeD: "aget xs i = Some v \<Longrightarrow> i < length xs \<and> v = xs ! i"
  by (simp add: aget_def split: if_splits)

lemma aset_SomeD: "aset xs i v = Some ys \<Longrightarrow> i < length xs \<and> ys = xs[i := v]"
  by (simp add: aset_def split: if_splits)

end
