(* ===== verification/Stdlib.thy ===== *)
theory Stdlib
  imports Prelude
begin

text \<open>
  \<^verbatim>\<open>src/lib/stdlib.c\<close>: the BCD conversions that the CMOS clock driver uses,
  \<^verbatim>\<open>div_round_up\<close>, which every page and block count goes through, and \<^verbatim>\<open>atoi\<close>.
  Results are proved as total-function facts on machine words: the BCD round trip, the
  ceiling law of \<^verbatim>\<open>div_round_up\<close> with the overflow bound under which it holds, and
  \<^verbatim>\<open>atoi\<close> on a decimal numeral.
\<close>

section \<open>Definitions\<close>

definition bcd_to_bin :: "u8 \<Rightarrow> u8" where
  "bcd_to_bin value = (value AND 0xf) + (drop_bit 4 value) * 10"

definition bin_to_bcd :: "u8 \<Rightarrow> u8" where
  "bin_to_bcd value = push_bit 4 (value div 10) + (value mod 10)"

text \<open>A zero divisor raises the divide exception, whose handler never returns.\<close>

definition div_round_up :: "u32 \<Rightarrow> u32 \<Rightarrow> u32 option" where
  "div_round_up num sz = (if sz = 0 then None else Some ((num + sz - 1) div sz))"

text \<open>
  \<open>atoi\<close> reads a C string, here the list of its bytes with the terminator left out
  (reading at the end of the list reads \<open>EOS\<close>); \<open>None\<close> is the null pointer.
\<close>

definition is_digit :: "u8 \<Rightarrow> bool" where
  "is_digit c \<longleftrightarrow> 48 \<le> sint c \<and> sint c \<le> 57"

fun atoi_skip :: "u8 list \<Rightarrow> u8 list" where
  "atoi_skip [] = []"
| "atoi_skip (c # s) = (if c = 32 then atoi_skip s else c # s)"

fun atoi_digits :: "u8 list \<Rightarrow> u32 \<Rightarrow> u32" where
  "atoi_digits [] result = result"
| "atoi_digits (c # s) result =
     (if is_digit c then atoi_digits s (result * 10 + (scast c - 48)) else result)"

definition atoi :: "u8 list option \<Rightarrow> u32" where
  "atoi str = (case str of None \<Rightarrow> 0
     | Some s0 \<Rightarrow>
        (let s = atoi_skip s0 in
         case s of [] \<Rightarrow> atoi_digits s 0
         | c # s' \<Rightarrow>
            (if c = 45 then atoi_digits s' 0 * (-1)
             else if c = 43 then atoi_digits s' 0
             else atoi_digits s 0)))"

section \<open>BCD\<close>

lemma bcd_roundtrip_nat:
  "\<forall>n \<in> set [0..<100]. bcd_to_bin (bin_to_bcd (word_of_nat n)) = word_of_nat n"
  by code_simp

lemma bcd_roundtrip:
  assumes "v < 100"
  shows "bcd_to_bin (bin_to_bcd v) = v"
proof -
  have "unat v \<in> set [0..<100]"
    using assms by (simp add: word_less_nat_alt)
  then show ?thesis
    using bcd_roundtrip_nat by (metis word_of_nat_unat)
qed

lemma bin_to_bcd_nibbles_nat:
  "\<forall>n \<in> set [0..<100]. bin_to_bcd (word_of_nat n) AND 0xf = word_of_nat (n mod 10) \<and>
      drop_bit 4 (bin_to_bcd (word_of_nat n)) = word_of_nat (n div 10)"
  by code_simp

section \<open>Rounding up\<close>

lemma ceil_div_bounds:
  assumes "0 < (s::nat)"
  shows "n \<le> ((n + s - 1) div s) * s" "((n + s - 1) div s - 1) * s \<le> n"
    "0 < n \<Longrightarrow> ((n + s - 1) div s - 1) * s < n"
proof -
  let ?q = "(n + s - 1) div s"
  have eq: "?q * s + (n + s - 1) mod s = n + s - 1" by simp
  have "(n + s - 1) mod s < s" using assms by simp
  with eq assms show "n \<le> ?q * s" by linarith
  have "(?q - 1) * s = ?q * s - s" by (simp add: diff_mult_distrib)
  moreover have "?q * s \<le> n + s - 1" using eq by linarith
  ultimately show "(?q - 1) * s \<le> n" "0 < n \<Longrightarrow> (?q - 1) * s < n" using assms by linarith+
qed

lemma foldl_digits_cong:
  "(of_nat a :: 'a::len word) = of_nat b \<Longrightarrow>
   of_nat (foldl (\<lambda>a d. a * 10 + d) a ds) = (of_nat (foldl (\<lambda>a d. a * 10 + d) b ds) :: 'a word)"
  by (induction ds arbitrary: a b) simp_all

lemma div_round_up_Some: "sz \<noteq> 0 \<Longrightarrow> div_round_up num sz = Some ((num + sz - 1) div sz)"
  by (simp add: div_round_up_def)

lemma unat_add_sub_one:
  assumes "0 < unat sz" "unat num + unat sz - 1 < 2 ^ 32"
  shows "unat (num + sz - 1 :: u32) = unat num + unat sz - 1"
proof -
  have "num + sz - 1 = of_nat (unat num + unat sz - 1)"
    using assms by (simp add: of_nat_diff)
  then show ?thesis using assms(2) by simp
qed

lemma div_round_up_unat:
  assumes "sz \<noteq> 0" "unat num + unat sz - 1 < 2 ^ 32"
  shows "\<exists>q. div_round_up num sz = Some q \<and> unat q = (unat num + unat sz - 1) div unat sz"
proof -
  have "0 < unat sz" using assms(1) by (simp add: unat_gt_0)
  then show ?thesis
    using assms unat_add_sub_one [of sz num] by (simp add: div_round_up_def unat_div)
qed

text \<open>
  \<^verbatim>\<open>div_round_up\<close> is the ceiling: as long as \<open>num + sz - 1\<close> does not wrap around,
  the quotient's worth of units covers \<open>num\<close> and one unit fewer does not.
\<close>
lemma div_round_up_ceiling:
  assumes "sz \<noteq> 0" "unat num + unat sz - 1 < 2 ^ 32"
  shows "\<exists>q. div_round_up num sz = Some q \<and>
             unat num \<le> unat q * unat sz \<and> (unat q - 1) * unat sz \<le> unat num \<and>
             (0 < unat num \<longrightarrow> (unat q - 1) * unat sz < unat num)"
proof -
  obtain q where q: "div_round_up num sz = Some q"
      "unat q = (unat num + unat sz - 1) div unat sz"
    using div_round_up_unat [OF assms] by blast
  have pos: "0 < unat sz" using assms(1) by (simp add: unat_gt_0)
  from ceil_div_bounds [OF pos, of "unat num"] q show ?thesis by auto
qed

text \<open>Without the bound the sum wraps: the largest length rounds up to no pages at all.\<close>

lemma div_round_up_wraps: "div_round_up 0xFFFFFFFF 4096 = Some 0"
  by code_simp

section \<open>Decimal numerals\<close>

lemma is_digit_of_nat:
  assumes "d < 10" shows "is_digit (of_nat d + 48)" "scast (of_nat d + 48 :: u8) - 48 = (of_nat d :: u32)"
proof -
  have "\<forall>d \<in> set [0..<10]. is_digit (of_nat d + 48) \<and> scast (of_nat d + 48 :: u8) - 48 = (of_nat d :: u32)"
    by code_simp
  then show "is_digit (of_nat d + 48)" "scast (of_nat d + 48 :: u8) - 48 = (of_nat d :: u32)"
    using assms by auto
qed

lemma atoi_digits_numeral:
  "\<forall>d \<in> set ds. d < 10 \<Longrightarrow>
   atoi_digits (map (\<lambda>d. of_nat d + 48) ds) r = of_nat (foldl (\<lambda>a d. a * 10 + d) (unat r) ds)"
proof (induction ds arbitrary: r)
  case Nil
  then show ?case by simp
next
  case (Cons d ds)
  have "of_nat (foldl (\<lambda>a d. a * 10 + d) (unat (r * 10 + of_nat d)) ds) =
        (of_nat (foldl (\<lambda>a d. a * 10 + d) (unat r * 10 + d) ds) :: u32)"
    by (rule foldl_digits_cong) simp
  with Cons show ?case by (simp add: is_digit_of_nat)
qed

lemma atoi_numeral:
  assumes "\<forall>d \<in> set ds. d < 10"
  shows "atoi (Some (map (\<lambda>d. of_nat d + 48) ds)) = of_nat (foldl (\<lambda>a d. a * 10 + d) 0 ds)"
proof (cases ds)
  case (Cons d ds')
  have "\<forall>d \<in> set [0..<10]. of_nat d + 48 \<noteq> (32::u8) \<and> of_nat d + 48 \<noteq> (45::u8) \<and> of_nat d + 48 \<noteq> (43::u8)"
    by code_simp
  with assms Cons have "of_nat d + 48 \<noteq> (32::u8)" "of_nat d + 48 \<noteq> (45::u8)" "of_nat d + 48 \<noteq> (43::u8)"
    by auto
  then show ?thesis
    using Cons atoi_digits_numeral [OF assms, of 0] by (simp add: atoi_def)
qed (simp add: atoi_def)

end
