(* ===== verification/Kfifo.thy ===== *)
theory Kfifo
  imports Prelude
begin

text \<open>
  \<^verbatim>\<open>src/lib/kfifo.c\<close>: the byte ring buffer behind the keyboard, the serial ports and
  the pipes. The record follows \<^verbatim>\<open>kfifo_t\<close>; \<open>buf\<close> is the array the caller supplies.
  The abstract view is the list of queued bytes, oldest first; the operations are proved
  to be a queue bounded by \<open>buf_size - 1\<close> that drops its oldest byte when it is full.
\<close>

section \<open>Definitions\<close>

record kfifo =
  head :: u32
  tail :: u32
  buf_size :: u32
  buf :: "u8 list"

definition kfifo_next :: "kfifo \<Rightarrow> u32 \<Rightarrow> u32 option" where
  "kfifo_next fifo pos = (if buf_size fifo = 0 then None else Some ((pos + 1) mod buf_size fifo))"

definition kfifo_init :: "u8 list \<Rightarrow> u32 \<Rightarrow> kfifo" where
  "kfifo_init b sz = \<lparr>head = 0, tail = 0, buf_size = sz, buf = b\<rparr>"

definition kfifo_full :: "kfifo \<Rightarrow> bool option" where
  "kfifo_full fifo = do { n \<leftarrow> kfifo_next fifo (head fifo); Some (n = tail fifo) }"

definition kfifo_empty :: "kfifo \<Rightarrow> bool" where
  "kfifo_empty fifo \<longleftrightarrow> head fifo = tail fifo"

definition kfifo_get :: "kfifo \<Rightarrow> (u8 \<times> kfifo) option" where
  "kfifo_get fifo =
     (if kfifo_empty fifo then Some (0, fifo)
      else do {
        byte \<leftarrow> aget (buf fifo) (unat (tail fifo));
        n \<leftarrow> kfifo_next fifo (tail fifo);
        Some (byte, fifo\<lparr>tail := n\<rparr>) })"

text \<open>The loop of \<^verbatim>\<open>kfifo_put\<close> that makes room; it may run forever, and then has no value.\<close>

partial_function (option) kfifo_room :: "kfifo \<Rightarrow> kfifo option" where
  "kfifo_room fifo = do {
     full \<leftarrow> kfifo_full fifo;
     if full then do { r \<leftarrow> kfifo_get fifo; kfifo_room (snd r) } else Some fifo }"

definition kfifo_put :: "kfifo \<Rightarrow> u8 \<Rightarrow> kfifo option" where
  "kfifo_put fifo byte = do {
     fifo \<leftarrow> kfifo_room fifo;
     b \<leftarrow> aset (buf fifo) (unat (head fifo)) byte;
     n \<leftarrow> kfifo_next fifo (head fifo);
     Some (fifo\<lparr>buf := b, head := n\<rparr>) }"

section \<open>The queue a buffer stands for\<close>

text \<open>
  The well-formed buffers: room for at least one byte beside the gap that tells a full
  buffer from an empty one, the array as long as \<open>buf_size\<close> says, both positions inside.
\<close>

definition kfifo_inv :: "kfifo \<Rightarrow> bool" where
  "kfifo_inv f \<longleftrightarrow> 2 \<le> unat (buf_size f) \<and> length (buf f) = unat (buf_size f) \<and>
     unat (head f) < unat (buf_size f) \<and> unat (tail f) < unat (buf_size f)"

definition kfifo_count :: "kfifo \<Rightarrow> nat" where
  "kfifo_count f = (unat (head f) + unat (buf_size f) - unat (tail f)) mod unat (buf_size f)"

definition kfifo_list :: "kfifo \<Rightarrow> u8 list" where
  "kfifo_list f = map (\<lambda>i. buf f ! ((unat (tail f) + i) mod unat (buf_size f))) [0..<kfifo_count f]"

section \<open>Ring arithmetic\<close>

lemma ring_diff:
  assumes "h < (n::nat)" "t < n"
  shows "(h + n - t) mod n = (if t \<le> h then h - t else h + n - t)"
proof (cases "t \<le> h")
  case True
  have "(h + n - t) mod n = (h - t + n) mod n" using True by (simp only: diff_add_assoc2)
  also have "\<dots> = (h - t) mod n" by (rule mod_add_self2)
  also have "\<dots> = h - t" using assms by (intro mod_less) simp
  finally show ?thesis using True by simp
qed (use assms in simp)

lemma ring_succ: "h < (n::nat) \<Longrightarrow> Suc h mod n = (if Suc h = n then 0 else Suc h)"
  by auto

lemma ring_add: "t < (n::nat) \<Longrightarrow> i < n \<Longrightarrow> (t + i) mod n = (if t + i < n then t + i else t + i - n)"
  by (auto simp: mod_if)

lemma ring_add_neq:
  assumes "t < (n::nat)" "i < c" "c < n" shows "(t + i) mod n \<noteq> (t + c) mod n"
  using assms by (auto simp: ring_add)

lemma unat_kfifo_next:
  assumes "kfifo_inv f" "unat pos < unat (buf_size f)"
  shows "\<exists>p. kfifo_next f pos = Some p \<and> unat p = Suc (unat pos) mod unat (buf_size f)"
proof -
  have "buf_size f \<noteq> 0" using assms(2) by auto
  moreover have "unat (pos + 1) = Suc (unat pos)"
    using assms(2) unat_lt2p [of "buf_size f"] by (intro unat_Suc_less) simp
  ultimately show ?thesis by (simp add: kfifo_next_def unat_mod)
qed

lemma kfifo_count_bound: "kfifo_inv f \<Longrightarrow> kfifo_count f < unat (buf_size f)"
  by (simp add: kfifo_count_def kfifo_inv_def)

lemma kfifo_empty_count: "kfifo_inv f \<Longrightarrow> kfifo_empty f \<longleftrightarrow> kfifo_count f = 0"
  by (auto simp: kfifo_empty_def kfifo_count_def kfifo_inv_def ring_diff word_unat_eq_iff)

lemma kfifo_full_count:
  assumes "kfifo_inv f"
  shows "kfifo_full f = Some (kfifo_count f = unat (buf_size f) - 1)"
proof -
  have h: "unat (head f) < unat (buf_size f)" and t: "unat (tail f) < unat (buf_size f)"
    and n: "2 \<le> unat (buf_size f)"
    using assms by (auto simp: kfifo_inv_def)
  obtain p where p: "kfifo_next f (head f) = Some p" "unat p = Suc (unat (head f)) mod unat (buf_size f)"
    using unat_kfifo_next [OF assms h] by blast
  have "p = tail f \<longleftrightarrow> kfifo_count f = unat (buf_size f) - 1"
    using p(2) h t n by (auto simp: kfifo_count_def ring_diff ring_succ word_unat_eq_iff)
  with p(1) show ?thesis by (simp add: kfifo_full_def)
qed

lemma length_kfifo_list [simp]: "length (kfifo_list f) = kfifo_count f"
  by (simp add: kfifo_list_def)

lemma kfifo_list_Nil: "kfifo_list f = [] \<longleftrightarrow> kfifo_count f = 0"
  by (metis length_kfifo_list length_0_conv)

section \<open>The operations on the queue\<close>

lemma kfifo_init_spec:
  assumes "2 \<le> unat sz" "length b = unat sz"
  shows "kfifo_inv (kfifo_init b sz)" "kfifo_list (kfifo_init b sz) = []"
  using assms by (auto simp: kfifo_inv_def kfifo_init_def kfifo_list_def kfifo_count_def)

lemma kfifo_get_spec:
  assumes inv: "kfifo_inv f" and ne: "kfifo_list f \<noteq> []"
  shows "\<exists>f'. kfifo_get f = Some (hd (kfifo_list f), f') \<and> kfifo_inv f' \<and>
              kfifo_list f' = tl (kfifo_list f) \<and> buf_size f' = buf_size f"
proof -
  let ?n = "unat (buf_size f)" and ?t = "unat (tail f)" and ?h = "unat (head f)"
  have b: "?h < ?n" "?t < ?n" "2 \<le> ?n" "length (buf f) = ?n" using inv by (auto simp: kfifo_inv_def)
  obtain p where p: "kfifo_next f (tail f) = Some p" "unat p = Suc ?t mod ?n"
    using unat_kfifo_next [OF inv b(2)] by blast
  let ?f' = "f\<lparr>tail := p\<rparr>"
  have pos: "0 < kfifo_count f" using ne by (simp add: kfifo_list_Nil)
  have cnt: "kfifo_count ?f' = kfifo_count f - 1"
    using pos b p(2) by (auto simp: kfifo_count_def ring_diff ring_succ split: if_splits)
  have upt: "[0..<kfifo_count f] = 0 # map Suc [0..<kfifo_count f - 1]"
    using pos by (simp add: upt_conv_Cons map_Suc_upt)
  have shift: "(unat p + i) mod ?n = (?t + Suc i) mod ?n" for i
    by (simp add: p(2) mod_add_left_eq)
  have tl: "kfifo_list f = buf f ! ?t # kfifo_list ?f'"
    unfolding kfifo_list_def by (simp add: upt cnt shift b(2))
  have get: "kfifo_get f = Some (buf f ! ?t, ?f')"
    using pos p(1) b by (simp add: kfifo_get_def kfifo_empty_count [OF inv])
  have "kfifo_inv ?f'" using inv p(2) b by (simp add: kfifo_inv_def)
  with tl get show ?thesis by simp
qed

lemma kfifo_get_empty: "kfifo_inv f \<Longrightarrow> kfifo_list f = [] \<Longrightarrow> kfifo_get f = Some (0, f)"
  by (simp add: kfifo_get_def kfifo_empty_count kfifo_list_Nil)

text \<open>One round of the loop is enough, because a removal always leaves a gap.\<close>

lemma kfifo_room_spec:
  assumes inv: "kfifo_inv f"
  shows "\<exists>f'. kfifo_room f = Some f' \<and> kfifo_inv f' \<and> buf_size f' = buf_size f \<and>
      kfifo_count f' < unat (buf_size f) - 1 \<and>
      kfifo_list f' = (if kfifo_count f = unat (buf_size f) - 1 then tl (kfifo_list f) else kfifo_list f)"
proof (cases "kfifo_count f = unat (buf_size f) - 1")
  case True
  have n: "2 \<le> unat (buf_size f)" using inv by (simp add: kfifo_inv_def)
  then have "kfifo_list f \<noteq> []" using True by (simp add: kfifo_list_Nil)
  then obtain b f' where g: "kfifo_get f = Some (b, f')" "kfifo_inv f'"
      "kfifo_list f' = tl (kfifo_list f)" "buf_size f' = buf_size f"
    using kfifo_get_spec [OF inv] by blast
  have cnt: "kfifo_count f' = kfifo_count f - 1"
    using g(3) by (metis length_kfifo_list length_tl)
  have "kfifo_room f = kfifo_room f'"
    by (subst kfifo_room.simps) (simp add: kfifo_full_count [OF inv] True g(1))
  also have "\<dots> = Some f'"
    by (subst kfifo_room.simps) (use kfifo_full_count [OF g(2)] cnt True n g(4) in auto)
  finally show ?thesis using True g cnt n by auto
next
  case False
  with kfifo_count_bound [OF inv] have "kfifo_count f < unat (buf_size f) - 1" by simp
  moreover have "kfifo_room f = Some f"
    by (subst kfifo_room.simps) (use kfifo_full_count [OF inv] False in simp)
  ultimately show ?thesis using False inv by auto
qed

lemma kfifo_put_room:
  assumes inv: "kfifo_inv f" and room: "kfifo_count f < unat (buf_size f) - 1"
  shows "\<exists>f'. (do { b \<leftarrow> aset (buf f) (unat (head f)) byte; n \<leftarrow> kfifo_next f (head f);
               Some (f\<lparr>buf := b, head := n\<rparr>) }) = Some f' \<and> kfifo_inv f' \<and>
              kfifo_list f' = kfifo_list f @ [byte] \<and> buf_size f' = buf_size f"
proof -
  let ?n = "unat (buf_size f)" and ?t = "unat (tail f)" and ?h = "unat (head f)"
  have b: "?h < ?n" "?t < ?n" "2 \<le> ?n" "length (buf f) = ?n" using inv by (auto simp: kfifo_inv_def)
  obtain p where p: "kfifo_next f (head f) = Some p" "unat p = Suc ?h mod ?n"
    using unat_kfifo_next [OF inv b(1)] by blast
  let ?f' = "f\<lparr>buf := (buf f)[?h := byte], head := p\<rparr>"
  have cnt: "kfifo_count ?f' = Suc (kfifo_count f)"
    using room b p(2) by (auto simp: kfifo_count_def ring_diff ring_succ split: if_splits)
  have last: "(?t + kfifo_count f) mod ?n = ?h"
    using b by (auto simp: kfifo_count_def ring_diff)
  have other: "?h \<noteq> (?t + i) mod ?n" if "i < kfifo_count f" for i
    using ring_add_neq [OF b(2) that] room last by (metis less_diff_conv add_lessD1)
  have "kfifo_list ?f' = kfifo_list f @ [byte]"
    unfolding kfifo_list_def using b other by (simp add: cnt last)
  moreover have "kfifo_inv ?f'" using inv p(2) b by (simp add: kfifo_inv_def)
  ultimately show ?thesis using p(1) b by simp
qed

lemma kfifo_put_spec:
  assumes inv: "kfifo_inv f"
  shows "\<exists>f'. kfifo_put f byte = Some f' \<and> kfifo_inv f' \<and> buf_size f' = buf_size f \<and>
      kfifo_list f' = (if kfifo_count f = unat (buf_size f) - 1 then tl (kfifo_list f)
                       else kfifo_list f) @ [byte]"
proof -
  obtain g where g: "kfifo_room f = Some g" "kfifo_inv g" "buf_size g = buf_size f"
      "kfifo_count g < unat (buf_size f) - 1"
      "kfifo_list g = (if kfifo_count f = unat (buf_size f) - 1 then tl (kfifo_list f) else kfifo_list f)"
    using kfifo_room_spec [OF inv] by blast
  have lt: "kfifo_count g < unat (buf_size g) - 1" using g(3,4) by simp
  show ?thesis
    using kfifo_put_room [OF g(2) lt, of byte] g by (auto simp: kfifo_put_def)
qed

section \<open>The interface the drivers rely on\<close>

text \<open>
  What a client of a byte buffer may assume: a well-formed buffer stands for a list of at
  most \<open>cap\<close> bytes; \<open>get\<close> removes the oldest, \<open>put\<close> appends and drops the oldest only
  when the list is full. The lemmas of the locale follow from these laws alone.
\<close>

fun put_all :: "('q \<Rightarrow> u8 \<Rightarrow> 'q option) \<Rightarrow> 'q \<Rightarrow> u8 list \<Rightarrow> 'q option" where
  "put_all put q [] = Some q"
| "put_all put q (b # bs) = do { q' \<leftarrow> put q b; put_all put q' bs }"

fun get_n :: "('q \<Rightarrow> (u8 \<times> 'q) option) \<Rightarrow> nat \<Rightarrow> 'q \<Rightarrow> (u8 list \<times> 'q) option" where
  "get_n get 0 q = Some ([], q)"
| "get_n get (Suc n) q = do { (b, q') \<leftarrow> get q; (bs, q'') \<leftarrow> get_n get n q'; Some (b # bs, q'') }"

locale byte_queue =
  fixes get :: "'q \<Rightarrow> (u8 \<times> 'q) option"
    and put :: "'q \<Rightarrow> u8 \<Rightarrow> 'q option"
    and bytes :: "'q \<Rightarrow> u8 list"
    and cap :: "'q \<Rightarrow> nat"
    and ok :: "'q \<Rightarrow> bool"
  assumes cap_pos: "ok q \<Longrightarrow> 0 < cap q"
    and bounded: "ok q \<Longrightarrow> length (bytes q) \<le> cap q"
    and get_law: "ok q \<Longrightarrow> bytes q = b # bs \<Longrightarrow>
        \<exists>q'. get q = Some (b, q') \<and> ok q' \<and> bytes q' = bs \<and> cap q' = cap q"
    and put_law: "ok q \<Longrightarrow> \<exists>q'. put q b = Some q' \<and> ok q' \<and> cap q' = cap q \<and>
        bytes q' = (if length (bytes q) = cap q then tl (bytes q) else bytes q) @ [b]"
begin

text \<open>After any sequence of puts the buffer holds the newest \<open>cap\<close> bytes.\<close>

lemma put_all_newest:
  assumes "ok q"
  shows "\<exists>q'. put_all put q bs = Some q' \<and> ok q' \<and> cap q' = cap q \<and>
     bytes q' = drop (length (bytes q @ bs) - cap q) (bytes q @ bs)"
  using assms
proof (induction bs arbitrary: q)
  case Nil
  then show ?case using bounded by simp
next
  case (Cons b bs)
  obtain r where r: "put q b = Some r" "ok r" "cap r = cap q"
      "bytes r = (if length (bytes q) = cap q then tl (bytes q) else bytes q) @ [b]"
    using put_law [OF Cons.prems] by blast
  obtain q' where q': "put_all put r bs = Some q'" "ok q'" "cap q' = cap r"
      "bytes q' = drop (length (bytes r @ bs) - cap r) (bytes r @ bs)"
    using Cons.IH [OF r(2)] by blast
  have pos: "0 < cap q" and bd: "length (bytes q) \<le> cap q"
    using cap_pos bounded Cons.prems by auto
  have "drop (length (bytes r @ bs) - cap r) (bytes r @ bs) =
        drop (length (bytes q @ b # bs) - cap q) (bytes q @ b # bs)"
  proof (cases "length (bytes q) = cap q")
    case True
    then obtain x xs where x: "bytes q = x # xs" using pos by (cases "bytes q") auto
    then show ?thesis using r True by (simp flip: True)
  qed (use r bd in simp)
  with q' r show ?case by auto
qed

lemma get_n_prefix:
  assumes "ok q" "n \<le> length (bytes q)"
  shows "\<exists>q'. get_n get n q = Some (take n (bytes q), q') \<and> ok q' \<and> bytes q' = drop n (bytes q) \<and> cap q' = cap q"
  using assms
proof (induction n arbitrary: q)
  case (Suc n)
  then obtain b bs where b: "bytes q = b # bs" by (cases "bytes q") auto
  obtain r where "get q = Some (b, r)" "ok r" "bytes r = bs" "cap r = cap q"
    using get_law [OF Suc.prems(1) b] by blast
  with Suc.IH [of r] Suc.prems(2) b show ?case by auto
qed simp

text \<open>What is put into an empty buffer comes out in order, if it fits.\<close>

lemma put_get_roundtrip:
  assumes "ok q" "bytes q = []" "length bs \<le> cap q"
  shows "\<exists>q' q''. put_all put q bs = Some q' \<and> get_n get (length bs) q' = Some (bs, q'') \<and>
     ok q'' \<and> bytes q'' = [] \<and> cap q'' = cap q"
proof -
  obtain q' where "put_all put q bs = Some q'" "ok q'" "bytes q' = bs" "cap q' = cap q"
    using put_all_newest [OF assms(1), of bs] assms(2,3) by auto
  with get_n_prefix [of q' "length bs"] show ?thesis by auto
qed

end

abbreviation kfifo_cap :: "kfifo \<Rightarrow> nat" where
  "kfifo_cap f \<equiv> unat (buf_size f) - 1"

interpretation kq: byte_queue kfifo_get kfifo_put kfifo_list kfifo_cap kfifo_inv
proof unfold_locales
  fix q b bs assume "kfifo_inv q" "kfifo_list q = b # bs"
  then show "\<exists>q'. kfifo_get q = Some (b, q') \<and> kfifo_inv q' \<and> kfifo_list q' = bs \<and> kfifo_cap q' = kfifo_cap q"
    using kfifo_get_spec [of q] by auto
next
  fix q b assume "kfifo_inv q"
  then show "\<exists>q'. kfifo_put q b = Some q' \<and> kfifo_inv q' \<and> kfifo_cap q' = kfifo_cap q \<and>
     kfifo_list q' = (if length (kfifo_list q) = kfifo_cap q then tl (kfifo_list q) else kfifo_list q) @ [b]"
    using kfifo_put_spec [of q b] by auto
qed (use kfifo_count_bound in \<open>fastforce simp: kfifo_inv_def\<close>)+

section \<open>Properties of the buffers in the kernel\<close>

text \<open>
  A buffer set up by \<^verbatim>\<open>kfifo_init\<close> and filled by any sequence of \<^verbatim>\<open>kfifo_put\<close>
  calls holds exactly the newest bytes, at most \<open>buf_size - 1\<close> of them, in the order they
  were put: a full buffer overwrites its oldest byte and every call returns.
\<close>
lemma kfifo_keeps_newest:
  assumes "2 \<le> unat sz" "length b = unat sz"
  shows "\<exists>f. put_all kfifo_put (kfifo_init b sz) bs = Some f \<and> kfifo_inv f \<and>
     kfifo_list f = drop (length bs - (unat sz - 1)) bs"
  using kq.put_all_newest [OF kfifo_init_spec(1) [OF assms], of bs] kfifo_init_spec(2) [OF assms]
  by (auto simp: kfifo_init_def)

lemma kfifo_keeps_newest_witness:
  "\<exists>f. put_all kfifo_put (kfifo_init [0, 0, 0] 3) [7, 8, 9] = Some f \<and> kfifo_list f = [8, 9]"
  using kfifo_keeps_newest [of 3 "[0, 0, 0]" "[7, 8, 9]"] by auto

text \<open>
  What is put into an empty buffer is read back byte for byte and in order, as long as
  it fits: the round trip the keyboard, the serial ports and the pipes rely on.
\<close>
lemma kfifo_put_get_roundtrip:
  assumes "kfifo_inv f" "kfifo_empty f" "length bs < unat (buf_size f)"
  shows "\<exists>f' f''. put_all kfifo_put f bs = Some f' \<and>
     get_n kfifo_get (length bs) f' = Some (bs, f'') \<and> kfifo_inv f'' \<and> kfifo_empty f''"
proof -
  have "kfifo_list f = []" using assms(1,2) by (simp add: kfifo_list_Nil kfifo_empty_count)
  moreover have "length bs \<le> kfifo_cap f" using assms(3) by simp
  ultimately show ?thesis
    using kq.put_get_roundtrip [OF assms(1), of bs] by (auto simp: kfifo_list_Nil kfifo_empty_count)
qed

lemma kfifo_put_get_roundtrip_witness:
  "\<exists>f' f''. put_all kfifo_put (kfifo_init [0, 0, 0, 0] 4) [65, 66] = Some f' \<and>
     get_n kfifo_get (length [65, 66 :: u8]) f' = Some ([65, 66], f'') \<and> kfifo_empty f''"
  using kfifo_put_get_roundtrip [of "kfifo_init [0, 0, 0, 0] 4" "[65, 66]"]
  by (auto simp: kfifo_inv_def kfifo_empty_def kfifo_init_def)

text \<open>
  The requirement of two bytes is not an artefact: with a buffer of one byte the buffer is
  always both empty and full, \<^verbatim>\<open>kfifo_get\<close> removes nothing, and the loop of
  \<^verbatim>\<open>kfifo_put\<close> never ends.
\<close>

lemma kfifo_room_one_byte:
  assumes "kfifo_room f = Some r"
  shows "\<not> (buf_size f = 1 \<and> head f = 0 \<and> tail f = 0)"
proof (rule kfifo_room.raw_induct [where P = "\<lambda>f r. \<not> (buf_size f = 1 \<and> head f = 0 \<and> tail f = 0)", OF _ assms])
  fix g :: "kfifo \<Rightarrow> kfifo option" and f r
  assume IH: "\<And>f r. g f = Some r \<Longrightarrow> \<not> (buf_size f = 1 \<and> head f = 0 \<and> tail f = 0)"
    and eq: "do { full \<leftarrow> kfifo_full f; if full then do { r \<leftarrow> kfifo_get f; g (snd r) } else Some f } = Some r"
  show "\<not> (buf_size f = 1 \<and> head f = 0 \<and> tail f = 0)"
  proof
    assume one: "buf_size f = 1 \<and> head f = 0 \<and> tail f = 0"
    then have "g f = Some r"
      using eq by (simp add: kfifo_full_def kfifo_next_def kfifo_get_def kfifo_empty_def)
    with IH one show False by blast
  qed
qed

lemma kfifo_put_one_byte_never_returns: "kfifo_put (kfifo_init b 1) byte = None"
  using kfifo_room_one_byte [of "kfifo_init b 1"]
  by (cases "kfifo_room (kfifo_init b 1)") (auto simp: kfifo_put_def kfifo_init_def)

end
