(* ===== verification/Bitmap.thy ===== *)
theory Bitmap
  imports Prelude
begin

text \<open>
  \<^verbatim>\<open>src/lib/bitmap.c\<close>: the bit arrays that record used kernel pages, user mappings,
  file blocks and inodes. A bitmap covers the indexes from its offset on, eight per byte.
  Its abstract view \<open>bm_used\<close> is the set of positions whose bit is set; \<^verbatim>\<open>bitmap_test\<close>
  is membership, \<^verbatim>\<open>bitmap_set\<close> insertion or removal, and \<^verbatim>\<open>bitmap_scan\<close> first-fit
  allocation of a run of free positions.
\<close>

section \<open>Definitions\<close>

record bitmap =
  bits :: "u8 list"
  blength :: u32
  boffset :: u32

definition bitmap_make :: "u8 list \<Rightarrow> u32 \<Rightarrow> u32 \<Rightarrow> bitmap" where
  "bitmap_make b len off = \<lparr>bits = b, blength = len, boffset = off\<rparr>"

text \<open>\<^verbatim>\<open>memset(bits, 0, length)\<close> clears the first \<open>length\<close> bytes of the caller's array.\<close>

definition bitmap_init :: "u8 list \<Rightarrow> u32 \<Rightarrow> u32 \<Rightarrow> bitmap option" where
  "bitmap_init b len off =
     (if unat len \<le> length b
      then Some (bitmap_make (replicate (unat len) 0 @ drop (unat len) b) len off) else None)"

definition bitmap_test :: "bitmap \<Rightarrow> u32 \<Rightarrow> bool option" where
  "bitmap_test m index = do {
     kassert (boffset m \<le> index);
     let idx = index - boffset m;
     let bytes = idx div 8;
     let b = idx mod 8;
     kassert (bytes < blength m);
     byte \<leftarrow> aget (bits m) (unat bytes);
     Some (byte AND push_bit (unat b) 1 \<noteq> 0) }"

definition bitmap_set :: "bitmap \<Rightarrow> u32 \<Rightarrow> bool \<Rightarrow> bitmap option" where
  "bitmap_set m index value = do {
     kassert (boffset m \<le> index);
     let idx = index - boffset m;
     let bytes = idx div 8;
     kassert (bytes < blength m);
     let b = idx mod 8;
     byte \<leftarrow> aget (bits m) (unat bytes);
     bs \<leftarrow> aset (bits m) (unat bytes)
       (if value then byte OR push_bit (unat b) 1 else byte AND NOT (push_bit (unat b) 1));
     Some (m\<lparr>bits := bs\<rparr>) }"

text \<open>The first loop of \<^verbatim>\<open>bitmap_scan\<close>; the first number is \<^verbatim>\<open>bits_left\<close>.\<close>

fun bitmap_scan_find :: "bitmap \<Rightarrow> u32 \<Rightarrow> nat \<Rightarrow> u32 \<Rightarrow> u32 \<Rightarrow> u32 option" where
  "bitmap_scan_find m count 0 index counter = Some EOF"
| "bitmap_scan_find m count (Suc bits_left) index counter = do {
     t \<leftarrow> bitmap_test m (boffset m + index);
     let counter = (if \<not> t then counter + 1 else 0);
     let index = index + 1;
     if counter = count then Some (index - count)
     else bitmap_scan_find m count bits_left index counter }"

text \<open>The second loop, which marks the run.\<close>

fun bitmap_scan_mark :: "bitmap \<Rightarrow> nat \<Rightarrow> u32 \<Rightarrow> bitmap option" where
  "bitmap_scan_mark m 0 index = Some m"
| "bitmap_scan_mark m (Suc bits_left) index = do {
     m \<leftarrow> bitmap_set m (boffset m + index) True;
     bitmap_scan_mark m bits_left (index + 1) }"

definition bitmap_scan :: "bitmap \<Rightarrow> u32 \<Rightarrow> (u32 \<times> bitmap) option" where
  "bitmap_scan m count = do {
     start \<leftarrow> bitmap_scan_find m count (unat (blength m * 8)) 0 0;
     if start = EOF then Some (EOF, m)
     else do {
       m \<leftarrow> bitmap_scan_mark m (unat count) start;
       Some (start + boffset m, m) } }"

section \<open>The set a bitmap stands for\<close>

abbreviation bm_size :: "bitmap \<Rightarrow> nat" where
  "bm_size m \<equiv> 8 * unat (blength m)"

definition bm_used :: "bitmap \<Rightarrow> nat set" where
  "bm_used m = {i. i < bm_size m \<and> bit (bits m ! (i div 8)) (i mod 8)}"

text \<open>The array has the stated length and the covered indexes do not wrap around.\<close>

definition bm_inv :: "bitmap \<Rightarrow> bool" where
  "bm_inv m \<longleftrightarrow> unat (blength m) \<le> length (bits m) \<and> unat (boffset m) + bm_size m < 2 ^ 32"

section \<open>Tests and updates\<close>

lemma and_exp_nonzero: "(w AND 2 ^ n \<noteq> (0 :: 'a::len word)) \<longleftrightarrow> bit w n"
proof -
  have "w AND 2 ^ n = (if bit w n then 2 ^ n else 0)"
    by (rule bit_word_eqI) (auto simp: bit_simps)
  then show ?thesis by (auto dest: bit_imp_le_length)
qed

lemma bit_byte_set: "k < 8 \<Longrightarrow> bit (w OR 2 ^ b :: u8) k \<longleftrightarrow> bit w k \<or> k = b"
  by (auto simp: bit_simps)

lemma bit_byte_clear: "k < 8 \<Longrightarrow> bit (w AND NOT (2 ^ b) :: u8) k \<longleftrightarrow> bit w k \<and> k \<noteq> b"
  by (auto simp: bit_simps)

lemma index_facts:
  assumes "bm_inv m" "unat index < unat (boffset m) + bm_size m" "boffset m \<le> index"
  shows "unat (index - boffset m) = unat index - unat (boffset m)"
    "unat ((index - boffset m) div 8) = (unat index - unat (boffset m)) div 8"
    "unat ((index - boffset m) mod 8) = (unat index - unat (boffset m)) mod 8"
    "(index - boffset m) div 8 < blength m"
proof -
  show eq: "unat (index - boffset m) = unat index - unat (boffset m)"
    using assms(3) by (simp add: unat_sub word_le_nat_alt)
  show d: "unat ((index - boffset m) div 8) = (unat index - unat (boffset m)) div 8"
    and "unat ((index - boffset m) mod 8) = (unat index - unat (boffset m)) mod 8"
    by (simp_all add: unat_div unat_mod eq)
  show "(index - boffset m) div 8 < blength m"
    using assms(2,3) by (auto simp: word_less_nat_alt d word_le_nat_alt)
qed

lemma bitmap_test_spec:
  assumes inv: "bm_inv m" and i: "i < bm_size m"
  shows "bitmap_test m (boffset m + of_nat i) = Some (i \<in> bm_used m)"
proof -
  have u: "unat (boffset m + of_nat i) = unat (boffset m) + i"
    using inv i by (intro unat_plus_less [THEN trans]) (auto simp: bm_inv_def)
  have le: "boffset m \<le> boffset m + of_nat i" by (simp add: word_le_nat_alt u)
  have lt: "unat (boffset m + of_nat i) < unat (boffset m) + bm_size m" using i u by simp
  note f = index_facts [OF inv lt le]
  have "i div 8 < unat (blength m)" using i by simp
  then show ?thesis
    using f le i inv u by (simp add: bitmap_test_def bm_used_def bm_inv_def and_exp_nonzero)
qed

lemma bitmap_set_spec:
  assumes inv: "bm_inv m" and i: "i < bm_size m"
  shows "\<exists>m'. bitmap_set m (boffset m + of_nat i) v = Some m' \<and> bm_inv m' \<and>
    boffset m' = boffset m \<and> blength m' = blength m \<and>
    bm_used m' = (if v then insert i (bm_used m) else bm_used m - {i})"
proof -
  have u: "unat (boffset m + of_nat i) = unat (boffset m) + i"
    using inv i by (intro unat_plus_less [THEN trans]) (auto simp: bm_inv_def)
  have le: "boffset m \<le> boffset m + of_nat i" by (simp add: word_le_nat_alt u)
  have lt: "unat (boffset m + of_nat i) < unat (boffset m) + bm_size m" using i u by simp
  note f = index_facts [OF inv lt le]
  have dl: "i div 8 < length (bits m)" using i inv by (auto simp: bm_inv_def)
  let ?b = "bits m ! (i div 8)"
  let ?w = "if v then ?b OR 2 ^ (i mod 8) else ?b AND NOT (2 ^ (i mod 8))"
  let ?m' = "m\<lparr>bits := (bits m)[i div 8 := ?w]\<rparr>"
  have eq: "bitmap_set m (boffset m + of_nat i) v = Some ?m'"
    using f le dl u by (simp add: bitmap_set_def)
  have "bm_used ?m' = (if v then insert i (bm_used m) else bm_used m - {i})"
  proof (rule set_eqI)
    fix j
    have same: "j = i \<longleftrightarrow> j div 8 = i div 8 \<and> j mod 8 = i mod 8"
      by (metis div_mult_mod_eq)
    have in_range: "k < bm_size m \<longleftrightarrow> k div 8 < unat (blength m)" for k by auto
    show "j \<in> bm_used ?m' \<longleftrightarrow> j \<in> (if v then insert i (bm_used m) else bm_used m - {i})"
      using dl i by (cases "j div 8 = i div 8") (auto simp: bm_used_def in_range same bit_byte_set bit_byte_clear)
  qed
  with eq inv show ?thesis by (auto simp: bm_inv_def)
qed

section \<open>Scanning for a free run\<close>

definition free_run :: "bitmap \<Rightarrow> nat \<Rightarrow> nat \<Rightarrow> bool" where
  "free_run m n s \<longleftrightarrow> s + n \<le> bm_size m \<and> {s..<s + n} \<inter> bm_used m = {}"

lemma scan_find_step:
  "bitmap_test m (boffset m + index) = Some t \<Longrightarrow>
   bitmap_scan_find m count (Suc n) index counter =
     (let c = (if t then 0 else counter + 1) in
      if c = count then Some (index + 1 - count) else bitmap_scan_find m count n (index + 1) c)"
  by (simp add: Let_def)

lemma scan_find_spec:
  assumes inv: "bm_inv m" and len: "i + n = bm_size m" and c: "c \<le> i" "c < unat count"
    and free: "{i - c..<i} \<inter> bm_used m = {}"
    and maxi: "c = i \<or> i - c - 1 \<in> bm_used m"
    and none: "\<And>s. s + unat count \<le> i \<Longrightarrow> \<not> free_run m (unat count) s"
  shows "\<exists>st. bitmap_scan_find m count n (of_nat i) (of_nat c) = Some st \<and>
     (if st = EOF then \<forall>s. \<not> free_run m (unat count) s
      else free_run m (unat count) (unat st) \<and> (\<forall>s < unat st. \<not> free_run m (unat count) s))"
  using len c free maxi none
proof (induction n arbitrary: i c)
  case 0
  then show ?case by (auto simp: EOF_def free_run_def)
next
  case (Suc n)
  let ?k = "unat count"
  have small: "bm_size m < 2 ^ 32" using inv by (simp add: bm_inv_def)
  have i: "i < bm_size m" using Suc.prems(1) by simp
  have test: "bitmap_test m (boffset m + of_nat i) = Some (i \<in> bm_used m)"
    by (rule bitmap_test_spec [OF inv i])
  have cnt: "of_nat (Suc c) = count \<longleftrightarrow> Suc c = ?k"
    using Suc.prems(3) unat_lt2p [of count] by (metis Suc_leI le_less_trans unat_of_nat_less word_of_nat_unat)
  have ne0: "count \<noteq> 0" using Suc.prems(3) by auto
  show ?case
  proof (cases "i \<in> bm_used m")
    case True
    have "\<exists>st. bitmap_scan_find m count n (of_nat (Suc i)) (of_nat 0) = Some st \<and>
       (if st = EOF then \<forall>s. \<not> free_run m ?k s
        else free_run m ?k (unat st) \<and> (\<forall>s < unat st. \<not> free_run m ?k s))"
    proof (rule Suc.IH)
      fix s assume "s + ?k \<le> Suc i"
      show "\<not> free_run m ?k s"
      proof (cases "s + ?k \<le> i")
        case False
        with \<open>s + ?k \<le> Suc i\<close> Suc.prems(3) have "i \<in> {s..<s + ?k}" by auto
        with True show ?thesis by (auto simp: free_run_def)
      qed (rule Suc.prems(6))
    qed (use Suc.prems True in auto)
    then show ?thesis using test True ne0 by (simp add: add.commute)
  next
    case False
    show ?thesis
    proof (cases "Suc c = ?k")
      case True
      have cw: "of_nat c + 1 = count" using cnt True by (metis of_nat_Suc add.commute)
      have st: "of_nat i + 1 - count = of_nat (i - c)"
        unfolding cw [symmetric] using Suc.prems(2) by (simp add: of_nat_diff)
      have u: "unat (of_nat (i - c) :: u32) = i - c" using i small by (intro unat_of_nat_less) simp
      have ne: "of_nat (i - c) \<noteq> EOF"
      proof
        assume "of_nat (i - c) = EOF"
        then have "i - c = 4294967295" using u by simp
        then show False using i small by simp
      qed
      have "free_run m ?k (i - c)"
      proof -
        have "{i - c..<i - c + ?k} = insert i {i - c..<i}" using Suc.prems(2) True by auto
        moreover have "i - c + ?k \<le> bm_size m" using Suc.prems(2) i True by auto
        ultimately show ?thesis using Suc.prems(4) False by (simp add: free_run_def)
      qed
      moreover have "\<not> free_run m ?k s" if "s < i - c" for s
        using Suc.prems(6) [of s] that True by simp
      moreover have "bitmap_scan_find m count (Suc n) (of_nat i) (of_nat c) = Some (of_nat (i - c))"
        using False by (simp only: scan_find_step [OF test] if_False Let_def cw st refl if_True)
      ultimately show ?thesis using u ne by (intro exI [of _ "of_nat (i - c)"]) simp
    next
      case neq: False
      have "\<exists>st. bitmap_scan_find m count n (of_nat (Suc i)) (of_nat (Suc c)) = Some st \<and>
         (if st = EOF then \<forall>s. \<not> free_run m ?k s
          else free_run m ?k (unat st) \<and> (\<forall>s < unat st. \<not> free_run m ?k s))"
      proof (rule Suc.IH)
        show "{Suc i - Suc c..<Suc i} \<inter> bm_used m = {}"
          using Suc.prems(4) False by (auto simp: less_Suc_eq)
        fix s assume s: "s + ?k \<le> Suc i"
        show "\<not> free_run m ?k s"
        proof (cases "s + ?k \<le> i")
          case False
          then have "s \<le> i - c - 1 \<and> i - c - 1 < s + ?k \<and> c \<noteq> i" using s neq Suc.prems(3) by auto
          then show ?thesis using Suc.prems(5) by (auto simp: free_run_def)
        qed (rule Suc.prems(6))
      qed (use Suc.prems neq in auto)
      then show ?thesis using test False cnt neq by (simp add: add.commute)
    qed
  qed
qed

lemma scan_mark_spec:
  assumes "bm_inv m" "i + n \<le> bm_size m"
  shows "\<exists>m'. bitmap_scan_mark m n (of_nat i) = Some m' \<and> bm_inv m' \<and> boffset m' = boffset m \<and>
     blength m' = blength m \<and> bm_used m' = bm_used m \<union> {i..<i + n}"
  using assms
proof (induction n arbitrary: m i)
  case (Suc n)
  have "i < bm_size m" using Suc.prems(2) by simp
  then obtain m1 where m1: "bitmap_set m (boffset m + of_nat i) True = Some m1" "bm_inv m1"
      "boffset m1 = boffset m" "blength m1 = blength m" "bm_used m1 = insert i (bm_used m)"
    using bitmap_set_spec [OF Suc.prems(1), of i True] by auto
  obtain m' where "bitmap_scan_mark m1 n (of_nat (Suc i)) = Some m'" "bm_inv m'" "boffset m' = boffset m1"
      "blength m' = blength m1" "bm_used m' = bm_used m1 \<union> {Suc i..<Suc i + n}"
    using Suc.IH [OF m1(2), of "Suc i"] Suc.prems(2) m1(4) by auto
  moreover have "{i..<i + Suc n} = insert i {Suc i..<Suc i + n}" by auto
  ultimately show ?case using m1 by (auto simp: add.commute)
qed simp

lemma bitmap_scan_spec:
  assumes inv: "bm_inv m" and pos: "0 < unat count"
  shows "\<exists>r m'. bitmap_scan m count = Some (r, m') \<and> bm_inv m' \<and> boffset m' = boffset m \<and>
     blength m' = blength m \<and>
     (if \<exists>s. free_run m (unat count) s
      then \<exists>s. r = boffset m + of_nat s \<and> r \<noteq> EOF \<and> free_run m (unat count) s \<and>
           (\<forall>t < s. \<not> free_run m (unat count) t) \<and> bm_used m' = bm_used m \<union> {s..<s + unat count}
      else r = EOF \<and> m' = m)"
proof -
  have len: "unat (blength m * 8) = bm_size m"
    using inv by (simp add: bm_inv_def unat_word_ariths)
  obtain st where st: "bitmap_scan_find m count (bm_size m) 0 0 = Some st"
      "if st = EOF then \<forall>s. \<not> free_run m (unat count) s
       else free_run m (unat count) (unat st) \<and> (\<forall>s < unat st. \<not> free_run m (unat count) s)"
    using scan_find_spec [OF inv, of 0 "bm_size m" 0 count] pos by (auto simp: free_run_def)
  show ?thesis
  proof (cases "st = EOF")
    case True
    with st len inv show ?thesis by (auto simp: bitmap_scan_def)
  next
    case False
    then have fr: "free_run m (unat count) (unat st)" "\<forall>s < unat st. \<not> free_run m (unat count) s"
      using st(2) by auto
    obtain m' where m': "bitmap_scan_mark m (unat count) (of_nat (unat st)) = Some m'" "bm_inv m'"
        "boffset m' = boffset m" "blength m' = blength m"
        "bm_used m' = bm_used m \<union> {unat st..<unat st + unat count}"
      using scan_mark_spec [OF inv, of "unat st" "unat count"] fr(1) by (auto simp: free_run_def)
    have u: "unat (st + boffset m) = unat st + unat (boffset m)"
      using fr(1) inv by (intro unat_plus_less) (auto simp: free_run_def bm_inv_def)
    have "st + boffset m \<noteq> EOF"
    proof
      assume "st + boffset m = EOF"
      then have "unat st + unat (boffset m) = 2 ^ 32 - 1" using u by simp
      with fr(1) inv pos show False by (auto simp: free_run_def bm_inv_def)
    qed
    with False st(1) m' fr len show ?thesis
      by (auto simp: bitmap_scan_def add.commute intro!: exI [of _ "unat st"])
  qed
qed

section \<open>Properties\<close>

lemma bitmap_init_spec:
  assumes "unat len \<le> length b" "unat off + 8 * unat len < 2 ^ 32"
  shows "\<exists>m. bitmap_init b len off = Some m \<and> bm_inv m \<and> bm_used m = {} \<and> boffset m = off \<and> blength m = len"
proof -
  let ?m = "bitmap_make (replicate (unat len) 0 @ drop (unat len) b) len off"
  have "i div 8 < unat len" if "i < 8 * unat len" for i using that by auto
  then have "bm_used ?m = {}" by (auto simp: bm_used_def bitmap_make_def nth_append)
  with assms show ?thesis by (auto simp: bitmap_init_def bitmap_make_def bm_inv_def)
qed

text \<open>
  \<^verbatim>\<open>bitmap_scan\<close> is first-fit allocation: with a well-formed map and a positive
  count it always returns; if some run of \<open>count\<close> free positions exists it returns the
  lowest one (shifted by the offset) and marks exactly that run, and otherwise it returns
  \<open>EOF\<close> and leaves the map as it was.
\<close>
lemma bitmap_scan_first_fit:
  assumes "bm_inv m" "0 < unat count"
  shows "\<exists>r m'. bitmap_scan m count = Some (r, m') \<and> bm_inv m' \<and>
     (if \<exists>s. free_run m (unat count) s
      then \<exists>s. r = boffset m + of_nat s \<and> r \<noteq> EOF \<and> free_run m (unat count) s \<and>
           (\<forall>t < s. \<not> free_run m (unat count) t) \<and> bm_used m' = bm_used m \<union> {s..<s + unat count}
      else r = EOF \<and> m' = m)"
  using bitmap_scan_spec [OF assms] by blast

lemma bitmap_scan_first_fit_witness:
  "bm_inv (bitmap_make [0xff, 0x0f] 2 100) \<and> bitmap_scan (bitmap_make [0xff, 0x0f] 2 100) 3 =
     Some (112, bitmap_make [0xff, 0x7f] 2 100) \<and>
   (\<exists>r m'. bitmap_scan (bitmap_make [0xff, 0x0f] 2 100) 3 = Some (r, m') \<and> bm_inv m')"
proof -
  have inv: "bm_inv (bitmap_make [0xff, 0x0f] 2 100)" by (simp add: bm_inv_def bitmap_make_def)
  have "bitmap_scan (bitmap_make [0xff, 0x0f] 2 100) 3 = Some (112, bitmap_make [0xff, 0x7f] 2 100)"
    by code_simp
  with inv bitmap_scan_first_fit [OF inv, of 3] show ?thesis by auto
qed

end
