(* ===== verification/Linked_List.thy ===== *)
theory Linked_List
  imports Prelude
begin

text \<open>
  \<^verbatim>\<open>src/lib/list.c\<close>: the doubly linked lists with two sentinel nodes that the kernel
  uses for wait queues, timers, the buffer cache, free arenas and disk requests.
  Pointers are addresses; the store maps an address to the node there; a list is known by
  the address of its \<^verbatim>\<open>list_t\<close>, whose head node lies at that address and whose tail node
  eight bytes later. Reading or writing through the null pointer stops the kernel.

  \<open>dlist h l xs\<close> says that in the store \<open>h\<close> the list at \<open>l\<close> links exactly the nodes
  \<open>xs\<close>, in both directions. Every operation is shown to act on \<open>xs\<close> as the HOL list
  operation of the same meaning, and to leave every list that shares no node with it alone.
\<close>

section \<open>Definitions\<close>

type_synonym addr = u32

abbreviation (input) NULL :: addr where "NULL \<equiv> 0"

record list_node =
  prev :: addr
  "next" :: addr

type_synonym store = "addr \<Rightarrow> list_node"

abbreviation (input) list_head :: "addr \<Rightarrow> addr" where "list_head l \<equiv> l"
abbreviation (input) list_tail :: "addr \<Rightarrow> addr" where "list_tail l \<equiv> l + 8"

text \<open>\<^verbatim>\<open>p->prev\<close>, \<^verbatim>\<open>p->next\<close> and the assignments to them.\<close>

definition get_prev :: "store \<Rightarrow> addr \<Rightarrow> addr option" where
  "get_prev h p = (if p = NULL then None else Some (prev (h p)))"

definition get_next :: "store \<Rightarrow> addr \<Rightarrow> addr option" where
  "get_next h p = (if p = NULL then None else Some (next (h p)))"

definition set_prev :: "store \<Rightarrow> addr \<Rightarrow> addr \<Rightarrow> store option" where
  "set_prev h p v = (if p = NULL then None else Some (h(p := (h p)\<lparr>prev := v\<rparr>)))"

definition set_next :: "store \<Rightarrow> addr \<Rightarrow> addr \<Rightarrow> store option" where
  "set_next h p v = (if p = NULL then None else Some (h(p := (h p)\<lparr>next := v\<rparr>)))"

definition list_init :: "store \<Rightarrow> addr \<Rightarrow> store option" where
  "list_init h l = do {
     h \<leftarrow> set_prev h (list_head l) NULL;
     h \<leftarrow> set_next h (list_tail l) NULL;
     h \<leftarrow> set_next h (list_head l) (list_tail l);
     set_prev h (list_tail l) (list_head l) }"

definition list_insert_before :: "store \<Rightarrow> addr \<Rightarrow> addr \<Rightarrow> store option" where
  "list_insert_before h anchor node = do {
     p \<leftarrow> get_prev h anchor;
     h \<leftarrow> set_prev h node p;
     h \<leftarrow> set_next h node anchor;
     p \<leftarrow> get_prev h anchor;
     h \<leftarrow> set_next h p node;
     set_prev h anchor node }"

definition list_insert_after :: "store \<Rightarrow> addr \<Rightarrow> addr \<Rightarrow> store option" where
  "list_insert_after h anchor node = do {
     h \<leftarrow> set_prev h node anchor;
     n \<leftarrow> get_next h anchor;
     h \<leftarrow> set_next h node n;
     n \<leftarrow> get_next h anchor;
     h \<leftarrow> set_prev h n node;
     set_next h anchor node }"

definition list_remove :: "store \<Rightarrow> addr \<Rightarrow> store option" where
  "list_remove h node = do {
     p \<leftarrow> get_prev h node;
     kassert (p \<noteq> NULL);
     n \<leftarrow> get_next h node;
     kassert (n \<noteq> NULL);
     h \<leftarrow> set_next h p n;
     n \<leftarrow> get_next h node;
     p \<leftarrow> get_prev h node;
     h \<leftarrow> set_prev h n p;
     h \<leftarrow> set_next h node NULL;
     set_prev h node NULL }"

definition list_empty :: "store \<Rightarrow> addr \<Rightarrow> bool option" where
  "list_empty h l = do { n \<leftarrow> get_next h (list_head l); Some (n = list_tail l) }"

text \<open>The loops walk the links and need not end on a cyclic store.\<close>

partial_function (option) list_search_from :: "store \<Rightarrow> addr \<Rightarrow> addr \<Rightarrow> addr \<Rightarrow> bool option" where
  "list_search_from h l node nx =
     (if nx \<noteq> list_tail l then
        if nx = node then Some True
        else do { nx' \<leftarrow> get_next h nx; list_search_from h l node nx' }
      else Some False)"

definition list_search :: "store \<Rightarrow> addr \<Rightarrow> addr \<Rightarrow> bool option" where
  "list_search h l node = do { nx \<leftarrow> get_next h (list_head l); list_search_from h l node nx }"

partial_function (option) list_size_from :: "store \<Rightarrow> addr \<Rightarrow> addr \<Rightarrow> u32 \<Rightarrow> u32 option" where
  "list_size_from h l nx sz =
     (if nx \<noteq> list_tail l then do { nx' \<leftarrow> get_next h nx; list_size_from h l nx' (sz + 1) }
      else Some sz)"

definition list_size :: "store \<Rightarrow> addr \<Rightarrow> u32 option" where
  "list_size h l = do { nx \<leftarrow> get_next h (list_head l); list_size_from h l nx 0 }"

definition list_push :: "store \<Rightarrow> addr \<Rightarrow> addr \<Rightarrow> store option" where
  "list_push h l node = do {
     found \<leftarrow> list_search h l node;
     kassert (\<not> found);
     list_insert_after h (list_head l) node }"

definition list_pop :: "store \<Rightarrow> addr \<Rightarrow> (addr \<times> store) option" where
  "list_pop h l = do {
     e \<leftarrow> list_empty h l;
     kassert (\<not> e);
     node \<leftarrow> get_next h (list_head l);
     h \<leftarrow> list_remove h node;
     Some (node, h) }"

definition list_pushback :: "store \<Rightarrow> addr \<Rightarrow> addr \<Rightarrow> store option" where
  "list_pushback h l node = do {
     found \<leftarrow> list_search h l node;
     kassert (\<not> found);
     list_insert_before h (list_tail l) node }"

definition list_popback :: "store \<Rightarrow> addr \<Rightarrow> (addr \<times> store) option" where
  "list_popback h l = do {
     e \<leftarrow> list_empty h l;
     kassert (\<not> e);
     node \<leftarrow> get_prev h (list_tail l);
     h \<leftarrow> list_remove h node;
     Some (node, h) }"

text \<open>
  \<^verbatim>\<open>element_node_key(node, offset)\<close> reads the \<^verbatim>\<open>int\<close> at \<open>node + offset\<close>; \<open>mem\<close> is the
  memory the keys live in.
\<close>

definition element_node_key :: "(addr \<Rightarrow> u32) \<Rightarrow> addr \<Rightarrow> u32 \<Rightarrow> int" where
  "element_node_key mem node off = sint (mem (node + off))"

partial_function (option) list_sort_anchor ::
  "store \<Rightarrow> (addr \<Rightarrow> u32) \<Rightarrow> addr \<Rightarrow> int \<Rightarrow> u32 \<Rightarrow> addr \<Rightarrow> addr option" where
  "list_sort_anchor h mem l key off ptr =
     (if ptr \<noteq> list_tail l then
        if element_node_key mem ptr off > key then Some ptr
        else do { ptr' \<leftarrow> get_next h ptr; list_sort_anchor h mem l key off ptr' }
      else Some (list_tail l))"

definition list_insert_sort :: "store \<Rightarrow> (addr \<Rightarrow> u32) \<Rightarrow> addr \<Rightarrow> addr \<Rightarrow> u32 \<Rightarrow> store option" where
  "list_insert_sort h mem l node off = do {
     let key = element_node_key mem node off;
     ptr \<leftarrow> get_next h (list_head l);
     anchor \<leftarrow> list_sort_anchor h mem l key off ptr;
     n \<leftarrow> get_next h node;
     kassert (n = NULL);
     p \<leftarrow> get_prev h node;
     kassert (p = NULL);
     list_insert_before h anchor node }"

section \<open>What a list in the store stands for\<close>

fun linked :: "store \<Rightarrow> addr list \<Rightarrow> bool" where
  "linked h (a # b # xs) \<longleftrightarrow> next (h a) = b \<and> prev (h b) = a \<and> linked h (b # xs)"
| "linked h xs \<longleftrightarrow> True"

definition dnodes :: "addr \<Rightarrow> addr list \<Rightarrow> addr list" where
  "dnodes l xs = list_head l # xs @ [list_tail l]"

definition dlist :: "store \<Rightarrow> addr \<Rightarrow> addr list \<Rightarrow> bool" where
  "dlist h l xs \<longleftrightarrow> linked h (dnodes l xs) \<and> distinct (dnodes l xs) \<and> NULL \<notin> set (dnodes l xs)"

text \<open>A node that is in no list: both links are null.\<close>

definition unlinked :: "store \<Rightarrow> addr \<Rightarrow> bool" where
  "unlinked h n \<longleftrightarrow> next (h n) = NULL \<and> prev (h n) = NULL"

lemmas node_access = get_prev_def get_next_def set_prev_def set_next_def

section \<open>Chains\<close>

lemma linked_split:
  "linked h (as @ a # b # bs) \<longleftrightarrow>
   linked h (as @ [a]) \<and> next (h a) = b \<and> prev (h b) = a \<and> linked h (b # bs)"
proof (induction as)
  case (Cons x as)
  then show ?case by (cases as) auto
qed simp

lemma linked_cong:
  "(\<And>x. x \<in> set (butlast xs) \<Longrightarrow> next (h x) = next (h' x)) \<Longrightarrow>
   (\<And>x. x \<in> set (tl xs) \<Longrightarrow> prev (h x) = prev (h' x)) \<Longrightarrow> linked h xs = linked h' xs"
  by (induction h xs rule: linked.induct) auto

lemma linked_cong_eq:
  "(\<And>x. x \<in> set xs \<Longrightarrow> h x = h' x) \<Longrightarrow> linked h xs = linked h' xs"
  by (rule linked_cong) (cases xs; auto dest: in_set_butlastD split: if_splits)+

text \<open>Frame: a store that agrees on the nodes of a list keeps the list.\<close>

lemma dlist_frame:
  "dlist h l xs \<Longrightarrow> (\<And>x. x \<in> set (dnodes l xs) \<Longrightarrow> h' x = h x) \<Longrightarrow> dlist h' l xs"
  unfolding dlist_def using linked_cong_eq [of "dnodes l xs" h' h] by auto

lemma dlist_first:
  assumes "dlist h l xs"
  shows "l \<noteq> NULL" "l + 8 \<noteq> NULL"
    "next (h l) = (case xs of [] \<Rightarrow> list_tail l | x # _ \<Rightarrow> x)"
    "prev (h (list_tail l)) = (if xs = [] then l else last xs)"
proof -
  show "l \<noteq> NULL" "l + 8 \<noteq> NULL" using assms by (auto simp: dlist_def dnodes_def)
  show "next (h l) = (case xs of [] \<Rightarrow> list_tail l | x # _ \<Rightarrow> x)"
    using assms by (cases xs) (auto simp: dlist_def dnodes_def)
  show "prev (h (list_tail l)) = (if xs = [] then l else last xs)"
  proof (cases xs rule: rev_cases)
    case (snoc ys y)
    then show ?thesis
      using assms linked_split [of h "l # ys" y "list_tail l" "[]"] by (simp add: dlist_def dnodes_def)
  qed (use assms in \<open>simp add: dlist_def dnodes_def\<close>)
qed

section \<open>Insertion and removal\<close>

text \<open>The store after a node was put between two neighbours.\<close>

definition link_between :: "store \<Rightarrow> addr \<Rightarrow> addr \<Rightarrow> addr \<Rightarrow> store \<Rightarrow> bool" where
  "link_between h a n b h' \<longleftrightarrow>
     next (h' a) = n \<and> prev (h' n) = a \<and> next (h' n) = b \<and> prev (h' b) = n \<and>
     prev (h' a) = prev (h a) \<and> next (h' b) = next (h b) \<and>
     (\<forall>x. x \<noteq> a \<and> x \<noteq> n \<and> x \<noteq> b \<longrightarrow> h' x = h x)"

lemma linked_insert:
  assumes "linked h (as @ a # b # bs)" "distinct (as @ a # b # bs)" "n \<notin> set (as @ a # b # bs)"
    and lb: "link_between h a n b h'"
  shows "linked h' (as @ a # n # b # bs)"
proof -
  have s: "linked h (as @ [a])" "linked h (b # bs)"
    using assms(1) by (simp_all add: linked_split)
  have n: "a \<noteq> n" "b \<noteq> n" "a \<noteq> b" and d: "a \<notin> set as" "b \<notin> set as" "n \<notin> set as"
      "a \<notin> set bs" "b \<notin> set bs" "n \<notin> set bs"
    using assms(2,3) by auto
  have fr: "h' x = h x" if "x \<noteq> a" "x \<noteq> n" "x \<noteq> b" for x
    using lb that by (auto simp: link_between_def)
  have pa: "prev (h' a) = prev (h a)" and nb: "next (h' b) = next (h b)"
    using lb by (auto simp: link_between_def)
  have fas: "h' x = h x" if "x \<in> set as" for x using that d by (intro fr) auto
  have fbs: "h' x = h x" if "x \<in> set bs" for x using that d by (intro fr) auto
  have "linked h' (as @ [a])"
  proof -
    have "x \<in> set as \<or> x = a" if "x \<in> set (tl (as @ [a]))" for x using that by (cases as) auto
    then have "prev (h x) = prev (h' x)" if "x \<in> set (tl (as @ [a]))" for x
      using that fas pa by metis
    then show ?thesis using linked_cong [of "as @ [a]" h h'] s(1) fas by auto
  qed
  moreover have "linked h' (b # bs)"
  proof -
    have "x \<in> set bs \<or> x = b" if "x \<in> set (butlast (b # bs))" for x
      using in_set_butlastD [OF that] by auto
    then have "next (h x) = next (h' x)" if "x \<in> set (butlast (b # bs))" for x
      using that fbs nb by metis
    then show ?thesis using linked_cong [of "b # bs" h h'] s(2) fbs by auto
  qed
  moreover have "next (h' a) = n" "prev (h' n) = a" "next (h' n) = b" "prev (h' b) = n"
    using lb by (auto simp: link_between_def)
  ultimately show ?thesis by (simp add: linked_split)
qed

lemma list_insert_before_links:
  assumes "prev (h b) = a" "a \<noteq> NULL" "b \<noteq> NULL" "n \<noteq> NULL" "a \<noteq> n" "b \<noteq> n" "a \<noteq> b"
  shows "\<exists>h'. list_insert_before h b n = Some h' \<and> link_between h a n b h'"
  using assms by (auto simp: list_insert_before_def node_access link_between_def)

lemma list_insert_after_links:
  assumes "next (h a) = b" "a \<noteq> NULL" "b \<noteq> NULL" "n \<noteq> NULL" "a \<noteq> n" "b \<noteq> n" "a \<noteq> b"
  shows "\<exists>h'. list_insert_after h a n = Some h' \<and> link_between h a n b h'"
  using assms by (auto simp: list_insert_after_def node_access link_between_def)

text \<open>The store after a node was taken out from between two neighbours.\<close>

definition unlink_between :: "store \<Rightarrow> addr \<Rightarrow> addr \<Rightarrow> addr \<Rightarrow> store \<Rightarrow> bool" where
  "unlink_between h a n b h' \<longleftrightarrow>
     next (h' a) = b \<and> prev (h' b) = a \<and> unlinked h' n \<and>
     prev (h' a) = prev (h a) \<and> next (h' b) = next (h b) \<and>
     (\<forall>x. x \<noteq> a \<and> x \<noteq> n \<and> x \<noteq> b \<longrightarrow> h' x = h x)"

lemma list_remove_links:
  assumes "next (h n) = b" "prev (h n) = a" "a \<noteq> NULL" "b \<noteq> NULL" "n \<noteq> NULL" "a \<noteq> n" "b \<noteq> n" "a \<noteq> b"
  shows "\<exists>h'. list_remove h n = Some h' \<and> unlink_between h a n b h'"
  using assms by (auto simp: list_remove_def node_access unlink_between_def unlinked_def)

lemma linked_delete:
  assumes "linked h (as @ a # n # b # bs)" "distinct (as @ a # n # b # bs)"
    and ub: "unlink_between h a n b h'"
  shows "linked h' (as @ a # b # bs)"
proof -
  have s: "linked h (as @ [a])" "linked h (b # bs)"
    using assms(1) by (auto simp: linked_split)
  have d: "a \<notin> set as" "b \<notin> set as" "n \<notin> set as" "a \<notin> set bs" "b \<notin> set bs" "n \<notin> set bs"
    using assms(2) by auto
  have fr: "h' x = h x" if "x \<noteq> a" "x \<noteq> n" "x \<noteq> b" for x
    using ub that by (auto simp: unlink_between_def)
  have pa: "prev (h' a) = prev (h a)" and nb: "next (h' b) = next (h b)"
    using ub by (auto simp: unlink_between_def)
  have fas: "h' x = h x" if "x \<in> set as" for x using that d by (intro fr) auto
  have fbs: "h' x = h x" if "x \<in> set bs" for x using that d by (intro fr) auto
  have "linked h' (as @ [a])"
  proof -
    have "x \<in> set as \<or> x = a" if "x \<in> set (tl (as @ [a]))" for x using that by (cases as) auto
    then have "prev (h x) = prev (h' x)" if "x \<in> set (tl (as @ [a]))" for x
      using that fas pa by metis
    then show ?thesis using linked_cong [of "as @ [a]" h h'] s(1) fas by auto
  qed
  moreover have "linked h' (b # bs)"
  proof -
    have "x \<in> set bs \<or> x = b" if "x \<in> set (butlast (b # bs))" for x
      using in_set_butlastD [OF that] by auto
    then have "next (h x) = next (h' x)" if "x \<in> set (butlast (b # bs))" for x
      using that fbs nb by metis
    then show ?thesis using linked_cong [of "b # bs" h h'] s(2) fbs by auto
  qed
  ultimately show ?thesis using ub by (simp add: linked_split unlink_between_def)
qed

text \<open>Around any element of a list there is a left and a right neighbour.\<close>

lemma dnodes_around:
  "dnodes l (xs @ n # ys) =
   butlast (l # xs) @ last (l # xs) # n # hd (ys @ [list_tail l]) # tl (ys @ [list_tail l])"
  by (cases xs rule: rev_cases; cases ys; simp add: dnodes_def)

lemma remove_chain:
  assumes lk: "linked h (as @ a # n # b # bs)" and dis: "distinct (as @ a # n # b # bs)"
    and nn: "NULL \<notin> set (as @ a # n # b # bs)"
  shows "\<exists>h'. list_remove h n = Some h' \<and> linked h' (as @ a # b # bs) \<and> unlinked h' n \<and>
     (\<forall>x. x \<notin> set (as @ a # n # b # bs) \<longrightarrow> h' x = h x)"
proof -
  have "next (h n) = b" "prev (h n) = a" using lk by (simp_all add: linked_split)
  then obtain h' where h': "list_remove h n = Some h'" "unlink_between h a n b h'"
    using list_remove_links [of h n b a] nn dis by auto
  then show ?thesis
    using linked_delete [OF lk dis h'(2)] by (auto simp: unlink_between_def)
qed

lemma list_remove_spec:
  assumes dl: "dlist h l (xs @ n # ys)"
  shows "\<exists>h'. list_remove h n = Some h' \<and> dlist h' l (xs @ ys) \<and> unlinked h' n \<and>
     (\<forall>x. x \<notin> set (dnodes l (xs @ n # ys)) \<longrightarrow> h' x = h x)"
proof -
  let ?as = "butlast (l # xs)" and ?a = "last (l # xs)"
  let ?b = "hd (ys @ [list_tail l])" and ?bs = "tl (ys @ [list_tail l])"
  note eq = dnodes_around [of l xs n ys]
  have eq': "dnodes l (xs @ ys) = ?as @ ?a # ?b # ?bs"
    by (cases xs rule: rev_cases; cases ys; simp add: dnodes_def)
  have "\<exists>h'. list_remove h n = Some h' \<and> linked h' (?as @ ?a # ?b # ?bs) \<and> unlinked h' n \<and>
     (\<forall>x. x \<notin> set (?as @ ?a # n # ?b # ?bs) \<longrightarrow> h' x = h x)"
    using dl unfolding dlist_def eq by (intro remove_chain) blast+
  moreover have "distinct (?as @ ?a # ?b # ?bs)" "NULL \<notin> set (?as @ ?a # ?b # ?bs)"
    using dl unfolding dlist_def eq by auto
  ultimately show ?thesis unfolding dlist_def eq eq' by blast
qed

text \<open>Insertion before any position and after the head, with the frame.\<close>

lemma insert_chain:
  assumes lk: "linked h (as @ a # b # bs)" and dis: "distinct (as @ a # b # bs)"
    and nn: "NULL \<notin> set (as @ a # b # bs)" and n: "n \<notin> set (as @ a # b # bs)" "n \<noteq> NULL"
  shows "\<exists>h'. list_insert_before h b n = Some h' \<and> linked h' (as @ a # n # b # bs) \<and>
      (\<forall>x. x \<noteq> n \<and> x \<notin> set (as @ a # b # bs) \<longrightarrow> h' x = h x)"
    and "\<exists>h'. list_insert_after h a n = Some h' \<and> linked h' (as @ a # n # b # bs) \<and>
      (\<forall>x. x \<noteq> n \<and> x \<notin> set (as @ a # b # bs) \<longrightarrow> h' x = h x)"
proof -
  have ab: "next (h a) = b" "prev (h b) = a" using lk by (simp_all add: linked_split)
  obtain h1 where h1: "list_insert_before h b n = Some h1" "link_between h a n b h1"
    using list_insert_before_links [of h b a n] ab nn n dis by auto
  then show "\<exists>h'. list_insert_before h b n = Some h' \<and> linked h' (as @ a # n # b # bs) \<and>
      (\<forall>x. x \<noteq> n \<and> x \<notin> set (as @ a # b # bs) \<longrightarrow> h' x = h x)"
    using linked_insert [OF lk dis n(1) h1(2)] by (auto simp: link_between_def)
  obtain h2 where h2: "list_insert_after h a n = Some h2" "link_between h a n b h2"
    using list_insert_after_links [of h a b n] ab nn n dis by auto
  then show "\<exists>h'. list_insert_after h a n = Some h' \<and> linked h' (as @ a # n # b # bs) \<and>
      (\<forall>x. x \<noteq> n \<and> x \<notin> set (as @ a # b # bs) \<longrightarrow> h' x = h x)"
    using linked_insert [OF lk dis n(1) h2(2)] by (auto simp: link_between_def)
qed

lemma insert_spec:
  assumes dl: "dlist h l (xs @ ys)" and n: "n \<notin> set (dnodes l (xs @ ys))" "n \<noteq> NULL"
  shows "\<exists>h'. list_insert_before h (hd (ys @ [list_tail l])) n = Some h' \<and> dlist h' l (xs @ n # ys) \<and>
       (\<forall>x. x \<noteq> n \<and> x \<notin> set (dnodes l (xs @ ys)) \<longrightarrow> h' x = h x)"
    and "\<exists>h'. list_insert_after h (last (l # xs)) n = Some h' \<and> dlist h' l (xs @ n # ys) \<and>
       (\<forall>x. x \<noteq> n \<and> x \<notin> set (dnodes l (xs @ ys)) \<longrightarrow> h' x = h x)"
proof -
  let ?as = "butlast (l # xs)" and ?a = "last (l # xs)"
  let ?b = "hd (ys @ [list_tail l])" and ?bs = "tl (ys @ [list_tail l])"
  have eq: "dnodes l (xs @ ys) = ?as @ ?a # ?b # ?bs"
    by (cases xs rule: rev_cases; cases ys; simp add: dnodes_def)
  note eq' = dnodes_around [of l xs n ys]
  have lk: "linked h (?as @ ?a # ?b # ?bs)" and dis: "distinct (?as @ ?a # ?b # ?bs)"
    and nn: "NULL \<notin> set (?as @ ?a # ?b # ?bs)" and fresh: "n \<notin> set (?as @ ?a # ?b # ?bs)"
    using dl n unfolding dlist_def eq by blast+
  have d': "distinct (?as @ ?a # n # ?b # ?bs)" "NULL \<notin> set (?as @ ?a # n # ?b # ?bs)"
    using dis nn n(2) fresh by auto
  note ins = insert_chain [OF lk dis nn fresh n(2)]
  show "\<exists>h'. list_insert_before h ?b n = Some h' \<and> dlist h' l (xs @ n # ys) \<and>
       (\<forall>x. x \<noteq> n \<and> x \<notin> set (dnodes l (xs @ ys)) \<longrightarrow> h' x = h x)"
    unfolding dlist_def eq eq' using ins(1) d' by blast
  show "\<exists>h'. list_insert_after h ?a n = Some h' \<and> dlist h' l (xs @ n # ys) \<and>
       (\<forall>x. x \<noteq> n \<and> x \<notin> set (dnodes l (xs @ ys)) \<longrightarrow> h' x = h x)"
    unfolding dlist_def eq eq' using ins(2) d' by blast
qed

section \<open>The operations on the list a store stands for\<close>

lemma list_init_spec:
  assumes "l \<noteq> NULL" "list_tail l \<noteq> NULL"
  shows "\<exists>h'. list_init h l = Some h' \<and> dlist h' l [] \<and> (\<forall>x. x \<noteq> l \<and> x \<noteq> list_tail l \<longrightarrow> h' x = h x)"
proof -
  have "list_tail l \<noteq> l" by simp
  with assms show ?thesis
    by (auto simp: list_init_def node_access dlist_def dnodes_def)
qed

lemma list_empty_spec:
  assumes "dlist h l xs"
  shows "list_empty h l = Some (xs = [])"
proof -
  have "list_tail l \<notin> set xs" using assms by (auto simp: dlist_def dnodes_def)
  then show ?thesis
    using dlist_first(1,3) [OF assms] by (cases xs) (auto simp: list_empty_def get_next_def)
qed

text \<open>A walk along the links from any position of a list visits the rest of it.\<close>

lemma list_search_from_spec:
  "linked h (ys @ [list_tail l]) \<Longrightarrow> distinct (ys @ [list_tail l]) \<Longrightarrow> NULL \<notin> set ys \<Longrightarrow>
   list_search_from h l node (hd (ys @ [list_tail l])) = Some (node \<in> set ys)"
proof (induction ys)
  case Nil
  then show ?case by (simp add: list_search_from.simps)
next
  case (Cons y ys)
  have "next (h y) = hd (ys @ [list_tail l])" using Cons.prems(1) by (cases ys) auto
  moreover have "linked h (ys @ [list_tail l])" using Cons.prems(1) by (cases ys) auto
  ultimately show ?case
    using Cons by (subst list_search_from.simps) (auto simp: node_access)
qed

lemma dlist_suffix:
  assumes "dlist h l xs"
  shows "linked h (xs @ [list_tail l])" "distinct (xs @ [list_tail l])" "NULL \<notin> set xs"
    "get_next h (list_head l) = Some (hd (xs @ [list_tail l]))"
  using assms dlist_first [OF assms] by (cases xs; auto simp: dlist_def dnodes_def node_access)+

lemma list_search_spec:
  assumes "dlist h l xs"
  shows "list_search h l node = Some (node \<in> set xs)"
  using list_search_from_spec [OF dlist_suffix(1-3) [OF assms]] dlist_suffix(4) [OF assms]
  by (simp add: list_search_def del: hd_append2)

lemma list_size_from_spec:
  "linked h (ys @ [list_tail l]) \<Longrightarrow> distinct (ys @ [list_tail l]) \<Longrightarrow> NULL \<notin> set ys \<Longrightarrow>
   list_size_from h l (hd (ys @ [list_tail l])) sz = Some (sz + of_nat (length ys))"
proof (induction ys arbitrary: sz)
  case Nil
  then show ?case by (simp add: list_size_from.simps)
next
  case (Cons y ys)
  have "next (h y) = hd (ys @ [list_tail l])" using Cons.prems(1) by (cases ys) auto
  moreover have "linked h (ys @ [list_tail l])" using Cons.prems(1) by (cases ys) auto
  ultimately show ?case
    using Cons by (subst list_size_from.simps) (auto simp: node_access add.assoc)
qed

lemma list_size_spec:
  assumes "dlist h l xs"
  shows "list_size h l = Some (of_nat (length xs))"
  using list_size_from_spec [OF dlist_suffix(1-3) [OF assms], of 0] dlist_suffix(4) [OF assms]
  by (simp add: list_size_def del: hd_append2)

lemma list_push_spec:
  assumes "dlist h l xs" "n \<notin> set (dnodes l xs)" "n \<noteq> NULL"
  shows "\<exists>h'. list_push h l n = Some h' \<and> dlist h' l (n # xs) \<and>
     (\<forall>x. x \<noteq> n \<and> x \<notin> set (dnodes l xs) \<longrightarrow> h' x = h x)"
proof -
  have "n \<notin> set xs" using assms(2) by (auto simp: dnodes_def)
  then show ?thesis
    using insert_spec(2) [of h l "[]" xs n] assms by (simp add: list_push_def list_search_spec)
qed

lemma list_pushback_spec:
  assumes "dlist h l xs" "n \<notin> set (dnodes l xs)" "n \<noteq> NULL"
  shows "\<exists>h'. list_pushback h l n = Some h' \<and> dlist h' l (xs @ [n]) \<and>
     (\<forall>x. x \<noteq> n \<and> x \<notin> set (dnodes l xs) \<longrightarrow> h' x = h x)"
proof -
  have "n \<notin> set xs" using assms(2) by (auto simp: dnodes_def)
  then show ?thesis
    using insert_spec(1) [of h l xs "[]" n] assms by (simp add: list_pushback_def list_search_spec)
qed

lemma list_pop_spec:
  assumes "dlist h l (x # xs)"
  shows "\<exists>h'. list_pop h l = Some (x, h') \<and> dlist h' l xs \<and> unlinked h' x \<and>
     (\<forall>y. y \<notin> set (dnodes l (x # xs)) \<longrightarrow> h' y = h y)"
  using list_remove_spec [of h l "[]" x xs] assms dlist_suffix(4) [OF assms]
  by (auto simp: list_pop_def list_empty_spec)

lemma list_popback_spec:
  assumes "dlist h l (xs @ [x])"
  shows "\<exists>h'. list_popback h l = Some (x, h') \<and> dlist h' l xs \<and> unlinked h' x \<and>
     (\<forall>y. y \<notin> set (dnodes l (xs @ [x])) \<longrightarrow> h' y = h y)"
  using list_remove_spec [of h l xs x "[]"] assms dlist_first [OF assms]
  by (auto simp: list_popback_def list_empty_spec node_access)

lemma list_pop_empty: "dlist h l [] \<Longrightarrow> list_pop h l = None \<and> list_popback h l = None"
  by (simp add: list_pop_def list_popback_def list_empty_spec)

section \<open>Sorted insertion\<close>

lemma list_sort_anchor_spec:
  "linked h (ys @ [list_tail l]) \<Longrightarrow> distinct (ys @ [list_tail l]) \<Longrightarrow> NULL \<notin> set ys \<Longrightarrow>
   list_sort_anchor h mem l key off (hd (ys @ [list_tail l])) =
     Some (hd (dropWhile (\<lambda>p. element_node_key mem p off \<le> key) ys @ [list_tail l]))"
proof (induction ys)
  case Nil
  then show ?case by (simp add: list_sort_anchor.simps)
next
  case (Cons y ys)
  have "next (h y) = hd (ys @ [list_tail l])" using Cons.prems(1) by (cases ys) auto
  moreover have "linked h (ys @ [list_tail l])" using Cons.prems(1) by (cases ys) auto
  ultimately show ?case
    using Cons by (subst list_sort_anchor.simps) (auto simp: node_access)
qed

lemma list_insert_sort_spec:
  fixes mem :: "addr \<Rightarrow> u32" and off :: u32
  assumes dl: "dlist h l xs" and n: "n \<notin> set (dnodes l xs)" "n \<noteq> NULL" and un: "unlinked h n"
  defines "smaller \<equiv> (\<lambda>p. element_node_key mem p off \<le> element_node_key mem n off)"
  shows "\<exists>h'. list_insert_sort h mem l n off = Some h' \<and>
     dlist h' l (takeWhile smaller xs @ n # dropWhile smaller xs) \<and>
     (\<forall>x. x \<noteq> n \<and> x \<notin> set (dnodes l xs) \<longrightarrow> h' x = h x)"
proof -
  have a: "list_sort_anchor h mem l (element_node_key mem n off) off (hd (xs @ [list_tail l])) =
      Some (hd (dropWhile smaller xs @ [list_tail l]))"
    unfolding smaller_def using dlist_suffix [OF dl] by (intro list_sort_anchor_spec)
  have split: "takeWhile smaller xs @ dropWhile smaller xs = xs" by simp
  show ?thesis
    using insert_spec(1) [of h l "takeWhile smaller xs" "dropWhile smaller xs" n] dl n un
      dlist_suffix(4) [OF dl] a
    by (simp add: split list_insert_sort_def Let_def node_access unlinked_def)
qed

section \<open>The queue contract\<close>

text \<open>
  What the wait queues, the request queues and the buffer cache rely on: one operation that
  adds a node at one end, one that takes a node off the other. \<open>rep\<close> relates a store to the
  nodes queued in it, oldest first; \<open>node_ok\<close> holds of the nodes that may be queued.
\<close>

fun kfold :: "('s \<Rightarrow> 'a \<Rightarrow> 's option) \<Rightarrow> 's \<Rightarrow> 'a list \<Rightarrow> 's option" where
  "kfold put s [] = Some s"
| "kfold put s (n # ns) = do { s \<leftarrow> put s n; kfold put s ns }"

fun kdrain :: "('s \<Rightarrow> ('a \<times> 's) option) \<Rightarrow> nat \<Rightarrow> 's \<Rightarrow> ('a list \<times> 's) option" where
  "kdrain take_one 0 s = Some ([], s)"
| "kdrain take_one (Suc k) s = do {
     (x, s) \<leftarrow> take_one s;
     (xs, s) \<leftarrow> kdrain take_one k s;
     Some (x # xs, s) }"

locale node_queue =
  fixes rep :: "'s \<Rightarrow> 'n list \<Rightarrow> bool"
    and node_ok :: "'n \<Rightarrow> bool"
    and put :: "'s \<Rightarrow> 'n \<Rightarrow> 's option"
    and take_one :: "'s \<Rightarrow> ('n \<times> 's) option"
  assumes put_law: "rep s xs \<Longrightarrow> node_ok n \<Longrightarrow> n \<notin> set xs \<Longrightarrow> \<exists>s'. put s n = Some s' \<and> rep s' (xs @ [n])"
    and put_twice_law: "rep s xs \<Longrightarrow> n \<in> set xs \<Longrightarrow> put s n = None"
    and take_law: "rep s (x # xs) \<Longrightarrow> \<exists>s'. take_one s = Some (x, s') \<and> rep s' xs"
    and take_empty_law: "rep s [] \<Longrightarrow> take_one s = None"
begin

lemma kfold_rep:
  "rep s xs \<Longrightarrow> distinct (xs @ ns) \<Longrightarrow> list_all node_ok ns \<Longrightarrow>
   \<exists>s'. kfold put s ns = Some s' \<and> rep s' (xs @ ns)"
proof (induction ns arbitrary: s xs)
  case (Cons n ns)
  then obtain s1 where "put s n = Some s1" "rep s1 (xs @ [n])" using put_law [of s xs n] by auto
  with Cons.IH [of s1 "xs @ [n]"] Cons.prems show ?case by auto
qed simp

lemma kdrain_rep:
  "rep s (ns @ xs) \<Longrightarrow> \<exists>s'. kdrain take_one (length ns) s = Some (ns, s') \<and> rep s' xs"
proof (induction ns arbitrary: s)
  case (Cons n ns)
  then obtain s1 where "take_one s = Some (n, s1)" "rep s1 (ns @ xs)" using take_law by fastforce
  with Cons.IH [of s1] show ?case by auto
qed simp

lemma first_in_first_out:
  assumes "rep s []" "distinct ns" "list_all node_ok ns"
  shows "\<exists>s1 s2. kfold put s ns = Some s1 \<and> kdrain take_one (length ns) s1 = Some (ns, s2) \<and>
     rep s2 [] \<and> take_one s2 = None"
proof -
  obtain s1 where s1: "kfold put s ns = Some s1" "rep s1 (ns @ [])"
    using kfold_rep [OF assms(1), of ns] assms by auto
  then show ?thesis using kdrain_rep [OF s1(2)] take_empty_law by auto
qed

lemma queued_twice_stops:
  "rep s [] \<Longrightarrow> distinct ns \<Longrightarrow> list_all node_ok ns \<Longrightarrow> n \<in> set ns \<Longrightarrow> kfold put s (ns @ [n]) = None"
proof -
  assume a: "rep s []" "distinct ns" "list_all node_ok ns" "n \<in> set ns"
  have app: "kfold put s (xs @ ys) = do { s \<leftarrow> kfold put s xs; kfold put s ys }" for s xs ys
    by (induction xs arbitrary: s) (auto split: bind_splits)
  show ?thesis
    using kfold_rep [OF a(1), of ns] a put_twice_law by (auto simp: app)
qed

end

definition list_node_ok :: "addr \<Rightarrow> addr \<Rightarrow> bool" where
  "list_node_ok l n \<longleftrightarrow> n \<noteq> NULL \<and> n \<noteq> list_head l \<and> n \<noteq> list_tail l"

lemma list_node_ok_dnodes: "list_node_ok l n \<Longrightarrow> n \<notin> set xs \<Longrightarrow> n \<notin> set (dnodes l xs) \<and> n \<noteq> NULL"
  by (auto simp: list_node_ok_def dnodes_def)

interpretation back_front: node_queue "\<lambda>h. dlist h l" "list_node_ok l" "\<lambda>h. list_pushback h l" "\<lambda>h. list_pop h l"
  for l
proof unfold_locales
  fix h xs n assume "dlist h l xs" "list_node_ok l n" "n \<notin> set xs"
  then show "\<exists>h'. list_pushback h l n = Some h' \<and> dlist h' l (xs @ [n])"
    using list_pushback_spec [of h l xs n] list_node_ok_dnodes by blast
qed (use list_pop_spec list_pop_empty in \<open>fastforce simp: list_pushback_def list_search_spec\<close>)+

interpretation front_back: node_queue "\<lambda>h xs. dlist h l (rev xs)" "list_node_ok l" "\<lambda>h. list_push h l"
    "\<lambda>h. list_popback h l"
  for l
proof unfold_locales
  fix h xs n assume "dlist h l (rev xs)" "list_node_ok l n" "n \<notin> set xs"
  then show "\<exists>h'. list_push h l n = Some h' \<and> dlist h' l (rev (xs @ [n]))"
    using list_push_spec [of h l "rev xs" n] list_node_ok_dnodes [of l n "rev xs"] by auto
next
  fix h x xs assume "dlist h l (rev (x # xs))"
  then show "\<exists>h'. list_popback h l = Some (x, h') \<and> dlist h' l (rev xs)"
    using list_popback_spec [of h l "rev xs" x] by auto
qed (use list_pop_empty in \<open>auto simp: list_push_def list_search_spec\<close>)

section \<open>Properties\<close>

text \<open>
  First in, first out: distinct nodes queued with \<^verbatim>\<open>list_pushback\<close> on an empty list come
  off with \<^verbatim>\<open>list_pop\<close> in the order they went in, none lost, the list is empty again and a
  further \<^verbatim>\<open>list_pop\<close> trips its assertion.
\<close>

lemma list_pushback_pop_fifo:
  assumes "dlist h l []" "distinct ns" "list_all (list_node_ok l) ns"
  shows "\<exists>h1 h2. kfold (\<lambda>h. list_pushback h l) h ns = Some h1 \<and>
     kdrain (\<lambda>h. list_pop h l) (length ns) h1 = Some (ns, h2) \<and> dlist h2 l [] \<and> list_pop h2 l = None"
  using back_front.first_in_first_out [OF assms] .

text \<open>A store with an initialised list at address 16.\<close>

definition demo_store :: store where
  "demo_store = (\<lambda>_. \<lparr>prev = 0, next = 0\<rparr>)(16 := \<lparr>prev = 0, next = 24\<rparr>, 24 := \<lparr>prev = 16, next = 0\<rparr>)"

lemma demo_store_dlist: "dlist demo_store 16 []"
  by (simp add: demo_store_def dlist_def dnodes_def)

lemma list_pushback_pop_fifo_witness:
  "\<exists>h1 h2. kfold (\<lambda>h. list_pushback h 16) demo_store [40, 48, 56] = Some h1 \<and>
     kdrain (\<lambda>h. list_pop h 16) (length [40::u32, 48, 56]) h1 = Some ([40, 48, 56], h2) \<and>
     dlist h2 16 [] \<and> list_pop h2 16 = None"
  by (rule list_pushback_pop_fifo) (simp_all add: demo_store_dlist list_node_ok_def)

text \<open>
  \<^verbatim>\<open>list_remove\<close> takes exactly its node out of the list that holds it, both links of the
  node end null, and every other list that shares no node with this one is unchanged.
\<close>

lemma list_remove_local:
  assumes "dlist h l xs" "n \<in> set xs" "dlist h l' ys" "set (dnodes l xs) \<inter> set (dnodes l' ys) = {}"
  shows "\<exists>h'. list_remove h n = Some h' \<and> dlist h' l (remove1 n xs) \<and> unlinked h' n \<and> dlist h' l' ys"
proof -
  obtain as bs where xs: "xs = as @ n # bs" "n \<notin> set as" using assms(2) by (meson split_list_first)
  obtain h' where h': "list_remove h n = Some h'" "dlist h' l (as @ bs)" "unlinked h' n"
      "\<forall>x. x \<notin> set (dnodes l xs) \<longrightarrow> h' x = h x"
    using list_remove_spec [of h l as n bs] assms(1) xs by auto
  have "h' x = h x" if "x \<in> set (dnodes l' ys)" for x using that assms(4) h'(4) by blast
  then have "dlist h' l' ys" by (rule dlist_frame [OF assms(3)])
  then show ?thesis using h' xs by (simp add: remove1_append)
qed

lemma list_remove_local_witness:
  "\<exists>h h'. list_remove h 40 = Some h' \<and> dlist h' 16 (remove1 40 [40, 48]) \<and> unlinked h' 40 \<and> dlist h' 96 []"
proof -
  define h :: store where
    "h = (\<lambda>_. \<lparr>prev = 0, next = 0\<rparr>)(16 := \<lparr>prev = 0, next = 40\<rparr>, 40 := \<lparr>prev = 16, next = 48\<rparr>,
       48 := \<lparr>prev = 40, next = 24\<rparr>, 24 := \<lparr>prev = 48, next = 0\<rparr>,
       96 := \<lparr>prev = 0, next = 104\<rparr>, 104 := \<lparr>prev = 96, next = 0\<rparr>)"
  have "dlist h 16 [40, 48]" "dlist h 96 []" "set (dnodes 16 [40, 48]) \<inter> set (dnodes 96 []) = {}"
    by (simp_all add: h_def dlist_def dnodes_def)
  then show ?thesis using list_remove_local [of h 16 "[40, 48]" 40 96 "[]"] by auto
qed

text \<open>
  \<^verbatim>\<open>list_insert_sort\<close> keeps a list sorted by the signed key at the given offset: the node
  goes in after every node whose key is not larger, and no other node is added or lost.
\<close>

lemma list_insert_sort_sorted:
  fixes mem :: "addr \<Rightarrow> u32" and off :: u32
  assumes "dlist h l xs" "list_node_ok l n" "n \<notin> set xs" "unlinked h n"
    and "sorted (map (\<lambda>p. element_node_key mem p off) xs)"
  shows "\<exists>h' ys. list_insert_sort h mem l n off = Some h' \<and> dlist h' l ys \<and>
     sorted (map (\<lambda>p. element_node_key mem p off) ys) \<and> remove1 n ys = xs \<and> n \<in> set ys \<and>
     (\<forall>as bs. ys = as @ n # bs \<longrightarrow> (\<forall>p \<in> set bs. element_node_key mem n off < element_node_key mem p off))"
proof -
  let ?key = "\<lambda>p. element_node_key mem p off"
  let ?le = "\<lambda>p. ?key p \<le> ?key n"
  let ?as = "takeWhile ?le xs" and ?bs = "dropWhile ?le xs"
  obtain h' where h': "list_insert_sort h mem l n off = Some h'" "dlist h' l (?as @ n # ?bs)"
    using list_insert_sort_spec [OF assms(1) _ _ assms(4)] list_node_ok_dnodes [OF assms(2,3)] by blast
  have split: "xs = ?as @ ?bs" by simp
  have sbs: "sorted (map ?key ?bs)" and sas: "sorted (map ?key ?as)"
    using assms(5) by (subst (asm) split, simp only: map_append sorted_append)+
  have as: "?key p \<le> ?key n" if "p \<in> set ?as" for p using that by (auto dest: set_takeWhileD)
  have bs: "?key n < ?key p" if "p \<in> set ?bs" for p
  proof (cases ?bs)
    case (Cons b cs)
    then have "?key n < ?key b" using hd_dropWhile [of ?le xs] by auto
    moreover have "?key b \<le> ?key p" using sbs that Cons by auto
    ultimately show ?thesis by simp
  next
    case Nil
    show ?thesis using that unfolding Nil by simp
  qed
  have sorted: "sorted (map ?key (?as @ n # ?bs))"
    using sas sbs as bs by (fastforce simp: sorted_append)
  have nas: "n \<notin> set ?as" "n \<notin> set ?bs" using assms(3) by (auto dest: set_takeWhileD set_dropWhileD)
  have uniq: "bs' = ?bs" if "?as @ n # ?bs = as' @ n # bs'" for as' bs'
    using that nas append_Cons_eq_iff [of n ?as ?bs as' bs'] by simp
  have "remove1 n (?as @ n # ?bs) = xs" using nas by (simp add: remove1_append)
  then show ?thesis using h' sorted bs uniq by (metis in_set_conv_decomp)
qed

text \<open>Keys 5 and 9 at offset 8 of the nodes 40 and 56; a node with key 7 goes between them.\<close>

lemma list_insert_sort_sorted_witness:
  "\<exists>h h' ys. list_insert_sort h (\<lambda>a. if a = 48 then 5 else if a = 64 then 9 else 7) 16 72 8 = Some h' \<and>
     dlist h' 16 ys \<and> remove1 72 ys = [40, 56] \<and> 72 \<in> set ys"
proof -
  define h :: store where
    "h = (\<lambda>_. \<lparr>prev = 0, next = 0\<rparr>)(16 := \<lparr>prev = 0, next = 40\<rparr>, 40 := \<lparr>prev = 16, next = 56\<rparr>,
       56 := \<lparr>prev = 40, next = 24\<rparr>, 24 := \<lparr>prev = 56, next = 0\<rparr>)"
  have "dlist h 16 [40, 56]" "list_node_ok 16 72" "unlinked h 72"
    by (simp_all add: h_def dlist_def dnodes_def list_node_ok_def unlinked_def)
  then show ?thesis
    using list_insert_sort_sorted [of h 16 "[40, 56]" 72 "\<lambda>a. if a = 48 then 5 else if a = 64 then 9 else 7" 8]
    by (simp add: element_node_key_def) blast
qed

end
