(* ===== verification/Strings.thy ===== *)
theory Strings
  imports Prelude
begin

text \<open>
  \<^verbatim>\<open>src/lib/string.c\<close>: the byte and string routines of the kernel and of the user programs.
  Memory is a total map from 32-bit addresses to bytes, and every routine works on it as the
  C code does: one byte at a time, through moving pointers that wrap around at the width of an
  address. A scan that finds no terminator never ends, which is the value \<open>None\<close>; a counted
  loop recurs on its counter. \<^verbatim>\<open>char\<close> is signed, so bytes are ordered by the signed order.

  \<open>cstr m p s\<close> says that a terminated string with the characters \<open>s\<close> starts at \<open>p\<close>; under it
  every scan is shown to end with the answer the same question has on the list \<open>s\<close>.
\<close>

section \<open>Definitions\<close>

type_synonym mem = "u32 \<Rightarrow> u8"

partial_function (option) strcpy_loop :: "mem \<Rightarrow> u32 \<Rightarrow> u32 \<Rightarrow> mem option" where
  "strcpy_loop m ptr src =
     (let m' = m(ptr := m src) in
      if m' src = EOS then Some m' else strcpy_loop m' (ptr + 1) (src + 1))"

definition strcpy :: "mem \<Rightarrow> u32 \<Rightarrow> u32 \<Rightarrow> (u32 \<times> mem) option" where
  "strcpy m dest src = do { m \<leftarrow> strcpy_loop m dest src; Some (dest, m) }"

text \<open>The counted copy: \<open>(True, m)\<close> when it met the terminator, \<open>(False, m)\<close> when the count ran out.\<close>

fun strncpy_loop :: "mem \<Rightarrow> u32 \<Rightarrow> u32 \<Rightarrow> nat \<Rightarrow> bool \<times> mem" where
  "strncpy_loop m ptr src 0 = (False, m)"
| "strncpy_loop m ptr src (Suc k) =
     (let m' = m(ptr := m src) in
      if m' src = EOS then (True, m') else strncpy_loop m' (ptr + 1) (src + 1) k)"

definition strncpy :: "mem \<Rightarrow> u32 \<Rightarrow> u32 \<Rightarrow> u32 \<Rightarrow> u32 \<times> mem" where
  "strncpy m dest src count =
     (case strncpy_loop m dest src (unat count) of
        (True, m) \<Rightarrow> (dest, m)
      | (False, m) \<Rightarrow> (dest, m(dest + (count - 1) := EOS)))"

partial_function (option) scan_eos :: "mem \<Rightarrow> u32 \<Rightarrow> u32 option" where
  "scan_eos m ptr = (if m ptr \<noteq> EOS then scan_eos m (ptr + 1) else Some ptr)"

definition strcat :: "mem \<Rightarrow> u32 \<Rightarrow> u32 \<Rightarrow> (u32 \<times> mem) option" where
  "strcat m dest src = do {
     ptr \<leftarrow> scan_eos m dest;
     m \<leftarrow> strcpy_loop m ptr src;
     Some (dest, m) }"

fun strnlen_loop :: "mem \<Rightarrow> u32 \<Rightarrow> nat \<Rightarrow> u32" where
  "strnlen_loop m ptr 0 = ptr"
| "strnlen_loop m ptr (Suc maxlen) =
     (if m ptr \<noteq> EOS then strnlen_loop m (ptr + 1) maxlen else ptr)"

definition strnlen :: "mem \<Rightarrow> u32 \<Rightarrow> u32 \<Rightarrow> u32" where
  "strnlen m str maxlen = strnlen_loop m str (unat maxlen) - str"

definition strlen :: "mem \<Rightarrow> u32 \<Rightarrow> u32 option" where
  "strlen m str = do { ptr \<leftarrow> scan_eos m str; Some (ptr - str) }"

text \<open>\<^verbatim>\<open>*l < *r ? -1 : *l > *r\<close>\<close>

definition byte_cmp :: "u8 \<Rightarrow> u8 \<Rightarrow> int" where
  "byte_cmp a b = (if a <s b then -1 else if b <s a then 1 else 0)"

partial_function (option) strcmp :: "mem \<Rightarrow> u32 \<Rightarrow> u32 \<Rightarrow> int option" where
  "strcmp m lhs rhs =
     (if m lhs = m rhs \<and> m lhs \<noteq> EOS \<and> m rhs \<noteq> EOS then strcmp m (lhs + 1) (rhs + 1)
      else Some (byte_cmp (m lhs) (m rhs)))"

text \<open>
  \<^verbatim>\<open>strchr\<close> and \<^verbatim>\<open>strsep\<close> are one loop over different tests, as are \<^verbatim>\<open>strrchr\<close> and \<^verbatim>\<open>strrsep\<close>;
  the test compares the sign-extended character with the \<^verbatim>\<open>int\<close> argument.
\<close>

partial_function (option) find_first :: "mem \<Rightarrow> (u8 \<Rightarrow> bool) \<Rightarrow> u32 \<Rightarrow> u32 option" where
  "find_first m P ptr =
     (if P (m ptr) then Some ptr
      else if m ptr = EOS then Some 0
      else find_first m P (ptr + 1))"

partial_function (option) find_last :: "mem \<Rightarrow> (u8 \<Rightarrow> bool) \<Rightarrow> u32 \<Rightarrow> u32 \<Rightarrow> u32 option" where
  "find_last m P last_p ptr =
     (let last' = (if P (m ptr) then ptr else last_p) in
      if m ptr = EOS then Some last' else find_last m P last' (ptr + 1))"

definition is_char :: "u32 \<Rightarrow> u8 \<Rightarrow> bool" where
  "is_char ch c \<longleftrightarrow> (signed c :: u32) = ch"

definition IS_SEPARATOR :: "u8 \<Rightarrow> bool" where
  "IS_SEPARATOR c \<longleftrightarrow> c = 0x2F \<or> c = 0x5C"

definition strchr :: "mem \<Rightarrow> u32 \<Rightarrow> u32 \<Rightarrow> u32 option" where
  "strchr m str ch = find_first m (is_char ch) str"

definition strrchr :: "mem \<Rightarrow> u32 \<Rightarrow> u32 \<Rightarrow> u32 option" where
  "strrchr m str ch = find_last m (is_char ch) 0 str"

definition strsep :: "mem \<Rightarrow> u32 \<Rightarrow> u32 option" where
  "strsep m str = find_first m IS_SEPARATOR str"

definition strrsep :: "mem \<Rightarrow> u32 \<Rightarrow> u32 option" where
  "strrsep m str = find_last m IS_SEPARATOR 0 str"

fun memcmp_loop :: "mem \<Rightarrow> u32 \<Rightarrow> u32 \<Rightarrow> nat \<Rightarrow> int" where
  "memcmp_loop m l r 0 = 0"
| "memcmp_loop m l r (Suc k) =
     (if m l = m r then memcmp_loop m (l + 1) (r + 1) k else byte_cmp (m l) (m r))"

definition memcmp :: "mem \<Rightarrow> u32 \<Rightarrow> u32 \<Rightarrow> u32 \<Rightarrow> int" where
  "memcmp m lhs rhs count = memcmp_loop m lhs rhs (unat count)"

fun memset_loop :: "mem \<Rightarrow> u32 \<Rightarrow> u8 \<Rightarrow> nat \<Rightarrow> mem" where
  "memset_loop m ptr ch 0 = m"
| "memset_loop m ptr ch (Suc k) = memset_loop (m(ptr := ch)) (ptr + 1) ch k"

definition memset :: "mem \<Rightarrow> u32 \<Rightarrow> u32 \<Rightarrow> u32 \<Rightarrow> u32 \<times> mem" where
  "memset m dest ch count = (dest, memset_loop m dest (ucast ch) (unat count))"

fun memcpy_loop :: "mem \<Rightarrow> u32 \<Rightarrow> u32 \<Rightarrow> nat \<Rightarrow> mem" where
  "memcpy_loop m ptr src 0 = m"
| "memcpy_loop m ptr src (Suc k) = memcpy_loop (m(ptr := m src)) (ptr + 1) (src + 1) k"

definition memcpy :: "mem \<Rightarrow> u32 \<Rightarrow> u32 \<Rightarrow> u32 \<Rightarrow> u32 \<times> mem" where
  "memcpy m dest src count = (dest, memcpy_loop m dest src (unat count))"

text \<open>\<^verbatim>\<open>memchr\<close> has no \<^verbatim>\<open>return\<close> after its loop: when the byte is absent no value is returned.\<close>

fun memchr_loop :: "mem \<Rightarrow> u32 \<Rightarrow> (u8 \<Rightarrow> bool) \<Rightarrow> nat \<Rightarrow> u32 option" where
  "memchr_loop m ptr P 0 = None"
| "memchr_loop m ptr P (Suc k) = (if P (m ptr) then Some ptr else memchr_loop m (ptr + 1) P k)"

definition memchr :: "mem \<Rightarrow> u32 \<Rightarrow> u32 \<Rightarrow> u32 \<Rightarrow> u32 option" where
  "memchr m str ch count = memchr_loop m str (is_char ch) (unat count)"

section \<open>Terminated strings and regions\<close>

fun cstr :: "mem \<Rightarrow> u32 \<Rightarrow> u8 list \<Rightarrow> bool" where
  "cstr m p [] \<longleftrightarrow> m p = EOS"
| "cstr m p (c # cs) \<longleftrightarrow> m p = c \<and> c \<noteq> EOS \<and> cstr m (p + 1) cs"

fun region :: "u32 \<Rightarrow> nat \<Rightarrow> u32 set" where
  "region p 0 = {}"
| "region p (Suc n) = insert p (region (p + 1) n)"

fun bytes_at :: "mem \<Rightarrow> u32 \<Rightarrow> nat \<Rightarrow> u8 list" where
  "bytes_at m p 0 = []"
| "bytes_at m p (Suc n) = m p # bytes_at m (p + 1) n"

lemma region_iff: "x \<in> region p n \<longleftrightarrow> (\<exists>i < n. x = p + of_nat i)"
proof (induction n arbitrary: p)
  case (Suc n)
  have "(\<exists>i < Suc n. x = p + of_nat i) \<longleftrightarrow> x = p \<or> (\<exists>i < n. x = p + 1 + of_nat i)"
    by (auto simp: less_Suc_eq_0_disj add.assoc)
  then show ?case using Suc by auto
qed simp

lemma self_not_in_next_region: "n < 2 ^ 32 \<Longrightarrow> p \<notin> region (p + 1) n"
proof
  assume n: "n < 2 ^ 32" and "p \<in> region (p + 1) n"
  then obtain i where i: "i < n" "p = p + 1 + of_nat i" by (auto simp: region_iff)
  then have "(of_nat (Suc i) :: u32) = 0" by (simp add: add.assoc)
  then have "2 ^ 32 dvd Suc i" unfolding word_of_nat_eq_0_iff by simp
  then show False using i(1) n by (auto dest!: dvd_imp_le)
qed

lemma region_split: "region p (a + b) = region p a \<union> region (p + of_nat a) b"
  by (induction a arbitrary: p) (auto simp: add.assoc)

lemma cstr_frame:
  "(\<And>x. x \<in> region p (Suc (length s)) \<Longrightarrow> m' x = m x) \<Longrightarrow> cstr m' p s = cstr m p s"
proof (induction s arbitrary: p)
  case (Cons c s)
  have "m' p = m p" using Cons.prems by simp
  moreover have "cstr m' (p + 1) s = cstr m (p + 1) s"
    using Cons.prems by (intro Cons.IH) (simp only: length_Cons region.simps(2) [of p], blast)
  ultimately show ?case by simp
qed simp

lemma cstr_append:
  "cstr m p (a @ b) \<longleftrightarrow> bytes_at m p (length a) = a \<and> EOS \<notin> set a \<and> cstr m (p + of_nat (length a)) b"
  by (induction a arbitrary: p) (auto simp: add.assoc)

lemma cstr_no_EOS: "cstr m p s \<Longrightarrow> EOS \<notin> set s"
  by (induction s arbitrary: p) auto

lemma bytes_at_frame: "(\<And>x. x \<in> region p n \<Longrightarrow> m' x = m x) \<Longrightarrow> bytes_at m' p n = bytes_at m p n"
  by (induction n arbitrary: p) auto

lemma bytes_at_nth: "i < n \<Longrightarrow> bytes_at m p n ! i = m (p + of_nat i)"
  by (induction n arbitrary: p i) (auto simp: less_Suc_eq_0_disj add.assoc)

lemma length_bytes_at [simp]: "length (bytes_at m p n) = n"
  by (induction n arbitrary: p) auto

section \<open>Scans\<close>

lemma scan_eos_spec: "cstr m p s \<Longrightarrow> scan_eos m p = Some (p + of_nat (length s))"
  by (induction s arbitrary: p) (simp_all add: scan_eos.simps add.assoc)

lemma strlen_spec: "cstr m p s \<Longrightarrow> strlen m p = Some (of_nat (length s))"
  by (simp add: strlen_def scan_eos_spec)

lemma strnlen_loop_spec: "cstr m p s \<Longrightarrow> strnlen_loop m p k = p + of_nat (min (length s) k)"
proof (induction s arbitrary: p k)
  case Nil
  then show ?case by (cases k) auto
next
  case (Cons c s)
  then show ?case by (cases k) (auto simp: add.assoc)
qed

lemma strnlen_spec: "cstr m p s \<Longrightarrow> strnlen m p k = of_nat (min (length s) (unat k))"
  by (simp add: strnlen_def strnlen_loop_spec)

text \<open>What \<^verbatim>\<open>strcmp\<close> means on lists: the first difference decides, a proper prefix is compared
  with the terminator.\<close>

fun str_cmp :: "u8 list \<Rightarrow> u8 list \<Rightarrow> int" where
  "str_cmp (a # s) (b # t) = (if a = b then str_cmp s t else byte_cmp a b)"
| "str_cmp s t = byte_cmp (case s of [] \<Rightarrow> EOS | a # _ \<Rightarrow> a) (case t of [] \<Rightarrow> EOS | b # _ \<Rightarrow> b)"

lemma byte_cmp_eq_0 [simp]: "byte_cmp a b = 0 \<longleftrightarrow> a = b"
  by (auto simp: byte_cmp_def word_sless_alt intro: signed_word_eqI)

lemma strcmp_str_cmp: "cstr m l s \<Longrightarrow> cstr m r t \<Longrightarrow> strcmp m l r = Some (str_cmp s t)"
proof (induction s t arbitrary: l r rule: str_cmp.induct)
  case (1 a s b t)
  then show ?case by (subst strcmp.simps) auto
qed (subst strcmp.simps, auto split: list.splits)+

lemma str_cmp_eq_0: "EOS \<notin> set s \<Longrightarrow> EOS \<notin> set t \<Longrightarrow> str_cmp s t = 0 \<longleftrightarrow> s = t"
  by (induction s t rule: str_cmp.induct) (auto split: list.splits)

lemma str_cmp_anti: "str_cmp t s = - str_cmp s t"
  by (induction s t rule: str_cmp.induct) (auto simp: byte_cmp_def word_sless_alt split: list.splits)

lemma find_first_spec:
  "cstr m p s \<Longrightarrow> find_first m P p =
     Some (if list_ex P (s @ [EOS]) then p + of_nat (length (takeWhile (\<lambda>c. \<not> P c) s)) else 0)"
  by (induction s arbitrary: p) (auto simp: find_first.simps add.assoc)

lemma find_last_spec:
  "cstr m p (a @ c # b) \<Longrightarrow> P c \<Longrightarrow> \<not> list_ex P b \<Longrightarrow> \<not> P EOS \<Longrightarrow>
   find_last m P lp p = Some (p + of_nat (length a))"
proof (induction a arbitrary: p lp)
  case Nil
  have none: "find_last m P q p = Some q" if "cstr m p b" "\<not> list_ex P b" "\<not> P EOS" for q p
    using that by (induction b arbitrary: p) (auto simp: find_last.simps)
  show ?case using Nil by (subst find_last.simps) (auto simp: none)
next
  case (Cons x a)
  then show ?case by (subst find_last.simps) (auto simp: Let_def add.assoc)
qed

lemma find_last_none:
  "cstr m p s \<Longrightarrow> \<not> list_ex P s \<Longrightarrow> \<not> P EOS \<Longrightarrow> find_last m P lp p = Some lp"
  by (induction s arbitrary: p) (auto simp: find_last.simps)

section \<open>Copies\<close>

lemma strcpy_loop_spec:
  "cstr m src s \<Longrightarrow> region ptr (Suc (length s)) \<inter> region src (Suc (length s)) = {} \<Longrightarrow> length s < 2 ^ 32 - 1 \<Longrightarrow>
   \<exists>m'. strcpy_loop m ptr src = Some m' \<and> cstr m' ptr s \<and>
     (\<forall>x. x \<notin> region ptr (Suc (length s)) \<longrightarrow> m' x = m x)"
proof (induction s arbitrary: m ptr src)
  case Nil
  then show ?case by (auto simp: strcpy_loop.simps)
next
  case (Cons c s)
  define m1 where "m1 = m(ptr := c)"
  have m1p: "m1 ptr = c" by (simp add: m1_def)
  have m1: "m1 x = m x" if "x \<noteq> ptr" for x using that by (simp add: m1_def)
  have c: "m src = c" "c \<noteq> EOS" "ptr \<noteq> src" using Cons.prems by auto
  have dis: "ptr \<notin> region (src + 1) (Suc (length s))"
      "region (ptr + 1) (Suc (length s)) \<inter> region (src + 1) (Suc (length s)) = {}"
    using Cons.prems(2) by auto
  have "cstr m (src + 1) s" using Cons.prems(1) by simp
  moreover have "m1 x = m x" if "x \<in> region (src + 1) (Suc (length s))" for x
    using that dis(1) m1 by metis
  ultimately have "cstr m1 (src + 1) s" using cstr_frame by blast
  then obtain m' where m': "strcpy_loop m1 (ptr + 1) (src + 1) = Some m'" "cstr m' (ptr + 1) s"
      "\<forall>x. x \<notin> region (ptr + 1) (Suc (length s)) \<longrightarrow> m' x = m1 x"
    using Cons.IH [of m1 "src + 1" "ptr + 1"] dis(2) Cons.prems(3) by auto
  have "ptr \<notin> region (ptr + 1) (Suc (length s))"
    using Cons.prems(3) by (intro self_not_in_next_region) simp
  then have "m' ptr = c" using m'(3) m1p by simp
  moreover have "strcpy_loop m ptr src = Some m'"
    using m'(1) c m1 [of src] by (subst strcpy_loop.simps) (simp add: m1_def)
  ultimately show ?case using m' c m1 by auto
qed

lemma strcpy_spec:
  assumes "cstr m src s" "region dest (Suc (length s)) \<inter> region src (Suc (length s)) = {}" "length s < 2 ^ 32 - 1"
  shows "\<exists>m'. strcpy m dest src = Some (dest, m') \<and> cstr m' dest s \<and>
     (\<forall>x. x \<notin> region dest (Suc (length s)) \<longrightarrow> m' x = m x)"
  using strcpy_loop_spec [OF assms] by (auto simp: strcpy_def)

lemma memcpy_loop_spec:
  "region ptr n \<inter> region src n = {} \<Longrightarrow> n < 2 ^ 32 \<Longrightarrow>
   bytes_at (memcpy_loop m ptr src n) ptr n = bytes_at m src n \<and>
   (\<forall>x. x \<notin> region ptr n \<longrightarrow> memcpy_loop m ptr src n x = m x)"
proof (induction n arbitrary: m ptr src)
  case (Suc n)
  define m1 where "m1 = m(ptr := m src)"
  have m1: "m1 x = m x" if "x \<noteq> ptr" for x using that by (simp add: m1_def)
  have IH: "bytes_at (memcpy_loop m1 (ptr + 1) (src + 1) n) (ptr + 1) n = bytes_at m1 (src + 1) n"
      "\<forall>x. x \<notin> region (ptr + 1) n \<longrightarrow> memcpy_loop m1 (ptr + 1) (src + 1) n x = m1 x"
    using Suc.IH [of "ptr + 1" "src + 1" m1] Suc.prems by auto
  have "ptr \<notin> region (src + 1) n" using Suc.prems(1) by auto
  then have "bytes_at m1 (src + 1) n = bytes_at m (src + 1) n"
    using m1 by (intro bytes_at_frame) metis
  moreover have "ptr \<notin> region (ptr + 1) n" using Suc.prems by (intro self_not_in_next_region) simp
  moreover have "memcpy_loop m ptr src (Suc n) = memcpy_loop m1 (ptr + 1) (src + 1) n"
    by (simp add: m1_def)
  moreover have "m1 ptr = m src" by (simp add: m1_def)
  ultimately show ?case using IH m1 by (simp del: memcpy_loop.simps)
qed simp

lemma memset_loop_spec:
  "n < 2 ^ 32 \<Longrightarrow> bytes_at (memset_loop m ptr ch n) ptr n = replicate n ch \<and>
   (\<forall>x. x \<notin> region ptr n \<longrightarrow> memset_loop m ptr ch n x = m x)"
proof (induction n arbitrary: m ptr)
  case (Suc n)
  have fresh: "ptr \<notin> region (ptr + 1) n" using Suc.prems by (intro self_not_in_next_region) simp
  define m1 where "m1 = m(ptr := ch)"
  have "memset_loop m ptr ch (Suc n) = memset_loop m1 (ptr + 1) ch n" "m1 ptr = ch"
      "\<And>x. x \<noteq> ptr \<Longrightarrow> m1 x = m x"
    by (simp_all add: m1_def)
  then show ?case
    using Suc.IH [of m1 "ptr + 1"] Suc.prems fresh by (simp del: memset_loop.simps)
qed simp

lemma memcmp_loop_eq_0: "memcmp_loop m l r n = 0 \<longleftrightarrow> bytes_at m l n = bytes_at m r n"
  by (induction n arbitrary: l r) auto

lemma memchr_loop_spec:
  "memchr_loop m p P n =
     (if list_ex P (bytes_at m p n)
      then Some (p + of_nat (length (takeWhile (\<lambda>c. \<not> P c) (bytes_at m p n)))) else None)"
  by (induction n arbitrary: p) (auto simp: add.assoc)

section \<open>32-bit words in memory\<close>

text \<open>A 32-bit load or store is four little-endian byte accesses.\<close>

definition poke32 :: "mem \<Rightarrow> u32 \<Rightarrow> u32 \<Rightarrow> mem" where
  "poke32 m a v = m(a := ucast v, a + 1 := ucast (drop_bit 8 v), a + 2 := ucast (drop_bit 16 v),
     a + 3 := ucast (drop_bit 24 v))"

definition peek32 :: "mem \<Rightarrow> u32 \<Rightarrow> u32" where
  "peek32 m a = ucast (m a) OR push_bit 8 (ucast (m (a + 1))) OR push_bit 16 (ucast (m (a + 2))) OR
     push_bit 24 (ucast (m (a + 3)))"

lemma bytes_of_word:
  "(ucast (ucast v :: u8) :: u32) OR push_bit 8 (ucast (ucast (drop_bit 8 v) :: u8)) OR
   push_bit 16 (ucast (ucast (drop_bit 16 v) :: u8)) OR push_bit 24 (ucast (ucast (drop_bit 24 v) :: u8)) = (v :: u32)"
proof (rule bit_word_eqI)
  fix n assume "n < LENGTH(32)"
  then show "bit ((ucast (ucast v :: u8) :: u32) OR push_bit 8 (ucast (ucast (drop_bit 8 v) :: u8)) OR
      push_bit 16 (ucast (ucast (drop_bit 16 v) :: u8)) OR push_bit 24 (ucast (ucast (drop_bit 24 v) :: u8))) n = bit v n"
    by (cases "24 \<le> n"; cases "16 \<le> n") (auto simp: bit_simps not_less)
qed

lemma peek32_poke32 [simp]: "peek32 (poke32 m a v) a = v"
  using bytes_of_word [of v] by (simp add: peek32_def poke32_def)

lemma peek32_cong:
  "m' a = m a \<Longrightarrow> m' (a + 1) = m (a + 1) \<Longrightarrow> m' (a + 2) = m (a + 2) \<Longrightarrow> m' (a + 3) = m (a + 3) \<Longrightarrow>
   peek32 m' a = peek32 m a"
  by (simp add: peek32_def)

lemma apart_bytes:
  assumes "4 \<le> b - a" "4 \<le> a - b" "i \<le> 3" "j \<le> 3"
  shows "(a :: u32) + j \<noteq> b + i"
proof
  assume eq: "a + j = b + i"
  show False
  proof (cases "j \<le> i")
    case True
    have "a - b = i - j" using eq by (simp add: algebra_simps)
    moreover have "i - j \<le> i" using True by (rule word_sub_le)
    ultimately show False using assms(2,3) by (simp add: word_le_nat_alt)
  next
    case False
    have "b - a = j - i" using eq by (simp add: algebra_simps)
    moreover have "j - i \<le> j" using False by (intro word_sub_le) simp
    ultimately show False using assms(1,4) by (simp add: word_le_nat_alt)
  qed
qed

lemma peek32_poke32_other:
  assumes "4 \<le> b - a" "4 \<le> a - b"
  shows "peek32 (poke32 m a v) b = peek32 m b"
proof -
  have "b + i \<notin> {a, a + 1, a + 2, a + 3}" if "i \<le> 3" for i
    using apart_bytes [OF assms that, of 0] apart_bytes [OF assms that, of 1]
      apart_bytes [OF assms that, of 2] apart_bytes [OF assms that, of 3]
    by (simp add: word_le_nat_alt)
  from this [of 0] this [of 1] this [of 2] this [of 3] show ?thesis
    by (intro peek32_cong) (simp_all add: poke32_def word_le_nat_alt)
qed

section \<open>Properties\<close>

lemma region_disjoint:
  assumes "a + b \<le> 2 ^ 32"
  shows "region p a \<inter> region (p + of_nat a) b = {}"
proof -
  have False if "i < a" "j < b" "p + of_nat i = p + of_nat a + of_nat j" for i j
  proof -
    have "(of_nat i :: u32) = of_nat (a + j)" using that(3) by (simp add: add.assoc)
    moreover have "unat (of_nat i :: u32) = i" "unat (of_nat (a + j) :: u32) = a + j"
      using that(1,2) assms by (intro unat_of_nat_less; simp)+
    ultimately have "i = a + j" by metis
    then show False using that(1) by simp
  qed
  then show ?thesis by (auto simp: region_iff)
qed

text \<open>
  \<^verbatim>\<open>strcat\<close> appends: when the destination and the source hold terminated strings and the
  room behind the destination does not touch the source, the destination holds the
  concatenation, the source is unchanged and nothing else in memory is written.
\<close>

lemma strcat_concatenates:
  assumes "cstr m dest a" "cstr m src b" "length a + length b < 2 ^ 32 - 1"
    and dis: "region dest (Suc (length a + length b)) \<inter> region src (Suc (length b)) = {}"
  shows "\<exists>m'. strcat m dest src = Some (dest, m') \<and> cstr m' dest (a @ b) \<and> cstr m' src b \<and>
     (\<forall>x. x \<notin> region (dest + of_nat (length a)) (Suc (length b)) \<longrightarrow> m' x = m x)"
proof -
  let ?e = "dest + of_nat (length a)"
  have reg: "region dest (Suc (length a + length b)) = region dest (length a) \<union> region ?e (Suc (length b))"
    using region_split [of dest "length a" "Suc (length b)"] by simp
  then obtain m' where m': "strcpy_loop m ?e src = Some m'" "cstr m' ?e b"
      "\<forall>x. x \<notin> region ?e (Suc (length b)) \<longrightarrow> m' x = m x"
    using strcpy_loop_spec [of m src b ?e] assms by auto
  have "region dest (length a) \<inter> region ?e (Suc (length b)) = {}"
    using assms(3) by (intro region_disjoint) simp
  then have "bytes_at m' dest (length a) = bytes_at m dest (length a)"
    using m'(3) by (intro bytes_at_frame) blast
  then have "cstr m' dest (a @ b)"
    using assms(1) m'(2) cstr_append [of m dest a "[]"] by (simp add: cstr_append)
  moreover have "cstr m' src b"
    using assms(2) cstr_frame [of src b m' m] m'(3) dis reg by blast
  ultimately show ?thesis using m' scan_eos_spec [OF assms(1)] by (auto simp: strcat_def)
qed

definition demo_mem :: mem where
  "demo_mem = (\<lambda>_. 0)(100 := 0x61, 101 := 0x62, 200 := 0x63)"

lemma strcat_concatenates_witness:
  "\<exists>m'. strcat demo_mem 100 200 = Some (100, m') \<and> cstr m' 100 ([0x61, 0x62] @ [0x63]) \<and> cstr m' 200 [0x63] \<and>
     (\<forall>x. x \<notin> region (100 + of_nat (length [0x61 :: u8, 0x62])) (Suc (length [0x63 :: u8])) \<longrightarrow> m' x = demo_mem x)"
  by (rule strcat_concatenates) (simp_all add: demo_mem_def EOS_def)

text \<open>
  \<^verbatim>\<open>strcmp\<close> on two terminated strings returns, and its result is 0 exactly for equal strings;
  swapping the arguments negates it.
\<close>

lemma strcmp_decides_equality:
  assumes "cstr m l s" "cstr m r t"
  shows "\<exists>d. strcmp m l r = Some d \<and> strcmp m r l = Some (- d) \<and> (d = 0 \<longleftrightarrow> s = t) \<and> d \<in> {-1, 0, 1}"
proof -
  have "str_cmp s t \<in> {-1, 0, 1}"
    by (induction s t rule: str_cmp.induct) (auto simp: byte_cmp_def)
  then show ?thesis
    using strcmp_str_cmp [OF assms] strcmp_str_cmp [OF assms(2,1)] str_cmp_anti [of t s]
      str_cmp_eq_0 [OF assms [THEN cstr_no_EOS]] by auto
qed

lemma strcmp_decides_equality_witness:
  "\<exists>d. strcmp demo_mem 100 200 = Some d \<and> strcmp demo_mem 200 100 = Some (- d) \<and>
     (d = 0 \<longleftrightarrow> [0x61, 0x62] = [0x63 :: u8]) \<and> d \<in> {-1, 0, 1}"
  by (rule strcmp_decides_equality) (simp_all add: demo_mem_def EOS_def)

text \<open>
  The path helpers: on a terminated path \<^verbatim>\<open>strsep\<close> points at the first separator and
  \<^verbatim>\<open>strrsep\<close> at the last one.
\<close>

lemma strsep_strrsep_bounds:
  assumes "cstr m p (a @ c # mid @ d # b)" "IS_SEPARATOR c" "IS_SEPARATOR d"
    and "\<not> list_ex IS_SEPARATOR a" "\<not> list_ex IS_SEPARATOR b"
  shows "strsep m p = Some (p + of_nat (length a)) \<and>
     strrsep m p = Some (p + of_nat (length a + 1 + length mid))"
proof -
  have "takeWhile (\<lambda>x. \<not> IS_SEPARATOR x) (a @ c # mid @ d # b) = a"
    using assms(2,4) by (auto simp: list_ex_iff takeWhile_tail takeWhile_append)
  moreover have "\<not> IS_SEPARATOR EOS" by (simp add: IS_SEPARATOR_def EOS_def)
  ultimately show ?thesis
    using find_first_spec [OF assms(1), of IS_SEPARATOR] assms(2,3,5)
      find_last_spec [of m p "a @ c # mid" d b IS_SEPARATOR 0] assms(1)
    by (simp add: strsep_def strrsep_def)
qed

lemma strsep_strrsep_bounds_witness:
  "\<exists>m :: mem. strsep m 100 = Some (100 + of_nat (length ([] :: u8 list))) \<and>
     strrsep m 100 = Some (100 + of_nat (length ([] :: u8 list) + 1 + length [0x61 :: u8]))"
proof -
  let ?m = "(\<lambda>_. 0 :: u8)(100 := 0x2F, 101 := 0x61, 102 := 0x2F, 103 := 0x62)"
  have "cstr ?m 100 ([] @ 0x2F # [0x61] @ 0x2F # [0x62])" by (simp add: EOS_def)
  from strsep_strrsep_bounds [OF this] show ?thesis
    by (intro exI [of _ ?m]) (simp add: IS_SEPARATOR_def)
qed

text \<open>
  \<^verbatim>\<open>memcpy\<close> between regions that do not overlap copies every byte and writes nothing else.
\<close>

lemma memcpy_copies:
  assumes "region dest (unat n) \<inter> region src (unat n) = {}"
  shows "\<exists>m'. memcpy m dest src n = (dest, m') \<and> bytes_at m' dest (unat n) = bytes_at m src (unat n) \<and>
     (\<forall>x. x \<notin> region dest (unat n) \<longrightarrow> m' x = m x)"
  using memcpy_loop_spec [OF assms] unat_lt2p [of n] by (auto simp: memcpy_def)

lemma memcpy_copies_witness:
  "\<exists>m'. memcpy demo_mem 300 100 2 = (300, m') \<and> bytes_at m' 300 (unat (2::u32)) = bytes_at demo_mem 100 (unat (2::u32)) \<and>
     (\<forall>x. x \<notin> region 300 (unat (2::u32)) \<longrightarrow> m' x = demo_mem x)"
proof (rule memcpy_copies)
  have "unat (2::u32) = Suc (Suc 0)" by simp
  then show "region 300 (unat (2::u32)) \<inter> region 100 (unat (2::u32)) = {}" by (simp only: region.simps) simp
qed

end
