(* ===== verification/Console.thy ===== *)
theory Console
  imports Strings
begin

text \<open>
  \<^verbatim>\<open>src/kernel/console.c\<close>: the text console. The console's record is the C struct, extended by
  the parts of the machine it drives: the memory (the video RAM is a window of it), the index
  and data registers of the CRT controller, the number of calls of \<^verbatim>\<open>start_beep\<close> and the
  interrupt flag. Characters go through a state machine (plain text, escape, question mark,
  arguments, control sequence) whose transitions and actions are the functions below; loops
  over video memory are \<open>None\<close> when they do not end or leave the argument array.

  Shown: for any bytes written, the console keeps its geometry invariant and never writes
  outside the video RAM; printable text lands in the cells under the cursor; the cursor
  sequence moves the cursor where its decimal arguments say; and sixteen separators wedge it.
\<close>

section \<open>Definitions\<close>

definition CRT_ADDR_REG :: u16 where "CRT_ADDR_REG = 0x3D4"
definition CRT_DATA_REG :: u16 where "CRT_DATA_REG = 0x3D5"
definition CRT_START_ADDR_H :: u8 where "CRT_START_ADDR_H = 0xC"
definition CRT_START_ADDR_L :: u8 where "CRT_START_ADDR_L = 0xD"
definition CRT_CURSOR_H :: u8 where "CRT_CURSOR_H = 0xE"
definition CRT_CURSOR_L :: u8 where "CRT_CURSOR_L = 0xF"
definition KERNEL_VADDR_OFFSET :: u32 where "KERNEL_VADDR_OFFSET = 0xC0000000"
definition MEM_BASE :: u32 where "MEM_BASE = 0xB8000 + KERNEL_VADDR_OFFSET"
definition MEM_SIZE :: u32 where "MEM_SIZE = 0x4000"
definition WIDTH :: u32 where "WIDTH = 80"
definition HEIGHT :: u32 where "HEIGHT = 25"
definition ROW_SIZE :: u32 where "ROW_SIZE = WIDTH * 2"
definition ARG_NR :: u32 where "ARG_NR = 16"

datatype con_state = STATE_NOR | STATE_ESC | STATE_QUE | STATE_ARG | STATE_CSI

record console =
  c_mem_base :: u32
  c_mem_size :: u32
  c_mem_end :: u32
  c_screen :: u32
  c_scr_size :: u32
  c_pos :: u32
  c_x :: u32
  c_y :: u32
  c_saved_x :: u32
  c_saved_y :: u32
  c_width :: u32
  c_height :: u32
  c_row_size :: u32
  c_state :: con_state
  c_args :: "u32 list"
  c_argc :: u32
  c_ques :: bool
  c_erase :: u16
  c_style :: u8
  c_mem :: mem
  c_crt_addr :: u8
  c_crt_regs :: "u8 \<Rightarrow> u8"
  c_beeps :: nat
  c_intr :: bool

text \<open>A 16-bit store is two little-endian byte stores.\<close>

definition poke16 :: "mem \<Rightarrow> u32 \<Rightarrow> u16 \<Rightarrow> mem" where
  "poke16 m a v = m(a := ucast v, a + 1 := ucast (drop_bit 8 v))"

definition peek16 :: "mem \<Rightarrow> u32 \<Rightarrow> u16" where
  "peek16 m a = ucast (m a) OR push_bit 8 (ucast (m (a + 1)))"

text \<open>\<^verbatim>\<open>outb\<close> to the CRT controller: the index register selects the register the data goes to.\<close>

definition crt_outb :: "console \<Rightarrow> u16 \<Rightarrow> u8 \<Rightarrow> console" where
  "crt_outb c port v =
     (if port = CRT_ADDR_REG then c\<lparr>c_crt_addr := v\<rparr>
      else if port = CRT_DATA_REG then c\<lparr>c_crt_regs := (c_crt_regs c)(c_crt_addr c := v)\<rparr>
      else c)"

definition set_screen :: "console \<Rightarrow> console" where
  "set_screen c =
     (let c = crt_outb c CRT_ADDR_REG CRT_START_ADDR_H;
          c = crt_outb c CRT_DATA_REG (ucast (drop_bit 9 (c_screen c - c_mem_base c)));
          c = crt_outb c CRT_ADDR_REG CRT_START_ADDR_L
      in crt_outb c CRT_DATA_REG (ucast (drop_bit 1 (c_screen c - c_mem_base c))))"

definition set_cursor :: "console \<Rightarrow> console" where
  "set_cursor c =
     (let c = crt_outb c CRT_ADDR_REG CRT_CURSOR_H;
          c = crt_outb c CRT_DATA_REG (ucast (drop_bit 9 (c_pos c - c_mem_base c)));
          c = crt_outb c CRT_ADDR_REG CRT_CURSOR_L
      in crt_outb c CRT_DATA_REG (ucast (drop_bit 1 (c_pos c - c_mem_base c))))"

definition set_xy :: "console \<Rightarrow> u32 \<Rightarrow> u32 \<Rightarrow> console" where
  "set_xy c x y =
     (if x > c_width c \<or> y \<ge> c_height c then c
      else c\<lparr>c_x := x, c_y := y, c_pos := c_screen c + y * c_row_size c + push_bit 1 x\<rparr>)"

definition save_cursor :: "console \<Rightarrow> console" where
  "save_cursor c = c\<lparr>c_saved_x := c_x c, c_saved_y := c_y c\<rparr>"

fun erase_loop :: "mem \<Rightarrow> u16 \<Rightarrow> u32 \<Rightarrow> nat \<Rightarrow> mem" where
  "erase_loop m e start 0 = m"
| "erase_loop m e start (Suc k) = erase_loop (poke16 m start e) e (start + 2) k"

definition erase_screen :: "console \<Rightarrow> u32 \<Rightarrow> u32 \<Rightarrow> console" where
  "erase_screen c start count = c\<lparr>c_mem := erase_loop (c_mem c) (c_erase c) start (unat count)\<rparr>"

definition console_clear :: "console \<Rightarrow> console" where
  "console_clear c =
     (let c = c\<lparr>c_screen := c_mem_base c\<rparr>;
          c = c\<lparr>c_pos := c_mem_base c\<rparr>;
          c = c\<lparr>c_x := 0, c_y := 0\<rparr>;
          c = set_cursor c;
          c = set_screen c
      in erase_screen c (c_mem_base c) (drop_bit 1 (c_mem_size c)))"

definition scroll_up :: "console \<Rightarrow> console" where
  "scroll_up c =
     (let c = (if c_screen c + c_scr_size c + c_row_size c \<ge> c_mem_end c then
                 let c = c\<lparr>c_mem := snd (memcpy (c_mem c) (c_mem_base c) (c_screen c) (c_scr_size c))\<rparr>;
                     c = c\<lparr>c_pos := c_pos c - (c_screen c - c_mem_base c)\<rparr>
                 in c\<lparr>c_screen := c_mem_base c\<rparr>
               else c);
          c = erase_screen c (c_screen c + c_scr_size c) (c_width c);
          c = c\<lparr>c_screen := c_screen c + c_row_size c\<rparr>;
          c = c\<lparr>c_pos := c_pos c + c_row_size c\<rparr>
      in set_screen c)"

definition scroll_down :: "console \<Rightarrow> console" where
  "scroll_down c =
     (let c = c\<lparr>c_screen := c_screen c - c_row_size c\<rparr>;
          c = (if c_screen c < c_mem_base c then c\<lparr>c_screen := c_mem_base c\<rparr> else c)
      in set_screen c)"

definition lf :: "console \<Rightarrow> console" where
  "lf c = (if c_y c + 1 < c_height c then c\<lparr>c_y := c_y c + 1, c_pos := c_pos c + c_row_size c\<rparr>
           else scroll_up c)"

definition cr :: "console \<Rightarrow> console" where
  "cr c = c\<lparr>c_pos := c_pos c - push_bit 1 (c_x c), c_x := 0\<rparr>"

text \<open>The wrap shared by \<^verbatim>\<open>tab\<close> and \<^verbatim>\<open>chr\<close>.\<close>

definition wrap_line :: "console \<Rightarrow> console" where
  "wrap_line c =
     (if c_x c \<ge> c_width c then
        lf (c\<lparr>c_x := c_x c - c_width c, c_pos := c_pos c - c_row_size c\<rparr>)
      else c)"

definition tab :: "console \<Rightarrow> console" where
  "tab c = (let offset = 8 - (c_x c AND 7);
                c = c\<lparr>c_x := c_x c + offset, c_pos := c_pos c + push_bit 1 offset\<rparr>
            in wrap_line c)"

definition bs :: "console \<Rightarrow> console" where
  "bs c = (if c_x c = 0 then c
           else let c = c\<lparr>c_x := c_x c - 1, c_pos := c_pos c - 2\<rparr>
                in c\<lparr>c_mem := poke16 (c_mem c) (c_pos c) (c_erase c)\<rparr>)"

definition del :: "console \<Rightarrow> console" where
  "del c = c\<lparr>c_mem := poke16 (c_mem c) (c_pos c) (c_erase c)\<rparr>"

definition chr :: "console \<Rightarrow> u8 \<Rightarrow> console" where
  "chr c ch =
     (let c = wrap_line c;
          c = c\<lparr>c_mem := (c_mem c)(c_pos c := ch), c_pos := c_pos c + 1\<rparr>;
          c = c\<lparr>c_mem := (c_mem c)(c_pos c := c_style c), c_pos := c_pos c + 1\<rparr>
      in c\<lparr>c_x := c_x c + 1\<rparr>)"

definition state_normal :: "console \<Rightarrow> u8 \<Rightarrow> console" where
  "state_normal c ch =
     (if ch = 0x00 then c
      else if ch = 0x07 then c\<lparr>c_beeps := c_beeps c + 1\<rparr>
      else if ch = 0x08 then bs c
      else if ch = 0x09 then tab c
      else if ch = 0x0A then cr (lf c)
      else if ch = 0x0B \<or> ch = 0x0C then lf c
      else if ch = 0x0D then cr c
      else if ch = 0x7F then del c
      else if ch = 0x1B then c\<lparr>c_state := STATE_ESC\<rparr>
      else chr c ch)"

definition state_esc :: "console \<Rightarrow> u8 \<Rightarrow> console" where
  "state_esc c ch =
     (if ch = 0x5B then c\<lparr>c_state := STATE_QUE\<rparr>
      else if ch = 0x45 then cr (lf c)
      else if ch = 0x4D then c
      else if ch = 0x44 then lf c
      else if ch = 0x5A then c
      else if ch = 0x37 then save_cursor c
      else if ch = 0x38 then set_xy c (c_saved_x c) (c_saved_y c)
      else c)"

definition state_arg :: "console \<Rightarrow> u8 \<Rightarrow> (bool \<times> console) option" where
  "state_arg c ch =
     (if c_argc c \<ge> ARG_NR then Some (False, c)
      else if ch = 0x3B then Some (False, c\<lparr>c_argc := c_argc c + 1\<rparr>)
      else if 0x30 \<le> ch \<and> ch \<le> 0x39 then do {
        a \<leftarrow> aget (c_args c) (unat (c_argc c));
        args \<leftarrow> aset (c_args c) (unat (c_argc c)) (a * 10 + ucast ch - 0x30);
        Some (False, c\<lparr>c_args := args\<rparr>) }
      else Some (True, c\<lparr>c_argc := c_argc c + 1, c_state := STATE_CSI\<rparr>))"

definition csi_J :: "console \<Rightarrow> console option" where
  "csi_J c = do {
     a0 \<leftarrow> aget (c_args c) 0;
     Some (if a0 = 0 then erase_screen c (c_pos c) (drop_bit 1 (c_screen c + c_scr_size c - c_pos c))
           else if a0 = 1 then erase_screen c (c_screen c) (drop_bit 1 (c_pos c - c_screen c))
           else if a0 = 2 then erase_screen c (c_screen c) (drop_bit 1 (c_scr_size c))
           else c) }"

definition csi_K :: "console \<Rightarrow> console option" where
  "csi_K c = do {
     a0 \<leftarrow> aget (c_args c) 0;
     Some (if a0 = 0 then erase_screen c (c_pos c) (c_width c - c_x c)
           else if a0 = 1 then erase_screen c (c_pos c - push_bit 1 (c_x c)) (c_x c)
           else if a0 = 2 then erase_screen c (c_pos c - push_bit 1 (c_x c)) (c_width c)
           else c) }"

partial_function (option) insert_line_loop :: "console \<Rightarrow> u32 \<Rightarrow> u32 \<Rightarrow> console option" where
  "insert_line_loop c start i =
     (let src = c_mem_end c - i * c_row_size c in
      if src < start then Some c
      else insert_line_loop
             (c\<lparr>c_mem := snd (memcpy (c_mem c) (src + c_row_size c) src (c_row_size c))\<rparr>) start (i + 1))"

definition insert_line :: "console \<Rightarrow> console option" where
  "insert_line c = do {
     let start = c_screen c + c_y c * c_row_size c;
     c \<leftarrow> insert_line_loop c start 2;
     Some (erase_screen c (c_screen c + c_y c * c_row_size c) (c_width c)) }"

text \<open>\<open>start\<close> is a \<^verbatim>\<open>u16*\<close>: adding \<open>i * row_size\<close> to it advances twice as many bytes.\<close>

partial_function (option) delete_line_loop :: "console \<Rightarrow> u32 \<Rightarrow> u32 \<Rightarrow> console option" where
  "delete_line_loop c start i =
     (let src = start + 2 * (i * c_row_size c) in
      if src \<ge> c_mem_end c then Some c
      else delete_line_loop
             (c\<lparr>c_mem := snd (memcpy (c_mem c) (src - c_row_size c) src (c_row_size c))\<rparr>) start (i + 1))"

definition delete_line :: "console \<Rightarrow> console option" where
  "delete_line c = do {
     let start = c_screen c + c_y c * c_row_size c;
     c \<leftarrow> delete_line_loop c start 1;
     Some (erase_screen c (c_mem_end c - c_row_size c) (c_width c)) }"

partial_function (option) delete_char_loop :: "mem \<Rightarrow> u32 \<Rightarrow> u16 \<Rightarrow> u32 \<Rightarrow> (mem \<times> u32) option" where
  "delete_char_loop m ptr i width =
     (let i = i + 1 in
      if ucast i < width then delete_char_loop (poke16 m ptr (peek16 m (ptr + 2))) (ptr + 2) i width
      else Some (m, ptr))"

definition delete_char :: "console \<Rightarrow> console option" where
  "delete_char c = do {
     (m, ptr) \<leftarrow> delete_char_loop (c_mem c) (c_pos c) (ucast (c_x c)) (c_width c);
     Some (c\<lparr>c_mem := poke16 m ptr (c_erase c)\<rparr>) }"

partial_function (option) insert_char_loop :: "mem \<Rightarrow> u32 \<Rightarrow> u32 \<Rightarrow> mem option" where
  "insert_char_loop m pos ptr =
     (if ptr > pos then insert_char_loop (poke16 m ptr (peek16 m (ptr - 2))) pos (ptr - 2)
      else Some m)"

text \<open>\<^verbatim>\<open>*con->ptr = con->erase\<close> stores one byte: \<^verbatim>\<open>ptr\<close> is a \<^verbatim>\<open>char*\<close>.\<close>

definition insert_char :: "console \<Rightarrow> console option" where
  "insert_char c = do {
     m \<leftarrow> insert_char_loop (c_mem c) (c_pos c) (c_pos c + 2 * (c_width c - c_x c - 1));
     Some (c\<lparr>c_mem := m(c_pos c := ucast (c_erase c))\<rparr>) }"

text \<open>The repeat count of \<^verbatim>\<open>csi_L\<close>, \<^verbatim>\<open>csi_M\<close>, \<^verbatim>\<open>csi_P\<close> and \<^verbatim>\<open>csi_at\<close>, and their \<^verbatim>\<open>while (nr--)\<close>.\<close>

definition csi_count :: "console \<Rightarrow> u32 option" where
  "csi_count c = do {
     nr \<leftarrow> aget (c_args c) 0;
     Some (if nr > c_height c then c_height c else if nr = 0 then 1 else nr) }"

fun repeat_n :: "nat \<Rightarrow> ('s \<Rightarrow> 's option) \<Rightarrow> 's \<Rightarrow> 's option" where
  "repeat_n 0 f s = Some s"
| "repeat_n (Suc k) f s = do { s \<leftarrow> f s; repeat_n k f s }"

definition csi_L :: "console \<Rightarrow> console option" where
  "csi_L c = do { nr \<leftarrow> csi_count c; repeat_n (unat nr) insert_line c }"

definition csi_M :: "console \<Rightarrow> console option" where
  "csi_M c = do { nr \<leftarrow> csi_count c; repeat_n (unat nr) delete_line c }"

definition csi_P :: "console \<Rightarrow> console option" where
  "csi_P c = do { nr \<leftarrow> csi_count c; repeat_n (unat nr) delete_char c }"

definition csi_at :: "console \<Rightarrow> console option" where
  "csi_at c = do { nr \<leftarrow> csi_count c; repeat_n (unat nr) insert_char c }"

definition csi_m_style :: "u8 \<Rightarrow> u32 \<Rightarrow> u8" where
  "csi_m_style s a =
     (if a = 0 then 7
      else if a = 1 then 0x0F
      else if a = 0x80 then s OR 0x80
      else if a = 7 then drop_bit 4 s OR push_bit 4 s
      else if 30 \<le> a \<and> a \<le> 37 then (s AND 0xF8) OR ucast (a - 30)
      else if 40 \<le> a \<and> a \<le> 47 then (s AND 0x8F) OR ucast (push_bit 4 (a - 40))
      else s)"

definition csi_m :: "console \<Rightarrow> console option" where
  "csi_m c = do {
     kassert (unat (c_argc c) \<le> length (c_args c));
     let s = foldl csi_m_style 0 (take (unat (c_argc c)) (c_args c));
     Some (c\<lparr>c_style := s, c_erase := push_bit 8 (ucast s) OR 0x20\<rparr>) }"

text \<open>\<^verbatim>\<open>if (args[i]) args[i]--\<close> and \<^verbatim>\<open>if (!args[i]) args[i]++\<close>, returning the new value.\<close>

definition arg_dec :: "console \<Rightarrow> nat \<Rightarrow> (u32 \<times> console) option" where
  "arg_dec c i = do {
     a \<leftarrow> aget (c_args c) i;
     let a = (if a \<noteq> 0 then a - 1 else a);
     Some (a, c\<lparr>c_args := (c_args c)[i := a]\<rparr>) }"

definition arg_one :: "console \<Rightarrow> (u32 \<times> console) option" where
  "arg_one c = do {
     a \<leftarrow> aget (c_args c) 0;
     let a = (if a = 0 then a + 1 else a);
     Some (a, c\<lparr>c_args := (c_args c)[0 := a]\<rparr>) }"

definition state_csi :: "console \<Rightarrow> u8 \<Rightarrow> console option" where
  "state_csi c ch =
     (let c = c\<lparr>c_state := STATE_NOR\<rparr> in
      if ch = 0x47 \<or> ch = 0x60 then do { (a, c) \<leftarrow> arg_dec c 0; Some (set_xy c a (c_y c)) }
      else if ch = 0x41 then do { (a, c) \<leftarrow> arg_one c; Some (set_xy c (c_x c) (c_y c - a)) }
      else if ch = 0x42 \<or> ch = 0x65 then do { (a, c) \<leftarrow> arg_one c; Some (set_xy c (c_x c) (c_y c + a)) }
      else if ch = 0x43 \<or> ch = 0x61 then do { (a, c) \<leftarrow> arg_one c; Some (set_xy c (c_x c + a) (c_y c)) }
      else if ch = 0x44 then do { (a, c) \<leftarrow> arg_one c; Some (set_xy c (c_x c - a) (c_y c)) }
      else if ch = 0x45 then do { (a, c) \<leftarrow> arg_one c; Some (set_xy c 0 (c_y c + a)) }
      else if ch = 0x46 then do { (a, c) \<leftarrow> arg_one c; Some (set_xy c 0 (c_y c - a)) }
      else if ch = 0x64 then do { (a, c) \<leftarrow> arg_dec c 0; Some (set_xy c (c_x c) a) }
      else if ch = 0x48 \<or> ch = 0x66 then do {
        (a0, c) \<leftarrow> arg_dec c 0;
        (a1, c) \<leftarrow> arg_dec c 1;
        Some (set_xy c a1 a0) }
      else if ch = 0x4A then csi_J c
      else if ch = 0x4B then csi_K c
      else if ch = 0x4C then csi_L c
      else if ch = 0x4D then csi_M c
      else if ch = 0x50 then csi_P c
      else if ch = 0x40 then csi_at c
      else if ch = 0x6D then csi_m c
      else if ch = 0x72 then Some c
      else if ch = 0x73 then (let c = save_cursor c in Some (set_xy c (c_saved_x c) (c_saved_y c)))
      else if ch = 0x75 then Some (set_xy c (c_saved_x c) (c_saved_y c))
      else Some c)"

definition arg_step :: "console \<Rightarrow> u8 \<Rightarrow> console option" where
  "arg_step c ch = do {
     (done, c) \<leftarrow> state_arg c ch;
     if done then state_csi c ch else Some c }"

definition console_byte :: "console \<Rightarrow> u8 \<Rightarrow> console option" where
  "console_byte c ch =
     (case c_state c of
        STATE_NOR \<Rightarrow> Some (state_normal c ch)
      | STATE_ESC \<Rightarrow> Some (state_esc c ch)
      | STATE_QUE \<Rightarrow>
          (let c = c\<lparr>c_args := replicate (unat ARG_NR) 0, c_argc := 0, c_state := STATE_ARG,
                     c_ques := (ch = 0x3F)\<rparr>
           in if c_ques c then Some c else arg_step c ch)
      | STATE_ARG \<Rightarrow> arg_step c ch
      | STATE_CSI \<Rightarrow> state_csi c ch)"

fun console_bytes :: "console \<Rightarrow> u8 list \<Rightarrow> console option" where
  "console_bytes c [] = Some c"
| "console_bytes c (ch # buf) = do { c \<leftarrow> console_byte c ch; console_bytes c buf }"

text \<open>The loop counter has been incremented once more than bytes were written when it is returned.\<close>

definition console_write :: "console \<Rightarrow> u8 list \<Rightarrow> (u32 \<times> console) option" where
  "console_write c buf = do {
     let intr = c_intr c;
     let c = c\<lparr>c_intr := False\<rparr>;
     c \<leftarrow> console_bytes c buf;
     let c = set_cursor c;
     Some (of_nat (length buf) + 1, c\<lparr>c_intr := intr\<rparr>) }"

definition console_init :: "console \<Rightarrow> console" where
  "console_init c =
     (let c = c\<lparr>c_mem_base := MEM_BASE, c_mem_size := (MEM_SIZE div ROW_SIZE) * ROW_SIZE\<rparr>;
          c = c\<lparr>c_mem_end := c_mem_base c + c_mem_size c, c_width := WIDTH, c_height := HEIGHT\<rparr>;
          c = c\<lparr>c_row_size := c_width c * 2, c_scr_size := c_width c * c_height c * 2\<rparr>;
          c = c\<lparr>c_erase := 0x0720, c_style := 7\<rparr>
      in console_clear c)"

section \<open>Geometry and the video window\<close>

definition con_geom :: "console \<Rightarrow> bool" where
  "con_geom c \<longleftrightarrow> c_mem_base c = MEM_BASE \<and> c_mem_size c = 16320 \<and> c_mem_end c = MEM_BASE + 16320 \<and>
     c_width c = 80 \<and> c_height c = 25 \<and> c_row_size c = 160 \<and> c_scr_size c = 4000 \<and>
     length (c_args c) = 16 \<and> c_argc c \<le> 16"

text \<open>\<open>con_at c k x y\<close>: the screen starts at row \<open>k\<close> of the video memory, the cursor is in column
  \<open>x\<close> of screen row \<open>y\<close>.\<close>

definition con_at :: "console \<Rightarrow> nat \<Rightarrow> nat \<Rightarrow> nat \<Rightarrow> bool" where
  "con_at c k x y \<longleftrightarrow> c_screen c = MEM_BASE + of_nat (160 * k) \<and> c_x c = of_nat x \<and> c_y c = of_nat y \<and>
     c_pos c = MEM_BASE + of_nat (160 * k + 160 * y + 2 * x)"

text \<open>
  The screen always lies so that one more row fits behind it; the cursor may stand one column
  past the last one.
\<close>

definition con_inv :: "console \<Rightarrow> bool" where
  "con_inv c \<longleftrightarrow> con_geom c \<and> (\<exists>k \<le> 76. \<exists>x \<le> 80. \<exists>y < 25. con_at c k x y)"

lemma con_invE:
  assumes "con_inv c"
  obtains k x y where "con_geom c" "k \<le> 76" "x \<le> 80" "y < 25" "con_at c k x y"
  using assms unfolding con_inv_def by blast

lemma con_invI: "con_geom c \<Longrightarrow> k \<le> 76 \<Longrightarrow> x \<le> 80 \<Longrightarrow> y < 25 \<Longrightarrow> con_at c k x y \<Longrightarrow> con_inv c"
  unfolding con_inv_def by blast

definition voff :: "u32 \<Rightarrow> nat" where
  "voff a = unat (a - MEM_BASE)"

definition vframe :: "mem \<Rightarrow> mem \<Rightarrow> bool" where
  "vframe m m' \<longleftrightarrow> (\<forall>a. 16320 \<le> voff a \<longrightarrow> m' a = m a)"

lemma voff_base [simp]: "q < 4294967296 \<Longrightarrow> voff (MEM_BASE + of_nat q) = q"
  by (simp add: voff_def)

lemma vframe_refl [simp]: "vframe m m"
  by (simp add: vframe_def)

lemma vframe_trans [trans]: "vframe m1 m2 \<Longrightarrow> vframe m2 m3 \<Longrightarrow> vframe m1 m3"
  by (simp add: vframe_def)

lemma vframe_write: "q < 16320 \<Longrightarrow> a = MEM_BASE + of_nat q \<Longrightarrow> vframe m (m(a := v))"
  by (auto simp: vframe_def)

lemma base_plus: "MEM_BASE + of_nat q + numeral n = MEM_BASE + of_nat (q + numeral n)"
  "MEM_BASE + of_nat q + 1 = MEM_BASE + of_nat (q + 1)"
  by (simp_all add: add.assoc)

lemma vframe_poke16: "q + 2 \<le> 16320 \<Longrightarrow> a = MEM_BASE + of_nat q \<Longrightarrow> vframe m (poke16 m a v)"
  unfolding poke16_def
  by (rule vframe_trans [OF vframe_write [of q] vframe_write [of "q + 1"]]) (simp_all add: add.assoc)

lemma vframe_erase_loop: "q + 2 * n \<le> 16320 \<Longrightarrow> vframe m (erase_loop m e (MEM_BASE + of_nat q) n)"
proof (induction n arbitrary: q m)
  case (Suc n)
  have "vframe m (poke16 m (MEM_BASE + of_nat q) e)" using Suc.prems by (intro vframe_poke16 [of q]) simp_all
  moreover have "vframe (poke16 m (MEM_BASE + of_nat q) e)
      (erase_loop (poke16 m (MEM_BASE + of_nat q) e) e (MEM_BASE + of_nat (q + 2)) n)"
    using Suc by (intro Suc.IH) simp
  ultimately show ?case by (simp only: erase_loop.simps base_plus) (rule vframe_trans)
qed simp

lemma vframe_memcpy_loop:
  "q + n \<le> 16320 \<Longrightarrow> vframe m (memcpy_loop m (MEM_BASE + of_nat q) src n)"
proof (induction n arbitrary: q m src)
  case (Suc n)
  let ?m = "m(MEM_BASE + of_nat q := m src)"
  have "vframe m ?m" using Suc.prems by (intro vframe_write [of q]) simp_all
  moreover have "vframe ?m (memcpy_loop ?m (MEM_BASE + of_nat (q + 1)) (src + 1) n)"
    using Suc.prems by (intro Suc.IH) simp
  ultimately show ?case by (simp only: memcpy_loop.simps base_plus) (rule vframe_trans)
qed simp

lemma vframe_erase_screen:
  "q + 2 * unat n \<le> 16320 \<Longrightarrow> start = MEM_BASE + of_nat q \<Longrightarrow> vframe (c_mem c) (c_mem (erase_screen c start n))"
  by (simp add: erase_screen_def vframe_erase_loop)

lemma vframe_memcpy:
  "q + unat n \<le> 16320 \<Longrightarrow> dest = MEM_BASE + of_nat q \<Longrightarrow> vframe m (snd (memcpy m dest src n))"
  by (simp add: memcpy_def vframe_memcpy_loop)

text \<open>The CRT registers are the only part of the state that the two setters change.\<close>

lemma crt_set [simp]:
  "c_mem (set_screen c) = c_mem c" "c_mem (set_cursor c) = c_mem c"
  "con_geom (set_screen c) = con_geom c" "con_geom (set_cursor c) = con_geom c"
  "con_at (set_screen c) k x y = con_at c k x y" "con_at (set_cursor c) k x y = con_at c k x y"
  "c_state (set_screen c) = c_state c" "c_state (set_cursor c) = c_state c"
  "c_style (set_screen c) = c_style c" "c_style (set_cursor c) = c_style c"
  by (simp_all add: set_screen_def set_cursor_def crt_outb_def con_geom_def con_at_def Let_def)

lemma con_at_erase [simp]: "con_at (erase_screen c a n) k x y = con_at c k x y"
  "con_geom (erase_screen c a n) = con_geom c" "c_state (erase_screen c a n) = c_state c"
  by (simp_all add: erase_screen_def con_at_def con_geom_def)

lemma con_at_mem [simp]: "con_at (c\<lparr>c_mem := m\<rparr>) k x y = con_at c k x y"
  "con_geom (c\<lparr>c_mem := m\<rparr>) = con_geom c"
  by (simp_all add: con_at_def con_geom_def)

text \<open>A step that keeps the invariant and writes only video memory.\<close>

definition con_ok :: "console \<Rightarrow> console \<Rightarrow> bool" where
  "con_ok c c' \<longleftrightarrow> con_inv c' \<and> vframe (c_mem c) (c_mem c')"

lemma con_ok_trans: "con_ok c1 c2 \<Longrightarrow> con_ok c2 c3 \<Longrightarrow> con_ok c1 c3"
  unfolding con_ok_def using vframe_trans by blast

lemma con_ok_refl: "con_inv c \<Longrightarrow> con_ok c c"
  by (simp add: con_ok_def)

section \<open>Cursor movement\<close>

lemma set_xy_at:
  assumes "con_geom c" "con_at c k x y" "a \<le> 80" "b < 25"
  shows "con_at (set_xy c a b) k (unat a) (unat b)"
proof -
  have "\<not> (a > c_width c \<or> b \<ge> c_height c)" using assms by (simp add: con_geom_def linorder_not_less)
  then show ?thesis
    using assms by (simp add: set_xy_def con_at_def con_geom_def push_bit_eq_mult algebra_simps)
qed

lemma set_xy_geom [simp]: "con_geom (set_xy c a b) = con_geom c" "c_mem (set_xy c a b) = c_mem c"
  "c_state (set_xy c a b) = c_state c"
  by (simp_all add: set_xy_def con_geom_def)

lemma set_xy_ok: "con_inv c \<Longrightarrow> con_ok c (set_xy c a b)"
proof (cases "a \<le> 80 \<and> b < 25")
  case True
  assume "con_inv c"
  then obtain k x y where c: "con_geom c" "k \<le> 76" "con_at c k x y" by (rule con_invE)
  have "unat a \<le> 80" "unat b < 25" using True by (simp_all add: word_le_nat_alt word_less_nat_alt)
  then have "con_inv (set_xy c a b)"
    using con_invI [OF _ c(2) _ _ set_xy_at [OF c(1,3)]] c(1) True by simp
  then show ?thesis by (simp add: con_ok_def)
next
  case False
  assume "con_inv c"
  moreover from this False have "set_xy c a b = c" by (auto simp: set_xy_def con_inv_def con_geom_def)
  ultimately show ?thesis by (simp add: con_ok_refl)
qed

lemma unat_base: "q < 16777216 \<Longrightarrow> unat (MEM_BASE + of_nat q) = unat MEM_BASE + q"
  by (subst unat_plus_less) (simp_all add: MEM_BASE_def KERNEL_VADDR_OFFSET_def)

lemma base_less: "p < 16777216 \<Longrightarrow> q < 16777216 \<Longrightarrow> MEM_BASE + of_nat p < MEM_BASE + of_nat q \<longleftrightarrow> p < q"
  by (simp add: word_less_nat_alt unat_base)

lemma base_le: "p < 16777216 \<Longrightarrow> q < 16777216 \<Longrightarrow> MEM_BASE + of_nat p \<le> MEM_BASE + of_nat q \<longleftrightarrow> p \<le> q"
  by (simp add: word_le_nat_alt unat_base)

lemma scroll_up_ok:
  assumes geom: "con_geom c" and at: "con_at c k x y" and b: "k \<le> 76" "x \<le> 80" "y < 25"
  shows "\<exists>k' \<le> 76. con_at (scroll_up c) k' x y \<and> con_geom (scroll_up c) \<and>
     vframe (c_mem c) (c_mem (scroll_up c)) \<and> c_state (scroll_up c) = c_state c"
proof -
  have cmp: "c_mem_end c \<le> c_screen c + c_scr_size c + c_row_size c \<longleftrightarrow> k = 76"
  proof -
    have "c_screen c + c_scr_size c + c_row_size c = MEM_BASE + of_nat (160 * k + 4160)"
      "c_mem_end c = MEM_BASE + of_nat 16320"
      using geom at by (simp_all add: con_geom_def con_at_def add.assoc)
    then show ?thesis using b(1) base_le [of 16320 "160 * k + 4160"] by auto
  qed
  define c1 where "c1 = (if k = 76 then c\<lparr>c_mem := snd (memcpy (c_mem c) MEM_BASE (c_screen c) 4000),
      c_pos := c_pos c - (c_screen c - MEM_BASE), c_screen := MEM_BASE\<rparr> else c)"
  define j where "j = (if k = 76 then 0 else k)"
  have c1: "con_geom c1" "con_at c1 j x y" "j < 76" "c_state c1 = c_state c"
    using geom at b(1) by (auto simp: c1_def j_def con_geom_def con_at_def algebra_simps)
  have m1: "vframe (c_mem c) (c_mem c1)" using vframe_memcpy [of 0 4000] by (auto simp: c1_def)
  define c2 where "c2 = (erase_screen c1 (c_screen c1 + 4000) 80)
      \<lparr>c_screen := c_screen c1 + 160, c_pos := c_pos c1 + 160\<rparr>"
  have su: "scroll_up c = set_screen c2"
    using geom cmp by (auto simp: scroll_up_def c1_def c2_def con_geom_def Let_def erase_screen_def)
  have m2: "vframe (c_mem c1) (c_mem c2)"
    using c1 vframe_erase_screen [of "160 * j + 4000" 80 "c_screen c1 + 4000" c1]
    by (simp add: con_at_def c2_def)
  have "con_at c2 (Suc j) x y" "con_geom c2" "c_state c2 = c_state c"
    using c1 by (simp_all add: c2_def con_at_def con_geom_def erase_screen_def algebra_simps)
  then show ?thesis
    using c1(3) vframe_trans [OF m1 m2] unfolding su by (intro exI [of _ "Suc j"]) simp
qed

lemma lf_ok:
  assumes geom: "con_geom c" and at: "con_at c k x y" and b: "k \<le> 76" "x \<le> 80" "y < 25"
  shows "\<exists>k' y'. k' \<le> 76 \<and> y' < 25 \<and> con_at (lf c) k' x y' \<and> con_geom (lf c) \<and>
     vframe (c_mem c) (c_mem (lf c)) \<and> c_state (lf c) = c_state c"
proof (cases "y + 1 < 25")
  case True
  have "unat (c_y c + 1) = y + 1" using at b(3) by (subst unat_Suc_less) (simp_all add: con_at_def)
  then have "lf c = c\<lparr>c_y := c_y c + 1, c_pos := c_pos c + 160\<rparr>"
    using geom True by (simp add: lf_def con_geom_def word_less_nat_alt)
  then show ?thesis using True b at geom
    by (intro exI [of _ k] exI [of _ "y + 1"]) (simp add: con_at_def con_geom_def algebra_simps)
next
  case False
  have "unat (c_y c + 1) = y + 1" using at b(3) by (subst unat_Suc_less) (simp_all add: con_at_def)
  then have "lf c = scroll_up c"
    using geom False b(3) by (simp add: lf_def con_geom_def word_less_nat_alt)
  then show ?thesis using scroll_up_ok [OF assms] b(3) by auto
qed

lemma con_okI:
  "con_geom c' \<Longrightarrow> k \<le> 76 \<Longrightarrow> x \<le> 80 \<Longrightarrow> y < 25 \<Longrightarrow> con_at c' k x y \<Longrightarrow>
   vframe (c_mem c) (c_mem c') \<Longrightarrow> con_ok c c'"
  unfolding con_ok_def by (blast intro: con_invI)

lemma lf_inv: "con_inv c \<Longrightarrow> con_ok c (lf c)"
  by (erule con_invE, drule (4) lf_ok) (auto intro: con_okI)

lemma cr_inv: "con_inv c \<Longrightarrow> con_ok c (cr c)"
proof (erule con_invE)
  fix k x y assume c: "con_geom c" "k \<le> 76" "x \<le> 80" "y < 25" "con_at c k x y"
  then have "con_at (cr c) k 0 y" "con_geom (cr c)" "c_mem (cr c) = c_mem c"
    by (simp_all add: cr_def con_at_def con_geom_def push_bit_eq_mult algebra_simps)
  then show ?thesis using c by (intro con_okI [of _ k 0 y]) simp_all
qed

text \<open>Wrapping: a column past the last one continues on the next row.\<close>

lemma wrap_line_ok:
  assumes geom: "con_geom c" and at: "con_at c k x y" and b: "k \<le> 76" "x < 160" "y < 25"
  shows "\<exists>k' y'. k' \<le> 76 \<and> y' < 25 \<and> con_at (wrap_line c) k' (x mod 80) y' \<and> con_geom (wrap_line c) \<and>
     vframe (c_mem c) (c_mem (wrap_line c)) \<and> c_state (wrap_line c) = c_state c"
proof (cases "80 \<le> x")
  case True
  define c1 where "c1 = c\<lparr>c_x := c_x c - 80, c_pos := c_pos c - 160\<rparr>"
  obtain z where z: "x = 80 + z" using True le_Suc_ex by blast
  have c1: "con_at c1 k (x - 80) y" "con_geom c1"
    using at geom by (simp_all add: c1_def con_at_def con_geom_def z algebra_simps)
  have w: "wrap_line c = lf c1"
    using True geom at b(2) by (simp add: wrap_line_def c1_def con_geom_def con_at_def word_le_nat_alt)
  have "x mod 80 = x - 80" using True b(2) by (simp add: le_mod_geq)
  then show ?thesis using lf_ok [OF c1(2,1) b(1) _ b(3)] b(2) unfolding w by (simp add: c1_def)
next
  case False
  then have "wrap_line c = c"
    using geom at by (simp add: wrap_line_def con_geom_def con_at_def word_le_nat_alt)
  then show ?thesis using False assms by auto
qed

lemma and_7_mod: "(of_nat x :: u32) AND 7 = of_nat (x mod 8)"
proof -
  have "(of_nat x :: u32) AND 7 = take_bit 3 (of_nat x)"
    by (simp add: take_bit_eq_mask mask_eq_exp_minus_1)
  also have "\<dots> = of_nat (take_bit 3 x)" by (simp add: take_bit_of_nat)
  finally show ?thesis by (simp add: take_bit_eq_mod)
qed

lemma tab_inv: "con_inv c \<Longrightarrow> con_ok c (tab c)"
proof (erule con_invE)
  fix k x y assume c: "con_geom c" "k \<le> 76" "x \<le> 80" "y < 25" "con_at c k x y"
  define d where "d = 8 - x mod 8"
  have "x mod 8 \<le> 8" by (simp add: less_imp_le)
  then have off: "8 - (c_x c AND 7) = of_nat d"
    using c(5) by (simp add: con_at_def and_7_mod d_def of_nat_diff)
  define c1 where "c1 = c\<lparr>c_x := c_x c + of_nat d, c_pos := c_pos c + push_bit 1 (of_nat d)\<rparr>"
  have t: "tab c = wrap_line c1" by (simp only: tab_def off c1_def Let_def)
  have "con_at c1 k (x + d) y" "con_geom c1" "c_mem c1 = c_mem c"
    using c by (simp_all add: c1_def con_at_def con_geom_def push_bit_eq_mult algebra_simps)
  moreover have "x + d < 160" using c(3) by (simp add: d_def)
  ultimately obtain k' y' where "k' \<le> 76" "y' < 25" "con_at (wrap_line c1) k' ((x + d) mod 80) y'"
      "con_geom (wrap_line c1)" "vframe (c_mem c) (c_mem (wrap_line c1))"
    using wrap_line_ok [of c1 k "x + d" y] c(2,4) by auto
  then show ?thesis unfolding t by (intro con_okI [of _ k' "(x + d) mod 80" y']) (simp_all add: less_imp_le)
qed

lemma mem_only_ok: "con_inv c \<Longrightarrow> vframe (c_mem c) m \<Longrightarrow> con_ok c (c\<lparr>c_mem := m\<rparr>)"
  by (simp add: con_ok_def con_inv_def)

lemma con_inv_pos:
  assumes "con_at c k x y" "k \<le> 76" "x \<le> 80" "y < 25"
  obtains q where "c_pos c = MEM_BASE + of_nat q" "q = 160 * k + 160 * y + 2 * x" "q \<le> 16160"
  using assms by (auto simp: con_at_def)

lemma del_inv: "con_inv c \<Longrightarrow> con_ok c (del c)"
proof -
  assume inv: "con_inv c"
  then obtain k x y where c: "con_geom c" "k \<le> 76" "x \<le> 80" "y < 25" "con_at c k x y" by (rule con_invE)
  obtain q where q: "c_pos c = MEM_BASE + of_nat q" "q \<le> 16160"
    using con_inv_pos [OF c(5,2,3,4)] by metis
  then show ?thesis unfolding del_def
    by (intro mem_only_ok [OF inv] vframe_poke16 [of q]) simp_all
qed

lemma bs_inv: "con_inv c \<Longrightarrow> con_ok c (bs c)"
proof (cases "c_x c = 0")
  case False
  assume inv: "con_inv c"
  then obtain k x y where c: "con_geom c" "k \<le> 76" "x \<le> 80" "y < 25" "con_at c k x y" by (rule con_invE)
  have "x \<noteq> 0" using c(5) False unfolding con_at_def by (intro notI) simp
  then obtain z where z: "x = Suc z" by (cases x) auto
  define c1 where "c1 = c\<lparr>c_x := c_x c - 1, c_pos := c_pos c - 2\<rparr>"
  have c1: "con_at c1 k z y" "con_geom c1" "c_mem c1 = c_mem c"
    using c by (simp_all add: c1_def con_at_def con_geom_def z algebra_simps)
  then have "con_inv c1" using c z by (intro con_invI [of c1 k z y]) simp_all
  moreover have "bs c = del c1" using False by (simp add: bs_def del_def c1_def Let_def)
  ultimately show ?thesis using del_inv [of c1] c1(3) by (simp add: con_ok_def)
next
  case True
  assume "con_inv c"
  then show ?thesis using True by (simp add: bs_def con_ok_refl)
qed

text \<open>A character is stored in the cell under the cursor, which moves one column on.\<close>

lemma chr_ok:
  assumes "con_inv c"
  shows "\<exists>k x y. k \<le> 76 \<and> x < 80 \<and> y < 25 \<and> con_at (wrap_line c) k x y \<and> con_geom (wrap_line c) \<and>
     con_at (chr c ch) k (x + 1) y \<and> con_geom (chr c ch) \<and> vframe (c_mem c) (c_mem (chr c ch)) \<and>
     c_state (chr c ch) = c_state c"
proof -
  obtain k x y where c: "con_geom c" "k \<le> 76" "x \<le> 80" "y < 25" "con_at c k x y"
    using assms by (rule con_invE)
  obtain k' y' where w: "k' \<le> 76" "y' < 25" "con_at (wrap_line c) k' (x mod 80) y'" "con_geom (wrap_line c)"
      "vframe (c_mem c) (c_mem (wrap_line c))" "c_state (wrap_line c) = c_state c"
    using wrap_line_ok [OF c(1,5,2) _ c(4)] c(3) by auto
  have x80: "x mod 80 < 80" by simp
  obtain q where q: "c_pos (wrap_line c) = MEM_BASE + of_nat q" "q \<le> 16160"
    using con_inv_pos [OF w(3,1) _ w(2)] x80 by (metis less_imp_le)
  have mem: "c_mem (chr c ch) = (c_mem (wrap_line c))(MEM_BASE + of_nat q := ch, MEM_BASE + of_nat (q + 1) := c_style (wrap_line c))"
    by (simp add: chr_def Let_def q(1) add_ac)
  have "vframe (c_mem (wrap_line c)) (c_mem (chr c ch))"
    unfolding mem using q(2) by (intro vframe_trans [OF vframe_write [of q] vframe_write [of "q + 1"]]) simp_all
  moreover have "con_at (chr c ch) k' (x mod 80 + 1) y'" "con_geom (chr c ch)" "c_state (chr c ch) = c_state c"
    using w(3,4,6) by (simp_all add: chr_def con_at_def con_geom_def Let_def algebra_simps)
  ultimately show ?thesis using w x80 vframe_trans by blast
qed

lemma chr_inv: "con_inv c \<Longrightarrow> con_ok c (chr c ch)"
proof -
  assume "con_inv c"
  from chr_ok [OF this, of ch] obtain k x y where
    "k \<le> 76" "x < 80" "y < 25" "con_at (chr c ch) k (x + 1) y" "con_geom (chr c ch)" "vframe (c_mem c) (c_mem (chr c ch))"
    by blast
  then show ?thesis by (intro con_okI [of _ k "x + 1" y]) simp_all
qed

lemma con_inv_fields [simp]:
  "con_inv (c\<lparr>c_state := st\<rparr>) = con_inv c" "con_inv (c\<lparr>c_beeps := n\<rparr>) = con_inv c"
  "con_inv (c\<lparr>c_intr := i\<rparr>) = con_inv c" "con_inv (c\<lparr>c_ques := b\<rparr>) = con_inv c"
  "con_inv (c\<lparr>c_style := sty, c_erase := e\<rparr>) = con_inv c"
  "con_inv (c\<lparr>c_saved_x := sx, c_saved_y := sy\<rparr>) = con_inv c"
  by (simp_all add: con_inv_def con_geom_def con_at_def)

lemma con_inv_args: "con_inv c \<Longrightarrow> length as = 16 \<Longrightarrow> n \<le> 16 \<Longrightarrow> con_inv (c\<lparr>c_args := as, c_argc := n\<rparr>)"
  by (simp add: con_inv_def con_geom_def con_at_def)

lemma con_inv_set_cursor [simp]: "con_inv (set_cursor c) = con_inv c"
  by (simp add: con_inv_def)

lemma lf_cr_inv: "con_inv c \<Longrightarrow> con_ok c (cr (lf c))"
  using lf_inv [of c] cr_inv [of "lf c"] con_ok_trans by (auto simp: con_ok_def)

lemma state_normal_inv: "con_inv c \<Longrightarrow> con_ok c (state_normal c ch)"
  unfolding state_normal_def
  using lf_cr_inv lf_inv cr_inv bs_inv tab_inv del_inv chr_inv by (simp add: con_ok_def)

lemma state_esc_inv: "con_inv c \<Longrightarrow> con_ok c (state_esc c ch)"
  unfolding state_esc_def
  using lf_cr_inv lf_inv set_xy_ok
  by (simp add: con_ok_def save_cursor_def)

section \<open>Control sequences\<close>

lemma repeat_ok:
  assumes "\<And>c. con_inv c \<Longrightarrow> \<exists>c'. f c = Some c' \<and> con_ok c c'" "con_inv c"
  shows "\<exists>c'. repeat_n n f c = Some c' \<and> con_ok c c'"
  using assms(2)
proof (induction n arbitrary: c)
  case (Suc n)
  obtain c1 where c1: "f c = Some c1" "con_ok c c1" using assms(1) Suc.prems by blast
  then obtain c2 where "repeat_n n f c1 = Some c2" "con_ok c1 c2" using Suc.IH [of c1] by (auto simp: con_ok_def)
  then show ?case using c1 con_ok_trans by auto
qed (simp add: con_ok_refl)

lemma erase_ok:
  "con_inv c \<Longrightarrow> a = MEM_BASE + of_nat q \<Longrightarrow> q + 2 * unat n \<le> 16320 \<Longrightarrow> con_ok c (erase_screen c a n)"
  unfolding erase_screen_def by (intro mem_only_ok) (simp_all add: vframe_erase_loop)

lemma unat_half: "unat (drop_bit (Suc 0) (of_nat n :: u32)) = n div 2" if "n < 4294967296"
  using that by (simp add: drop_bit_eq_div unat_div)

lemma csi_J_ok: "con_inv c \<Longrightarrow> \<exists>c'. csi_J c = Some c' \<and> con_ok c c'"
proof -
  assume inv: "con_inv c"
  then obtain k x y where c: "con_geom c" "k \<le> 76" "x \<le> 80" "y < 25" "con_at c k x y" by (rule con_invE)
  then have bound: "160 * y + 2 * x \<le> 4000" by simp
  then obtain r where r: "4000 = 160 * y + 2 * x + r" using le_Suc_ex by blast
  have scr: "c_scr_size c = of_nat (160 * y + 2 * x + r)" using c(1) r [symmetric] by (simp add: con_geom_def)
  have d0: "c_screen c + c_scr_size c - c_pos c = of_nat r" and d1: "c_pos c - c_screen c = of_nat (160 * y + 2 * x)"
    using c(5) scr by (simp_all add: con_at_def algebra_simps)
  have "con_ok c (erase_screen c (c_pos c) (drop_bit 1 (c_screen c + c_scr_size c - c_pos c)))"
    unfolding d0 using c(2,5) r by (intro erase_ok [OF inv, of _ "160 * k + 160 * y + 2 * x"]) (simp_all add: con_at_def unat_half)
  moreover have "con_ok c (erase_screen c (c_screen c) (drop_bit 1 (c_pos c - c_screen c)))"
    unfolding d1 using c(2,5) bound by (intro erase_ok [OF inv, of _ "160 * k"]) (simp_all add: con_at_def unat_half del: of_nat_add of_nat_mult)
  moreover have "con_ok c (erase_screen c (c_screen c) (drop_bit 1 (c_scr_size c)))"
    using c(1,2,5) unat_half [of 4000] by (intro erase_ok [OF inv, of _ "160 * k"]) (simp_all add: con_at_def con_geom_def)
  ultimately show ?thesis
    using c(1) inv by (simp add: csi_J_def con_geom_def con_ok_refl)
qed

lemma csi_K_ok: "con_inv c \<Longrightarrow> \<exists>c'. csi_K c = Some c' \<and> con_ok c c'"
proof -
  assume inv: "con_inv c"
  then obtain k x y where c: "con_geom c" "k \<le> 76" "x \<le> 80" "y < 25" "con_at c k x y" by (rule con_invE)
  obtain r where r: "80 = x + r" using c(3) le_Suc_ex by blast
  have w: "c_width c = of_nat (x + r)" using c(1) r [symmetric] by (simp add: con_geom_def)
  have d0: "c_width c - c_x c = of_nat r" using c(5) w by (simp add: con_at_def)
  have d1: "c_pos c - push_bit 1 (c_x c) = MEM_BASE + of_nat (160 * k + 160 * y)"
    using c(5) by (simp add: con_at_def push_bit_eq_mult algebra_simps)
  have "con_ok c (erase_screen c (c_pos c) (c_width c - c_x c))"
    unfolding d0 using c(2,4,5) r by (intro erase_ok [OF inv, of _ "160 * k + 160 * y + 2 * x"]) (simp_all add: con_at_def)
  moreover have "con_ok c (erase_screen c (c_pos c - push_bit 1 (c_x c)) (c_x c))"
    unfolding d1 using c(2,3,4,5) by (intro erase_ok [OF inv, of _ "160 * k + 160 * y"]) (simp_all add: con_at_def)
  moreover have "con_ok c (erase_screen c (c_pos c - push_bit 1 (c_x c)) (c_width c))"
    unfolding d1 using c(1,2,4) by (intro erase_ok [OF inv, of _ "160 * k + 160 * y"]) (simp_all add: con_geom_def)
  ultimately show ?thesis
    using c(1) inv by (simp add: csi_K_def con_geom_def con_ok_refl)
qed

text \<open>\<open>t\<close> is the row the loop of \<^verbatim>\<open>insert_line\<close> reads, \<open>r\<close> the row it stops below.\<close>

lemma insert_line_loop_ok:
  "con_geom c \<Longrightarrow> t \<le> 100 \<Longrightarrow> r \<le> 101 \<Longrightarrow>
   \<exists>m. insert_line_loop c (MEM_BASE + of_nat (160 * r)) (102 - of_nat t) = Some (c\<lparr>c_mem := m\<rparr>) \<and> vframe (c_mem c) m"
proof (induction t arbitrary: c)
  case 0
  show ?case
  proof (cases "r = 0")
    case True
    define c1 where "c1 = c\<lparr>c_mem := snd (memcpy (c_mem c) (MEM_BASE + of_nat 160) MEM_BASE 160)\<rparr>"
    have "vframe (c_mem c) (c_mem c1)" unfolding c1_def using vframe_memcpy [of 160 160] by simp
    moreover have "insert_line_loop c1 MEM_BASE 103 = Some c1"
      using 0 by (subst insert_line_loop.simps)
        (simp add: c1_def con_geom_def MEM_BASE_def KERNEL_VADDR_OFFSET_def)
    moreover have "insert_line_loop c MEM_BASE 102 = insert_line_loop c1 MEM_BASE 103"
      using 0(1) by (subst insert_line_loop.simps) (simp add: con_geom_def c1_def)
    ultimately show ?thesis using True by (intro exI [of _ "c_mem c1"]) (simp add: c1_def)
  next
    case False
    then have "MEM_BASE < MEM_BASE + of_nat (160 * r)" using base_less [of 0 "160 * r"] 0(3) by simp
    moreover have "c_mem_end c - 102 * c_row_size c = MEM_BASE" using 0(1) by (simp add: con_geom_def)
    ultimately have "insert_line_loop c (MEM_BASE + of_nat (160 * r)) 102 = Some c"
      by (subst insert_line_loop.simps) (simp only: Let_def if_True)
    then show ?thesis by (intro exI [of _ "c_mem c"]) simp
  qed
next
  case (Suc t)
  have src: "c_mem_end c - (102 - of_nat (Suc t)) * c_row_size c = MEM_BASE + of_nat (160 * Suc t)"
    using Suc.prems(1) by (simp add: con_geom_def algebra_simps)
  show ?case
  proof (cases "Suc t < r")
    case True
    then have "MEM_BASE + of_nat (160 * Suc t) < MEM_BASE + of_nat (160 * r)"
      using Suc.prems by (subst base_less) simp_all
    then show ?thesis
      by (subst insert_line_loop.simps) (auto simp: src Let_def intro: exI [of _ "c_mem c"] simp del: of_nat_mult of_nat_Suc)
  next
    case False
    then have ge: "\<not> MEM_BASE + of_nat (160 * Suc t) < MEM_BASE + of_nat (160 * r)"
      using Suc.prems by (subst base_less) simp_all
    define c1 where "c1 = c\<lparr>c_mem := snd (memcpy (c_mem c) (MEM_BASE + of_nat (160 * Suc t + 160)) (MEM_BASE + of_nat (160 * Suc t)) 160)\<rparr>"
    have v: "vframe (c_mem c) (c_mem c1)"
      unfolding c1_def using vframe_memcpy [of "160 * Suc t + 160" 160] Suc.prems(2) by simp
    obtain m where m: "insert_line_loop c1 (MEM_BASE + of_nat (160 * r)) (102 - of_nat t) = Some (c1\<lparr>c_mem := m\<rparr>)" "vframe (c_mem c1) m"
      using Suc.IH [of c1] Suc.prems by (auto simp: c1_def)
    have "insert_line_loop c (MEM_BASE + of_nat (160 * r)) (102 - of_nat (Suc t)) =
        insert_line_loop c1 (MEM_BASE + of_nat (160 * r)) (102 - of_nat t)"
      using ge Suc.prems(1)
      by (subst insert_line_loop.simps) (simp add: src Let_def c1_def con_geom_def algebra_simps)
    then show ?thesis using m vframe_trans [OF v m(2)] by (auto simp: c1_def)
  qed
qed

lemma insert_line_ok: "con_inv c \<Longrightarrow> \<exists>c'. insert_line c = Some c' \<and> con_ok c c'"
proof -
  assume inv: "con_inv c"
  then obtain k x y where c: "con_geom c" "k \<le> 76" "x \<le> 80" "y < 25" "con_at c k x y" by (rule con_invE)
  have start: "c_screen c + c_y c * c_row_size c = MEM_BASE + of_nat (160 * (k + y))"
    using c(1,5) by (simp add: con_at_def con_geom_def algebra_simps)
  obtain m where m: "insert_line_loop c (MEM_BASE + of_nat (160 * (k + y))) 2 = Some (c\<lparr>c_mem := m\<rparr>)" "vframe (c_mem c) m"
    using insert_line_loop_ok [OF c(1), of 100 "k + y"] c(2,4) by auto
  have ok: "con_ok c (c\<lparr>c_mem := m\<rparr>)" using mem_only_ok [OF inv m(2)] .
  have "con_ok (c\<lparr>c_mem := m\<rparr>) (erase_screen (c\<lparr>c_mem := m\<rparr>) (MEM_BASE + of_nat (160 * (k + y))) 80)"
    using ok c(2,4) by (intro erase_ok [of _ _ "160 * (k + y)"]) (simp_all add: con_ok_def)
  from con_ok_trans [OF ok this] show ?thesis
    using c(1) m(1) start by (simp add: insert_line_def Let_def con_geom_def)
qed

lemma delete_line_loop_ok:
  "con_geom c \<Longrightarrow> 0 < i \<Longrightarrow> r \<le> 101 \<Longrightarrow> i \<le> 100 \<Longrightarrow>
   \<exists>m. delete_line_loop c (MEM_BASE + of_nat (160 * r)) (of_nat i) = Some (c\<lparr>c_mem := m\<rparr>) \<and> vframe (c_mem c) m"
proof (induction "102 - i" arbitrary: c i rule: less_induct)
  case less
  have src: "MEM_BASE + of_nat (160 * r) + 2 * (of_nat i * c_row_size c) = MEM_BASE + of_nat (160 * r + 320 * i)"
    using less.prems(1) by (simp add: con_geom_def algebra_simps)
  have fin: "c_mem_end c = MEM_BASE + of_nat 16320" using less.prems(1) by (simp add: con_geom_def)
  show ?case
  proof (cases "102 \<le> r + 2 * i")
    case True
    then have "c_mem_end c \<le> MEM_BASE + of_nat (160 * r + 320 * i)"
      unfolding fin using less.prems by (subst base_le) simp_all
    then show ?thesis
      by (subst delete_line_loop.simps) (auto simp: src Let_def intro: exI [of _ "c_mem c"] simp del: of_nat_mult of_nat_add)
  next
    case False
    then have lt: "\<not> c_mem_end c \<le> MEM_BASE + of_nat (160 * r + 320 * i)"
      unfolding fin using less.prems by (subst base_le) simp_all
    define c1 where "c1 = c\<lparr>c_mem := snd (memcpy (c_mem c) (MEM_BASE + of_nat (160 * r + 320 * (i - 1) + 160))
        (MEM_BASE + of_nat (160 * r + 320 * i)) 160)\<rparr>"
    have geom1: "con_geom c1" using less.prems(1) by (simp add: c1_def)
    have dec: "102 - Suc i < 102 - i" using less.prems(4) by simp
    have v: "vframe (c_mem c) (c_mem c1)"
      unfolding c1_def using vframe_memcpy [of "160 * r + 320 * (i - 1) + 160" 160] False less.prems(2) by simp
    obtain m where m: "delete_line_loop c1 (MEM_BASE + of_nat (160 * r)) (of_nat (Suc i)) = Some (c1\<lparr>c_mem := m\<rparr>)" "vframe (c_mem c1) m"
      using less.hyps [OF dec geom1] less.prems False by auto
    obtain j where j: "i = Suc j" using less.prems(2) by (cases i) auto
    have "delete_line_loop c (MEM_BASE + of_nat (160 * r)) (of_nat i) =
        delete_line_loop c1 (MEM_BASE + of_nat (160 * r)) (of_nat (Suc i))"
      using lt less.prems(1)
      by (subst delete_line_loop.simps) (simp add: src Let_def c1_def con_geom_def j algebra_simps)
    then show ?thesis using m vframe_trans [OF v m(2)] by (auto simp: c1_def)
  qed
qed

lemma delete_line_ok: "con_inv c \<Longrightarrow> \<exists>c'. delete_line c = Some c' \<and> con_ok c c'"
proof -
  assume inv: "con_inv c"
  then obtain k x y where c: "con_geom c" "k \<le> 76" "x \<le> 80" "y < 25" "con_at c k x y" by (rule con_invE)
  have start: "c_screen c + c_y c * c_row_size c = MEM_BASE + of_nat (160 * (k + y))"
    using c(1,5) by (simp add: con_at_def con_geom_def algebra_simps)
  obtain m where m: "delete_line_loop c (MEM_BASE + of_nat (160 * (k + y))) 1 = Some (c\<lparr>c_mem := m\<rparr>)" "vframe (c_mem c) m"
    using delete_line_loop_ok [OF c(1), of 1 "k + y"] c(2,4) by auto
  have ok: "con_ok c (c\<lparr>c_mem := m\<rparr>)" using mem_only_ok [OF inv m(2)] .
  have "con_ok (c\<lparr>c_mem := m\<rparr>) (erase_screen (c\<lparr>c_mem := m\<rparr>) (MEM_BASE + of_nat 16160) 80)"
    using ok by (intro erase_ok [of _ _ 16160]) (simp_all add: con_ok_def)
  from con_ok_trans [OF ok this] show ?thesis
    using c(1) m(1) start by (simp add: delete_line_def Let_def con_geom_def add_ac)
qed

lemma delete_char_loop_ok:
  "i \<le> 80 \<Longrightarrow> q + 2 * (80 - i) \<le> 16320 \<Longrightarrow>
   \<exists>m'. delete_char_loop m (MEM_BASE + of_nat q) (of_nat i) 80 = Some (m', MEM_BASE + of_nat (q + 2 * (79 - i))) \<and> vframe m m'"
proof (induction "80 - i" arbitrary: m q i rule: less_induct)
  case less
  have ui: "unat (ucast (of_nat i + 1 :: u16) :: u32) = i + 1"
  proof -
    have "(of_nat i + 1 :: u16) = of_nat (i + 1)" by simp
    moreover have "unat (of_nat (i + 1) :: u16) = i + 1" using less.prems(1) by (intro unat_of_nat_less) simp
    ultimately show ?thesis using less.prems(1) by (simp only: unsigned_ucast_eq) (simp add: take_bit_nat_eq_self)
  qed
  have lt: "(ucast (of_nat i + 1 :: u16) :: u32) < 80 \<longleftrightarrow> i + 1 < 80"
    unfolding word_less_nat_alt ui by simp
  show ?case
  proof (cases "i + 1 < 80")
    case True
    let ?m = "poke16 m (MEM_BASE + of_nat q) (peek16 m (MEM_BASE + of_nat (q + 2)))"
    have dec: "80 - (i + 1) < 80 - i" using True by simp
    have bnd: "q + 2 + 2 * (80 - (i + 1)) \<le> 16320" using True less.prems(2) by simp
    have v: "vframe m ?m" using less.prems True by (intro vframe_poke16 [of q]) simp_all
    obtain m' where m': "delete_char_loop ?m (MEM_BASE + of_nat (q + 2)) (of_nat (i + 1)) 80 =
        Some (m', MEM_BASE + of_nat (q + 2 + 2 * (79 - (i + 1))))" "vframe ?m m'"
      using less.hyps [OF dec _ bnd] True by auto
    have "delete_char_loop m (MEM_BASE + of_nat q) (of_nat i) 80 =
        delete_char_loop ?m (MEM_BASE + of_nat (q + 2)) (of_nat (i + 1)) 80"
      using True lt by (subst delete_char_loop.simps) (simp add: Let_def add_ac)
    moreover have "q + 2 + 2 * (79 - (i + 1)) = q + 2 * (79 - i)" using True by simp
    ultimately show ?thesis using m' vframe_trans [OF v m'(2)] by auto
  next
    case False
    then have z: "79 - i = 0" by simp
    have "delete_char_loop m (MEM_BASE + of_nat q) (of_nat i) 80 = Some (m, MEM_BASE + of_nat q)"
      using False lt by (subst delete_char_loop.simps) (simp add: Let_def)
    then show ?thesis by (simp add: z)
  qed
qed

lemma delete_char_ok: "con_inv c \<Longrightarrow> \<exists>c'. delete_char c = Some c' \<and> con_ok c c'"
proof -
  assume inv: "con_inv c"
  then obtain k x y where c: "con_geom c" "k \<le> 76" "x \<le> 80" "y < 25" "con_at c k x y" by (rule con_invE)
  define q where "q = 160 * k + 160 * y + 2 * x"
  have x16: "(ucast (c_x c) :: u16) = of_nat x"
    using c(3,5) by (simp add: con_at_def ucast_eq unsigned_of_nat take_bit_nat_eq_self)
  have qb: "q + 2 * (80 - x) \<le> 16320" "q + 2 * (79 - x) + 2 \<le> 16320" using c(2,3,4) by (auto simp: q_def)
  obtain m where m: "delete_char_loop (c_mem c) (MEM_BASE + of_nat q) (of_nat x) 80 = Some (m, MEM_BASE + of_nat (q + 2 * (79 - x)))"
      "vframe (c_mem c) m"
    using delete_char_loop_ok [OF c(3) qb(1)] by blast
  have "vframe m (poke16 m (MEM_BASE + of_nat (q + 2 * (79 - x))) (c_erase c))"
    using qb(2) by (intro vframe_poke16 [of "q + 2 * (79 - x)"]) simp_all
  then have "con_ok c (c\<lparr>c_mem := poke16 m (MEM_BASE + of_nat (q + 2 * (79 - x))) (c_erase c)\<rparr>)"
    by (intro mem_only_ok [OF inv] vframe_trans [OF m(2)])
  moreover have "c_pos c = MEM_BASE + of_nat q" "c_width c = 80" using c(1,5) by (simp_all add: con_at_def con_geom_def q_def)
  ultimately show ?thesis using m(1) by (simp only: delete_char_def x16) simp
qed

lemma insert_char_loop_ok:
  "q + 2 * n + 2 \<le> 16320 \<Longrightarrow>
   \<exists>m'. insert_char_loop m (MEM_BASE + of_nat q) (MEM_BASE + of_nat (q + 2 * n)) = Some m' \<and> vframe m m'"
proof (induction n arbitrary: m)
  case 0
  then show ?case by (subst insert_char_loop.simps) auto
next
  case (Suc n)
  let ?m = "poke16 m (MEM_BASE + of_nat (q + 2 * Suc n)) (peek16 m (MEM_BASE + of_nat (q + 2 * n)))"
  have v: "vframe m ?m" using Suc.prems by (intro vframe_poke16 [of "q + 2 * Suc n"]) simp_all
  obtain m' where m': "insert_char_loop ?m (MEM_BASE + of_nat q) (MEM_BASE + of_nat (q + 2 * n)) = Some m'" "vframe ?m m'"
    using Suc by fastforce
  have prv: "MEM_BASE + of_nat (q + 2 * Suc n) - 2 = MEM_BASE + of_nat (q + 2 * n)" by simp
  have "MEM_BASE + of_nat q < MEM_BASE + of_nat (q + 2 * Suc n)" using Suc.prems by (subst base_less) simp_all
  then have "insert_char_loop m (MEM_BASE + of_nat q) (MEM_BASE + of_nat (q + 2 * Suc n)) =
      insert_char_loop ?m (MEM_BASE + of_nat q) (MEM_BASE + of_nat (q + 2 * n))"
    by (subst insert_char_loop.simps) (simp only: prv if_True)
  then show ?case using m' vframe_trans [OF v m'(2)] by auto
qed

lemma insert_char_ok: "con_inv c \<Longrightarrow> \<exists>c'. insert_char c = Some c' \<and> con_ok c c'"
proof -
  assume inv: "con_inv c"
  then obtain k x y where c: "con_geom c" "k \<le> 76" "x \<le> 80" "y < 25" "con_at c k x y" by (rule con_invE)
  define q where "q = 160 * k + 160 * y + 2 * x"
  have pos: "c_pos c = MEM_BASE + of_nat q" using c(5) by (simp add: con_at_def q_def)
  define ptr where "ptr = c_pos c + 2 * (c_width c - c_x c - 1)"
  have "\<exists>m. insert_char_loop (c_mem c) (MEM_BASE + of_nat q) ptr = Some m \<and> vframe (c_mem c) m"
  proof (cases "x = 80")
    case True
    then have p: "ptr = MEM_BASE + of_nat (q - 2)"
      using c(1,5) by (simp add: ptr_def con_at_def con_geom_def q_def)
    have "\<not> MEM_BASE + of_nat (q - 2) > MEM_BASE + of_nat q"
      using c(2,4) True by (subst base_less) (simp_all add: q_def)
    then show ?thesis unfolding p by (subst insert_char_loop.simps) simp
  next
    case False
    then obtain r where r: "80 = Suc (x + r)" using c(3) by (metis le_neq_implies_less less_iff_Suc_add)
    have "c_width c = of_nat (Suc (x + r))" using c(1) by (simp add: con_geom_def r [symmetric])
    then have p: "ptr = MEM_BASE + of_nat (q + 2 * r)"
      using c(5) pos by (simp add: ptr_def con_at_def algebra_simps)
    show ?thesis unfolding p using insert_char_loop_ok [of q r "c_mem c"] c(2,4) r by (simp add: q_def)
  qed
  then obtain m where m: "insert_char_loop (c_mem c) (c_pos c) (c_pos c + 2 * (c_width c - c_x c - 1)) = Some m" "vframe (c_mem c) m"
    using pos by (auto simp: ptr_def)
  have "vframe m (m(c_pos c := ucast (c_erase c)))" using c(2,3,4) pos by (intro vframe_write [of q]) (simp_all add: q_def)
  then show ?thesis using m(1) mem_only_ok [OF inv vframe_trans [OF m(2)]] by (simp add: insert_char_def)
qed

lemma csi_repeat_ok:
  "con_inv c \<Longrightarrow> \<exists>c'. csi_L c = Some c' \<and> con_ok c c'" "con_inv c \<Longrightarrow> \<exists>c'. csi_M c = Some c' \<and> con_ok c c'"
  "con_inv c \<Longrightarrow> \<exists>c'. csi_P c = Some c' \<and> con_ok c c'" "con_inv c \<Longrightarrow> \<exists>c'. csi_at c = Some c' \<and> con_ok c c'"
proof -
  assume inv: "con_inv c"
  then obtain nr where nr: "csi_count c = Some nr" by (auto simp: csi_count_def con_inv_def con_geom_def)
  show "\<exists>c'. csi_L c = Some c' \<and> con_ok c c'" "\<exists>c'. csi_M c = Some c' \<and> con_ok c c'"
    "\<exists>c'. csi_P c = Some c' \<and> con_ok c c'" "\<exists>c'. csi_at c = Some c' \<and> con_ok c c'"
    using repeat_ok [OF insert_line_ok inv] repeat_ok [OF delete_line_ok inv]
      repeat_ok [OF delete_char_ok inv] repeat_ok [OF insert_char_ok inv]
    by (simp_all add: csi_L_def csi_M_def csi_P_def csi_at_def nr)
qed

lemma csi_m_ok: "con_inv c \<Longrightarrow> \<exists>c'. csi_m c = Some c' \<and> con_ok c c'"
  by (auto simp: csi_m_def con_ok_def Let_def con_inv_def con_geom_def con_at_def word_le_nat_alt)

lemma arg_ok:
  assumes "con_inv c"
  shows "i < 16 \<Longrightarrow> \<exists>a c'. arg_dec c i = Some (a, c') \<and> con_inv c' \<and> c_mem c' = c_mem c"
    "\<exists>a c'. arg_one c = Some (a, c') \<and> con_inv c' \<and> c_mem c' = c_mem c"
  using assms by (auto simp: arg_dec_def arg_one_def Let_def con_inv_def con_geom_def con_at_def)

lemma arg_set_xy_ok:
  assumes "con_inv c" "i < 16"
  shows "\<exists>c'. do { (a, c) \<leftarrow> arg_dec c i; Some (set_xy c (f a c) (g a c)) } = Some c' \<and> con_ok c c'"
    "\<exists>c'. do { (a, c) \<leftarrow> arg_one c; Some (set_xy c (f a c) (g a c)) } = Some c' \<and> con_ok c c'"
  using arg_ok(1) [OF assms] arg_ok(2) [OF assms(1)] set_xy_ok by (fastforce simp: con_ok_def)+

lemma arg_set_both_ok:
  assumes "con_inv c"
  shows "\<exists>c'. do { (a, c) \<leftarrow> arg_dec c 0; (b, c) \<leftarrow> arg_dec c 1; Some (set_xy c b a) } = Some c' \<and> con_ok c c'"
proof -
  obtain a c1 where 1: "arg_dec c 0 = Some (a, c1)" "con_inv c1" "c_mem c1 = c_mem c"
    using arg_ok(1) [OF assms, of 0] by auto
  obtain b c2 where 2: "arg_dec c1 1 = Some (b, c2)" "con_inv c2" "c_mem c2 = c_mem c1"
    using arg_ok(1) [OF 1(2), of 1] by auto
  show ?thesis using 1 2 set_xy_ok [OF 2(2), of b a] by (simp add: con_ok_def)
qed

lemma state_csi_ok: "con_inv c \<Longrightarrow> \<exists>c'. state_csi c ch = Some c' \<and> con_ok c c'"
proof -
  assume "con_inv c"
  then have inv: "con_inv (c\<lparr>c_state := STATE_NOR\<rparr>)" (is "con_inv ?c") by simp
  have same: "con_ok ?c d \<longleftrightarrow> con_ok c d" for d by (simp add: con_ok_def)
  note xy = arg_set_xy_ok [OF inv, of 0, simplified] arg_set_both_ok [OF inv]
  note cs = csi_J_ok [OF inv] csi_K_ok [OF inv] csi_repeat_ok [OF inv] csi_m_ok [OF inv]
  have "con_ok ?c (set_xy (save_cursor ?c) a b)" "con_ok ?c (set_xy ?c a b)" "con_ok ?c ?c" for a b
    using set_xy_ok [of "save_cursor ?c"] set_xy_ok [OF inv] con_ok_refl [OF inv] inv
    by (auto simp: save_cursor_def con_ok_def)
  then have sv: "\<exists>c'. Some (set_xy (save_cursor ?c) a b) = Some c' \<and> con_ok ?c c'"
      "\<exists>c'. Some (set_xy ?c a b) = Some c' \<and> con_ok ?c c'" "\<exists>c'. Some ?c = Some c' \<and> con_ok ?c c'" for a b
    by blast+
  have cases: "\<exists>c'. (if P then A else B) = Some c' \<and> Q c'"
    if "\<exists>c'. A = Some c' \<and> Q c'" "\<exists>c'. B = Some c' \<and> Q c'" for P Q and A B :: "console option"
    using that by simp
  show ?thesis
    unfolding state_csi_def Let_def same [symmetric]
    by (intro cases xy cs sv)
qed

section \<open>Writing to the console\<close>

lemma arg_step_ok: "con_inv c \<Longrightarrow> \<exists>c'. arg_step c ch = Some c' \<and> con_ok c c'"
proof -
  assume inv: "con_inv c"
  have len: "length (c_args c) = 16" "c_argc c \<le> 16" using inv by (simp_all add: con_inv_def con_geom_def)
  have inc: "c_argc c + 1 \<le> 16" if "\<not> ARG_NR \<le> c_argc c"
    using that unat_Suc_less [of "c_argc c"] by (simp add: ARG_NR_def word_le_nat_alt)
  have upd: "con_inv (c\<lparr>c_args := as\<rparr>)" if "length as = 16" for as
    using con_inv_args [OF inv that len(2)] by simp
  have upd2: "con_inv (c\<lparr>c_argc := c_argc c + 1\<rparr>)" if "\<not> ARG_NR \<le> c_argc c"
    using con_inv_args [OF inv len(1) inc [OF that]] by simp
  have "unat (c_argc c) < 16" if "\<not> ARG_NR \<le> c_argc c"
    using that by (simp add: ARG_NR_def word_le_nat_alt)
  moreover have "\<exists>c'. state_csi (c\<lparr>c_argc := c_argc c + 1, c_state := STATE_CSI\<rparr>) ch = Some c' \<and> con_ok c c'"
    if "\<not> ARG_NR \<le> c_argc c"
    using state_csi_ok [of "c\<lparr>c_argc := c_argc c + 1, c_state := STATE_CSI\<rparr>" ch] upd2 [OF that]
    by (auto simp: con_ok_def)
  ultimately show ?thesis
    using len inv upd upd2 by (auto simp: arg_step_def state_arg_def con_ok_def)
qed

lemma console_byte_ok: "con_inv c \<Longrightarrow> \<exists>c'. console_byte c ch = Some c' \<and> con_ok c c'"
proof -
  assume inv: "con_inv c"
  define c1 where "c1 = c\<lparr>c_args := replicate (unat ARG_NR) 0, c_argc := 0, c_state := STATE_ARG, c_ques := (ch = 0x3F)\<rparr>"
  have "con_inv c1" "c_mem c1 = c_mem c"
    using con_inv_args [OF inv, of "replicate (unat ARG_NR) 0" 0] by (simp_all add: c1_def ARG_NR_def)
  moreover from this obtain c2 where "arg_step c1 ch = Some c2" "con_ok c1 c2" using arg_step_ok by blast
  ultimately have "\<exists>c'. (if c_ques c1 then Some c1 else arg_step c1 ch) = Some c' \<and> con_ok c c'"
    by (simp add: con_ok_def)
  then show ?thesis
    using state_normal_inv [OF inv] state_esc_inv [OF inv] arg_step_ok [OF inv] state_csi_ok [OF inv]
    by (cases "c_state c") (auto simp: console_byte_def Let_def c1_def [symmetric])
qed

lemma console_bytes_ok: "con_inv c \<Longrightarrow> \<exists>c'. console_bytes c buf = Some c' \<and> con_ok c c'"
proof (induction buf arbitrary: c)
  case (Cons ch buf)
  obtain c1 where c1: "console_byte c ch = Some c1" "con_ok c c1" using console_byte_ok [OF Cons.prems] by blast
  then obtain c2 where "console_bytes c1 buf = Some c2" "con_ok c1 c2" using Cons.IH [of c1] by (auto simp: con_ok_def)
  then show ?case using c1 con_ok_trans by auto
qed (simp add: con_ok_refl)

lemma console_init_at:
  assumes "length (c_args c) = 16" "c_argc c \<le> 16"
  shows "con_at (console_init c) 0 0 0" "con_geom (console_init c)" "c_state (console_init c) = c_state c"
proof -
  have sz: "(MEM_SIZE div ROW_SIZE) * ROW_SIZE = 16320" by (simp add: MEM_SIZE_def ROW_SIZE_def WIDTH_def)
  show "con_at (console_init c) 0 0 0" "con_geom (console_init c)" "c_state (console_init c) = c_state c"
    using assms unfolding console_init_def console_clear_def Let_def sz
    by (simp_all, simp_all add: con_at_def con_geom_def WIDTH_def HEIGHT_def set_cursor_def set_screen_def crt_outb_def Let_def)
qed

lemma console_init_inv:
  assumes "length (c_args c) = 16" "c_argc c \<le> 16"
  shows "con_inv (console_init c)"
  using console_init_at [OF assms] by (intro con_invI [of _ 0 0 0]) simp_all

section \<open>Properties\<close>

text \<open>
  C18. Whatever bytes are written, \<^verbatim>\<open>console_write\<close> returns, the console keeps its geometry (the
  screen inside the video memory, the cursor on it), no byte outside the video memory is
  written, and the interrupt flag is as before.
\<close>

theorem console_write_safe:
  assumes "con_inv c"
  shows "\<exists>c'. console_write c buf = Some (of_nat (length buf) + 1, c') \<and> con_inv c' \<and>
     vframe (c_mem c) (c_mem c') \<and> c_intr c' = c_intr c"
proof -
  have "con_inv (c\<lparr>c_intr := False\<rparr>)" using assms by simp
  from console_bytes_ok [OF this, of buf] show ?thesis
    by (auto simp: console_write_def con_ok_def Let_def)
qed

text \<open>The statically allocated console before \<^verbatim>\<open>console_init\<close>: all fields zero.\<close>

definition console_zero :: console where
  "console_zero = \<lparr>c_mem_base = 0, c_mem_size = 0, c_mem_end = 0, c_screen = 0, c_scr_size = 0, c_pos = 0,
     c_x = 0, c_y = 0, c_saved_x = 0, c_saved_y = 0, c_width = 0, c_height = 0, c_row_size = 0,
     c_state = STATE_NOR, c_args = replicate 16 0, c_argc = 0, c_ques = False, c_erase = 0, c_style = 0,
     c_mem = (\<lambda>_. 0), c_crt_addr = 0, c_crt_regs = (\<lambda>_. 0), c_beeps = 0, c_intr = True\<rparr>"

lemma console_zero_init:
  "con_inv (console_init console_zero)" "con_at (console_init console_zero) 0 0 0"
  "c_state (console_init console_zero) = STATE_NOR"
  using console_init_inv [of console_zero] console_init_at [of console_zero] by (simp_all add: console_zero_def)

theorem console_write_safe_witness:
  "\<exists>c'. console_write (console_init console_zero) [0x41, 0x1B, 0x5B, 0x4D, 0x0A] =
       Some (of_nat (length [0x41 :: u8, 0x1B, 0x5B, 0x4D, 0x0A]) + 1, c') \<and> con_inv c' \<and>
     vframe (c_mem (console_init console_zero)) (c_mem c') \<and> c_intr c' = c_intr (console_init console_zero)"
  by (rule console_write_safe [OF console_zero_init(1)])

text \<open>A byte that is not a control character in plain-text state.\<close>

definition printable :: "u8 \<Rightarrow> bool" where
  "printable ch \<longleftrightarrow> ch \<notin> {0x00, 0x07, 0x08, 0x09, 0x0A, 0x0B, 0x0C, 0x0D, 0x7F, 0x1B}"

lemma base_eq: "p < 16777216 \<Longrightarrow> q < 16777216 \<Longrightarrow> MEM_BASE + of_nat p = MEM_BASE + of_nat q \<longleftrightarrow> p = q"
  by (metis unat_base add_left_cancel)

lemma print_char:
  assumes "con_geom c" "c_state c = STATE_NOR" "con_at c k x y" "printable ch" "x < 80"
    and q: "q = 160 * k + 160 * y + 2 * x"
  shows "\<exists>c'. console_byte c ch = Some c' \<and> con_geom c' \<and> c_state c' = STATE_NOR \<and> con_at c' k (x + 1) y \<and>
     c_style c' = c_style c \<and>
     c_mem c' = (c_mem c)(MEM_BASE + of_nat q := ch, MEM_BASE + of_nat (q + 1) := c_style c)"
proof -
  have "wrap_line c = c" using assms(1,3,5) by (simp add: wrap_line_def con_geom_def con_at_def word_le_nat_alt)
  moreover have "console_byte c ch = Some (chr c ch)"
    using assms(2,4) by (simp add: console_byte_def state_normal_def printable_def)
  ultimately show ?thesis
    using assms(1,2,3) q by (simp add: chr_def Let_def con_at_def con_geom_def algebra_simps)
qed

lemma print_text_frame:
  "con_geom c \<Longrightarrow> c_state c = STATE_NOR \<Longrightarrow> con_at c k x y \<Longrightarrow> list_all printable s \<Longrightarrow>
   x + length s \<le> 80 \<Longrightarrow> k \<le> 76 \<Longrightarrow> y < 25 \<Longrightarrow> q = 160 * k + 160 * y + 2 * x \<Longrightarrow>
   \<exists>c'. console_bytes c s = Some c' \<and> c_state c' = STATE_NOR \<and> con_at c' k (x + length s) y \<and>
     (\<forall>i < length s. c_mem c' (MEM_BASE + of_nat (q + 2 * i)) = s ! i \<and>
        c_mem c' (MEM_BASE + of_nat (q + 2 * i + 1)) = c_style c) \<and>
     (\<forall>p < 16777216. p < q \<or> q + 2 * length s \<le> p \<longrightarrow> c_mem c' (MEM_BASE + of_nat p) = c_mem c (MEM_BASE + of_nat p))"
proof (induction s arbitrary: c x q)
  case (Cons ch s)
  have x: "x < 80" and pc: "printable ch" using Cons.prems(4,5) by simp_all
  obtain c1 where c1: "console_byte c ch = Some c1" "con_geom c1" "c_state c1 = STATE_NOR" "con_at c1 k (x + 1) y"
      "c_style c1 = c_style c"
      and m1: "c_mem c1 = (c_mem c)(MEM_BASE + of_nat q := ch, MEM_BASE + of_nat (q + 1) := c_style c)"
    using print_char [OF Cons.prems(1-3) pc x Cons.prems(8)] by blast
  have qb: "q < 16160" using Cons.prems(6-8) x by simp
  obtain c2 where c2: "console_bytes c1 s = Some c2" "c_state c2 = STATE_NOR" "con_at c2 k (x + 1 + length s) y"
      and cells: "\<forall>i < length s. c_mem c2 (MEM_BASE + of_nat (q + 2 + 2 * i)) = s ! i \<and>
        c_mem c2 (MEM_BASE + of_nat (q + 2 + 2 * i + 1)) = c_style c1"
      and frame: "\<forall>p < 16777216. p < q + 2 \<or> q + 2 + 2 * length s \<le> p \<longrightarrow>
        c_mem c2 (MEM_BASE + of_nat p) = c_mem c1 (MEM_BASE + of_nat p)"
    using Cons.IH [OF c1(2-4), of "q + 2"] Cons.prems by auto
  have m1_at: "c_mem c1 (MEM_BASE + of_nat p) = (if p = q then ch else if p = q + 1 then c_style c else c_mem c (MEM_BASE + of_nat p))"
    if "p < 16777216" for p
    using that qb base_eq [of p q] base_eq [of p "q + 1"] unfolding m1 by (simp only: fun_upd_apply) simp
  have first: "c_mem c2 (MEM_BASE + of_nat q) = ch" "c_mem c2 (MEM_BASE + of_nat (q + 1)) = c_style c"
    using frame [rule_format, of q] frame [rule_format, of "q + 1"] m1_at [of q] m1_at [of "q + 1"] qb
    by (simp_all del: of_nat_add of_nat_Suc)
  have "c_mem c2 (MEM_BASE + of_nat (q + 2 * i)) = (ch # s) ! i \<and>
      c_mem c2 (MEM_BASE + of_nat (q + 2 * i + 1)) = c_style c" if "i < length (ch # s)" for i
    using that first cells c1(5) by (cases i) (simp_all del: of_nat_add of_nat_Suc of_nat_mult)
  moreover have "c_mem c2 (MEM_BASE + of_nat p) = c_mem c (MEM_BASE + of_nat p)"
    if "p < 16777216" "p < q \<or> q + 2 * length (ch # s) \<le> p" for p
    using that frame m1_at [of p] by auto
  ultimately show ?case using c1(1) c2 by (intro exI [of _ c2]) (simp del: of_nat_add of_nat_Suc of_nat_mult)
qed auto

text \<open>
  Printable text written on one line appears in the cells from the cursor on, each
  character followed by the current style, and the cursor ends behind the last one.
\<close>

lemma console_prints_text:
  assumes "con_geom c" "c_state c = STATE_NOR" "con_at c k x y" "list_all printable s"
    and "x + length s \<le> 80" "k \<le> 76" "y < 25"
  shows "\<exists>c'. console_bytes c s = Some c' \<and> con_at c' k (x + length s) y \<and>
     (\<forall>i < length s. c_mem c' (MEM_BASE + of_nat (160 * k + 160 * y + 2 * x + 2 * i)) = s ! i \<and>
        c_mem c' (MEM_BASE + of_nat (160 * k + 160 * y + 2 * x + 2 * i + 1)) = c_style c)"
  using print_text_frame [OF assms refl] by blast

lemma console_prints_text_witness:
  "\<exists>c'. console_bytes (console_init console_zero) [0x68, 0x69] = Some c' \<and>
     con_at c' 0 (0 + length [0x68 :: u8, 0x69]) 0 \<and>
     (\<forall>i < length [0x68 :: u8, 0x69]. c_mem c' (MEM_BASE + of_nat (160 * 0 + 160 * 0 + 2 * 0 + 2 * i)) = [0x68, 0x69] ! i \<and>
        c_mem c' (MEM_BASE + of_nat (160 * 0 + 160 * 0 + 2 * 0 + 2 * i + 1)) = c_style (console_init console_zero))"
  using console_prints_text [of "console_init console_zero" 0 0 0 "[0x68, 0x69]"] console_zero_init
  by (simp add: con_inv_def printable_def)

text \<open>The value \<^verbatim>\<open>state_arg\<close> builds from decimal digits.\<close>

definition digit :: "u8 \<Rightarrow> bool" where
  "digit d \<longleftrightarrow> 0x30 \<le> d \<and> d \<le> 0x39"

definition digits_value :: "u32 \<Rightarrow> u8 list \<Rightarrow> u32" where
  "digits_value a ds = foldl (\<lambda>a d. a * 10 + ucast d - 0x30) a ds"

lemma arg_digits:
  "c_state c = STATE_ARG \<Longrightarrow> unat (c_argc c) < 16 \<Longrightarrow> length (c_args c) = 16 \<Longrightarrow> list_all digit ds \<Longrightarrow>
   console_bytes c (ds @ rest) =
   console_bytes (c\<lparr>c_args := (c_args c)[unat (c_argc c) := digits_value (c_args c ! unat (c_argc c)) ds]\<rparr>) rest"
proof (induction ds arbitrary: c)
  case (Cons d ds)
  let ?n = "unat (c_argc c)"
  let ?c = "c\<lparr>c_args := (c_args c)[?n := c_args c ! ?n * 10 + ucast d - 0x30]\<rparr>"
  have "\<not> ARG_NR \<le> c_argc c" using Cons.prems(2) by (simp add: ARG_NR_def word_le_nat_alt)
  moreover have "d \<noteq> 0x3B" "0x30 \<le> d \<and> d \<le> 0x39" using Cons.prems(4) by (auto simp: digit_def)
  ultimately have "console_byte c d = Some ?c"
    using Cons.prems by (simp add: console_byte_def arg_step_def state_arg_def)
  then show ?case using Cons.IH [of ?c] Cons.prems by (simp add: digits_value_def)
qed (simp add: digits_value_def)

text \<open>After the introducer the arguments are cleared; what follows is read as arguments.\<close>

lemma csi_introducer:
  assumes "c_state c = STATE_NOR" "s \<noteq> []" "hd s \<noteq> 0x3F"
  shows "console_bytes c (0x1B # 0x5B # s) =
    console_bytes (c\<lparr>c_args := replicate 16 0, c_argc := 0, c_state := STATE_ARG, c_ques := False\<rparr>) s"
  using assms by (cases s) (auto simp: console_byte_def state_normal_def state_esc_def Let_def ARG_NR_def)

lemma arg_separators:
  "c_state c = STATE_ARG \<Longrightarrow> unat (c_argc c) + n \<le> 16 \<Longrightarrow>
   console_bytes c (replicate n 0x3B) = Some (c\<lparr>c_argc := c_argc c + of_nat n\<rparr>)"
proof (induction n arbitrary: c)
  case (Suc n)
  have "\<not> ARG_NR \<le> c_argc c" using Suc.prems(2) by (simp add: ARG_NR_def word_le_nat_alt)
  then have "console_byte c 0x3B = Some (c\<lparr>c_argc := c_argc c + 1\<rparr>)"
    using Suc.prems(1) by (simp add: console_byte_def arg_step_def state_arg_def)
  moreover have "unat (c_argc c + 1) = Suc (unat (c_argc c))" using Suc.prems(2) by (intro unat_Suc_less) simp
  ultimately show ?case using Suc.IH [of "c\<lparr>c_argc := c_argc c + 1\<rparr>"] Suc.prems by (simp add: add_ac)
qed simp

text \<open>
  The cursor sequence: \<^verbatim>\<open>ESC [ row ; col H\<close> with decimal arguments inside the screen moves
  the cursor to that row and column, counted from one, and leaves the memory alone.
\<close>

lemma console_cursor_sequence:
  assumes "con_geom c" "c_state c = STATE_NOR" "con_at c k x y" "list_all digit rs" "list_all digit cs"
    and "1 \<le> digits_value 0 rs" "digits_value 0 rs \<le> 25" "1 \<le> digits_value 0 cs" "digits_value 0 cs \<le> 80"
  shows "\<exists>c'. console_bytes c ([0x1B, 0x5B] @ rs @ [0x3B] @ cs @ [0x48]) = Some c' \<and> c_state c' = STATE_NOR \<and>
     con_at c' k (unat (digits_value 0 cs) - 1) (unat (digits_value 0 rs) - 1) \<and> c_mem c' = c_mem c"
proof -
  let ?r = "digits_value 0 rs" and ?c = "digits_value 0 cs"
  define c0 where "c0 = c\<lparr>c_args := replicate 16 0, c_argc := 0, c_state := STATE_ARG, c_ques := False\<rparr>"
  define c1 where "c1 = c0\<lparr>c_args := (replicate 16 0)[0 := ?r]\<rparr>"
  define c2 where "c2 = c1\<lparr>c_argc := 1\<rparr>"
  define c3 where "c3 = c2\<lparr>c_args := (replicate 16 0)[0 := ?r, 1 := ?c]\<rparr>"
  have hd: "hd (rs @ [0x3B] @ cs @ [0x48]) \<noteq> 0x3F" using assms(4) by (cases rs) (auto simp: digit_def)
  have s0: "console_bytes c ([0x1B, 0x5B] @ rs @ [0x3B] @ cs @ [0x48]) = console_bytes c0 (rs @ [0x3B] @ cs @ [0x48])"
    using csi_introducer [OF assms(2) _ hd] by (simp add: c0_def)
  also have "\<dots> = console_bytes c1 ([0x3B] @ cs @ [0x48])"
    using arg_digits [of c0 rs "[0x3B] @ cs @ [0x48]"] assms(4) by (simp add: c0_def c1_def)
  also have "\<dots> = console_bytes c2 (cs @ [0x48])"
    by (simp add: c1_def c2_def c0_def console_byte_def arg_step_def state_arg_def ARG_NR_def)
  also have "\<dots> = console_bytes c3 [0x48]"
    using arg_digits [of c2 cs "[0x48]"] assms(5) by (simp add: c0_def c1_def c2_def c3_def)
  finally have run: "console_bytes c ([0x1B, 0x5B] @ rs @ [0x3B] @ cs @ [0x48]) = console_bytes c3 [0x48]" .
  have nz: "?r \<noteq> 0" "?c \<noteq> 0" using assms(6,8) by auto
  define c4 where "c4 = c3\<lparr>c_argc := 2, c_state := STATE_NOR, c_args := (replicate 16 0)[0 := ?r, 1 := ?c, 0 := ?r - 1, 1 := ?c - 1]\<rparr>"
  have step: "console_byte c3 0x48 = state_csi (c3\<lparr>c_argc := 2, c_state := STATE_CSI\<rparr>) 0x48"
    by (simp add: c0_def c1_def c2_def c3_def console_byte_def arg_step_def state_arg_def ARG_NR_def word_le_nat_alt)
  have "state_csi (c3\<lparr>c_argc := 2, c_state := STATE_CSI\<rparr>) 0x48 = Some (set_xy c4 (?c - 1) (?r - 1))"
    using nz by (simp add: Let_def state_csi_def arg_dec_def c0_def c1_def c2_def c3_def c4_def)
  then have "console_bytes c3 [0x48] = Some (set_xy c4 (?c - 1) (?r - 1))" by (simp add: step)
  moreover have "con_geom c4" "con_at c4 k x y" "c_state c4 = STATE_NOR" "c_mem c4 = c_mem c"
    using assms(1,3) by (simp_all add: c0_def c1_def c2_def c3_def c4_def con_geom_def con_at_def)
  moreover have u: "unat (?c - 1) = unat ?c - 1" "unat (?r - 1) = unat ?r - 1"
    using nz by (simp_all add: unat_minus_one)
  moreover have "?c - 1 \<le> 80" "?r - 1 < 25"
    using assms(7,9) nz u by (simp_all add: word_le_nat_alt word_less_nat_alt unat_eq_zero)
  ultimately show ?thesis using set_xy_at [of c4 k x y "?c - 1" "?r - 1"] run by simp
qed

lemma console_cursor_sequence_witness:
  "\<exists>c'. console_bytes (console_init console_zero) ([0x1B, 0x5B] @ [0x31, 0x32] @ [0x3B] @ [0x34, 0x30] @ [0x48]) = Some c' \<and>
     c_state c' = STATE_NOR \<and> con_at c' 0 (unat (digits_value 0 [0x34, 0x30]) - 1) (unat (digits_value 0 [0x31, 0x32]) - 1) \<and>
     c_mem c' = c_mem (console_init console_zero)"
  using console_zero_init
  by (intro console_cursor_sequence [where x = 0 and y = 0]) (simp_all add: con_inv_def digit_def digits_value_def)

text \<open>
  Sixteen separators wedge the console: once the argument count has reached sixteen, every
  further byte, the escape character included, is swallowed without effect.
\<close>

lemma console_wedged:
  assumes "c_state c = STATE_ARG" "c_argc c \<ge> 16"
  shows "console_bytes c buf = Some c"
proof (induction buf)
  case (Cons ch buf)
  have "console_byte c ch = Some c"
    using assms by (simp add: console_byte_def arg_step_def state_arg_def ARG_NR_def)
  then show ?case using Cons.IH by simp
qed simp

lemma console_wedged_witness:
  "\<exists>c. console_bytes console_zero ([0x1B, 0x5B] @ replicate 16 0x3B) = Some c \<and> console_bytes c [0x1B, 0x63] = Some c"
proof -
  define c where "c = console_zero\<lparr>c_argc := 16, c_state := STATE_ARG\<rparr>"
  have "console_bytes console_zero ([0x1B, 0x5B] @ replicate 16 0x3B) =
      console_bytes (console_zero\<lparr>c_argc := 0, c_state := STATE_ARG\<rparr>) (replicate 16 0x3B)"
    using csi_introducer [of console_zero "replicate 16 0x3B"] by (simp add: console_zero_def)
  then have "console_bytes console_zero ([0x1B, 0x5B] @ replicate 16 0x3B) = Some c"
    using arg_separators [of "console_zero\<lparr>c_argc := 0, c_state := STATE_ARG\<rparr>" 16] by (simp add: c_def)
  moreover have "console_bytes c [0x1B, 0x63] = Some c"
    by (rule console_wedged) (simp_all add: c_def)
  ultimately show ?thesis by blast
qed

end
