(* ===== verification/Mutex.thy ===== *)
theory Mutex
  imports Prelude
begin

text \<open>
  \<^verbatim>\<open>src/lib/mutex.c\<close>: the blocking mutex and the spinning read-write lock. Both are used by
  tasks that may be interrupted between any two memory operations, so each is a transition
  system: a program counter per task, the lock's fields, and one rule per atomic operation of the
  C code (a locked instruction, a read of a counter, or a call that runs with interrupts off).
  Tasks are natural numbers; any number of them may run.

  A lock is a \<^verbatim>\<open>bool\<close>, one byte, but \<^verbatim>\<open>lock cmpxchg\<close> takes its width from the 32-bit register of
  the new value and \<^verbatim>\<open>lock dec\<close> has no suffix, so both act on the 32 bits from that byte on: the
  byte and the three bytes of padding after it. The model keeps these 32 bits, and the
  initialisation, a store to the \<^verbatim>\<open>bool\<close>, clears the lowest byte only.

  Shown by rule induction over the reachable states: at most one task is between
  \<^verbatim>\<open>mutex_lock\<close> and \<^verbatim>\<open>mutex_unlock\<close>, and the waiters' list holds the blocked tasks; with zero
  padding the word is the lock, with any other padding no task ever gets in. A writer excludes
  readers and other writers and the reader counter counts the readers. Also shown:
  \<^verbatim>\<open>mutex_lock\<close> can lose its wake-up, because testing the lock and joining the waiters are two steps.
\<close>

section \<open>The mutex\<close>

text \<open>
  Where a task stands: outside; about to execute \<^verbatim>\<open>lock cmpxchg\<close>; past a failed one and about
  to call \<^verbatim>\<open>task_block\<close>; blocked on the waiters' list; between lock and unlock; past the
  \<^verbatim>\<open>lock dec\<close> of \<^verbatim>\<open>mutex_unlock\<close> and about to call \<^verbatim>\<open>task_unblock\<close>.
\<close>

datatype mutex_pc = M_Out | M_Try | M_Failed | M_Blocked | M_In | M_Released

text \<open>A store of \<^verbatim>\<open>false\<close> to the one-byte lock leaves the padding of its word as it was.\<close>

definition clear_byte :: "u32 \<Rightarrow> u32" where
  "clear_byte w = w AND 0xFFFFFF00"

record mutex =
  m_value :: u32
  m_waiters :: "nat list"
  m_pc :: "nat \<Rightarrow> mutex_pc"

text \<open>\<open>w\<close> is the word found where the mutex is put.\<close>

definition mutex_init :: "u32 \<Rightarrow> mutex" where
  "mutex_init w = \<lparr>m_value = clear_byte w, m_waiters = [], m_pc = (\<lambda>_. M_Out)\<rparr>"

text \<open>\<^verbatim>\<open>lock cmpxchg\<close> with expected 0 and new value 1: the new state and whether it succeeded.\<close>

definition cmpxchg01 :: "u32 \<Rightarrow> u32 \<times> bool" where
  "cmpxchg01 v = (if v = 0 then (1, True) else (v, False))"

definition mutex_try :: "mutex \<Rightarrow> nat \<Rightarrow> mutex" where
  "mutex_try m t = (case cmpxchg01 (m_value m) of (v, ok) \<Rightarrow>
     m\<lparr>m_value := v, m_pc := (m_pc m)(t := if ok then M_In else M_Failed)\<rparr>)"

text \<open>\<^verbatim>\<open>task_block(current, &mutex->waiters, TASK_BLOCKED)\<close> with interrupts off.\<close>

definition mutex_block :: "mutex \<Rightarrow> nat \<Rightarrow> mutex" where
  "mutex_block m t = m\<lparr>m_waiters := m_waiters m @ [t], m_pc := (m_pc m)(t := M_Blocked)\<rparr>"

definition mutex_dec :: "mutex \<Rightarrow> nat \<Rightarrow> mutex" where
  "mutex_dec m t = m\<lparr>m_value := m_value m - 1, m_pc := (m_pc m)(t := M_Released)\<rparr>"

text \<open>\<^verbatim>\<open>task_unblock(&mutex->waiters)\<close>: the oldest waiter becomes ready and tries again.\<close>

definition mutex_wake :: "mutex \<Rightarrow> nat \<Rightarrow> mutex" where
  "mutex_wake m t =
     (case m_waiters m of
        [] \<Rightarrow> m\<lparr>m_pc := (m_pc m)(t := M_Out)\<rparr>
      | w # ws \<Rightarrow> m\<lparr>m_waiters := ws, m_pc := (m_pc m)(w := M_Try, t := M_Out)\<rparr>)"

inductive mutex_step :: "mutex \<Rightarrow> mutex \<Rightarrow> bool" where
  lock_call: "m_pc m t = M_Out \<Longrightarrow> mutex_step m (m\<lparr>m_pc := (m_pc m)(t := M_Try)\<rparr>)"
| lock_try: "m_pc m t = M_Try \<Longrightarrow> mutex_step m (mutex_try m t)"
| lock_block: "m_pc m t = M_Failed \<Longrightarrow> mutex_step m (mutex_block m t)"
| unlock_dec: "m_pc m t = M_In \<Longrightarrow> mutex_step m (mutex_dec m t)"
| unlock_wake: "m_pc m t = M_Released \<Longrightarrow> mutex_step m (mutex_wake m t)"

inductive_cases mutex_stepE: "mutex_step m m'"

inductive mutex_reach :: "u32 \<Rightarrow> mutex \<Rightarrow> bool" for w where
  init: "mutex_reach w (mutex_init w)"
| step: "mutex_reach w m \<Longrightarrow> mutex_step m m' \<Longrightarrow> mutex_reach w m'"

definition inside :: "mutex \<Rightarrow> nat set" where
  "inside m = {t. m_pc m t = M_In}"

definition blocked :: "mutex \<Rightarrow> nat set" where
  "blocked m = {t. m_pc m t = M_Blocked}"

text \<open>
  The lock word is the padding \<open>p\<close> with no task inside or, with no padding, 1 with one; the
  waiters' list holds exactly the blocked tasks, each once.
\<close>

definition mutex_inv :: "u32 \<Rightarrow> mutex \<Rightarrow> bool" where
  "mutex_inv p m \<longleftrightarrow>
     (m_value m = p \<and> inside m = {} \<or> p = 0 \<and> m_value m = 1 \<and> (\<exists>t. inside m = {t})) \<and>
     distinct (m_waiters m) \<and> set (m_waiters m) = blocked m"

lemma pc_moved:
  assumes "m_pc m' = (m_pc m)(t := p)"
  shows "inside m' = (if p = M_In then insert t (inside m) else inside m - {t})"
    "blocked m' = (if p = M_Blocked then insert t (blocked m) else blocked m - {t})"
  using assms by (auto simp: inside_def blocked_def)

lemma pc_sets: "t \<in> inside m \<longleftrightarrow> m_pc m t = M_In" "t \<in> blocked m \<longleftrightarrow> m_pc m t = M_Blocked"
  by (simp_all add: inside_def blocked_def)

lemma mutex_inv_step: "mutex_step m m' \<Longrightarrow> mutex_inv p m \<Longrightarrow> mutex_inv p m'"
proof (induction rule: mutex_step.induct)
  case (lock_call m t)
  then show ?case
    using pc_moved [of "m\<lparr>m_pc := (m_pc m)(t := M_Try)\<rparr>" m t M_Try] pc_sets [of t m]
    by (simp add: mutex_inv_def)
next
  case (lock_try m t)
  show ?case
  proof (cases "m_value m = 0")
    case True
    then have m': "mutex_try m t = m\<lparr>m_value := 1, m_pc := (m_pc m)(t := M_In)\<rparr>" (is "_ = ?m")
      by (simp add: mutex_try_def cmpxchg01_def)
    show ?thesis unfolding m'
      using pc_moved [of ?m m t M_In] pc_sets [of t m] True lock_try by (auto simp: mutex_inv_def)
  next
    case False
    then have m': "mutex_try m t = m\<lparr>m_pc := (m_pc m)(t := M_Failed)\<rparr>" (is "_ = ?m")
      by (simp add: mutex_try_def cmpxchg01_def)
    show ?thesis unfolding m'
      using pc_moved [of ?m m t M_Failed] pc_sets [of t m] False lock_try by (simp add: mutex_inv_def)
  qed
next
  case (lock_block m t)
  then show ?case
    using pc_moved [of "mutex_block m t" m t M_Blocked] pc_sets [of t m]
    by (simp add: mutex_inv_def mutex_block_def)
next
  case (unlock_dec m t)
  then have "m_value m = 1" "inside m = {t}" using pc_sets [of t m] by (auto simp: mutex_inv_def)
  then show ?case
    using pc_moved [of "mutex_dec m t" m t M_Released] pc_sets [of t m] unlock_dec
    by (simp add: mutex_inv_def mutex_dec_def)
next
  case (unlock_wake m t)
  show ?case
  proof (cases "m_waiters m")
    case Nil
    then show ?thesis
      using pc_moved [of "mutex_wake m t" m t M_Out] pc_sets [of t m] unlock_wake
      by (simp add: mutex_inv_def mutex_wake_def)
  next
    case (Cons w ws)
    then have wb: "w \<in> blocked m" "w \<notin> set ws" "set ws = blocked m - {w}"
      using unlock_wake.prems by (auto simp: mutex_inv_def)
    then have "m_pc m w = M_Blocked" by (simp add: pc_sets)
    then have w: "w \<noteq> t" "w \<notin> inside m" using unlock_wake.hyps by (auto simp: pc_sets)
    let ?m1 = "m\<lparr>m_pc := (m_pc m)(w := M_Try)\<rparr>"
    have "inside (mutex_wake m t) = inside m" "blocked (mutex_wake m t) = blocked m - {w}"
      using Cons pc_moved [of "mutex_wake m t" ?m1 t M_Out] pc_moved [of ?m1 m w M_Try]
        pc_sets [of t m] unlock_wake.hyps w by (auto simp: mutex_wake_def)
    then show ?thesis using unlock_wake.prems Cons wb by (auto simp: mutex_inv_def mutex_wake_def)
  qed
qed

lemma mutex_reach_inv: "mutex_reach w m \<Longrightarrow> mutex_inv (clear_byte w) m"
proof (induction rule: mutex_reach.induct)
  case init
  then show ?case by (simp add: mutex_inv_def mutex_init_def inside_def blocked_def)
qed (rule mutex_inv_step)

section \<open>The read-write lock\<close>

text \<open>
  A reader takes the writer flag, increments the counter, drops the flag and is inside; a writer
  takes the flag and spins until the counter is zero. Failed attempts spin in place.
\<close>

datatype rw_pc = RW_Out | R_Try | R_Flag | R_Counted | R_In | W_Try | W_Flag | W_In

record rwlock =
  rw_writer :: u32
  rw_readers :: u32
  rw_pc :: "nat \<Rightarrow> rw_pc"

definition rwlock_init :: "u32 \<Rightarrow> rwlock" where
  "rwlock_init w = \<lparr>rw_writer = clear_byte w, rw_readers = 0, rw_pc = (\<lambda>_. RW_Out)\<rparr>"

definition rw_try :: "rwlock \<Rightarrow> nat \<Rightarrow> rw_pc \<Rightarrow> rwlock" where
  "rw_try l t got = (case cmpxchg01 (rw_writer l) of (v, ok) \<Rightarrow>
     if ok then l\<lparr>rw_writer := v, rw_pc := (rw_pc l)(t := got)\<rparr> else l)"

definition rw_read_inc :: "rwlock \<Rightarrow> nat \<Rightarrow> rwlock" where
  "rw_read_inc l t = l\<lparr>rw_readers := rw_readers l + 1, rw_pc := (rw_pc l)(t := R_Counted)\<rparr>"

definition rw_read_release :: "rwlock \<Rightarrow> nat \<Rightarrow> rwlock" where
  "rw_read_release l t = l\<lparr>rw_writer := rw_writer l - 1, rw_pc := (rw_pc l)(t := R_In)\<rparr>"

definition rwlock_read_unlock :: "rwlock \<Rightarrow> nat \<Rightarrow> rwlock" where
  "rwlock_read_unlock l t = l\<lparr>rw_readers := rw_readers l - 1, rw_pc := (rw_pc l)(t := RW_Out)\<rparr>"

definition rw_write_spin :: "rwlock \<Rightarrow> nat \<Rightarrow> rwlock" where
  "rw_write_spin l t = (if rw_readers l \<noteq> 0 then l else l\<lparr>rw_pc := (rw_pc l)(t := W_In)\<rparr>)"

definition rwlock_write_unlock :: "rwlock \<Rightarrow> nat \<Rightarrow> rwlock" where
  "rwlock_write_unlock l t = l\<lparr>rw_writer := clear_byte (rw_writer l), rw_pc := (rw_pc l)(t := RW_Out)\<rparr>"

text \<open>The tasks that may use the lock: fewer than the counter can hold (the task table has 64).\<close>

definition RW_TASKS :: nat where "RW_TASKS = 64"

inductive rw_step :: "rwlock \<Rightarrow> rwlock \<Rightarrow> bool" where
  read_call: "t < RW_TASKS \<Longrightarrow> rw_pc l t = RW_Out \<Longrightarrow> rw_step l (l\<lparr>rw_pc := (rw_pc l)(t := R_Try)\<rparr>)"
| read_try: "rw_pc l t = R_Try \<Longrightarrow> rw_step l (rw_try l t R_Flag)"
| read_inc: "rw_pc l t = R_Flag \<Longrightarrow> rw_step l (rw_read_inc l t)"
| read_release: "rw_pc l t = R_Counted \<Longrightarrow> rw_step l (rw_read_release l t)"
| read_unlock: "rw_pc l t = R_In \<Longrightarrow> rw_step l (rwlock_read_unlock l t)"
| write_call: "t < RW_TASKS \<Longrightarrow> rw_pc l t = RW_Out \<Longrightarrow> rw_step l (l\<lparr>rw_pc := (rw_pc l)(t := W_Try)\<rparr>)"
| write_try: "rw_pc l t = W_Try \<Longrightarrow> rw_step l (rw_try l t W_Flag)"
| write_spin: "rw_pc l t = W_Flag \<Longrightarrow> rw_step l (rw_write_spin l t)"
| write_unlock: "rw_pc l t = W_In \<Longrightarrow> rw_step l (rwlock_write_unlock l t)"

inductive rw_reach :: "u32 \<Rightarrow> rwlock \<Rightarrow> bool" for w where
  init: "rw_reach w (rwlock_init w)"
| step: "rw_reach w l \<Longrightarrow> rw_step l l' \<Longrightarrow> rw_reach w l'"

definition flag_pcs :: "rw_pc set" where
  "flag_pcs = {R_Flag, R_Counted, W_Flag, W_In}"

definition counted :: "rwlock \<Rightarrow> nat set" where
  "counted l = {t. rw_pc l t \<in> {R_Counted, R_In}}"

definition holders :: "rwlock \<Rightarrow> nat set" where
  "holders l = {t. rw_pc l t \<in> flag_pcs}"

definition writing :: "rwlock \<Rightarrow> nat set" where
  "writing l = {t. rw_pc l t = W_In}"

text \<open>
  The word at the writer flag is its padding \<open>q\<close> with no holder or, with no padding, 1 with one;
  the counter counts the readers that have incremented it; while a writer is inside there is none.
\<close>

definition rw_inv :: "u32 \<Rightarrow> rwlock \<Rightarrow> bool" where
  "rw_inv q l \<longleftrightarrow>
     (\<forall>t. rw_pc l t \<noteq> RW_Out \<longrightarrow> t < RW_TASKS) \<and>
     (rw_writer l = q \<and> holders l = {} \<or> q = 0 \<and> rw_writer l = 1 \<and> (\<exists>t. holders l = {t})) \<and>
     rw_readers l = of_nat (card (counted l)) \<and>
     (writing l \<noteq> {} \<longrightarrow> counted l = {})"

lemma writing_holds: "writing l \<subseteq> holders l"
  by (auto simp: writing_def holders_def flag_pcs_def)

lemma counted_finite:
  assumes "rw_inv q l"
  shows "finite (counted l)" "card (counted l) \<le> RW_TASKS"
proof -
  have "counted l \<subseteq> {..<RW_TASKS}" using assms by (fastforce simp: counted_def rw_inv_def)
  then show "finite (counted l)" "card (counted l) \<le> RW_TASKS"
    using card_mono [of "{..<RW_TASKS}" "counted l"] finite_subset by auto
qed

text \<open>The three sets after one task moved to \<open>p\<close>.\<close>

lemma moved_sets:
  assumes "rw_pc l' = (rw_pc l)(t := p)"
  shows "counted l' = (if p \<in> {R_Counted, R_In} then insert t (counted l) else counted l - {t})"
    "holders l' = (if p \<in> flag_pcs then insert t (holders l) else holders l - {t})"
    "writing l' = (if p = W_In then insert t (writing l) else writing l - {t})"
    "(\<forall>u. rw_pc l u \<noteq> RW_Out \<longrightarrow> u < RW_TASKS) \<Longrightarrow> t < RW_TASKS \<Longrightarrow> \<forall>u. rw_pc l' u \<noteq> RW_Out \<longrightarrow> u < RW_TASKS"
  using assms by (auto simp: counted_def holders_def writing_def)

lemma rw_inv_init: "rw_inv (clear_byte w) (rwlock_init w)"
  by (simp add: rw_inv_def rwlock_init_def flag_pcs_def counted_def holders_def writing_def)

lemma rw_inv_try:
  assumes inv: "rw_inv q l" and t: "rw_pc l t \<in> {R_Try, W_Try}" and got: "got \<in> {R_Flag, W_Flag}"
  shows "rw_inv q (rw_try l t got)"
proof (cases "rw_writer l = 0")
  case False
  then have "rw_try l t got = l" by (simp add: rw_try_def cmpxchg01_def)
  then show ?thesis using inv by simp
next
  case True
  then have h: "holders l = {}" using inv by (auto simp: rw_inv_def)
  have l': "rw_try l t got = l\<lparr>rw_writer := 1, rw_pc := (rw_pc l)(t := got)\<rparr>" (is "_ = ?l")
    using True by (simp add: rw_try_def cmpxchg01_def)
  have p: "rw_pc ?l = (rw_pc l)(t := got)" by simp
  have "t \<notin> counted l" using t by (auto simp: counted_def)
  moreover have "t < RW_TASKS" using inv t by (auto simp: rw_inv_def)
  moreover have "writing l = {}" using writing_holds [of l] h by auto
  ultimately show ?thesis
    using inv h got True moved_sets [OF p] unfolding l' rw_inv_def by (auto simp: flag_pcs_def)
qed

lemma rw_inv_inc:
  assumes inv: "rw_inv q l" and t: "rw_pc l t = R_Flag"
  shows "rw_inv q (rw_read_inc l t)"
proof -
  have p: "rw_pc (rw_read_inc l t) = (rw_pc l)(t := R_Counted)" by (simp add: rw_read_inc_def)
  have bnd: "\<forall>u. rw_pc (rw_read_inc l t) u \<noteq> RW_Out \<longrightarrow> u < RW_TASKS"
    using inv t by (intro moved_sets(4) [OF p]) (auto simp: rw_inv_def)
  have "t \<in> holders l" "t \<notin> writing l" "t \<notin> counted l" using t by (auto simp: holders_def flag_pcs_def writing_def counted_def)
  moreover from this have h: "holders l = {t}" "writing l = {}" "rw_writer l = 1"
    using inv writing_holds [of l] by (auto simp: rw_inv_def)
  moreover have "t < RW_TASKS" using inv t by (auto simp: rw_inv_def)
  moreover have "card (insert t (counted l)) = Suc (card (counted l))"
    using counted_finite(1) [OF inv] \<open>t \<notin> counted l\<close> by simp
  moreover have "counted (rw_read_inc l t) = insert t (counted l)" "holders (rw_read_inc l t) = {t}"
      "writing (rw_read_inc l t) = {}"
    using moved_sets(1-3) [OF p] h by (simp_all add: flag_pcs_def)
  moreover have "rw_writer (rw_read_inc l t) = 1" "rw_readers (rw_read_inc l t) = rw_readers l + 1"
    using h by (simp_all add: rw_read_inc_def)
  moreover note bnd
  ultimately show ?thesis
    using inv unfolding rw_inv_def by simp
qed

lemma rw_inv_read_unlock:
  assumes inv: "rw_inv q l" and t: "rw_pc l t = R_In"
  shows "rw_inv q (rwlock_read_unlock l t)"
proof -
  have p: "rw_pc (rwlock_read_unlock l t) = (rw_pc l)(t := RW_Out)" by (simp add: rwlock_read_unlock_def)
  have bnd: "\<forall>u. rw_pc (rwlock_read_unlock l t) u \<noteq> RW_Out \<longrightarrow> u < RW_TASKS"
    using inv t by (intro moved_sets(4) [OF p]) (auto simp: rw_inv_def)
  have tf: "t \<in> counted l" "t \<notin> holders l" "t \<notin> writing l" using t by (auto simp: counted_def holders_def writing_def flag_pcs_def)
  have "card (counted l) = Suc (card (counted l - {t}))"
    by (rule card.remove [OF counted_finite(1) [OF inv] tf(1)])
  then have "rw_readers l - 1 = of_nat (card (counted l - {t}))" using inv by (simp add: rw_inv_def)
  moreover have "t < RW_TASKS" using inv t by (auto simp: rw_inv_def)
  moreover have "counted (rwlock_read_unlock l t) = counted l - {t}" "holders (rwlock_read_unlock l t) = holders l"
      "writing (rwlock_read_unlock l t) = writing l"
    using moved_sets(1-3) [OF p] tf by (auto simp: flag_pcs_def)
  moreover have "rw_writer (rwlock_read_unlock l t) = rw_writer l"
      "rw_readers (rwlock_read_unlock l t) = rw_readers l - 1"
    by (simp_all add: rwlock_read_unlock_def)
  moreover note bnd
  ultimately show ?thesis
    using inv unfolding rw_inv_def by simp
qed

text \<open>Dropping the flag: the task that holds it is the only holder.\<close>

lemma rw_inv_drop:
  assumes inv: "rw_inv q l" and t: "t \<in> holders l" and l': "l' = l\<lparr>rw_writer := 0, rw_pc := (rw_pc l)(t := p)\<rparr>"
    and p: "p \<notin> flag_pcs" and c: "p \<in> {R_Counted, R_In} \<longleftrightarrow> t \<in> counted l"
  shows "rw_inv q l'"
proof -
  have pc: "rw_pc l' = (rw_pc l)(t := p)" by (simp add: l')
  have "holders l = {t}" "writing l \<subseteq> {t}" using inv t writing_holds [of l] by (auto simp: rw_inv_def)
  moreover have "t < RW_TASKS" using inv t by (auto simp: rw_inv_def holders_def flag_pcs_def)
  moreover have "counted l' = counted l" using moved_sets(1) [OF pc] c by auto
  moreover have "writing l' = {}" using moved_sets(3) [OF pc] p \<open>writing l \<subseteq> {t}\<close> by (auto simp: flag_pcs_def)
  ultimately show ?thesis
    using inv moved_sets(2,4) [OF pc] p unfolding rw_inv_def by (simp add: l')
qed

lemma rw_inv_spin:
  assumes inv: "rw_inv q l" and t: "rw_pc l t = W_Flag"
  shows "rw_inv q (rw_write_spin l t)"
proof (cases "rw_readers l = 0")
  case True
  define l' where "l' = l\<lparr>rw_pc := (rw_pc l)(t := W_In)\<rparr>"
  have pc: "rw_pc l' = (rw_pc l)(t := W_In)" by (simp add: l'_def)
  have zero: "counted l = {}"
  proof -
    have "(of_nat (card (counted l)) :: u32) = 0" using inv True by (simp add: rw_inv_def)
    moreover have "unat (of_nat (card (counted l)) :: u32) = card (counted l)"
      using counted_finite(2) [OF inv] by (intro unat_of_nat_less) (simp add: RW_TASKS_def)
    ultimately have "card (counted l) = 0" by (metis unat_0)
    then show ?thesis using counted_finite(1) [OF inv] by simp
  qed
  have "t \<in> holders l" using t by (simp add: holders_def flag_pcs_def)
  moreover have "t < RW_TASKS" using inv t by (auto simp: rw_inv_def)
  ultimately have "rw_inv q l'"
    using inv zero moved_sets [OF pc] unfolding rw_inv_def by (auto simp: flag_pcs_def l'_def)
  then show ?thesis using True by (simp add: rw_write_spin_def l'_def)
qed (simp add: rw_write_spin_def inv)

lemma rw_inv_call:
  assumes inv: "rw_inv q l" and t: "t < RW_TASKS" "rw_pc l t = RW_Out" and p: "p \<in> {R_Try, W_Try}"
  shows "rw_inv q (l\<lparr>rw_pc := (rw_pc l)(t := p)\<rparr>)" (is "rw_inv q ?l")
proof -
  have pc: "rw_pc ?l = (rw_pc l)(t := p)" by simp
  have "t \<notin> counted l" "t \<notin> holders l" "t \<notin> writing l" using t(2) by (auto simp: counted_def holders_def writing_def flag_pcs_def)
  then have "counted ?l = counted l" "holders ?l = holders l" "writing ?l = writing l"
    using moved_sets(1-3) [OF pc] p by (auto simp: flag_pcs_def)
  then show ?thesis using inv t(1) moved_sets(4) [OF pc] unfolding rw_inv_def by simp
qed

lemma rw_inv_step: "rw_step l l' \<Longrightarrow> rw_inv q l \<Longrightarrow> rw_inv q l'"
proof (induction rule: rw_step.induct)
  case (read_release l t)
  have t: "t \<in> holders l" "t \<in> counted l" using read_release by (simp_all add: holders_def flag_pcs_def counted_def)
  then have "rw_writer l = 1" using read_release.prems by (auto simp: rw_inv_def)
  then have "rw_read_release l t = l\<lparr>rw_writer := 0, rw_pc := (rw_pc l)(t := R_In)\<rparr>" by (simp add: rw_read_release_def)
  then show ?case using rw_inv_drop [OF read_release.prems t(1)] t(2) by (simp add: flag_pcs_def)
next
  case (write_unlock l t)
  have t: "t \<in> holders l" "t \<notin> counted l" using write_unlock by (simp_all add: holders_def flag_pcs_def counted_def)
  then have "rw_writer l = 1" using write_unlock.prems by (auto simp: rw_inv_def)
  then have "rwlock_write_unlock l t = l\<lparr>rw_writer := 0, rw_pc := (rw_pc l)(t := RW_Out)\<rparr>"
    by (simp add: rwlock_write_unlock_def clear_byte_def)
  then show ?case using rw_inv_drop [OF write_unlock.prems t(1)] t(2) by (simp add: flag_pcs_def)
qed (simp_all add: rw_inv_try rw_inv_inc rw_inv_read_unlock rw_inv_spin rw_inv_call)

lemma rw_reach_inv: "rw_reach w l \<Longrightarrow> rw_inv (clear_byte w) l"
  by (induction rule: rw_reach.induct) (auto intro: rw_inv_init rw_inv_step)

section \<open>Properties\<close>

text \<open>
  C14. Mutual exclusion: whatever was in memory where the mutex was initialised, in every
  reachable state at most one task is between \<^verbatim>\<open>mutex_lock\<close> and \<^verbatim>\<open>mutex_unlock\<close>. The word at the lock
  is its padding, plus 1 while one task is inside; the waiters' list holds exactly the blocked
  tasks, each once. A padding that is not zero keeps every task out for ever.
\<close>

theorem mutex_mutual_exclusion:
  assumes "mutex_reach w m"
  shows "(\<forall>t u. m_pc m t = M_In \<and> m_pc m u = M_In \<longrightarrow> t = u) \<and>
     m_value m = clear_byte w + (if \<exists>t. m_pc m t = M_In then 1 else 0) \<and>
     distinct (m_waiters m) \<and> set (m_waiters m) = {t. m_pc m t = M_Blocked} \<and>
     (w AND 0xFFFFFF00 \<noteq> 0 \<longrightarrow> (\<forall>t. m_pc m t \<noteq> M_In))"
proof -
  note inv = mutex_reach_inv [OF assms]
  then have w: "distinct (m_waiters m)" "set (m_waiters m) = {t. m_pc m t = M_Blocked}"
    by (auto simp: mutex_inv_def blocked_def)
  from inv consider "m_value m = clear_byte w" "inside m = {}"
    | t where "clear_byte w = 0" "m_value m = 1" "inside m = {t}"
    by (auto simp: mutex_inv_def)
  then show ?thesis
  proof cases
    case 1
    then have "\<forall>u. m_pc m u \<noteq> M_In" by (auto simp: pc_sets [symmetric])
    then show ?thesis using 1 w by simp
  next
    case (2 t)
    then have "\<forall>u. m_pc m u = M_In \<longleftrightarrow> u = t" by (auto simp: pc_sets [symmetric])
    then show ?thesis using 2 w by (simp add: clear_byte_def)
  qed
qed

text \<open>Tasks 0 and 1 both call; task 0 is inside, task 1 past its failed attempt.\<close>

definition contended :: mutex where
  "contended = \<lparr>m_value = 1, m_waiters = [], m_pc = (\<lambda>_. M_Out)(0 := M_In, 1 := M_Failed)\<rparr>"

lemma contended_reach: "mutex_reach 0 contended"
proof -
  let ?m0 = "mutex_init 0"
  let ?m1 = "?m0\<lparr>m_pc := (m_pc ?m0)(0 := M_Try)\<rparr>"
  let ?m2 = "mutex_try ?m1 0"
  let ?m3 = "?m2\<lparr>m_pc := (m_pc ?m2)(1 := M_Try)\<rparr>"
  note init = mutex_init_def clear_byte_def
  have "mutex_reach 0 ?m1" by (rule mutex_reach.step [OF mutex_reach.init lock_call]) (simp add: init)
  then have "mutex_reach 0 ?m2" by (rule mutex_reach.step [OF _ lock_try]) simp
  then have "mutex_reach 0 ?m3"
    by (rule mutex_reach.step [OF _ lock_call]) (simp add: mutex_try_def init cmpxchg01_def)
  then have "mutex_reach 0 (mutex_try ?m3 1)" by (rule mutex_reach.step [OF _ lock_try]) simp
  moreover have "mutex_try ?m3 1 = contended"
    by (simp add: contended_def mutex_try_def init cmpxchg01_def)
  ultimately show ?thesis by simp
qed

text \<open>Task 1 goes on to block.\<close>

definition contended2 :: mutex where
  "contended2 = \<lparr>m_value = 1, m_waiters = [1], m_pc = (\<lambda>_. M_Out)(0 := M_In, 1 := M_Blocked)\<rparr>"

lemma contended2_reach: "mutex_reach 0 contended2"
proof -
  have "mutex_reach 0 (mutex_block contended 1)"
    by (rule mutex_reach.step [OF contended_reach lock_block]) (simp add: contended_def)
  then show ?thesis by (simp add: mutex_block_def contended_def contended2_def)
qed

theorem mutex_mutual_exclusion_witness:
  "m_pc contended2 0 = M_In \<and> m_pc contended2 1 \<noteq> M_In \<and> m_value contended2 = 1 \<and>
   set (m_waiters contended2) = {1}"
proof -
  have in0: "m_pc contended2 0 = M_In" "{t. m_pc contended2 t = M_Blocked} = {1}"
    by (auto simp: contended2_def)
  note t = mutex_mutual_exclusion [OF contended2_reach]
  have "m_pc contended2 1 \<noteq> M_In" using t in0 by (metis zero_neq_one)
  moreover have "m_value contended2 = clear_byte 0 + 1" using t in0 by auto
  ultimately show ?thesis using t in0 by (simp add: clear_byte_def)
qed

text \<open>
  C38. The wake-up can be lost: there is a reachable state in which the mutex is free and no task
  is in or on its way out of it, yet a task is blocked on its list and stays so until some
  other task locks and unlocks.
\<close>

theorem mutex_lost_wakeup:
  "\<exists>m t. mutex_reach 0 m \<and> m_value m = 0 \<and> m_waiters m = [t] \<and> m_pc m = (\<lambda>_. M_Out)(t := M_Blocked)"
proof -
  let ?m1 = "mutex_dec contended 0"
  let ?m2 = "mutex_wake ?m1 0"
  let ?m3 = "mutex_block ?m2 1"
  have "mutex_reach 0 ?m1" by (rule mutex_reach.step [OF contended_reach unlock_dec]) (simp add: contended_def)
  then have "mutex_reach 0 ?m2" by (rule mutex_reach.step [OF _ unlock_wake]) (simp add: mutex_dec_def)
  then have "mutex_reach 0 ?m3"
    by (rule mutex_reach.step [OF _ lock_block]) (simp add: mutex_wake_def mutex_dec_def contended_def)
  moreover have "m_value ?m3 = 0" "m_waiters ?m3 = [1]" "m_pc ?m3 = (\<lambda>_. M_Out)(1 := M_Blocked)"
    by (auto simp: mutex_block_def mutex_wake_def mutex_dec_def contended_def fun_eq_iff)
  ultimately show ?thesis by blast
qed

text \<open>
  The read-write lock excludes: in every reachable state a writer inside is the only task
  inside, and the reader counter equals the number of tasks that have entered as readers.
\<close>

lemma rwlock_exclusion:
  assumes "rw_reach w l" "rw_pc l t = W_In"
  shows "(\<forall>u. rw_pc l u \<in> {W_In, R_In} \<longrightarrow> u = t) \<and> rw_readers l = 0"
proof -
  have inv: "rw_inv (clear_byte w) l" using rw_reach_inv [OF assms(1)] .
  have "t \<in> writing l" "t \<in> holders l" using assms(2) by (simp_all add: writing_def holders_def flag_pcs_def)
  then have "counted l = {}" "holders l = {t}" using inv by (auto simp: rw_inv_def)
  moreover have "writing l \<subseteq> holders l" by (rule writing_holds)
  ultimately show ?thesis using inv by (auto simp: rw_inv_def counted_def writing_def)
qed

lemma rwlock_exclusion_witness:
  "\<exists>l :: rwlock. rw_pc l 3 = W_In \<and> rw_pc l 4 \<notin> {W_In, R_In} \<and> rw_readers l = 0"
proof -
  let ?l1 = "(rwlock_init 0)\<lparr>rw_pc := (rw_pc (rwlock_init 0))(3 := W_Try)\<rparr>"
  let ?l2 = "rw_try ?l1 3 W_Flag"
  let ?l3 = "rw_write_spin ?l2 3"
  have "rw_reach 0 ?l1" by (rule rw_reach.step [OF rw_reach.init write_call]) (simp_all add: rwlock_init_def clear_byte_def RW_TASKS_def)
  then have "rw_reach 0 ?l2" by (rule rw_reach.step [OF _ write_try]) simp
  then have "rw_reach 0 ?l3"
    by (rule rw_reach.step [OF _ write_spin]) (simp add: rw_try_def cmpxchg01_def rwlock_init_def clear_byte_def)
  moreover have "rw_pc ?l3 3 = W_In" by (simp add: rw_write_spin_def rw_try_def cmpxchg01_def rwlock_init_def clear_byte_def)
  ultimately have "rw_pc ?l3 3 = W_In \<and> (\<forall>u. rw_pc ?l3 u \<in> {W_In, R_In} \<longrightarrow> u = 3) \<and> rw_readers ?l3 = 0"
    using rwlock_exclusion [of 0 ?l3 3] by blast
  moreover have "(4 :: nat) \<noteq> 3" by simp
  ultimately have "rw_pc ?l3 3 = W_In \<and> rw_pc ?l3 4 \<notin> {W_In, R_In} \<and> rw_readers ?l3 = 0" by blast
  then show ?thesis by (rule exI)
qed

end
