(* ===== verification/Task.thy ===== *)
theory Task
  imports Strings
begin

text \<open>
  \<^verbatim>\<open>src/kernel/task.c\<close>, \<^verbatim>\<open>src/kernel/schedule.c\<close> and the types of
  \<^verbatim>\<open>src/include/lightos/task.h\<close>: the task table, the scheduler and the context switch, blocking
  and waking, sessions and process groups, file descriptors, waiting for children.

  A task pointer is the index of its slot in \<^verbatim>\<open>task_list\<close>; the code keeps the pid of a task
  equal to it. Waiting lists hold slots, oldest first (the list operations act on them as shown
  for the linked lists); \<open>t_node\<close> is the address of the list a task's node is linked in. The
  CPU is its general registers, CR3 and the kernel stack pointer of the global TSS. Of inodes
  and files only the reference counts are kept here. A call of
  \<open>schedule\<close> ends a step: what the C code has behind it runs when the task is switched to
  again, and only restores the interrupt flag.

  Shown: the scheduler picks the next runnable task in round-robin order and else the idle
  task; its assertions never fail in a well-formed table, and every operation keeps the table
  well-formed; a task that is switched to continues with the registers it was left with.
\<close>

section \<open>Data\<close>

definition TASK_NR :: u32 where "TASK_NR = 64"
definition TASK_FILE_NR :: u32 where "TASK_FILE_NR = 16"
definition LIGHTOS_MAGIC :: u32 where "LIGHTOS_MAGIC = 0x20240522"
definition KERNEL_RING0 :: u32 where "KERNEL_RING0 = 0"
definition USER_RING3 :: u32 where "USER_RING3 = 1000"

definition EPERM :: u32 where "EPERM = 1"
definition ESRCH :: u32 where "ESRCH = 3"

datatype task_state = TASK_INIT | TASK_RUNNING | TASK_READY | TASK_BLOCKED | TASK_SLEEPING | TASK_WAITING | TASK_DEAD

text \<open>The part of \<^verbatim>\<open>tss_t\<close> the kernel uses: a saved register set.\<close>

record regs =
  r_eip :: u32
  r_eflags :: u32
  r_eax :: u32
  r_ecx :: u32
  r_edx :: u32
  r_ebx :: u32
  r_esp :: u32
  r_ebp :: u32
  r_esi :: u32
  r_edi :: u32

record sigaction =
  sa_handler :: u32
  sa_mask :: u32
  sa_flags :: u32
  sa_restorer :: u32

text \<open>The registers of \<^verbatim>\<open>intr_frame_t\<close>, at the top of the task's page.\<close>

record intr_frame =
  if_edx :: u32
  if_ecx :: u32
  if_eax :: u32
  if_eip :: u32
  if_eflags :: u32
  if_esp :: u32

record task =
  t_addr :: u32
  t_state :: task_state
  t_priority :: u32
  t_ticks :: u32
  t_jiffies :: u32
  t_name :: "u8 list"
  t_uid :: u32
  t_gid :: u32
  t_pid :: u32
  t_ppid :: u32
  t_pgid :: u32
  t_sid :: u32
  t_tty :: u32
  t_pde :: u32
  t_node :: "u32 option"
  t_tss :: regs
  t_esp0 :: u32
  t_text :: u32
  t_data :: u32
  t_end :: u32
  t_brk :: u32
  t_status :: u32
  t_waitpid :: u32
  t_pwd :: "u8 list"
  t_ipwd :: "nat option"
  t_iroot :: "nat option"
  t_iexec :: "nat option"
  t_umask :: u16
  t_files :: "nat option list"
  t_signal :: u32
  t_blocked :: u32
  t_actions :: "sigaction list"
  t_magic :: u32
  t_iframe :: intr_frame

record kernel =
  task_list :: "task option list"
  cur :: nat
  waiting :: "u32 \<Rightarrow> nat list"
  jiffies :: u32
  cpu :: regs
  cr3 :: u32
  tss_esp0 :: u32
  inode_count :: "nat \<Rightarrow> u32"
  file_count :: "nat \<Rightarrow> u32"

text \<open>Dereferencing a slot, and writing through a task pointer.\<close>

definition task_at :: "kernel \<Rightarrow> nat \<Rightarrow> task option" where
  "task_at k n = (if n < length (task_list k) then task_list k ! n else None)"

definition put_task :: "kernel \<Rightarrow> nat \<Rightarrow> task \<Rightarrow> kernel" where
  "put_task k n t = k\<lparr>task_list := (task_list k)[n := Some t]\<rparr>"

definition set_state :: "kernel \<Rightarrow> nat \<Rightarrow> task_state \<Rightarrow> kernel option" where
  "set_state k n st = do { t \<leftarrow> task_at k n; Some (put_task k n (t\<lparr>t_state := st\<rparr>)) }"

section \<open>Finding tasks\<close>

fun get_task_from :: "task option list \<Rightarrow> nat \<Rightarrow> u32 \<Rightarrow> nat option" where
  "get_task_from [] i pid = None"
| "get_task_from (None # ts) i pid = get_task_from ts (Suc i) pid"
| "get_task_from (Some t # ts) i pid = (if t_pid t = pid then Some i else get_task_from ts (Suc i) pid)"

definition get_task :: "kernel \<Rightarrow> u32 \<Rightarrow> nat option" where
  "get_task k pid = get_task_from (task_list k) 0 pid"

definition get_current :: "kernel \<Rightarrow> task option" where
  "get_current k = task_at k (cur k)"

text \<open>A free slot; a full table panics. The page that \<^verbatim>\<open>alloc_kpage\<close> returns is put into it.\<close>

fun free_slot_from :: "task option list \<Rightarrow> nat \<Rightarrow> nat option" where
  "free_slot_from [] i = kpanic"
| "free_slot_from (None # ts) i = Some i"
| "free_slot_from (Some t # ts) i = free_slot_from ts (Suc i)"

definition get_free_task :: "kernel \<Rightarrow> task \<Rightarrow> (nat \<times> kernel) option" where
  "get_free_task k page = do { i \<leftarrow> free_slot_from (task_list k) 0; Some (i, put_task k i page) }"

definition USER_EXEC_ADDR :: u32 where "USER_EXEC_ADDR = 0x08048000"
definition MAXSIG :: nat where "MAXSIG = 31"

definition zero_regs :: regs where
  "zero_regs = \<lparr>r_eip = 0, r_eflags = 0, r_eax = 0, r_ecx = 0, r_edx = 0, r_ebx = 0, r_esp = 0, r_ebp = 0, r_esi = 0, r_edi = 0\<rparr>"

definition zero_sigaction :: sigaction where
  "zero_sigaction = \<lparr>sa_handler = 0, sa_mask = 0, sa_flags = 0, sa_restorer = 0\<rparr>"

text \<open>A page at \<open>addr\<close> full of zeros, read as a task.\<close>

definition zero_task :: "u32 \<Rightarrow> task" where
  "zero_task addr = \<lparr>t_addr = addr, t_state = TASK_INIT, t_priority = 0, t_ticks = 0, t_jiffies = 0, t_name = [], t_uid = 0,
     t_gid = 0, t_pid = 0, t_ppid = 0, t_pgid = 0, t_sid = 0, t_tty = 0, t_pde = 0, t_node = None,
     t_tss = zero_regs, t_esp0 = 0, t_text = 0, t_data = 0, t_end = 0, t_brk = 0, t_status = 0, t_waitpid = 0,
     t_pwd = [], t_ipwd = None, t_iroot = None, t_iexec = None, t_umask = 0,
     t_files = replicate (unat TASK_FILE_NR) None, t_signal = 0, t_blocked = 0,
     t_actions = replicate MAXSIG zero_sigaction, t_magic = 0,
     t_iframe = \<lparr>if_edx = 0, if_ecx = 0, if_eax = 0, if_eip = 0, if_eflags = 0, if_esp = 0\<rparr>\<rparr>"

text \<open>
  \<^verbatim>\<open>task_create\<close>: \<open>page\<close> is the address of the slot's page and \<open>root\<close> the root inode, whose
  count goes up by two; the three standard files are shared and counted once more each.
\<close>

definition task_create :: "kernel \<Rightarrow> u32 \<Rightarrow> nat \<Rightarrow> u32 \<Rightarrow> u8 list \<Rightarrow> u32 \<Rightarrow> u32 \<Rightarrow> (u32 \<times> kernel) option" where
  "task_create k page root eip_ptr nm prio uid = do {
     (i, k) \<leftarrow> get_free_task k (zero_task page);
     let pid = of_nat i;
     let stack = page + PAGE_SIZE;
     let t = (zero_task page)\<lparr>t_pid := pid, t_name := nm\<rparr>;
     let t = t\<lparr>t_jiffies := 0, t_ticks := prio, t_priority := prio, t_uid := uid, t_gid := 0\<rparr>;
     let t = t\<lparr>t_brk := USER_EXEC_ADDR, t_text := USER_EXEC_ADDR, t_data := USER_EXEC_ADDR, t_end := USER_EXEC_ADDR\<rparr>;
     let t = t\<lparr>t_iexec := None, t_iroot := Some root, t_ipwd := Some root, t_umask := 0x12\<rparr>;
     let k = k\<lparr>inode_count := (inode_count k)(root := inode_count k root + 2)\<rparr>;
     let t = t\<lparr>t_pwd := [0x2F]\<rparr>;
     let t = t\<lparr>t_files := (t_files t)[0 := Some 0, 1 := Some 1, 2 := Some 2]\<rparr>;
     let k = k\<lparr>file_count := (file_count k)(0 := file_count k 0 + 1, 1 := file_count k 1 + 1, 2 := file_count k 2 + 1)\<rparr>;
     let t = t\<lparr>t_magic := LIGHTOS_MAGIC, t_signal := 0, t_blocked := 0, t_actions := replicate MAXSIG zero_sigaction\<rparr>;
     let t = t\<lparr>t_tss := (t_tss t)\<lparr>r_eip := eip_ptr, r_ebp := stack, r_esp := stack\<rparr>, t_esp0 := stack\<rparr>;
     let t = t\<lparr>t_state := TASK_READY\<rparr>;
     Some (pid, put_task k i t) }"

text \<open>\<^verbatim>\<open>task_setup\<close>: the idle task and the init thread, both on the kernel's page directory (0).\<close>

definition task_setup :: "kernel \<Rightarrow> u32 \<Rightarrow> u32 \<Rightarrow> nat \<Rightarrow> u32 \<Rightarrow> u32 \<Rightarrow> kernel option" where
  "task_setup k page0 page1 root idle init_kthread = do {
     (pid, k) \<leftarrow> task_create k page0 root idle [0x69, 0x64, 0x6C, 0x65] 1 KERNEL_RING0;
     t \<leftarrow> task_at k (unat pid);
     let k = put_task k (unat pid) (t\<lparr>t_pde := 0\<rparr>);
     (pid, k) \<leftarrow> task_create k page1 root init_kthread [0x69, 0x6E, 0x69, 0x74] 5 KERNEL_RING0;
     t \<leftarrow> task_at k (unat pid);
     let k = put_task k (unat pid) (t\<lparr>t_pde := 0\<rparr>);
     Some (k\<lparr>cur := 0\<rparr>) }"

section \<open>Scheduling\<close>

definition runnable :: "task option \<Rightarrow> bool" where
  "runnable t = (case t of None \<Rightarrow> False | Some t \<Rightarrow> t_ticks t \<noteq> 0 \<and> t_state t = TASK_READY)"

text \<open>The search loop of \<open>schedule\<close>; the first argument is the number of rounds left.\<close>

fun schedule_scan :: "task option list \<Rightarrow> nat \<Rightarrow> nat \<Rightarrow> nat" where
  "schedule_scan ts 0 n = 0"
| "schedule_scan ts (Suc i) n =
     (let n = n mod unat TASK_NR in
      if n \<noteq> 0 \<and> runnable (ts ! n) then n else schedule_scan ts i (n + 1))"

text \<open>
  \<^verbatim>\<open>switch_to\<close>: \<open>resume\<close> is the address of \<^verbatim>\<open>resume_execution\<close>, where every switched-out task
  continues.
\<close>

definition switch_to :: "u32 \<Rightarrow> kernel \<Rightarrow> nat \<Rightarrow> kernel option" where
  "switch_to resume k n = do {
     kassert (n < unat TASK_NR);
     _ \<leftarrow> task_at k n;
     if cur k = n then Some k
     else do {
       c \<leftarrow> get_current k;
       let c = c\<lparr>t_tss := (cpu k)\<lparr>r_eip := resume\<rparr>\<rparr>;
       let c = (if t_state c = TASK_RUNNING then c\<lparr>t_state := TASK_READY\<rparr> else c);
       let k = put_task k (cur k) c;
       let k = k\<lparr>cur := n\<rparr>;
       c \<leftarrow> get_current k;
       kassert (t_state c = TASK_READY);
       let c = c\<lparr>t_state := TASK_RUNNING\<rparr>;
       kassert (t_pde c AND 0xFFF = 0);
       let k = k\<lparr>cr3 := t_pde c, tss_esp0 := t_esp0 c\<rparr>;
       let c = c\<lparr>t_jiffies := jiffies k\<rparr>;
       let k = put_task k n c;
       Some (k\<lparr>cpu := t_tss c\<rparr>) } }"

definition schedule :: "u32 \<Rightarrow> kernel \<Rightarrow> kernel option" where
  "schedule resume k = do {
     c \<leftarrow> get_current k;
     let target = schedule_scan (task_list k) (unat TASK_NR) (unat (t_pid c + 1));
     switch_to resume k target }"

definition sys_yield :: "u32 \<Rightarrow> kernel \<Rightarrow> kernel option" where
  "sys_yield resume k = schedule resume k"

section \<open>Blocking and waking\<close>

text \<open>
  \<^verbatim>\<open>list_pushback\<close> of a task's node: it stops the kernel when the node is in that very list
  (a node that is in another list would be cut out of it, so it is not a value either).
\<close>

definition wait_on :: "kernel \<Rightarrow> u32 \<Rightarrow> nat \<Rightarrow> kernel option" where
  "wait_on k l n = do {
     t \<leftarrow> task_at k n;
     kassert (t_node t = None);
     Some ((put_task k n (t\<lparr>t_node := Some l\<rparr>))\<lparr>waiting := (waiting k)(l := waiting k l @ [n])\<rparr>) }"

text \<open>\<^verbatim>\<open>list_remove\<close> of a task's node.\<close>

definition unlink_node :: "kernel \<Rightarrow> nat \<Rightarrow> kernel option" where
  "unlink_node k n = do {
     t \<leftarrow> task_at k n;
     l \<leftarrow> t_node t;
     Some ((put_task k n (t\<lparr>t_node := None\<rparr>))\<lparr>waiting := (waiting k)(l := remove1 n (waiting k l))\<rparr>) }"

definition task_block :: "u32 \<Rightarrow> kernel \<Rightarrow> nat \<Rightarrow> u32 option \<Rightarrow> task_state \<Rightarrow> kernel option" where
  "task_block resume k n waiting_list st =
     (case waiting_list of
        None \<Rightarrow> do {
          k \<leftarrow> set_state k n st;
          if cur k = n then schedule resume k
          else kpanic }
      | Some l \<Rightarrow> do {
          k \<leftarrow> wait_on k l n;
          k \<leftarrow> set_state k n st;
          if cur k = n then schedule resume k else Some k })"

definition task_unblock :: "u32 \<Rightarrow> kernel \<Rightarrow> u32 \<Rightarrow> kernel option" where
  "task_unblock resume k l =
     (case waiting k l of
        [] \<Rightarrow> Some k
      | n # _ \<Rightarrow> do {
          k \<leftarrow> unlink_node k n;
          t \<leftarrow> task_at k n;
          kassert (t_magic t = LIGHTOS_MAGIC);
          k \<leftarrow> set_state k n TASK_READY;
          schedule resume k })"

definition task_intr_unblock_no_waiting_list :: "kernel \<Rightarrow> nat \<Rightarrow> kernel option" where
  "task_intr_unblock_no_waiting_list k n = do {
     t \<leftarrow> task_at k n;
     k \<leftarrow> (if t_node t \<noteq> None then unlink_node k n else Some k);
     set_state k n TASK_READY }"

section \<open>Files, sessions, groups\<close>

fun fd_from :: "nat option list \<Rightarrow> nat \<Rightarrow> nat option" where
  "fd_from [] i = kpanic"
| "fd_from (None # fs) i = Some i"
| "fd_from (Some f # fs) i = fd_from fs (Suc i)"

text \<open>The three standard descriptors are never handed out.\<close>

definition task_get_fd :: "task \<Rightarrow> nat option" where
  "task_get_fd t = fd_from (drop 3 (t_files t)) 3"

definition task_put_fd :: "kernel \<Rightarrow> nat \<Rightarrow> u32 \<Rightarrow> kernel option" where
  "task_put_fd k n fd = do {
     kassert (fd <s TASK_FILE_NR);
     t \<leftarrow> task_at k n;
     files \<leftarrow> aset (t_files t) (unat fd) None;
     Some (put_task k n (t\<lparr>t_files := files\<rparr>)) }"

definition task_sess_leader :: "task \<Rightarrow> bool" where
  "task_sess_leader t \<longleftrightarrow> t_sid t = t_pid t"

definition sys_setsid :: "kernel \<Rightarrow> (u32 \<times> kernel) option" where
  "sys_setsid k = do {
     t \<leftarrow> get_current k;
     if task_sess_leader t then Some (- EPERM, k)
     else do {
       let t = t\<lparr>t_sid := t_pid t, t_pgid := t_pid t\<rparr>;
       Some (t_sid t, put_task k (cur k) t) } }"

definition sys_setpgid :: "kernel \<Rightarrow> u32 \<Rightarrow> u32 \<Rightarrow> (u32 \<times> kernel) option" where
  "sys_setpgid k pid pgid = do {
     c \<leftarrow> get_current k;
     let target = (if pid = 0 then Some (cur k) else get_task k pid);
     let pgid = (if pgid = 0 then t_pid c else pgid);
     case target of
       None \<Rightarrow> Some (- ESRCH, k)
     | Some n \<Rightarrow> do {
         t \<leftarrow> task_at k n;
         if task_sess_leader t then Some (- EPERM, k)
         else if t_sid t \<noteq> t_sid c then Some (- EPERM, k)
         else Some (0, put_task k n (t\<lparr>t_pgid := pgid\<rparr>)) } }"

definition sys_getpgrp :: "kernel \<Rightarrow> u32 option" where
  "sys_getpgrp k = do { t \<leftarrow> get_current k; Some (t_pgid t) }"

definition sys_getpid :: "kernel \<Rightarrow> u32 option" where
  "sys_getpid k = do { t \<leftarrow> get_current k; Some (t_pid t) }"

definition sys_getppid :: "kernel \<Rightarrow> u32 option" where
  "sys_getppid k = do { t \<leftarrow> get_current k; Some (t_ppid t) }"

section \<open>Waiting for children\<close>

text \<open>The first child in table order, from slot 2 on; the pid argument plays no part in the search.\<close>

fun child_from :: "task option list \<Rightarrow> nat \<Rightarrow> u32 \<Rightarrow> (nat \<times> task) option" where
  "child_from [] i ppid = None"
| "child_from (None # ts) i ppid = child_from ts (Suc i) ppid"
| "child_from (Some t # ts) i ppid = (if t_ppid t = ppid then Some (i, t) else child_from ts (Suc i) ppid)"

datatype wait_result = W_no_child | W_blocked kernel | W_reaped u32 u32 kernel

text \<open>
  One round of the loop of \<^verbatim>\<open>sys_waitpid\<close>: no child, a dead child that is reaped (its status,
  its pid), or the caller blocks and the loop is entered again when it is woken.
\<close>

definition sys_waitpid :: "u32 \<Rightarrow> kernel \<Rightarrow> u32 \<Rightarrow> wait_result option" where
  "sys_waitpid resume k pid = do {
     t \<leftarrow> get_current k;
     case child_from (drop 2 (task_list k)) 2 (t_pid t) of
       None \<Rightarrow> Some W_no_child
     | Some (i, child) \<Rightarrow>
         if t_state child = TASK_DEAD then
           Some (W_reaped (t_status child) (t_pid child)
             (k\<lparr>task_list := (task_list k)[unat (t_pid child) := None]\<rparr>))
         else do {
           let k = put_task k (cur k) (t\<lparr>t_waitpid := pid\<rparr>);
           k \<leftarrow> task_block resume k (cur k) None TASK_WAITING;
           Some (W_blocked k) } }"

text \<open>\<^verbatim>\<open>task_tell_father\<close>: the parent's pending signals get SIGCHLD; no parent panics.\<close>

definition SIGMASK :: "nat \<Rightarrow> u32" where
  "SIGMASK sig = push_bit (sig - 1) 1"

definition SIGCHLD :: nat where "SIGCHLD = 17"
definition SIGHUP :: nat where "SIGHUP = 1"

definition task_tell_father :: "kernel \<Rightarrow> task \<Rightarrow> kernel option" where
  "task_tell_father k t =
     (if t_ppid t = 0 then Some k
      else case get_task k (t_ppid t) of
        None \<Rightarrow> kpanic
      | Some n \<Rightarrow> do {
          parent \<leftarrow> task_at k n;
          Some (put_task k n (parent\<lparr>t_signal := t_signal parent OR SIGMASK SIGCHLD\<rparr>)) })"

text \<open>
  The session part of \<^verbatim>\<open>sys_exit\<close>: a leader's session gets SIGHUP, the exiting task excepted;
  the loop over the children hands them to the grandparent and wakes a waiting parent.
\<close>

definition exit_hangup :: "kernel \<Rightarrow> task \<Rightarrow> kernel" where
  "exit_hangup k t = k\<lparr>task_list := map (map_option (\<lambda>tk.
      if t_sid tk \<noteq> t_sid t \<or> t_pid tk = t_pid t then tk
      else tk\<lparr>t_signal := t_signal tk OR SIGMASK SIGHUP\<rparr>)) (task_list k)\<rparr>"

fun exit_reparent :: "kernel \<Rightarrow> task \<Rightarrow> nat list \<Rightarrow> kernel option" where
  "exit_reparent k t [] = Some k"
| "exit_reparent k t (i # is) =
     (case task_at k i of
        None \<Rightarrow> exit_reparent k t is
      | Some tk \<Rightarrow>
          if t_ppid tk = t_pid t then exit_reparent (put_task k i (tk\<lparr>t_ppid := t_ppid t\<rparr>)) t is
          else if t_waitpid tk = t_pid t then do {
            k \<leftarrow> (if t_state tk = TASK_WAITING then task_intr_unblock_no_waiting_list k i else Some k);
            tk \<leftarrow> task_at k i;
            exit_reparent (put_task k i (tk\<lparr>t_waitpid := 0\<rparr>)) t is }
          else exit_reparent k t is)"

section \<open>Well-formed task tables\<close>

text \<open>
  64 slots; a task's pid is its slot and its page directory is page-aligned; the current slot is filled; the idle task is ready unless
  it is current, and never waits; nobody but the current task is running; waiting lists and the
  tasks' links agree and hold each task once; a task in a list is neither ready nor running.
\<close>

definition idle_ok :: "kernel \<Rightarrow> bool" where
  "idle_ok k \<longleftrightarrow> (case task_at k 0 of None \<Rightarrow> False
     | Some t \<Rightarrow> t_node t = None \<and> (t_state t = TASK_READY \<or> cur k = 0 \<and> t_state t = TASK_RUNNING))"

definition slot_ok :: "kernel \<Rightarrow> nat \<Rightarrow> task \<Rightarrow> bool" where
  "slot_ok k n t \<longleftrightarrow> t_pid t = of_nat n \<and> t_magic t = LIGHTOS_MAGIC \<and> t_pde t AND 0xFFF = 0 \<and> (n \<noteq> cur k \<longrightarrow> t_state t \<noteq> TASK_RUNNING) \<and>
     (\<forall>l. t_node t = Some l \<longleftrightarrow> n \<in> set (waiting k l)) \<and>
     (t_node t \<noteq> None \<longrightarrow> t_state t \<noteq> TASK_READY \<and> t_state t \<noteq> TASK_RUNNING)"

definition sched_inv :: "kernel \<Rightarrow> bool" where
  "sched_inv k \<longleftrightarrow> length (task_list k) = 64 \<and> task_at k (cur k) \<noteq> None \<and> idle_ok k \<and>
     (\<forall>n t. task_at k n = Some t \<longrightarrow> slot_ok k n t) \<and>
     (\<forall>l. distinct (waiting k l) \<and> (\<forall>n \<in> set (waiting k l). task_at k n \<noteq> None))"

lemma task_at_bound: "task_at k n = Some t \<Longrightarrow> n < length (task_list k)"
  by (simp add: task_at_def split: if_splits)

lemma put_task_simps [simp]:
  "task_at (put_task k n t) m = (if m = n \<and> n < length (task_list k) then Some t else task_at k m)"
  "length (task_list (put_task k n t)) = length (task_list k)"
  "cur (put_task k n t) = cur k" "waiting (put_task k n t) = waiting k" "cpu (put_task k n t) = cpu k"
  "jiffies (put_task k n t) = jiffies k"
  by (auto simp: task_at_def put_task_def)

lemma task_at_fields [simp]:
  "task_at (k\<lparr>cur := c\<rparr>) n = task_at k n" "task_at (k\<lparr>cpu := r\<rparr>) n = task_at k n"
  "task_at (k\<lparr>cr3 := a, tss_esp0 := b\<rparr>) n = task_at k n" "task_at (k\<lparr>waiting := w\<rparr>) n = task_at k n"
  "task_at (k\<lparr>inode_count := ic\<rparr>) n = task_at k n" "task_at (k\<lparr>file_count := fc\<rparr>) n = task_at k n"
  by (simp_all add: task_at_def)

section \<open>The round robin\<close>

definition round_robin :: "task option list \<Rightarrow> nat \<Rightarrow> nat" where
  "round_robin ts c =
     (case find (\<lambda>m. m \<noteq> 0 \<and> runnable (ts ! m)) (map (\<lambda>j. (c + 1 + j) mod 64) [0..<64]) of
        None \<Rightarrow> 0 | Some m \<Rightarrow> m)"

lemma schedule_scan_find:
  "schedule_scan ts i n =
     (case find (\<lambda>m. m \<noteq> 0 \<and> runnable (ts ! m)) (map (\<lambda>j. (n + j) mod 64) [0..<i]) of None \<Rightarrow> 0 | Some m \<Rightarrow> m)"
proof (induction i arbitrary: n)
  case (Suc i)
  have "Suc (n + x) mod 64 = Suc (n mod 64 + x) mod 64" for x
    by (metis add_Suc mod_Suc_eq mod_add_left_eq)
  then have "map (\<lambda>j. (n + j) mod 64) [0..<Suc i] = n mod 64 # map (\<lambda>j. (n mod 64 + 1 + j) mod 64) [0..<i]"
    by (simp only: upt_conv_Cons zero_less_Suc map_Suc_upt [symmetric] list.map)
       (simp add: mod_add_left_eq comp_def del: upt_Suc)
  then show ?case using Suc.IH [of "n mod 64 + 1"] by (simp add: TASK_NR_def Let_def del: upt_Suc)
qed simp

lemma round_robin_cases:
  "round_robin ts c = 0 \<or> (round_robin ts c < 64 \<and> round_robin ts c \<noteq> 0 \<and> runnable (ts ! round_robin ts c))"
proof (cases "find (\<lambda>m. m \<noteq> 0 \<and> runnable (ts ! m)) (map (\<lambda>j. (c + 1 + j) mod 64) [0..<64])")
  case (Some m)
  then have "round_robin ts c = m" by (simp add: round_robin_def)
  moreover have "m < 64" "m \<noteq> 0" "runnable (ts ! m)" using Some by (auto simp: find_Some_iff)
  ultimately show ?thesis by simp
qed (simp add: round_robin_def)

section \<open>Preservation\<close>

lemma sched_invD:
  assumes "sched_inv k"
  shows "length (task_list k) = 64" "idle_ok k" "\<exists>c. task_at k (cur k) = Some c"
    "task_at k n = Some t \<Longrightarrow> slot_ok k n t"
    "distinct (waiting k l)" "n \<in> set (waiting k l) \<Longrightarrow> \<exists>t. task_at k n = Some t"
  using assms by (auto simp: sched_inv_def)

text \<open>Writing a task back keeps the table when what the invariant reads of it is still right.\<close>

lemma sched_inv_put:
  assumes inv: "sched_inv k" and n: "task_at k n = Some t" and ok: "slot_ok k n t'"
    and idle: "n = 0 \<Longrightarrow> t_state t' = TASK_READY \<or> cur k = 0 \<and> t_state t' = TASK_RUNNING" and nd: "n = 0 \<Longrightarrow> t_node t' = None"
  shows "sched_inv (put_task k n t')"
proof -
  have len: "length (task_list k) = 64" "n < 64" using sched_invD(1) [OF inv] task_at_bound [OF n] by auto
  have "idle_ok (put_task k n t')"
    using sched_invD(2) [OF inv] idle nd len by (auto simp: idle_ok_def split: option.splits)
  moreover have "slot_ok (put_task k n t') m s" if "task_at (put_task k n t') m = Some s" for m s
    using that ok sched_invD(4) [OF inv, of m s] len by (auto simp: slot_ok_def split: if_splits)
  ultimately show ?thesis
    using inv len unfolding sched_inv_def by auto
qed

lemma set_state_inv:
  assumes inv: "sched_inv k" and n: "task_at k n = Some t" and st: "n \<noteq> 0" "n \<noteq> cur k \<longrightarrow> st \<noteq> TASK_RUNNING"
    and node: "t_node t = None"
  shows "\<exists>k'. set_state k n st = Some k' \<and> sched_inv k' \<and> cur k' = cur k \<and> waiting k' = waiting k \<and>
     task_at k' n = Some (t\<lparr>t_state := st\<rparr>)"
  using sched_inv_put [OF inv n, of "t\<lparr>t_state := st\<rparr>"] sched_invD(4) [OF inv n] st n node task_at_bound [OF n]
  by (auto simp: set_state_def slot_ok_def)

lemma switch_to_ok:
  assumes inv: "sched_inv k" and n: "task_at k n = Some t" "t_state t = TASK_READY" "n \<noteq> cur k"
  shows "\<exists>k'. switch_to resume k n = Some k' \<and> sched_inv k' \<and> cur k' = n \<and> waiting k' = waiting k \<and>
     cpu k' = t_tss t \<and> cr3 k' = t_pde t \<and> tss_esp0 k' = t_esp0 t \<and> jiffies k' = jiffies k \<and>
     (\<forall>m. m \<noteq> n \<and> m \<noteq> cur k \<longrightarrow> task_at k' m = task_at k m) \<and>
     task_at k' n = Some (t\<lparr>t_state := TASK_RUNNING, t_jiffies := jiffies k\<rparr>) \<and>
     (\<exists>c. task_at k (cur k) = Some c \<and> task_at k' (cur k) = Some (c\<lparr>t_tss := (cpu k)\<lparr>r_eip := resume\<rparr>,
        t_state := if t_state c = TASK_RUNNING then TASK_READY else t_state c\<rparr>))"
proof -
  obtain c where c: "task_at k (cur k) = Some c" using sched_invD(3) [OF inv] by blast
  define c' where "c' = c\<lparr>t_tss := (cpu k)\<lparr>r_eip := resume\<rparr>,
      t_state := if t_state c = TASK_RUNNING then TASK_READY else t_state c\<rparr>"
  have len: "length (task_list k) = 64" "n < 64" "cur k < 64"
    using sched_invD(1) [OF inv] task_at_bound [OF n(1)] task_at_bound [OF c] by auto
  have okc: "slot_ok k (cur k) c" and okn: "slot_ok k n t" using sched_invD(4) [OF inv] c n(1) by auto
  define t' where "t' = t\<lparr>t_state := TASK_RUNNING, t_jiffies := jiffies k\<rparr>"
  define k' where "k' = (put_task ((put_task k (cur k) c')\<lparr>cur := n, cr3 := t_pde t, tss_esp0 := t_esp0 t\<rparr>) n t')\<lparr>cpu := t_tss t\<rparr>"
  have sw: "switch_to resume k n = Some k'"
    using c n len okn unfolding switch_to_def get_current_def
    by (cases "t_state c = TASK_RUNNING")
      (simp_all add: TASK_NR_def k'_def t'_def c'_def slot_ok_def Let_def put_task_def task_at_def)
  have at: "task_at k' m = (if m = n then Some t' else if m = cur k then Some c' else task_at k m)" for m
    using len n(3) by (simp add: k'_def put_task_def task_at_def)
  have fields: "cur k' = n" "waiting k' = waiting k" "length (task_list k') = 64" "cpu k' = t_tss t"
      "cr3 k' = t_pde t" "tss_esp0 k' = t_esp0 t" "jiffies k' = jiffies k"
    using len by (simp_all add: k'_def put_task_def)
  have "idle_ok k'"
    using sched_invD(2) [OF inv] n c len
    by (auto simp: idle_ok_def at fields t'_def c'_def split: option.splits)
  moreover have "slot_ok k' m s" if "task_at k' m = Some s" for m s
    using that okc okn sched_invD(4) [OF inv, of m s] n(2,3)
    by (auto simp: at slot_ok_def fields t'_def c'_def split: if_splits)
  ultimately have "sched_inv k'" using inv at unfolding sched_inv_def by (auto simp: fields)
  then show ?thesis
    using sw at n(3) c by (simp add: t'_def c'_def fields)
qed

text \<open>What a call of \<open>schedule\<close> does to a well-formed table.\<close>

definition scheduled :: "u32 \<Rightarrow> kernel \<Rightarrow> kernel \<Rightarrow> bool" where
  "scheduled resume k k' \<longleftrightarrow> cur k' = round_robin (task_list k) (cur k) \<and> waiting k' = waiting k \<and>
     jiffies k' = jiffies k \<and>
     (\<forall>n. n \<noteq> cur k \<and> n \<noteq> cur k' \<longrightarrow> task_at k' n = task_at k n) \<and>
     (if cur k' = cur k then k' = k
      else (\<exists>t. task_at k (cur k') = Some t \<and> t_state t = TASK_READY \<and> cpu k' = t_tss t \<and>
          task_at k' (cur k') = Some (t\<lparr>t_state := TASK_RUNNING, t_jiffies := jiffies k\<rparr>)) \<and>
        (\<exists>c. task_at k (cur k) = Some c \<and> task_at k' (cur k) = Some (c\<lparr>t_tss := (cpu k)\<lparr>r_eip := resume\<rparr>,
           t_state := if t_state c = TASK_RUNNING then TASK_READY else t_state c\<rparr>)))"

lemma schedule_ok:
  assumes inv: "sched_inv k"
  shows "\<exists>k'. schedule resume k = Some k' \<and> sched_inv k' \<and> scheduled resume k k'"
proof -
  let ?n = "round_robin (task_list k) (cur k)"
  obtain c where c: "task_at k (cur k) = Some c" using sched_invD(3) [OF inv] by blast
  have len: "length (task_list k) = 64" "cur k < 64" using sched_invD(1) [OF inv] task_at_bound [OF c] by auto
  have "t_pid c = of_nat (cur k)" using sched_invD(4) [OF inv c] by (simp add: slot_ok_def)
  then have "unat (t_pid c + 1) = cur k + 1" using len(2) by (subst unat_Suc_less) simp_all
  then have sched: "schedule resume k = switch_to resume k ?n"
    using c by (simp add: schedule_def get_current_def schedule_scan_find round_robin_def TASK_NR_def)
  show ?thesis
  proof (cases "?n = cur k")
    case True
    then have "switch_to resume k ?n = Some k" using c len by (simp add: switch_to_def TASK_NR_def)
    then show ?thesis using inv True sched by (simp add: scheduled_def)
  next
    case False
    have "\<exists>t. task_at k ?n = Some t \<and> t_state t = TASK_READY"
    proof (cases "?n = 0")
      case True
      then show ?thesis using sched_invD(2) [OF inv] False by (auto simp: idle_ok_def split: option.splits)
    next
      case False
      then show ?thesis using round_robin_cases [of "task_list k" "cur k"] len
        by (auto simp: runnable_def task_at_def split: option.splits)
    qed
    then obtain t where "task_at k ?n = Some t" "t_state t = TASK_READY" by blast
    from switch_to_ok [OF inv this False, of resume] this show ?thesis
      using False unfolding sched scheduled_def by force
  qed
qed

text \<open>Joining a waiting list with a new state, as \<^verbatim>\<open>task_block\<close> does.\<close>

lemma wait_on_block:
  assumes inv: "sched_inv k" and t: "task_at k n = Some t" "t_node t = None" "n \<noteq> 0" and st: "st \<notin> {TASK_READY, TASK_RUNNING}"
  shows "\<exists>k'. do { k \<leftarrow> wait_on k l n; set_state k n st } = Some k' \<and> sched_inv k' \<and> cur k' = cur k \<and>
     waiting k' = (waiting k)(l := waiting k l @ [n]) \<and> task_at k' n = Some (t\<lparr>t_node := Some l, t_state := st\<rparr>) \<and>
     (\<forall>m. m \<noteq> n \<longrightarrow> task_at k' m = task_at k m)"
proof -
  define t' where "t' = t\<lparr>t_node := Some l, t_state := st\<rparr>"
  define k' where "k' = (put_task k n t')\<lparr>waiting := (waiting k)(l := waiting k l @ [n])\<rparr>"
  have len: "length (task_list k) = 64" "n < 64" using sched_invD(1) [OF inv] task_at_bound [OF t(1)] by auto
  have ok: "slot_ok k n t" using sched_invD(4) [OF inv t(1)] .
  then have fresh: "n \<notin> set (waiting k m)" for m using t(2) by (auto simp: slot_ok_def)
  have run: "do { k \<leftarrow> wait_on k l n; set_state k n st } = Some k'"
    using t len by (simp add: wait_on_def set_state_def k'_def t'_def put_task_def task_at_def)
  have at: "task_at k' m = (if m = n then Some t' else task_at k m)" for m
    using len by (simp add: k'_def)
  have fields: "cur k' = cur k" "waiting k' = (waiting k)(l := waiting k l @ [n])" "length (task_list k') = 64"
    using len by (simp_all add: k'_def)
  have "idle_ok k'" using sched_invD(2) [OF inv] t(3) by (auto simp: idle_ok_def at fields split: option.splits)
  moreover have "slot_ok k' m s" if "task_at k' m = Some s" for m s
    using that ok sched_invD(4) [OF inv, of m s] st fresh
    by (auto simp: at slot_ok_def fields t'_def split: if_splits)
  moreover have "distinct (waiting k' m) \<and> (\<forall>i \<in> set (waiting k' m). task_at k' i \<noteq> None)" for m
    using sched_invD(5,6) [OF inv] fresh by (auto simp: fields at)
  ultimately have "sched_inv k'" using inv unfolding sched_inv_def by (auto simp: fields at)
  then show ?thesis using run at [of n] at by (simp add: fields t'_def)
qed

text \<open>Taking a node out of its list and making its task ready.\<close>

lemma unlink_ready:
  assumes inv: "sched_inv k" and t: "task_at k n = Some t" "t_node t = Some l"
  shows "\<exists>k'. unlink_node k n = Some k' \<and> task_at k' n = Some (t\<lparr>t_node := None\<rparr>) \<and>
     (\<exists>k''. set_state k' n TASK_READY = Some k'' \<and> sched_inv k'' \<and> cur k'' = cur k \<and>
       waiting k'' = (waiting k)(l := remove1 n (waiting k l)) \<and>
       task_at k'' n = Some (t\<lparr>t_node := None, t_state := TASK_READY\<rparr>) \<and>
       (\<forall>m. m \<noteq> n \<longrightarrow> task_at k'' m = task_at k m))"
proof -
  define t' where "t' = t\<lparr>t_node := None, t_state := TASK_READY\<rparr>"
  define k1 where "k1 = (put_task k n (t\<lparr>t_node := None\<rparr>))\<lparr>waiting := (waiting k)(l := remove1 n (waiting k l))\<rparr>"
  define k' where "k' = (put_task k n t')\<lparr>waiting := (waiting k)(l := remove1 n (waiting k l))\<rparr>"
  have len: "length (task_list k) = 64" "n < 64" using sched_invD(1) [OF inv] task_at_bound [OF t(1)] by auto
  have ok: "slot_ok k n t" using sched_invD(4) [OF inv t(1)] .
  have n0: "n \<noteq> 0" using sched_invD(2) [OF inv] t by (intro notI) (auto simp: idle_ok_def)
  have run: "unlink_node k n = Some k1" "set_state k1 n TASK_READY = Some k'" "task_at k1 n = Some (t\<lparr>t_node := None\<rparr>)"
    using t len by (simp_all add: unlink_node_def set_state_def k1_def k'_def t'_def put_task_def task_at_def)
  have at: "task_at k' m = (if m = n then Some t' else task_at k m)" for m
    using len by (simp add: k'_def)
  have fields: "cur k' = cur k" "waiting k' = (waiting k)(l := remove1 n (waiting k l))" "length (task_list k') = 64"
    using len by (simp_all add: k'_def)
  have un: "n \<notin> set (waiting k' m)" for m
  proof (cases "m = l")
    case True
    then show ?thesis using sched_invD(5) [OF inv, of l] by (simp add: fields)
  next
    case False
    then show ?thesis using ok t(2) by (simp add: fields slot_ok_def) metis
  qed
  have "idle_ok k'" using sched_invD(2) [OF inv] n0 by (auto simp: idle_ok_def at fields split: option.splits)
  moreover have "slot_ok k' m s" if "task_at k' m = Some s" for m s
  proof (cases "m = n")
    case True
    then have "s = t'" using that at by simp
    then show ?thesis using True ok un by (simp add: slot_ok_def t'_def fields(1))
  next
    case False
    then show ?thesis
      using that sched_invD(4) [OF inv, of m s] by (auto simp: at slot_ok_def fields)
  qed
  moreover have "distinct (waiting k' m) \<and> (\<forall>i \<in> set (waiting k' m). task_at k' i \<noteq> None)" for m
    using sched_invD(5,6) [OF inv] by (auto simp: fields at dest: set_remove1_subset [THEN subsetD])
  ultimately have "sched_inv k'" using inv unfolding sched_inv_def by (auto simp: fields at)
  then show ?thesis using run at [of n] at by (auto simp: fields t'_def)
qed

lemma intr_unblock_ok:
  assumes inv: "sched_inv k" and t: "task_at k n = Some t"
  shows "\<exists>k'. task_intr_unblock_no_waiting_list k n = Some k' \<and> sched_inv k' \<and> cur k' = cur k \<and>
     task_at k' n = Some (t\<lparr>t_node := None, t_state := TASK_READY\<rparr>) \<and> (\<forall>m. m \<noteq> n \<longrightarrow> task_at k' m = task_at k m)"
proof (cases "t_node t")
  case None
  have "slot_ok k n (t\<lparr>t_state := TASK_READY\<rparr>)" using sched_invD(4) [OF inv t] None by (simp add: slot_ok_def)
  then have "sched_inv (put_task k n (t\<lparr>t_state := TASK_READY\<rparr>))"
    using None by (intro sched_inv_put [OF inv t]) simp_all
  moreover have "t\<lparr>t_node := None, t_state := TASK_READY\<rparr> = t\<lparr>t_state := TASK_READY\<rparr>" using None by simp
  ultimately show ?thesis
    using t None task_at_bound [OF t] by (simp add: task_intr_unblock_no_waiting_list_def set_state_def)
next
  case (Some l)
  from unlink_ready [OF inv t Some] obtain k1 k2 where
    "unlink_node k n = Some k1" "set_state k1 n TASK_READY = Some k2" "sched_inv k2" "cur k2 = cur k"
    "task_at k2 n = Some (t\<lparr>t_node := None, t_state := TASK_READY\<rparr>)" "\<forall>m. m \<noteq> n \<longrightarrow> task_at k2 m = task_at k m"
    by blast
  then show ?thesis using t Some by (simp add: task_intr_unblock_no_waiting_list_def)
qed

lemma round_robin_runnable: "round_robin (task_list k) (cur k) = m \<Longrightarrow> m \<noteq> 0 \<Longrightarrow> sched_inv k \<Longrightarrow>
    \<exists>t. task_at k m = Some t \<and> t_state t = TASK_READY"
  using round_robin_cases [of "task_list k" "cur k"] sched_invD(1) [of k]
  by (auto simp: runnable_def task_at_def split: option.splits)

lemma task_block_ok:
  assumes inv: "sched_inv k" and t: "task_at k (cur k) = Some t" "t_state t = TASK_RUNNING" "cur k \<noteq> 0"
    and st: "st \<notin> {TASK_READY, TASK_RUNNING}"
  shows "\<exists>k'. task_block resume k (cur k) (Some l) st = Some k' \<and> sched_inv k' \<and> cur k' \<noteq> cur k \<and>
      waiting k' l = waiting k l @ [cur k] \<and> (\<exists>s. task_at k' (cur k) = Some s \<and> t_state s = st \<and> t_node s = Some l)"
    and "\<exists>k'. task_block resume k (cur k) None st = Some k' \<and> sched_inv k' \<and> cur k' \<noteq> cur k \<and>
      waiting k' = waiting k \<and> (\<exists>s. task_at k' (cur k) = Some s \<and> t_state s = st \<and> t_node s = None)"
proof -
  have node: "t_node t = None" using sched_invD(4) [OF inv t(1)] t(2) by (auto simp: slot_ok_def)
  have away: "\<exists>k'. schedule resume k1 = Some k' \<and> sched_inv k' \<and> cur k' \<noteq> cur k \<and> waiting k' = waiting k1 \<and>
      (\<exists>s. task_at k' (cur k) = Some s \<and> t_state s = st \<and> t_node s = t_node t1)"
    if k1: "sched_inv k1" "cur k1 = cur k" "task_at k1 (cur k) = Some t1" "t_state t1 = st" for k1 t1
  proof -
    obtain k' where k': "schedule resume k1 = Some k'" "sched_inv k'" "scheduled resume k1 k'"
      using schedule_ok [OF k1(1)] by blast
    have ne: "cur k' \<noteq> cur k"
      using k'(3) k1 round_robin_runnable [of k1 "cur k"] st t(3) by (auto simp: scheduled_def)
    then have "\<exists>s. task_at k' (cur k) = Some s \<and> t_state s = st \<and> t_node s = t_node t1"
      using k'(3) k1 st by (auto simp: scheduled_def)
    then show ?thesis using k' ne by (simp add: scheduled_def)
  qed
  from wait_on_block [OF inv t(1) node t(3) st, of l] obtain k1 where
    k1: "do { j \<leftarrow> wait_on k l (cur k); set_state j (cur k) st } = Some k1" "sched_inv k1" "cur k1 = cur k"
      "waiting k1 = (waiting k)(l := waiting k l @ [cur k])"
      "task_at k1 (cur k) = Some (t\<lparr>t_node := Some l, t_state := st\<rparr>)" by blast
  obtain k0 where k0: "wait_on k l (cur k) = Some k0" using k1(1) by (auto elim: bind_eq_SomeE)
  then have "cur k0 = cur k" using t(1) node by (auto simp: wait_on_def)
  then have run: "task_block resume k (cur k) (Some l) st = schedule resume k1"
    using k0 k1(1,3) by (simp add: task_block_def)
  show "\<exists>k'. task_block resume k (cur k) (Some l) st = Some k' \<and> sched_inv k' \<and> cur k' \<noteq> cur k \<and>
      waiting k' l = waiting k l @ [cur k] \<and> (\<exists>s. task_at k' (cur k) = Some s \<and> t_state s = st \<and> t_node s = Some l)"
    using away [OF k1(2,3,5)] k1(4) unfolding run by auto
  obtain k2 where k2: "set_state k (cur k) st = Some k2" "sched_inv k2" "cur k2 = cur k" "waiting k2 = waiting k"
      "task_at k2 (cur k) = Some (t\<lparr>t_state := st\<rparr>)"
    using set_state_inv [OF inv t(1) t(3), of st] node by auto
  show "\<exists>k'. task_block resume k (cur k) None st = Some k' \<and> sched_inv k' \<and> cur k' \<noteq> cur k \<and>
      waiting k' = waiting k \<and> (\<exists>s. task_at k' (cur k) = Some s \<and> t_state s = st \<and> t_node s = None)"
    using away [OF k2(2,3,5)] k2(1,3,4) node by (auto simp: task_block_def)
qed

lemma task_unblock_ok:
  assumes inv: "sched_inv k" and w: "waiting k l = n # ns"
  shows "\<exists>k'. task_unblock resume k l = Some k' \<and> sched_inv k' \<and> waiting k' l = ns \<and>
     (\<exists>t. task_at k' n = Some t \<and> t_node t = None \<and> (t_state t = TASK_READY \<or> t_state t = TASK_RUNNING \<and> cur k' = n))"
proof -
  obtain t where t: "task_at k n = Some t" using sched_invD(6) [OF inv, of n l] w by auto
  have ok: "slot_ok k n t" using sched_invD(4) [OF inv t] .
  then have node: "t_node t = Some l" using w by (simp add: slot_ok_def)
  from unlink_ready [OF inv t node] obtain k1 k2 where
    k1: "unlink_node k n = Some k1" "task_at k1 n = Some (t\<lparr>t_node := None\<rparr>)" "set_state k1 n TASK_READY = Some k2" and
    k2: "sched_inv k2" "cur k2 = cur k" "waiting k2 = (waiting k)(l := remove1 n (waiting k l))"
      "task_at k2 n = Some (t\<lparr>t_node := None, t_state := TASK_READY\<rparr>)"
    by blast
  obtain k3 where k3: "schedule resume k2 = Some k3" "sched_inv k3" "scheduled resume k2 k3"
    using schedule_ok [OF k2(1)] by blast
  have "task_unblock resume k l = Some k3"
    using w k1 k3(1) ok by (simp add: task_unblock_def slot_ok_def)
  moreover have "waiting k3 l = ns" using k3(3) k2(3) w by (simp add: scheduled_def)
  moreover have "\<exists>t. task_at k3 n = Some t \<and> t_node t = None \<and> (t_state t = TASK_READY \<or> t_state t = TASK_RUNNING \<and> cur k3 = n)"
  proof (cases "cur k3 = cur k2")
    case True
    then have "k3 = k2" using k3(3) by (simp add: scheduled_def)
    then show ?thesis using k2(4) by simp
  next
    case False
    then show ?thesis using k3(3) k2(4) unfolding scheduled_def by (cases "n = cur k3"; cases "n = cur k2") auto
  qed
  ultimately show ?thesis using k3(2) by blast
qed

section \<open>Reachable task tables\<close>

text \<open>The kernel before \<^verbatim>\<open>task_setup\<close>: all slots empty, no waiting list in use.\<close>

definition no_tasks :: kernel where
  "no_tasks = \<lparr>task_list = replicate (unat TASK_NR) None, cur = 0, waiting = (\<lambda>_. []), jiffies = 0, cpu = zero_regs,
     cr3 = 0, tss_esp0 = 0, inode_count = (\<lambda>_. 0), file_count = (\<lambda>_. 0)\<rparr>"

text \<open>
  The calls that change who runs: yielding, blocking the running task with or without a list
  (never the idle task), waking the head of a list, waking one task from an interrupt.
\<close>

inductive task_step :: "u32 \<Rightarrow> kernel \<Rightarrow> kernel \<Rightarrow> bool" for resume where
  yield: "sys_yield resume k = Some k' \<Longrightarrow> task_step resume k k'"
| block: "task_at k (cur k) = Some t \<Longrightarrow> t_state t = TASK_RUNNING \<Longrightarrow> cur k \<noteq> 0 \<Longrightarrow>
    st \<notin> {TASK_READY, TASK_RUNNING} \<Longrightarrow> task_block resume k (cur k) l st = Some k' \<Longrightarrow> task_step resume k k'"
| unblock: "task_unblock resume k l = Some k' \<Longrightarrow> task_step resume k k'"
| intr_unblock: "task_intr_unblock_no_waiting_list k n = Some k' \<Longrightarrow> task_step resume k k'"

inductive task_reach :: "u32 \<Rightarrow> kernel \<Rightarrow> bool" for resume where
  boot: "task_setup no_tasks p0 p1 root idle init = Some k \<Longrightarrow> task_reach resume k"
| step: "task_reach resume k \<Longrightarrow> task_step resume k k' \<Longrightarrow> task_reach resume k'"

lemma boot_inv:
  "\<exists>k. task_setup no_tasks p0 p1 root idle init = Some k \<and> sched_inv k \<and> cur k = 0 \<and>
     (\<exists>t. task_at k 1 = Some t \<and> t_ticks t = 5 \<and> t_state t = TASK_READY \<and> t_node t = None \<and> r_eip (t_tss t) = init \<and>
        r_esp (t_tss t) = p1 + PAGE_SIZE)"
proof -
  define ts where "ts = replicate 62 (None :: task option)"
  have r64: "replicate (unat TASK_NR) (None :: task option) = None # None # ts"
  proof -
    have "unat TASK_NR = Suc (Suc 62)" by (simp add: TASK_NR_def)
    then show ?thesis by (simp only: replicate.simps ts_def)
  qed
  obtain k a b where k: "task_setup no_tasks p0 p1 root idle init = Some k" and
    ks: "task_list k = Some a # Some b # ts" "cur k = 0" "waiting k = (\<lambda>_. [])" and
    a: "t_pid a = 0" "t_magic a = LIGHTOS_MAGIC" "t_pde a = 0" "t_node a = None" "t_state a = TASK_READY" and
    b: "t_pid b = 1" "t_magic b = LIGHTOS_MAGIC" "t_pde b = 0" "t_node b = None" "t_state b = TASK_READY" "t_ticks b = 5"
      "r_eip (t_tss b) = init" "r_esp (t_tss b) = p1 + PAGE_SIZE"
    by (simp add: task_setup_def task_create_def get_free_task_def no_tasks_def r64 put_task_def task_at_def
        zero_task_def Let_def zero_regs_def)
  have at: "task_at k n = (if n = 0 then Some a else if n = 1 then Some b else None)" for n
    by (cases n; cases "n - 1") (auto simp: task_at_def ks ts_def nth_Cons')
  have "sched_inv k"
    using a b by (auto simp: sched_inv_def idle_ok_def slot_ok_def at ks ts_def)
  then show ?thesis using k ks b at by auto
qed

lemma task_step_inv: "task_step resume k k' \<Longrightarrow> sched_inv k \<Longrightarrow> sched_inv k'"
proof (induction rule: task_step.induct)
  case (yield k k')
  then show ?case using schedule_ok [of k resume] by (auto simp: sys_yield_def)
next
  case (block k t st l k')
  note ok = task_block_ok [OF block.prems block.hyps(1-4), of resume]
  show ?case
  proof (cases l)
    case None
    then show ?thesis using ok(2) block.hyps(5) by auto
  next
    case (Some w)
    then show ?thesis using ok(1) [of w] block.hyps(5) by auto
  qed
next
  case (unblock k l k')
  show ?case
  proof (cases "waiting k l")
    case Nil
    then show ?thesis using unblock by (simp add: task_unblock_def)
  next
    case (Cons n ns)
    then show ?thesis using task_unblock_ok [OF unblock.prems Cons, of resume] unblock.hyps by auto
  qed
next
  case (intr_unblock k n k')
  then obtain t where "task_at k n = Some t"
    by (auto simp: task_intr_unblock_no_waiting_list_def elim: bind_eq_SomeE)
  then show ?case using intr_unblock_ok [of k n t] intr_unblock by auto
qed

lemma task_reach_inv: "task_reach resume k \<Longrightarrow> sched_inv k"
proof (induction rule: task_reach.induct)
  case (boot p0 p1 root idle init k)
  then show ?case using boot_inv [of p0 p1 root idle init] by auto
qed (rule task_step_inv)

section \<open>Properties\<close>

text \<open>
  C11. In every task table that blocking, waking and yielding can lead to from \<^verbatim>\<open>task_setup\<close>, the
  table is well-formed and the kernel cannot stop in the scheduler: yielding, waking any list
  and blocking the running task all return.
\<close>

theorem task_table_invariant:
  assumes "task_reach resume k"
  shows "sched_inv k \<and> (\<exists>k'. sys_yield resume k = Some k') \<and> (\<exists>k'. task_unblock resume k l = Some k') \<and>
     (cur k \<noteq> 0 \<and> (\<exists>t. task_at k (cur k) = Some t \<and> t_state t = TASK_RUNNING) \<longrightarrow>
        (\<exists>k'. task_block resume k (cur k) wl TASK_BLOCKED = Some k'))"
proof (intro conjI impI)
  show inv: "sched_inv k" using task_reach_inv [OF assms] .
  show "\<exists>k'. sys_yield resume k = Some k'" using schedule_ok [OF inv] by (auto simp: sys_yield_def)
  show "\<exists>k'. task_unblock resume k l = Some k'"
  proof (cases "waiting k l")
    case Nil
    then show ?thesis by (simp add: task_unblock_def)
  next
    case (Cons n ns)
    then show ?thesis using task_unblock_ok [OF inv Cons, of resume] by blast
  qed
  assume "cur k \<noteq> 0 \<and> (\<exists>t. task_at k (cur k) = Some t \<and> t_state t = TASK_RUNNING)"
  then obtain t where t: "task_at k (cur k) = Some t" "t_state t = TASK_RUNNING" "cur k \<noteq> 0" by blast
  note ok = task_block_ok [OF inv t, of TASK_BLOCKED resume]
  show "\<exists>k'. task_block resume k (cur k) wl TASK_BLOCKED = Some k'"
    using ok(2) ok(1) by (cases wl) blast+
qed

text \<open>The kernel as \<^verbatim>\<open>task_setup\<close> leaves it, with the two pages at fixed addresses.\<close>

definition boot_kernel :: kernel where
  "boot_kernel = the (task_setup no_tasks 0xC0010000 0xC0011000 0 0xC0000100 0xC0000200)"

lemma boot_kernel:
  "task_reach resume boot_kernel" "sched_inv boot_kernel" "cur boot_kernel = 0"
  "\<exists>t. task_at boot_kernel 1 = Some t \<and> t_ticks t = 5 \<and> t_state t = TASK_READY \<and> t_node t = None \<and>
     r_eip (t_tss t) = 0xC0000200 \<and> r_esp (t_tss t) = 0xC0012000"
proof -
  obtain k where k: "task_setup no_tasks 0xC0010000 0xC0011000 0 0xC0000100 0xC0000200 = Some k" "sched_inv k" "cur k = 0"
    "\<exists>t. task_at k 1 = Some t \<and> t_ticks t = 5 \<and> t_state t = TASK_READY \<and> t_node t = None \<and>
       r_eip (t_tss t) = 0xC0000200 \<and> r_esp (t_tss t) = 0xC0011000 + PAGE_SIZE"
    using boot_inv by blast
  then have "boot_kernel = k" by (simp add: boot_kernel_def)
  then show "task_reach resume boot_kernel" "sched_inv boot_kernel" "cur boot_kernel = 0"
    "\<exists>t. task_at boot_kernel 1 = Some t \<and> t_ticks t = 5 \<and> t_state t = TASK_READY \<and> t_node t = None \<and>
     r_eip (t_tss t) = 0xC0000200 \<and> r_esp (t_tss t) = 0xC0012000"
    using k by (auto intro: task_reach.boot simp: PAGE_SIZE_def)
qed

theorem task_table_invariant_witness:
  "sched_inv boot_kernel \<and> (\<exists>k'. sys_yield 0xC0000300 boot_kernel = Some k') \<and>
     (\<exists>k'. task_unblock 0xC0000300 boot_kernel 64 = Some k')"
  using task_table_invariant [OF boot_kernel(1), of "0xC0000300" 64] by blast

text \<open>
  Round robin: in a well-formed table \<open>schedule\<close> returns with the first runnable task after
  the current one in cyclic slot order made current (its registers, page directory and kernel
  stack loaded), and with the idle task when none is runnable.
\<close>

lemma schedule_round_robin:
  assumes "sched_inv k"
  shows "\<exists>k'. schedule resume k = Some k' \<and> sched_inv k' \<and> cur k' = round_robin (task_list k) (cur k) \<and>
     (cur k' \<noteq> cur k \<longrightarrow> (\<exists>t. task_at k (cur k') = Some t \<and> cpu k' = t_tss t \<and>
        task_at k' (cur k') = Some (t\<lparr>t_state := TASK_RUNNING, t_jiffies := jiffies k\<rparr>)))"
  using schedule_ok [OF assms, of resume] by (auto simp: scheduled_def)

lemma schedule_round_robin_witness:
  "\<exists>k'. schedule 0xC0000300 boot_kernel = Some k' \<and> cur k' = 1 \<and> sched_inv k'"
proof -
  obtain t where t: "task_at boot_kernel 1 = Some t" "t_ticks t = 5" "t_state t = TASK_READY" using boot_kernel(4) by blast
  have "runnable (task_list boot_kernel ! 1)" using t by (simp add: task_at_def runnable_def split: if_splits)
  moreover have "[0..<64] = 0 # [1..<64]" by (simp add: upt_rec)
  ultimately have "round_robin (task_list boot_kernel) (cur boot_kernel) = 1"
    by (simp add: round_robin_def boot_kernel(3) del: upt.simps)
  then show ?thesis using schedule_round_robin [OF boot_kernel(2), of "0xC0000300"] by auto
qed

text \<open>
  The saved context of every slot. \<open>switched\<close> is what a scheduling call does to it: nothing when the same task goes on,
  else the registers of the old task are saved under \<open>resume\<close> and those of the new one loaded.
\<close>

definition saved :: "kernel \<Rightarrow> nat \<Rightarrow> regs option" where
  "saved k n = map_option t_tss (task_at k n)"

definition switched :: "u32 \<Rightarrow> kernel \<Rightarrow> kernel \<Rightarrow> bool" where
  "switched resume k k' \<longleftrightarrow>
     (if cur k' = cur k then saved k' = saved k \<and> cpu k' = cpu k
      else saved k' = (saved k)(cur k \<mapsto> (cpu k)\<lparr>r_eip := resume\<rparr>) \<and> saved k (cur k') = Some (cpu k'))"

definition same_context :: "kernel \<Rightarrow> kernel \<Rightarrow> bool" where
  "same_context k k' \<longleftrightarrow> cur k' = cur k \<and> cpu k' = cpu k \<and> saved k' = saved k"

lemma same_context_switched: "same_context k k1 \<Longrightarrow> switched resume k1 k' \<Longrightarrow> switched resume k k'"
  by (auto simp: same_context_def switched_def split: if_splits)

lemma switched_same: "same_context k k' \<Longrightarrow> switched resume k k'"
  by (simp add: same_context_def switched_def)

lemma same_context_trans: "same_context k k1 \<Longrightarrow> same_context k1 k2 \<Longrightarrow> same_context k k2"
  by (simp add: same_context_def)

lemma same_context_refl [simp]: "same_context k k"
  by (simp add: same_context_def)

lemma same_context_put:
  "task_at k n = Some t \<Longrightarrow> t_tss t' = t_tss t \<Longrightarrow> same_context k (put_task k n t')"
  by (auto simp: same_context_def saved_def fun_eq_iff)

lemma same_context_waiting [simp]: "same_context k (k'\<lparr>waiting := w\<rparr>) = same_context k k'"
  by (simp add: same_context_def saved_def task_at_def fun_eq_iff)

lemma switch_to_switched:
  assumes run: "switch_to resume k n = Some k'"
  shows "switched resume k k'"
proof (cases "cur k = n")
  case True
  then have "k' = k" using run by (auto simp: switch_to_def bind_eq_Some_conv split: if_splits)
  then show ?thesis by (simp add: switched_def)
next
  case False
  obtain c where c: "task_at k (cur k) = Some c"
    using run False by (auto simp: switch_to_def get_current_def bind_eq_Some_conv split: if_splits)
  define c' where "c' = (if t_state c = TASK_RUNNING then c\<lparr>t_tss := (cpu k)\<lparr>r_eip := resume\<rparr>, t_state := TASK_READY\<rparr>
      else c\<lparr>t_tss := (cpu k)\<lparr>r_eip := resume\<rparr>\<rparr>)"
  obtain t where t: "task_at k n = Some t"
    using run by (auto simp: switch_to_def bind_eq_Some_conv split: if_splits)
  let ?k1 = "(put_task k (cur k) c')\<lparr>cur := n\<rparr>"
  have at: "task_at ?k1 n = Some t" using t False by (simp add: task_at_def put_task_def split: if_splits)
  have "k' = (put_task (?k1\<lparr>cr3 := t_pde t, tss_esp0 := t_esp0 t\<rparr>) n (t\<lparr>t_state := TASK_RUNNING, t_jiffies := jiffies k\<rparr>))\<lparr>cpu := t_tss t\<rparr>"
    using run False c t at
    by (cases "t_state c = TASK_RUNNING") (auto simp: switch_to_def get_current_def c'_def Let_def put_task_def split: if_splits)
  then show ?thesis
    using False t task_at_bound [OF t] task_at_bound [OF c]
    by (auto simp: switched_def saved_def put_task_def task_at_def nth_list_update fun_eq_iff c'_def)
qed

lemma set_state_same: "set_state k n st = Some k' \<Longrightarrow> same_context k k'"
  unfolding set_state_def by (auto simp: bind_eq_Some_conv intro!: same_context_put)

lemma wait_on_same: "wait_on k l n = Some k' \<Longrightarrow> same_context k k'"
  unfolding wait_on_def by (auto simp: bind_eq_Some_conv intro!: same_context_put split: if_splits)

lemma unlink_node_same: "unlink_node k n = Some k' \<Longrightarrow> same_context k k'"
  unfolding unlink_node_def by (auto simp: bind_eq_Some_conv intro!: same_context_put)

lemma intr_unblock_same: "task_intr_unblock_no_waiting_list k n = Some k' \<Longrightarrow> same_context k k'"
  unfolding task_intr_unblock_no_waiting_list_def
  by (auto simp: bind_eq_Some_conv split: if_splits dest!: unlink_node_same set_state_same intro: same_context_trans)

lemma schedule_switched: "schedule resume k = Some k' \<Longrightarrow> switched resume k k'"
  unfolding schedule_def by (auto simp: Let_def bind_eq_Some_conv intro: switch_to_switched)

lemma task_block_switched: "task_block resume k n wl st = Some k' \<Longrightarrow> switched resume k k'"
  unfolding task_block_def
  by (auto simp: bind_eq_Some_conv split: option.splits if_splits dest!: set_state_same wait_on_same schedule_switched
      intro: same_context_switched same_context_trans switched_same)

lemma task_unblock_switched: "task_unblock resume k l = Some k' \<Longrightarrow> switched resume k k'"
  unfolding task_unblock_def
  by (auto simp: bind_eq_Some_conv split: list.splits if_splits dest!: set_state_same unlink_node_same schedule_switched
      intro: same_context_switched same_context_trans switched_same)

lemma task_step_switched: "task_step resume k k' \<Longrightarrow> switched resume k k'"
  by (induction rule: task_step.induct)
    (auto simp: sys_yield_def intro: schedule_switched task_block_switched task_unblock_switched switched_same intr_unblock_same)

text \<open>
  Anything that may happen to the table while a task is away: the current task computes (any
  register changes), a scheduling call, the accounting of the clock interrupt, and the other
  operations of this theory on sessions, groups, files, children and new tasks.
\<close>

inductive os_step :: "u32 \<Rightarrow> kernel \<Rightarrow> kernel \<Rightarrow> bool" for resume where
  compute: "os_step resume k (k\<lparr>cpu := r\<rparr>)"
| sched: "task_step resume k k' \<Longrightarrow> os_step resume k k'"
| tick: "get_current k = Some t \<Longrightarrow>
    os_step resume k (put_task (k\<lparr>jiffies := j\<rparr>) (cur k) (t\<lparr>t_jiffies := j, t_ticks := x\<rparr>))"
| setsid: "sys_setsid k = Some (r, k') \<Longrightarrow> os_step resume k k'"
| setpgid: "sys_setpgid k pid pgid = Some (r, k') \<Longrightarrow> os_step resume k k'"
| put_fd: "task_put_fd k n fd = Some k' \<Longrightarrow> os_step resume k k'"
| create: "task_create k page root eip nm prio uid = Some (r, k') \<Longrightarrow> os_step resume k k'"
| wait: "sys_waitpid resume k pid = Some (W_blocked k') \<Longrightarrow> os_step resume k k'"
| reap: "sys_waitpid resume k pid = Some (W_reaped st r k') \<Longrightarrow> os_step resume k k'"
| tell_father: "task_tell_father k t = Some k' \<Longrightarrow> os_step resume k k'"
| hangup: "os_step resume k (exit_hangup k t)"
| reparent: "exit_reparent k t is = Some k' \<Longrightarrow> os_step resume k k'"

text \<open>A run during which task \<open>n\<close> exists and is never current.\<close>

inductive away :: "u32 \<Rightarrow> nat \<Rightarrow> kernel \<Rightarrow> kernel \<Rightarrow> bool" for resume n where
  leave: "cur k \<noteq> n \<Longrightarrow> away resume n k k"
| go_on: "away resume n k k1 \<Longrightarrow> os_step resume k1 k2 \<Longrightarrow> cur k2 \<noteq> n \<Longrightarrow> task_at k2 n \<noteq> None \<Longrightarrow> away resume n k k2"

lemma switched_kept: "switched resume k k' \<Longrightarrow> n \<noteq> cur k \<Longrightarrow> saved k' n = saved k n"
  by (auto simp: switched_def split: if_splits)

lemma exit_reparent_same: "exit_reparent k t is = Some k' \<Longrightarrow> same_context k k'"
proof (induction k t "is" rule: exit_reparent.induct)
  case (2 k t i "is")
  show ?case
  proof (cases "task_at k i")
    case (Some tk)
    consider (child) "t_ppid tk = t_pid t" | (waiter) "t_ppid tk \<noteq> t_pid t" "t_waitpid tk = t_pid t"
      | (other) "t_ppid tk \<noteq> t_pid t" "t_waitpid tk \<noteq> t_pid t" by blast
    then show ?thesis
    proof cases
      case child
      have "same_context k (put_task k i (tk\<lparr>t_ppid := t_ppid t\<rparr>))" by (rule same_context_put [OF Some]) simp
      then show ?thesis using 2 Some child by (auto intro: same_context_trans)
    next
      case waiter
      then obtain k1 tk1 where k1: "(if t_state tk = TASK_WAITING then task_intr_unblock_no_waiting_list k i else Some k) = Some k1"
          "task_at k1 i = Some tk1" "exit_reparent (put_task k1 i (tk1\<lparr>t_waitpid := 0\<rparr>)) t is = Some k'"
        using 2(5) Some by (auto simp: bind_eq_Some_conv)
      have "same_context k k1" using k1(1) intr_unblock_same by (auto split: if_splits)
      moreover have "same_context k1 (put_task k1 i (tk1\<lparr>t_waitpid := 0\<rparr>))" by (rule same_context_put [OF k1(2)]) simp
      moreover have "same_context (put_task k1 i (tk1\<lparr>t_waitpid := 0\<rparr>)) k'" by (rule 2(3) [OF Some waiter k1])
      ultimately show ?thesis using same_context_trans by blast
    next
      case other
      then show ?thesis using 2 Some by auto
    qed
  qed (use 2 in simp)
qed simp

lemma process_calls_same:
  "sys_setsid k = Some (r, k') \<Longrightarrow> same_context k k'"
  "sys_setpgid k pid pgid = Some (r, k') \<Longrightarrow> same_context k k'"
  "task_put_fd k n fd = Some k' \<Longrightarrow> same_context k k'"
  "task_tell_father k t = Some k' \<Longrightarrow> same_context k k'"
  "same_context k (exit_hangup k t)"
  by (auto simp: sys_setsid_def sys_setpgid_def task_put_fd_def task_tell_father_def get_current_def bind_eq_Some_conv Let_def
      split: if_splits option.splits intro!: same_context_put)
    (auto simp: exit_hangup_def same_context_def saved_def task_at_def fun_eq_iff option.map_comp comp_def
      intro!: option.map_cong0)

lemma free_slot_from_None: "free_slot_from ts j = Some i \<Longrightarrow> j \<le> i \<and> i < j + length ts \<and> ts ! (i - j) = None"
  by (induction ts j rule: free_slot_from.induct) (auto simp: nth_Cons' Suc_diff_le)

lemma create_kept:
  assumes "task_create k page root eip nm prio uid = Some (r, k')" "saved k n \<noteq> None"
  shows "saved k' n = saved k n"
proof -
  obtain i where i: "free_slot_from (task_list k) 0 = Some i" "\<forall>m. m \<noteq> i \<longrightarrow> saved k' m = saved k m"
    using assms(1)
    by (auto simp: task_create_def get_free_task_def bind_eq_Some_conv Let_def saved_def task_at_def put_task_def)
  then have "task_at k i = None" using free_slot_from_None [OF i(1)] by (simp add: task_at_def)
  then show ?thesis using i(2) assms(2) by (cases "n = i") (auto simp: saved_def)
qed

lemma waitpid_kept:
  assumes "sys_waitpid resume k pid = Some (W_blocked k')" "n \<noteq> cur k"
  shows "saved k' n = saved k n"
proof -
  obtain t where t: "task_at k (cur k) = Some t"
      "task_block resume (put_task k (cur k) (t\<lparr>t_waitpid := pid\<rparr>)) (cur k) None TASK_WAITING = Some k'"
    using assms(1) by (auto simp: sys_waitpid_def get_current_def bind_eq_Some_conv split: option.splits if_splits)
  then have "switched resume k k'"
    using same_context_switched [OF same_context_put [OF t(1)] task_block_switched [OF t(2)]] by simp
  then show ?thesis using assms(2) by (rule switched_kept)
qed

lemma waitpid_reaped:
  assumes "sys_waitpid resume k pid = Some (W_reaped st r k')"
  shows "\<exists>m. k' = k\<lparr>task_list := (task_list k)[m := None]\<rparr>"
proof -
  obtain t where t: "get_current k = Some t" using assms by (auto simp: sys_waitpid_def bind_eq_Some_conv)
  show ?thesis
  proof (cases "child_from (drop 2 (task_list k)) 2 (t_pid t)")
    case (Some p)
    then show ?thesis using assms t
      by (cases p) (auto simp: sys_waitpid_def bind_eq_Some_conv split: if_splits)
  qed (use assms t in \<open>simp add: sys_waitpid_def\<close>)
qed

lemma os_step_kept:
  assumes "os_step resume k k'" "n \<noteq> cur k" "saved k n \<noteq> None" "saved k' n \<noteq> None"
  shows "saved k' n = saved k n"
  using assms
proof (induction rule: os_step.induct)
  case (sched k k')
  then show ?case by (intro switched_kept task_step_switched)
next
  case (create k page root eip nm prio uid r k')
  then show ?case by (intro create_kept)
next
  case (wait k pid k')
  then show ?case by (intro waitpid_kept)
next
  case (reparent k t "is" k')
  then show ?case using exit_reparent_same by (simp add: same_context_def)
next
  case (reap k pid st r k')
  obtain m where "k' = k\<lparr>task_list := (task_list k)[m := None]\<rparr>" using waitpid_reaped [OF reap(1)] by blast
  then show ?case using reap by (cases "n = m") (auto simp: saved_def task_at_def split: if_splits)
next
  case (hangup k t)
  then show ?case using process_calls_same(5) [of k t] by (simp add: same_context_def)
next
  case (setsid k r k')
  then show ?case using process_calls_same(1) by (simp add: same_context_def)
next
  case (setpgid k pid pgid r k')
  then show ?case using process_calls_same(2) by (simp add: same_context_def)
next
  case (put_fd k m fd k')
  then show ?case using process_calls_same(3) by (simp add: same_context_def)
next
  case (tell_father k t k')
  then show ?case using process_calls_same(4) by (simp add: same_context_def)
qed (auto simp: saved_def task_at_def put_task_def)

lemma away_kept:
  "away resume n k k' \<Longrightarrow> saved k n \<noteq> None \<Longrightarrow> cur k' \<noteq> n \<and> saved k' n = saved k n"
proof (induction rule: away.induct)
  case (go_on k k1 k2)
  then have "saved k1 n \<noteq> None" "n \<noteq> cur k1" "saved k2 n \<noteq> None" by (auto simp: saved_def)
  then have "saved k2 n = saved k1 n" by (intro os_step_kept [OF go_on.hyps(2)])
  then show ?case using go_on by simp
qed simp

text \<open>
  C20. A context switch is transparent: a task that a yield, a block or a wake-up switches away
  from, and that a later scheduling call switches to again, finds the registers as it left them,
  apart from the instruction pointer, which is the resume point; whatever the other tasks compute
  and whatever calls they make in between, as long as the task is not removed from the table.
\<close>

theorem switch_to_restores_context:
  assumes "task_step resume k k1" "cur k1 \<noteq> cur k"
    and "away resume (cur k) k1 k2"
    and "task_step resume k2 k3" "cur k3 = cur k"
  shows "cpu k3 = (cpu k)\<lparr>r_eip := resume\<rparr>"
proof -
  have out: "saved k1 (cur k) = Some ((cpu k)\<lparr>r_eip := resume\<rparr>)"
    using task_step_switched [OF assms(1)] assms(2) by (simp add: switched_def)
  have "saved k2 (cur k) = saved k1 (cur k)" "cur k2 \<noteq> cur k"
    using away_kept [OF assms(3)] out by simp_all
  then show ?thesis
    using task_step_switched [OF assms(4)] assms(5) out by (auto simp: switched_def)
qed

text \<open>
  The idle task of the booted kernel yields to task 1, which computes, starts a session and blocks on a list; the idle
  task goes on.
\<close>

lemma boot_away:
  "case sys_yield 0xC0000300 boot_kernel of None \<Rightarrow> False
   | Some k1 \<Rightarrow> cur k1 = 1 \<and> (case sys_setsid (k1\<lparr>cpu := zero_regs\<lparr>r_eax := 5\<rparr>\<rparr>) of None \<Rightarrow> False
       | Some (r, k2) \<Rightarrow> cur k2 = 1 \<and> task_at k2 0 \<noteq> None \<and> map_option t_state (task_at k2 1) = Some TASK_RUNNING \<and>
           map_option cur (task_block 0xC0000300 k2 1 (Some 64) TASK_BLOCKED) = Some 0)"
  by code_simp

theorem switch_to_restores_context_witness:
  "\<exists>k1 k2 k3. sys_yield 0xC0000300 boot_kernel = Some k1 \<and> away 0xC0000300 0 k1 k2 \<and> cpu k2 \<noteq> cpu k1 \<and>
     task_block 0xC0000300 k2 1 (Some 64) TASK_BLOCKED = Some k3 \<and> cpu k3 = (cpu boot_kernel)\<lparr>r_eip := 0xC0000300\<rparr>"
proof -
  let ?r = "0xC0000300 :: u32"
  obtain k1 where k1: "sys_yield ?r boot_kernel = Some k1" "cur k1 = 1"
    using boot_away by (auto split: option.splits)
  let ?k = "k1\<lparr>cpu := zero_regs\<lparr>r_eax := 5\<rparr>\<rparr>"
  obtain x k2 where k2: "sys_setsid ?k = Some (x, k2)" "cur k2 = 1" "task_at k2 0 \<noteq> None"
      "map_option t_state (task_at k2 1) = Some TASK_RUNNING" "map_option cur (task_block ?r k2 1 (Some 64) TASK_BLOCKED) = Some 0"
    using boot_away k1 by (auto split: option.splits prod.splits)
  obtain t k3 where k3: "task_at k2 1 = Some t" "t_state t = TASK_RUNNING" "task_block ?r k2 1 (Some 64) TASK_BLOCKED = Some k3" "cur k3 = 0"
    using k2(4,5) by auto
  have "cur boot_kernel = 0" by (rule boot_kernel(3))
  have same: "same_context ?k k2" by (rule process_calls_same(1) [OF k2(1)])
  have "switched ?r boot_kernel k1" using k1(1) by (simp add: sys_yield_def schedule_switched)
  then have "saved boot_kernel 1 = Some (cpu k1)" "saved k1 0 \<noteq> None" using k1(2) boot_kernel(3) by (auto simp: switched_def)
  then have "r_eip (cpu k1) = 0xC0000200" "task_at ?k 0 \<noteq> None"
    using boot_kernel(4) by (auto simp: saved_def task_at_def)
  moreover have "r_eip (cpu k2) = 0" using same by (simp add: same_context_def zero_regs_def)
  ultimately have diff: "cpu k2 \<noteq> cpu k1" by auto
  have "away ?r 0 k1 k1" by (rule away.leave) (simp add: k1)
  then have "away ?r 0 k1 ?k" by (rule away.go_on [OF _ os_step.compute]) (use k1(2) \<open>task_at ?k 0 \<noteq> None\<close> in simp_all)
  then have aw: "away ?r 0 k1 k2" by (rule away.go_on [OF _ os_step.setsid [OF k2(1)]]) (use k2 in simp_all)
  have "task_step ?r k2 k3" using task_step.block [of k2 t TASK_BLOCKED ?r "Some 64" k3] k3 k2(2) by simp
  then have "cpu k3 = (cpu boot_kernel)\<lparr>r_eip := ?r\<rparr>"
    using switch_to_restores_context [OF task_step.yield [OF k1(1)] _ _ \<open>task_step ?r k2 k3\<close>] aw k1(2) k3(4) boot_kernel(3) by simp
  then show ?thesis using k1(1) aw diff k3(3) by blast
qed

text \<open>
  Waiting lists are first in, first out: \<open>task_unblock\<close> takes the oldest waiter off, leaves
  the others in order, and the woken task is in no list and ready, or already running.
\<close>

lemma task_unblock_oldest:
  assumes "sched_inv k" "waiting k l = n # ns"
  shows "\<exists>k'. task_unblock resume k l = Some k' \<and> sched_inv k' \<and> waiting k' l = ns \<and>
     (\<exists>t. task_at k' n = Some t \<and> t_node t = None \<and> (t_state t = TASK_READY \<or> t_state t = TASK_RUNNING \<and> cur k' = n))"
  by (rule task_unblock_ok [OF assms])

lemma task_unblock_oldest_witness:
  "\<exists>k k'. waiting k 64 = [1] \<and> task_unblock 0xC0000300 k 64 = Some k' \<and> sched_inv k' \<and> waiting k' 64 = []"
proof -
  obtain t where t: "task_at boot_kernel 1 = Some t" "t_node t = None" using boot_kernel(4) by blast
  obtain k where k: "sched_inv k" "waiting k = (waiting boot_kernel)(64 := waiting boot_kernel 64 @ [1])"
    using wait_on_block [OF boot_kernel(2) t, of TASK_BLOCKED 64] by auto
  have "waiting boot_kernel 64 = []"
  proof -
    obtain k where "task_setup no_tasks 0xC0010000 0xC0011000 0 0xC0000100 0xC0000200 = Some k" using boot_inv by blast
    then show ?thesis
      by (auto simp: boot_kernel_def task_setup_def task_create_def get_free_task_def put_task_def Let_def no_tasks_def
          elim!: bind_eq_SomeE)
  qed
  then have w: "waiting k 64 = [1]" using k(2) by simp
  show ?thesis using task_unblock_oldest [OF k(1) w, of "0xC0000300"] w by blast
qed

text \<open>
  \<^verbatim>\<open>waitpid\<close> takes any child: the pid argument has no influence on which dead child is reaped,
  and reaping clears exactly the slot of the first child in table order.
\<close>

lemma waitpid_ignores_pid:
  assumes "get_current k = Some t" "child_from (drop 2 (task_list k)) 2 (t_pid t) = Some (i, child)"
    and "t_state child = TASK_DEAD"
  shows "sys_waitpid resume k pid = Some (W_reaped (t_status child) (t_pid child)
     (k\<lparr>task_list := (task_list k)[unat (t_pid child) := None]\<rparr>))"
  using assms by (simp add: sys_waitpid_def)

lemma waitpid_ignores_pid_witness:
  "\<exists>k. sys_waitpid 0 k 7 = Some (W_reaped 3 2 (k\<lparr>task_list := (task_list k)[unat (2 :: u32) := None]\<rparr>))"
proof -
  let ?p = "(zero_task 0)\<lparr>t_pid := 5\<rparr>"
  let ?c = "(zero_task 0)\<lparr>t_pid := 2, t_ppid := 5, t_state := TASK_DEAD, t_status := 3\<rparr>"
  let ?k = "no_tasks\<lparr>task_list := [None, None, Some ?c, None, None, Some ?p], cur := 5\<rparr>"
  have "sys_waitpid 0 ?k 7 = Some (W_reaped (t_status ?c) (t_pid ?c) (?k\<lparr>task_list := (task_list ?k)[unat (t_pid ?c) := None]\<rparr>))"
    by (rule waitpid_ignores_pid [where t = "?p" and i = 2]) (simp_all add: get_current_def task_at_def zero_task_def)
  then show ?thesis by (intro exI [of _ ?k]) simp
qed

end
