(* ===== verification/Signal.thy ===== *)
theory Signal
  imports Task
begin

text \<open>
  \<^verbatim>\<open>src/kernel/signal.c\<close> and the user-mode return path \<^verbatim>\<open>src/lib/restorer.asm\<close>: masks, handlers,
  sending a signal, and its delivery when a task leaves the kernel. Delivery builds a frame on
  the user stack and redirects the interrupt frame; the restorer unwinds it. The user stack is
  in the memory \<open>m\<close> of the current address space.

  Shown: pending signals are delivered lowest number first and at most once; the frame and the
  restorer together give the interrupted program its registers back; without \<^verbatim>\<open>SIG_NOMASK\<close> the
  mask added for the handler is never taken away again.
\<close>

section \<open>Definitions\<close>

definition SIG_NOMASK :: u32 where "SIG_NOMASK = 0x40000000"
definition SIG_ONESHOT :: u32 where "SIG_ONESHOT = 0x80000000"
definition SIG_DFL :: u32 where "SIG_DFL = 0"
definition SIG_IGN :: u32 where "SIG_IGN = 1"
definition SIGKILL :: nat where "SIGKILL = 9"
definition SIGINT :: nat where "SIGINT = 2"

definition valid_sig :: "u32 \<Rightarrow> bool" where
  "valid_sig sig \<longleftrightarrow> 1 \<le> sint sig \<and> sint sig \<le> int MAXSIG"

definition sys_sgetmask :: "kernel \<Rightarrow> u32 option" where
  "sys_sgetmask k = do { t \<leftarrow> get_current k; Some (t_blocked t) }"

definition sys_ssetmask :: "kernel \<Rightarrow> u32 \<Rightarrow> (u32 \<times> kernel) option" where
  "sys_ssetmask k newmask =
     (if newmask = EOF then Some (- EPERM, k)
      else do {
        t \<leftarrow> get_current k;
        let old = t_blocked t;
        Some (old, put_task k (cur k) (t\<lparr>t_blocked := newmask AND NOT (SIGMASK SIGKILL)\<rparr>)) })"

definition sys_signal :: "kernel \<Rightarrow> u32 \<Rightarrow> u32 \<Rightarrow> u32 \<Rightarrow> (u32 \<times> kernel) option" where
  "sys_signal k sig handler restorer =
     (if \<not> valid_sig sig \<or> unat sig = SIGKILL then Some (EOF, k)
      else do {
        t \<leftarrow> get_current k;
        acts \<leftarrow> aset (t_actions t) (unat sig - 1)
          \<lparr>sa_handler = handler, sa_mask = 0, sa_flags = SIG_ONESHOT OR SIG_NOMASK, sa_restorer = restorer\<rparr>;
        Some (handler, put_task k (cur k) (t\<lparr>t_actions := acts\<rparr>)) })"

text \<open>The old action is also the value stored through \<^verbatim>\<open>oldaction\<close> when that is not null.\<close>

definition sys_sigaction :: "kernel \<Rightarrow> u32 \<Rightarrow> sigaction \<Rightarrow> (u32 \<times> sigaction option \<times> kernel) option" where
  "sys_sigaction k sig action =
     (if \<not> valid_sig sig \<or> unat sig = SIGKILL then Some (EOF, None, k)
      else do {
        t \<leftarrow> get_current k;
        old \<leftarrow> aget (t_actions t) (unat sig - 1);
        let new = (if sa_flags action AND SIG_NOMASK \<noteq> 0 then action\<lparr>sa_mask := 0\<rparr>
                   else action\<lparr>sa_mask := sa_mask action OR SIGMASK (unat sig)\<rparr>);
        acts \<leftarrow> aset (t_actions t) (unat sig - 1) new;
        Some (0, Some old, put_task k (cur k) (t\<lparr>t_actions := acts\<rparr>)) })"

definition sys_kill :: "kernel \<Rightarrow> u32 \<Rightarrow> u32 \<Rightarrow> (u32 \<times> kernel) option" where
  "sys_kill k pid sig =
     (if \<not> valid_sig sig then Some (EOF, k)
      else case get_task k pid of
        None \<Rightarrow> Some (EOF, k)
      | Some n \<Rightarrow> do {
          t \<leftarrow> task_at k n;
          if t_pid t = 1 \<or> t_uid t = KERNEL_RING0 then Some (EOF, k)
          else do {
            let k = put_task k n (t\<lparr>t_signal := t_signal t OR SIGMASK (unat sig)\<rparr>);
            k \<leftarrow> (if t_state t = TASK_WAITING \<or> t_state t = TASK_SLEEPING
                  then task_intr_unblock_no_waiting_list k n else Some k);
            Some (0, k) } })"

text \<open>The search of \<^verbatim>\<open>task_signal\<close> for the lowest pending signal, from \<open>sig\<close> with \<open>n\<close> numbers left.\<close>

fun first_signal :: "u32 \<Rightarrow> nat \<Rightarrow> nat \<Rightarrow> nat" where
  "first_signal pending sig 0 = sig"
| "first_signal pending sig (Suc n) =
     (if pending AND SIGMASK sig \<noteq> 0 then sig else first_signal pending (Suc sig) n)"

text \<open>
  What becomes of the task on its way out of the kernel: nothing pending; the signal is
  dropped; \<^verbatim>\<open>sys_exit\<close> is called with this status and does not return; the handler will run.
\<close>

datatype delivery = D_none | D_ignored | D_exit u32 | D_handler

text \<open>The signal frame: \<^verbatim>\<open>restorer, sig, blocked, eax, ecx, edx, eflags, eip\<close>, 32 bytes.\<close>

definition write_sig_frame :: "mem \<Rightarrow> u32 \<Rightarrow> intr_frame \<Rightarrow> u32 \<Rightarrow> u32 \<Rightarrow> u32 \<Rightarrow> mem" where
  "write_sig_frame m f r blocked sig restorer =
     (let m = poke32 m (f + 28) (if_eip r);
          m = poke32 m (f + 24) (if_eflags r);
          m = poke32 m (f + 20) (if_edx r);
          m = poke32 m (f + 16) (if_ecx r);
          m = poke32 m (f + 12) (if_eax r);
          m = poke32 m (f + 8) blocked;
          m = poke32 m (f + 4) sig
      in poke32 m f restorer)"

text \<open>Redirecting the task into its handler: the last part of \<^verbatim>\<open>task_signal\<close>.\<close>

definition enter_handler :: "task \<Rightarrow> mem \<Rightarrow> nat \<Rightarrow> sigaction \<Rightarrow> task \<times> mem" where
  "enter_handler t m sig action =
     (let r = t_iframe t;
          f = if_esp r - 32;
          blocked = (if sa_flags action AND SIG_NOMASK \<noteq> 0 then t_blocked t else EOF);
          m = write_sig_frame m f r blocked (of_nat sig) (sa_restorer action);
          t = t\<lparr>t_iframe := r\<lparr>if_esp := f, if_eip := sa_handler action\<rparr>\<rparr>;
          t = (if sa_flags action AND SIG_ONESHOT \<noteq> 0
               then t\<lparr>t_actions := (t_actions t)[sig - 1 := action\<lparr>sa_handler := SIG_DFL\<rparr>]\<rparr> else t);
          t = t\<lparr>t_blocked := t_blocked t OR sa_mask action\<rparr>
      in (t, m))"

definition task_signal :: "kernel \<Rightarrow> mem \<Rightarrow> (delivery \<times> kernel \<times> mem) option" where
  "task_signal k m = do {
     t \<leftarrow> get_current k;
     let pending = t_signal t AND NOT (t_blocked t);
     if pending = 0 then Some (D_none, k, m)
     else do {
       kassert (t_uid t \<noteq> 0);
       let sig = first_signal pending 1 MAXSIG;
       let t = (if sig \<le> MAXSIG then t\<lparr>t_signal := t_signal t AND NOT (SIGMASK sig)\<rparr> else t);
       let k = put_task k (cur k) t;
       action \<leftarrow> aget (t_actions t) (sig - 1);
       if sa_handler action = SIG_IGN then Some (D_ignored, k, m)
       else if sa_handler action = SIG_DFL \<and> sig = SIGCHLD then Some (D_ignored, k, m)
       else if sa_handler action = SIG_DFL then Some (D_exit (SIGMASK sig), k, m)
       else do {
         let (t, m) = enter_handler t m sig action;
         Some (D_handler, put_task k (cur k) t, m) } } }"

text \<open>
  The return of a handler pops the restorer's address; the restorer drops the signal number,
  passes the saved mask to \<^verbatim>\<open>ssetmask\<close>, and pops the registers. \<open>r\<close> are the user registers.
\<close>

definition handler_return :: "mem \<Rightarrow> intr_frame \<Rightarrow> intr_frame" where
  "handler_return m r = r\<lparr>if_eip := peek32 m (if_esp r), if_esp := if_esp r + 4\<rparr>"

definition restorer :: "kernel \<Rightarrow> mem \<Rightarrow> intr_frame \<Rightarrow> (kernel \<times> intr_frame) option" where
  "restorer k m r = do {
     let r = r\<lparr>if_esp := if_esp r + 4\<rparr>;
     (ret, k) \<leftarrow> sys_ssetmask k (peek32 m (if_esp r));
     let r = r\<lparr>if_eax := ret\<rparr>;
     let r = r\<lparr>if_esp := if_esp r + 4\<rparr>;
     let r = r\<lparr>if_eax := peek32 m (if_esp r), if_esp := if_esp r + 4\<rparr>;
     let r = r\<lparr>if_ecx := peek32 m (if_esp r), if_esp := if_esp r + 4\<rparr>;
     let r = r\<lparr>if_edx := peek32 m (if_esp r), if_esp := if_esp r + 4\<rparr>;
     let r = r\<lparr>if_eflags := peek32 m (if_esp r), if_esp := if_esp r + 4\<rparr>;
     let r = r\<lparr>if_eip := peek32 m (if_esp r), if_esp := if_esp r + 4\<rparr>;
     Some (k, r) }"

section \<open>Which signal is delivered\<close>

lemma mask_and: "w AND SIGMASK sig \<noteq> 0 \<longleftrightarrow> bit w (sig - 1)"
  by (simp add: SIGMASK_def bit_iff_and_push_bit_not_eq_0)

lemma first_signal_least:
  "sig' \<in> {sig..<sig + n} \<Longrightarrow> pending AND SIGMASK sig' \<noteq> 0 \<Longrightarrow>
   first_signal pending sig n \<in> {sig..sig'} \<and> pending AND SIGMASK (first_signal pending sig n) \<noteq> 0 \<and>
   (\<forall>i \<in> {sig..<first_signal pending sig n}. pending AND SIGMASK i = 0)"
proof (induction n arbitrary: sig)
  case (Suc n)
  show ?case
  proof (cases "pending AND SIGMASK sig \<noteq> 0")
    case True
    then show ?thesis using Suc.prems by simp
  next
    case False
    then have "sig' \<noteq> sig" using Suc.prems(2) by auto
    then have "sig' \<in> {Suc sig..<Suc sig + n}" using Suc.prems(1) by auto
    from Suc.IH [OF this Suc.prems(2)] False show ?thesis
      by (auto simp: le_less_Suc_eq Suc_le_eq dest: le_neq_implies_less)
  qed
qed simp

text \<open>Signals are numbered 1 to 31, so the top bit of the pending set is never set.\<close>

lemma pending_signal:
  assumes "pending \<noteq> 0" "\<not> bit pending 31"
  shows "\<exists>sig \<in> {1..<1 + MAXSIG}. pending AND SIGMASK sig \<noteq> 0"
proof -
  obtain n where n: "bit pending n" using assms(1) by (auto simp: bit_eq_iff)
  then have "n < 32" using bit_imp_le_length [of pending n] by simp
  moreover have "n \<noteq> 31" using n assms(2) by auto
  ultimately have "n < 31" by simp
  then show ?thesis using n by (intro bexI [of _ "Suc n"]) (simp_all add: mask_and MAXSIG_def)
qed

definition pending_of :: "task \<Rightarrow> u32" where
  "pending_of t = t_signal t AND NOT (t_blocked t)"

lemma chosen_signal:
  assumes "pending_of t \<noteq> 0" "\<not> bit (t_signal t) 31"
  defines "sig \<equiv> first_signal (pending_of t) 1 MAXSIG"
  shows "1 \<le> sig" "sig \<le> 31" "pending_of t AND SIGMASK sig \<noteq> 0" "\<forall>i \<in> {1..<sig}. pending_of t AND SIGMASK i = 0"
proof -
  have "\<not> bit (pending_of t) 31" using assms(2) by (simp add: pending_of_def bit_simps)
  then obtain s where "s \<in> {1..<1 + MAXSIG}" "pending_of t AND SIGMASK s \<noteq> 0" using pending_signal [OF assms(1)] by blast
  from first_signal_least [OF this] this(1)
  show "1 \<le> sig" "sig \<le> 31" "pending_of t AND SIGMASK sig \<noteq> 0" "\<forall>i \<in> {1..<sig}. pending_of t AND SIGMASK i = 0"
    by (auto simp: sig_def MAXSIG_def)
qed

lemma get_current_put: "get_current k = Some t \<Longrightarrow> get_current (put_task k (cur k) t') = Some t'"
  using task_at_bound [of k "cur k" t] by (simp add: get_current_def)

section \<open>Frame and restorer\<close>

lemma frame_words:
  defines "m' m f r b sg rs \<equiv> write_sig_frame m f r b sg rs"
  shows "peek32 (m' m f r b sg rs) f = rs" "peek32 (m' m f r b sg rs) (f + 4) = sg"
    "peek32 (m' m f r b sg rs) (f + 8) = b" "peek32 (m' m f r b sg rs) (f + 12) = if_eax r"
    "peek32 (m' m f r b sg rs) (f + 16) = if_ecx r" "peek32 (m' m f r b sg rs) (f + 20) = if_edx r"
    "peek32 (m' m f r b sg rs) (f + 24) = if_eflags r" "peek32 (m' m f r b sg rs) (f + 28) = if_eip r"
  unfolding m'_def write_sig_frame_def Let_def
  by (simp_all add: peek32_poke32_other word_le_nat_alt)

section \<open>Properties\<close>

text \<open>
  A pending, unblocked signal of a user task is delivered on the way out of the kernel: the
  one with the lowest number, which is no longer pending afterwards; the default action exits
  with its mask as status (SIGCHLD is dropped), an ignored signal is dropped, and otherwise the
  task continues in its handler on a frame 32 bytes below its stack pointer.
\<close>

lemma task_signal_delivers_lowest:
  assumes "get_current k = Some t" "pending_of t \<noteq> 0" "\<not> bit (t_signal t) 31" "t_uid t \<noteq> 0"
    and "length (t_actions t) = MAXSIG"
  shows "\<exists>sig d k' m' t'. task_signal k m = Some (d, k', m') \<and> get_current k' = Some t' \<and>
     1 \<le> sig \<and> sig \<le> MAXSIG \<and> pending_of t AND SIGMASK sig \<noteq> 0 \<and> (\<forall>i \<in> {1..<sig}. pending_of t AND SIGMASK i = 0) \<and>
     t_signal t' = t_signal t AND NOT (SIGMASK sig) \<and>
     d = (let h = sa_handler (t_actions t ! (sig - 1)) in
          if h = SIG_IGN \<or> h = SIG_DFL \<and> sig = SIGCHLD then D_ignored
          else if h = SIG_DFL then D_exit (SIGMASK sig) else D_handler) \<and>
     (d = D_handler \<longrightarrow> if_eip (t_iframe t') = sa_handler (t_actions t ! (sig - 1)) \<and>
        if_esp (t_iframe t') = if_esp (t_iframe t) - 32)"
proof -
  define sig where "sig = first_signal (pending_of t) 1 MAXSIG"
  note sig = chosen_signal [OF assms(2,3), folded sig_def]
  define t1 where "t1 = t\<lparr>t_signal := t_signal t AND NOT (SIGMASK sig)\<rparr>"
  define act where "act = t_actions t ! (sig - 1)"
  have a: "aget (t_actions t) (sig - 1) = Some act" using sig(1,2) assms(5) by (simp add: act_def MAXSIG_def)
  note put = get_current_put [OF assms(1)]
  obtain t2 m2 where eh: "enter_handler t1 m sig act = (t2, m2)" by (cases "enter_handler t1 m sig act")
  then have t2: "t_signal t2 = t_signal t1" "if_eip (t_iframe t2) = sa_handler act"
      "if_esp (t_iframe t2) = if_esp (t_iframe t) - 32"
    by (auto simp: enter_handler_def Let_def t1_def)
  have run: "task_signal k m = (let k1 = put_task k (cur k) t1 in
      if sa_handler act = SIG_IGN then Some (D_ignored, k1, m)
      else if sa_handler act = SIG_DFL \<and> sig = SIGCHLD then Some (D_ignored, k1, m)
      else if sa_handler act = SIG_DFL then Some (D_exit (SIGMASK sig), k1, m)
      else Some (D_handler, put_task k1 (cur k) t2, m2))"
  proof -
    have "sig \<le> MAXSIG" using sig(2) by (simp add: MAXSIG_def)
    moreover have "t_signal t AND NOT (t_blocked t) \<noteq> 0" "first_signal (t_signal t AND NOT (t_blocked t)) 1 MAXSIG = sig"
      using assms(2) by (simp_all add: pending_of_def sig_def)
    moreover have "aget (t_actions t1) (sig - 1) = Some act" using a by (simp add: t1_def)
    ultimately show ?thesis
      using assms(1,4) eh 
      by (simp add: task_signal_def t1_def [symmetric] Let_def del: One_nat_def) (auto simp: t1_def)
  qed
  show ?thesis
    unfolding run using sig put get_current_put [OF put] t2
    by (intro exI [of _ sig]) (simp add: Let_def act_def [symmetric] MAXSIG_def t1_def del: One_nat_def)
qed

text \<open>A user task with one pending SIGINT and a handler for it, on top of the booted kernel.\<close>

definition demo_task :: task where
  "demo_task = (zero_task 0xC0020000)\<lparr>t_uid := USER_RING3, t_signal := SIGMASK SIGINT, t_blocked := 4,
     t_actions := (replicate MAXSIG zero_sigaction)[1 := \<lparr>sa_handler = 0x8049000, sa_mask = 0,
       sa_flags = SIG_ONESHOT OR SIG_NOMASK, sa_restorer = 0x804A000\<rparr>],
     t_iframe := \<lparr>if_edx = 3, if_ecx = 2, if_eax = 1, if_eip = 0x8048123, if_eflags = 0x202, if_esp = 0xBFFFF000\<rparr>\<rparr>"

definition demo_kernel :: kernel where
  "demo_kernel = no_tasks\<lparr>task_list := [Some demo_task]\<rparr>"

lemma demo_kernel: "get_current demo_kernel = Some demo_task"
  by (simp add: demo_kernel_def get_current_def task_at_def no_tasks_def)

lemma demo_task:
  "pending_of demo_task = 2" "\<not> bit (t_signal demo_task) 31" "t_uid demo_task \<noteq> 0"
  "length (t_actions demo_task) = MAXSIG" "t_blocked demo_task = 4"
  "t_actions demo_task ! Suc 0 = \<lparr>sa_handler = 0x8049000, sa_mask = 0, sa_flags = SIG_ONESHOT OR SIG_NOMASK, sa_restorer = 0x804A000\<rparr>"
  by (simp_all add: demo_task_def zero_task_def pending_of_def SIGMASK_def SIGINT_def USER_RING3_def MAXSIG_def bit_simps)

lemma task_signal_delivers_lowest_witness:
  "\<exists>sig d k' m' t'. task_signal demo_kernel (\<lambda>_. 0) = Some (d, k', m') \<and> get_current k' = Some t' \<and>
     1 \<le> sig \<and> sig \<le> MAXSIG \<and> t_signal t' = t_signal demo_task AND NOT (SIGMASK sig)"
proof -
  have "pending_of demo_task \<noteq> 0" by (simp add: demo_task)
  from task_signal_delivers_lowest [OF demo_kernel this demo_task(2-4), of "\<lambda>_. 0"] show ?thesis by blast
qed

text \<open>The state in which a handler has been entered: what \<open>enter_handler\<close> left.\<close>

lemma enter_handler_spec:
  assumes "enter_handler t m sig action = (t2, m2)"
  defines "f \<equiv> if_esp (t_iframe t) - 32"
  shows "t_iframe t2 = (t_iframe t)\<lparr>if_esp := f, if_eip := sa_handler action\<rparr>"
    "m2 = write_sig_frame m f (t_iframe t) (if sa_flags action AND SIG_NOMASK \<noteq> 0 then t_blocked t else EOF) (of_nat sig) (sa_restorer action)"
    "t_blocked t2 = t_blocked t OR sa_mask action"
  using assms by (auto simp: enter_handler_def Let_def)

text \<open>
  C12. The signal round trip: when the handler returns with its stack and the frame intact, the
  restorer gives the interrupted program all its registers back (accumulator, count, data,
  flags, stack and instruction pointer); with \<^verbatim>\<open>SIG_NOMASK\<close> the signal mask is the old one,
  without it the mask that was added for the handler stays in force.
\<close>

theorem signal_roundtrip:
  assumes eh: "enter_handler t m sig action = (t2, m2)" and k: "get_current k = Some t2"
    and esp: "if_esp r = if_esp (t_iframe t2)" and blk: "t_blocked t \<noteq> EOF"
  shows "\<exists>k' t'. restorer k m2 (handler_return m2 r) = Some (k', t_iframe t) \<and> get_current k' = Some t' \<and>
     t_blocked t' = (if sa_flags action AND SIG_NOMASK \<noteq> 0 then t_blocked t AND NOT (SIGMASK SIGKILL)
                     else t_blocked t OR sa_mask action)"
proof -
  let ?f = "if_esp (t_iframe t) - 32"
  let ?b = "if sa_flags action AND SIG_NOMASK \<noteq> 0 then t_blocked t else EOF"
  note eh' = enter_handler_spec [OF eh]
  note words = frame_words [of m ?f "t_iframe t" ?b "of_nat sig" "sa_restorer action", folded eh'(2)]
  have r: "if_esp r = ?f" using esp eh'(1) by simp
  have "\<exists>k' t'. sys_ssetmask k ?b = Some (if ?b = EOF then - EPERM else t_blocked t2, k') \<and> get_current k' = Some t' \<and>
      t_blocked t' = (if sa_flags action AND SIG_NOMASK \<noteq> 0 then t_blocked t AND NOT (SIGMASK SIGKILL)
                      else t_blocked t OR sa_mask action)"
    using k blk eh'(3) get_current_put [OF k] by (auto simp: sys_ssetmask_def Let_def)
  then obtain ret k' t' where km: "sys_ssetmask k ?b = Some (ret, k')" "get_current k' = Some t'"
      "t_blocked t' = (if sa_flags action AND SIG_NOMASK \<noteq> 0 then t_blocked t AND NOT (SIGMASK SIGKILL)
                      else t_blocked t OR sa_mask action)" by blast
  have "restorer k m2 (handler_return m2 r) = Some (k', t_iframe t)"
    using words km(1) by (simp add: restorer_def handler_return_def r Let_def add.assoc)
  then show ?thesis using km(2,3) by blast
qed

theorem signal_roundtrip_witness:
  "\<exists>(t2 :: task) m2 k k' t'. restorer k m2 (handler_return m2 (t_iframe t2)) = Some (k', t_iframe demo_task) \<and>
     get_current k' = Some t' \<and> t_blocked t' = t_blocked demo_task AND NOT (SIGMASK SIGKILL)"
proof -
  obtain t2 m2 where eh: "enter_handler demo_task (\<lambda>_. 0) 2 (t_actions demo_task ! 1) = (t2, m2)"
    by (cases "enter_handler demo_task (\<lambda>_. 0) 2 (t_actions demo_task ! 1)")
  have k: "get_current (no_tasks\<lparr>task_list := [Some t2]\<rparr>) = Some t2"
    by (simp add: get_current_def task_at_def no_tasks_def)
  have "t_blocked demo_task \<noteq> EOF" by (simp add: demo_task EOF_def)
  moreover have "sa_flags (t_actions demo_task ! 1) AND SIG_NOMASK \<noteq> 0"
    by (simp add: demo_task SIG_NOMASK_def SIG_ONESHOT_def)
  ultimately show ?thesis using signal_roundtrip [OF eh k refl] by fastforce
qed

text \<open>
  Signals cannot reach protected tasks: \<^verbatim>\<open>kill\<close> with a number outside 1 to 31, an unknown pid,
  pid 1 or a kernel task returns -1 and changes nothing.
\<close>

lemma sys_kill_protected:
  assumes "\<not> valid_sig sig \<or> get_task k pid = None \<or>
    (\<exists>n t. get_task k pid = Some n \<and> task_at k n = Some t \<and> (t_pid t = 1 \<or> t_uid t = KERNEL_RING0))"
  shows "sys_kill k pid sig = Some (EOF, k)"
  using assms by (auto simp: sys_kill_def split: option.splits)

lemma sys_kill_protected_witness: "sys_kill demo_kernel 5 9 = Some (EOF, demo_kernel)"
  by (rule sys_kill_protected) (simp add: demo_kernel_def get_task_def demo_task_def zero_task_def)

end
