(* ===== verification/Timer.thy ===== *)
theory Timer
  imports Task
begin

text \<open>
  \<^verbatim>\<open>src/kernel/timer.c\<close> and \<^verbatim>\<open>src/kernel/clock.c\<close>: the timer list, sleeping, the beeper and the
  clock interrupt. The state is the task table with the timer list, the beeper and the
  interrupt flag. The list is kept in the order \<^verbatim>\<open>list_insert_sort\<close> gives it: by the signed
  reading of the expiry time, a new timer behind those that are not later.

  Shown: the clock interrupt fires exactly the timers whose time has come, in order, leaves the
  others, makes every sleeper among them ready and silences a due beeper, charges the running task one tick,
  reschedules when that was its last, and never stops the kernel.
\<close>

section \<open>Definitions\<close>

definition JIFFY :: u32 where "JIFFY = 10"
definition BEEP_LAST_MS :: u32 where "BEEP_LAST_MS = 100"
definition OSCILLATOR :: u32 where "OSCILLATOR = 1193182"
definition CLOCK_COUNTER :: u32 where "CLOCK_COUNTER = OSCILLATOR div 100"
definition BEEP_COUNTER :: u32 where "BEEP_COUNTER = OSCILLATOR div 440"

text \<open>The handlers that are passed to \<open>timer_add\<close>; a null handler is \<open>H_default\<close>.\<close>

datatype timer_handler = H_default | H_task_wakeup | H_stop_beep

record timer =
  tm_task :: nat
  tm_expires :: u32
  tm_handler :: timer_handler
  tm_active :: bool

record clock =
  kern :: kernel
  timers :: "timer list"
  beeping :: bool
  speaker :: u8
  startup_time :: u32
  intr_on :: bool
  eois :: "u32 list"

definition timer_expire_jiffies :: "clock \<Rightarrow> u32 \<Rightarrow> u32" where
  "timer_expire_jiffies c expire_ms = jiffies (kern c) + expire_ms div JIFFY"

definition timer_is_expires :: "clock \<Rightarrow> u32 \<Rightarrow> bool" where
  "timer_is_expires c expires \<longleftrightarrow> jiffies (kern c) > expires"

text \<open>\<^verbatim>\<open>list_insert_sort\<close> on the \<open>expires\<close> field read as an \<^verbatim>\<open>int\<close>.\<close>

definition insert_timer :: "timer \<Rightarrow> timer list \<Rightarrow> timer list" where
  "insert_timer tm ts =
     takeWhile (\<lambda>t. sint (tm_expires t) \<le> sint (tm_expires tm)) ts @ tm #
     dropWhile (\<lambda>t. sint (tm_expires t) \<le> sint (tm_expires tm)) ts"

definition timer_add :: "clock \<Rightarrow> u32 \<Rightarrow> timer_handler \<Rightarrow> clock" where
  "timer_add c expire_ms handler =
     (let tm = \<lparr>tm_task = cur (kern c), tm_expires = timer_expire_jiffies c expire_ms,
                tm_handler = handler, tm_active = False\<rparr>
      in c\<lparr>timers := insert_timer tm (timers c)\<rparr>)"

text \<open>\<^verbatim>\<open>timer_update\<close> of the timer at a position of the list.\<close>

definition timer_update :: "clock \<Rightarrow> nat \<Rightarrow> u32 \<Rightarrow> clock option" where
  "timer_update c i expire_ms = do {
     tm \<leftarrow> aget (timers c) i;
     let ts = take i (timers c) @ drop (Suc i) (timers c);
     let tm = tm\<lparr>tm_expires := jiffies (kern c) + expire_ms div JIFFY\<rparr>;
     Some (c\<lparr>timers := insert_timer tm ts\<rparr>) }"

definition timer_expires :: "clock \<Rightarrow> u32" where
  "timer_expires c = (case timers c of [] \<Rightarrow> EOF | tm # _ \<Rightarrow> tm_expires tm)"

definition timer_remove :: "clock \<Rightarrow> nat \<Rightarrow> clock" where
  "timer_remove c n = c\<lparr>timers := filter (\<lambda>tm. tm_task tm \<noteq> n) (timers c)\<rparr>"

definition default_timeout :: "clock \<Rightarrow> timer \<Rightarrow> clock option" where
  "default_timeout c tm = do {
     t \<leftarrow> task_at (kern c) (tm_task tm);
     kassert (t_node t \<noteq> None);
     k \<leftarrow> task_intr_unblock_no_waiting_list (kern c) (tm_task tm);
     Some (c\<lparr>kern := k\<rparr>) }"

definition task_wakeup :: "clock \<Rightarrow> timer \<Rightarrow> clock option" where
  "task_wakeup c tm = do {
     kassert (\<not> intr_on c);
     t \<leftarrow> task_at (kern c) (tm_task tm);
     Some (c\<lparr>kern := put_task (kern c) (tm_task tm) (t\<lparr>t_ticks := t_priority t, t_state := TASK_READY\<rparr>)\<rparr>) }"

definition stop_beep :: "clock \<Rightarrow> clock" where
  "stop_beep c = (if beeping c then c\<lparr>beeping := False, speaker := speaker c AND 0xFC\<rparr> else c)"

definition start_beep :: "clock \<Rightarrow> clock" where
  "start_beep c =
     (if \<not> beeping c then timer_add (c\<lparr>beeping := True, speaker := speaker c OR 3\<rparr>) BEEP_LAST_MS H_stop_beep
      else c)"

definition run_timer :: "clock \<Rightarrow> timer \<Rightarrow> clock option" where
  "run_timer c tm = (case tm_handler tm of
      H_default \<Rightarrow> default_timeout c tm
    | H_task_wakeup \<Rightarrow> task_wakeup c tm
    | H_stop_beep \<Rightarrow> Some (stop_beep c))"

text \<open>
  The loop of \<^verbatim>\<open>timer_wakeup\<close>: while the first expiry time has come, run the first timer and put
  it away. With an empty list the expiry time is EOF, and a first timer does not exist.
\<close>

partial_function (option) timer_wakeup :: "clock \<Rightarrow> clock option" where
  "timer_wakeup c =
     (if timer_expires c \<le> jiffies (kern c) then
        (case timers c of
           [] \<Rightarrow> None
         | tm # ts \<Rightarrow> do {
             c \<leftarrow> run_timer (c\<lparr>timers := tm\<lparr>tm_active := True\<rparr> # ts\<rparr>) (tm\<lparr>tm_active := True\<rparr>);
             timer_wakeup (c\<lparr>timers := tl (timers c)\<rparr>) })
      else Some c)"

definition sys_sleep :: "u32 \<Rightarrow> clock \<Rightarrow> u32 \<Rightarrow> clock option" where
  "sys_sleep resume c ms = do {
     kassert (\<not> intr_on c);
     t \<leftarrow> get_current (kern c);
     kassert (t_node t = None);
     let c = timer_add c ms H_task_wakeup;
     k \<leftarrow> set_state (kern c) (cur (kern c)) TASK_SLEEPING;
     k \<leftarrow> schedule resume k;
     Some (c\<lparr>kern := k\<rparr>) }"

definition clock_handler :: "u32 \<Rightarrow> clock \<Rightarrow> u32 \<Rightarrow> clock option" where
  "clock_handler resume c vector = do {
     kassert (vector = 0x20);
     let c = c\<lparr>kern := (kern c)\<lparr>jiffies := jiffies (kern c) + 1\<rparr>\<rparr>;
     c \<leftarrow> timer_wakeup c;
     let k = kern c;
     t \<leftarrow> get_current k;
     kassert (t_magic t = LIGHTOS_MAGIC);
     let t = t\<lparr>t_jiffies := jiffies k, t_ticks := t_ticks t - 1\<rparr>;
     let c = c\<lparr>eois := eois c @ [vector]\<rparr>;
     k \<leftarrow> (if t_ticks t \<le> 0 then schedule resume (put_task k (cur k) (t\<lparr>t_ticks := t_priority t\<rparr>))
           else Some (put_task k (cur k) t));
     Some (c\<lparr>kern := k\<rparr>) }"

definition sys_time :: "clock \<Rightarrow> u32" where
  "sys_time c = startup_time c + (jiffies (kern c) * JIFFY) div 1000"

text \<open>\<^verbatim>\<open>pit_init\<close>: the bytes written, port first.\<close>

definition pit_init :: "(u16 \<times> u8) list" where
  "pit_init = [(0x43, 0x34), (0x40, ucast (CLOCK_COUNTER AND 0xFF)), (0x40, ucast (drop_bit 8 CLOCK_COUNTER AND 0xFF)),
     (0x43, 0xB6), (0x42, ucast BEEP_COUNTER), (0x42, ucast (drop_bit 8 BEEP_COUNTER))]"

section \<open>The invariant\<close>

definition timer_key :: "timer \<Rightarrow> int" where
  "timer_key tm = sint (tm_expires tm)"

definition sleeper :: "kernel \<Rightarrow> nat \<Rightarrow> bool" where
  "sleeper k n \<longleftrightarrow> n \<noteq> 0 \<and> n \<noteq> cur k \<and> (\<exists>t. task_at k n = Some t \<and> t_node t = None \<and> t_state t = TASK_SLEEPING)"

definition ticks_ok :: "kernel \<Rightarrow> bool" where
  "ticks_ok k \<longleftrightarrow> (\<forall>n t. task_at k n = Some t \<longrightarrow> t_ticks t \<noteq> 0 \<and> t_priority t \<noteq> 0)"

definition sleepers :: "timer list \<Rightarrow> nat list" where
  "sleepers ts = map tm_task (filter (\<lambda>tm. tm_handler tm = H_task_wakeup) ts)"

text \<open>
  The table is well-formed, every task has time left and a priority, the timers are sorted and
  not in the sign bit's half of the time range, every sleep timer belongs to a task of its own
  that is asleep, not current and in no waiting list, and no timer has the default handler (the kernel adds
  none).
\<close>

definition timers_ok :: "kernel \<Rightarrow> timer list \<Rightarrow> bool" where
  "timers_ok k ts \<longleftrightarrow> sorted (map timer_key ts) \<and> (\<forall>tm \<in> set ts. 0 \<le> timer_key tm \<and> tm_handler tm \<noteq> H_default) \<and>
     distinct (sleepers ts) \<and> (\<forall>n \<in> set (sleepers ts). sleeper k n)"

definition clock_inv :: "clock \<Rightarrow> bool" where
  "clock_inv c \<longleftrightarrow> sched_inv (kern c) \<and> ticks_ok (kern c) \<and> timers_ok (kern c) (timers c)"

lemma insert_timer_set: "set (insert_timer tm ts) = insert tm (set ts)"
proof -
  have "set ts = set (takeWhile P ts) \<union> set (dropWhile P ts)" for P :: "timer \<Rightarrow> bool"
    by (metis set_append takeWhile_dropWhile_id)
  then show ?thesis by (auto simp: insert_timer_def)
qed

lemma insert_timer_sorted:
  assumes "sorted (map timer_key ts)"
  shows "sorted (map timer_key (insert_timer tm ts))"
proof -
  let ?P = "\<lambda>t. timer_key t \<le> timer_key tm"
  have split: "ts = takeWhile ?P ts @ dropWhile ?P ts" by simp
  have s: "sorted (map timer_key (takeWhile ?P ts))" "sorted (map timer_key (dropWhile ?P ts))"
    using assms by (subst (asm) split, simp only: map_append sorted_append)+
  have a: "timer_key t \<le> timer_key tm" if "t \<in> set (takeWhile ?P ts)" for t using that by (auto dest: set_takeWhileD)
  have b: "timer_key tm \<le> timer_key t" if "t \<in> set (dropWhile ?P ts)" for t
  proof (cases "dropWhile ?P ts")
    case (Cons d ds)
    then have "timer_key tm < timer_key d" using hd_dropWhile [of ?P ts] by auto
    moreover have "timer_key d \<le> timer_key t" using s(2) that Cons by auto
    ultimately show ?thesis by simp
  next
    case Nil
    show ?thesis using that unfolding Nil by simp
  qed
  have "insert_timer tm ts = takeWhile ?P ts @ tm # dropWhile ?P ts" by (simp add: insert_timer_def timer_key_def)
  then show ?thesis using s a b by (fastforce simp: sorted_append)
qed

lemma timer_key_unsigned: "0 \<le> timer_key tm \<Longrightarrow> timer_key tm = uint (tm_expires tm)"
  using sint_lt [of "tm_expires tm"] by (simp add: timer_key_def uint_sint take_bit_int_eq_self)

lemma sleepers_simps [simp]:
  "sleepers [] = []"
  "sleepers (tm # ts) = (if tm_handler tm = H_task_wakeup then tm_task tm # sleepers ts else sleepers ts)"
  by (simp_all add: sleepers_def)

lemma timers_ok_tail: "timers_ok k (tm # ts) \<Longrightarrow> timers_ok k ts"
  by (auto simp: timers_ok_def split: if_splits)

lemma timers_ok_task:
  "timers_ok k ts \<Longrightarrow> (\<And>m. m \<in> set (sleepers ts) \<Longrightarrow> sleeper k' m) \<Longrightarrow> timers_ok k' ts"
  by (auto simp: timers_ok_def)

text \<open>What firing the timers \<open>ts\<close> does to the task in a slot, and whether it silences the beeper.\<close>

definition woken :: "task \<Rightarrow> task" where
  "woken t = t\<lparr>t_ticks := t_priority t, t_state := TASK_READY\<rparr>"

definition after_timers :: "timer list \<Rightarrow> kernel \<Rightarrow> nat \<Rightarrow> task option" where
  "after_timers ts k n = (if n \<in> set (sleepers ts) then map_option woken (task_at k n) else task_at k n)"

definition stops_beep :: "timer list \<Rightarrow> bool" where
  "stops_beep ts \<longleftrightarrow> H_stop_beep \<in> tm_handler ` set ts"

lemma woken_twice [simp]: "woken (woken t) = woken t"
  by (simp add: woken_def)

lemma after_timers_Cons:
  "task_at k1 = after_timers [tm] k \<Longrightarrow> after_timers ts k1 = after_timers (tm # ts) k"
  by (auto simp: after_timers_def fun_eq_iff option.map_comp comp_def)

text \<open>Firing one timer.\<close>

lemma run_timer_ok:
  assumes inv: "clock_inv c" and tm: "timers c = tm # ts" and off: "\<not> intr_on c"
  shows "\<exists>c'. run_timer (c\<lparr>timers := tm\<lparr>tm_active := True\<rparr> # ts\<rparr>) (tm\<lparr>tm_active := True\<rparr>) = Some c' \<and>
     clock_inv (c'\<lparr>timers := tl (timers c')\<rparr>) \<and> tl (timers c') = ts \<and> \<not> intr_on c' \<and> eois c' = eois c \<and>
     jiffies (kern c') = jiffies (kern c) \<and> cur (kern c') = cur (kern c) \<and> waiting (kern c') = waiting (kern c) \<and>
     cpu (kern c') = cpu (kern c) \<and> task_at (kern c') = after_timers [tm] (kern c) \<and>
     beeping c' = (beeping c \<and> \<not> stops_beep [tm]) \<and>
     speaker c' = (if beeping c \<and> stops_beep [tm] then speaker c AND 0xFC else speaker c)"
proof (cases "tm_handler tm")
  case H_default
  then show ?thesis using inv tm by (auto simp: clock_inv_def timers_ok_def)
next
  case H_stop_beep
  then show ?thesis
    using inv tm off
    by (auto simp: run_timer_def stop_beep_def clock_inv_def stops_beep_def after_timers_def fun_eq_iff
        dest: timers_ok_tail)
next
  case H_task_wakeup
  let ?n = "tm_task tm"
  have "sleeper (kern c) ?n" using inv tm H_task_wakeup by (auto simp: clock_inv_def timers_ok_def)
  then obtain t where t: "?n \<noteq> 0" "task_at (kern c) ?n = Some t" "t_node t = None" by (auto simp: sleeper_def)
  have sched: "sched_inv (kern c)" and tick: "ticks_ok (kern c)" and tok: "timers_ok (kern c) (tm # ts)"
    using inv tm by (auto simp: clock_inv_def)
  define k' where "k' = put_task (kern c) ?n (woken t)"
  have at: "task_at k' n = (if n = ?n then Some (woken t) else task_at (kern c) n)" for n
    using task_at_bound [OF t(2)] by (simp add: k'_def)
  have "slot_ok (kern c) ?n (woken t)" using sched_invD(4) [OF sched t(2)] t(3) by (simp add: slot_ok_def woken_def)
  then have "sched_inv k'" unfolding k'_def using t by (intro sched_inv_put [OF sched t(2)]) simp_all
  moreover have "ticks_ok k'" using tick t(2) at by (auto simp: ticks_ok_def woken_def)
  moreover have "timers_ok k' ts"
  proof (rule timers_ok_task [OF timers_ok_tail [OF tok]])
    fix m assume m: "m \<in> set (sleepers ts)"
    then have "m \<noteq> ?n" using tok H_task_wakeup by (auto simp: timers_ok_def)
    then show "sleeper k' m" using m tok at by (auto simp: timers_ok_def sleeper_def k'_def)
  qed
  moreover have "task_at k' = after_timers [tm] (kern c)"
    using at t(2) H_task_wakeup by (auto simp: after_timers_def fun_eq_iff)
  moreover have "run_timer (c\<lparr>timers := tm\<lparr>tm_active := True\<rparr> # ts\<rparr>) (tm\<lparr>tm_active := True\<rparr>) =
      Some (c\<lparr>timers := tm\<lparr>tm_active := True\<rparr> # ts, kern := k'\<rparr>)"
    using H_task_wakeup t off by (simp add: run_timer_def task_wakeup_def k'_def woken_def)
  moreover have "jiffies k' = jiffies (kern c)" "cur k' = cur (kern c)" "waiting k' = waiting (kern c)" "cpu k' = cpu (kern c)"
    by (simp_all add: k'_def)
  ultimately show ?thesis
    using H_task_wakeup off by (simp add: clock_inv_def stops_beep_def)
qed

text \<open>The timers whose time has come are a prefix of the list.\<close>

lemma expired_prefix:
  assumes "sorted (map timer_key ts)" "\<forall>tm \<in> set ts. 0 \<le> timer_key tm"
  shows "dropWhile (\<lambda>tm. tm_expires tm \<le> J) ts = filter (\<lambda>tm. J < tm_expires tm) ts"
  using assms
proof (induction ts)
  case (Cons tm ts)
  show ?case
  proof (cases "tm_expires tm \<le> J")
    case True
    then show ?thesis using Cons by (simp add: not_less)
  next
    case False
    have "J < tm_expires s" if "s \<in> set ts" for s
    proof -
      have "timer_key tm \<le> timer_key s" using Cons.prems(1) that by simp
      then have "uint (tm_expires tm) \<le> uint (tm_expires s)" using Cons.prems(2) that by (simp add: timer_key_unsigned)
      then have "tm_expires tm \<le> tm_expires s" by (simp add: word_le_def)
      then show ?thesis using False by (simp add: not_le)
    qed
    then show ?thesis using False by (simp add: not_le filter_id_conv)
  qed
qed simp

lemma expired_first:
  assumes "sorted (map timer_key ts)" "\<forall>tm \<in> set ts. 0 \<le> timer_key tm"
  shows "takeWhile (\<lambda>tm. tm_expires tm \<le> J) ts = filter (\<lambda>tm. tm_expires tm \<le> J) ts"
proof -
  have "filter (\<lambda>tm. tm_expires tm \<le> J) ts = filter (\<lambda>tm. tm_expires tm \<le> J)
      (takeWhile (\<lambda>tm. tm_expires tm \<le> J) ts @ dropWhile (\<lambda>tm. tm_expires tm \<le> J) ts)" by simp
  also have "\<dots> = takeWhile (\<lambda>tm. tm_expires tm \<le> J) ts"
    unfolding filter_append expired_prefix [OF assms] by (auto simp: filter_id_conv filter_empty_conv not_le dest: set_takeWhileD)
  finally show ?thesis by simp
qed

lemma timer_wakeup_ok:
  "clock_inv c \<Longrightarrow> \<not> intr_on c \<Longrightarrow> jiffies (kern c) \<noteq> EOF \<Longrightarrow>
   fired = takeWhile (\<lambda>tm. tm_expires tm \<le> jiffies (kern c)) (timers c) \<Longrightarrow>
   \<exists>c'. timer_wakeup c = Some c' \<and> clock_inv c' \<and> \<not> intr_on c' \<and> eois c' = eois c \<and>
     timers c' = dropWhile (\<lambda>tm. tm_expires tm \<le> jiffies (kern c)) (timers c) \<and>
     jiffies (kern c') = jiffies (kern c) \<and> cur (kern c') = cur (kern c) \<and> waiting (kern c') = waiting (kern c) \<and>
     cpu (kern c') = cpu (kern c) \<and> task_at (kern c') = after_timers fired (kern c) \<and>
     beeping c' = (beeping c \<and> \<not> stops_beep fired) \<and>
     speaker c' = (if beeping c \<and> stops_beep fired then speaker c AND 0xFC else speaker c)"
proof (induction "timers c" arbitrary: c fired)
  case Nil
  have "\<not> EOF \<le> jiffies (kern c)"
    using Nil.prems(3) by (metis EOF_def word_n1_ge order_antisym)
  then show ?case using Nil
    by (subst timer_wakeup.simps) (simp add: timer_expires_def after_timers_def stops_beep_def fun_eq_iff)
next
  case (Cons tm ts)
  show ?case
  proof (cases "tm_expires tm \<le> jiffies (kern c)")
    case False
    then show ?thesis using Cons.prems Cons.hyps(2) [symmetric]
      by (subst timer_wakeup.simps) (simp add: timer_expires_def after_timers_def stops_beep_def fun_eq_iff)
  next
    case True
    obtain c1 where c1: "run_timer (c\<lparr>timers := tm\<lparr>tm_active := True\<rparr> # ts\<rparr>) (tm\<lparr>tm_active := True\<rparr>) = Some c1"
      "clock_inv (c1\<lparr>timers := tl (timers c1)\<rparr>)" "tl (timers c1) = ts" "\<not> intr_on c1" "eois c1 = eois c"
      "jiffies (kern c1) = jiffies (kern c)" "cur (kern c1) = cur (kern c)" "waiting (kern c1) = waiting (kern c)"
      "cpu (kern c1) = cpu (kern c)"
      and at1: "task_at (kern c1) = after_timers [tm] (kern c)"
      and beep1: "beeping c1 = (beeping c \<and> \<not> stops_beep [tm])"
        "speaker c1 = (if beeping c \<and> stops_beep [tm] then speaker c AND 0xFC else speaker c)"
      using run_timer_ok [OF Cons.prems(1) Cons.hyps(2) [symmetric] Cons.prems(2)] by blast
    let ?c1 = "c1\<lparr>timers := ts\<rparr>"
    let ?fired = "takeWhile (\<lambda>tm. tm_expires tm \<le> jiffies (kern c)) ts"
    have ih: "ts = timers ?c1" "clock_inv ?c1" "\<not> intr_on ?c1" "jiffies (kern ?c1) \<noteq> EOF"
        "?fired = takeWhile (\<lambda>tm. tm_expires tm \<le> jiffies (kern ?c1)) (timers ?c1)"
      using c1 Cons.prems(3) by simp_all
    obtain c2 where c2: "timer_wakeup ?c1 = Some c2" "clock_inv c2" "\<not> intr_on c2" "eois c2 = eois c"
      "timers c2 = dropWhile (\<lambda>tm. tm_expires tm \<le> jiffies (kern c)) ts"
      "jiffies (kern c2) = jiffies (kern c)" "cur (kern c2) = cur (kern c)" "waiting (kern c2) = waiting (kern c)"
      "cpu (kern c2) = cpu (kern c)"
      and at2: "task_at (kern c2) = after_timers ?fired (kern c1)"
      and beep2: "beeping c2 = (beeping c1 \<and> \<not> stops_beep ?fired)"
        "speaker c2 = (if beeping c1 \<and> stops_beep ?fired then speaker c1 AND 0xFC else speaker c1)"
      using Cons.hyps(1) [OF ih] by - (elim exE conjE, rule that, simp_all add: c1 cong: if_cong)
    have run: "timer_wakeup c = Some c2"
      using True c1(1,3) c2(1) Cons.hyps(2) [symmetric]
      by (subst timer_wakeup.simps) (simp add: timer_expires_def)
    have f: "fired = tm # ?fired" using Cons.prems(4) Cons.hyps(2) [symmetric] True by simp
    have sb: "stops_beep fired \<longleftrightarrow> stops_beep [tm] \<or> stops_beep ?fired" by (auto simp: f stops_beep_def)
    have "task_at (kern c2) = after_timers fired (kern c)"
      using at2 after_timers_Cons [OF at1] f by simp
    moreover have "beeping c2 = (beeping c \<and> \<not> stops_beep fired)"
        "speaker c2 = (if beeping c \<and> stops_beep fired then speaker c AND 0xFC else speaker c)"
      using beep1 beep2 sb by auto
    ultimately show ?thesis
      using run c2 True Cons.hyps(2) [symmetric] by (intro exI [of _ c2]) simp
  qed
qed

section \<open>The clock interrupt\<close>

lemma sched_inv_jiffies [simp]: "sched_inv (k\<lparr>jiffies := j\<rparr>) = sched_inv k"
  "task_at (k\<lparr>jiffies := j\<rparr>) n = task_at k n"
  by (simp_all add: sched_inv_def idle_ok_def slot_ok_def task_at_def split: option.split)

text \<open>What \<open>schedule\<close> keeps of each task.\<close>

lemma scheduled_task:
  assumes "scheduled resume k k'" "task_at k n = Some t"
  shows "\<exists>t'. task_at k' n = Some t' \<and> t_ticks t' = t_ticks t \<and> t_priority t' = t_priority t \<and> t_node t' = t_node t \<and>
     (t_state t' = t_state t \<or> t_state t = TASK_RUNNING \<and> t_state t' = TASK_READY \<or>
      t_state t = TASK_READY \<and> t_state t' = TASK_RUNNING \<and> cur k' = n)"
  using assms unfolding scheduled_def
  by (cases "cur k' = cur k"; cases "n = cur k"; cases "n = cur k'") auto

lemma scheduled_cur:
  assumes "scheduled resume k k'"
  shows "cur k' = cur k \<or> (\<exists>t. task_at k (cur k') = Some t \<and> t_state t = TASK_READY)" "jiffies k' = jiffies k"
  using assms unfolding scheduled_def by (auto split: if_splits)

lemma scheduled_task_back:
  assumes "scheduled resume k k'" "task_at k' n = Some t'"
  shows "\<exists>t. task_at k n = Some t"
  using assms unfolding scheduled_def
  by (cases "cur k' = cur k"; cases "n = cur k"; cases "n = cur k'") auto

lemma schedule_clock:
  assumes inv: "sched_inv k" "ticks_ok k" "timers_ok k ts"
  shows "\<exists>k'. schedule resume k = Some k' \<and> sched_inv k' \<and> ticks_ok k' \<and> timers_ok k' ts \<and> scheduled resume k k'"
proof -
  obtain k' where k': "schedule resume k = Some k'" "sched_inv k'" "scheduled resume k k'"
    using schedule_ok [OF inv(1)] by blast
  have "ticks_ok k'"
    using inv(2) scheduled_task [OF k'(3)] scheduled_task_back [OF k'(3)] unfolding ticks_ok_def by (metis option.inject)
  moreover have "timers_ok k' ts"
  proof (rule timers_ok_task [OF inv(3)])
    fix n assume "n \<in> set (sleepers ts)"
    then obtain t where t: "n \<noteq> 0" "n \<noteq> cur k" "task_at k n = Some t" "t_node t = None" "t_state t = TASK_SLEEPING"
      using inv(3) by (auto simp: timers_ok_def sleeper_def)
    then have "n \<noteq> cur k'" using scheduled_cur(1) [OF k'(3)] by auto
    then show "sleeper k' n" using scheduled_task [OF k'(3) t(3)] t by (auto simp: sleeper_def)
  qed
  ultimately show ?thesis using k' by blast
qed

text \<open>Changing nothing but the accounting of the current task.\<close>

lemma put_ticks:
  assumes inv: "sched_inv k" "ticks_ok k" "timers_ok k ts" and t: "get_current k = Some t" and n: "n \<noteq> 0"
  shows "sched_inv (put_task k (cur k) (t\<lparr>t_jiffies := j, t_ticks := n\<rparr>))"
    "ticks_ok (put_task k (cur k) (t\<lparr>t_jiffies := j, t_ticks := n\<rparr>))"
    "timers_ok (put_task k (cur k) (t\<lparr>t_jiffies := j, t_ticks := n\<rparr>)) ts"
proof -
  let ?t = "t\<lparr>t_jiffies := j, t_ticks := n\<rparr>"
  have t': "task_at k (cur k) = Some t" using t by (simp add: get_current_def)
  have ok: "slot_ok k (cur k) ?t" using sched_invD(4) [OF inv(1) t'] by (simp add: slot_ok_def)
  have idle: "cur k = 0 \<Longrightarrow> (t_state t = TASK_READY \<or> t_state t = TASK_RUNNING) \<and> t_node t = None"
    using sched_invD(2) [OF inv(1)] t' by (auto simp: idle_ok_def)
  show "sched_inv (put_task k (cur k) ?t)" using idle by (intro sched_inv_put [OF inv(1) t' ok]) auto
  show "ticks_ok (put_task k (cur k) ?t)" using inv(2) n t' by (auto simp: ticks_ok_def)
  show "timers_ok (put_task k (cur k) ?t) ts"
    by (rule timers_ok_task [OF inv(3)]) (use inv(3) t' in \<open>auto simp: timers_ok_def sleeper_def\<close>)
qed

text \<open>The table after a tick: the sleepers whose time has come are woken, the current task is charged.\<close>

definition charged :: "u32 \<Rightarrow> task \<Rightarrow> task" where
  "charged J t = t\<lparr>t_jiffies := J, t_ticks := if t_ticks t = 1 then t_priority t else t_ticks t - 1\<rparr>"

definition ticked :: "u32 \<Rightarrow> timer list \<Rightarrow> kernel \<Rightarrow> nat \<Rightarrow> task option" where
  "ticked J due k n =
     (if n = cur k then map_option (charged J) (task_at k n)
      else if n \<in> tm_task ` {tm \<in> set due. tm_handler tm = H_task_wakeup} then map_option woken (task_at k n)
      else task_at k n)"

lemma ticked_after:
  assumes "timers_ok k ts" "set due \<subseteq> set ts"
  shows "ticked J due k n = (if n = cur k then map_option (charged J) (after_timers due k n) else after_timers due k n)"
proof -
  have eq: "tm_task ` {tm \<in> set due. tm_handler tm = H_task_wakeup} = set (sleepers due)" by (auto simp: sleepers_def)
  have "set (sleepers due) \<subseteq> set (sleepers ts)" using assms(2) by (auto simp: sleepers_def)
  then have "cur k \<notin> set (sleepers due)" using assms(1) by (fastforce simp: timers_ok_def sleeper_def)
  then show ?thesis by (simp add: ticked_def after_timers_def eq)
qed

lemma task_list_at: "length (task_list k) = 64 \<Longrightarrow> task_list k = map (task_at k) [0..<64]"
  by (rule nth_equalityI) (simp_all add: task_at_def)

text \<open>The rest of the handler, once the timers have fired.\<close>

lemma clock_handler_tail:
  assumes run: "timer_wakeup (c\<lparr>kern := (kern c)\<lparr>jiffies := J\<rparr>\<rparr>) = Some c1" and J: "J = jiffies (kern c) + 1"
    and inv: "clock_inv c1" and c1: "eois c1 = eois c" "jiffies (kern c1) = J" and t: "get_current (kern c1) = Some t"
    and k: "k = put_task (kern c1) (cur (kern c1)) (charged J t)"
  shows "\<exists>k'. clock_handler resume c 0x20 = Some (c1\<lparr>eois := eois c @ [0x20], kern := k'\<rparr>) \<and>
     clock_inv (c1\<lparr>eois := eois c @ [0x20], kern := k'\<rparr>) \<and> jiffies k' = J \<and>
     (if t_ticks t = 1 then scheduled resume k k' else k' = k)"
proof -
  have inv1: "sched_inv (kern c1)" "ticks_ok (kern c1)" "timers_ok (kern c1) (timers c1)"
    using inv by (simp_all add: clock_inv_def)
  have mag: "t_magic t = LIGHTOS_MAGIC" "t_priority t \<noteq> 0"
    using sched_invD(4) [OF inv1(1)] inv1(2) t by (auto simp: get_current_def slot_ok_def ticks_ok_def)
  define n where "n = (if t_ticks t = 1 then t_priority t else t_ticks t - 1)"
  have ch: "charged J t = t\<lparr>t_jiffies := J, t_ticks := n\<rparr>" by (simp add: charged_def n_def)
  have "n \<noteq> 0" using mag(2) by (auto simp: n_def)
  note p = put_ticks [OF inv1 t this, of J, folded ch k]
  have "t_ticks t - 1 = 0 \<longleftrightarrow> t_ticks t = 1" by simp
  then have hd: "clock_handler resume c 0x20 = do {
      k' \<leftarrow> (if t_ticks t = 1 then schedule resume k else Some k);
      Some (c1\<lparr>eois := eois c @ [0x20], kern := k'\<rparr>) }"
    using run c1 t mag(1) k
    by (simp add: clock_handler_def J [symmetric] Let_def word_le_0_iff charged_def)
  have jk: "jiffies k = J" using k c1(2) by simp
  show ?thesis
  proof (cases "t_ticks t = 1")
    case True
    obtain k' where "schedule resume k = Some k'" "sched_inv k'" "ticks_ok k'" "timers_ok k' (timers c1)" "scheduled resume k k'"
      using schedule_clock [OF p] by blast
    then show ?thesis using hd True jk scheduled_cur(2) [of resume k k']
      by (intro exI [of _ k']) (simp add: clock_inv_def)
  qed (use hd p jk in \<open>simp add: clock_inv_def\<close>)
qed

text \<open>
  C23. The clock interrupt, taken with interrupts off and before the tick counter overflows:
  it returns, the invariants of the task table and the timer list hold again, the counter is one
  higher, exactly the timers that were not yet due remain, in order. The running task is charged
  one tick, or gets a new time slice when it was its last. Every sleeper whose time has come has
  a new time slice and is ready to run, every other task is as it was; a beeper that is due is
  silenced, one that is not goes on. If the time slice was used up the scheduler
  picks the next task from that table in round-robin order, else the running task goes on.
\<close>

theorem clock_handler_fires_expired:
  assumes inv: "clock_inv c" and off: "\<not> intr_on c" and J: "J = jiffies (kern c) + 1" "J \<noteq> EOF"
    and t: "get_current (kern c) = Some t" and due: "due = filter (\<lambda>tm. tm_expires tm \<le> J) (timers c)"
  shows "\<exists>c' k. clock_handler resume c 0x20 = Some c' \<and> clock_inv c' \<and> jiffies (kern c') = J \<and>
     timers c' = filter (\<lambda>tm. J < tm_expires tm) (timers c) \<and> eois c' = eois c @ [0x20] \<and>
     (\<forall>tm \<in> set (timers c). tm_handler tm = H_task_wakeup \<and> tm_expires tm \<le> J \<longrightarrow>
        (\<exists>t. task_at (kern c') (tm_task tm) = Some t \<and>
           (t_state t = TASK_READY \<or> t_state t = TASK_RUNNING \<and> cur (kern c') = tm_task tm))) \<and>
     (\<exists>t'. task_at (kern c') (cur (kern c)) = Some t' \<and>
        t_ticks t' = (if t_ticks t = 1 then t_priority t else t_ticks t - 1)) \<and>
     task_list k = map (ticked J due (kern c)) [0..<64] \<and> cur k = cur (kern c) \<and> waiting k = waiting (kern c) \<and>
     cpu k = cpu (kern c) \<and> jiffies k = J \<and>
     (if t_ticks t = 1 then scheduled resume k (kern c') else kern c' = k) \<and>
     beeping c' = (beeping c \<and> H_stop_beep \<notin> tm_handler ` set due) \<and>
     speaker c' = (if beeping c \<and> H_stop_beep \<in> tm_handler ` set due then speaker c AND 0xFC else speaker c)"
proof -
  define c0 where "c0 = c\<lparr>kern := (kern c)\<lparr>jiffies := J\<rparr>\<rparr>"
  have key: "sorted (map timer_key (timers c))" "\<forall>tm \<in> set (timers c). 0 \<le> timer_key tm"
    using inv by (simp_all add: clock_inv_def timers_ok_def)
  have left: "dropWhile (\<lambda>tm. tm_expires tm \<le> J) (timers c) = filter (\<lambda>tm. J < tm_expires tm) (timers c)"
    by (rule expired_prefix [OF key])
  have first: "takeWhile (\<lambda>tm. tm_expires tm \<le> J) (timers c) = due"
    unfolding due by (rule expired_first [OF key])
  have inv0: "clock_inv c0" using inv by (simp add: c0_def clock_inv_def ticks_ok_def timers_ok_def sleeper_def)
  have c0: "jiffies (kern c0) = J" "timers c0 = timers c" "cur (kern c0) = cur (kern c)" "waiting (kern c0) = waiting (kern c)"
      "cpu (kern c0) = cpu (kern c)" "intr_on c0 = intr_on c" "eois c0 = eois c" "beeping c0 = beeping c" "speaker c0 = speaker c"
    by (simp_all add: c0_def)
  obtain c1 where c1: "timer_wakeup c0 = Some c1" "clock_inv c1" "eois c1 = eois c"
      "timers c1 = filter (\<lambda>tm. J < tm_expires tm) (timers c)" "jiffies (kern c1) = J" "cur (kern c1) = cur (kern c)"
      "waiting (kern c1) = waiting (kern c)" "cpu (kern c1) = cpu (kern c)"
      and at1: "task_at (kern c1) = after_timers due (kern c0)"
      and beep: "beeping c1 = (beeping c \<and> \<not> stops_beep due)"
        "speaker c1 = (if beeping c \<and> stops_beep due then speaker c AND 0xFC else speaker c)"
    using timer_wakeup_ok [OF inv0, unfolded c0, OF off J(2) first [symmetric]] left by auto
  have tk: "ticked J due (kern c) n = (if n = cur (kern c) then map_option (charged J) (task_at (kern c1) n) else task_at (kern c1) n)" for n
    using ticked_after [of "kern c" "timers c" due J n] inv
    by (auto simp: at1 clock_inv_def due after_timers_def c0_def)
  have t1: "get_current (kern c1) = Some t"
    using tk [of "cur (kern c)"] t c1(6) inv
    by (auto simp: get_current_def at1 after_timers_def c0_def clock_inv_def timers_ok_def sleeper_def due sleepers_def)
  define k where "k = put_task (kern c1) (cur (kern c1)) (charged J t)"
  obtain k' where k': "clock_handler resume c 0x20 = Some (c1\<lparr>eois := eois c @ [0x20], kern := k'\<rparr>)"
      "clock_inv (c1\<lparr>eois := eois c @ [0x20], kern := k'\<rparr>)" "jiffies k' = J"
      "if t_ticks t = 1 then scheduled resume k k' else k' = k"
    using clock_handler_tail [OF c1(1) [unfolded c0_def] J(1) c1(2,3,5) t1 k_def] by blast
  have at: "task_at k = ticked J due (kern c)"
    using t1 c1(6) task_at_bound [of "kern c1" "cur (kern c1)" t] by (auto simp: k_def tk fun_eq_iff get_current_def)
  have len: "length (task_list k) = 64" using c1(2) by (simp add: k_def clock_inv_def sched_inv_def)
  have kf: "task_list k = map (ticked J due (kern c)) [0..<64]" "cur k = cur (kern c)" "waiting k = waiting (kern c)"
      "cpu k = cpu (kern c)" "jiffies k = J"
    using task_list_at [OF len] at c1 by (simp_all add: k_def)
  have kept: "\<exists>s'. task_at k' n = Some s' \<and> t_ticks s' = t_ticks s \<and>
      (t_state s = TASK_READY \<longrightarrow> t_state s' = TASK_READY \<or> t_state s' = TASK_RUNNING \<and> cur k' = n)"
    if "task_at k n = Some s" for n s
    using k'(4) scheduled_task [of resume k k' n s] that by (cases "t_ticks t = 1") auto
  have self: "task_at k (cur (kern c)) = Some (charged J t)" using t by (simp add: at ticked_def get_current_def)
  have ready: "\<exists>s. task_at k (tm_task tm) = Some s \<and> t_state s = TASK_READY"
    if "tm \<in> set (timers c)" "tm_handler tm = H_task_wakeup" "tm_expires tm \<le> J" for tm
  proof -
    have "sleeper (kern c) (tm_task tm)" using inv that(1,2) by (auto simp: clock_inv_def timers_ok_def sleepers_def)
    then show ?thesis using that by (auto simp: at ticked_def sleeper_def due woken_def)
  qed
  have "\<exists>s. task_at k' (tm_task tm) = Some s \<and> (t_state s = TASK_READY \<or> t_state s = TASK_RUNNING \<and> cur k' = tm_task tm)"
    if "tm \<in> set (timers c)" "tm_handler tm = H_task_wakeup" "tm_expires tm \<le> J" for tm
    using ready [OF that] kept by blast
  moreover have "\<exists>t'. task_at k' (cur (kern c)) = Some t' \<and> t_ticks t' = (if t_ticks t = 1 then t_priority t else t_ticks t - 1)"
    using kept [OF self] by (auto simp: charged_def)
  ultimately show ?thesis
    using k' kf c1(4) beep by (intro exI [of _ "c1\<lparr>eois := eois c @ [0x20], kern := k'\<rparr>"] exI [of _ k]) (simp add: stops_beep_def)
qed

text \<open>
  A clock with the idle task in its last tick, task 1 asleep until tick 7, the beeper due at 7
  and another time at 9. The idle task gets a new slice of one tick and the beeper falls silent.
\<close>

theorem clock_handler_fires_expired_witness:
  "\<exists>c c'. timers c = [\<lparr>tm_task = 1, tm_expires = 7, tm_handler = H_task_wakeup, tm_active = False\<rparr>,
       \<lparr>tm_task = 1, tm_expires = 7, tm_handler = H_stop_beep, tm_active = False\<rparr>,
       \<lparr>tm_task = 1, tm_expires = 9, tm_handler = H_stop_beep, tm_active = False\<rparr>] \<and>
     clock_handler 0xC0000300 c 0x20 = Some c' \<and> clock_inv c' \<and> beeping c \<and> \<not> beeping c' \<and> speaker c = 0x33 \<and> speaker c' = 0x30 \<and>
     (\<exists>t. task_at (kern c') 0 = Some t \<and> t_ticks t = 1) \<and>
     timers c' = [\<lparr>tm_task = 1, tm_expires = 9, tm_handler = H_stop_beep, tm_active = False\<rparr>]"
proof -
  let ?t0 = "(zero_task 0)\<lparr>t_magic := LIGHTOS_MAGIC, t_state := TASK_READY, t_ticks := 1, t_priority := 1\<rparr>"
  let ?t1 = "(zero_task 0)\<lparr>t_pid := 1, t_magic := LIGHTOS_MAGIC, t_state := TASK_SLEEPING, t_ticks := 5, t_priority := 5\<rparr>"
  define k where "k = no_tasks\<lparr>task_list := Some ?t0 # Some ?t1 # replicate 62 None, jiffies := 6\<rparr>"
  define ts where "ts = [\<lparr>tm_task = 1, tm_expires = 7, tm_handler = H_task_wakeup, tm_active = False\<rparr>,
       \<lparr>tm_task = 1, tm_expires = 7, tm_handler = H_stop_beep, tm_active = False\<rparr>,
       \<lparr>tm_task = 1, tm_expires = 9, tm_handler = H_stop_beep, tm_active = False\<rparr>]"
  define c where "c = \<lparr>kern = k, timers = ts, beeping = True, speaker = 0x33, startup_time = 0, intr_on = False, eois = []\<rparr>"
  have at: "task_at k n = (if n = 0 then Some ?t0 else if n = 1 then Some ?t1 else None)" for n
    by (cases n; cases "n - 1") (auto simp: task_at_def k_def nth_Cons')
  have w: "waiting k = (\<lambda>_. [])" "length (task_list k) = 64" "cur k = 0" by (simp_all add: k_def no_tasks_def)
  have "sched_inv k" by (auto simp: sched_inv_def idle_ok_def slot_ok_def at w zero_task_def split: if_splits)
  moreover have "ticks_ok k" by (auto simp: ticks_ok_def at split: if_splits)
  moreover have "timers_ok k ts"
    by (simp add: timers_ok_def ts_def timer_key_def sleeper_def at zero_task_def w)
  ultimately have inv: "clock_inv c" by (simp add: clock_inv_def c_def)
  have now: "7 = jiffies (kern c) + 1" "(7 :: u32) \<noteq> EOF" "\<not> intr_on c" by (simp_all add: c_def k_def EOF_def)
  have t0: "get_current (kern c) = Some ?t0" by (simp add: c_def get_current_def at w)
  obtain c' k1 where c': "clock_handler 0xC0000300 c 0x20 = Some c'" "clock_inv c'"
      "\<exists>t. task_at (kern c') (cur (kern c)) = Some t \<and> t_ticks t = (if t_ticks ?t0 = 1 then t_priority ?t0 else t_ticks ?t0 - 1)"
      "timers c' = filter (\<lambda>tm. 7 < tm_expires tm) (timers c)"
      "beeping c' = (beeping c \<and> H_stop_beep \<notin> tm_handler ` set (filter (\<lambda>tm. tm_expires tm \<le> 7) (timers c)))"
      "speaker c' = (if beeping c \<and> H_stop_beep \<in> tm_handler ` set (filter (\<lambda>tm. tm_expires tm \<le> 7) (timers c)) then speaker c AND 0xFC else speaker c)"
    using clock_handler_fires_expired [OF inv now(3,1,2) t0 refl, of "0xC0000300"] by blast
  moreover have "\<exists>t. task_at (kern c') 0 = Some t \<and> t_ticks t = 1" using c'(3) by (simp add: c_def w)
  moreover have "timers c' = [\<lparr>tm_task = 1, tm_expires = 9, tm_handler = H_stop_beep, tm_active = False\<rparr>]"
      "\<not> beeping c'" "speaker c' = 0x30"
    using c'(4-6) by (simp_all add: c_def ts_def)
  moreover have "timers c = ts" "beeping c" "speaker c = 0x33" by (simp_all add: c_def)
  ultimately show ?thesis unfolding ts_def by blast
qed

end
