(* ===== verification/Keyboard.thy ===== *)
theory Keyboard
  imports Kfifo Signal
begin

text \<open>
  \<^verbatim>\<open>src/kernel/keyboard.c\<close> and \<^verbatim>\<open>src/kernel/tty.c\<close>: the scan code machine of the keyboard
  interrupt and the terminal it reports to. The state holds the key map (two characters and two
  pressed flags per key, as in the C table), the lock and extension flags, the input ring, the
  waiting reader, the task table, the terminal's process group, and the hardware: the bytes the
  two ports will return, the bytes written to the data port, the interrupts acknowledged, and
  the strings the terminal passed to its output device. A loop that polls a port ends with
  \<open>None\<close> when the hardware never answers.

  Shown: for every scan code sequence the handler keeps the map's characters, and the pressed
  flags are exactly the keys whose last event was a make code; letters follow shift and caps
  lock; a plain key press hands one character to the waiting reader and wakes it.
\<close>

section \<open>Keys\<close>

definition KEY_SLASH :: nat where "KEY_SLASH = 0x35"
definition KEY_CTRL_L :: nat where "KEY_CTRL_L = 0x1D"
definition KEY_SHIFT_L :: nat where "KEY_SHIFT_L = 0x2A"
definition KEY_SHIFT_R :: nat where "KEY_SHIFT_R = 0x36"
definition KEY_ALT_L :: nat where "KEY_ALT_L = 0x38"
definition KEY_CAPSLOCK :: nat where "KEY_CAPSLOCK = 0x3A"
definition KEY_NUMLOCK :: nat where "KEY_NUMLOCK = 0x45"
definition KEY_SCRLOCK :: nat where "KEY_SCRLOCK = 0x46"
definition KEY_PRINT_SCREEN :: nat where "KEY_PRINT_SCREEN = 0x5F"

definition KEYBOARD_CMD_LED :: u8 where "KEYBOARD_CMD_LED = 0xED"
definition KEYBOARD_CMD_ACK :: u8 where "KEYBOARD_CMD_ACK = 0xFA"
definition KEYBOARD_CMD_RESEND :: u8 where "KEYBOARD_CMD_RESEND = 0xFE"
definition CODE_PRINT_SCREEN_DOWN :: u16 where "CODE_PRINT_SCREEN_DOWN = 0xB7"
definition KEYBOARD_BUFFER_SIZE :: nat where "KEYBOARD_BUFFER_SIZE = 64"

text \<open>The two characters of each key, without and with shift; 0 is no character.\<close>

definition key_chars :: "(u8 \<times> u8) list" where
  "key_chars =
    [(0x00, 0x00), (0x1B, 0x1B), (0x31, 0x21), (0x32, 0x40), (0x33, 0x23), (0x34, 0x24),
     (0x35, 0x25), (0x36, 0x5E), (0x37, 0x26), (0x38, 0x2A), (0x39, 0x28), (0x30, 0x29),
     (0x2D, 0x5F), (0x3D, 0x2B), (0x08, 0x08), (0x09, 0x09), (0x71, 0x51), (0x77, 0x57),
     (0x65, 0x45), (0x72, 0x52), (0x74, 0x54), (0x79, 0x59), (0x75, 0x55), (0x69, 0x49),
     (0x6F, 0x4F), (0x70, 0x50), (0x5B, 0x7B), (0x5D, 0x7D), (0x0A, 0x0A), (0x00, 0x00),
     (0x61, 0x41), (0x73, 0x53), (0x64, 0x44), (0x66, 0x46), (0x67, 0x47), (0x68, 0x48),
     (0x6A, 0x4A), (0x6B, 0x4B), (0x6C, 0x4C), (0x3B, 0x3A), (0x27, 0x22), (0x60, 0x7E),
     (0x00, 0x00), (0x5C, 0x7C), (0x7A, 0x5A), (0x78, 0x58), (0x63, 0x43), (0x76, 0x56),
     (0x62, 0x42), (0x6E, 0x4E), (0x6D, 0x4D), (0x2C, 0x3C), (0x2E, 0x3E), (0x2F, 0x3F),
     (0x00, 0x00), (0x2A, 0x2A), (0x00, 0x00), (0x20, 0x20), (0x00, 0x00), (0x00, 0x00),
     (0x00, 0x00), (0x00, 0x00), (0x00, 0x00), (0x00, 0x00), (0x00, 0x00), (0x00, 0x00),
     (0x00, 0x00), (0x00, 0x00), (0x00, 0x00), (0x00, 0x00), (0x00, 0x00), (0x37, 0x00),
     (0x38, 0x00), (0x39, 0x00), (0x2D, 0x2D), (0x34, 0x00), (0x35, 0x00), (0x36, 0x00),
     (0x2B, 0x2B), (0x31, 0x00), (0x32, 0x00), (0x33, 0x00), (0x30, 0x00), (0x2E, 0x7F),
     (0x00, 0x00), (0x00, 0x00), (0x00, 0x00), (0x00, 0x00), (0x00, 0x00), (0x00, 0x00),
     (0x00, 0x00), (0x00, 0x00), (0x00, 0x00), (0x00, 0x00), (0x00, 0x00), (0x00, 0x00)]"

definition keymap_init :: "u8 list list" where
  "keymap_init = map (\<lambda>(a, b). [a, b, 0, 0]) key_chars"

record tty =
  tty_pgid :: u32
  tty_echo :: bool
  tty_out :: "u8 list list"

record keyboard =
  keymap :: "u8 list list"
  capslock :: bool
  scrlock :: bool
  numlock :: bool
  extcode :: bool
  kb_fifo :: kfifo
  fg_task :: "nat option"
  kb_kern :: kernel
  kb_tty :: tty
  data_in :: "u8 list"
  status_in :: "u8 list"
  data_out :: "u8 list"
  kb_eois :: "u32 list"

definition key_cell :: "keyboard \<Rightarrow> nat \<Rightarrow> nat \<Rightarrow> u8 option" where
  "key_cell kb code col = do { row \<leftarrow> aget (keymap kb) code; aget row col }"

definition set_key_cell :: "keyboard \<Rightarrow> nat \<Rightarrow> nat \<Rightarrow> bool \<Rightarrow> keyboard option" where
  "set_key_cell kb code col v = do {
     row \<leftarrow> aget (keymap kb) code;
     row \<leftarrow> aset row col (if v then 1 else 0);
     km \<leftarrow> aset (keymap kb) code row;
     Some (kb\<lparr>keymap := km\<rparr>) }"

text \<open>The macros \<^verbatim>\<open>ctrl_state\<close>, \<^verbatim>\<open>alt_state\<close> and \<^verbatim>\<open>shift_state\<close>.\<close>

definition ctrl_state :: "keyboard \<Rightarrow> bool option" where
  "ctrl_state kb = do { a \<leftarrow> key_cell kb KEY_CTRL_L 2; b \<leftarrow> key_cell kb KEY_CTRL_L 3; Some (a \<noteq> 0 \<or> b \<noteq> 0) }"

definition alt_state :: "keyboard \<Rightarrow> bool option" where
  "alt_state kb = do { a \<leftarrow> key_cell kb KEY_ALT_L 2; b \<leftarrow> key_cell kb KEY_ALT_L 3; Some (a \<noteq> 0 \<or> b \<noteq> 0) }"

definition shift_state :: "keyboard \<Rightarrow> bool option" where
  "shift_state kb = do { a \<leftarrow> key_cell kb KEY_SHIFT_L 2; b \<leftarrow> key_cell kb KEY_SHIFT_R 2; Some (a \<noteq> 0 \<or> b \<noteq> 0) }"

section \<open>The controller\<close>

definition inb_data :: "keyboard \<Rightarrow> (u8 \<times> keyboard) option" where
  "inb_data kb = (case data_in kb of [] \<Rightarrow> None | b # bs \<Rightarrow> Some (b, kb\<lparr>data_in := bs\<rparr>))"

text \<open>Poll the status port until its input-buffer bit is clear.\<close>

fun wait_ready :: "u8 list \<Rightarrow> u8 list option" where
  "wait_ready [] = None"
| "wait_ready (s # ss) = (if s AND 2 \<noteq> 0 then wait_ready ss else Some ss)"

definition keyboard_wait :: "keyboard \<Rightarrow> keyboard option" where
  "keyboard_wait kb = do { ss \<leftarrow> wait_ready (status_in kb); Some (kb\<lparr>status_in := ss\<rparr>) }"

text \<open>Read until acknowledged; \<^verbatim>\<open>false\<close> when the controller asks for the command again.\<close>

fun wait_ack :: "u8 list \<Rightarrow> (bool \<times> u8 list) option" where
  "wait_ack [] = None"
| "wait_ack (b # bs) =
     (if b = KEYBOARD_CMD_RESEND then Some (False, bs)
      else if b \<noteq> KEYBOARD_CMD_ACK then wait_ack bs
      else Some (True, bs))"

definition keyboard_ack :: "keyboard \<Rightarrow> (bool \<times> keyboard) option" where
  "keyboard_ack kb = do { (ok, bs) \<leftarrow> wait_ack (data_in kb); Some (ok, kb\<lparr>data_in := bs\<rparr>) }"

definition outb_data :: "keyboard \<Rightarrow> u8 \<Rightarrow> keyboard" where
  "outb_data kb b = kb\<lparr>data_out := data_out kb @ [b]\<rparr>"

definition led_byte :: "keyboard \<Rightarrow> u8" where
  "led_byte kb = push_bit 2 (if capslock kb then 1 else 0) OR push_bit 1 (if numlock kb then 1 else 0) OR
     (if scrlock kb then 1 else 0)"

definition set_led :: "keyboard \<Rightarrow> keyboard option" where
  "set_led kb = do {
     let leds = led_byte kb;
     kb \<leftarrow> keyboard_wait kb;
     let kb = outb_data kb KEYBOARD_CMD_LED;
     (ok, kb) \<leftarrow> keyboard_ack kb;
     if \<not> ok then Some kb
     else do {
       kb \<leftarrow> keyboard_wait kb;
       let kb = outb_data kb leds;
       (ok, kb) \<leftarrow> keyboard_ack kb;
       Some kb } }"

section \<open>The terminal\<close>

text \<open>SIGINT to every task of the foreground group, in table order.\<close>

fun tty_intr_loop :: "kernel \<Rightarrow> u32 \<Rightarrow> nat list \<Rightarrow> kernel option" where
  "tty_intr_loop k pgid [] = Some k"
| "tty_intr_loop k pgid (i # is) =
     (case task_at k i of
        None \<Rightarrow> tty_intr_loop k pgid is
      | Some t \<Rightarrow>
          if t_pgid t \<noteq> pgid then tty_intr_loop k pgid is
          else do { (r, k) \<leftarrow> sys_kill k (t_pid t) (of_nat SIGINT); tty_intr_loop k pgid is })"

definition tty_intr :: "keyboard \<Rightarrow> keyboard option" where
  "tty_intr kb =
     (if tty_pgid (kb_tty kb) = 0 then Some kb
      else do {
        k \<leftarrow> tty_intr_loop (kb_kern kb) (tty_pgid (kb_tty kb)) [0..<unat TASK_NR];
        Some (kb\<lparr>kb_kern := k\<rparr>) })"

text \<open>The clear-screen string of Ctrl-L, twelve bytes.\<close>

definition clear_string :: "u8 list" where
  "clear_string = [0x1B, 0x5B, 0x32, 0x4A, 0x1B, 0x5B, 0x30, 0x3B, 0x30, 0x48, 0x0D, 0x00]"

text \<open>The result, the possibly changed character and the new state.\<close>

definition tty_rx_notify :: "keyboard \<Rightarrow> u8 \<Rightarrow> bool \<Rightarrow> bool \<Rightarrow> bool \<Rightarrow> (int \<times> u8 \<times> keyboard) option" where
  "tty_rx_notify kb ch ctrl shift alt =
     (let ch = (if ch = 0x0D then 0x0A else ch) in
      if \<not> ctrl then Some (0, ch, kb)
      else if ch = 0x63 \<or> ch = 0x43 then do { kb \<leftarrow> tty_intr kb; Some (0, 0x0A, kb) }
      else if ch = 0x6C \<or> ch = 0x4C then
        Some (0, 0x0D, kb\<lparr>kb_tty := (kb_tty kb)\<lparr>tty_out := tty_out (kb_tty kb) @ [clear_string]\<rparr>\<rparr>)
      else Some (1, ch, kb))"

definition TIOCSPGRP :: u32 where "TIOCSPGRP = 0x5410"
definition EINVAL :: u32 where "EINVAL = 22"

definition tty_ioctl :: "tty \<Rightarrow> u32 \<Rightarrow> u32 \<Rightarrow> u32 \<times> tty" where
  "tty_ioctl t cmd args = (if cmd = TIOCSPGRP then (0, t\<lparr>tty_pgid := args\<rparr>) else (- EINVAL, t))"

section \<open>The interrupt handler\<close>

text \<open>The character of a pressed key.\<close>

definition key_char :: "keyboard \<Rightarrow> nat \<Rightarrow> nat \<Rightarrow> u8 option" where
  "key_char kb makecode ext = do {
     c0 \<leftarrow> key_cell kb makecode 0;
     shift \<leftarrow> shift_state kb;
     if ext = 3 \<and> makecode \<noteq> KEY_SLASH then key_cell kb makecode 1
     else if 0x47 \<le> makecode \<and> makecode \<le> 0x53 then key_cell kb makecode (if \<not> numlock kb then 1 else 0)
     else if 0x61 \<le> c0 \<and> c0 \<le> 0x7A then key_cell kb makecode (if capslock kb \<noteq> shift then 1 else 0)
     else key_cell kb makecode (if shift then 1 else 0) }"

text \<open>From the pressed key on: locks, character, terminal, waiting reader.\<close>

definition key_pressed :: "keyboard \<Rightarrow> nat \<Rightarrow> nat \<Rightarrow> keyboard option" where
  "key_pressed kb makecode ext =
     (if makecode = KEY_NUMLOCK then set_led (kb\<lparr>numlock := \<not> numlock kb\<rparr>)
      else if makecode = KEY_CAPSLOCK then set_led (kb\<lparr>capslock := \<not> capslock kb\<rparr>)
      else if makecode = KEY_SCRLOCK then set_led (kb\<lparr>scrlock := \<not> scrlock kb\<rparr>)
      else do {
        ch \<leftarrow> key_char kb makecode ext;
        if ch = 0 then Some kb
        else do {
          ctrl \<leftarrow> ctrl_state kb;
          shift \<leftarrow> shift_state kb;
          alt \<leftarrow> alt_state kb;
          (r, ch, kb) \<leftarrow> tty_rx_notify kb ch ctrl shift alt;
          if r > 0 then Some kb
          else case fg_task kb of
            None \<Rightarrow> Some kb
          | Some n \<Rightarrow> do {
              fifo \<leftarrow> kfifo_put (kb_fifo kb) ch;
              k \<leftarrow> task_intr_unblock_no_waiting_list (kb_kern kb) n;
              Some (kb\<lparr>kb_fifo := fifo, kb_kern := k, fg_task := None\<rparr>) } } })"

definition keyboard_handler :: "keyboard \<Rightarrow> u32 \<Rightarrow> keyboard option" where
  "keyboard_handler kb vector = do {
     kassert (vector = 0x21);
     let kb = kb\<lparr>kb_eois := kb_eois kb @ [vector]\<rparr>;
     (b, kb) \<leftarrow> inb_data kb;
     let scancode = (ucast b :: u16);
     if scancode = 0xE0 then Some (kb\<lparr>extcode := True\<rparr>)
     else do {
       let ext = (if extcode kb then 3 else 2 :: nat);
       let scancode = (if extcode kb then scancode OR 0xE000 else scancode);
       let kb = kb\<lparr>extcode := False\<rparr>;
       let makecode = scancode AND 0x7F;
       let makecode = (if makecode = CODE_PRINT_SCREEN_DOWN then KEY_PRINT_SCREEN else unat makecode);
       if makecode > KEY_PRINT_SCREEN then Some kb
       else if scancode AND 0x80 \<noteq> 0 then set_key_cell kb makecode ext False
       else do {
         kb \<leftarrow> set_key_cell kb makecode ext True;
         key_pressed kb makecode ext } } }"

text \<open>
  \<^verbatim>\<open>keyboard_read\<close> up to its next sleep: it takes what the ring holds and is done when that is
  all it was asked for; otherwise the reader becomes the waiting task and blocks, to go on with
  the rest of its count when a key wakes it.
\<close>

fun kb_drain :: "kfifo \<Rightarrow> nat \<Rightarrow> (u8 list \<times> kfifo) option" where
  "kb_drain f 0 = Some ([], f)"
| "kb_drain f (Suc n) =
     (if kfifo_empty f then Some ([], f)
      else do { (b, f) \<leftarrow> kfifo_get f; (bs, f) \<leftarrow> kb_drain f n; Some (b # bs, f) })"

definition keyboard_read :: "u32 \<Rightarrow> keyboard \<Rightarrow> nat \<Rightarrow> (u8 list \<times> bool \<times> keyboard) option" where
  "keyboard_read resume kb count = do {
     (bs, fifo) \<leftarrow> kb_drain (kb_fifo kb) count;
     let kb = kb\<lparr>kb_fifo := fifo\<rparr>;
     if length bs = count then Some (bs, True, kb)
     else do {
       let kb = kb\<lparr>fg_task := Some (cur (kb_kern kb))\<rparr>;
       k \<leftarrow> task_block resume (kb_kern kb) (cur (kb_kern kb)) None TASK_BLOCKED;
       Some (bs, False, kb\<lparr>kb_kern := k\<rparr>) } }"


text \<open>\<^verbatim>\<open>keyboard_init\<close>: an empty ring, no reader, the LEDs set (interrupt and device tables are elsewhere).\<close>

definition keyboard_init :: "keyboard \<Rightarrow> keyboard option" where
  "keyboard_init kb =
     (let kb = kb\<lparr>kb_fifo := kfifo_init (buf (kb_fifo kb)) (of_nat KEYBOARD_BUFFER_SIZE), fg_task := None\<rparr> in
      set_led kb)"

section \<open>The key map\<close>

definition keymap_ok :: "u8 list list \<Rightarrow> bool" where
  "keymap_ok km \<longleftrightarrow> length km = 96 \<and>
     (\<forall>c<96. length (km ! c) = 4 \<and> km ! c ! 0 = fst (key_chars ! c) \<and> km ! c ! 1 = snd (key_chars ! c))"

text \<open>The pressed keys: make codes with the index (2 plain, 3 extended) of the flag that is set.\<close>

definition pressed :: "keyboard \<Rightarrow> (nat \<times> nat) set" where
  "pressed kb = {(c, e). c < 96 \<and> e \<in> {2, 3} \<and> keymap kb ! c ! e \<noteq> 0}"

text \<open>What the stream of bytes means: a prefix byte, make codes and break codes.\<close>

fun scan_step :: "bool \<times> (nat \<times> nat) set \<Rightarrow> u8 \<Rightarrow> bool \<times> (nat \<times> nat) set" where
  "scan_step (ext, P) b =
     (let c = unat (b AND 0x7F); e = (if ext then 3 else 2) in
      if b = 0xE0 then (True, P)
      else if c > 0x5F then (False, P)
      else if bit b 7 then (False, P - {(c, e)})
      else (False, insert (c, e) P))"

text \<open>A run of interrupts, each with the bytes the two ports deliver during it.\<close>

fun irq_run :: "keyboard \<Rightarrow> (u8 list \<times> u8 list) list \<Rightarrow> keyboard option" where
  "irq_run kb [] = Some kb"
| "irq_run kb ((bytes, stats) # irqs) =
     do { kb \<leftarrow> keyboard_handler (kb\<lparr>data_in := bytes, status_in := stats\<rparr>) 0x21; irq_run kb irqs }"

lemma length_key_chars: "length key_chars = 96"
  by (simp add: key_chars_def)

lemma keymap_init_ok: "keymap_ok keymap_init"
  by (simp add: keymap_ok_def keymap_init_def length_key_chars case_prod_unfold)

lemma set_led_keeps:
  "set_led kb = Some kb' \<Longrightarrow>
     \<exists>ss out bs. kb' = kb\<lparr>status_in := ss, data_out := out, data_in := bs\<rparr>"
  apply (auto simp: set_led_def keyboard_wait_def keyboard_ack_def outb_data_def Let_def
      split: if_splits prod.splits elim!: bind_eq_SomeE)
  subgoal by blast
  subgoal by blast
  done

lemma tty_rx_keeps:
  "tty_rx_notify kb ch c s a = Some (r, ch', kb') \<Longrightarrow> keymap kb' = keymap kb \<and> extcode kb' = extcode kb"
  by (auto simp: tty_rx_notify_def tty_intr_def Let_def split: if_splits elim!: bind_eq_SomeE)

lemma key_pressed_keeps:
  assumes "key_pressed kb m e = Some kb'"
  shows "keymap kb' = keymap kb \<and> extcode kb' = extcode kb"
  using assms
  by (auto simp: key_pressed_def dest!: set_led_keeps tty_rx_keeps split: if_splits option.splits prod.splits
      elim!: bind_eq_SomeE)

lemma set_key_cell_ok:
  assumes "keymap_ok (keymap kb)" "c < 96" "e \<in> {2, 3}"
  shows "\<exists>kb'. set_key_cell kb c e v = Some kb' \<and> kb' = kb\<lparr>keymap := (keymap kb)[c := (keymap kb ! c)[e := if v then 1 else 0]]\<rparr>
     \<and> keymap_ok (keymap kb') \<and> pressed kb' = (if v then insert (c, e) (pressed kb) else pressed kb - {(c, e)})"
proof -
  have len: "length (keymap kb) = 96" "length (keymap kb ! c) = 4" using assms by (auto simp: keymap_ok_def)
  let ?kb = "kb\<lparr>keymap := (keymap kb)[c := (keymap kb ! c)[e := if v then 1 else 0]]\<rparr>"
  have "set_key_cell kb c e v = Some ?kb" using assms len by (auto simp: set_key_cell_def)
  moreover have "keymap_ok (keymap ?kb)"
    using assms len by (auto simp: keymap_ok_def nth_list_update)
  moreover have "pressed ?kb = (if v then insert (c, e) (pressed kb) else pressed kb - {(c, e)})"
    using assms len by (auto simp: pressed_def nth_list_update split: if_splits)
  ultimately show ?thesis by blast
qed

lemma scancode_word:
  fixes b :: u8
  shows "unat ((ucast b :: u16) AND 0x7F) = unat (b AND 0x7F)"
    "(ucast b OR 0xE000 :: u16) AND 0x7F = ucast b AND 0x7F"
    "(ucast b :: u16) AND 0x80 \<noteq> 0 \<longleftrightarrow> bit b 7"
    "(ucast b OR 0xE000 :: u16) AND 0x80 \<noteq> 0 \<longleftrightarrow> bit b 7"
    "(ucast b :: u16) = 0xE0 \<longleftrightarrow> b = 0xE0"
proof -
  have m: "(0x7F :: u8) = mask 7" "(0x7F :: u16) = mask 7" by (simp_all add: mask_eq_exp_minus_1)
  show "unat ((ucast b :: u16) AND 0x7F) = unat (b AND 0x7F)"
    unfolding m by (simp flip: take_bit_eq_mask add: unsigned_take_bit_eq unsigned_ucast_eq take_bit_nat_eq_self min_def)
  show "(ucast b OR 0xE000 :: u16) AND 0x7F = ucast b AND 0x7F"
    by (simp add: bit.conj_disj_distrib2)
  have e: "x AND 0x80 \<noteq> 0 \<longleftrightarrow> bit x 7" for x :: u16
    using bit_iff_and_push_bit_not_eq_0 [of x 7] by (simp add: push_bit_eq_mult)
  show "(ucast b :: u16) AND 0x80 \<noteq> 0 \<longleftrightarrow> bit b 7" by (simp only: e) (simp add: bit_ucast_iff)
  have "\<not> bit (0xE000 :: u16) 7" by simp
  then show "(ucast b OR 0xE000 :: u16) AND 0x80 \<noteq> 0 \<longleftrightarrow> bit b 7"
    by (simp only: e bit_or_iff) (simp add: bit_ucast_iff)
  show "(ucast b :: u16) = 0xE0 \<longleftrightarrow> b = 0xE0"
    using unat_lt2p [of b] by (simp add: word_unat_eq_iff unsigned_ucast_eq take_bit_nat_eq_self)
qed


lemma handler_unfold:
  assumes "data_in kb = b # bs" "b \<noteq> 0xE0"
  defines "c \<equiv> unat (b AND 0x7F)" and "e \<equiv> if extcode kb then 3 else 2 :: nat"
    and "k \<equiv> kb\<lparr>kb_eois := kb_eois kb @ [0x21], data_in := bs, extcode := False\<rparr>"
  shows "keyboard_handler kb 0x21 =
     (if c > KEY_PRINT_SCREEN then Some k
      else if bit b 7 then set_key_cell k c e False
      else do { kb \<leftarrow> set_key_cell k c e True; key_pressed kb c e })"
proof -
  have "b AND 0x7F \<le> 0x7F" by (rule word_and_le1)
  then have c: "c \<le> 0x7F" unfolding c_def by (simp add: word_le_nat_alt)
  have ne: "w AND 0x7F \<noteq> CODE_PRINT_SCREEN_DOWN" for w :: u16
    using word_and_le1 [of w "0x7F"] by (auto simp: CODE_PRINT_SCREEN_DOWN_def word_le_nat_alt)
  have w: "(ucast b :: u16) \<noteq> 0xE0" using assms(2) scancode_word(5) [of b] by blast
  show ?thesis
  proof (cases "extcode kb")
    case True
    then have "e = 3" by (simp add: e_def)
    then show ?thesis using w True assms(1) ne scancode_word(1,2,4) [of b] unfolding keyboard_handler_def inb_data_def k_def
      by (simp add: Let_def c_def [symmetric])
  next
    case False
    then have "e = 2" by (simp add: e_def)
    then show ?thesis using w False assms(1) ne scancode_word(1,3) [of b] unfolding keyboard_handler_def inb_data_def k_def
      by (simp add: Let_def c_def [symmetric])
  qed
qed

lemma handler_step:
  assumes "keymap_ok (keymap kb)" "data_in kb = b # bs" "keyboard_handler kb 0x21 = Some kb'"
  shows "keymap_ok (keymap kb') \<and> (extcode kb', pressed kb') = scan_step (extcode kb, pressed kb) b"
proof (cases "b = 0xE0")
  case True
  then show ?thesis using assms scancode_word(5) [of b]
    by (auto simp: keyboard_handler_def inb_data_def pressed_def)
next
  case False
  let ?c = "unat (b AND 0x7F)" and ?e = "if extcode kb then 3 else 2 :: nat"
  let ?kb = "kb\<lparr>kb_eois := kb_eois kb @ [0x21], data_in := bs, extcode := False\<rparr>"
  note h = handler_unfold [OF assms(2) False]
  have P: "pressed ?kb = pressed kb" "keymap_ok (keymap ?kb)" using assms(1) by (auto simp: pressed_def)
  show ?thesis
  proof (cases "?c > KEY_PRINT_SCREEN")
    case True
    then have "kb' = ?kb" using h assms(3) by simp
    then show ?thesis using True P False by (simp add: KEY_PRINT_SCREEN_def Let_def)
  next
    case small: False
    then have c: "?c < 96" by (simp add: KEY_PRINT_SCREEN_def)
    have e: "?e \<in> {2, 3}" by simp
    note cell = set_key_cell_ok [OF P(2) c e]
    show ?thesis
    proof (cases "bit b 7")
      case True
      obtain k1 where k1: "set_key_cell ?kb ?c ?e False = Some k1" "keymap_ok (keymap k1)"
          "pressed k1 = pressed kb - {(?c, ?e)}" "extcode k1 = False"
        using cell [of False] P(1) by auto
      have "kb' = k1" using h assms(3) small True k1(1) by simp
      then show ?thesis using k1 True small False by (simp add: KEY_PRINT_SCREEN_def Let_def)
    next
      case up: False
      obtain k1 where k1: "set_key_cell ?kb ?c ?e True = Some k1" "keymap_ok (keymap k1)"
          "pressed k1 = insert (?c, ?e) (pressed kb)" "extcode k1 = False"
        using cell [of True] P(1) by auto
      have "key_pressed k1 ?c ?e = Some kb'" using h assms(3) small up k1(1) by simp
      from key_pressed_keeps [OF this] have "keymap kb' = keymap k1" "extcode kb' = extcode k1" by auto
      then show ?thesis using k1 up small False by (simp add: KEY_PRINT_SCREEN_def Let_def pressed_def)
    qed
  qed
qed

text \<open>
  A run returns when every interrupt finds its byte and two acknowledgements in the data port
  and a free controller, no reader waits and no process group owns the terminal.
\<close>

definition irq_answered :: "u8 list \<times> u8 list \<Rightarrow> bool" where
  "irq_answered io \<longleftrightarrow> (\<exists>b. fst io = [b, KEYBOARD_CMD_ACK, KEYBOARD_CMD_ACK]) \<and> snd io = [0, 0]"

lemma set_led_returns:
  "data_in kb = [KEYBOARD_CMD_ACK, KEYBOARD_CMD_ACK] \<Longrightarrow> status_in kb = [0, 0] \<Longrightarrow> \<exists>kb'. set_led kb = Some kb'"
  by (simp add: set_led_def keyboard_wait_def keyboard_ack_def outb_data_def Let_def KEYBOARD_CMD_ACK_def
      KEYBOARD_CMD_RESEND_def)

lemma key_cell_in: "keymap_ok (keymap kb) \<Longrightarrow> c < 96 \<Longrightarrow> i < 4 \<Longrightarrow> key_cell kb c i = Some (keymap kb ! c ! i)"
  by (simp add: key_cell_def keymap_ok_def)

lemma modifiers:
  assumes "keymap_ok (keymap kb)"
  shows "ctrl_state kb = Some (\<exists>e. (KEY_CTRL_L, e) \<in> pressed kb)"
    "alt_state kb = Some (\<exists>e. (KEY_ALT_L, e) \<in> pressed kb)"
    "shift_state kb = Some ((KEY_SHIFT_L, 2) \<in> pressed kb \<or> (KEY_SHIFT_R, 2) \<in> pressed kb)"
  using assms
  by (auto simp: ctrl_state_def alt_state_def shift_state_def key_cell_in KEY_CTRL_L_def KEY_ALT_L_def
      KEY_SHIFT_L_def KEY_SHIFT_R_def pressed_def)

lemma key_char_returns: "keymap_ok (keymap kb) \<Longrightarrow> c < 96 \<Longrightarrow> \<exists>ch. key_char kb c e = Some ch"
  by (simp add: key_char_def modifiers key_cell_in)

lemma key_pressed_returns:
  assumes "keymap_ok (keymap kb)" "c < 96" "fg_task kb = None" "tty_pgid (kb_tty kb) = 0"
    "data_in kb = [KEYBOARD_CMD_ACK, KEYBOARD_CMD_ACK]" "status_in kb = [0, 0]"
  shows "\<exists>kb'. key_pressed kb c e = Some kb' \<and> fg_task kb' = None \<and> tty_pgid (kb_tty kb') = 0"
proof -
  obtain ch where "key_char kb c e = Some ch" using key_char_returns [OF assms(1,2)] by blast
  moreover have "\<exists>kb'. set_led k = Some kb' \<and> fg_task kb' = None \<and> tty_pgid (kb_tty kb') = 0"
    if asm: "fg_task k = None" "tty_pgid (kb_tty k) = 0" "data_in k = data_in kb" "status_in k = status_in kb" for k
  proof -
    obtain kb' where "set_led k = Some kb'" using set_led_returns [of k] asm assms by auto
    with set_led_keeps [OF this] asm show ?thesis by auto
  qed
  ultimately show ?thesis using assms
    by (simp add: key_pressed_def modifiers tty_rx_notify_def tty_intr_def Let_def)
qed

lemma handler_returns:
  assumes "keymap_ok (keymap kb)" "fg_task kb = None" "tty_pgid (kb_tty kb) = 0"
    "data_in kb = [b, KEYBOARD_CMD_ACK, KEYBOARD_CMD_ACK]" "status_in kb = [0, 0]"
  shows "\<exists>kb'. keyboard_handler kb 0x21 = Some kb' \<and> fg_task kb' = None \<and> tty_pgid (kb_tty kb') = 0"
proof (cases "b = 0xE0")
  case True
  then show ?thesis using assms scancode_word(5) [of b] by (simp add: keyboard_handler_def inb_data_def)
next
  case False
  let ?c = "unat (b AND 0x7F)" and ?e = "if extcode kb then 3 else 2 :: nat"
  let ?kb = "kb\<lparr>kb_eois := kb_eois kb @ [0x21], data_in := [KEYBOARD_CMD_ACK, KEYBOARD_CMD_ACK], extcode := False\<rparr>"
  note h = handler_unfold [OF assms(4) False]
  show ?thesis
  proof (cases "?c > KEY_PRINT_SCREEN")
    case True
    then show ?thesis using h assms by simp
  next
    case small: False
    then have c: "?c < 96" by (simp add: KEY_PRINT_SCREEN_def)
    have e: "?e \<in> {2, 3}" by simp
    have P: "keymap_ok (keymap ?kb)" using assms(1) by simp
    note cell = set_key_cell_ok [OF P c e]
    show ?thesis
    proof (cases "bit b 7")
      case True
      then show ?thesis using h small cell [of False] assms by auto
    next
      case up: False
      obtain k1 where k1: "set_key_cell ?kb ?c ?e True = Some k1" "keymap_ok (keymap k1)" "fg_task k1 = None"
          "tty_pgid (kb_tty k1) = 0" "data_in k1 = [KEYBOARD_CMD_ACK, KEYBOARD_CMD_ACK]" "status_in k1 = [0, 0]"
        using cell [of True] assms by auto
      from key_pressed_returns [OF k1(2) c k1(3,4,5,6), of ?e] show ?thesis using h small up k1(1) by simp
    qed
  qed
qed

lemma irq_run_returns:
  "keymap_ok (keymap kb) \<Longrightarrow> fg_task kb = None \<Longrightarrow> tty_pgid (kb_tty kb) = 0 \<Longrightarrow> list_all irq_answered irqs \<Longrightarrow>
     irq_run kb irqs \<noteq> None"
proof (induction irqs arbitrary: kb)
  case Nil
  then show ?case by simp
next
  case (Cons io irqs)
  obtain b where io: "io = ([b, KEYBOARD_CMD_ACK, KEYBOARD_CMD_ACK], [0, 0])"
    using Cons.prems(4) by (cases io) (auto simp: irq_answered_def)
  let ?kb = "kb\<lparr>data_in := [b, KEYBOARD_CMD_ACK, KEYBOARD_CMD_ACK], status_in := [0, 0]\<rparr>"
  obtain kb' where kb': "keyboard_handler ?kb 0x21 = Some kb'" "fg_task kb' = None" "tty_pgid (kb_tty kb') = 0"
    using handler_returns [of ?kb b] Cons.prems by auto
  moreover have "keymap_ok (keymap kb')"
    using handler_step [of ?kb b "[KEYBOARD_CMD_ACK, KEYBOARD_CMD_ACK]" kb'] kb'(1) Cons.prems by simp
  ultimately show ?case using Cons io by simp
qed

lemma irq_run_tracks:
  "keymap_ok (keymap kb) \<Longrightarrow> list_all (\<lambda>io. fst io \<noteq> []) irqs \<Longrightarrow> irq_run kb irqs = Some kb' \<Longrightarrow>
     keymap_ok (keymap kb') \<and>
     (extcode kb', pressed kb') = foldl scan_step (extcode kb, pressed kb) (map (hd \<circ> fst) irqs)"
proof (induction irqs arbitrary: kb)
  case Nil
  then show ?case by simp
next
  case (Cons io irqs)
  obtain b bs ss where io: "io = (b # bs, ss)" using Cons.prems(2) by (cases io; cases "fst io") auto
  let ?kb = "kb\<lparr>data_in := b # bs, status_in := ss\<rparr>"
  obtain k where k: "keyboard_handler ?kb 0x21 = Some k" "irq_run k irqs = Some kb'"
    using Cons.prems(3) io by (auto elim!: bind_eq_SomeE)
  have p: "pressed ?kb = pressed kb" by (simp add: pressed_def)
  have "keymap_ok (keymap k) \<and> (extcode k, pressed k) = scan_step (extcode kb, pressed kb) b"
    using handler_step [of ?kb b bs k] k(1) Cons.prems(1) p by (simp del: scan_step.simps)
  then show ?case using Cons.IH [of k] Cons.prems(2) k(2) io by (simp del: scan_step.simps)
qed

lemma letter_table:
  "list_all (\<lambda>c. 0x61 \<le> fst (key_chars ! c) \<and> fst (key_chars ! c) \<le> 0x7A \<longrightarrow>
      snd (key_chars ! c) = fst (key_chars ! c) - 0x20 \<and> fst (key_chars ! c) \<noteq> 0 \<and>
      fst (key_chars ! c) - 0x20 \<noteq> 0 \<and> fst (key_chars ! c) - 0x20 \<noteq> 0x0D \<and>
      c \<notin> {KEY_NUMLOCK, KEY_CAPSLOCK, KEY_SCRLOCK} \<and> \<not> (0x47 \<le> c \<and> c \<le> 0x53)) [0..<96]"
  by code_simp


lemma letter_key:
  assumes "c < 96" "0x61 \<le> fst (key_chars ! c)" "fst (key_chars ! c) \<le> 0x7A"
  shows "snd (key_chars ! c) = fst (key_chars ! c) - 0x20" "fst (key_chars ! c) \<noteq> 0"
    "fst (key_chars ! c) - 0x20 \<noteq> 0" "fst (key_chars ! c) - 0x20 \<noteq> 0x0D" "fst (key_chars ! c) \<noteq> 0x0D"
    "c \<noteq> KEY_NUMLOCK" "c \<noteq> KEY_CAPSLOCK" "c \<noteq> KEY_SCRLOCK" "\<not> (0x47 \<le> c \<and> c \<le> 0x53)"
  using letter_table assms by (auto simp: list_all_iff)

lemma letter_key_char:
  assumes "keymap_ok (keymap kb)" "c < 96" "0x61 \<le> fst (key_chars ! c)" "fst (key_chars ! c) \<le> 0x7A"
  shows "key_char kb c 2 =
     Some (fst (key_chars ! c) - (if capslock kb \<noteq> ((KEY_SHIFT_L, 2) \<in> pressed kb \<or> (KEY_SHIFT_R, 2) \<in> pressed kb)
       then 0x20 else 0))"
proof -
  have k: "keymap kb ! c ! 0 = fst (key_chars ! c)" "keymap kb ! c ! 1 = fst (key_chars ! c) - 0x20"
    using assms letter_key(1) [OF assms(2-)] by (auto simp: keymap_ok_def)
  show ?thesis using assms k letter_key(9) [OF assms(2-)]
    by (auto simp: key_char_def modifiers key_cell_in simp del: One_nat_def)
qed

lemma key_pressed_delivers:
  assumes "keymap_ok (keymap kb)" "key_char kb c 2 = Some ch" "c \<noteq> KEY_NUMLOCK" "c \<noteq> KEY_CAPSLOCK" "c \<noteq> KEY_SCRLOCK"
    and "ch \<noteq> 0" "ch \<noteq> 0x0D" "\<forall>e. (KEY_CTRL_L, e) \<notin> pressed kb"
    and "fg_task kb = Some n" "task_at (kb_kern kb) n = Some t" "t_node t = None" "kfifo_inv (kb_fifo kb)"
  shows "\<exists>fifo. kfifo_put (kb_fifo kb) ch = Some fifo \<and> key_pressed kb c 2 =
     Some (kb\<lparr>kb_fifo := fifo, kb_kern := put_task (kb_kern kb) n (t\<lparr>t_state := TASK_READY\<rparr>), fg_task := None\<rparr>)"
  using kfifo_put_spec [OF assms(12), of ch] assms
  by (auto simp: key_pressed_def modifiers tty_rx_notify_def task_intr_unblock_no_waiting_list_def set_state_def Let_def)

section \<open>Properties\<close>

text \<open>
  C17. For every sequence of keyboard interrupts the characters of the key map stay as compiled
  in, and the extension flag and the pressed flags are what the bytes received so far mean: a
  key's flag is set exactly when its last make or break code was a make code, kept apart for
  the plain and the extended code, and codes beyond the map change nothing. The handler returns
  for every sequence that the controller acknowledges, when no reader and no process group wait.
\<close>

theorem keyboard_tracks_pressed_keys:
  assumes "keymap_ok (keymap kb)" "list_all (\<lambda>io. fst io \<noteq> []) irqs"
  shows "(\<forall>kb'. irq_run kb irqs = Some kb' \<longrightarrow>
       keymap_ok (keymap kb') \<and> (extcode kb', pressed kb') = foldl scan_step (extcode kb, pressed kb) (map (hd \<circ> fst) irqs)) \<and>
     (fg_task kb = None \<and> tty_pgid (kb_tty kb) = 0 \<and> list_all irq_answered irqs \<longrightarrow> irq_run kb irqs \<noteq> None)"
  using irq_run_tracks [OF assms] irq_run_returns [OF assms(1)] by blast

definition boot_keyboard :: keyboard where
  "boot_keyboard = \<lparr>keymap = keymap_init, capslock = False, scrlock = False, numlock = True, extcode = False,
     kb_fifo = kfifo_init (replicate KEYBOARD_BUFFER_SIZE 0) 64, fg_task = None, kb_kern = demo_kernel,
     kb_tty = \<lparr>tty_pgid = 0, tty_echo = True, tty_out = []\<rparr>, data_in = [], status_in = [], data_out = [], kb_eois = []\<rparr>"

lemma boot_keyboard:
  "keymap_ok (keymap boot_keyboard)" "extcode boot_keyboard = False" "pressed boot_keyboard = {}"
  using keymap_init_ok
  by (auto simp: boot_keyboard_def pressed_def keymap_init_def length_key_chars case_prod_unfold)

text \<open>Right control down, left shift down, left shift up.\<close>

theorem keyboard_tracks_pressed_keys_witness:
  "\<exists>kb'. irq_run boot_keyboard (map (\<lambda>b. ([b, 0xFA, 0xFA], [0, 0])) [0xE0, 0x1D, 0x2A, 0xAA]) = Some kb' \<and>
     extcode kb' = False \<and> pressed kb' = {(0x1D, 3)}"
proof -
  let ?irqs = "map (\<lambda>b. ([b, 0xFA, 0xFA], [0, 0])) [0xE0, 0x1D, 0x2A, 0xAA :: u8] :: (u8 list \<times> u8 list) list"
  have a: "list_all irq_answered ?irqs" by (simp add: irq_answered_def KEYBOARD_CMD_ACK_def)
  have ne: "list_all (\<lambda>io. fst io \<noteq> []) ?irqs" by simp
  have idle: "fg_task boot_keyboard = None" "tty_pgid (kb_tty boot_keyboard) = 0" by (simp_all add: boot_keyboard_def)
  note t = keyboard_tracks_pressed_keys [OF boot_keyboard(1) ne]
  then obtain kb' where kb': "irq_run boot_keyboard ?irqs = Some kb'" using a idle by blast
  then have "(extcode kb', pressed kb') = foldl scan_step (extcode boot_keyboard, pressed boot_keyboard) (map (hd \<circ> fst) ?irqs)"
    using t by blast
  also have "\<dots> = (False, {(0x1D, 3)})" by (auto simp: boot_keyboard Let_def)
  finally show ?thesis using kb' by auto
qed

text \<open>
  A letter key pressed without control, while a reader waits, queues exactly one character
  (pushing out the oldest when the ring is full), makes the reader ready and forgets it, touches
  no other task and acknowledges the interrupt. The character is the capital letter exactly when
  one of caps lock and shift is on and the other is not.
\<close>

lemma letter_key_reaches_reader:
  assumes "keymap_ok (keymap kb)" "data_in kb = b # bs" "\<not> extcode kb"
    and "unat b < 96" "0x61 \<le> fst (key_chars ! unat b)" "fst (key_chars ! unat b) \<le> 0x7A"
    and "\<forall>e. (KEY_CTRL_L, e) \<notin> pressed kb" "kfifo_inv (kb_fifo kb)"
    and "fg_task kb = Some n" "task_at (kb_kern kb) n = Some t" "t_node t = None"
  shows "\<exists>kb'. keyboard_handler kb 0x21 = Some kb' \<and>
     kfifo_list (kb_fifo kb') =
       (if kfifo_count (kb_fifo kb) = unat (buf_size (kb_fifo kb)) - 1 then tl (kfifo_list (kb_fifo kb))
        else kfifo_list (kb_fifo kb)) @
       [fst (key_chars ! unat b) -
         (if capslock kb \<noteq> ((KEY_SHIFT_L, 2) \<in> pressed kb \<or> (KEY_SHIFT_R, 2) \<in> pressed kb) then 0x20 else 0)] \<and>
     kb_kern kb' = put_task (kb_kern kb) n (t\<lparr>t_state := TASK_READY\<rparr>) \<and> fg_task kb' = None \<and>
     kb_eois kb' = kb_eois kb @ [0x21] \<and> kfifo_inv (kb_fifo kb')"
proof -
  let ?c = "unat b"
  let ?kb = "kb\<lparr>kb_eois := kb_eois kb @ [0x21], data_in := bs, extcode := False\<rparr>"
  have small: "unat b < 128" using assms(4) by simp
  have "bit (unat b) 7 = bit b 7" by (simp add: bit_unsigned_iff)
  then have nb: "\<not> bit b 7" using small by (simp add: bit_iff_odd)
  have "b AND mask 7 = b"
    using small by (simp flip: take_bit_eq_mask add: word_unat_eq_iff unsigned_take_bit_eq take_bit_nat_eq_self)
  then have c: "unat (b AND 0x7F) = ?c" by (simp add: mask_eq_exp_minus_1)
  have "b \<noteq> 0xE0" using assms(4) by auto
  note h = handler_unfold [OF assms(2) this]
  obtain km where k1: "set_key_cell ?kb ?c 2 True = Some (?kb\<lparr>keymap := km\<rparr>)" "keymap_ok km"
      "pressed (?kb\<lparr>keymap := km\<rparr>) = insert (?c, 2) (pressed kb)"
    using set_key_cell_ok [of ?kb ?c 2 True] assms(1,4) by (auto simp: pressed_def)
  let ?k1 = "?kb\<lparr>keymap := km\<rparr>"
  have nk: "?c \<noteq> KEY_CTRL_L" "?c \<noteq> KEY_SHIFT_L" "?c \<noteq> KEY_SHIFT_R"
    using assms(5) by (auto simp: KEY_CTRL_L_def KEY_SHIFT_L_def KEY_SHIFT_R_def key_chars_def)
  note L = letter_key [OF assms(4-6)]
  let ?ch = "fst (key_chars ! ?c) - (if capslock kb \<noteq> ((KEY_SHIFT_L, 2) \<in> pressed kb \<or> (KEY_SHIFT_R, 2) \<in> pressed kb) then 0x20 else 0)"
  have "key_char ?k1 ?c 2 = Some ?ch"
    using letter_key_char [of ?k1, OF _ assms(4-6)] k1(2,3) nk by simp
  moreover have "?ch \<noteq> 0" "?ch \<noteq> 0x0D" using L by auto
  moreover have "\<forall>e. (KEY_CTRL_L, e) \<notin> pressed ?k1" using assms(7) nk k1(3) by auto
  ultimately obtain fifo where f: "kfifo_put (kb_fifo kb) ?ch = Some fifo"
      "key_pressed ?k1 ?c 2 =
         Some (?k1\<lparr>kb_fifo := fifo, kb_kern := put_task (kb_kern kb) n (t\<lparr>t_state := TASK_READY\<rparr>), fg_task := None\<rparr>)"
    using key_pressed_delivers [of ?k1 ?c ?ch n t] k1(2) L(6-8) assms(8-) by auto
  have "keyboard_handler kb 0x21 =
     Some (?k1\<lparr>kb_fifo := fifo, kb_kern := put_task (kb_kern kb) n (t\<lparr>t_state := TASK_READY\<rparr>), fg_task := None\<rparr>)"
    using h c nb assms(3,4) k1(1) f(2) by (simp add: KEY_PRINT_SCREEN_def)
  then show ?thesis using kfifo_put_spec [OF assms(8), of ?ch] f(1) by auto
qed


lemma letter_key_reaches_reader_witness:
  "\<exists>kb'. keyboard_handler (boot_keyboard\<lparr>data_in := [0x1E], capslock := True, fg_task := Some 0\<rparr>) 0x21 = Some kb' \<and>
     kfifo_list (kb_fifo kb') = [0x41] \<and> fg_task kb' = None"
proof -
  let ?kb = "boot_keyboard\<lparr>data_in := [0x1E], capslock := True, fg_task := Some 0\<rparr>"
  have p: "pressed ?kb = {}" using boot_keyboard(3) by (simp add: pressed_def)
  have f: "kfifo_inv (kb_fifo ?kb)" "kfifo_list (kb_fifo ?kb) = []" "buf_size (kb_fifo ?kb) = 64"
    using kfifo_init_spec [of 64 "replicate KEYBOARD_BUFFER_SIZE 0"]
    by (simp_all add: boot_keyboard_def KEYBOARD_BUFFER_SIZE_def) (simp add: kfifo_init_def)
  have t: "task_at (kb_kern ?kb) 0 = Some demo_task" "t_node demo_task = None"
    by (simp_all add: boot_keyboard_def demo_kernel_def task_at_def no_tasks_def demo_task_def zero_task_def)
  have k: "fst (key_chars ! unat (0x1E :: u8)) = 0x61" by (simp add: key_chars_def)
  show ?thesis
    using letter_key_reaches_reader [of ?kb "0x1E" "[]" 0 demo_task] f t k p boot_keyboard(1,2) f(2)
    by (auto simp: kfifo_list_Nil)
qed

end
