(* ===== verification/Memory.thy ===== *)
theory Memory
  imports Task Bitmap Stdlib
begin

text \<open>
  The physical side of \<^verbatim>\<open>src/kernel/memory.c\<close>: finding the memory at boot, the array of
  reference counts \<^verbatim>\<open>mem_map\<close> with one byte per page frame, the bitmap of kernel pages, and
  the allocation and release of kernel and user pages. \<^verbatim>\<open>src/include/lightos/multiboot2.h\<close>
  gives the layout of the boot records, which are read from a byte memory.

  A frame is named by its number. \<open>phys\<close> gives a frame's 1024 words; page directories and page
  tables live in it. The array \<^verbatim>\<open>mem_map\<close>, the bits of \<^verbatim>\<open>kernel_map\<close> and the table of kernel
  mappings are kept as arrays of their own.

  Shown: \<^verbatim>\<open>free_pages\<close> always counts the frames without references, the bitmap of kernel pages
  agrees with their reference counts, an allocated page was free before, and freeing undoes it.
\<close>

section \<open>Constants and state\<close>

definition MEMORY_BASE :: u32 where "MEMORY_BASE = 0x100000"
definition KERNEL_PAGE_DIR_VADDR :: u32 where "KERNEL_PAGE_DIR_VADDR = 0xC0000000"
definition KERNEL_PAGE_TABLE_COUNT :: nat where "KERNEL_PAGE_TABLE_COUNT = 4"
definition KERNEL_MEM_SIZE :: u32 where "KERNEL_MEM_SIZE = 0x1000000"
definition MULTIBOOT2_MAGIC :: u32 where "MULTIBOOT2_MAGIC = 0x36d76289"
definition ZONE_VALID :: u32 where "ZONE_VALID = 1"
definition USED :: u8 where "USED = 100"

definition IDX :: "u32 \<Rightarrow> u32" where "IDX addr = drop_bit 12 addr"
definition PAGE :: "u32 \<Rightarrow> u32" where "PAGE idx = push_bit 12 idx"
definition ASSERT_PAGE :: "u32 \<Rightarrow> unit option" where "ASSERT_PAGE addr = kassert (addr AND 0xFFF = 0)"

text \<open>\<^verbatim>\<open>kmap_mapping\<close>: the present bit, the 31-bit count and the address of one kernel mapping.\<close>

record kmap_mapping =
  km_present :: bool
  km_cnt :: "31 word"
  km_paddr :: u32

record mm =
  memory_base :: u32
  memory_size :: u32
  total_pages :: u32
  free_pages :: u32
  mem_map :: "u8 list"
  mem_map_pages :: u32
  start_page_idx :: u32
  kernel_map :: bitmap
  phys :: "u32 \<Rightarrow> nat \<Rightarrow> u32"
  cr3_reg :: u32
  kmap_pool :: "kmap_mapping list"
  kmap_pte :: "u32 list"
  kmap_start_vaddr :: u32
  mm_kern :: kernel
  vmap :: "nat \<Rightarrow> bitmap"

section \<open>Finding the memory\<close>

definition peek64 :: "mem \<Rightarrow> u32 \<Rightarrow> u64" where
  "peek64 m a = ucast (peek32 m a) OR push_bit 32 (ucast (peek32 m (a + 4)))"

text \<open>Keep the largest valid region seen so far; base and size are cut to 32 bits.\<close>

definition better_region :: "u64 \<Rightarrow> u64 \<Rightarrow> u32 \<Rightarrow> u32 \<times> u32 \<Rightarrow> u32 \<times> u32" where
  "better_region base sz ty bs =
     (if ty = ZONE_VALID \<and> sz > ucast (snd bs) then (ucast base, ucast sz) else bs)"

text \<open>The records of the own boot loader: 20 bytes each.\<close>

fun ards_scan :: "mem \<Rightarrow> u32 \<Rightarrow> nat \<Rightarrow> u32 \<times> u32 \<Rightarrow> u32 \<times> u32" where
  "ards_scan m ptr 0 bs = bs"
| "ards_scan m ptr (Suc n) bs =
     ards_scan m (ptr + 20) n (better_region (peek64 m ptr) (peek64 m (ptr + 8)) (peek32 m (ptr + 16)) bs)"

text \<open>The tags of a multiboot loader; neither loop need end on a malformed table.\<close>

partial_function (option) find_mmap_tag :: "mem \<Rightarrow> u32 \<Rightarrow> u32 option" where
  "find_mmap_tag m tag =
     (if peek32 m tag = 0 then Some tag
      else if peek32 m tag = 6 then Some tag
      else find_mmap_tag m (tag + ((peek32 m (tag + 4) + 7) AND NOT 7)))"

partial_function (option) mmap_scan :: "mem \<Rightarrow> u32 \<Rightarrow> u32 \<Rightarrow> u32 \<times> u32 \<Rightarrow> (u32 \<times> u32) option" where
  "mmap_scan m tag entry bs =
     (if entry < tag + peek32 m (tag + 4) then
        mmap_scan m tag (entry + peek32 m (tag + 8))
          (better_region (peek64 m entry) (peek64 m (entry + 8)) (peek32 m (entry + 16)) bs)
      else Some bs)"

definition memory_init :: "mem \<Rightarrow> u32 \<Rightarrow> u32 \<Rightarrow> mm \<Rightarrow> mm option" where
  "memory_init m magic addr s = do {
     bs \<leftarrow> (if magic = LIGHTOS_MAGIC then
              Some (ards_scan m (addr + 4) (unat (peek32 m addr)) (memory_base s, memory_size s))
            else if magic = MULTIBOOT2_MAGIC then do {
              tag \<leftarrow> find_mmap_tag m (addr + 8);
              mmap_scan m tag (tag + 16) (memory_base s, memory_size s) }
            else kpanic);
     let (base, sz) = bs;
     kassert (\<not> (sz + base < KERNEL_MEM_SIZE));
     kassert (base = MEMORY_BASE);
     kassert (sz AND 0xFFF = 0);
     Some (s\<lparr>memory_base := base, memory_size := sz, total_pages := IDX sz + IDX MEMORY_BASE, free_pages := IDX sz\<rparr>) }"

text \<open>\<^verbatim>\<open>memory_map_init\<close>; \<open>buf\<close> is the page that holds the bits of \<^verbatim>\<open>kernel_map\<close>.\<close>

definition memory_map_init :: "u8 list \<Rightarrow> mm \<Rightarrow> mm option" where
  "memory_map_init buf s = do {
     pages \<leftarrow> div_round_up (total_pages s) PAGE_SIZE;
     let s = s\<lparr>mem_map_pages := pages, free_pages := free_pages s - pages\<rparr>;
     let mmap = replicate (unat (pages * PAGE_SIZE)) 0;
     let start = IDX MEMORY_BASE + pages;
     kassert (unat start \<le> length mmap);
     let mmap = replicate (unat start) USED @ drop (unat start) mmap;
     let len = (IDX KERNEL_MEM_SIZE - IDX MEMORY_BASE) div 8;
     bm \<leftarrow> bitmap_init buf len (IDX MEMORY_BASE + IDX KERNEL_PAGE_DIR_VADDR);
     (r, bm) \<leftarrow> bitmap_scan bm pages;
     Some (s\<lparr>mem_map := mmap, start_page_idx := start, kernel_map := bm\<rparr>) }"

section \<open>Page table entries\<close>

text \<open>A \<^verbatim>\<open>page_entry_t\<close> is a word: flags in the low bits, the frame in the upper twenty.\<close>

abbreviation (input) "PTE_PRESENT \<equiv> 0 :: nat"
abbreviation (input) "PTE_WRITE \<equiv> 1 :: nat"
abbreviation (input) "PTE_USER \<equiv> 2 :: nat"
abbreviation (input) "PTE_SHARED \<equiv> 9 :: nat"
abbreviation (input) "PTE_PRIVAT \<equiv> 10 :: nat"
abbreviation (input) "PTE_READONLY \<equiv> 11 :: nat"

definition pte_index :: "u32 \<Rightarrow> u32" where
  "pte_index e = drop_bit 12 e"

definition pte_set :: "nat \<Rightarrow> bool \<Rightarrow> u32 \<Rightarrow> u32" where
  "pte_set n b e = (if b then set_bit n e else unset_bit n e)"

definition entry_init :: "u32 \<Rightarrow> u32" where
  "entry_init index = pte_set PTE_USER False (pte_set PTE_WRITE True (pte_set PTE_PRESENT True 0)) OR push_bit 12 index"

definition PDE_IDX :: "u32 \<Rightarrow> nat" where "PDE_IDX addr = unat (drop_bit 22 addr)"
definition PTE_IDX :: "u32 \<Rightarrow> nat" where "PTE_IDX addr = unat (drop_bit 12 addr AND 0x3FF)"

definition set_word :: "mm \<Rightarrow> u32 \<Rightarrow> nat \<Rightarrow> u32 \<Rightarrow> mm" where
  "set_word m f i w = m\<lparr>phys := (phys m)(f := (phys m f)(i := w))\<rparr>"

text \<open>
  \<^verbatim>\<open>mapping_init\<close>: the page directory in frame 0, four page tables behind it, mapped low and at
  3G, which map the first 16M one to one.
\<close>

definition mapping_table :: "u32 \<Rightarrow> (nat \<Rightarrow> u32) \<times> u32" where
  "mapping_table index = foldl (\<lambda>(pt, index) t. (pt(t := entry_init index), index + 1)) (\<lambda>_. 0, index) [0..<1024]"

definition mapping_step :: "mm \<times> u32 \<Rightarrow> nat \<Rightarrow> mm \<times> u32" where
  "mapping_step = (\<lambda>(m, index) i.
     let pte = PAGE_SIZE + PAGE_SIZE * of_nat i;
         m = set_word m 0 i (entry_init (IDX pte));
         m = set_word m 0 (unat (drop_bit 22 KERNEL_PAGE_DIR_VADDR) + i) (entry_init (IDX pte));
         (pt, index) = mapping_table index
     in (m\<lparr>phys := (phys m)(IDX pte := pt)\<rparr>, index))"

definition set_cr3 :: "u32 \<Rightarrow> mm \<Rightarrow> mm option" where
  "set_cr3 pde m = do { _ \<leftarrow> ASSERT_PAGE pde; Some (m\<lparr>cr3_reg := pde\<rparr>) }"

definition mapping_init :: "mm \<Rightarrow> mm option" where
  "mapping_init m =
     set_cr3 0 (fst (foldl mapping_step (m\<lparr>phys := (phys m)(0 := (\<lambda>_. 0))\<rparr>, 0) [0..<KERNEL_PAGE_TABLE_COUNT]))"

definition unset_low_mapping :: "mm \<Rightarrow> mm" where
  "unset_low_mapping m =
     m\<lparr>phys := (phys m)(0 := (\<lambda>i. if i < KERNEL_PAGE_TABLE_COUNT then 0 else phys m 0 i))\<rparr>"

section \<open>Allocating pages\<close>

text \<open>The loops over the frames of a run of kernel pages.\<close>

fun kpage_mark :: "mm \<Rightarrow> nat \<Rightarrow> u32 \<Rightarrow> mm option" where
  "kpage_mark m 0 index = Some m"
| "kpage_mark m (Suc n) index = do {
     c \<leftarrow> aget (mem_map m) (unat index);
     kassert (c = 0);
     mmap \<leftarrow> aset (mem_map m) (unat index) 1;
     kpage_mark (m\<lparr>mem_map := mmap, free_pages := free_pages m - 1\<rparr>) n (index + 1) }"

definition alloc_kpage :: "mm \<Rightarrow> u32 \<Rightarrow> (u32 \<times> mm) option" where
  "alloc_kpage m count = do {
     kassert (count > 0);
     (index, bm) \<leftarrow> bitmap_scan (kernel_map m) count;
     kassert (index \<noteq> EOF);
     let vaddr = PAGE index;
     m \<leftarrow> kpage_mark (m\<lparr>kernel_map := bm\<rparr>) (unat count) (index - boffset bm + IDX MEMORY_BASE);
     Some (vaddr, m) }"

fun kpage_reset :: "mm \<Rightarrow> nat \<Rightarrow> u32 \<Rightarrow> u32 \<Rightarrow> mm option" where
  "kpage_reset m 0 index paddr_index = Some m"
| "kpage_reset m (Suc n) index paddr_index = do {
     c \<leftarrow> aget (mem_map m) (unat paddr_index);
     kassert (c \<noteq> 0);
     mmap \<leftarrow> aset (mem_map m) (unat paddr_index) (c - 1);
     let m = m\<lparr>mem_map := mmap\<rparr>;
     m \<leftarrow> (if c - 1 = 0 then do {
             let m = m\<lparr>free_pages := free_pages m + 1\<rparr>;
             used \<leftarrow> bitmap_test (kernel_map m) index;
             kassert used;
             bm \<leftarrow> bitmap_set (kernel_map m) index False;
             Some (m\<lparr>kernel_map := bm\<rparr>) }
           else Some m);
     kpage_reset m n (index + 1) (paddr_index + 1) }"

definition free_kpage :: "mm \<Rightarrow> u32 \<Rightarrow> u32 \<Rightarrow> mm option" where
  "free_kpage m vaddr count = do {
     _ \<leftarrow> ASSERT_PAGE vaddr;
     kassert (count > 0);
     let index = drop_bit 12 vaddr;
     kpage_reset m (unat count) index (index - boffset (kernel_map m) + IDX MEMORY_BASE) }"

text \<open>The first unused frame from 16M on; none is out of memory.\<close>

fun find_free_frame :: "u8 list \<Rightarrow> nat \<Rightarrow> nat \<Rightarrow> nat option" where
  "find_free_frame mmap i 0 = kpanic"
| "find_free_frame mmap i (Suc n) = do {
     c \<leftarrow> aget mmap i;
     if c = 0 then Some i else find_free_frame mmap (Suc i) n }"

definition get_user_page :: "mm \<Rightarrow> (u32 \<times> mm) option" where
  "get_user_page m = do {
     i \<leftarrow> find_free_frame (mem_map m) (unat (IDX KERNEL_MEM_SIZE)) (unat (total_pages m) - unat (IDX KERNEL_MEM_SIZE));
     mmap \<leftarrow> aset (mem_map m) i 1;
     Some (PAGE (of_nat i), m\<lparr>mem_map := mmap, free_pages := free_pages m - 1\<rparr>) }"

definition put_user_page :: "mm \<Rightarrow> u32 \<Rightarrow> mm option" where
  "put_user_page m paddr = do {
     _ \<leftarrow> ASSERT_PAGE paddr;
     let idx = IDX paddr;
     kassert (idx \<ge> IDX KERNEL_MEM_SIZE \<and> idx < total_pages m);
     c \<leftarrow> aget (mem_map m) (unat idx);
     kassert (c \<ge> 1);
     mmap \<leftarrow> aset (mem_map m) (unat idx) (c - 1);
     let m = m\<lparr>mem_map := mmap\<rparr>;
     let m = (if c - 1 = 0 then m\<lparr>free_pages := free_pages m + 1\<rparr> else m);
     kassert (free_pages m > 0 \<and> free_pages m < total_pages m);
     Some m }"


section \<open>The accounts\<close>

text \<open>
  The invariant: the array covers every frame, frame 0 is in use, \<open>free_pages\<close> is the number of frames without
  references, and the bitmap of kernel pages (from 3G+1M on, frame 256) has exactly the bits of
  the kernel frames that are referenced.
\<close>

definition zeros :: "u8 list \<Rightarrow> nat \<Rightarrow> nat" where
  "zeros xs n = card {i. i < n \<and> xs ! i = 0}"

definition counts_ok :: "mm \<Rightarrow> bool" where
  "counts_ok m \<longleftrightarrow> 4096 \<le> unat (total_pages m) \<and> unat (total_pages m) < 2 ^ 20 \<and>
     unat (total_pages m) \<le> length (mem_map m) \<and> mem_map m ! 0 \<noteq> 0 \<and> unat (free_pages m) = zeros (mem_map m) (unat (total_pages m))"

definition kmap_bits_ok :: "mm \<Rightarrow> bool" where
  "kmap_bits_ok m \<longleftrightarrow> bm_inv (kernel_map m) \<and> boffset (kernel_map m) = 0xC0100 \<and> blength (kernel_map m) = 480 \<and>
     bm_used (kernel_map m) = {i. i < 3840 \<and> mem_map m ! (i + 256) \<noteq> 0}"

definition mm_inv :: "mm \<Rightarrow> bool" where
  "mm_inv m \<longleftrightarrow> counts_ok m \<and> kmap_bits_ok m"

lemma zeros_upd:
  assumes "i < n" "n \<le> length xs"
  shows "xs ! i = 0 \<Longrightarrow> v \<noteq> 0 \<Longrightarrow> Suc (zeros (xs[i := v]) n) = zeros xs n"
    "xs ! i \<noteq> 0 \<Longrightarrow> v = 0 \<Longrightarrow> zeros (xs[i := v]) n = Suc (zeros xs n)"
    "xs ! i = 0 \<longleftrightarrow> v = 0 \<Longrightarrow> zeros (xs[i := v]) n = zeros xs n"
proof -
  have fin: "finite {j. j < n \<and> P j}" for P by simp
  have ne: "xs[i := v] ! j = (if j = i then v else xs ! j)" if "j < n" for j
    using assms that by (simp add: nth_list_update)
  show "Suc (zeros (xs[i := v]) n) = zeros xs n" if "xs ! i = 0" "v \<noteq> 0"
  proof -
    have "{j. j < n \<and> xs ! j = 0} = insert i {j. j < n \<and> xs[i := v] ! j = 0}"
      using that assms(1) by (auto simp: ne split: if_splits)
    moreover have "i \<notin> {j. j < n \<and> xs[i := v] ! j = 0}" using that assms by simp
    ultimately show ?thesis by (simp add: zeros_def)
  qed
  show "zeros (xs[i := v]) n = Suc (zeros xs n)" if "xs ! i \<noteq> 0" "v = 0"
  proof -
    have "{j. j < n \<and> xs[i := v] ! j = 0} = insert i {j. j < n \<and> xs ! j = 0}"
      using that assms by (auto simp: nth_list_update split: if_splits)
    then show ?thesis using that by (simp add: zeros_def)
  qed
  show "zeros (xs[i := v]) n = zeros xs n" if "xs ! i = 0 \<longleftrightarrow> v = 0"
  proof -
    have "xs[i := v] ! j = 0 \<longleftrightarrow> xs ! j = 0" for j
      using that assms by (cases "j = i") (auto simp: nth_list_update)
    then have "{j. j < n \<and> xs[i := v] ! j = 0} = {j. j < n \<and> xs ! j = 0}" by blast
    then show ?thesis by (simp add: zeros_def)
  qed
qed

lemma zeros_pos: "i < n \<Longrightarrow> xs ! i = 0 \<Longrightarrow> 0 < zeros xs n"
  by (auto simp: zeros_def card_gt_0_iff)

lemma unat_dec: "0 < unat w \<Longrightarrow> unat (w - 1 :: u32) = unat w - 1"
  by (metis One_nat_def Suc_leI unat_1 unat_sub word_le_nat_alt)

lemma free_pages_less: "counts_ok m \<Longrightarrow> unat (free_pages m) < unat (total_pages m)"
proof -
  assume c: "counts_ok m"
  have "{i. i < unat (total_pages m) \<and> mem_map m ! i = 0} \<subseteq> {1..<unat (total_pages m)}"
  proof
    fix i assume i: "i \<in> {i. i < unat (total_pages m) \<and> mem_map m ! i = 0}"
    then have "i \<noteq> 0" using c by (metis (mono_tags, lifting) counts_ok_def mem_Collect_eq)
    then show "i \<in> {1..<unat (total_pages m)}" using i by simp
  qed
  from card_mono [OF _ this] have "zeros (mem_map m) (unat (total_pages m)) \<le> unat (total_pages m) - 1"
    by (simp add: zeros_def)
  moreover have "0 < unat (total_pages m)" using c by (simp add: counts_ok_def)
  ultimately show ?thesis using c by (auto simp: counts_ok_def)
qed

lemma upd_frame0: "xs ! 0 \<noteq> (0 :: u8) \<Longrightarrow> v \<noteq> 0 \<or> i \<noteq> 0 \<Longrightarrow> xs[i := v] ! 0 \<noteq> 0"
  by (cases "i = 0"; cases "i < length xs") (auto simp: nth_list_update)

text \<open>One frame taken, and one reference dropped.\<close>

lemma counts_take:
  assumes "counts_ok m" "i < unat (total_pages m)" "mem_map m ! i = 0" "v \<noteq> 0"
  shows "counts_ok (m\<lparr>mem_map := (mem_map m)[i := v], free_pages := free_pages m - 1\<rparr>)"
    "unat (free_pages m - 1) = unat (free_pages m) - 1" "0 < unat (free_pages m)"
proof -
  have len: "unat (total_pages m) \<le> length (mem_map m)" using assms(1) by (simp add: counts_ok_def)
  have "0 < unat (free_pages m)" using assms zeros_pos [OF assms(2,3)] by (simp add: counts_ok_def)
  moreover from unat_dec [OF this] show "unat (free_pages m - 1) = unat (free_pages m) - 1" .
  ultimately show "counts_ok (m\<lparr>mem_map := (mem_map m)[i := v], free_pages := free_pages m - 1\<rparr>)"
    "0 < unat (free_pages m)"
    using zeros_upd(1) [OF assms(2) len assms(3,4)] assms(1,4) by (auto simp: counts_ok_def upd_frame0)
qed

lemma counts_drop:
  assumes "counts_ok m" "i < unat (total_pages m)" "mem_map m ! i \<noteq> 0" "i \<noteq> 0"
  shows "counts_ok (m\<lparr>mem_map := (mem_map m)[i := 0], free_pages := free_pages m + 1\<rparr>)"
    "unat (free_pages m + 1) = Suc (unat (free_pages m))"
proof -
  have len: "unat (total_pages m) \<le> length (mem_map m)" using assms(1) by (simp add: counts_ok_def)
  show u: "unat (free_pages m + 1) = Suc (unat (free_pages m))"
    using free_pages_less [OF assms(1)] assms(1) by (intro unat_Suc_less) (simp add: counts_ok_def)
  show "counts_ok (m\<lparr>mem_map := (mem_map m)[i := 0], free_pages := free_pages m + 1\<rparr>)"
    using zeros_upd(2) [OF assms(2) len assms(3), of 0] assms(1,4) u by (simp add: counts_ok_def upd_frame0)
qed

lemma counts_same:
  assumes "counts_ok m" "i < unat (total_pages m)" "mem_map m ! i \<noteq> 0" "v \<noteq> 0"
  shows "counts_ok (m\<lparr>mem_map := (mem_map m)[i := v]\<rparr>)"
  using zeros_upd(3) [OF assms(2), of "mem_map m" v] assms by (simp add: counts_ok_def upd_frame0)

section \<open>User pages\<close>

lemma find_free_frame_spec:
  assumes "i + n \<le> length mmap" "i \<le> j" "j < i + n" "mmap ! j = 0"
  shows "\<exists>k. find_free_frame mmap i n = Some k \<and> i \<le> k \<and> k < i + n \<and> mmap ! k = 0 \<and> (\<forall>l. i \<le> l \<and> l < k \<longrightarrow> mmap ! l \<noteq> 0)"
  using assms
proof (induction n arbitrary: i)
  case 0
  then show ?case by simp
next
  case (Suc n)
  show ?case
  proof (cases "mmap ! i = 0")
    case True
    then have "find_free_frame mmap i (Suc n) = Some i" using Suc.prems by simp
    moreover have "\<forall>l. i \<le> l \<and> l < i \<longrightarrow> mmap ! l \<noteq> 0" using leD by blast
    moreover have "i \<le> i" "i < i + Suc n" by simp_all
    ultimately show ?thesis using True by blast
  next
    case False
    then have "Suc i \<le> j" using Suc.prems(2,4) by (cases "i = j") auto
    then obtain k where k: "find_free_frame mmap (Suc i) n = Some k" "Suc i \<le> k" "k < Suc i + n" "mmap ! k = 0"
        "\<forall>l. Suc i \<le> l \<and> l < k \<longrightarrow> mmap ! l \<noteq> 0"
      using Suc.IH [of "Suc i"] Suc.prems by auto
    have "\<forall>l. i \<le> l \<and> l < k \<longrightarrow> mmap ! l \<noteq> 0"
      using k(5) False by (metis Suc_leI le_neq_implies_less)
    then show ?thesis using k Suc.prems(1) False by auto
  qed
qed

definition user_free :: "mm \<Rightarrow> nat \<Rightarrow> bool" where
  "user_free m i \<longleftrightarrow> 4096 \<le> i \<and> i < unat (total_pages m) \<and> mem_map m ! i = 0"

definition take_frame :: "mm \<Rightarrow> nat \<Rightarrow> mm" where
  "take_frame m i = m\<lparr>mem_map := (mem_map m)[i := 1], free_pages := free_pages m - 1\<rparr>"

lemma kernel_frames [simp]: "unat (IDX KERNEL_MEM_SIZE) = 4096" "IDX KERNEL_MEM_SIZE = 4096" "IDX MEMORY_BASE = 256"
  by (simp_all add: IDX_def KERNEL_MEM_SIZE_def MEMORY_BASE_def drop_bit_eq_div)

lemma kmap_bits_user:
  assumes "kmap_bits_ok m" "4096 \<le> i"
  shows "kmap_bits_ok (m\<lparr>mem_map := (mem_map m)[i := v], free_pages := f\<rparr>)"
    "kmap_bits_ok (m\<lparr>mem_map := (mem_map m)[i := v]\<rparr>)"
proof -
  have "{j. j < 3840 \<and> (mem_map m)[i := v] ! (j + 256) \<noteq> 0} = {j. j < 3840 \<and> mem_map m ! (j + 256) \<noteq> 0}"
    using assms(2) by (intro Collect_cong conj_cong refl) simp
  then show "kmap_bits_ok (m\<lparr>mem_map := (mem_map m)[i := v], free_pages := f\<rparr>)"
    "kmap_bits_ok (m\<lparr>mem_map := (mem_map m)[i := v]\<rparr>)"
    using assms(1) by (simp_all add: kmap_bits_ok_def)
qed

lemma get_user_page_spec:
  assumes "mm_inv m" "user_free m j"
  shows "\<exists>i. get_user_page m = Some (PAGE (of_nat i), take_frame m i) \<and> user_free m i \<and>
     (\<forall>l < i. \<not> user_free m l) \<and> mm_inv (take_frame m i)"
proof -
  let ?n = "unat (total_pages m)"
  have c: "counts_ok m" "4096 \<le> ?n" "?n \<le> length (mem_map m)" using assms(1) by (auto simp: mm_inv_def counts_ok_def)
  obtain i where i: "find_free_frame (mem_map m) 4096 (?n - 4096) = Some i" "4096 \<le> i" "i < ?n" "mem_map m ! i = 0"
      "\<forall>l. 4096 \<le> l \<and> l < i \<longrightarrow> mem_map m ! l \<noteq> 0"
    using find_free_frame_spec [of 4096 "?n - 4096" "mem_map m" j] c assms(2) by (auto simp: user_free_def)
  have "get_user_page m = Some (PAGE (of_nat i), take_frame m i)"
    using i c by (simp add: get_user_page_def take_frame_def)
  moreover have "mm_inv (take_frame m i)"
    using counts_take(1) [OF c(1) i(3,4), of 1] kmap_bits_user(1) [of m i] i(2) assms(1)
    by (simp add: mm_inv_def take_frame_def)
  ultimately show ?thesis using i by (auto simp: user_free_def)
qed

definition drop_frame :: "mm \<Rightarrow> nat \<Rightarrow> mm" where
  "drop_frame m i = (if mem_map m ! i = 1 then m\<lparr>mem_map := (mem_map m)[i := 0], free_pages := free_pages m + 1\<rparr>
     else m\<lparr>mem_map := (mem_map m)[i := mem_map m ! i - 1]\<rparr>)"

lemma page_align: "PAGE i AND 0xFFF = 0" "i < 0x100000 \<Longrightarrow> IDX (PAGE i) = i"
proof -
  have m: "(0xFFF :: u32) = mask 12" by (simp add: mask_eq_exp_minus_1)
  show "PAGE i AND 0xFFF = 0" unfolding PAGE_def m
    by (rule bit_word_eqI) (auto simp: bit_simps)
  assume "i < 0x100000"
  then have "unat i < 2 ^ 20" by (simp add: word_less_nat_alt)
  then have "take_bit 20 i = i" by (simp add: word_unat_eq_iff unsigned_take_bit_eq take_bit_nat_eq_self)
  moreover have "drop_bit 12 (push_bit 12 i) = take_bit 20 i" by (rule bit_word_eqI) (auto simp: bit_simps)
  ultimately show "IDX (PAGE i) = i" by (simp add: PAGE_def IDX_def)
qed

lemma put_user_page_spec:
  assumes "mm_inv m" "4096 \<le> i" "i < unat (total_pages m)" "mem_map m ! i \<noteq> 0"
    and last: "mem_map m ! i \<noteq> 1 \<longrightarrow> 0 < unat (free_pages m)"
  shows "put_user_page m (PAGE (of_nat i)) = Some (drop_frame m i) \<and> mm_inv (drop_frame m i)"
proof -
  have c: "counts_ok m" "kmap_bits_ok m" "unat (total_pages m) \<le> length (mem_map m)" "unat (total_pages m) < 2 ^ 20"
    using assms(1) by (auto simp: mm_inv_def counts_ok_def)
  have nz: "i \<noteq> 0" using assms(2) by simp
  have small: "of_nat i < (0x100000 :: u32)" using assms(3) c(4) by (simp add: word_less_nat_alt)
  have u: "unat (of_nat i :: u32) = i" using assms(3) c(4) by simp
  have lt: "of_nat i < total_pages m" "(4096 :: u32) \<le> of_nat i"
    using assms(2,3) u by (simp_all add: word_less_nat_alt word_le_nat_alt)
  have one: "1 \<le> mem_map m ! i" using assms(4) by (simp add: word_le_nat_alt Suc_le_eq unat_gt_0)
  have min: "mem_map m ! i - 1 = 0 \<longleftrightarrow> mem_map m ! i = 1" by auto
  have inv: "counts_ok (drop_frame m i)" "kmap_bits_ok (drop_frame m i)"
    using counts_drop(1) [OF c(1) assms(3,4) nz] counts_same [OF c(1) assms(3,4), of "mem_map m ! i - 1"]
      kmap_bits_user [OF c(2) assms(2)] by (auto simp: drop_frame_def min)
  have "0 < unat (free_pages (drop_frame m i))"
    using last counts_drop(2) [OF c(1) assms(3,4) nz] by (simp add: drop_frame_def)
  moreover have "unat (free_pages (drop_frame m i)) < unat (total_pages m)"
    using free_pages_less [OF inv(1)] by (simp add: drop_frame_def split: if_splits)
  ultimately have "free_pages (drop_frame m i) > 0 \<and> free_pages (drop_frame m i) < total_pages m"
    by (simp add: word_less_nat_alt)
  moreover have "put_user_page m (PAGE (of_nat i)) =
      (if free_pages (drop_frame m i) > 0 \<and> free_pages (drop_frame m i) < total_pages m then Some (drop_frame m i) else None)"
    using small u lt one c(3) assms(3)
    by (auto simp: put_user_page_def ASSERT_PAGE_def page_align drop_frame_def Let_def min)
  ultimately show ?thesis using inv by (simp add: mm_inv_def)
qed


section \<open>Kernel pages\<close>

lemma kpage_mark_spec:
  assumes "counts_ok m" "i + n \<le> 4096" "\<And>j. i \<le> j \<Longrightarrow> j < i + n \<Longrightarrow> mem_map m ! j = 0"
  shows "\<exists>mmap. kpage_mark m n (of_nat i) = Some (m\<lparr>mem_map := mmap, free_pages := free_pages m - of_nat n\<rparr>) \<and>
     counts_ok (m\<lparr>mem_map := mmap, free_pages := free_pages m - of_nat n\<rparr>) \<and> length mmap = length (mem_map m) \<and>
     (\<forall>j. mmap ! j = (if i \<le> j \<and> j < i + n then 1 else mem_map m ! j)) \<and> n \<le> unat (free_pages m)"
  using assms
proof (induction n arbitrary: m i)
  case 0
  have "\<not> (i \<le> j \<and> j < i)" for j by simp
  then show ?case using 0 by (intro exI [of _ "mem_map m"]) auto
next
  case (Suc n)
  have len: "4096 \<le> unat (total_pages m)" "unat (total_pages m) \<le> length (mem_map m)"
    using Suc.prems(1) by (auto simp: counts_ok_def)
  have i: "i < unat (total_pages m)" "mem_map m ! i = 0" using Suc.prems(2,3) len by auto
  let ?m = "m\<lparr>mem_map := (mem_map m)[i := 1], free_pages := free_pages m - 1\<rparr>"
  have take: "counts_ok ?m" "unat (free_pages m - 1) = unat (free_pages m) - 1" "0 < unat (free_pages m)"
    using counts_take [OF Suc.prems(1) i, of 1] by auto
  have "Suc i + n \<le> 4096" using Suc.prems(2) by simp
  moreover have "mem_map ?m ! j = 0" if "Suc i \<le> j" "j < Suc i + n" for j using that Suc.prems(3) by simp
  ultimately obtain mmap where mmap:
      "kpage_mark ?m n (of_nat (Suc i)) = Some (?m\<lparr>mem_map := mmap, free_pages := free_pages ?m - of_nat n\<rparr>)"
      "counts_ok (?m\<lparr>mem_map := mmap, free_pages := free_pages ?m - of_nat n\<rparr>)" "length mmap = length (mem_map ?m)"
      "\<forall>j. mmap ! j = (if Suc i \<le> j \<and> j < Suc i + n then 1 else mem_map ?m ! j)" "n \<le> unat (free_pages ?m)"
    using Suc.IH [OF take(1), of "Suc i"] by blast
  have f: "free_pages ?m - of_nat n = free_pages m - of_nat (Suc n)" by simp
  have "mmap ! j = (if i \<le> j \<and> j < i + Suc n then 1 else mem_map m ! j)" for j
  proof (cases "j = i")
    case True
    have "mmap ! i = (mem_map m)[i := 1] ! i" using mmap(4) by simp
    also have "\<dots> = 1" using i(1) len by simp
    finally show ?thesis using True by simp
  next
    case False
    have e: "Suc i \<le> j \<and> j < Suc i + n \<longleftrightarrow> i \<le> j \<and> j < i + Suc n" using False by linarith
    have "mmap ! j = (if Suc i \<le> j \<and> j < Suc i + n then 1 else (mem_map m)[i := 1] ! j)" using mmap(4) by simp
    then show ?thesis unfolding e using False by simp
  qed
  moreover have "kpage_mark m (Suc n) (of_nat i) = Some (m\<lparr>mem_map := mmap, free_pages := free_pages m - of_nat (Suc n)\<rparr>)"
  proof -
    have u: "unat (of_nat i :: u32) = i" using Suc.prems(2) by simp
    have il: "i < length (mem_map m)" using i(1) len(2) by simp
    have "kpage_mark m (Suc n) (of_nat i) = kpage_mark ?m n (of_nat i + 1)"
      using i(2) il by (simp add: u)
    also have "of_nat i + 1 = (of_nat (Suc i) :: u32)" by simp
    also note mmap(1)
    finally show ?thesis by (simp only: f) simp
  qed
  moreover have "counts_ok (m\<lparr>mem_map := mmap, free_pages := free_pages m - of_nat (Suc n)\<rparr>)"
    using mmap(2) by (simp add: diff_diff_eq)
  moreover have "Suc n \<le> unat (free_pages m)" using mmap(5) take by simp
  ultimately show ?case using mmap(3) by auto
qed

text \<open>The frames of a run of kernel pages, from bitmap position \<open>s\<close> on.\<close>

definition kpage_vaddr :: "nat \<Rightarrow> u32" where
  "kpage_vaddr s = PAGE (0xC0100 + of_nat s)"

lemma alloc_kpage_spec:
  assumes inv: "mm_inv m" and pos: "0 < unat count" and room: "free_run (kernel_map m) (unat count) s0"
  shows "\<exists>s m'. alloc_kpage m count = Some (kpage_vaddr s, m') \<and> mm_inv m' \<and> free_run (kernel_map m) (unat count) s \<and>
     (\<forall>t < s. \<not> free_run (kernel_map m) (unat count) t) \<and> s + unat count \<le> 3840 \<and>
     (\<forall>j. mem_map m' ! j = (if s + 256 \<le> j \<and> j < s + 256 + unat count then 1 else mem_map m ! j)) \<and>
     (\<forall>j. s + 256 \<le> j \<and> j < s + 256 + unat count \<longrightarrow> mem_map m ! j = 0) \<and>
     unat (free_pages m) = unat (free_pages m') + unat count \<and>
     (\<exists>bm mmap f. m' = m\<lparr>kernel_map := bm, mem_map := mmap, free_pages := f\<rparr>)"
proof -
  let ?n = "unat count"
  have bi: "bm_inv (kernel_map m)" "boffset (kernel_map m) = 0xC0100" "blength (kernel_map m) = 480"
    "bm_used (kernel_map m) = {i. i < 3840 \<and> mem_map m ! (i + 256) \<noteq> 0}" and c: "counts_ok m"
    using inv by (auto simp: mm_inv_def kmap_bits_ok_def)
  obtain s bm where sb: "bitmap_scan (kernel_map m) count = Some (0xC0100 + of_nat s, bm)" "0xC0100 + of_nat s \<noteq> EOF"
      "free_run (kernel_map m) ?n s" "\<forall>t < s. \<not> free_run (kernel_map m) ?n t" "bm_inv bm" "boffset bm = 0xC0100"
      "blength bm = 480" "bm_used bm = bm_used (kernel_map m) \<union> {s..<s + ?n}"
  proof -
    have ex: "\<exists>s. free_run (kernel_map m) ?n s" using room by blast
    then show thesis using bitmap_scan_spec [OF bi(1) pos] unfolding if_P [OF ex] bi(2,3) by (blast intro: that)
  qed
  have bound: "s + ?n \<le> 3840" using sb(3) bi(3) by (simp add: free_run_def)
  have free: "mem_map m ! j = 0" if "s + 256 \<le> j" "j < s + 256 + ?n" for j
  proof -
    have "j - 256 \<in> {s..<s + ?n}" using that by auto
    then have "j - 256 \<notin> bm_used (kernel_map m)" using sb(3) by (auto simp: free_run_def)
    then show ?thesis using that bound bi(4) by auto
  qed
  have cm: "counts_ok (m\<lparr>kernel_map := bm\<rparr>)" using c by (simp add: counts_ok_def)
  obtain mmap where mmap:
      "kpage_mark (m\<lparr>kernel_map := bm\<rparr>) ?n (of_nat (s + 256)) = Some (m\<lparr>kernel_map := bm, mem_map := mmap, free_pages := free_pages m - count\<rparr>)"
      "counts_ok (m\<lparr>kernel_map := bm, mem_map := mmap, free_pages := free_pages m - count\<rparr>)"
      "\<forall>j. mmap ! j = (if s + 256 \<le> j \<and> j < s + 256 + ?n then 1 else mem_map m ! j)" "?n \<le> unat (free_pages m)"
    using kpage_mark_spec [OF cm, of "s + 256" ?n] bound free by auto
  let ?m = "m\<lparr>kernel_map := bm, mem_map := mmap, free_pages := free_pages m - count\<rparr>"
  have "alloc_kpage m count = Some (kpage_vaddr s, ?m)"
    using sb(1,2,6) mmap(1) pos by (simp add: alloc_kpage_def kpage_vaddr_def word_less_nat_alt add.commute)
  moreover have "bm_used bm = {i. i < 3840 \<and> mmap ! (i + 256) \<noteq> 0}"
    using sb(8) bi(4) mmap(3) bound by auto
  then have "mm_inv ?m" using mmap(2) sb(5-7) by (simp add: mm_inv_def kmap_bits_ok_def)
  moreover have "unat (free_pages m - count) = unat (free_pages m) - ?n"
    using mmap(4) by (simp add: unat_sub word_le_nat_alt)
  ultimately show ?thesis using sb(3,4) bound mmap(3,4) free
    by (intro exI [of _ s] exI [of _ ?m]) (simp, metis)
qed

lemma kpage_reset_spec:
  assumes "mm_inv m" "256 \<le> p" "p + n \<le> 4096" "\<And>j. p \<le> j \<Longrightarrow> j < p + n \<Longrightarrow> mem_map m ! j = 1"
  shows "\<exists>mmap bm f. kpage_reset m n (0xC0000 + of_nat p) (of_nat p) = Some (m\<lparr>mem_map := mmap, kernel_map := bm, free_pages := f\<rparr>) \<and>
     mm_inv (m\<lparr>mem_map := mmap, kernel_map := bm, free_pages := f\<rparr>) \<and> length mmap = length (mem_map m) \<and>
     (\<forall>j. mmap ! j = (if p \<le> j \<and> j < p + n then 0 else mem_map m ! j)) \<and> unat f = unat (free_pages m) + n"
  using assms
proof (induction n arbitrary: m p)
  case 0
  have "\<not> (p \<le> j \<and> j < p)" for j by simp
  then show ?case using 0 by (intro exI [of _ "mem_map m"] exI [of _ "kernel_map m"] exI [of _ "free_pages m"]) auto
next
  case (Suc n)
  have bi: "bm_inv (kernel_map m)" "boffset (kernel_map m) = 0xC0100" "blength (kernel_map m) = 480"
    "bm_used (kernel_map m) = {i. i < 3840 \<and> mem_map m ! (i + 256) \<noteq> 0}" and c: "counts_ok m"
    using Suc.prems(1) by (auto simp: mm_inv_def kmap_bits_ok_def)
  have len: "4096 \<le> unat (total_pages m)" "unat (total_pages m) \<le> length (mem_map m)"
    using c by (auto simp: counts_ok_def)
  have p: "p < unat (total_pages m)" "mem_map m ! p = 1" "p \<noteq> 0" using Suc.prems len by auto
  have q: "p - 256 < bm_size (kernel_map m)" "p - 256 \<in> bm_used (kernel_map m)"
    using Suc.prems p bi by auto
  have w: "(0xC0000 + of_nat p :: u32) = boffset (kernel_map m) + of_nat (p - 256)"
    using Suc.prems(2) bi(2) by (simp add: of_nat_diff)
  have test: "bitmap_test (kernel_map m) (0xC0000 + of_nat p) = Some True"
    unfolding w using bitmap_test_spec [OF bi(1) q(1)] q(2) by simp
  obtain bm where bm: "bitmap_set (kernel_map m) (0xC0000 + of_nat p) False = Some bm" "bm_inv bm" "boffset bm = 0xC0100"
      "blength bm = 480" "bm_used bm = bm_used (kernel_map m) - {p - 256}"
    unfolding w using bitmap_set_spec [OF bi(1) q(1), of False] bi by auto
  let ?m = "m\<lparr>mem_map := (mem_map m)[p := 0], free_pages := free_pages m + 1, kernel_map := bm\<rparr>"
  have nz: "mem_map m ! p \<noteq> 0" using p(2) by simp
  note cd = counts_drop [OF c p(1) nz p(3)]
  have "bm_used bm = {i. i < 3840 \<and> (mem_map m)[p := 0] ! (i + 256) \<noteq> 0}"
    unfolding bm(5) bi(4) using p(1) len(2) Suc.prems(2) by (auto simp: nth_list_update split: if_splits)
  then have invm: "mm_inv ?m" using cd(1) bm(2-4) by (simp add: mm_inv_def kmap_bits_ok_def counts_ok_def)
  have "mem_map ?m ! j = 1" if "Suc p \<le> j" "j < Suc p + n" for j using that Suc.prems(4) by simp
  moreover have "256 \<le> Suc p" "Suc p + n \<le> 4096" using Suc.prems by simp_all
  ultimately obtain mmap bm' f where r:
      "kpage_reset ?m n (0xC0000 + of_nat (Suc p)) (of_nat (Suc p)) = Some (?m\<lparr>mem_map := mmap, kernel_map := bm', free_pages := f\<rparr>)"
      "mm_inv (?m\<lparr>mem_map := mmap, kernel_map := bm', free_pages := f\<rparr>)" "length mmap = length (mem_map ?m)"
      "\<forall>j. mmap ! j = (if Suc p \<le> j \<and> j < Suc p + n then 0 else mem_map ?m ! j)" "unat f = unat (free_pages ?m) + n"
    using Suc.IH [OF invm, of "Suc p"] by blast
  have "kpage_reset m (Suc n) (0xC0000 + of_nat p) (of_nat p) = Some (m\<lparr>mem_map := mmap, kernel_map := bm', free_pages := f\<rparr>)"
  proof -
    have u: "unat (of_nat p :: u32) = p" using Suc.prems(3) by simp
    have pl: "p < length (mem_map m)" using p(1) len(2) by simp
    have "kpage_reset m (Suc n) (0xC0000 + of_nat p) (of_nat p) = kpage_reset ?m n (0xC0000 + of_nat p + 1) (of_nat p + 1)"
      using p(2) pl test bm(1) by (simp add: u)
    also have "\<dots> = kpage_reset ?m n (0xC0000 + of_nat (Suc p)) (of_nat (Suc p))" by (simp add: ac_simps)
    also note r(1)
    finally show ?thesis by simp
  qed
  moreover have "mmap ! j = (if p \<le> j \<and> j < p + Suc n then 0 else mem_map m ! j)" for j
  proof (cases "j = p")
    case True
    have "mmap ! p = (mem_map m)[p := 0] ! p" using r(4) by simp
    also have "\<dots> = 0" using p(1) len by simp
    finally show ?thesis using True by simp
  next
    case False
    have e: "Suc p \<le> j \<and> j < Suc p + n \<longleftrightarrow> p \<le> j \<and> j < p + Suc n" using False by linarith
    have "mmap ! j = (if Suc p \<le> j \<and> j < Suc p + n then 0 else (mem_map m)[p := 0] ! j)" using r(4) by simp
    then show ?thesis unfolding e using False by simp
  qed
  ultimately show ?case using r(2,3,5) cd(2)
    by (intro exI [of _ mmap] exI [of _ bm'] exI [of _ f]) simp
qed


section \<open>The boot mapping\<close>

lemma entry_init_eq: "entry_init i = push_bit 12 i OR 3"
proof -
  have m: "(3 :: u32) = mask 2" by (simp add: mask_eq_exp_minus_1)
  show ?thesis unfolding m by (rule bit_word_eqI) (auto simp: entry_init_def pte_set_def bit_simps)
qed

lemma entry_init_bits:
  "bit (entry_init i) PTE_PRESENT" "bit (entry_init i) PTE_WRITE" "\<not> bit (entry_init i) PTE_USER"
  "i < 0x100000 \<Longrightarrow> pte_index (entry_init i) = i"
proof -
  show "bit (entry_init i) PTE_PRESENT" "bit (entry_init i) PTE_WRITE" "\<not> bit (entry_init i) PTE_USER"
    by (simp_all add: entry_init_def pte_set_def bit_simps)
  have "drop_bit 12 (3 :: u32) = 0" by simp
  then have "pte_index (entry_init i) = drop_bit 12 (push_bit 12 i)"
    by (simp add: pte_index_def entry_init_eq drop_bit_or)
  then show "i < 0x100000 \<Longrightarrow> pte_index (entry_init i) = i"
    using page_align(2) [of i] by (simp add: PAGE_def IDX_def)
qed

text \<open>What the paging unit reads: the table entry of an address under the directory in frame \<open>pd\<close>.\<close>

definition walk :: "mm \<Rightarrow> u32 \<Rightarrow> u32 \<Rightarrow> u32 option" where
  "walk m pd v =
     (let e = phys m pd (PDE_IDX v) in
      if bit e PTE_PRESENT then
        (let p = phys m (pte_index e) (PTE_IDX v) in if bit p PTE_PRESENT then Some p else None)
      else None)"

lemma mapping_fold:
  "n \<le> 1024 \<Longrightarrow> foldl (\<lambda>(pt, index) t. (pt(t := entry_init index), index + 1)) (\<lambda>_. 0, index) [0..<n] =
     ((\<lambda>t. if t < n then entry_init (index + of_nat t) else 0), index + of_nat n)"
  by (induction n) (auto simp: fun_eq_iff less_Suc_eq ac_simps)

lemma mapping_table_eq: "mapping_table index = ((\<lambda>t. if t < 1024 then entry_init (index + of_nat t) else 0), index + 1024)"
  using mapping_fold [of 1024 index] by (simp add: mapping_table_def)

definition boot_pd :: "nat \<Rightarrow> nat \<Rightarrow> u32" where
  "boot_pd n i = (if i < n then entry_init (1 + of_nat i) else if 768 \<le> i \<and> i < 768 + n then entry_init (1 + of_nat (i - 768)) else 0)"

lemma pte_frame: "i < 4 \<Longrightarrow> IDX (PAGE_SIZE + PAGE_SIZE * of_nat i) = 1 + of_nat i"
proof -
  assume "i < 4"
  then have "i = 0 \<or> i = 1 \<or> i = 2 \<or> i = 3" by linarith
  then show ?thesis by (auto simp: IDX_def PAGE_SIZE_def drop_bit_eq_div)
qed

lemma mapping_steps:
  assumes "n \<le> 4"
  shows "foldl mapping_step (m\<lparr>phys := (phys m)(0 := (\<lambda>_. 0))\<rparr>, 0) [0..<n] =
    (m\<lparr>phys := (\<lambda>f. if f = 0 then boot_pd n else if 1 \<le> unat f \<and> unat f \<le> n
         then (\<lambda>t. if t < 1024 then entry_init (1024 * (f - 1) + of_nat t) else 0) else phys m f)\<rparr>, 1024 * of_nat n)"
  using assms
proof (induction n)
  case 0
  have "(phys m)(0 := (\<lambda>_. 0)) = (\<lambda>f. if f = 0 then boot_pd 0 else if 1 \<le> unat f \<and> unat f \<le> 0
         then (\<lambda>t. if t < 1024 then entry_init (1024 * (f - 1) + of_nat t) else 0) else phys m f)"
    by (auto simp: fun_eq_iff boot_pd_def)
  then show ?case by simp
next
  case (Suc n)
  have fr: "IDX (PAGE_SIZE + PAGE_SIZE * of_nat n) = 1 + of_nat n" using Suc.prems by (intro pte_frame) simp
  have u: "unat (1 + of_nat n :: u32) = Suc n" "unat (drop_bit 22 KERNEL_PAGE_DIR_VADDR) = 768"
    using Suc.prems by (auto simp: unat_word_ariths KERNEL_PAGE_DIR_VADDR_def drop_bit_eq_div)
  have pd: "(boot_pd n)(n := entry_init (1 + of_nat n), 768 + n := entry_init (1 + of_nat n)) = boot_pd (Suc n)"
    using Suc.prems by (auto simp: boot_pd_def fun_eq_iff)
  let ?e = "entry_init (1 + of_nat n) :: u32"
  let ?T = "\<lambda>i t. if t < (1024 :: nat) then entry_init (1024 * i + of_nat t) else (0 :: u32)"
  let ?P = "\<lambda>n f. if f = 0 then boot_pd n else if 1 \<le> unat f \<and> unat f \<le> n then ?T (f - 1) else phys m f"
  have "(?P n)(0 := (boot_pd n)(n := ?e, 768 + n := ?e), 1 + of_nat n := ?T (of_nat n)) = ?P (Suc n)"
  proof
    fix f :: u32
    have "f = 1 + of_nat n \<longleftrightarrow> unat f = Suc n" using u(1) by (simp add: word_unat_eq_iff)
    then show "((?P n)(0 := (boot_pd n)(n := ?e, 768 + n := ?e), 1 + of_nat n := ?T (of_nat n))) f = ?P (Suc n) f"
      using pd u(1) by (cases "f = 0"; cases "f = 1 + of_nat n") (auto simp: le_Suc_eq)
  qed
  then have "mapping_step (m\<lparr>phys := ?P n\<rparr>, 1024 * of_nat n) n = (m\<lparr>phys := ?P (Suc n)\<rparr>, 1024 * of_nat (Suc n))"
    by (simp add: mapping_step_def set_word_def fr u(2) mapping_table_eq Let_def distrib_left)
  then show ?case using Suc by simp
qed


lemma split_addr:
  fixes a :: u32
  assumes "a < 0x1000000"
  shows "PDE_IDX a < 4" "PTE_IDX a < 1024" "1024 * of_nat (PDE_IDX a) + of_nat (PTE_IDX a) = IDX a"
    "PDE_IDX (0xC0000000 + a) = 768 + PDE_IDX a" "PTE_IDX (0xC0000000 + a) = PTE_IDX a" "IDX a < 0x1000"
proof -
  have lt: "unat a < 2 ^ 24" using assms by (simp add: word_less_nat_alt)
  have m: "(0x3FF :: u32) = mask 10" by (simp add: mask_eq_exp_minus_1)
  have pd: "PDE_IDX b = unat b div 2 ^ 22" for b :: u32 by (simp add: PDE_IDX_def drop_bit_eq_div unat_div)
  have pt: "PTE_IDX b = (unat b div 2 ^ 12) mod 2 ^ 10" for b :: u32
    by (simp add: PTE_IDX_def m unsigned_take_bit_eq take_bit_eq_mod drop_bit_eq_div unat_div unat_mod flip: take_bit_eq_mask)
  have idx: "unat (IDX a) = unat a div 2 ^ 12" by (simp add: IDX_def drop_bit_eq_div unat_div)
  have hi: "unat (0xC0000000 + a) = 0xC0000000 + unat a" using lt by (subst unat_plus_less) simp_all
  show p4: "PDE_IDX a < 4" using lt by (simp add: pd)
  show "PTE_IDX a < 1024" by (simp add: pt)
  show "IDX a < 0x1000" using lt idx by (simp add: word_less_nat_alt)
  have "1024 * PDE_IDX a + PTE_IDX a = unat (IDX a)"
    unfolding pd pt idx using div_mult2_eq [of "unat a" "2 ^ 12" "2 ^ 10"] mult_div_mod_eq [of "2 ^ 10" "unat a div 2 ^ 12"]
    by simp
  then show "1024 * of_nat (PDE_IDX a) + of_nat (PTE_IDX a) = IDX a"
    by (metis of_nat_add of_nat_mult of_nat_numeral word_of_nat_unat)
  have "(0xC0000000 + unat a) div 2 ^ 22 = 768 + unat a div 2 ^ 22"
    using div_mult_self3 [of "2 ^ 22" 768 "unat a"] by simp
  then show "PDE_IDX (0xC0000000 + a) = 768 + PDE_IDX a" by (simp only: pd hi)
  have d: "(0xC0000000 + unat a) div 2 ^ 12 = 786432 + unat a div 2 ^ 12"
    using div_mult_self3 [of "2 ^ 12" 786432 "unat a"] by simp
  have "(786432 + x) mod 2 ^ 10 = x mod 2 ^ 10" for x :: nat
    using mod_mult_self3 [of 768 "2 ^ 10" x] by simp
  then show "PTE_IDX (0xC0000000 + a) = PTE_IDX a" by (simp only: pt hi d)
qed

lemma mapping_init_eq:
  "mapping_init m = Some (m\<lparr>phys := (\<lambda>f. if f = 0 then boot_pd 4 else if 1 \<le> unat f \<and> unat f \<le> 4
     then (\<lambda>t. if t < 1024 then entry_init (1024 * (f - 1) + of_nat t) else 0) else phys m f), cr3_reg := 0\<rparr>)"
  using mapping_steps [of 4 m] by (simp add: mapping_init_def KERNEL_PAGE_TABLE_COUNT_def set_cr3_def ASSERT_PAGE_def)

lemma boot_walk:
  assumes "mapping_init m = Some m'" "a < 0x1000000"
  shows "walk m' 0 a = Some (entry_init (IDX a))" "walk m' 0 (0xC0000000 + a) = Some (entry_init (IDX a))"
proof -
  note s = split_addr [OF assms(2)]
  let ?p = "PDE_IDX a"
  have u: "unat (1 + of_nat ?p :: u32) = Suc ?p" using s(1) by (auto simp: unat_word_ariths)
  have small: "(1 + of_nat ?p :: u32) < 0x100000" using s(1) u by (simp add: word_less_nat_alt)
  have ph: "phys m' 0 ?p = entry_init (1 + of_nat ?p)" "phys m' 0 (768 + ?p) = entry_init (1 + of_nat ?p)"
      "phys m' (1 + of_nat ?p) (PTE_IDX a) = entry_init (IDX a)"
    using assms(1) s u by (auto simp: mapping_init_eq boot_pd_def)
  show "walk m' 0 a = Some (entry_init (IDX a))" "walk m' 0 (0xC0000000 + a) = Some (entry_init (IDX a))"
    using s(4,5) ph small by (simp_all add: walk_def Let_def entry_init_bits)
qed


section \<open>The accounts at boot\<close>

lemma memory_init_facts:
  assumes "memory_init b magic addr s = Some s1"
  shows "4096 \<le> unat (total_pages s1)" "unat (total_pages s1) < 2 ^ 20" "memory_base s1 = MEMORY_BASE"
    "unat (free_pages s1) + 256 = unat (total_pages s1)"
proof -
  obtain base sz where r: "\<not> sz + base < KERNEL_MEM_SIZE" "base = MEMORY_BASE"
      "s1 = s\<lparr>memory_base := base, memory_size := sz, total_pages := IDX sz + IDX MEMORY_BASE, free_pages := IDX sz\<rparr>"
    using assms unfolding memory_init_def by (auto simp: Let_def split: prod.splits if_splits elim!: bind_eq_SomeE)
  have ge: "2 ^ 24 \<le> unat (sz + 0x100000)" using r(1,2) by (simp add: word_less_nat_alt KERNEL_MEM_SIZE_def MEMORY_BASE_def)
  have nowrap: "unat sz + 0x100000 < 2 ^ 32"
  proof (rule ccontr)
    assume wrap: "\<not> ?thesis"
    have "unat (sz + 0x100000) = (unat sz + 0x100000) mod 2 ^ 32" by (simp add: unat_word_ariths)
    also have "\<dots> = unat sz + 0x100000 - 2 ^ 32" using wrap unat_lt2p [of sz] by (simp add: mod_if)
    also have "\<dots> < 2 ^ 24" using unat_lt2p [of sz] by simp
    finally show False using ge by simp
  qed
  have idx: "unat (IDX sz) = unat sz div 2 ^ 12" by (simp add: IDX_def drop_bit_eq_div unat_div)
  have bnd: "unat sz div 2 ^ 12 < 2 ^ 20 - 256" using nowrap by simp
  have t: "unat (IDX sz + 256) = unat sz div 2 ^ 12 + 256"
    using bnd idx by (subst unat_plus_less) simp_all
  have "2 ^ 24 \<le> unat sz + 0x100000" using ge nowrap by (subst (asm) unat_plus_less) simp_all
  then have "2 ^ 12 - 256 \<le> unat sz div 2 ^ 12" by simp
  then show "4096 \<le> unat (total_pages s1)" "unat (total_pages s1) < 2 ^ 20" "memory_base s1 = MEMORY_BASE"
    "unat (free_pages s1) + 256 = unat (total_pages s1)"
    using r t idx bnd by simp_all
qed

lemma memory_map_init_inv:
  assumes t: "4096 \<le> unat (total_pages s)" "unat (total_pages s) < 2 ^ 20"
    and f: "unat (free_pages s) + 256 = unat (total_pages s)" and len: "480 \<le> length buf"
  shows "\<exists>s' pages. memory_map_init buf s = Some s' \<and> div_round_up (total_pages s) PAGE_SIZE = Some pages \<and> mm_inv s' \<and>
     total_pages s' = total_pages s \<and> (\<forall>i < unat (total_pages s). mem_map s' ! i = (if i < 256 + unat pages then USED else 0)) \<and>
     1 \<le> unat pages \<and> unat pages \<le> 256"
proof -
  obtain pages where p: "div_round_up (total_pages s) PAGE_SIZE = Some pages" "unat pages = (unat (total_pages s) + 4095) div 4096"
    using div_round_up_unat [of PAGE_SIZE "total_pages s"] t(2) by (auto simp: PAGE_SIZE_def)
  have pb: "1 \<le> unat pages" "unat pages \<le> 256" "unat (total_pages s) \<le> unat pages * 4096" using p(2) t by simp_all
  have mul: "unat (pages * PAGE_SIZE) = unat pages * 4096" using pb(2) by (simp add: unat_word_ariths PAGE_SIZE_def)
  have st: "unat (256 + pages) = 256 + unat pages" using pb(2) by (subst unat_plus_less) simp_all
  let ?mmap = "replicate (256 + unat pages) USED @ drop (256 + unat pages) (replicate (unat pages * 4096) (0 :: u8))"
  have fit: "256 + unat pages \<le> unat pages * 4096" using pb(1) by simp
  have nth: "?mmap ! i = (if i < 256 + unat pages then USED else 0)" if "i < unat (total_pages s)" for i
    using that pb(3) fit by (simp add: nth_append)
  have lenm: "length ?mmap = unat pages * 4096" using fit by simp
  obtain bm where bm: "bitmap_init buf 480 0xC0100 = Some bm" "bm_inv bm" "bm_used bm = {}" "boffset bm = 0xC0100" "blength bm = 480"
    using bitmap_init_spec [of 480 buf "0xC0100"] len by auto
  have fr: "free_run bm (unat pages) i \<longleftrightarrow> i + unat pages \<le> 3840" for i using bm(3,5) by (simp add: free_run_def)
  have ex: "\<exists>s. free_run bm (unat pages) s" using pb(2) by (intro exI [of _ 0]) (simp add: fr)
  obtain i r bm' where sc: "bitmap_scan bm pages = Some (r, bm')" "bm_inv bm'" "boffset bm' = 0xC0100" "blength bm' = 480"
      "\<forall>t < i. \<not> free_run bm (unat pages) t" "bm_used bm' = {i..<i + unat pages}"
  proof -
    have pos: "0 < unat pages" using pb(1) by simp
    show thesis using bitmap_scan_spec [OF bm(2) pos] unfolding if_P [OF ex] bm(3,4,5) by (auto intro: that)
  qed
  have "i = 0" using sc(5) fr [of 0] pb(2) by (cases i) auto
  let ?s = "s\<lparr>mem_map_pages := pages, free_pages := free_pages s - pages, mem_map := ?mmap, start_page_idx := 256 + pages, kernel_map := bm'\<rparr>"
  have hi: "IDX KERNEL_PAGE_DIR_VADDR = 0xC0000" by (simp add: IDX_def KERNEL_PAGE_DIR_VADDR_def drop_bit_eq_div)
  have len480: "(IDX KERNEL_MEM_SIZE - IDX MEMORY_BASE) div 8 = 480" "IDX MEMORY_BASE + IDX KERNEL_PAGE_DIR_VADDR = 0xC0100"
    by (simp_all add: hi)
  have run: "memory_map_init buf s = Some ?s"
    using p(1) bm(1) sc(1) fit len480 by (simp add: memory_map_init_def mul st Let_def)
  have "{j. j < unat (total_pages s) \<and> ?mmap ! j = 0} = {256 + unat pages..<unat (total_pages s)}"
    using nth by (auto simp: USED_def split: if_splits)
  then have "zeros ?mmap (unat (total_pages s)) = unat (total_pages s) - (256 + unat pages)" by (simp add: zeros_def)
  moreover have "unat (free_pages s - pages) = unat (free_pages s) - unat pages"
    using f t pb(2) by (simp add: unat_sub word_le_nat_alt)
  ultimately have "counts_ok ?s"
    using t f lenm pb(3) nth [of 0] by (simp add: counts_ok_def USED_def)
  moreover have "kmap_bits_ok ?s"
    using sc \<open>i = 0\<close> pb(2) t nth by (auto simp: kmap_bits_ok_def USED_def split: if_splits)
  ultimately show ?thesis using run p(1) pb nth by (auto simp: mm_inv_def)
qed

section \<open>Properties\<close>

text \<open>
  C19. Booting keeps correct accounts: whatever memory the boot records describe, if
  \<^verbatim>\<open>memory_init\<close> accepts it then \<^verbatim>\<open>memory_map_init\<close> returns, marks exactly the first megabyte and
  the array's own pages as used, and leaves \<^verbatim>\<open>free_pages\<close> equal to the number of unused frames and
  the kernel bitmap equal to the used kernel frames. Under the page tables of \<^verbatim>\<open>mapping_init\<close> every
  address below 16M, and the same address above 3G, translates to that physical address.
\<close>

theorem boot_memory_accounts:
  assumes "memory_init b magic addr s = Some s1" "480 \<le> length buf" "a < 0x1000000"
  shows "\<exists>s2 pages m. memory_map_init buf s1 = Some s2 \<and> mm_inv s2 \<and>
     div_round_up (total_pages s1) PAGE_SIZE = Some pages \<and>
     (\<forall>i < unat (total_pages s1). mem_map s2 ! i = (if i < 256 + unat pages then USED else 0)) \<and>
     mapping_init s2 = Some m \<and> walk m 0 a = Some (entry_init (IDX a)) \<and>
     walk m 0 (0xC0000000 + a) = Some (entry_init (IDX a)) \<and> pte_index (entry_init (IDX a)) = IDX a"
proof -
  obtain s2 pages where s2: "memory_map_init buf s1 = Some s2" "div_round_up (total_pages s1) PAGE_SIZE = Some pages"
      "mm_inv s2" "\<forall>i < unat (total_pages s1). mem_map s2 ! i = (if i < 256 + unat pages then USED else 0)"
    using memory_map_init_inv [OF memory_init_facts(1,2,4) [OF assms(1)] assms(2)] by blast
  obtain m where m: "mapping_init s2 = Some m" using mapping_init_eq by blast
  have "IDX a < 0x1000" by (rule split_addr(6) [OF assms(3)])
  then have "pte_index (entry_init (IDX a)) = IDX a"
    by (intro entry_init_bits(4)) (simp add: word_less_nat_alt)
  with s2 m boot_walk [OF m assms(3)] show ?thesis by blast
qed

text \<open>A boot record with 31M of memory at 1M, as the own loader writes it at address 0x1000.\<close>

definition demo_records :: mem where
  "demo_records = (\<lambda>_. 0)(0x1000 := 1, 0x1006 := 0x10, 0x100E := 0xF0, 0x100F := 1, 0x1014 := 1)"

definition empty_mm :: mm where
  "empty_mm = \<lparr>memory_base = 0, memory_size = 0, total_pages = 0, free_pages = 0, mem_map = [], mem_map_pages = 0,
     start_page_idx = 0, kernel_map = bitmap_make [] 0 0, phys = (\<lambda>_ _. 0), cr3_reg = 0, kmap_pool = [], kmap_pte = [],
     kmap_start_vaddr = 0, mm_kern = no_tasks, vmap = (\<lambda>_. bitmap_make [] 0 0)\<rparr>"

lemma demo_boot:
  "\<exists>s1. memory_init demo_records LIGHTOS_MAGIC 0x1000 empty_mm = Some s1 \<and> total_pages s1 = 0x2000 \<and> kmap_pool s1 = []"
  by (simp add: memory_init_def demo_records_def peek32_def peek64_def better_region_def ZONE_VALID_def empty_mm_def
      KERNEL_MEM_SIZE_def MEMORY_BASE_def IDX_def drop_bit_eq_div push_bit_eq_mult Let_def word_less_nat_alt)

theorem boot_memory_accounts_witness:
  "\<exists>s1 s2 m. memory_init demo_records LIGHTOS_MAGIC 0x1000 empty_mm = Some s1 \<and>
     memory_map_init (replicate 480 0xFF) s1 = Some s2 \<and> mm_inv s2 \<and> total_pages s1 = 0x2000 \<and>
     mem_map s2 ! 257 = USED \<and> mem_map s2 ! 258 = 0 \<and> mapping_init s2 = Some m \<and> walk m 0 0xC0010123 = Some (entry_init 0x10)"
proof -
  obtain s1 where s1: "memory_init demo_records LIGHTOS_MAGIC 0x1000 empty_mm = Some s1" "total_pages s1 = 0x2000"
    using demo_boot by blast
  have "480 \<le> length (replicate 480 (0xFF :: u8))" "(0x10123 :: u32) < 0x1000000" by simp_all
  from boot_memory_accounts [OF s1(1) this] obtain s2 pages m where r: "memory_map_init (replicate 480 0xFF) s1 = Some s2"
      "mm_inv s2" "div_round_up (total_pages s1) PAGE_SIZE = Some pages"
      "\<forall>i < unat (total_pages s1). mem_map s2 ! i = (if i < 256 + unat pages then USED else 0)"
      "mapping_init s2 = Some m" "walk m 0 (0xC0000000 + 0x10123) = Some (entry_init (IDX 0x10123))" by blast
  have "pages = 2" using r(3) s1(2) by (simp add: div_round_up_def PAGE_SIZE_def)
  then have "mem_map s2 ! 257 = USED" "mem_map s2 ! 258 = 0" using r(4) s1(2) by simp_all
  moreover have "IDX 0x10123 = 0x10" by (simp add: IDX_def drop_bit_eq_div)
  ultimately show ?thesis using r s1 by auto
qed

text \<open>The state after that boot: pages 0 and 1 of the kernel map hold the array itself.\<close>

lemma demo_mm:
  "\<exists>m. mm_inv m \<and> total_pages m = 0x2000 \<and> free_run (kernel_map m) 3 2 \<and> user_free m 4096 \<and>
     user_free m 4097 \<and> user_free m 4098"
proof -
  obtain s1 where s1: "memory_init demo_records LIGHTOS_MAGIC 0x1000 empty_mm = Some s1" "total_pages s1 = 0x2000"
    using demo_boot by blast
  obtain s2 pages where r: "div_round_up (total_pages s1) PAGE_SIZE = Some pages" "mm_inv s2" "total_pages s2 = 0x2000"
      "\<forall>i < 0x2000. mem_map s2 ! i = (if i < 256 + unat pages then USED else 0)"
    using memory_map_init_inv [OF memory_init_facts(1,2,4) [OF s1(1)], of "replicate 480 0"] s1(2) by auto
  have p: "pages = 2" using r(1) s1(2) by (simp add: div_round_up_def PAGE_SIZE_def)
  have "bm_used (kernel_map s2) = {i. i < 3840 \<and> mem_map s2 ! (i + 256) \<noteq> 0}" "blength (kernel_map s2) = 480"
    using r(2) by (simp_all add: mm_inv_def kmap_bits_ok_def)
  then have "free_run (kernel_map s2) 3 2" using r(4) p by (auto simp: free_run_def)
  moreover have "user_free s2 4096" "user_free s2 4097" "user_free s2 4098" using r(3,4) p by (simp_all add: user_free_def)
  ultimately show ?thesis using r(2,3) by blast
qed

text \<open>
  C21. Kernel pages: in every state with correct accounts that has \<open>count\<close> adjacent free pages,
  \<^verbatim>\<open>alloc_kpage\<close> returns the lowest such run; each of its frames was unreferenced and now has one
  reference, no other count changes and the accounts stay correct. Freeing the run gives back
  every reference count, the number of free pages and the set of used pages.
\<close>

theorem kpage_alloc_free:
  assumes "mm_inv m" "0 < unat count" "free_run (kernel_map m) (unat count) s0"
  shows "\<exists>s m1 m2. alloc_kpage m count = Some (kpage_vaddr s, m1) \<and> mm_inv m1 \<and> free_run (kernel_map m) (unat count) s \<and>
     (\<forall>t < s. \<not> free_run (kernel_map m) (unat count) t) \<and>
     (\<forall>j. if s + 256 \<le> j \<and> j < s + 256 + unat count then mem_map m ! j = 0 \<and> mem_map m1 ! j = 1
          else mem_map m1 ! j = mem_map m ! j) \<and>
     unat (free_pages m) = unat (free_pages m1) + unat count \<and>
     free_kpage m1 (kpage_vaddr s) count = Some m2 \<and> mm_inv m2 \<and> (\<forall>j. mem_map m2 ! j = mem_map m ! j) \<and>
     free_pages m2 = free_pages m \<and> bm_used (kernel_map m2) = bm_used (kernel_map m)"
proof -
  let ?n = "unat count"
  obtain s m1 where a: "alloc_kpage m count = Some (kpage_vaddr s, m1)" "mm_inv m1" "free_run (kernel_map m) ?n s"
      "\<forall>t < s. \<not> free_run (kernel_map m) ?n t" "s + ?n \<le> 3840"
      "\<forall>j. mem_map m1 ! j = (if s + 256 \<le> j \<and> j < s + 256 + ?n then 1 else mem_map m ! j)"
      "\<forall>j. s + 256 \<le> j \<and> j < s + 256 + ?n \<longrightarrow> mem_map m ! j = 0" "unat (free_pages m) = unat (free_pages m1) + ?n"
    using alloc_kpage_spec [OF assms] by blast
  obtain m2 where r: "kpage_reset m1 ?n (0xC0000 + of_nat (s + 256)) (of_nat (s + 256)) = Some m2" "mm_inv m2"
      "\<forall>j. mem_map m2 ! j = (if s + 256 \<le> j \<and> j < s + 256 + ?n then 0 else mem_map m1 ! j)"
      "unat (free_pages m2) = unat (free_pages m1) + ?n"
    using kpage_reset_spec [OF a(2), of "s + 256" ?n] a(5,6) by auto
  have idx: "drop_bit 12 (kpage_vaddr s) = 0xC0000 + of_nat (s + 256)"
  proof -
    have "unat (0xC0100 + of_nat s :: u32) = 0xC0100 + s" using a(5) by (subst unat_plus_less) simp_all
    then have "(0xC0100 + of_nat s :: u32) < 0x100000" using a(5) by (simp add: word_less_nat_alt)
    from page_align(2) [OF this] show ?thesis by (simp add: IDX_def kpage_vaddr_def)
  qed
  have "boffset (kernel_map m1) = 0xC0100" using a(2) by (simp add: mm_inv_def kmap_bits_ok_def)
  then have "free_kpage m1 (kpage_vaddr s) count = Some m2"
    using r(1) assms(2) by (simp add: free_kpage_def ASSERT_PAGE_def idx word_less_nat_alt add.commute)
      (simp add: kpage_vaddr_def page_align)
  moreover have same: "mem_map m2 ! j = mem_map m ! j" for j using r(3) a(6,7) by simp
  moreover have "free_pages m2 = free_pages m" using r(4) a(8) by (simp add: word_unat_eq_iff)
  moreover have "bm_used (kernel_map m2) = bm_used (kernel_map m)"
    using r(2) assms(1) same by (simp add: mm_inv_def kmap_bits_ok_def)
  ultimately show ?thesis using a r(2)
    by (intro exI [of _ s] exI [of _ m1] exI [of _ m2]) simp
qed

theorem kpage_alloc_free_witness:
  "\<exists>m s m1 m2. alloc_kpage m 3 = Some (kpage_vaddr s, m1) \<and> mem_map m ! (s + 256) = 0 \<and> mem_map m1 ! (s + 256) = 1 \<and>
     free_kpage m1 (kpage_vaddr s) 3 = Some m2 \<and> free_pages m2 = free_pages m"
proof -
  obtain m where m: "mm_inv m" "free_run (kernel_map m) 3 2" using demo_mm by blast
  have c: "0 < unat (3 :: u32)" "free_run (kernel_map m) (unat (3 :: u32)) 2" using m(2) by simp_all
  from kpage_alloc_free [OF m(1) c] obtain s m1 m2 where r: "alloc_kpage m 3 = Some (kpage_vaddr s, m1)"
      "\<forall>j. if s + 256 \<le> j \<and> j < s + 256 + unat (3 :: u32) then mem_map m ! j = 0 \<and> mem_map m1 ! j = 1
          else mem_map m1 ! j = mem_map m ! j" "free_kpage m1 (kpage_vaddr s) 3 = Some m2" "free_pages m2 = free_pages m"
    by blast
  from r(2) [rule_format, of "s + 256"] have "mem_map m ! (s + 256) = 0 \<and> mem_map m1 ! (s + 256) = 1" by simp
  with r show ?thesis by blast
qed

text \<open>
  C10. User pages: with correct accounts \<^verbatim>\<open>get_user_page\<close> returns the lowest unreferenced frame from
  16M on when there is one and stops the kernel otherwise; the frame gets one reference, every
  other count is kept. \<^verbatim>\<open>put_user_page\<close> of that frame restores counts and accounts exactly.
\<close>

theorem user_page_get_put:
  assumes "mm_inv m"
  shows "if \<exists>i. user_free m i
    then \<exists>i m1. get_user_page m = Some (PAGE (of_nat i), m1) \<and> user_free m i \<and> (\<forall>l < i. \<not> user_free m l) \<and>
       mm_inv m1 \<and> m1 = take_frame m i \<and> put_user_page m1 (PAGE (of_nat i)) = Some m
    else get_user_page m = None"
proof (cases "\<exists>i. user_free m i")
  case True
  then obtain i where i: "get_user_page m = Some (PAGE (of_nat i), take_frame m i)" "user_free m i"
      "\<forall>l < i. \<not> user_free m l" "mm_inv (take_frame m i)"
    using get_user_page_spec [OF assms] by blast
  have len: "i < length (mem_map m)" using i(2) assms by (auto simp: user_free_def mm_inv_def counts_ok_def)
  have one: "mem_map (take_frame m i) ! i = 1" using len by (simp add: take_frame_def)
  then have "put_user_page (take_frame m i) (PAGE (of_nat i)) = Some (drop_frame (take_frame m i) i)"
    using put_user_page_spec [OF i(4), of i] i(2) by (simp add: user_free_def take_frame_def)
  also have "drop_frame (take_frame m i) i = m"
    using one i(2) list_update_id [of "mem_map m" i] by (simp add: drop_frame_def user_free_def) (simp add: take_frame_def)
  finally show ?thesis using i True by auto
next
  case False
  have none: "find_free_frame xs i n = None" if "\<forall>j. i \<le> j \<and> j < i + n \<longrightarrow> xs ! j \<noteq> 0" for xs i n
    using that by (induction n arbitrary: i) (auto simp: aget_def)
  have "get_user_page m = None"
    using False assms none [of 4096 "unat (total_pages m) - 4096" "mem_map m"]
    by (auto simp: get_user_page_def user_free_def mm_inv_def counts_ok_def)
  then show ?thesis using False by simp
qed

theorem user_page_get_put_witness:
  "\<exists>m m1. mm_inv m \<and> get_user_page m = Some (PAGE 4096, m1) \<and> put_user_page m1 (PAGE 4096) = Some m"
proof -
  obtain m where m: "mm_inv m" "user_free m 4096" using demo_mm by blast
  have ex: "\<exists>i. user_free m i" using m(2) by blast
  from user_page_get_put [OF m(1)] obtain i m1 where r: "get_user_page m = Some (PAGE (of_nat i), m1)" "user_free m i"
      "\<forall>l < i. \<not> user_free m l" "put_user_page m1 (PAGE (of_nat i)) = Some m"
    unfolding if_P [OF ex] by blast
  have "i = 4096" using r(2,3) m(2) by (metis linorder_neqE_nat not_less user_free_def)
  then show ?thesis using r m(1) by auto
qed

end
