(* ===== verification/Paging.thy ===== *)
theory Paging
  imports Memory
begin

text \<open>
  The virtual side of \<^verbatim>\<open>src/kernel/memory.c\<close>: the window through which the kernel reaches user
  frames (\<^verbatim>\<open>kmap\<close>, \<^verbatim>\<open>kunmap\<close>), page tables, copying and freeing an address space, the page
  fault handler with copy on write, and the system calls \<^verbatim>\<open>brk\<close>, \<^verbatim>\<open>mmap\<close> and \<^verbatim>\<open>munmap\<close>.

  A pointer to a page table entry is a page of the window and an index; reading and writing
  through it goes through the window's table, as the processor does. Page directories lie in low
  memory, which is mapped directly. The translation cache is not modelled: \<^verbatim>\<open>invlpg\<close> has no effect,
  and an access uses the tables as they are. An access through an unmapped window page has no
  result. The task's bitmap of mapped pages is \<open>vmap\<close> of its slot.

  Shown: a window page stays on its frame until it is unmapped; linking a page gives a fresh frame to
  one page and leaves all other translations alone; a write to a shared page gets a private copy
  with the same contents and leaves the other owner's page alone.
\<close>

section \<open>The kernel window\<close>

definition KMAP_POOL_LEN :: nat where "KMAP_POOL_LEN = 1024"

definition get_pde :: "mm \<Rightarrow> u32 option" where
  "get_pde m = do { t \<leftarrow> get_current (mm_kern m); Some (IDX (t_pde t)) }"

definition kmap_init :: "mm \<Rightarrow> mm option" where
  "kmap_init m = do {
     let m = m\<lparr>kmap_start_vaddr := KERNEL_MEM_SIZE + KERNEL_PAGE_DIR_VADDR\<rparr>;
     pd \<leftarrow> get_pde m;
     (v, m) \<leftarrow> alloc_kpage m 1;
     let m = m\<lparr>kmap_pte := replicate 1024 0\<rparr>;
     let m = set_word m pd (PDE_IDX (kmap_start_vaddr m)) (entry_init (IDX (v - KERNEL_PAGE_DIR_VADDR)));
     Some (m\<lparr>kmap_pool := replicate KMAP_POOL_LEN \<lparr>km_present = False, km_cnt = 0, km_paddr = 0\<rparr>\<rparr>) }"

definition kmap_get_vaddr :: "mm \<Rightarrow> nat \<Rightarrow> u32" where
  "kmap_get_vaddr m i = kmap_start_vaddr m + PAGE (of_nat i)"

definition kmap_get_index :: "mm \<Rightarrow> u32 \<Rightarrow> nat" where
  "kmap_get_index m vaddr = PTE_IDX (vaddr - kmap_start_vaddr m)"

text \<open>The search of \<^verbatim>\<open>kmap\<close>: it stops at the first slot that is free or holds the address.\<close>

fun kmap_find :: "kmap_mapping list \<Rightarrow> u32 \<Rightarrow> nat \<Rightarrow> nat" where
  "kmap_find [] paddr i = i"
| "kmap_find (k # ks) paddr i =
     (if \<not> km_present k then i else if km_paddr k = paddr then i else kmap_find ks paddr (Suc i))"

definition kmap :: "mm \<Rightarrow> u32 \<Rightarrow> (u32 \<times> mm) option" where
  "kmap m paddr = do {
     kassert (paddr \<ge> KERNEL_MEM_SIZE);
     _ \<leftarrow> ASSERT_PAGE paddr;
     let i = kmap_find (kmap_pool m) paddr 0;
     kassert (i \<noteq> KMAP_POOL_LEN);
     k \<leftarrow> aget (kmap_pool m) i;
     if km_present k then do {
       pool \<leftarrow> aset (kmap_pool m) i (k\<lparr>km_cnt := km_cnt k + 1\<rparr>);
       Some (kmap_get_vaddr m i, m\<lparr>kmap_pool := pool\<rparr>) }
     else do {
       pool \<leftarrow> aset (kmap_pool m) i \<lparr>km_present = True, km_cnt = 1, km_paddr = paddr\<rparr>;
       pte \<leftarrow> aset (kmap_pte m) i (entry_init (IDX paddr));
       Some (kmap_get_vaddr m i, m\<lparr>kmap_pool := pool, kmap_pte := pte\<rparr>) } }"

definition kunmap :: "mm \<Rightarrow> u32 \<Rightarrow> mm option" where
  "kunmap m vaddr = do {
     kassert (vaddr \<ge> kmap_start_vaddr m \<and> vaddr < kmap_start_vaddr m + of_nat KMAP_POOL_LEN * PAGE_SIZE);
     _ \<leftarrow> ASSERT_PAGE vaddr;
     let i = kmap_get_index m vaddr;
     k \<leftarrow> aget (kmap_pool m) i;
     let k = k\<lparr>km_present := False, km_cnt := km_cnt k - 1\<rparr>;
     pool \<leftarrow> aset (kmap_pool m) i k;
     let m = m\<lparr>kmap_pool := pool\<rparr>;
     if km_cnt k = 0 then do {
       e \<leftarrow> aget (kmap_pte m) i;
       pte \<leftarrow> aset (kmap_pte m) i (pte_set PTE_PRESENT False e);
       Some (m\<lparr>kmap_pte := pte\<rparr>) }
     else Some m }"

text \<open>Access through the window: the frame behind a page, a word of it.\<close>

definition kframe :: "mm \<Rightarrow> u32 \<Rightarrow> u32 option" where
  "kframe m vaddr = do {
     e \<leftarrow> aget (kmap_pte m) (kmap_get_index m vaddr);
     if bit e PTE_PRESENT then Some (pte_index e) else None }"

definition kread :: "mm \<Rightarrow> u32 \<Rightarrow> nat \<Rightarrow> u32 option" where
  "kread m vaddr i = do { f \<leftarrow> kframe m vaddr; Some (phys m f i) }"

definition kwrite :: "mm \<Rightarrow> u32 \<Rightarrow> nat \<Rightarrow> u32 \<Rightarrow> mm option" where
  "kwrite m vaddr i w = do { f \<leftarrow> kframe m vaddr; Some (set_word m f i w) }"

text \<open>\<^verbatim>\<open>memcpy\<close> of a page, and \<^verbatim>\<open>memset\<close> of a page to zero, between window pages.\<close>

definition kcopy_page :: "mm \<Rightarrow> u32 \<Rightarrow> u32 \<Rightarrow> mm option" where
  "kcopy_page m dst src = do {
     fd \<leftarrow> kframe m dst;
     fs \<leftarrow> kframe m src;
     Some (m\<lparr>phys := (phys m)(fd := phys m fs)\<rparr>) }"

definition kzero_page :: "mm \<Rightarrow> u32 \<Rightarrow> mm option" where
  "kzero_page m v = do { f \<leftarrow> kframe m v; Some (m\<lparr>phys := (phys m)(f := (\<lambda>_. 0))\<rparr>) }"

section \<open>Page tables of the current task\<close>

text \<open>The window page of the page table of an address, the index in it; the caller unmaps it.\<close>

definition get_pte :: "mm \<Rightarrow> u32 \<Rightarrow> (u32 \<times> nat \<times> mm) option" where
  "get_pte m vaddr = do {
     pd \<leftarrow> get_pde m;
     let idx = PDE_IDX vaddr;
     let entry = phys m pd idx;
     (kvaddr, m) \<leftarrow>
       (if \<not> bit entry PTE_PRESENT then do {
          (paddr_page, m) \<leftarrow> get_user_page m;
          let m = set_word m pd idx (pte_set PTE_USER True (entry_init (IDX paddr_page)));
          (kvaddr, m) \<leftarrow> kmap m paddr_page;
          m \<leftarrow> kzero_page m kvaddr;
          Some (kvaddr, m) }
        else kmap m (PAGE (pte_index entry)));
     Some (kvaddr, PTE_IDX vaddr, m) }"

definition link_user_page :: "mm \<Rightarrow> u32 \<Rightarrow> mm option" where
  "link_user_page m vaddr = do {
     (kv, i, m) \<leftarrow> get_pte m vaddr;
     e \<leftarrow> kread m kv i;
     m \<leftarrow> (if bit e PTE_PRESENT then Some m
           else do {
             (paddr_page, m) \<leftarrow> get_user_page m;
             kwrite m kv i (pte_set PTE_USER True (entry_init (IDX paddr_page))) });
     kunmap m kv }"

definition unlink_user_page :: "mm \<Rightarrow> u32 \<Rightarrow> mm option" where
  "unlink_user_page m vaddr = do {
     _ \<leftarrow> ASSERT_PAGE vaddr;
     (kv, i, m) \<leftarrow> get_pte m vaddr;
     e \<leftarrow> kread m kv i;
     m \<leftarrow> (if \<not> bit e PTE_PRESENT then Some m
           else do {
             m \<leftarrow> kwrite m kv i (pte_set PTE_PRESENT False e);
             put_user_page m (PAGE (pte_index e)) });
     kunmap m kv }"

section \<open>Copying and freeing an address space\<close>

definition copy_pde :: "mm \<Rightarrow> nat \<Rightarrow> mm option" where
  "copy_pde m target = do {
     (pde, m) \<leftarrow> alloc_kpage m 1;
     pd \<leftarrow> get_pde m;
     let m = m\<lparr>phys := (phys m)(IDX (pde - KERNEL_PAGE_DIR_VADDR) := phys m pd)\<rparr>;
     t \<leftarrow> task_at (mm_kern m) target;
     Some (m\<lparr>mm_kern := put_task (mm_kern m) target (t\<lparr>t_pde := pde - KERNEL_PAGE_DIR_VADDR\<rparr>)\<rparr>) }"

text \<open>The inner loop: private pages become read-only, every page gets one more reference.\<close>

fun copy_entries :: "mm \<Rightarrow> u32 \<Rightarrow> nat list \<Rightarrow> mm option" where
  "copy_entries m v [] = Some m"
| "copy_entries m v (j # js) = do {
     e \<leftarrow> kread m v j;
     if \<not> bit e PTE_PRESENT then copy_entries m v js
     else do {
       m \<leftarrow> (if \<not> bit e PTE_SHARED then kwrite m v j (pte_set PTE_WRITE False e) else Some m);
       c \<leftarrow> aget (mem_map m) (unat (pte_index e));
       mmap \<leftarrow> aset (mem_map m) (unat (pte_index e)) (c + 1);
       kassert (c + 1 < 255);
       copy_entries (m\<lparr>mem_map := mmap\<rparr>) v js } }"

fun copy_tables :: "mm \<Rightarrow> u32 \<Rightarrow> u32 \<Rightarrow> nat list \<Rightarrow> mm option" where
  "copy_tables m cur_pd tgt_pd [] = Some m"
| "copy_tables m cur_pd tgt_pd (i # is) =
     (if \<not> bit (phys m cur_pd i) PTE_PRESENT then copy_tables m cur_pd tgt_pd is
      else do {
        (target_pte_paddr, m) \<leftarrow> get_user_page m;
        let m = set_word m tgt_pd i (pte_set PTE_USER True (entry_init (IDX target_pte_paddr)));
        (current_pte, m) \<leftarrow> kmap m (PAGE (pte_index (phys m cur_pd i)));
        (target_pte, m) \<leftarrow> kmap m target_pte_paddr;
        m \<leftarrow> copy_entries m current_pte [0..<1024];
        m \<leftarrow> kcopy_page m target_pte current_pte;
        m \<leftarrow> kunmap m current_pte;
        m \<leftarrow> kunmap m target_pte;
        copy_tables m cur_pd tgt_pd is })"

definition copy_pte :: "mm \<Rightarrow> nat \<Rightarrow> mm option" where
  "copy_pte m target = do {
     cur_pd \<leftarrow> get_pde m;
     m \<leftarrow> copy_pde m target;
     t \<leftarrow> task_at (mm_kern m) target;
     m \<leftarrow> copy_tables m cur_pd (IDX (t_pde t)) [0..<PDE_IDX KERNEL_PAGE_DIR_VADDR];
     c \<leftarrow> get_current (mm_kern m);
     set_cr3 (t_pde c) m }"

fun free_entries :: "mm \<Rightarrow> u32 \<Rightarrow> nat list \<Rightarrow> mm option" where
  "free_entries m v [] = Some m"
| "free_entries m v (j # js) = do {
     e \<leftarrow> kread m v j;
     if \<not> bit e PTE_PRESENT then free_entries m v js
     else do {
       m \<leftarrow> put_user_page m (PAGE (pte_index e));
       m \<leftarrow> kwrite m v j (pte_set PTE_PRESENT False e);
       free_entries m v js } }"

fun free_tables :: "mm \<Rightarrow> u32 \<Rightarrow> nat list \<Rightarrow> mm option" where
  "free_tables m pd [] = Some m"
| "free_tables m pd (i # is) =
     (let e = phys m pd i in
      if \<not> bit e PTE_PRESENT then free_tables m pd is
      else do {
        let pte_paddr = PAGE (pte_index e);
        (pte_base, m) \<leftarrow> kmap m pte_paddr;
        m \<leftarrow> free_entries m pte_base [0..<1024];
        m \<leftarrow> kunmap m pte_base;
        m \<leftarrow> put_user_page m pte_paddr;
        let m = set_word m pd i (pte_set PTE_PRESENT False (phys m pd i));
        free_tables m pd is })"

text \<open>\<^verbatim>\<open>free_pte\<close> takes a task, but frees the tables of the current one.\<close>

definition free_pte :: "mm \<Rightarrow> nat \<Rightarrow> mm option" where
  "free_pte m target = do { pd \<leftarrow> get_pde m; free_tables m pd [0..<PDE_IDX KERNEL_PAGE_DIR_VADDR] }"

section \<open>Page faults\<close>

definition USER_STACK_TOP :: u32 where "USER_STACK_TOP = KERNEL_PAGE_DIR_VADDR - 1"
definition USER_STACK_BOTTOM :: u32 where "USER_STACK_BOTTOM = USER_STACK_TOP - 0x200000"
definition USER_MMAP_ADDR :: u32 where "USER_MMAP_ADDR = 0x10000000"
definition USER_MMAP_SIZE :: u32 where "USER_MMAP_SIZE = USER_STACK_BOTTOM - USER_MMAP_ADDR"

text \<open>The handler returns to the task, or calls \<^verbatim>\<open>sys_exit\<close>, which does not come back.\<close>

datatype fault = PF_return | PF_exit u32

definition cow_fault :: "mm \<Rightarrow> u32 \<Rightarrow> (fault \<times> mm) option" where
  "cow_fault m addr = do {
     (kv, i, m) \<leftarrow> get_pte m addr;
     e \<leftarrow> kread m kv i;
     kassert (bit e PTE_PRESENT);
     kassert (pte_index e \<ge> IDX MEMORY_BASE);
     c \<leftarrow> aget (mem_map m) (unat (pte_index e));
     kassert (c \<noteq> 0);
     kassert (\<not> bit e PTE_SHARED);
     if bit e PTE_READONLY then Some (PF_exit 500, m)
     else do {
       m \<leftarrow> (if c = 1 then kwrite m kv i (pte_set PTE_WRITE True e)
             else do {
               kassert (c = 2);
               mmap \<leftarrow> aset (mem_map m) (unat (pte_index e)) (c - 1);
               let m = m\<lparr>mem_map := mmap\<rparr>;
               (paddr_page, m) \<leftarrow> get_user_page m;
               (page_new_vaddr, m) \<leftarrow> kmap m paddr_page;
               (page_old_vaddr, m) \<leftarrow> kmap m (PAGE (pte_index e));
               m \<leftarrow> kcopy_page m page_new_vaddr page_old_vaddr;
               kwrite m kv i (pte_set PTE_USER True (entry_init (IDX paddr_page))) });
       m \<leftarrow> kunmap m kv;
       Some (PF_return, m) } }"

definition page_fault :: "mm \<Rightarrow> u32 \<Rightarrow> u32 \<Rightarrow> (fault \<times> mm) option" where
  "page_fault m faulting_address error = do {
     t \<leftarrow> get_current (mm_kern m);
     kassert (t_uid t = USER_RING3);
     if faulting_address > USER_STACK_TOP then Some (PF_exit (-1), m)
     else if bit error 0 then do { kassert (bit error 1); cow_fault m faulting_address }
     else if faulting_address > USER_STACK_BOTTOM \<and> faulting_address \<le> USER_STACK_TOP then do {
       m \<leftarrow> link_user_page m faulting_address;
       Some (PF_return, m) }
     else Some (PF_exit (-1), m) }"

section \<open>System calls\<close>

text \<open>The pages from \<open>page\<close> up to the old break are unlinked; the first argument bounds the rounds.\<close>

fun brk_shrink :: "nat \<Rightarrow> mm \<Rightarrow> u32 \<Rightarrow> u32 \<Rightarrow> mm option" where
  "brk_shrink 0 m page brk = None"
| "brk_shrink (Suc n) m page brk =
     (if page < brk then do { m \<leftarrow> unlink_user_page m page; brk_shrink n m (page + PAGE_SIZE) brk } else Some m)"

definition sys_brk :: "mm \<Rightarrow> u32 \<Rightarrow> (u32 \<times> mm) option" where
  "sys_brk m addr = do {
     _ \<leftarrow> ASSERT_PAGE addr;
     t \<leftarrow> get_current (mm_kern m);
     kassert (t_uid t = USER_RING3);
     if addr \<ge> USER_MMAP_ADDR then Some (-1, m)
     else if addr < t_end t then Some (-1, m)
     else if t_brk t > addr then do {
       m \<leftarrow> brk_shrink (2 ^ 20 + 1) m addr (t_brk t);
       t \<leftarrow> get_current (mm_kern m);
       Some (0, m\<lparr>mm_kern := put_task (mm_kern m) (cur (mm_kern m)) (t\<lparr>t_brk := addr\<rparr>)\<rparr>) }
     else if addr - t_brk t > PAGE (free_pages m) then Some (-1, m)
     else Some (0, m\<lparr>mm_kern := put_task (mm_kern m) (cur (mm_kern m)) (t\<lparr>t_brk := addr\<rparr>)\<rparr>) }"

definition PROT_WRITE :: u32 where "PROT_WRITE = 2"
definition MAP_SHARED :: u32 where "MAP_SHARED = 1"
definition MAP_PRIVATE :: u32 where "MAP_PRIVATE = 2"

definition mmap_flags :: "u32 \<Rightarrow> u32 \<Rightarrow> u32 \<Rightarrow> u32" where
  "mmap_flags prot flags e =
     (let e = pte_set PTE_USER True e;
          e = (if prot AND PROT_WRITE \<noteq> 0 then pte_set PTE_READONLY False (pte_set PTE_WRITE True e)
               else pte_set PTE_READONLY True (pte_set PTE_WRITE False e))
      in if flags AND MAP_SHARED \<noteq> 0 then pte_set PTE_SHARED True e
         else if flags AND MAP_PRIVATE \<noteq> 0 then pte_set PTE_PRIVAT True e else e)"

text \<open>The loop of \<^verbatim>\<open>sys_mmap\<close>; the window page that \<^verbatim>\<open>get_pte\<close> maps is not unmapped.\<close>

fun mmap_pages :: "mm \<Rightarrow> u32 \<Rightarrow> u32 \<Rightarrow> u32 \<Rightarrow> nat list \<Rightarrow> mm option" where
  "mmap_pages m vaddr prot flags [] = Some m"
| "mmap_pages m vaddr prot flags (i # is) = do {
     let page = vaddr + PAGE_SIZE * of_nat i;
     m \<leftarrow> link_user_page m page;
     bm \<leftarrow> bitmap_set (vmap m (cur (mm_kern m))) (IDX page) True;
     let m = m\<lparr>vmap := (vmap m)(cur (mm_kern m) := bm)\<rparr>;
     (kv, j, m) \<leftarrow> get_pte m page;
     e \<leftarrow> kread m kv j;
     m \<leftarrow> kwrite m kv j (mmap_flags prot flags e);
     mmap_pages m vaddr prot flags is }"

text \<open>\<open>fill\<close> is what \<^verbatim>\<open>sys_lseek\<close> and \<^verbatim>\<open>sys_read\<close> do for a file descriptor: descriptor, offset, address, length.\<close>

definition sys_mmap ::
  "(mm \<Rightarrow> u32 \<Rightarrow> u32 \<Rightarrow> u32 \<Rightarrow> u32 \<Rightarrow> mm option) \<Rightarrow> mm \<Rightarrow> u32 \<Rightarrow> u32 \<Rightarrow> u32 \<Rightarrow> u32 \<Rightarrow> u32 \<Rightarrow> u32 \<Rightarrow> (u32 \<times> mm) option" where
  "sys_mmap fill m addr len prot flags fd offset = do {
     _ \<leftarrow> ASSERT_PAGE addr;
     kassert (len > 0);
     count \<leftarrow> div_round_up len PAGE_SIZE;
     (vaddr, m) \<leftarrow>
       (if addr = 0 then do {
          (index, bm) \<leftarrow> bitmap_scan (vmap m (cur (mm_kern m))) count;
          Some (index * PAGE_SIZE, m\<lparr>vmap := (vmap m)(cur (mm_kern m) := bm)\<rparr>) }
        else Some (addr, m));
     kassert (vaddr \<ge> USER_MMAP_ADDR \<and> vaddr + len \<le> USER_MMAP_ADDR + USER_MMAP_SIZE);
     m \<leftarrow> mmap_pages m vaddr prot flags [0..<unat count];
     m \<leftarrow> (if fd \<noteq> EOF then fill m fd offset vaddr len else Some m);
     Some (vaddr, m) }"

fun munmap_pages :: "mm \<Rightarrow> u32 \<Rightarrow> nat list \<Rightarrow> mm option" where
  "munmap_pages m vaddr [] = Some m"
| "munmap_pages m vaddr (i # is) = do {
     let page = vaddr + PAGE_SIZE * of_nat i;
     m \<leftarrow> unlink_user_page m page;
     used \<leftarrow> bitmap_test (vmap m (cur (mm_kern m))) (IDX page);
     kassert used;
     bm \<leftarrow> bitmap_set (vmap m (cur (mm_kern m))) (IDX page) False;
     munmap_pages (m\<lparr>vmap := (vmap m)(cur (mm_kern m) := bm)\<rparr>) vaddr is }"

definition sys_munmap :: "mm \<Rightarrow> u32 \<Rightarrow> u32 \<Rightarrow> (u32 \<times> mm) option" where
  "sys_munmap m vaddr len = do {
     kassert (vaddr \<ge> USER_MMAP_ADDR \<and> vaddr + len \<le> USER_MMAP_ADDR + USER_MMAP_SIZE);
     _ \<leftarrow> ASSERT_PAGE vaddr;
     count \<leftarrow> div_round_up len PAGE_SIZE;
     m \<leftarrow> munmap_pages m vaddr [0..<unat count];
     Some (0, m) }"


section \<open>The window\<close>

text \<open>
  The window is well-formed when it starts behind the kernel's 16M, its two tables have 1024
  entries, and every slot in use is mapped to its address.
\<close>

definition window_ok :: "mm \<Rightarrow> bool" where
  "window_ok m \<longleftrightarrow> kmap_start_vaddr m = 0xC1000000 \<and> length (kmap_pool m) = 1024 \<and> length (kmap_pte m) = 1024 \<and>
     (\<forall>i < 1024. km_present (kmap_pool m ! i) \<longrightarrow>
        bit (kmap_pte m ! i) PTE_PRESENT \<and> PAGE (pte_index (kmap_pte m ! i)) = km_paddr (kmap_pool m ! i))"

definition kvaddr :: "nat \<Rightarrow> u32" where
  "kvaddr i = 0xC1000000 + PAGE (of_nat i)"

definition mapped :: "mm \<Rightarrow> u32 \<Rightarrow> u32 \<Rightarrow> bool" where
  "mapped m v f \<longleftrightarrow> f < 0x100000 \<and>
     (\<exists>i < 1024. v = kvaddr i \<and> km_present (kmap_pool m ! i) \<and> km_paddr (kmap_pool m ! i) = PAGE f)"

definition free_slots :: "mm \<Rightarrow> nat" where
  "free_slots m = card {i. i < 1024 \<and> \<not> km_present (kmap_pool m ! i)}"

lemma PAGE_inj: "f < 0x100000 \<Longrightarrow> g < 0x100000 \<Longrightarrow> PAGE f = PAGE g \<longleftrightarrow> f = g"
  using page_align(2) by metis

lemma PAGE_unat: "i < 2 ^ 20 \<Longrightarrow> unat (PAGE (of_nat i)) = 4096 * i"
proof -
  assume "i < 2 ^ 20"
  then have "unat (4096 * of_nat i :: u32) = 4096 * i" by (simp add: unat_word_ariths unat_of_nat take_bit_nat_eq_self)
  then show ?thesis by (simp add: PAGE_def push_bit_eq_mult mult.commute)
qed

lemma kvaddr_facts:
  assumes "i < 1024"
  shows "PTE_IDX (kvaddr i - 0xC1000000) = i" "kvaddr i AND 0xFFF = 0" "0xC1000000 \<le> kvaddr i" "kvaddr i < 0xC1400000"
proof -
  have u: "unat (PAGE (of_nat i)) = 4096 * i" using assms by (intro PAGE_unat) simp
  have k: "unat (kvaddr i) = 0xC1000000 + 4096 * i"
    unfolding kvaddr_def using assms u by (subst unat_plus_less) simp_all
  show "0xC1000000 \<le> kvaddr i" "kvaddr i < 0xC1400000"
    using assms k by (simp_all add: word_le_nat_alt word_less_nat_alt)
  have m: "(0x3FF :: u32) = mask 10" "(0xFFF :: u32) = mask 12" by (simp_all add: mask_eq_exp_minus_1)
  have "PTE_IDX (PAGE (of_nat i)) = i"
    using assms u
    by (simp add: PTE_IDX_def m unsigned_take_bit_eq take_bit_eq_mod drop_bit_eq_div unat_div unat_mod flip: take_bit_eq_mask)
  then show "PTE_IDX (kvaddr i - 0xC1000000) = i" by (simp add: kvaddr_def)
  have "unat (kvaddr i) = 2 ^ 12 * (790528 + i)" using k by simp
  then have "take_bit 12 (unat (kvaddr i)) = 0" by (simp only: take_bit_eq_mod mod_mult_self1_is_0)
  then show "kvaddr i AND 0xFFF = 0"
    unfolding m by (simp add: word_unat_eq_iff unsigned_take_bit_eq flip: take_bit_eq_mask)
qed

lemma kvaddr_inj: "i < 1024 \<Longrightarrow> j < 1024 \<Longrightarrow> kvaddr i = kvaddr j \<longleftrightarrow> i = j"
  using kvaddr_facts(1) by metis

lemma kmap_find_spec:
  "\<exists>j \<le> length ks. kmap_find ks p i = i + j \<and> (j < length ks \<longrightarrow> \<not> km_present (ks ! j) \<or> km_paddr (ks ! j) = p) \<and>
     (j = length ks \<longrightarrow> (\<forall>k \<in> set ks. km_present k))"
proof (induction ks arbitrary: i)
  case Nil
  then show ?case by simp
next
  case (Cons k ks)
  show ?case
  proof (cases "km_present k \<and> km_paddr k \<noteq> p")
    case True
    obtain j where "j \<le> length ks" "kmap_find ks p (Suc i) = Suc i + j"
        "j < length ks \<longrightarrow> \<not> km_present (ks ! j) \<or> km_paddr (ks ! j) = p" "j = length ks \<longrightarrow> (\<forall>k \<in> set ks. km_present k)"
      using Cons.IH [of "Suc i"] by blast
    then show ?thesis using True by (intro exI [of _ "Suc j"]) simp
  qed (auto intro!: exI [of _ 0])
qed

lemma mapped_kframe: "window_ok m \<Longrightarrow> mapped m v f \<Longrightarrow> kframe m v = Some f"
proof -
  assume w: "window_ok m" and "mapped m v f"
  then obtain i where i: "i < 1024" "v = kvaddr i" "km_present (kmap_pool m ! i)" "km_paddr (kmap_pool m ! i) = PAGE f"
      and f: "f < 0x100000" by (auto simp: mapped_def)
  have e: "bit (kmap_pte m ! i) PTE_PRESENT" "PAGE (pte_index (kmap_pte m ! i)) = PAGE f"
    using w i by (auto simp: window_ok_def)
  have "unat (pte_index (kmap_pte m ! i)) < 2 ^ 20"
    unfolding pte_index_def by (simp add: drop_bit_eq_div unat_div) (use unat_lt2p [of "kmap_pte m ! i"] in simp)
  then have "pte_index (kmap_pte m ! i) = f" using e(2) f PAGE_inj by (simp add: word_less_nat_alt)
  then show ?thesis using w i e(1) kvaddr_facts(1) [OF i(1)] by (simp add: kframe_def kmap_get_index_def window_ok_def)
qed

lemma kmap_spec:
  assumes w: "window_ok m" and f: "0x1000 \<le> f" "f < 0x100000" and room: "0 < free_slots m"
  shows "\<exists>v pool pte. kmap m (PAGE f) = Some (v, m\<lparr>kmap_pool := pool, kmap_pte := pte\<rparr>) \<and>
     window_ok (m\<lparr>kmap_pool := pool, kmap_pte := pte\<rparr>) \<and> mapped (m\<lparr>kmap_pool := pool, kmap_pte := pte\<rparr>) v f \<and>
     (\<forall>u g. mapped m u g \<longrightarrow> mapped (m\<lparr>kmap_pool := pool, kmap_pte := pte\<rparr>) u g) \<and>
     free_slots m \<le> Suc (free_slots (m\<lparr>kmap_pool := pool, kmap_pte := pte\<rparr>))"
proof -
  have len: "length (kmap_pool m) = 1024" "length (kmap_pte m) = 1024" "kmap_start_vaddr m = 0xC1000000"
    using w by (auto simp: window_ok_def)
  obtain i where i: "i \<le> 1024" "kmap_find (kmap_pool m) (PAGE f) 0 = i"
      "i < 1024 \<longrightarrow> \<not> km_present (kmap_pool m ! i) \<or> km_paddr (kmap_pool m ! i) = PAGE f"
      "i = 1024 \<longrightarrow> (\<forall>k \<in> set (kmap_pool m). km_present k)"
    using kmap_find_spec [of "kmap_pool m" "PAGE f" 0] len by auto
  have "\<exists>j < 1024. \<not> km_present (kmap_pool m ! j)"
    using room unfolding free_slots_def by (metis (mono_tags, lifting) card.empty empty_Collect_eq less_numeral_extra(3))
  then have lt: "i < 1024" using i(1,4) len(1) by (metis le_neq_implies_less nth_mem)
  have v: "kmap_get_vaddr m i = kvaddr i" by (simp add: kmap_get_vaddr_def kvaddr_def len)
  have uf: "unat (PAGE f) = 4096 * unat f" using PAGE_unat [of "unat f"] f(2) by (simp add: word_less_nat_alt)
  have ge: "KERNEL_MEM_SIZE \<le> PAGE f" using f(1) uf by (simp add: KERNEL_MEM_SIZE_def word_le_nat_alt)
  show ?thesis
  proof (cases "km_present (kmap_pool m ! i)")
    case True
    let ?k = "kmap_pool m ! i"
    let ?pool = "(kmap_pool m)[i := ?k\<lparr>km_cnt := km_cnt ?k + 1\<rparr>]"
    let ?m = "m\<lparr>kmap_pool := ?pool, kmap_pte := kmap_pte m\<rparr>"
    have same: "km_present (?pool ! j) = km_present (kmap_pool m ! j)" "km_paddr (?pool ! j) = km_paddr (kmap_pool m ! j)" for j
      using lt len by (cases "j = i"; simp)+
    have "kmap m (PAGE f) = Some (kvaddr i, ?m)"
      using ge i(2) lt len True v by (simp add: kmap_def ASSERT_PAGE_def page_align KMAP_POOL_LEN_def Let_def)
    moreover have "window_ok ?m" using w same by (simp add: window_ok_def)
    moreover have "mapped ?m (kvaddr i) f" using lt f(2) True i(3) same by (auto simp: mapped_def)
    moreover have "free_slots ?m = free_slots m" by (simp add: free_slots_def same)
    ultimately show ?thesis using same
      by (intro exI [of _ "kvaddr i"] exI [of _ ?pool] exI [of _ "kmap_pte m"]) (simp add: mapped_def)
  next
    case False
    let ?pool = "(kmap_pool m)[i := \<lparr>km_present = True, km_cnt = 1, km_paddr = PAGE f\<rparr>]"
    let ?pte = "(kmap_pte m)[i := entry_init (IDX (PAGE f))]"
    let ?m = "m\<lparr>kmap_pool := ?pool, kmap_pte := ?pte\<rparr>"
    have "kmap m (PAGE f) = Some (kvaddr i, ?m)"
      using ge i(2) lt len False v by (simp add: kmap_def ASSERT_PAGE_def page_align KMAP_POOL_LEN_def Let_def)
    moreover have "window_ok ?m"
      using w lt len f(2) by (auto simp: window_ok_def nth_list_update entry_init_bits page_align)
    moreover have "mapped ?m (kvaddr i) f" using lt f(2) len by (auto simp: mapped_def intro!: exI [of _ i])
    moreover have "mapped ?m u g" if mp: "mapped m u g" for u g
    proof -
      obtain j where j: "j < 1024" "u = kvaddr j" "km_present (kmap_pool m ! j)" "km_paddr (kmap_pool m ! j) = PAGE g" "g < 0x100000"
        using mp by (auto simp: mapped_def)
      then have "j \<noteq> i" using False by auto
      then show ?thesis using j unfolding mapped_def by (intro conjI exI [of _ j]) simp_all
    qed
    moreover have "free_slots m \<le> Suc (free_slots ?m)"
    proof -
      have "{j. j < 1024 \<and> \<not> km_present (kmap_pool m ! j)} = insert i {j. j < 1024 \<and> \<not> km_present (?pool ! j)}"
        using lt len False by (auto simp: nth_list_update split: if_splits)
      moreover have "i \<notin> {j. j < 1024 \<and> \<not> km_present (?pool ! j)}" using lt len by simp
      ultimately show ?thesis unfolding free_slots_def by simp
    qed
    ultimately show ?thesis by blast
  qed
qed

lemma kunmap_spec:
  assumes w: "window_ok m" and v: "mapped m v f"
  shows "\<exists>pool pte. kunmap m v = Some (m\<lparr>kmap_pool := pool, kmap_pte := pte\<rparr>) \<and>
     window_ok (m\<lparr>kmap_pool := pool, kmap_pte := pte\<rparr>) \<and>
     (\<forall>u g. mapped m u g \<and> u \<noteq> v \<longrightarrow> mapped (m\<lparr>kmap_pool := pool, kmap_pte := pte\<rparr>) u g) \<and>
     free_slots m < free_slots (m\<lparr>kmap_pool := pool, kmap_pte := pte\<rparr>)"
proof -
  have len: "length (kmap_pool m) = 1024" "length (kmap_pte m) = 1024" "kmap_start_vaddr m = 0xC1000000"
    using w by (auto simp: window_ok_def)
  obtain i where i: "i < 1024" "v = kvaddr i" "km_present (kmap_pool m ! i)" using v by (auto simp: mapped_def)
  note kv = kvaddr_facts [OF i(1)]
  let ?k = "(kmap_pool m ! i)\<lparr>km_present := False, km_cnt := km_cnt (kmap_pool m ! i) - 1\<rparr>"
  let ?pool = "(kmap_pool m)[i := ?k]"
  let ?pte = "if km_cnt ?k = 0 then (kmap_pte m)[i := pte_set PTE_PRESENT False (kmap_pte m ! i)] else kmap_pte m"
  let ?m = "m\<lparr>kmap_pool := ?pool, kmap_pte := ?pte\<rparr>"
  have "kunmap m v = Some ?m"
    using i kv len by (simp add: kunmap_def ASSERT_PAGE_def kmap_get_index_def KMAP_POOL_LEN_def PAGE_SIZE_def Let_def)
  moreover have "window_ok ?m"
    using w i(1) len by (auto simp: window_ok_def nth_list_update)
  moreover have "mapped ?m u g" if mp: "mapped m u g" and ne: "u \<noteq> v" for u g
  proof -
    obtain j where j: "j < 1024" "u = kvaddr j" "km_present (kmap_pool m ! j)" "km_paddr (kmap_pool m ! j) = PAGE g" "g < 0x100000"
      using mp by (auto simp: mapped_def)
    then have "j \<noteq> i" using ne i(2) by auto
    then show ?thesis using j unfolding mapped_def by (intro conjI exI [of _ j]) simp_all
  qed
  moreover have "free_slots m < free_slots ?m"
  proof -
    have "{j. j < 1024 \<and> \<not> km_present (?pool ! j)} = insert i {j. j < 1024 \<and> \<not> km_present (kmap_pool m ! j)}"
      using i(1) len by (auto simp: nth_list_update split: if_splits)
    then show ?thesis using i(3) by (simp add: free_slots_def)
  qed
  ultimately show ?thesis by blast
qed


section \<open>Address spaces\<close>

text \<open>
  A user address space is well-formed when its directory lies in low memory and its present
  tables (below 3G) are distinct referenced user frames.
\<close>

definition uspace_ok :: "mm \<Rightarrow> u32 \<Rightarrow> bool" where
  "uspace_ok m pd \<longleftrightarrow> pd < 0x1000 \<and>
     (\<forall>i < 768. bit (phys m pd i) PTE_PRESENT \<longrightarrow> 0x1000 \<le> pte_index (phys m pd i) \<and>
        pte_index (phys m pd i) < total_pages m \<and> mem_map m ! unat (pte_index (phys m pd i)) \<noteq> 0) \<and>
     (\<forall>i < 768. \<forall>j < 768. bit (phys m pd i) PTE_PRESENT \<and> bit (phys m pd j) PTE_PRESENT \<and>
        pte_index (phys m pd i) = pte_index (phys m pd j) \<longrightarrow> i = j)"

text \<open>What the operations below keep and need: accounts, window, the current directory.\<close>

definition vm_ok :: "mm \<Rightarrow> u32 \<Rightarrow> bool" where
  "vm_ok m pd \<longleftrightarrow> mm_inv m \<and> window_ok m \<and> get_pde m = Some pd \<and> uspace_ok m pd"

lemma user_frame_word:
  assumes "mm_inv m" "user_free m i"
  shows "0x1000 \<le> (of_nat i :: u32)" "of_nat i < (0x100000 :: u32)" "of_nat i < total_pages m" "unat (of_nat i :: u32) = i"
proof -
  have b: "4096 \<le> i" "i < unat (total_pages m)" "unat (total_pages m) < 2 ^ 20"
    using assms by (auto simp: user_free_def mm_inv_def counts_ok_def)
  then show u: "unat (of_nat i :: u32) = i" by simp
  show "0x1000 \<le> (of_nat i :: u32)" "of_nat i < (0x100000 :: u32)" "of_nat i < total_pages m"
    using b u by (simp_all add: word_le_nat_alt word_less_nat_alt)
qed

lemma mm_inv_cong:
  "mm_inv (m\<lparr>kmap_pool := a, kmap_pte := b\<rparr>) = mm_inv m" "mm_inv (m\<lparr>phys := ph\<rparr>) = mm_inv m"
  "window_ok (m\<lparr>phys := ph\<rparr>) = window_ok m" "window_ok (take_frame m i) = window_ok m"
  "mapped (m\<lparr>phys := ph\<rparr>) v f = mapped m v f" "mapped (take_frame m i) v f = mapped m v f"
  "free_slots (m\<lparr>phys := ph\<rparr>) = free_slots m" "free_slots (take_frame m i) = free_slots m"
  "get_pde (m\<lparr>kmap_pool := a, kmap_pte := b\<rparr>) = get_pde m" "get_pde (m\<lparr>phys := ph\<rparr>) = get_pde m"
  "get_pde (take_frame m i) = get_pde m"
  by (simp_all add: mm_inv_def counts_ok_def kmap_bits_ok_def window_ok_def mapped_def free_slots_def get_pde_def take_frame_def)

lemma take_frame_fields [simp]:
  "phys (take_frame m i) = phys m" "total_pages (take_frame m i) = total_pages m"
  "mem_map (take_frame m i) = (mem_map m)[i := 1]" "kmap_pool (take_frame m i) = kmap_pool m"
  "kmap_pte (take_frame m i) = kmap_pte m" "mm_kern (take_frame m i) = mm_kern m" "vmap (take_frame m i) = vmap m"
  by (simp_all add: take_frame_def)

lemma pte_set_bits:
  "n < 12 \<Longrightarrow> pte_index (pte_set n b e) = pte_index e" "n < 32 \<Longrightarrow> bit (pte_set n b e) i \<longleftrightarrow> (if i = n then b else bit e i)"
proof -
  show "pte_index (pte_set n b e) = pte_index e" if "n < 12"
    using that by (intro bit_word_eqI) (auto simp: pte_index_def pte_set_def bit_simps)
  show "bit (pte_set n b e) i \<longleftrightarrow> (if i = n then b else bit e i)" if "n < 32"
    using that by (auto simp: pte_set_def bit_simps)
qed

text \<open>The outcome of \<open>get_pte\<close>: the table of the address is present, mapped and in frame \<open>f\<close>.\<close>

definition table_ready :: "mm \<Rightarrow> mm \<Rightarrow> u32 \<Rightarrow> u32 \<Rightarrow> u32 \<Rightarrow> u32 \<Rightarrow> bool" where
  "table_ready m m1 pd v kv f \<longleftrightarrow> vm_ok m1 pd \<and> mapped m1 kv f \<and>
     bit (phys m1 pd (PDE_IDX v)) PTE_PRESENT \<and> pte_index (phys m1 pd (PDE_IDX v)) = f \<and>
     (\<forall>u. PDE_IDX u < 768 \<longrightarrow> walk m1 pd u = walk m pd u) \<and>
     (\<forall>g. g \<noteq> pd \<and> g \<noteq> f \<longrightarrow> phys m1 g = phys m g) \<and> total_pages m1 = total_pages m \<and> mm_kern m1 = mm_kern m \<and>
     length (mem_map m1) = length (mem_map m) \<and>
     (\<forall>j. mem_map m ! j \<noteq> 0 \<longrightarrow> mem_map m1 ! j = mem_map m ! j) \<and> free_slots m \<le> Suc (free_slots m1) \<and>
     (\<exists>i. \<forall>j. j \<noteq> i \<and> user_free m j \<longrightarrow> user_free m1 j)"

lemma get_pte_present:
  assumes ok: "vm_ok m pd" and v: "PDE_IDX v < 768" and room: "0 < free_slots m"
    and p: "bit (phys m pd (PDE_IDX v)) PTE_PRESENT"
  shows "\<exists>kv m1 pool pte. get_pte m v = Some (kv, PTE_IDX v, m1) \<and> m1 = m\<lparr>kmap_pool := pool, kmap_pte := pte\<rparr> \<and>
     table_ready m m1 pd v kv (pte_index (phys m pd (PDE_IDX v)))"
proof -
  let ?f = "pte_index (phys m pd (PDE_IDX v))"
  have inv: "mm_inv m" "window_ok m" "get_pde m = Some pd" "uspace_ok m pd" using ok by (auto simp: vm_ok_def)
  have f: "0x1000 \<le> ?f" "?f < total_pages m" using inv(4) v p by (auto simp: uspace_ok_def)
  have f20: "?f < 0x100000" using f(2) inv(1) by (simp add: mm_inv_def counts_ok_def word_less_nat_alt)
  obtain kv pool pte where k: "kmap m (PAGE ?f) = Some (kv, m\<lparr>kmap_pool := pool, kmap_pte := pte\<rparr>)"
      "window_ok (m\<lparr>kmap_pool := pool, kmap_pte := pte\<rparr>)" "mapped (m\<lparr>kmap_pool := pool, kmap_pte := pte\<rparr>) kv ?f"
      "free_slots m \<le> Suc (free_slots (m\<lparr>kmap_pool := pool, kmap_pte := pte\<rparr>))"
    using kmap_spec [OF inv(2) f(1) f20 room] by blast
  have "get_pte m v = Some (kv, PTE_IDX v, m\<lparr>kmap_pool := pool, kmap_pte := pte\<rparr>)"
    using inv(3) p k(1) by (simp add: get_pte_def Let_def)
  moreover have "table_ready m (m\<lparr>kmap_pool := pool, kmap_pte := pte\<rparr>) pd v kv ?f"
    using k(2-4) p inv by (auto simp: table_ready_def vm_ok_def mm_inv_cong uspace_ok_def walk_def user_free_def Let_def)
  ultimately show ?thesis by blast
qed

lemma get_pte_absent:
  assumes ok: "vm_ok m pd" and v: "PDE_IDX v < 768" and room: "0 < free_slots m" and fr: "user_free m j"
    and p: "\<not> bit (phys m pd (PDE_IDX v)) PTE_PRESENT"
  shows "\<exists>kv m1 f. get_pte m v = Some (kv, PTE_IDX v, m1) \<and> table_ready m m1 pd v kv f"
proof -
  have inv: "mm_inv m" "window_ok m" "get_pde m = Some pd" "uspace_ok m pd" using ok by (auto simp: vm_ok_def)
  obtain i where i: "get_user_page m = Some (PAGE (of_nat i), take_frame m i)" "user_free m i" "mm_inv (take_frame m i)"
    using get_user_page_spec [OF inv(1) fr] by blast
  let ?f = "of_nat i :: u32" and ?d = "PDE_IDX v"
  note fw = user_frame_word [OF inv(1) i(2)]
  let ?e = "pte_set PTE_USER True (entry_init ?f)"
  have e: "bit ?e PTE_PRESENT" "pte_index ?e = ?f"
    using entry_init_bits(1) entry_init_bits(4) [OF fw(2)] by (simp_all add: pte_set_bits)
  let ?m = "set_word (take_frame m i) pd ?d ?e"
  have wm: "window_ok ?m" "0 < free_slots ?m" "mm_inv ?m"
    using inv(2) room i(3) by (simp_all add: set_word_def mm_inv_cong)
  obtain kv pool pte where k: "kmap ?m (PAGE ?f) = Some (kv, ?m\<lparr>kmap_pool := pool, kmap_pte := pte\<rparr>)"
      "window_ok (?m\<lparr>kmap_pool := pool, kmap_pte := pte\<rparr>)" "mapped (?m\<lparr>kmap_pool := pool, kmap_pte := pte\<rparr>) kv ?f"
      "free_slots ?m \<le> Suc (free_slots (?m\<lparr>kmap_pool := pool, kmap_pte := pte\<rparr>))"
    using kmap_spec [OF wm(1) fw(1,2) wm(2)] by blast
  let ?m2 = "?m\<lparr>kmap_pool := pool, kmap_pte := pte\<rparr>"
  define m3 where "m3 = ?m2\<lparr>phys := (phys ?m2)(?f := (\<lambda>_. 0))\<rparr>"
  have run: "get_pte m v = Some (kv, PTE_IDX v, m3)"
    using inv(3) p i(1) k(1) mapped_kframe [OF k(2,3)] fw(2)
    by (simp add: get_pte_def kzero_page_def page_align Let_def m3_def)
  have pdf: "pd \<noteq> ?f" using inv(4) fw(1) by (auto simp: uspace_ok_def)
  have len: "i < length (mem_map m)" using i(2) inv(1) by (auto simp: user_free_def mm_inv_def counts_ok_def)
  have other: "pte_index (phys m pd d) \<noteq> ?f" if "d < 768" "bit (phys m pd d) PTE_PRESENT" for d
    using inv(4) that i(2) fw(4) by (auto simp: uspace_ok_def user_free_def)
  have ph: "phys m3 pd d = (if d = ?d then ?e else phys m pd d)" "phys m3 ?f = (\<lambda>_. 0)"
    "g \<noteq> pd \<Longrightarrow> g \<noteq> ?f \<Longrightarrow> phys m3 g = phys m g" for d g
    using pdf by (simp_all add: m3_def set_word_def)
  have flds: "total_pages m3 = total_pages m" "mem_map m3 = (mem_map m)[i := 1]" "mm_kern m3 = mm_kern m"
    by (simp_all add: m3_def set_word_def)
  have us: "uspace_ok m3 pd"
    unfolding uspace_ok_def
  proof (intro conjI allI impI)
    show "pd < 0x1000" using inv(4) by (simp add: uspace_ok_def)
  next
    fix d assume d: "d < 768" "bit (phys m3 pd d) PTE_PRESENT"
    show "0x1000 \<le> pte_index (phys m3 pd d)" "pte_index (phys m3 pd d) < total_pages m3"
      "mem_map m3 ! unat (pte_index (phys m3 pd d)) \<noteq> 0"
      using d inv(4) e(2) fw len other [of d] by (auto simp: ph flds uspace_ok_def nth_list_update split: if_splits)
  next
    fix d d' assume "d < 768" "d' < 768" "bit (phys m3 pd d) PTE_PRESENT \<and> bit (phys m3 pd d') PTE_PRESENT \<and>
       pte_index (phys m3 pd d) = pte_index (phys m3 pd d')"
    then show "d = d'" using inv(4) e(2) other [of d] other [of d'] by (auto simp: ph uspace_ok_def split: if_splits)
  qed
  have "walk m3 pd u = walk m pd u" if "PDE_IDX u < 768" for u
    using other [of "PDE_IDX u"] that e p inv(4) ph(3) pdf
    by (cases "PDE_IDX u = ?d") (auto simp: walk_def ph Let_def uspace_ok_def)
  moreover have "mm_inv m3" "window_ok m3" "get_pde m3 = Some pd" "mapped m3 kv ?f"
    using wm(3) k(2,3) inv(3) by (simp_all add: m3_def mm_inv_cong) (simp add: set_word_def mm_inv_cong)
  moreover have "free_slots m \<le> Suc (free_slots m3)" using k(4) by (simp add: m3_def free_slots_def set_word_def)
  moreover have "user_free m3 l" if "l \<noteq> i" "user_free m l" for l
    using that by (simp add: user_free_def flds)
  moreover have "mem_map m3 ! l = mem_map m ! l" if "mem_map m ! l \<noteq> 0" for l
    using that i(2) by (cases "l = i") (auto simp: user_free_def flds)
  ultimately have "table_ready m m3 pd v kv ?f"
    using us ph e unfolding table_ready_def vm_ok_def by (auto simp: flds)
  with run show ?thesis by blast
qed

lemma get_pte_spec:
  assumes "vm_ok m pd" "PDE_IDX v < 768" "0 < free_slots m" "user_free m j"
  shows "\<exists>kv m1 f. get_pte m v = Some (kv, PTE_IDX v, m1) \<and> table_ready m m1 pd v kv f"
  using get_pte_present [OF assms(1-3)] get_pte_absent [OF assms] by blast


lemma window_update:
  "vm_ok m pd \<Longrightarrow> window_ok (m\<lparr>kmap_pool := a, kmap_pte := b\<rparr>) \<Longrightarrow> vm_ok (m\<lparr>kmap_pool := a, kmap_pte := b\<rparr>) pd"
  "walk (m\<lparr>kmap_pool := a, kmap_pte := b\<rparr>) pd u = walk m pd u"
  by (simp_all add: vm_ok_def mm_inv_cong uspace_ok_def walk_def Let_def)

text \<open>Writing the entry of an address in its table changes the translation of its page only.\<close>

lemma entry_write:
  assumes ok: "vm_ok m pd" and v: "PDE_IDX v < 768" and p: "bit (phys m pd (PDE_IDX v)) PTE_PRESENT"
  defines "f \<equiv> pte_index (phys m pd (PDE_IDX v))"
  shows "vm_ok (set_word m f (PTE_IDX v) e) pd"
    "PDE_IDX u < 768 \<Longrightarrow> walk (set_word m f (PTE_IDX v) e) pd u =
       (if PDE_IDX u = PDE_IDX v \<and> PTE_IDX u = PTE_IDX v then if bit e PTE_PRESENT then Some e else None else walk m pd u)"
    "mapped (set_word m f j e) w g = mapped m w g" "free_slots (set_word m f j e) = free_slots m"
    "window_ok (set_word m f j e) = window_ok m"
proof -
  have us: "uspace_ok m pd" using ok by (simp add: vm_ok_def)
  have pf: "pd \<noteq> f" using us v p by (auto simp: uspace_ok_def f_def word_less_nat_alt word_le_nat_alt)
  then have ph: "phys (set_word m f (PTE_IDX v) e) pd = phys m pd" by (simp add: set_word_def)
  show "vm_ok (set_word m f (PTE_IDX v) e) pd"
    using ok ph unfolding vm_ok_def by (simp add: set_word_def mm_inv_cong uspace_ok_def)
  show "mapped (set_word m f j e) w g = mapped m w g" "free_slots (set_word m f j e) = free_slots m"
    "window_ok (set_word m f j e) = window_ok m"
    by (simp_all add: set_word_def mm_inv_cong)
  assume u: "PDE_IDX u < 768"
  show "walk (set_word m f (PTE_IDX v) e) pd u =
       (if PDE_IDX u = PDE_IDX v \<and> PTE_IDX u = PTE_IDX v then if bit e PTE_PRESENT then Some e else None else walk m pd u)"
  proof (cases "bit (phys m pd (PDE_IDX u)) PTE_PRESENT")
    case True
    show ?thesis
    proof (cases "PDE_IDX u = PDE_IDX v")
      case same: True
      then show ?thesis using p
        by (cases "PTE_IDX u = PTE_IDX v") (simp_all add: walk_def ph Let_def f_def [symmetric], simp_all add: set_word_def)
    next
      case False
      then have "pte_index (phys m pd (PDE_IDX u)) \<noteq> f" using us u v p True unfolding uspace_ok_def f_def by blast
      then show ?thesis using False True by (simp add: walk_def ph Let_def) (simp add: set_word_def)
    qed
  next
    case False
    then have "PDE_IDX u \<noteq> PDE_IDX v" using p by auto
    then show ?thesis using False by (simp add: walk_def ph Let_def)
  qed
qed

lemma take_frame_vm:
  assumes ok: "vm_ok m pd" and i: "user_free m i" and inv: "mm_inv (take_frame m i)"
  shows "vm_ok (take_frame m i) pd" "walk (take_frame m i) pd u = walk m pd u"
proof -
  have len: "i < length (mem_map m)" using i ok by (auto simp: user_free_def vm_ok_def mm_inv_def counts_ok_def)
  have "(mem_map m)[i := 1] ! j \<noteq> 0" if "mem_map m ! j \<noteq> 0" for j
    using that len by (cases "j = i") auto
  then show "vm_ok (take_frame m i) pd"
    using ok inv by (auto simp: vm_ok_def mm_inv_cong uspace_ok_def)
  show "walk (take_frame m i) pd u = walk m pd u" by (simp add: walk_def Let_def)
qed

lemma table_ready_entry:
  assumes "table_ready m m1 pd v kv f" "PDE_IDX v < 768"
  shows "kframe m1 kv = Some f" "walk m pd v = (let e = phys m1 f (PTE_IDX v) in if bit e PTE_PRESENT then Some e else None)"
proof -
  show "kframe m1 kv = Some f" using assms(1) mapped_kframe by (auto simp: table_ready_def vm_ok_def)
  have "walk m pd v = walk m1 pd v" using assms by (simp add: table_ready_def)
  then show "walk m pd v = (let e = phys m1 f (PTE_IDX v) in if bit e PTE_PRESENT then Some e else None)"
    using assms(1) by (simp add: walk_def table_ready_def Let_def)
qed

lemma frame_write:
  assumes ok: "vm_ok m pd" and g: "g \<noteq> pd" "\<forall>d < 768. bit (phys m pd d) PTE_PRESENT \<longrightarrow> pte_index (phys m pd d) \<noteq> g"
  shows "vm_ok (m\<lparr>phys := (phys m)(g := w)\<rparr>) pd"
    "PDE_IDX u < 768 \<Longrightarrow> walk (m\<lparr>phys := (phys m)(g := w)\<rparr>) pd u = walk m pd u"
proof -
  show "vm_ok (m\<lparr>phys := (phys m)(g := w)\<rparr>) pd" using ok g by (simp add: vm_ok_def mm_inv_cong uspace_ok_def)
  show "walk (m\<lparr>phys := (phys m)(g := w)\<rparr>) pd u = walk m pd u" if "PDE_IDX u < 768"
    using g that by (auto simp: walk_def Let_def)
qed

lemma mapped_inj: "mapped m v f \<Longrightarrow> mapped m v g \<Longrightarrow> f = g"
  by (auto simp: mapped_def kvaddr_inj PAGE_inj)

lemma drop_share:
  assumes ok: "vm_ok m pd" and i: "4096 \<le> i" "i < unat (total_pages m)" "mem_map m ! i \<noteq> 0" and c: "c \<noteq> 0"
  shows "vm_ok (m\<lparr>mem_map := (mem_map m)[i := c]\<rparr>) pd" "walk (m\<lparr>mem_map := (mem_map m)[i := c]\<rparr>) pd u = walk m pd u"
    "mapped (m\<lparr>mem_map := (mem_map m)[i := c]\<rparr>) v f = mapped m v f"
    "free_slots (m\<lparr>mem_map := (mem_map m)[i := c]\<rparr>) = free_slots m"
    "user_free (m\<lparr>mem_map := (mem_map m)[i := c]\<rparr>) j = user_free m j"
proof -
  have inv: "counts_ok m" "kmap_bits_ok m" "i < length (mem_map m)"
    using ok i(2) by (auto simp: vm_ok_def mm_inv_def counts_ok_def)
  have "mm_inv (m\<lparr>mem_map := (mem_map m)[i := c]\<rparr>)"
    using counts_same [OF inv(1) i(2,3) c] kmap_bits_user(2) [OF inv(2) i(1)] by (simp add: mm_inv_def)
  then show "vm_ok (m\<lparr>mem_map := (mem_map m)[i := c]\<rparr>) pd"
    using ok i(3) c inv(3) by (auto simp: vm_ok_def window_ok_def get_pde_def uspace_ok_def nth_list_update)
  show "walk (m\<lparr>mem_map := (mem_map m)[i := c]\<rparr>) pd u = walk m pd u" by (simp add: walk_def Let_def)
  show "mapped (m\<lparr>mem_map := (mem_map m)[i := c]\<rparr>) v f = mapped m v f"
    "free_slots (m\<lparr>mem_map := (mem_map m)[i := c]\<rparr>) = free_slots m" by (simp_all add: mapped_def free_slots_def)
  show "user_free (m\<lparr>mem_map := (mem_map m)[i := c]\<rparr>) j = user_free m j"
    using i(3) c inv(3) by (cases "j = i") (auto simp: user_free_def)
qed

text \<open>The state behind a copied page: entry \<open>e\<close> of frame \<open>g\<close> is replaced by a private frame \<open>f\<close>.\<close>

definition private_copy :: "mm \<Rightarrow> mm \<Rightarrow> u32 \<Rightarrow> u32 \<Rightarrow> u32 \<Rightarrow> u32 \<Rightarrow> bool" where
  "private_copy m m' pd v g f \<longleftrightarrow>
     user_free m (unat f) \<and> mem_map m' ! unat f = 1 \<and> mem_map m' ! unat g = 1 \<and>
     (\<exists>n. walk m' pd v = Some n \<and> bit n PTE_WRITE \<and> bit n PTE_USER \<and> pte_index n = f) \<and>
     phys m' f = phys m g \<and> phys m' g = phys m g \<and>
     (\<exists>x y. x \<noteq> y \<and> mapped m' x f \<and> mapped m' y g)"

section \<open>Properties\<close>

text \<open>
  \<^verbatim>\<open>link_user_page\<close> on a well-formed address space with a free window slot and two free frames
  returns: a page that was mapped keeps its entry; one that was not gets a frame that nobody
  referenced, now with one reference, present, writable and open to the user. The translation
  of every other user page is unchanged, the space stays well-formed, no window slot is lost.
\<close>

lemma link_user_page_maps:
  assumes ok: "vm_ok m pd" and v: "PDE_IDX v < 768" and room: "0 < free_slots m"
    and fr: "user_free m a" "user_free m b" "a \<noteq> b"
  shows "\<exists>m'. link_user_page m v = Some m' \<and> vm_ok m' pd \<and> free_slots m \<le> free_slots m' \<and> mm_kern m' = mm_kern m \<and>
     (if walk m pd v = None
      then \<exists>e f. walk m' pd v = Some e \<and> bit e PTE_WRITE \<and> bit e PTE_USER \<and> pte_index e = of_nat f \<and>
             user_free m f \<and> mem_map m' ! f = 1
      else walk m' pd v = walk m pd v) \<and>
     (\<forall>u. PDE_IDX u < 768 \<and> \<not> (PDE_IDX u = PDE_IDX v \<and> PTE_IDX u = PTE_IDX v) \<longrightarrow> walk m' pd u = walk m pd u)"
proof -
  obtain kv m1 f where g: "get_pte m v = Some (kv, PTE_IDX v, m1)" and r: "table_ready m m1 pd v kv f"
    using get_pte_spec [OF ok v room fr(1)] by blast
  note te = table_ready_entry [OF r v]
  have r1: "vm_ok m1 pd" "mapped m1 kv f" "bit (phys m1 pd (PDE_IDX v)) PTE_PRESENT" "pte_index (phys m1 pd (PDE_IDX v)) = f"
      "\<forall>u. PDE_IDX u < 768 \<longrightarrow> walk m1 pd u = walk m pd u" "free_slots m \<le> Suc (free_slots m1)" "mm_kern m1 = mm_kern m"
    using r by (auto simp: table_ready_def)
  have w1: "window_ok m1" using r1(1) by (simp add: vm_ok_def)
  let ?e = "phys m1 f (PTE_IDX v)"
  show ?thesis
  proof (cases "bit ?e PTE_PRESENT")
    case True
    obtain pool pte where u: "kunmap m1 kv = Some (m1\<lparr>kmap_pool := pool, kmap_pte := pte\<rparr>)"
        "window_ok (m1\<lparr>kmap_pool := pool, kmap_pte := pte\<rparr>)" "free_slots m1 < free_slots (m1\<lparr>kmap_pool := pool, kmap_pte := pte\<rparr>)"
      using kunmap_spec [OF w1 r1(2)] by blast
    have "link_user_page m v = Some (m1\<lparr>kmap_pool := pool, kmap_pte := pte\<rparr>)"
      using g te(1) True u(1) by (simp add: link_user_page_def kread_def)
    moreover have "walk m pd v \<noteq> None" using te(2) True by simp
    ultimately show ?thesis using window_update(1) [OF r1(1) u(2)] r1 u(3) v
      by (intro exI [of _ "m1\<lparr>kmap_pool := pool, kmap_pte := pte\<rparr>"]) (simp add: window_update(2))
  next
    case False
    obtain i0 where i0: "\<forall>j. j \<noteq> i0 \<and> user_free m j \<longrightarrow> user_free m1 j" using r by (auto simp: table_ready_def)
    then obtain j where j: "user_free m1 j" using fr by (metis (full_types))
    have inv1: "mm_inv m1" using r1(1) by (simp add: vm_ok_def)
    obtain i where i: "get_user_page m1 = Some (PAGE (of_nat i), take_frame m1 i)" "user_free m1 i" "mm_inv (take_frame m1 i)"
      using get_user_page_spec [OF inv1 j] by blast
    note fw = user_frame_word [OF inv1 i(2)]
    let ?n = "pte_set PTE_USER True (entry_init (of_nat i))"
    let ?m2 = "take_frame m1 i"
    let ?m3 = "set_word ?m2 f (PTE_IDX v) ?n"
    have n: "bit ?n PTE_PRESENT" "bit ?n PTE_WRITE" "bit ?n PTE_USER" "pte_index ?n = of_nat i"
      using entry_init_bits entry_init_bits(4) [OF fw(2)] by (simp_all add: pte_set_bits)
    note t2 = take_frame_vm [OF r1(1) i(2,3)]
    have p2: "bit (phys ?m2 pd (PDE_IDX v)) PTE_PRESENT" "pte_index (phys ?m2 pd (PDE_IDX v)) = f" using r1(3,4) by simp_all
    note ew = entry_write [OF t2(1) v p2(1), where e = ?n, unfolded p2(2)]
    have w3: "window_ok ?m3" "mapped ?m3 kv f" using ew(3,5) w1 r1(2) by (simp_all add: mm_inv_cong)
    obtain pool pte where u: "kunmap ?m3 kv = Some (?m3\<lparr>kmap_pool := pool, kmap_pte := pte\<rparr>)"
        "window_ok (?m3\<lparr>kmap_pool := pool, kmap_pte := pte\<rparr>)" "free_slots ?m3 < free_slots (?m3\<lparr>kmap_pool := pool, kmap_pte := pte\<rparr>)"
      using kunmap_spec [OF w3] by blast
    let ?m4 = "?m3\<lparr>kmap_pool := pool, kmap_pte := pte\<rparr>"
    have kf: "kframe ?m2 kv = Some f" using mapped_kframe [of ?m2 kv f] w1 r1(2) by (simp add: mm_inv_cong)
    have run: "link_user_page m v = Some ?m4"
      using g te(1) False i(1) fw(2) u(1) kf by (simp add: link_user_page_def kread_def kwrite_def page_align)
    have none: "walk m pd v = None" using te(2) False by simp
    have wv: "walk ?m4 pd v = Some ?n" using ew(2) [OF v] n(1) by (simp only: window_update(2)) simp
    have wu: "walk ?m4 pd u' = walk m pd u'" if "PDE_IDX u' < 768" "\<not> (PDE_IDX u' = PDE_IDX v \<and> PTE_IDX u' = PTE_IDX v)" for u'
    proof -
      have "walk ?m4 pd u' = walk ?m2 pd u'" using ew(2) [OF that(1)] that(2) by (simp only: window_update(2)) auto
      also have "\<dots> = walk m pd u'" using t2(2) r1(5) that(1) by simp
      finally show ?thesis .
    qed
    have len: "i < length (mem_map m1)" using i(2) inv1 by (auto simp: user_free_def mm_inv_def counts_ok_def)
    have mi: "mem_map m ! i = 0"
      using r i(2) unfolding table_ready_def user_free_def by metis
    have "user_free m i" using i(2) mi r by (simp add: user_free_def table_ready_def)
    moreover have "mem_map ?m4 ! i = 1" using len by (simp add: set_word_def)
    moreover have "free_slots m \<le> free_slots ?m4" using r1(6) u(3) ew(4) by (simp add: mm_inv_cong)
    moreover have "mm_kern ?m4 = mm_kern m" using r1(7) by (simp add: set_word_def)
    ultimately show ?thesis using run window_update(1) [OF ew(1) u(2)] none wv wu n(2-4) by (intro exI [of _ ?m4]) auto
  qed
qed


text \<open>The machine after boot with an empty window and one user task, on the empty directory in frame 0.\<close>

definition demo_user :: task where
  "demo_user = (zero_task 0xC0020000)\<lparr>t_uid := USER_RING3\<rparr>"

definition demo_vm :: "mm \<Rightarrow> mm" where
  "demo_vm m = m\<lparr>kmap_start_vaddr := 0xC1000000, kmap_pte := replicate 1024 0, phys := (\<lambda>_ _. 0),
     kmap_pool := replicate 1024 \<lparr>km_present = False, km_cnt = 0, km_paddr = 0\<rparr>,
     mm_kern := no_tasks\<lparr>task_list := [Some demo_user]\<rparr>\<rparr>"

lemma demo_vm:
  assumes "mm_inv m"
  shows "vm_ok (demo_vm m) 0" "free_slots (demo_vm m) = 1024" "user_free (demo_vm m) i = user_free m i"
    "get_current (mm_kern (demo_vm m)) = Some demo_user" "walk (demo_vm m) 0 v = None"
proof -
  show cur: "get_current (mm_kern (demo_vm m)) = Some demo_user"
    by (simp add: demo_vm_def get_current_def task_at_def no_tasks_def)
  have "get_pde (demo_vm m) = Some 0" by (simp add: get_pde_def cur demo_user_def zero_task_def IDX_def)
  moreover have "mm_inv (demo_vm m)" using assms by (simp add: demo_vm_def mm_inv_def counts_ok_def kmap_bits_ok_def)
  moreover have "window_ok (demo_vm m)" by (simp add: demo_vm_def window_ok_def)
  moreover have "uspace_ok (demo_vm m) 0" by (simp add: uspace_ok_def demo_vm_def)
  ultimately show "vm_ok (demo_vm m) 0" by (simp add: vm_ok_def)
  have "{i. i < 1024 \<and> \<not> km_present (kmap_pool (demo_vm m) ! i)} = {..<1024}" by (auto simp: demo_vm_def)
  then show "free_slots (demo_vm m) = 1024" by (simp add: free_slots_def)
  show "user_free (demo_vm m) i = user_free m i" by (simp add: user_free_def demo_vm_def)
  show "walk (demo_vm m) 0 v = None" by (simp add: walk_def demo_vm_def)
qed

lemma link_user_page_maps_witness:
  "\<exists>m m' e f. vm_ok m 0 \<and> walk m 0 0x8048000 = None \<and> link_user_page m 0x8048000 = Some m' \<and> vm_ok m' 0 \<and>
     walk m' 0 0x8048000 = Some e \<and> bit e PTE_WRITE \<and> pte_index e = of_nat f \<and> user_free m f \<and> walk m' 0 0x8049000 = None"
proof -
  obtain m where m: "mm_inv m" "user_free m 4096" "user_free m 4097" using demo_mm by blast
  note d = demo_vm [OF m(1)]
  have i: "PDE_IDX 0x8048000 = 32" "PTE_IDX 0x8048000 = 72" "PDE_IDX 0x8049000 = 32" "PTE_IDX 0x8049000 = 73"
    by (simp_all add: PDE_IDX_def PTE_IDX_def drop_bit_eq_div)
  have c: "PDE_IDX 0x8048000 < 768" "0 < free_slots (demo_vm m)" "user_free (demo_vm m) 4096" "user_free (demo_vm m) 4097"
      "(4096 :: nat) \<noteq> 4097"
    using d(2,3) m i by simp_all
  obtain m' where r: "link_user_page (demo_vm m) 0x8048000 = Some m'" "vm_ok m' 0"
      "\<exists>e f. walk m' 0 0x8048000 = Some e \<and> bit e PTE_WRITE \<and> bit e PTE_USER \<and> pte_index e = of_nat f \<and>
         user_free (demo_vm m) f \<and> mem_map m' ! f = 1"
      "\<forall>u. PDE_IDX u < 768 \<and> \<not> (PDE_IDX u = PDE_IDX 0x8048000 \<and> PTE_IDX u = PTE_IDX 0x8048000) \<longrightarrow>
         walk m' 0 u = walk (demo_vm m) 0 u"
    using link_user_page_maps [OF d(1) c] unfolding if_P [OF d(5)] by blast
  have "walk m' 0 0x8049000 = None" using r(4) [rule_format, of "0x8049000"] i d(5) by simp
  then show ?thesis using r(1-3) d(1,5) by blast
qed

lemma cow_copy:
  assumes ok: "vm_ok m pd" and v: "PDE_IDX v < 768" and room: "2 < free_slots m" and fr: "user_free m a"
    and w: "walk m pd v = Some e" and sh: "\<not> bit e PTE_SHARED" "\<not> bit e PTE_READONLY"
    and g: "0x1000 \<le> pte_index e" "pte_index e < total_pages m" "mem_map m ! unat (pte_index e) = 2"
    and data: "\<forall>d < 768. bit (phys m pd d) PTE_PRESENT \<longrightarrow> pte_index (phys m pd d) \<noteq> pte_index e"
  shows "\<exists>m' f. cow_fault m v = Some (PF_return, m') \<and> vm_ok m' pd \<and> private_copy m m' pd v (pte_index e) f \<and>
     (\<forall>u. PDE_IDX u < 768 \<and> \<not> (PDE_IDX u = PDE_IDX v \<and> PTE_IDX u = PTE_IDX v) \<longrightarrow> walk m' pd u = walk m pd u) \<and>
     (\<forall>h. h \<noteq> f \<and> h \<noteq> pte_index (phys m pd (PDE_IDX v)) \<longrightarrow> phys m' h = phys m h)"
proof -
  let ?g = "pte_index e" and ?t = "pte_index (phys m pd (PDE_IDX v))"
  have pres: "bit (phys m pd (PDE_IDX v)) PTE_PRESENT" using w by (auto simp: walk_def Let_def split: if_splits)
  have pe: "phys m ?t (PTE_IDX v) = e" "bit e PTE_PRESENT" using w pres by (auto simp: walk_def Let_def split: if_splits)
  have inv: "mm_inv m" "uspace_ok m pd" using ok by (auto simp: vm_ok_def)
  have tot: "unat (total_pages m) < 2 ^ 20" "unat (total_pages m) \<le> length (mem_map m)"
    using inv(1) by (auto simp: mm_inv_def counts_ok_def)
  have gu: "4096 \<le> unat ?g" "unat ?g < unat (total_pages m)" "?g < 0x100000" "unat ?g < length (mem_map m)"
    using g(1,2) tot by (auto simp: word_le_nat_alt word_less_nat_alt)
  have room0: "0 < free_slots m" using room by simp
  obtain kv m1 pool1 pte1 where g1: "get_pte m v = Some (kv, PTE_IDX v, m1)" "m1 = m\<lparr>kmap_pool := pool1, kmap_pte := pte1\<rparr>"
      "table_ready m m1 pd v kv ?t"
    using get_pte_present [OF ok v room0 pres] by blast
  have m1: "phys m1 = phys m" "mem_map m1 = mem_map m" "total_pages m1 = total_pages m" using g1(2) by simp_all
  have r1: "vm_ok m1 pd" "mapped m1 kv ?t" "free_slots m \<le> Suc (free_slots m1)"
    "\<forall>u. PDE_IDX u < 768 \<longrightarrow> walk m1 pd u = walk m pd u" using g1(3) by (auto simp: table_ready_def)
  define m2 where "m2 = m1\<lparr>mem_map := (mem_map m1)[unat ?g := 1]\<rparr>"
  have ds: "4096 \<le> unat ?g" "unat ?g < unat (total_pages m1)" "mem_map m1 ! unat ?g \<noteq> 0" "(1 :: u8) \<noteq> 0" using gu g(3) m1 by simp_all
  note s2 = drop_share [OF r1(1) ds, folded m2_def]
  have uf1: "user_free m1 j = user_free m j" for j using m1 by (simp add: user_free_def)
  have fr2: "user_free m2 a" using s2(5) [of a] fr uf1 [of a] by simp
  have inv2: "mm_inv m2" using s2(1) by (simp add: vm_ok_def)
  obtain i where i: "get_user_page m2 = Some (PAGE (of_nat i), take_frame m2 i)" "user_free m2 i" "mm_inv (take_frame m2 i)"
    using get_user_page_spec [OF inv2 fr2] by blast
  let ?f = "of_nat i :: u32"
  note fw = user_frame_word [OF inv2 i(2)]
  define m3 where "m3 = take_frame m2 i"
  note t3 = take_frame_vm [OF s2(1) i(2,3), folded m3_def]
  have w3: "window_ok m3" "0 < free_slots m3" "mapped m3 kv ?t"
    using t3(1) s2(3,4) r1(2,3) room by (auto simp: vm_ok_def m3_def mm_inv_cong)
  obtain x pool4 pte4 where k4: "kmap m3 (PAGE ?f) = Some (x, m3\<lparr>kmap_pool := pool4, kmap_pte := pte4\<rparr>)"
      "window_ok (m3\<lparr>kmap_pool := pool4, kmap_pte := pte4\<rparr>)" "mapped (m3\<lparr>kmap_pool := pool4, kmap_pte := pte4\<rparr>) x ?f"
      "\<forall>u h. mapped m3 u h \<longrightarrow> mapped (m3\<lparr>kmap_pool := pool4, kmap_pte := pte4\<rparr>) u h"
      "free_slots m3 \<le> Suc (free_slots (m3\<lparr>kmap_pool := pool4, kmap_pte := pte4\<rparr>))"
    using kmap_spec [OF w3(1) fw(1,2) w3(2)] by blast
  define m4 where "m4 = m3\<lparr>kmap_pool := pool4, kmap_pte := pte4\<rparr>"
  note k4 = k4 [folded m4_def]
  have room4: "0 < free_slots m4" using k4(5) s2(4) r1(3) room by (simp add: m3_def mm_inv_cong)
  obtain y pool5 pte5 where k5: "kmap m4 (PAGE ?g) = Some (y, m4\<lparr>kmap_pool := pool5, kmap_pte := pte5\<rparr>)"
      "window_ok (m4\<lparr>kmap_pool := pool5, kmap_pte := pte5\<rparr>)" "mapped (m4\<lparr>kmap_pool := pool5, kmap_pte := pte5\<rparr>) y ?g"
      "\<forall>u h. mapped m4 u h \<longrightarrow> mapped (m4\<lparr>kmap_pool := pool5, kmap_pte := pte5\<rparr>) u h"
    using kmap_spec [OF k4(2) g(1) gu(3) room4] by blast
  define m5 where "m5 = m4\<lparr>kmap_pool := pool5, kmap_pte := pte5\<rparr>"
  note k5 = k5 [folded m5_def]
  have map5: "mapped m5 x ?f" "mapped m5 y ?g" "mapped m5 kv ?t" using k4(3,4) k5(3,4) w3(3) by blast+
  have v4: "vm_ok m4 pd" using window_update(1) [OF t3(1) k4(2) [unfolded m4_def]] by (simp add: m4_def)
  have v5: "vm_ok m5 pd" using window_update(1) [OF v4 k5(2) [unfolded m5_def]] by (simp add: m5_def)
  have ph5: "phys m5 = phys m" "total_pages m5 = total_pages m" "mem_map m5 = ((mem_map m)[unat ?g := 1])[i := 1]"
    by (simp_all add: m5_def m4_def m3_def m2_def m1)
  have walk5: "walk m5 pd u = walk m pd u" if "PDE_IDX u < 768" for u
    using that t3(2) s2(2) r1(4) by (simp add: m5_def m4_def window_update(2))
  have free_i: "user_free m i" using i(2) s2(5) [of i] uf1 [of i] by simp
  have fg: "?f \<noteq> ?g" using free_i g(3) fw(4) by (auto simp: user_free_def)
  have ft: "?f \<noteq> ?t" using inv(2) v pres free_i fw(4) by (auto simp: uspace_ok_def user_free_def)
  have fpd: "?f \<noteq> pd" using inv(2) fw(1) by (auto simp: uspace_ok_def)
  have tabs: "\<forall>d < 768. bit (phys m5 pd d) PTE_PRESENT \<longrightarrow> pte_index (phys m5 pd d) \<noteq> ?f"
    using inv(2) free_i fw(4) by (auto simp: ph5 uspace_ok_def user_free_def)
  define m6 where "m6 = m5\<lparr>phys := (phys m5)(?f := phys m5 ?g)\<rparr>"
  note f6 = frame_write [OF v5 fpd tabs, where w = "phys m5 ?g", folded m6_def]
  let ?n = "pte_set PTE_USER True (entry_init ?f)"
  have n: "bit ?n PTE_PRESENT" "bit ?n PTE_WRITE" "bit ?n PTE_USER" "pte_index ?n = ?f"
    using entry_init_bits entry_init_bits(4) [OF fw(2)] by (simp_all add: pte_set_bits)
  have p6: "phys m6 pd = phys m pd" using fpd by (simp add: m6_def ph5)
  have p6': "bit (phys m6 pd (PDE_IDX v)) PTE_PRESENT" using pres p6 by simp
  define m7 where "m7 = set_word m6 ?t (PTE_IDX v) ?n"
  note e7 = entry_write [OF f6(1) v p6', where e = ?n, unfolded p6, folded m7_def]
  have w7: "window_ok m7" "mapped m7 kv ?t" "mapped m7 x ?f" "mapped m7 y ?g"
    using map5 v5 by (auto simp: mm_inv_cong vm_ok_def m7_def m6_def set_word_def)
  obtain pool8 pte8 where u8: "kunmap m7 kv = Some (m7\<lparr>kmap_pool := pool8, kmap_pte := pte8\<rparr>)"
      "window_ok (m7\<lparr>kmap_pool := pool8, kmap_pte := pte8\<rparr>)"
      "\<forall>u h. mapped m7 u h \<and> u \<noteq> kv \<longrightarrow> mapped (m7\<lparr>kmap_pool := pool8, kmap_pte := pte8\<rparr>) u h"
    using kunmap_spec [OF w7(1,2)] by blast
  define m8 where "m8 = m7\<lparr>kmap_pool := pool8, kmap_pte := pte8\<rparr>"
  note u8 = u8 [folded m8_def]
  have tg: "?t \<noteq> ?g" using data v pres by blast
  have ne: "x \<noteq> kv" "y \<noteq> kv" "x \<noteq> y" using mapped_inj w7(2-4) ft tg fg by metis+
  have kf: "kframe m1 kv = Some ?t" "kframe m5 x = Some ?f" "kframe m5 y = Some ?g" "kframe m6 kv = Some ?t"
    using table_ready_entry(1) [OF g1(3) v] mapped_kframe [OF k5(2)] map5
      mapped_kframe [of m6 kv ?t] k5(2) by (simp_all add: m6_def mm_inv_cong)
  have run: "cow_fault m v = Some (PF_return, m8)"
  proof -
    have "kcopy_page m5 x y = Some m6" using kf(2,3) by (simp add: kcopy_page_def m6_def)
    moreover have "kwrite m6 kv (PTE_IDX v) ?n = Some m7" using kf(4) by (simp add: kwrite_def m7_def)
    moreover have "kread m1 kv (PTE_IDX v) = Some e" using kf(1) pe(1) m1(1) by (simp add: kread_def)
    moreover have "IDX MEMORY_BASE \<le> ?g" using g(1) by (simp add: word_le_nat_alt)
    moreover have "aget (mem_map m1) (unat ?g) = Some 2" using gu(4) g(3) m1(2) by simp
    moreover have "aset (mem_map m1) (unat ?g) 1 = Some ((mem_map m1)[unat ?g := 1])" using gu(4) m1(2) by simp
    ultimately show ?thesis
      using page_align(2) [OF fw(2)]
      by (simp add: cow_fault_def g1(1) pe(2) sh m2_def [symmetric] i(1) m3_def [symmetric] k4(1) k5(1) u8(1))
  qed
  have v8: "vm_ok m8 pd" using window_update(1) [OF e7(1) u8(2) [unfolded m8_def]] by (simp add: m8_def)
  have wk: "walk m8 pd u = (if PDE_IDX u = PDE_IDX v \<and> PTE_IDX u = PTE_IDX v then Some ?n else walk m pd u)"
    if "PDE_IDX u < 768" for u
    using that e7(2) [OF that] f6(2) [OF that] walk5 [OF that] n(1) by (simp add: m8_def window_update(2))
  have ph8: "phys m8 ?f = phys m ?g" "phys m8 ?g = phys m ?g" "\<forall>h. h \<noteq> ?f \<and> h \<noteq> ?t \<longrightarrow> phys m8 h = phys m h"
    using ft fg tg by (simp_all add: m8_def m7_def m6_def set_word_def ph5)
  have mm8: "mem_map m8 = ((mem_map m)[unat ?g := 1])[i := 1]" by (simp add: m8_def m7_def m6_def set_word_def ph5)
  have il: "i < length (mem_map m)" using free_i tot by (auto simp: user_free_def)
  have map8: "mapped m8 x ?f" "mapped m8 y ?g" using u8(3) w7(3,4) ne by blast+
  have ig: "i \<noteq> unat ?g" using fg fw(4) by auto
  have "\<exists>x y. x \<noteq> y \<and> mapped m8 x ?f \<and> mapped m8 y ?g" using ne(3) map8 by blast
  then have "private_copy m m8 pd v ?g ?f"
    unfolding private_copy_def
    using free_i fw(4) mm8 il gu(4) wk [OF v] n ph8(1,2) ig by simp
  with run v8 wk ph8(3) show ?thesis by (intro exI [of _ m8] exI [of _ ?f]) auto
qed


lemma user_below_stack: "PDE_IDX v < 768 \<Longrightarrow> v \<le> USER_STACK_TOP"
proof -
  assume "PDE_IDX v < 768"
  then have "unat v div 2 ^ 22 < 768" by (simp add: PDE_IDX_def drop_bit_eq_div unat_div)
  then have "unat v < 768 * 2 ^ 22" using div_less_iff_less_mult [of "2 ^ 22" "unat v" 768] by simp
  then show ?thesis by (simp add: USER_STACK_TOP_def KERNEL_PAGE_DIR_VADDR_def word_le_nat_alt)
qed

text \<open>
  C1. Copy on write: a write fault (present and write bits of the error code) on a private page
  that two address spaces share returns to the task with a fresh frame under the faulting page
  only, writable, holding the same 1024 words; the old frame keeps its contents and loses one
  of its two references, so the other owner sees no change; no other translation and no other
  frame changes. The two window pages used for the copy stay mapped afterwards.
\<close>

theorem cow_write_fault:
  assumes "vm_ok m pd" "PDE_IDX v < 768" "2 < free_slots m" "user_free m a" "bit err 0" "bit err 1"
    and "get_current (mm_kern m) = Some t" "t_uid t = USER_RING3"
    and "walk m pd v = Some e" "\<not> bit e PTE_SHARED" "\<not> bit e PTE_READONLY"
    and "0x1000 \<le> pte_index e" "pte_index e < total_pages m" "mem_map m ! unat (pte_index e) = 2"
    and "\<forall>d < 768. bit (phys m pd d) PTE_PRESENT \<longrightarrow> pte_index (phys m pd d) \<noteq> pte_index e"
  shows "\<exists>m' f. page_fault m v err = Some (PF_return, m') \<and> vm_ok m' pd \<and> private_copy m m' pd v (pte_index e) f \<and>
     (\<forall>u. PDE_IDX u < 768 \<and> \<not> (PDE_IDX u = PDE_IDX v \<and> PTE_IDX u = PTE_IDX v) \<longrightarrow> walk m' pd u = walk m pd u) \<and>
     (\<forall>h. h \<noteq> f \<and> h \<noteq> pte_index (phys m pd (PDE_IDX v)) \<longrightarrow> phys m' h = phys m h)"
proof -
  have "page_fault m v err = cow_fault m v"
    using user_below_stack [OF assms(2)] assms(5-8) by (simp add: page_fault_def not_less [symmetric])
  with cow_copy [OF assms(1-4) assms(9-15)] show ?thesis by simp
qed

text \<open>A space with one page: table in frame 4096, the page read-only in frame 4097 with \<open>c\<close> owners.\<close>

definition demo_shared :: "u8 \<Rightarrow> mm \<Rightarrow> mm" where
  "demo_shared c m = set_word (set_word (m\<lparr>mem_map := ((mem_map m)[4096 := 1])[4097 := c], free_pages := free_pages m - 1 - 1\<rparr>)
     0 32 (pte_set PTE_USER True (entry_init 4096))) 4096 72 (pte_set PTE_WRITE False (pte_set PTE_USER True (entry_init 4097)))"

abbreviation "demo_entry \<equiv> pte_set PTE_WRITE False (pte_set PTE_USER True (entry_init 4097)) :: u32"

lemma demo_entry:
  "bit demo_entry PTE_PRESENT" "pte_index demo_entry = 4097" "\<not> bit demo_entry PTE_SHARED" "\<not> bit demo_entry PTE_READONLY"
  using entry_init_bits(1,4) [of 4097]
  by (simp_all add: pte_set_bits word_less_nat_alt) (simp_all add: entry_init_def pte_set_def bit_simps)

lemma demo_shared:
  assumes b: "mm_inv b" "user_free b 4096" "user_free b 4097" and c: "c \<noteq> 0"
  defines "m \<equiv> demo_shared c (demo_vm b)"
  shows "vm_ok m 0" "PDE_IDX 0x8048000 < 768" "free_slots m = 1024" "get_current (mm_kern m) = Some demo_user"
    "walk m 0 0x8048000 = Some demo_entry" "mem_map m ! unat (pte_index demo_entry) = c" "pte_index demo_entry < total_pages m"
    "\<forall>k < 768. bit (phys m 0 k) PTE_PRESENT \<longrightarrow> pte_index (phys m 0 k) \<noteq> pte_index demo_entry"
    "user_free b 4098 \<Longrightarrow> user_free m 4098"
proof -
  let ?t = "pte_set PTE_USER True (entry_init 4096) :: u32"
  note d = demo_vm [OF b(1)]
  have i: "PDE_IDX 0x8048000 = 32" "PTE_IDX 0x8048000 = 72" by (simp_all add: PDE_IDX_def PTE_IDX_def drop_bit_eq_div)
  have bits: "bit ?t PTE_PRESENT" "pte_index ?t = 4096"
    using entry_init_bits(1,4) [of 4096] by (simp_all add: pte_set_bits word_less_nat_alt)
  have ph: "phys m 0 j = (if j = 32 then ?t else 0)" "phys m 4096 72 = demo_entry" for j
    by (simp_all add: m_def demo_shared_def set_word_def demo_vm_def)
  have tp: "4097 < unat (total_pages b)" "unat (total_pages b) \<le> length (mem_map b)"
    using b by (auto simp: user_free_def mm_inv_def counts_ok_def)
  have mmap: "mem_map m = ((mem_map b)[4096 := 1])[4097 := c]" "total_pages m = total_pages b" "mm_kern m = mm_kern (demo_vm b)"
    by (simp_all add: m_def demo_shared_def set_word_def demo_vm_def)
  have inv: "mm_inv m"
  proof -
    have cd: "counts_ok (demo_vm b)" "kmap_bits_ok (demo_vm b)" using d(1) by (auto simp: vm_ok_def mm_inv_def)
    have z: "4096 < unat (total_pages (demo_vm b))" "mem_map (demo_vm b) ! 4096 = 0" "4097 < unat (total_pages (demo_vm b))"
      "mem_map (demo_vm b) ! 4097 = 0" using b tp by (auto simp: user_free_def demo_vm_def)
    let ?m1 = "(demo_vm b)\<lparr>mem_map := (mem_map (demo_vm b))[4096 := 1], free_pages := free_pages (demo_vm b) - 1\<rparr>"
    have c1: "counts_ok ?m1" "kmap_bits_ok ?m1" using counts_take(1) [OF cd(1) z(1,2), of 1] kmap_bits_user(1) [OF cd(2), of 4096] by auto
    have "counts_ok (?m1\<lparr>mem_map := (mem_map ?m1)[4097 := c], free_pages := free_pages ?m1 - 1\<rparr>)"
      "kmap_bits_ok (?m1\<lparr>mem_map := (mem_map ?m1)[4097 := c], free_pages := free_pages ?m1 - 1\<rparr>)"
      using counts_take(1) [OF c1(1), of 4097 c] kmap_bits_user(1) [OF c1(2), of 4097] z c by auto
    then show ?thesis by (simp add: m_def demo_shared_def set_word_def mm_inv_cong mm_inv_def counts_ok_def kmap_bits_ok_def)
  qed
  have tl: "(4096 :: u32) < total_pages b" "(4097 :: u32) < total_pages b" using tp by (simp_all add: word_less_nat_alt)
  have us: "uspace_ok m 0" using bits tl tp by (simp add: uspace_ok_def ph mmap)
  show "vm_ok m 0"
    using d(1) inv us by (simp add: vm_ok_def get_pde_def mmap) (simp add: m_def demo_shared_def set_word_def window_ok_def demo_vm_def)
  show "walk m 0 0x8048000 = Some demo_entry" using bits demo_entry(1) by (simp add: walk_def i ph Let_def)
  show "free_slots m = 1024" using d(2) by (simp add: m_def demo_shared_def set_word_def free_slots_def)
  show "user_free b 4098 \<Longrightarrow> user_free m 4098" by (simp add: user_free_def mmap)
  show "get_current (mm_kern m) = Some demo_user" using d(4) mmap(3) by simp
  show "mem_map m ! unat (pte_index demo_entry) = c" using tp demo_entry(2) by (simp add: mmap)
  show "\<forall>k < 768. bit (phys m 0 k) PTE_PRESENT \<longrightarrow> pte_index (phys m 0 k) \<noteq> pte_index demo_entry"
    using bits(2) demo_entry(2) by (simp add: ph)
  show "PDE_IDX 0x8048000 < 768" by (simp add: i)
  show "pte_index demo_entry < total_pages m" using demo_entry(2) tl mmap(2) by simp
qed

theorem cow_write_fault_witness:
  "\<exists>m m' f. walk m 0 0x8048000 = Some demo_entry \<and>
     page_fault m 0x8048000 7 = Some (PF_return, m') \<and> private_copy m m' 0 0x8048000 4097 f"
proof -
  obtain b where b: "mm_inv b" "user_free b 4096" "user_free b 4097" "user_free b 4098" using demo_mm by blast
  have two: "(2 :: u8) \<noteq> 0" by simp
  note d = demo_shared [OF b(1-3) two]
  have c: "2 < free_slots (demo_shared 2 (demo_vm b))" "bit (7 :: u32) 0" "bit (7 :: u32) 1" "t_uid demo_user = USER_RING3"
      "0x1000 \<le> pte_index demo_entry"
    using d(3) demo_entry(2) by (simp_all add: demo_user_def)
  obtain m' f where "page_fault (demo_shared 2 (demo_vm b)) 0x8048000 7 = Some (PF_return, m')"
      "private_copy (demo_shared 2 (demo_vm b)) m' 0 0x8048000 (pte_index demo_entry) f"
    using cow_write_fault [OF d(1,2) c(1) d(9) [OF b(4)] c(2,3) d(4) c(4) d(5) demo_entry(3,4) c(5) d(7,6,8)] by blast
  then show ?thesis using d(5) unfolding demo_entry(2) by blast
qed

text \<open>
  A page with three or more owners stops the kernel: a task that forks twice shares its pages
  with both children, and the first write by any of the three fails the assertion that the
  count is two, so the fault handler does not return.
\<close>

lemma cow_third_owner_stops:
  assumes ok: "vm_ok m pd" "PDE_IDX v < 768" "0 < free_slots m" "bit err 0" "bit err 1"
    and t: "get_current (mm_kern m) = Some t" "t_uid t = USER_RING3"
    and e: "walk m pd v = Some e" "\<not> bit e PTE_READONLY" "2 < mem_map m ! unat (pte_index e)"
  shows "page_fault m v err = None"
proof -
  have pres: "bit (phys m pd (PDE_IDX v)) PTE_PRESENT" using e(1) by (auto simp: walk_def Let_def split: if_splits)
  obtain kv m1 pool pte where g: "get_pte m v = Some (kv, PTE_IDX v, m1)" "m1 = m\<lparr>kmap_pool := pool, kmap_pte := pte\<rparr>"
      "table_ready m m1 pd v kv (pte_index (phys m pd (PDE_IDX v)))"
    using get_pte_present [OF ok(1-3) pres] by blast
  have rd: "kread m1 kv (PTE_IDX v) = Some e"
    using table_ready_entry [OF g(3) ok(2)] e(1) by (auto simp: kread_def Let_def split: if_splits)
  have c: "mem_map m ! unat (pte_index e) \<noteq> 1" "mem_map m ! unat (pte_index e) \<noteq> 2" using e(3) by (auto simp: word_less_nat_alt)
  have "cow_fault m v = None"
    using g(1,2) rd e(2) c by (simp add: cow_fault_def aget_def)
  moreover have "page_fault m v err = cow_fault m v"
    using user_below_stack [OF ok(2)] ok(4,5) t by (simp add: page_fault_def not_less [symmetric])
  ultimately show ?thesis by simp
qed

lemma cow_third_owner_stops_witness:
  "\<exists>m. walk m 0 0x8048000 = Some demo_entry \<and> mem_map m ! 4097 = 3 \<and> page_fault m 0x8048000 7 = None"
proof -
  obtain b where b: "mm_inv b" "user_free b 4096" "user_free b 4097" using demo_mm by blast
  have three: "(3 :: u8) \<noteq> 0" by simp
  note d = demo_shared [OF b(1-3) three]
  have c: "0 < free_slots (demo_shared 3 (demo_vm b))" "bit (7 :: u32) 0" "bit (7 :: u32) 1" "t_uid demo_user = USER_RING3"
      "2 < mem_map (demo_shared 3 (demo_vm b)) ! unat (pte_index demo_entry)"
    using d(3,6) by (simp_all add: demo_user_def)
  have "page_fault (demo_shared 3 (demo_vm b)) 0x8048000 7 = None"
    by (rule cow_third_owner_stops [OF d(1,2) c(1-3) d(4) c(4) d(5) demo_entry(4) c(5)])
  moreover have "unat (pte_index demo_entry) = 4097" using demo_entry(2) by simp
  ultimately show ?thesis using d(5,6) by metis
qed

end
