(* ===== verification/Rtc.thy ===== *)
theory Rtc
  imports Stdlib "HOL-Library.Signed_Division"
begin

text \<open>
  \<^verbatim>\<open>src/lib/time.c\<close>, \<^verbatim>\<open>src/kernel/time.c\<close> and \<^verbatim>\<open>src/kernel/rtc.c\<close>: calendar arithmetic, the
  CMOS clock and its alarm. A C \<^verbatim>\<open>int\<close> is an \<open>int\<close> here (its overflow has no defined result
  and the theorems stay clear of it), its division truncates (\<open>sdiv\<close>, \<open>smod\<close>); \<^verbatim>\<open>time_t\<close> is a
  \<open>u32\<close>.

  The CMOS is hardware: what its \<open>n\<close>-th read returns for a register is the function \<open>cmos\<close>
  of the state. Shown: the loop that reads the clock ends once the clock stands still for nine
  reads, the start time is the Gregorian count of seconds since 1970, the alarm is set to the
  time of day after the delay, and which dates \<^verbatim>\<open>localtime\<close> gets right.
  The fields of \<^verbatim>\<open>tm\<close> mean what the code makes of them: a month counts from 1 and a year is either
  years since 1900 or two digits, both against the comments of \<^verbatim>\<open>src/include/lightos/time.h\<close>.
\<close>

section \<open>Calendar (lib/time.c)\<close>

definition MINUTE :: int where "MINUTE = 60"
definition HOUR :: int where "HOUR = 60 * MINUTE"
definition DAY :: int where "DAY = 24 * HOUR"
definition YEAR :: int where "YEAR = 365 * DAY"

definition month :: "int list" where
  "month = [0, 0, 31, 31 + 29, 31 + 29 + 31, 31 + 29 + 31 + 30, 31 + 29 + 31 + 30 + 31,
     31 + 29 + 31 + 30 + 31 + 30, 31 + 29 + 31 + 30 + 31 + 30 + 31,
     31 + 29 + 31 + 30 + 31 + 30 + 31 + 31, 31 + 29 + 31 + 30 + 31 + 30 + 31 + 31 + 30,
     31 + 29 + 31 + 30 + 31 + 30 + 31 + 31 + 30 + 31,
     31 + 29 + 31 + 30 + 31 + 30 + 31 + 31 + 30 + 31 + 30]"

record tm =
  tm_sec :: int
  tm_min :: int
  tm_hour :: int
  tm_mday :: int
  tm_mon :: int
  tm_year :: int
  tm_wday :: int
  tm_yday :: int
  tm_isdst :: int

text \<open>Indexing the table outside its thirteen entries is not a value.\<close>

definition month_at :: "int \<Rightarrow> int option" where
  "month_at i = (if i < 0 then None else aget month (nat i))"

definition elapsed_leap_years :: "int \<Rightarrow> int" where
  "elapsed_leap_years year =
     (year - 1) sdiv 4 - (year - 1) sdiv 100 + (year + 299) sdiv 400 - (1970 - 1900) sdiv 4"

definition is_leap_year :: "int \<Rightarrow> bool" where
  "is_leap_year year \<longleftrightarrow>
     (year smod 4 = 0 \<and> year smod 100 \<noteq> 0) \<or> (year + 1900) smod 400 = 0"

text \<open>The search loop of \<open>localtime\<close>, from \<open>mon\<close> on, with \<open>n = 13 - mon\<close> tests to go.\<close>

fun month_scan :: "nat \<Rightarrow> int \<Rightarrow> int \<Rightarrow> int \<Rightarrow> int option" where
  "month_scan 0 offset yday mon = Some mon"
| "month_scan (Suc n) offset yday mon =
     do {
       m \<leftarrow> month_at mon;
       if m - offset > yday then Some mon else month_scan n offset yday (mon + 1)
     }"

definition localtime :: "u32 \<Rightarrow> tm \<Rightarrow> tm option" where
  "localtime stamp time =
     (let remain = stamp div 60;
          remain2 = remain div 60;
          days = remain2 div 24;
          years = uint (days div 365 + 70);
          offset = (if is_leap_year years then 0 else 1);
          days2 = days - word_of_int (elapsed_leap_years years);
          yday = uint (days2 mod word_of_int (366 - offset))
      in do {
           mon \<leftarrow> month_scan 12 offset yday 1;
           m \<leftarrow> month_at (mon - 1);
           Some (time\<lparr>tm_sec := uint (stamp mod 60), tm_min := uint (remain mod 60),
                      tm_hour := uint (remain2 mod 24), tm_wday := uint ((days + 4) mod 7),
                      tm_year := years, tm_yday := yday, tm_mon := mon - 1,
                      tm_mday := yday - m + offset + 1\<rparr>)
         })"

definition years_since_1970 :: "tm \<Rightarrow> int" where
  "years_since_1970 time =
     (if tm_year time \<ge> 70 then tm_year time - 70 else tm_year time - 70 + 100)"

definition mktime :: "tm \<Rightarrow> u32 option" where
  "mktime time =
     (let year = years_since_1970 time;
          res = word_of_int (YEAR * year) + word_of_int (DAY * ((year + 1) sdiv 4))
      in do {
           m \<leftarrow> month_at (tm_mon time);
           let res = res + word_of_int (m * DAY);
           let res = (if tm_mon time > 2 \<and> (year + 2) smod 4 \<noteq> 0
                      then res - word_of_int DAY else res);
           Some (res + word_of_int (DAY * (tm_mday time - 1)) + word_of_int (HOUR * tm_hour time)
                 + word_of_int (MINUTE * tm_min time) + word_of_int (tm_sec time))
         })"

definition get_yday :: "tm \<Rightarrow> int option" where
  "get_yday time =
     do {
       m \<leftarrow> month_at (tm_mon time);
       let res = m + tm_mday time;
       let year = years_since_1970 time;
       Some (if (year + 2) smod 4 \<noteq> 0 \<and> tm_mon time > 2 then res - 1 else res)
     }"

section \<open>The CMOS clock (kernel/time.c)\<close>

text \<open>
  \<open>cmos n r\<close> is what the \<open>n\<close>-th read of the data port returns when register \<open>r\<close> is selected;
  \<open>cmos_n\<close> counts the reads, \<open>cmos_log\<close> holds the writes, newest last. \<open>alarm_pointer\<close> names one
  of the flags in \<open>flags\<close>.
\<close>

record rtc =
  cmos :: "nat \<Rightarrow> u8 \<Rightarrow> u8"
  cmos_n :: nat
  cmos_log :: "(u8 \<times> u8) list"
  century :: u32
  boot_time :: u32
  alarm_pointer :: "nat option"
  flags :: "nat \<Rightarrow> bool"
  rtc_eois :: "u32 list"

definition CMOS_NMI :: u8 where "CMOS_NMI = 0x80"
definition CMOS_SECOND :: u8 where "CMOS_SECOND = 0x00"
definition CMOS_MINUTE :: u8 where "CMOS_MINUTE = 0x02"
definition CMOS_HOUR :: u8 where "CMOS_HOUR = 0x04"
definition CMOS_WEEKDAY :: u8 where "CMOS_WEEKDAY = 0x06"
definition CMOS_DAY :: u8 where "CMOS_DAY = 0x07"
definition CMOS_MONTH :: u8 where "CMOS_MONTH = 0x08"
definition CMOS_YEAR :: u8 where "CMOS_YEAR = 0x09"
definition CMOS_CENTURY :: u8 where "CMOS_CENTURY = 0x32"

text \<open>The address port takes the register in its low seven bits, bit 7 masks the NMI.\<close>

definition cmos_read :: "rtc \<Rightarrow> u8 \<Rightarrow> u8 \<times> rtc" where
  "cmos_read s addr =
     (cmos s (cmos_n s) ((CMOS_NMI OR addr) AND 0x7F), s\<lparr>cmos_n := cmos_n s + 1\<rparr>)"

definition cmos_write :: "rtc \<Rightarrow> u8 \<Rightarrow> u8 \<Rightarrow> rtc" where
  "cmos_write s addr value = s\<lparr>cmos_log := cmos_log s @ [((CMOS_NMI OR addr) AND 0x7F, value)]\<rparr>"

text \<open>One pass of the loop of \<open>time_read_bcd\<close>: the eight registers.\<close>

definition read_regs :: "rtc \<Rightarrow> tm \<Rightarrow> tm \<times> rtc" where
  "read_regs s time =
     (let (sec, s) = cmos_read s CMOS_SECOND;
          (mi, s) = cmos_read s CMOS_MINUTE;
          (hour, s) = cmos_read s CMOS_HOUR;
          (wday, s) = cmos_read s CMOS_WEEKDAY;
          (mday, s) = cmos_read s CMOS_DAY;
          (mon, s) = cmos_read s CMOS_MONTH;
          (year, s) = cmos_read s CMOS_YEAR;
          (cent, s) = cmos_read s CMOS_CENTURY
      in (time\<lparr>tm_sec := uint sec, tm_min := uint mi, tm_hour := uint hour,
               tm_wday := uint wday, tm_mday := uint mday, tm_mon := uint mon,
               tm_year := uint year\<rparr>, s\<lparr>century := ucast cent\<rparr>))"

partial_function (option) time_read_bcd :: "rtc \<Rightarrow> tm \<Rightarrow> (tm \<times> rtc) option" where
  "time_read_bcd s time =
     (let (time, s) = read_regs s time;
          (sec, s) = cmos_read s CMOS_SECOND
      in if tm_sec time \<noteq> uint sec then time_read_bcd s time else Some (time, s))"

text \<open>The argument of \<^verbatim>\<open>bcd_to_bin\<close> is a byte and so is its result.\<close>

definition bcd_field :: "int \<Rightarrow> int" where
  "bcd_field v = uint (bcd_to_bin (word_of_int v))"

definition time_read :: "rtc \<Rightarrow> tm \<Rightarrow> (tm \<times> rtc) option" where
  "time_read s time =
     do {
       (time, s) \<leftarrow> time_read_bcd s time;
       let time = time\<lparr>tm_sec := bcd_field (tm_sec time), tm_min := bcd_field (tm_min time),
                       tm_hour := bcd_field (tm_hour time), tm_wday := bcd_field (tm_wday time),
                       tm_mday := bcd_field (tm_mday time), tm_mon := bcd_field (tm_mon time),
                       tm_year := bcd_field (tm_year time)\<rparr>;
       yday \<leftarrow> get_yday time;
       Some (time\<lparr>tm_yday := yday, tm_isdst := -1\<rparr>,
             s\<lparr>century := ucast (bcd_to_bin (ucast (century s)))\<rparr>)
     }"

text \<open>\<open>time\<close> is a local of \<^verbatim>\<open>time_init\<close>: its first contents are whatever the stack holds.\<close>

definition time_init :: "rtc \<Rightarrow> tm \<Rightarrow> rtc option" where
  "time_init s time =
     do {
       (time, s) \<leftarrow> time_read s time;
       stamp \<leftarrow> mktime time;
       Some (s\<lparr>boot_time := stamp\<rparr>)
     }"

section \<open>The alarm (kernel/rtc.c)\<close>

definition RTC_CMOS_SECOND :: u8 where "RTC_CMOS_SECOND = 0x01"
definition RTC_CMOS_MINUTE :: u8 where "RTC_CMOS_MINUTE = 0x03"
definition RTC_CMOS_HOUR :: u8 where "RTC_CMOS_HOUR = 0x05"
definition CMOS_B :: u8 where "CMOS_B = 0x0b"
definition CMOS_C :: u8 where "CMOS_C = 0x0c"

text \<open>Writing through a null \<open>alarm_pointer\<close> faults.\<close>

definition rtc_handler :: "rtc \<Rightarrow> u32 \<Rightarrow> rtc option" where
  "rtc_handler s vector =
     do {
       p \<leftarrow> alarm_pointer s;
       let s = s\<lparr>flags := (flags s)(p := False)\<rparr>;
       _ \<leftarrow> kassert (vector = 0x28);
       let s = s\<lparr>rtc_eois := rtc_eois s @ [vector]\<rparr>;
       Some (snd (cmos_read s CMOS_C))
     }"

text \<open>The delay split into seconds, minutes and hours, added with carries to the time of day.\<close>

definition alarm_time :: "tm \<Rightarrow> u32 \<Rightarrow> tm" where
  "alarm_time time secs =
     (let sec = secs mod 60; secs = secs div 60; mi = secs mod 60; hour = secs div 60;
          time = time\<lparr>tm_sec := tm_sec time + uint sec\<rparr>;
          time = (if tm_sec time \<ge> 60
                  then time\<lparr>tm_sec := tm_sec time smod 60, tm_min := tm_min time + 1\<rparr> else time);
          time = time\<lparr>tm_min := tm_min time + uint mi\<rparr>;
          time = (if tm_min time \<ge> 60
                  then time\<lparr>tm_min := tm_min time smod 60, tm_hour := tm_hour time + 1\<rparr> else time);
          time = time\<lparr>tm_hour := tm_hour time + uint hour\<rparr>
      in if tm_hour time \<ge> 24 then time\<lparr>tm_hour := tm_hour time smod 24\<rparr> else time)"

definition set_alarm :: "rtc \<Rightarrow> tm \<Rightarrow> u32 \<Rightarrow> nat \<Rightarrow> rtc option" where
  "set_alarm s time secs flag =
     do {
       let s = s\<lparr>alarm_pointer := Some flag\<rparr>;
       (time, s) \<leftarrow> time_read s time;
       let time = alarm_time time secs;
       let s = cmos_write s RTC_CMOS_HOUR (bin_to_bcd (word_of_int (tm_hour time)));
       let s = cmos_write s RTC_CMOS_MINUTE (bin_to_bcd (word_of_int (tm_min time)));
       let s = cmos_write s RTC_CMOS_SECOND (bin_to_bcd (word_of_int (tm_sec time)));
       let s = cmos_write s CMOS_B 0x22;
       Some (snd (cmos_read s CMOS_C))
     }"

section \<open>The Gregorian calendar, as reference\<close>

definition leap :: "nat \<Rightarrow> bool" where
  "leap y \<longleftrightarrow> (4 dvd y \<and> \<not> 100 dvd y) \<or> 400 dvd y"

definition year_days :: "nat \<Rightarrow> nat" where
  "year_days y = (if leap y then 366 else 365)"

definition month_days :: "bool \<Rightarrow> nat \<Rightarrow> nat" where
  "month_days lp m = (if m = 2 then if lp then 29 else 28
                     else if m \<in> {4, 6, 9, 11} then 30 else 31)"

text \<open>Days from 1 January 1970 to the first of January of year \<open>y\<close>, and into a year.\<close>

fun days_before_year :: "nat \<Rightarrow> nat" where
  "days_before_year 0 = 0"
| "days_before_year (Suc y) = days_before_year y + year_days (1970 + y)"

fun days_before_month :: "bool \<Rightarrow> nat \<Rightarrow> nat" where
  "days_before_month lp 0 = 0"
| "days_before_month lp (Suc m) = days_before_month lp m + (if m = 0 then 0 else month_days lp m)"

definition valid_date :: "nat \<Rightarrow> nat \<Rightarrow> nat \<Rightarrow> bool" where
  "valid_date y m d \<longleftrightarrow> 1 \<le> m \<and> m \<le> 12 \<and> 1 \<le> d \<and> d \<le> month_days (leap y) m"

definition epoch_days :: "nat \<Rightarrow> nat \<Rightarrow> nat \<Rightarrow> nat" where
  "epoch_days y m d = days_before_year (y - 1970) + days_before_month (leap y) m + (d - 1)"

definition epoch_seconds :: "nat \<Rightarrow> nat \<Rightarrow> nat \<Rightarrow> nat \<Rightarrow> nat \<Rightarrow> nat \<Rightarrow> nat" where
  "epoch_seconds y m d h mi s = 86400 * epoch_days y m d + 3600 * h + 60 * mi + s"

lemma century_in_range:
  assumes "y < 130" "100 dvd 1970 + (y::nat)" shows "y = 30"
proof -
  obtain k where k: "1970 + y = 100 * k" using assms(2) by (elim dvdE)
  then have "k = 20" using assms(1) by arith
  then show ?thesis using k by simp
qed

lemma leap_table: "y < 130 \<Longrightarrow> leap (1970 + y) \<longleftrightarrow> (y + 2) mod 4 = 0"
proof -
  assume y: "y < 130"
  have at30: "100 dvd (1970 + 30 :: nat)" "400 dvd (1970 + 30 :: nat)" "(100::nat) dvd 400" by simp_all
  have "100 dvd 1970 + y \<longleftrightarrow> y = 30" using century_in_range [OF y] at30 by blast
  moreover have "400 dvd 1970 + y \<longleftrightarrow> y = 30"
    using century_in_range [OF y] at30 dvd_trans by blast
  moreover have "4 dvd 1970 + y \<longleftrightarrow> (y + 2) mod 4 = 0" by presburger
  ultimately show ?thesis by (auto simp: leap_def)
qed

lemma days_before_year_table: "y < 130 \<Longrightarrow> days_before_year y = 365 * y + (y + 1) div 4"
proof (induction y)
  case (Suc y)
  then have "days_before_year (Suc y) = 365 * y + (y + 1) div 4 + (if (y + 2) mod 4 = 0 then 366 else 365)"
    by (simp add: year_days_def leap_table)
  also have "\<dots> = 365 * Suc y + (Suc y + 1) div 4" by presburger
  finally show ?case .
qed simp

lemma days_before_month_table:
  assumes "1 \<le> m" "m \<le> 12"
  shows "int (days_before_month lp m) + (if m > 2 \<and> \<not> lp then 1 else 0) = month ! m"
proof -
  have "\<forall>lp \<in> {True, False}. \<forall>m \<in> set [1..<13].
      int (days_before_month lp m) + (if m > 2 \<and> \<not> lp then 1 else 0) = month ! m"
    by code_simp
  then show ?thesis using assms by (cases lp) auto
qed

lemma nonneg_divs: "0 \<le> x \<Longrightarrow> x sdiv numeral k = x div (numeral k :: int)"
    "0 \<le> x \<Longrightarrow> x smod numeral k = x mod (numeral k :: int)"
  by (simp_all add: signed_divide_int_def signed_modulo_int_def sgn_if)

lemma month_at_nth: "m \<le> 12 \<Longrightarrow> month_at (int m) = Some (month ! m)"
  by (simp add: month_at_def month_def)

lemma month_nonneg: "m \<le> 12 \<Longrightarrow> 0 \<le> month ! m"
proof -
  have "\<forall>m \<in> set [0..<13]. 0 \<le> month ! m" by code_simp
  then show "m \<le> 12 \<Longrightarrow> 0 \<le> month ! m" by auto
qed

lemma month_at_nat: "0 \<le> i \<Longrightarrow> nat i \<le> 12 \<Longrightarrow> month_at i = Some (month ! nat i)"
  using month_at_nth [of "nat i"] by simp

lemma days_before_month_le: "1 \<le> m \<Longrightarrow> m \<le> 12 \<Longrightarrow> days_before_month lp m \<le> 335"
proof -
  have "\<forall>lp \<in> {True, False}. \<forall>m \<in> set [1..<13]. days_before_month lp m \<le> 335" by code_simp
  then show "1 \<le> m \<Longrightarrow> m \<le> 12 \<Longrightarrow> ?thesis" by (cases lp) auto
qed

lemma month_days_le: "month_days lp m \<le> 31"
  by (simp add: month_days_def)

lemma two_digits: "1900 \<le> Y \<Longrightarrow> Y < 2100 \<Longrightarrow> (Y::nat) mod 100 = (if Y < 2000 then Y - 1900 else Y - 2000)"
proof -
  assume "1900 \<le> Y" "Y < 2100"
  then obtain a where "a < 100" "Y = a + 19 * 100 \<or> Y = a + 20 * 100"
    by (cases "Y < 2000") (auto intro: that [of "Y - 1900"] that [of "Y - 2000"])
  moreover have "(a + 19 * 100) mod 100 = a" "(a + 20 * 100) mod 100 = a"
    unfolding mod_mult_self1 using \<open>a < 100\<close> by simp_all
  ultimately show ?thesis by auto
qed

text \<open>The integer that \<open>mktime\<close> computes, before it is cut to 32 bits.\<close>

lemma mktime_int:
  assumes "1970 \<le> Y" "Y \<le> 2038" "1 \<le> m" "m \<le> 12" "1 \<le> d"
  defines "y \<equiv> int (Y - 1970)"
  shows "YEAR * y + DAY * ((y + 1) sdiv 4) + (month ! m) * DAY
           - (if int m > 2 \<and> (y + 2) smod 4 \<noteq> 0 then DAY else 0)
           + DAY * (int d - 1) + HOUR * int h + MINUTE * int mi + int s
         = int (epoch_seconds Y m d h mi s)"
proof -
  have y: "Y - 1970 < 130" "Y = 1970 + (Y - 1970)" using assms by simp_all
  have lp: "leap Y \<longleftrightarrow> (y + 2) mod 4 = 0"
  proof -
    have "(int (Y - 1970) + 2) mod 4 = int ((Y - 1970 + 2) mod 4)" by (simp only: zmod_int of_nat_add of_nat_numeral)
    then show ?thesis using leap_table [OF y(1)] y(2) by (simp add: y_def)
  qed
  have "int (days_before_year (Y - 1970)) = 365 * y + (y + 1) div 4"
    by (simp add: days_before_year_table [OF y(1)] y_def zdiv_int)
  moreover have "int (d - 1) = int d - 1" using assms(5) by simp
  ultimately have total: "int (epoch_seconds Y m d h mi s) =
      86400 * (365 * y + (y + 1) div 4 + int (days_before_month (leap Y) m) + (int d - 1)) +
      3600 * int h + 60 * int mi + int s"
    unfolding epoch_seconds_def epoch_days_def of_nat_add of_nat_mult of_nat_numeral by simp
  have mo: "(month ! m) = int (days_before_month (leap Y) m) + (if m > 2 \<and> \<not> leap Y then 1 else 0)"
    using days_before_month_table [OF assms(3,4)] by simp
  have nn: "0 \<le> y" by (simp add: y_def)
  show ?thesis
    unfolding total mo using lp nn
    by (cases "2 < m \<and> \<not> leap Y") (auto simp: nonneg_divs YEAR_def DAY_def HOUR_def MINUTE_def)
qed

lemma epoch_seconds_less:
  assumes "Y \<le> 2038" "valid_date Y m d" "h < 24" "mi < 60" "s < 60"
  shows "epoch_seconds Y m d h mi s < 2 ^ 32"
proof -
  have "Y - 1970 < 130" using assms by simp
  then have "days_before_year (Y - 1970) \<le> 24837"
    using assms by (simp add: days_before_year_table)
  moreover have "days_before_month (leap Y) m \<le> 335" "d \<le> 31"
    using assms days_before_month_le month_days_le [of "leap Y" m] by (auto simp: valid_date_def)
  ultimately show ?thesis using assms by (simp add: epoch_seconds_def epoch_days_def)
qed

lemma mktime_epoch:
  assumes "1970 \<le> Y" "Y \<le> 2038" "valid_date Y m d" "years_since_1970 t = int (Y - 1970)"
    and "tm_mon t = int m" "tm_mday t = int d" "tm_hour t = int h" "tm_min t = int mi"
      "tm_sec t = int sc"
  shows "mktime t = Some (of_nat (epoch_seconds Y m d h mi sc))"
proof -
  have md: "1 \<le> m" "m \<le> 12" "1 \<le> d" using assms(3) by (auto simp: valid_date_def)
  have "mktime t = Some (word_of_int (int (epoch_seconds Y m d h mi sc)))"
    unfolding mktime_int [OF assms(1,2) md, symmetric]
    using assms md by (simp add: mktime_def month_at_nth Let_def)
  then show ?thesis by simp
qed

lemma years_since_1970_eq:
  assumes "1970 \<le> Y" "Y \<le> 2038" "tm_year t = int Y - 1900 \<or> tm_year t = int (Y mod 100)"
  shows "years_since_1970 t = int (Y - 1970)"
proof -
  have "Y mod 100 = (if Y < 2000 then Y - 1900 else Y - 2000)"
    by (rule two_digits) (use assms(1,2) in simp_all)
  with assms show ?thesis by (auto simp: years_since_1970_def split: if_splits)
qed

text \<open>
  C36. \<^verbatim>\<open>mktime\<close> agrees with the Gregorian calendar: for every date from 1970 to 2038, the year
  given from 1900 or by its last two digits as the CMOS gives it, the result is the number of
  seconds from the start of 1970 to that date and time. The month counts from 1, as the CMOS and
  all callers have it. The comments of \<^verbatim>\<open>src/include/lightos/time.h\<close> say otherwise: they give
  \<^verbatim>\<open>tm_mon\<close> the range 0 to 11 and \<^verbatim>\<open>tm_year\<close> the years since 1900 alone.
\<close>
theorem mktime_gregorian:
  assumes "1970 \<le> Y" "Y \<le> 2038" "valid_date Y m d" "h < 24" "mi < 60" "sc < 60"
    and "tm_year t = int Y - 1900 \<or> tm_year t = int (Y mod 100)"
    and "tm_mon t = int m" "tm_mday t = int d" "tm_hour t = int h" "tm_min t = int mi"
      "tm_sec t = int sc"
  shows "\<exists>r. mktime t = Some r \<and> unat r = epoch_seconds Y m d h mi sc"
proof -
  have "mktime t = Some (of_nat (epoch_seconds Y m d h mi sc))"
    using assms by (intro mktime_epoch years_since_1970_eq)
  then show ?thesis using epoch_seconds_less [OF assms(2-6)] by simp
qed

theorem mktime_gregorian_witness:
  "\<exists>r. mktime \<lparr>tm_sec = 7, tm_min = 30, tm_hour = 23, tm_mday = 29, tm_mon = 2, tm_year = 24,
              tm_wday = 0, tm_yday = 0, tm_isdst = 0\<rparr> = Some r \<and>
       unat r = epoch_seconds 2024 2 29 23 30 7"
proof (rule mktime_gregorian [of 2024 2 29 23 30 7])
  show "valid_date 2024 2 29" by (simp add: valid_date_def month_days_def leap_def)
qed simp_all

section \<open>Which dates localtime finds\<close>

definition localtime_month :: "int \<Rightarrow> int \<Rightarrow> (int \<times> int) option" where
  "localtime_month offset yday =
     do {
       mon \<leftarrow> month_scan 12 offset yday 1;
       m \<leftarrow> month_at (mon - 1);
       Some (mon - 1, yday - m + offset + 1)
     }"

definition shifted_date :: "nat \<Rightarrow> nat \<Rightarrow> nat \<times> nat" where
  "shifted_date m d = (if 3 \<le> m then (m, d) else if m = 1 \<and> d = 31 then (2, 1) else (m, d + 1))"

lemma month_at_values:
  "month_at 1 = Some 0" "month_at 2 = Some 31" "month_at 3 = Some 60" "month_at 4 = Some 91"
  "month_at 5 = Some 121" "month_at 6 = Some 152" "month_at 7 = Some 182" "month_at 8 = Some 213"
  "month_at 9 = Some 244" "month_at 10 = Some 274" "month_at 11 = Some 305" "month_at 12 = Some 335"
  by code_simp+

lemma month_scan_closed:
  assumes "0 \<le> k"
  shows "month_scan 12 1 k 1 = Some (if k < 30 then 2 else if k < 59 then 3 else if k < 90 then 4
    else if k < 120 then 5 else if k < 151 then 6 else if k < 181 then 7 else if k < 212 then 8
    else if k < 243 then 9 else if k < 273 then 10 else if k < 304 then 11 else if k < 334 then 12 else 13)"
  using assms by (simp add: eval_nat_numeral month_at_values)

lemma localtime_month_common:
  assumes "1 \<le> m" "m \<le> 12" "1 \<le> d" "d \<le> month_days False m"
  shows "localtime_month 1 (int (days_before_month False m + (d - 1))) =
     Some (int (fst (shifted_date m d)), int (snd (shifted_date m d)))"
proof -
  have v: "days_before_month False 1 = 0" "days_before_month False 2 = 31"
    "days_before_month False 3 = 59" "days_before_month False 4 = 90"
    "days_before_month False 5 = 120" "days_before_month False 6 = 151"
    "days_before_month False 7 = 181" "days_before_month False 8 = 212"
    "days_before_month False 9 = 243" "days_before_month False 10 = 273"
    "days_before_month False 11 = 304" "days_before_month False 12 = 334"
    by code_simp+
  have "m = 1 \<or> m = 2 \<or> m = 3 \<or> m = 4 \<or> m = 5 \<or> m = 6 \<or> m = 7 \<or> m = 8 \<or> m = 9 \<or>
      m = 10 \<or> m = 11 \<or> m = 12"
    using assms(1,2) by arith
  then show ?thesis
    using assms(3,4)
    by (elim disjE; simp add: localtime_month_def v month_days_def month_scan_closed
          month_at_values shifted_date_def; auto simp: month_at_values)
qed

lemma mod_in_block:
  assumes "q * k \<le> x" "x < (q + 1) * (k::int)"
  shows "x mod k = x - q * k"
proof -
  have "(x - q * k + q * k) mod k = (x - q * k) mod k" by (rule mod_mult_self1)
  moreover have "(x - q * k) mod k = x - q * k"
    using assms by (intro mod_pos_pos_trivial) (auto simp: algebra_simps)
  ultimately show ?thesis by simp
qed

lemma div_in_block:
  assumes "q * k \<le> x" "x < (q + 1) * (k::int)"
  shows "x div k = q"
  using assms by (intro int_div_pos_eq [where r = "x - q * k"]) (auto simp: algebra_simps)

lemma elapsed_leap_years_eq: "y \<le> 68 \<Longrightarrow> elapsed_leap_years (int y + 70) = (int y + 1) div 4"
proof -
  assume y: "y \<le> 68"
  have "(int y + 69) div 100 = (int y + 369) div 400"
  proof (cases "y < 31")
    case True
    then show ?thesis by (simp add: div_in_block [of 0])
  next
    case False
    then show ?thesis using y by (simp add: div_in_block [of 1])
  qed
  moreover have "(int y + 69) div 4 - 17 = (int y + 1) div 4" by presburger
  ultimately show ?thesis by (simp add: elapsed_leap_years_def nonneg_divs algebra_simps)
qed

lemma is_leap_year_eq: "y \<le> 68 \<Longrightarrow> is_leap_year (int y + 70) \<longleftrightarrow> leap (1970 + y)"
proof -
  assume y: "y \<le> 68"
  have "(int y + 70) mod 4 = 0 \<longleftrightarrow> (y + 2) mod 4 = 0" by presburger
  moreover have "(int y + 70) mod 100 = 0 \<longleftrightarrow> y = 30"
    using y mod_in_block [of 0 100 "int y + 70"] mod_in_block [of 1 100 "int y + 70"]
    by (cases "y < 30") auto
  moreover have "(int y + 70 + 1900) mod 400 = 0 \<longleftrightarrow> y = 30"
    using y mod_in_block [of 4 400 "int y + 70 + 1900"] mod_in_block [of 5 400 "int y + 70 + 1900"]
    by (cases "y < 30") auto
  ultimately show ?thesis using y by (auto simp: is_leap_year_def leap_table nonneg_divs)
qed

lemma unat_numeral_60: "unat (60 :: u32) = 60" and unat_numeral_24: "unat (24 :: u32) = 24"
  by simp_all

lemma div_mod_parts: "x = a * b + c \<Longrightarrow> c < b \<Longrightarrow> x div b = a \<and> x mod b = (c :: nat)"
  by simp

lemma epoch_seconds_parts:
  assumes "h < 24" "mi < 60" "sc < 60" "N = epoch_seconds Y m d h mi sc"
  shows "N mod 60 = sc" "N div 60 mod 60 = mi" "N div 60 div 60 mod 24 = h"
    "N div 60 div 60 div 24 = epoch_days Y m d"
proof -
  define D where "D = epoch_days Y m d"
  have N: "N = ((D * 24 + h) * 60 + mi) * 60 + sc"
    by (simp add: assms(4) epoch_seconds_def D_def algebra_simps)
  note p1 = div_mod_parts [OF N assms(3)]
  note p2 = div_mod_parts [OF conjunct1 [OF p1] assms(2)]
  note p3 = div_mod_parts [OF conjunct1 [OF p2] assms(1)]
  show "N mod 60 = sc" "N div 60 mod 60 = mi" "N div 60 div 60 mod 24 = h"
    "N div 60 div 60 div 24 = epoch_days Y m d"
    using p1 p2 p3 by (simp_all only: D_def)
qed

lemma days_before_month_day:
  assumes "valid_date Y m d" "\<not> leap Y"
  shows "days_before_month False m + (d - 1) < 365"
proof -
  have "\<forall>m \<in> set [1..<13]. days_before_month False m + month_days False m \<le> 365" by code_simp
  moreover have "m \<in> set [1..<13]" using assms by (auto simp: valid_date_def)
  ultimately have "days_before_month False m + month_days False m \<le> 365" by blast
  then show ?thesis using assms by (auto simp: valid_date_def)
qed

text \<open>
  The year of the time stamp comes from dividing the days by 365. It is right as long as the leap
  days so far have not pushed the date past the end of the 365-day count.
\<close>

definition year_found :: "nat \<Rightarrow> nat \<Rightarrow> nat \<Rightarrow> bool" where
  "year_found Y m d \<longleftrightarrow> (Y - 1970 + 1) div 4 + days_before_month (leap Y) m + (d - 1) < 365"

text \<open>
  \<^verbatim>\<open>localtime\<close> in a common year, on the days whose year the division by 365 finds: time of
  day, weekday, year and day of the year are right; from March on the month and the day are right
  too, and in January and February the date is one day late (the first day of 1970 comes out as 2
  January, 31 January as 1 February).
\<close>
lemma localtime_common_year:
  assumes "1970 \<le> Y" "Y \<le> 2038" "\<not> leap Y" "valid_date Y m d" "year_found Y m d"
    "h < 24" "mi < 60" "sc < 60"
  shows "localtime (of_nat (epoch_seconds Y m d h mi sc)) t =
     Some (t\<lparr>tm_sec := int sc, tm_min := int mi, tm_hour := int h,
             tm_wday := int ((epoch_days Y m d + 4) mod 7), tm_year := int (Y - 1900),
             tm_yday := int (days_before_month False m + (d - 1)),
             tm_mon := int (fst (shifted_date m d)), tm_mday := int (snd (shifted_date m d))\<rparr>)"
proof -
  define N where "N = epoch_seconds Y m d h mi sc"
  define y where "y = Y - 1970"
  define k where "k = days_before_month False m + (d - 1)"
  define st where "st = (of_nat N :: u32)"
  have y: "y \<le> 68" "Y = 1970 + y" using assms by (auto simp: y_def)
  have k: "(y + 1) div 4 + k < 365" using assms(3,5) by (simp add: year_found_def y_def k_def)
  have N: "N < 2 ^ 32" unfolding N_def using assms by (intro epoch_seconds_less) auto
  have st: "unat st = N" using N by (simp add: st_def)
  have D: "epoch_days Y m d = 365 * y + ((y + 1) div 4 + k)"
  proof -
    have "days_before_year y = 365 * y + (y + 1) div 4" using y(1) by (intro days_before_year_table) simp
    then show ?thesis using assms(3) by (simp add: epoch_days_def k_def flip: y_def)
  qed
  note parts = epoch_seconds_parts [OF assms(6-8) N_def]
  define dw where "dw = st div 60 div 60 div 24"
  have quot: "unat (st div 60 div 60 div 24) = N div 60 div 60 div 24" "unat (st mod 60) = N mod 60"
      "unat (st div 60 mod 60) = N div 60 mod 60" "unat (st div 60 div 60 mod 24) = N div 60 div 60 mod 24"
    by (simp_all only: unat_div unat_mod st unat_numeral_60 unat_numeral_24)
  have days: "unat dw = epoch_days Y m d" by (simp only: dw_def quot parts)
  then have days_w: "dw = of_nat (epoch_days Y m d)" by (metis word_of_nat_unat)
  have small: "epoch_days Y m d < 30000" using y k unfolding D by linarith
  have "unat (dw div 365) = y" using k by (simp add: unat_div days D)
  then have "unat (dw div 365 + 70) = y + 70" using y by (simp add: unat_plus_less)
  then have yr: "uint (dw div 365 + 70) = int y + 70" by (metis of_nat_add of_nat_numeral uint_nat)
  have "dw - word_of_int ((int y + 1) div 4) = of_nat (365 * y + k)"
  proof -
    have "(int y + 1) div 4 = int ((y + 1) div 4)" by (simp add: zdiv_int)
    then show ?thesis by (simp add: days_w D)
  qed
  moreover have "unat (of_nat (365 * y + k) mod 365 :: u32) = k"
  proof -
    have "unat (of_nat (365 * y + k) :: u32) = 365 * y + k" by (rule unat_of_nat_less) (use y k in simp)
    then show ?thesis using k by (simp only: unat_mod) simp
  qed
  ultimately have yday: "uint ((dw - word_of_int ((int y + 1) div 4)) mod 365) = int k"
    by (simp add: uint_nat)
  have "unat ((dw + 4) mod 7) = (epoch_days Y m d + 4) mod 7"
    using small by (simp add: unat_mod unat_plus_less days)
  then have wday: "uint ((dw + 4) mod 7) = int ((epoch_days Y m d + 4) mod 7)" by (simp add: uint_nat)
  have leap: "\<not> is_leap_year (int y + 70)" using assms(3) y by (simp add: is_leap_year_eq)
  have fields: "uint (st mod 60) = int sc" "uint (st div 60 mod 60) = int mi"
      "uint (st div 60 div 60 mod 24) = int h"
    by (simp_all only: uint_nat quot parts)
  have "localtime_month 1 (int k) = Some (int (fst (shifted_date m d)), int (snd (shifted_date m d)))"
    unfolding k_def using assms(3,4) by (intro localtime_month_common) (auto simp: valid_date_def)
  then obtain mon x where mon: "month_scan 12 1 (int k) 1 = Some mon" "month_at (mon - 1) = Some x"
      "mon - 1 = int (fst (shifted_date m d))" "int k - x + 1 + 1 = int (snd (shifted_date m d))"
    by (auto simp: localtime_month_def elim!: bind_eq_SomeE)
  have "localtime st t = Some (t\<lparr>tm_sec := int sc, tm_min := int mi, tm_hour := int h,
             tm_wday := int ((epoch_days Y m d + 4) mod 7), tm_year := int (Y - 1900), tm_yday := int k,
             tm_mon := int (fst (shifted_date m d)), tm_mday := int (snd (shifted_date m d))\<rparr>)"
    unfolding localtime_def Let_def dw_def [symmetric]
    by (simp add: yr leap elapsed_leap_years_eq y yday wday fields mon(1,3) mon(2) [unfolded mon(3)])
      (simp add: mon(4) [symmetric])
  then show ?thesis by (simp add: st_def N_def k_def)
qed

lemma localtime_common_year_witness:
  "localtime (of_nat (epoch_seconds 1970 1 1 0 0 0)) (undefined :: tm) =
     Some ((undefined :: tm)\<lparr>tm_sec := int 0, tm_min := int 0, tm_hour := int 0,
             tm_wday := int ((epoch_days 1970 1 1 + 4) mod 7), tm_year := int (1970 - 1900),
             tm_yday := int (days_before_month False 1 + (1 - 1)),
             tm_mon := int (fst (shifted_date 1 1)), tm_mday := int (snd (shifted_date 1 1))\<rparr>)"
  by (rule localtime_common_year) (simp_all add: leap_def valid_date_def month_days_def year_found_def)

section \<open>Reading the clock\<close>

lemma cmos_read_reg [simp]:
  "cmos_read s CMOS_SECOND = (cmos s (cmos_n s) 0, s\<lparr>cmos_n := cmos_n s + 1\<rparr>)"
  "cmos_read s CMOS_MINUTE = (cmos s (cmos_n s) 2, s\<lparr>cmos_n := cmos_n s + 1\<rparr>)"
  "cmos_read s CMOS_HOUR = (cmos s (cmos_n s) 4, s\<lparr>cmos_n := cmos_n s + 1\<rparr>)"
  "cmos_read s CMOS_WEEKDAY = (cmos s (cmos_n s) 6, s\<lparr>cmos_n := cmos_n s + 1\<rparr>)"
  "cmos_read s CMOS_DAY = (cmos s (cmos_n s) 7, s\<lparr>cmos_n := cmos_n s + 1\<rparr>)"
  "cmos_read s CMOS_MONTH = (cmos s (cmos_n s) 8, s\<lparr>cmos_n := cmos_n s + 1\<rparr>)"
  "cmos_read s CMOS_YEAR = (cmos s (cmos_n s) 9, s\<lparr>cmos_n := cmos_n s + 1\<rparr>)"
  "cmos_read s CMOS_CENTURY = (cmos s (cmos_n s) 0x32, s\<lparr>cmos_n := cmos_n s + 1\<rparr>)"
  "cmos_read s CMOS_C = (cmos s (cmos_n s) 0x0c, s\<lparr>cmos_n := cmos_n s + 1\<rparr>)"
  by (simp_all add: cmos_read_def CMOS_NMI_def CMOS_SECOND_def CMOS_MINUTE_def CMOS_HOUR_def
      CMOS_WEEKDAY_def CMOS_DAY_def CMOS_MONTH_def CMOS_YEAR_def CMOS_CENTURY_def CMOS_C_def)

definition regs_of :: "rtc \<Rightarrow> nat \<Rightarrow> tm \<Rightarrow> tm" where
  "regs_of s n time = time\<lparr>tm_sec := uint (cmos s n 0), tm_min := uint (cmos s (n + 1) 2),
     tm_hour := uint (cmos s (n + 2) 4), tm_wday := uint (cmos s (n + 3) 6),
     tm_mday := uint (cmos s (n + 4) 7), tm_mon := uint (cmos s (n + 5) 8),
     tm_year := uint (cmos s (n + 6) 9)\<rparr>"

lemma read_regs_eq:
  "read_regs s time = (regs_of s (cmos_n s) time,
     s\<lparr>cmos_n := cmos_n s + 8, century := ucast (cmos s (cmos_n s + 7) 0x32)\<rparr>)"
  by (simp add: read_regs_def regs_of_def Let_def split_beta eval_nat_numeral)

lemma tm_sec_regs_of [simp]: "tm_sec (regs_of s n time) = uint (cmos s n 0)"
  by (simp add: regs_of_def)

text \<open>The state after a pass that began at read \<open>n\<close>, and the test at its end.\<close>

definition after_pass :: "rtc \<Rightarrow> rtc" where
  "after_pass s = s\<lparr>century := ucast (cmos s (cmos_n s + 7) 0x32), cmos_n := 9 + cmos_n s\<rparr>"

definition quiet :: "rtc \<Rightarrow> nat \<Rightarrow> bool" where
  "quiet s n \<longleftrightarrow> cmos s n 0 = cmos s (n + 8) 0"

lemma time_read_bcd_step:
  "time_read_bcd s time =
     (if quiet s (cmos_n s) then Some (regs_of s (cmos_n s) time, after_pass s)
      else time_read_bcd (after_pass s) (regs_of s (cmos_n s) time))"
  by (subst time_read_bcd.simps)
    (auto simp: read_regs_eq quiet_def after_pass_def Let_def word_uint_eq_iff)

lemma after_pass_sel [simp]:
  "cmos (after_pass s) = cmos s" "cmos_n (after_pass s) = cmos_n s + 9"
  "quiet (after_pass s) = quiet s" "regs_of (after_pass s) = regs_of s"
  by (auto simp: after_pass_def quiet_def regs_of_def fun_eq_iff)

lemma time_read_bcd_returns:
  "quiet s (cmos_n s + 9 * j) \<Longrightarrow> \<exists>r. time_read_bcd s time = Some r"
proof (induction j arbitrary: s time)
  case 0
  then show ?case by (subst time_read_bcd_step) simp
next
  case (Suc j)
  have "\<exists>r. time_read_bcd (after_pass s) (regs_of s (cmos_n s) time) = Some r"
    by (rule Suc.IH) (use Suc.prems in \<open>simp add: algebra_simps\<close>)
  then show ?case by (subst time_read_bcd_step) simp
qed

lemma time_read_bcd_quiet:
  "time_read_bcd s time = Some r \<Longrightarrow> \<exists>j. quiet s (cmos_n s + 9 * j)"
proof (induction arbitrary: rule: time_read_bcd.raw_induct [rotated, consumes 1])
  case (1 rec s time r)
  show ?case
  proof (cases "quiet s (cmos_n s)")
    case True
    then show ?thesis by (intro exI [of _ 0]) simp
  next
    case False
    then have "rec (after_pass s) (regs_of s (cmos_n s) time) = Some r"
      using 1(2) by (simp add: read_regs_eq quiet_def after_pass_def Let_def word_uint_eq_iff)
    from 1(1) [OF this] obtain j where "quiet s (cmos_n s + 9 * Suc j)"
      by (auto simp: algebra_simps)
    then show ?thesis by blast
  qed
qed

text \<open>
  The loop of \<^verbatim>\<open>time_read_bcd\<close> ends exactly when some pass of nine reads begins and ends
  with the same seconds; as long as the clock runs that slowly against the reads, the kernel does
  not hang here.
\<close>
lemma time_read_bcd_terminates:
  "(\<exists>r. time_read_bcd s time = Some r) \<longleftrightarrow> (\<exists>j. quiet s (cmos_n s + 9 * j))"
  using time_read_bcd_returns time_read_bcd_quiet by blast

section \<open>The start time and the alarm\<close>

definition bcd :: "nat \<Rightarrow> u8" where
  "bcd v = bin_to_bcd (of_nat v)"

lemma bcd_field_bcd: "v < 100 \<Longrightarrow> bcd_field (uint (bcd v)) = int v"
proof -
  assume v: "v < 100"
  then have "(of_nat v :: u8) < 100" by (simp add: word_less_nat_alt)
  then have "bcd_to_bin (bcd v) = of_nat v" unfolding bcd_def by (rule bcd_roundtrip)
  then show ?thesis using v by (simp add: bcd_field_def unsigned_of_nat take_bit_nat_eq_self)
qed

text \<open>The clock shows a date and time, in BCD, to the nine reads from the \<open>n\<close>-th on.\<close>

definition clock_shows :: "rtc \<Rightarrow> nat \<Rightarrow> nat \<Rightarrow> nat \<Rightarrow> nat \<Rightarrow> nat \<Rightarrow> nat \<Rightarrow> bool" where
  "clock_shows s Y m d h mi sc \<longleftrightarrow> (let n = cmos_n s in
     cmos s n 0 = bcd sc \<and> cmos s (n + 1) 2 = bcd mi \<and> cmos s (n + 2) 4 = bcd h \<and>
     cmos s (n + 4) 7 = bcd d \<and> cmos s (n + 5) 8 = bcd m \<and> cmos s (n + 6) 9 = bcd (Y mod 100) \<and>
     cmos s (n + 8) 0 = bcd sc)"

lemma time_read_shows:
  assumes "clock_shows s Y m d h mi sc" "m \<le> 12" "d < 100" "h < 100" "mi < 100" "sc < 100"
  shows "\<exists>t' s'. time_read s t = Some (t', s') \<and> tm_sec t' = int sc \<and> tm_min t' = int mi \<and>
     tm_hour t' = int h \<and> tm_mday t' = int d \<and> tm_mon t' = int m \<and> tm_year t' = int (Y mod 100) \<and>
     cmos_log s' = cmos_log s \<and> alarm_pointer s' = alarm_pointer s \<and> flags s' = flags s"
proof -
  have q: "quiet s (cmos_n s)" using assms(1) by (simp add: quiet_def clock_shows_def Let_def)
  have "Y mod 100 < 100" by simp
  then show ?thesis
    using assms unfolding time_read_def clock_shows_def Let_def
    by (subst time_read_bcd_step)
      (simp add: q regs_of_def bcd_field_bcd get_yday_def month_at_nth after_pass_def Let_def)
qed

text \<open>
  C22. When the CMOS shows a valid date between 1970 and 2038 and does not change during the nine
  reads, \<^verbatim>\<open>time_init\<close> sets the start time to the seconds from the start of 1970 to it.
\<close>
theorem time_init_startup:
  assumes "clock_shows s Y m d h mi sc" "1970 \<le> Y" "Y \<le> 2038" "valid_date Y m d"
    "h < 24" "mi < 60" "sc < 60"
  shows "\<exists>s'. time_init s t = Some s' \<and> unat (boot_time s') = epoch_seconds Y m d h mi sc"
proof -
  have "m \<le> 12" "d < 100" using assms(4) month_days_le [of "leap Y" m] by (auto simp: valid_date_def)
  then obtain t' s' where r: "time_read s t = Some (t', s')" "tm_sec t' = int sc" "tm_min t' = int mi"
     "tm_hour t' = int h" "tm_mday t' = int d" "tm_mon t' = int m" "tm_year t' = int (Y mod 100)"
    using time_read_shows [OF assms(1), of t] assms by auto
  have "mktime t' = Some (of_nat (epoch_seconds Y m d h mi sc))"
    using assms r by (intro mktime_epoch years_since_1970_eq) auto
  then show ?thesis
    using r epoch_seconds_less [OF assms(3-7)] by (simp add: time_init_def)
qed

definition demo_rtc :: rtc where
  "demo_rtc = \<lparr>cmos = \<lambda>n r. if r = 0 then 0x59 else if r = 2 then 0x58 else if r = 4 then 0x23
       else if r = 7 then 0x31 else if r = 8 then 0x12 else if r = 9 then 0x24 else 0x20,
     cmos_n = 0, cmos_log = [], century = 0, boot_time = 0, alarm_pointer = None,
     flags = \<lambda>_. True, rtc_eois = []\<rparr>"

lemma demo_rtc_shows: "clock_shows demo_rtc 2024 12 31 23 58 59"
  by code_simp

theorem time_init_startup_witness:
  "\<exists>s'. time_init demo_rtc (undefined :: tm) = Some s' \<and>
      unat (boot_time s') = epoch_seconds 2024 12 31 23 58 59"
  by (rule time_init_startup [OF demo_rtc_shows]) (simp_all add: valid_date_def month_days_def)

text \<open>The time of day after a delay, with the carries written out.\<close>

definition carried :: "nat \<Rightarrow> nat \<Rightarrow> nat \<Rightarrow> nat \<Rightarrow> nat \<times> nat \<times> nat" where
  "carried h mi sc secs =
     (let s = sc + secs mod 60;
          m = mi + s div 60 + secs div 60 mod 60;
          hh = h + m div 60 + secs div 60 div 60
      in (hh mod 24, m mod 60, s mod 60))"

lemma carried_tod:
  assumes "carried h mi sc secs = (h', mi', sc')"
  shows "h' < 24 \<and> mi' < 60 \<and> sc' < 60 \<and>
    3600 * h' + 60 * mi' + sc' = (3600 * h + 60 * mi + sc + secs) mod 86400"
proof -
  define s where "s = sc + secs mod 60"
  define m where "m = mi + s div 60 + secs div 60 mod 60"
  define hh where "hh = h + m div 60 + secs div 60 div 60"
  have r: "h' = hh mod 24" "mi' = m mod 60" "sc' = s mod 60"
    using assms by (auto simp: carried_def s_def m_def hh_def Let_def)
  have "3600 * h + 60 * mi + sc + secs = 86400 * (hh div 24) + (3600 * (hh mod 24) + 60 * (m mod 60) + s mod 60)"
  proof -
    have "secs = 60 * (secs div 60) + secs mod 60"
      "secs div 60 = 60 * (secs div 60 div 60) + secs div 60 mod 60"
      "s = 60 * (s div 60) + s mod 60" "m = 60 * (m div 60) + m mod 60" "hh = 24 * (hh div 24) + hh mod 24"
      by simp_all
    then show ?thesis unfolding s_def m_def hh_def by linarith
  qed
  moreover have lt: "h' < 24" "mi' < 60" "sc' < 60" using r by simp_all
  moreover have "3600 * h' + 60 * mi' + sc' < 86400" using lt by linarith
  ultimately show ?thesis using r by simp
qed

lemma once_around:
  assumes "x < 2 * k" shows "x div k = (if k \<le> x then 1 else 0)" "x mod k = (if k \<le> x then x - k else (x :: nat))"
  using assms div_mod_parts [of x 1 k "x - k"] by (auto split: if_splits)

lemma alarm_time_carried:
  assumes "tm_sec t = int sc" "tm_min t = int mi" "tm_hour t = int h" "sc < 60" "mi < 60"
  shows "(tm_hour (alarm_time t secs), tm_min (alarm_time t secs), tm_sec (alarm_time t secs)) =
    (case carried h mi sc (unat secs) of (h', mi', sc') \<Rightarrow> (int h', int mi', int sc'))"
proof -
  define a where "a = unat secs mod 60"
  define b where "b = unat secs div 60 mod 60"
  define c where "c = unat secs div 60 div 60"
  have w: "uint (secs mod 60) = int a" "uint (secs div 60 mod 60) = int b"
      "uint (secs div 60 div 60) = int c"
    by (simp_all add: uint_nat a_def b_def c_def unat_mod unat_div)
  have lt: "a < 60" "b < 60" by (simp_all add: a_def b_def)
  define s where "s = sc + a"
  define m where "m = mi + s div 60 + b"
  define hh where "hh = h + m div 60 + c"
  have "alarm_time t secs = t\<lparr>tm_sec := int (s mod 60), tm_min := int (m mod 60),
      tm_hour := int (hh mod 24)\<rparr>"
  proof -
    have s: "s div 60 = (if s \<ge> 60 then 1 else 0)" "s mod 60 = (if s \<ge> 60 then s - 60 else s)"
      using lt assms(4) once_around [of s 60] by (simp_all add: s_def)
    have m: "m div 60 = (if m \<ge> 60 then 1 else 0)" "m mod 60 = (if m \<ge> 60 then m - 60 else m)"
      using lt assms(4,5) s(1) once_around [of m 60] by (simp_all add: m_def)
    have wrap: "int x smod 60 = int (x mod 60)" "int x smod 24 = int (x mod 24)" for x
      by (simp_all add: nonneg_divs zmod_int)
    have t1: "int sc + int a = int s" by (simp add: s_def)
    have t2: "int mi + 1 + int b = int m" if "s \<ge> 60" using that by (simp add: m_def s(1))
    have t3: "int mi + int b = int m" if "\<not> s \<ge> 60" using that by (simp add: m_def s(1))
    have t4: "int h + 1 + int c = int hh" if "m \<ge> 60" using that by (simp add: hh_def m(1))
    have t5: "int h + int c = int hh" if "\<not> m \<ge> 60" using that by (simp add: hh_def m(1))
    have t6: "hh mod 24 = hh" if "\<not> hh \<ge> 24" using that by simp
    show ?thesis
      by (cases "s \<ge> 60"; cases "m \<ge> 60"; cases "hh \<ge> 24")
        (simp_all add: alarm_time_def Let_def w t1 t2 t3 t4 t5 t6 assms(1-3) wrap)
  qed
  then show ?thesis
    by (simp add: carried_def Let_def a_def b_def c_def s_def m_def hh_def)
qed

text \<open>
  \<^verbatim>\<open>set_alarm\<close> at a valid time of day, for any delay: the alarm registers receive, in BCD, the
  time of day after the delay (modulo a day), then the alarm interrupt is enabled, and the flag to
  be cleared is recorded.
\<close>
lemma set_alarm_time:
  assumes "clock_shows s Y m d h mi sc" "m \<le> 12" "d < 100" "h < 24" "mi < 60" "sc < 60"
  shows "\<exists>h' mi' sc' s'. set_alarm s t secs flag = Some s' \<and> alarm_pointer s' = Some flag \<and>
     h' < 24 \<and> mi' < 60 \<and> sc' < 60 \<and>
     3600 * h' + 60 * mi' + sc' = (3600 * h + 60 * mi + sc + unat secs) mod 86400 \<and>
     cmos_log s' = cmos_log s @ [(5, bcd h'), (3, bcd mi'), (1, bcd sc'), (0x0b, 0x22)]"
proof -
  have "clock_shows (s\<lparr>alarm_pointer := Some flag\<rparr>) Y m d h mi sc"
    using assms(1) by (simp add: clock_shows_def Let_def)
  from time_read_shows [OF this, of t] assms obtain t' s' where
    r: "time_read (s\<lparr>alarm_pointer := Some flag\<rparr>) t = Some (t', s')" "tm_sec t' = int sc"
      "tm_min t' = int mi" "tm_hour t' = int h" "cmos_log s' = cmos_log s"
      "alarm_pointer s' = Some flag"
    by auto
  obtain h' mi' sc' where c: "carried h mi sc (unat secs) = (h', mi', sc')" by (metis prod_cases3)
  from alarm_time_carried [OF r(2-4) assms(6,5), of secs] c
  have a: "tm_hour (alarm_time t' secs) = int h'" "tm_min (alarm_time t' secs) = int mi'"
      "tm_sec (alarm_time t' secs) = int sc'"
    by auto
  show ?thesis
    using carried_tod [OF c]
    by (intro exI [of _ h'] exI [of _ mi'] exI [of _ sc'])
      (simp add: set_alarm_def r a cmos_write_def CMOS_NMI_def RTC_CMOS_HOUR_def RTC_CMOS_MINUTE_def
        RTC_CMOS_SECOND_def CMOS_B_def bcd_def Let_def)
qed

lemma set_alarm_time_witness:
  "\<exists>h' mi' sc' s'. set_alarm demo_rtc (undefined :: tm) 3661 0 = Some s' \<and> alarm_pointer s' = Some 0 \<and>
     h' < 24 \<and> mi' < 60 \<and> sc' < 60 \<and>
     3600 * h' + 60 * mi' + sc' = (3600 * 23 + 60 * 58 + 59 + unat (3661 :: u32)) mod 86400 \<and>
     cmos_log s' = cmos_log demo_rtc @ [(5, bcd h'), (3, bcd mi'), (1, bcd sc'), (0x0b, 0x22)]"
  by (rule set_alarm_time [OF demo_rtc_shows]) simp_all

end
