(* ===== verification/Device.thy ===== *)
theory Device
  imports Task Strings
begin

text \<open>
  \<^verbatim>\<open>src/kernel/device.c\<close>, \<^verbatim>\<open>src/include/lightos/device.h\<close> and \<^verbatim>\<open>src/kernel/ramdisk.c\<close>: the device
  table, the request queue of a block device with the elevator that orders it, and the RAM disks.

  A driver function is a field of the device, as the function pointers are in C; what it acts on is
  the type \<open>'s\<close>. \<^verbatim>\<open>device_request\<close> may sleep between queueing its request and carrying it out, so it
  is split there: \<open>device_request_enter\<close> up to the sleep, \<open>device_request_finish\<close> from the wake-up on.
  A request is named by its task, which waits for it and so has only one. Shown: the queue stays
  sorted and exactly one queued request is being carried out as long as there is any, the elevator
  serves a batch upwards and then downwards, and a RAM disk keeps what was written to it.
\<close>

section \<open>Devices\<close>

definition DEVICE_NR :: nat where "DEVICE_NR = 64"
definition NAMELEN :: nat where "NAMELEN = 16"

definition DEV_NULL :: u32 where "DEV_NULL = 0"
definition DEV_CHAR :: u32 where "DEV_CHAR = 1"
definition DEV_BLOCK :: u32 where "DEV_BLOCK = 2"
definition DEV_CONSOLE :: u32 where "DEV_CONSOLE = 1"
definition DEV_RAMDISK :: u32 where "DEV_RAMDISK = 7"
definition DEV_CMD_SECTOR_START :: u32 where "DEV_CMD_SECTOR_START = 1"
definition DEV_CMD_SECTOR_COUNT :: u32 where "DEV_CMD_SECTOR_COUNT = 2"

definition REQUEST_READ :: u32 where "REQUEST_READ = 0"
definition REQUEST_WRITE :: u32 where "REQUEST_WRITE = 1"
definition DIRECT_UP :: bool where "DIRECT_UP = False"
definition DIRECT_DOWN :: bool where "DIRECT_DOWN = True"

record request =
  r_dev :: u32
  r_type :: u32
  r_idx :: u32
  r_count :: u32
  r_flags :: u32
  r_buf :: u32
  r_task :: nat

text \<open>A driver function takes the device pointer, four words and the state.\<close>

type_synonym 's driver = "u32 \<Rightarrow> u32 \<Rightarrow> u32 \<Rightarrow> u32 \<Rightarrow> u32 \<Rightarrow> 's \<Rightarrow> (u32 \<times> 's) option"

record 's device =
  d_name :: "u8 list"
  d_type :: u32
  d_subtype :: u32
  d_dev :: u32
  d_parent :: u32
  d_ptr :: u32
  d_requests :: "request list"
  d_direct :: bool
  d_ioctl :: "'s driver option"
  d_read :: "'s driver option"
  d_write :: "'s driver option"

record 's devs =
  dv_kern :: kernel
  device_list :: "'s device list"
  dv_io :: 's

definition put_device :: "'s devs \<Rightarrow> nat \<Rightarrow> 's device \<Rightarrow> 's devs" where
  "put_device s i d = s\<lparr>device_list := (device_list s)[i := d]\<rparr>"

fun new_device_from :: "'s device list \<Rightarrow> nat \<Rightarrow> nat option" where
  "new_device_from [] i = None"
| "new_device_from (d # ds) i =
     (if 1 \<le> i \<and> d_type d = DEV_NULL then Some i else new_device_from ds (i + 1))"

definition get_new_device :: "'s devs \<Rightarrow> nat option" where
  "get_new_device s = new_device_from (device_list s) 0"

text \<open>\<^verbatim>\<open>device_find\<close>: the \<open>idx\<close>-th device of a subtype, or the null pointer.\<close>

fun device_find_from :: "'s device list \<Rightarrow> nat \<Rightarrow> u32 \<Rightarrow> u32 \<Rightarrow> u32 \<Rightarrow> nat option" where
  "device_find_from [] i subtype nr idx = None"
| "device_find_from (d # ds) i subtype nr idx =
     (if d_subtype d = subtype
      then if nr = idx then Some i else device_find_from ds (i + 1) subtype (nr + 1) idx
      else device_find_from ds (i + 1) subtype nr idx)"

definition device_find :: "'s devs \<Rightarrow> u32 \<Rightarrow> u32 \<Rightarrow> nat option" where
  "device_find s subtype idx = device_find_from (device_list s) 0 subtype 0 idx"

definition device_get :: "'s devs \<Rightarrow> u32 \<Rightarrow> 's device option" where
  "device_get s dev = do {
     kassert (unat dev < DEVICE_NR);
     d \<leftarrow> aget (device_list s) (unat dev);
     kassert (d_type d \<noteq> DEV_NULL);
     Some d }"

definition device_ioctl :: "'s devs \<Rightarrow> u32 \<Rightarrow> u32 \<Rightarrow> u32 \<Rightarrow> u32 \<Rightarrow> (u32 \<times> 's devs) option" where
  "device_ioctl s dev cmd arg flg = do {
     d \<leftarrow> device_get s dev;
     case d_ioctl d of
       Some f \<Rightarrow> do { (r, io) \<leftarrow> f (d_ptr d) cmd arg flg 0 (dv_io s); Some (r, s\<lparr>dv_io := io\<rparr>) }
     | None \<Rightarrow> Some (EOF, s) }"

definition device_read :: "'s devs \<Rightarrow> u32 \<Rightarrow> u32 \<Rightarrow> u32 \<Rightarrow> u32 \<Rightarrow> u32 \<Rightarrow> (u32 \<times> 's devs) option" where
  "device_read s dev bf count idx flg =
     (if bf = 0 \<or> count = 0 then Some (EOF, s)
      else do {
        d \<leftarrow> device_get s dev;
        case d_read d of
          Some f \<Rightarrow> do { (r, io) \<leftarrow> f (d_ptr d) bf count idx flg (dv_io s); Some (r, s\<lparr>dv_io := io\<rparr>) }
        | None \<Rightarrow> Some (EOF, s) })"

text \<open>The assertion compares the type with the subtype constant \<^verbatim>\<open>DEV_CONSOLE\<close>, as in the source.\<close>

definition device_write :: "'s devs \<Rightarrow> u32 \<Rightarrow> u32 \<Rightarrow> u32 \<Rightarrow> u32 \<Rightarrow> u32 \<Rightarrow> (u32 \<times> 's devs) option" where
  "device_write s dev bf count idx flg =
     (if bf = 0 \<or> count = 0 then Some (EOF, s)
      else do {
        d \<leftarrow> device_get s dev;
        case d_write d of
          Some f \<Rightarrow> do { (r, io) \<leftarrow> f (d_ptr d) bf count idx flg (dv_io s); Some (r, s\<lparr>dv_io := io\<rparr>) }
        | None \<Rightarrow> do { kassert (d_type d \<noteq> DEV_CONSOLE); Some (EOF, s) } })"

definition device_install ::
  "'s devs \<Rightarrow> u32 \<Rightarrow> u32 \<Rightarrow> u32 \<Rightarrow> u8 list \<Rightarrow> u32 \<Rightarrow> 's driver option \<Rightarrow> 's driver option \<Rightarrow>
   's driver option \<Rightarrow> (u32 \<times> 's devs) option" where
  "device_install s ty subtype ptr name parent ioctl rd wr = do {
     i \<leftarrow> get_new_device s;
     d \<leftarrow> aget (device_list s) i;
     let d = d\<lparr>d_type := ty, d_subtype := subtype, d_ptr := ptr, d_name := take NAMELEN name,
               d_parent := parent, d_ioctl := ioctl, d_read := rd, d_write := wr\<rparr>;
     Some (d_dev d, put_device s i d) }"

definition null_device :: "u32 \<Rightarrow> 's device" where
  "null_device i = \<lparr>d_name = [110, 117, 108, 108], d_type = DEV_NULL, d_subtype = DEV_NULL, d_dev = i,
     d_parent = 0, d_ptr = 0, d_requests = [], d_direct = DIRECT_UP, d_ioctl = None, d_read = None,
     d_write = None\<rparr>"

definition device_init :: "'s devs \<Rightarrow> 's devs" where
  "device_init s = s\<lparr>device_list := map (\<lambda>i. null_device (of_nat i)) [0..<DEVICE_NR]\<rparr>"

section \<open>Requests and the elevator\<close>

definition do_request :: "'s devs \<Rightarrow> request \<Rightarrow> 's devs option" where
  "do_request s req =
     (if r_type req = REQUEST_READ then do {
        (_, s) \<leftarrow> device_read s (r_dev req) (r_buf req) (r_count req) (r_idx req) (r_flags req);
        Some s }
      else if r_type req = REQUEST_WRITE then do {
        (_, s) \<leftarrow> device_write s (r_dev req) (r_buf req) (r_count req) (r_idx req) (r_flags req);
        Some s }
      else kpanic)"

text \<open>
  \<^verbatim>\<open>list_insert_sort\<close> on the \<open>idx\<close> field read as an \<^verbatim>\<open>int\<close>: behind the requests that are not larger.
\<close>

definition request_key :: "request \<Rightarrow> int" where
  "request_key r = sint (r_idx r)"

definition insert_request :: "request \<Rightarrow> request list \<Rightarrow> request list" where
  "insert_request r rs = takeWhile (\<lambda>q. request_key q \<le> request_key r) rs @ r #
     dropWhile (\<lambda>q. request_key q \<le> request_key r) rs"

text \<open>The place of a task's request in the queue.\<close>

fun request_pos :: "request list \<Rightarrow> nat \<Rightarrow> nat option" where
  "request_pos [] t = None"
| "request_pos (r # rs) t = (if r_task r = t then Some 0 else map_option Suc (request_pos rs t))"

text \<open>\<^verbatim>\<open>request_nextreq\<close> turns at either end of the list and steps in the direction it then has.\<close>

definition request_nextreq :: "'s device \<Rightarrow> nat \<Rightarrow> (request option \<times> 's device) option" where
  "request_nextreq d t = do {
     i \<leftarrow> request_pos (d_requests d) t;
     let n = length (d_requests d);
     let direct = (if d_direct d = DIRECT_UP
                   then if i + 1 = n then DIRECT_DOWN else d_direct d
                   else if i = 0 then DIRECT_UP else d_direct d);
     let next = (if direct = DIRECT_UP then if i + 1 < n then Some (d_requests d ! (i + 1)) else None
                 else if 0 < i then Some (d_requests d ! (i - 1)) else None);
     Some (next, d\<lparr>d_direct := direct\<rparr>) }"

definition drop_request :: "'s device \<Rightarrow> nat \<Rightarrow> 's device option" where
  "drop_request d t = do {
     i \<leftarrow> request_pos (d_requests d) t;
     Some (d\<lparr>d_requests := take i (d_requests d) @ drop (Suc i) (d_requests d)\<rparr>) }"

text \<open>
  The device whose queue a request goes to: the parent disk of a partition. The assertion on the
  way there assigns the type instead of comparing it.
\<close>

definition request_queue_of :: "'s devs \<Rightarrow> u32 \<Rightarrow> (nat \<times> 's devs) option" where
  "request_queue_of s dev = do {
     d \<leftarrow> device_get s dev;
     let s = put_device s (unat dev) (d\<lparr>d_type := DEV_BLOCK\<rparr>);
     kassert (DEV_BLOCK \<noteq> 0);
     if d_parent d \<noteq> 0 then do { _ \<leftarrow> device_get s (d_parent d); Some (unat (d_parent d), s) }
     else Some (unat dev, s) }"

text \<open>Up to the sleep: the queue, the request, and whether the caller sleeps.\<close>

definition device_request_enter ::
  "u32 \<Rightarrow> 's devs \<Rightarrow> u32 \<Rightarrow> u32 \<Rightarrow> u8 \<Rightarrow> u32 \<Rightarrow> u32 \<Rightarrow> u32 \<Rightarrow> (nat \<times> request \<times> bool \<times> 's devs) option" where
  "device_request_enter resume s dev bf count idx flg ty = do {
     (q, s) \<leftarrow> request_queue_of s dev;
     d \<leftarrow> aget (device_list s) q;
     let req = \<lparr>r_dev = dev, r_type = ty, r_idx = idx, r_count = ucast count, r_flags = flg,
                r_buf = bf, r_task = cur (dv_kern s)\<rparr>;
     let empty = (d_requests d = []);
     let s = put_device s q (d\<lparr>d_requests := insert_request req (d_requests d)\<rparr>);
     if empty then Some (q, req, False, s)
     else do {
       k \<leftarrow> task_block resume (dv_kern s) (r_task req) None TASK_BLOCKED;
       Some (q, req, True, s\<lparr>dv_kern := k\<rparr>) } }"

definition device_request_finish :: "'s devs \<Rightarrow> nat \<Rightarrow> request \<Rightarrow> 's devs option" where
  "device_request_finish s q req = do {
     s \<leftarrow> do_request s req;
     d \<leftarrow> aget (device_list s) q;
     (nextreq, d) \<leftarrow> request_nextreq d (r_task req);
     d \<leftarrow> drop_request d (r_task req);
     let s = put_device s q d;
     case nextreq of
       None \<Rightarrow> Some s
     | Some nx \<Rightarrow> do {
         t \<leftarrow> task_at (dv_kern s) (r_task nx);
         kassert (t_magic t = LIGHTOS_MAGIC);
         k \<leftarrow> task_intr_unblock_no_waiting_list (dv_kern s) (r_task nx);
         Some (s\<lparr>dv_kern := k\<rparr>) } }"

section \<open>RAM disks\<close>

definition KERNEL_RAMDISK_VADDR :: u32 where "KERNEL_RAMDISK_VADDR = 0xC0C00000"
definition KERNEL_RAMDISK_SIZE :: u32 where "KERNEL_RAMDISK_SIZE = 0x400000"
definition SECTOR_SIZE :: u32 where "SECTOR_SIZE = 512"
definition RAMDISK_NR :: nat where "RAMDISK_NR = 4"

record ramdisk =
  rd_start :: u32
  rd_size :: u32

text \<open>The disk pointer of a driver call is the index of the disk in the table.\<close>

definition ramdisk_ioctl :: "ramdisk list \<Rightarrow> mem driver" where
  "ramdisk_ioctl disks ptr cmd arg flg z m = do {
     disk \<leftarrow> aget disks (unat ptr);
     if cmd = DEV_CMD_SECTOR_START then Some (0, m)
     else if cmd = DEV_CMD_SECTOR_COUNT then Some (rd_size disk div SECTOR_SIZE, m)
     else kpanic }"

definition ramdisk_read :: "ramdisk list \<Rightarrow> mem driver" where
  "ramdisk_read disks ptr bf count lba flg m = do {
     disk \<leftarrow> aget disks (unat ptr);
     let count8 = (ucast count :: u8);
     let addr = rd_start disk + lba * SECTOR_SIZE;
     let len = ucast count8 * SECTOR_SIZE;
     kassert (\<not> addr + len \<ge> KERNEL_RAMDISK_VADDR + KERNEL_RAMDISK_SIZE);
     Some (ucast count8, snd (memcpy m bf addr len)) }"

definition ramdisk_write :: "ramdisk list \<Rightarrow> mem driver" where
  "ramdisk_write disks ptr bf count lba flg m = do {
     disk \<leftarrow> aget disks (unat ptr);
     let count8 = (ucast count :: u8);
     let addr = rd_start disk + lba * SECTOR_SIZE;
     let len = ucast count8 * SECTOR_SIZE;
     kassert (\<not> addr + len \<ge> KERNEL_RAMDISK_VADDR + KERNEL_RAMDISK_SIZE);
     Some (ucast count8, snd (memcpy m addr bf len)) }"

definition ramdisks :: "ramdisk list" where
  "ramdisks = map (\<lambda>i. \<lparr>rd_start = KERNEL_RAMDISK_VADDR + (KERNEL_RAMDISK_SIZE div of_nat RAMDISK_NR) * of_nat i,
      rd_size = KERNEL_RAMDISK_SIZE div of_nat RAMDISK_NR\<rparr>) [0..<RAMDISK_NR]"

text \<open>The first disk is called udev, disk \<open>i\<close> tmpfs and the letter \<open>i\<close> past a.\<close>

definition ramdisk_name :: "nat \<Rightarrow> u8 list" where
  "ramdisk_name i = (if i = 0 then [117, 100, 101, 118] else [116, 109, 112, 102, 115, of_nat i + 97])"

fun ramdisk_install :: "mem devs \<Rightarrow> nat \<Rightarrow> nat \<Rightarrow> mem devs option" where
  "ramdisk_install s 0 i = Some s"
| "ramdisk_install s (Suc n) i = do {
     (_, s) \<leftarrow> device_install s DEV_BLOCK DEV_RAMDISK (of_nat i) (ramdisk_name i) 0
       (Some (ramdisk_ioctl ramdisks)) (Some (ramdisk_read ramdisks)) (Some (ramdisk_write ramdisks));
     ramdisk_install s n (i + 1) }"

definition ramdisk_init :: "mem devs \<Rightarrow> mem devs option" where
  "ramdisk_init s = do {
     kassert (KERNEL_RAMDISK_SIZE div of_nat RAMDISK_NR mod SECTOR_SIZE = 0);
     ramdisk_install s RAMDISK_NR 0 }"

section \<open>The queue as a state machine\<close>

text \<open>
  The queue of one disk and the task whose request is being carried out. A request arrives while
  its task has none in the queue; the running request finishes, and what \<open>request_nextreq\<close> chose
  runs next.
\<close>

type_synonym 's disk = "'s device \<times> nat option"

definition tasks_of :: "'s device \<Rightarrow> nat list" where
  "tasks_of d = map r_task (d_requests d)"

definition arrive :: "'s disk \<Rightarrow> request \<Rightarrow> 's disk" where
  "arrive k r = (case k of (d, a) \<Rightarrow>
     (d\<lparr>d_requests := insert_request r (d_requests d)\<rparr>,
      if d_requests d = [] then Some (r_task r) else a))"

definition finish :: "'s device \<Rightarrow> nat \<Rightarrow> 's disk option" where
  "finish d t = do {
     (nx, d) \<leftarrow> request_nextreq d t;
     d \<leftarrow> drop_request d t;
     Some (d, map_option r_task nx) }"

inductive disk_step :: "'s disk \<Rightarrow> 's disk \<Rightarrow> bool" where
  step_arrive: "r_task r \<notin> set (tasks_of d) \<Longrightarrow> disk_step (d, a) (arrive (d, a) r)"
| step_finish: "finish d t = Some k \<Longrightarrow> disk_step (d, Some t) k"

inductive disk_reach :: "'s disk \<Rightarrow> bool" where
  reach_init: "disk_reach (null_device i, None)"
| reach_step: "disk_reach k \<Longrightarrow> disk_step k k' \<Longrightarrow> disk_reach k'"

inductive_cases disk_stepE: "disk_step k k'"

definition disk_ok :: "'s disk \<Rightarrow> bool" where
  "disk_ok k \<longleftrightarrow> (case k of (d, a) \<Rightarrow>
     sorted (map request_key (d_requests d)) \<and> distinct (tasks_of d) \<and>
     (case a of None \<Rightarrow> d_requests d = [] | Some t \<Rightarrow> t \<in> set (tasks_of d)))"

lemma insert_request_set: "set (insert_request r rs) = insert r (set rs)"
proof -
  have "set (takeWhile P rs) \<union> set (dropWhile P rs) = set rs" for P
    by (metis set_append takeWhile_dropWhile_id)
  then show ?thesis by (auto simp: insert_request_def)
qed

lemma insert_request_distinct:
  assumes "distinct (map r_task rs)" "r_task r \<notin> r_task ` set rs"
  shows "distinct (map r_task (insert_request r rs))"
proof -
  have "map r_task rs = map r_task (takeWhile P rs) @ map r_task (dropWhile P rs)" for P
    by (metis map_append takeWhile_dropWhile_id)
  with assms(1) have "distinct (map r_task (takeWhile P rs) @ map r_task (dropWhile P rs))" for P
    by metis
  with assms(2) show ?thesis
    by (auto simp: insert_request_def dest: set_takeWhileD set_dropWhileD)
qed

lemma insert_request_sorted:
  assumes "sorted (map request_key rs)"
  shows "sorted (map request_key (insert_request r rs))"
  using assms
proof (induction rs)
  case (Cons q rs)
  show ?case
  proof (cases "request_key q \<le> request_key r")
    case True
    then have "insert_request r (q # rs) = q # insert_request r rs" by (simp add: insert_request_def)
    then show ?thesis using Cons True by (auto simp: insert_request_set)
  next
    case False
    then have "insert_request r (q # rs) = r # q # rs" by (simp add: insert_request_def)
    then show ?thesis using Cons False by auto
  qed
qed (simp add: insert_request_def)

lemma request_pos_None: "request_pos rs t = None \<longleftrightarrow> t \<notin> r_task ` set rs"
  by (induction rs) auto

lemma request_pos_split:
  "r_task r \<notin> r_task ` set lo \<Longrightarrow> request_pos (lo @ r # hi) (r_task r) = Some (length lo)"
  by (induction lo) auto

lemma tasks_of_split:
  assumes "t \<in> set (tasks_of d)" "distinct (tasks_of d)"
  obtains lo r hi where "d_requests d = lo @ r # hi" "r_task r = t" "t \<notin> r_task ` set lo"
proof -
  obtain lo r hi where "d_requests d = lo @ r # hi" "r_task r = t"
    using assms(1) by (auto simp: tasks_of_def dest: split_list)
  with assms(2) show thesis by (intro that) (auto simp: tasks_of_def)
qed

text \<open>One completion, at a split queue: the direction it leaves and the request it picks.\<close>

lemma finish_split:
  assumes "d_requests d = lo @ r # hi" "r_task r \<notin> r_task ` set lo"
  defines "up \<equiv> (if d_direct d = DIRECT_UP then hi \<noteq> [] else lo = [])"
  shows "finish d (r_task r) = Some (d\<lparr>d_requests := lo @ hi,
            d_direct := (if up then DIRECT_UP else DIRECT_DOWN)\<rparr>,
          if up then (if hi = [] then None else Some (r_task (hd hi)))
          else if lo = [] then None else Some (r_task (last lo)))"
proof -
  have pos: "request_pos (d_requests d) (r_task r) = Some (length lo)"
    unfolding assms(1) using assms(2) by (rule request_pos_split)
  have parts: "take (length lo) (d_requests d) = lo" "drop (Suc (length lo)) (d_requests d) = hi"
      "length (d_requests d) = Suc (length lo + length hi)"
      "lo = [] \<Longrightarrow> drop (Suc 0) (d_requests d) = hi"
    by (simp_all add: assms(1))
  have ends: "hi \<noteq> [] \<Longrightarrow> d_requests d ! Suc (length lo) = hd hi"
      "lo \<noteq> [] \<Longrightarrow> d_requests d ! (length lo - Suc 0) = last lo"
      "hi \<noteq> [] \<Longrightarrow> lo = [] \<Longrightarrow> d_requests d ! Suc 0 = hd hi"
    by (simp_all add: assms(1) nth_append hd_conv_nth last_conv_nth)
  show ?thesis
    unfolding up_def
    by (cases "hi = []"; cases "lo = []"; cases "d_direct d")
      (simp_all add: finish_def request_nextreq_def drop_request_def pos parts ends Let_def
        DIRECT_UP_def DIRECT_DOWN_def)
qed

lemma disk_step_ok:
  assumes "disk_step k k'" "disk_ok k"
  shows "disk_ok k'"
  using assms
proof (cases rule: disk_step.cases)
  case (step_arrive r d a)
  then show ?thesis
    using assms(2) insert_request_sorted [of "d_requests d" r] insert_request_distinct [of "d_requests d" r]
    by (auto simp: disk_ok_def arrive_def tasks_of_def insert_request_set split: option.splits)
next
  case (step_finish d t)
  from assms(2) step_finish have ok: "sorted (map request_key (d_requests d))" "distinct (tasks_of d)"
    "t \<in> set (tasks_of d)" by (auto simp: disk_ok_def)
  then obtain lo r hi where q: "d_requests d = lo @ r # hi" "r_task r = t" "t \<notin> r_task ` set lo"
    by (elim tasks_of_split)
  show ?thesis
    using finish_split [OF q(1), unfolded q(2), OF q(3)] step_finish(2) ok q
    by (auto simp: disk_ok_def tasks_of_def sorted_append neq_Nil_conv split: if_splits)
qed

lemma disk_reach_ok: "disk_reach k \<Longrightarrow> disk_ok k"
  by (induction rule: disk_reach.induct)
    (auto simp: disk_ok_def null_device_def tasks_of_def dest: disk_step_ok)

text \<open>
  C24. The queue of a disk never stalls and never runs two requests at once: whatever requests
  arrive and finish, the queue is sorted by sector, a task has at most one request in it, and as
  long as the queue is not empty exactly one task, one of those queued, is the one that was let
  run; its completion then has a result.
\<close>
theorem disk_queue_never_stalls:
  assumes "disk_reach (d, a)"
  shows "sorted (map request_key (d_requests d)) \<and> distinct (tasks_of d) \<and>
    (d_requests d = [] \<longleftrightarrow> a = None) \<and>
    (case a of None \<Rightarrow> True | Some t \<Rightarrow> t \<in> set (tasks_of d) \<and> finish d t \<noteq> None)"
proof (cases a)
  case None
  then show ?thesis using disk_reach_ok [OF assms] by (auto simp: disk_ok_def tasks_of_def)
next
  case (Some t)
  with disk_reach_ok [OF assms] have ok: "disk_ok (d, Some t)" by simp
  then obtain lo r hi where q: "d_requests d = lo @ r # hi" "r_task r = t" "t \<notin> r_task ` set lo"
    by (auto simp: disk_ok_def elim: tasks_of_split)
  then show ?thesis using Some ok finish_split [OF q(1)] by (simp add: disk_ok_def)
qed

definition demo_request :: "u32 \<Rightarrow> nat \<Rightarrow> request" where
  "demo_request idx t = \<lparr>r_dev = 1, r_type = REQUEST_READ, r_idx = idx, r_count = 2, r_flags = 0,
     r_buf = 0x1000, r_task = t\<rparr>"

definition demo_disk :: "mem device" where
  "demo_disk = (null_device 1)\<lparr>d_requests := [demo_request 4 1, demo_request 8 2, demo_request 12 3]\<rparr>"

lemma demo_disk_reach: "disk_reach (demo_disk, Some 2)"
proof -
  have "disk_reach (arrive (null_device 1, None) (demo_request 8 2))"
    by (rule reach_step [OF reach_init], rule step_arrive) (simp add: tasks_of_def null_device_def)
  then have "disk_reach ((null_device 1)\<lparr>d_requests := [demo_request 8 2]\<rparr>, Some 2)"
    by (simp add: arrive_def null_device_def insert_request_def demo_request_def)
  then have "disk_reach (arrive ((null_device 1)\<lparr>d_requests := [demo_request 8 2]\<rparr>, Some 2) (demo_request 4 1))"
    by (rule reach_step, intro step_arrive) (simp add: tasks_of_def demo_request_def)
  then have "disk_reach ((null_device 1)\<lparr>d_requests := [demo_request 4 1, demo_request 8 2]\<rparr>, Some 2)"
    by (simp add: arrive_def null_device_def insert_request_def demo_request_def request_key_def)
  then have "disk_reach (arrive ((null_device 1)\<lparr>d_requests := [demo_request 4 1, demo_request 8 2]\<rparr>, Some 2)
      (demo_request 12 3))"
    by (rule reach_step, intro step_arrive) (simp add: tasks_of_def demo_request_def)
  then show ?thesis
    by (simp add: arrive_def null_device_def insert_request_def demo_request_def request_key_def demo_disk_def)
qed

theorem disk_queue_never_stalls_witness:
  "sorted (map request_key (d_requests demo_disk)) \<and> distinct (tasks_of demo_disk) \<and>
    (d_requests demo_disk = [] \<longleftrightarrow> Some (2 :: nat) = None) \<and>
    (case Some 2 of None \<Rightarrow> True | Some t \<Rightarrow> t \<in> set (tasks_of demo_disk) \<and> finish demo_disk t \<noteq> None)"
  by (rule disk_queue_never_stalls [OF demo_disk_reach])

section \<open>The order of service\<close>

text \<open>The tasks served when nothing more arrives, from the one that runs now.\<close>

fun served :: "nat \<Rightarrow> 's device \<Rightarrow> nat \<Rightarrow> nat list" where
  "served 0 d t = []"
| "served (Suc n) d t = t # (case finish d t of Some (d', Some t') \<Rightarrow> served n d' t' | _ \<Rightarrow> [])"

lemma served_sweep:
  assumes "d_requests d = lo @ r # hi" "distinct (tasks_of d)" "length lo + length hi < n"
  shows "served n d (r_task r) = r_task r #
    (if d_direct d = DIRECT_UP then map r_task (hi @ rev lo) else map r_task (rev lo @ hi))"
  using assms
proof (induction n arbitrary: d lo r hi)
  case (Suc n)
  have notin: "r_task r \<notin> r_task ` set lo" using Suc.prems by (auto simp: tasks_of_def)
  note fin = finish_split [OF Suc.prems(1) notin]
  define up where "up = (if d_direct d = DIRECT_UP then hi \<noteq> [] else lo = [])"
  define d' where "d' = d\<lparr>d_requests := lo @ hi, d_direct := (if up then DIRECT_UP else DIRECT_DOWN)\<rparr>"
  have dist: "distinct (tasks_of d')" using Suc.prems by (auto simp: tasks_of_def d'_def)
  have dir: "d_direct d' = (if up then DIRECT_UP else DIRECT_DOWN)" by (simp add: d'_def)
  show ?case
  proof (cases "lo = [] \<and> hi = []")
    case True
    then show ?thesis using fin by (simp add: DIRECT_UP_def DIRECT_DOWN_def split: if_splits)
  next
    case False
    show ?thesis
    proof (cases up)
      case True
      with False obtain h hs where hi: "hi = h # hs" unfolding up_def by (cases hi) (auto split: if_splits)
      have "served n d' (r_task h) = r_task h # map r_task (hs @ rev lo)"
        using Suc.IH [of d' lo h hs] Suc.prems dist True dir by (simp add: d'_def hi)
      moreover have "finish d (r_task r) = Some (d', Some (r_task h))"
        using fin True by (simp add: hi d'_def flip: up_def)
      ultimately show ?thesis using True by (auto simp: hi up_def split: if_splits)
    next
      case dn: False
      with False obtain l ls where lo: "lo = ls @ [l]" unfolding up_def
        by (cases lo rule: rev_cases) (auto split: if_splits)
      have "served n d' (r_task l) = r_task l # map r_task (rev ls @ hi)"
        using Suc.IH [of d' ls l hi] Suc.prems dist dn dir
        by (simp add: d'_def lo DIRECT_UP_def DIRECT_DOWN_def)
      moreover have "finish d (r_task r) = Some (d', Some (r_task l))"
        using fin dn by (simp add: lo d'_def flip: up_def)
      ultimately show ?thesis using dn by (auto simp: lo up_def split: if_splits)
    qed
  qed
qed simp

text \<open>
  The elevator: when nothing more arrives, the requests behind the running one in the direction
  of travel are served in the order of their sectors, then the rest on the way back. Every queued
  request is served, each once.
\<close>
lemma elevator_order:
  assumes "disk_reach (d, Some (r_task r))" "d_requests d = lo @ r # hi"
  shows "served (length (d_requests d)) d (r_task r) = r_task r #
      (if d_direct d = DIRECT_UP then map r_task (hi @ rev lo) else map r_task (rev lo @ hi)) \<and>
    sorted (map request_key (lo @ r # hi))"
proof -
  have "distinct (tasks_of d)" "sorted (map request_key (lo @ r # hi))"
    using disk_reach_ok [OF assms(1)] assms(2) by (auto simp: disk_ok_def)
  with served_sweep [OF assms(2), of "length (d_requests d)"] show ?thesis by (simp add: assms(2) del: served.simps)
qed

lemma elevator_order_witness:
  "served (length (d_requests demo_disk)) demo_disk (r_task (demo_request 8 2)) = r_task (demo_request 8 2) #
      (if d_direct demo_disk = DIRECT_UP then map r_task ([demo_request 12 3] @ rev [demo_request 4 1])
       else map r_task (rev [demo_request 4 1] @ [demo_request 12 3])) \<and>
    sorted (map request_key ([demo_request 4 1] @ demo_request 8 2 # [demo_request 12 3]))"
proof (rule elevator_order)
  show "disk_reach (demo_disk, Some (r_task (demo_request 8 2)))"
    using demo_disk_reach by (simp add: demo_request_def)
qed (simp add: demo_disk_def)

section \<open>The queue inside device_request\<close>

text \<open>
  What the two halves of \<open>device_request\<close> do to the queue they work on is \<open>arrive\<close> and
  \<open>finish\<close>, provided the driver leaves the queue alone (drivers act on \<open>dv_io\<close> only).
\<close>

lemma device_list_io [simp]: "device_list (s\<lparr>dv_io := x\<rparr>) = device_list s"
  by simp

lemma device_read_keeps: "device_read s dev bf c i f = Some (r, s') \<Longrightarrow>
    device_list s' = device_list s \<and> dv_kern s' = dv_kern s"
  by (auto simp: device_read_def split: if_splits option.splits elim!: bind_eq_SomeE)

lemma device_write_keeps: "device_write s dev bf c i f = Some (r, s') \<Longrightarrow>
    device_list s' = device_list s \<and> dv_kern s' = dv_kern s"
  by (auto simp: device_write_def split: if_splits option.splits elim!: bind_eq_SomeE)

lemma do_request_keeps: "do_request s r = Some s' \<Longrightarrow>
    device_list s' = device_list s \<and> dv_kern s' = dv_kern s"
  by (auto simp: do_request_def split: if_splits elim!: bind_eq_SomeE
      dest: device_read_keeps device_write_keeps)

lemma request_queue_of_kern: "request_queue_of s dev = Some (q, s') \<Longrightarrow> dv_kern s' = dv_kern s"
  by (auto simp: request_queue_of_def put_device_def Let_def split: if_splits elim!: bind_eq_SomeE)

lemma device_request_enter_arrives:
  assumes "device_request_enter resume s dev bf count idx flg ty = Some (q, req, waits, s')"
  shows "\<exists>d d'. q < length (device_list s') \<and> (waits \<longleftrightarrow> d_requests d \<noteq> []) \<and>
     r_task req = cur (dv_kern s) \<and> device_list s' ! q = d' \<and>
     (\<forall>a. fst (arrive (d, a) req) = d')"
proof -
  obtain q1 s1 d where b: "request_queue_of s dev = Some (q1, s1)" "aget (device_list s1) q1 = Some d"
    using assms by (auto simp: device_request_enter_def elim!: bind_eq_SomeE)
  then have "dv_kern s1 = dv_kern s" using request_queue_of_kern by blast
  with assms b show ?thesis
    by (auto simp: device_request_enter_def put_device_def arrive_def Let_def
        split: if_splits elim!: bind_eq_SomeE dest!: aget_SomeD)
qed

lemma device_request_finish_finishes:
  assumes "device_request_finish s q req = Some s'"
  shows "\<exists>d' a'. q < length (device_list s) \<and> finish (device_list s ! q) (r_task req) = Some (d', a') \<and>
     device_list s' = (device_list s)[q := d'] \<and>
     (case a' of None \<Rightarrow> dv_kern s' = dv_kern s
      | Some t \<Rightarrow> task_intr_unblock_no_waiting_list (dv_kern s) t = Some (dv_kern s'))"
proof -
  obtain s1 d0 nx d1 d2 where b: "do_request s req = Some s1" "aget (device_list s1) q = Some d0"
      "request_nextreq d0 (r_task req) = Some (nx, d1)" "drop_request d1 (r_task req) = Some d2"
    and rest: "(case nx of None \<Rightarrow> Some (put_device s1 q d2)
       | Some nx \<Rightarrow> do {
         t \<leftarrow> task_at (dv_kern (put_device s1 q d2)) (r_task nx);
         kassert (t_magic t = LIGHTOS_MAGIC);
         k \<leftarrow> task_intr_unblock_no_waiting_list (dv_kern (put_device s1 q d2)) (r_task nx);
         Some ((put_device s1 q d2)\<lparr>dv_kern := k\<rparr>) }) = Some s'"
    using assms by (auto simp: device_request_finish_def Let_def elim!: bind_eq_SomeE)
  have k: "device_list s1 = device_list s" "dv_kern s1 = dv_kern s" using do_request_keeps [OF b(1)] by auto
  have f: "finish (device_list s ! q) (r_task req) = Some (d2, map_option r_task nx)"
    using b k by (auto simp: finish_def dest!: aget_SomeD)
  then show ?thesis
    using rest b(2) k by (cases nx) (auto simp: put_device_def split: if_splits elim!: bind_eq_SomeE dest!: aget_SomeD)
qed

section \<open>The contract of a block driver\<close>

text \<open>A root disk with these driver functions and an empty queue.\<close>

definition block_dev :: "'s driver \<Rightarrow> 's driver \<Rightarrow> 's devs \<Rightarrow> u32 \<Rightarrow> bool" where
  "block_dev rd wr s dev \<longleftrightarrow> unat dev < DEVICE_NR \<and> length (device_list s) = DEVICE_NR \<and>
     (let d = device_list s ! unat dev in d_type d \<noteq> DEV_NULL \<and> d_parent d = 0 \<and> d_requests d = [] \<and>
        d_read d = Some rd \<and> d_write d = Some wr)"

definition dev_ptr :: "'s devs \<Rightarrow> u32 \<Rightarrow> u32" where
  "dev_ptr s dev = d_ptr (device_list s ! unat dev)"

lemma request_on_idle_disk:
  assumes "block_dev rd wr s dev" "bf \<noteq> 0" "count \<noteq> 0" "ty = REQUEST_READ \<or> ty = REQUEST_WRITE"
    and "(if ty = REQUEST_READ then rd else wr) (dev_ptr s dev) bf (ucast count) idx flg (dv_io s) = Some (r, io)"
  shows "\<exists>q req s1 s2. device_request_enter resume s dev bf count idx flg ty = Some (q, req, False, s1) \<and>
     device_request_finish s1 q req = Some s2 \<and> dv_io s2 = io \<and> dv_kern s2 = dv_kern s \<and>
     (\<forall>x. dev_ptr s2 x = dev_ptr s x) \<and> (\<forall>rd wr x. block_dev rd wr s x \<longrightarrow> block_dev rd wr s2 x)"
proof -
  define d where "d = device_list s ! unat dev"
  have dev: "unat dev < length (device_list s)" "unat dev < DEVICE_NR" "d_type d \<noteq> DEV_NULL"
      "d_parent d = 0" "d_requests d = []" "d_read d = Some rd" "d_write d = Some wr"
    using assms(1) by (auto simp: block_dev_def d_def Let_def)
  define req where "req = \<lparr>r_dev = dev, r_type = ty, r_idx = idx, r_count = ucast count, r_flags = flg,
      r_buf = bf, r_task = cur (dv_kern s)\<rparr>"
  define d1 where "d1 = d\<lparr>d_type := DEV_BLOCK, d_requests := [req]\<rparr>"
  define s1 where "s1 = s\<lparr>device_list := (device_list s)[unat dev := d1]\<rparr>"
  define s2 where "s2 = s1\<lparr>dv_io := io, device_list := (device_list s)[unat dev := d1\<lparr>
      d_direct := (if d_direct d = DIRECT_UP then DIRECT_DOWN else DIRECT_UP), d_requests := []\<rparr>]\<rparr>"
  have c0: "(ucast count :: u32) \<noteq> 0" using assms(3) by (transfer) simp
  have get: "device_get s dev = Some d" using dev by (simp add: device_get_def d_def)
  have enter: "device_request_enter resume s dev bf count idx flg ty = Some (unat dev, req, False, s1)"
    using dev by (simp add: device_request_enter_def request_queue_of_def get put_device_def Let_def
        DEV_BLOCK_def req_def s1_def d1_def insert_request_def)
  have get1: "device_get s1 dev = Some d1"
    using dev by (simp add: device_get_def s1_def d1_def DEV_BLOCK_def DEV_NULL_def)
  have io1: "dv_io s1 = dv_io s" "device_list s1 = (device_list s)[unat dev := d1]" by (simp_all add: s1_def)
  have d1: "d_ptr d1 = dev_ptr s dev" "d_read d1 = Some rd" "d_write d1 = Some wr" "d_requests d1 = [req]"
      "d_direct d1 = d_direct d"
    using dev by (simp_all add: d1_def dev_ptr_def d_def)
  have req: "r_type req = ty" "r_dev req = dev" "r_buf req = bf" "r_count req = ucast count"
      "r_idx req = idx" "r_flags req = flg"
    by (simp_all add: req_def)
  have "do_request s1 req = Some (s1\<lparr>dv_io := io\<rparr>)"
    using assms(2,4,5) c0
    by (auto simp: do_request_def req device_read_def device_write_def get1 d1 io1 REQUEST_READ_def REQUEST_WRITE_def)
  then have finish: "device_request_finish s1 (unat dev) req = Some s2"
    using dev by (simp add: device_request_finish_def io1 request_nextreq_def drop_request_def d1 put_device_def s2_def
        s1_def Let_def DIRECT_UP_def DIRECT_DOWN_def)
  have eff: "dv_io s2 = io" "dv_kern s2 = dv_kern s" "\<forall>x. dev_ptr s2 x = dev_ptr s x"
      "\<forall>rd wr x. block_dev rd wr s x \<longrightarrow> block_dev rd wr s2 x"
    using dev by (auto simp: s2_def s1_def dev_ptr_def d1_def d_def block_dev_def Let_def nth_list_update
        DEV_BLOCK_def DEV_NULL_def)
  show ?thesis using enter finish eff by blast
qed

text \<open>
  What a disk driver promises for transfers of one kilobyte block: reading brings the block into
  the buffer and changes no other buffer and no block, writing brings the buffer into the block and
  changes no other block and no buffer.
\<close>

locale block_driver =
  fixes rd wr :: "'s driver"
    and io_buf :: "'s \<Rightarrow> u32 \<Rightarrow> u8 list"
    and io_disk :: "'s \<Rightarrow> u32 \<Rightarrow> u32 \<Rightarrow> u8 list"
    and ok_buf :: "u32 \<Rightarrow> bool"
    and ok_blk :: "u32 \<Rightarrow> u32 \<Rightarrow> bool"
  assumes buf_nonnull: "ok_buf b \<Longrightarrow> b \<noteq> 0"
    and read_law: "ok_buf b \<Longrightarrow> ok_blk p k \<Longrightarrow> \<exists>r m'. rd p b 2 (k * 2) 0 m = Some (r, m') \<and>
      io_buf m' b = io_disk m p k \<and>
      (\<forall>b'. ok_buf b' \<longrightarrow> b' \<noteq> b \<longrightarrow> io_buf m' b' = io_buf m b') \<and>
      (\<forall>p' k'. ok_blk p' k' \<longrightarrow> io_disk m' p' k' = io_disk m p' k')"
    and write_law: "ok_buf b \<Longrightarrow> ok_blk p k \<Longrightarrow> \<exists>r m'. wr p b 2 (k * 2) 0 m = Some (r, m') \<and>
      io_disk m' p k = io_buf m b \<and>
      (\<forall>b'. ok_buf b' \<longrightarrow> io_buf m' b' = io_buf m b') \<and>
      (\<forall>p' k'. ok_blk p' k' \<longrightarrow> (p', k') \<noteq> (p, k) \<longrightarrow> io_disk m' p' k' = io_disk m p' k')"

section \<open>RAM disks keep the contract\<close>

text \<open>
  Kilobytes of memory by number; the buffers of the cache are kilobytes of the cache region, the
  blocks of the disks kilobytes of the RAM disk region. The very last one cannot be reached: the bound
  check of the driver refuses a transfer that ends where the region ends.
\<close>

definition kilobyte :: "mem \<Rightarrow> u32 \<Rightarrow> u8 list" where
  "kilobyte m p = bytes_at m p 1024"

definition cache_buffer :: "u32 \<Rightarrow> bool" where
  "cache_buffer b \<longleftrightarrow> (\<exists>a. b = of_nat (1024 * a) \<and> 0x302000 \<le> a \<and> a < 0x303000)"

definition ramdisk_block :: "u32 \<Rightarrow> u32 \<Rightarrow> u32" where
  "ramdisk_block p k = KERNEL_RAMDISK_VADDR + 0x100000 * p + 1024 * k"

definition ramdisk_has :: "u32 \<Rightarrow> u32 \<Rightarrow> bool" where
  "ramdisk_has p k \<longleftrightarrow> p < 4 \<and> k < 1024 \<and> (p, k) \<noteq> (3, 1023)"

lemma region_kilobyte:
  assumes "a < 2 ^ 22"
  shows "region (of_nat (1024 * a)) 1024 = {y. unat y div 1024 = a}"
proof (intro set_eqI iffI)
  fix y :: u32 assume "y \<in> region (of_nat (1024 * a)) 1024"
  then obtain i where i: "i < 1024" "y = of_nat (1024 * a) + of_nat i" by (auto simp: region_iff)
  then have "y = of_nat (1024 * a + i)" by simp
  moreover have "1024 * a + i < 2 ^ LENGTH(32)" using i(1) assms by simp
  ultimately have "unat y = 1024 * a + i" by (simp only: unat_of_nat_less)
  then show "y \<in> {y. unat y div 1024 = a}" using i(1) by simp
next
  fix y :: u32 assume "y \<in> {y. unat y div 1024 = a}"
  then have "unat y = 1024 * a + unat y mod 1024" by (metis mem_Collect_eq mult_div_mod_eq)
  then have "y = of_nat (1024 * a) + of_nat (unat y mod 1024)"
    by (metis of_nat_add word_of_nat_unat)
  then show "y \<in> region (of_nat (1024 * a)) 1024" unfolding region_iff by (meson mod_less_divisor zero_less_numeral)
qed

lemma kilobytes_disjoint:
  assumes "a < 2 ^ 22" "b < 2 ^ 22" "a \<noteq> b"
  shows "region (of_nat (1024 * a)) 1024 \<inter> region (of_nat (1024 * b)) 1024 = {}"
  unfolding region_kilobyte [OF assms(1)] region_kilobyte [OF assms(2)] using assms(3) by blast

lemma copy_kilobyte:
  assumes "a < 2 ^ 22" "b < 2 ^ 22" "a \<noteq> b"
    and m'_def: "m' = snd (memcpy m (of_nat (1024 * a)) (of_nat (1024 * b)) 1024)"
  shows "kilobyte m' (of_nat (1024 * a)) = kilobyte m (of_nat (1024 * b))"
    and "c < 2 ^ 22 \<Longrightarrow> c \<noteq> a \<Longrightarrow> kilobyte m' (of_nat (1024 * c)) = kilobyte m (of_nat (1024 * c))"
proof -
  have u: "unat (1024 :: u32) = 1024" by simp
  have spec: "bytes_at m' (of_nat (1024 * a)) 1024 = bytes_at m (of_nat (1024 * b)) 1024 \<and>
      (\<forall>x. x \<notin> region (of_nat (1024 * a)) 1024 \<longrightarrow> m' x = m x)"
    using memcpy_loop_spec [of "of_nat (1024 * a)" 1024 "of_nat (1024 * b)" m] kilobytes_disjoint [OF assms(1-3)]
    by (simp add: m'_def memcpy_def u del: region.simps bytes_at.simps of_nat_mult)
  then show "kilobyte m' (of_nat (1024 * a)) = kilobyte m (of_nat (1024 * b))"
    by (simp add: kilobyte_def)
  show "kilobyte m' (of_nat (1024 * c)) = kilobyte m (of_nat (1024 * c))" if "c < 2 ^ 22" "c \<noteq> a"
    unfolding kilobyte_def
    using spec kilobytes_disjoint [OF that(1) assms(1) that(2)] by (intro bytes_at_frame) blast
qed

lemma ramdisk_block_kilobyte:
  assumes "ramdisk_has p k"
  shows "ramdisk_block p k = of_nat (1024 * (0x303000 + 1024 * unat p + unat k))"
  by (simp add: ramdisk_block_def KERNEL_RAMDISK_VADDR_def algebra_simps)

lemma ramdisk_at:
  assumes "ramdisk_has p k"
  shows "aget ramdisks (unat p) = Some \<lparr>rd_start = KERNEL_RAMDISK_VADDR + 0x100000 * p, rd_size = 0x100000\<rparr>"
proof -
  have "p \<in> {0, 1, 2, 3}"
  proof -
    have "unat p < 4" using assms by (simp add: ramdisk_has_def word_less_nat_alt)
    then have "unat p = 0 \<or> unat p = 1 \<or> unat p = 2 \<or> unat p = 3" by arith
    then show ?thesis by (auto simp: word_unat_eq_iff)
  qed
  moreover have "\<forall>p \<in> {0, 1, 2, 3}. aget ramdisks (unat p) =
      Some \<lparr>rd_start = KERNEL_RAMDISK_VADDR + 0x100000 * p, rd_size = 0x100000\<rparr>"
    by code_simp
  ultimately show ?thesis by blast
qed

lemma last_kilobyte:
  assumes "(p :: nat) < 4" "k < 1024" "\<not> (p = 3 \<and> k = 1023)"
  shows "1024 * (0x303000 + 1024 * p + k) + 1024 < 0xC1000000"
proof -
  have "1024 * p + k + 1 < 4096" using assms by arith
  then have "1024 * (1024 * p + k + 1) < 1024 * 4096" by simp
  then show ?thesis by (simp add: algebra_simps)
qed

lemma ramdisk_in_range:
  assumes "ramdisk_has p k"
  shows "\<not> ramdisk_block p k + 1024 \<ge> KERNEL_RAMDISK_VADDR + KERNEL_RAMDISK_SIZE"
proof -
  have b: "unat p < 4" "unat k < 1024"
    using assms by (auto simp: ramdisk_has_def word_less_nat_alt)
  have "\<not> (unat p = 3 \<and> unat k = 1023)"
  proof
    assume "unat p = 3 \<and> unat k = 1023"
    then have "p = 3 \<and> k = 1023" by (metis word_of_nat_unat of_nat_numeral)
    then show False using assms by (simp add: ramdisk_has_def)
  qed
  then have lt: "1024 * (0x303000 + 1024 * unat p + unat k) + 1024 < 0xC1000000"
    using b last_kilobyte by blast
  have "ramdisk_block p k + 1024 = of_nat (1024 * (0x303000 + 1024 * unat p + unat k) + 1024)"
    unfolding ramdisk_block_kilobyte [OF assms] by simp
  moreover have "unat (of_nat (1024 * (0x303000 + 1024 * unat p + unat k) + 1024) :: u32) =
      1024 * (0x303000 + 1024 * unat p + unat k) + 1024"
    by (rule unat_of_nat_less) (rule order.strict_trans [OF lt], simp)
  ultimately have "unat (ramdisk_block p k + 1024) < 0xC1000000" using lt by (simp only:)
  then show ?thesis by (simp add: word_le_nat_alt KERNEL_RAMDISK_VADDR_def KERNEL_RAMDISK_SIZE_def)
qed

lemma ramdisk_addr: "rd_start \<lparr>rd_start = KERNEL_RAMDISK_VADDR + 0x100000 * p, rd_size = z\<rparr> +
    k * 2 * SECTOR_SIZE = ramdisk_block p k"
  by (simp add: ramdisk_block_def SECTOR_SIZE_def)

lemma ramdisk_read_eq:
  assumes "ramdisk_has p k"
  shows "ramdisk_read ramdisks p b 2 (k * 2) f m = Some (2, snd (memcpy m b (ramdisk_block p k) 1024))"
  using ramdisk_in_range [OF assms]
  by (simp add: ramdisk_read_def ramdisk_at [OF assms] Let_def SECTOR_SIZE_def ramdisk_block_def)

lemma ramdisk_write_eq:
  assumes "ramdisk_has p k"
  shows "ramdisk_write ramdisks p b 2 (k * 2) f m = Some (2, snd (memcpy m (ramdisk_block p k) b 1024))"
  using ramdisk_in_range [OF assms]
  by (simp add: ramdisk_write_def ramdisk_at [OF assms] Let_def SECTOR_SIZE_def ramdisk_block_def)

lemma ramdisk_block_number:
  assumes "ramdisk_has p k"
  shows "\<exists>a. ramdisk_block p k = of_nat (1024 * a) \<and> 0x303000 \<le> a \<and> a < 2 ^ 22 \<and>
     a = 0x303000 + 1024 * unat p + unat k"
proof -
  have "unat p < 4" "unat k < 1024" using assms by (auto simp: ramdisk_has_def word_less_nat_alt)
  then have "0x303000 + 1024 * unat p + unat k < 2 ^ 22" by simp
  then show ?thesis using ramdisk_block_kilobyte [OF assms] by auto
qed

lemma ramdisk_block_inj:
  assumes "ramdisk_has p k" "ramdisk_has p' k'" "1024 * unat p + unat k = 1024 * unat p' + unat k'"
  shows "p = p' \<and> k = k'"
proof -
  have "unat k < 1024" "unat k' < 1024" using assms by (auto simp: ramdisk_has_def word_less_nat_alt)
  then have "(1024 * unat p + unat k) div 1024 = unat p" "(1024 * unat p' + unat k') div 1024 = unat p'"
    by simp_all
  then have "unat p = unat p'" using assms(3) by metis
  moreover have "unat k = unat k'" using assms(3) calculation by simp
  ultimately have "unat p = unat p' \<and> unat k = unat k'" ..
  then show ?thesis by (simp add: word_unat_eq_iff)
qed

interpretation ramdisk: block_driver "ramdisk_read ramdisks" "ramdisk_write ramdisks" kilobyte
    "\<lambda>m p k. kilobyte m (ramdisk_block p k)" cache_buffer ramdisk_has
proof unfold_locales
  fix b assume "cache_buffer b"
  then obtain a where a: "b = of_nat (1024 * a)" "0x302000 \<le> a" "a < 0x303000" by (auto simp: cache_buffer_def)
  then have "unat b = 1024 * a" by (simp only: a(1)) (rule unat_of_nat_less, simp)
  then show "b \<noteq> 0" using a(2) by auto
next
  fix b p k and m :: mem assume h: "cache_buffer b" "ramdisk_has p k"
  obtain a where a: "b = of_nat (1024 * a)" "0x302000 \<le> a" "a < 0x303000" "a < 2 ^ 22"
    using h(1) by (auto simp: cache_buffer_def)
  obtain c where c: "ramdisk_block p k = of_nat (1024 * c)" "0x303000 \<le> c" "c < 2 ^ 22"
    using ramdisk_block_number [OF h(2)] by blast
  define m' where "m' = snd (memcpy m b (ramdisk_block p k) 1024)"
  note copy = copy_kilobyte [OF a(4) c(3) _ m'_def [unfolded a(1) c(1)]]
  have ac: "a \<noteq> c" using a c by simp
  have "kilobyte m' b' = kilobyte m b'" if b': "cache_buffer b'" "b' \<noteq> b" for b'
  proof -
    obtain x where "b' = of_nat (1024 * x)" "x < 0x303000" using b'(1) by (auto simp: cache_buffer_def)
    then show ?thesis using copy(2) [OF ac, of x] b'(2) a by auto
  qed
  moreover have "kilobyte m' (ramdisk_block p' k') = kilobyte m (ramdisk_block p' k')" if b': "ramdisk_has p' k'" for p' k'
  proof -
    obtain x where "ramdisk_block p' k' = of_nat (1024 * x)" "0x303000 \<le> x" "x < 2 ^ 22"
      using ramdisk_block_number [OF b'] by blast
    then show ?thesis using copy(2) [OF ac, of x] a by auto
  qed
  ultimately show "\<exists>r m'. ramdisk_read ramdisks p b 2 (k * 2) 0 m = Some (r, m') \<and>
      kilobyte m' b = kilobyte m (ramdisk_block p k) \<and>
      (\<forall>b'. cache_buffer b' \<longrightarrow> b' \<noteq> b \<longrightarrow> kilobyte m' b' = kilobyte m b') \<and>
      (\<forall>p' k'. ramdisk_has p' k' \<longrightarrow> kilobyte m' (ramdisk_block p' k') = kilobyte m (ramdisk_block p' k'))"
    using ramdisk_read_eq [OF h(2), of b 0 m] copy(1) [OF ac] by (auto simp: m'_def a(1) c(1))
next
  fix b p k and m :: mem assume h: "cache_buffer b" "ramdisk_has p k"
  obtain a where a: "b = of_nat (1024 * a)" "0x302000 \<le> a" "a < 0x303000" "a < 2 ^ 22"
    using h(1) by (auto simp: cache_buffer_def)
  obtain c where c: "ramdisk_block p k = of_nat (1024 * c)" "0x303000 \<le> c" "c < 2 ^ 22"
      "c = 0x303000 + 1024 * unat p + unat k"
    using ramdisk_block_number [OF h(2)] by blast
  define m' where "m' = snd (memcpy m (ramdisk_block p k) b 1024)"
  note copy = copy_kilobyte [OF c(3) a(4) _ m'_def [unfolded a(1) c(1)]]
  have ac: "c \<noteq> a" using a c by simp
  have "kilobyte m' b' = kilobyte m b'" if b': "cache_buffer b'" for b'
  proof -
    obtain x where "b' = of_nat (1024 * x)" "x < 0x303000" using b' by (auto simp: cache_buffer_def)
    then show ?thesis using copy(2) [OF ac, of x] c by auto
  qed
  moreover have "kilobyte m' (ramdisk_block p' k') = kilobyte m (ramdisk_block p' k')"
    if b': "ramdisk_has p' k'" "(p', k') \<noteq> (p, k)" for p' k'
  proof -
    obtain x where x: "ramdisk_block p' k' = of_nat (1024 * x)" "0x303000 \<le> x" "x < 2 ^ 22"
        "x = 0x303000 + 1024 * unat p' + unat k'"
      using ramdisk_block_number [OF b'(1)] by blast
    have "x \<noteq> c" using ramdisk_block_inj [OF b'(1) h(2)] b'(2) x(4) c(4) by auto
    then show ?thesis using copy(2) [OF ac, of x] x by auto
  qed
  ultimately show "\<exists>r m'. ramdisk_write ramdisks p b 2 (k * 2) 0 m = Some (r, m') \<and>
      kilobyte m' (ramdisk_block p k) = kilobyte m b \<and>
      (\<forall>b'. cache_buffer b' \<longrightarrow> kilobyte m' b' = kilobyte m b') \<and>
      (\<forall>p' k'. ramdisk_has p' k' \<longrightarrow> (p', k') \<noteq> (p, k) \<longrightarrow>
        kilobyte m' (ramdisk_block p' k') = kilobyte m (ramdisk_block p' k'))"
    using ramdisk_write_eq [OF h(2), of b 0 m] copy(1) [OF ac] by (auto simp: m'_def a(1) c(1))
qed

end
