(* ===== verification/Cache.thy ===== *)
theory Cache
  imports Device
begin

text \<open>
  \<^verbatim>\<open>src/kernel/cache.c\<close>: the block cache. A cache structure is named by its index in the array
  that grows from \<open>KERNEL_PAGE_CACHE_VADDR\<close>, its kilobyte of data lies in the area that grows down
  from the end of the region, and both are handed out one at a time until they meet. \<open>free_list\<close> and
  the chains of \<open>hash_table\<close> are lists of indices, front first.

  An operation may put its caller to sleep: on the wait list when no buffer is free, on the disk queue
  when another request is running. It then returns \<open>Inr ()\<close>, and the process goes on later (for
  \<open>getblk\<close> at \<open>getblk_resume\<close>). The lock that \<open>bread\<close> takes around the transfer is free in a run
  that does not sleep; contention for it is the subject of theory Mutex.

  Shown: without sleeping, the cache is transparent. Whatever is cached or evicted, \<open>bread\<close> returns a
  buffer with the present contents of the block, and writing a buffer back changes that block only.
\<close>

section \<open>Definitions\<close>

definition HASH_COUNT :: u32 where "HASH_COUNT = 101"
definition KERNEL_PAGE_CACHE_VADDR :: u32 where "KERNEL_PAGE_CACHE_VADDR = 0xC0800000"
definition KERNEL_PAGE_CAHCE_SIZE :: u32 where "KERNEL_PAGE_CAHCE_SIZE = 0x400000"
definition BLOCK_SIZE :: u32 where "BLOCK_SIZE = SECTOR_SIZE * 2"
definition BLOCK_SECS :: u8 where "BLOCK_SECS = 2"

text \<open>The size of \<^verbatim>\<open>cache_t\<close> on the 32-bit target.\<close>

definition sizeof_cache :: u32 where "sizeof_cache = 56"

record cache =
  c_data :: u32
  c_dev :: u32
  c_block :: u32
  c_count :: int
  c_dirty :: bool
  c_valid :: bool

record 's cachest =
  cs_devs :: "'s devs"
  caches :: "cache list"
  cache_ptr :: u32
  cache_data :: u32
  free_list :: "nat list"
  wait_list :: u32
  hash_table :: "nat list list"

definition put_cache :: "'s cachest \<Rightarrow> nat \<Rightarrow> cache \<Rightarrow> 's cachest" where
  "put_cache s i c = s\<lparr>caches := (caches s)[i := c]\<rparr>"

definition hash :: "u32 \<Rightarrow> u32 \<Rightarrow> nat" where
  "hash dev block = unat ((dev XOR block) mod HASH_COUNT)"

text \<open>The first cache of a chain that has the device and the block.\<close>

fun chain_find :: "cache list \<Rightarrow> nat list \<Rightarrow> u32 \<Rightarrow> u32 \<Rightarrow> nat option" where
  "chain_find cs [] dev block = None"
| "chain_find cs (i # is) dev block =
     (if c_dev (cs ! i) = dev \<and> c_block (cs ! i) = block then Some i else chain_find cs is dev block)"

definition get_from_hash_table :: "'s cachest \<Rightarrow> u32 \<Rightarrow> u32 \<Rightarrow> nat option \<times> 's cachest" where
  "get_from_hash_table s dev block =
     (case chain_find (caches s) (hash_table s ! hash dev block) dev block of
        None \<Rightarrow> (None, s)
      | Some i \<Rightarrow> (Some i, if i \<in> set (free_list s) then s\<lparr>free_list := remove1 i (free_list s)\<rparr> else s))"

definition hash_locate :: "'s cachest \<Rightarrow> nat \<Rightarrow> 's cachest option" where
  "hash_locate s i = do {
     c \<leftarrow> aget (caches s) i;
     let h = hash (c_dev c) (c_block c);
     kassert (i \<notin> set (hash_table s ! h));
     Some (s\<lparr>hash_table := (hash_table s)[h := i # hash_table s ! h]\<rparr>) }"

definition hash_remove :: "'s cachest \<Rightarrow> nat \<Rightarrow> 's cachest option" where
  "hash_remove s i = do {
     c \<leftarrow> aget (caches s) i;
     let h = hash (c_dev c) (c_block c);
     kassert (i \<in> set (hash_table s ! h));
     Some (s\<lparr>hash_table := (hash_table s)[h := remove1 i (hash_table s ! h)]\<rparr>) }"

definition get_new_cache :: "'s cachest \<Rightarrow> (nat \<times> 's cachest) option" where
  "get_new_cache s =
     (if cache_ptr s + sizeof_cache < cache_data s
      then Some (length (caches s),
        s\<lparr>caches := caches s @ [\<lparr>c_data = cache_data s, c_dev = EOF, c_block = 0, c_count = 0,
                                 c_dirty = False, c_valid = False\<rparr>],
          cache_ptr := cache_ptr s + sizeof_cache, cache_data := cache_data s - BLOCK_SIZE\<rparr>)
      else None)"

text \<open>One pass of the loop of \<open>get_free_cache\<close>.\<close>

definition get_free_cache :: "u32 \<Rightarrow> 's cachest \<Rightarrow> ((nat + unit) \<times> 's cachest) option" where
  "get_free_cache resume s = (case get_new_cache s of
       Some (i, s) \<Rightarrow> Some (Inl i, s)
     | None \<Rightarrow>
        (if free_list s \<noteq> []
         then do {
           let i = last (free_list s);
           s \<leftarrow> hash_remove (s\<lparr>free_list := butlast (free_list s)\<rparr>) i;
           c \<leftarrow> aget (caches s) i;
           Some (Inl i, put_cache s i (c\<lparr>c_valid := False\<rparr>)) }
         else do {
           let k = dv_kern (cs_devs s);
           k \<leftarrow> task_block resume k (cur k) (Some (wait_list s)) TASK_BLOCKED;
           Some (Inr (), s\<lparr>cs_devs := (cs_devs s)\<lparr>dv_kern := k\<rparr>\<rparr>) }))"

text \<open>The second half of \<open>getblk\<close>, entered anew when the sleeper in \<open>get_free_cache\<close> is woken.\<close>

definition getblk_resume :: "u32 \<Rightarrow> 's cachest \<Rightarrow> u32 \<Rightarrow> u32 \<Rightarrow> ((nat + unit) \<times> 's cachest) option" where
  "getblk_resume resume s dev block = do {
     (r, s) \<leftarrow> get_free_cache resume s;
     case r of
       Inr u \<Rightarrow> Some (Inr u, s)
     | Inl i \<Rightarrow> do {
         c \<leftarrow> aget (caches s) i;
         kassert (c_count c = 0);
         kassert (\<not> c_dirty c);
         let s = put_cache s i (c\<lparr>c_count := 1, c_dev := dev, c_block := block\<rparr>);
         s \<leftarrow> hash_locate s i;
         Some (Inl i, s) } }"

definition getblk :: "u32 \<Rightarrow> 's cachest \<Rightarrow> u32 \<Rightarrow> u32 \<Rightarrow> ((nat + unit) \<times> 's cachest) option" where
  "getblk resume s dev block = (case get_from_hash_table s dev block of
       (Some i, s) \<Rightarrow> do {
          c \<leftarrow> aget (caches s) i;
          Some (Inl i, put_cache s i (c\<lparr>c_count := c_count c + 1\<rparr>)) }
     | (None, s) \<Rightarrow> getblk_resume resume s dev block)"

text \<open>A whole block transfer; \<open>Inr ()\<close> when the disk is busy and the caller now sleeps in its queue.\<close>

definition block_request :: "u32 \<Rightarrow> 's cachest \<Rightarrow> cache \<Rightarrow> u32 \<Rightarrow> ((unit + unit) \<times> 's cachest) option" where
  "block_request resume s c ty = do {
     (q, req, waits, d) \<leftarrow> device_request_enter resume (cs_devs s) (c_dev c) (c_data c) BLOCK_SECS
        (c_block c * ucast BLOCK_SECS) 0 ty;
     if waits then Some (Inr (), s\<lparr>cs_devs := d\<rparr>)
     else do { d \<leftarrow> device_request_finish d q req; Some (Inl (), s\<lparr>cs_devs := d\<rparr>) } }"

definition bread :: "u32 \<Rightarrow> 's cachest \<Rightarrow> u32 \<Rightarrow> u32 \<Rightarrow> ((nat + unit) \<times> 's cachest) option" where
  "bread resume s dev block = do {
     (r, s) \<leftarrow> getblk resume s dev block;
     case r of
       Inr u \<Rightarrow> Some (Inr u, s)
     | Inl i \<Rightarrow> do {
         c \<leftarrow> aget (caches s) i;
         if c_valid c then Some (Inl i, s)
         else do {
           (r, s) \<leftarrow> block_request resume s c REQUEST_READ;
           case r of
             Inr u \<Rightarrow> Some (Inr u, s)
           | Inl _ \<Rightarrow> do {
               c \<leftarrow> aget (caches s) i;
               Some (Inl i, put_cache s i (c\<lparr>c_dirty := False, c_valid := True\<rparr>)) } } } }"

definition bwrite :: "u32 \<Rightarrow> 's cachest \<Rightarrow> nat \<Rightarrow> ((unit + unit) \<times> 's cachest) option" where
  "bwrite resume s i = do {
     c \<leftarrow> aget (caches s) i;
     if \<not> c_dirty c then Some (Inl (), s)
     else do {
       (r, s) \<leftarrow> block_request resume s c REQUEST_WRITE;
       case r of
         Inr u \<Rightarrow> Some (Inr u, s)
       | Inl _ \<Rightarrow> do {
           c \<leftarrow> aget (caches s) i;
           Some (Inl (), put_cache s i (c\<lparr>c_dirty := False, c_valid := True\<rparr>)) } } }"

text \<open>The tail of \<open>brelse\<close>: wake the task that has waited longest for a buffer.\<close>

definition wake_waiter :: "'s cachest \<Rightarrow> 's cachest option" where
  "wake_waiter s = (let k = dv_kern (cs_devs s) in
     case waiting k (wait_list s) of
       [] \<Rightarrow> Some s
     | n # _ \<Rightarrow> do {
         k \<leftarrow> task_intr_unblock_no_waiting_list k n;
         Some (s\<lparr>cs_devs := (cs_devs s)\<lparr>dv_kern := k\<rparr>\<rparr>) })"

definition brelse :: "u32 \<Rightarrow> 's cachest \<Rightarrow> nat option \<Rightarrow> ((unit + unit) \<times> 's cachest) option" where
  "brelse resume s p = (case p of
       None \<Rightarrow> Some (Inl (), s)
     | Some i \<Rightarrow> do {
         c \<leftarrow> aget (caches s) i;
         let s = put_cache s i (c\<lparr>c_count := c_count c - 1\<rparr>);
         kassert (c_count c - 1 \<ge> 0);
         if c_count c - 1 \<noteq> 0 then Some (Inl (), s)
         else do {
           kassert (i \<notin> set (free_list s));
           let s = s\<lparr>free_list := i # free_list s\<rparr>;
           (r, s) \<leftarrow> (if c_dirty c then bwrite resume s i else Some (Inl (), s));
           case r of
             Inr u \<Rightarrow> Some (Inr u, s)
           | Inl _ \<Rightarrow> do { s \<leftarrow> wake_waiter s; Some (Inl (), s) } } })"

definition page_cache_init :: "'s cachest \<Rightarrow> 's cachest" where
  "page_cache_init s = s\<lparr>free_list := [], hash_table := replicate (unat HASH_COUNT) []\<rparr>"

text \<open>The static initialisers of the file.\<close>

definition boot_cache :: "'s devs \<Rightarrow> u32 \<Rightarrow> 's cachest" where
  "boot_cache d w = page_cache_init \<lparr>cs_devs = d, caches = [], cache_ptr = KERNEL_PAGE_CACHE_VADDR,
     cache_data = KERNEL_PAGE_CACHE_VADDR + KERNEL_PAGE_CAHCE_SIZE - BLOCK_SIZE,
     free_list = [], wait_list = w, hash_table = []\<rparr>"

section \<open>Well-formed caches\<close>

text \<open>Where the data of the \<open>i\<close>-th cache lies.\<close>

definition slot_data :: "nat \<Rightarrow> u32" where
  "slot_data i = of_nat (0xC0BFFC00 - 1024 * i)"

abbreviation cached :: "'s cachest \<Rightarrow> nat" where
  "cached s \<equiv> length (caches s)"

abbreviation key_of :: "'s cachest \<Rightarrow> nat \<Rightarrow> u32 \<times> u32" where
  "key_of s i \<equiv> (c_dev (caches s ! i), c_block (caches s ! i))"

text \<open>
  The structure of the cache: every cache is in the chain of its key and in no other, no two caches
  have the same key, the free list holds exactly the unreferenced caches, which are not dirty, and
  data and headers lie where they were handed out. The caches of \<open>X\<close> have been taken out of the
  chains and the free list and not put back yet.
\<close>

definition chains_ok :: "nat set \<Rightarrow> 's cachest \<Rightarrow> bool" where
  "chains_ok X s \<longleftrightarrow> length (hash_table s) = 101 \<and>
     (\<forall>h < 101. distinct (hash_table s ! h) \<and>
        (\<forall>i. i \<in> set (hash_table s ! h) \<longleftrightarrow>
           i < cached s \<and> i \<notin> X \<and> hash (c_dev (caches s ! i)) (c_block (caches s ! i)) = h))"

definition keys_ok :: "nat set \<Rightarrow> 's cachest \<Rightarrow> bool" where
  "keys_ok X s \<longleftrightarrow> inj_on (key_of s) ({..<cached s} - X)"

definition refs_ok :: "nat set \<Rightarrow> 's cachest \<Rightarrow> bool" where
  "refs_ok X s \<longleftrightarrow> distinct (free_list s) \<and>
     (\<forall>i. i \<in> set (free_list s) \<longleftrightarrow> i < cached s \<and> i \<notin> X \<and> c_count (caches s ! i) = 0) \<and>
     (\<forall>i < cached s. 0 \<le> c_count (caches s ! i) \<and> (c_count (caches s ! i) = 0 \<longrightarrow> \<not> c_dirty (caches s ! i)) \<and>
        (i \<in> X \<longrightarrow> c_count (caches s ! i) = 0 \<and> \<not> c_valid (caches s ! i)))"

definition layout_ok :: "'s cachest \<Rightarrow> bool" where
  "layout_ok s \<longleftrightarrow> (\<forall>i < cached s. c_data (caches s ! i) = slot_data i) \<and>
     cached s < 4000 \<and> cache_data s = slot_data (cached s) \<and>
     cache_ptr s = KERNEL_PAGE_CACHE_VADDR + sizeof_cache * of_nat (cached s)"

definition cache_wf :: "nat set \<Rightarrow> 's cachest \<Rightarrow> bool" where
  "cache_wf X s \<longleftrightarrow> chains_ok X s \<and> keys_ok X s \<and> refs_ok X s \<and> layout_ok s"

lemma hash_less [simp]: "hash dev block < 101"
proof -
  have "unat ((dev XOR block) mod HASH_COUNT) = unat (dev XOR block) mod 101"
    by (simp add: unat_mod HASH_COUNT_def)
  then show ?thesis by (simp add: hash_def)
qed

lemma slot_data_unat: "i < 4096 \<Longrightarrow> unat (slot_data i) = 0xC0BFFC00 - 1024 * i"
  unfolding slot_data_def by (rule unat_of_nat_less) simp

lemma slot_data_inj: "i < 4096 \<Longrightarrow> j < 4096 \<Longrightarrow> slot_data i = slot_data j \<Longrightarrow> i = j"
proof -
  assume h: "i < 4096" "j < 4096" "slot_data i = slot_data j"
  then have "0xC0BFFC00 - 1024 * i = 0xC0BFFC00 - 1024 * j" by (metis slot_data_unat)
  then show "i = j" using h(1,2) by arith
qed

text \<open>There is always room for a cache below the 4000th: the two areas meet before.\<close>

lemma cache_room:
  assumes "cache_wf X s" "cache_ptr s + sizeof_cache < cache_data s"
  shows "Suc (cached s) < 4000"
proof (rule ccontr)
  assume "\<not> Suc (cached s) < 4000"
  then have n: "cached s = 3999" using assms(1) by (auto simp: cache_wf_def layout_ok_def)
  have "cache_ptr s = KERNEL_PAGE_CACHE_VADDR + sizeof_cache * 3999" "cache_data s = slot_data 3999"
    using assms(1) n by (auto simp: cache_wf_def layout_ok_def)
  moreover have "\<not> KERNEL_PAGE_CACHE_VADDR + sizeof_cache * 3999 + sizeof_cache < slot_data 3999"
    by (simp add: KERNEL_PAGE_CACHE_VADDR_def sizeof_cache_def slot_data_def)
  ultimately show False using assms(2) by simp
qed

lemma slot_data_step: "i < 4000 \<Longrightarrow> slot_data i - BLOCK_SIZE = slot_data (Suc i)"
proof -
  assume i: "i < 4000"
  have "slot_data i = of_nat (0xC0BFFC00 - 1024 * Suc i) + of_nat 1024"
    unfolding slot_data_def of_nat_add [symmetric] using i by simp
  then show ?thesis by (simp add: slot_data_def BLOCK_SIZE_def SECTOR_SIZE_def)
qed

definition has_room :: "'s cachest \<Rightarrow> bool" where
  "has_room s \<longleftrightarrow> cache_ptr s + sizeof_cache < cache_data s \<or> free_list s \<noteq> []"

text \<open>A lookup in the chain finds the cache with the key, if there is one.\<close>

lemma chain_find_Some: "chain_find cs is dev block = Some i \<Longrightarrow>
    i \<in> set is \<and> c_dev (cs ! i) = dev \<and> c_block (cs ! i) = block"
  by (induction "is") (auto split: if_splits)

lemma chain_find_None: "chain_find cs is dev block = None \<longleftrightarrow>
    (\<forall>i \<in> set is. \<not> (c_dev (cs ! i) = dev \<and> c_block (cs ! i) = block))"
  by (induction "is") auto

lemma lookup_iff:
  assumes "cache_wf X s"
  shows "chain_find (caches s) (hash_table s ! hash dev block) dev block = Some i \<longleftrightarrow>
     i < cached s \<and> i \<notin> X \<and> key_of s i = (dev, block)"
proof -
  have chain: "i \<in> set (hash_table s ! hash dev block) \<longleftrightarrow>
      i < cached s \<and> i \<notin> X \<and> hash (c_dev (caches s ! i)) (c_block (caches s ! i)) = hash dev block" for i
    using assms by (simp add: cache_wf_def chains_ok_def)
  show ?thesis
  proof
    assume "chain_find (caches s) (hash_table s ! hash dev block) dev block = Some i"
    from chain_find_Some [OF this] show "i < cached s \<and> i \<notin> X \<and> key_of s i = (dev, block)"
      by (simp add: chain)
  next
    assume r: "i < cached s \<and> i \<notin> X \<and> key_of s i = (dev, block)"
    then have "i \<in> set (hash_table s ! hash dev block)" by (simp add: chain)
    then obtain j where j: "chain_find (caches s) (hash_table s ! hash dev block) dev block = Some j"
      using r chain_find_None [of "caches s" "hash_table s ! hash dev block" dev block] by fastforce
    then have "j < cached s \<and> j \<notin> X \<and> key_of s j = (dev, block)"
      using chain by (auto dest!: chain_find_Some)
    moreover have "inj_on (key_of s) ({..<cached s} - X)" using assms by (simp add: cache_wf_def keys_ok_def)
    ultimately have "j = i" using r by (auto dest: inj_onD)
    then show "chain_find (caches s) (hash_table s ! hash dev block) dev block = Some i" using j by simp
  qed
qed

lemma lookup_None_iff:
  assumes "cache_wf X s"
  shows "chain_find (caches s) (hash_table s ! hash dev block) dev block = None \<longleftrightarrow>
     (\<forall>i < cached s. i \<notin> X \<longrightarrow> key_of s i \<noteq> (dev, block))"
  using lookup_iff [OF assms] by (metis not_None_eq)

lemma get_new_cache_wf:
  assumes "cache_wf {} s" "get_new_cache s = Some (i, s')"
  shows "cache_wf {i} s' \<and> i = cached s \<and> cached s' = Suc (cached s) \<and> cs_devs s' = cs_devs s \<and>
     (\<forall>j < cached s. caches s' ! j = caches s ! j)"
proof -
  from assms(2) have room: "cache_ptr s + sizeof_cache < cache_data s"
    and i: "i = cached s" and s': "s' = s\<lparr>caches := caches s @ [\<lparr>c_data = cache_data s, c_dev = EOF,
        c_block = 0, c_count = 0, c_dirty = False, c_valid = False\<rparr>],
        cache_ptr := cache_ptr s + sizeof_cache, cache_data := cache_data s - BLOCK_SIZE\<rparr>"
    by (auto simp: get_new_cache_def split: if_splits)
  have wf: "chains_ok {} s" "keys_ok {} s" "refs_ok {} s" "layout_ok s"
    using assms(1) by (auto simp: cache_wf_def)
  have old: "j < cached s \<Longrightarrow> caches s' ! j = caches s ! j" for j by (simp add: s' nth_append)
  have new: "caches s' ! cached s = \<lparr>c_data = cache_data s, c_dev = EOF,
        c_block = 0, c_count = 0, c_dirty = False, c_valid = False\<rparr>"
    by (simp add: s' nth_append)
  have range: "{..<cached s'} - {i} = {..<cached s} - {}" by (auto simp: s' i)
  have sel: "hash_table s' = hash_table s" "free_list s' = free_list s" "cached s' = Suc (cached s)"
    by (simp_all add: s')
  have "chains_ok {i} s'"
    using wf(1) old by (auto simp: chains_ok_def sel i less_Suc_eq)
  moreover have "keys_ok {i} s'"
    using wf(2) old unfolding keys_ok_def range by (auto simp: inj_on_def)
  moreover have "refs_ok {i} s'"
    using wf(3) old new by (auto simp: refs_ok_def sel i less_Suc_eq)
  moreover have "layout_ok s'"
    using wf(4) old new cache_room [OF assms(1) room]
    by (auto simp: layout_ok_def sel less_Suc_eq s' slot_data_step algebra_simps)
  ultimately show ?thesis using old by (simp add: i s' cache_wf_def)
qed

lemma butlast_set:
  assumes "distinct xs" "xs \<noteq> []"
  shows "set (butlast xs) = set xs - {last xs}" "distinct (butlast xs)"
proof -
  have "xs = butlast xs @ [last xs]" using assms(2) by simp
  then have "distinct (butlast xs @ [last xs])" "set xs = set (butlast xs) \<union> {last xs}"
    using assms(1) by (metis, metis list.simps(15) set_append list.set(1) )
  then show "set (butlast xs) = set xs - {last xs}" "distinct (butlast xs)" by auto
qed

lemma evict_wf:
  assumes "cache_wf {} s" "free_list s \<noteq> []"
  defines "i \<equiv> last (free_list s)"
  shows "\<exists>s'. do {
           s \<leftarrow> hash_remove (s\<lparr>free_list := butlast (free_list s)\<rparr>) i;
           c \<leftarrow> aget (caches s) i;
           Some (Inl i :: nat + unit, put_cache s i (c\<lparr>c_valid := False\<rparr>)) } = Some (Inl i, s') \<and>
     cache_wf {i} s' \<and> i < cached s \<and> \<not> c_dirty (caches s ! i) \<and> cached s' = cached s \<and>
     cs_devs s' = cs_devs s \<and> (\<forall>j < cached s. j \<noteq> i \<longrightarrow> caches s' ! j = caches s ! j)"
proof -
  have wf: "chains_ok {} s" "keys_ok {} s" "refs_ok {} s" "layout_ok s"
    using assms(1) by (auto simp: cache_wf_def)
  have iN: "i < cached s" "c_count (caches s ! i) = 0" "\<not> c_dirty (caches s ! i)"
    using wf(3) assms(2) by (auto simp: refs_ok_def i_def)
  have fl: "set (butlast (free_list s)) = set (free_list s) - {i}" "distinct (butlast (free_list s))"
    using butlast_set [OF _ assms(2)] wf(3) by (auto simp: refs_ok_def i_def)
  define h where "h = hash (c_dev (caches s ! i)) (c_block (caches s ! i))"
  define s' where "s' = s\<lparr>free_list := butlast (free_list s),
      hash_table := (hash_table s)[h := remove1 i (hash_table s ! h)],
      caches := (caches s)[i := (caches s ! i)\<lparr>c_valid := False\<rparr>]\<rparr>"
  have hlt: "h < 101" by (simp add: h_def)
  have chain: "g < 101 \<Longrightarrow> distinct (hash_table s ! g)"
      "g < 101 \<Longrightarrow> j \<in> set (hash_table s ! g) \<longleftrightarrow>
         j < cached s \<and> hash (c_dev (caches s ! j)) (c_block (caches s ! j)) = g" for g j
    using wf(1) by (auto simp: chains_ok_def)
  have mem: "i \<in> set (hash_table s ! h)" using chain(2) [OF hlt] iN by (simp add: h_def)
  have "hash_remove (s\<lparr>free_list := butlast (free_list s)\<rparr>) i =
      Some (s\<lparr>free_list := butlast (free_list s), hash_table := (hash_table s)[h := remove1 i (hash_table s ! h)]\<rparr>)"
    using mem iN by (simp add: hash_remove_def Let_def h_def)
  then have run: "do {
           s \<leftarrow> hash_remove (s\<lparr>free_list := butlast (free_list s)\<rparr>) i;
           c \<leftarrow> aget (caches s) i;
           Some (Inl i :: nat + unit, put_cache s i (c\<lparr>c_valid := False\<rparr>)) } = Some (Inl i, s')"
    using iN by (simp add: put_cache_def s'_def)
  have other: "j \<noteq> i \<Longrightarrow> caches s' ! j = caches s ! j" for j by (simp add: s'_def)
  have self: "caches s' ! i = (caches s ! i)\<lparr>c_valid := False\<rparr>" using iN by (simp add: s'_def)
  have key: "c_dev (caches s' ! j) = c_dev (caches s ! j)" "c_block (caches s' ! j) = c_block (caches s ! j)"
      "c_count (caches s' ! j) = c_count (caches s ! j)" "c_dirty (caches s' ! j) = c_dirty (caches s ! j)"
      "c_data (caches s' ! j) = c_data (caches s ! j)" for j
    by (cases "j = i"; simp add: self other)+
  have sel: "cached s' = cached s" "free_list s' = butlast (free_list s)" "length (hash_table s') = length (hash_table s)"
      "cache_data s' = cache_data s" "cache_ptr s' = cache_ptr s"
    by (simp_all add: s'_def)
  have "chains_ok {i} s'"
  proof -
    have "distinct (hash_table s' ! g) \<and> (\<forall>j. j \<in> set (hash_table s' ! g) \<longleftrightarrow>
        j < cached s' \<and> j \<notin> {i} \<and> hash (c_dev (caches s' ! j)) (c_block (caches s' ! j)) = g)"
      if g: "g < 101" for g
    proof -
      have ht: "hash_table s' ! g = (if g = h then remove1 i (hash_table s ! g) else hash_table s ! g)"
        using wf(1) hlt by (simp add: s'_def chains_ok_def)
      have "i \<in> set (hash_table s ! g) \<longleftrightarrow> g = h" using chain(2) [OF g, of i] iN(1) by (auto simp: h_def)
      then have st: "set (hash_table s' ! g) = set (hash_table s ! g) - {i}" "distinct (hash_table s' ! g)"
        using chain(1) [OF g] by (auto simp: ht)
      have "j \<in> set (hash_table s' ! g) \<longleftrightarrow>
          j < cached s' \<and> j \<notin> {i} \<and> hash (c_dev (caches s' ! j)) (c_block (caches s' ! j)) = g" for j
        using chain(2) [OF g, of j] unfolding st(1) key sel(1) by blast
      then show ?thesis using st(2) by blast
    qed
    then show ?thesis using wf(1) by (simp add: chains_ok_def sel)
  qed
  moreover have "keys_ok {i} s'" using wf(2) by (auto simp: keys_ok_def inj_on_def key sel)
  moreover have "refs_ok {i} s'" using wf(3) fl self iN by (auto simp: refs_ok_def key sel)
  moreover have "layout_ok s'" using wf(4) by (simp add: layout_ok_def key sel)
  ultimately have "cache_wf {i} s'" by (simp add: cache_wf_def)
  then show ?thesis using run iN other by (auto simp: s'_def)
qed

text \<open>With room, \<open>get_free_cache\<close> does not sleep and hands out a cache that is in no list.\<close>

lemma get_free_cache_wf:
  assumes "cache_wf {} s" "has_room s"
  shows "\<exists>i s'. get_free_cache resume s = Some (Inl i, s') \<and> cache_wf {i} s' \<and> i < cached s' \<and>
     cs_devs s' = cs_devs s \<and> cached s \<le> cached s' \<and>
     (i < cached s \<longrightarrow> \<not> c_dirty (caches s ! i)) \<and>
     (\<forall>j < cached s'. j \<noteq> i \<longrightarrow> j < cached s \<and> caches s' ! j = caches s ! j)"
proof (cases "get_new_cache s")
  case (Some r)
  obtain i s' where r: "get_new_cache s = Some (i, s')" using Some by (cases r) auto
  show ?thesis
    using get_new_cache_wf [OF assms(1) r] r
    by (intro exI [of _ i] exI [of _ s']) (auto simp: get_free_cache_def less_Suc_eq)
next
  case None
  then have "free_list s \<noteq> []" using assms(2) by (auto simp: has_room_def get_new_cache_def split: if_splits)
  then show ?thesis
    using None evict_wf [OF assms(1)] by (auto simp: get_free_cache_def Let_def)
qed

text \<open>Giving the cache a key that no other has, and putting it into its chain.\<close>

lemma locate_wf:
  assumes "cache_wf {i} s" "i < cached s" "\<forall>j < cached s. j \<noteq> i \<longrightarrow> key_of s j \<noteq> (dev, block)"
  defines "s1 \<equiv> put_cache s i ((caches s ! i)\<lparr>c_count := 1, c_dev := dev, c_block := block\<rparr>)"
  shows "\<exists>s'. hash_locate s1 i = Some s' \<and> cache_wf {} s' \<and> caches s' = caches s1 \<and> cs_devs s' = cs_devs s"
proof -
  have wf: "chains_ok {i} s" "keys_ok {i} s" "refs_ok {i} s" "layout_ok s"
    using assms(1) by (auto simp: cache_wf_def)
  define h where "h = hash dev block"
  have hlt: "h < 101" by (simp add: h_def)
  define s' where "s' = s1\<lparr>hash_table := (hash_table s)[h := i # hash_table s ! h]\<rparr>"
  have chain: "g < 101 \<Longrightarrow> distinct (hash_table s ! g)"
      "g < 101 \<Longrightarrow> j \<in> set (hash_table s ! g) \<longleftrightarrow>
         j < cached s \<and> j \<noteq> i \<and> hash (c_dev (caches s ! j)) (c_block (caches s ! j)) = g" for g j
    using wf(1) by (auto simp: chains_ok_def)
  have other: "j \<noteq> i \<Longrightarrow> caches s' ! j = caches s ! j" for j by (simp add: s'_def s1_def put_cache_def)
  have self: "caches s' ! i = (caches s ! i)\<lparr>c_count := 1, c_dev := dev, c_block := block\<rparr>"
    using assms(2) by (simp add: s'_def s1_def put_cache_def)
  have sel: "cached s' = cached s" "free_list s' = free_list s" "length (hash_table s') = length (hash_table s)"
      "cache_data s' = cache_data s" "cache_ptr s' = cache_ptr s" "hash_table s1 = hash_table s"
    by (simp_all add: s'_def s1_def put_cache_def)
  have run: "hash_locate s1 i = Some s'"
    using assms(2) chain(2) [OF hlt]
    by (simp add: hash_locate_def sel s'_def h_def Let_def) (simp add: s1_def put_cache_def Let_def)
  have "chains_ok {} s'"
  proof -
    have "distinct (hash_table s' ! g) \<and> (\<forall>j. j \<in> set (hash_table s' ! g) \<longleftrightarrow>
        j < cached s' \<and> j \<notin> {} \<and> hash (c_dev (caches s' ! j)) (c_block (caches s' ! j)) = g)"
      if g: "g < 101" for g
    proof -
      have ht: "hash_table s' ! g = (if g = h then i # hash_table s ! g else hash_table s ! g)"
        using wf(1) hlt by (simp add: s'_def chains_ok_def)
      have "j \<in> set (hash_table s' ! g) \<longleftrightarrow> j < cached s \<and> hash (c_dev (caches s' ! j)) (c_block (caches s' ! j)) = g" for j
        using chain(2) [OF g, of j] assms(2) by (cases "j = i") (auto simp: ht self other h_def)
      then show ?thesis using chain [OF g] by (auto simp: ht sel)
    qed
    then show ?thesis using wf(1) by (simp add: chains_ok_def sel)
  qed
  moreover have "keys_ok {} s'"
    unfolding keys_ok_def
  proof (rule inj_onI)
    fix a b assume ab: "a \<in> {..<cached s'} - {}" "b \<in> {..<cached s'} - {}" "key_of s' a = key_of s' b"
    show "a = b"
    proof (cases "a = i \<or> b = i")
      case True
      then show ?thesis using ab assms(3) by (cases "a = i"; cases "b = i") (auto simp: self other sel)
    next
      case False
      then show ?thesis using ab wf(2) by (auto simp: keys_ok_def other sel dest: inj_onD)
    qed
  qed
  moreover have "refs_ok {} s'"
  proof -
    have "(j \<in> set (free_list s') \<longleftrightarrow> j < cached s' \<and> j \<notin> {} \<and> c_count (caches s' ! j) = 0)" for j
      using wf(3) by (cases "j = i") (auto simp: refs_ok_def sel self other)
    moreover have "j < cached s' \<Longrightarrow> 0 \<le> c_count (caches s' ! j) \<and> (c_count (caches s' ! j) = 0 \<longrightarrow> \<not> c_dirty (caches s' ! j))" for j
      using wf(3) by (cases "j = i") (auto simp: refs_ok_def sel self other)
    ultimately show ?thesis using wf(3) by (simp add: refs_ok_def sel)
  qed
  moreover have "layout_ok s'"
  proof -
    have "j < cached s' \<Longrightarrow> c_data (caches s' ! j) = slot_data j" for j
      using wf(4) by (cases "j = i") (auto simp: layout_ok_def sel self other)
    then show ?thesis using wf(4) by (simp add: layout_ok_def sel)
  qed
  ultimately have "cache_wf {} s'" by (simp add: cache_wf_def)
  then show ?thesis using run by (auto simp: s'_def s1_def put_cache_def)
qed

section \<open>Transparency\<close>

text \<open>
  The contents of a block: the buffer of the valid cache that has it, otherwise the disk.
  \<open>buf\<close> reads a buffer, \<open>disk\<close> a block of the disk behind a device number.
\<close>

definition contents ::
  "('s \<Rightarrow> u32 \<Rightarrow> u8 list) \<Rightarrow> ('s \<Rightarrow> u32 \<Rightarrow> u32 \<Rightarrow> u8 list) \<Rightarrow> 's cachest \<Rightarrow> u32 \<Rightarrow> u32 \<Rightarrow> u8 list" where
  "contents buf disk s dev block =
     (case chain_find (caches s) (hash_table s ! hash dev block) dev block of
        Some i \<Rightarrow> if c_valid (caches s ! i) then buf (dv_io (cs_devs s)) (c_data (caches s ! i))
                  else disk (dv_io (cs_devs s)) (dev_ptr (cs_devs s) dev) block
      | None \<Rightarrow> disk (dv_io (cs_devs s)) (dev_ptr (cs_devs s) dev) block)"

text \<open>Valid buffers that are not dirty agree with the disk.\<close>

definition clean_agrees ::
  "('s \<Rightarrow> u32 \<Rightarrow> u8 list) \<Rightarrow> ('s \<Rightarrow> u32 \<Rightarrow> u32 \<Rightarrow> u8 list) \<Rightarrow> 's cachest \<Rightarrow> bool" where
  "clean_agrees buf disk s \<longleftrightarrow> (\<forall>i < cached s. c_valid (caches s ! i) \<longrightarrow> \<not> c_dirty (caches s ! i) \<longrightarrow>
     buf (dv_io (cs_devs s)) (c_data (caches s ! i)) =
     disk (dv_io (cs_devs s)) (dev_ptr (cs_devs s) (c_dev (caches s ! i))) (c_block (caches s ! i)))"

text \<open>
  The devices the cache is used for: idle root disks with these driver functions, told apart by
  their pointers, and blocks that exist.
\<close>

definition disks_ok ::
  "'s driver \<Rightarrow> 's driver \<Rightarrow> (u32 \<Rightarrow> u32 \<Rightarrow> bool) \<Rightarrow> u32 set \<Rightarrow> 's cachest \<Rightarrow> bool" where
  "disks_ok rd wr ok_blk D s \<longleftrightarrow> (\<forall>dev \<in> D. block_dev rd wr (cs_devs s) dev) \<and>
     inj_on (dev_ptr (cs_devs s)) D \<and>
     (\<forall>i < cached s. c_dev (caches s ! i) \<in> D \<and> ok_blk (dev_ptr (cs_devs s) (c_dev (caches s ! i))) (c_block (caches s ! i)))"

definition cache_inv where
  "cache_inv rd wr buf disk ok_blk D s \<longleftrightarrow>
     cache_wf {} s \<and> clean_agrees buf disk s \<and> disks_ok rd wr ok_blk D s"

lemma contents_hit:
  assumes "cache_wf {} s" "i < cached s" "key_of s i = (dev, block)" "c_valid (caches s ! i)"
  shows "contents buf disk s dev block = buf (dv_io (cs_devs s)) (c_data (caches s ! i))"
proof -
  have "chain_find (caches s) (hash_table s ! hash dev block) dev block = Some i"
    using lookup_iff [OF assms(1), of dev block i] assms by simp
  then show ?thesis using assms(4) by (simp add: contents_def)
qed

lemma contents_miss:
  assumes "cache_wf {} s" "\<forall>i < cached s. key_of s i = (dev, block) \<longrightarrow> \<not> c_valid (caches s ! i)"
  shows "contents buf disk s dev block = disk (dv_io (cs_devs s)) (dev_ptr (cs_devs s) dev) block"
  using assms lookup_iff [OF assms(1), of dev block] by (auto simp: contents_def split: option.split)

text \<open>When all blocks are read the same from two states, whether a cache holds them or not.\<close>

lemma contents_cases:
  assumes "cache_wf {} s"
  obtains (hit) i where "i < cached s" "key_of s i = (dev, block)" "c_valid (caches s ! i)"
  | (miss) "\<forall>i < cached s. key_of s i = (dev, block) \<longrightarrow> \<not> c_valid (caches s ! i)"
  by blast

lemma rehash_wf:
  assumes "cache_wf {} s" "i < cached s" "c_dev c = c_dev (caches s ! i)" "c_block c = c_block (caches s ! i)"
    "c_data c = c_data (caches s ! i)" "c_count c = c_count (caches s ! i)"
    "c_count c = 0 \<longrightarrow> \<not> c_dirty c"
  shows "cache_wf {} (put_cache s i c)"
proof -
  define s' where "s' = put_cache s i c"
  have wf: "chains_ok {} s" "keys_ok {} s" "refs_ok {} s" "layout_ok s"
    using assms(1) by (auto simp: cache_wf_def)
  have other: "j \<noteq> i \<Longrightarrow> caches s' ! j = caches s ! j" for j by (simp add: s'_def put_cache_def)
  have self: "caches s' ! i = c" using assms(2) by (simp add: s'_def put_cache_def)
  have key: "c_dev (caches s' ! j) = c_dev (caches s ! j)" "c_block (caches s' ! j) = c_block (caches s ! j)"
      "c_count (caches s' ! j) = c_count (caches s ! j)" "c_data (caches s' ! j) = c_data (caches s ! j)" for j
    using assms(3-6) by (cases "j = i"; simp add: self other)+
  have dirty: "c_count (caches s ! j) = 0 \<longrightarrow> \<not> c_dirty (caches s' ! j)" if "j < cached s" for j
    using wf(3) that assms(6,7) by (cases "j = i") (auto simp: self other refs_ok_def)
  have sel: "cached s' = cached s" "free_list s' = free_list s" "hash_table s' = hash_table s"
      "cache_data s' = cache_data s" "cache_ptr s' = cache_ptr s"
    by (simp_all add: s'_def put_cache_def)
  have "chains_ok {} s'" using wf(1) by (simp add: chains_ok_def sel key)
  moreover have "keys_ok {} s'" using wf(2) by (simp add: keys_ok_def sel key)
  moreover have "refs_ok {} s'" using wf(3) dirty by (simp add: refs_ok_def sel key)
  moreover have "layout_ok s'" using wf(4) by (simp add: layout_ok_def sel key)
  ultimately show ?thesis by (simp add: cache_wf_def s'_def)
qed

text \<open>A hit takes the cache off the free list, if it is there, and counts the new reference.\<close>

lemma hit_wf:
  assumes "cache_wf {} s" "i < cached s"
  defines "s1 \<equiv> (if i \<in> set (free_list s) then s\<lparr>free_list := remove1 i (free_list s)\<rparr> else s)"
  defines "s' \<equiv> put_cache s1 i ((caches s ! i)\<lparr>c_count := c_count (caches s ! i) + 1\<rparr>)"
  shows "cache_wf {} s'"
proof -
  have wf: "chains_ok {} s" "keys_ok {} s" "refs_ok {} s" "layout_ok s"
    using assms(1) by (auto simp: cache_wf_def)
  have s1: "caches s1 = caches s" "hash_table s1 = hash_table s" "cache_data s1 = cache_data s"
      "cache_ptr s1 = cache_ptr s" by (simp_all add: s1_def)
  have fl: "distinct (free_list s1)" "set (free_list s1) = set (free_list s) - {i}"
    using wf(3) by (auto simp: s1_def refs_ok_def)
  have other: "j \<noteq> i \<Longrightarrow> caches s' ! j = caches s ! j" for j by (simp add: s'_def put_cache_def s1)
  have self: "caches s' ! i = (caches s ! i)\<lparr>c_count := c_count (caches s ! i) + 1\<rparr>"
    using assms(2) by (simp add: s'_def put_cache_def s1)
  have key: "c_dev (caches s' ! j) = c_dev (caches s ! j)" "c_block (caches s' ! j) = c_block (caches s ! j)"
      "c_data (caches s' ! j) = c_data (caches s ! j)" for j
    by (cases "j = i"; simp add: self other)+
  have sel: "cached s' = cached s" "free_list s' = free_list s1" "hash_table s' = hash_table s"
      "cache_data s' = cache_data s" "cache_ptr s' = cache_ptr s"
    by (simp_all add: s'_def put_cache_def s1)
  have pos: "0 \<le> c_count (caches s ! i)" using wf(3) assms(2) by (simp add: refs_ok_def)
  have "chains_ok {} s'" using wf(1) by (simp add: chains_ok_def sel key)
  moreover have "keys_ok {} s'" using wf(2) by (simp add: keys_ok_def sel key)
  moreover have "refs_ok {} s'"
  proof -
    have "(j \<in> set (free_list s') \<longleftrightarrow> j < cached s' \<and> j \<notin> {} \<and> c_count (caches s' ! j) = 0)" for j
      using wf(3) fl pos by (cases "j = i") (auto simp: refs_ok_def sel self other)
    moreover have "j < cached s' \<Longrightarrow> 0 \<le> c_count (caches s' ! j) \<and>
        (c_count (caches s' ! j) = 0 \<longrightarrow> \<not> c_dirty (caches s' ! j))" for j
      using wf(3) pos by (cases "j = i") (auto simp: refs_ok_def sel self other)
    ultimately show ?thesis using fl(1) by (simp add: refs_ok_def sel)
  qed
  moreover have "layout_ok s'" using wf(4) by (simp add: layout_ok_def sel key)
  ultimately show ?thesis by (simp add: cache_wf_def)
qed

lemma block_request_runs:
  assumes "block_dev rd wr (cs_devs s) (c_dev c)" "c_data c \<noteq> 0" "ty = REQUEST_READ \<or> ty = REQUEST_WRITE"
    and "(if ty = REQUEST_READ then rd else wr) (dev_ptr (cs_devs s) (c_dev c)) (c_data c) 2 (c_block c * 2) 0
           (dv_io (cs_devs s)) = Some (r, io)"
  shows "\<exists>d'. block_request resume s c ty = Some (Inl (), s\<lparr>cs_devs := d'\<rparr>) \<and> dv_io d' = io \<and>
     dv_kern d' = dv_kern (cs_devs s) \<and> dev_ptr d' = dev_ptr (cs_devs s) \<and>
     (\<forall>rd wr x. block_dev rd wr (cs_devs s) x \<longrightarrow> block_dev rd wr d' x)"
proof -
  have io: "(if ty = REQUEST_READ then rd else wr) (dev_ptr (cs_devs s) (c_dev c)) (c_data c) (ucast BLOCK_SECS)
      (c_block c * ucast BLOCK_SECS) 0 (dv_io (cs_devs s)) = Some (r, io)"
    using assms(4) by (simp add: BLOCK_SECS_def)
  have nz: "BLOCK_SECS \<noteq> 0" by (simp add: BLOCK_SECS_def)
  obtain q req d1 d2 where "device_request_enter resume (cs_devs s) (c_dev c) (c_data c) BLOCK_SECS
      (c_block c * ucast BLOCK_SECS) 0 ty = Some (q, req, False, d1)" "device_request_finish d1 q req = Some d2"
      "dv_io d2 = io" "dv_kern d2 = dv_kern (cs_devs s)" "\<forall>x. dev_ptr d2 x = dev_ptr (cs_devs s) x"
      "\<forall>rd wr x. block_dev rd wr (cs_devs s) x \<longrightarrow> block_dev rd wr d2 x"
    using request_on_idle_disk [OF assms(1,2) nz assms(3) io, of resume] by blast
  then show ?thesis by (intro exI [of _ d2]) (auto simp: block_request_def fun_eq_iff)
qed

text \<open>A block driver together with the buffers of the cache.\<close>

locale cached_driver = block_driver +
  assumes slot_ok: "i < 4000 \<Longrightarrow> ok_buf (slot_data i)"
begin

abbreviation inv where "inv \<equiv> cache_inv rd wr io_buf io_disk ok_blk"
abbreviation cont where "cont \<equiv> contents io_buf io_disk"

abbreviation known where "known D s dev block \<equiv> dev \<in> D \<and> ok_blk (dev_ptr (cs_devs s) dev) block"

lemma getblk_transparent:
  assumes "inv D s" "known D s dev block" "has_room s"
  shows "\<exists>i s'. getblk resume s dev block = Some (Inl i, s') \<and> inv D s' \<and> i < cached s' \<and>
     key_of s' i = (dev, block) \<and> 0 < c_count (caches s' ! i) \<and> cs_devs s' = cs_devs s \<and>
     (\<forall>d b. cont s' d b = cont s d b)"
proof -
  have inv: "cache_wf {} s" "clean_agrees io_buf io_disk s" "disks_ok rd wr ok_blk D s"
    using assms(1) by (auto simp: cache_inv_def)
  show ?thesis
  proof (cases "chain_find (caches s) (hash_table s ! hash dev block) dev block")
    case (Some i)
    then have i: "i < cached s" "key_of s i = (dev, block)" using lookup_iff [OF inv(1)] by auto
    define s1 where "s1 = (if i \<in> set (free_list s) then s\<lparr>free_list := remove1 i (free_list s)\<rparr> else s)"
    define s' where "s' = put_cache s1 i ((caches s ! i)\<lparr>c_count := c_count (caches s ! i) + 1\<rparr>)"
    have s1: "caches s1 = caches s" "cs_devs s1 = cs_devs s" by (simp_all add: s1_def)
    have run: "getblk resume s dev block = Some (Inl i, s')"
      using i Some by (simp add: getblk_def get_from_hash_table_def s1_def [symmetric] s1 s'_def)
    have same: "c_dev (caches s' ! j) = c_dev (caches s ! j)" "c_block (caches s' ! j) = c_block (caches s ! j)"
        "c_data (caches s' ! j) = c_data (caches s ! j)" "c_valid (caches s' ! j) = c_valid (caches s ! j)"
        "c_dirty (caches s' ! j) = c_dirty (caches s ! j)" for j
      using i by (cases "j = i"; simp add: s'_def put_cache_def s1)+
    have sel: "cs_devs s' = cs_devs s" "cached s' = cached s" by (simp_all add: s'_def put_cache_def s1)
    have wf': "cache_wf {} s'" unfolding s'_def s1_def by (rule hit_wf [OF inv(1) i(1)])
    then have "inv D s'"
      using inv(2,3) by (simp add: cache_inv_def clean_agrees_def disks_ok_def same sel)
    moreover have "cont s' d b = cont s d b" for d b
      using inv(1)
    proof (cases rule: contents_cases [where dev = d and block = b])
      case (hit j)
      then show ?thesis using contents_hit [OF inv(1) hit] contents_hit [OF wf', of j d b] by (simp add: same sel)
    next
      case miss
      then show ?thesis using contents_miss [OF inv(1) miss] contents_miss [OF wf', of d b] by (simp add: same sel)
    qed
    moreover have "0 < c_count (caches s' ! i)"
      using inv(1) i by (simp add: s'_def put_cache_def s1 cache_wf_def refs_ok_def)
    ultimately show ?thesis using run i by (auto simp: sel same)
  next
    case None
    then have nokey: "\<forall>j < cached s. key_of s j \<noteq> (dev, block)" using lookup_None_iff [OF inv(1)] by auto
    obtain i s1 where g: "get_free_cache resume s = Some (Inl i, s1)" "cache_wf {i} s1" "i < cached s1"
        "cs_devs s1 = cs_devs s" "cached s \<le> cached s1" "i < cached s \<longrightarrow> \<not> c_dirty (caches s ! i)"
        "\<forall>j < cached s1. j \<noteq> i \<longrightarrow> j < cached s \<and> caches s1 ! j = caches s ! j"
      using get_free_cache_wf [OF inv(1) assms(3)] by blast
    have ci: "c_count (caches s1 ! i) = 0" "\<not> c_dirty (caches s1 ! i)" "\<not> c_valid (caches s1 ! i)"
      using g(2,3) by (auto simp: cache_wf_def refs_ok_def)
    define c where "c = (caches s1 ! i)\<lparr>c_count := 1, c_dev := dev, c_block := block\<rparr>"
    have "\<forall>j < cached s1. j \<noteq> i \<longrightarrow> key_of s1 j \<noteq> (dev, block)" using g(7) nokey by auto
    then obtain s' where l: "hash_locate (put_cache s1 i c) i = Some s'" "cache_wf {} s'"
        "caches s' = caches (put_cache s1 i c)" "cs_devs s' = cs_devs s1"
      using locate_wf [OF g(2,3), of dev block] by (auto simp: c_def)
    have run: "getblk resume s dev block = Some (Inl i, s')"
      using None g(1,3) ci l(1) by (simp add: getblk_def get_from_hash_table_def getblk_resume_def c_def)
    have n: "cached s' = cached s1" and other: "j \<noteq> i \<Longrightarrow> caches s' ! j = caches s1 ! j"
      and self: "caches s' ! i = c" for j
      using l(3) g(3) by (simp_all add: put_cache_def)
    have cv: "\<not> c_valid c" "\<not> c_dirty c" "c_dev c = dev" "c_block c = block" "c_count c = 1"
      using ci by (simp_all add: c_def)
    have old: "j < cached s \<and> caches s' ! j = caches s ! j" if "j < cached s'" "j \<noteq> i" for j
      using that g(7) by (simp add: n other)
    have dv: "cs_devs s' = cs_devs s" using l(4) g(4) by simp
    have "clean_agrees io_buf io_disk s'"
      using inv(2) old cv self by (simp add: clean_agrees_def dv) metis
    moreover have "disks_ok rd wr ok_blk D s'"
    proof -
      have "c_dev (caches s' ! j) \<in> D \<and> ok_blk (dev_ptr (cs_devs s) (c_dev (caches s' ! j))) (c_block (caches s' ! j))"
        if "j < cached s'" for j
        using inv(3) old [OF that] assms(2) cv self by (cases "j = i") (auto simp: disks_ok_def)
      then show ?thesis using inv(3) by (simp add: disks_ok_def dv)
    qed
    ultimately have "inv D s'" using l(2) by (simp add: cache_inv_def)
    moreover have "cont s' d b = cont s d b" for d b
      using inv(1)
    proof (cases rule: contents_cases [where dev = d and block = b])
      case (hit j)
      show ?thesis
      proof (cases "j = i")
        case False
        have "j < cached s'" using hit(1) g(5) by (simp add: n)
        then have "caches s' ! j = caches s ! j" using old False by blast
        then show ?thesis
          using contents_hit [OF inv(1) hit] contents_hit [OF l(2) \<open>j < cached s'\<close>, of d b] hit by (simp add: dv)
      next
        case True
        have "\<not> c_dirty (caches s ! j)" using True g(6) hit(1) by simp
        then have "cont s d b = io_disk (dv_io (cs_devs s)) (dev_ptr (cs_devs s) d) b"
          using contents_hit [OF inv(1) hit, of io_buf io_disk] inv(2) hit by (auto simp: clean_agrees_def)
        moreover have "\<forall>k < cached s'. key_of s' k = (d, b) \<longrightarrow> \<not> c_valid (caches s' ! k)"
        proof (intro allI impI)
          fix k assume k: "k < cached s'" "key_of s' k = (d, b)"
          show "\<not> c_valid (caches s' ! k)"
          proof (cases "k = i")
            case ki: False
            then have "k < cached s" "key_of s k = (d, b)" using old [OF k(1) ki] k(2) by simp_all
            then have "k = j" using inv(1) hit by (auto simp: cache_wf_def keys_ok_def dest: inj_onD)
            then show ?thesis using ki True by simp
          qed (simp add: self cv)
        qed
        ultimately show ?thesis using contents_miss [OF l(2)] by (simp add: dv)
      qed
    next
      case miss
      have "\<forall>k < cached s'. key_of s' k = (d, b) \<longrightarrow> \<not> c_valid (caches s' ! k)"
        using miss old self cv by metis
      then show ?thesis using contents_miss [OF inv(1) miss] contents_miss [OF l(2)] by (simp add: dv)
    qed
    ultimately show ?thesis using run g(3) n self cv dv by auto
  qed
qed

text \<open>Marking a cache clean and valid after a transfer that made buffer and disk agree.\<close>

lemma settle_transparent:
  assumes inv: "cache_wf {} s" "disks_ok rd wr ok_blk D s"
    and i: "i < cached s" "c_dev (caches s ! i) \<in> D"
    and agree: "\<forall>j < cached s. j \<noteq> i \<longrightarrow> c_valid (caches s ! j) \<longrightarrow> \<not> c_dirty (caches s ! j) \<longrightarrow>
        io_buf io (slot_data j) = io_disk io (dev_ptr d' (c_dev (caches s ! j))) (c_block (caches s ! j))"
      "io_buf io (slot_data i) = io_disk io (dev_ptr d' (c_dev (caches s ! i))) (c_block (caches s ! i))"
    and d': "dv_io d' = io" "dev_ptr d' = dev_ptr (cs_devs s)"
      "\<forall>rd wr x. block_dev rd wr (cs_devs s) x \<longrightarrow> block_dev rd wr d' x"
  defines "s' \<equiv> put_cache (s\<lparr>cs_devs := d'\<rparr>) i ((caches s ! i)\<lparr>c_dirty := False, c_valid := True\<rparr>)"
  shows "inv D s'"
proof -
  have "cache_wf {} (s\<lparr>cs_devs := d'\<rparr>)"
    using inv(1) by (simp add: cache_wf_def chains_ok_def keys_ok_def refs_ok_def layout_ok_def)
  then have wf: "cache_wf {} s'" unfolding s'_def using i(1) by (intro rehash_wf) simp_all
  have sel: "cached s' = cached s" "cs_devs s' = d'" by (simp_all add: s'_def put_cache_def)
  have self: "caches s' ! i = (caches s ! i)\<lparr>c_dirty := False, c_valid := True\<rparr>"
    using i by (simp add: s'_def put_cache_def)
  have other: "j \<noteq> i \<Longrightarrow> caches s' ! j = caches s ! j" for j by (simp add: s'_def put_cache_def)
  have slot: "j < cached s \<Longrightarrow> c_data (caches s ! j) = slot_data j" for j
    using inv(1) by (simp add: cache_wf_def layout_ok_def)
  have "clean_agrees io_buf io_disk s'"
    unfolding clean_agrees_def sel d'(1)
  proof (intro allI impI)
    fix j assume j: "j < cached s" "c_valid (caches s' ! j)" "\<not> c_dirty (caches s' ! j)"
    show "io_buf io (c_data (caches s' ! j)) = io_disk io (dev_ptr d' (c_dev (caches s' ! j))) (c_block (caches s' ! j))"
    proof (cases "j = i")
      case True
      then show ?thesis using agree(2) i(1) slot by (simp add: self)
    next
      case False
      then show ?thesis using agree(1) j slot by (simp add: other)
    qed
  qed
  moreover have "disks_ok rd wr ok_blk D s'"
  proof -
    have "c_dev (caches s' ! j) = c_dev (caches s ! j) \<and> c_block (caches s' ! j) = c_block (caches s ! j)" for j
      by (cases "j = i") (simp_all add: self other)
    then show ?thesis using inv(2) d' by (simp add: disks_ok_def sel)
  qed
  ultimately show ?thesis using wf by (simp add: cache_inv_def)
qed

lemma bread_transparent:
  assumes "inv D s" "known D s dev block" "has_room s"
  shows "\<exists>i s'. bread resume s dev block = Some (Inl i, s') \<and> inv D s' \<and> i < cached s' \<and>
     key_of s' i = (dev, block) \<and> 0 < c_count (caches s' ! i) \<and> c_valid (caches s' ! i) \<and>
     io_buf (dv_io (cs_devs s')) (c_data (caches s' ! i)) = cont s dev block \<and>
     dev_ptr (cs_devs s') = dev_ptr (cs_devs s) \<and>
     (\<forall>d b. known D s d b \<longrightarrow> cont s' d b = cont s d b)"
proof -
  obtain i s1 where g: "getblk resume s dev block = Some (Inl i, s1)" "inv D s1" "i < cached s1"
      "key_of s1 i = (dev, block)" "0 < c_count (caches s1 ! i)" "cs_devs s1 = cs_devs s"
      "\<forall>d b. cont s1 d b = cont s d b"
    using getblk_transparent [OF assms] by blast
  have inv: "cache_wf {} s1" "clean_agrees io_buf io_disk s1" "disks_ok rd wr ok_blk D s1"
    using g(2) by (auto simp: cache_inv_def)
  show ?thesis
  proof (cases "c_valid (caches s1 ! i)")
    case True
    have "io_buf (dv_io (cs_devs s1)) (c_data (caches s1 ! i)) = cont s dev block"
      using contents_hit [OF inv(1) g(3,4) True, of io_buf io_disk] g(7) by metis
    then show ?thesis
      using g(1,2,3,4,5,6,7) True by (intro exI [of _ i] exI [of _ s1]) (simp add: bread_def)
  next
    case False
    define c where "c = caches s1 ! i"
    define io where "io = dv_io (cs_devs s1)"
    define p where "p = dev_ptr (cs_devs s1) dev"
    have slot: "j < cached s1 \<Longrightarrow> c_data (caches s1 ! j) = slot_data j" for j
      using inv(1) by (simp add: cache_wf_def layout_ok_def)
    have n: "cached s1 < 4000" using inv(1) by (simp add: cache_wf_def layout_ok_def)
    have buf: "j < cached s1 \<Longrightarrow> ok_buf (slot_data j)" for j using slot_ok n by simp
    have key: "c_dev c = dev" "c_block c = block" "c_data c = slot_data i"
      using g(3,4) slot by (auto simp: c_def)
    have kn: "ok_blk p block" "dev \<in> D" using assms(2) by (simp_all add: p_def g(6))
    obtain r io' where law: "rd p (slot_data i) 2 (block * 2) 0 io = Some (r, io')"
        "io_buf io' (slot_data i) = io_disk io p block"
        "\<forall>b'. ok_buf b' \<longrightarrow> b' \<noteq> slot_data i \<longrightarrow> io_buf io' b' = io_buf io b'"
        "\<forall>p' k'. ok_blk p' k' \<longrightarrow> io_disk io' p' k' = io_disk io p' k'"
      using read_law [OF buf [OF g(3)] kn(1), of io] by blast
    have bd: "block_dev rd wr (cs_devs s1) (c_dev c)" using inv(3) kn by (simp add: disks_ok_def key)
    obtain d' where d': "block_request resume s1 c REQUEST_READ = Some (Inl (), s1\<lparr>cs_devs := d'\<rparr>)"
        "dv_io d' = io'" "dev_ptr d' = dev_ptr (cs_devs s1)"
        "\<forall>rd wr x. block_dev rd wr (cs_devs s1) x \<longrightarrow> block_dev rd wr d' x"
      using block_request_runs [OF bd, of REQUEST_READ r io' resume] law(1) buf_nonnull [OF buf [OF g(3)]]
      by (auto simp: key p_def io_def)
    define s' where "s' = put_cache (s1\<lparr>cs_devs := d'\<rparr>) i (c\<lparr>c_dirty := False, c_valid := True\<rparr>)"
    have run: "bread resume s dev block = Some (Inl i, s')"
      using g(1,3) False d'(1) by (simp add: bread_def s'_def c_def)
    have known1: "ok_blk (dev_ptr (cs_devs s1) (c_dev (caches s1 ! j))) (c_block (caches s1 ! j))"
      if "j < cached s1" for j using inv(3) that by (simp add: disks_ok_def)
    have bufs: "io_buf io' (slot_data j) = io_buf io (slot_data j)" if "j < cached s1" "j \<noteq> i" for j
    proof -
      have "slot_data j \<noteq> slot_data i" using slot_data_inj [of j i] that g(3) n by auto
      then show ?thesis using law(3) buf [OF that(1)] by blast
    qed
    have "inv D s'"
      unfolding s'_def c_def
    proof (rule settle_transparent [OF inv(1,3) g(3), where io = io'])
      show "c_dev (caches s1 ! i) \<in> D" using key kn by (simp add: c_def)
      show "\<forall>j < cached s1. j \<noteq> i \<longrightarrow> c_valid (caches s1 ! j) \<longrightarrow> \<not> c_dirty (caches s1 ! j) \<longrightarrow>
          io_buf io' (slot_data j) = io_disk io' (dev_ptr d' (c_dev (caches s1 ! j))) (c_block (caches s1 ! j))"
        using inv(2) bufs law(4) known1 slot by (simp add: clean_agrees_def d' io_def)
      show "io_buf io' (slot_data i) = io_disk io' (dev_ptr d' (c_dev (caches s1 ! i))) (c_block (caches s1 ! i))"
        using law(2,4) kn(1) key by (simp add: d' c_def p_def)
    qed (use d' in auto)
    then have wf': "cache_wf {} s'" by (simp add: cache_inv_def)
    have sel: "cached s' = cached s1" "cs_devs s' = d'" by (simp_all add: s'_def put_cache_def)
    have self: "caches s' ! i = c\<lparr>c_dirty := False, c_valid := True\<rparr>"
      using g(3) by (simp add: s'_def put_cache_def)
    have other: "j \<noteq> i \<Longrightarrow> caches s' ! j = caches s1 ! j" for j by (simp add: s'_def put_cache_def)
    have here: "cont s1 dev block = io_disk io p block"
    proof -
      have "\<forall>k < cached s1. key_of s1 k = (dev, block) \<longrightarrow> \<not> c_valid (caches s1 ! k)"
      proof (intro allI impI)
        fix k assume "k < cached s1" "key_of s1 k = (dev, block)"
        then have "k = i" using inv(1) g(3,4) by (auto simp: cache_wf_def keys_ok_def dest: inj_onD)
        then show "\<not> c_valid (caches s1 ! k)" using False by simp
      qed
      then show ?thesis using contents_miss [OF inv(1)] by (simp add: io_def p_def)
    qed
    have "cont s' d b = cont s1 d b" if kdb: "known D s d b" for d b
      using inv(1)
    proof (cases rule: contents_cases [where dev = d and block = b])
      case (hit j)
      then have "j \<noteq> i" using False by auto
      then show ?thesis
        using contents_hit [OF inv(1) hit] contents_hit [OF wf', of j d b] hit bufs slot
        by (simp add: sel other d' io_def)
    next
      case miss
      show ?thesis
      proof (cases "(d, b) = (dev, block)")
        case True
        then show ?thesis
          using contents_hit [OF wf', of i dev block] g(3,4) here law(2) slot
          by (simp add: sel self c_def d' key)
      next
        case dn: False
        have "\<forall>k < cached s'. key_of s' k = (d, b) \<longrightarrow> \<not> c_valid (caches s' ! k)"
        proof (intro allI impI)
          fix k assume k: "k < cached s'" "key_of s' k = (d, b)"
          then have "k \<noteq> i" using dn key by (auto simp: self)
          then show "\<not> c_valid (caches s' ! k)" using miss k by (simp add: other sel)
        qed
        then show ?thesis
          using contents_miss [OF inv(1) miss] contents_miss [OF wf'] law(4) kdb
          by (simp add: sel d' io_def g(6))
      qed
    qed
    moreover have "io_buf (dv_io (cs_devs s')) (c_data (caches s' ! i)) = cont s dev block"
      using here law(2) g(7) key by (simp add: sel d' self)
    ultimately show ?thesis
      using run \<open>inv D s'\<close> g d' by (auto simp: sel self c_def)
  qed
qed

lemma bwrite_transparent:
  assumes "inv D s" "i < cached s" "c_dirty (caches s ! i)" "c_valid (caches s ! i)"
  shows "\<exists>s'. bwrite resume s i = Some (Inl (), s') \<and> inv D s' \<and> \<not> c_dirty (caches s' ! i) \<and>
     io_disk (dv_io (cs_devs s')) (dev_ptr (cs_devs s') (c_dev (caches s ! i))) (c_block (caches s ! i)) =
       io_buf (dv_io (cs_devs s)) (c_data (caches s ! i)) \<and>
     (\<forall>d b. known D s d b \<longrightarrow> cont s' d b = cont s d b)"
proof -
  have inv: "cache_wf {} s" "clean_agrees io_buf io_disk s" "disks_ok rd wr ok_blk D s"
    using assms(1) by (auto simp: cache_inv_def)
  define c where "c = caches s ! i"
  define io where "io = dv_io (cs_devs s)"
  define p where "p = dev_ptr (cs_devs s) (c_dev c)"
  have slot: "j < cached s \<Longrightarrow> c_data (caches s ! j) = slot_data j" for j
    using inv(1) by (simp add: cache_wf_def layout_ok_def)
  have n: "cached s < 4000" using inv(1) by (simp add: cache_wf_def layout_ok_def)
  have buf: "j < cached s \<Longrightarrow> ok_buf (slot_data j)" for j using slot_ok n by simp
  have cs: "c_data c = slot_data i" "c_valid c" "c_dirty c" using assms slot by (simp_all add: c_def)
  have D: "c_dev c \<in> D" "ok_blk p (c_block c)" "block_dev rd wr (cs_devs s) (c_dev c)" "inj_on (dev_ptr (cs_devs s)) D"
    using inv(3) assms(2) by (auto simp: disks_ok_def c_def p_def)
  obtain r io' where law: "wr p (slot_data i) 2 (c_block c * 2) 0 io = Some (r, io')"
      "io_disk io' p (c_block c) = io_buf io (slot_data i)"
      "\<forall>b'. ok_buf b' \<longrightarrow> io_buf io' b' = io_buf io b'"
      "\<forall>p' k'. ok_blk p' k' \<longrightarrow> (p', k') \<noteq> (p, c_block c) \<longrightarrow> io_disk io' p' k' = io_disk io p' k'"
    using write_law [OF buf [OF assms(2)] D(2), of io] by blast
  have rw: "(if REQUEST_WRITE = REQUEST_READ then rd else wr) = wr" by (simp add: REQUEST_READ_def REQUEST_WRITE_def)
  obtain d' where d': "block_request resume s c REQUEST_WRITE = Some (Inl (), s\<lparr>cs_devs := d'\<rparr>)"
      "dv_io d' = io'" "dev_ptr d' = dev_ptr (cs_devs s)"
      "\<forall>rd wr x. block_dev rd wr (cs_devs s) x \<longrightarrow> block_dev rd wr d' x"
    using block_request_runs [OF D(3), of REQUEST_WRITE r io' resume] law(1) buf_nonnull [OF buf [OF assms(2)]]
    by (auto simp: cs rw simp flip: p_def io_def)
  define s' where "s' = put_cache (s\<lparr>cs_devs := d'\<rparr>) i (c\<lparr>c_dirty := False, c_valid := True\<rparr>)"
  have run: "bwrite resume s i = Some (Inl (), s')"
    using assms(2) cs d'(1) by (simp add: bwrite_def s'_def flip: c_def)
  have unique: "key_of s j = (c_dev c, c_block c) \<Longrightarrow> j < cached s \<Longrightarrow> j = i" for j
    using inv(1) assms(2) by (auto simp: cache_wf_def keys_ok_def c_def dest: inj_onD)
  have ptr_ne: "(dev_ptr (cs_devs s) d, b) \<noteq> (p, c_block c)" if "d \<in> D" "(d, b) \<noteq> (c_dev c, c_block c)" for d b
    using D(1,4) that by (auto simp: p_def dest: inj_onD)
  have disk_same: "io_disk io' (dev_ptr (cs_devs s) d) b = io_disk io (dev_ptr (cs_devs s) d) b"
    if "known D s d b" "(d, b) \<noteq> (c_dev c, c_block c)" for d b
    using law(4) ptr_ne that by blast
  have kn: "known D s (c_dev (caches s ! j)) (c_block (caches s ! j))" if "j < cached s" for j
    using inv(3) that by (simp add: disks_ok_def)
  have inv': "inv D s'"
    unfolding s'_def c_def
  proof (rule settle_transparent [OF inv(1,3) assms(2), where io = io'])
    show "c_dev (caches s ! i) \<in> D" using D(1) by (simp add: c_def)
    show "\<forall>j < cached s. j \<noteq> i \<longrightarrow> c_valid (caches s ! j) \<longrightarrow> \<not> c_dirty (caches s ! j) \<longrightarrow>
        io_buf io' (slot_data j) = io_disk io' (dev_ptr d' (c_dev (caches s ! j))) (c_block (caches s ! j))"
    proof (intro allI impI)
      fix j assume j: "j < cached s" "j \<noteq> i" "c_valid (caches s ! j)" "\<not> c_dirty (caches s ! j)"
      have "key_of s j \<noteq> (c_dev c, c_block c)" using unique j by blast
      then show "io_buf io' (slot_data j) = io_disk io' (dev_ptr d' (c_dev (caches s ! j))) (c_block (caches s ! j))"
        using disk_same [OF kn [OF j(1)]] inv(2) j law(3) buf slot
        by (simp add: clean_agrees_def d' io_def)
    qed
    show "io_buf io' (slot_data i) = io_disk io' (dev_ptr d' (c_dev (caches s ! i))) (c_block (caches s ! i))"
      using law(2,3) buf assms(2) by (simp add: d' p_def c_def)
  qed (use d' in auto)
  then have wf': "cache_wf {} s'" by (simp add: cache_inv_def)
  have sel: "cached s' = cached s" "cs_devs s' = d'" by (simp_all add: s'_def put_cache_def)
  have self: "caches s' ! i = c\<lparr>c_dirty := False, c_valid := True\<rparr>"
    using assms(2) by (simp add: s'_def put_cache_def)
  have other: "j \<noteq> i \<Longrightarrow> caches s' ! j = caches s ! j" for j by (simp add: s'_def put_cache_def)
  have same: "c_dev (caches s' ! j) = c_dev (caches s ! j)" "c_block (caches s' ! j) = c_block (caches s ! j)"
      "c_data (caches s' ! j) = c_data (caches s ! j)" "c_valid (caches s' ! j) = c_valid (caches s ! j)" for j
    using cs by (cases "j = i"; simp add: self other c_def)+
  have "cont s' d b = cont s d b" if kdb: "known D s d b" for d b
    using inv(1)
  proof (cases rule: contents_cases [where dev = d and block = b])
    case (hit j)
    then show ?thesis
      using contents_hit [OF inv(1) hit] contents_hit [OF wf', of j d b] law(3) buf slot
      by (simp add: sel same d' io_def)
  next
    case miss
    have "(d, b) \<noteq> (c_dev c, c_block c)" using miss assms(2) cs by (auto simp: c_def)
    then show ?thesis
      using contents_miss [OF inv(1) miss] contents_miss [OF wf', of d b] miss disk_same [OF kdb]
      by (simp add: sel same d' io_def)
  qed
  then show ?thesis using run inv' law(2) cs by (auto simp: sel self d' p_def c_def io_def)
qed

text \<open>
  A client stores into the buffer of a cache it holds and marks it dirty: the contents of that block
  change to the buffer, those of no other.
\<close>

lemma store_transparent:
  assumes "inv D s" "i < cached s" "c_valid (caches s ! i)" "0 < c_count (caches s ! i)"
    and io': "\<forall>b. ok_buf b \<longrightarrow> b \<noteq> c_data (caches s ! i) \<longrightarrow> io_buf io' b = io_buf (dv_io (cs_devs s)) b"
      "\<forall>p k. ok_blk p k \<longrightarrow> io_disk io' p k = io_disk (dv_io (cs_devs s)) p k"
  defines "s' \<equiv> put_cache (s\<lparr>cs_devs := (cs_devs s)\<lparr>dv_io := io'\<rparr>\<rparr>) i ((caches s ! i)\<lparr>c_dirty := True\<rparr>)"
  shows "inv D s' \<and> (\<forall>d b. known D s d b \<longrightarrow> cont s' d b =
     (if (d, b) = key_of s i then io_buf io' (c_data (caches s ! i)) else cont s d b))"
proof -
  have inv: "cache_wf {} s" "clean_agrees io_buf io_disk s" "disks_ok rd wr ok_blk D s"
    using assms(1) by (auto simp: cache_inv_def)
  define d' where "d' = (cs_devs s)\<lparr>dv_io := io'\<rparr>"
  have d': "dv_io d' = io'" "dev_ptr d' = dev_ptr (cs_devs s)"
      "block_dev rd wr d' x = block_dev rd wr (cs_devs s) x" for x
    by (auto simp: d'_def fun_eq_iff dev_ptr_def block_dev_def)
  have "cache_wf {} (s\<lparr>cs_devs := d'\<rparr>)"
    using inv(1) by (simp add: cache_wf_def chains_ok_def keys_ok_def refs_ok_def layout_ok_def)
  then have wf': "cache_wf {} s'" unfolding s'_def d'_def [symmetric] using assms(2,4) by (intro rehash_wf) simp_all
  have sel: "cached s' = cached s" "cs_devs s' = d'" by (simp_all add: s'_def put_cache_def d'_def)
  have self: "caches s' ! i = (caches s ! i)\<lparr>c_dirty := True\<rparr>" using assms(2) by (simp add: s'_def put_cache_def)
  have other: "j \<noteq> i \<Longrightarrow> caches s' ! j = caches s ! j" for j by (simp add: s'_def put_cache_def)
  have same: "c_dev (caches s' ! j) = c_dev (caches s ! j)" "c_block (caches s' ! j) = c_block (caches s ! j)"
      "c_data (caches s' ! j) = c_data (caches s ! j)" "c_valid (caches s' ! j) = c_valid (caches s ! j)" for j
    by (cases "j = i"; simp add: self other)+
  have slot: "j < cached s \<Longrightarrow> c_data (caches s ! j) = slot_data j" for j
    using inv(1) by (simp add: cache_wf_def layout_ok_def)
  have n: "cached s < 4000" using inv(1) by (simp add: cache_wf_def layout_ok_def)
  have bufs: "io_buf io' (c_data (caches s ! j)) = io_buf (dv_io (cs_devs s)) (c_data (caches s ! j))"
    if "j < cached s" "j \<noteq> i" for j
  proof -
    have "slot_data j \<noteq> slot_data i" using slot_data_inj [of j i] that assms(2) n by auto
    then show ?thesis using io'(1) slot_ok [of j] that n slot assms(2) by simp
  qed
  have kn: "ok_blk (dev_ptr (cs_devs s) (c_dev (caches s ! j))) (c_block (caches s ! j))" if "j < cached s" for j
    using inv(3) that by (simp add: disks_ok_def)
  have "clean_agrees io_buf io_disk s'"
    unfolding clean_agrees_def sel d'(1)
  proof (intro allI impI)
    fix j assume j: "j < cached s" "c_valid (caches s' ! j)" "\<not> c_dirty (caches s' ! j)"
    have "j \<noteq> i" using j(3) self by auto
    then show "io_buf io' (c_data (caches s' ! j)) = io_disk io' (dev_ptr d' (c_dev (caches s' ! j))) (c_block (caches s' ! j))"
      using inv(2) j bufs [OF j(1)] io'(2) kn [OF j(1)] by (simp add: clean_agrees_def d' other)
  qed
  moreover have "disks_ok rd wr ok_blk D s'" using inv(3) by (simp add: disks_ok_def sel d' same)
  moreover have "cont s' d b = (if (d, b) = key_of s i then io_buf io' (c_data (caches s ! i)) else cont s d b)"
    if kdb: "known D s d b" for d b
    using inv(1)
  proof (cases rule: contents_cases [where dev = d and block = b])
    case (hit j)
    have "(d, b) = key_of s i \<longleftrightarrow> j = i"
      using inv(1) assms(2) hit by (auto simp: cache_wf_def keys_ok_def dest: inj_onD)
    then show ?thesis
      using contents_hit [OF inv(1) hit] contents_hit [OF wf', of j d b] hit bufs
      by (simp add: sel same d')
  next
    case miss
    then have ne: "(d, b) \<noteq> key_of s i" using assms(2,3) by auto
    have "cont s' d b = cont s d b"
      using contents_miss [OF inv(1) miss] contents_miss [OF wf', of d b] miss io'(2) kdb
      by (simp add: sel same d')
    then show ?thesis by (simp only: if_not_P [OF ne])
  qed
  ultimately show ?thesis using wf' by (simp add: cache_inv_def)
qed

end

section \<open>The cache over RAM disks\<close>

interpretation ram: cached_driver "ramdisk_read ramdisks" "ramdisk_write ramdisks" kilobyte
    "\<lambda>m p k. kilobyte m (ramdisk_block p k)" cache_buffer ramdisk_has
proof unfold_locales
  fix i :: nat assume i: "i < 4000"
  then have "0xC0BFFC00 - 1024 * i = 1024 * (0x302FFF - i)" by simp
  then have "slot_data i = of_nat (1024 * (0x302FFF - i))" by (simp only: slot_data_def)
  moreover have "0x302000 \<le> 0x302FFF - i" "0x302FFF - i < 0x303000" using i by simp_all
  ultimately show "cache_buffer (slot_data i)" unfolding cache_buffer_def by blast
qed

definition ram_inv :: "u32 set \<Rightarrow> mem cachest \<Rightarrow> bool" where
  "ram_inv D s \<longleftrightarrow> cache_inv (ramdisk_read ramdisks) (ramdisk_write ramdisks) kilobyte
     (\<lambda>m p k. kilobyte m (ramdisk_block p k)) ramdisk_has D s"

definition ram_contents :: "mem cachest \<Rightarrow> u32 \<Rightarrow> u32 \<Rightarrow> u8 list" where
  "ram_contents s dev block = contents kilobyte (\<lambda>m p k. kilobyte m (ramdisk_block p k)) s dev block"

definition on_ramdisk :: "u32 set \<Rightarrow> mem cachest \<Rightarrow> u32 \<Rightarrow> u32 \<Rightarrow> bool" where
  "on_ramdisk D s dev block \<longleftrightarrow> dev \<in> D \<and> ramdisk_has (dev_ptr (cs_devs s) dev) block"

text \<open>
  C5. Reading through the cache is transparent: as long as a buffer can be had without waiting,
  \<^verbatim>\<open>bread\<close> returns a referenced, valid buffer for the block asked for that holds the present contents
  of the block (those of a dirty buffer if there is one, otherwise the disk's), the cache stays
  consistent, and no block changes, whichever buffer was evicted.
\<close>
theorem cache_read_transparent:
  assumes "ram_inv D s" "on_ramdisk D s dev block" "has_room s"
  shows "\<exists>i s'. bread resume s dev block = Some (Inl i, s') \<and> ram_inv D s' \<and> i < cached s' \<and>
     key_of s' i = (dev, block) \<and> 0 < c_count (caches s' ! i) \<and> c_valid (caches s' ! i) \<and>
     kilobyte (dv_io (cs_devs s')) (c_data (caches s' ! i)) = ram_contents s dev block \<and>
     (\<forall>d b. on_ramdisk D s d b \<longrightarrow> ram_contents s' d b = ram_contents s d b)"
  using ram.bread_transparent [of D s dev block resume] assms
  unfolding ram_inv_def ram_contents_def on_ramdisk_def by blast

lemma kilobyte_frame:
  assumes "\<forall>a. a \<notin> region (slot_data i) 1024 \<longrightarrow> m' a = m a" "i < 4000"
    and "b = of_nat (1024 * x)" "x < 2 ^ 22" "b \<noteq> slot_data i"
  shows "kilobyte m' b = kilobyte m b"
proof -
  have "cache_buffer (slot_data i)" using ram.slot_ok assms(2) .
  then obtain y where y: "slot_data i = of_nat (1024 * y)" "y < 0x303000" by (auto simp: cache_buffer_def)
  then have "region b 1024 \<inter> region (slot_data i) 1024 = {}"
    using assms(3-5) kilobytes_disjoint [of x y] by auto
  then show ?thesis unfolding kilobyte_def using assms(1) by (intro bytes_at_frame) blast
qed

text \<open>
  C7. Writing through the cache: a client that holds a valid buffer changes bytes of it only, marks
  it dirty and calls \<^verbatim>\<open>bwrite\<close>; then the disk itself has the new bytes in that block, every other
  block has the contents it had, and the cache is consistent.
\<close>
theorem cache_write_through:
  assumes "ram_inv D s" "i < cached s" "c_valid (caches s ! i)" "0 < c_count (caches s ! i)"
    and "\<forall>a. a \<notin> region (c_data (caches s ! i)) 1024 \<longrightarrow> m' a = dv_io (cs_devs s) a"
  shows "\<exists>s'. bwrite resume (put_cache (s\<lparr>cs_devs := (cs_devs s)\<lparr>dv_io := m'\<rparr>\<rparr>) i
         ((caches s ! i)\<lparr>c_dirty := True\<rparr>)) i = Some (Inl (), s') \<and>
     ram_inv D s' \<and>
     kilobyte (dv_io (cs_devs s')) (ramdisk_block (dev_ptr (cs_devs s') (c_dev (caches s ! i))) (c_block (caches s ! i))) =
       kilobyte m' (c_data (caches s ! i)) \<and>
     (\<forall>d b. on_ramdisk D s d b \<longrightarrow> ram_contents s' d b =
        (if (d, b) = key_of s i then kilobyte m' (c_data (caches s ! i)) else ram_contents s d b))"
proof -
  have inv: "ram.inv D s" using assms(1) by (simp add: ram_inv_def)
  then have lay: "c_data (caches s ! i) = slot_data i" "i < 4000"
    using assms(2) by (auto simp: cache_inv_def cache_wf_def layout_ok_def)
  have far: "\<forall>b. cache_buffer b \<longrightarrow> b \<noteq> slot_data i \<longrightarrow> kilobyte m' b = kilobyte (dv_io (cs_devs s)) b"
    using kilobyte_frame [OF assms(5) [unfolded lay(1)] lay(2)] by (fastforce simp: cache_buffer_def)
  have blk: "\<forall>p k. ramdisk_has p k \<longrightarrow> kilobyte m' (ramdisk_block p k) = kilobyte (dv_io (cs_devs s)) (ramdisk_block p k)"
  proof (intro allI impI)
    fix p k assume "ramdisk_has p k"
    then obtain x where x: "ramdisk_block p k = of_nat (1024 * x)" "0x303000 \<le> x" "x < 2 ^ 22"
      using ramdisk_block_number by blast
    have "cache_buffer (slot_data i)" using ram.slot_ok lay(2) .
    then obtain y where y: "slot_data i = of_nat (1024 * y)" "y < 0x303000" by (auto simp: cache_buffer_def)
    have "ramdisk_block p k \<noteq> slot_data i"
    proof
      assume e: "ramdisk_block p k = slot_data i"
      have "region (of_nat (1024 * x)) 1024 \<inter> region (of_nat (1024 * y)) 1024 = {}"
        using kilobytes_disjoint [of x y] x y by auto
      moreover have "slot_data i \<in> region (slot_data i) 1024"
        unfolding region_iff by (rule exI [of _ 0]) simp
      ultimately show False using e x(1) y(1) by auto
    qed
    then show "kilobyte m' (ramdisk_block p k) = kilobyte (dv_io (cs_devs s)) (ramdisk_block p k)"
      using kilobyte_frame [OF assms(5) [unfolded lay(1)] lay(2) x(1,3)] by blast
  qed
  define s1 where "s1 = put_cache (s\<lparr>cs_devs := (cs_devs s)\<lparr>dv_io := m'\<rparr>\<rparr>) i ((caches s ! i)\<lparr>c_dirty := True\<rparr>)"
  have st: "ram.inv D s1 \<and> (\<forall>d b. ram.known D s d b \<longrightarrow> ram.cont s1 d b =
     (if (d, b) = key_of s i then kilobyte m' (c_data (caches s ! i)) else ram.cont s d b))"
    unfolding s1_def using ram.store_transparent [OF inv assms(2-4), of m'] far blk lay by simp
  have s1: "caches s1 ! i = (caches s ! i)\<lparr>c_dirty := True\<rparr>" "cached s1 = cached s" "dv_io (cs_devs s1) = m'"
      "dev_ptr (cs_devs s1) = dev_ptr (cs_devs s)"
    using assms(2) by (simp_all add: s1_def put_cache_def dev_ptr_def fun_eq_iff)
  show ?thesis
    using ram.bwrite_transparent [of D s1 i resume] st assms(2,3)
    unfolding s1_def [symmetric] ram_inv_def ram_contents_def on_ramdisk_def by (auto simp: s1)
qed

section \<open>A sleeper that is woken does not look again\<close>

text \<open>
  C25. A process that slept in \<^verbatim>\<open>get_free_cache\<close> does not look its block up again when it is woken: if
  another process has brought the block in meanwhile and holds it, \<^verbatim>\<open>getblk\<close> makes a second cache for
  the same block, and the two go separate ways.
\<close>
theorem getblk_sleeper_duplicates:
  assumes "cache_wf {} s" "j < cached s" "key_of s j = (dev, block)" "0 < c_count (caches s ! j)" "has_room s"
  shows "\<exists>i s'. getblk_resume resume s dev block = Some (Inl i, s') \<and> i \<noteq> j \<and> j < cached s' \<and> i < cached s' \<and>
     key_of s' i = (dev, block) \<and> key_of s' j = (dev, block)"
proof -
  obtain i s1 where g: "get_free_cache resume s = Some (Inl i, s1)" "cache_wf {i} s1" "i < cached s1"
      "cached s \<le> cached s1" "\<forall>k < cached s1. k \<noteq> i \<longrightarrow> k < cached s \<and> caches s1 ! k = caches s ! k"
    using get_free_cache_wf [OF assms(1,5)] by blast
  have ci: "c_count (caches s1 ! i) = 0" "\<not> c_dirty (caches s1 ! i)"
    using g(2,3) by (auto simp: cache_wf_def refs_ok_def)
  have ne: "i \<noteq> j"
  proof
    assume ij: "i = j"
    have "c_count (caches s ! j) = 0"
    proof (cases "get_new_cache s")
      case (Some r)
      then show ?thesis using g(1) ij assms(2) by (auto simp: get_free_cache_def get_new_cache_def split: if_splits)
    next
      case None
      have fl: "free_list s \<noteq> []"
        using None assms(5) by (auto simp: has_room_def get_new_cache_def split: if_splits)
      then have "i = last (free_list s)"
        using g(1) None by (auto simp: get_free_cache_def Let_def elim!: bind_eq_SomeE)
      then have "i \<in> set (free_list s)" using fl by simp
      then show ?thesis using assms(1) ij by (auto simp: cache_wf_def refs_ok_def)
    qed
    then show False using assms(4) by simp
  qed
  define c where "c = (caches s1 ! i)\<lparr>c_count := 1, c_dev := dev, c_block := block\<rparr>"
  define s2 where "s2 = put_cache s1 i c"
  have s2: "cached s2 = cached s1" "caches s2 ! i = c" "caches s2 ! j = caches s ! j" "hash_table s2 = hash_table s1"
    using g ne assms(2) by (simp_all add: s2_def put_cache_def)
  have "i \<notin> set (hash_table s1 ! hash dev block)"
    using g(2) by (simp add: cache_wf_def chains_ok_def)
  then have "hash_locate s2 i = Some (s2\<lparr>hash_table := (hash_table s1)[hash dev block := i # hash_table s1 ! hash dev block]\<rparr>)"
    using g(3) by (simp add: hash_locate_def s2 Let_def) (simp add: c_def)
  then have "getblk_resume resume s dev block =
      Some (Inl i, s2\<lparr>hash_table := (hash_table s1)[hash dev block := i # hash_table s1 ! hash dev block]\<rparr>)"
    using g(1,3) ci by (simp add: getblk_resume_def s2_def c_def)
  then show ?thesis using ne g assms(2,3) by (auto simp: s2 c_def)
qed

section \<open>Concrete states\<close>

definition demo_devs :: "mem devs" where
  "demo_devs = \<lparr>dv_kern = no_tasks,
     device_list = (map (\<lambda>i. null_device (of_nat i)) [0..<DEVICE_NR])[1 :=
       (null_device 1)\<lparr>d_type := DEV_BLOCK, d_subtype := DEV_RAMDISK, d_ioctl := Some (ramdisk_ioctl ramdisks),
         d_read := Some (ramdisk_read ramdisks), d_write := Some (ramdisk_write ramdisks)\<rparr>],
     dv_io = \<lambda>a. 7\<rparr>"

definition demo_cached :: "mem cachest" where
  "demo_cached = \<lparr>cs_devs = demo_devs,
     caches = [\<lparr>c_data = slot_data 0, c_dev = 1, c_block = 0, c_count = 1, c_dirty = False, c_valid = True\<rparr>],
     cache_ptr = KERNEL_PAGE_CACHE_VADDR + sizeof_cache, cache_data = slot_data 1, free_list = [],
     wait_list = 0, hash_table = (replicate 101 [])[1 := [0]]\<rparr>"

lemma demo_hash: "hash 1 0 = 1"
  by (simp add: hash_def HASH_COUNT_def unat_mod)

lemma demo_wf: "cache_wf {} demo_cached"
proof -
  have "chains_ok {} demo_cached"
    by (auto simp: chains_ok_def demo_cached_def demo_hash nth_list_update split: if_splits)
  moreover have "keys_ok {} demo_cached" by (auto simp: keys_ok_def demo_cached_def inj_on_def)
  moreover have "refs_ok {} demo_cached" by (auto simp: refs_ok_def demo_cached_def)
  moreover have "layout_ok demo_cached" by (simp add: layout_ok_def demo_cached_def)
  ultimately show ?thesis by (simp add: cache_wf_def)
qed

lemma demo_block_dev: "block_dev (ramdisk_read ramdisks) (ramdisk_write ramdisks) demo_devs 1" "dev_ptr demo_devs 1 = 0"
  by (simp_all add: block_dev_def dev_ptr_def demo_devs_def DEVICE_NR_def null_device_def DEV_BLOCK_def DEV_NULL_def Let_def)

lemma demo_same_bytes: "bytes_at (\<lambda>a. 7) p n = bytes_at (\<lambda>a. 7) q n"
  by (induction n arbitrary: p q) simp_all

lemma demo_has: "ramdisk_has 0 0"
  by (simp add: ramdisk_has_def)

lemma demo_inv: "ram_inv {1} demo_cached"
proof -
  have "clean_agrees kilobyte (\<lambda>m p k. kilobyte m (ramdisk_block p k)) demo_cached"
    unfolding clean_agrees_def kilobyte_def by (simp add: demo_cached_def demo_devs_def del: bytes_at.simps) (metis demo_same_bytes)
  moreover have "disks_ok (ramdisk_read ramdisks) (ramdisk_write ramdisks) ramdisk_has {1} demo_cached"
    using demo_block_dev demo_has by (simp add: disks_ok_def demo_cached_def)
  ultimately show ?thesis using demo_wf by (simp add: ram_inv_def cache_inv_def)
qed

lemma demo_room: "has_room demo_cached"
  by (simp add: has_room_def demo_cached_def KERNEL_PAGE_CACHE_VADDR_def sizeof_cache_def slot_data_def)

theorem cache_read_transparent_witness:
  "\<exists>i s'. bread 0 demo_cached 1 0 = Some (Inl i, s') \<and> ram_inv {1} s' \<and> i < cached s' \<and>
     key_of s' i = (1, 0) \<and> 0 < c_count (caches s' ! i) \<and> c_valid (caches s' ! i) \<and>
     kilobyte (dv_io (cs_devs s')) (c_data (caches s' ! i)) = ram_contents demo_cached 1 0"
proof -
  have "on_ramdisk {1} demo_cached 1 0"
    using demo_block_dev(2) demo_has by (simp add: on_ramdisk_def demo_cached_def)
  from cache_read_transparent [OF demo_inv this demo_room, of 0] show ?thesis by blast
qed

theorem cache_write_through_witness:
  "\<exists>s'. bwrite 0 (put_cache (demo_cached\<lparr>cs_devs := (cs_devs demo_cached)\<lparr>dv_io := (dv_io (cs_devs demo_cached))(0xC0BFFC00 := 9)\<rparr>\<rparr>) 0
         ((caches demo_cached ! 0)\<lparr>c_dirty := True\<rparr>)) 0 = Some (Inl (), s') \<and> ram_inv {1} s'"
proof -
  have "0xC0BFFC00 \<in> region (c_data (caches demo_cached ! 0)) 1024"
    unfolding region_iff by (rule exI [of _ 0]) (simp add: demo_cached_def slot_data_def)
  then have "\<forall>a. a \<notin> region (c_data (caches demo_cached ! 0)) 1024 \<longrightarrow>
      ((dv_io (cs_devs demo_cached))(0xC0BFFC00 := 9)) a = dv_io (cs_devs demo_cached) a"
    by auto
  moreover have "0 < cached demo_cached" "c_valid (caches demo_cached ! 0)" "0 < c_count (caches demo_cached ! 0)"
    by (simp_all add: demo_cached_def)
  ultimately show ?thesis using cache_write_through [OF demo_inv, of 0] by blast
qed

theorem getblk_sleeper_duplicates_witness:
  "\<exists>i s'. getblk_resume 0 demo_cached 1 0 = Some (Inl i, s') \<and> i \<noteq> 0 \<and> 0 < cached s' \<and> i < cached s' \<and>
     key_of s' i = (1, 0) \<and> key_of s' 0 = (1, 0)"
  by (rule getblk_sleeper_duplicates [OF demo_wf _ _ _ demo_room]) (simp_all add: demo_cached_def)

end
