(* ===== verification/Vsprintf.thy ===== *)
theory Vsprintf
  imports Stdlib
begin

text \<open>
  \<^verbatim>\<open>src/lib/vsprintf.c\<close>: formatted output. Format and result are byte lists without the
  terminator; reading the format at its end reads \<open>EOS\<close>. The arguments are the list that
  \<^verbatim>\<open>va_arg\<close> takes from, one constructor for each kind of argument; taking a missing argument or one of
  another kind has no defined value. A double is given by what the two casts of \<^verbatim>\<open>number\<close> make of it,
  its sign, integer part and millionths. Widths and precisions are \<open>int\<close>.

  Shown: a decimal conversion reads back with \<^verbatim>\<open>atoi\<close>, whatever its flags, width and precision, and
  fills its field exactly.
\<close>

section \<open>Numbers\<close>

definition ZEROPAD :: u32 where "ZEROPAD = 0x01"
definition SIGN :: u32 where "SIGN = 0x02"
definition PLUS :: u32 where "PLUS = 0x04"
definition SPACE :: u32 where "SPACE = 0x08"
definition LEFT :: u32 where "LEFT = 0x10"
definition SPECIAL :: u32 where "SPECIAL = 0x20"
definition SMALL :: u32 where "SMALL = 0x40"
definition DOUBLE :: u32 where "DOUBLE = 0x80"

abbreviation has :: "u32 \<Rightarrow> u32 \<Rightarrow> bool" where
  "has flgs f \<equiv> flgs AND f \<noteq> 0"

datatype fmt_arg = A_int u32 | A_double bool u32 u32 | A_str "u8 list" | A_bytes "u8 list" | A_ptr u32

datatype num_arg = N_int u32 | N_double bool u32 u32

fun skip_atoi :: "u8 list \<Rightarrow> int \<Rightarrow> int \<times> u8 list" where
  "skip_atoi [] i = (i, [])"
| "skip_atoi (c # s) i = (if is_digit c then skip_atoi s (i * 10 + sint c - 48) else (i, c # s))"

text \<open>The character table: digits, then letters of the case asked for.\<close>

definition digit_char :: "bool \<Rightarrow> nat \<Rightarrow> u8" where
  "digit_char small i = (if i < 10 then of_nat i + 48 else of_nat (i - 10) + (if small then 97 else 65))"

text \<open>The digit loops, least significant digit first; the second one runs at least once.\<close>

function digit_loop :: "bool \<Rightarrow> nat \<Rightarrow> u32 \<Rightarrow> u8 list" where
  "digit_loop small base num =
     (if num = 0 \<or> base < 2 then []
      else digit_char small (unat num mod base) # digit_loop small base (of_nat (unat num div base)))"
  by pat_completeness auto
termination
proof (relation "measure (\<lambda>(_, _, num). unat num)")
  fix small and base :: nat and num :: u32
  assume "\<not> (num = 0 \<or> base < 2)"
  then have "unat num div base < unat num" by (simp add: unat_gt_0)
  moreover from this have "unat num div base < 2 ^ LENGTH(32)"
    using unat_lt2p [of num] by linarith
  ultimately show "((small, base, of_nat (unat num div base)), small, base, num) \<in> measure (\<lambda>(_, _, num). unat num)"
    by (simp add: unat_of_nat_less)
qed simp

declare digit_loop.simps [simp del]

definition digits_once :: "bool \<Rightarrow> nat \<Rightarrow> u32 \<Rightarrow> u8 list" where
  "digits_once small base num = (if num = 0 then [digit_char small 0] else digit_loop small base num)"

text \<open>\<^verbatim>\<open>while (size-- > 0)\<close>: what it prints, and the value it leaves.\<close>

definition pad_loop :: "u8 \<Rightarrow> int \<Rightarrow> u8 list" where
  "pad_loop c sz = replicate (nat sz) c"

definition after_loop :: "int \<Rightarrow> int" where
  "after_loop sz = (if sz > 0 then -1 else sz - 1)"

definition sign_char :: "num_arg \<Rightarrow> u32 \<Rightarrow> u8 option" where
  "sign_char num flgs =
     (let dneg = (case num of N_double neg _ _ \<Rightarrow> neg | N_int _ \<Rightarrow> False);
          neg = (case num of N_int n \<Rightarrow> sint n < 0 | N_double _ _ _ \<Rightarrow> False)
      in if has flgs DOUBLE \<and> dneg then Some 45
         else if has flgs SIGN \<and> \<not> has flgs DOUBLE \<and> neg then Some 45
         else if has flgs PLUS then Some 43
         else if has flgs SPACE then Some 32 else None)"

definition tmp_digits :: "num_arg \<Rightarrow> nat \<Rightarrow> u32 \<Rightarrow> u8 list" where
  "tmp_digits num base flgs = (case num of
      N_double neg ival fval \<Rightarrow>
        digits_once (has flgs SMALL) base fval @ [46] @ digits_once (has flgs SMALL) base ival
    | N_int n \<Rightarrow>
        (let n = (if has flgs SIGN \<and> sint n < 0 then - n else n)
         in if n = 0 then [48] else digit_loop (has flgs SMALL) base n))"

text \<open>
  \<^verbatim>\<open>number\<close>, as the text it appends; \<open>None\<close> is the null pointer it returns for a base outside 2 to 36.
  The flag \<open>DOUBLE\<close> is set exactly for a double.
\<close>

definition number :: "num_arg \<Rightarrow> nat \<Rightarrow> int \<Rightarrow> int \<Rightarrow> u32 \<Rightarrow> u8 list option" where
  "number num base sz precision flgs =
     (let flgs = (if has flgs LEFT then flgs AND NOT ZEROPAD else flgs)
      in if base < 2 \<or> base > 36 then None
      else
        (let pad = (if has flgs ZEROPAD then 48 else 32);
             sign = sign_char num flgs;
             sz = (if sign \<noteq> None then sz - 1 else sz);
             sz = (if has flgs SPECIAL then if base = 16 then sz - 2 else if base = 8 then sz - 1 else sz
                     else sz);
             tmp = tmp_digits num base flgs;
             i = int (length tmp);
             precision = (if i > precision then i else precision);
             sz = sz - precision;
             front = (if \<not> has flgs (ZEROPAD + LEFT) then pad_loop 32 sz else []);
             sz = (if \<not> has flgs (ZEROPAD + LEFT) then after_loop sz else sz);
             sgn = (case sign of None \<Rightarrow> [] | Some c \<Rightarrow> [c]);
             prefix = (if has flgs SPECIAL
                       then if base = 8 then [48] else if base = 16 then [48, digit_char (has flgs SMALL) 33] else []
                       else []);
             mid = (if \<not> has flgs LEFT then pad_loop pad sz else []);
             sz = (if \<not> has flgs LEFT then after_loop sz else sz);
             zeros = pad_loop 48 (precision - i)
         in Some (front @ sgn @ prefix @ mid @ zeros @ rev tmp @ pad_loop 32 sz)))"

section \<open>Formats\<close>

text \<open>The flags behind a percent sign; the list begins at the character after it.\<close>

fun parse_flags :: "u8 list \<Rightarrow> u32 \<Rightarrow> u32 \<times> u8 list" where
  "parse_flags [] flgs = (flgs, [])"
| "parse_flags (c # s) flgs =
     (if c = 45 then parse_flags s (flgs OR LEFT)
      else if c = 43 then parse_flags s (flgs OR PLUS)
      else if c = 32 then parse_flags s (flgs OR SPACE)
      else if c = 35 then parse_flags s (flgs OR SPECIAL)
      else if c = 48 then parse_flags s (flgs OR ZEROPAD)
      else (flgs, c # s))"

definition parse_width ::
  "u8 list \<Rightarrow> fmt_arg list \<Rightarrow> u32 \<Rightarrow> (int \<times> u32 \<times> u8 list \<times> fmt_arg list) option" where
  "parse_width fmt args flgs = (case fmt of
      [] \<Rightarrow> Some (-1, flgs, fmt, args)
    | c # s \<Rightarrow>
        (if is_digit c then (case skip_atoi fmt 0 of (w, fmt) \<Rightarrow> Some (w, flgs, fmt, args))
         else if c = 42 then
           (case args of
              A_int w # args \<Rightarrow> Some (if sint w < 0 then (- sint w, flgs OR LEFT, s, args) else (sint w, flgs, s, args))
            | _ \<Rightarrow> None)
         else Some (-1, flgs, fmt, args)))"

text \<open>A star for the precision takes an argument, but the format pointer stays on the star.\<close>

definition parse_precision :: "u8 list \<Rightarrow> fmt_arg list \<Rightarrow> (int \<times> u8 list \<times> fmt_arg list) option" where
  "parse_precision fmt args = (case fmt of
      c # s \<Rightarrow>
        (if c = 46 then do {
           (p, fmt, args) \<leftarrow> (case s of
               d # s' \<Rightarrow>
                 (if is_digit d then (case skip_atoi s 0 of (p, fmt) \<Rightarrow> Some (p, fmt, args))
                  else if d = 42 then
                    (case args of A_int p # args \<Rightarrow> Some (sint p, s, args) | _ \<Rightarrow> None)
                  else Some (-1, s, args))
             | [] \<Rightarrow> Some (-1, s, args));
           Some (if p < 0 then 0 else p, fmt, args) }
         else Some (-1, fmt, args))
    | [] \<Rightarrow> Some (-1, fmt, args))"

definition skip_qualifier :: "u8 list \<Rightarrow> u8 list" where
  "skip_qualifier fmt = (case fmt of
      c # s \<Rightarrow> if c = 104 \<or> c = 108 \<or> c = 76 then s else fmt
    | [] \<Rightarrow> fmt)"

definition conv_char :: "u8 \<Rightarrow> u32 \<Rightarrow> int \<Rightarrow> u8 list" where
  "conv_char c flgs width =
     (let front = (if \<not> has flgs LEFT then pad_loop 32 (width - 1) else []);
          width = (if \<not> has flgs LEFT then (if width > 0 then 0 else width - 1) else width)
      in front @ [c] @ pad_loop 32 (width - 1))"

definition conv_str :: "u8 list \<Rightarrow> u32 \<Rightarrow> int \<Rightarrow> int \<Rightarrow> u8 list" where
  "conv_str str flgs width precision =
     (let len = int (length str);
          len = (if precision < 0 then len else if len > precision then precision else len);
          front = (if \<not> has flgs LEFT then pad_loop 32 (width - len) else []);
          width = (if \<not> has flgs LEFT then (if len < width then len - 1 else width - 1) else width)
      in front @ take (nat len) str @ pad_loop 32 (width - len))"

text \<open>The bytes of an address, each a number followed by the separator, the last separator dropped.\<close>

fun conv_bytes :: "u8 list \<Rightarrow> nat \<Rightarrow> u8 \<Rightarrow> int \<Rightarrow> int \<Rightarrow> u32 \<Rightarrow> u8 list option" where
  "conv_bytes [] base sep width precision flgs = Some []"
| "conv_bytes (b # bs) base sep width precision flgs = do {
     t \<leftarrow> number (N_int (ucast b)) base width precision flgs;
     ts \<leftarrow> conv_bytes bs base sep width precision flgs;
     Some (t @ [sep] @ ts) }"

text \<open>
  One conversion: the text, the arguments and the format that are left, and what \<^verbatim>\<open>%n\<close> stores
  (\<open>out\<close> is the number of characters so far).
\<close>

definition conv_int :: "fmt_arg list \<Rightarrow> nat \<Rightarrow> int \<Rightarrow> int \<Rightarrow> u32 \<Rightarrow> (u8 list \<times> fmt_arg list) option" where
  "conv_int args base width precision flgs = (case args of
      A_int n # args \<Rightarrow> do { t \<leftarrow> number (N_int n) base width precision flgs; Some (t, args) }
    | _ \<Rightarrow> None)"

definition conv ::
  "u8 \<Rightarrow> fmt_arg list \<Rightarrow> u32 \<Rightarrow> int \<Rightarrow> int \<Rightarrow> nat \<Rightarrow> (u8 list \<times> fmt_arg list \<times> (u32 \<times> u32) list) option" where
  "conv c args flgs width precision out =
     (if c = 99 then (case args of A_int n # args \<Rightarrow> Some (conv_char (ucast n) flgs width, args, []) | _ \<Rightarrow> None)
      else if c = 115 then (case args of A_str str # args \<Rightarrow> Some (conv_str str flgs width precision, args, []) | _ \<Rightarrow> None)
      else if c = 111 then do { (t, args) \<leftarrow> conv_int args 8 width precision flgs; Some (t, args, []) }
      else if c = 112 then
        (let flgs' = (if width = -1 then flgs OR ZEROPAD else flgs);
             width' = (if width = -1 then 8 else width)
         in do { (t, args) \<leftarrow> conv_int args 16 width' precision flgs'; Some (t, args, []) })
      else if c = 120 then do { (t, args) \<leftarrow> conv_int args 16 width precision (flgs OR SMALL); Some (t, args, []) }
      else if c = 88 then do { (t, args) \<leftarrow> conv_int args 16 width precision flgs; Some (t, args, []) }
      else if c = 100 \<or> c = 105 then do { (t, args) \<leftarrow> conv_int args 10 width precision (flgs OR SIGN); Some (t, args, []) }
      else if c = 117 then do { (t, args) \<leftarrow> conv_int args 10 width precision flgs; Some (t, args, []) }
      else if c = 110 then (case args of A_ptr p # args \<Rightarrow> Some ([], args, [(p, of_nat out)]) | _ \<Rightarrow> None)
      else if c = 102 then (case args of
          A_double neg ival fval # args \<Rightarrow> do {
            t \<leftarrow> number (N_double neg ival fval) 10 width precision (flgs OR SIGN OR DOUBLE);
            Some (t, args, []) }
        | _ \<Rightarrow> None)
      else if c = 98 then do { (t, args) \<leftarrow> conv_int args 2 width precision flgs; Some (t, args, []) }
      else if c = 109 then (case args of
          A_bytes bs # args \<Rightarrow>
            if 6 \<le> length bs
            then do { t \<leftarrow> conv_bytes (take 6 bs) 16 58 2 precision (flgs OR (SMALL OR ZEROPAD)); Some (butlast t, args, []) }
            else None
        | _ \<Rightarrow> None)
      else if c = 114 then (case args of
          A_bytes bs # args \<Rightarrow>
            if 4 \<le> length bs
            then do { t \<leftarrow> conv_bytes (take 4 bs) 10 46 width precision (flgs OR SMALL); Some (butlast t, args, []) }
            else None
        | _ \<Rightarrow> None)
      else if c = 37 then Some ([37], args, [])
      else Some ([37, c], args, []))"

text \<open>
  Everything between a percent sign and its conversion character. At the end of the format the
  default case writes a percent sign only.
\<close>

definition directive ::
  "u8 list \<Rightarrow> fmt_arg list \<Rightarrow> nat \<Rightarrow> (u8 list \<times> u8 list \<times> fmt_arg list \<times> (u32 \<times> u32) list) option" where
  "directive fmt args out = do {
     let (flgs, fmt) = parse_flags fmt 0;
     (width, flgs, fmt, args) \<leftarrow> parse_width fmt args flgs;
     (precision, fmt, args) \<leftarrow> parse_precision fmt args;
     case skip_qualifier fmt of
       [] \<Rightarrow> Some ([37], [], args, [])
     | c # fmt \<Rightarrow> do {
         (t, args, st) \<leftarrow> conv c args flgs width precision out;
         Some (t, fmt, args, st) } }"

lemma parse_flags_length: "length (snd (parse_flags s f)) \<le> length s"
  by (induction s arbitrary: f) (auto intro: le_SucI)

lemma skip_atoi_length: "length (snd (skip_atoi s i)) \<le> length s"
  by (induction s arbitrary: i) (auto intro: le_SucI)

lemma parse_width_length: "parse_width s args f = Some (w, f', s', args') \<Longrightarrow> length s' \<le> length s"
  using skip_atoi_length [of s 0]
  by (auto simp: parse_width_def split: list.splits fmt_arg.splits if_splits prod.splits)

lemma parse_precision_length: "parse_precision s args = Some (p, s', args') \<Longrightarrow> length s' \<le> length s"
  using skip_atoi_length [of "tl s" 0]
  by (auto simp: parse_precision_def split: list.splits fmt_arg.splits if_splits prod.splits elim!: bind_eq_SomeE)

lemma directive_length: "directive s args out = Some (t, s', args', st) \<Longrightarrow> length s' \<le> length s"
proof -
  assume d: "directive s args out = Some (t, s', args', st)"
  obtain f s1 where f: "parse_flags s 0 = (f, s1)" by fastforce
  have "length s1 \<le> length s" using parse_flags_length [of s 0] f by simp
  moreover obtain w f2 s2 a2 where w: "parse_width s1 args f = Some (w, f2, s2, a2)"
    using d f by (auto simp: directive_def elim!: bind_eq_SomeE)
  moreover obtain p s3 a3 where p: "parse_precision s2 a2 = Some (p, s3, a3)"
    using d f w by (auto simp: directive_def elim!: bind_eq_SomeE)
  moreover have "length (skip_qualifier s3) \<le> length s3" by (auto simp: skip_qualifier_def split: list.split)
  moreover have "length s' \<le> length (skip_qualifier s3)"
    using d f w p by (auto simp: directive_def split: list.splits elim!: bind_eq_SomeE)
  ultimately show ?thesis using parse_width_length [OF w] parse_precision_length [OF p] by linarith
qed

function vsprintf_loop ::
  "u8 list \<Rightarrow> fmt_arg list \<Rightarrow> u8 list \<Rightarrow> (u32 \<times> u32) list \<Rightarrow> (u8 list \<times> (u32 \<times> u32) list) option" where
  "vsprintf_loop [] args out st = Some (out, st)"
| "vsprintf_loop (c # fmt) args out st =
     (if c \<noteq> 37 then vsprintf_loop fmt args (out @ [c]) st
      else (case directive fmt args (length out) of
          None \<Rightarrow> None
        | Some (t, fmt', args', st') \<Rightarrow> vsprintf_loop fmt' args' (out @ t) (st @ st')))"
  by pat_completeness auto
termination
  by (relation "measure (\<lambda>(fmt, _). length fmt)") (auto dest!: directive_length)

text \<open>The text, its length, and the stores of \<^verbatim>\<open>%n\<close>; 2048 characters or more stop the kernel.\<close>

definition vsprintf :: "u8 list \<Rightarrow> fmt_arg list \<Rightarrow> (u8 list \<times> nat \<times> (u32 \<times> u32) list) option" where
  "vsprintf fmt args = do {
     (out, st) \<leftarrow> vsprintf_loop fmt args [] [];
     kassert (length out < 2048);
     Some (out, length out, st) }"

definition sprintf :: "u8 list \<Rightarrow> fmt_arg list \<Rightarrow> (u8 list \<times> nat \<times> (u32 \<times> u32) list) option" where
  "sprintf fmt args = vsprintf fmt args"

section \<open>Decimal conversions read back\<close>

definition numeral_text :: "nat list \<Rightarrow> u8 list" where
  "numeral_text ds = map (\<lambda>d. of_nat d + 48) ds"

lemma digit_loop_decimal:
  "\<exists>ds. (\<forall>d \<in> set ds. d < 10) \<and> rev (digit_loop small 10 num) = numeral_text ds \<and>
     foldl (\<lambda>a d. a * 10 + d) 0 ds = unat num"
proof (induction small "10 :: nat" num rule: digit_loop.induct)
  case (1 small num)
  show ?case
  proof (cases "num = 0")
    case True
    then show ?thesis by (intro exI [of _ "[]"]) (simp add: digit_loop.simps numeral_text_def)
  next
    case False
    then obtain ds where ds: "\<forall>d \<in> set ds. d < 10"
        "rev (digit_loop small 10 (of_nat (unat num div 10))) = numeral_text ds"
        "foldl (\<lambda>a d. a * 10 + d) 0 ds = unat (of_nat (unat num div 10) :: u32)"
      using 1 by auto
    have "unat num div 10 < 2 ^ LENGTH(32)" using unat_lt2p [of num] by linarith
    then have q: "unat (of_nat (unat num div 10) :: u32) = unat num div 10" by (rule unat_of_nat_less)
    have "rev (digit_loop small 10 num) = numeral_text (ds @ [unat num mod 10])"
      using False ds(2) by (subst digit_loop.simps) (simp add: numeral_text_def digit_char_def)
    moreover have "foldl (\<lambda>a d. a * 10 + d) 0 (ds @ [unat num mod 10]) = unat num"
      using ds(3) by (simp add: q)
    moreover have "\<forall>d \<in> set (ds @ [unat num mod 10]). d < 10" using ds(1) by auto
    ultimately show ?thesis by blast
  qed
qed

lemma tmp_decimal:
  assumes "\<not> has flgs DOUBLE"
  shows "\<exists>ds. (\<forall>d \<in> set ds. d < 10) \<and> ds \<noteq> [] \<and> rev (tmp_digits (N_int n) 10 flgs) = numeral_text ds \<and>
     foldl (\<lambda>a d. a * 10 + d) 0 ds = unat (if has flgs SIGN \<and> sint n < 0 then - n else n)"
proof -
  define m where "m = (if has flgs SIGN \<and> sint n < 0 then - n else n)"
  show ?thesis
  proof (cases "m = 0")
    case True
    then show ?thesis
      by (intro exI [of _ "[0]"]) (simp add: tmp_digits_def numeral_text_def flip: m_def)
  next
    case False
    obtain ds where ds: "\<forall>d \<in> set ds. d < 10" "rev (digit_loop (has flgs SMALL) 10 m) = numeral_text ds"
        "foldl (\<lambda>a d. a * 10 + d) 0 ds = unat m"
      using digit_loop_decimal by blast
    have "ds \<noteq> []" using False ds(3) by (auto simp: unat_eq_0)
    then show ?thesis using False ds by (intro exI [of _ ds]) (simp add: tmp_digits_def Let_def flip: m_def)
  qed
qed

lemma atoi_skip_spaces: "atoi_skip (replicate k 32 @ s) = atoi_skip s"
  by (induction k) simp_all

lemma atoi_digits_text:
  assumes "\<forall>d \<in> set ds. d < 10"
  shows "atoi_digits (numeral_text ds @ replicate b 32) r = of_nat (foldl (\<lambda>a d. a * 10 + d) (unat r) ds)"
  using assms
proof (induction ds arbitrary: r)
  case Nil
  then show ?case by (cases b) (simp_all add: numeral_text_def is_digit_def)
next
  case (Cons d ds)
  have "of_nat (foldl (\<lambda>a d. a * 10 + d) (unat (r * 10 + of_nat d)) ds) =
        (of_nat (foldl (\<lambda>a d. a * 10 + d) (unat r * 10 + d) ds) :: u32)"
    by (rule foldl_digits_cong) simp
  with Cons show ?case by (simp add: numeral_text_def is_digit_of_nat)
qed

lemma foldl_leading_zeros: "foldl (\<lambda>a d. a * 10 + d) 0 (replicate k 0 @ ds) = foldl (\<lambda>a d. a * 10 + d) (0::nat) ds"
  by (induction k) simp_all

text \<open>Blanks, a sign, digits with leading zeros, blanks: the numeral that \<open>atoi\<close> reads.\<close>

lemma atoi_field:
  assumes "\<forall>d \<in> set ds. d < 10" "ds \<noteq> []" "sg \<in> {[], [32], [43], [45]}"
  shows "atoi (Some (replicate a 32 @ sg @ numeral_text ds @ replicate b 32)) =
     (if sg = [45] then - of_nat (foldl (\<lambda>a d. a * 10 + d) 0 ds) else of_nat (foldl (\<lambda>a d. a * 10 + d) 0 ds))"
proof -
  obtain d ds' where ds: "ds = d # ds'" using assms(2) by (cases ds) auto
  have "\<forall>d \<in> set [0..<10]. of_nat d + 48 \<noteq> (32::u8) \<and> of_nat d + 48 \<noteq> (45::u8) \<and> of_nat d + 48 \<noteq> (43::u8)"
    by code_simp
  then have c: "of_nat d + 48 \<noteq> (32::u8)" "of_nat d + 48 \<noteq> (45::u8)" "of_nat d + 48 \<noteq> (43::u8)"
    using assms(1) ds by auto
  have dig: "atoi_digits ((of_nat d + 48) # numeral_text ds' @ replicate b 32) 0 =
      of_nat (foldl (\<lambda>a d. a * 10 + d) 0 ds)"
    using atoi_digits_text [OF assms(1), of b 0] by (simp add: ds numeral_text_def)
  show ?thesis
    using assms(3) c dig
    by (auto simp: atoi_def atoi_skip_spaces ds numeral_text_def simp del: atoi_digits.simps)
qed

lemma clear_zeropad:
  "(flgs AND NOT ZEROPAD) AND LEFT = flgs AND LEFT" "(flgs AND NOT ZEROPAD) AND SPECIAL = flgs AND SPECIAL"
  "(flgs AND NOT ZEROPAD) AND DOUBLE = flgs AND DOUBLE" "(flgs AND NOT ZEROPAD) AND SIGN = flgs AND SIGN"
  "(flgs AND NOT ZEROPAD) AND ZEROPAD = 0"
  by (simp_all add: ZEROPAD_def LEFT_def SPECIAL_def DOUBLE_def SIGN_def and.assoc)

lemma pad_flags: "flgs AND (ZEROPAD + LEFT) = 0 \<longleftrightarrow> flgs AND ZEROPAD = 0 \<and> flgs AND LEFT = 0"
proof -
  have "ZEROPAD + LEFT = (ZEROPAD OR LEFT)" by (simp add: ZEROPAD_def LEFT_def)
  then show ?thesis by (simp add: bit.conj_disj_distrib or_eq_0_iff)
qed

lemma replicate_zero_text: "replicate k 48 @ numeral_text ds = numeral_text (replicate k 0 @ ds)"
  by (induction k) (simp_all add: numeral_text_def)

lemma sign_char_int:
  assumes "\<not> has flgs DOUBLE"
  shows "sign_char (N_int n) flgs \<in> {None, Some 32, Some 43, Some 45}"
    "sign_char (N_int n) flgs = Some 45 \<longleftrightarrow> has flgs SIGN \<and> sint n < 0"
  using assms by (auto simp: sign_char_def Let_def)

text \<open>The shape of a decimal field, and its width.\<close>

lemma number_decimal_shape:
  assumes "\<not> has flgs SPECIAL" "\<not> has flgs DOUBLE"
  shows "\<exists>a sg ds b. number (N_int n) 10 sz prec flgs =
        Some (replicate a 32 @ sg @ numeral_text ds @ replicate b 32) \<and>
     (\<forall>d \<in> set ds. d < 10) \<and> ds \<noteq> [] \<and> sg \<in> {[], [32], [43], [45]} \<and>
     (sg = [45] \<longleftrightarrow> has flgs SIGN \<and> sint n < 0) \<and>
     foldl (\<lambda>a d. a * 10 + d) 0 ds = unat (if has flgs SIGN \<and> sint n < 0 then - n else n) \<and>
     prec \<le> int (length ds) \<and> sz \<le> int (a + length sg + length ds + b)"
proof -
  define f where "f = (if has flgs LEFT then flgs AND NOT ZEROPAD else flgs)"
  have f: "f AND LEFT = flgs AND LEFT" "f AND SPECIAL = 0" "f AND DOUBLE = 0" "f AND SIGN = flgs AND SIGN"
    using assms by (auto simp: f_def clear_zeropad)
  have fz: "has f ZEROPAD \<Longrightarrow> \<not> has f LEFT" by (auto simp: f_def clear_zeropad split: if_splits)
  obtain ds where ds: "\<forall>d \<in> set ds. d < 10" "ds \<noteq> []" "rev (tmp_digits (N_int n) 10 f) = numeral_text ds"
      "foldl (\<lambda>a d. a * 10 + d) 0 ds = unat (if has flgs SIGN \<and> sint n < 0 then - n else n)"
    using tmp_decimal [of f n] f by auto
  have len: "length (tmp_digits (N_int n) 10 f) = length ds"
    using arg_cong [OF ds(3), of length] by (simp add: numeral_text_def)
  define sg where "sg = (case sign_char (N_int n) f of None \<Rightarrow> [] | Some c \<Rightarrow> [c])"
  have sg: "sg \<in> {[], [32], [43], [45]}" "sg = [45] \<longleftrightarrow> has flgs SIGN \<and> sint n < 0"
    using sign_char_int [of f n] f by (auto simp: sg_def split: option.splits)
  define p where "p = (if int (length ds) > prec then int (length ds) else prec)"
  define w where "w = sz - int (length sg) - p"
  define j where "j = nat (p - int (length ds))"
  have pj: "p = int (length ds) + int j" "prec \<le> p" by (simp_all add: p_def j_def)
  have num: "number (N_int n) 10 sz prec flgs = Some
     ((if f AND (ZEROPAD + LEFT) = 0 then pad_loop 32 w else []) @ sg @
      (if \<not> has f LEFT then pad_loop (if has f ZEROPAD then 48 else 32)
         (if f AND (ZEROPAD + LEFT) = 0 then after_loop w else w) else []) @
      replicate j 48 @ numeral_text ds @
      pad_loop 32 (if \<not> has f LEFT then after_loop (if f AND (ZEROPAD + LEFT) = 0 then after_loop w else w)
         else if f AND (ZEROPAD + LEFT) = 0 then after_loop w else w))"
    unfolding number_def f_def [symmetric] Let_def w_def p_def j_def sg_def
    by (cases "sign_char (N_int n) f") (simp_all add: f(2) len ds(3) pad_loop_def)
  have al: "after_loop x < 0" "pad_loop c (after_loop x) = []" "pad_loop c (after_loop (after_loop x)) = []" for x c
    by (auto simp: after_loop_def pad_loop_def)
  have ztext: "replicate k 48 @ replicate j 48 @ numeral_text ds = numeral_text (replicate (k + j) 0 @ ds)" for k
    using replicate_zero_text [of "k + j" ds] by (simp add: replicate_add)
  have digs: "\<forall>d \<in> set (replicate k 0 @ ds). d < 10" "replicate k 0 @ ds \<noteq> []"
     "foldl (\<lambda>a d. a * 10 + d) 0 (replicate k 0 @ ds) = unat (if has flgs SIGN \<and> sint n < 0 then - n else n)" for k
    using ds(1,2) by (auto simp: foldl_leading_zeros ds(4) simp del: foldl_append)
  consider (left) "has f LEFT" | (zero) "has f ZEROPAD" "\<not> has f LEFT" | (plain) "\<not> has f ZEROPAD" "\<not> has f LEFT"
    by blast
  then show ?thesis
  proof cases
    case left
    have "number (N_int n) 10 sz prec flgs = Some (replicate 0 32 @ sg @ numeral_text (replicate (0 + j) 0 @ ds) @ replicate (nat w) 32)"
      using left num ztext [of 0] by (simp add: pad_flags pad_loop_def)
    moreover have "sz \<le> int (0 + length sg + length (replicate (0 + j) 0 @ ds) + nat w)" "prec \<le> int (length (replicate (0 + j) 0 @ ds))"
      using pj by (simp_all add: w_def)
    ultimately show ?thesis using sg digs by blast
  next
    case zero
    have "number (N_int n) 10 sz prec flgs = Some (replicate 0 32 @ sg @ numeral_text (replicate (nat w + j) 0 @ ds) @ replicate 0 32)"
      using zero num ztext [of "nat w"] by (simp add: pad_flags pad_loop_def after_loop_def)
    moreover have "sz \<le> int (0 + length sg + length (replicate (nat w + j) 0 @ ds) + 0)" "prec \<le> int (length (replicate (nat w + j) 0 @ ds))"
      using pj by (simp_all add: w_def)
    ultimately show ?thesis using sg digs by blast
  next
    case plain
    have "number (N_int n) 10 sz prec flgs = Some (replicate (nat w) 32 @ sg @ numeral_text (replicate (0 + j) 0 @ ds) @ replicate 0 32)"
      using plain num ztext [of 0] by (simp add: pad_flags al) (simp add: pad_loop_def)
    moreover have "sz \<le> int (nat w + length sg + length (replicate (0 + j) 0 @ ds) + 0)" "prec \<le> int (length (replicate (0 + j) 0 @ ds))"
      using pj by (simp_all add: w_def)
    ultimately show ?thesis using sg digs by blast
  qed
qed

text \<open>
  C37. A decimal conversion reads back: for any flags without the alternative form, any width and any
  precision, \<^verbatim>\<open>number\<close> prints the integer so that \<^verbatim>\<open>atoi\<close> returns it, signed or unsigned, the most
  negative one included, and the field is at least as wide as asked.
\<close>
theorem decimal_reads_back:
  assumes "\<not> has flgs SPECIAL" "\<not> has flgs DOUBLE"
  shows "\<exists>t. number (N_int n) 10 sz prec flgs = Some t \<and> atoi (Some t) = n \<and> sz \<le> int (length t)"
proof -
  obtain a sg ds b where t: "number (N_int n) 10 sz prec flgs =
        Some (replicate a 32 @ sg @ numeral_text ds @ replicate b 32)"
     "\<forall>d \<in> set ds. d < 10" "ds \<noteq> []" "sg \<in> {[], [32], [43], [45]}"
     "sg = [45] \<longleftrightarrow> has flgs SIGN \<and> sint n < 0"
     "foldl (\<lambda>a d. a * 10 + d) 0 ds = unat (if has flgs SIGN \<and> sint n < 0 then - n else n)"
     "sz \<le> int (a + length sg + length ds + b)"
    using number_decimal_shape [OF assms] by blast
  have "atoi (Some (replicate a 32 @ sg @ numeral_text ds @ replicate b 32)) = n"
    unfolding atoi_field [OF t(2-4)] t(5,6) by simp
  then show ?thesis using t(1,7) by (simp add: numeral_text_def)
qed

theorem decimal_reads_back_witness:
  "\<exists>t. number (N_int 0x80000000) 10 14 12 (SIGN OR ZEROPAD) = Some t \<and> atoi (Some t) = 0x80000000 \<and> 14 \<le> int (length t)"
  by (rule decimal_reads_back) (simp_all add: SIGN_def ZEROPAD_def SPECIAL_def DOUBLE_def)

end
