(* ===== verification/Minix.thy ===== *)
theory Minix
  imports Cache
begin

text \<open>
  The formats of a MINIX V1 file system, \<^verbatim>\<open>src/include/lightos/fs.h\<close> and \<^verbatim>\<open>stat.h\<close>. The kernel
  reads and writes them through pointers into the data of a buffer; here a structure is a record, and
  \<open>get_\<dots>\<close> and \<open>put_\<dots>\<close> read and write it at an offset of a byte list, in the layout of the C structure on
  a little-endian machine. An assignment to one field is a \<open>put\<close> of the updated record.

  Shown: reading back what was written gives the record, other bytes keep their value, and structures
  at different indexes of a block do not overlap.
\<close>

section \<open>Constants and modes\<close>

definition FS_BOOT_BLOCK_NR :: u32 where "FS_BOOT_BLOCK_NR = 0"
definition FS_SUPER_BLOCK_NR :: u32 where "FS_SUPER_BLOCK_NR = 1"
definition FS_IMAP_BLOCK_NR :: u32 where "FS_IMAP_BLOCK_NR = 2"
definition MINIX_V1_MAGIC :: u16 where "MINIX_V1_MAGIC = 0x137F"
definition NAME_LEN :: nat where "NAME_LEN = 14"
definition IMAP_NR :: nat where "IMAP_NR = 8"
definition ZMAP_NR :: nat where "ZMAP_NR = 8"

definition sizeof_inode_desc :: u32 where "sizeof_inode_desc = 32"
definition sizeof_dentry :: u32 where "sizeof_dentry = 16"

definition BLOCK_BITS :: u32 where "BLOCK_BITS = BLOCK_SIZE * 8"
definition BLOCK_INODES :: u32 where "BLOCK_INODES = BLOCK_SIZE div sizeof_inode_desc"
definition BLOCK_DENTRIES :: u32 where "BLOCK_DENTRIES = BLOCK_SIZE div sizeof_dentry"
definition DIRECT_BLOCKS :: u32 where "DIRECT_BLOCKS = 7"
definition BLOCK_INDEXES :: u32 where "BLOCK_INDEXES = BLOCK_SIZE div 2"
definition INDIRECT1_BLOCKS :: u32 where "INDIRECT1_BLOCKS = BLOCK_INDEXES"
definition INDIRECT2_BLOCKS :: u32 where "INDIRECT2_BLOCKS = INDIRECT1_BLOCKS * INDIRECT1_BLOCKS"
definition TOTAL_BLOCKS :: u32 where "TOTAL_BLOCKS = DIRECT_BLOCKS + INDIRECT1_BLOCKS + INDIRECT2_BLOCKS"
definition FILE_MAX_SIZE :: u32 where "FILE_MAX_SIZE = BLOCK_SIZE"

lemmas fs_consts = FS_SUPER_BLOCK_NR_def FS_IMAP_BLOCK_NR_def sizeof_inode_desc_def sizeof_dentry_def
  BLOCK_BITS_def BLOCK_INODES_def BLOCK_DENTRIES_def DIRECT_BLOCKS_def BLOCK_INDEXES_def
  INDIRECT1_BLOCKS_def INDIRECT2_BLOCKS_def TOTAL_BLOCKS_def FILE_MAX_SIZE_def BLOCK_SIZE_def SECTOR_SIZE_def

definition O_RDONLY :: u32 where "O_RDONLY = 0"
definition O_WRONLY :: u32 where "O_WRONLY = 1"
definition O_RDWR :: u32 where "O_RDWR = 2"
definition O_ACCMODE :: u32 where "O_ACCMODE = 3"
definition O_CREAT :: u32 where "O_CREAT = 0x40"
definition O_TRUNC :: u32 where "O_TRUNC = 0x200"
definition O_APPEND :: u32 where "O_APPEND = 0x400"

definition P_EXEC :: u16 where "P_EXEC = 1"
definition P_WRITE :: u16 where "P_WRITE = 2"
definition P_READ :: u16 where "P_READ = 4"

text \<open>\<^verbatim>\<open>ACC_MODE\<close> indexes a string of \<^verbatim>\<open>char\<close>, which is signed: the last entry is -1.\<close>

definition ACC_MODE :: "u32 \<Rightarrow> u16" where
  "ACC_MODE x = (let i = x AND O_ACCMODE in
     if i = 0 then 4 else if i = 1 then 2 else if i = 2 then 6 else 0xFFFF)"

definition IFMT :: u32 where "IFMT = 0xF000"
definition IFREG :: u32 where "IFREG = 0x8000"
definition IFBLK :: u32 where "IFBLK = 0x6000"
definition IFDIR :: u32 where "IFDIR = 0x4000"
definition IFCHR :: u32 where "IFCHR = 0x2000"
definition ISVTX :: u32 where "ISVTX = 0x200"

text \<open>The type tests take the promoted value: a 16-bit mode is extended with zeros.\<close>

definition ISREG :: "u32 \<Rightarrow> bool" where "ISREG m \<longleftrightarrow> m AND IFMT = IFREG"
definition ISDIR :: "u32 \<Rightarrow> bool" where "ISDIR m \<longleftrightarrow> m AND IFMT = IFDIR"
definition ISCHR :: "u32 \<Rightarrow> bool" where "ISCHR m \<longleftrightarrow> m AND IFMT = IFCHR"
definition ISBLK :: "u32 \<Rightarrow> bool" where "ISBLK m \<longleftrightarrow> m AND IFMT = IFBLK"
definition ISFILE :: "u32 \<Rightarrow> bool" where "ISFILE m \<longleftrightarrow> ISREG m"

section \<open>Little-endian fields\<close>

definition get16 :: "u8 list \<Rightarrow> nat \<Rightarrow> u16" where
  "get16 d p = ucast (d ! p) OR push_bit 8 (ucast (d ! (p + 1)))"

definition put16 :: "u8 list \<Rightarrow> nat \<Rightarrow> u16 \<Rightarrow> u8 list" where
  "put16 d p w = d[p := ucast w, p + 1 := ucast (drop_bit 8 w)]"

definition get32 :: "u8 list \<Rightarrow> nat \<Rightarrow> u32" where
  "get32 d p = ucast (get16 d p) OR push_bit 16 (ucast (get16 d (p + 2)))"

definition put32 :: "u8 list \<Rightarrow> nat \<Rightarrow> u32 \<Rightarrow> u8 list" where
  "put32 d p w = put16 (put16 d p (ucast w)) (p + 2) (ucast (drop_bit 16 w))"

section \<open>Structures\<close>

record inode_desc =
  d_mode :: u16
  d_uid :: u16
  d_size :: u32
  d_mtime :: u32
  d_gid :: u8
  d_nlinks :: u8
  d_zone :: "u16 list"

definition get_desc :: "u8 list \<Rightarrow> nat \<Rightarrow> inode_desc" where
  "get_desc d p = \<lparr>d_mode = get16 d p, d_uid = get16 d (p + 2), d_size = get32 d (p + 4),
     d_mtime = get32 d (p + 8), d_gid = d ! (p + 12), d_nlinks = d ! (p + 13),
     d_zone = map (\<lambda>i. get16 d (p + 14 + 2 * i)) [0, 1, 2, 3, 4, 5, 6, 7, 8]\<rparr>"

fun put_zones :: "u8 list \<Rightarrow> nat \<Rightarrow> u16 list \<Rightarrow> u8 list" where
  "put_zones d p [] = d"
| "put_zones d p (z # zs) = put_zones (put16 d p z) (p + 2) zs"

definition put_desc :: "u8 list \<Rightarrow> nat \<Rightarrow> inode_desc \<Rightarrow> u8 list" where
  "put_desc d p x =
     (let d = put16 d p (d_mode x); d = put16 d (p + 2) (d_uid x); d = put32 d (p + 4) (d_size x);
          d = put32 d (p + 8) (d_mtime x); d = d[p + 12 := d_gid x, p + 13 := d_nlinks x]
      in put_zones d (p + 14) (d_zone x))"

record super_desc =
  sd_inodes :: u16
  sd_zones :: u16
  sd_imap_blocks :: u16
  sd_zmap_blocks :: u16
  sd_firstdatazone :: u16
  sd_log_zone_size :: u16
  sd_max_size :: u32
  sd_magic :: u16

definition get_super_desc :: "u8 list \<Rightarrow> super_desc" where
  "get_super_desc d = \<lparr>sd_inodes = get16 d 0, sd_zones = get16 d 2, sd_imap_blocks = get16 d 4,
     sd_zmap_blocks = get16 d 6, sd_firstdatazone = get16 d 8, sd_log_zone_size = get16 d 10,
     sd_max_size = get32 d 12, sd_magic = get16 d 16\<rparr>"

definition put_super_desc :: "u8 list \<Rightarrow> super_desc \<Rightarrow> u8 list" where
  "put_super_desc d x =
     (let d = put16 d 0 (sd_inodes x); d = put16 d 2 (sd_zones x); d = put16 d 4 (sd_imap_blocks x);
          d = put16 d 6 (sd_zmap_blocks x); d = put16 d 8 (sd_firstdatazone x);
          d = put16 d 10 (sd_log_zone_size x); d = put32 d 12 (sd_max_size x)
      in put16 d 16 (sd_magic x))"

text \<open>A directory entry: two bytes of inode number and fourteen of name.\<close>

definition entry_nr :: "u8 list \<Rightarrow> nat \<Rightarrow> u16" where
  "entry_nr d p = get16 d p"

definition set_entry_nr :: "u8 list \<Rightarrow> nat \<Rightarrow> u16 \<Rightarrow> u8 list" where
  "set_entry_nr d p w = put16 d p w"

text \<open>The name as the string routines see it: the bytes from its first on.\<close>

definition entry_name :: "u8 list \<Rightarrow> nat \<Rightarrow> u8 list" where
  "entry_name d p = drop (p + 2) d"

text \<open>
  \<^verbatim>\<open>strcpy(entry->name, s)\<close> and \<^verbatim>\<open>strncpy(entry->name, s, NAME_LEN)\<close>, which ends a name of fourteen
  characters or more with a zero in place of its last byte (see theory Strings).
\<close>

fun put_bytes :: "u8 list \<Rightarrow> nat \<Rightarrow> u8 list \<Rightarrow> u8 list" where
  "put_bytes d p [] = d"
| "put_bytes d p (b # bs) = put_bytes (d[p := b]) (p + 1) bs"

definition entry_strcpy :: "u8 list \<Rightarrow> nat \<Rightarrow> u8 list \<Rightarrow> u8 list" where
  "entry_strcpy d p s = put_bytes d (p + 2) (s @ [EOS])"

definition entry_strncpy :: "u8 list \<Rightarrow> nat \<Rightarrow> u8 list \<Rightarrow> u8 list" where
  "entry_strncpy d p s = put_bytes d (p + 2)
     (if length s < NAME_LEN then s @ [EOS] else take (NAME_LEN - 1) s @ [EOS])"

section \<open>Reading back\<close>

lemma length_put16 [simp]: "length (put16 d p w) = length d"
  by (simp add: put16_def)

lemma length_put32 [simp]: "length (put32 d p w) = length d"
  by (simp add: put32_def)

lemma length_put_zones [simp]: "length (put_zones d p zs) = length d"
  by (induction zs arbitrary: d p) auto

lemma length_put_desc [simp]: "length (put_desc d p x) = length d"
  by (simp add: put_desc_def Let_def)

lemma length_put_super_desc [simp]: "length (put_super_desc d x) = length d"
  by (simp add: put_super_desc_def Let_def)

lemma length_put_bytes [simp]: "length (put_bytes d p bs) = length d"
  by (induction bs arbitrary: d p) auto

lemma join16: "ucast (ucast w :: u8) OR push_bit 8 (ucast (ucast (drop_bit 8 w) :: u8)) = (w :: u16)"
  by (rule bit_word_eqI) (auto simp: bit_simps)

lemma join32: "ucast (ucast w :: u16) OR push_bit 16 (ucast (ucast (drop_bit 16 w) :: u16)) = (w :: u32)"
  by (rule bit_word_eqI) (auto simp: bit_simps)

lemma nth_put16: "j \<noteq> p \<Longrightarrow> j \<noteq> p + 1 \<Longrightarrow> put16 d p w ! j = d ! j"
  by (simp add: put16_def)

lemma get16_put16 [simp]: "p + 1 < length d \<Longrightarrow> get16 (put16 d p w) p = w"
  by (simp add: get16_def put16_def join16)

lemma get16_put16_other [simp]: "q + 1 < p \<or> p + 1 < q \<Longrightarrow> get16 (put16 d p w) q = get16 d q"
  by (auto simp: get16_def nth_put16)

lemma get32_put32 [simp]: "p + 3 < length d \<Longrightarrow> get32 (put32 d p w) p = w"
  by (simp add: get32_def put32_def join32)

lemma get16_put32_other [simp]: "q + 1 < p \<or> p + 3 < q \<Longrightarrow> get16 (put32 d p w) q = get16 d q"
  by (auto simp: put32_def)

lemma get32_put16_other [simp]: "q + 3 < p \<or> p + 1 < q \<Longrightarrow> get32 (put16 d p w) q = get32 d q"
  by (auto simp: get32_def)

lemma get32_put32_other [simp]: "q + 3 < p \<or> p + 3 < q \<Longrightarrow> get32 (put32 d p w) q = get32 d q"
  by (auto simp: put32_def get32_def)

lemma nth_put32: "j < p \<or> p + 3 < j \<Longrightarrow> put32 d p w ! j = d ! j"
  by (auto simp: put32_def nth_put16)

lemma nth_put_zones: "j < p \<or> p + 2 * length zs \<le> j \<Longrightarrow> put_zones d p zs ! j = d ! j"
  by (induction zs arbitrary: d p) (auto simp: nth_put16)

lemma get16_put_zones_other: "q + 1 < p \<or> p + 2 * length zs \<le> q \<Longrightarrow> get16 (put_zones d p zs) q = get16 d q"
  by (auto simp: get16_def nth_put_zones)

lemma get16_put_zones:
  "i < length zs \<Longrightarrow> p + 2 * length zs \<le> length d \<Longrightarrow> get16 (put_zones d p zs) (p + 2 * i) = zs ! i"
proof (induction zs arbitrary: d p i)
  case (Cons z zs)
  show ?case
  proof (cases i)
    case 0
    then show ?thesis using Cons.prems by (simp add: get16_put_zones_other)
  next
    case (Suc j)
    then show ?thesis using Cons.prems Cons.IH [of j "p + 2" "put16 d p z"] by (simp add: algebra_simps)
  qed
qed simp

lemma get32_put_zones_other: "q + 3 < p \<Longrightarrow> get32 (put_zones d p zs) q = get32 d q"
  by (simp add: get32_def get16_put_zones_other)

lemma get16_list_update_other [simp]: "j < q \<or> q + 1 < j \<Longrightarrow> get16 (d[j := b]) q = get16 d q"
  by (auto simp: get16_def)

lemma get32_list_update_other [simp]: "j < q \<or> q + 3 < j \<Longrightarrow> get32 (d[j := b]) q = get32 d q"
  by (auto simp: get32_def)

lemma nine_zones:
  assumes "length zs = 9" shows "[zs ! 0, zs ! 1, zs ! 2, zs ! 3, zs ! 4, zs ! 5, zs ! 6, zs ! 7, zs ! 8] = zs"
  using assms by (auto simp: list_eq_iff_nth_eq less_Suc_eq nth_Cons numeral_eq_Suc split: nat.splits)

lemma desc_read_back:
  assumes "p + 32 \<le> length d" "length (d_zone x) = 9"
  shows "get_desc (put_desc d p x) p = x"
proof -
  have z: "get16 (put_zones e (p + 14) (d_zone x)) (p + 14 + 2 * i) = d_zone x ! i"
    if "i < 9" "length e = length d" for e i
    using that assms by (intro get16_put_zones) auto
  have zones: "map (\<lambda>i. get16 (put_zones e (p + 14) (d_zone x)) (p + 14 + 2 * i)) [0, 1, 2, 3, 4, 5, 6, 7, 8] = d_zone x"
    if "length e = length d" for e
  proof -
    have "map (\<lambda>i. get16 (put_zones e (p + 14) (d_zone x)) (p + 14 + 2 * i)) [0, 1, 2, 3, 4, 5, 6, 7, 8]
        = map (\<lambda>i. d_zone x ! i) [0, 1, 2, 3, 4, 5, 6, 7, 8]"
      using that by (intro map_cong refl z) auto
    then show ?thesis using nine_zones [OF assms(2)] by simp
  qed
  show ?thesis
    using assms unfolding get_desc_def put_desc_def Let_def
    by (subst zones) (simp_all add: get16_put_zones_other get32_put_zones_other nth_put_zones nth_put16 nth_put32 del: list.map)
qed

lemma put_desc_frame: "j < p \<or> p + 32 \<le> j \<Longrightarrow> length (d_zone x) = 9 \<Longrightarrow> put_desc d p x ! j = d ! j"
  by (auto simp: put_desc_def Let_def nth_put_zones nth_put16 nth_put32)

lemma desc_other_slot:
  assumes "q + 32 \<le> p \<or> p + 32 \<le> q" "length (d_zone x) = 9"
  shows "get_desc (put_desc d p x) q = get_desc d q"
  using assms by (auto simp: get_desc_def get16_def get32_def put_desc_frame)

lemma length_zones_get_desc [simp]: "length (d_zone (get_desc d p)) = 9"
  by (simp add: get_desc_def)

lemma super_desc_read_back: "20 \<le> length d \<Longrightarrow> get_super_desc (put_super_desc d x) = x"
  by (simp add: get_super_desc_def put_super_desc_def Let_def)

end
