(* ===== verification/Vfs.thy ===== *)
theory Vfs
  imports Minix Kfifo Timer
begin

text \<open>
  The state of the file system and the reference-counted objects in it: buffers as the file system
  sees them, the super block table (\<^verbatim>\<open>src/fs/super.c\<close>) and the inode table (\<^verbatim>\<open>src/fs/inode.c\<close>).

  A pointer into one of the tables is an index, a pointer to a buffer its key, the device and block
  number. The descriptor of an inode is not part of its record: \<open>desc\<close> points into a buffer, so two
  inodes of one block share it, and reading a field reads the buffer's bytes. The reference counts of
  inodes and files are those of the kernel record of theory Task, which \<open>task_create\<close> also changes.
  \<open>pwd_room\<close> is the size of the heap block that a task's \<open>pwd\<close> points to.

  \<open>buf_bread\<close>, \<open>buf_bwrite\<close> and \<open>buf_brelse\<close> are \<open>bread\<close>, \<open>bwrite\<close> and \<open>brelse\<close> without the
  choice of a cache structure: theory Cache shows that a buffer always holds the contents of its block
  whatever is evicted. Processes waiting for buffers or the disk are the subject of that theory and of
  theory Device; here every transfer ends before the next step.
\<close>

section \<open>State\<close>

type_synonym bkey = "u32 \<times> u32"

record buffer =
  b_data :: "u8 list"
  b_count :: int
  b_dirty :: bool
  b_valid :: bool

record inode =
  i_cache :: bkey
  i_slot :: nat
  i_dev :: u32
  i_nr :: u32
  i_atime :: u32
  i_ctime :: u32
  i_mount :: u32
  i_rxwaiter :: "nat option"
  i_txwaiter :: "nat option"
  i_pipe :: bool
  i_fifo :: kfifo

record super_block =
  s_cache :: "bkey option"
  s_imaps :: "bkey option list"
  s_zmaps :: "bkey option list"
  s_dev :: u32
  s_count :: u32
  s_inodes :: "nat list"
  s_iroot :: "nat option"
  s_imount :: "nat option"

record file_t =
  f_inode :: "nat option"
  f_offset :: u32
  f_flags :: u32
  f_mode :: u32

record vfs =
  clk :: clock
  bufs :: "bkey \<Rightarrow> buffer"
  disk :: "bkey \<Rightarrow> u8 list"
  inode_table :: "inode list"
  super_table :: "super_block list"
  file_table :: "file_t list"
  root_super :: "nat option"
  pwd_room :: "nat \<Rightarrow> nat"

definition INODE_NR :: nat where "INODE_NR = 64"
definition SUPER_NR :: nat where "SUPER_NR = 16"
definition FILE_NR :: nat where "FILE_NR = 128"

abbreviation kern_of :: "vfs \<Rightarrow> kernel" where "kern_of s \<equiv> kern (clk s)"

definition set_kern :: "vfs \<Rightarrow> kernel \<Rightarrow> vfs" where
  "set_kern s k = s\<lparr>clk := (clk s)\<lparr>kern := k\<rparr>\<rparr>"

definition upd_buf :: "vfs \<Rightarrow> bkey \<Rightarrow> (buffer \<Rightarrow> buffer) \<Rightarrow> vfs" where
  "upd_buf s k f = s\<lparr>bufs := (bufs s)(k := f (bufs s k))\<rparr>"

definition upd_inode :: "vfs \<Rightarrow> nat \<Rightarrow> (inode \<Rightarrow> inode) \<Rightarrow> vfs option" where
  "upd_inode s n f = do { i \<leftarrow> aget (inode_table s) n; Some (s\<lparr>inode_table := (inode_table s)[n := f i]\<rparr>) }"

definition upd_super :: "vfs \<Rightarrow> nat \<Rightarrow> (super_block \<Rightarrow> super_block) \<Rightarrow> vfs option" where
  "upd_super s n f = do { b \<leftarrow> aget (super_table s) n; Some (s\<lparr>super_table := (super_table s)[n := f b]\<rparr>) }"

abbreviation icount :: "vfs \<Rightarrow> nat \<Rightarrow> u32" where
  "icount s n \<equiv> inode_count (kern_of s) n"

definition set_icount :: "vfs \<Rightarrow> nat \<Rightarrow> u32 \<Rightarrow> vfs" where
  "set_icount s n c = set_kern s ((kern_of s)\<lparr>inode_count := (inode_count (kern_of s))(n := c)\<rparr>)"

abbreviation vfs_time :: "vfs \<Rightarrow> u32" where
  "vfs_time s \<equiv> sys_time (clk s)"

section \<open>Buffers\<close>

definition buf_bread :: "vfs \<Rightarrow> u32 \<Rightarrow> u32 \<Rightarrow> bkey \<times> vfs" where
  "buf_bread s dev block = (let k = (dev, block); s = upd_buf s k (\<lambda>b. b\<lparr>b_count := b_count b + 1\<rparr>) in
     (k, if b_valid (bufs s k) then s
         else upd_buf s k (\<lambda>b. b\<lparr>b_data := disk s k, b_dirty := False, b_valid := True\<rparr>)))"

definition buf_bwrite :: "vfs \<Rightarrow> bkey \<Rightarrow> vfs" where
  "buf_bwrite s k = (if \<not> b_dirty (bufs s k) then s
     else upd_buf (s\<lparr>disk := (disk s)(k := b_data (bufs s k))\<rparr>) k (\<lambda>b. b\<lparr>b_dirty := False, b_valid := True\<rparr>))"

definition buf_brelse :: "vfs \<Rightarrow> bkey option \<Rightarrow> vfs option" where
  "buf_brelse s p = (case p of
       None \<Rightarrow> Some s
     | Some k \<Rightarrow> do {
         let s = upd_buf s k (\<lambda>b. b\<lparr>b_count := b_count b - 1\<rparr>);
         kassert (b_count (bufs s k) \<ge> 0);
         if b_count (bufs s k) \<noteq> 0 then Some s else Some (buf_bwrite s k) })"

definition set_dirty :: "vfs \<Rightarrow> bkey \<Rightarrow> vfs" where
  "set_dirty s k = upd_buf s k (\<lambda>b. b\<lparr>b_dirty := True\<rparr>)"

text \<open>Storing through a pointer into the data of a buffer.\<close>

definition set_data :: "vfs \<Rightarrow> bkey \<Rightarrow> (u8 list \<Rightarrow> u8 list) \<Rightarrow> vfs" where
  "set_data s k f = upd_buf s k (\<lambda>b. b\<lparr>b_data := f (b_data b)\<rparr>)"

abbreviation data_of :: "vfs \<Rightarrow> bkey \<Rightarrow> u8 list" where
  "data_of s k \<equiv> b_data (bufs s k)"

text \<open>The cache takes an unreferenced buffer for another block.\<close>

definition buf_evict :: "vfs \<Rightarrow> bkey \<Rightarrow> vfs" where
  "buf_evict s k = (if b_count (bufs s k) = 0 then upd_buf s k (\<lambda>b. b\<lparr>b_valid := False\<rparr>) else s)"

section \<open>Descriptors\<close>

text \<open>The descriptor of a pipe is a \<open>kfifo\<close>, and has none of these fields.\<close>

definition idesc :: "vfs \<Rightarrow> nat \<Rightarrow> inode_desc option" where
  "idesc s n = do {
     i \<leftarrow> aget (inode_table s) n;
     kassert (\<not> i_pipe i);
     Some (get_desc (data_of s (i_cache i)) (32 * i_slot i)) }"

definition upd_idesc :: "vfs \<Rightarrow> nat \<Rightarrow> (inode_desc \<Rightarrow> inode_desc) \<Rightarrow> vfs option" where
  "upd_idesc s n f = do {
     i \<leftarrow> aget (inode_table s) n;
     x \<leftarrow> idesc s n;
     Some (set_data s (i_cache i) (\<lambda>d. put_desc d (32 * i_slot i) (f x))) }"

definition set_idirty :: "vfs \<Rightarrow> nat \<Rightarrow> vfs option" where
  "set_idirty s n = do { i \<leftarrow> aget (inode_table s) n; Some (set_dirty s (i_cache i)) }"

definition sdesc :: "vfs \<Rightarrow> nat \<Rightarrow> super_desc option" where
  "sdesc s n = do {
     b \<leftarrow> aget (super_table s) n;
     k \<leftarrow> s_cache b;
     Some (get_super_desc (data_of s k)) }"

section \<open>Inodes given back\<close>

definition get_free_inode :: "vfs \<Rightarrow> nat option" where
  "get_free_inode s = find (\<lambda>n. i_dev (inode_table s ! n) = EOF) [0..<length (inode_table s)]"

definition put_free_inode :: "vfs \<Rightarrow> nat \<Rightarrow> vfs option" where
  "put_free_inode s n = do {
     kassert (n \<noteq> 0);
     kassert (icount s n = 0);
     upd_inode s n (\<lambda>i. i\<lparr>i_dev := EOF\<rparr>) }"

definition put_pipe_inode :: "vfs \<Rightarrow> nat option \<Rightarrow> vfs option" where
  "put_pipe_inode s p = (case p of
       None \<Rightarrow> Some s
     | Some n \<Rightarrow> do {
         i \<leftarrow> aget (inode_table s) n;
         kassert (i_pipe i);
         let s = set_icount s n (icount s n - 1);
         if icount s n \<noteq> 0 then Some s
         else do {
           s \<leftarrow> upd_inode s n (\<lambda>i. i\<lparr>i_pipe := False\<rparr>);
           put_free_inode s n } })"

text \<open>Taking the node of an inode out of the list it is linked in.\<close>

definition unlink_inode :: "vfs \<Rightarrow> nat \<Rightarrow> vfs" where
  "unlink_inode s n = s\<lparr>super_table := map (\<lambda>b. b\<lparr>s_inodes := remove1 n (s_inodes b)\<rparr>) (super_table s)\<rparr>"

definition iput :: "vfs \<Rightarrow> nat option \<Rightarrow> vfs option" where
  "iput s p = (case p of
       None \<Rightarrow> Some s
     | Some n \<Rightarrow> do {
         i \<leftarrow> aget (inode_table s) n;
         if i_pipe i then put_pipe_inode s p
         else do {
           let s = (if b_dirty (bufs s (i_cache i)) then buf_bwrite s (i_cache i) else s);
           let s = set_icount s n (icount s n - 1);
           if icount s n \<noteq> 0 then Some s
           else do {
             s \<leftarrow> buf_brelse s (Some (i_cache i));
             put_free_inode (unlink_inode s n) n } } })"

section \<open>Super blocks\<close>

definition find_super :: "vfs \<Rightarrow> u32 \<Rightarrow> nat option" where
  "find_super s dev = find (\<lambda>n. s_dev (super_table s ! n) = dev) [0..<length (super_table s)]"

definition get_free_super :: "vfs \<Rightarrow> nat option" where
  "get_free_super s = find_super s EOF"

definition get_super :: "vfs \<Rightarrow> u32 \<Rightarrow> (nat option \<times> vfs) option" where
  "get_super s dev = (case find_super s dev of
       None \<Rightarrow> Some (None, s)
     | Some n \<Rightarrow> do { s \<leftarrow> upd_super s n (\<lambda>b. b\<lparr>s_count := s_count b + 1\<rparr>); Some (Some n, s) })"

text \<open>\<^verbatim>\<open>for (i = 0; i < blocks && i < NR; ++i) brelse(maps[i])\<close>\<close>

fun brelse_all :: "vfs \<Rightarrow> bkey option list \<Rightarrow> vfs option" where
  "brelse_all s [] = Some s"
| "brelse_all s (k # ks) = do { s \<leftarrow> buf_brelse s k; brelse_all s ks }"

definition put_super :: "vfs \<Rightarrow> nat option \<Rightarrow> vfs option" where
  "put_super s p = (case p of
       None \<Rightarrow> Some s
     | Some n \<Rightarrow> do {
         b \<leftarrow> aget (super_table s) n;
         kassert (0 < s_count b);
         s \<leftarrow> upd_super s n (\<lambda>b. b\<lparr>s_count := s_count b - 1\<rparr>);
         if s_count b - 1 \<noteq> 0 then Some s
         else do {
           s \<leftarrow> upd_super s n (\<lambda>b. b\<lparr>s_dev := EOF\<rparr>);
           s \<leftarrow> iput s (s_imount b);
           s \<leftarrow> iput s (s_iroot b);
           x \<leftarrow> sdesc s n;
           s \<leftarrow> brelse_all s (take (min (unat (sd_imap_blocks x)) IMAP_NR) (s_imaps b));
           s \<leftarrow> brelse_all s (take (min (unat (sd_zmap_blocks x)) ZMAP_NR) (s_zmaps b));
           buf_brelse s (s_cache b) } })"

text \<open>The two loops of \<open>read_super\<close> that keep the bitmaps of the device in memory.\<close>

fun read_maps :: "vfs \<Rightarrow> u32 \<Rightarrow> u32 \<Rightarrow> nat \<Rightarrow> (bkey option list \<times> vfs) option" where
  "read_maps s dev idx 0 = Some ([], s)"
| "read_maps s dev idx (Suc n) = do {
     let (k, s) = buf_bread s dev idx;
     (ks, s) \<leftarrow> read_maps s dev (idx + 1) n;
     Some (Some k # ks, s) }"

text \<open>Reading more than eight bitmaps fails the assertion of the loop at the ninth.\<close>

definition read_super :: "vfs \<Rightarrow> u32 \<Rightarrow> (nat option \<times> vfs) option" where
  "read_super s dev = do {
     (p, s) \<leftarrow> get_super s dev;
     case p of
       Some n \<Rightarrow> Some (Some n, s)
     | None \<Rightarrow> do {
         n \<leftarrow> get_free_super s;
         let (k, s) = buf_bread s dev FS_SUPER_BLOCK_NR;
         s \<leftarrow> upd_super s n (\<lambda>b. b\<lparr>s_cache := Some k, s_dev := dev, s_count := 1\<rparr>);
         x \<leftarrow> sdesc s n;
         if sd_magic x \<noteq> MINIX_V1_MAGIC then Some (None, s)
         else do {
           let ni = unat (sd_imap_blocks x);
           let nz = unat (sd_zmap_blocks x);
           kassert (ni \<le> IMAP_NR);
           (imaps, s) \<leftarrow> read_maps s dev FS_IMAP_BLOCK_NR ni;
           kassert (nz \<le> ZMAP_NR);
           (zmaps, s) \<leftarrow> read_maps s dev (FS_IMAP_BLOCK_NR + of_nat ni) nz;
           s \<leftarrow> upd_super s n (\<lambda>b. b\<lparr>s_imaps := imaps @ replicate (IMAP_NR - ni) None,
                                    s_zmaps := zmaps @ replicate (ZMAP_NR - nz) None\<rparr>);
           Some (Some n, s) } } }"

section \<open>Inodes found and read\<close>

definition inode_block :: "super_desc \<Rightarrow> u32 \<Rightarrow> u32" where
  "inode_block x nr = FS_IMAP_BLOCK_NR + ucast (sd_imap_blocks x) + ucast (sd_zmap_blocks x) + (nr - 1) div BLOCK_INODES"

definition find_inode :: "vfs \<Rightarrow> u32 \<Rightarrow> u32 \<Rightarrow> (nat option \<times> vfs) option" where
  "find_inode s dev nr = do {
     (p, s) \<leftarrow> get_super s dev;
     n \<leftarrow> p;
     b \<leftarrow> aget (super_table s) n;
     let r = find (\<lambda>m. i_nr (inode_table s ! m) = nr) (s_inodes b);
     s \<leftarrow> put_super s p;
     Some (r, s) }"

definition fit_inode :: "vfs \<Rightarrow> nat option \<Rightarrow> (nat option \<times> vfs) option" where
  "fit_inode s p = (case p of
       None \<Rightarrow> Some (None, s)
     | Some n \<Rightarrow> do {
         i \<leftarrow> aget (inode_table s) n;
         if i_mount i = 0 then Some (p, s)
         else do {
           (q, s) \<leftarrow> get_super s (i_mount i);
           m \<leftarrow> q;
           s \<leftarrow> iput s p;
           b \<leftarrow> aget (super_table s) m;
           r \<leftarrow> s_iroot b;
           let s = set_icount s r (icount s r + 1);
           s \<leftarrow> put_super s q;
           Some (Some r, s) } })"

definition iget :: "vfs \<Rightarrow> u32 \<Rightarrow> u32 \<Rightarrow> (nat \<times> vfs) option" where
  "iget s dev nr = do {
     (p, s) \<leftarrow> find_inode s dev nr;
     case p of
       Some n \<Rightarrow> do {
         let s = set_icount s n (icount s n + 1);
         s \<leftarrow> upd_inode s n (\<lambda>i. i\<lparr>i_atime := vfs_time s\<rparr>);
         (r, s) \<leftarrow> fit_inode s p;
         n \<leftarrow> r;
         Some (n, s) }
     | None \<Rightarrow> do {
         (q, s) \<leftarrow> get_super s dev;
         m \<leftarrow> q;
         x \<leftarrow> sdesc s m;
         kassert (nr \<le> ucast (sd_inodes x));
         n \<leftarrow> get_free_inode s;
         s \<leftarrow> upd_inode s n (\<lambda>i. i\<lparr>i_dev := dev, i_nr := nr\<rparr>);
         s \<leftarrow> (if n = 0 then do { kassert (icount s n = 4); Some s } else Some (set_icount s n 1));
         s \<leftarrow> upd_super s m (\<lambda>b. b\<lparr>s_inodes := n # s_inodes b\<rparr>);
         let (k, s) = buf_bread s dev (inode_block x nr);
         s \<leftarrow> upd_inode s n (\<lambda>i. i\<lparr>i_cache := k, i_slot := unat ((nr - 1) mod BLOCK_INODES)\<rparr>);
         d \<leftarrow> idesc s n;
         s \<leftarrow> upd_inode s n (\<lambda>i. i\<lparr>i_ctime := d_mtime d, i_atime := vfs_time s\<rparr>);
         s \<leftarrow> put_super s q;
         Some (n, s) } }"

text \<open>
  \<open>get_pipe_inode\<close>: \<open>page\<close> is what the page of the buffer holds; the allocations of the descriptor and
  the page are those of theory Memory.
\<close>

definition get_pipe_inode :: "vfs \<Rightarrow> u8 list \<Rightarrow> (nat \<times> vfs) option" where
  "get_pipe_inode s page = do {
     n \<leftarrow> get_free_inode s;
     let s = set_icount s n 2;
     s \<leftarrow> upd_inode s n (\<lambda>i. i\<lparr>i_dev := - 2, i_pipe := True, i_rxwaiter := None, i_txwaiter := None,
            i_fifo := kfifo_init page PAGE_SIZE\<rparr>);
     Some (n, s) }"

definition inode_init :: "vfs \<Rightarrow> vfs" where
  "inode_init s = (let s = s\<lparr>inode_table := map (\<lambda>i. i\<lparr>i_dev := EOF\<rparr>) (inode_table s)\<rparr> in
     set_kern s ((kern_of s)\<lparr>inode_count := (\<lambda>n. if n < length (inode_table s) then 0 else icount s n)\<rparr>))"

text \<open>Changing the running task.\<close>

definition upd_task :: "vfs \<Rightarrow> (task \<Rightarrow> task) \<Rightarrow> vfs option" where
  "upd_task s f = do {
     t \<leftarrow> get_current (kern_of s);
     Some (set_kern s (put_task (kern_of s) (cur (kern_of s)) (f t))) }"

section \<open>A concrete state\<close>

text \<open>Tables as they are before anything is opened, on a kernel \<open>k\<close> and a disk with the contents \<open>d\<close>.\<close>

definition null_inode :: inode where
  "null_inode = \<lparr>i_cache = (0, 0), i_slot = 0, i_dev = EOF, i_nr = 0, i_atime = 0, i_ctime = 0, i_mount = 0,
     i_rxwaiter = None, i_txwaiter = None, i_pipe = False, i_fifo = kfifo_init [] 0\<rparr>"

definition null_super :: super_block where
  "null_super = \<lparr>s_cache = None, s_imaps = replicate IMAP_NR None, s_zmaps = replicate ZMAP_NR None, s_dev = EOF,
     s_count = 0, s_inodes = [], s_iroot = None, s_imount = None\<rparr>"

definition demo_vfs :: "kernel \<Rightarrow> (bkey \<Rightarrow> u8 list) \<Rightarrow> vfs" where
  "demo_vfs k d = \<lparr>clk = \<lparr>kern = k, timers = [], beeping = False, speaker = 0, startup_time = 0, intr_on = False, eois = []\<rparr>,
     bufs = (\<lambda>_. \<lparr>b_data = [], b_count = 0, b_dirty = False, b_valid = False\<rparr>), disk = d,
     inode_table = replicate INODE_NR null_inode, super_table = replicate SUPER_NR null_super,
     file_table = replicate FILE_NR \<lparr>f_inode = None, f_offset = 0, f_flags = 0, f_mode = 0\<rparr>, root_super = None,
     pwd_room = (\<lambda>_. 16)\<rparr>"

end
