(* ===== verification/Zones.thy ===== *)
theory Zones
  imports Vfs Bitmap
begin

text \<open>
  \<^verbatim>\<open>src/fs/bmap.c\<close> and the rest of \<^verbatim>\<open>src/fs/inode.c\<close>: zones and inode numbers are allocated in the
  bitmaps of the device, \<open>bmap\<close> follows the direct, indirect and double indirect zones of an inode,
  \<open>inode_truncate\<close> frees them and \<open>new_inode\<close> fills in a fresh descriptor.
\<close>

section \<open>Bitmaps on the disk\<close>

text \<open>
  The scan of \<open>balloc\<close> and \<open>ialloc\<close> over the bitmap blocks from \<open>bidx\<close> on; \<open>off\<close> is the number of
  the first bit of the block, \<open>limit\<close> the bound that is asserted. The last buffer read is kept, and
  \<open>bread\<close> has counted it.
\<close>

fun alloc_loop :: "vfs \<Rightarrow> u32 \<Rightarrow> u32 \<Rightarrow> u32 \<Rightarrow> u32 \<Rightarrow> nat \<Rightarrow> bkey option \<Rightarrow> (u32 \<times> bkey option \<times> vfs) option" where
  "alloc_loop s dev bidx off limit 0 pcache = Some (EOF, pcache, s)"
| "alloc_loop s dev bidx off limit (Suc n) pcache = do {
     let (k, s) = buf_bread s dev bidx;
     (bit, m) \<leftarrow> bitmap_scan (bitmap_make (data_of s k) BLOCK_SIZE off) 1;
     let s = set_data s k (\<lambda>_. bits m);
     if bit \<noteq> EOF then do { kassert (bit < limit); Some (bit, Some k, set_dirty s k) }
     else alloc_loop s dev (bidx + 1) (off + BLOCK_BITS) limit n (Some k) }"

definition balloc :: "vfs \<Rightarrow> u32 \<Rightarrow> (u32 \<times> vfs) option" where
  "balloc s dev = do {
     (p, s) \<leftarrow> get_super s dev;
     n \<leftarrow> p;
     x \<leftarrow> sdesc s n;
     (bit, pcache, s) \<leftarrow> alloc_loop s dev (FS_IMAP_BLOCK_NR + ucast (sd_imap_blocks x))
        (ucast (sd_firstdatazone x) - 1) (ucast (sd_zones x)) (unat (sd_zmap_blocks x)) None;
     k \<leftarrow> pcache;
     s \<leftarrow> put_super (buf_bwrite s k) p;
     Some (bit, s) }"

definition ialloc :: "vfs \<Rightarrow> u32 \<Rightarrow> (u32 \<times> vfs) option" where
  "ialloc s dev = do {
     (p, s) \<leftarrow> get_super s dev;
     n \<leftarrow> p;
     x \<leftarrow> sdesc s n;
     (bit, pcache, s) \<leftarrow> alloc_loop s dev FS_IMAP_BLOCK_NR 0 (ucast (sd_inodes x)) (unat (sd_imap_blocks x)) None;
     k \<leftarrow> pcache;
     s \<leftarrow> put_super (buf_bwrite s k) p;
     Some (bit, s) }"

text \<open>The part \<open>bfree\<close> and \<open>ifree\<close> share: clear a bit that must be set, in a bitmap kept in memory.\<close>

definition clear_bit_in :: "vfs \<Rightarrow> bkey option \<Rightarrow> u32 \<Rightarrow> u32 \<Rightarrow> vfs option" where
  "clear_bit_in s pcache off idx = do {
     k \<leftarrow> pcache;
     let map = bitmap_make (data_of s k) BLOCK_SIZE off;
     t \<leftarrow> bitmap_test map idx;
     kassert t;
     map \<leftarrow> bitmap_set map idx False;
     Some (buf_bwrite (set_dirty (set_data s k (\<lambda>_. bits map)) k) k) }"

definition bfree :: "vfs \<Rightarrow> u32 \<Rightarrow> u32 \<Rightarrow> vfs option" where
  "bfree s dev idx = do {
     (p, s) \<leftarrow> get_super s dev;
     n \<leftarrow> p;
     x \<leftarrow> sdesc s n;
     kassert (idx < ucast (sd_zones x));
     let block_idx = (idx - (ucast (sd_firstdatazone x) - 1)) div BLOCK_BITS;
     b \<leftarrow> aget (super_table s) n;
     pcache \<leftarrow> aget (s_zmaps b) (unat block_idx);
     s \<leftarrow> clear_bit_in s pcache (ucast (sd_firstdatazone x) - 1 + block_idx * BLOCK_BITS) idx;
     put_super s p }"

text \<open>\<open>ifree\<close> compares the inode number with the number of zones.\<close>

definition ifree :: "vfs \<Rightarrow> u32 \<Rightarrow> u32 \<Rightarrow> vfs option" where
  "ifree s dev idx = do {
     (p, s) \<leftarrow> get_super s dev;
     n \<leftarrow> p;
     x \<leftarrow> sdesc s n;
     kassert (idx < ucast (sd_zones x));
     let block_idx = idx div BLOCK_BITS;
     b \<leftarrow> aget (super_table s) n;
     pcache \<leftarrow> aget (s_imaps b) (unat block_idx);
     s \<leftarrow> clear_bit_in s pcache (block_idx * BLOCK_BITS) idx;
     put_super s p }"

section \<open>The zones of an inode\<close>

text \<open>
  The loop of \<open>bmap\<close> at \<open>level\<close>: \<open>array\<close> starts at byte \<open>base\<close> of buffer \<open>k\<close>. An index block that
  \<open>balloc\<close> provides is used with the contents it has.
\<close>

primrec bmap_loop :: "nat \<Rightarrow> vfs \<Rightarrow> u32 \<Rightarrow> bkey \<Rightarrow> nat \<Rightarrow> u16 \<Rightarrow> u32 \<Rightarrow> u32 \<Rightarrow> bool \<Rightarrow> (u32 \<times> vfs) option" where
  "bmap_loop 0 s dev k base index block divider create = do {
     s \<leftarrow> (if get16 (data_of s k) (base + 2 * unat index) = 0 \<and> create then do {
            (z, s) \<leftarrow> balloc s dev;
            Some (set_dirty (set_data s k (\<lambda>d. put16 d (base + 2 * unat index) (ucast z))) k) }
          else Some s);
     s \<leftarrow> buf_brelse s (Some k);
     Some (ucast (get16 (data_of s k) (base + 2 * unat index)), s) }"
| "bmap_loop (Suc level) s dev k base index block divider create = do {
     s \<leftarrow> (if get16 (data_of s k) (base + 2 * unat index) = 0 \<and> create then do {
            (z, s) \<leftarrow> balloc s dev;
            Some (set_dirty (set_data s k (\<lambda>d. put16 d (base + 2 * unat index) (ucast z))) k) }
          else Some s);
     s \<leftarrow> buf_brelse s (Some k);
     let v = get16 (data_of s k) (base + 2 * unat index);
     if v = 0 then Some (ucast v, s)
     else let (k, s) = buf_bread s dev (ucast v) in
       bmap_loop level s dev k 0 (ucast (block div divider)) (block mod divider) (divider div BLOCK_INDEXES) create }"

definition bmap :: "vfs \<Rightarrow> nat \<Rightarrow> u32 \<Rightarrow> bool \<Rightarrow> (u32 \<times> vfs) option" where
  "bmap s n block create = do {
     kassert (block < TOTAL_BLOCKS);
     i \<leftarrow> aget (inode_table s) n;
     kassert (\<not> i_pipe i);
     let k = i_cache i;
     let base = 32 * i_slot i + 14;
     let s = upd_buf s k (\<lambda>b. b\<lparr>b_count := b_count b + 1\<rparr>);
     if block < DIRECT_BLOCKS then bmap_loop 0 s (i_dev i) k base (ucast block) block 1 create
     else let block = block - DIRECT_BLOCKS in
       if block < INDIRECT1_BLOCKS then bmap_loop 1 s (i_dev i) k base (ucast DIRECT_BLOCKS) block 1 create
       else let block = block - INDIRECT1_BLOCKS in do {
         kassert (block < INDIRECT2_BLOCKS);
         bmap_loop 2 s (i_dev i) k base (ucast (DIRECT_BLOCKS + 1)) block BLOCK_INDEXES create } }"

section \<open>Freeing a file\<close>

fun for_each :: "(nat \<Rightarrow> vfs \<Rightarrow> vfs option) \<Rightarrow> nat \<Rightarrow> nat \<Rightarrow> vfs \<Rightarrow> vfs option" where
  "for_each f i 0 s = Some s"
| "for_each f i (Suc n) s = do { s \<leftarrow> f i s; for_each f (Suc i) n s }"

text \<open>The array element is the 16-bit field at byte \<open>p\<close> of buffer \<open>k\<close>.\<close>

primrec inode_bfree :: "nat \<Rightarrow> vfs \<Rightarrow> u32 \<Rightarrow> bkey \<Rightarrow> nat \<Rightarrow> vfs option" where
  "inode_bfree 0 s dev k p =
     (if get16 (data_of s k) p = 0 then Some s else bfree s dev (ucast (get16 (data_of s k) p)))"
| "inode_bfree (Suc level) s dev k p =
     (if get16 (data_of s k) p = 0 then Some s
      else do {
        let (k', s) = buf_bread s dev (ucast (get16 (data_of s k) p));
        s \<leftarrow> for_each (\<lambda>i s. inode_bfree level s dev k' (2 * i)) 0 (unat BLOCK_INDEXES) s;
        s \<leftarrow> buf_brelse s (Some k');
        bfree s dev (ucast (get16 (data_of s k) p)) })"

definition free_zone :: "nat \<Rightarrow> nat \<Rightarrow> nat \<Rightarrow> vfs \<Rightarrow> vfs option" where
  "free_zone n level i s = do {
     v \<leftarrow> aget (inode_table s) n;
     s \<leftarrow> inode_bfree level s (i_dev v) (i_cache v) (32 * i_slot v + 14 + 2 * i);
     upd_idesc s n (\<lambda>x. x\<lparr>d_zone := (d_zone x)[i := 0]\<rparr>) }"

definition inode_truncate :: "vfs \<Rightarrow> nat \<Rightarrow> vfs option" where
  "inode_truncate s n = do {
     x \<leftarrow> idesc s n;
     if \<not> ISFILE (ucast (d_mode x)) \<and> \<not> ISDIR (ucast (d_mode x)) then Some s
     else do {
       s \<leftarrow> for_each (free_zone n 0) 0 (unat DIRECT_BLOCKS) s;
       s \<leftarrow> free_zone n 1 (unat DIRECT_BLOCKS) s;
       s \<leftarrow> free_zone n 2 (unat DIRECT_BLOCKS + 1) s;
       s \<leftarrow> upd_idesc s n (\<lambda>x. x\<lparr>d_size := 0\<rparr>);
       s \<leftarrow> upd_idesc s n (\<lambda>x. x\<lparr>d_mtime := vfs_time s\<rparr>);
       v \<leftarrow> aget (inode_table s) n;
       Some (buf_bwrite (set_dirty s (i_cache v)) (i_cache v)) } }"

section \<open>New inodes\<close>

definition new_inode :: "vfs \<Rightarrow> u32 \<Rightarrow> u32 \<Rightarrow> (nat \<times> vfs) option" where
  "new_inode s dev nr = do {
     t \<leftarrow> get_current (kern_of s);
     (n, s) \<leftarrow> iget s dev nr;
     s \<leftarrow> set_idirty s n;
     s \<leftarrow> upd_idesc s n (\<lambda>x. x\<lparr>d_mode := 0x1FF AND NOT (t_umask t), d_uid := ucast (t_uid t), d_size := 0\<rparr>);
     s \<leftarrow> upd_inode s n (\<lambda>i. i\<lparr>i_atime := vfs_time s\<rparr>);
     s \<leftarrow> upd_idesc s n (\<lambda>x. x\<lparr>d_mtime := vfs_time s, d_gid := ucast (t_gid t), d_nlinks := 1\<rparr>);
     Some (n, s) }"

section \<open>Super blocks taken and given back\<close>

text \<open>A mounted device: its super block is the first with its number, and the reference that an
  operation takes neither is the last nor overflows.\<close>

definition mounted :: "vfs \<Rightarrow> u32 \<Rightarrow> nat \<Rightarrow> super_desc \<Rightarrow> bool" where
  "mounted s dev m x \<longleftrightarrow> find_super s dev = Some m \<and> m < length (super_table s) \<and>
     s_count (super_table s ! m) \<noteq> 0 \<and> s_count (super_table s ! m) + 1 \<noteq> 0 \<and> sdesc s m = Some x"

text \<open>The state between \<open>get_super\<close> and \<open>put_super\<close>.\<close>

definition held :: "vfs \<Rightarrow> nat \<Rightarrow> vfs" where
  "held s m = s\<lparr>super_table := (super_table s)[m := (super_table s ! m)\<lparr>s_count := s_count (super_table s ! m) + 1\<rparr>]\<rparr>"

lemma held_fields [simp]:
  "bufs (held s m) = bufs s" "disk (held s m) = disk s" "inode_table (held s m) = inode_table s" "clk (held s m) = clk s"
  "length (super_table (held s m)) = length (super_table s)"
  by (simp_all add: held_def)

lemma get_super_mounted: "mounted s dev m x \<Longrightarrow> get_super s dev = Some (Some m, held s m)"
  by (simp add: mounted_def get_super_def upd_super_def held_def)

lemma sdesc_held: "mounted s dev m x \<Longrightarrow> sdesc (held s m) m = Some x"
  by (auto simp: mounted_def sdesc_def held_def)

lemma put_super_held:
  assumes "mounted s dev m x" "super_table t = super_table (held s m)"
  shows "put_super t (Some m) = Some (t\<lparr>super_table := super_table s\<rparr>)"
proof -
  let ?b = "super_table s ! m"
  have m: "m < length (super_table s)" "s_count ?b \<noteq> 0" "s_count ?b + 1 \<noteq> 0" using assms(1) by (simp_all add: mounted_def)
  have b: "super_table t ! m = ?b\<lparr>s_count := s_count ?b + 1\<rparr>" "length (super_table t) = length (super_table s)"
    using assms(2) m(1) by (simp_all add: held_def)
  have "(super_table t)[m := ?b\<lparr>s_count := s_count ?b\<rparr>] = super_table s"
    using m(1) by (simp add: assms(2) held_def)
  then show ?thesis using m b by (simp add: put_super_def upd_super_def word_gt_0)
qed

section \<open>The bits of a bitmap of several blocks\<close>

definition block_bits :: "u8 list \<Rightarrow> nat set" where
  "block_bits d = {i. i < 8192 \<and> bit (d ! (i div 8)) (i mod 8)}"

definition map_bits :: "vfs \<Rightarrow> u32 \<Rightarrow> u32 \<Rightarrow> nat \<Rightarrow> nat set" where
  "map_bits s dev bidx n = {g. g < 8192 * n \<and> g mod 8192 \<in> block_bits (data_of s (dev, bidx + of_nat (g div 8192)))}"

definition map_ready :: "vfs \<Rightarrow> u32 \<Rightarrow> u32 \<Rightarrow> nat \<Rightarrow> bool" where
  "map_ready s dev bidx n \<longleftrightarrow> unat bidx + n < 2 ^ 32 \<and> (\<forall>j < n. b_valid (bufs s (dev, bidx + of_nat j)) \<and>
     length (data_of s (dev, bidx + of_nat j)) = 1024)"

lemma unat_BLOCK_SIZE [simp]: "unat BLOCK_SIZE = 1024" "unat BLOCK_BITS = 8192"
  by (simp_all add: BLOCK_SIZE_def SECTOR_SIZE_def BLOCK_BITS_def)

lemma bm_used_block: "bm_used (bitmap_make d BLOCK_SIZE off) = block_bits d"
  by (simp add: bm_used_def bitmap_make_def block_bits_def)

lemma bm_inv_block: "length d = 1024 \<Longrightarrow> unat off + 8192 < 2 ^ 32 \<Longrightarrow> bm_inv (bitmap_make d BLOCK_SIZE off)"
  by (simp add: bm_inv_def bitmap_make_def)

lemma free_run_block: "free_run (bitmap_make d BLOCK_SIZE off) 1 g \<longleftrightarrow> g < 8192 \<and> g \<notin> block_bits d"
  using bm_used_block [of d off] by (auto simp: free_run_def bitmap_make_def)

lemma scan_mark_length: "bitmap_scan_mark m n i = Some m' \<Longrightarrow> length (bits m') = length (bits m)"
proof (induction n arbitrary: m i)
  case (Suc n)
  then obtain m1 where "bitmap_set m (boffset m + i) True = Some m1" "bitmap_scan_mark m1 n (i + 1) = Some m'"
    by (auto elim: bind_eq_SomeE)
  then show ?case using Suc.IH by (auto simp: bitmap_set_def Let_def split: if_splits elim!: bind_eq_SomeE dest!: aset_SomeD)
qed simp

lemma scan_length: "bitmap_scan m n = Some (r, m') \<Longrightarrow> length (bits m') = length (bits m)"
  by (auto simp: bitmap_scan_def split: if_splits elim!: bind_eq_SomeE dest: scan_mark_length)

text \<open>Scanning one block for one bit.\<close>

lemma scan_block:
  assumes "length d = 1024" "unat off + 8192 < 2 ^ 32"
  obtains (full) "\<forall>g < 8192. g \<in> block_bits d"
      "bitmap_scan (bitmap_make d BLOCK_SIZE off) 1 = Some (EOF, bitmap_make d BLOCK_SIZE off)"
  | (found) g d' where "g < 8192" "g \<notin> block_bits d" "\<forall>h < g. h \<in> block_bits d"
      "bitmap_scan (bitmap_make d BLOCK_SIZE off) 1 = Some (off + of_nat g, bitmap_make d' BLOCK_SIZE off)"
      "off + of_nat g \<noteq> EOF" "block_bits d' = insert g (block_bits d)" "length d' = 1024"
proof -
  let ?m = "bitmap_make d BLOCK_SIZE off"
  note inv = bm_inv_block [OF assms]
  have sel: "boffset ?m = off" "blength ?m = BLOCK_SIZE" by (simp_all add: bitmap_make_def)
  obtain r m' where m': "bitmap_scan ?m 1 = Some (r, m')" "bm_inv m'" "boffset m' = off" "blength m' = BLOCK_SIZE"
    "if \<exists>s. free_run ?m 1 s then \<exists>s. r = off + of_nat s \<and> r \<noteq> EOF \<and> free_run ?m 1 s \<and>
           (\<forall>t < s. \<not> free_run ?m 1 t) \<and> bm_used m' = bm_used ?m \<union> {s..<s + 1}
      else r = EOF \<and> m' = ?m"
    using bitmap_scan_spec [OF inv, of 1, unfolded unat_1 sel, OF zero_less_one] by (elim exE conjE)
  have len: "length (bits m') = 1024" using scan_length [OF m'(1)] assms(1) by (simp add: bitmap_make_def)
  have m'_eq: "m' = bitmap_make (bits m') BLOCK_SIZE off" using m'(3,4) by (simp add: bitmap_make_def)
  show ?thesis
  proof (cases "\<exists>s. free_run ?m 1 s")
    case False
    then have "r = EOF \<and> m' = ?m" using m'(5) by (simp only: if_False)
    moreover have "\<forall>g < 8192. g \<in> block_bits d" using False free_run_block by blast
    ultimately show ?thesis using full m'(1) by blast
  next
    case True
    then have "\<exists>s. r = off + of_nat s \<and> r \<noteq> EOF \<and> free_run ?m 1 s \<and>
           (\<forall>t < s. \<not> free_run ?m 1 t) \<and> bm_used m' = bm_used ?m \<union> {s..<s + 1}" using m'(5) by (simp only: if_True)
    then obtain g where g: "r = off + of_nat g" "r \<noteq> EOF" "free_run ?m 1 g" "\<forall>t < g. \<not> free_run ?m 1 t"
        "bm_used m' = bm_used ?m \<union> {g..<g + 1}" by blast
    have "bm_used m' = block_bits (bits m')" by (subst m'_eq) (rule bm_used_block)
    then have bb: "block_bits (bits m') = insert g (block_bits d)" using g(5) by (auto simp: bm_used_block)
    have gg: "g < 8192" "g \<notin> block_bits d" using g(3) unfolding free_run_block by auto
    have below: "\<forall>h < g. h \<in> block_bits d" using g(4) gg(1) unfolding free_run_block by auto
    have scan: "bitmap_scan ?m 1 = Some (off + of_nat g, bitmap_make (bits m') BLOCK_SIZE off)"
      using m'(1) m'_eq g(1) by simp
    have "off + of_nat g \<noteq> EOF" using g(1,2) by simp
    from found [OF gg below scan this bb len] show ?thesis .
  qed
qed

text \<open>Buffers that agree but for their reference counts, which have not gone down.\<close>

definition same_buf :: "buffer \<Rightarrow> buffer \<Rightarrow> bool" where
  "same_buf b c \<longleftrightarrow> b_data c = b_data b \<and> b_dirty c = b_dirty b \<and> b_valid c = b_valid b \<and> b_count b \<le> b_count c"

lemma same_buf_refl [simp]: "same_buf b b"
  by (simp add: same_buf_def)

lemma same_buf_trans: "same_buf a b \<Longrightarrow> same_buf b c \<Longrightarrow> same_buf a c"
  by (simp add: same_buf_def)

lemma map_ready_Suc: "map_ready s dev bidx (Suc n) \<Longrightarrow> map_ready s dev (bidx + 1) n"
proof -
  assume r: "map_ready s dev bidx (Suc n)"
  then have "unat (bidx + 1) = Suc (unat bidx)" by (intro unat_Suc_less) (simp add: map_ready_def)
  moreover have "b_valid (bufs s (dev, bidx + 1 + of_nat j)) \<and> length (data_of s (dev, bidx + 1 + of_nat j)) = 1024"
    if "j < n" for j
  proof -
    have eq: "bidx + 1 + of_nat j = bidx + of_nat (Suc j)" by (simp add: algebra_simps)
    show ?thesis unfolding eq using r that unfolding map_ready_def by (meson Suc_mono)
  qed
  ultimately show ?thesis using r by (auto simp: map_ready_def)
qed

lemma map_bits_block: "g < 8192 \<Longrightarrow> g \<in> map_bits s dev bidx (Suc n) \<longleftrightarrow> g \<in> block_bits (data_of s (dev, bidx))"
  by (simp add: map_bits_def)

lemma map_bits_later: "8192 + g \<in> map_bits s dev bidx (Suc n) \<longleftrightarrow> g \<in> map_bits s dev (bidx + 1) n"
proof -
  have "bidx + of_nat ((8192 + g) div 8192) = bidx + 1 + of_nat (g div 8192)" by (simp add: div_add_self1)
  note eq = this
  show ?thesis unfolding map_bits_def mem_Collect_eq eq by simp
qed

lemma map_ready_same: "\<forall>k. b_data (B k) = data_of s k \<and> b_valid (B k) = b_valid (bufs s k) \<Longrightarrow>
    map_ready (s\<lparr>bufs := B\<rparr>) dev bidx n = map_ready s dev bidx n"
  by (simp add: map_ready_def)

lemma map_bits_same: "\<forall>k. b_data (B k) = data_of s k \<Longrightarrow> map_bits (s\<lparr>bufs := B\<rparr>) dev bidx n = map_bits s dev bidx n"
  by (simp add: map_bits_def)

lemma alloc_loop_found:
  assumes "map_ready s dev bidx n" "unat off + 8192 * n < 2 ^ 32" "g < 8192 * n"
    "g \<notin> map_bits s dev bidx n" "\<forall>h < g. h \<in> map_bits s dev bidx n" "unat off + g < unat limit"
    "K = (dev, bidx + of_nat (g div 8192))"
  shows "\<exists>B. alloc_loop s dev bidx off limit n pc = Some (off + of_nat g, Some K, s\<lparr>bufs := B\<rparr>) \<and>
     length (b_data (B K)) = 1024 \<and> block_bits (b_data (B K)) = insert (g mod 8192) (block_bits (data_of s K)) \<and>
     b_dirty (B K) \<and> b_valid (B K) \<and> b_count (bufs s K) \<le> b_count (B K) \<and> (\<forall>k. k \<noteq> K \<longrightarrow> same_buf (bufs s k) (B k))"
  using assms
proof (induction n arbitrary: s bidx off g pc)
  case (Suc n)
  let ?k = "(dev, bidx)"
  let ?d = "data_of s ?k"
  have rdy: "b_valid (bufs s ?k)" "length ?d = 1024" "unat off + 8192 < 2 ^ 32"
    using Suc.prems(1,2) by (force simp: map_ready_def)+
  define b1 where "b1 = (bufs s ?k)\<lparr>b_count := b_count (bufs s ?k) + 1\<rparr>"
  have read: "buf_bread s dev bidx = (?k, s\<lparr>bufs := (bufs s)(?k := b1)\<rparr>)"
    using rdy(1) by (simp add: buf_bread_def upd_buf_def b1_def Let_def)
  show ?case
  proof (cases rule: scan_block [OF rdy(2,3), case_names full found])
    case full
    have g: "8192 \<le> g" using full(1) Suc.prems(4) by (cases "g < 8192") (auto simp: map_bits_block)
    define t where "t = s\<lparr>bufs := (bufs s)(?k := b1)\<rparr>"
    have d: "\<forall>k. data_of t k = data_of s k" by (simp add: b1_def t_def)
    have noop: "set_data t ?k (\<lambda>_. ?d) = t" by (simp add: set_data_def upd_buf_def b1_def t_def)
    have run: "alloc_loop s dev bidx off limit (Suc n) pc = alloc_loop t dev (bidx + 1) (off + BLOCK_BITS) limit n (Some ?k)"
      using full(2) noop d by (simp add: read bitmap_make_def t_def [symmetric])
    have off: "unat (off + BLOCK_BITS) = unat off + 8192" using rdy(3) by (subst unat_plus_less) simp_all
    have ready: "map_ready t dev (bidx + 1) n"
      unfolding t_def using map_ready_Suc [OF Suc.prems(1)] by (subst map_ready_same) (simp_all add: b1_def)
    have bits: "map_bits t dev (bidx + 1) n = map_bits s dev (bidx + 1) n"
      unfolding t_def by (intro map_bits_same) (simp add: b1_def)
    have notin: "g - 8192 \<notin> map_bits t dev (bidx + 1) n"
      using Suc.prems(4) map_bits_later [of "g - 8192" s dev bidx n] g bits by simp
    have below: "\<forall>h < g - 8192. h \<in> map_bits t dev (bidx + 1) n"
    proof (intro allI impI)
      fix h assume "h < g - 8192"
      then have "8192 + h \<in> map_bits s dev bidx (Suc n)" using Suc.prems(5) by simp
      then show "h \<in> map_bits t dev (bidx + 1) n" by (simp only: map_bits_later bits)
    qed
    have Keq: "K = (dev, bidx + 1 + of_nat ((g - 8192) div 8192))"
      using Suc.prems(7) g by (simp add: le_div_geq)
    have h: "unat (off + BLOCK_BITS) + 8192 * n < 2 ^ 32" "g - 8192 < 8192 * n" "unat (off + BLOCK_BITS) + (g - 8192) < unat limit"
      using Suc.prems(2,3,6) g off by simp_all
    obtain B where B: "alloc_loop t dev (bidx + 1) (off + BLOCK_BITS) limit n (Some ?k) =
         Some (off + BLOCK_BITS + of_nat (g - 8192), Some K, t\<lparr>bufs := B\<rparr>)"
      "length (b_data (B K)) = 1024" "block_bits (b_data (B K)) = insert ((g - 8192) mod 8192) (block_bits (data_of t K))"
      "b_dirty (B K)" "b_valid (B K)" "b_count (bufs t K) \<le> b_count (B K)" "\<forall>k. k \<noteq> K \<longrightarrow> same_buf (bufs t k) (B k)"
      using Suc.IH [OF ready h(1,2) notin below h(3) Keq, of "Some ?k"] by blast
    have same: "same_buf (bufs s k) (bufs t k)" for k by (simp add: same_buf_def b1_def t_def)
    have "off + BLOCK_BITS + of_nat (g - 8192) = off + of_nat g"
      using g by (simp add: of_nat_diff BLOCK_BITS_def BLOCK_SIZE_def SECTOR_SIZE_def)
    moreover have "(g - 8192) mod 8192 = g mod 8192" using g by (simp add: le_mod_geq)
    moreover have "b_count (bufs s K) \<le> b_count (B K)" using B(6) same [of K] by (simp add: same_buf_def)
    moreover have "\<forall>k. k \<noteq> K \<longrightarrow> same_buf (bufs s k) (B k)" using B(7) same same_buf_trans by blast
    moreover have "data_of t K = data_of s K" using d by blast
    moreover have "t\<lparr>bufs := B\<rparr> = s\<lparr>bufs := B\<rparr>" by (simp add: t_def)
    ultimately show ?thesis using run B by (intro exI [of _ B]) simp
  next
    case (found f d')
    have "\<not> g < f" using Suc.prems(4) found(1,3) by (auto simp: map_bits_block)
    moreover have "\<not> f < g" using Suc.prems(5) found(1,2) by (auto simp: map_bits_block)
    ultimately have g: "f = g" by simp
    then have K: "K = ?k" "g mod 8192 = g" using Suc.prems(7) found(1) by simp_all
    have u: "unat (off + of_nat g) = unat off + g" using found(1) g rdy(3) by (subst unat_plus_less) simp_all
    then have lim: "off + of_nat g < limit" using Suc.prems(6) by (simp add: word_less_nat_alt)
    define B where "B = (bufs s)(?k := b1\<lparr>b_data := d', b_dirty := True\<rparr>)"
    have B: "B ?k = b1\<lparr>b_data := d', b_dirty := True\<rparr>" "\<And>k. k \<noteq> ?k \<Longrightarrow> B k = bufs s k" by (simp_all add: B_def)
    have "alloc_loop s dev bidx off limit (Suc n) pc = Some (off + of_nat g, Some ?k, s\<lparr>bufs := B\<rparr>)"
      using found(4,5) g lim by (simp add: read bitmap_make_def b1_def set_data_def set_dirty_def upd_buf_def B_def)
    then show ?thesis
      using B found(6,7) g rdy(1) K(2) unfolding K(1) by (intro exI [of _ B]) (simp add: b1_def)
  qed
qed simp

section \<open>Zones taken and freed\<close>

definition zmap_start :: "super_desc \<Rightarrow> u32" where
  "zmap_start x = FS_IMAP_BLOCK_NR + ucast (sd_imap_blocks x)"

abbreviation zmap_blocks :: "super_desc \<Rightarrow> nat" where
  "zmap_blocks x \<equiv> unat (sd_zmap_blocks x)"

text \<open>The bits of the zone bitmap; bit \<open>g\<close> is zone \<open>firstdatazone - 1 + g\<close>.\<close>

definition zone_bits :: "vfs \<Rightarrow> u32 \<Rightarrow> super_desc \<Rightarrow> nat set" where
  "zone_bits s dev x = map_bits s dev (zmap_start x) (zmap_blocks x)"

text \<open>
  A mounted device with its zone bitmap in memory: the blocks the super block points to are those that
  \<open>balloc\<close> reads, and the super block's own buffer is not one of them.
\<close>

definition zmap_ok :: "vfs \<Rightarrow> u32 \<Rightarrow> nat \<Rightarrow> super_desc \<Rightarrow> bool" where
  "zmap_ok s dev m x \<longleftrightarrow> mounted s dev m x \<and> map_ready s dev (zmap_start x) (zmap_blocks x) \<and>
     sd_firstdatazone x \<noteq> 0 \<and> zmap_blocks x \<le> length (s_zmaps (super_table s ! m)) \<and>
     (\<forall>j < zmap_blocks x. s_zmaps (super_table s ! m) ! j = Some (dev, zmap_start x + of_nat j) \<and>
        s_cache (super_table s ! m) \<noteq> Some (dev, zmap_start x + of_nat j))"

lemma key_index:
  assumes "unat b + n < 2 ^ 32" "i < n" "j < n" "(b :: u32) + of_nat i = b + of_nat j"
  shows "i = j"
proof -
  have "unat (of_nat i :: u32) = i" "unat (of_nat j :: u32) = j" using assms(1-3) by (auto intro!: unat_of_nat_less)
  then show ?thesis using assms(4) by (metis add_left_cancel)
qed

lemma map_bits_change:
  assumes "unat bidx + n < 2 ^ 32" "j < n" "K = (dev, bidx + of_nat j)" "\<forall>k. k \<noteq> K \<longrightarrow> b_data (B k) = data_of s k"
  shows "map_bits (s\<lparr>bufs := B\<rparr>) dev bidx n =
    {g. g < 8192 * n \<and> (if g div 8192 = j then g mod 8192 \<in> block_bits (b_data (B K)) else g \<in> map_bits s dev bidx n)}"
proof (rule set_eqI)
  fix g
  show "g \<in> map_bits (s\<lparr>bufs := B\<rparr>) dev bidx n \<longleftrightarrow> g \<in> {g. g < 8192 * n \<and>
      (if g div 8192 = j then g mod 8192 \<in> block_bits (b_data (B K)) else g \<in> map_bits s dev bidx n)}"
  proof (cases "g < 8192 * n \<and> g div 8192 \<noteq> j")
    case True
    then have "g div 8192 < n" by (simp add: less_mult_imp_div_less mult.commute)
    then have "bidx + of_nat (g div 8192) \<noteq> bidx + of_nat j" using key_index [OF assms(1) _ assms(2)] True by metis
    then show ?thesis using True assms(3,4) by (simp add: map_bits_def)
  next
    case False
    then show ?thesis using assms(3) by (auto simp: map_bits_def)
  qed
qed

text \<open>A change of one bitmap block keeps the invariant.\<close>

lemma zmap_ok_change:
  assumes "zmap_ok s dev m x" "\<forall>k. k \<noteq> K \<longrightarrow> b_data (B k) = data_of s k \<and> b_valid (B k) = b_valid (bufs s k)"
    "K = (dev, zmap_start x + of_nat j)" "j < zmap_blocks x" "length (b_data (B K)) = 1024" "b_valid (B K)"
  shows "zmap_ok (s\<lparr>bufs := B, disk := d\<rparr>) dev m x"
proof -
  have z: "mounted s dev m x" "map_ready s dev (zmap_start x) (zmap_blocks x)" using assms(1) by (simp_all add: zmap_ok_def)
  have "map_ready (s\<lparr>bufs := B, disk := d\<rparr>) dev (zmap_start x) (zmap_blocks x)"
  proof -
    have "b_valid (B (dev, zmap_start x + of_nat i)) \<and> length (b_data (B (dev, zmap_start x + of_nat i))) = 1024"
      if "i < zmap_blocks x" for i
      using that z(2) assms(2,5,6) by (cases "(dev, zmap_start x + of_nat i) = K") (auto simp: map_ready_def)
    then show ?thesis using z(2) by (simp add: map_ready_def)
  qed
  moreover have "mounted (s\<lparr>bufs := B, disk := d\<rparr>) dev m x"
  proof -
    have m: "m < length (super_table s)" using z(1) by (simp add: mounted_def)
    obtain k where k: "s_cache (super_table s ! m) = Some k" "get_super_desc (data_of s k) = x"
      using z(1) m by (auto simp: mounted_def sdesc_def elim!: bind_eq_SomeE)
    have "k \<noteq> K" using assms(1,3,4) k(1) by (auto simp: zmap_ok_def)
    then have "b_data (B k) = data_of s k" using assms(2) by blast
    then have "sdesc (s\<lparr>bufs := B, disk := d\<rparr>) m = Some x" using k m by (simp add: sdesc_def)
    then show ?thesis using z(1) by (simp add: mounted_def find_super_def)
  qed
  ultimately show ?thesis using assms(1) by (simp add: zmap_ok_def)
qed

lemma zmap_ok_same:
  assumes "\<And>k. b_data (B k) = data_of s k" "\<And>k. b_valid (B k) = b_valid (bufs s k)"
  shows "zmap_ok (s\<lparr>bufs := B\<rparr>) dev m x = zmap_ok s dev m x" "zone_bits (s\<lparr>bufs := B\<rparr>) dev x = zone_bits s dev x"
proof -
  have "sdesc (s\<lparr>bufs := B\<rparr>) m = sdesc s m" using assms(1) by (simp add: sdesc_def)
  then show "zmap_ok (s\<lparr>bufs := B\<rparr>) dev m x = zmap_ok s dev m x"
    using assms by (simp add: zmap_ok_def mounted_def find_super_def map_ready_def)
  show "zone_bits (s\<lparr>bufs := B\<rparr>) dev x = zone_bits s dev x" using assms(1) by (simp add: zone_bits_def map_bits_def)
qed

lemma unat_zones: "unat (ucast (w :: u16) :: u32) = unat w" "unat (w :: u16) < 65536"
  using unat_lt2p [of w] by (transfer, simp, simp)

lemma unat_zmap_start: "unat (zmap_start x) = 2 + unat (sd_imap_blocks x)"
proof -
  have "unat (sd_imap_blocks x) < 65536" by (rule unat_zones)
  then show ?thesis by (simp add: zmap_start_def FS_IMAP_BLOCK_NR_def unat_plus_less unat_zones(1))
qed

text \<open>The first bit's zone as the code computes it.\<close>

lemma unat_first_zone:
  assumes "sd_firstdatazone x \<noteq> 0"
  shows "unat (ucast (sd_firstdatazone x) - 1 :: u32) = unat (sd_firstdatazone x) - 1"
proof -
  have "0 < unat (sd_firstdatazone x)" using assms by (simp add: unat_gt_0)
  then show ?thesis by (subst unat_sub) (simp_all add: word_le_nat_alt unat_zones(1))
qed


lemma balloc_takes:
  assumes "zmap_ok s dev m x" "g < 8192 * zmap_blocks x" "g \<notin> zone_bits s dev x" "\<forall>h < g. h \<in> zone_bits s dev x"
    "unat (sd_firstdatazone x) - 1 + g < unat (sd_zones x)" "K = (dev, zmap_start x + of_nat (g div 8192))"
  shows "\<exists>s1. balloc s dev = Some (of_nat (unat (sd_firstdatazone x) - 1 + g), s1) \<and> zmap_ok s1 dev m x \<and>
     zone_bits s1 dev x = insert g (zone_bits s dev x) \<and> disk s1 K = data_of s1 K \<and> \<not> b_dirty (bufs s1 K) \<and>
     (\<forall>k. k \<noteq> K \<longrightarrow> same_buf (bufs s k) (bufs s1 k) \<and> disk s1 k = disk s k) \<and> inode_table s1 = inode_table s \<and> clk s1 = clk s"
proof -
  let ?n = "zmap_blocks x" and ?b = "zmap_start x" and ?off = "ucast (sd_firstdatazone x) - 1 :: u32"
  have z: "mounted s dev m x" "map_ready s dev ?b ?n" "sd_firstdatazone x \<noteq> 0" using assms(1) by (simp_all add: zmap_ok_def)
  have mnt: "map_ready (held s m) dev ?b ?n" "map_bits (held s m) dev ?b ?n = zone_bits s dev x"
    using z(2) by (simp_all add: map_ready_def map_bits_def zone_bits_def)
  have off: "unat ?off = unat (sd_firstdatazone x) - 1" by (rule unat_first_zone [OF z(3)])
  have zb: "?n < 65536" "unat (sd_firstdatazone x) < 65536" by (rule unat_zones)+
  have j: "g div 8192 < ?n" using assms(2) by (simp add: less_mult_imp_div_less mult.commute)
  have lim: "unat ?off + 8192 * ?n < 2 ^ 32" "unat ?off + g < unat (ucast (sd_zones x) :: u32)"
    using off zb assms(5) by (simp_all add: unat_zones(1))
  obtain B where B: "alloc_loop (held s m) dev ?b ?off (ucast (sd_zones x)) ?n None = Some (?off + of_nat g, Some K, (held s m)\<lparr>bufs := B\<rparr>)"
     "length (b_data (B K)) = 1024" "block_bits (b_data (B K)) = insert (g mod 8192) (block_bits (data_of s K))"
     "b_dirty (B K)" "b_valid (B K)" "b_count (bufs s K) \<le> b_count (B K)" "\<forall>k. k \<noteq> K \<longrightarrow> same_buf (bufs s k) (B k)"
    using alloc_loop_found [OF mnt(1) lim(1) assms(2) _ _ lim(2) assms(6), of None] assms(3,4) mnt(2) by auto
  define C where "C = B(K := (B K)\<lparr>b_dirty := False, b_valid := True\<rparr>)"
  define s1 where "s1 = s\<lparr>bufs := C, disk := (disk s)(K := b_data (B K))\<rparr>"
  have wr: "buf_bwrite ((held s m)\<lparr>bufs := B\<rparr>) K = (held s m)\<lparr>bufs := C, disk := (disk s)(K := b_data (B K))\<rparr>"
    using B(4) by (simp add: buf_bwrite_def upd_buf_def C_def)
  have put: "put_super ((held s m)\<lparr>bufs := C, disk := (disk s)(K := b_data (B K))\<rparr>) (Some m) = Some s1"
    using put_super_held [OF z(1), of "(held s m)\<lparr>bufs := C, disk := (disk s)(K := b_data (B K))\<rparr>"]
    by (simp add: s1_def held_def)
  have nr: "?off + of_nat g = of_nat (unat (sd_firstdatazone x) - 1 + g)"
    using off by (metis of_nat_add word_of_nat_unat)
  have run: "balloc s dev = Some (of_nat (unat (sd_firstdatazone x) - 1 + g), s1)"
    using B(1) wr put sdesc_held [OF z(1)] nr by (simp add: balloc_def get_super_mounted [OF z(1)] zmap_start_def)
  have CK: "C K = (B K)\<lparr>b_dirty := False, b_valid := True\<rparr>" "\<And>k. k \<noteq> K \<Longrightarrow> C k = B k" by (simp_all add: C_def)
  have rest: "\<forall>k. k \<noteq> K \<longrightarrow> b_data (C k) = data_of s k \<and> b_valid (C k) = b_valid (bufs s k)"
    using B(7) CK(2) by (simp add: same_buf_def)
  have "zmap_ok s1 dev m x"
    unfolding s1_def using zmap_ok_change [OF assms(1) rest assms(6) j] B(2,5) CK(1) by simp
  moreover have "zone_bits s1 dev x = insert g (zone_bits s dev x)"
  proof -
    have "zone_bits s1 dev x = map_bits (s\<lparr>bufs := C\<rparr>) dev ?b ?n" by (simp add: s1_def zone_bits_def map_bits_def)
    also have "\<dots> = {h. h < 8192 * ?n \<and> (if h div 8192 = g div 8192 then h mod 8192 \<in> block_bits (b_data (C K))
        else h \<in> zone_bits s dev x)}"
      unfolding zone_bits_def using z(2) j assms(6) rest by (intro map_bits_change) (auto simp: map_ready_def)
    also have "\<dots> = insert g (zone_bits s dev x)"
    proof (rule set_eqI)
      fix h
      show "h \<in> {h. h < 8192 * ?n \<and> (if h div 8192 = g div 8192 then h mod 8192 \<in> block_bits (b_data (C K))
        else h \<in> zone_bits s dev x)} \<longleftrightarrow> h \<in> insert g (zone_bits s dev x)"
      proof (cases "h = g")
        case True
        then show ?thesis using B(3) CK(1) assms(2) by simp
      next
        case False
        then have "h div 8192 = g div 8192 \<Longrightarrow> h mod 8192 \<noteq> g mod 8192" by (metis div_mult_mod_eq)
        then show ?thesis using B(3) CK(1) assms(6) False by (auto simp: zone_bits_def map_bits_def)
      qed
    qed
    finally show ?thesis .
  qed
  ultimately show ?thesis
    using run CK B(7) by (intro exI [of _ s1]) (auto simp: s1_def)
qed

text \<open>Clearing a bit of a bitmap block in memory.\<close>

lemma clear_bit_spec:
  assumes "length (data_of s K) = 1024" "unat off + 8192 < 2 ^ 32" "i < 8192" "i \<in> block_bits (data_of s K)"
  shows "\<exists>d. clear_bit_in s (Some K) off (off + of_nat i) =
       Some (s\<lparr>bufs := (bufs s)(K := (bufs s K)\<lparr>b_data := d, b_dirty := False, b_valid := True\<rparr>), disk := (disk s)(K := d)\<rparr>) \<and>
     length d = 1024 \<and> block_bits d = block_bits (data_of s K) - {i}"
proof -
  let ?m = "bitmap_make (data_of s K) BLOCK_SIZE off"
  note inv = bm_inv_block [OF assms(1,2)]
  have sel: "boffset ?m = off" "bm_size ?m = 8192" "blength ?m = BLOCK_SIZE" by (simp_all add: bitmap_make_def)
  have test: "bitmap_test ?m (off + of_nat i) = Some True"
    using bitmap_test_spec [OF inv, of i] assms(3,4) by (simp add: sel bm_used_block)
  obtain m' where m': "bitmap_set ?m (off + of_nat i) False = Some m'" "boffset m' = off" "blength m' = BLOCK_SIZE"
      "bm_used m' = bm_used ?m - {i}"
    using bitmap_set_spec [OF inv, of i False] assms(3) by (auto simp: sel)
  have len: "length (bits m') = 1024"
    using m'(1) assms(1) by (auto simp: bitmap_set_def bitmap_make_def Let_def split: if_splits elim!: bind_eq_SomeE dest!: aset_SomeD)
  have "m' = bitmap_make (bits m') BLOCK_SIZE off" using m'(2,3) by (simp add: bitmap_make_def)
  then have "bm_used m' = block_bits (bits m')" by (metis bm_used_block)
  then have bb: "block_bits (bits m') = block_bits (data_of s K) - {i}" using m'(4) by (simp add: bm_used_block)
  show ?thesis using test m'(1) len bb
    by (intro exI [of _ "bits m'"]) (simp add: clear_bit_in_def buf_bwrite_def set_dirty_def set_data_def upd_buf_def)
qed

lemma bfree_gives:
  assumes "zmap_ok s dev m x" "g \<in> zone_bits s dev x" "z = unat (sd_firstdatazone x) - 1 + g" "z < unat (sd_zones x)"
    "K = (dev, zmap_start x + of_nat (g div 8192))"
  shows "\<exists>s1. bfree s dev (of_nat z) = Some s1 \<and> zmap_ok s1 dev m x \<and>
     zone_bits s1 dev x = zone_bits s dev x - {g} \<and> disk s1 K = data_of s1 K \<and>
     (\<forall>k. k \<noteq> K \<longrightarrow> bufs s1 k = bufs s k \<and> disk s1 k = disk s k) \<and> inode_table s1 = inode_table s \<and> clk s1 = clk s"
proof -
  let ?n = "zmap_blocks x" and ?b = "zmap_start x" and ?off = "ucast (sd_firstdatazone x) - 1 :: u32"
  let ?blk = "(of_nat z - ?off) div BLOCK_BITS :: u32"
  have zk: "mounted s dev m x" "map_ready s dev ?b ?n" "sd_firstdatazone x \<noteq> 0" using assms(1) by (simp_all add: zmap_ok_def)
  have g: "g < 8192 * ?n" "g mod 8192 \<in> block_bits (data_of s K)" using assms(2,5) by (simp_all add: zone_bits_def map_bits_def)
  have j: "g div 8192 < ?n" using g(1) by (simp add: less_mult_imp_div_less mult.commute)
  have off: "unat ?off = unat (sd_firstdatazone x) - 1" by (rule unat_first_zone [OF zk(3)])
  have small: "?n < 65536" "unat (sd_zones x) < 65536" "unat (sd_firstdatazone x) < 65536" by (rule unat_zones)+
  have uz: "unat (of_nat z :: u32) = z" using assms(4) small(2) by (intro unat_of_nat_less) simp
  have "unat (of_nat z - ?off) = g" using off uz assms(3) by (subst unat_sub) (simp_all add: word_le_nat_alt)
  then have blk: "unat ?blk = g div 8192" by (simp add: unat_div)
  have lt: "(of_nat z :: u32) < ucast (sd_zones x)" using uz assms(4) by (simp add: word_less_nat_alt unat_zones(1))
  have zm: "aget (s_zmaps (super_table s ! m)) (unat ?blk) = Some (Some K)"
    using assms(1,5) j blk by (simp add: zmap_ok_def)
  have len: "length (data_of s K) = 1024" using zk(2) j assms(5) by (simp add: map_ready_def)
  have base: "unat (?off + ?blk * BLOCK_BITS) = unat (sd_firstdatazone x) - 1 + 8192 * (g div 8192)"
  proof -
    have "unat (?blk * BLOCK_BITS) = 8192 * (g div 8192)"
      using blk g(1) small(1) by (simp add: unat_word_ariths)
    then show ?thesis using off assms(3,4) small(2) by (subst unat_plus_less) simp_all
  qed
  have idx: "of_nat z = ?off + ?blk * BLOCK_BITS + of_nat (g mod 8192)"
  proof -
    have "of_nat z = (of_nat (unat (?off + ?blk * BLOCK_BITS)) + of_nat (g mod 8192) :: u32)"
      unfolding base using assms(3) by (simp flip: of_nat_add add: ac_simps)
    then show ?thesis by simp
  qed
  have b32: "unat (?off + ?blk * BLOCK_BITS) + 8192 < 2 ^ 32"
    unfolding base using assms(3,4) small(2) by (simp add: algebra_simps)
  obtain d where d: "clear_bit_in (held s m) (Some K) (?off + ?blk * BLOCK_BITS) (of_nat z) =
       Some ((held s m)\<lparr>bufs := (bufs s)(K := (bufs s K)\<lparr>b_data := d, b_dirty := False, b_valid := True\<rparr>), disk := (disk s)(K := d)\<rparr>)"
      "length d = 1024" "block_bits d = block_bits (data_of s K) - {g mod 8192}"
    using clear_bit_spec [of "held s m" K "?off + ?blk * BLOCK_BITS" "g mod 8192"] len b32 g(2) unfolding idx [symmetric] by auto
  define B where "B = (bufs s)(K := (bufs s K)\<lparr>b_data := d, b_dirty := False, b_valid := True\<rparr>)"
  define s1 where "s1 = s\<lparr>bufs := B, disk := (disk s)(K := d)\<rparr>"
  have B: "B K = (bufs s K)\<lparr>b_data := d, b_dirty := False, b_valid := True\<rparr>" "\<And>k. k \<noteq> K \<Longrightarrow> B k = bufs s k"
    by (simp_all add: B_def)
  have m: "m < length (super_table s)" using zk(1) by (simp add: mounted_def)
  have "s_zmaps (super_table (held s m) ! m) = s_zmaps (super_table s ! m)" using m by (simp add: held_def)
  moreover have "put_super ((held s m)\<lparr>bufs := B, disk := (disk s)(K := d)\<rparr>) (Some m) = Some s1"
    using put_super_held [OF zk(1), of "(held s m)\<lparr>bufs := B, disk := (disk s)(K := d)\<rparr>"] by (simp add: s1_def held_def)
  ultimately have run: "bfree s dev (of_nat z) = Some s1"
    using m lt zm d(1) by (simp add: bfree_def get_super_mounted [OF zk(1)] sdesc_held [OF zk(1)] B_def)
  have "zmap_ok s1 dev m x"
    unfolding s1_def using zmap_ok_change [OF assms(1) _ assms(5) j, of B "(disk s)(K := d)"] B d(2) by simp
  moreover have "zone_bits s1 dev x = zone_bits s dev x - {g}"
  proof -
    have "zone_bits s1 dev x = map_bits (s\<lparr>bufs := B\<rparr>) dev ?b ?n" by (simp add: s1_def zone_bits_def map_bits_def)
    also have "\<dots> = {h. h < 8192 * ?n \<and> (if h div 8192 = g div 8192 then h mod 8192 \<in> block_bits (b_data (B K))
        else h \<in> zone_bits s dev x)}"
      unfolding zone_bits_def using zk(2) j assms(5) B(2) by (intro map_bits_change) (auto simp: map_ready_def)
    also have "\<dots> = zone_bits s dev x - {g}"
    proof (rule set_eqI)
      fix h
      show "h \<in> {h. h < 8192 * ?n \<and> (if h div 8192 = g div 8192 then h mod 8192 \<in> block_bits (b_data (B K))
        else h \<in> zone_bits s dev x)} \<longleftrightarrow> h \<in> zone_bits s dev x - {g}"
      proof (cases "h = g")
        case True
        then show ?thesis using B(1) d(3) by simp
      next
        case False
        then have "h div 8192 = g div 8192 \<Longrightarrow> h mod 8192 \<noteq> g mod 8192" by (metis div_mult_mod_eq)
        then show ?thesis using B(1) d(3) assms(5) False by (auto simp: zone_bits_def map_bits_def)
      qed
    qed
    finally show ?thesis .
  qed
  ultimately show ?thesis using run B by (intro exI [of _ s1]) (auto simp: s1_def)
qed

section \<open>Properties\<close>

text \<open>
  C13. Zones are allocated first-fit and allocation is undone by freeing: on a mounted device \<open>balloc\<close>
  returns the lowest zone whose bit is clear in the bitmap, however many blocks the bitmap has, sets
  exactly that bit in memory and on the disk; \<open>bfree\<close> of the zone then clears exactly that bit again.
\<close>

theorem balloc_bfree_roundtrip:
  assumes "zmap_ok s dev m x" "g < 8192 * zmap_blocks x" "g \<notin> zone_bits s dev x" "\<forall>h < g. h \<in> zone_bits s dev x"
    "z = unat (sd_firstdatazone x) - 1 + g" "z < unat (sd_zones x)" "K = (dev, zmap_start x + of_nat (g div 8192))"
  shows "\<exists>s1 s2. balloc s dev = Some (of_nat z, s1) \<and> zone_bits s1 dev x = insert g (zone_bits s dev x) \<and>
     disk s1 K = data_of s1 K \<and> zmap_ok s1 dev m x \<and>
     bfree s1 dev (of_nat z) = Some s2 \<and> zone_bits s2 dev x = zone_bits s dev x \<and> disk s2 K = data_of s2 K \<and>
     zmap_ok s2 dev m x"
proof -
  obtain s1 where s1: "balloc s dev = Some (of_nat z, s1)" "zmap_ok s1 dev m x"
      "zone_bits s1 dev x = insert g (zone_bits s dev x)" "disk s1 K = data_of s1 K"
    using balloc_takes [OF assms(1-4) _ assms(7)] assms(5,6) by auto
  have "g \<in> zone_bits s1 dev x" by (simp add: s1(3))
  from bfree_gives [OF s1(2) this assms(5,6,7)] obtain s2 where s2: "bfree s1 dev (of_nat z) = Some s2" "zmap_ok s2 dev m x"
      "zone_bits s2 dev x = zone_bits s1 dev x - {g}" "disk s2 K = data_of s2 K" by blast
  have "zone_bits s2 dev x = zone_bits s dev x" using s1(3) s2(3) assms(3) by simp
  then show ?thesis using s1 s2 by blast
qed


text \<open>
  A mounted file system on device 5: 100 blocks, one block for each bitmap, inodes in block 4, zones
  from 5 on. Inode 1, a regular file without zones, is open in slot 1 of the inode table.
\<close>

definition demo_super :: super_desc where
  "demo_super = \<lparr>sd_inodes = 10, sd_zones = 100, sd_imap_blocks = 1, sd_zmap_blocks = 1, sd_firstdatazone = 5,
     sd_log_zone_size = 0, sd_max_size = 0x10081C00, sd_magic = MINIX_V1_MAGIC\<rparr>"

definition demo_desc :: inode_desc where
  "demo_desc = \<lparr>d_mode = 0x81A4, d_uid = 0, d_size = 0, d_mtime = 0, d_gid = 0, d_nlinks = 1, d_zone = replicate 9 0\<rparr>"

definition kept_buffer :: "u8 list \<Rightarrow> buffer" where
  "kept_buffer d = \<lparr>b_data = d, b_count = 1, b_dirty = False, b_valid = True\<rparr>"

definition zero_block :: "u8 list" where
  "zero_block = replicate 1024 0"

definition demo_fs :: vfs where
  "demo_fs = (demo_vfs no_tasks (\<lambda>_. zero_block))\<lparr>
     bufs := (\<lambda>_. \<lparr>b_data = [], b_count = 0, b_dirty = False, b_valid = False\<rparr>)
       ((5, 1) := kept_buffer (put_super_desc zero_block demo_super), (5, 2) := kept_buffer (zero_block[0 := 3]),
        (5, 3) := kept_buffer (zero_block[0 := 1]), (5, 4) := kept_buffer (put_desc zero_block 0 demo_desc)),
     super_table := [null_super\<lparr>s_cache := Some (5, 1), s_imaps := [Some (5, 2)], s_zmaps := [Some (5, 3)], s_dev := 5,
        s_count := 1, s_inodes := [1]\<rparr>],
     inode_table := [null_inode, null_inode\<lparr>i_cache := (5, 4), i_slot := 0, i_dev := 5, i_nr := 1\<rparr>]\<rparr>"

lemma length_zero_block [simp]: "length zero_block = 1024"
  by (simp add: zero_block_def)

lemma demo_fs_fields:
  "bufs demo_fs (5, 1) = kept_buffer (put_super_desc zero_block demo_super)" "bufs demo_fs (5, 3) = kept_buffer (zero_block[0 := 1])"
  "bufs demo_fs (5, 4) = kept_buffer (put_desc zero_block 0 demo_desc)"
  "b_valid (bufs demo_fs (5, 5)) = False" "disk demo_fs = (\<lambda>_. zero_block)" "b_count (bufs demo_fs (5, 5)) = 0"
  "super_table demo_fs = [null_super\<lparr>s_cache := Some (5, 1), s_imaps := [Some (5, 2)], s_zmaps := [Some (5, 3)], s_dev := 5,
        s_count := 1, s_inodes := [1]\<rparr>]"
  "inode_table demo_fs = [null_inode, null_inode\<lparr>i_cache := (5, 4), i_slot := 0, i_dev := 5, i_nr := 1\<rparr>]"
  by (simp_all add: demo_fs_def demo_vfs_def)

lemma zero_block_nth: "i < 1024 \<Longrightarrow> zero_block ! i = 0"
  by (simp add: zero_block_def)

lemma demo_zone_bits: "block_bits (zero_block[0 := 1]) = {0}"
proof -
  have "i \<in> block_bits (zero_block[0 := 1]) \<longleftrightarrow> i = 0" for i
  proof (cases "i < 8192 \<and> i div 8 = 0")
    case True
    then have "i < 8" by auto
    then have "i \<in> {0, 1, 2, 3, 4, 5, 6, 7}" by auto
    then show ?thesis by (auto simp: block_bits_def)
  next
    case False
    then show ?thesis by (auto simp: block_bits_def zero_block_nth)
  qed
  then show ?thesis by auto
qed

lemma demo_super_fields: "unat (sd_zmap_blocks demo_super) = 1" "zmap_start demo_super = 3" "unat (sd_firstdatazone demo_super) = 5"
    "unat (sd_zones demo_super) = 100" "sd_firstdatazone demo_super \<noteq> 0"
  by (simp_all add: demo_super_def zmap_start_def FS_IMAP_BLOCK_NR_def)

lemma demo_zmap: "zmap_ok demo_fs 5 0 demo_super" "zone_bits demo_fs 5 demo_super = {0}"
proof -
  have "sdesc demo_fs 0 = Some demo_super"
    by (simp add: sdesc_def demo_fs_fields kept_buffer_def super_desc_read_back)
  moreover have "find_super demo_fs 5 = Some 0" by (simp add: find_super_def demo_fs_fields)
  ultimately have "mounted demo_fs 5 0 demo_super" by (simp add: mounted_def demo_fs_fields)
  then show "zmap_ok demo_fs 5 0 demo_super"
    by (simp add: zmap_ok_def map_ready_def demo_super_fields demo_fs_fields kept_buffer_def)
  have data: "data_of demo_fs (5, 3) = zero_block[0 := 1]" by (simp add: demo_fs_fields kept_buffer_def)
  show "zone_bits demo_fs 5 demo_super = {0}"
  proof (rule set_eqI)
    fix g
    show "g \<in> zone_bits demo_fs 5 demo_super \<longleftrightarrow> g \<in> {0}"
    proof (cases "g < 8192")
      case True
      then have "g mod 8192 = g" "g div 8192 = 0" by simp_all
      then show ?thesis using True unfolding zone_bits_def map_bits_def demo_super_fields mem_Collect_eq
        by (simp add: data demo_zone_bits)
    next
      case False
      then show ?thesis unfolding zone_bits_def map_bits_def demo_super_fields by simp
    qed
  qed
qed

theorem balloc_bfree_roundtrip_witness:
  "\<exists>s1 s2. balloc demo_fs 5 = Some (5, s1) \<and> zone_bits s1 5 demo_super = {0, 1} \<and>
     bfree s1 5 5 = Some s2 \<and> zone_bits s2 5 demo_super = {0}"
proof -
  have h: "1 < 8192 * zmap_blocks demo_super" "1 \<notin> zone_bits demo_fs 5 demo_super" "\<forall>h < 1. h \<in> zone_bits demo_fs 5 demo_super"
    "5 = unat (sd_firstdatazone demo_super) - 1 + 1" "5 < unat (sd_zones demo_super)"
    "(5, 3) = (5, zmap_start demo_super + of_nat (1 div 8192))"
    unfolding demo_zmap(2) demo_super_fields by auto
  obtain s1 s2 where "balloc demo_fs 5 = Some (of_nat 5, s1)" "zone_bits s1 5 demo_super = insert 1 (zone_bits demo_fs 5 demo_super)"
     "bfree s1 5 (of_nat 5) = Some s2" "zone_bits s2 5 demo_super = zone_bits demo_fs 5 demo_super"
    using balloc_bfree_roundtrip [OF demo_zmap(1) h] by blast
  then show ?thesis unfolding demo_zmap(2) by (intro exI [of _ s1] exI [of _ s2] conjI) (simp_all only: of_nat_numeral insert_commute)
qed

end
