(* ===== verification/Namei.thy ===== *)
theory Namei
  imports Zones Strings "HOL-Library.Signed_Division"
begin

text \<open>
  \<^verbatim>\<open>src/fs/namei.c\<close>: permissions, directories, path resolution, and the system calls that change the
  directory tree, with reading and writing of file contents.

  A C string is the list of its characters before the terminator; a pointer into it is the rest of the
  list, so the empty list is a pointer to the terminator. The name of a directory entry is read from
  the bytes of the buffer. A pair of results \<open>next\<close> and \<open>entry\<close> that the code stores through pointers is
  returned; an entry is the key of its buffer and its byte offset.
\<close>

section \<open>Permissions\<close>

definition permission :: "vfs \<Rightarrow> nat \<Rightarrow> u16 \<Rightarrow> bool option" where
  "permission s n acc = do {
     x \<leftarrow> idesc s n;
     let mode = d_mode x;
     if d_nlinks x = 0 then Some False
     else do {
       t \<leftarrow> get_current (kern_of s);
       if t_uid t = KERNEL_RING0 then Some True
       else let mode = (if t_uid t = ucast (d_uid x) then drop_bit 6 mode
                        else if t_gid t = ucast (d_gid x) then drop_bit 3 mode else mode)
         in Some (mode AND acc AND 7 = acc) } }"

section \<open>Directory entries\<close>

text \<open>The comparison loop of \<open>match_name\<close>: where both pointers stand when it ends.\<close>

fun match_loop :: "u8 list \<Rightarrow> u8 list \<Rightarrow> (u8 list \<times> u8 list) option" where
  "match_loop lhs [] = None"
| "match_loop [] (d # rhs) = Some ([], d # rhs)"
| "match_loop (c # lhs) (d # rhs) = (if c = d \<and> d \<noteq> EOS then match_loop lhs rhs else Some (c # lhs, d # rhs))"

text \<open>\<open>Some (Some next)\<close> for a match, \<open>Some None\<close> for none.\<close>

definition match_name :: "u8 list \<Rightarrow> u8 list \<Rightarrow> u8 list option option" where
  "match_name name entry = do {
     (lhs, rhs) \<leftarrow> match_loop (dropWhile IS_SEPARATOR name) entry;
     if hd rhs \<noteq> EOS then Some None
     else case lhs of
         [] \<Rightarrow> Some (Some [])
       | c # lhs \<Rightarrow> if \<not> IS_SEPARATOR c then Some None else Some (Some lhs) }"

definition dot :: "u8 list" where "dot = [0x2E]"
definition dotdot :: "u8 list" where "dotdot = [0x2E, 0x2E]"

text \<open>
  The start of the loop bodies of \<open>find_entry\<close> and \<open>add_entry\<close>: go to the next block when there is no
  buffer yet or the entry pointer has left it.
\<close>

definition entry_at :: "vfs \<Rightarrow> nat \<Rightarrow> bool \<Rightarrow> u32 \<Rightarrow> bkey option \<Rightarrow> nat \<Rightarrow> (bkey \<times> nat \<times> vfs) option" where
  "entry_at s dir create i pcache p =
     (case pcache of
        Some k \<Rightarrow> if p < unat BLOCK_SIZE then Some (k, p, s)
          else do {
            s \<leftarrow> buf_brelse s pcache;
            (block, s) \<leftarrow> bmap s dir (i div BLOCK_DENTRIES) create;
            kassert (block \<noteq> 0);
            v \<leftarrow> aget (inode_table s) dir;
            let (k, s) = buf_bread s (i_dev v) block;
            Some (k, 0, s) }
      | None \<Rightarrow> do {
            (block, s) \<leftarrow> bmap s dir (i div BLOCK_DENTRIES) create;
            kassert (block \<noteq> 0);
            v \<leftarrow> aget (inode_table s) dir;
            let (k, s) = buf_bread s (i_dev v) block;
            Some (k, 0, s) })"

fun find_entry_loop :: "vfs \<Rightarrow> nat \<Rightarrow> u8 list \<Rightarrow> u32 \<Rightarrow> nat \<Rightarrow> bkey option \<Rightarrow> nat \<Rightarrow>
    ((bkey \<times> nat \<times> u8 list) option \<times> vfs) option" where
  "find_entry_loop s dir name i 0 pcache p = do { s \<leftarrow> buf_brelse s pcache; Some (None, s) }"
| "find_entry_loop s dir name i (Suc left) pcache p = do {
     (k, p, s) \<leftarrow> entry_at s dir False i pcache p;
     if entry_nr (data_of s k) p = 0 then find_entry_loop s dir name (i + 1) left (Some k) (p + 16)
     else do {
       r \<leftarrow> match_name name (entry_name (data_of s k) p);
       case r of
         Some next \<Rightarrow> Some (Some (k, p, next), s)
       | None \<Rightarrow> find_entry_loop s dir name (i + 1) left (Some k) (p + 16) } }"

text \<open>\<^verbatim>\<open>..\<close> in the root directory of a mounted device leaves it for the directory it is mounted on.\<close>

definition leave_mount :: "vfs \<Rightarrow> nat \<Rightarrow> u8 list \<Rightarrow> (nat \<times> vfs) option" where
  "leave_mount s dir name = do {
     r \<leftarrow> match_name name (dotdot @ [EOS]);
     v \<leftarrow> aget (inode_table s) dir;
     if r \<noteq> None \<and> i_nr v = 1 \<and> dir \<noteq> 0 then do {
       (p, s) \<leftarrow> get_super s (i_dev v);
       m \<leftarrow> p;
       b \<leftarrow> aget (super_table s) m;
       d \<leftarrow> s_imount b;
       let s = set_icount s d (icount s d + 1);
       s \<leftarrow> iput s (Some dir);
       s \<leftarrow> put_super s p;
       Some (d, s) }
     else Some (dir, s) }"

text \<open>The result: the directory \<open>dir\<close> points to afterwards, and what was found in it.\<close>

definition find_entry :: "vfs \<Rightarrow> nat \<Rightarrow> u8 list \<Rightarrow> (nat \<times> (bkey \<times> nat \<times> u8 list) option \<times> vfs) option" where
  "find_entry s dir name = do {
     x \<leftarrow> idesc s dir;
     kassert (ISDIR (ucast (d_mode x)));
     (dir, s) \<leftarrow> leave_mount s dir name;
     x \<leftarrow> idesc s dir;
     (r, s) \<leftarrow> find_entry_loop s dir name 0 (unat (d_size x div sizeof_dentry)) None 0;
     Some (dir, r, s) }"

partial_function (option) add_entry_loop :: "vfs \<Rightarrow> nat \<Rightarrow> u8 list \<Rightarrow> u32 \<Rightarrow> bkey option \<Rightarrow> nat \<Rightarrow> (bkey \<times> nat \<times> vfs) option" where
  "add_entry_loop s dir name i pcache p = do {
     (k, p, s) \<leftarrow> entry_at s dir True i pcache p;
     x \<leftarrow> idesc s dir;
     s \<leftarrow> (if i * sizeof_dentry \<ge> d_size x
       then upd_idesc (set_data s k (\<lambda>d. set_entry_nr d p 0)) dir (\<lambda>x. x\<lparr>d_size := (i + 1) * sizeof_dentry\<rparr>)
       else Some s);
     if entry_nr (data_of s k) p \<noteq> 0 then add_entry_loop s dir name (i + 1) (Some k) (p + 16)
     else do {
       let s = set_dirty (set_data s k (\<lambda>d. entry_strncpy d p name)) k;
       s \<leftarrow> upd_idesc s dir (\<lambda>x. x\<lparr>d_mtime := vfs_time s\<rparr>);
       s \<leftarrow> set_idirty s dir;
       Some (k, p, s) } }"

definition add_entry :: "vfs \<Rightarrow> nat \<Rightarrow> u8 list \<Rightarrow> (bkey \<times> nat \<times> vfs) option" where
  "add_entry s dir name = do {
     (dir, r, s) \<leftarrow> find_entry s dir name;
     case r of
       Some (k, p, next) \<Rightarrow> Some (k, p, s)
     | None \<Rightarrow> do {
         kassert (\<forall>c \<in> set (take NAME_LEN name). \<not> IS_SEPARATOR c);
         add_entry_loop s dir name 0 None 0 } }"

section \<open>Path resolution\<close>

text \<open>\<^verbatim>\<open>strrsep(left) + 1\<close>: what follows the last separator, if there is one.\<close>

fun after_last_sep :: "u8 list \<Rightarrow> u8 list option" where
  "after_last_sep [] = None"
| "after_last_sep (c # cs) = (case after_last_sep cs of
      Some r \<Rightarrow> Some r
    | None \<Rightarrow> if IS_SEPARATOR c then Some cs else None)"

text \<open>
  The loop of \<open>named\<close>. Pointers into the path are compared by how much of it is left. A directory that
  is not one, or may not be searched, is not given back.
\<close>

partial_function (option) named_loop :: "vfs \<Rightarrow> nat \<Rightarrow> u8 list \<Rightarrow> u8 list \<Rightarrow> ((nat \<times> u8 list) option \<times> vfs) option" where
  "named_loop s inode left right = do {
     (inode, r, s) \<leftarrow> find_entry s inode left;
     case r of
       None \<Rightarrow> do { s \<leftarrow> iput s (Some inode); Some (None, s) }
     | Some (k, p, next) \<Rightarrow> do {
         v \<leftarrow> aget (inode_table s) inode;
         s \<leftarrow> iput s (Some inode);
         (inode, s) \<leftarrow> iget s (i_dev v) (ucast (entry_nr (data_of s k) p));
         s \<leftarrow> buf_brelse s (Some k);
         x \<leftarrow> idesc s inode;
         ok \<leftarrow> (if \<not> ISDIR (ucast (d_mode x)) then Some False else permission s inode P_EXEC);
         if \<not> ok then Some (None, s)
         else if length right = length next then Some (Some (inode, next), s)
         else named_loop s inode next right } }"

definition named :: "vfs \<Rightarrow> u8 list option \<Rightarrow> ((nat \<times> u8 list) option \<times> vfs) option" where
  "named s pathname = (case pathname of
       None \<Rightarrow> Some (None, s)
     | Some [] \<Rightarrow> Some (None, s)
     | Some (c # cs) \<Rightarrow> do {
         t \<leftarrow> get_current (kern_of s);
         let left = (if IS_SEPARATOR c then dropWhile IS_SEPARATOR cs else c # cs);
         inode \<leftarrow> (if IS_SEPARATOR c then t_iroot t else t_ipwd t);
         let s = set_icount s inode (icount s inode + 1);
         if left = [] then Some (Some (inode, left), s)
         else case after_last_sep left of
             None \<Rightarrow> Some (Some (inode, left), s)
           | Some right \<Rightarrow> named_loop s inode left right })"

definition namei :: "vfs \<Rightarrow> u8 list option \<Rightarrow> (nat option \<times> vfs) option" where
  "namei s pathname = do {
     (r, s) \<leftarrow> named s pathname;
     case r of
       None \<Rightarrow> Some (None, s)
     | Some (dir, []) \<Rightarrow> Some (Some dir, s)
     | Some (dir, name) \<Rightarrow> do {
         (dir, e, s) \<leftarrow> find_entry s dir name;
         case e of
           None \<Rightarrow> do { s \<leftarrow> iput s (Some dir); Some (None, s) }
         | Some (k, p, next) \<Rightarrow> do {
             v \<leftarrow> aget (inode_table s) dir;
             (inode, s) \<leftarrow> iget s (i_dev v) (ucast (entry_nr (data_of s k) p));
             s \<leftarrow> iput s (Some dir);
             s \<leftarrow> buf_brelse s (Some k);
             Some (Some inode, s) } } }"

text \<open>The common ends of the system calls: what is still held is given back.\<close>

definition clean_open :: "vfs \<Rightarrow> bkey option \<Rightarrow> nat option \<Rightarrow> nat option \<Rightarrow> vfs option" where
  "clean_open s pcache inode dir = do { s \<leftarrow> buf_brelse s pcache; s \<leftarrow> iput s inode; iput s dir }"

section \<open>Opening, reading and writing\<close>

text \<open>Storing the number of a new inode in the entry that \<open>add_entry\<close> returned.\<close>

definition set_nr :: "vfs \<Rightarrow> bkey \<Rightarrow> nat \<Rightarrow> u32 \<Rightarrow> vfs" where
  "set_nr s k p nr = set_data s k (\<lambda>d. set_entry_nr d p (ucast nr))"

definition inode_open :: "vfs \<Rightarrow> u8 list option \<Rightarrow> u32 \<Rightarrow> u32 \<Rightarrow> (nat option \<times> vfs) option" where
  "inode_open s pathname flag mode =
     (if flag AND O_TRUNC \<noteq> 0 \<and> flag AND O_ACCMODE = O_RDONLY then Some (None, s)
      else do {
        (r, s) \<leftarrow> named s pathname;
        case r of
          None \<Rightarrow> Some (None, s)
        | Some (dir, []) \<Rightarrow> Some (Some dir, s)
        | Some (dir, name) \<Rightarrow> do {
            (dir, e, s) \<leftarrow> find_entry s dir name;
            case e of
              Some (k, p, next) \<Rightarrow> do {
                v \<leftarrow> aget (inode_table s) dir;
                (inode, s) \<leftarrow> iget s (i_dev v) (ucast (entry_nr (data_of s k) p));
                ok \<leftarrow> permission s inode (ACC_MODE (flag AND O_ACCMODE));
                x \<leftarrow> idesc s inode;
                if ok \<and> ISDIR (ucast (d_mode x)) \<and> flag AND O_ACCMODE \<noteq> O_RDONLY then do {
                  s \<leftarrow> clean_open s (Some k) (Some inode) (Some dir);
                  Some (None, s) }
                else do {
                  s \<leftarrow> (if flag AND O_TRUNC \<noteq> 0 then inode_truncate s inode else Some s);
                  s \<leftarrow> buf_brelse s (Some k);
                  s \<leftarrow> iput s (Some dir);
                  Some (Some inode, s) } }
            | None \<Rightarrow>
                if flag AND O_CREAT = 0 then do { s \<leftarrow> clean_open s None None (Some dir); Some (None, s) }
                else do {
                  ok \<leftarrow> permission s dir P_WRITE;
                  if \<not> ok then do { s \<leftarrow> clean_open s None None (Some dir); Some (None, s) }
                  else do {
                    (k, p, s) \<leftarrow> add_entry s dir name;
                    v \<leftarrow> aget (inode_table s) dir;
                    (nr, s) \<leftarrow> ialloc s (i_dev v);
                    let s = set_nr s k p nr;
                    (inode, s) \<leftarrow> new_inode s (i_dev v) (ucast (entry_nr (data_of s k) p));
                    t \<leftarrow> get_current (kern_of s);
                    s \<leftarrow> upd_idesc s inode (\<lambda>x. x\<lparr>d_mode := ucast (mode AND (0x1FF AND NOT (ucast (t_umask t))) OR IFREG)\<rparr>);
                    s \<leftarrow> (if flag AND O_TRUNC \<noteq> 0 then inode_truncate s inode else Some s);
                    s \<leftarrow> buf_brelse s (Some k);
                    s \<leftarrow> iput s (Some dir);
                    Some (Some inode, s) } } } })"

text \<open>
  An \<open>off_t\<close> is signed: dividing it by the block size truncates. The bytes that \<open>inode_read\<close> stores
  into the caller's buffer are returned as a list. Reading or writing outside the buffer, before or behind its data, is not a value.
\<close>

definition off_block :: "u32 \<Rightarrow> u32" where "off_block offset = word_of_int (sint offset sdiv 1024)"
definition off_start :: "u32 \<Rightarrow> u32" where "off_start offset = word_of_int (sint offset smod 1024)"

partial_function (option) inode_read_loop :: "vfs \<Rightarrow> nat \<Rightarrow> u32 \<Rightarrow> u32 \<Rightarrow> u8 list \<Rightarrow> (u32 \<times> u8 list \<times> vfs) option" where
  "inode_read_loop s n left offset out =
     (if left = 0 then Some (offset, out, s)
      else do {
        (nr, s) \<leftarrow> bmap s n (off_block offset) False;
        kassert (nr \<noteq> 0);
        v \<leftarrow> aget (inode_table s) n;
        let (k, s) = buf_bread s (i_dev v) nr;
        let start = off_start offset;
        kassert (start < BLOCK_SIZE);
        let chars = min (BLOCK_SIZE - start) left;
        let bytes = take (unat chars) (drop (unat start) (data_of s k));
        s \<leftarrow> buf_brelse s (Some k);
        inode_read_loop s n (left - chars) (offset + chars) (out @ bytes) })"

definition inode_read :: "vfs \<Rightarrow> nat \<Rightarrow> u32 \<Rightarrow> u32 \<Rightarrow> (u32 \<times> u8 list \<times> vfs) option" where
  "inode_read s n len offset = do {
     x \<leftarrow> idesc s n;
     kassert (ISFILE (ucast (d_mode x)) \<or> ISDIR (ucast (d_mode x)));
     if offset \<ge> d_size x then Some (EOF, [], s)
     else if len = 0 then Some (0, [], s)
     else do {
       (offset', out, s) \<leftarrow> inode_read_loop s n (min len (d_size x - offset)) offset [];
       s \<leftarrow> upd_inode s n (\<lambda>i. i\<lparr>i_atime := vfs_time s\<rparr>);
       Some (offset' - offset, out, s) } }"

text \<open>\<^verbatim>\<open>memcpy(ptr, buf, chars)\<close> into the data of a buffer; \<open>buf\<close> is what is left of the caller's bytes.\<close>

definition put_at :: "u8 list \<Rightarrow> nat \<Rightarrow> u8 list \<Rightarrow> u8 list" where
  "put_at d p bs = take p d @ bs @ drop (p + length bs) d"

partial_function (option) inode_write_loop :: "vfs \<Rightarrow> nat \<Rightarrow> u8 list \<Rightarrow> u32 \<Rightarrow> u32 \<Rightarrow> (u32 \<times> vfs) option" where
  "inode_write_loop s n src left offset =
     (if left = 0 then Some (offset, s)
      else do {
        (nr, s) \<leftarrow> bmap s n (off_block offset) True;
        kassert (nr \<noteq> 0);
        v \<leftarrow> aget (inode_table s) n;
        let (k, s) = buf_bread s (i_dev v) nr;
        let start = off_start offset;
        kassert (start < BLOCK_SIZE);
        let chars = min (BLOCK_SIZE - start) left;
        let offset = offset + chars;
        x \<leftarrow> idesc s n;
        s \<leftarrow> (if offset > d_size x then upd_idesc s n (\<lambda>x. x\<lparr>d_size := offset\<rparr>) else Some s);
        kassert (unat chars \<le> length src);
        let s = set_dirty (set_data s k (\<lambda>d. put_at d (unat start) (take (unat chars) src))) k;
        s \<leftarrow> buf_brelse s (Some k);
        inode_write_loop s n (drop (unat chars) src) (left - chars) offset })"

definition inode_write :: "vfs \<Rightarrow> nat \<Rightarrow> u8 list \<Rightarrow> u32 \<Rightarrow> u32 \<Rightarrow> (u32 \<times> vfs) option" where
  "inode_write s n src len offset = do {
     x \<leftarrow> idesc s n;
     kassert (ISFILE (ucast (d_mode x)));
     if len + offset \<ge> FILE_MAX_SIZE then Some (EOF, s)
     else do {
       (offset', s) \<leftarrow> inode_write_loop s n src len offset;
       s \<leftarrow> upd_inode s n (\<lambda>i. i\<lparr>i_ctime := vfs_time s, i_atime := vfs_time s\<rparr>);
       v \<leftarrow> aget (inode_table s) n;
       s \<leftarrow> upd_idesc s n (\<lambda>x. x\<lparr>d_mtime := i_ctime v\<rparr>);
       let s = buf_bwrite (set_dirty s (i_cache v)) (i_cache v);
       Some (offset' - offset, s) } }"

section \<open>Changing the tree\<close>

definition write_dots :: "vfs \<Rightarrow> bkey \<Rightarrow> u16 \<Rightarrow> u16 \<Rightarrow> vfs" where
  "write_dots s k self parent = set_data s k (\<lambda>d.
     (let d = set_entry_nr (entry_strcpy d 0 dot) 0 self in set_entry_nr (entry_strcpy d 16 dotdot) 16 parent))"

definition sys_mkdir :: "vfs \<Rightarrow> u8 list option \<Rightarrow> u32 \<Rightarrow> (u32 \<times> vfs) option" where
  "sys_mkdir s pathname mode = do {
     (r, s) \<leftarrow> named s pathname;
     case r of
       None \<Rightarrow> Some (EOF, s)
     | Some (dir, []) \<Rightarrow> do { s \<leftarrow> iput s (Some dir); Some (EOF, s) }
     | Some (dir, name) \<Rightarrow> do {
         ok \<leftarrow> permission s dir P_WRITE;
         if \<not> ok then do { s \<leftarrow> iput s (Some dir); Some (EOF, s) }
         else do {
           (dir, e, s) \<leftarrow> find_entry s dir name;
           case e of
             Some (k, p, next) \<Rightarrow> do { s \<leftarrow> iput s (Some dir); s \<leftarrow> buf_brelse s (Some k); Some (EOF, s) }
           | None \<Rightarrow> do {
               (k, p, s) \<leftarrow> add_entry s dir name;
               let s = set_dirty s k;
               v \<leftarrow> aget (inode_table s) dir;
               (nr, s) \<leftarrow> ialloc s (i_dev v);
               let s = set_nr s k p nr;
               t \<leftarrow> get_current (kern_of s);
               (inode, s) \<leftarrow> new_inode s (i_dev v) (ucast (entry_nr (data_of s k) p));
               s \<leftarrow> upd_idesc s inode (\<lambda>x. x\<lparr>d_mode := ucast (mode AND 0x1FF AND NOT (ucast (t_umask t)) OR IFDIR),
                      d_nlinks := 2, d_size := sizeof_dentry * 2\<rparr>);
               s \<leftarrow> upd_idesc s dir (\<lambda>x. x\<lparr>d_nlinks := d_nlinks x + 1\<rparr>);
               s \<leftarrow> set_idirty s dir;
               (block, s) \<leftarrow> bmap s inode 0 True;
               w \<leftarrow> aget (inode_table s) inode;
               let (zone, s) = buf_bread s (i_dev w) block;
               let s = set_dirty s zone;
               let s = write_dots s zone (ucast (i_nr w)) (ucast (i_nr v));
               s \<leftarrow> iput s (Some inode);
               s \<leftarrow> iput s (Some dir);
               s \<leftarrow> buf_brelse s (Some zone);
               s \<leftarrow> buf_brelse s (Some k);
               Some (0, s) } } } }"

text \<open>Every block of the directory is read through \<^verbatim>\<open>bmap(inode, 1 / BLOCK_DENTRIES, false)\<close>.\<close>

fun count_entries :: "vfs \<Rightarrow> nat \<Rightarrow> nat \<Rightarrow> bkey option \<Rightarrow> nat \<Rightarrow> u32 \<Rightarrow> (u32 \<times> vfs) option" where
  "count_entries s n 0 pcache p count = do { s \<leftarrow> buf_brelse s pcache; Some (count, s) }"
| "count_entries s n (Suc left) pcache p count = do {
     (k, p, s) \<leftarrow> entry_at s n False 1 pcache p;
     count_entries s n left (Some k) (p + 16) (if entry_nr (data_of s k) p \<noteq> 0 then count + 1 else count) }"

definition is_dir_empty :: "vfs \<Rightarrow> nat \<Rightarrow> (bool \<times> vfs) option" where
  "is_dir_empty s n = do {
     x \<leftarrow> idesc s n;
     kassert (ISDIR (ucast (d_mode x)));
     let entries = d_size x div sizeof_dentry;
     if entries < 2 \<or> d_zone x ! 0 = 0 then Some (False, s)
     else do {
       (count, s) \<leftarrow> count_entries s n (unat entries) None 0 0;
       Some (count = 2, s) } }"

definition clean_rmdir :: "vfs \<Rightarrow> bkey option \<Rightarrow> nat option \<Rightarrow> nat option \<Rightarrow> vfs option" where
  "clean_rmdir s pcache inode dir = do { s \<leftarrow> iput s inode; s \<leftarrow> iput s dir; buf_brelse s pcache }"

definition sys_rmdir :: "vfs \<Rightarrow> u8 list option \<Rightarrow> (u32 \<times> vfs) option" where
  "sys_rmdir s pathname = do {
     (r, s) \<leftarrow> named s pathname;
     case r of
       None \<Rightarrow> Some (EOF, s)
     | Some (dir, name) \<Rightarrow> do {
         ok \<leftarrow> (if name = [] \<or> name = dot \<or> name = dotdot then Some False else permission s dir P_WRITE);
         if \<not> ok then do { s \<leftarrow> clean_rmdir s None None (Some dir); Some (EOF, s) }
         else do {
           (dir, e, s) \<leftarrow> find_entry s dir name;
           case e of
             None \<Rightarrow> do { s \<leftarrow> clean_rmdir s None None (Some dir); Some (EOF, s) }
           | Some (k, p, next) \<Rightarrow> do {
               v \<leftarrow> aget (inode_table s) dir;
               (inode, s) \<leftarrow> iget s (i_dev v) (ucast (entry_nr (data_of s k) p));
               kassert (inode \<noteq> dir);
               x \<leftarrow> idesc s inode;
               y \<leftarrow> idesc s dir;
               t \<leftarrow> get_current (kern_of s);
               w \<leftarrow> aget (inode_table s) inode;
               (ok, s) \<leftarrow> (if \<not> ISDIR (ucast (d_mode x)) \<or>
                       ucast (d_mode y) AND ISVTX \<noteq> 0 \<and> t_uid t \<noteq> ucast (d_uid x) \<or>
                       i_dev v \<noteq> i_dev w \<or> icount s inode > 1
                     then Some (False, s) else is_dir_empty s inode);
               if \<not> ok then do { s \<leftarrow> clean_rmdir s (Some k) (Some inode) (Some dir); Some (EOF, s) }
               else do {
                 kassert (d_nlinks x = 2);
                 s \<leftarrow> inode_truncate s inode;
                 s \<leftarrow> ifree s (i_dev w) (i_nr w);
                 s \<leftarrow> set_idirty s inode;
                 s \<leftarrow> upd_idesc s inode (\<lambda>x. x\<lparr>d_nlinks := 0\<rparr>);
                 s \<leftarrow> upd_inode s inode (\<lambda>i. i\<lparr>i_nr := 0\<rparr>);
                 s \<leftarrow> upd_idesc s dir (\<lambda>y. y\<lparr>d_nlinks := d_nlinks y - 1, d_mtime := vfs_time s\<rparr>);
                 s \<leftarrow> upd_inode s dir (\<lambda>i. i\<lparr>i_ctime := vfs_time s, i_atime := vfs_time s\<rparr>);
                 s \<leftarrow> set_idirty s dir;
                 y \<leftarrow> idesc s dir;
                 kassert (0 < d_nlinks y);
                 let s = set_dirty (set_nr s k p 0) k;
                 s \<leftarrow> clean_rmdir s (Some k) (Some inode) (Some dir);
                 Some (0, s) } } } } }"

definition clean_link :: "vfs \<Rightarrow> bkey option \<Rightarrow> nat option \<Rightarrow> nat option \<Rightarrow> vfs option" where
  "clean_link s pcache dir inode = do { s \<leftarrow> buf_brelse s pcache; s \<leftarrow> iput s dir; iput s inode }"

definition sys_link :: "vfs \<Rightarrow> u8 list option \<Rightarrow> u8 list option \<Rightarrow> (u32 \<times> vfs) option" where
  "sys_link s oldname newname = do {
     (q, s) \<leftarrow> namei s oldname;
     case q of
       None \<Rightarrow> Some (EOF, s)
     | Some inode \<Rightarrow> do {
         x \<leftarrow> idesc s inode;
         if ISDIR (ucast (d_mode x)) then do { s \<leftarrow> clean_link s None None (Some inode); Some (EOF, s) }
         else do {
           (r, s) \<leftarrow> named s newname;
           case r of
             None \<Rightarrow> do { s \<leftarrow> clean_link s None None (Some inode); Some (EOF, s) }
           | Some (dir, name) \<Rightarrow> do {
               v \<leftarrow> aget (inode_table s) dir;
               w \<leftarrow> aget (inode_table s) inode;
               ok \<leftarrow> (if name = [] \<or> i_dev v \<noteq> i_dev w then Some False else permission s dir P_WRITE);
               if \<not> ok then do { s \<leftarrow> clean_link s None (Some dir) (Some inode); Some (EOF, s) }
               else do {
                 (dir, e, s) \<leftarrow> find_entry s dir name;
                 case e of
                   Some (k, p, next) \<Rightarrow> do { s \<leftarrow> clean_link s (Some k) (Some dir) (Some inode); Some (EOF, s) }
                 | None \<Rightarrow> do {
                     (k, p, s) \<leftarrow> add_entry s dir name;
                     let s = set_dirty (set_nr s k p (i_nr w)) k;
                     s \<leftarrow> upd_idesc s inode (\<lambda>x. x\<lparr>d_nlinks := d_nlinks x + 1\<rparr>);
                     s \<leftarrow> upd_inode s inode (\<lambda>i. i\<lparr>i_ctime := vfs_time s\<rparr>);
                     s \<leftarrow> set_idirty s inode;
                     s \<leftarrow> clean_link s (Some k) (Some dir) (Some inode);
                     Some (0, s) } } } } } }"

definition sys_unlink :: "vfs \<Rightarrow> u8 list option \<Rightarrow> (u32 \<times> vfs) option" where
  "sys_unlink s filename = do {
     (r, s) \<leftarrow> named s filename;
     case r of
       None \<Rightarrow> Some (EOF, s)
     | Some (dir, name) \<Rightarrow> do {
         ok \<leftarrow> (if name = [] then Some False else permission s dir P_WRITE);
         if \<not> ok then do { s \<leftarrow> clean_open s None None (Some dir); Some (EOF, s) }
         else do {
           (dir, e, s) \<leftarrow> find_entry s dir name;
           case e of
             None \<Rightarrow> do { s \<leftarrow> clean_open s None None (Some dir); Some (EOF, s) }
           | Some (k, p, next) \<Rightarrow> do {
               v \<leftarrow> aget (inode_table s) dir;
               (inode, s) \<leftarrow> iget s (i_dev v) (ucast (entry_nr (data_of s k) p));
               x \<leftarrow> idesc s inode;
               t \<leftarrow> get_current (kern_of s);
               if ISDIR (ucast (d_mode x)) \<or> ucast (d_mode x) AND ISVTX \<noteq> 0 \<and> t_uid t \<noteq> ucast (d_uid x)
               then do { s \<leftarrow> clean_open s (Some k) (Some inode) (Some dir); Some (EOF, s) }
               else do {
                 kassert (d_nlinks x \<noteq> 0);
                 let s = set_dirty (set_nr s k p 0) k;
                 s \<leftarrow> upd_idesc s inode (\<lambda>x. x\<lparr>d_nlinks := d_nlinks x - 1\<rparr>);
                 s \<leftarrow> set_idirty s inode;
                 x \<leftarrow> idesc s inode;
                 w \<leftarrow> aget (inode_table s) inode;
                 s \<leftarrow> (if d_nlinks x = 0 then do { s \<leftarrow> inode_truncate s inode; ifree s (i_dev w) (i_nr w) } else Some s);
                 s \<leftarrow> clean_open s (Some k) (Some inode) (Some dir);
                 Some (0, s) } } } } }"

definition sys_mknod :: "vfs \<Rightarrow> u8 list option \<Rightarrow> u32 \<Rightarrow> u32 \<Rightarrow> (u32 \<times> vfs) option" where
  "sys_mknod s filename mode dev = do {
     (r, s) \<leftarrow> named s filename;
     case r of
       None \<Rightarrow> Some (EOF, s)
     | Some (dir, name) \<Rightarrow> do {
         ok \<leftarrow> (if name = [] then Some False else permission s dir P_WRITE);
         if \<not> ok then do { s \<leftarrow> clean_open s None None (Some dir); Some (EOF, s) }
         else do {
           (dir, e, s) \<leftarrow> find_entry s dir name;
           case e of
             Some (k, p, next) \<Rightarrow> do { s \<leftarrow> clean_open s (Some k) None (Some dir); Some (EOF, s) }
           | None \<Rightarrow> do {
               (k, p, s) \<leftarrow> add_entry s dir name;
               let s = set_dirty s k;
               v \<leftarrow> aget (inode_table s) dir;
               (nr, s) \<leftarrow> ialloc s (i_dev v);
               let s = set_nr s k p nr;
               (inode, s) \<leftarrow> new_inode s (i_dev v) (ucast (entry_nr (data_of s k) p));
               s \<leftarrow> upd_idesc s inode (\<lambda>x. x\<lparr>d_mode := ucast mode\<rparr>);
               s \<leftarrow> (if ISBLK mode \<or> ISCHR mode
                     then upd_idesc s inode (\<lambda>x. x\<lparr>d_zone := (d_zone x)[0 := ucast dev]\<rparr>) else Some s);
               s \<leftarrow> clean_open s (Some k) (Some inode) (Some dir);
               Some (0, s) } } } }"

section \<open>Files of one block\<close>

text \<open>An open inode that is not a pipe, its descriptor \<open>x\<close> in a buffer that is held.\<close>

definition file_buf :: "buffer \<Rightarrow> nat \<Rightarrow> inode_desc \<Rightarrow> bool" where
  "file_buf b slot x \<longleftrightarrow> b_valid b \<and> 1 \<le> b_count b \<and> length (b_data b) = 1024 \<and> get_desc (b_data b) (32 * slot) = x"

definition file_ready :: "vfs \<Rightarrow> nat \<Rightarrow> inode_desc \<Rightarrow> bool" where
  "file_ready s n x \<longleftrightarrow> n < length (inode_table s) \<and> \<not> i_pipe (inode_table s ! n) \<and> i_slot (inode_table s ! n) < 32 \<and>
     file_buf (bufs s (i_cache (inode_table s ! n))) (i_slot (inode_table s ! n)) x"

lemma file_readyD:
  assumes "file_ready s n x"
  shows "aget (inode_table s) n = Some (inode_table s ! n)" "\<not> i_pipe (inode_table s ! n)" "idesc s n = Some x"
    "n < length (inode_table s)" "length (d_zone x) = 9"
  using assms by (auto simp: file_ready_def idesc_def file_buf_def)

lemma upd_idesc_ready:
  assumes "file_ready s n x"
  shows "upd_idesc s n f = Some (set_data s (i_cache (inode_table s ! n)) (\<lambda>d. put_desc d (32 * i_slot (inode_table s ! n)) (f x)))"
  using file_readyD [OF assms] by (simp add: upd_idesc_def)

lemma file_buf_put:
  assumes "file_buf b slot x" "slot < 32" "length (d_zone y) = 9"
  shows "file_buf (b\<lparr>b_data := put_desc (b_data b) (32 * slot) y\<rparr>) slot y"
  using assms by (simp add: file_buf_def desc_read_back)

lemma get_desc_zone0:
  assumes "p + 32 \<le> length d"
  shows "get_desc (put16 d (p + 14) w) p = (get_desc d p)\<lparr>d_zone := (d_zone (get_desc d p))[0 := w]\<rparr>"
  using assms by (simp add: get_desc_def put16_def [symmetric] nth_put16)

text \<open>Reading the first zone, and taking one for it.\<close>

lemma bmap_first:
  assumes "file_ready s n x" "d_zone x ! 0 \<noteq> 0 \<or> \<not> create"
  shows "bmap s n 0 create = Some (ucast (d_zone x ! 0), s)"
proof -
  let ?v = "inode_table s ! n"
  let ?b = "bufs s (i_cache ?v)"
  have z: "get16 (b_data ?b) (32 * i_slot ?v + 14) = d_zone x ! 0" and c: "1 \<le> b_count ?b"
    using assms(1) by (auto simp: file_ready_def file_buf_def get_desc_def)
  have "bufs s = (bufs s)(i_cache ?v := ?b\<lparr>b_count := b_count ?b + 1 - 1\<rparr>)" by simp
  then have same: "s\<lparr>bufs := (bufs s)(i_cache ?v := ?b\<lparr>b_count := b_count ?b\<rparr>)\<rparr> = s" by simp
  show ?thesis
    using file_readyD [OF assms(1)] z c same assms(2)
    by (cases create) (simp_all add: bmap_def TOTAL_BLOCKS_def DIRECT_BLOCKS_def INDIRECT1_BLOCKS_def INDIRECT2_BLOCKS_def BLOCK_INDEXES_def
        BLOCK_SIZE_def SECTOR_SIZE_def upd_buf_def buf_brelse_def Let_def)
qed

lemma bmap_new_first:
  assumes "file_ready s n x" "d_zone x ! 0 = 0"
    "zmap_ok s (i_dev (inode_table s ! n)) m sx" "g < 8192 * zmap_blocks sx" "g \<notin> zone_bits s (i_dev (inode_table s ! n)) sx"
    "\<forall>h < g. h \<in> zone_bits s (i_dev (inode_table s ! n)) sx"
    "z = unat (sd_firstdatazone sx) - 1 + g" "z < unat (sd_zones sx)"
    "K = (i_dev (inode_table s ! n), zmap_start sx + of_nat (g div 8192))" "K \<noteq> i_cache (inode_table s ! n)"
  shows "\<exists>s1. bmap s n 0 True = Some (of_nat z, s1) \<and> file_ready s1 n (x\<lparr>d_zone := (d_zone x)[0 := of_nat z]\<rparr>) \<and>
     (\<forall>k. k \<noteq> K \<and> k \<noteq> i_cache (inode_table s ! n) \<longrightarrow> same_buf (bufs s k) (bufs s1 k) \<and> disk s1 k = disk s k) \<and>
     inode_table s1 = inode_table s \<and> clk s1 = clk s"
proof -
  let ?v = "inode_table s ! n" and ?dev = "i_dev (inode_table s ! n)"
  let ?k = "i_cache ?v" and ?p = "32 * i_slot ?v"
  define b where "b = bufs s ?k"
  define s0 where "s0 = upd_buf s ?k (\<lambda>b. b\<lparr>b_count := b_count b + 1\<rparr>)"
  define B where "B = (bufs s)(?k := b\<lparr>b_count := b_count b + 1\<rparr>)"
  have s0: "s0 = s\<lparr>bufs := B\<rparr>" by (simp add: s0_def upd_buf_def b_def B_def)
  have B: "b_data (B k) = data_of s k" "b_valid (B k) = b_valid (bufs s k)" "b_dirty (B k) = b_dirty (bufs s k)"
    "b_count (bufs s k) \<le> b_count (B k)" for k by (simp_all add: B_def b_def)
  have fb: "i_slot ?v < 32" "file_buf b (i_slot ?v) x" using assms(1) by (simp_all add: file_ready_def b_def)
  have ok0: "zmap_ok s0 ?dev m sx" "zone_bits s0 ?dev sx = zone_bits s ?dev sx"
    unfolding s0 using assms(3) zmap_ok_same [of B s] B by simp_all
  obtain s1 where s1: "balloc s0 ?dev = Some (of_nat z, s1)" "inode_table s1 = inode_table s" "clk s1 = clk s"
      "\<forall>k. k \<noteq> K \<longrightarrow> same_buf (bufs s0 k) (bufs s1 k) \<and> disk s1 k = disk s0 k"
    using balloc_takes [OF ok0(1) assms(4) _ _ _ assms(9)] assms(5-8) unfolding ok0(2) by (auto simp: s0)
  define c where "c = bufs s1 ?k"
  have c: "b_data c = b_data b" "b_valid c" "1 < b_count c" "length (b_data c) = 1024"
    using s1(4) [rule_format, of ?k] assms(10) fb(2) by (simp_all add: s0 c_def B_def same_buf_def file_buf_def)
  let ?x = "x\<lparr>d_zone := (d_zone x)[0 := of_nat z]\<rparr>"
  define e where "e = c\<lparr>b_data := put16 (b_data b) (?p + 14) (of_nat z), b_dirty := True, b_count := b_count c - 1\<rparr>"
  define s2 where "s2 = s1\<lparr>bufs := (bufs s1)(?k := e)\<rparr>"
  have p: "?p + 32 \<le> length (b_data b)" using fb c by simp
  have desc: "get_desc (b_data b) ?p = x" using fb(2) by (simp add: file_buf_def)
  have "file_buf e (i_slot ?v) ?x"
    using c get_desc_zone0 [OF p, of "of_nat z"] desc by (simp add: file_buf_def e_def)
  then have ready: "file_ready s2 n ?x" using assms(1) s1(2) by (simp add: file_ready_def s2_def)
  have zone: "get16 (b_data b) (?p + 14) = d_zone x ! 0" using desc by (auto simp: get_desc_def)
  have "z < 65536" using assms(8) unat_zones(2) [of "sd_zones sx"] by simp
  then have uz: "(ucast (of_nat z :: u32) :: u16) = of_nat z" "(ucast (of_nat z :: u16) :: u32) = of_nat z"
    by (simp_all add: unsigned_of_nat take_bit_nat_eq_self)
  have run: "bmap s n 0 True = Some (of_nat z, s2)"
  proof -
    have first: "get16 (data_of s0 ?k) (?p + 14) = 0" using zone assms(2) B(1) by (simp add: s0 b_def)
    have len: "length (data_of s1 ?k) = 1024" using c(4) by (simp add: c_def)
    have loop: "bmap s n 0 True = bmap_loop 0 s0 ?dev ?k (?p + 14) 0 0 1 True"
      using file_readyD [OF assms(1)] by (simp add: bmap_def TOTAL_BLOCKS_def DIRECT_BLOCKS_def INDIRECT1_BLOCKS_def
        INDIRECT2_BLOCKS_def BLOCK_INDEXES_def BLOCK_SIZE_def SECTOR_SIZE_def s0_def Let_def)
    have wr: "set_dirty (set_data s1 ?k (\<lambda>d. put16 d (?p + 14) (of_nat z))) ?k =
        s1\<lparr>bufs := (bufs s1)(?k := c\<lparr>b_data := put16 (b_data c) (?p + 14) (of_nat z), b_dirty := True\<rparr>)\<rparr>"
      by (simp add: set_dirty_def set_data_def upd_buf_def c_def)
    have rel: "buf_brelse (s1\<lparr>bufs := (bufs s1)(?k := c\<lparr>b_data := put16 (b_data c) (?p + 14) (of_nat z), b_dirty := True\<rparr>)\<rparr>) (Some ?k) = Some s2"
      using c(1,3) by (simp add: buf_brelse_def upd_buf_def s2_def e_def)
    have "get16 (data_of s2 ?k) (?p + 14) = of_nat z" using p by (simp add: s2_def e_def)
    then show ?thesis using loop first s1(1) wr rel by (simp add: uz)
  qed
  have "same_buf (bufs s k) (bufs s2 k) \<and> disk s2 k = disk s k" if "k \<noteq> K \<and> k \<noteq> ?k" for k
    using s1(4) [rule_format, of k] that by (simp add: s2_def s0 B_def)
  then show ?thesis using run ready s1(2,3) by (intro exI [of _ s2]) (simp add: s2_def)
qed

lemma small_sdiv: "0 \<le> u \<Longrightarrow> u < 1024 \<Longrightarrow> u sdiv 1024 = 0 \<and> u smod (1024 :: int) = u"
  by (cases "u = 0") (simp_all add: signed_divide_int_def signed_modulo_int_def)

lemma off_small:
  assumes "unat offset < 1024" shows "off_block offset = 0" "off_start offset = offset"
proof -
  have "offset < 0x400" using assms by (simp add: word_less_nat_alt)
  then have u: "uint offset < 0x400" by (simp add: word_less_def)
  have nn: "0 \<le> uint offset" by simp
  have "signed_take_bit 31 (uint offset) = uint offset"
    by (rule signed_take_bit_int_eq_self) (use u in \<open>simp_all add: order_trans [OF _ nn]\<close>)
  then have s: "sint offset = uint offset" by (simp add: sint_uint)
  then show "off_block offset = 0" "off_start offset = offset"
    using small_sdiv [OF nn u] by (simp_all add: off_block_def off_start_def s)
qed

text \<open>A data block: what \<open>bread\<close> will find in it.\<close>

definition block_data :: "vfs \<Rightarrow> bkey \<Rightarrow> u8 list" where
  "block_data s k = (if b_valid (bufs s k) then data_of s k else disk s k)"

definition loaded :: "vfs \<Rightarrow> bkey \<Rightarrow> buffer" where
  "loaded s k = (let b = bufs s k in if b_valid b then b\<lparr>b_count := b_count b + 1\<rparr>
     else b\<lparr>b_count := b_count b + 1, b_data := disk s k, b_dirty := False, b_valid := True\<rparr>)"

lemma bread_loaded: "buf_bread s dev nr = ((dev, nr), s\<lparr>bufs := (bufs s)((dev, nr) := loaded s (dev, nr))\<rparr>)"
  by (simp add: buf_bread_def upd_buf_def loaded_def Let_def)

lemma loaded_fields: "b_data (loaded s k) = block_data s k" "b_valid (loaded s k)" "b_count (loaded s k) = b_count (bufs s k) + 1"
  by (simp_all add: loaded_def block_data_def Let_def)

text \<open>Giving a buffer back that was read and perhaps changed.\<close>

lemma brelse_keeps:
  assumes "0 \<le> b_count b - 1" "b_valid b"
  obtains s' where "buf_brelse (s\<lparr>bufs := (bufs s)(k := b)\<rparr>) (Some k) = Some s'" "b_valid (bufs s' k)" "data_of s' k = b_data b"
    "\<And>j. j \<noteq> k \<Longrightarrow> bufs s' j = bufs s j \<and> disk s' j = disk s j" "inode_table s' = inode_table s" "clk s' = clk s"
    "b_count (bufs s' k) = b_count b - 1"
proof (cases "b_count b - 1 \<noteq> 0 \<or> \<not> b_dirty b")
  case True
  then show ?thesis using assms
    by (intro that [of "s\<lparr>bufs := (bufs s)(k := b\<lparr>b_count := b_count b - 1\<rparr>)\<rparr>"])
      (auto simp: buf_brelse_def upd_buf_def buf_bwrite_def Let_def)
next
  case False
  then show ?thesis using assms
    by (intro that [of "s\<lparr>bufs := (bufs s)(k := b\<lparr>b_count := b_count b - 1, b_dirty := False, b_valid := True\<rparr>),
          disk := (disk s)(k := b_data b)\<rparr>"])
      (auto simp: buf_brelse_def upd_buf_def buf_bwrite_def)
qed

lemma file_ready_frame:
  assumes "file_ready s n x" "inode_table s' = inode_table s"
    "bufs s' (i_cache (inode_table s ! n)) = bufs s (i_cache (inode_table s ! n))"
  shows "file_ready s' n x"
  using assms by (simp add: file_ready_def)

lemma length_put_at: "p + length bs \<le> length d \<Longrightarrow> length (put_at d p bs) = length d"
  by (simp add: put_at_def)

lemma read_put_at: "p + length bs \<le> length d \<Longrightarrow> take (length bs) (drop p (put_at d p bs)) = bs"
  by (simp add: put_at_def)

text \<open>One turn of the write loop within the first block.\<close>

lemma write_loop_block:
  assumes "bmap s n 0 True = Some (ucast (w :: u16), s1)" "file_ready s1 n x" "w \<noteq> 0"
    "D = (i_dev (inode_table s1 ! n), ucast w)" "D \<noteq> i_cache (inode_table s1 ! n)" "length (block_data s1 D) = 1024"
    "0 \<le> b_count (bufs s1 D)" "unat offset + unat len < 1024" "len \<noteq> 0" "length src = unat len"
  shows "\<exists>s2. inode_write_loop s n src len offset = Some (offset + len, s2) \<and>
     file_ready s2 n (x\<lparr>d_size := max (d_size x) (offset + len)\<rparr>) \<and> b_valid (bufs s2 D) \<and>
     data_of s2 D = put_at (block_data s1 D) (unat offset) src \<and> inode_table s2 = inode_table s1 \<and> clk s2 = clk s1 \<and>
     b_count (bufs s2 D) = b_count (bufs s1 D)"
proof -
  let ?v = "inode_table s1 ! n" and ?k = "i_cache (inode_table s1 ! n)"
  define L where "L = loaded s1 D"
  define s2 where "s2 = s1\<lparr>bufs := (bufs s1)(D := L)\<rparr>"
  have rd: "buf_bread s1 (i_dev ?v) (ucast w) = (D, s2)" by (simp add: bread_loaded assms(4) s2_def L_def)
  have r2: "file_ready s2 n x" using assms(5) by (intro file_ready_frame [OF assms(2)]) (simp_all add: s2_def)
  have off: "off_block offset = 0" "off_start offset = offset" using assms(8) by (simp_all add: off_small)
  have sum: "unat (offset + len) = unat offset + unat len" using assms(8) by (intro unat_plus_less) simp
  have less: "offset < BLOCK_SIZE" using assms(8) by (simp add: word_less_nat_alt)
  have "unat (BLOCK_SIZE - offset) = 1024 - unat offset" using less by (subst unat_sub) (auto simp: less_imp_le)
  then have "len \<le> BLOCK_SIZE - offset" using assms(8) by (simp add: word_le_nat_alt)
  then have chars: "min (BLOCK_SIZE - offset) len = len" by (rule min_absorb2)
  let ?x = "x\<lparr>d_size := max (d_size x) (offset + len)\<rparr>"
  let ?up = "if offset + len > d_size x then upd_idesc s2 n (\<lambda>x. x\<lparr>d_size := offset + len\<rparr>) else Some s2"
  have "\<exists>s3. ?up = Some s3 \<and> file_ready s3 n ?x \<and> bufs s3 D = L \<and> inode_table s3 = inode_table s1 \<and> clk s3 = clk s1"
  proof (cases "offset + len > d_size x")
    case True
    define s3 where "s3 = set_data s2 ?k (\<lambda>d. put_desc d (32 * i_slot ?v) (x\<lparr>d_size := offset + len\<rparr>))"
    have "upd_idesc s2 n (\<lambda>x. x\<lparr>d_size := offset + len\<rparr>) = Some s3"
      using upd_idesc_ready [OF r2] by (simp add: s3_def s2_def)
    moreover have "file_ready s3 n (x\<lparr>d_size := offset + len\<rparr>)"
      using r2 file_buf_put [of "bufs s2 ?k" "i_slot ?v" x "x\<lparr>d_size := offset + len\<rparr>"] file_readyD(5) [OF r2]
      by (simp add: file_ready_def s3_def set_data_def upd_buf_def s2_def)
    moreover have "bufs s3 D = L" "inode_table s3 = inode_table s1" "clk s3 = clk s1"
      using assms(5) by (simp_all add: s3_def set_data_def upd_buf_def s2_def)
    moreover have "max (d_size x) (offset + len) = offset + len" using True by (intro max_absorb2) simp
    ultimately show ?thesis using True by simp
  next
    case False
    then show ?thesis using r2 by (auto simp: max_def s2_def)
  qed
  then obtain s3 where s3: "?up = Some s3" "file_ready s3 n ?x" "bufs s3 D = L" "inode_table s3 = inode_table s1" "clk s3 = clk s1"
    by blast
  let ?L = "L\<lparr>b_data := put_at (block_data s1 D) (unat offset) src, b_dirty := True\<rparr>"
  have dirty: "set_dirty (set_data s3 D (\<lambda>d. put_at d (unat offset) (take (unat len) src))) D = s3\<lparr>bufs := (bufs s3)(D := ?L)\<rparr>"
    using assms(10) s3(3) by (simp add: set_dirty_def set_data_def upd_buf_def L_def loaded_fields)
  obtain s4 where s4: "buf_brelse (s3\<lparr>bufs := (bufs s3)(D := ?L)\<rparr>) (Some D) = Some s4" "b_valid (bufs s4 D)"
      "data_of s4 D = put_at (block_data s1 D) (unat offset) src"
      "\<And>j. j \<noteq> D \<Longrightarrow> bufs s4 j = bufs s3 j \<and> disk s4 j = disk s3 j" "inode_table s4 = inode_table s3" "clk s4 = clk s3"
      "b_count (bufs s4 D) = b_count L - 1"
    using brelse_keeps [of ?L s3 D] assms(7) by (auto simp: L_def loaded_fields)
  have r4: "file_ready s4 n ?x" using s4(4)[of ?k] s4(5) s3(2,4) assms(5) by (intro file_ready_frame [OF s3(2)]) simp_all
  have last: "inode_write_loop s4 n [] 0 (offset + len) = Some (offset + len, s4)" by (subst inode_write_loop.simps) simp
  have nz: "(ucast w :: u32) \<noteq> 0" using assms(3) unat_zones(1) [of w] by (metis unat_eq_zero)
  have "inode_write_loop s n src len offset = Some (offset + len, s4)"
    using assms(1,9,10) rd file_readyD(3) [OF r2] file_readyD(1) [OF assms(2)] s3(1) dirty s4(1) last off less chars nz
    by (subst inode_write_loop.simps) simp
  then show ?thesis using r4 s4 s3(4,5) by (intro exI [of _ s4]) (simp add: L_def loaded_fields)
qed


text \<open>The end of a write: the times, and the descriptor written to the disk.\<close>

lemma upd_inode_times:
  assumes "file_ready s n x" "\<And>i. i_cache (f i) = i_cache i \<and> i_slot (f i) = i_slot i \<and> i_dev (f i) = i_dev i \<and> i_pipe (f i) = i_pipe i"
  obtains s' where "upd_inode s n f = Some s'" "file_ready s' n x" "bufs s' = bufs s" "disk s' = disk s"
    "inode_table s' ! n = f (inode_table s ! n)"
  using assms(2) [of "inode_table s ! n"] assms(1) file_readyD(1,4) [OF assms(1)]
  by (intro that [of "s\<lparr>inode_table := (inode_table s)[n := f (inode_table s ! n)]\<rparr>"]) (simp_all add: upd_inode_def file_ready_def)

lemma flush_desc:
  assumes "file_ready s n x" "length (d_zone (f x)) = 9"
  obtains s' where "upd_idesc s n f = Some s'"
    "file_ready (buf_bwrite (set_dirty s' (i_cache (inode_table s ! n))) (i_cache (inode_table s ! n))) n (f x)"
    "\<And>k. k \<noteq> i_cache (inode_table s ! n) \<Longrightarrow>
       bufs (buf_bwrite (set_dirty s' (i_cache (inode_table s ! n))) (i_cache (inode_table s ! n))) k = bufs s k"
    "inode_table (buf_bwrite (set_dirty s' (i_cache (inode_table s ! n))) (i_cache (inode_table s ! n))) = inode_table s"
proof -
  let ?v = "inode_table s ! n"
  have "file_buf ((bufs s (i_cache ?v))\<lparr>b_data := put_desc (b_data (bufs s (i_cache ?v))) (32 * i_slot ?v) (f x)\<rparr>) (i_slot ?v) (f x)"
    using assms by (intro file_buf_put) (auto simp: file_ready_def)
  then show ?thesis using assms(1)
    by (intro that [OF upd_idesc_ready [OF assms(1)]])
      (simp_all add: file_ready_def buf_bwrite_def set_dirty_def set_data_def upd_buf_def file_buf_def)
qed

text \<open>
  What a file holds whose bytes are all in its first block \<open>D\<close>.
\<close>

definition in_block :: "vfs \<Rightarrow> nat \<Rightarrow> inode_desc \<Rightarrow> bkey \<Rightarrow> bool" where
  "in_block s n x D \<longleftrightarrow> file_ready s n x \<and> ISFILE (ucast (d_mode x)) \<and> d_zone x ! 0 \<noteq> 0 \<and>
     D = (i_dev (inode_table s ! n), ucast (d_zone x ! 0)) \<and> D \<noteq> i_cache (inode_table s ! n) \<and>
     length (block_data s D) = 1024 \<and> 0 \<le> b_count (bufs s D) \<and> unat (d_size x) \<le> 1024"

definition contents :: "vfs \<Rightarrow> inode_desc \<Rightarrow> bkey \<Rightarrow> u8 list" where
  "contents s x D = take (unat (d_size x)) (block_data s D)"

lemma inode_write_block:
  assumes "bmap s n 0 True = Some (ucast (w :: u16), s1)" "file_ready s1 n y" "d_zone y ! 0 = w" "w \<noteq> 0"
    "idesc s n = Some x" "d_size y = d_size x" "d_mode y = d_mode x" "ISFILE (ucast (d_mode x))"
    "D = (i_dev (inode_table s1 ! n), ucast w)" "D \<noteq> i_cache (inode_table s1 ! n)" "length (block_data s1 D) = 1024"
    "0 \<le> b_count (bufs s1 D)" "unat (d_size x) \<le> 1024" "unat offset + length src < 1024" "src \<noteq> []"
  shows "\<exists>s' z. inode_write s n src (of_nat (length src)) offset = Some (of_nat (length src), s') \<and> in_block s' n z D \<and>
     d_size z = max (d_size x) (offset + of_nat (length src)) \<and> block_data s' D = put_at (block_data s1 D) (unat offset) src"
proof -
  let ?len = "of_nat (length src) :: u32"
  have len: "unat ?len = length src" using assms(14) by (simp add: unat_of_nat take_bit_nat_eq_self)
  have nz: "?len \<noteq> 0" using assms(15) len by (metis length_0_conv unat_0)
  obtain s2 where s2: "inode_write_loop s n src ?len offset = Some (offset + ?len, s2)"
      "file_ready s2 n (y\<lparr>d_size := max (d_size y) (offset + ?len)\<rparr>)" "b_valid (bufs s2 D)"
      "data_of s2 D = put_at (block_data s1 D) (unat offset) src" "inode_table s2 = inode_table s1"
      "b_count (bufs s2 D) = b_count (bufs s1 D)"
    using write_loop_block [OF assms(1,2,4,9-12), of offset ?len src] assms(14) nz len by auto
  let ?y = "y\<lparr>d_size := max (d_size y) (offset + ?len)\<rparr>"
  obtain s3 where s3: "upd_inode s2 n (\<lambda>i. i\<lparr>i_ctime := vfs_time s2, i_atime := vfs_time s2\<rparr>) = Some s3" "file_ready s3 n ?y"
      "bufs s3 = bufs s2" "inode_table s3 ! n = (inode_table s2 ! n)\<lparr>i_ctime := vfs_time s2, i_atime := vfs_time s2\<rparr>"
    by (rule upd_inode_times [OF s2(2), of "\<lambda>i. i\<lparr>i_ctime := vfs_time s2, i_atime := vfs_time s2\<rparr>"]) auto
  let ?v = "inode_table s3 ! n"
  let ?z = "?y\<lparr>d_mtime := i_ctime ?v\<rparr>"
  obtain s4 where s4: "upd_idesc s3 n (\<lambda>x. x\<lparr>d_mtime := i_ctime ?v\<rparr>) = Some s4"
      "file_ready (buf_bwrite (set_dirty s4 (i_cache ?v)) (i_cache ?v)) n ?z"
      "\<And>k. k \<noteq> i_cache ?v \<Longrightarrow> bufs (buf_bwrite (set_dirty s4 (i_cache ?v)) (i_cache ?v)) k = bufs s3 k"
      "inode_table (buf_bwrite (set_dirty s4 (i_cache ?v)) (i_cache ?v)) = inode_table s3"
    by (rule flush_desc [OF s3(2), of "\<lambda>x. x\<lparr>d_mtime := i_ctime ?v\<rparr>"]) (use file_readyD(5) [OF s3(2)] in auto)
  define s5 where "s5 = buf_bwrite (set_dirty s4 (i_cache ?v)) (i_cache ?v)"
  have v: "i_cache ?v = i_cache (inode_table s1 ! n)" "i_dev ?v = i_dev (inode_table s1 ! n)" using s3(4) s2(5) by simp_all
  have D5: "bufs s5 D = bufs s2 D" using s4(3) [of D] v(1) assms(10) s3(3) by (simp add: s5_def)
  then have data: "block_data s5 D = put_at (block_data s1 D) (unat offset) src" using s2(3,4) by (simp add: block_data_def)
  have sum: "unat (offset + ?len) = unat offset + length src" using assms(14) len by (subst unat_plus_less) simp_all
  have "?len + offset < FILE_MAX_SIZE"
    using sum assms(14) by (simp add: word_less_nat_alt FILE_MAX_SIZE_def add.commute)
  then have "inode_write s n src ?len offset = Some (?len, s5)"
    using assms(5,8) s2(1) s3(1) s4(1) file_readyD(1) [OF s3(2)] by (simp add: inode_write_def s5_def not_le [symmetric])
  moreover have "unat (max (d_size x) (offset + ?len)) \<le> 1024" using assms(13,14) sum by (simp add: max_def)
  then have "in_block s5 n ?z D"
    using s4(2,4) [folded s5_def] assms v data D5 s2(6) by (simp add: in_block_def length_put_at)
  ultimately show ?thesis using data assms(6) by (intro exI [of _ s5] exI [of _ ?z]) simp
qed


lemma inode_read_block:
  assumes "in_block s n x D"
  shows "\<exists>s'. in_block s' n x D \<and> block_data s' D = block_data s D \<and>
     inode_read s n len offset = (let got = take (unat len) (drop (unat offset) (contents s x D)) in
       Some (if unat offset < unat (d_size x) then of_nat (length got) else EOF, got, s'))"
proof (cases "offset \<ge> d_size x \<or> len = 0")
  case True
  then show ?thesis using assms file_readyD(3) [of s n x] unfolding in_block_def inode_read_def contents_def
    by (intro exI [of _ s]) (auto simp: word_le_nat_alt word_less_nat_alt Let_def)
next
  case False
  have r: "file_ready s n x" "D = (i_dev (inode_table s ! n), ucast (d_zone x ! 0))" "D \<noteq> i_cache (inode_table s ! n)"
    "length (block_data s D) = 1024" "0 \<le> b_count (bufs s D)" "unat (d_size x) \<le> 1024" "ISFILE (ucast (d_mode x))" "d_zone x ! 0 \<noteq> 0"
    using assms unfolding in_block_def by blast+
  have nz: "(ucast (d_zone x ! 0) :: u32) \<noteq> 0"
    using assms unat_zones(1) [of "d_zone x ! 0"] by (metis in_block_def unat_eq_zero)
  have o: "offset < d_size x" "len \<noteq> 0" "unat offset < 1024" using False r(6) by (auto simp: word_less_nat_alt not_le)
  let ?k = "i_cache (inode_table s ! n)"
  define left where "left = min len (d_size x - offset)"
  have rest: "unat (d_size x - offset) = unat (d_size x) - unat offset" using o(1) by (subst unat_sub) auto
  have l: "unat left = min (unat len) (unat (d_size x) - unat offset)"
    by (simp add: left_def min_def word_le_nat_alt rest)
  have lnz: "left \<noteq> 0" using l o by (auto simp: word_less_nat_alt unat_eq_zero [symmetric])
  have "unat (BLOCK_SIZE - offset) = 1024 - unat offset" using o(3) by (subst unat_sub) (auto simp: word_le_nat_alt)
  then have "left \<le> BLOCK_SIZE - offset" using l r(6) by (simp add: word_le_nat_alt)
  then have chars: "min (BLOCK_SIZE - offset) left = left" by (rule min_absorb2)
  define L where "L = loaded s D"
  define s1 where "s1 = s\<lparr>bufs := (bufs s)(D := L)\<rparr>"
  obtain s2 where s2: "buf_brelse s1 (Some D) = Some s2" "b_valid (bufs s2 D)" "data_of s2 D = block_data s D"
      "\<And>j. j \<noteq> D \<Longrightarrow> bufs s2 j = bufs s j \<and> disk s2 j = disk s j" "inode_table s2 = inode_table s" "clk s2 = clk s"
      "b_count (bufs s2 D) = b_count (bufs s D)"
    using brelse_keeps [of L s D] r(5) by (auto simp: L_def loaded_fields s1_def)
  define got where "got = take (unat left) (drop (unat offset) (block_data s D))"
  have got: "got = take (unat len) (drop (unat offset) (contents s x D))"
    by (simp add: got_def contents_def l drop_take take_take min.commute)
  have glen: "length got = unat left" using l r(4,6) by (simp add: got_def)
  have r2: "file_ready s2 n x" using r(3) s2(4) [of ?k] s2(5) by (intro file_ready_frame [OF r(1)]) simp_all
  obtain s3 where s3: "upd_inode s2 n (\<lambda>i. i\<lparr>i_atime := vfs_time s2\<rparr>) = Some s3" "file_ready s3 n x"
      "bufs s3 = bufs s2" "inode_table s3 ! n = (inode_table s2 ! n)\<lparr>i_atime := vfs_time s2\<rparr>"
    by (rule upd_inode_times [OF r2, of "\<lambda>i. i\<lparr>i_atime := vfs_time s2\<rparr>"]) auto
  have rd: "buf_bread s (i_dev (inode_table s ! n)) (ucast (d_zone x ! 0)) = (D, s1)" by (simp add: bread_loaded r(2) s1_def L_def)
  have data1: "data_of s1 D = block_data s D" by (simp add: s1_def L_def loaded_fields)
  have last: "inode_read_loop s2 n 0 (offset + left) got = Some (offset + left, got, s2)" by (subst inode_read_loop.simps) simp
  have "inode_read_loop s n left offset [] = Some (offset + left, got, s2)"
    using lnz bmap_first [OF r(1), of False] nz file_readyD(1) [OF r(1)] rd off_small [OF o(3)] o(3) chars data1 s2(1) last
    by (subst inode_read_loop.simps) (simp add: got_def word_less_nat_alt)
  then have run: "inode_read s n len offset = Some (left, got, s3)"
    using o(1,2) file_readyD(3) [OF r(1)] assms s3(1) by (simp add: inode_read_def in_block_def left_def not_le [symmetric])
  have data: "block_data s3 D = block_data s D" using s2(2,3) s3(3) by (simp add: block_data_def)
  have "in_block s3 n x D" using r s3 s2(5,7) data by (simp add: in_block_def)
  moreover have "of_nat (length got) = left" by (simp add: glen)
  ultimately show ?thesis using run data o(1) unfolding Let_def got [symmetric]
    by (intro exI [of _ s3]) (simp add: word_less_nat_alt)
qed


lemma take_put_at:
  assumes "p \<le> q" "q \<le> length d" "p + length bs \<le> length d"
  shows "take (max q (p + length bs)) (put_at d p bs) = put_at (take q d) p bs"
proof (rule nth_equalityI)
  show "length (take (max q (p + length bs)) (put_at d p bs)) = length (put_at (take q d) p bs)"
    using assms by (simp add: put_at_def)
  fix i assume "i < length (take (max q (p + length bs)) (put_at d p bs))"
  then show "take (max q (p + length bs)) (put_at d p bs) ! i = put_at (take q d) p bs ! i"
    using assms by (simp add: put_at_def nth_append)
qed

text \<open>
  C4. Writing to a regular file of one block and reading it back. When \<^verbatim>\<open>inode_write\<close> is given bytes
  that start within the file and stay below its limit, it takes all of them and returns their number; the file then holds what it held
  before with those bytes in place of, or behind, the old ones, and nothing else in it has changed. Any later \<^verbatim>\<open>inode_read\<close>
  returns exactly the bytes that are in its range, or EOF when its offset is not below the size, and leaves the file as it is.
\<close>

theorem file_write_refines:
  assumes "in_block s n x D" "offset \<le> d_size x" "unat offset + length src < 1024" "src \<noteq> []"
  shows "\<exists>s1 y s2. inode_write s n src (of_nat (length src)) offset = Some (of_nat (length src), s1) \<and> in_block s1 n y D \<and>
     contents s1 y D = put_at (contents s x D) (unat offset) src \<and>
     inode_read s1 n len p = (let got = take (unat len) (drop (unat p) (put_at (contents s x D) (unat offset) src)) in
       Some (if unat p < max (unat (d_size x)) (unat offset + length src) then of_nat (length got) else EOF, got, s2)) \<and>
     in_block s2 n y D \<and> contents s2 y D = contents s1 y D"
proof -
  have r: "file_ready s n x" "D = (i_dev (inode_table s ! n), ucast (d_zone x ! 0))" "D \<noteq> i_cache (inode_table s ! n)"
    "length (block_data s D) = 1024" "0 \<le> b_count (bufs s D)" "unat (d_size x) \<le> 1024" "ISFILE (ucast (d_mode x))" "d_zone x ! 0 \<noteq> 0"
    using assms(1) unfolding in_block_def by blast+
  obtain s1 y where w: "inode_write s n src (of_nat (length src)) offset = Some (of_nat (length src), s1)" "in_block s1 n y D"
      "d_size y = max (d_size x) (offset + of_nat (length src))" "block_data s1 D = put_at (block_data s D) (unat offset) src"
    using inode_write_block [OF bmap_first [OF r(1)] r(1) _ r(8) file_readyD(3) [OF r(1)] _ _ r(7,2,3,4,5,6) assms(3,4)] r(8) by auto
  have "unat (offset + of_nat (length src)) = unat offset + length src"
    using assms(3) by (subst unat_plus_less) (simp_all add: unat_of_nat take_bit_nat_eq_self)
  then have size: "unat (d_size y) = max (unat (d_size x)) (unat offset + length src)"
    unfolding w(3) by (simp add: max_def word_le_nat_alt)
  have c: "contents s1 y D = put_at (contents s x D) (unat offset) src"
    unfolding contents_def size w(4) using assms(2,3) r(4,6) by (intro take_put_at) (simp_all add: word_le_nat_alt)
  from inode_read_block [OF w(2), of len p, unfolded c size] obtain s2 where
    "in_block s2 n y D" "block_data s2 D = block_data s1 D"
    "inode_read s1 n len p = (let got = take (unat len) (drop (unat p) (put_at (contents s x D) (unat offset) src)) in
       Some (if unat p < max (unat (d_size x)) (unat offset + length src) then of_nat (length got) else EOF, got, s2))" by blast
  moreover have "contents s2 y D = contents s1 y D" using calculation(2) by (simp add: contents_def)
  ultimately show ?thesis using w(1,2) c by blast
qed

text \<open>
  C6. The first write to an empty file. The file has no zone; the zone bitmap of its device has a free zone and \<open>z\<close> is the first one.
  \<^verbatim>\<open>inode_write\<close> then takes \<open>z\<close>, enters it in the descriptor, takes all bytes and sets the size to their number, and
  \<^verbatim>\<open>inode_read\<close> of that many bytes from the start returns exactly the bytes that were written.
\<close>

theorem new_file_write_read:
  assumes "file_ready s n x" "ISFILE (ucast (d_mode x))" "d_zone x ! 0 = 0" "d_size x = 0"
    "zmap_ok s (i_dev (inode_table s ! n)) m sx" "g < 8192 * zmap_blocks sx" "g \<notin> zone_bits s (i_dev (inode_table s ! n)) sx"
    "\<forall>h < g. h \<in> zone_bits s (i_dev (inode_table s ! n)) sx"
    "z = unat (sd_firstdatazone sx) - 1 + g" "z < unat (sd_zones sx)" "0 < z"
    "K = (i_dev (inode_table s ! n), zmap_start sx + of_nat (g div 8192))" "K \<noteq> i_cache (inode_table s ! n)"
    "D = (i_dev (inode_table s ! n), of_nat z)" "D \<noteq> i_cache (inode_table s ! n)" "D \<noteq> K"
    "length (block_data s D) = 1024" "0 \<le> b_count (bufs s D)" "length src < 1024" "src \<noteq> []"
  shows "\<exists>s1 y s2. inode_write s n src (of_nat (length src)) 0 = Some (of_nat (length src), s1) \<and>
     in_block s1 n y D \<and> d_zone y ! 0 = of_nat z \<and> d_size y = of_nat (length src) \<and>
     inode_read s1 n (of_nat (length src)) 0 = Some (of_nat (length src), src, s2)"
proof -
  let ?x = "x\<lparr>d_zone := (d_zone x)[0 := of_nat z]\<rparr>"
  have z: "z < 65536" using assms(10) unat_zones(2) [of "sd_zones sx"] by simp
  then have uz: "ucast (of_nat z :: u16) = (of_nat z :: u32)" "(of_nat z :: u16) \<noteq> 0" "unat (of_nat z :: u16) = z"
    using assms(11) by (simp_all add: unsigned_of_nat take_bit_nat_eq_self unat_eq_zero [symmetric])
  obtain s0 where s0: "bmap s n 0 True = Some (of_nat z, s0)" "file_ready s0 n ?x" "inode_table s0 = inode_table s"
      "\<forall>k. k \<noteq> K \<and> k \<noteq> i_cache (inode_table s ! n) \<longrightarrow> same_buf (bufs s k) (bufs s0 k) \<and> disk s0 k = disk s k"
    using bmap_new_first [OF assms(1,3,5-10,12,13)] by blast
  have D: "block_data s0 D = block_data s D" "b_count (bufs s D) \<le> b_count (bufs s0 D)"
    using s0(4) [rule_format, of D] assms(15,16) by (simp_all add: block_data_def same_buf_def)
  have len: "unat (of_nat (length src) :: u32) = length src" using assms(19) by (simp add: unat_of_nat take_bit_nat_eq_self)
  have "\<exists>s1 y. inode_write s n src (of_nat (length src)) 0 = Some (of_nat (length src), s1) \<and> in_block s1 n y D \<and>
     d_size y = max (d_size x) (0 + of_nat (length src)) \<and> block_data s1 D = put_at (block_data s0 D) (unat (0 :: u32)) src"
    using s0(1-3) uz file_readyD(3,5) [OF assms(1)] assms(2,4,14,15,17,18,19,20) D
    by (intro inode_write_block [of s n "of_nat z" s0 ?x x]) simp_all
  then obtain s1 y where w: "inode_write s n src (of_nat (length src)) 0 = Some (of_nat (length src), s1)" "in_block s1 n y D"
      "d_size y = of_nat (length src)" "block_data s1 D = put_at (block_data s0 D) 0 src"
    using assms(4) by auto
  have "contents s1 y D = src"
    unfolding contents_def w(3,4) len using read_put_at [of 0 src "block_data s0 D"] D(1) assms(17,19) by simp
  moreover have "0 < length src" using assms(20) by simp
  ultimately obtain s2 where "inode_read s1 n (of_nat (length src)) 0 = Some (of_nat (length src), src, s2)"
    using inode_read_block [OF w(2), of "of_nat (length src)" 0] w(3) len by (auto simp: Let_def)
  moreover have "snd D = ucast (d_zone y ! 0)" using w(2) by (simp add: in_block_def)
  then have "unat (ucast (d_zone y ! 0) :: u32) = unat (of_nat z :: u32)" using assms(14) by simp
  then have "d_zone y ! 0 = of_nat z" using uz unat_zones(1) [of "d_zone y ! 0"] unat_zones(1) [of "of_nat z :: u16"] by (simp add: word_unat_eq_iff)
  ultimately show ?thesis using w by blast
qed


lemma demo_desc_ready: "file_ready demo_fs 1 demo_desc"
  by (simp add: file_ready_def file_buf_def demo_fs_fields kept_buffer_def desc_read_back demo_desc_def null_inode_def)

lemma demo_desc_file: "ISFILE (ucast (d_mode demo_desc))" "d_zone demo_desc ! 0 = 0" "d_size demo_desc = 0"
  by (simp_all add: demo_desc_def ISFILE_def ISREG_def IFMT_def IFREG_def)

theorem new_file_write_read_witness:
  "\<exists>s1 s2. inode_write demo_fs 1 [0x68, 0x69] 2 0 = Some (2, s1) \<and> inode_read s1 1 2 0 = Some (2, [0x68, 0x69], s2)"
proof -
  have i: "i_dev (inode_table demo_fs ! 1) = 5" "i_cache (inode_table demo_fs ! 1) = (5, 4)" by (simp_all add: demo_fs_fields)
  have h: "1 < 8192 * zmap_blocks demo_super" "1 \<notin> zone_bits demo_fs 5 demo_super" "\<forall>h < 1. h \<in> zone_bits demo_fs 5 demo_super"
    "5 = unat (sd_firstdatazone demo_super) - 1 + 1" "5 < unat (sd_zones demo_super)" "0 < (5 :: nat)"
    "(5, 3) = (5, zmap_start demo_super + of_nat (1 div 8192))" "(5, 3) \<noteq> (5 :: u32, 4 :: u32)"
    "(5, 5) = (5 :: u32, of_nat 5 :: u32)" "(5, 5) \<noteq> (5 :: u32, 4 :: u32)" "(5, 5) \<noteq> (5 :: u32, 3 :: u32)"
    unfolding demo_zmap(2) demo_super_fields by auto
  have b: "length (block_data demo_fs (5, 5)) = 1024" "0 \<le> b_count (bufs demo_fs (5, 5))"
    "length [0x68, 0x69 :: u8] < 1024" "[0x68, 0x69 :: u8] \<noteq> []"
    using demo_fs_fields(4-6) by (simp_all add: block_data_def)
  show ?thesis
    using new_file_write_read [OF demo_desc_ready demo_desc_file, unfolded i, OF demo_zmap(1) h b] by auto
qed

text \<open>The same file with three bytes, in block 5.\<close>

definition demo_text :: inode_desc where
  "demo_text = demo_desc\<lparr>d_size := 3, d_zone := (replicate 9 0)[0 := 5]\<rparr>"

definition demo_file :: vfs where
  "demo_file = demo_fs\<lparr>bufs := (bufs demo_fs)((5, 4) := kept_buffer (put_desc zero_block 0 demo_text)),
     disk := (disk demo_fs)((5, 5) := zero_block[0 := 0x61, 1 := 0x62, 2 := 0x63])\<rparr>"

lemma demo_file_block: "in_block demo_file 1 demo_text (5, 5)" "contents demo_file demo_text (5, 5) = [0x61, 0x62, 0x63]"
proof -
  have i: "inode_table demo_file = inode_table demo_fs" "bufs demo_file (5, 4) = kept_buffer (put_desc zero_block 0 demo_text)"
    "bufs demo_file (5, 5) = bufs demo_fs (5, 5)" "disk demo_file (5, 5) = zero_block[0 := 0x61, 1 := 0x62, 2 := 0x63]"
    by (simp_all add: demo_file_def)
  have d: "block_data demo_file (5, 5) = zero_block[0 := 0x61, 1 := 0x62, 2 := 0x63]"
    by (simp add: block_data_def i demo_fs_fields)
  show "in_block demo_file 1 demo_text (5, 5)"
    using demo_desc_file(1)
    by (simp add: in_block_def d) (simp add: file_ready_def file_buf_def i demo_fs_fields kept_buffer_def desc_read_back demo_text_def null_inode_def)
  show "contents demo_file demo_text (5, 5) = [0x61, 0x62, 0x63]"
  proof -
    have "unat (d_size demo_text) = 3" by (simp add: demo_text_def)
    then show ?thesis unfolding contents_def d by (auto simp: zero_block_def less_Suc_eq numeral_3_eq_3 numeral_2_eq_2 intro!: nth_equalityI)
  qed
qed

theorem file_write_refines_witness:
  "\<exists>s1 s2. inode_write demo_file 1 [0x7A] 1 1 = Some (1, s1) \<and> inode_read s1 1 9 1 = Some (2, [0x7A, 0x63], s2)"
proof -
  have h: "1 \<le> d_size demo_text" "unat (1 :: u32) + length [0x7A :: u8] < 1024" "[0x7A :: u8] \<noteq> []" "unat (d_size demo_text) = 3"
    by (simp_all add: demo_text_def)
  show ?thesis
    using file_write_refines [OF demo_file_block(1) h(1-3), of 9 1] unfolding demo_file_block(2) h(4)
    by (auto simp: put_at_def Let_def)
qed

end
