(* ===== verification/Pipe.thy ===== *)
theory Pipe
  imports Vfs
begin

text \<open>
  \<^verbatim>\<open>src/fs/pipe.c\<close>: pipes, a ring buffer in one page with at most one waiting reader and one waiting
  writer. A call that finds the buffer empty (or full) blocks in the middle of its loop. It then ends
  this step with what it has done so far, and the loop goes on from there in the step in which the
  scheduler switches back to the process.

  Shown: a pipe delivers the bytes that were written, in order and without loss, whatever the sizes of
  the reads and writes and however they block each other.
\<close>

section \<open>Definitions\<close>

text \<open>The outcome of a step: the call returned, or it sleeps with \<open>todo\<close> bytes still to move.\<close>

datatype 'a outcome = Done 'a | Asleep 'a (todo: nat)

definition set_fifo :: "vfs \<Rightarrow> nat \<Rightarrow> kfifo \<Rightarrow> vfs option" where
  "set_fifo s n f = upd_inode s n (\<lambda>i. i\<lparr>i_fifo := f\<rparr>)"

definition wake_writer :: "vfs \<Rightarrow> nat \<Rightarrow> vfs option" where
  "wake_writer s n = do {
     i \<leftarrow> aget (inode_table s) n;
     case i_txwaiter i of
       None \<Rightarrow> Some s
     | Some t \<Rightarrow> do {
         k \<leftarrow> task_intr_unblock_no_waiting_list (kern_of s) t;
         upd_inode (set_kern s k) n (\<lambda>i. i\<lparr>i_txwaiter := None\<rparr>) } }"

definition wake_reader :: "vfs \<Rightarrow> nat \<Rightarrow> vfs option" where
  "wake_reader s n = do {
     i \<leftarrow> aget (inode_table s) n;
     case i_rxwaiter i of
       None \<Rightarrow> Some s
     | Some t \<Rightarrow> do {
         k \<leftarrow> task_intr_unblock_no_waiting_list (kern_of s) t;
         upd_inode (set_kern s k) n (\<lambda>i. i\<lparr>i_rxwaiter := None\<rparr>) } }"

text \<open>The loop of \<open>pipe_read\<close> with \<open>out\<close> read so far and as many bytes left as the number says.\<close>

fun pipe_read_loop :: "u32 \<Rightarrow> vfs \<Rightarrow> nat \<Rightarrow> u8 list \<Rightarrow> nat \<Rightarrow> (u8 list outcome \<times> vfs) option" where
  "pipe_read_loop resume s n out 0 = Some (Done out, s)"
| "pipe_read_loop resume s n out (Suc left) = do {
     i \<leftarrow> aget (inode_table s) n;
     if kfifo_empty (i_fifo i) then do {
       kassert (i_rxwaiter i = None);
       s \<leftarrow> upd_inode s n (\<lambda>i. i\<lparr>i_rxwaiter := Some (cur (kern_of s))\<rparr>);
       k \<leftarrow> task_block resume (kern_of s) (cur (kern_of s)) None TASK_BLOCKED;
       Some (Asleep out (Suc left), set_kern s k) }
     else do {
       (b, f) \<leftarrow> kfifo_get (i_fifo i);
       s \<leftarrow> set_fifo s n f;
       s \<leftarrow> wake_writer s n;
       pipe_read_loop resume s n (out @ [b]) left } }"

definition pipe_read :: "u32 \<Rightarrow> vfs \<Rightarrow> nat \<Rightarrow> u32 \<Rightarrow> (u8 list outcome \<times> vfs) option" where
  "pipe_read resume s n count = pipe_read_loop resume s n [] (nat (sint count))"

text \<open>The loop of \<open>pipe_write\<close> with the bytes not written yet.\<close>

fun pipe_write_loop :: "u32 \<Rightarrow> vfs \<Rightarrow> nat \<Rightarrow> u8 list \<Rightarrow> (unit outcome \<times> vfs) option" where
  "pipe_write_loop resume s n [] = Some (Done (), s)"
| "pipe_write_loop resume s n (b # bs) = do {
     i \<leftarrow> aget (inode_table s) n;
     full \<leftarrow> kfifo_full (i_fifo i);
     if full then do {
       kassert (i_txwaiter i = None);
       s \<leftarrow> upd_inode s n (\<lambda>i. i\<lparr>i_txwaiter := Some (cur (kern_of s))\<rparr>);
       k \<leftarrow> task_block resume (kern_of s) (cur (kern_of s)) None TASK_BLOCKED;
       Some (Asleep () (Suc (length bs)), set_kern s k) }
     else do {
       f \<leftarrow> kfifo_put (i_fifo i) b;
       s \<leftarrow> set_fifo s n f;
       s \<leftarrow> wake_reader s n;
       pipe_write_loop resume s n bs } }"

definition pipe_write :: "u32 \<Rightarrow> vfs \<Rightarrow> nat \<Rightarrow> u8 list \<Rightarrow> u32 \<Rightarrow> (unit outcome \<times> vfs) option" where
  "pipe_write resume s n src count = do {
     kassert (nat (sint count) \<le> length src);
     pipe_write_loop resume s n (take (nat (sint count)) src) }"

section \<open>What the pipe holds\<close>

abbreviation fifo_of :: "vfs \<Rightarrow> nat \<Rightarrow> kfifo" where
  "fifo_of s n \<equiv> i_fifo (inode_table s ! n)"

definition queue :: "vfs \<Rightarrow> nat \<Rightarrow> u8 list" where
  "queue s n = kfifo_list (fifo_of s n)"

definition pipe_inv :: "vfs \<Rightarrow> nat \<Rightarrow> bool" where
  "pipe_inv s n \<longleftrightarrow> n < length (inode_table s) \<and> kfifo_inv (fifo_of s n) \<and> buf_size (fifo_of s n) = PAGE_SIZE"

lemma upd_inode_in [simp]: "n < length (inode_table s) \<Longrightarrow>
    upd_inode s n f = Some (s\<lparr>inode_table := (inode_table s)[n := f (inode_table s ! n)]\<rparr>)"
  by (simp add: upd_inode_def)

lemma set_kern_fields [simp]:
  "inode_table (set_kern s k) = inode_table s" "kern_of (set_kern s k) = k"
  "bufs (set_kern s k) = bufs s" "super_table (set_kern s k) = super_table s" "disk (set_kern s k) = disk s"
  "file_table (set_kern s k) = file_table s"
  by (simp_all add: set_kern_def)

lemma queue_room: "pipe_inv s n \<Longrightarrow> length (queue s n) \<le> 4095"
  using kfifo_count_bound [of "fifo_of s n"] by (simp add: pipe_inv_def queue_def PAGE_SIZE_def)

text \<open>Waking the other side leaves the buffer alone.\<close>

lemma wake_frame:
  assumes "wake_writer s n = Some s' \<or> wake_reader s n = Some s'"
  shows "length (inode_table s') = length (inode_table s) \<and> fifo_of s' n = fifo_of s n"
  using assms
  by (auto simp: wake_writer_def wake_reader_def upd_inode_def nth_list_update elim!: bind_eq_SomeE
      split: option.splits dest!: aget_SomeD)

lemma pipe_get:
  assumes "pipe_inv s n" "queue s n \<noteq> []"
  obtains f where "kfifo_get (fifo_of s n) = Some (hd (queue s n), f)"
    "\<And>s'. length (inode_table s') = length (inode_table s) \<Longrightarrow> fifo_of s' n = f \<Longrightarrow>
       pipe_inv s' n \<and> queue s' n = tl (queue s n)"
  using kfifo_get_spec [of "fifo_of s n"] assms that by (auto simp: pipe_inv_def queue_def)

lemma pipe_put:
  assumes "pipe_inv s n" "length (queue s n) < 4095"
  obtains f where "kfifo_put (fifo_of s n) b = Some f"
    "\<And>s'. length (inode_table s') = length (inode_table s) \<Longrightarrow> fifo_of s' n = f \<Longrightarrow>
       pipe_inv s' n \<and> queue s' n = queue s n @ [b]"
  using kfifo_put_spec [of "fifo_of s n" b] assms that by (auto simp: pipe_inv_def queue_def PAGE_SIZE_def)

lemma pipe_empty: "pipe_inv s n \<Longrightarrow> kfifo_empty (fifo_of s n) \<longleftrightarrow> queue s n = []"
  by (simp add: pipe_inv_def queue_def kfifo_empty_count kfifo_list_Nil)

lemma pipe_full: "pipe_inv s n \<Longrightarrow> kfifo_full (fifo_of s n) = Some (length (queue s n) = 4095)"
  using kfifo_full_count [of "fifo_of s n"] by (simp add: pipe_inv_def queue_def PAGE_SIZE_def)

text \<open>The bytes a step has read, and the number it has not written.\<close>

definition got :: "u8 list outcome \<Rightarrow> u8 list" where
  "got o' = (case o' of Done out \<Rightarrow> out | Asleep out _ \<Rightarrow> out)"

definition unsent :: "unit outcome \<Rightarrow> nat" where
  "unsent o' = (case o' of Done _ \<Rightarrow> 0 | Asleep _ n \<Rightarrow> n)"

lemma read_loop_takes:
  assumes "pipe_read_loop resume s n out left = Some (r, s')" "pipe_inv s n"
  shows "pipe_inv s' n \<and> got r @ queue s' n = out @ queue s n"
  using assms
proof (induction left arbitrary: s out)
  case 0
  then show ?case by (auto simp: got_def)
next
  case (Suc left)
  have n: "n < length (inode_table s)" using Suc.prems(2) by (simp add: pipe_inv_def)
  show ?case
  proof (cases "queue s n = []")
    case True
    then obtain s1 k where s1: "s1 = s\<lparr>inode_table := (inode_table s)[n := (inode_table s ! n)\<lparr>i_rxwaiter := Some (cur (kern_of s))\<rparr>]\<rparr>"
        and "r = Asleep out (Suc left)" "s' = set_kern s1 k"
      using Suc.prems n by (auto simp: pipe_empty split: if_splits elim!: bind_eq_SomeE)
    then show ?thesis using Suc.prems(2) n by (simp add: pipe_inv_def queue_def got_def)
  next
    case False
    then obtain f where f: "kfifo_get (fifo_of s n) = Some (hd (queue s n), f)"
      "\<And>s'. length (inode_table s') = length (inode_table s) \<Longrightarrow> fifo_of s' n = f \<Longrightarrow>
         pipe_inv s' n \<and> queue s' n = tl (queue s n)"
      using pipe_get [OF Suc.prems(2) False] by blast
    then obtain s2 where s2: "wake_writer (s\<lparr>inode_table := (inode_table s)[n := (inode_table s ! n)\<lparr>i_fifo := f\<rparr>]\<rparr>) n = Some s2"
      "pipe_read_loop resume s2 n (out @ [hd (queue s n)]) left = Some (r, s')"
      using Suc.prems n False by (auto simp: pipe_empty set_fifo_def elim!: bind_eq_SomeE)
    have "pipe_inv s2 n \<and> queue s2 n = tl (queue s n)"
      using f(2) [of s2] wake_frame [OF disjI1 [OF s2(1)]] n by simp
    then show ?thesis using Suc.IH [OF s2(2)] False by simp
  qed
qed

lemma write_loop_adds:
  assumes "pipe_write_loop resume s n bs = Some (r, s')" "pipe_inv s n"
  shows "pipe_inv s' n \<and> unsent r \<le> length bs \<and> queue s' n = queue s n @ take (length bs - unsent r) bs"
  using assms
proof (induction bs arbitrary: s)
  case Nil
  then show ?case by (auto simp: unsent_def)
next
  case (Cons b bs)
  have n: "n < length (inode_table s)" using Cons.prems(2) by (simp add: pipe_inv_def)
  show ?case
  proof (cases "length (queue s n) = 4095")
    case True
    then obtain s1 k where s1: "s1 = s\<lparr>inode_table := (inode_table s)[n := (inode_table s ! n)\<lparr>i_txwaiter := Some (cur (kern_of s))\<rparr>]\<rparr>"
        and "r = Asleep () (Suc (length bs))" "s' = set_kern s1 k"
      using Cons.prems n by (auto simp: pipe_full split: if_splits elim!: bind_eq_SomeE)
    then show ?thesis using Cons.prems(2) n by (simp add: pipe_inv_def queue_def unsent_def)
  next
    case False
    then have "length (queue s n) < 4095" using queue_room [OF Cons.prems(2)] by simp
    then obtain f where f: "kfifo_put (fifo_of s n) b = Some f"
      "\<And>s'. length (inode_table s') = length (inode_table s) \<Longrightarrow> fifo_of s' n = f \<Longrightarrow>
         pipe_inv s' n \<and> queue s' n = queue s n @ [b]"
      using pipe_put [OF Cons.prems(2)] by blast
    then obtain s2 where s2: "wake_reader (s\<lparr>inode_table := (inode_table s)[n := (inode_table s ! n)\<lparr>i_fifo := f\<rparr>]\<rparr>) n = Some s2"
      "pipe_write_loop resume s2 n bs = Some (r, s')"
      using Cons.prems n False by (auto simp: pipe_full set_fifo_def elim!: bind_eq_SomeE)
    have "pipe_inv s2 n \<and> queue s2 n = queue s n @ [b]"
      using f(2) [of s2] wake_frame [OF disjI2 [OF s2(1)]] n by simp
    then show ?thesis using Cons.IH [OF s2(2)] by (simp add: Suc_diff_le)
  qed
qed

section \<open>Runs\<close>

text \<open>
  A run of a pipe, with the bytes written and read so far: whoever runs makes a step of a read or a
  write of any size, or takes up a call where it went to sleep (the same loop on what is left), and
  between the steps the rest of the kernel does what it likes to everything but the pipe.
\<close>

inductive pipe_run :: "u32 \<Rightarrow> nat \<Rightarrow> vfs \<Rightarrow> u8 list \<Rightarrow> u8 list \<Rightarrow> bool" for resume n where
  made: "get_pipe_inode s page = Some (n, s') \<Longrightarrow> length page = unat PAGE_SIZE \<Longrightarrow> pipe_run resume n s' [] []"
| read: "pipe_run resume n s wr rd \<Longrightarrow> pipe_read_loop resume s n [] left = Some (r, s') \<Longrightarrow>
    pipe_run resume n s' wr (rd @ got r)"
| written: "pipe_run resume n s wr rd \<Longrightarrow> pipe_write_loop resume s n bs = Some (r, s') \<Longrightarrow>
    pipe_run resume n s' (wr @ take (length bs - unsent r) bs) rd"
| other: "pipe_run resume n s wr rd \<Longrightarrow> length (inode_table s') = length (inode_table s) \<Longrightarrow>
    fifo_of s' n = fifo_of s n \<Longrightarrow> pipe_run resume n s' wr rd"

lemma find_upt_bound: "find P [0..<m] = Some n \<Longrightarrow> n < m \<and> P n"
  by (auto simp: find_Some_iff)

lemma fresh_pipe:
  assumes "get_pipe_inode s page = Some (n, s')" "length page = unat PAGE_SIZE"
  shows "pipe_inv s' n \<and> queue s' n = []"
proof -
  have n: "n < length (inode_table s)"
    using assms(1) by (auto simp: get_pipe_inode_def get_free_inode_def elim!: bind_eq_SomeE dest!: find_upt_bound)
  have "fifo_of s' n = kfifo_init page PAGE_SIZE \<and> n < length (inode_table s')"
    using assms(1) n by (auto simp: get_pipe_inode_def set_icount_def elim!: bind_eq_SomeE)
  then show ?thesis
    using kfifo_init_spec [of PAGE_SIZE page] assms(2)
    by (auto simp: pipe_inv_def queue_def PAGE_SIZE_def kfifo_init_def)
qed

lemma pipe_run_inv: "pipe_run resume n s wr rd \<Longrightarrow> pipe_inv s n \<and> wr = rd @ queue s n"
proof (induction rule: pipe_run.induct)
  case (read s wr rd left r s')
  then show ?case using read_loop_takes [OF read.hyps(2)] by auto
next
  case (written s wr rd bs r s')
  then show ?case using write_loop_adds [OF written.hyps(2)] by auto
next
  case (other s wr rd s')
  then show ?case by (simp add: pipe_inv_def queue_def)
qed (simp add: fresh_pipe)

section \<open>Steps return\<close>

text \<open>The running process may block, and whom it may have to wake is another process.\<close>

definition side_ok :: "vfs \<Rightarrow> nat option \<Rightarrow> bool" where
  "side_ok s p \<longleftrightarrow> (\<forall>t. p = Some t \<longrightarrow> t \<noteq> cur (kern_of s) \<and> task_at (kern_of s) t \<noteq> None)"

definition runs :: "vfs \<Rightarrow> bool" where
  "runs s \<longleftrightarrow> sched_inv (kern_of s) \<and> cur (kern_of s) \<noteq> 0 \<and>
     (\<exists>t. task_at (kern_of s) (cur (kern_of s)) = Some t \<and> t_state t = TASK_RUNNING)"

lemma wake_writer_ok:
  assumes "runs s" "n < length (inode_table s)" "side_ok s (i_txwaiter (inode_table s ! n))"
  obtains s' where "wake_writer s n = Some s'" "runs s'" "cur (kern_of s') = cur (kern_of s)"
    "i_txwaiter (inode_table s' ! n) = None" "i_rxwaiter (inode_table s' ! n) = i_rxwaiter (inode_table s ! n)"
proof (cases "i_txwaiter (inode_table s ! n)")
  case None
  then show ?thesis using assms by (intro that [of s]) (simp_all add: wake_writer_def)
next
  case (Some t)
  then obtain tk where t: "task_at (kern_of s) t = Some tk" "t \<noteq> cur (kern_of s)" using assms(3) by (auto simp: side_ok_def)
  have inv: "sched_inv (kern_of s)" using assms(1) by (simp add: runs_def)
  obtain k where k: "task_intr_unblock_no_waiting_list (kern_of s) t = Some k" "sched_inv k" "cur k = cur (kern_of s)"
      "\<forall>m. m \<noteq> t \<longrightarrow> task_at k m = task_at (kern_of s) m"
    using intr_unblock_ok [OF inv t(1)] by blast
  show ?thesis
    using assms Some k t(2)
    by (intro that [of "(set_kern s k)\<lparr>inode_table := (inode_table s)[n := (inode_table s ! n)\<lparr>i_txwaiter := None\<rparr>]\<rparr>"])
      (auto simp: wake_writer_def runs_def set_kern_def)
qed

text \<open>A reader gets the bytes it asked for, or all there are and sleeps as the waiting reader.\<close>

lemma read_loop_returns:
  assumes "runs s" "pipe_inv s n" "side_ok s (i_txwaiter (inode_table s ! n))" "i_rxwaiter (inode_table s ! n) = None"
  shows "\<exists>r s'. pipe_read_loop resume s n out left = Some (r, s') \<and>
     (if left \<le> length (queue s n) then r = Done (out @ take left (queue s n)) \<and> cur (kern_of s') = cur (kern_of s)
      else r = Asleep (out @ queue s n) (left - length (queue s n)) \<and> cur (kern_of s') \<noteq> cur (kern_of s) \<and>
        i_rxwaiter (inode_table s' ! n) = Some (cur (kern_of s)))"
  using assms
proof (induction left arbitrary: s out)
  case (Suc left)
  have n: "n < length (inode_table s)" using Suc.prems(2) by (simp add: pipe_inv_def)
  show ?case
  proof (cases "queue s n = []")
    case True
    obtain t where t: "sched_inv (kern_of s)" "task_at (kern_of s) (cur (kern_of s)) = Some t" "t_state t = TASK_RUNNING"
        "cur (kern_of s) \<noteq> 0" using Suc.prems(1) by (auto simp: runs_def)
    obtain k where "task_block resume (kern_of s) (cur (kern_of s)) None TASK_BLOCKED = Some k" "cur k \<noteq> cur (kern_of s)"
      using task_block_ok(2) [OF t, of TASK_BLOCKED resume] by auto
    then show ?thesis using True n Suc.prems(2,4) by (simp add: pipe_empty)
  next
    case False
    obtain f where f: "kfifo_get (fifo_of s n) = Some (hd (queue s n), f)"
      "\<And>s'. length (inode_table s') = length (inode_table s) \<Longrightarrow> fifo_of s' n = f \<Longrightarrow>
         pipe_inv s' n \<and> queue s' n = tl (queue s n)"
      using pipe_get [OF Suc.prems(2) False] by blast
    define s1 where "s1 = s\<lparr>inode_table := (inode_table s)[n := (inode_table s ! n)\<lparr>i_fifo := f\<rparr>]\<rparr>"
    have s1: "runs s1" "n < length (inode_table s1)" "side_ok s1 (i_txwaiter (inode_table s1 ! n))"
      using Suc.prems n by (simp_all add: s1_def runs_def side_ok_def)
    obtain s2 where s2: "wake_writer s1 n = Some s2" "runs s2" "cur (kern_of s2) = cur (kern_of s1)"
      "i_txwaiter (inode_table s2 ! n) = None" "i_rxwaiter (inode_table s2 ! n) = i_rxwaiter (inode_table s1 ! n)"
      using wake_writer_ok [OF s1] by blast
    have q2: "pipe_inv s2 n \<and> queue s2 n = tl (queue s n)"
      using f(2) [of s2] wake_frame [OF disjI1 [OF s2(1)]] n by (simp add: s1_def)
    have "pipe_read_loop resume s n out (Suc left) = pipe_read_loop resume s2 n (out @ [hd (queue s n)]) left"
      using n False Suc.prems(2) f(1) s2(1) by (simp add: pipe_empty set_fifo_def s1_def)
    moreover have "side_ok s2 (i_txwaiter (inode_table s2 ! n))" "i_rxwaiter (inode_table s2 ! n) = None"
      using s2(4,5) Suc.prems(4) n by (simp_all add: side_ok_def s1_def)
    moreover have "cur (kern_of s2) = cur (kern_of s)" using s2(3) by (simp add: s1_def)
    moreover have "queue s n = hd (queue s n) # queue s2 n" using q2 False by simp
    ultimately show ?thesis
      using Suc.IH [OF s2(2) conjunct1 [OF q2], of "out @ [hd (queue s n)]"] by (metis (no_types, lifting)
        Cons_eq_appendI Suc_le_mono append.assoc diff_Suc_Suc length_Cons self_append_conv2 take_Suc_Cons)
  qed
qed simp

section \<open>Properties\<close>

text \<open>
  C15. A pipe is a queue: in every run, whatever the sizes of the reads and writes and wherever they
  blocked, the bytes read are the first of the bytes written, in order, and the rest, never more than
  4095 bytes, is in the buffer. A read by a running process then returns in this step with the next
  bytes written, if there are as many as it asks for, and otherwise takes all and sleeps as the reader
  to be woken.
\<close>

theorem pipe_delivers:
  assumes "pipe_run resume n s wr rd" "runs s" "side_ok s (i_txwaiter (inode_table s ! n))"
    "i_rxwaiter (inode_table s ! n) = None"
  shows "wr = rd @ queue s n \<and> length (queue s n) \<le> 4095 \<and>
     (\<exists>r s'. pipe_read_loop resume s n [] left = Some (r, s') \<and>
       (if length rd + left \<le> length wr then r = Done (take left (drop (length rd) wr)) \<and> cur (kern_of s') = cur (kern_of s)
        else r = Asleep (drop (length rd) wr) (left - (length wr - length rd)) \<and> cur (kern_of s') \<noteq> cur (kern_of s) \<and>
          i_rxwaiter (inode_table s' ! n) = Some (cur (kern_of s))))"
proof -
  have inv: "pipe_inv s n" "wr = rd @ queue s n" using pipe_run_inv [OF assms(1)] by auto
  have len: "length rd + left \<le> length wr \<longleftrightarrow> left \<le> length (queue s n)" "length wr - length rd = length (queue s n)"
    "drop (length rd) wr = queue s n" using inv(2) by simp_all
  show ?thesis
    using read_loop_returns [OF assms(2) inv(1) assms(3,4), of resume "[]" left] queue_room [OF inv(1)] inv(2)
    unfolding len append_Nil by (intro conjI inv(2))
qed

text \<open>A kernel in which the init task runs, and a pipe made there that holds one byte.\<close>

lemma sched_inv_count [simp]: "sched_inv (k\<lparr>inode_count := c\<rparr>) = sched_inv k"
proof -
  have "task_at (k\<lparr>inode_count := c\<rparr>) = task_at k" by (rule ext) simp
  then show ?thesis by (simp add: sched_inv_def idle_ok_def slot_ok_def cong: option.case_cong)
qed

lemma init_runs: "\<exists>k. sched_inv k \<and> cur k = 1 \<and> (\<exists>t. task_at k 1 = Some t \<and> t_state t = TASK_RUNNING)"
proof -
  obtain t where t: "task_at boot_kernel 1 = Some t" "t_state t = TASK_READY" using boot_kernel(4) by blast
  have "\<exists>k1. switch_to 0 boot_kernel 1 = Some k1 \<and> sched_inv k1 \<and> cur k1 = 1 \<and>
      task_at k1 1 = Some (t\<lparr>t_state := TASK_RUNNING, t_jiffies := jiffies boot_kernel\<rparr>)"
    using switch_to_ok [OF boot_kernel(2) t, of 0] boot_kernel(3) by auto
  then show ?thesis by auto
qed

lemma demo_pipe:
  "\<exists>s. pipe_run 0 0 s [0x41] [] \<and> runs s \<and> cur (kern_of s) = 1 \<and>
     i_rxwaiter (inode_table s ! 0) = None \<and> i_txwaiter (inode_table s ! 0) = None"
proof -
  obtain k where k: "sched_inv k" "cur k = 1" "\<exists>t. task_at k 1 = Some t \<and> t_state t = TASK_RUNNING"
    using init_runs by blast
  define s0 where "s0 = demo_vfs k (\<lambda>_. [])"
  have tab: "inode_table s0 = null_inode # replicate 63 null_inode" "kern_of s0 = k"
    by (simp_all add: s0_def demo_vfs_def INODE_NR_def flip: replicate_Suc)
  have free: "get_free_inode s0 = Some 0"
    by (simp add: get_free_inode_def tab upt_conv_Cons null_inode_def del: upt_Suc)
  define i where "i = null_inode\<lparr>i_dev := - 2, i_pipe := True, i_fifo := kfifo_init (replicate 4096 0) PAGE_SIZE\<rparr>"
  define s1 where "s1 = (set_icount s0 0 2)\<lparr>inode_table := (inode_table s0)[0 := i]\<rparr>"
  have made: "get_pipe_inode s0 (replicate 4096 0) = Some (0, s1)"
    by (simp add: get_pipe_inode_def free s1_def i_def set_icount_def tab null_inode_def)
  have i1: "i_rxwaiter (inode_table s1 ! 0) = None" "i_txwaiter (inode_table s1 ! 0) = None"
    by (simp_all add: s1_def tab i_def null_inode_def)
  have run1: "pipe_run 0 0 s1 [] []" by (rule pipe_run.made [OF made]) (simp add: PAGE_SIZE_def)
  have inv1: "pipe_inv s1 0" "queue s1 0 = []" using fresh_pipe [OF made] by (simp_all add: PAGE_SIZE_def)
  obtain f where f: "kfifo_put (fifo_of s1 0) 0x41 = Some f" 
    using kfifo_put_spec [of "fifo_of s1 0" "0x41"] inv1(1) by (auto simp: pipe_inv_def)
  define s2 where "s2 = s1\<lparr>inode_table := (inode_table s1)[0 := (inode_table s1 ! 0)\<lparr>i_fifo := f\<rparr>]\<rparr>"
  have len: "0 < length (inode_table s1)" by (simp add: s1_def tab)
  then have i2: "i_rxwaiter (inode_table s2 ! 0) = None" "i_txwaiter (inode_table s2 ! 0) = None" "0 < length (inode_table s2)"
    using i1 by (simp_all add: s2_def)
  have "wake_reader s2 0 = Some s2" using i2 by (simp add: wake_reader_def)
  then have "pipe_write_loop 0 s1 0 [0x41] = Some (Done (), s2)"
    using len f inv1 by (simp add: pipe_full set_fifo_def s2_def)
  from pipe_run.written [OF run1 this] have "pipe_run 0 0 s2 [0x41] []" by (simp add: unsent_def)
  moreover have "runs s2" "cur (kern_of s2) = 1"
    using k by (auto simp: runs_def s2_def s1_def tab set_icount_def)
  ultimately show ?thesis using i2 by blast
qed

theorem pipe_delivers_witness:
  "\<exists>s s'. pipe_run 0 0 s [0x41] [] \<and>
     pipe_read_loop 0 s 0 [] 3 = Some (Asleep [0x41] 2, s') \<and> i_rxwaiter (inode_table s' ! 0) = Some 1"
proof -
  obtain s where s: "pipe_run 0 0 s [0x41] []" "runs s" "cur (kern_of s) = 1"
     "i_rxwaiter (inode_table s ! 0) = None" "i_txwaiter (inode_table s ! 0) = None" using demo_pipe by blast
  have "side_ok s (i_txwaiter (inode_table s ! 0))" using s(5) by (simp add: side_ok_def)
  from pipe_delivers [OF s(1,2) this s(4), of 3] s(1,3) show ?thesis by auto
qed

end
