(* ===== verification/File_Ops.thy ===== *)
theory File_Ops
  imports Namei Pipe Device
begin

text \<open>
  \<^verbatim>\<open>src/fs/file.c\<close>, \<^verbatim>\<open>stat.c\<close>, \<^verbatim>\<open>ioctl.c\<close>, the system call of \<^verbatim>\<open>pipe.c\<close> and \<^verbatim>\<open>src/kernel/system.c\<close>:
  open files, descriptors, the working directory. A \<open>file_t\<close> pointer is an index into \<open>file_table\<close>.

  What the character and block devices do when they are read or written (theory Device) is an
  argument: \<open>dread dev count idx\<close>, \<open>dwrite dev bytes count idx\<close> and \<open>dctl dev cmd\<close>.

  Shown: \<open>abspath\<close> computes the normal form of a path.
\<close>

section \<open>The file table\<close>

definition upd_file :: "vfs \<Rightarrow> nat \<Rightarrow> (file_t \<Rightarrow> file_t) \<Rightarrow> vfs option" where
  "upd_file s f g = do { x \<leftarrow> aget (file_table s) f; Some (s\<lparr>file_table := (file_table s)[f := g x]\<rparr>) }"

abbreviation fcount :: "vfs \<Rightarrow> nat \<Rightarrow> u32" where
  "fcount s f \<equiv> file_count (kern_of s) f"

definition set_fcount :: "vfs \<Rightarrow> nat \<Rightarrow> u32 \<Rightarrow> vfs" where
  "set_fcount s f c = set_kern s ((kern_of s)\<lparr>file_count := (file_count (kern_of s))(f := c)\<rparr>)"

definition get_file :: "vfs \<Rightarrow> (nat \<times> vfs) option" where
  "get_file s = do {
     f \<leftarrow> find (\<lambda>i. fcount s i = 0) [3..<FILE_NR];
     Some (f, set_fcount s f (fcount s f + 1)) }"

definition put_file :: "vfs \<Rightarrow> nat \<Rightarrow> vfs option" where
  "put_file s f = do {
     kassert (0 < fcount s f);
     let s = set_fcount s f (fcount s f - 1);
     if fcount s f = 0 then do { x \<leftarrow> aget (file_table s) f; iput s (f_inode x) } else Some s }"

text \<open>\<^verbatim>\<open>for (i = 3; i > FILE_NR; +i)\<close>: the condition fails at once, and nothing is initialised.\<close>

definition file_init :: "vfs \<Rightarrow> vfs" where
  "file_init s = s"

section \<open>Descriptors\<close>

definition fd_file :: "vfs \<Rightarrow> u32 \<Rightarrow> nat option option" where
  "fd_file s fd = do { t \<leftarrow> get_current (kern_of s); aget (t_files t) (unat fd) }"

definition set_fd :: "vfs \<Rightarrow> nat \<Rightarrow> nat option \<Rightarrow> vfs option" where
  "set_fd s fd f = upd_task s (\<lambda>t. t\<lparr>t_files := (t_files t)[fd := f]\<rparr>)"

definition sys_open :: "vfs \<Rightarrow> u8 list option \<Rightarrow> u32 \<Rightarrow> u32 \<Rightarrow> (u32 \<times> vfs) option" where
  "sys_open s filename flags mode = do {
     (p, s) \<leftarrow> inode_open s filename flags mode;
     case p of
       None \<Rightarrow> Some (EOF, s)
     | Some inode \<Rightarrow> do {
         t \<leftarrow> get_current (kern_of s);
         fd \<leftarrow> task_get_fd t;
         (f, s) \<leftarrow> get_file s;
         kassert (t_files t ! fd = None);
         s \<leftarrow> set_fd s fd (Some f);
         let s = set_fcount s f 1;
         x \<leftarrow> idesc s inode;
         s \<leftarrow> upd_file s f (\<lambda>_. \<lparr>f_inode = Some inode, f_offset = (if flags AND O_APPEND \<noteq> 0 then d_size x else 0),
                f_flags = flags, f_mode = ucast (d_mode x)\<rparr>);
         Some (of_nat fd, s) } }"

definition sys_creat :: "vfs \<Rightarrow> u8 list option \<Rightarrow> u32 \<Rightarrow> (u32 \<times> vfs) option" where
  "sys_creat s filename mode = sys_open s filename (O_WRONLY OR O_CREAT OR O_TRUNC) mode"

definition sys_close :: "vfs \<Rightarrow> u32 \<Rightarrow> vfs option" where
  "sys_close s fd = do {
     kassert (\<not> fd <s 0);
     kassert (fd <s TASK_FILE_NR);
     p \<leftarrow> fd_file s fd;
     case p of
       None \<Rightarrow> Some s
     | Some f \<Rightarrow> do {
         x \<leftarrow> aget (file_table s) f;
         kassert (f_inode x \<noteq> None);
         s \<leftarrow> put_file s f;
         k \<leftarrow> task_put_fd (kern_of s) (cur (kern_of s)) fd;
         Some (set_kern s k) } }"

type_synonym dreader = "u32 \<Rightarrow> u32 \<Rightarrow> u32 \<Rightarrow> vfs \<Rightarrow> (u32 \<times> u8 list \<times> vfs) option"
type_synonym dwriter = "u32 \<Rightarrow> u8 list \<Rightarrow> u32 \<Rightarrow> u32 \<Rightarrow> vfs \<Rightarrow> (u32 \<times> vfs) option"

text \<open>
  The result is the value returned with the bytes stored in the caller's buffer. For a file that is open
  for writing only the code jumps over the initialisation of \<open>ret\<close>: it returns the value \<open>junk\<close> that
  happens to be in its place.
\<close>

definition sys_read :: "dreader \<Rightarrow> u32 \<Rightarrow> u32 \<Rightarrow> vfs \<Rightarrow> u32 \<Rightarrow> u32 \<Rightarrow> ((u32 \<times> u8 list) outcome \<times> vfs) option" where
  "sys_read dread resume junk s fd count =
     (if fd <s 0 \<or> \<not> fd <s TASK_FILE_NR then Some (Done (EOF, []), s)
      else do {
        p \<leftarrow> fd_file s fd;
        f \<leftarrow> p;
        kassert (0 < count);
        x \<leftarrow> aget (file_table s) f;
        if f_flags x AND O_ACCMODE = O_WRONLY then Some (Done (junk, []), s)
        else do {
          inode \<leftarrow> f_inode x;
          v \<leftarrow> aget (inode_table s) inode;
          if i_pipe v then do {
            (r, s) \<leftarrow> pipe_read resume s inode count;
            Some (case r of Done out \<Rightarrow> Done (of_nat (length out), out)
                          | Asleep out n \<Rightarrow> Asleep (of_nat (length out), out) n, s) }
          else do {
            d \<leftarrow> idesc s inode;
            let rdev = (ucast (d_zone d ! 0) :: u32);
            if ISCHR (ucast (d_mode d)) then do {
              kassert (rdev \<noteq> 0);
              (r, out, s) \<leftarrow> dread rdev count 0 s;
              Some (Done (r, out), s) }
            else if ISBLK (ucast (d_mode d)) then do {
              kassert (rdev \<noteq> 0);
              kassert (f_offset x AND 1 = 0);
              kassert (count mod BLOCK_SIZE = 0);
              (r, out, s) \<leftarrow> dread rdev (count div BLOCK_SIZE) (off_block (f_offset x)) s;
              Some (Done (r, out), s) }
            else do {
              (r, out, s) \<leftarrow> inode_read s inode count (f_offset x);
              s \<leftarrow> (if r \<noteq> EOF then upd_file s f (\<lambda>x. x\<lparr>f_offset := f_offset x + r\<rparr>) else Some s);
              Some (Done (r, out), s) } } } })"

definition sys_write :: "dwriter \<Rightarrow> u32 \<Rightarrow> vfs \<Rightarrow> u32 \<Rightarrow> u8 list \<Rightarrow> u32 \<Rightarrow> (u32 outcome \<times> vfs) option" where
  "sys_write dwrite resume s fd src count =
     (if fd \<le>s 0 \<or> \<not> fd <s TASK_FILE_NR then Some (Done EOF, s)
      else do {
        p \<leftarrow> fd_file s fd;
        f \<leftarrow> p;
        kassert (0 < count);
        x \<leftarrow> aget (file_table s) f;
        if f_flags x AND O_ACCMODE = O_RDONLY then Some (Done EOF, s)
        else do {
          inode \<leftarrow> f_inode x;
          v \<leftarrow> aget (inode_table s) inode;
          if i_pipe v then do {
            (r, s) \<leftarrow> pipe_write resume s inode src count;
            Some (case r of Done _ \<Rightarrow> Done (if 0 <s count then count else 0)
                          | Asleep _ n \<Rightarrow> Asleep (count - of_nat n) n, s) }
          else do {
            d \<leftarrow> idesc s inode;
            let rdev = (ucast (d_zone d ! 0) :: u32);
            if ISCHR (ucast (d_mode d)) then do {
              kassert (rdev \<noteq> 0);
              (r, s) \<leftarrow> dwrite rdev src count 0 s;
              Some (Done r, s) }
            else if ISBLK (ucast (d_mode d)) then do {
              kassert (rdev \<noteq> 0);
              kassert (f_offset x AND 1 = 0);
              kassert (count mod BLOCK_SIZE = 0);
              (r, s) \<leftarrow> dwrite rdev src (count div BLOCK_SIZE) (off_block (f_offset x)) s;
              Some (Done r, s) }
            else do {
              (r, s) \<leftarrow> inode_write s inode src count (f_offset x);
              s \<leftarrow> (if r \<noteq> EOF then upd_file s f (\<lambda>x. x\<lparr>f_offset := f_offset x + r\<rparr>) else Some s);
              Some (Done r, s) } } } })"

definition SEEK_SET :: u32 where "SEEK_SET = 1"
definition SEEK_CUR :: u32 where "SEEK_CUR = 2"
definition SEEK_END :: u32 where "SEEK_END = 3"

text \<open>In the last case \<open>size\<close> is unsigned, and so is the sum that is compared with zero.\<close>

definition sys_lseek :: "vfs \<Rightarrow> u32 \<Rightarrow> u32 \<Rightarrow> u32 \<Rightarrow> (u32 \<times> vfs) option" where
  "sys_lseek s fd offset whence =
     (if fd \<le>s 2 \<or> \<not> fd <s TASK_FILE_NR then Some (EOF, s)
      else do {
        p \<leftarrow> fd_file s fd;
        case p of
          None \<Rightarrow> Some (EOF, s)
        | Some f \<Rightarrow> do {
            x \<leftarrow> aget (file_table s) f;
            if whence = SEEK_SET then
              (if offset <s 0 then Some (EOF, s)
               else do { s \<leftarrow> upd_file s f (\<lambda>x. x\<lparr>f_offset := offset\<rparr>); Some (offset, s) })
            else if whence = SEEK_CUR then
              (if f_offset x + offset <s 0 then Some (EOF, s)
               else do { s \<leftarrow> upd_file s f (\<lambda>x. x\<lparr>f_offset := f_offset x + offset\<rparr>); Some (f_offset x + offset, s) })
            else if whence = SEEK_END then do {
              inode \<leftarrow> f_inode x;
              d \<leftarrow> idesc s inode;
              if d_size d + offset < 0 then Some (EOF, s)
              else do { s \<leftarrow> upd_file s f (\<lambda>x. x\<lparr>f_offset := d_size d + offset\<rparr>); Some (d_size d + offset, s) } }
            else Some (EOF, s) } })"

definition sys_readdir :: "dreader \<Rightarrow> u32 \<Rightarrow> u32 \<Rightarrow> vfs \<Rightarrow> u32 \<Rightarrow> u32 \<Rightarrow> ((u32 \<times> u8 list) outcome \<times> vfs) option" where
  "sys_readdir dread resume junk s fd count = sys_read dread resume junk s fd count"

definition dupfd :: "vfs \<Rightarrow> u32 \<Rightarrow> u32 \<Rightarrow> (u32 \<times> vfs) option" where
  "dupfd s fd arg =
     (if \<not> fd <s TASK_FILE_NR then Some (EOF, s)
      else do {
        t \<leftarrow> get_current (kern_of s);
        p \<leftarrow> aget (t_files t) (unat fd);
        case p of
          None \<Rightarrow> Some (EOF, s)
        | Some f \<Rightarrow> (case find (\<lambda>i. t_files t ! i = None) [unat arg..<unat TASK_FILE_NR] of
              None \<Rightarrow> Some (EOF, s)
            | Some i \<Rightarrow> do {
                s \<leftarrow> set_fd s i (Some f);
                Some (of_nat i, set_fcount s f (fcount s f + 1)) }) })"

definition sys_dup :: "vfs \<Rightarrow> u32 \<Rightarrow> (u32 \<times> vfs) option" where
  "sys_dup s oldfd = dupfd s oldfd 0"

definition sys_dup2 :: "vfs \<Rightarrow> u32 \<Rightarrow> u32 \<Rightarrow> (u32 \<times> vfs) option" where
  "sys_dup2 s oldfd newfd =
     (if oldfd = newfd then Some (newfd, s) else do { s \<leftarrow> sys_close s newfd; dupfd s oldfd newfd })"

text \<open>\<open>sys_pipe\<close> with the two descriptors it stores; \<open>page\<close> is what the page of the buffer holds.\<close>

definition sys_pipe :: "vfs \<Rightarrow> u8 list \<Rightarrow> (u32 \<times> u32 \<times> u32 \<times> vfs) option" where
  "sys_pipe s page = do {
     (n, s) \<leftarrow> get_pipe_inode s page;
     t \<leftarrow> get_current (kern_of s);
     fd0 \<leftarrow> task_get_fd t;
     (f0, s) \<leftarrow> get_file s;
     s \<leftarrow> set_fd s fd0 (Some f0);
     t \<leftarrow> get_current (kern_of s);
     fd1 \<leftarrow> task_get_fd t;
     (f1, s) \<leftarrow> get_file s;
     s \<leftarrow> set_fd s fd1 (Some f1);
     s \<leftarrow> upd_file s f0 (\<lambda>x. x\<lparr>f_inode := Some n, f_flags := O_RDONLY\<rparr>);
     s \<leftarrow> upd_file s f1 (\<lambda>x. x\<lparr>f_inode := Some n, f_flags := O_WRONLY\<rparr>);
     Some (0, of_nat fd0, of_nat fd1, s) }"

section \<open>Working directory\<close>

text \<open>
  \<open>abspath\<close> works in one array, terminator included: \<open>t\<close> is the end of what is kept, \<open>c\<close> of what has
  been read. Reading or writing outside the array is not a value.
\<close>

text \<open>\<^verbatim>\<open>while (t > tmpstr && !IS_SEPARATOR(*(--t)));\<close>\<close>

fun back_up :: "u8 list \<Rightarrow> nat \<Rightarrow> nat" where
  "back_up a 0 = 0"
| "back_up a (Suc t) = (if IS_SEPARATOR (a ! t) then t else back_up a t)"

text \<open>\<^verbatim>\<open>while (!IS_SEPARATOR(c[1])) *(++t) = *(++c);\<close>\<close>

partial_function (option) copy_name :: "u8 list \<Rightarrow> nat \<Rightarrow> nat \<Rightarrow> (u8 list \<times> nat \<times> nat) option" where
  "copy_name a t c = do {
     b \<leftarrow> aget a (c + 1);
     if IS_SEPARATOR b then Some (a, t, c)
     else do { a \<leftarrow> aset a (t + 1) b; copy_name a (t + 1) (c + 1) } }"

partial_function (option) abspath_loop :: "u8 list \<Rightarrow> nat \<Rightarrow> nat \<Rightarrow> (u8 list \<times> nat) option" where
  "abspath_loop a t c = do {
     b1 \<leftarrow> aget a (c + 1);
     if b1 = EOS then Some (a, t)
     else if IS_SEPARATOR b1 then abspath_loop a t (c + 1)
     else do {
       b2 \<leftarrow> aget a (c + 2);
       if b1 = 0x2E \<and> IS_SEPARATOR b2 then abspath_loop a t (c + 2)
       else do {
         up \<leftarrow> (if b1 = 0x2E \<and> b2 = 0x2E then do { b3 \<leftarrow> aget a (c + 3); Some (IS_SEPARATOR b3) } else Some False);
         if up then abspath_loop a (back_up a t) (c + 3)
         else do {
           (a, t, c) \<leftarrow> copy_name a t c;
           a \<leftarrow> aset a (t + 1) 0x2F;
           abspath_loop a (t + 1) c } } } }"

text \<open>
  The array before the loop: the path with the working directory in front when it is relative. The
  code copies \<open>pwd\<close> with \<open>strcpy\<close>; here it is taken to end where \<open>pwd_len\<close> says.
\<close>

definition abspath_array :: "u8 list \<Rightarrow> u8 list \<Rightarrow> u8 list option" where
  "abspath_array pwd pathname =
     (if \<not> IS_SEPARATOR (hd (pathname @ [EOS])) then Some (pwd @ [0x2F] @ pathname @ [0x2F, EOS])
      else Some (pathname @ [0x2F, EOS]))"

definition abspath :: "u8 list \<Rightarrow> u8 list \<Rightarrow> u8 list option" where
  "abspath pwd pathname = do {
     a \<leftarrow> abspath_array pwd pathname;
     kassert (IS_SEPARATOR (hd a));
     (a, t) \<leftarrow> abspath_loop a 0 0;
     Some (takeWhile (\<lambda>b. b \<noteq> EOS) (if t > 0 then a[t := EOS] else a[t + 1 := EOS])) }"

definition MAX_PATH_LEN :: nat where "MAX_PATH_LEN = 4096"

definition sys_getcwd :: "vfs \<Rightarrow> u32 \<Rightarrow> (u32 \<times> u8 list) option" where
  "sys_getcwd s sz = do {
     t \<leftarrow> get_current (kern_of s);
     let len = min (of_nat (length (t_pwd t)) + 1) sz;
     kassert (len \<noteq> 0);
     Some (len, take (unat len - 1) (t_pwd t) @ [EOS]) }"

text \<open>
  \<open>sys_chdir\<close>. The length is stored before it is compared with, so the block that \<open>pwd\<close> points to is
  never replaced by a longer one; copying past its end is not a value.
\<close>

definition sys_chdir :: "vfs \<Rightarrow> u8 list \<Rightarrow> (u32 \<times> vfs) option" where
  "sys_chdir s pathname = do {
     kassert (length pathname < MAX_PATH_LEN);
     if length pathname < 1 then Some (EOF, s)
     else do {
       t \<leftarrow> get_current (kern_of s);
       path \<leftarrow> abspath (t_pwd t) pathname;
       (p, s) \<leftarrow> namei s (Some path);
       t \<leftarrow> get_current (kern_of s);
       case p of
         None \<Rightarrow> do { s \<leftarrow> iput s p; Some (EOF, s) }
       | Some inode \<Rightarrow> do {
           x \<leftarrow> idesc s inode;
           if \<not> ISDIR (ucast (d_mode x)) then do { s \<leftarrow> iput s p; Some (EOF, s) }
           else if t_ipwd t = Some inode then do { s \<leftarrow> iput s p; Some (0, s) }
           else do {
             s \<leftarrow> iput s (t_ipwd t);
             kassert (length path \<le> pwd_room s (cur (kern_of s)));
             s \<leftarrow> upd_task s (\<lambda>t. t\<lparr>t_ipwd := Some inode, t_pwd := path\<rparr>);
             Some (0, s) } } } }"

definition sys_chroot :: "vfs \<Rightarrow> u8 list \<Rightarrow> (u32 \<times> vfs) option" where
  "sys_chroot s pathname = do {
     kassert (length pathname < MAX_PATH_LEN);
     if length pathname < 1 then Some (EOF, s)
     else do {
       t \<leftarrow> get_current (kern_of s);
       path \<leftarrow> abspath (t_pwd t) pathname;
       (p, s) \<leftarrow> namei s (Some path);
       t \<leftarrow> get_current (kern_of s);
       case p of
         None \<Rightarrow> do { s \<leftarrow> iput s p; Some (EOF, s) }
       | Some inode \<Rightarrow> do {
           x \<leftarrow> idesc s inode;
           if \<not> ISDIR (ucast (d_mode x)) \<or> t_ipwd t = Some inode then do { s \<leftarrow> iput s p; Some (EOF, s) }
           else do {
             s \<leftarrow> iput s (t_iroot t);
             s \<leftarrow> upd_task s (\<lambda>t. t\<lparr>t_iroot := Some inode\<rparr>);
             Some (0, s) } } } }"

section \<open>File status and device control\<close>

record stat_t =
  st_dev :: u32
  st_nr :: u32
  st_mode :: u16
  st_nlinks :: u8
  st_uid :: u16
  st_gid :: u8
  st_rdev :: u32
  st_size :: u32
  st_atime :: u32
  st_mtime :: u32
  st_ctime :: u32

definition copy_stat :: "vfs \<Rightarrow> nat \<Rightarrow> stat_t option" where
  "copy_stat s n = do {
     v \<leftarrow> aget (inode_table s) n;
     x \<leftarrow> idesc s n;
     Some \<lparr>st_dev = i_dev v, st_nr = i_nr v, st_mode = d_mode x, st_nlinks = d_nlinks x, st_uid = d_uid x,
       st_gid = d_gid x, st_rdev = ucast (d_zone x ! 0), st_size = d_size x, st_atime = i_atime v,
       st_mtime = d_mtime x, st_ctime = i_ctime v\<rparr> }"

definition sys_stat :: "vfs \<Rightarrow> u8 list option \<Rightarrow> (u32 \<times> stat_t option \<times> vfs) option" where
  "sys_stat s filename = do {
     (p, s) \<leftarrow> namei s filename;
     case p of
       None \<Rightarrow> Some (EOF, None, s)
     | Some inode \<Rightarrow> do { st \<leftarrow> copy_stat s inode; s \<leftarrow> iput s p; Some (0, Some st, s) } }"

definition sys_fstat :: "vfs \<Rightarrow> u32 \<Rightarrow> (u32 \<times> stat_t option) option" where
  "sys_fstat s fd =
     (if fd <s 0 \<or> \<not> fd <s TASK_FILE_NR then Some (EOF, None)
      else do {
        p \<leftarrow> fd_file s fd;
        case p of
          None \<Rightarrow> Some (EOF, None)
        | Some f \<Rightarrow> do {
            x \<leftarrow> aget (file_table s) f;
            inode \<leftarrow> f_inode x;
            st \<leftarrow> copy_stat s inode;
            Some (0, Some st) } })"

definition EBADF :: u32 where "EBADF = 9"
definition EINVAL :: u32 where "EINVAL = 22"
definition ENOTTY :: u32 where "ENOTTY = 25"

definition sys_ioctl :: "(u32 \<Rightarrow> u32 \<Rightarrow> vfs \<Rightarrow> (u32 \<times> vfs) option) \<Rightarrow> vfs \<Rightarrow> u32 \<Rightarrow> u32 \<Rightarrow> (u32 \<times> vfs) option" where
  "sys_ioctl dctl s fd cmd =
     (if fd <s 0 \<or> \<not> fd <s TASK_FILE_NR then Some (- EBADF, s)
      else do {
        p \<leftarrow> fd_file s fd;
        case p of
          None \<Rightarrow> Some (- EBADF, s)
        | Some f \<Rightarrow> do {
            x \<leftarrow> aget (file_table s) f;
            inode \<leftarrow> f_inode x;
            d \<leftarrow> idesc s inode;
            if \<not> ISCHR (ucast (d_mode d)) \<and> \<not> ISBLK (ucast (d_mode d)) then Some (- EINVAL, s)
            else let dev = (ucast (d_zone d ! 0) :: u32) in
              if unat dev \<ge> DEVICE_NR then Some (- ENOTTY, s) else dctl dev cmd s } })"

definition sys_umask :: "vfs \<Rightarrow> u16 \<Rightarrow> (u16 \<times> vfs) option" where
  "sys_umask s acc = do {
     t \<leftarrow> get_current (kern_of s);
     s \<leftarrow> upd_task s (\<lambda>t. t\<lparr>t_umask := acc AND 0x1FF\<rparr>);
     Some (t_umask t, s) }"

section \<open>The normal form of a path\<close>

text \<open>
  The specification: the components between separators are taken one after the other, empty ones and
  \<^verbatim>\<open>.\<close> are skipped, \<^verbatim>\<open>..\<close> drops the last one taken.
\<close>

fun split_path :: "u8 list \<Rightarrow> u8 list \<Rightarrow> u8 list list" where
  "split_path w [] = [w]"
| "split_path w (b # bs) = (if IS_SEPARATOR b then w # split_path [] bs else split_path (w @ [b]) bs)"

definition path_step :: "u8 list list \<Rightarrow> u8 list \<Rightarrow> u8 list list" where
  "path_step st w = (if w = [] \<or> w = dot then st else if w = dotdot then tl st else w # st)"

fun join_path :: "u8 list list \<Rightarrow> u8 list" where
  "join_path [] = []"
| "join_path [w] = w"
| "join_path (w # ws) = w @ 0x2F # join_path ws"

definition normal_path :: "u8 list \<Rightarrow> u8 list" where
  "normal_path p = hd p # join_path (rev (foldl path_step [] (split_path [] (tl p))))"

definition name_ok :: "u8 list \<Rightarrow> bool" where
  "name_ok w \<longleftrightarrow> w \<noteq> [] \<and> w \<noteq> dot \<and> w \<noteq> dotdot \<and> EOS \<notin> set w \<and> (\<forall>b \<in> set w. \<not> IS_SEPARATOR b)"

abbreviation terminated :: "u8 list list \<Rightarrow> u8 list" where
  "terminated ws \<equiv> concat (map (\<lambda>w. w @ [0x2F]) ws)"

lemma sep_slash [simp]: "IS_SEPARATOR 0x2F" "\<not> IS_SEPARATOR EOS" "\<not> IS_SEPARATOR 0x2E"
  by (simp_all add: IS_SEPARATOR_def EOS_def)

lemma slash_not_eos [simp]: "EOS \<noteq> 0x2F" "0x2F \<noteq> EOS"
  by (simp_all add: EOS_def)

lemma split_path_word: "\<forall>b \<in> set w. \<not> IS_SEPARATOR b \<Longrightarrow> split_path v (w @ bs) = split_path (v @ w) bs"
  by (induction w arbitrary: v) auto

lemma split_path_nonempty: "split_path w bs \<noteq> []"
  by (induction w bs rule: split_path.induct) auto

lemma split_path_snoc: "split_path w (bs @ [0x2F]) = split_path w bs @ [[]]"
  by (induction w bs rule: split_path.induct) auto

lemma back_up_to:
  "p < t \<Longrightarrow> IS_SEPARATOR (a ! p) \<Longrightarrow> \<forall>j. p < j \<and> j < t \<longrightarrow> \<not> IS_SEPARATOR (a ! j) \<Longrightarrow> back_up a t = p"
proof (induction t)
  case (Suc t)
  then show ?case by (cases "p = t") auto
qed simp

lemma copy_name_copies:
  assumes "drop (c + 1) a = w @ e # r" "\<forall>b \<in> set w. \<not> IS_SEPARATOR b" "IS_SEPARATOR e" "t \<le> c"
  shows "\<exists>a'. copy_name a t c = Some (a', t + length w, c + length w) \<and> length a' = length a \<and>
     take (t + 1 + length w) a' = take (t + 1) a @ w \<and> drop (c + length w + 1) a' = e # r"
  using assms
proof (induction w arbitrary: a t c)
  case Nil
  then have "c + 1 < length a" by (metis append_Nil drop_eq_Nil2 linorder_not_le list.discI)
  moreover from this have "a ! (c + 1) = e" using Nil.prems(1) by (metis append_Nil hd_drop_conv_nth list.sel(1))
  ultimately show ?case using Nil by (simp add: copy_name.simps)
next
  case (Cons b w)
  have c: "c + 1 < length a" using Cons.prems(1) by (metis append_Cons drop_eq_Nil2 linorder_not_le list.discI)
  then have b: "a ! (c + 1) = b" using Cons.prems(1) by (metis append_Cons hd_drop_conv_nth list.sel(1))
  let ?a = "a[t + 1 := b]"
  have "drop (c + 1 + 1) ?a = drop (c + 2) a" using Cons.prems(4) by (simp add: drop_update_cancel)
  also have "\<dots> = tl (drop (c + 1) a)" by (simp add: drop_Suc tl_drop)
  also have "\<dots> = w @ e # r" using Cons.prems(1) by simp
  finally have d: "drop (c + 1 + 1) ?a = w @ e # r" .
  obtain a' where a': "copy_name ?a (t + 1) (c + 1) = Some (a', t + 1 + length w, c + 1 + length w)" "length a' = length ?a"
      "take (t + 1 + 1 + length w) a' = take (t + 1 + 1) ?a @ w" "drop (c + 1 + length w + 1) a' = e # r"
    using Cons.IH [OF d _ Cons.prems(3), of "t + 1"] Cons.prems(2,4) by auto
  have "take (t + 1 + 1) ?a = take (t + 1) a @ [b]"
    using Cons.prems(4) c by (simp add: take_Suc_conv_app_nth)
  moreover have "copy_name a t c = copy_name ?a (t + 1) (c + 1)"
    using c b Cons.prems(2,4) by (subst copy_name.simps) simp
  ultimately show ?case using a' by simp
qed

text \<open>
  What the loop keeps: the array up to \<open>t\<close> is the first character and the names taken, each with a
  separator behind it; behind \<open>c\<close> comes what is left of the path.
\<close>

definition kept :: "u8 \<Rightarrow> u8 list \<Rightarrow> nat \<Rightarrow> u8 list list \<Rightarrow> bool" where
  "kept h a t st \<longleftrightarrow> t < length a \<and> IS_SEPARATOR h \<and> hd a = h \<and> take (t + 1) a = h # terminated (rev st) \<and> (\<forall>w \<in> set st. name_ok w)"

lemma kept_back:
  assumes "kept h a t st"
  shows "kept h a (back_up a t) (tl st) \<and> back_up a t \<le> t"
proof (cases st)
  case Nil
  then have "length (take (t + 1) a) = 1" using assms by (simp add: kept_def)
  then have "t = 0" using assms by (auto simp: kept_def min_def split: if_splits)
  then show ?thesis using assms Nil by simp
next
  case (Cons w ws)
  define x where "x = h # terminated (rev ws)"
  have k: "t < length a" "IS_SEPARATOR h" "hd a = h" "take (t + 1) a = x @ w @ [0x2F]" "name_ok w" "\<forall>w \<in> set ws. name_ok w"
    using assms Cons by (auto simp: kept_def x_def)
  have t: "t = length x + length w" using arg_cong [OF k(4), of length] k(1) by simp
  have len: "0 < length x" "0 < length w" using k(5) by (auto simp: x_def name_ok_def)
  have at: "a ! j = (x @ w @ [0x2F]) ! j" if "j \<le> t" for j
    using that by (subst k(4) [symmetric]) simp
  have "IS_SEPARATOR (last x)" using k(2) by (cases ws) (auto simp: x_def last_append)
  then have sep: "IS_SEPARATOR (a ! (length x - 1))"
    using at [of "length x - 1"] len t by (simp add: nth_append last_conv_nth)
  have b: "back_up a t = length x - 1"
  proof (rule back_up_to [OF _ sep], goal_cases)
    case 2
    show ?case
    proof (intro allI impI)
      fix j assume j: "length x - 1 < j \<and> j < t"
      then have "a ! j = w ! (j - length x)" using at [of j] len t by (auto simp: nth_append)
      moreover have "w ! (j - length x) \<in> set w" using j t len by (intro nth_mem) linarith
      ultimately show "\<not> IS_SEPARATOR (a ! j)" using k(5) by (simp add: name_ok_def)
    qed
  qed (use t len in linarith)
  have "take (length x) (take (t + 1) a) = x" by (subst k(4)) simp
  then have "take (length x) a = x" using t by (simp add: min_absorb1)
  moreover have "length x - 1 < length a" "length x - 1 \<le> t" using t k(1) len by linarith+
  ultimately show ?thesis using b len k(2,3,6) Cons by (simp add: kept_def x_def [symmetric])
qed

lemma kept_push:
  assumes "kept h a t st" "name_ok w" "take (t + 1 + length w) a' = take (t + 1) a @ w" "length a' = length a"
    "t + 1 + length w < length a"
  shows "kept h (a'[t + length w + 1 := 0x2F]) (t + length w + 1) (w # st)"
proof -
  have "hd a' = hd a"
  proof -
    have "hd (take (t + 1 + length w) a') = hd (take (t + 1) a @ w)" using assms(3) by simp
    moreover have "a \<noteq> []" "a' \<noteq> []" using assms(4,5) by auto
    ultimately show ?thesis by (simp add: take_Suc hd_append neq_Nil_conv)
  qed
  moreover have "hd (a'[t + length w + 1 := 0x2F]) = hd a'" using assms(4,5) by (cases a') auto
  moreover have "take (t + length w + 1 + 1) (a'[t + length w + 1 := 0x2F]) = take (t + length w + 1) a' @ [0x2F]"
    using assms(4,5) by (simp add: take_Suc_conv_app_nth)
  ultimately show ?thesis using assms by (simp add: kept_def ac_simps)
qed

lemma dot_name: "\<not> IS_SEPARATOR b \<Longrightarrow> [b] \<noteq> dot \<Longrightarrow> b \<noteq> 0x2E" "dot \<noteq> dotdot"
  by (auto simp: dot_def dotdot_def)

lemma drop_at: "drop n a = b # r \<Longrightarrow> n < length a \<and> a ! n = b \<and> drop (n + 1) a = r"
  by (metis Suc_eq_plus1 drop_Suc drop_eq_Nil2 hd_drop_conv_nth linorder_not_le list.sel(1,3) list.simps(3) tl_drop)

text \<open>One turn of the loop for one component, with the separator behind it.\<close>

lemma abspath_turn:
  assumes "kept h a t st" "t \<le> c" "drop (c + 1) a = w @ e # r @ [EOS]" "IS_SEPARATOR e"
    "\<forall>b \<in> set w. \<not> IS_SEPARATOR b" "EOS \<notin> set w"
  shows "\<exists>a' t' c'. abspath_loop a t c = abspath_loop a' t' c' \<and> kept h a' t' (path_step st w) \<and> t' \<le> c' \<and>
     drop (c' + 1) a' = r @ [EOS] \<and> length a' = length a"
proof (cases "w = []")
  case True
  then have "drop (c + 1) a = e # r @ [EOS]" using assms(3) by simp
  note d = drop_at [OF this]
  have "abspath_loop a t c = abspath_loop a t (c + 1)"
    using d assms(4) by (subst abspath_loop.simps) (auto simp: EOS_def IS_SEPARATOR_def)
  then show ?thesis using assms d True by (intro exI [of _ a] exI [of _ t] exI [of _ "c + 1"]) (simp add: path_step_def)
next
  case False
  then obtain b1 w1 where w: "w = b1 # w1" by (cases w) auto
  have "drop (c + 1) a = b1 # w1 @ e # r @ [EOS]" using assms(3) w by simp
  note d1 = drop_at [OF this]
  have b1: "b1 \<noteq> EOS" "\<not> IS_SEPARATOR b1" using assms(5,6) w by auto
  obtain b2 r2 where r2: "w1 @ e # r @ [EOS] = b2 # r2" by (cases w1) auto
  then have "drop (c + 2) a = b2 # r2" using d1 by simp
  note d2 = drop_at [OF this]
  have step1: "abspath_loop a t c =
      (if b1 = 0x2E \<and> IS_SEPARATOR b2 then abspath_loop a t (c + 2)
       else do {
         up \<leftarrow> (if b1 = 0x2E \<and> b2 = 0x2E then do { b3 \<leftarrow> aget a (c + 3); Some (IS_SEPARATOR b3) } else Some False);
         if up then abspath_loop a (back_up a t) (c + 3)
         else do { (a, t, c) \<leftarrow> copy_name a t c; a \<leftarrow> aset a (t + 1) 0x2F; abspath_loop a (t + 1) c } })"
    using d1 d2 b1 by (subst abspath_loop.simps) simp
  show ?thesis
  proof (cases "w = dot")
    case True
    then have "b1 = 0x2E" "w1 = []" "b2 = e" "r2 = r @ [EOS]" using w r2 by (auto simp: dot_def)
    then have "abspath_loop a t c = abspath_loop a t (c + 2)" using step1 assms(4) by simp
    then show ?thesis using assms(1,2) d2 \<open>r2 = _\<close> True
      by (intro exI [of _ a] exI [of _ t] exI [of _ "c + 2"]) (simp add: path_step_def)
  next
    case nodot: False
    have c1: "\<not> (b1 = 0x2E \<and> IS_SEPARATOR b2)"
      using nodot w r2 assms(5) by (cases w1) (auto simp: dot_def)
    show ?thesis
    proof (cases "w = dotdot")
      case True
      then have "b1 = 0x2E" "b2 = 0x2E" "drop (c + 3) a = e # r @ [EOS]"
        using w r2 d2 by (auto simp: dotdot_def numeral_3_eq_3)
      note d3 = drop_at [OF this(3)]
      have "abspath_loop a t c = abspath_loop a (back_up a t) (c + 3)"
        using step1 c1 d3 assms(4) \<open>b1 = _\<close> \<open>b2 = _\<close> by simp
      then show ?thesis using kept_back [OF assms(1)] assms(2) d3 True
        by (intro exI [of _ a] exI [of _ "back_up a t"] exI [of _ "c + 3"]) (simp add: path_step_def dotdot_def dot_def)
    next
      case nodots: False
      have ok: "name_ok w" using False nodot nodots assms(5,6) by (simp add: name_ok_def)
      have up: "(if b1 = 0x2E \<and> b2 = 0x2E then do { b3 \<leftarrow> aget a (c + 3); Some (IS_SEPARATOR b3) } else Some False) = Some False"
      proof (cases "b1 = 0x2E \<and> b2 = 0x2E")
        case True
        then obtain w2 where w2: "w1 = b2 # w2" "w2 \<noteq> []"
          using r2 assms(4) w nodots by (cases w1) (auto simp: dotdot_def)
        then obtain b3 w3 where w3: "w2 = b3 # w3" by (cases w2) auto
        then have "drop (c + 3) a = b3 # w3 @ e # r @ [EOS]" using d2 r2 w2 by (simp add: numeral_3_eq_3)
        note d3 = drop_at [OF this]
        have "\<not> IS_SEPARATOR b3" using assms(5) w w2 w3 by simp
        then show ?thesis using True d3 by simp
      qed auto
      obtain a' where a': "copy_name a t c = Some (a', t + length w, c + length w)" "length a' = length a"
         "take (t + 1 + length w) a' = take (t + 1) a @ w" "drop (c + length w + 1) a' = e # r @ [EOS]"
        using copy_name_copies [OF assms(3,5,4,2)] by blast
      note d4 = drop_at [OF a'(4)]
      have d5: "drop (c + length w + 2) a' = r @ [EOS]" using d4 by simp
      then have bound: "c + length w + 2 < length a" using a'(2) by (metis append_is_Nil_conv drop_eq_Nil2 linorder_not_le list.discI)
      let ?a = "a'[t + length w + 1 := 0x2F]"
      have sep: "IS_SEPARATOR (?a ! (c + length w + 1))"
        using d4 assms(4) by (cases "t = c") auto
      have "abspath_loop a t c = abspath_loop ?a (t + length w + 1) (c + length w)"
        using step1 c1 up a'(1,2) bound assms(2) by simp
      also have "\<dots> = abspath_loop ?a (t + length w + 1) (c + length w + 1)"
        using sep bound a'(2) by (subst abspath_loop.simps) (auto simp: EOS_def IS_SEPARATOR_def)
      finally have run: "abspath_loop a t c = abspath_loop ?a (t + length w + 1) (c + length w + 1)" .
      moreover have "kept h ?a (t + length w + 1) (w # st)"
        using kept_push [OF assms(1) ok a'(3,2)] bound assms(2) by simp
      moreover have "drop (c + length w + 2) ?a = r @ [EOS]" using d5 assms(2) by (simp add: drop_update_cancel)
      ultimately show ?thesis using assms(2) a'(2) False nodot nodots
        by (intro exI [of _ ?a] exI [of _ "t + length w + 1"] exI [of _ "c + length w + 1"]) (simp add: path_step_def)
    qed
  qed
qed

lemma abspath_loop_normal:
  assumes "kept h a t st" "t \<le> c" "drop (c + 1) a = r @ [EOS]" "r = [] \<or> IS_SEPARATOR (last r)" "EOS \<notin> set r"
  shows "\<exists>a' t'. abspath_loop a t c = Some (a', t') \<and> kept h a' t' (foldl path_step st (butlast (split_path [] r))) \<and>
     t' + 1 < length a'"
  using assms
proof (induction "length r" arbitrary: a t c st r rule: less_induct)
  case less
  show ?case
  proof (cases "r = []")
    case True
    then have "drop (c + 1) a = EOS # []" using less.prems(3) by simp
    note d = drop_at [OF this]
    have "abspath_loop a t c = Some (a, t)" using d by (subst abspath_loop.simps) simp
    then show ?thesis using True less.prems(1,2) d by simp
  next
    case False
    then have last: "IS_SEPARATOR (last r)" using less.prems(4) by simp
    define w where "w = takeWhile (\<lambda>b. \<not> IS_SEPARATOR b) r"
    have "dropWhile (\<lambda>b. \<not> IS_SEPARATOR b) r \<noteq> []" using last False by (auto simp: dropWhile_eq_Nil_conv)
    then obtain e r' where er: "dropWhile (\<lambda>b. \<not> IS_SEPARATOR b) r = e # r'" by (cases "dropWhile (\<lambda>b. \<not> IS_SEPARATOR b) r") auto
    then have r: "r = w @ e # r'" unfolding w_def by (metis takeWhile_dropWhile_id)
    have e: "IS_SEPARATOR e" using er by (metis dropWhile_eq_Cons_conv)
    have w: "\<forall>b \<in> set w. \<not> IS_SEPARATOR b" by (auto simp: w_def dest: set_takeWhileD)
    have eos: "EOS \<notin> set w" "EOS \<notin> set r'" using less.prems(5) r by auto
    obtain a' t' c' where turn: "abspath_loop a t c = abspath_loop a' t' c'" "kept h a' t' (path_step st w)" "t' \<le> c'"
        "drop (c' + 1) a' = r' @ [EOS]" "length a' = length a"
      using abspath_turn [OF less.prems(1,2) _ e w eos(1)] less.prems(3) r by auto
    have split: "split_path [] r = w # split_path [] r'" using r e split_path_word [OF w, of "[]"] by simp
    have bl: "butlast (split_path [] r) = w # butlast (split_path [] r')" by (simp add: split split_path_nonempty)
    have "length r' < length r" "r' = [] \<or> IS_SEPARATOR (last r')" using r last by (auto split: if_splits)
    from less.hyps [OF this(1) turn(2,3,4) this(2) eos(2)] show ?thesis
      unfolding turn(1) bl by simp
  qed
qed

lemma terminated_join: "ws \<noteq> [] \<Longrightarrow> terminated ws = join_path ws @ [0x2F]"
  by (induction ws rule: join_path.induct) auto

text \<open>What lies between two separators.\<close>

definition part_ok :: "u8 list \<Rightarrow> bool" where
  "part_ok w \<longleftrightarrow> EOS \<notin> set w \<and> (\<forall>b \<in> set w. \<not> IS_SEPARATOR b)"

lemma part_ok_simps [simp]: "part_ok []" "part_ok (w @ [b]) \<longleftrightarrow> part_ok w \<and> b \<noteq> EOS \<and> \<not> IS_SEPARATOR b"
  by (auto simp: part_ok_def)

lemma part_taken: "part_ok w \<Longrightarrow> \<forall>v \<in> set st. name_ok v \<Longrightarrow> \<forall>v \<in> set (path_step st w). name_ok v"
  by (cases st) (simp_all add: path_step_def name_ok_def part_ok_def)

lemma names_taken:
  "\<forall>v \<in> set st. name_ok v \<Longrightarrow> \<forall>w \<in> set ws. part_ok w \<Longrightarrow> \<forall>v \<in> set (foldl path_step st ws). name_ok v"
proof (induction ws arbitrary: st)
  case (Cons w ws)
  then have "\<forall>v \<in> set (path_step st w). name_ok v" by (intro part_taken) simp_all
  from Cons.IH [OF this] show ?case using Cons.prems by simp
qed simp

lemma split_parts: "part_ok w \<Longrightarrow> EOS \<notin> set bs \<Longrightarrow> \<forall>v \<in> set (split_path w bs). part_ok v"
  by (induction w bs rule: split_path.induct) auto

lemma normal_names: "EOS \<notin> set (tl p) \<Longrightarrow> \<forall>w \<in> set (foldl path_step [] (split_path [] (tl p))). name_ok w"
  by (intro names_taken split_parts) simp_all

lemma join_no_eos: "\<forall>w \<in> set ws. EOS \<notin> set w \<Longrightarrow> EOS \<notin> set (join_path ws)"
  by (induction ws rule: join_path.induct) auto

text \<open>Splitting a joined path gives its names back.\<close>

lemma split_join:
  assumes "ws \<noteq> []" "\<forall>w \<in> set ws. name_ok w"
  shows "split_path [] (join_path ws) = ws"
  using assms
proof (induction ws rule: join_path.induct)
  case (2 w)
  have "split_path [] (w @ []) = [w]" using 2 by (subst split_path_word) (auto simp: name_ok_def)
  then show ?case by simp
next
  case (3 w v ws)
  have "split_path [] (w @ 0x2F # join_path (v # ws)) = w # split_path [] (join_path (v # ws))"
    using 3 by (subst split_path_word) (auto simp: name_ok_def)
  then show ?case using 3 by simp
qed simp

lemma taken_again: "\<forall>w \<in> set ws. name_ok w \<Longrightarrow> foldl path_step st ws = rev ws @ st"
  by (induction ws arbitrary: st) (auto simp: path_step_def name_ok_def)

lemma normal_path_again:
  assumes "EOS \<notin> set (tl p)"
  shows "normal_path (normal_path p) = normal_path p"
proof -
  define st where "st = foldl path_step [] (split_path [] (tl p))"
  have ok: "\<forall>w \<in> set (rev st). name_ok w"
    using normal_names [OF assms] by (simp add: st_def)
  show ?thesis
  proof (cases "rev st = []")
    case True
    then show ?thesis by (simp add: normal_path_def st_def path_step_def)
  next
    case False
    then show ?thesis using split_join [OF False ok] taken_again [OF ok, of "[]"]
      by (simp add: normal_path_def st_def)
  qed
qed

lemma abspath_is_normal:
  assumes "p = (if IS_SEPARATOR (hd pathname) then pathname else pwd @ 0x2F # pathname)"
    "pathname \<noteq> []" "EOS \<notin> set pathname" "IS_SEPARATOR (hd pwd)" "pwd \<noteq> []" "EOS \<notin> set pwd"
  shows "abspath pwd pathname = Some (normal_path p)"
proof -
  have p: "p \<noteq> []" "IS_SEPARATOR (hd p)" "EOS \<notin> set (tl p)" "EOS \<notin> set p"
    unfolding assms(1) using assms(2-6) by (cases pathname; cases pwd; simp)+
  define a where "a = p @ [0x2F, EOS]"
  have arr: "abspath_array pwd pathname = Some a"
    using assms(1,2) by (simp add: abspath_array_def a_def hd_append)
  have "kept (hd p) a 0 []" using p(1,2) by (cases p) (simp_all add: kept_def a_def)
  moreover have "drop (0 + 1) a = (tl p @ [0x2F]) @ [EOS]" using p(1) by (cases p) (simp_all add: a_def)
  ultimately obtain a' t where loop: "abspath_loop a 0 0 = Some (a', t)"
      "kept (hd p) a' t (foldl path_step [] (butlast (split_path [] (tl p @ [0x2F]))))" "t + 1 < length a'"
    using abspath_loop_normal [of "hd p" a 0 "[]" 0 "tl p @ [0x2F]"] p(3) by auto
  define st where "st = foldl path_step [] (split_path [] (tl p))"
  have k: "kept (hd p) a' t st" using loop(2) by (simp add: split_path_snoc st_def)
  have names: "\<forall>w \<in> set (rev st). EOS \<notin> set w" using k by (auto simp: kept_def name_ok_def)
  have ne: "hd p \<noteq> EOS" using p(1,4) by (cases p) auto
  have "takeWhile (\<lambda>b. b \<noteq> EOS) (if t > 0 then a'[t := EOS] else a'[t + 1 := EOS]) = hd p # join_path (rev st)"
  proof (cases "rev st = []")
    case True
    then have "length (take (t + 1) a') = 1" "take (t + 1) a' = [hd p]" using k by (simp_all add: kept_def)
    then have t: "t = 0" "take 1 a' = [hd p]" using loop(3) by auto
    then obtain b cs where "a' = hd p # b # cs" using loop(3) by (cases a'; cases "tl a'") auto
    then show ?thesis using True t ne by simp
  next
    case False
    have tk: "take (t + 1) a' = (hd p # join_path (rev st)) @ [0x2F]"
      using k terminated_join [OF False] by (simp add: kept_def)
    from arg_cong [OF this, of length] have t: "t = Suc (length (join_path (rev st)))" using loop(3) by simp
    have "take t (take (t + 1) a') = hd p # join_path (rev st)" using t by (subst tk) simp
    then have "take t a' = hd p # join_path (rev st)" by (simp add: min_absorb1)
    then have "a'[t := EOS] = (hd p # join_path (rev st)) @ EOS # drop (Suc t) a'"
      using loop(3) by (simp add: upd_conv_take_nth_drop)
    moreover have "takeWhile (\<lambda>b. b \<noteq> EOS) ((hd p # join_path (rev st)) @ EOS # drop (Suc t) a') = hd p # join_path (rev st)"
      using join_no_eos [OF names] ne by (subst takeWhile_append2) auto
    ultimately show ?thesis using t by simp
  qed
  moreover have "IS_SEPARATOR (hd a)" using p(1,2) by (simp add: a_def)
  ultimately show ?thesis using arr loop(1) by (simp add: abspath_def normal_path_def st_def)
qed

section \<open>Properties\<close>

text \<open>
  C16. Changing directory resolves a path textually: for a working directory and a path without zero
  bytes, \<open>abspath\<close> ends and returns the normal form of the path, relative ones taken from the working
  directory. The result is a fixed point: it is the normal form of itself from any working directory.
\<close>

theorem abspath_normal_form:
  assumes "pathname \<noteq> []" "EOS \<notin> set pathname" "IS_SEPARATOR (hd pwd)" "pwd \<noteq> []" "EOS \<notin> set pwd"
    "p = (if IS_SEPARATOR (hd pathname) then pathname else pwd @ 0x2F # pathname)"
  shows "abspath pwd pathname = Some (normal_path p) \<and> abspath pwd (normal_path p) = Some (normal_path p)"
proof -
  have p: "IS_SEPARATOR (hd p)" "EOS \<notin> set (tl p)"
    unfolding assms(6) using assms(1-5) by (cases pathname; cases pwd; simp)+
  define st where "st = rev (foldl path_step [] (split_path [] (tl p)))"
  have "\<forall>w \<in> set st. name_ok w"
    using normal_names [OF p(2)] by (simp add: st_def)
  then have "EOS \<notin> set (join_path st)" by (intro join_no_eos) (auto simp: name_ok_def)
  then have n: "normal_path p \<noteq> []" "EOS \<notin> set (normal_path p)" "IS_SEPARATOR (hd (normal_path p))"
    using p(1) by (auto simp: normal_path_def st_def)
  have "abspath pwd (normal_path p) = Some (normal_path (normal_path p))"
    using n assms(3-5) by (intro abspath_is_normal) auto
  then show ?thesis using abspath_is_normal [OF assms(6,1-5)] normal_path_again [OF p(2)] by simp
qed

text \<open>From \<^verbatim>\<open>/d1\<close>: \<^verbatim>\<open>./x//../d2/\<close> is \<^verbatim>\<open>/d1/d2\<close>.\<close>

theorem abspath_normal_form_witness:
  "abspath [0x2F, 0x64, 0x31] [0x2E, 0x2F, 0x78, 0x2F, 0x2F, 0x2E, 0x2E, 0x2F, 0x64, 0x32, 0x2F] = Some [0x2F, 0x64, 0x31, 0x2F, 0x64, 0x32]"
proof -
  let ?pwd = "[0x2F, 0x64, 0x31] :: u8 list" and ?path = "[0x2E, 0x2F, 0x78, 0x2F, 0x2F, 0x2E, 0x2E, 0x2F, 0x64, 0x32, 0x2F] :: u8 list"
  have "abspath ?pwd ?path = Some (normal_path (?pwd @ 0x2F # ?path))"
    using abspath_normal_form [of ?path ?pwd "?pwd @ 0x2F # ?path"] by (simp add: EOS_def IS_SEPARATOR_def)
  moreover have "normal_path (?pwd @ 0x2F # ?path) = [0x2F, 0x64, 0x31, 0x2F, 0x64, 0x32]"
    by (simp add: normal_path_def path_step_def dot_def dotdot_def IS_SEPARATOR_def)
  ultimately show ?thesis by simp
qed

end
