(* ===== verification/Mount.thy ===== *)
theory Mount
  imports Namei Stdlib
begin

text \<open>
  The rest of \<^verbatim>\<open>src/fs/super.c\<close>: mounting and unmounting, making a file system, and the mount of the
  root. Two devices of theory Device are needed by number: the partition of the root file system and
  the RAM disk behind \<^verbatim>\<open>/dev\<close>; they are arguments, as is the number of sectors that \<open>device_ioctl\<close>
  reports.

  Shown: a device that is not a MINIX file system is refused once, and accepted when it is tried again.
\<close>

section \<open>Mounting\<close>

definition clean_mount :: "vfs \<Rightarrow> nat option \<Rightarrow> nat option \<Rightarrow> nat option \<Rightarrow> (u32 \<times> vfs) option" where
  "clean_mount s sb devinode dirinode = do {
     s \<leftarrow> put_super s sb;
     s \<leftarrow> iput s devinode;
     s \<leftarrow> iput s dirinode;
     Some (EOF, s) }"

definition sys_mount :: "vfs \<Rightarrow> u8 list option \<Rightarrow> u8 list option \<Rightarrow> (u32 \<times> vfs) option" where
  "sys_mount s devname dirname = do {
     (p, s) \<leftarrow> namei s devname;
     case p of
       None \<Rightarrow> clean_mount s None None None
     | Some devinode \<Rightarrow> do {
         x \<leftarrow> idesc s devinode;
         if \<not> ISBLK (ucast (d_mode x)) then clean_mount s None p None
         else do {
           let dev = (ucast (d_zone x ! 0) :: u32);
           (q, s) \<leftarrow> namei s dirname;
           case q of
             None \<Rightarrow> clean_mount s None p None
           | Some dirinode \<Rightarrow> do {
               y \<leftarrow> idesc s dirinode;
               v \<leftarrow> aget (inode_table s) dirinode;
               if \<not> ISDIR (ucast (d_mode y)) \<or> icount s dirinode \<noteq> 1 \<or> i_mount v \<noteq> 0
               then clean_mount s None p q
               else do {
                 (m, s) \<leftarrow> read_super s dev;
                 case m of
                   None \<Rightarrow> clean_mount s None p q
                 | Some sb \<Rightarrow> do {
                     b \<leftarrow> aget (super_table s) sb;
                     if s_imount b \<noteq> None then clean_mount s m p q
                     else do {
                       (r, s) \<leftarrow> iget s dev 1;
                       s \<leftarrow> upd_super s sb (\<lambda>b. b\<lparr>s_iroot := Some r, s_imount := q\<rparr>);
                       s \<leftarrow> upd_inode s dirinode (\<lambda>i. i\<lparr>i_mount := dev\<rparr>);
                       s \<leftarrow> iput s p;
                       Some (0, s) } } } } } } }"

definition clean_umount :: "vfs \<Rightarrow> nat option \<Rightarrow> nat option \<Rightarrow> u32 \<Rightarrow> (u32 \<times> vfs) option" where
  "clean_umount s sb inode ret = do { s \<leftarrow> put_super s sb; s \<leftarrow> iput s inode; Some (ret, s) }"

text \<open>\<open>ramdev\<close> is the number of the first RAM disk.\<close>

definition sys_umount :: "u32 \<Rightarrow> vfs \<Rightarrow> u8 list option \<Rightarrow> (u32 \<times> vfs) option" where
  "sys_umount ramdev s target = do {
     (p, s) \<leftarrow> namei s target;
     case p of
       None \<Rightarrow> clean_umount s None None EOF
     | Some inode \<Rightarrow> do {
         x \<leftarrow> idesc s inode;
         v \<leftarrow> aget (inode_table s) inode;
         if \<not> ISBLK (ucast (d_mode x)) \<and> i_nr v \<noteq> 1 then clean_umount s None p EOF
         else do {
           rs \<leftarrow> root_super s;
           rb \<leftarrow> aget (super_table s) rs;
           if s_imount rb = p then clean_umount s None p EOF
           else let dev = (if ISBLK (ucast (d_mode x)) then ucast (d_zone x ! 0) else i_dev v) in
             if ramdev = dev then clean_umount s None p EOF
             else do {
               (m, s) \<leftarrow> get_super s dev;
               sb \<leftarrow> m;
               b \<leftarrow> aget (super_table s) sb;
               case s_imount b of
                 None \<Rightarrow> clean_umount s m p EOF
               | Some d \<Rightarrow>
                   if length (s_inodes b) > 1 then clean_umount s m p EOF
                   else do {
                     s \<leftarrow> iput s (s_iroot b);
                     s \<leftarrow> upd_super s sb (\<lambda>b. b\<lparr>s_iroot := None\<rparr>);
                     s \<leftarrow> upd_inode s d (\<lambda>i. i\<lparr>i_mount := 0\<rparr>);
                     s \<leftarrow> iput s (Some d);
                     s \<leftarrow> upd_super s sb (\<lambda>b. b\<lparr>s_imount := None\<rparr>);
                     s \<leftarrow> put_super s m;
                     clean_umount s m p 0 } } } } }"

text \<open>\<open>device\<close> is the first partition.\<close>

definition mount_root :: "vfs \<Rightarrow> u32 \<Rightarrow> vfs option" where
  "mount_root s device = do {
     (m, s) \<leftarrow> read_super s device;
     let s = s\<lparr>root_super := m\<rparr>;
     sb \<leftarrow> m;
     (r, s) \<leftarrow> iget s device 1;
     s \<leftarrow> upd_super s sb (\<lambda>b. b\<lparr>s_iroot := Some r\<rparr>);
     (d, s) \<leftarrow> iget s device 1;
     s \<leftarrow> upd_super s sb (\<lambda>b. b\<lparr>s_imount := Some d\<rparr>);
     s \<leftarrow> upd_inode s r (\<lambda>i. i\<lparr>i_mount := device\<rparr>);
     Some s }"

definition super_init :: "vfs \<Rightarrow> u32 \<Rightarrow> vfs option" where
  "super_init s device = mount_root (s\<lparr>super_table := map (\<lambda>b. b\<lparr>s_dev := EOF, s_cache := None,
     s_iroot := None, s_imount := None, s_inodes := []\<rparr>) (super_table s)\<rparr>) device"

section \<open>Making a file system\<close>

text \<open>Setting the bits of the last bitmap block from bit \<open>count\<close> on.\<close>

definition tail_byte :: "nat \<Rightarrow> u8" where
  "tail_byte offset = foldl (\<lambda>d i. d OR push_bit (7 - i) 1) 0 [0..<8 - offset mod 8]"

definition fill_tail :: "u8 list \<Rightarrow> u32 \<Rightarrow> u8 list" where
  "fill_tail d count =
     (let offset = unat (count mod BLOCK_BITS); begin = offset div 8
      in take begin d @ tail_byte offset # replicate (unat BLOCK_SIZE - begin - 1) 0xFF)"

text \<open>Reading the bitmap blocks from \<open>idx\<close> on and clearing them.\<close>

fun clear_maps :: "vfs \<Rightarrow> u32 \<Rightarrow> u32 \<Rightarrow> nat \<Rightarrow> (bkey option list \<times> vfs)" where
  "clear_maps s dev idx 0 = ([], s)"
| "clear_maps s dev idx (Suc n) =
     (let (k, s) = buf_bread s dev idx;
          s = set_data (set_dirty s k) k (\<lambda>_. replicate (unat BLOCK_SIZE) 0);
          (ks, s) = clear_maps s dev (idx + 1) n
      in (Some k # ks, s))"

definition root_entries :: "u8 list \<Rightarrow> u16 \<Rightarrow> u8 list" where
  "root_entries d nr =
     (let d = replicate (unat BLOCK_SIZE) 0; d = set_entry_nr (entry_strcpy d 0 dot) 0 nr
      in set_entry_nr (entry_strcpy d 16 dotdot) 16 nr)"

text \<open>
  The numbers written into the super block. A count that does not fit its 16-bit field is truncated, and
  the 32-bit values are used where the code uses them.
\<close>

definition mkfs_desc :: "u32 \<Rightarrow> u32 \<Rightarrow> super_desc \<Rightarrow> (super_desc \<times> u32) option" where
  "mkfs_desc total_block ninodes d = do {
     inode_blocks \<leftarrow> div_round_up (ninodes * sizeof_inode_desc) BLOCK_SIZE;
     ib \<leftarrow> div_round_up ninodes BLOCK_BITS;
     let d = d\<lparr>sd_inodes := ucast ninodes, sd_zones := ucast total_block, sd_imap_blocks := ucast ib\<rparr>;
     let zcount = total_block - FS_IMAP_BLOCK_NR - ucast (sd_imap_blocks d) - inode_blocks;
     zb \<leftarrow> div_round_up zcount BLOCK_BITS;
     let d = d\<lparr>sd_zmap_blocks := ucast zb\<rparr>;
     Some (d\<lparr>sd_firstdatazone := ucast (FS_IMAP_BLOCK_NR + ucast (sd_imap_blocks d) + ucast (sd_zmap_blocks d) + inode_blocks),
             sd_log_zone_size := 0, sd_max_size := BLOCK_SIZE * TOTAL_BLOCKS, sd_magic := MINIX_V1_MAGIC\<rparr>, zcount) }"

definition devmkfs :: "u32 \<Rightarrow> vfs \<Rightarrow> u32 \<Rightarrow> u32 \<Rightarrow> (u32 \<times> vfs) option" where
  "devmkfs sectors s dev ninodes = do {
     (m, s) \<leftarrow> get_super s dev;
     (busy, s) \<leftarrow> (case m of
         None \<Rightarrow> Some (False, s)
       | Some sb \<Rightarrow> do {
           b \<leftarrow> aget (super_table s) sb;
           if s_imount b \<noteq> None then Some (True, s) else do { s \<leftarrow> put_super s m; Some (False, s) } });
     if busy then do { s \<leftarrow> put_super s m; Some (EOF, s) }
     else do {
       let total_block = sectors div ucast BLOCK_SECS;
       kassert (total_block \<noteq> 0);
       kassert (ninodes < total_block);
       let ninodes = (if ninodes = 0 then total_block div 3 else ninodes);
       sb \<leftarrow> get_free_super s;
       let (k, s) = buf_bread s dev 1;
       let s = set_dirty s k;
       s \<leftarrow> upd_super s sb (\<lambda>b. b\<lparr>s_dev := dev, s_count := 1, s_cache := Some k\<rparr>);
       x \<leftarrow> sdesc s sb;
       (x, zcount) \<leftarrow> mkfs_desc total_block ninodes x;
       let s = set_data s k (\<lambda>d. put_super_desc d x);
       let ni = unat (sd_imap_blocks x);
       let nz = unat (sd_zmap_blocks x);
       b \<leftarrow> aget (super_table s) sb;
       kassert (ni \<le> length (s_imaps b));
       kassert (nz \<le> length (s_zmaps b));
       let (imaps, s) = clear_maps s dev FS_IMAP_BLOCK_NR ni;
       let (zmaps, s) = clear_maps s dev (FS_IMAP_BLOCK_NR + of_nat ni) nz;
       s \<leftarrow> upd_super s sb (\<lambda>b. b\<lparr>s_imaps := imaps @ drop ni (s_imaps b), s_zmaps := zmaps @ drop nz (s_zmaps b)\<rparr>);
       (_, s) \<leftarrow> balloc s dev;
       (_, s) \<leftarrow> ialloc s dev;
       (_, s) \<leftarrow> ialloc s dev;
       kassert (0 < ni);
       kassert (0 < nz);
       imap \<leftarrow> last imaps;
       let s = set_data (set_dirty s imap) imap (\<lambda>d. fill_tail d (ninodes + 1));
       zmap \<leftarrow> last zmaps;
       let s = set_data (set_dirty s zmap) zmap (\<lambda>d. fill_tail d zcount);
       t \<leftarrow> get_current (kern_of s);
       (iroot, s) \<leftarrow> new_inode s dev 1;
       s \<leftarrow> upd_super s sb (\<lambda>b. b\<lparr>s_iroot := Some iroot\<rparr>);
       s \<leftarrow> upd_idesc s iroot (\<lambda>x. x\<lparr>d_mode := 0x1FF AND NOT (t_umask t) OR ucast IFDIR,
              d_size := sizeof_dentry * 2, d_nlinks := 2\<rparr>);
       (block, s) \<leftarrow> bmap s iroot 0 True;
       let (k, s) = buf_bread s dev block;
       let s = set_dirty s k;
       v \<leftarrow> aget (inode_table s) iroot;
       let s = set_data s k (\<lambda>d. root_entries d (ucast (i_nr v)));
       s \<leftarrow> buf_brelse s (Some k);
       s \<leftarrow> put_super s (Some sb);
       Some (0, s) } }"

definition sys_mkfs :: "u32 \<Rightarrow> vfs \<Rightarrow> u8 list option \<Rightarrow> u32 \<Rightarrow> (u32 \<times> vfs) option" where
  "sys_mkfs sectors s devname ninodes = do {
     (p, s) \<leftarrow> namei s devname;
     case p of
       None \<Rightarrow> do { s \<leftarrow> iput s p; Some (EOF, s) }
     | Some inode \<Rightarrow> do {
         x \<leftarrow> idesc s inode;
         if \<not> ISBLK (ucast (d_mode x)) then do { s \<leftarrow> iput s p; Some (EOF, s) }
         else do {
           let dev = (ucast (d_zone x ! 0) :: u32);
           kassert (dev \<noteq> 0);
           (ret, s) \<leftarrow> devmkfs sectors s dev ninodes;
           s \<leftarrow> iput s p;
           Some (ret, s) } } }"

section \<open>Properties\<close>

lemma find_Some_first:
  assumes "find P [0..<m] = None" "n < m" "Q n" "\<And>i. i < m \<Longrightarrow> i \<noteq> n \<Longrightarrow> Q i = P i"
  shows "find Q [0..<m] = Some n"
proof -
  have "\<not> Q i" if "i < n" for i using assms that by (auto simp: find_None_iff)
  then show ?thesis using assms(2,3) by (auto simp: find_Some_iff intro: exI [of _ n])
qed

text \<open>
  A device whose block 1 does not have the MINIX magic number is refused by \<open>read_super\<close> only the
  first time: its super block stays in the table, and the next call for the same device, as a second
  \<open>mount\<close> makes it, returns that super block as if it were a file system.
\<close>

lemma read_super_refuses_once:
  assumes "find_super s dev = None" "get_free_super s = Some n"
    "sd_magic (get_super_desc (if b_valid (bufs s (dev, 1)) then data_of s (dev, 1) else disk s (dev, 1))) \<noteq> MINIX_V1_MAGIC"
  shows "\<exists>s1 s2. read_super s dev = Some (None, s1) \<and> read_super s1 dev = Some (Some n, s2) \<and>
     s_count (super_table s2 ! n) = 2"
proof -
  have n: "n < length (super_table s)"
    using assms(2) by (auto simp: get_free_super_def find_super_def find_Some_iff)
  define t where "t = snd (buf_bread s dev 1)"
  define s1 where "s1 = t\<lparr>super_table := (super_table s)[n := (super_table s ! n)\<lparr>s_cache := Some (dev, 1), s_dev := dev, s_count := 1\<rparr>]\<rparr>"
  have t: "buf_bread s dev FS_SUPER_BLOCK_NR = ((dev, 1), t)" "super_table t = super_table s"
    "data_of t (dev, 1) = (if b_valid (bufs s (dev, 1)) then data_of s (dev, 1) else disk s (dev, 1))"
    by (auto simp: t_def buf_bread_def upd_buf_def FS_SUPER_BLOCK_NR_def Let_def)
  have up: "upd_super t n (\<lambda>b. b\<lparr>s_cache := Some (dev, 1), s_dev := dev, s_count := 1\<rparr>) = Some s1"
    using n t(2) by (simp add: upd_super_def s1_def)
  have "sdesc s1 n = Some (get_super_desc (data_of t (dev, 1)))" using n by (simp add: sdesc_def s1_def)
  then have first: "read_super s dev = Some (None, s1)"
    using assms t up by (simp add: read_super_def get_super_def)
  have "find_super s1 dev = Some n"
    using assms(1) n unfolding find_super_def by (intro find_Some_first) (auto simp: s1_def)
  then have "read_super s1 dev = Some (Some n, s1\<lparr>super_table := (super_table s1)[n := (super_table s1 ! n)\<lparr>s_count := s_count (super_table s1 ! n) + 1\<rparr>]\<rparr>)"
    using n by (simp add: read_super_def get_super_def upd_super_def s1_def)
  then show ?thesis using first n by (auto simp: s1_def)
qed

lemma read_super_refuses_once_witness:
  "\<exists>s1 s2. read_super (demo_vfs no_tasks (\<lambda>_. replicate 1024 0)) 5 = Some (None, s1) \<and>
     read_super s1 5 = Some (Some 0, s2) \<and> s_count (super_table s2 ! 0) = 2"
proof (rule read_super_refuses_once)
  let ?s = "demo_vfs no_tasks (\<lambda>_. replicate 1024 0)"
  have tab: "super_table ?s = replicate 16 null_super" by (simp add: demo_vfs_def SUPER_NR_def)
  show "find_super ?s 5 = None"
    by (simp add: find_super_def tab find_None_iff null_super_def EOF_def)
  show "get_free_super ?s = Some 0"
    by (simp add: get_free_super_def find_super_def tab null_super_def upt_conv_Cons del: upt_Suc)
  show "sd_magic (get_super_desc (if b_valid (bufs ?s (5, 1)) then data_of ?s (5, 1) else disk ?s (5, 1))) \<noteq> MINIX_V1_MAGIC"
    by (simp add: demo_vfs_def get_super_desc_def get16_def MINIX_V1_MAGIC_def)
qed

end
