(* ===== verification/Arena.thy ===== *)
theory Arena
  imports Memory Linked_List
begin

text \<open>
  The kernel heap: \<^verbatim>\<open>src/lib/arena.c\<close>.

  A block is a header \<open>arena_t\<close> of 28 bytes followed by its buffer. The headers are a map from
  addresses; the list node in a header, 12 bytes behind its start, is a node of the store of theory
  Linked_List, and new pages come from \<open>alloc_kpage\<close> of theory Memory. A header that a merge has taken into
  the block before it only leaves its list: its bytes stay and can be read, until a \<^verbatim>\<open>memset\<close> or a new
  header writes over one of them. From then on reading it, which
  in the code reads whatever bytes are there, is not a value.
  The nodes of the lists are changed by the list operations alone.

  The calls run one at a time under \<^verbatim>\<open>arena_lock\<close>, a mutex of theory Mutex.
\<close>

section \<open>State\<close>

record arena =
  ar_magic :: u32
  ar_used :: bool
  ar_head :: bool
  ar_back :: addr
  ar_forward :: addr
  ar_length :: u32
  ar_buf :: u32

record heap =
  headers :: "addr \<Rightarrow> arena option"
  list_nodes :: store
  free_blocks :: addr
  used_blocks :: addr
  heap_mm :: mm

definition ARENA_MAGIC :: u32 where "ARENA_MAGIC = 0xA1B2C3"
definition MIN_BLOCK_SIZE :: u32 where "MIN_BLOCK_SIZE = 16"
definition sizeof_arena :: u32 where "sizeof_arena = 28"

text \<open>The address of the member \<open>list\<close>, and back.\<close>

definition list_of :: "addr \<Rightarrow> addr" where "list_of a = a + 12"
definition entry_of :: "addr \<Rightarrow> addr" where "entry_of p = p - 12"

section \<open>Allocation\<close>

text \<open>
  Writing \<open>n\<close> bytes from \<open>p\<close> on, as \<^verbatim>\<open>memset(parena->buf, 0, size)\<close> does: a header that shares a byte with them is destroyed.
  So it is when a new header is put somewhere.
\<close>

definition wipe :: "u32 \<Rightarrow> u32 \<Rightarrow> (addr \<Rightarrow> arena option) \<Rightarrow> addr \<Rightarrow> arena option" where
  "wipe p n h a = (if a - p < n \<or> p - a < sizeof_arena then None else h a)"

definition place :: "addr \<Rightarrow> arena \<Rightarrow> (addr \<Rightarrow> arena option) \<Rightarrow> addr \<Rightarrow> arena option" where
  "place a x h = (wipe a sizeof_arena h)(a \<mapsto> x)"

definition arena_add_new_pages :: "heap \<Rightarrow> u32 \<Rightarrow> heap option" where
  "arena_add_new_pages s sz = do {
     let page_cnt = (sz + sizeof_arena) div PAGE_SIZE + 1;
     (a, m) \<leftarrow> alloc_kpage (heap_mm s) page_cnt;
     let x = \<lparr>ar_magic = ARENA_MAGIC, ar_used = False, ar_head = True, ar_back = NULL, ar_forward = NULL,
       ar_length = PAGE_SIZE * page_cnt - sizeof_arena, ar_buf = a + sizeof_arena\<rparr>;
     h \<leftarrow> list_push (list_nodes s) (free_blocks s) (list_of a);
     Some (s\<lparr>heap_mm := m, headers := place a x (headers s), list_nodes := h\<rparr>) }"

text \<open>The search ends at the first block that is long enough, or at the tail of the list.\<close>

partial_function (option) find_fit :: "heap \<Rightarrow> u32 \<Rightarrow> addr \<Rightarrow> addr option" where
  "find_fit s sz p =
     (if p \<noteq> list_tail (free_blocks s) then do {
        x \<leftarrow> headers s (entry_of p);
        if ar_length x \<ge> sizeof_arena + sz then Some p
        else do { q \<leftarrow> get_next (list_nodes s) p; find_fit s sz q } }
      else Some p)"

partial_function (option) refind :: "heap \<Rightarrow> u32 \<Rightarrow> (addr \<times> heap) option" where
  "refind s sz = do {
     p \<leftarrow> get_next (list_nodes s) (list_head (free_blocks s));
     p \<leftarrow> find_fit s sz p;
     if p = list_tail (free_blocks s) then do { s \<leftarrow> arena_add_new_pages s sz; refind s sz }
     else Some (p, s) }"

text \<open>
  Taking the block of node \<open>p\<close>: what is left over becomes a block of its own if it can hold a header and the
  smallest buffer.
\<close>

definition take_block :: "heap \<Rightarrow> u32 \<Rightarrow> addr \<Rightarrow> (u32 \<times> heap) option" where
  "take_block s sz p = do {
     let a = entry_of p;
     x \<leftarrow> headers s a;
     h \<leftarrow> list_remove (list_nodes s) p;
     h \<leftarrow> list_push h (used_blocks s) p;
     s \<leftarrow> (if ar_length x - sz < sizeof_arena + MIN_BLOCK_SIZE then
            Some (s\<lparr>list_nodes := h, headers := (headers s)(a \<mapsto> x\<lparr>ar_used := True\<rparr>)\<rparr>)
          else do {
            let d = ar_buf x + sz;
            let y = \<lparr>ar_magic = ARENA_MAGIC, ar_used = False, ar_head = False, ar_back = a, ar_forward = ar_forward x,
              ar_length = ar_length x - sz - sizeof_arena, ar_buf = d + sizeof_arena\<rparr>;
            h \<leftarrow> list_push h (free_blocks s) (list_of d);
            Some (s\<lparr>list_nodes := h,
              headers := place d y ((headers s)(a \<mapsto> x\<lparr>ar_used := True, ar_forward := d, ar_length := sz\<rparr>))\<rparr>) });
     Some (ar_buf x, s\<lparr>headers := wipe (ar_buf x) sz (headers s)\<rparr>) }"

definition kmalloc :: "heap \<Rightarrow> u32 \<Rightarrow> (u32 \<times> heap) option" where
  "kmalloc s sz =
     (if sz = 0 then Some (NULL, s)
      else do {
        let sz = (if sz \<ge> MIN_BLOCK_SIZE then sz else MIN_BLOCK_SIZE);
        e \<leftarrow> list_empty (list_nodes s) (free_blocks s);
        s \<leftarrow> (if e then arena_add_new_pages s sz else Some s);
        (p, s) \<leftarrow> refind s sz;
        take_block s sz p })"

section \<open>Release\<close>

text \<open>Back to the first block that is free, and the merge with the free blocks behind it.\<close>

partial_function (option) walk_back :: "heap \<Rightarrow> addr \<Rightarrow> addr option" where
  "walk_back s a = do {
     x \<leftarrow> headers s a;
     if ar_back x \<noteq> NULL then do {
       y \<leftarrow> headers s (ar_back x);
       if \<not> ar_used y then walk_back s (ar_back x) else Some a }
     else Some a }"

partial_function (option) merge_forward :: "heap \<Rightarrow> addr \<Rightarrow> heap option" where
  "merge_forward s a = do {
     x \<leftarrow> headers s a;
     if ar_forward x \<noteq> NULL then do {
       y \<leftarrow> headers s (ar_forward x);
       if \<not> ar_used y then do {
         h \<leftarrow> list_remove (list_nodes s) (list_of (ar_forward x));
         merge_forward (s\<lparr>list_nodes := h,
           headers := (headers s)(a \<mapsto> x\<lparr>ar_length := ar_length x + (ar_length y + sizeof_arena), ar_forward := ar_forward y\<rparr>)\<rparr>) a }
       else Some s }
     else Some s }"

definition kfree :: "heap \<Rightarrow> u32 \<Rightarrow> heap option" where
  "kfree s ptr =
     (if ptr = NULL then Some s
      else do {
        let a = ptr - sizeof_arena;
        x \<leftarrow> headers s a;
        _ \<leftarrow> (if ar_forward x \<noteq> NULL then do { y \<leftarrow> headers s (ar_forward x); kassert (ar_magic y = ARENA_MAGIC) }
            else Some ());
        found \<leftarrow> list_search (list_nodes s) (used_blocks s) (list_of a);
        kassert found;
        h \<leftarrow> list_remove (list_nodes s) (list_of a);
        h \<leftarrow> list_push h (free_blocks s) (list_of a);
        let s = s\<lparr>list_nodes := h, headers := (headers s)(a \<mapsto> x\<lparr>ar_used := False\<rparr>)\<rparr>;
        a \<leftarrow> walk_back s a;
        merge_forward s a })"

definition aerna_init :: "heap \<Rightarrow> heap option" where
  "aerna_init s = do {
     h \<leftarrow> list_init (list_nodes s) (free_blocks s);
     h \<leftarrow> list_init h (used_blocks s);
     Some (s\<lparr>list_nodes := h\<rparr>) }"


section \<open>The two lists\<close>

lemma list_of_entry [simp]: "entry_of (list_of a) = a" "list_of a = list_of b \<longleftrightarrow> a = b"
  by (simp_all add: entry_of_def list_of_def)

lemma remove1_map_list_of: "remove1 (list_of a) (map list_of xs) = map list_of (remove1 a xs)"
  by (induction xs) simp_all

lemma set_map_list_of: "list_of a \<in> set (map list_of xs) \<longleftrightarrow> a \<in> set xs"
  by auto

definition lists_ok :: "store \<Rightarrow> addr \<Rightarrow> addr \<Rightarrow> addr list \<Rightarrow> addr list \<Rightarrow> bool" where
  "lists_ok h f u fs us \<longleftrightarrow> dlist h f (map list_of fs) \<and> dlist h u (map list_of us) \<and>
     set (dnodes f (map list_of fs)) \<inter> set (dnodes u (map list_of us)) = {}"

text \<open>A node that is not one of the four ends of the lists.\<close>

definition no_end :: "addr \<Rightarrow> addr \<Rightarrow> addr \<Rightarrow> bool" where
  "no_end f u n \<longleftrightarrow> n \<noteq> NULL \<and> n \<notin> {list_head f, list_tail f, list_head u, list_tail u}"

lemma lists_ok_swap: "lists_ok h f u fs us \<Longrightarrow> lists_ok h u f us fs"
  by (auto simp: lists_ok_def)

lemma lists_ok_distinct:
  assumes "lists_ok h f u fs us"
  shows "distinct fs" "distinct us" "set fs \<inter> set us = {}"
  using assms by (auto simp: lists_ok_def dlist_def dnodes_def distinct_map)

lemma lists_no_end:
  assumes "lists_ok h f u fs us" "a \<in> set fs"
  shows "no_end f u (list_of a)"
proof -
  define n where "n = list_of a"
  define xs where "xs = map list_of fs"
  have n: "n \<in> set xs" using assms(2) by (simp add: n_def xs_def)
  have d: "distinct (dnodes f xs)" "NULL \<notin> set (dnodes f xs)" "set (dnodes f xs) \<inter> set (dnodes u (map list_of us)) = {}"
    using assms(1) by (simp_all add: lists_ok_def dlist_def xs_def)
  have "n \<noteq> list_head f" "n \<noteq> list_tail f" "n \<noteq> NULL" using n d(1,2) by (auto simp: dnodes_def)
  moreover have "{list_head u, list_tail u} \<subseteq> set (dnodes u (map list_of us))" "n \<in> set (dnodes f xs)"
    using n by (auto simp: dnodes_def)
  then have "n \<noteq> list_head u" "n \<noteq> list_tail u" using d(3) by blast+
  ultimately show ?thesis by (simp add: no_end_def n_def)
qed

text \<open>A node outside the two lists, which changes of the lists leave alone.\<close>

definition outside :: "addr \<Rightarrow> addr \<Rightarrow> addr set \<Rightarrow> addr \<Rightarrow> bool" where
  "outside f u B n \<longleftrightarrow> no_end f u n \<and> n \<notin> list_of ` B"

lemma outside_dnodes: "outside f u B n \<Longrightarrow> set fs \<subseteq> B \<Longrightarrow> n \<notin> set (dnodes f (map list_of fs))"
  by (auto simp: outside_def no_end_def dnodes_def)

lemma outside_mono: "outside f u B n \<Longrightarrow> A \<subseteq> B \<Longrightarrow> outside f u A n" "outside f u B n = outside u f B n"
  by (auto simp: outside_def no_end_def)

lemma lists_push:
  assumes "lists_ok h f u fs us" "a \<notin> set fs" "a \<notin> set us" "no_end f u (list_of a)"
  shows "\<exists>h'. list_push h f (list_of a) = Some h' \<and> lists_ok h' f u (a # fs) us \<and>
     (\<forall>n. outside f u (insert a (set fs)) n \<longrightarrow> h' n = h n)"
proof -
  have n: "list_of a \<notin> set (dnodes f (map list_of fs))" "list_of a \<notin> set (dnodes u (map list_of us))" "list_of a \<noteq> NULL"
    using assms(2-4) by (auto simp: dnodes_def no_end_def)
  obtain h' where h': "list_push h f (list_of a) = Some h'" "dlist h' f (list_of a # map list_of fs)"
      "\<forall>x. x \<noteq> list_of a \<and> x \<notin> set (dnodes f (map list_of fs)) \<longrightarrow> h' x = h x"
    using list_push_spec [of h f "map list_of fs" "list_of a"] assms(1) n by (auto simp: lists_ok_def)
  have "h' x = h x" if "x \<in> set (dnodes u (map list_of us))" for x
  proof -
    have "x \<noteq> list_of a" "x \<notin> set (dnodes f (map list_of fs))" using that n(2) assms(1) by (auto simp: lists_ok_def)
    then show ?thesis using h'(3) by blast
  qed
  then have "dlist h' u (map list_of us)" using assms(1) by (auto simp: lists_ok_def intro: dlist_frame)
  moreover have "\<forall>n. outside f u (insert a (set fs)) n \<longrightarrow> h' n = h n"
    using h'(3) outside_dnodes [of f u "insert a (set fs)" _ fs] by (auto simp: outside_def)
  ultimately show ?thesis using h'(1,2) assms(1) n by (auto simp: lists_ok_def dnodes_def)
qed

lemma lists_remove:
  assumes "lists_ok h f u fs us" "a \<in> set fs"
  shows "\<exists>h'. list_remove h (list_of a) = Some h' \<and> lists_ok h' f u (remove1 a fs) us \<and> unlinked h' (list_of a) \<and>
     (\<forall>n. outside f u (set fs) n \<longrightarrow> h' n = h n)"
proof -
  have d: "dlist h f (map list_of fs)" "dlist h u (map list_of us)"
    "set (dnodes f (map list_of fs)) \<inter> set (dnodes u (map list_of us)) = {}"
    using assms by (auto simp: lists_ok_def)
  obtain as bs where fs: "fs = as @ a # bs" "a \<notin> set as" using assms(2) by (meson split_list_first)
  obtain h' where h': "list_remove h (list_of a) = Some h'" "dlist h' f (map list_of as @ map list_of bs)" "unlinked h' (list_of a)"
      "\<forall>x. x \<notin> set (dnodes f (map list_of fs)) \<longrightarrow> h' x = h x"
    using list_remove_spec [of h f "map list_of as" "list_of a" "map list_of bs"] d(1) fs(1) by auto
  have "h' x = h x" if "x \<in> set (dnodes u (map list_of us))" for x using that d(3) h'(4) by blast
  then have du: "dlist h' u (map list_of us)" by (rule dlist_frame [OF d(2)])
  have r: "remove1 a fs = as @ bs" using fs by (simp add: remove1_append)
  have "set (dnodes f (map list_of (remove1 a fs))) \<subseteq> set (dnodes f (map list_of fs))"
    using set_remove1_subset [of a fs] by (auto simp: dnodes_def)
  moreover have "\<forall>n. outside f u (set fs) n \<longrightarrow> h' n = h n" using h'(4) outside_dnodes by blast
  ultimately show ?thesis using h'(1-3) d(3) du r by (auto simp: lists_ok_def)
qed

lemma lists_move:
  assumes "lists_ok h f u fs us" "a \<in> set fs"
  shows "\<exists>h1 h2. list_remove h (list_of a) = Some h1 \<and> list_push h1 u (list_of a) = Some h2 \<and>
     lists_ok h2 f u (remove1 a fs) (a # us) \<and> (\<forall>n. outside f u (set fs \<union> set us) n \<longrightarrow> h2 n = h n)"
proof -
  obtain h1 where h1: "list_remove h (list_of a) = Some h1" "lists_ok h1 f u (remove1 a fs) us"
      "\<forall>n. outside f u (set fs) n \<longrightarrow> h1 n = h n"
    using lists_remove [OF assms] by blast
  note ok = lists_ok_distinct [OF assms(1)]
  have "a \<notin> set us" "a \<notin> set (remove1 a fs)" using ok(1,3) assms(2) by auto
  moreover have "no_end u f (list_of a)" using lists_no_end [OF assms] by (auto simp: no_end_def)
  ultimately obtain h2 where h2: "list_push h1 u (list_of a) = Some h2" "lists_ok h2 u f (a # us) (remove1 a fs)"
      "\<forall>n. outside u f (insert a (set us)) n \<longrightarrow> h2 n = h1 n"
    using lists_push [OF lists_ok_swap [OF h1(2)]] by blast
  have "h2 n = h n" if "outside f u (set fs \<union> set us) n" for n
  proof -
    have "outside f u (set fs) n" "outside u f (insert a (set us)) n"
      using that assms(2) outside_mono(1) [OF that] outside_mono(2) [of u f] by auto
    then show ?thesis using h1(3) h2(3) by simp
  qed
  then show ?thesis using h1(1) h2(1,2) lists_ok_swap by blast
qed

lemma lists_search: "lists_ok h f u fs us \<Longrightarrow> list_search h u (list_of a) = Some (a \<in> set us)"
  using list_search_spec [of h u "map list_of us" "list_of a"] by (auto simp: lists_ok_def)

text \<open>The walk of \<open>find_fit\<close> over the rest of the free list.\<close>

definition fits :: "heap \<Rightarrow> u32 \<Rightarrow> addr \<Rightarrow> bool" where
  "fits s sz a = (case headers s a of None \<Rightarrow> False | Some x \<Rightarrow> ar_length x \<ge> sizeof_arena + sz)"

lemma find_fit_walk:
  "linked (list_nodes s) (map list_of as @ [list_tail (free_blocks s)]) \<Longrightarrow>
   distinct (map list_of as @ [list_tail (free_blocks s)]) \<Longrightarrow> NULL \<notin> set (map list_of as) \<Longrightarrow>
   \<forall>a \<in> set as. headers s a \<noteq> None \<Longrightarrow>
   find_fit s sz (hd (map list_of as @ [list_tail (free_blocks s)])) =
     Some (case find (fits s sz) as of None \<Rightarrow> list_tail (free_blocks s) | Some a \<Rightarrow> list_of a)"
proof (induction as)
  case Nil
  then show ?case by (subst find_fit.simps) simp
next
  case (Cons a as)
  obtain x where x: "headers s a = Some x" using Cons.prems(4) by auto
  have ne: "list_of a \<noteq> list_tail (free_blocks s)" "list_of a \<noteq> NULL" using Cons.prems(2,3) by auto
  have nx: "next (list_nodes s (list_of a)) = hd (map list_of as @ [list_tail (free_blocks s)])"
    using Cons.prems(1) by (cases as) auto
  have "linked (list_nodes s) (map list_of as @ [list_tail (free_blocks s)])" using Cons.prems(1) by (cases as) auto
  moreover have "fits s sz a \<longleftrightarrow> ar_length x \<ge> sizeof_arena + sz" using x by (simp add: fits_def)
  ultimately show ?case using Cons.IH Cons.prems x ne nx
    by (subst find_fit.simps) (simp add: get_next_def)
qed


section \<open>A well-formed heap\<close>

definition heap_base :: nat where "heap_base = 0xC0100000"
definition heap_top :: nat where "heap_top = 0xC1000000"

text \<open>The bytes of a block, header included; they lie in pages that are marked as used.\<close>

definition span :: "addr \<Rightarrow> arena \<Rightarrow> nat set" where
  "span a x = {unat a..<unat a + 28 + unat (ar_length x)}"

definition in_used_pages :: "mm \<Rightarrow> nat set \<Rightarrow> bool" where
  "in_used_pages m B \<longleftrightarrow> (\<forall>b \<in> B. b div 4096 - 0xC0100 \<in> bm_used (kernel_map m))"

definition block_ok :: "mm \<Rightarrow> addr \<Rightarrow> arena \<Rightarrow> bool" where
  "block_ok m a x \<longleftrightarrow> ar_magic x = ARENA_MAGIC \<and> ar_buf x = a + sizeof_arena \<and> heap_base \<le> unat a \<and>
     unat a + 28 + unat (ar_length x) \<le> heap_top \<and> in_used_pages m (span a x)"

definition forward_ok :: "(addr \<Rightarrow> arena option) \<Rightarrow> addr \<Rightarrow> arena \<Rightarrow> bool" where
  "forward_ok h a x \<longleftrightarrow> ar_forward x = NULL \<or>
     h (ar_forward x) \<noteq> None \<and> unat (ar_forward x) = unat a + 28 + unat (ar_length x)"

definition blocks_ok :: "mm \<Rightarrow> (addr \<Rightarrow> arena option) \<Rightarrow> addr set \<Rightarrow> addr set \<Rightarrow> bool" where
  "blocks_ok m h F U \<longleftrightarrow> dom h = F \<union> U \<and>
     (\<forall>a x. h a = Some x \<longrightarrow> block_ok m a x \<and> (ar_used x \<longleftrightarrow> a \<in> U) \<and> forward_ok h a x) \<and>
     (\<forall>a x b y. h a = Some x \<longrightarrow> h b = Some y \<longrightarrow> a \<noteq> b \<longrightarrow> span a x \<inter> span b y = {})"

text \<open>The headers of the blocks in the two lists; all others are left over from merges.\<close>

definition live :: "heap \<Rightarrow> addr list \<Rightarrow> addr list \<Rightarrow> addr \<Rightarrow> arena option" where
  "live s fs us = headers s |` (set fs \<union> set us)"

definition heap_ok :: "heap \<Rightarrow> addr list \<Rightarrow> addr list \<Rightarrow> bool" where
  "heap_ok s fs us \<longleftrightarrow> mm_inv (heap_mm s) \<and> lists_ok (list_nodes s) (free_blocks s) (used_blocks s) fs us \<and>
     blocks_ok (heap_mm s) (live s fs us) (set fs) (set us) \<and>
     unat (free_blocks s) + 16 \<le> heap_base \<and> unat (used_blocks s) + 16 \<le> heap_base"

lemma live_at: "a \<in> set fs \<or> a \<in> set us \<Longrightarrow> live s fs us a = headers s a"
  by (auto simp: live_def)

lemma live_Some: "live s fs us a = Some x \<longleftrightarrow> (a \<in> set fs \<or> a \<in> set us) \<and> headers s a = Some x"
  by (auto simp: live_def restrict_map_def)

lemma wipe_restrict: "wipe p n h |` B = wipe p n (h |` B)"
  by (auto simp: wipe_def restrict_map_def fun_eq_iff)

lemma place_restrict: "a \<in> B \<Longrightarrow> place a x h |` B = place a x (h |` (B - {a}))"
  by (auto simp: place_def wipe_def restrict_map_def fun_eq_iff)

lemma blocks_okD:
  assumes "blocks_ok m h F U" "h a = Some x"
  shows "block_ok m a x" "ar_used x \<longleftrightarrow> a \<in> U" "forward_ok h a x" "a \<in> F \<union> U"
  using assms by (auto simp: blocks_ok_def)

lemma blocks_ok_disjoint: "blocks_ok m h F U \<Longrightarrow> h a = Some x \<Longrightarrow> h b = Some y \<Longrightarrow> a \<noteq> b \<Longrightarrow> span a x \<inter> span b y = {}"
  by (auto simp: blocks_ok_def)

lemma blocks_ok_live: "blocks_ok m h F U \<Longrightarrow> a \<in> F \<union> U \<Longrightarrow> \<exists>x. h a = Some x"
  by (auto simp: blocks_ok_def)

lemma in_used_pages_mono: "in_used_pages m B \<Longrightarrow> A \<subseteq> B \<Longrightarrow> in_used_pages m A"
  by (auto simp: in_used_pages_def)

lemma high_no_end:
  assumes "unat f + 16 \<le> heap_base" "unat u + 16 \<le> heap_base" "heap_base \<le> unat a" "unat a + 28 \<le> heap_top"
  shows "no_end f u (list_of a)"
proof -
  have l: "unat (list_of a) = unat a + 12"
    unfolding list_of_def using assms(4) by (subst unat_plus_less) (simp_all add: heap_top_def)
  have t: "unat (list_tail f) = unat f + 8" "unat (list_tail u) = unat u + 8"
    using assms(1,2) by (subst unat_plus_less; simp add: heap_base_def)+
  show ?thesis using assms l t by (auto simp: no_end_def heap_base_def)
qed

lemma unat_kpage_vaddr:
  assumes "st + n \<le> 3840" "0 < n" shows "unat (kpage_vaddr st) = (0xC0100 + st) * 4096"
proof -
  have "unat (0xC0100 + of_nat st :: u32) = 0xC0100 + st" using assms by (subst unat_plus_less) simp_all
  then show ?thesis using assms by (simp add: kpage_vaddr_def PAGE_def push_bit_eq_mult unat_word_ariths)
qed

lemma blocks_ok_add:
  assumes bl: "blocks_ok m h F U" and keep: "\<And>b y. h b = Some y \<Longrightarrow> block_ok m' b y" and new: "h a = None"
    and x: "block_ok m' a x" "ar_used x \<longleftrightarrow> a \<in> U" "ar_forward x = NULL" and dis: "\<And>b y. h b = Some y \<Longrightarrow> span a x \<inter> span b y = {}"
  shows "blocks_ok m' (h(a \<mapsto> x)) (insert a F) U"
  unfolding blocks_ok_def
proof (intro conjI allI impI)
  show "dom (h(a \<mapsto> x)) = insert a F \<union> U" using bl by (auto simp: blocks_ok_def)
next
  fix b y assume b: "(h(a \<mapsto> x)) b = Some y"
  then show "block_ok m' b y" "ar_used y \<longleftrightarrow> b \<in> U" using x keep blocks_okD(2) [OF bl] by (auto split: if_splits)
  show "forward_ok (h(a \<mapsto> x)) b y" using b blocks_okD(3) [OF bl, of b y] x(3) by (auto simp: forward_ok_def split: if_splits)
next
  fix b y d z assume "(h(a \<mapsto> x)) b = Some y" "(h(a \<mapsto> x)) d = Some z" "b \<noteq> d"
  then show "span b y \<inter> span d z = {}"
    using dis [of b y] dis [of d z] blocks_ok_disjoint [OF bl, of b y d z] by (cases "b = a"; cases "d = a") (simp_all add: Int_commute)
qed

text \<open>Writing where no header lies hits none.\<close>

lemma wipe_keeps:
  assumes p: "heap_base \<le> unat p" "unat p + unat n \<le> heap_top" "0 < unat n"
    and h: "\<And>b y. h b = Some y \<Longrightarrow> heap_base \<le> unat b \<and> unat b + 28 \<le> heap_top \<and> {unat b..<unat b + 28} \<inter> {unat p..<unat p + unat n} = {}"
  shows "wipe p n h = h"
proof (rule ext)
  fix b
  show "wipe p n h b = h b"
  proof (cases "h b")
    case (Some y)
    note hb = h [OF Some]
    have sub: "unat (v - w) = (if unat w \<le> unat v then unat v - unat w else unat v + 2 ^ 32 - unat w)" for v w :: u32
      using unat_lt2p [of w] unat_lt2p [of v] by (simp add: unat_sub_if')
    have "\<not> b - p < n"
    proof
      assume "b - p < n"
      then have l: "unat (b - p) < unat n" by (simp add: word_less_nat_alt)
      show False
      proof (cases "unat p \<le> unat b")
        case True
        then have "unat b \<in> {unat b..<unat b + 28} \<inter> {unat p..<unat p + unat n}" using l sub by auto
        then show False using hb by blast
      next
        case False
        then show False using l sub [of b p] p hb by (simp add: heap_base_def heap_top_def)
      qed
    qed
    moreover have "\<not> p - b < sizeof_arena"
    proof
      assume "p - b < sizeof_arena"
      then have l: "unat (p - b) < 28" by (simp add: word_less_nat_alt sizeof_arena_def)
      show False
      proof (cases "unat b \<le> unat p")
        case True
        then have "unat p \<in> {unat b..<unat b + 28} \<inter> {unat p..<unat p + unat n}" using l sub p(3) by auto
        then show False using hb by blast
      next
        case False
        then show False using l sub [of p b] p hb by (simp add: heap_base_def heap_top_def)
      qed
    qed
    ultimately show ?thesis by (simp add: wipe_def)
  qed (simp add: wipe_def)
qed

lemma head_apart:
  assumes "span a x \<inter> span b y = {}" "block_ok m b y"
  shows "heap_base \<le> unat b \<and> unat b + 28 \<le> heap_top \<and> {unat b..<unat b + 28} \<inter> {unat a..<unat a + 28} = {}"
proof -
  have "{unat b..<unat b + 28} \<subseteq> span b y" "{unat a..<unat a + 28} \<subseteq> span a x" by (auto simp: span_def)
  then have "{unat b..<unat b + 28} \<inter> {unat a..<unat a + 28} = {}" using assms(1) by blast
  then show ?thesis using assms(2) by (simp add: block_ok_def)
qed

lemma place_keeps:
  assumes a: "heap_base \<le> unat a" "unat a + 28 \<le> heap_top"
    and h: "\<And>b y. h b = Some y \<Longrightarrow> heap_base \<le> unat b \<and> unat b + 28 \<le> heap_top \<and> {unat b..<unat b + 28} \<inter> {unat a..<unat a + 28} = {}"
  shows "place a x h = h(a \<mapsto> x)"
  using wipe_keeps [of a sizeof_arena h] assms by (simp add: place_def sizeof_arena_def)

text \<open>New pages are a new free block at the front of the free list.\<close>

definition new_pages :: "u32 \<Rightarrow> nat" where "new_pages sz = (unat sz + 28) div 4096 + 1"

lemma arena_add_new_pages_spec:
  assumes ok: "heap_ok s fs us" and run: "free_run (kernel_map (heap_mm s)) (new_pages sz) s0" and sz: "unat sz \<le> 0xF00000"
  shows "\<exists>a x s'. arena_add_new_pages s sz = Some s' \<and> heap_ok s' (a # fs) us \<and> live s fs us a = None \<and>
     live s' (a # fs) us = (live s fs us)(a \<mapsto> x) \<and> headers s' a = Some x \<and>
     unat (ar_length x) = 4096 * new_pages sz - 28 \<and> unat (free_pages (heap_mm s')) < unat (free_pages (heap_mm s)) \<and>
     free_blocks s' = free_blocks s \<and> used_blocks s' = used_blocks s \<and> ar_back x = NULL \<and> ar_forward x = NULL"
proof -
  let ?L = "live s fs us"
  let ?c = "(sz + sizeof_arena) div PAGE_SIZE + 1"
  have "unat (sz + sizeof_arena) = unat sz + 28" using sz by (subst unat_plus_less) (simp_all add: sizeof_arena_def)
  then have q: "unat ((sz + sizeof_arena) div PAGE_SIZE) = (unat sz + 28) div 4096" by (simp add: unat_div PAGE_SIZE_def)
  moreover have "(unat sz + 28) div 4096 \<le> 0xF00" using sz by simp
  ultimately have c: "unat ?c = new_pages sz" "new_pages sz \<le> 0xF01" "0 < new_pages sz"
    by (subst unat_plus_less, simp_all add: new_pages_def)
  have inv: "mm_inv (heap_mm s)" using ok by (simp add: heap_ok_def)
  obtain st m where a: "alloc_kpage (heap_mm s) ?c = Some (kpage_vaddr st, m)" "mm_inv m"
      "free_run (kernel_map (heap_mm s)) (new_pages sz) st" "st + new_pages sz \<le> 3840"
      "\<forall>j. mem_map m ! j = (if st + 256 \<le> j \<and> j < st + 256 + new_pages sz then 1 else mem_map (heap_mm s) ! j)"
      "unat (free_pages (heap_mm s)) = unat (free_pages m) + new_pages sz"
    using alloc_kpage_spec [OF inv, of ?c s0] run c by auto
  let ?a = "kpage_vaddr st"
  have ua: "unat ?a = (0xC0100 + st) * 4096" by (rule unat_kpage_vaddr [OF a(4) c(3)])
  let ?x = "\<lparr>ar_magic = ARENA_MAGIC, ar_used = False, ar_head = True, ar_back = NULL, ar_forward = NULL,
       ar_length = PAGE_SIZE * ?c - sizeof_arena, ar_buf = ?a + sizeof_arena\<rparr>"
  have "unat (PAGE_SIZE * ?c) = 4096 * new_pages sz"
    using c by (simp add: unat_mult_lem [THEN iffD1] unat_word_ariths PAGE_SIZE_def)
  moreover have "sizeof_arena \<le> PAGE_SIZE * ?c" using calculation c(3) by (simp add: word_le_nat_alt sizeof_arena_def)
  ultimately have len: "unat (ar_length ?x) = 4096 * new_pages sz - 28" by (simp add: unat_sub sizeof_arena_def)
  have used: "bm_used (kernel_map m) = bm_used (kernel_map (heap_mm s)) \<union> {st..<st + new_pages sz}"
    using inv a(2,4,5) by (auto simp: mm_inv_def kmap_bits_ok_def)
  have pages: "b div 4096 - 0xC0100 \<in> {st..<st + new_pages sz}" if "b \<in> span ?a ?x" for b
  proof -
    have "(0xC0100 + st) * 4096 \<le> b" "b < (0xC0100 + st + new_pages sz) * 4096" using that ua len c(3) by (auto simp: span_def)
    then have "0xC0100 + st \<le> b div 4096" "b div 4096 < 0xC0100 + st + new_pages sz"
      by (simp_all add: less_eq_div_iff_mult_less_eq div_less_iff_less_mult)
    then show ?thesis by auto
  qed
  have bl: "blocks_ok (heap_mm s) ?L (set fs) (set us)" using ok by (simp add: heap_ok_def)
  have dis: "span ?a ?x \<inter> span b y = {}" if "?L b = Some y" for b y
    using blocks_okD(1) [OF bl that] pages a(3) by (fastforce simp: block_ok_def in_used_pages_def free_run_def)
  have new: "?L ?a = None"
  proof (rule ccontr)
    assume "?L ?a \<noteq> None"
    then obtain y where y: "?L ?a = Some y" by blast
    moreover have "unat ?a \<in> span ?a ?x" "unat ?a \<in> span ?a y" by (simp_all add: span_def)
    ultimately show False using dis by blast
  qed
  have "unat ?a + 28 + unat (ar_length ?x) \<le> heap_top" using ua len a(4) c(3) by (simp add: heap_top_def)
  then have bok: "block_ok m ?a ?x" using ua pages used by (auto simp: block_ok_def heap_base_def in_used_pages_def)
  have keep: "block_ok m b y" if "?L b = Some y" for b y
    using blocks_okD(1) [OF bl that] used by (auto simp: block_ok_def in_used_pages_def)
  have notin: "?a \<notin> set fs" "?a \<notin> set us" using new bl by (auto simp: blocks_ok_def)
  have lk: "lists_ok (list_nodes s) (free_blocks s) (used_blocks s) fs us" using ok by (simp add: heap_ok_def)
  have ne: "no_end (free_blocks s) (used_blocks s) (list_of ?a)"
    using ok bok by (intro high_no_end) (simp_all add: heap_ok_def block_ok_def)
  obtain h where h: "list_push (list_nodes s) (free_blocks s) (list_of ?a) = Some h"
      "lists_ok h (free_blocks s) (used_blocks s) (?a # fs) us"
    using lists_push [OF lk notin ne] by blast
  let ?h = "place ?a ?x (headers s)"
  have "ar_used ?x \<longleftrightarrow> ?a \<in> set us" "ar_forward ?x = NULL" using notin by simp_all
  from blocks_ok_add [OF bl keep new bok this dis] have b2: "blocks_ok m (?L(?a \<mapsto> ?x)) (set (?a # fs)) (set us)" by simp
  have "place ?a ?x ?L = ?L(?a \<mapsto> ?x)"
  proof (rule place_keeps)
    fix b y assume b: "?L b = Some y"
    show "heap_base \<le> unat b \<and> unat b + 28 \<le> heap_top \<and> {unat b..<unat b + 28} \<inter> {unat ?a..<unat ?a + 28} = {}"
      by (rule head_apart [OF dis [OF b] blocks_okD(1) [OF bl b]])
  qed (use bok in \<open>simp_all add: block_ok_def\<close>)
  moreover have "?h |` (set (?a # fs) \<union> set us) = place ?a ?x ?L"
    using notin by (subst place_restrict) (auto simp: live_def intro: arg_cong [of _ _ "place ?a ?x"])
  ultimately have lv: "?h |` (set (?a # fs) \<union> set us) = ?L(?a \<mapsto> ?x)" by simp
  have ha: "?h ?a = Some ?x" by (simp add: place_def)
  show ?thesis using ok a(1,2,6) h new len c(3) b2 lv ha
    by (intro exI [of _ ?a] exI [of _ ?x] exI [of _ "s\<lparr>heap_mm := m, headers := ?h, list_nodes := h\<rparr>"])
      (simp add: arena_add_new_pages_def heap_ok_def Let_def live_def [of "_\<lparr>list_nodes := _\<rparr>"])
qed


lemma blocks_ok_take:
  assumes bl: "blocks_ok m h F U" and x: "h a = Some x"
  shows "blocks_ok m (h(a \<mapsto> x\<lparr>ar_used := True\<rparr>)) (F - {a}) (insert a U)"
  unfolding blocks_ok_def
proof (intro conjI allI impI)
  show "dom (h(a \<mapsto> x\<lparr>ar_used := True\<rparr>)) = F - {a} \<union> insert a U" using bl x by (auto simp: blocks_ok_def)
next
  fix b y assume b: "(h(a \<mapsto> x\<lparr>ar_used := True\<rparr>)) b = Some y"
  then show "block_ok m b y" "ar_used y \<longleftrightarrow> b \<in> insert a U" using blocks_okD(1,2) [OF bl] x
    by (auto simp: block_ok_def span_def split: if_splits)
  show "forward_ok (h(a \<mapsto> x\<lparr>ar_used := True\<rparr>)) b y" using b blocks_okD(3) [OF bl] x by (fastforce simp: forward_ok_def split: if_splits)
next
  fix b y d z assume "(h(a \<mapsto> x\<lparr>ar_used := True\<rparr>)) b = Some y" "(h(a \<mapsto> x\<lparr>ar_used := True\<rparr>)) d = Some z" "b \<noteq> d"
  then show "span b y \<inter> span d z = {}" using x blocks_ok_disjoint [OF bl, of b _ d]
    by (cases "b = a"; cases "d = a") (auto simp: span_def)
qed

lemma blocks_ok_split:
  assumes bl: "blocks_ok m h F U" and a: "h a = Some x" and room: "sz \<le> ar_length x" "44 \<le> unat (ar_length x - sz)"
    and d: "d = ar_buf x + sz" and y: "ar_magic y = ARENA_MAGIC" "\<not> ar_used y" "ar_forward y = ar_forward x" "ar_length y = ar_length x - sz - sizeof_arena"
      "ar_buf y = d + sizeof_arena"
  shows "blocks_ok m (h(a \<mapsto> x\<lparr>ar_used := True, ar_forward := d, ar_length := sz\<rparr>, d \<mapsto> y)) (insert d (F - {a})) (insert a U)"
    "h d = None" "d \<noteq> a" "unat d = unat a + 28 + unat sz" "unat d + 28 + unat (ar_length y) = unat a + 28 + unat (ar_length x)"
proof -
  let ?x = "x\<lparr>ar_used := True, ar_forward := d, ar_length := sz\<rparr>"
  let ?h = "h(a \<mapsto> ?x, d \<mapsto> y)"
  note ok = blocks_okD [OF bl a, unfolded block_ok_def]
  have sub: "unat (ar_length x - sz) = unat (ar_length x) - unat sz" using room(1) by (simp add: unat_sub)
  have sz: "unat sz + 44 \<le> unat (ar_length x)" using room sub by linarith
  have "sizeof_arena \<le> ar_length x - sz" using room(2) by (simp add: word_le_nat_alt sizeof_arena_def)
  then have ly: "unat (ar_length y) = unat (ar_length x) - unat sz - 28" by (simp add: y(4) unat_sub sub sizeof_arena_def)
  have top: "unat a + 28 + unat (ar_length x) \<le> heap_top" "ar_buf x = a + sizeof_arena" using ok(1) by simp_all
  have "unat (a + sizeof_arena) = unat a + 28" using top(1)
    by (subst unat_plus_less) (simp_all add: heap_top_def sizeof_arena_def)
  then show ud: "unat d = unat a + 28 + unat sz"
    unfolding d top(2) using top(1) sz by (subst unat_plus_less) (simp_all add: heap_top_def)
  then show da: "d \<noteq> a" by auto
  show e: "unat d + 28 + unat (ar_length y) = unat a + 28 + unat (ar_length x)" using ud ly sz by linarith
  have sx: "span a ?x \<subseteq> span a x" "span d y \<subseteq> span a x" "span a ?x \<inter> span d y = {}"
    using ud e sz by (auto simp: span_def)
  have ind: "unat d \<in> span a x" using ud sz by (simp add: span_def)
  show new: "h d = None"
  proof (rule ccontr)
    assume "h d \<noteq> None"
    then obtain z where z: "h d = Some z" by blast
    then have "unat d \<in> span d z" by (simp add: span_def)
    then show False using ind blocks_ok_disjoint [OF bl a z] da by blast
  qed
  have bx: "block_ok m a ?x" "block_ok m d y"
    using ok(1) sx sz ud e y in_used_pages_mono [of m "span a x"] by (auto simp: block_ok_def)
  have fx: "forward_ok ?h a ?x" using ud da by (simp add: forward_ok_def)
  have fy: "forward_ok ?h d y" using ok(3) e y(3) by (auto simp: forward_ok_def)
  show "blocks_ok m ?h (insert d (F - {a})) (insert a U)"
    unfolding blocks_ok_def
  proof (intro conjI allI impI)
    show "dom ?h = insert d (F - {a}) \<union> insert a U" using bl a by (auto simp: blocks_ok_def)
  next
    fix b z assume b: "?h b = Some z"
    have "d \<notin> U" using new bl by (auto simp: blocks_ok_def)
    then show "block_ok m b z" "ar_used z \<longleftrightarrow> b \<in> insert a U" using b bx y(2) blocks_okD(1,2) [OF bl] da by (auto split: if_splits)
    show "forward_ok ?h b z"
    proof (cases "b = a \<or> b = d")
      case True
      then show ?thesis using b fx fy da by (auto split: if_splits)
    next
      case False
      then show ?thesis using b blocks_okD(3) [OF bl, of b z] by (auto simp: forward_ok_def)
    qed
  next
    fix b z c w assume b: "?h b = Some z" "?h c = Some w" "b \<noteq> c"
    have out: "span a x \<inter> span k v = {}" if "h k = Some v" "k \<noteq> a" for k v
      using blocks_ok_disjoint [OF bl a that(1)] that(2) by blast
    consider "b = a \<or> b = d" "c = a \<or> c = d" | "b = a \<or> b = d" "c \<noteq> a" "c \<noteq> d" | "b \<noteq> a" "b \<noteq> d" "c = a \<or> c = d"
      | "b \<noteq> a" "b \<noteq> d" "c \<noteq> a" "c \<noteq> d" by blast
    then show "span b z \<inter> span c w = {}"
    proof cases
      case 1
      then show ?thesis using b sx(3) da by (auto split: if_splits)
    next
      case 2
      then have "h c = Some w" "span b z \<subseteq> span a x" using b sx da by (auto split: if_splits)
      then show ?thesis using out [of c w] 2 by blast
    next
      case 3
      then have "h b = Some z" "span c w \<subseteq> span a x" using b sx da by (auto split: if_splits)
      then show ?thesis using out [of b z] 3 by blast
    next
      case 4
      then show ?thesis using b blocks_ok_disjoint [OF bl] by simp
    qed
  qed
qed


lemma wipe_buffer:
  assumes bl: "blocks_ok m h F U" and a: "h a = Some x" and sz: "unat sz \<le> unat (ar_length x)" "0 < unat sz"
  shows "wipe (ar_buf x) sz h = h"
proof -
  note ok = blocks_okD(1) [OF bl a, unfolded block_ok_def]
  have buf: "unat (ar_buf x) = unat a + 28"
  proof -
    have "unat a + 28 \<le> heap_top" using ok by linarith
    then have "unat (a + sizeof_arena) = unat a + 28" by (subst unat_plus_less) (simp_all add: heap_top_def sizeof_arena_def)
    then show ?thesis using ok by simp
  qed
  show ?thesis
  proof (rule wipe_keeps)
    show "heap_base \<le> unat (ar_buf x)" "unat (ar_buf x) + unat sz \<le> heap_top" "0 < unat sz" using ok buf sz by linarith+
  next
    fix b y assume b: "h b = Some y"
    have "{unat b..<unat b + 28} \<inter> {unat (ar_buf x)..<unat (ar_buf x) + unat sz} = {}"
    proof (cases "b = a")
      case True
      then show ?thesis using buf by auto
    next
      case False
      have "{unat b..<unat b + 28} \<subseteq> span b y" "{unat (ar_buf x)..<unat (ar_buf x) + unat sz} \<subseteq> span a x"
        using buf sz(1) by (auto simp: span_def)
      then show ?thesis using blocks_ok_disjoint [OF bl a b] False by blast
    qed
    then show "heap_base \<le> unat b \<and> unat b + 28 \<le> heap_top \<and> {unat b..<unat b + 28} \<inter> {unat (ar_buf x)..<unat (ar_buf x) + unat sz} = {}"
      using blocks_okD(1) [OF bl b] by (auto simp: block_ok_def)
  qed
qed

text \<open>Every back pointer leads to an earlier block.\<close>

definition back_ok :: "(addr \<Rightarrow> arena option) \<Rightarrow> bool" where
  "back_ok h \<longleftrightarrow> (\<forall>a x. h a = Some x \<longrightarrow> ar_back x = NULL \<or> h (ar_back x) \<noteq> None \<and> ar_back x < a)"

lemma back_okD: "back_ok h \<Longrightarrow> h a = Some x \<Longrightarrow> ar_back x = NULL \<or> h (ar_back x) \<noteq> None \<and> ar_back x < a"
  by (auto simp: back_ok_def)

text \<open>The case of a split, exactly.\<close>

definition rest_block :: "addr \<Rightarrow> arena \<Rightarrow> u32 \<Rightarrow> arena" where
  "rest_block a x sz = \<lparr>ar_magic = ARENA_MAGIC, ar_used = False, ar_head = False, ar_back = a, ar_forward = ar_forward x,
     ar_length = ar_length x - sz - sizeof_arena, ar_buf = ar_buf x + sz + sizeof_arena\<rparr>"

lemma take_block_split:
  assumes ok: "heap_ok s fs us" and a: "a \<in> set fs" "headers s a = Some x" and sz: "16 \<le> unat sz" "unat sz + 44 \<le> unat (ar_length x)"
    and d: "d = a + (sizeof_arena + sz)"
  shows "\<exists>s'. take_block s sz (list_of a) = Some (a + sizeof_arena, s') \<and> heap_ok s' (d # remove1 a fs) (a # us) \<and>
     live s' (d # remove1 a fs) (a # us) =
       (live s fs us)(a \<mapsto> x\<lparr>ar_used := True, ar_forward := d, ar_length := sz\<rparr>, d \<mapsto> rest_block a x sz) \<and>
     headers s' = wipe (a + sizeof_arena) sz (place d (rest_block a x sz)
       ((headers s)(a \<mapsto> x\<lparr>ar_used := True, ar_forward := d, ar_length := sz\<rparr>))) \<and>
     live s fs us d = None \<and> d \<noteq> a \<and> unat d = unat a + 28 + unat sz \<and> free_blocks s' = free_blocks s \<and> used_blocks s' = used_blocks s"
proof -
  let ?F = "free_blocks s" and ?U = "used_blocks s"
  let ?L = "live s fs us"
  have la: "?L a = Some x" using a by (simp add: live_at)
  have bl: "blocks_ok (heap_mm s) ?L (set fs) (set us)" and lk: "lists_ok (list_nodes s) ?F ?U fs us"
    using ok by (simp_all add: heap_ok_def)
  note dis = lists_ok_distinct [OF lk]
  have fs: "set (remove1 a fs) = set fs - {a}" using dis(1) by simp
  have buf: "ar_buf x = a + sizeof_arena" using blocks_okD(1) [OF bl la] by (simp add: block_ok_def)
  have dd: "d = ar_buf x + sz" by (simp add: d buf add.assoc)
  obtain h1 h2 where h: "list_remove (list_nodes s) (list_of a) = Some h1" "list_push h1 ?U (list_of a) = Some h2"
      "lists_ok h2 ?F ?U (remove1 a fs) (a # us)" using lists_move [OF lk a(1)] by blast
  let ?x = "x\<lparr>ar_used := True, ar_forward := d, ar_length := sz\<rparr>"
  let ?y = "rest_block a x sz"
  have le: "sz \<le> ar_length x" using sz(2) by (simp add: word_le_nat_alt)
  then have sub: "unat (ar_length x - sz) = unat (ar_length x) - unat sz" by (simp add: unat_sub)
  have "unat (sizeof_arena + MIN_BLOCK_SIZE) = 44" by (simp add: sizeof_arena_def MIN_BLOCK_SIZE_def)
  then have big: "\<not> ar_length x - sz < sizeof_arena + MIN_BLOCK_SIZE" "44 \<le> unat (ar_length x - sz)"
    using sub sz(2) by (simp_all add: word_less_nat_alt)
  note sp = blocks_ok_split [OF bl la le big(2) dd, of ?y]
  have b2: "blocks_ok (heap_mm s) (?L(a \<mapsto> ?x, d \<mapsto> ?y)) (insert d (set fs - {a})) (insert a (set us))"
    "?L d = None" "d \<noteq> a" "unat d = unat a + 28 + unat sz" by (rule sp; simp add: rest_block_def dd)+
  have "d \<notin> set fs" "d \<notin> set us" using b2(2) bl by (auto simp: blocks_ok_def)
  then have nd: "d \<notin> set (remove1 a fs)" "d \<notin> set (a # us)" using b2(3) fs by auto
  have "block_ok (heap_mm s) d ?y" using blocks_okD(1) [OF b2(1), of d ?y] by simp
  then have "no_end ?F ?U (list_of d)" using ok by (intro high_no_end) (auto simp: heap_ok_def block_ok_def)
  then obtain h3 where h3: "list_push h2 ?F (list_of d) = Some h3" "lists_ok h3 ?F ?U (d # remove1 a fs) (a # us)"
    using lists_push [OF h(3) nd] by blast
  let ?h = "place d ?y ((headers s)(a \<mapsto> ?x))"
  let ?s = "s\<lparr>list_nodes := h3, headers := wipe (a + sizeof_arena) sz ?h\<rparr>"
  let ?B = "set (d # remove1 a fs) \<union> set (a # us)"
  have one: "((headers s)(a \<mapsto> ?x)) |` (?B - {d}) = ?L(a \<mapsto> ?x)"
    using a(1) nd fs b2(3) by (auto simp: live_def restrict_map_def fun_eq_iff)
  have "place d ?y (?L(a \<mapsto> ?x)) = ?L(a \<mapsto> ?x, d \<mapsto> ?y)"
  proof (rule place_keeps)
    fix b z assume b: "(?L(a \<mapsto> ?x)) b = Some z"
    then have bd: "(?L(a \<mapsto> ?x, d \<mapsto> ?y)) b = Some z" "b \<noteq> d" using b2(2,3) by (auto split: if_splits)
    show "heap_base \<le> unat b \<and> unat b + 28 \<le> heap_top \<and> {unat b..<unat b + 28} \<inter> {unat d..<unat d + 28} = {}"
      using head_apart [OF blocks_ok_disjoint [OF b2(1) _ bd(1)] blocks_okD(1) [OF b2(1) bd(1)], of d ?y] bd(2) by simp
  qed (use blocks_okD(1) [OF b2(1), of d ?y] in \<open>simp_all add: block_ok_def\<close>)
  then have two: "?h |` ?B = ?L(a \<mapsto> ?x, d \<mapsto> ?y)" using one by (subst place_restrict) simp_all
  have "wipe (ar_buf x) sz (?L(a \<mapsto> ?x, d \<mapsto> ?y)) = ?L(a \<mapsto> ?x, d \<mapsto> ?y)"
    using wipe_buffer [OF b2(1), of a ?x sz] sz(1) b2(3) by simp
  then have lv: "live ?s (d # remove1 a fs) (a # us) = ?L(a \<mapsto> ?x, d \<mapsto> ?y)"
    using two by (simp add: live_def wipe_restrict buf)
  have "take_block s sz (list_of a) = Some (ar_buf x, s\<lparr>list_nodes := h3, headers := wipe (ar_buf x) sz ?h\<rparr>)"
    using a(2) h(1,2) h3(1) big(1) by (simp add: take_block_def Let_def rest_block_def dd [symmetric])
  then have "take_block s sz (list_of a) = Some (a + sizeof_arena, ?s)" unfolding buf .
  moreover have "heap_ok ?s (d # remove1 a fs) (a # us)"
    using ok b2(1) h3(2) fs lv unfolding heap_ok_def by simp
  ultimately show ?thesis using b2(2-4) lv by (intro exI [of _ ?s]) simp
qed

lemma take_block_spec:
  assumes ok: "heap_ok s fs us" and a: "a \<in> set fs" "fits s sz a" and sz: "16 \<le> unat sz" "unat sz \<le> 0xF00000"
  shows "\<exists>s' fs' x. take_block s sz (list_of a) = Some (a + sizeof_arena, s') \<and> heap_ok s' fs' (a # us) \<and>
     headers s' a = Some x \<and> sz \<le> ar_length x \<and> (back_ok (live s fs us) \<longrightarrow> back_ok (live s' fs' (a # us))) \<and>
     (\<forall>b \<in> set us. headers s' b = headers s b) \<and> free_blocks s' = free_blocks s \<and> used_blocks s' = used_blocks s"
proof -
  obtain x where x: "headers s a = Some x" "sizeof_arena + sz \<le> ar_length x" using a(2) by (auto simp: fits_def split: option.splits)
  have "unat (sizeof_arena + sz) = 28 + unat sz" using sz(2) by (subst unat_plus_less) (simp_all add: sizeof_arena_def)
  then have len: "28 + unat sz \<le> unat (ar_length x)" using x(2) by (simp add: word_le_nat_alt)
  then have le: "sz \<le> ar_length x" by (simp add: word_le_nat_alt)
  let ?F = "free_blocks s" and ?U = "used_blocks s"
  let ?L = "live s fs us"
  have la: "?L a = Some x" using a(1) x(1) by (simp add: live_at)
  have bl: "blocks_ok (heap_mm s) ?L (set fs) (set us)" and lk: "lists_ok (list_nodes s) ?F ?U fs us"
    using ok by (simp_all add: heap_ok_def)
  note dis = lists_ok_distinct [OF lk]
  have fs: "set (remove1 a fs) = set fs - {a}" using dis(1) by simp
  have nu: "b \<noteq> a" if "b \<in> set us" for b using that dis(3) a(1) by blast
  have buf: "ar_buf x = a + sizeof_arena" using blocks_okD(1) [OF bl la] by (simp add: block_ok_def)
  obtain h1 h2 where h: "list_remove (list_nodes s) (list_of a) = Some h1" "list_push h1 ?U (list_of a) = Some h2"
      "lists_ok h2 ?F ?U (remove1 a fs) (a # us)" using lists_move [OF lk a(1)] by blast
  show ?thesis
  proof (cases "ar_length x - sz < sizeof_arena + MIN_BLOCK_SIZE")
    case True
    let ?x = "x\<lparr>ar_used := True\<rparr>"
    let ?s = "s\<lparr>list_nodes := h2, headers := wipe (a + sizeof_arena) sz ((headers s)(a \<mapsto> ?x))\<rparr>"
    let ?L2 = "live ?s (remove1 a fs) (a # us)"
    have b2: "blocks_ok (heap_mm s) (?L(a \<mapsto> ?x)) (set (remove1 a fs)) (set (a # us))"
      using blocks_ok_take [OF bl la] fs by simp
    have w: "wipe (a + sizeof_arena) sz (?L(a \<mapsto> ?x)) = ?L(a \<mapsto> ?x)"
      using wipe_buffer [OF b2, of a ?x sz] len sz(1) buf by simp
    have "((headers s)(a \<mapsto> ?x)) |` (set (remove1 a fs) \<union> set (a # us)) = ?L(a \<mapsto> ?x)"
      using a(1) fs by (auto simp: live_def restrict_map_def fun_eq_iff)
    then have lv: "?L2 = ?L(a \<mapsto> ?x)" using w by (simp add: live_def wipe_restrict)
    have run: "take_block s sz (list_of a) = Some (a + sizeof_arena, ?s)" using x h True buf by (simp add: take_block_def)
    have "heap_ok ?s (remove1 a fs) (a # us)" using ok b2 h(3) lv unfolding heap_ok_def by simp
    moreover have "back_ok ?L \<longrightarrow> back_ok ?L2" unfolding lv using la by (auto simp: back_ok_def)
    moreover have "headers ?s a = Some ?x" "\<forall>b \<in> set us. headers ?s b = headers s b"
      using lv nu live_at [of _ "remove1 a fs" "a # us" ?s] live_at [of _ fs us s] by (metis fun_upd_same list.set_intros(1), metis fun_upd_other list.set_intros(2))
    ultimately show ?thesis using run le by (intro exI [of _ ?s] exI [of _ "remove1 a fs"] exI [of _ ?x]) simp
  next
    case False
    define d where "d = a + (sizeof_arena + sz)"
    have sub: "unat (ar_length x - sz) = unat (ar_length x) - unat sz" using le by (simp add: unat_sub)
    have "unat (sizeof_arena + MIN_BLOCK_SIZE) = 44" by (simp add: sizeof_arena_def MIN_BLOCK_SIZE_def)
    then have "unat sz + 44 \<le> unat (ar_length x)" using False sub by (simp add: word_less_nat_alt)
    from take_block_split [OF ok a(1) x(1) sz(1) this d_def] obtain s' where t:
        "take_block s sz (list_of a) = Some (a + sizeof_arena, s')" "heap_ok s' (d # remove1 a fs) (a # us)"
        "live s' (d # remove1 a fs) (a # us) = ?L(a \<mapsto> x\<lparr>ar_used := True, ar_forward := d, ar_length := sz\<rparr>, d \<mapsto> rest_block a x sz)"
        "?L d = None" "d \<noteq> a" "unat d = unat a + 28 + unat sz" "free_blocks s' = free_blocks s" "used_blocks s' = used_blocks s" by blast
    let ?L2 = "live s' (d # remove1 a fs) (a # us)"
    have "a < d" using t(6) by (simp add: word_less_nat_alt)
    have "back_ok ?L2" if "back_ok ?L"
    proof -
      have "ar_back z = NULL \<or> ?L2 (ar_back z) \<noteq> None \<and> ar_back z < b" if "?L2 b = Some z" for b z
        using that \<open>a < d\<close> back_okD [OF \<open>back_ok ?L\<close>, of b] back_okD [OF \<open>back_ok ?L\<close> la] t(3-5)
        by (cases "b = d"; cases "b = a") (auto simp: rest_block_def)
      then show ?thesis unfolding back_ok_def by blast
    qed
    moreover have "b \<noteq> d" if "b \<in> set us" for b using t(4) bl that by (auto simp: blocks_ok_def)
    moreover have "headers s' b = ?L2 b" if "b \<in> set (a # us)" for b using live_at [of b "d # remove1 a fs" "a # us" s'] that by auto
    moreover have "?L b = headers s b" if "b \<in> set us" for b using that by (simp add: live_at)
    ultimately show ?thesis using t nu by (intro exI [of _ s'] exI [of _ "d # remove1 a fs"]) auto
  qed
qed


section \<open>Finding a block\<close>

lemma refind_step:
  assumes "heap_ok s fs us"
  shows "refind s sz = (case find (fits s sz) fs of Some a \<Rightarrow> Some (list_of a, s)
     | None \<Rightarrow> Option.bind (arena_add_new_pages s sz) (\<lambda>s. refind s sz))"
proof -
  have d: "dlist (list_nodes s) (free_blocks s) (map list_of fs)" and lk: "lists_ok (list_nodes s) (free_blocks s) (used_blocks s) fs us"
    and bl: "blocks_ok (heap_mm s) (live s fs us) (set fs) (set us)"
    using assms by (auto simp: heap_ok_def lists_ok_def)
  note w = dlist_suffix [OF d]
  have "\<forall>a \<in> set fs. headers s a \<noteq> None" using blocks_ok_live [OF bl] by (fastforce simp: live_Some)
  note walk = find_fit_walk [OF w(1-3) this]
  have "list_of a \<noteq> list_tail (free_blocks s)" if "find (fits s sz) fs = Some a" for a
  proof -
    have "a \<in> set fs" using that by (metis find_Some_iff nth_mem)
    then show ?thesis using lists_no_end [OF lk] by (simp add: no_end_def)
  qed
  then show ?thesis using w(4) walk by (subst refind.simps) (auto split: option.splits)
qed

text \<open>A request that new pages can serve: its own size and a second header fit into them.\<close>

definition can_grow :: "heap \<Rightarrow> u32 \<Rightarrow> bool" where
  "can_grow s sz \<longleftrightarrow> (unat sz + 28) mod 4096 \<le> 4068 \<and> (\<exists>i. free_run (kernel_map (heap_mm s)) (new_pages sz) i)"

lemma new_pages_room:
  "(n + 28) mod 4096 \<le> 4068 \<longleftrightarrow> n + 28 \<le> 4096 * ((n + 28) div 4096 + 1) - (28 :: nat)"
proof -
  define q r where "q = (n + 28) div 4096" and "r = (n + 28) mod 4096"
  have "n + 28 = 4096 * q + r" by (simp add: q_def r_def)
  then have "r \<le> 4068 \<longleftrightarrow> n + 28 \<le> 4096 * q + 4068" by linarith
  moreover have "4096 * (q + 1) - 28 = 4096 * q + 4068" by simp
  ultimately show ?thesis unfolding q_def r_def by simp
qed

lemma grown_fits:
  assumes "heap_ok s fs us" "can_grow s sz" "unat sz \<le> 0xF00000"
  obtains a s' where "arena_add_new_pages s sz = Some s'" "heap_ok s' (a # fs) us" "fits s' sz a"
    "back_ok (live s fs us) \<longrightarrow> back_ok (live s' (a # fs) us)" "\<forall>b \<in> set us. headers s' b = headers s b"
    "free_blocks s' = free_blocks s" "used_blocks s' = used_blocks s"
proof -
  obtain i where i: "free_run (kernel_map (heap_mm s)) (new_pages sz) i" using assms(2) by (auto simp: can_grow_def)
  obtain a x s' where n: "arena_add_new_pages s sz = Some s'" "heap_ok s' (a # fs) us" "live s fs us a = None"
      "live s' (a # fs) us = (live s fs us)(a \<mapsto> x)" "headers s' a = Some x" "unat (ar_length x) = 4096 * new_pages sz - 28"
      "free_blocks s' = free_blocks s" "used_blocks s' = used_blocks s" "ar_back x = NULL"
    using arena_add_new_pages_spec [OF assms(1) i assms(3)] by blast
  have "unat (sizeof_arena + sz) = unat sz + 28" using assms(3) by (subst unat_plus_less) (simp_all add: sizeof_arena_def)
  then have "fits s' sz a" using assms(2) new_pages_room [of "unat sz"] n(5,6)
    by (simp add: fits_def can_grow_def new_pages_def word_le_nat_alt)
  moreover have "back_ok (live s fs us) \<longrightarrow> back_ok (live s' (a # fs) us)" using n(3,4,9) by (auto simp: back_ok_def)
  moreover have "\<forall>b \<in> set us. headers s' b = headers s b"
  proof
    fix b assume b: "b \<in> set us"
    then have "b \<noteq> a" using assms(1) n(3) by (auto simp: heap_ok_def blocks_ok_def)
    then have "live s' (a # fs) us b = live s fs us b" using n(4) by simp
    then show "headers s' b = headers s b" using b by (simp add: live_at)
  qed
  ultimately show ?thesis using n that by blast
qed

lemma kmalloc_spec:
  assumes ok: "heap_ok s fs us" and sz: "sz \<noteq> 0" "unat sz \<le> 0xF00000" and n: "n = max MIN_BLOCK_SIZE sz"
    and room: "(\<exists>a \<in> set fs. fits s n a) \<or> can_grow s n"
  shows "\<exists>a s' fs' x. kmalloc s sz = Some (a + sizeof_arena, s') \<and> heap_ok s' fs' (a # us) \<and>
     headers s' a = Some x \<and> n \<le> ar_length x \<and> (back_ok (live s fs us) \<longrightarrow> back_ok (live s' fs' (a # us))) \<and>
     (\<forall>b \<in> set us. headers s' b = headers s b)"
proof -
  have m: "n = (if sz \<ge> MIN_BLOCK_SIZE then sz else MIN_BLOCK_SIZE)" by (simp add: n max_def)
  have m: "n = (if sz \<ge> MIN_BLOCK_SIZE then sz else MIN_BLOCK_SIZE)" "16 \<le> unat n" "unat n \<le> 0xF00000"
    using sz m by (auto simp: word_le_nat_alt MIN_BLOCK_SIZE_def split: if_splits)
  have "list_empty (list_nodes s) (free_blocks s) = Some (fs = [])"
    using list_empty_spec ok by (fastforce simp: heap_ok_def lists_ok_def)
  then have run: "kmalloc s sz = do { s \<leftarrow> (if fs = [] then arena_add_new_pages s n else Some s);
      (p, s) \<leftarrow> refind s n; take_block s n p }"
    using sz(1) by (simp add: kmalloc_def m(1) Let_def)
  have "\<exists>a t gs. a \<in> set gs \<and> heap_ok t gs us \<and> fits t n a \<and> kmalloc s sz = take_block t n (list_of a) \<and>
     (back_ok (live s fs us) \<longrightarrow> back_ok (live t gs us)) \<and> (\<forall>b \<in> set us. headers t b = headers s b)"
  proof (cases "find (fits s n) fs")
    case (Some a)
    then have "a \<in> set fs" "fits s n a" by (auto simp: find_Some_iff)
    then show ?thesis using ok run refind_step [OF ok, of n] Some by (intro exI [of _ a] exI [of _ s] exI [of _ fs]) auto
  next
    case None
    then have "can_grow s n" using room by (auto simp: find_None_iff)
    from grown_fits [OF ok this m(3)] obtain a t where t: "arena_add_new_pages s n = Some t" "heap_ok t (a # fs) us"
        "fits t n a" "back_ok (live s fs us) \<longrightarrow> back_ok (live t (a # fs) us)" "\<forall>b \<in> set us. headers t b = headers s b" by metis
    have "refind t n = Some (list_of a, t)" using refind_step [OF t(2), of n] t(3) by simp
    then show ?thesis using t None run refind_step [OF ok, of n] by (intro exI [of _ a] exI [of _ t] exI [of _ "a # fs"]) auto
  qed
  then obtain a t gs where t: "a \<in> set gs" "heap_ok t gs us" "fits t n a" "kmalloc s sz = take_block t n (list_of a)"
      "back_ok (live s fs us) \<longrightarrow> back_ok (live t gs us)" "\<forall>b \<in> set us. headers t b = headers s b" by blast
  from take_block_spec [OF t(2,1,3) m(2,3)] obtain s' fs' x where
    "take_block t n (list_of a) = Some (a + sizeof_arena, s')" "heap_ok s' fs' (a # us)" "headers s' a = Some x" "n \<le> ar_length x"
    "back_ok (live t gs us) \<longrightarrow> back_ok (live s' fs' (a # us))" "\<forall>b \<in> set us. headers s' b = headers t b" by blast
  then show ?thesis using t(4-6) by (intro exI [of _ a] exI [of _ s'] exI [of _ fs'] exI [of _ x]) auto
qed


section \<open>Releasing a block\<close>

lemma blocks_ok_release:
  assumes bl: "blocks_ok m h F U" and x: "h a = Some x"
  shows "blocks_ok m (h(a \<mapsto> x\<lparr>ar_used := False\<rparr>)) (insert a F) (U - {a})"
  unfolding blocks_ok_def
proof (intro conjI allI impI)
  show "dom (h(a \<mapsto> x\<lparr>ar_used := False\<rparr>)) = insert a F \<union> (U - {a})" using bl x by (auto simp: blocks_ok_def)
next
  fix b y assume b: "(h(a \<mapsto> x\<lparr>ar_used := False\<rparr>)) b = Some y"
  then show "block_ok m b y" "ar_used y \<longleftrightarrow> b \<in> U - {a}" using blocks_okD(1,2) [OF bl] x
    by (auto simp: block_ok_def span_def split: if_splits)
  show "forward_ok (h(a \<mapsto> x\<lparr>ar_used := False\<rparr>)) b y" using b blocks_okD(3) [OF bl] x by (fastforce simp: forward_ok_def split: if_splits)
next
  fix b y d z assume "(h(a \<mapsto> x\<lparr>ar_used := False\<rparr>)) b = Some y" "(h(a \<mapsto> x\<lparr>ar_used := False\<rparr>)) d = Some z" "b \<noteq> d"
  then show "span b y \<inter> span d z = {}" using x blocks_ok_disjoint [OF bl, of b _ d]
    by (cases "b = a"; cases "d = a") (auto simp: span_def)
qed

lemma blocks_ok_merge:
  assumes bl: "blocks_ok m h F U" and a: "h a = Some x" "a \<in> F" and c: "ar_forward x = c" "c \<noteq> NULL" "h c = Some y" "c \<notin> U" and aU: "a \<notin> U"
  shows "blocks_ok m (h(a \<mapsto> x\<lparr>ar_length := ar_length x + (ar_length y + sizeof_arena), ar_forward := ar_forward y\<rparr>, c := None)) (F - {c}) U"
    "c \<noteq> a"
proof -
  let ?x = "x\<lparr>ar_length := ar_length x + (ar_length y + sizeof_arena), ar_forward := ar_forward y\<rparr>"
  let ?h = "h(a \<mapsto> ?x, c := None)"
  have adj: "unat c = unat a + 28 + unat (ar_length x)" using blocks_okD(3) [OF bl a(1)] c(1,2) by (simp add: forward_ok_def)
  then show ca: "c \<noteq> a" by auto
  note ok = blocks_okD(1) [OF bl a(1), unfolded block_ok_def] and okc = blocks_okD(1) [OF bl c(3), unfolded block_ok_def]
  have top: "unat a + 28 + unat (ar_length x) + 28 + unat (ar_length y) \<le> heap_top" using okc adj by simp
  then have l1: "unat (ar_length y + sizeof_arena) = unat (ar_length y) + 28"
    by (subst unat_plus_less) (simp_all add: heap_top_def sizeof_arena_def)
  then have l: "unat (ar_length ?x) = unat (ar_length x) + 28 + unat (ar_length y)"
    using top by (simp, subst unat_plus_less) (simp_all add: heap_top_def)
  have sp: "span a ?x = span a x \<union> span c y" using l adj by (auto simp: span_def)
  have bx: "block_ok m a ?x" using ok okc sp l top unfolding block_ok_def by (auto simp: in_used_pages_def)
  have only: "ar_forward z \<noteq> c" if "h b = Some z" "b \<noteq> a" for b z
  proof
    assume "ar_forward z = c"
    then have "unat c = unat b + 28 + unat (ar_length z)" using blocks_okD(3) [OF bl that(1)] c(2) by (simp add: forward_ok_def)
    then have "unat c - 1 \<in> span b z" "unat c - 1 \<in> span a x" using adj by (auto simp: span_def)
    then show False using blocks_ok_disjoint [OF bl a(1) that(1)] that(2) by blast
  qed
  have fx: "forward_ok ?h a ?x"
    using blocks_okD(3) [OF bl c(3)] l adj ca by (auto simp: forward_ok_def)
  show "blocks_ok m ?h (F - {c}) U"
    unfolding blocks_ok_def
  proof (intro conjI allI impI)
    show "dom ?h = F - {c} \<union> U" using bl a(1) c(4) ca by (auto simp: blocks_ok_def)
  next
    fix b z assume b: "?h b = Some z"
    then show "block_ok m b z" "ar_used z \<longleftrightarrow> b \<in> U" using bx blocks_okD(1,2) [OF bl] a(1) by (auto split: if_splits)
    show "forward_ok ?h b z"
    proof (cases "b = a")
      case True
      then show ?thesis using b fx ca by auto
    next
      case False
      then have "h b = Some z" using b by (auto split: if_splits)
      then show ?thesis using blocks_okD(3) [OF bl, of b z] only [of b z] False by (auto simp: forward_ok_def)
    qed
  next
    fix b z d w assume b: "?h b = Some z" "?h d = Some w" "b \<noteq> d"
    have out: "span a ?x \<inter> span k v = {}" if "h k = Some v" "k \<noteq> a" "k \<noteq> c" for k v
      using sp blocks_ok_disjoint [OF bl a(1) that(1)] blocks_ok_disjoint [OF bl c(3) that(1)] that(2,3) by blast
    show "span b z \<inter> span d w = {}"
      using b out [of d w] out [of b z] blocks_ok_disjoint [OF bl, of b z d w] ca
      by (cases "b = a"; cases "d = a") (auto simp: Int_commute split: if_splits)
  qed
qed

lemma walk_back_spec:
  assumes bl: "blocks_ok m L F U" and bo: "back_ok L" and L: "\<And>b z. L b = Some z \<Longrightarrow> headers s b = Some z"
  shows "L a = Some x \<Longrightarrow> a \<notin> U \<Longrightarrow> \<exists>b. walk_back s a = Some b \<and> b \<in> F \<and> b \<notin> U \<and> b \<le> a"
proof (induction "unat a" arbitrary: a x rule: less_induct)
  case less
  have inF: "a \<in> F" using bl less.prems by (auto simp: blocks_ok_def)
  show ?case
  proof (cases "ar_back x = NULL")
    case True
    then show ?thesis using less.prems(2) L [OF less.prems(1)] inF by (subst walk_back.simps) auto
  next
    case False
    then obtain y where y: "L (ar_back x) = Some y" "ar_back x < a" using back_okD [OF bo less.prems(1)] by auto
    show ?thesis
    proof (cases "ar_used y")
      case True
      then show ?thesis using less.prems(2) L [OF less.prems(1)] L [OF y(1)] inF False by (subst walk_back.simps) auto
    next
      case nused: False
      then have "ar_back x \<notin> U" using blocks_okD(2) [OF bl y(1)] by simp
      moreover have "unat (ar_back x) < unat a" using y(2) by (simp add: word_less_nat_alt)
      ultimately obtain b where "walk_back s (ar_back x) = Some b" "b \<in> F" "b \<notin> U" "b \<le> ar_back x"
        using less.hyps y(1) by blast
      then show ?thesis using L [OF less.prems(1)] L [OF y(1)] y(2) False nused by (subst walk_back.simps) auto
    qed
  qed
qed

text \<open>One turn of the merge.\<close>

lemma merge_step:
  assumes ok: "heap_ok s fs us" and a: "a \<in> set fs" "headers s a = Some x" and c: "ar_forward x = c" "c \<noteq> NULL" "headers s c = Some y" "c \<in> set fs \<or> c \<in> set us" "\<not> ar_used y"
  shows "\<exists>t. merge_forward s a = merge_forward t a \<and> heap_ok t (remove1 c fs) us \<and> c \<in> set fs \<and> c \<noteq> a \<and> c \<notin> set us \<and>
     headers t = (headers s)(a \<mapsto> x\<lparr>ar_length := ar_length x + (ar_length y + sizeof_arena), ar_forward := ar_forward y\<rparr>) \<and>
     free_blocks t = free_blocks s \<and> used_blocks t = used_blocks s \<and> unlinked (list_nodes t) (list_of c) \<and>
     (\<forall>n. outside (free_blocks s) (used_blocks s) (set fs) n \<longrightarrow> list_nodes t n = list_nodes s n)"
proof -
  let ?L = "live s fs us"
  have bl: "blocks_ok (heap_mm s) ?L (set fs) (set us)" and
    lk: "lists_ok (list_nodes s) (free_blocks s) (used_blocks s) fs us" using ok by (simp_all add: heap_ok_def)
  note dis = lists_ok_distinct [OF lk]
  have la: "?L a = Some x" "?L c = Some y" using a c(3,4) by (simp_all add: live_at)
  have cf: "c \<notin> set us" "c \<in> set fs" using blocks_okD(2,4) [OF bl la(2)] c(5) by auto
  have au: "a \<notin> set us" using a(1) dis(3) by blast
  note m = blocks_ok_merge [OF bl la(1) a(1) c(1,2) la(2) cf(1) au]
  obtain l where l: "list_remove (list_nodes s) (list_of c) = Some l"
      "lists_ok l (free_blocks s) (used_blocks s) (remove1 c fs) us" "unlinked l (list_of c)"
      "\<forall>n. outside (free_blocks s) (used_blocks s) (set fs) n \<longrightarrow> l n = list_nodes s n" using lists_remove [OF lk cf(2)] by blast
  let ?h = "(headers s)(a \<mapsto> x\<lparr>ar_length := ar_length x + (ar_length y + sizeof_arena), ar_forward := ar_forward y\<rparr>)"
  let ?t = "s\<lparr>list_nodes := l, headers := ?h\<rparr>"
  have fs: "set (remove1 c fs) = set fs - {c}" using dis(1) by simp
  have "live ?t (remove1 c fs) us = ?L(a \<mapsto> x\<lparr>ar_length := ar_length x + (ar_length y + sizeof_arena), ar_forward := ar_forward y\<rparr>, c := None)"
    using fs cf(1) a(1) m(2) by (auto simp: live_def restrict_map_def fun_eq_iff)
  then have "heap_ok ?t (remove1 c fs) us" using ok l(2) m(1) fs unfolding heap_ok_def by simp
  moreover have "merge_forward s a = merge_forward ?t a" using a(2) c l(1) by (subst merge_forward.simps) simp
  ultimately show ?thesis using m(2) cf l(3,4) by (intro exI [of _ ?t]) simp
qed

lemma merge_forward_spec:
  "heap_ok s fs us \<Longrightarrow> a \<in> set fs \<Longrightarrow>
   \<exists>s' gs. merge_forward s a = Some s' \<and> heap_ok s' gs us \<and> (\<forall>b \<in> set us. headers s' b = headers s b)"
proof (induction "length fs" arbitrary: s fs rule: less_induct)
  case less
  have bl: "blocks_ok (heap_mm s) (live s fs us) (set fs) (set us)" and
    lk: "lists_ok (list_nodes s) (free_blocks s) (used_blocks s) fs us" using less.prems(1) by (simp_all add: heap_ok_def)
  have au: "a \<notin> set us" using less.prems(2) lists_ok_distinct(3) [OF lk] by blast
  obtain x where lx: "live s fs us a = Some x" using blocks_ok_live [OF bl] less.prems(2) by blast
  then have x: "headers s a = Some x" by (simp add: live_Some)
  show ?case
  proof (cases "ar_forward x = NULL")
    case True
    then show ?thesis using less.prems x by (subst merge_forward.simps) auto
  next
    case False
    then obtain y where y: "headers s (ar_forward x) = Some y" "ar_forward x \<in> set fs \<or> ar_forward x \<in> set us"
      using blocks_okD(3) [OF bl lx] by (auto simp: forward_ok_def live_Some)
    show ?thesis
    proof (cases "ar_used y")
      case True
      then show ?thesis using less.prems x y False by (subst merge_forward.simps) auto
    next
      case nused: False
      obtain t where t: "merge_forward s a = merge_forward t a" "heap_ok t (remove1 (ar_forward x) fs) us" "ar_forward x \<in> set fs"
          "ar_forward x \<noteq> a" "ar_forward x \<notin> set us"
          "headers t = (headers s)(a \<mapsto> x\<lparr>ar_length := ar_length x + (ar_length y + sizeof_arena), ar_forward := ar_forward y\<rparr>)"
        using merge_step [OF less.prems x refl False y nused] by blast
      have "length (remove1 (ar_forward x) fs) < length fs" using t(3) length_pos_if_in_set [OF t(3)] by (simp add: length_remove1)
      moreover have "a \<in> set (remove1 (ar_forward x) fs)" using less.prems(2) t(4) by simp
      ultimately obtain s' gs where r: "merge_forward t a = Some s'" "heap_ok s' gs us"
          "\<forall>b \<in> set us. headers s' b = headers t b" using less.hyps [of "remove1 (ar_forward x) fs" t] t(2) by auto
      moreover have "headers t b = headers s b" if "b \<in> set us" for b using that au t(6) by auto
      ultimately show ?thesis using t(1) by auto
    qed
  qed
qed

text \<open>Release up to the merge.\<close>

lemma kfree_release:
  assumes ok: "heap_ok s fs us" and a: "a \<in> set us" "headers s a = Some x"
  shows "\<exists>t. kfree s (a + sizeof_arena) = Option.bind (walk_back t a) (merge_forward t) \<and> heap_ok t (a # fs) (remove1 a us) \<and>
     headers t = (headers s)(a \<mapsto> x\<lparr>ar_used := False\<rparr>) \<and> free_blocks t = free_blocks s \<and> used_blocks t = used_blocks s \<and>
     live t (a # fs) (remove1 a us) = (live s fs us)(a \<mapsto> x\<lparr>ar_used := False\<rparr>) \<and>
     (\<forall>n. outside (free_blocks s) (used_blocks s) (set fs \<union> set us) n \<longrightarrow> list_nodes t n = list_nodes s n)"
proof -
  let ?L = "live s fs us"
  have bl: "blocks_ok (heap_mm s) ?L (set fs) (set us)" and
    lk: "lists_ok (list_nodes s) (free_blocks s) (used_blocks s) fs us" using ok by (simp_all add: heap_ok_def)
  have la: "?L a = Some x" using a by (simp add: live_at)
  note okx = blocks_okD(1) [OF bl la, unfolded block_ok_def]
  have "unat a + 28 \<le> heap_top" using okx by linarith
  then have "unat (a + sizeof_arena) = unat a + 28" by (subst unat_plus_less) (simp_all add: heap_top_def sizeof_arena_def)
  then have "0 < unat (a + sizeof_arena)" by simp
  then have nz: "a + sizeof_arena \<noteq> NULL" by (metis less_irrefl unat_0)
  have sea: "list_search (list_nodes s) (used_blocks s) (list_of a) = Some True" using lists_search [OF lk] a(1) by simp
  obtain h1 h2 where h: "list_remove (list_nodes s) (list_of a) = Some h1" "list_push h1 (free_blocks s) (list_of a) = Some h2"
      "lists_ok h2 (used_blocks s) (free_blocks s) (remove1 a us) (a # fs)"
      "\<forall>n. outside (used_blocks s) (free_blocks s) (set us \<union> set fs) n \<longrightarrow> h2 n = list_nodes s n"
    using lists_move [OF lists_ok_swap [OF lk] a(1)] by blast
  let ?t = "s\<lparr>list_nodes := h2, headers := (headers s)(a \<mapsto> x\<lparr>ar_used := False\<rparr>)\<rparr>"
  have us: "set (remove1 a us) = set us - {a}" using lists_ok_distinct(2) [OF lk] by simp
  have lv: "live ?t (a # fs) (remove1 a us) = ?L(a \<mapsto> x\<lparr>ar_used := False\<rparr>)"
    using us a(1) by (auto simp: live_def restrict_map_def fun_eq_iff)
  have "blocks_ok (heap_mm s) (?L(a \<mapsto> x\<lparr>ar_used := False\<rparr>)) (set (a # fs)) (set (remove1 a us))"
    using blocks_ok_release [OF bl la] us by simp
  then have "heap_ok ?t (a # fs) (remove1 a us)" using ok lists_ok_swap [OF h(3)] lv unfolding heap_ok_def by simp
  moreover have guard: "ar_forward x = NULL \<or> (\<exists>y. headers s (ar_forward x) = Some y \<and> ar_magic y = ARENA_MAGIC)"
    using blocks_okD(3) [OF bl la] blocks_okD(1) [OF bl] by (fastforce simp: forward_ok_def block_ok_def live_Some)
  then have "kfree s (a + sizeof_arena) = Option.bind (walk_back ?t a) (merge_forward ?t)"
    using nz a(2) sea h(1,2) by (auto simp: kfree_def Let_def)
  ultimately show ?thesis using lv h(4) outside_mono(2) by (intro exI [of _ ?t]) (simp add: Un_commute)
qed

lemma kfree_spec:
  assumes ok: "heap_ok s fs us" and bo: "back_ok (live s fs us)" and a: "a \<in> set us"
  shows "\<exists>s' gs. kfree s (a + sizeof_arena) = Some s' \<and> heap_ok s' gs (remove1 a us) \<and>
     (\<forall>b \<in> set (remove1 a us). headers s' b = headers s b)"
proof -
  have bl: "blocks_ok (heap_mm s) (live s fs us) (set fs) (set us)" and
    lk: "lists_ok (list_nodes s) (free_blocks s) (used_blocks s) fs us" using ok by (simp_all add: heap_ok_def)
  obtain x where lx: "live s fs us a = Some x" using blocks_ok_live [OF bl] a by blast
  then have x: "headers s a = Some x" by (simp add: live_Some)
  obtain t where t: "kfree s (a + sizeof_arena) = Option.bind (walk_back t a) (merge_forward t)" "heap_ok t (a # fs) (remove1 a us)"
      "headers t = (headers s)(a \<mapsto> x\<lparr>ar_used := False\<rparr>)"
      "live t (a # fs) (remove1 a us) = (live s fs us)(a \<mapsto> x\<lparr>ar_used := False\<rparr>)" using kfree_release [OF ok a x] by blast
  let ?L = "live t (a # fs) (remove1 a us)"
  have us: "set (remove1 a us) = set us - {a}" using lists_ok_distinct(2) [OF lk] by simp
  have "back_ok ?L" using bo lx by (auto simp: back_ok_def t(4))
  moreover have "blocks_ok (heap_mm t) ?L (set (a # fs)) (set (remove1 a us))" using t(2) by (simp add: heap_ok_def)
  moreover have "headers t b = Some z" if "?L b = Some z" for b z using that by (simp add: live_Some)
  ultimately obtain b where b: "walk_back t a = Some b" "b \<in> set (a # fs)"
    using walk_back_spec [of "heap_mm t" ?L "set (a # fs)" "set (remove1 a us)" t a] us t(4) by auto
  from merge_forward_spec [OF t(2) b(2)] obtain s' gs where r: "merge_forward t b = Some s'" "heap_ok s' gs (remove1 a us)"
      "\<forall>d \<in> set (remove1 a us). headers s' d = headers t d" by blast
  moreover have "headers t d = headers s d" if "d \<in> set (remove1 a us)" for d using that us t(3) by auto
  ultimately show ?thesis using t(1) b(1) by auto
qed

text \<open>The first block of the free list, when it is long enough to be split.\<close>

lemma kmalloc_front:
  assumes ok: "heap_ok s (a # fs) us" and x: "headers s a = Some x" and n: "16 \<le> unat n" "unat n + 44 \<le> unat (ar_length x)"
  shows "\<exists>t d. kmalloc s n = Some (a + sizeof_arena, t) \<and> heap_ok t (d # fs) (a # us) \<and>
     headers t a = Some (x\<lparr>ar_used := True, ar_forward := d, ar_length := n\<rparr>) \<and> headers t d = Some (rest_block a x n) \<and>
     (\<forall>b \<in> set fs \<union> set us. headers t b = headers s b) \<and> d \<notin> insert a (set fs \<union> set us) \<and>
     headers t = wipe (a + sizeof_arena) n (place d (rest_block a x n) ((headers s)(a \<mapsto> x\<lparr>ar_used := True, ar_forward := d, ar_length := n\<rparr>))) \<and>
     unat d = unat a + 28 + unat n \<and> unat (ar_length (rest_block a x n)) = unat (ar_length x) - unat n - 28 \<and>
     free_blocks t = free_blocks s \<and> used_blocks t = used_blocks s"
proof -
  let ?L = "live s (a # fs) us"
  have bl: "blocks_ok (heap_mm s) ?L (set (a # fs)) (set us)" and
    lk: "lists_ok (list_nodes s) (free_blocks s) (used_blocks s) (a # fs) us" using ok by (simp_all add: heap_ok_def)
  have la: "?L a = Some x" using x by (simp add: live_at)
  have top: "unat (ar_length x) \<le> heap_top" using blocks_okD(1) [OF bl la] by (simp add: block_ok_def)
  then have "unat (sizeof_arena + n) = 28 + unat n" using n by (subst unat_plus_less) (simp_all add: sizeof_arena_def heap_top_def)
  then have "fits s n a" using n(2) x by (simp add: fits_def word_le_nat_alt)
  then have "refind s n = Some (list_of a, s)" using refind_step [OF ok, of n] by simp
  moreover have "list_empty (list_nodes s) (free_blocks s) = Some False"
    using list_empty_spec ok by (fastforce simp: heap_ok_def lists_ok_def)
  moreover have "MIN_BLOCK_SIZE \<le> n" "n \<noteq> 0" using n(1) by (auto simp: word_le_nat_alt MIN_BLOCK_SIZE_def)
  ultimately have run: "kmalloc s n = take_block s n (list_of a)" by (simp add: kmalloc_def)
  have "n \<le> ar_length x" using n(2) by (simp add: word_le_nat_alt)
  then have sub: "unat (ar_length x - n) = unat (ar_length x) - unat n" by (simp add: unat_sub)
  have "sizeof_arena \<le> ar_length x - n" using sub n(2) by (simp add: word_le_nat_alt sizeof_arena_def)
  then have len: "unat (ar_length (rest_block a x n)) = unat (ar_length x) - unat n - 28"
    using sub by (simp add: rest_block_def unat_sub sizeof_arena_def)
  define d where "d = a + (sizeof_arena + n)"
  obtain t where t: "take_block s n (list_of a) = Some (a + sizeof_arena, t)" "heap_ok t (d # fs) (a # us)"
      "live t (d # fs) (a # us) = ?L(a \<mapsto> x\<lparr>ar_used := True, ar_forward := d, ar_length := n\<rparr>, d \<mapsto> rest_block a x n)"
      "headers t = wipe (a + sizeof_arena) n (place d (rest_block a x n) ((headers s)(a \<mapsto> x\<lparr>ar_used := True, ar_forward := d, ar_length := n\<rparr>)))"
      "?L d = None" "d \<noteq> a" "unat d = unat a + 28 + unat n" "free_blocks t = free_blocks s" "used_blocks t = used_blocks s"
    using take_block_split [OF ok list.set_intros(1) x n d_def] by auto
  have dn: "d \<notin> insert a (set fs \<union> set us)" using t(5,6) bl by (auto simp: blocks_ok_def)
  have "a \<notin> set fs" "a \<notin> set us" using lists_ok_distinct [OF lk] by auto
  then have "headers t b = headers s b" if "b \<in> set fs \<union> set us" for b
  proof -
    have "b \<noteq> a" "b \<noteq> d" using that dn \<open>a \<notin> set fs\<close> \<open>a \<notin> set us\<close> by auto
    then show ?thesis using that live_at [of b "d # fs" "a # us" t] live_at [of b "a # fs" us s] t(3) by auto
  qed
  moreover have "headers t a = Some (x\<lparr>ar_used := True, ar_forward := d, ar_length := n\<rparr>)" "headers t d = Some (rest_block a x n)"
    using live_at [of a "d # fs" "a # us" t] live_at [of d "d # fs" "a # us" t] t(3,6) by auto
  ultimately show ?thesis using run t dn len by (intro exI [of _ t] exI [of _ d]) simp
qed

text \<open>One turn of the loops, on any heap.\<close>

lemma merge_turn:
  "headers s a = Some x \<Longrightarrow> ar_forward x \<noteq> NULL \<Longrightarrow> headers s (ar_forward x) = Some y \<Longrightarrow> \<not> ar_used y \<Longrightarrow>
   merge_forward s a = Option.bind (list_remove (list_nodes s) (list_of (ar_forward x))) (\<lambda>h. merge_forward (s\<lparr>list_nodes := h,
     headers := (headers s)(a \<mapsto> x\<lparr>ar_length := ar_length x + (ar_length y + sizeof_arena), ar_forward := ar_forward y\<rparr>)\<rparr>) a)"
  by (subst merge_forward.simps) simp

lemma merge_stop:
  "headers s a = Some x \<Longrightarrow> ar_forward x = NULL \<or> (\<exists>y. headers s (ar_forward x) = Some y \<and> ar_used y) \<Longrightarrow> merge_forward s a = Some s"
  by (subst merge_forward.simps) auto

lemma walk_turn:
  "headers s a = Some x \<Longrightarrow> ar_back x \<noteq> NULL \<Longrightarrow> headers s (ar_back x) = Some y \<Longrightarrow>
   walk_back s a = (if ar_used y then Some a else walk_back s (ar_back x))"
  by (subst walk_back.simps) simp

lemma walk_stop: "headers s a = Some x \<Longrightarrow> ar_back x = NULL \<Longrightarrow> walk_back s a = Some a"
  by (subst walk_back.simps) simp

lemma wipe_other:
  assumes "unat p + unat n \<le> unat b" "unat p < unat b" "unat b < unat p + 2 ^ 31"
  shows "wipe p n h b = h b"
proof -
  have "unat (b - p) = unat b - unat p" using assms(2) by (simp add: unat_sub word_le_nat_alt)
  then have "\<not> b - p < n" using assms(1) by (simp add: word_less_nat_alt)
  moreover have "unat (p - b) = 2 ^ 32 + unat p - unat b" using assms(2) unat_lt2p [of b] by (simp add: unat_sub_if')
  then have "\<not> p - b < sizeof_arena" using assms(2,3) by (simp add: word_less_nat_alt sizeof_arena_def)
  ultimately show ?thesis by (simp add: wipe_def)
qed

section \<open>Properties\<close>

text \<open>The bytes of the buffer of a used block.\<close>

definition buffer_of :: "heap \<Rightarrow> addr \<Rightarrow> nat set" where
  "buffer_of s a = (case headers s a of None \<Rightarrow> {} | Some x \<Rightarrow> {unat a + 28..<unat a + 28 + unat (ar_length x)})"

text \<open>
  C8. The kernel heap gives out memory that is nobody else's. In a well-formed heap, if a free block is long enough or new pages
  can hold the request, \<^verbatim>\<open>kmalloc\<close> returns a buffer of at least the size asked for, within the pages of the kernel heap,
  that overlaps no header and no buffer given out before, whose blocks stay as they are; the heap is well-formed again. When
  the back pointers of the blocks lead to blocks, not to headers that a merge has absorbed, \<^verbatim>\<open>kfree\<close> of that buffer succeeds at once, and the blocks in use are those before.
\<close>

theorem kmalloc_kfree:
  assumes "heap_ok s fs us" "back_ok (live s fs us)" "sz \<noteq> 0" "unat sz \<le> 0xF00000"
    "(\<exists>a \<in> set fs. fits s (max MIN_BLOCK_SIZE sz) a) \<or> can_grow s (max MIN_BLOCK_SIZE sz)"
  shows "\<exists>a s1 gs s2 hs. kmalloc s sz = Some (a + sizeof_arena, s1) \<and> heap_ok s1 gs (a # us) \<and>
     {unat (a + sizeof_arena)..<unat (a + sizeof_arena) + unat sz} \<subseteq> buffer_of s1 a \<and> buffer_of s1 a \<subseteq> {heap_base..<heap_top} \<and>
     (\<forall>b \<in> set us. headers s1 b = headers s b \<and> buffer_of s1 a \<inter> ({unat b..<unat b + 28} \<union> buffer_of s1 b) = {}) \<and>
     kfree s1 (a + sizeof_arena) = Some s2 \<and> heap_ok s2 hs us \<and> (\<forall>b \<in> set us. headers s2 b = headers s b)"
proof -
  obtain a s1 gs x where r: "kmalloc s sz = Some (a + sizeof_arena, s1)" "heap_ok s1 gs (a # us)" "headers s1 a = Some x"
      "max MIN_BLOCK_SIZE sz \<le> ar_length x" "back_ok (live s1 gs (a # us))" "\<forall>b \<in> set us. headers s1 b = headers s b"
    using kmalloc_spec [OF assms(1,3,4) refl assms(5)] assms(2) by blast
  have bl: "blocks_ok (heap_mm s1) (live s1 gs (a # us)) (set gs) (set (a # us))" and
    lk: "lists_ok (list_nodes s1) (free_blocks s1) (used_blocks s1) gs (a # us)" using r(2) by (simp_all add: heap_ok_def)
  have la: "live s1 gs (a # us) a = Some x" using r(3) by (simp add: live_at)
  note ok = blocks_okD(1) [OF bl la, unfolded block_ok_def]
  have "unat a + 28 \<le> heap_top" using ok by linarith
  then have u: "unat (a + sizeof_arena) = unat a + 28" by (subst unat_plus_less) (simp_all add: heap_top_def sizeof_arena_def)
  have "sz \<le> ar_length x" using r(4) by simp
  then have in_buf: "{unat (a + sizeof_arena)..<unat (a + sizeof_arena) + unat sz} \<subseteq> buffer_of s1 a"
    using r(3) u by (auto simp: buffer_of_def word_le_nat_alt)
  have rng: "buffer_of s1 a \<subseteq> {heap_base..<heap_top}" using r(3) ok by (auto simp: buffer_of_def)
  have na: "b \<noteq> a" if "b \<in> set us" for b using lists_ok_distinct(2) [OF lk] that by auto
  have sep: "buffer_of s1 a \<inter> ({unat b..<unat b + 28} \<union> buffer_of s1 b) = {}" if b: "b \<in> set us" for b
  proof -
    obtain y where ly: "live s1 gs (a # us) b = Some y" using blocks_ok_live [OF bl, of b] b by auto
    then have y: "headers s1 b = Some y" by (simp add: live_Some)
    have "buffer_of s1 a \<subseteq> span a x" "{unat b..<unat b + 28} \<union> buffer_of s1 b \<subseteq> span b y"
      using r(3) y by (auto simp: buffer_of_def span_def)
    then show ?thesis using blocks_ok_disjoint [OF bl la ly] na [OF b] by blast
  qed
  have "a \<in> set (a # us)" by simp
  from kfree_spec [OF r(2,5) this] obtain s2 hs where "kfree s1 (a + sizeof_arena) = Some s2" "heap_ok s2 hs us"
      "\<forall>b \<in> set us. headers s2 b = headers s1 b" by auto
  then show ?thesis using r(1,2,6) in_buf rng sep by (intro exI [of _ a] exI [of _ s1] exI [of _ gs] exI [of _ s2] exI [of _ hs]) auto
qed

text \<open>
  Some sizes cannot be served. When the size and one header leave less than another header of the last page -- sizes from
  4041 to 4067 modulo 4096 -- new pages never hold the request: unless a free block is already long enough, \<^verbatim>\<open>kmalloc\<close>
  does not return. It takes pages again and again until no run is left and the kernel stops.
\<close>

lemma kmalloc_starves:
  assumes "heap_ok s fs us" "16 \<le> unat sz" "unat sz \<le> 0xF00000" "4068 < (unat sz + 28) mod 4096" "find (fits s sz) fs = None"
  shows "kmalloc s sz = None"
proof -
  have grow: "arena_add_new_pages s sz = None \<or> (\<exists>a s'. arena_add_new_pages s sz = Some s' \<and> heap_ok s' (a # fs) us \<and>
      find (fits s' sz) (a # fs) = None \<and> unat (free_pages (heap_mm s')) < unat (free_pages (heap_mm s)))"
    if ok: "heap_ok s fs us" and nofit: "find (fits s sz) fs = None" for s fs
  proof (cases "\<exists>i. free_run (kernel_map (heap_mm s)) (new_pages sz) i")
    case True
    then obtain i where "free_run (kernel_map (heap_mm s)) (new_pages sz) i" by blast
    from arena_add_new_pages_spec [OF ok this assms(3)] obtain a x s' where n: "arena_add_new_pages s sz = Some s'"
        "heap_ok s' (a # fs) us" "live s fs us a = None" "live s' (a # fs) us = (live s fs us)(a \<mapsto> x)" "headers s' a = Some x" "unat (ar_length x) = 4096 * new_pages sz - 28"
        "unat (free_pages (heap_mm s')) < unat (free_pages (heap_mm s))" by blast
    have s28: "unat (sizeof_arena + sz) = unat sz + 28" using assms(3) by (subst unat_plus_less) (simp_all add: sizeof_arena_def)
    have "\<not> fits s' sz a" using new_pages_room [of "unat sz"] assms(4) n(5,6) s28
      by (simp add: fits_def new_pages_def word_le_nat_alt)
    moreover have "fits s' sz b \<longleftrightarrow> fits s sz b" if "b \<in> set fs" for b
    proof -
      have "b \<noteq> a" using that ok n(3) by (auto simp: heap_ok_def blocks_ok_def)
      then have "headers s' b = headers s b"
        using that n(4) live_at [of b "a # fs" us s'] live_at [of b fs us s] by simp
      then show ?thesis by (simp add: fits_def)
    qed
    ultimately show ?thesis using n nofit by (auto simp: find_None_iff)
  next
    case False
    have c: "unat ((sz + sizeof_arena) div PAGE_SIZE + 1) = new_pages sz"
    proof -
      have "unat (sz + sizeof_arena) = unat sz + 28" using assms(3) by (subst unat_plus_less) (simp_all add: sizeof_arena_def)
      then have "unat ((sz + sizeof_arena) div PAGE_SIZE) = (unat sz + 28) div 4096" by (simp add: unat_div PAGE_SIZE_def)
      moreover have "(unat sz + 28) div 4096 \<le> 0xF00" using assms(3) by simp
      ultimately show ?thesis by (subst unat_plus_less) (simp_all add: new_pages_def)
    qed
    have inv: "bm_inv (kernel_map (heap_mm s))" using ok by (simp add: heap_ok_def mm_inv_def kmap_bits_ok_def)
    obtain m' where "bitmap_scan (kernel_map (heap_mm s)) ((sz + sizeof_arena) div PAGE_SIZE + 1) = Some (EOF, m')"
      using bitmap_scan_spec [OF inv, of "(sz + sizeof_arena) div PAGE_SIZE + 1"] False c by (auto simp: new_pages_def)
    then have "alloc_kpage (heap_mm s) ((sz + sizeof_arena) div PAGE_SIZE + 1) = None" by (auto simp: alloc_kpage_def)
    then show ?thesis by (simp add: arena_add_new_pages_def)
  qed
  have stuck: "refind s sz = None" if "heap_ok s fs us" "find (fits s sz) fs = None" for s fs
    using that
  proof (induction "unat (free_pages (heap_mm s))" arbitrary: s fs rule: less_induct)
    case less
    then show ?case using grow [OF less.prems] refind_step [OF less.prems(1), of sz] by auto
  qed
  have e: "list_empty (list_nodes s) (free_blocks s) = Some (fs = [])"
    using list_empty_spec assms(1) by (fastforce simp: heap_ok_def lists_ok_def)
  have "MIN_BLOCK_SIZE \<le> sz" "sz \<noteq> 0" using assms(2) by (auto simp: word_le_nat_alt MIN_BLOCK_SIZE_def)
  then have run: "kmalloc s sz = do { s \<leftarrow> (if fs = [] then arena_add_new_pages s sz else Some s);
      (p, s) \<leftarrow> refind s sz; take_block s sz p }" using e by (simp add: kmalloc_def)
  then show ?thesis using grow [OF assms(1,5)] stuck assms(1,5) by auto
qed


text \<open>A heap as \<open>aerna_init\<close> leaves it, its list heads at 64 and 96.\<close>

definition fresh_heap :: "mm \<Rightarrow> heap" where
  "fresh_heap m = \<lparr>headers = (\<lambda>_. None),
     list_nodes = (\<lambda>_. \<lparr>prev = 0, next = 0\<rparr>)(64 := \<lparr>prev = 0, next = 72\<rparr>, 72 := \<lparr>prev = 64, next = 0\<rparr>,
       96 := \<lparr>prev = 0, next = 104\<rparr>, 104 := \<lparr>prev = 96, next = 0\<rparr>),
     free_blocks = 64, used_blocks = 96, heap_mm = m\<rparr>"

lemma fresh_heap_ok: "mm_inv m \<Longrightarrow> heap_ok (fresh_heap m) [] [] \<and> back_ok (live (fresh_heap m) [] [])"
  by (simp add: heap_ok_def fresh_heap_def lists_ok_def dlist_def dnodes_def blocks_ok_def back_ok_def heap_base_def live_def)

lemma demo_page: "\<exists>m. mm_inv m \<and> free_run (kernel_map m) 1 2"
proof -
  obtain m where m: "mm_inv m" "free_run (kernel_map m) 3 2" using demo_mm by blast
  have "{2..<2 + 1} \<inter> bm_used (kernel_map m) \<subseteq> {2..<2 + 3} \<inter> bm_used (kernel_map m)" by auto
  moreover have "2 + 3 \<le> bm_size (kernel_map m)" "{2..<2 + 3} \<inter> bm_used (kernel_map m) = {}" using m(2) by (simp_all add: free_run_def)
  ultimately have "free_run (kernel_map m) 1 2" unfolding free_run_def by (intro conjI) (linarith, blast)
  then show ?thesis using m(1) by blast
qed

theorem kmalloc_kfree_witness:
  "\<exists>m a s1 s2. kmalloc (fresh_heap m) 100 = Some (a + sizeof_arena, s1) \<and> kfree s1 (a + sizeof_arena) = Some s2"
proof -
  obtain m where m: "mm_inv m" "free_run (kernel_map m) 1 2" using demo_page by blast
  have n: "max MIN_BLOCK_SIZE 100 = (100 :: u32)" by (simp add: MIN_BLOCK_SIZE_def)
  have g: "can_grow (fresh_heap m) (max MIN_BLOCK_SIZE 100)"
    using m(2) unfolding n by (auto simp: can_grow_def new_pages_def fresh_heap_def)
  have "heap_ok (fresh_heap m) [] []" "back_ok (live (fresh_heap m) [] [])" using fresh_heap_ok [OF m(1)] by simp_all
  from kmalloc_kfree [OF this, of 100] g show ?thesis by auto
qed

lemma kmalloc_starves_witness:
  "\<exists>m. kmalloc (fresh_heap m) 4050 = None"
proof -
  obtain m where m: "mm_inv m" using demo_mm by blast
  then have "heap_ok (fresh_heap m) [] []" using fresh_heap_ok by simp
  from kmalloc_starves [OF this, of 4050] show ?thesis by auto
qed


text \<open>
  Three blocks taken in a row from the free block \<open>a\<close> at the front of the list, the second given back, then the first: the
  first has absorbed the second, whose header lies unchanged in the buffer of the first, and the third still points back to it.
\<close>

lemma merged_header_left:
  assumes ok: "heap_ok s (a # fs) us" and x: "headers s a = Some x" "ar_back x = NULL" and n: "16 \<le> unat n" "3 * (unat n + 28) + 16 \<le> unat (ar_length x)"
  shows "\<exists>s1 b s2 c s3 s4 s5 d A B C D. kmalloc s n = Some (a + sizeof_arena, s1) \<and> kmalloc s1 n = Some (b + sizeof_arena, s2) \<and>
     kmalloc s2 n = Some (c + sizeof_arena, s3) \<and> kfree s3 (b + sizeof_arena) = Some s4 \<and> kfree s4 (a + sizeof_arena) = Some s5 \<and>
     heap_ok s5 (a # d # fs) (c # us) \<and> headers s5 a = Some A \<and> headers s5 b = Some B \<and> headers s5 c = Some C \<and> headers s5 d = Some D \<and>
     (ar_back A = NULL \<and> ar_forward A = c \<and> unat (ar_length A) = 2 * unat n + 28) \<and>
     (ar_back B = a \<and> ar_forward B = c \<and> \<not> ar_used B) \<and> (ar_back C = b \<and> ar_forward C = d \<and> ar_used C \<and> ar_length C = n) \<and>
     (ar_forward D = ar_forward x \<and> \<not> ar_used D \<and> unat (ar_length D) = unat (ar_length x) - 3 * (unat n + 28)) \<and>
     unat b = unat a + 28 + unat n \<and> unat c = unat b + 28 + unat n \<and> unat d = unat c + 28 + unat n \<and>
     free_blocks s5 = free_blocks s \<and> used_blocks s5 = used_blocks s"
proof -
  have nn: "unat n + 44 \<le> unat (ar_length x)" using n(2) by simp
  obtain s1 b where s1: "kmalloc s n = Some (a + sizeof_arena, s1)" "heap_ok s1 (b # fs) (a # us)"
      "headers s1 a = Some (x\<lparr>ar_used := True, ar_forward := b, ar_length := n\<rparr>)" "headers s1 b = Some (rest_block a x n)"
      "unat b = unat a + 28 + unat n" "unat (ar_length (rest_block a x n)) = unat (ar_length x) - unat n - 28"
      "free_blocks s1 = free_blocks s" "used_blocks s1 = used_blocks s"
    using kmalloc_front [OF ok x(1) n(1) nn] by blast
  define y where "y = rest_block a x n"
  have hb: "headers s1 b = Some y" by (simp add: s1(4) y_def)
  have ly: "unat (ar_length y) = unat (ar_length x) - unat n - 28" using s1(6) by (simp add: y_def)
  then have "unat n + 44 \<le> unat (ar_length y)" using n(2) by simp
  from kmalloc_front [OF s1(2) hb n(1) this] obtain s2 c where
    s2: "kmalloc s1 n = Some (b + sizeof_arena, s2)" "heap_ok s2 (c # fs) (b # a # us)"
      "headers s2 b = Some (y\<lparr>ar_used := True, ar_forward := c, ar_length := n\<rparr>)" "headers s2 c = Some (rest_block b y n)"
      "\<forall>e \<in> set fs \<union> set (a # us). headers s2 e = headers s1 e" "unat c = unat b + 28 + unat n"
      "unat (ar_length (rest_block b y n)) = unat (ar_length y) - unat n - 28" "free_blocks s2 = free_blocks s1" "used_blocks s2 = used_blocks s1"
    by blast
  define z where "z = rest_block b y n"
  have hc: "headers s2 c = Some z" by (simp add: s2(4) z_def)
  have lz: "unat (ar_length z) = unat (ar_length y) - unat n - 28" using s2(7) by (simp add: z_def)
  then have "unat n + 44 \<le> unat (ar_length z)" using ly n(2) by simp
  from kmalloc_front [OF s2(2) hc n(1) this] obtain s3 d where
    s3: "kmalloc s2 n = Some (c + sizeof_arena, s3)" "heap_ok s3 (d # fs) (c # b # a # us)"
      "headers s3 c = Some (z\<lparr>ar_used := True, ar_forward := d, ar_length := n\<rparr>)" "headers s3 d = Some (rest_block c z n)"
      "\<forall>e \<in> set fs \<union> set (b # a # us). headers s3 e = headers s2 e" "unat d = unat c + 28 + unat n"
      "unat (ar_length (rest_block c z n)) = unat (ar_length z) - unat n - 28" "free_blocks s3 = free_blocks s2" "used_blocks s3 = used_blocks s2"
    by blast
  define D where "D = rest_block c z n"
  let ?A = "x\<lparr>ar_used := True, ar_forward := b, ar_length := n\<rparr>" and ?B = "y\<lparr>ar_used := True, ar_forward := c, ar_length := n\<rparr>"
    and ?C = "z\<lparr>ar_used := True, ar_forward := d, ar_length := n\<rparr>"
  have h3: "headers s3 a = Some ?A" "headers s3 b = Some ?B" "headers s3 c = Some ?C" "headers s3 d = Some D"
    using s1(3) s2(3,5) s3(3-5) by (simp_all add: D_def)
  have ne: "c \<noteq> a" "d \<noteq> a" "d \<noteq> b" "d \<noteq> c" "a \<noteq> b" "b \<noteq> c" "b \<noteq> NULL" "a \<noteq> NULL" "c \<noteq> NULL"
  proof -
    show "c \<noteq> a" "d \<noteq> a" "d \<noteq> b" "d \<noteq> c" "a \<noteq> b" "b \<noteq> c" "b \<noteq> NULL" "c \<noteq> NULL" using s1(5) s2(6) s3(6) by auto
    have "heap_base \<le> unat a" using ok x(1) blocks_okD(1) [of _ _ _ _ a x] by (fastforce simp: heap_ok_def block_ok_def live_Some)
    then show "a \<noteq> NULL" by (auto simp: heap_base_def)
  qed
  have bk: "ar_back y = a" "ar_back z = b" "ar_forward D = ar_forward x" "\<not> ar_used D"
    by (simp_all add: y_def z_def D_def rest_block_def)
  obtain t4 where t4: "kfree s3 (b + sizeof_arena) = Option.bind (walk_back t4 b) (merge_forward t4)"
      "heap_ok t4 (b # d # fs) (c # a # us)" "headers t4 = (headers s3)(b \<mapsto> ?B\<lparr>ar_used := False\<rparr>)"
      "free_blocks t4 = free_blocks s3" "used_blocks t4 = used_blocks s3"
    using kfree_release [OF s3(2) _ h3(2)] ne by auto
  have h4: "headers t4 a = Some ?A" "headers t4 b = Some (?B\<lparr>ar_used := False\<rparr>)" "headers t4 c = Some ?C" "headers t4 d = Some D"
    using t4(3) h3 ne by simp_all
  have "walk_back t4 b = Some b" using walk_turn [OF h4(2) _ _] h4(1) bk ne by simp
  moreover have "merge_forward t4 b = Some t4" using merge_stop [OF h4(2)] h4(3) by simp
  ultimately have f4: "kfree s3 (b + sizeof_arena) = Some t4" using t4(1) by simp
  obtain t5 where t5: "kfree t4 (a + sizeof_arena) = Option.bind (walk_back t5 a) (merge_forward t5)"
      "heap_ok t5 (a # b # d # fs) (c # us)" "headers t5 = (headers t4)(a \<mapsto> ?A\<lparr>ar_used := False\<rparr>)"
      "free_blocks t5 = free_blocks t4" "used_blocks t5 = used_blocks t4"
    using kfree_release [OF t4(2) _ h4(1)] ne by auto
  have h5: "headers t5 a = Some (?A\<lparr>ar_used := False\<rparr>)" "headers t5 b = Some (?B\<lparr>ar_used := False\<rparr>)" "headers t5 c = Some ?C" "headers t5 d = Some D"
    using t5(3) h4 ne by simp_all
  have wa: "walk_back t5 a = Some a" using walk_stop [OF h5(1)] x(2) by simp
  let ?M = "?A\<lparr>ar_used := False, ar_length := n + (n + sizeof_arena), ar_forward := c\<rparr>"
  obtain s5 where s5: "merge_forward t5 a = merge_forward s5 a" "heap_ok s5 (a # d # fs) (c # us)"
      "headers s5 = (headers t5)(a \<mapsto> ?M)" "free_blocks s5 = free_blocks t5" "used_blocks s5 = used_blocks t5"
    using merge_step [OF t5(2) _ h5(1) _ _ h5(2)] ne by auto
  have e5: "headers s5 a = Some ?M" "headers s5 b = Some (?B\<lparr>ar_used := False\<rparr>)" "headers s5 c = Some ?C" "headers s5 d = Some D"
    using s5(3) h5 ne by simp_all
  have "merge_forward s5 a = Some s5" using merge_stop [OF e5(1)] e5(3) by simp
  then have f5: "kfree t4 (a + sizeof_arena) = Some s5" using t5(1) wa s5(1) by simp
  have "3 * (unat n + 28) + 16 < 2 ^ 32" using n(2) unat_lt2p [of "ar_length x"] by simp
  then have len: "unat (n + (n + sizeof_arena)) = 2 * unat n + 28"
    by (subst unat_plus_less; (subst unat_plus_less)?) (simp_all add: sizeof_arena_def)
  have lD: "unat (ar_length D) = unat (ar_length x) - 3 * (unat n + 28)" using s3(7) lz ly by (simp add: D_def)
  show ?thesis
    by (intro exI conjI, rule s1(1), rule s2(1), rule s3(1), rule f4, rule f5, rule s5(2), rule e5(1), rule e5(2), rule e5(3), rule e5(4))
      (use x(2) bk len lD s1 s2 s3 t4 t5 s5 in simp_all)
qed

lemma list_remove_unlinked: "unlinked h n \<Longrightarrow> list_remove h n = None"
  by (auto simp: unlinked_def list_remove_def get_prev_def)

lemma kmalloc_front_keeps:
  assumes "heap_ok s (a # fs) us" "headers s a = Some x" "16 \<le> unat m" "unat m + 44 \<le> unat (ar_length x)"
    and b: "unat a + 56 + unat m \<le> unat b" "unat b < unat a + 2 ^ 30"
  shows "\<exists>t e. kmalloc s m = Some (a + sizeof_arena, t) \<and> heap_ok t (e # fs) (a # us) \<and>
     headers t a = Some (x\<lparr>ar_used := True, ar_forward := e, ar_length := m\<rparr>) \<and> headers t e = Some (rest_block a x m) \<and>
     (\<forall>c \<in> insert b (set fs \<union> set us). headers t c = headers s c) \<and> e \<notin> insert a (set fs \<union> set us) \<and> unat e = unat a + 28 + unat m \<and>
     unat (ar_length (rest_block a x m)) = unat (ar_length x) - unat m - 28"
proof -
  obtain t e where t: "kmalloc s m = Some (a + sizeof_arena, t)" "heap_ok t (e # fs) (a # us)"
      "headers t a = Some (x\<lparr>ar_used := True, ar_forward := e, ar_length := m\<rparr>)" "headers t e = Some (rest_block a x m)"
      "\<forall>b \<in> set fs \<union> set us. headers t b = headers s b" "e \<notin> insert a (set fs \<union> set us)"
      "headers t = wipe (a + sizeof_arena) m (place e (rest_block a x m) ((headers s)(a \<mapsto> x\<lparr>ar_used := True, ar_forward := e, ar_length := m\<rparr>)))"
      "unat e = unat a + 28 + unat m" "unat (ar_length (rest_block a x m)) = unat (ar_length x) - unat m - 28"
    using kmalloc_front [OF assms(1-4)] by blast
  have "unat a + 28 < 2 ^ 32" using t(8) unat_lt2p [of e] by simp
  then have p: "unat (a + sizeof_arena) = unat a + 28" by (subst unat_plus_less) (simp_all add: sizeof_arena_def)
  have be: "b \<noteq> e" "b \<noteq> a" using b(1) t(8) by auto
  have "headers t b = place e (rest_block a x m) ((headers s)(a \<mapsto> x\<lparr>ar_used := True, ar_forward := e, ar_length := m\<rparr>)) b"
    unfolding t(7) by (rule wipe_other) (use b p in simp_all)
  also have "\<dots> = ((headers s)(a \<mapsto> x\<lparr>ar_used := True, ar_forward := e, ar_length := m\<rparr>)) b"
    unfolding place_def fun_upd_other [OF be(1)] by (rule wipe_other) (use b t(8) in \<open>simp_all add: sizeof_arena_def\<close>)
  finally have "headers t b = headers s b" using be(2) by simp
  then show ?thesis using t by (intro exI [of _ t] exI [of _ e]) simp
qed

text \<open>Giving back block \<open>c\<close> whose back pointer leads to a left-over header \<open>b\<close> of an unused block behind the used block \<open>a\<close>.\<close>

lemma kfree_into_left_over:
  assumes ok: "heap_ok s (e # d # fs) (a # c # us)"
    and h: "headers s a = Some A" "headers s b = Some B" "headers s c = Some C" "headers s d = Some D" "headers s e = Some E"
    and A: "ar_used A" and B: "ar_back B = a" "ar_forward B = c" "\<not> ar_used B" and C: "ar_back C = b" "ar_forward C = d"
    and D: "ar_forward D = NULL" "\<not> ar_used D" and ne: "a \<noteq> NULL" "b \<noteq> NULL" "c \<noteq> NULL" "d \<noteq> NULL" "b \<notin> {a, c, d, e}"
  shows "\<exists>t. kfree s (c + sizeof_arena) = Some t \<and> lists_ok (list_nodes t) (free_blocks t) (used_blocks t) (e # fs) (a # us) \<and>
     headers t a = Some A \<and> headers t c = Some (C\<lparr>ar_used := False\<rparr>) \<and> headers t d = Some D \<and> headers t e = Some E \<and>
     c \<notin> set (a # e # d # fs @ us) \<and> d \<notin> set (a # e # fs @ us) \<and> unlinked (list_nodes t) (list_of c) \<and>
     no_end (free_blocks t) (used_blocks t) (list_of c)"
proof -
  let ?F = "free_blocks s" and ?U = "used_blocks s"
  have lk: "lists_ok (list_nodes s) ?F ?U (e # d # fs) (a # c # us)" using ok by (simp add: heap_ok_def)
  note dis = lists_ok_distinct [OF lk]
  have bn: "b \<noteq> a" "b \<noteq> c" "b \<noteq> d" "d \<noteq> b" "a \<noteq> b" "c \<noteq> b" "e \<noteq> b" using ne(5) by auto
  have apart: "c \<notin> set (a # e # d # fs @ us)" "d \<notin> set (a # e # fs @ us)" "e \<notin> set fs" "a \<noteq> c" "a \<noteq> e" using dis by auto
  have cin: "c \<in> set (a # c # us)" by simp
  let ?C = "C\<lparr>ar_used := False\<rparr>"
  obtain t7 where t7: "kfree s (c + sizeof_arena) = Option.bind (walk_back t7 c) (merge_forward t7)"
      "heap_ok t7 (c # e # d # fs) (a # us)" "headers t7 = (headers s)(c \<mapsto> ?C)" "free_blocks t7 = ?F" "used_blocks t7 = ?U"
    using kfree_release [OF ok cin h(3)] apart(4) by auto
  have h7: "headers t7 a = Some A" "headers t7 b = Some B" "headers t7 c = Some ?C" "headers t7 d = Some D" "headers t7 e = Some E"
    using h t7(3) apart ne(5) by auto
  have "walk_back t7 c = walk_back t7 b" using walk_turn [OF h7(3), of B] C(1) h7(2) B(3) ne(2) by simp
  also have "\<dots> = Some b" using walk_turn [OF h7(2), of A] B(1) h7(1) A ne(1) by simp
  finally have w: "walk_back t7 c = Some b" .
  have lk7: "lists_ok (list_nodes t7) ?F ?U (c # e # d # fs) (a # us)" using t7(2,4,5) by (simp add: heap_ok_def)
  obtain l1 where l1: "list_remove (list_nodes t7) (list_of c) = Some l1" "lists_ok l1 ?F ?U (e # d # fs) (a # us)" "unlinked l1 (list_of c)"
    using lists_remove [OF lk7, of c] by auto
  obtain l2 where l2: "list_remove l1 (list_of d) = Some l2" "lists_ok l2 ?F ?U (e # fs) (a # us)"
      "\<forall>n. outside ?F ?U (set (e # d # fs)) n \<longrightarrow> l2 n = l1 n"
    using lists_remove [OF l1(2), of d] apart by auto
  have noe: "no_end ?F ?U (list_of c)" using lists_no_end [OF lk7, of c] by simp
  then have "outside ?F ?U (set (e # d # fs)) (list_of c)" using apart(1) by (auto simp: outside_def)
  then have un: "unlinked l2 (list_of c)" using l1(3) l2(3) by (simp add: unlinked_def)
  let ?B1 = "B\<lparr>ar_length := ar_length B + (ar_length ?C + sizeof_arena), ar_forward := d\<rparr>"
  let ?B2 = "?B1\<lparr>ar_length := ar_length ?B1 + (ar_length D + sizeof_arena), ar_forward := NULL\<rparr>"
  let ?t8 = "t7\<lparr>list_nodes := l1, headers := (headers t7)(b \<mapsto> ?B1)\<rparr>"
  let ?t = "?t8\<lparr>list_nodes := l2, headers := (headers ?t8)(b \<mapsto> ?B2)\<rparr>"
  have "merge_forward t7 b = merge_forward ?t8 b"
    using merge_turn [OF h7(2), of ?C] B(2) ne(3) h7(3) l1(1) C(2) by simp
  also have "\<dots> = merge_forward ?t b"
    using merge_turn [of ?t8 b ?B1 D] by (simp add: h7(4) ne(4) bn D l2(1))
  also have "\<dots> = Some ?t" by (rule merge_stop [of _ _ ?B2]) simp_all
  finally have run: "kfree s (c + sizeof_arena) = Some ?t" using t7(1) w by simp
  show ?thesis
    by (rule exI [of _ ?t]) (use run l2(2) apart un noe in \<open>simp add: t7(4,5) h7 bn\<close>)
qed

text \<open>Giving back block \<open>a\<close> when the free block behind it is followed by an unused block that is in no list.\<close>

lemma kfree_unlinked_stops:
  assumes lk: "lists_ok (list_nodes s) (free_blocks s) (used_blocks s) (e # fs) (a # us)"
    and h: "headers s a = Some A" "headers s e = Some E" "headers s c = Some C"
    and A: "ar_back A = NULL" "ar_forward A = e" and E: "ar_forward E = c" "\<not> ar_used E" "ar_magic E = ARENA_MAGIC" and C: "\<not> ar_used C"
    and un: "unlinked (list_nodes s) (list_of c)" "no_end (free_blocks s) (used_blocks s) (list_of c)" "c \<notin> set (a # e # fs @ us)"
    and ne: "e \<noteq> NULL" "c \<noteq> NULL" "a + sizeof_arena \<noteq> NULL"
  shows "kfree s (a + sizeof_arena) = None"
proof -
  let ?F = "free_blocks s" and ?U = "used_blocks s"
  note dis = lists_ok_distinct [OF lk]
  have ain: "a \<in> set (a # us)" by simp
  obtain h1 h2 where m: "list_remove (list_nodes s) (list_of a) = Some h1" "list_push h1 ?F (list_of a) = Some h2"
      "lists_ok h2 ?F ?U (a # e # fs) us" "\<forall>n. outside ?U ?F (set (a # us) \<union> set (e # fs)) n \<longrightarrow> h2 n = list_nodes s n"
    using lists_move [OF lists_ok_swap [OF lk] ain] lists_ok_swap by fastforce
  have "e \<in> set (a # e # fs)" by simp
  then obtain l3 where l3: "list_remove h2 (list_of e) = Some l3" "\<forall>n. outside ?F ?U (set (a # e # fs)) n \<longrightarrow> l3 n = h2 n"
    using lists_remove [OF m(3)] by blast
  have out: "outside ?F ?U (set (a # e # fs) \<union> set us) (list_of c)" using un(2,3) by (auto simp: outside_def)
  then have "outside ?F ?U (set (a # e # fs)) (list_of c)" "outside ?U ?F (set (a # us) \<union> set (e # fs)) (list_of c)"
    using outside_mono(2) [of ?U ?F] by (auto intro: outside_mono(1) [OF out])
  then have un3: "unlinked l3 (list_of c)" using un(1) l3(2) m(4) by (simp add: unlinked_def)
  let ?A = "A\<lparr>ar_used := False\<rparr>"
  let ?t = "s\<lparr>list_nodes := h2, headers := (headers s)(a \<mapsto> ?A)\<rparr>"
  have ea: "e \<noteq> a" "c \<noteq> a" using dis un(3) by auto
  have "list_search (list_nodes s) ?U (list_of a) = Some True" using lists_search [OF lk] by simp
  then have rel: "kfree s (a + sizeof_arena) = Option.bind (walk_back ?t a) (merge_forward ?t)"
    using ne(3) h(1,2) A(2) ne(1) E(3) m(1,2) by (simp add: kfree_def Let_def)
  have w: "walk_back ?t a = Some a" by (rule walk_stop [of _ _ ?A]) (use A(1) in simp_all)
  let ?A2 = "?A\<lparr>ar_length := ar_length ?A + (ar_length E + sizeof_arena), ar_forward := c\<rparr>"
  let ?t2 = "?t\<lparr>list_nodes := l3, headers := (headers ?t)(a \<mapsto> ?A2)\<rparr>"
  have "merge_forward ?t a = merge_forward ?t2 a"
    using merge_turn [of ?t a ?A E] A(2) h(2) ne(1) E(1,2) l3(1) ea by simp
  also have "\<dots> = None"
    using merge_turn [of ?t2 a ?A2 C] h(3) ne(2) C ea list_remove_unlinked [OF un3] by simp
  finally show ?thesis using rel w by simp
qed

text \<open>
  C26. A header that a merge has left behind is used again. Three blocks of \<open>n\<close> bytes are taken from a free block \<open>a\<close> without a
  block behind it, the second and then the first are given back, and \<open>m\<close> bytes, at least 28 fewer than \<open>n\<close>, are taken again. When the third block is
  given back, \<^verbatim>\<open>kfree\<close> follows its back pointer to the header of the second, which now lies in the buffer of the free block \<open>e\<close>, finds it unused, and merges
  the third block \<open>c\<close> and the free memory \<open>d\<close> behind it into that header, which is in no list: both are unused and in
  neither list any more, so no later call can hand them out. When then the first block is given back, \<^verbatim>\<open>kfree\<close> merges \<open>e\<close>, takes the third block for a free neighbour
  and the assertion of \<^verbatim>\<open>list_remove\<close> stops the kernel.
\<close>

theorem kfree_stale_back:
  assumes "heap_ok s (a # fs) us" "headers s a = Some x" "ar_back x = NULL" "ar_forward x = NULL"
    "16 \<le> unat m" "unat m + 28 \<le> unat n" "3 * (unat n + 28) + 16 \<le> unat (ar_length x)"
  shows "\<exists>s1 b s2 c s3 s4 s5 s6 s7 d e C D. kmalloc s n = Some (a + sizeof_arena, s1) \<and> kmalloc s1 n = Some (b + sizeof_arena, s2) \<and>
     kmalloc s2 n = Some (c + sizeof_arena, s3) \<and> kfree s3 (b + sizeof_arena) = Some s4 \<and> kfree s4 (a + sizeof_arena) = Some s5 \<and>
     kmalloc s5 m = Some (a + sizeof_arena, s6) \<and> kfree s6 (c + sizeof_arena) = Some s7 \<and>
     lists_ok (list_nodes s7) (free_blocks s7) (used_blocks s7) (e # fs) (a # us) \<and> unat b \<in> buffer_of s7 e \<and>
     (\<forall>k \<in> {c, d}. k \<notin> set (e # fs) \<and> k \<notin> set (a # us)) \<and> headers s7 c = Some C \<and> headers s7 d = Some D \<and> \<not> ar_used C \<and> \<not> ar_used D \<and>
     unat (ar_length C) + unat (ar_length D) = unat (ar_length x) - 2 * unat n - 84 \<and>
     kfree s7 (a + sizeof_arena) = None"
proof -
  have "16 \<le> unat n" using assms(5,6) by simp
  from merged_header_left [OF assms(1-3) this assms(7)] obtain s1 b s2 c s3 s4 s5 d A B C D where
    runs: "kmalloc s n = Some (a + sizeof_arena, s1)" "kmalloc s1 n = Some (b + sizeof_arena, s2)"
      "kmalloc s2 n = Some (c + sizeof_arena, s3)" "kfree s3 (b + sizeof_arena) = Some s4" "kfree s4 (a + sizeof_arena) = Some s5" and
    ok5: "heap_ok s5 (a # d # fs) (c # us)" and h5: "headers s5 a = Some A" "headers s5 b = Some B" "headers s5 c = Some C" "headers s5 d = Some D" and
    A: "ar_back A = NULL" "ar_forward A = c" "unat (ar_length A) = 2 * unat n + 28" and B: "ar_back B = a" "ar_forward B = c" "\<not> ar_used B" and
    C: "ar_back C = b" "ar_forward C = d" "ar_used C" "ar_length C = n" and D: "ar_forward D = NULL" "\<not> ar_used D" "unat (ar_length D) = unat (ar_length x) - 3 * (unat n + 28)" and
    u: "unat b = unat a + 28 + unat n" "unat c = unat b + 28 + unat n" "unat d = unat c + 28 + unat n"
    unfolding assms(4) by (elim exE conjE) (rule that)
  have ha: "heap_base \<le> unat a" "unat d \<le> heap_top"
    using ok5 h5(1,4) blocks_okD(1) [of _ _ _ _ a A] blocks_okD(1) [of _ _ _ _ d D] by (fastforce simp: heap_ok_def block_ok_def live_Some)+
  then have ne: "a \<noteq> NULL" "b \<noteq> NULL" "c \<noteq> NULL" "d \<noteq> NULL" "b \<noteq> a" "b \<noteq> c" "b \<noteq> d" "c \<noteq> d" "a + sizeof_arena \<noteq> NULL"
  proof -
    show "a \<noteq> NULL" using ha(1) by (auto simp: heap_base_def)
    show "b \<noteq> NULL" "c \<noteq> NULL" "d \<noteq> NULL" "b \<noteq> a" "b \<noteq> c" "b \<noteq> d" "c \<noteq> d" using u by auto
    have "unat (a + sizeof_arena) = unat a + 28"
      using u ha(2) by (subst unat_plus_less) (simp_all add: heap_top_def sizeof_arena_def)
    then show "a + sizeof_arena \<noteq> NULL" by (metis add_is_0 unat_0 zero_neq_numeral)
  qed
  have bnd: "unat m + 44 \<le> unat (ar_length A)" "unat a + 56 + unat m \<le> unat b" "unat b < unat a + 2 ^ 30"
    using A(3) assms(6) u ha by (simp_all add: heap_base_def heap_top_def)
  obtain s6 e where s6: "kmalloc s5 m = Some (a + sizeof_arena, s6)" "heap_ok s6 (e # d # fs) (a # c # us)"
      "headers s6 a = Some (A\<lparr>ar_used := True, ar_forward := e, ar_length := m\<rparr>)" "headers s6 e = Some (rest_block a A m)"
      "\<forall>k \<in> insert b (set (d # fs) \<union> set (c # us)). headers s6 k = headers s5 k" "unat e = unat a + 28 + unat m"
      "unat (ar_length (rest_block a A m)) = unat (ar_length A) - unat m - 28"
    using kmalloc_front_keeps [OF ok5 h5(1) assms(5) bnd] by blast
  let ?E = "rest_block a A m"
  have "headers s6 b = Some B" "headers s6 c = Some C" "headers s6 d = Some D" using s6(5) h5 by simp_all
  moreover have "b \<notin> {a, c, d, e}" "e \<noteq> NULL" using ne s6(6) u assms(6) by auto
  ultimately obtain s7 where s7: "kfree s6 (c + sizeof_arena) = Some s7" "lists_ok (list_nodes s7) (free_blocks s7) (used_blocks s7) (e # fs) (a # us)"
      "headers s7 a = Some (A\<lparr>ar_used := True, ar_forward := e, ar_length := m\<rparr>)" "headers s7 c = Some (C\<lparr>ar_used := False\<rparr>)"
      "headers s7 d = Some D" "headers s7 e = Some ?E" "c \<notin> set (a # e # d # fs @ us)" "d \<notin> set (a # e # fs @ us)"
      "unlinked (list_nodes s7) (list_of c)" "no_end (free_blocks s7) (used_blocks s7) (list_of c)"
    using kfree_into_left_over [OF s6(2,3) _ _ _ s6(4) _ B C(1,2) D(1,2)] ne by auto
  have stop: "kfree s7 (a + sizeof_arena) = None"
    by (rule kfree_unlinked_stops [OF s7(2,3,6,4)]) (use A s7 ne \<open>e \<noteq> NULL\<close> in \<open>simp_all add: rest_block_def\<close>)
  have "unat b \<in> buffer_of s7 e" using s7(6) s6(6,7) A(3) u assms(6) by (simp add: buffer_of_def)
  moreover have "unat (ar_length (C\<lparr>ar_used := False\<rparr>)) + unat (ar_length D) = unat (ar_length x) - 2 * unat n - 84"
    using C(4) D(3) assms(7) by simp
  moreover have "\<forall>k \<in> {c, d}. k \<notin> set (e # fs) \<and> k \<notin> set (a # us)" using s7(7,8) by auto
  moreover have "\<not> ar_used (C\<lparr>ar_used := False\<rparr>)" by simp
  ultimately show ?thesis using runs s6(1) s7(1,2,4,5) D(2) stop by blast
qed

text \<open>A heap of one free page.\<close>

lemma one_page_heap:
  obtains s a x where "heap_ok s [a] []" "headers s a = Some x" "ar_back x = NULL" "ar_forward x = NULL" "unat (ar_length x) = 4068"
proof -
  obtain m where m: "mm_inv m" "free_run (kernel_map m) 1 2" using demo_page by blast
  have ok: "heap_ok (fresh_heap m) [] []" using fresh_heap_ok [OF m(1)] by simp
  have n: "new_pages 100 = 1" by (simp add: new_pages_def)
  have "free_run (kernel_map (heap_mm (fresh_heap m))) (new_pages 100) 2" using m(2) by (simp add: n fresh_heap_def)
  from arena_add_new_pages_spec [OF ok this] obtain a x s' where "heap_ok s' [a] []" "headers s' a = Some x"
      "unat (ar_length x) = 4096 * new_pages 100 - 28" "ar_back x = NULL" "ar_forward x = NULL" by auto
  then show ?thesis using that n by simp
qed

theorem kfree_stale_back_witness:
  "\<exists>s a s1 b s2 c s3 s4 s5 s6 s7. kmalloc s 64 = Some (a + sizeof_arena, s1) \<and> kmalloc s1 64 = Some (b + sizeof_arena, s2) \<and>
     kmalloc s2 64 = Some (c + sizeof_arena, s3) \<and> kfree s3 (b + sizeof_arena) = Some s4 \<and> kfree s4 (a + sizeof_arena) = Some s5 \<and>
     kmalloc s5 16 = Some (a + sizeof_arena, s6) \<and> kfree s6 (c + sizeof_arena) = Some s7 \<and> kfree s7 (a + sizeof_arena) = None"
proof -
  obtain s a x where s: "heap_ok s [a] []" "headers s a = Some x" "ar_back x = NULL" "ar_forward x = NULL" "unat (ar_length x) = 4068"
    by (rule one_page_heap)
  have "16 \<le> unat (16 :: u32)" "unat (16 :: u32) + 28 \<le> unat (64 :: u32)" "3 * (unat (64 :: u32) + 28) + 16 \<le> unat (ar_length x)"
    using s(5) by simp_all
  from kfree_stale_back [OF s(1-4) this] show ?thesis by blast
qed

end
