(* ===== verification/Execve.thy ===== *)
theory Execve
  imports File_Ops Paging Strings
begin

text \<open>
  Starting a program: \<^verbatim>\<open>src/kernel/execve.c\<close>, with the ELF format of \<^verbatim>\<open>src/include/lib/elf.h\<close>.

  The state puts the file system of theory Vfs, the memory manager of theories Memory and Paging and the
  bytes that loads and stores of the current task reach (theory Strings) side by side; \<open>on_mm\<close> runs an operation of the memory
  manager on the tasks of the file system. A user page that was just linked, or comes with a page fault,
  holds whatever its frame held before: \<open>junk\<close> says what, for all of user space at once, when \<^verbatim>\<open>fork_clean\<close>
  gives the old pages away. For theory Process the state also has the page of every task's \<open>vmap\<close> and the
  foreground group of every terminal.

  Shown: the new program finds its arguments and environment; a program whose first header is not loadable
  is started without any of its segments.
\<close>

section \<open>State\<close>

record proc =
  fs_part :: vfs
  mm_part :: mm
  bytes_of :: mem
  vmap_page :: "nat \<Rightarrow> u32"
  tty_pgid :: "u32 \<Rightarrow> u32"

definition on_mm :: "(mm \<Rightarrow> mm option) \<Rightarrow> proc \<Rightarrow> proc option" where
  "on_mm f s = do {
     m \<leftarrow> f ((mm_part s)\<lparr>mm_kern := kern_of (fs_part s)\<rparr>);
     Some (s\<lparr>mm_part := m, fs_part := set_kern (fs_part s) (mm_kern m)\<rparr>) }"

definition on_fs :: "(vfs \<Rightarrow> vfs option) \<Rightarrow> proc \<Rightarrow> proc option" where
  "on_fs f s = do { v \<leftarrow> f (fs_part s); Some (s\<lparr>fs_part := v\<rparr>) }"

definition on_task :: "(task \<Rightarrow> task) \<Rightarrow> proc \<Rightarrow> proc option" where
  "on_task f s = on_fs (\<lambda>v. do { t \<leftarrow> get_current (kern_of v); Some (set_kern v (put_task (kern_of v) (cur (kern_of v)) (f t))) }) s"

text \<open>Bytes that \<^verbatim>\<open>inode_read\<close> copies to an address.\<close>

fun store_bytes :: "mem \<Rightarrow> u32 \<Rightarrow> u8 list \<Rightarrow> mem" where
  "store_bytes m a [] = m"
| "store_bytes m a (b # bs) = store_bytes (m(a := b)) (a + 1) bs"

definition read_to :: "proc \<Rightarrow> nat \<Rightarrow> u32 \<Rightarrow> u32 \<Rightarrow> u32 \<Rightarrow> (u32 \<times> proc) option" where
  "read_to s n a len offset = do {
     (r, out, v) \<leftarrow> inode_read (fs_part s) n len offset;
     Some (r, s\<lparr>fs_part := v, bytes_of := store_bytes (bytes_of s) a out\<rparr>) }"

definition peek16 :: "mem \<Rightarrow> u32 \<Rightarrow> u16" where
  "peek16 m a = ucast (m a) OR push_bit 8 (ucast (m (a + 1)))"

section \<open>ELF\<close>

definition ET_EXEC :: u16 where "ET_EXEC = 2"
definition EM_386 :: u16 where "EM_386 = 3"
definition EV_CURRENT :: u32 where "EV_CURRENT = 1"
definition PT_LOAD :: u32 where "PT_LOAD = 1"
definition PF_X :: u32 where "PF_X = 1"
definition PF_W :: u32 where "PF_W = 2"
definition PF_R :: u32 where "PF_R = 4"

text \<open>The members of the two headers at their offsets.\<close>

record elf_header =
  e_type :: u16
  e_machine :: u16
  e_version :: u32
  e_entry :: u32
  e_phoff :: u32
  e_phentsize :: u16
  e_phnum :: u16

definition sizeof_ehdr :: u32 where "sizeof_ehdr = 52"

definition ehdr_at :: "mem \<Rightarrow> u32 \<Rightarrow> elf_header" where
  "ehdr_at m a = \<lparr>e_type = peek16 m (a + 16), e_machine = peek16 m (a + 18), e_version = peek32 m (a + 20),
     e_entry = peek32 m (a + 24), e_phoff = peek32 m (a + 28), e_phentsize = peek16 m (a + 42), e_phnum = peek16 m (a + 44)\<rparr>"

record prog_header =
  p_type :: u32
  p_offset :: u32
  p_vaddr :: u32
  p_filesz :: u32
  p_memsz :: u32
  p_flags :: u32
  p_align :: u32

definition sizeof_phdr :: u32 where "sizeof_phdr = 32"

definition phdr_at :: "mem \<Rightarrow> u32 \<Rightarrow> prog_header" where
  "phdr_at m a = \<lparr>p_type = peek32 m a, p_offset = peek32 m (a + 4), p_vaddr = peek32 m (a + 8),
     p_filesz = peek32 m (a + 16), p_memsz = peek32 m (a + 20), p_flags = peek32 m (a + 24), p_align = peek32 m (a + 28)\<rparr>"

definition elf_ident :: "u8 list" where "elf_ident = [0x7F, 0x45, 0x4C, 0x46, 1, 1, 1]"

definition elf_validate :: "mem \<Rightarrow> u32 \<Rightarrow> bool" where
  "elf_validate m a = (let h = ehdr_at m a in
     bytes_at m a 7 = elf_ident \<and> e_type h = ET_EXEC \<and> e_machine h = EM_386 \<and> e_version h = EV_CURRENT \<and>
     ucast (e_phentsize h) = sizeof_phdr)"

section \<open>Loading\<close>

fun link_pages :: "proc \<Rightarrow> u32 \<Rightarrow> nat list \<Rightarrow> proc option" where
  "link_pages s vaddr [] = Some s"
| "link_pages s vaddr (i # is) = do {
     let addr = vaddr + of_nat i * PAGE_SIZE;
     kassert (addr \<ge> USER_EXEC_ADDR \<and> addr < USER_MMAP_ADDR);
     s \<leftarrow> on_mm (\<lambda>m. link_user_page m addr) s;
     link_pages s vaddr is }"

definition protect_page :: "u32 \<Rightarrow> mm \<Rightarrow> mm option" where
  "protect_page addr m = do {
     (kv, i, m) \<leftarrow> get_pte m addr;
     e \<leftarrow> kread m kv i;
     m \<leftarrow> kwrite m kv i (pte_set PTE_READONLY True (pte_set PTE_WRITE False e));
     kunmap m kv }"

fun protect_pages :: "proc \<Rightarrow> u32 \<Rightarrow> nat list \<Rightarrow> proc option" where
  "protect_pages s vaddr [] = Some s"
| "protect_pages s vaddr (i # is) = do {
     s \<leftarrow> on_mm (protect_page (vaddr + of_nat i * PAGE_SIZE)) s;
     protect_pages s vaddr is }"

text \<open>The program header is read again after the segment has been loaded, when it may lie under it.\<close>

definition load_segment :: "proc \<Rightarrow> nat \<Rightarrow> u32 \<Rightarrow> proc option" where
  "load_segment s n ptr = do {
     let ph = phdr_at (bytes_of s) ptr;
     kassert (p_align ph = 0x1000);
     kassert (p_vaddr ph AND 0xFFF = 0);
     let vaddr = p_vaddr ph;
     count \<leftarrow> div_round_up (max (p_memsz ph) (p_filesz ph)) PAGE_SIZE;
     s \<leftarrow> link_pages s vaddr [0..<unat count];
     (_, s) \<leftarrow> read_to s n vaddr (p_filesz ph) (p_offset ph);
     let ph = phdr_at (bytes_of s) ptr;
     let s = (if p_filesz ph < p_memsz ph
              then s\<lparr>bytes_of := memset_loop (bytes_of s) (vaddr + p_filesz ph) 0 (unat (p_memsz ph - p_filesz ph))\<rparr> else s);
     let ph = phdr_at (bytes_of s) ptr;
     s \<leftarrow> (if p_flags ph AND PF_W = 0 then protect_pages s vaddr [0..<unat count] else Some s);
     s \<leftarrow> (if p_flags ph = PF_R OR PF_X then on_task (\<lambda>t. t\<lparr>t_text := vaddr\<rparr>) s
          else if p_flags ph = PF_R OR PF_W then on_task (\<lambda>t. t\<lparr>t_data := vaddr\<rparr>) s
          else Some s);
     on_task (\<lambda>t. t\<lparr>t_end := vaddr + count * PAGE_SIZE\<rparr>) s }"

text \<open>
  The loop over the headers: the pointer moves only past a header that is loaded. The number of headers is
  read from the header page every turn.
\<close>

partial_function (option) load_headers :: "proc \<Rightarrow> nat \<Rightarrow> u32 \<Rightarrow> u32 \<Rightarrow> proc option" where
  "load_headers s n i ptr =
     (if i < ucast (e_phnum (ehdr_at (bytes_of s) USER_EXEC_ADDR)) then
        if p_type (phdr_at (bytes_of s) ptr) \<noteq> PT_LOAD then load_headers s n (i + 1) ptr
        else do { s \<leftarrow> load_segment s n ptr; load_headers s n (i + 1) (ptr + sizeof_phdr) }
      else Some s)"

definition load_elf :: "proc \<Rightarrow> nat \<Rightarrow> (u32 \<times> proc) option" where
  "load_elf s n = do {
     s \<leftarrow> on_mm (\<lambda>m. link_user_page m USER_EXEC_ADDR) s;
     (r, s) \<leftarrow> read_to s n USER_EXEC_ADDR sizeof_ehdr 0;
     kassert (r = sizeof_ehdr);
     if \<not> elf_validate (bytes_of s) USER_EXEC_ADDR then Some (EOF, s)
     else do {
       let phdr = USER_EXEC_ADDR + sizeof_ehdr;
       let h = ehdr_at (bytes_of s) USER_EXEC_ADDR;
       (_, s) \<leftarrow> read_to s n phdr (ucast (e_phnum h) * ucast (e_phentsize h)) (e_phoff h);
       s \<leftarrow> load_headers s n 0 phdr;
       Some (e_entry (ehdr_at (bytes_of s) USER_EXEC_ADDR), s) } }"


section \<open>Arguments and environment\<close>

partial_function (option) count_from :: "mem \<Rightarrow> u32 \<Rightarrow> u32 \<Rightarrow> u32 option" where
  "count_from m argv i = (if peek32 m (argv + 4 * i) \<noteq> 0 then count_from m argv (i + 1) else Some i)"

definition count_argv :: "mem \<Rightarrow> u32 \<Rightarrow> u32 option" where
  "count_argv m argv = (if argv = 0 then Some 0 else count_from m argv 0)"

text \<open>
  One loop over an array of strings, from the last to the first: each string goes below the ones before it, in
  the kernel at \<open>ktop\<close>, for the user at \<open>utop\<close>, and its user address into the array \<open>out\<close>.
\<close>

fun copy_strings :: "mem \<Rightarrow> u32 \<Rightarrow> u32 \<Rightarrow> u32 \<Rightarrow> u32 \<Rightarrow> nat \<Rightarrow> (mem \<times> u32 \<times> u32) option" where
  "copy_strings m src out ktop utop 0 = Some (m, ktop, utop)"
| "copy_strings m src out ktop utop (Suc i) = do {
     let p = peek32 m (src + 4 * of_nat i);
     n \<leftarrow> strlen m p;
     let len = n + 1;
     let ktop = ktop - len;
     let utop = utop - len;
     let m = memcpy_loop m ktop p (unat len);
     copy_strings (poke32 m (out + 4 * of_nat i) utop) src out ktop utop i }"

text \<open>
  The strings of the block for the top of the user's stack, built below \<open>pages_end\<close>; \<open>argvk\<close> is the page for the two
  arrays. The result is the memory and the bottom of the strings.
\<close>

definition args_strings :: "mem \<Rightarrow> u32 \<Rightarrow> u32 \<Rightarrow> u32 \<Rightarrow> u32 \<Rightarrow> u32 \<Rightarrow> u32 \<Rightarrow> u32 \<Rightarrow> (mem \<times> u32) option" where
  "args_strings m pages_end argvk argc envc filename argv envp = do {
     let m = poke32 m (argvk + 4 * argc) 0;
     let envpk = argvk + 4 * (argc + 1);
     let m = poke32 m (envpk + 4 * envc) 0;
     (m, ktop, utop) \<leftarrow> copy_strings m envp envpk pages_end USER_STACK_TOP (unat envc);
     (m, ktop, utop) \<leftarrow> copy_strings m argv (argvk + 4) ktop utop (unat (argc - 1));
     n \<leftarrow> strlen m filename;
     let len = n + 1;
     let ktop = ktop - len;
     let utop = utop - len;
     let m = memcpy_loop m ktop filename (unat len);
     Some (poke32 m argvk utop, ktop) }"

text \<open>The whole block: below the strings the environment array, the argument array and the count.\<close>

definition build_args :: "mem \<Rightarrow> u32 \<Rightarrow> u32 \<Rightarrow> u32 \<Rightarrow> u32 \<Rightarrow> u32 \<Rightarrow> u32 \<Rightarrow> u32 \<Rightarrow> (mem \<times> u32) option" where
  "build_args m pages_end argvk argc envc filename argv envp = do {
     (m, ktop) \<leftarrow> args_strings m pages_end argvk argc envc filename argv envp;
     let ktop = ktop - (envc + 1) * 4;
     let m = memcpy_loop m ktop (argvk + 4 * (argc + 1)) (unat ((envc + 1) * 4));
     let ktop = ktop - (argc + 1) * 4;
     let m = memcpy_loop m ktop argvk (unat ((argc + 1) * 4));
     let ktop = ktop - 4;
     Some (poke32 m ktop argc, ktop) }"

text \<open>What the next accesses to user space find: new frames.\<close>

definition drop_user :: "mem \<Rightarrow> mem \<Rightarrow> mem" where
  "drop_user junk m = (\<lambda>a. if a < KERNEL_PAGE_DIR_VADDR then junk a else m a)"

fun close_from :: "vfs \<Rightarrow> nat list \<Rightarrow> vfs option" where
  "close_from s [] = Some s"
| "close_from s (i # is) = do {
     t \<leftarrow> get_current (kern_of s);
     f \<leftarrow> aget (t_files t) i;
     s \<leftarrow> (if f \<noteq> None then sys_close s (of_nat i) else Some s);
     close_from s is }"

definition fork_clean :: "mem \<Rightarrow> proc \<Rightarrow> proc option" where
  "fork_clean junk s = do {
     t \<leftarrow> get_current (kern_of (fs_part s));
     s \<leftarrow> on_fs (\<lambda>v. iput v (t_iexec t)) s;
     s \<leftarrow> on_fs (\<lambda>v. close_from v [3..<unat TASK_FILE_NR]) s;
     s \<leftarrow> on_mm (\<lambda>m. free_pte m (cur (mm_kern m))) s;
     s \<leftarrow> on_mm (set_cr3 (t_pde t)) s;
     Some (s\<lparr>bytes_of := drop_user junk (bytes_of s)\<rparr>) }"

definition set_env_and_clean_fork :: "mem \<Rightarrow> proc \<Rightarrow> u32 \<Rightarrow> u32 \<Rightarrow> u32 \<Rightarrow> (u32 \<times> proc) option" where
  "set_env_and_clean_fork junk s filename argv envp = do {
     n \<leftarrow> count_argv (bytes_of s) argv;
     let argc = n + 1;
     envc \<leftarrow> count_argv (bytes_of s) envp;
     (pages, m) \<leftarrow> alloc_kpage (mm_part s) 4;
     let pages_end = pages + 4 * PAGE_SIZE;
     (argvk, m) \<leftarrow> alloc_kpage m 1;
     let s = s\<lparr>mm_part := m\<rparr>;
     (b, ktop) \<leftarrow> build_args (bytes_of s) pages_end argvk argc envc filename argv envp;
     kassert (ktop > pages);
     s \<leftarrow> fork_clean junk (s\<lparr>bytes_of := b\<rparr>);
     let len = pages_end - ktop;
     let utop = USER_STACK_TOP - len;
     let s = s\<lparr>bytes_of := memcpy_loop (bytes_of s) utop ktop (unat len)\<rparr>;
     s \<leftarrow> on_mm (\<lambda>m. free_kpage m argvk 1) s;
     s \<leftarrow> on_mm (\<lambda>m. free_kpage m pages 4) s;
     Some (utop, s) }"

section \<open>The system call\<close>

text \<open>
  It returns only when it fails; otherwise the process goes on in the new program with the frame that is set. Of
  that frame the model has the registers that \<open>intr_frame\<close> has; the segment selectors and the rest are constants.
\<close>

datatype exec_result = Exec_fails u32 proc | Exec_starts proc

definition user_name :: "mem \<Rightarrow> u32 \<Rightarrow> u8 list option" where
  "user_name m a = do { n \<leftarrow> strlen m a; Some (bytes_at m a (unat n)) }"

definition sys_execve :: "mem \<Rightarrow> proc \<Rightarrow> u32 \<Rightarrow> u32 \<Rightarrow> u32 \<Rightarrow> exec_result option" where
  "sys_execve junk s filename argv envp = do {
     name \<leftarrow> (if filename = 0 then Some [] else user_name (bytes_of s) filename);
     (p, v) \<leftarrow> namei (fs_part s) (if filename = 0 then None else Some name);
     let s = s\<lparr>fs_part := v\<rparr>;
     case p of
       None \<Rightarrow> do { s \<leftarrow> on_fs (\<lambda>v. iput v None) s; Some (Exec_fails EOF s) }
     | Some n \<Rightarrow> do {
         x \<leftarrow> idesc v n;
         exec \<leftarrow> (if ISFILE (ucast (d_mode x)) then permission v n P_EXEC else Some False);
         if \<not> exec then do { s \<leftarrow> on_fs (\<lambda>v. iput v p) s; Some (Exec_fails EOF s) }
         else do {
           s \<leftarrow> on_task (\<lambda>t. t\<lparr>t_name := take 15 name\<rparr>) s;
           (utop, s) \<leftarrow> set_env_and_clean_fork junk s filename argv envp;
           (entry, s) \<leftarrow> load_elf s n;
           if entry = EOF then do { s \<leftarrow> on_fs (\<lambda>v. iput v p) s; Some (Exec_fails EOF s) }
           else do {
             s \<leftarrow> on_task (\<lambda>t. t\<lparr>t_brk := t_end t, t_iexec := p,
               t_iframe := (t_iframe t)\<lparr>if_edx := 0, if_ecx := 7, if_eax := 8, if_eip := entry, if_eflags := 0x202, if_esp := utop\<rparr>\<rparr>) s;
             Some (Exec_starts s) } } } }"


section \<open>The copied strings\<close>

text \<open>The addresses from \<open>a\<close> up to \<open>b\<close>.\<close>

definition between :: "nat \<Rightarrow> nat \<Rightarrow> u32 set" where
  "between a b = {x. a \<le> unat x \<and> unat x < b}"

lemma between_mono: "a \<le> a' \<Longrightarrow> b' \<le> b \<Longrightarrow> between a' b' \<subseteq> between a b"
  by (auto simp: between_def)

lemma region_between:
  assumes "unat p + n \<le> 2 ^ 32" shows "region p n = between (unat p) (unat p + n)"
proof (intro set_eqI iffI)
  fix x assume "x \<in> region p n"
  then obtain i where i: "i < n" "x = p + of_nat i" by (auto simp: region_iff)
  then have "unat x = unat p + i" using assms by (simp, subst unat_plus_less) simp_all
  then show "x \<in> between (unat p) (unat p + n)" using i(1) by (simp add: between_def)
next
  fix x assume "x \<in> between (unat p) (unat p + n)"
  then have x: "unat p \<le> unat x" "unat x < unat p + n" by (simp_all add: between_def)
  then have "p + of_nat (unat x - unat p) = x" by (simp add: of_nat_diff)
  then show "x \<in> region p n" using x unfolding region_iff by (metis add.commute less_diff_conv2)
qed

lemma region_4: "region a 4 = {a, a + 1, a + 2, a + 3}"
  by (simp add: eval_nat_numeral add.assoc)

lemma poke32_frame: "x \<notin> region a 4 \<Longrightarrow> poke32 m a v x = m x"
  by (simp add: poke32_def region_4)

lemma peek32_frame: "(\<And>x. x \<in> region a 4 \<Longrightarrow> m' x = m x) \<Longrightarrow> peek32 m' a = peek32 m a"
  by (simp add: peek32_def region_4)

lemma bytes_at_add: "bytes_at m p (a + b) = bytes_at m p a @ bytes_at m (p + of_nat a) b"
  by (induction a arbitrary: p) (simp_all add: add.assoc)

lemma cstr_bytes: "cstr m p s \<longleftrightarrow> EOS \<notin> set s \<and> bytes_at m p (Suc (length s)) = s @ [EOS]"
  by (induction s arbitrary: p) auto

definition concat_z :: "u8 list list \<Rightarrow> u8 list" where
  "concat_z ss = concat (map (\<lambda>s. s @ [EOS]) ss)"

lemma concat_z_simps [simp]:
  "concat_z [] = []" "concat_z (s # ss) = s @ [EOS] @ concat_z ss" "concat_z (ss @ ts) = concat_z ss @ concat_z ts"
  by (simp_all add: concat_z_def)

text \<open>An array of \<open>n\<close> string pointers whose words and bytes all lie in \<open>S\<close>.\<close>

definition strings_in :: "mem \<Rightarrow> u32 \<Rightarrow> u8 list list \<Rightarrow> u32 set \<Rightarrow> bool" where
  "strings_in m src ss S \<longleftrightarrow> (\<forall>i < length ss. region (src + 4 * of_nat i) 4 \<subseteq> S \<and>
     cstr m (peek32 m (src + 4 * of_nat i)) (ss ! i) \<and> region (peek32 m (src + 4 * of_nat i)) (Suc (length (ss ! i))) \<subseteq> S)"

lemma strings_inD:
  assumes "strings_in m src ss S" "i < length ss"
  shows "cstr m (peek32 m (src + 4 * of_nat i)) (ss ! i)" "region (peek32 m (src + 4 * of_nat i)) (Suc (length (ss ! i))) \<subseteq> S"
    "region (src + 4 * of_nat i) 4 \<subseteq> S"
  using assms unfolding strings_in_def by blast+

lemma strings_in_frame:
  assumes "strings_in m src ss S" "\<And>x. x \<in> S \<Longrightarrow> m' x = m x"
  shows "strings_in m' src ss S"
proof -
  have "peek32 m' (src + 4 * of_nat i) = peek32 m (src + 4 * of_nat i)" if "i < length ss" for i
    using assms that by (intro peek32_frame) (auto simp: strings_in_def)
  moreover have "cstr m' p t = cstr m p t" if "region p (Suc (length t)) \<subseteq> S" for p t
    using assms(2) that by (intro cstr_frame) blast
  ultimately show ?thesis using assms(1) by (auto simp: strings_in_def)
qed

lemma strings_in_butlast: "strings_in m src (ss @ [t]) S \<Longrightarrow> strings_in m src ss S"
  by (auto simp: strings_in_def nth_append split: if_splits)

lemma copy_strings_spec:
  "strings_in m src ss S \<Longrightarrow> S \<inter> between lo (unat ktop) = {} \<Longrightarrow> lo + length (concat_z ss) \<le> unat ktop \<Longrightarrow>
   S \<inter> between (unat out) (unat out + 4 * length ss) = {} \<Longrightarrow> unat out + 4 * length ss \<le> 2 ^ 32 \<Longrightarrow>
   between (unat out) (unat out + 4 * length ss) \<inter> between lo (unat ktop) = {} \<Longrightarrow>
   \<exists>m'. copy_strings m src out ktop utop (length ss) = Some (m', ktop - of_nat (length (concat_z ss)), utop - of_nat (length (concat_z ss))) \<and>
     bytes_at m' (ktop - of_nat (length (concat_z ss))) (length (concat_z ss)) = concat_z ss \<and>
     (\<forall>i < length ss. peek32 m' (out + 4 * of_nat i) = utop - of_nat (length (concat_z ss)) + of_nat (length (concat_z (take i ss)))) \<and>
     (\<forall>x. x \<notin> between (unat ktop - length (concat_z ss)) (unat ktop) \<and> x \<notin> between (unat out) (unat out + 4 * length ss) \<longrightarrow> m' x = m x)"
proof (induction ss arbitrary: m ktop utop rule: rev_induct)
  case Nil
  then show ?case by simp
next
  case (snoc t ss)
  let ?n = "length ss" and ?L = "length (concat_z ss)"
  define l where "l = length t + 1"
  define p where "p = peek32 m (src + 4 * of_nat ?n)"
  have src: "cstr m p t" "region p (Suc (length t)) \<subseteq> S"
    using strings_inD(1,2) [OF snoc.prems(1), of ?n] by (simp_all add: p_def del: region.simps)
  have small: "unat ktop < 2 ^ 32" using unat_lt2p [of ktop] by simp
  have lt: "l \<le> unat ktop" "lo \<le> unat ktop - l" using snoc.prems(3) by (auto simp: l_def)
  have "l < 2 ^ 32" using lt(1) small by linarith
  then have "unat (of_nat l :: u32) = l" by (intro unat_of_nat_less) simp
  then have len: "strlen m p = Some (of_nat (length t))" "(of_nat (length t) :: u32) + 1 = of_nat l" "unat (of_nat l :: u32) = l"
    using strlen_spec [OF src(1)] by (simp, simp add: l_def, blast)
  define k1 where "k1 = ktop - of_nat l"
  have k1: "unat k1 = unat ktop - l" unfolding k1_def using len(3) lt(1) by (subst unat_sub) (simp_all add: word_le_nat_alt)
  define o1 where "o1 = out + 4 * of_nat ?n"
  have o1: "unat o1 = unat out + 4 * ?n"
  proof -
    have "unat (4 * of_nat ?n :: u32) = 4 * ?n" using snoc.prems(5) by (simp add: unat_word_ariths)
    then show ?thesis unfolding o1_def using snoc.prems(5) by (subst unat_plus_less) simp_all
  qed
  define m1 where "m1 = memcpy_loop m k1 p l"
  define m2 where "m2 = poke32 m1 o1 (utop - of_nat l)"
  have rk: "region k1 l = between (unat k1) (unat ktop)"
    using k1 lt(1) small by (subst region_between) simp_all
  have ro: "region o1 4 = between (unat o1) (unat o1 + 4)" using o1 snoc.prems(5) by (subst region_between) simp_all
  have "between (unat k1) (unat ktop) \<subseteq> between lo (unat ktop)"
    "between (unat o1) (unat o1 + 4) \<subseteq> between (unat out) (unat out + 4 * length (ss @ [t]))"
    using k1 lt(2) o1 by (intro between_mono; simp)+
  then have sep: "between (unat k1) (unat ktop) \<inter> S = {}" "between (unat o1) (unat o1 + 4) \<inter> S = {}"
    using snoc.prems(2,4) by blast+
  have oo: "between (unat o1) (unat o1 + 4) \<inter> between lo (unat ktop) = {}"
    using snoc.prems(6) between_mono [of "unat out" "unat o1" "unat o1 + 4" "unat out + 4 * length (ss @ [t])"] o1 by auto
  have "region p l \<subseteq> S" using src(2) by (simp only: l_def Suc_eq_plus1)
  then have apart: "region k1 l \<inter> region p l = {}" using sep(1) unfolding rk by blast
  have "l < 2 ^ 32" using lt(1) small by linarith
  note cp = memcpy_loop_spec [OF apart this, of m, folded m1_def]
  have "bytes_at m p l = t @ [EOS]" using src(1) by (simp only: l_def cstr_bytes Suc_eq_plus1)
  then have c: "bytes_at m1 k1 l = t @ [EOS]" "\<And>x. x \<notin> between (unat k1) (unat ktop) \<Longrightarrow> m1 x = m x"
    using cp unfolding rk by (simp_all only: not_False_eq_True simp_thms)
  have f2: "m2 x = m x" if "x \<notin> between (unat k1) (unat ktop)" "x \<notin> between (unat o1) (unat o1 + 4)" for x
    using c(2) [OF that(1)] that(2) ro poke32_frame [of x o1 m1] by (simp add: m2_def)
  have kb: "bytes_at m2 k1 l = t @ [EOS]"
  proof -
    have "m2 x = m1 x" if "x \<in> region k1 l" for x
    proof -
      have "x \<in> between lo (unat ktop)" using that lt(2) k1 between_mono [of lo "unat k1" "unat ktop" "unat ktop"] unfolding rk by auto
      then have "x \<notin> region o1 4" using oo unfolding ro by blast
      then show ?thesis by (simp add: m2_def poke32_frame)
    qed
    then have "bytes_at m2 k1 l = bytes_at m1 k1 l" by (rule bytes_at_frame)
    then show ?thesis using c(1) by (rule trans)
  qed
  have "m2 x = m x" if "x \<in> S" for x using f2 [of x] sep that by blast
  then have si: "strings_in m2 src ss S" by (rule strings_in_frame [OF strings_in_butlast [OF snoc.prems(1)]])
  have room: "lo + ?L \<le> unat k1" using snoc.prems(3) k1 by (simp add: l_def)
  have top: "unat out + 4 * ?n \<le> 2 ^ 32" using snoc.prems(5) by simp
  have "between (unat out) (unat out + 4 * ?n) \<subseteq> between (unat out) (unat out + 4 * length (ss @ [t]))"
    "between lo (unat k1) \<subseteq> between lo (unat ktop)" using k1 by (intro between_mono; simp)+
  then have dis: "between (unat out) (unat out + 4 * ?n) \<inter> between lo (unat k1) = {}" "S \<inter> between lo (unat k1) = {}"
      "S \<inter> between (unat out) (unat out + 4 * ?n) = {}" using snoc.prems(2,4,6) by blast+
  obtain m' where m': "copy_strings m2 src out k1 (utop - of_nat l) ?n = Some (m', k1 - of_nat ?L, utop - of_nat l - of_nat ?L)"
      "bytes_at m' (k1 - of_nat ?L) ?L = concat_z ss"
      "\<forall>i < ?n. peek32 m' (out + 4 * of_nat i) = utop - of_nat l - of_nat ?L + of_nat (length (concat_z (take i ss)))"
      "\<forall>x. x \<notin> between (unat k1 - ?L) (unat k1) \<and> x \<notin> between (unat out) (unat out + 4 * ?n) \<longrightarrow> m' x = m2 x"
    using snoc.IH [OF si dis(2) room dis(3) top dis(1), of "utop - of_nat l"] by blast
  have tot: "length (concat_z (ss @ [t])) = ?L + l" by (simp add: l_def)
  have run: "copy_strings m src out ktop utop (length (ss @ [t])) =
      Some (m', ktop - of_nat (length (concat_z (ss @ [t]))), utop - of_nat (length (concat_z (ss @ [t]))))"
    unfolding tot using m'(1) len
    by (simp add: p_def [symmetric] o1_def [symmetric] k1_def [symmetric] m1_def [symmetric] m2_def [symmetric] Let_def)
  have keep: "m' x = m2 x" if "x \<in> region k1 l \<or> x \<in> region o1 4" for x
  proof -
    have lo: "lo \<le> unat k1 - ?L" using snoc.prems(3) k1 by (simp add: l_def)
    have sub: "between (unat k1 - ?L) (unat k1) \<subseteq> between lo (unat ktop)" "between (unat k1) (unat ktop) \<subseteq> between lo (unat ktop)"
      "between (unat out) (unat out + 4 * ?n) \<subseteq> between (unat out) (unat out + 4 * length (ss @ [t]))"
      using lo k1 lt(2) by (intro between_mono; simp)+
    have "between (unat k1) (unat ktop) \<inter> between (unat k1 - ?L) (unat k1) = {}"
      "between (unat o1) (unat o1 + 4) \<inter> between (unat out) (unat out + 4 * ?n) = {}" using o1 by (auto simp: between_def)
    then have "x \<notin> between (unat k1 - ?L) (unat k1)" "x \<notin> between (unat out) (unat out + 4 * ?n)"
      using that sub snoc.prems(6) oo unfolding rk ro by blast+
    then show ?thesis using m'(4) by blast
  qed
  have "bytes_at m' k1 l = bytes_at m2 k1 l" by (rule bytes_at_frame) (rule keep [OF disjI1])
  then have b2: "bytes_at m' k1 l = t @ [EOS]" using kb by (rule trans)
  have "bytes_at m' (ktop - of_nat (?L + l)) (?L + l) = concat_z ss @ t @ [EOS]"
  proof -
    have e: "ktop - of_nat (?L + l) = k1 - of_nat ?L" by (simp add: k1_def algebra_simps)
    have "k1 - of_nat ?L + of_nat ?L = k1" by simp
    then show ?thesis unfolding e bytes_at_add using m'(2) b2 by simp
  qed
  moreover have "peek32 m' (out + 4 * of_nat i) = utop - of_nat (?L + l) + of_nat (length (concat_z (take i (ss @ [t]))))"
    if "i < length (ss @ [t])" for i
  proof (cases "i < ?n")
    case True
    then show ?thesis using m'(3) by (simp add: algebra_simps)
  next
    case False
    then have i: "i = ?n" using that by simp
    have "peek32 m' o1 = peek32 m2 o1" using keep by (intro peek32_frame) blast
    then have "peek32 m' (out + 4 * of_nat ?n) = utop - of_nat l" by (simp add: m2_def o1_def)
    then show ?thesis unfolding i by simp
  qed
  moreover have "m' x = m x" if "x \<notin> between (unat ktop - (?L + l)) (unat ktop)" "x \<notin> between (unat out) (unat out + 4 * Suc ?n)" for x
  proof -
    have "x \<notin> between (unat k1 - ?L) (unat k1)" "x \<notin> between (unat out) (unat out + 4 * ?n)"
      "x \<notin> between (unat k1) (unat ktop)" "x \<notin> between (unat o1) (unat o1 + 4)"
      using that k1 o1 by (auto simp: between_def)
    then show ?thesis using m'(4) f2 by simp
  qed
  ultimately show ?case unfolding tot using run [unfolded tot] by (intro exI [of _ m']) simp
qed


section \<open>The argument block\<close>

text \<open>The page of the arrays at \<open>A\<close> and the buffer of four pages below \<open>P\<close>, in the kernel and apart.\<close>

definition room_ok :: "u32 \<Rightarrow> u32 \<Rightarrow> bool" where
  "room_ok argvk pe \<longleftrightarrow> 0xC0000000 \<le> unat argvk \<and> unat argvk + 4096 \<le> 2 ^ 32 \<and> 0xC0004000 \<le> unat pe \<and>
     between (unat argvk) (unat argvk + 4096) \<inter> between (unat pe - 16384) (unat pe) = {}"

lemma unat_index:
  assumes "unat a + 4096 \<le> 2 ^ 32" "4 * i < 4096" shows "unat (a + 4 * of_nat i :: u32) = unat a + 4 * i"
proof -
  have "unat (4 * of_nat i :: u32) = 4 * i" using assms(2) by (simp add: unat_word_ariths)
  then show ?thesis using assms by (subst unat_plus_less) simp_all
qed

lemma region_index:
  assumes "unat a + 4096 \<le> 2 ^ 32" "4 * i < 4096"
  shows "region (a + 4 * of_nat i) 4 = between (unat a + 4 * i) (unat a + 4 * i + 4)"
  using assms by (subst region_between) (simp_all add: unat_index)

lemma concat_z_drop: "length (concat_z ss) = length (concat_z (take i ss)) + length (concat_z (drop i ss))"
  by (metis append_take_drop_id concat_z_simps(3) length_append)

lemma offset_drop:
  "(u :: u32) - of_nat (length (concat_z ss)) + of_nat (length (concat_z (take i ss))) = u - of_nat (length (concat_z (drop i ss)))"
  by (subst concat_z_drop [of ss i]) (simp add: algebra_simps)

text \<open>A store of a word leaves other words, and memory elsewhere, alone.\<close>

lemma peek32_keep: "region a 4 \<inter> X = {} \<Longrightarrow> (\<And>x. x \<notin> X \<Longrightarrow> m' x = m x) \<Longrightarrow> peek32 m' a = peek32 m a"
  by (rule peek32_frame) blast

lemma bytes_keep: "region a n \<inter> X = {} \<Longrightarrow> (\<And>x. x \<notin> X \<Longrightarrow> m' x = m x) \<Longrightarrow> bytes_at m' a n = bytes_at m a n"
  by (rule bytes_at_frame) blast


text \<open>A string copied below the others, as the code copies the program's path.\<close>

lemma copy_string_spec:
  assumes "cstr m p t" "region p (Suc (length t)) \<subseteq> S" "S \<inter> between lo (unat k) = {}" "lo + Suc (length t) \<le> unat k"
  shows "strlen m p = Some (of_nat (length t))" "unat (of_nat (length t) + 1 :: u32) = Suc (length t)"
    "bytes_at (memcpy_loop m (k - (of_nat (length t) + 1)) p (Suc (length t))) (k - (of_nat (length t) + 1)) (Suc (length t)) = t @ [EOS]"
    "x \<notin> between (unat k - Suc (length t)) (unat k) \<Longrightarrow> memcpy_loop m (k - (of_nat (length t) + 1)) p (Suc (length t)) x = m x"
proof -
  have lt: "Suc (length t) < 2 ^ 32" using assms(4) unat_lt2p [of k] by simp
  show "strlen m p = Some (of_nat (length t))" by (rule strlen_spec [OF assms(1)])
  have w: "of_nat (length t) + 1 = (of_nat (Suc (length t)) :: u32)" by simp
  have u: "unat (of_nat (Suc (length t)) :: u32) = Suc (length t)" using lt by (intro unat_of_nat_less) simp
  then show "unat (of_nat (length t) + 1 :: u32) = Suc (length t)" unfolding w .
  define j where "j = k - (of_nat (length t) + 1 :: u32)"
  have j: "unat j = unat k - Suc (length t)" unfolding j_def w using assms(4) u by (subst unat_sub) (simp_all only: word_le_nat_alt)
  then have r: "region j (Suc (length t)) = between (unat k - Suc (length t)) (unat k)"
    using assms(4) unat_lt2p [of k] by (subst region_between) simp_all
  have "between (unat k - Suc (length t)) (unat k) \<subseteq> between lo (unat k)" using assms(4) by (intro between_mono) simp_all
  then have "region j (Suc (length t)) \<inter> region p (Suc (length t)) = {}" unfolding r using assms(2,3) by blast
  note M = memcpy_loop_spec [OF this lt, of m, unfolded r]
  have c: "bytes_at (memcpy_loop m j p (Suc (length t))) j (Suc (length t)) = t @ [EOS]"
    using M assms(1) cstr_bytes [of m p t] by (simp only:)
  from c show "bytes_at (memcpy_loop m (k - (of_nat (length t) + 1)) p (Suc (length t))) (k - (of_nat (length t) + 1)) (Suc (length t)) = t @ [EOS]"
    unfolding j_def .
  show "memcpy_loop m (k - (of_nat (length t) + 1)) p (Suc (length t)) x = m x" if "x \<notin> between (unat k - Suc (length t)) (unat k)"
    using M that unfolding j_def by blast
qed


text \<open>The indices in the page of the arrays.\<close>

lemma between_index: "4 * j < 4096 \<Longrightarrow> between (a + 4 * j) (a + 4 * j + 4) \<subseteq> between a (a + 4096)"
  by (rule between_mono) simp_all

lemma strings_in_keep:
  assumes "strings_in m src ss S" "S \<subseteq> between 0 lo" "\<And>x. x \<in> between 0 lo \<Longrightarrow> m' x = m x"
  shows "strings_in m' src ss S"
  by (rule strings_in_frame [OF assms(1)]) (use assms(2,3) in blast)

lemma args_strings_spec:
  fixes A :: u32 and P :: u32 and ss es :: "u8 list list"
  defines "n \<equiv> length ss" and "e \<equiv> length es" and "X \<equiv> between (unat A) (unat A + 4096) \<union> between (unat P - 16384) (unat P)"
  assumes room: "room_ok A P"
    and arg: "strings_in m argv ss S" "strings_in m envp es S" "cstr m f t" "region f (Suc (length t)) \<subseteq> S" "S \<subseteq> between 0 0xC0000000"
    and fit: "4 * (n + e + 3) \<le> 4096" "length (concat_z (t # ss @ es)) \<le> 16384"
  shows "\<exists>m'. args_strings m P A (of_nat (n + 1)) (of_nat e) f argv envp = Some (m', P - of_nat (length (concat_z (t # ss @ es)))) \<and>
     bytes_at m' (P - of_nat (length (concat_z (t # ss @ es)))) (length (concat_z (t # ss @ es))) = concat_z (t # ss @ es) \<and>
     (\<forall>i < n + 1. peek32 m' (A + 4 * of_nat i) = USER_STACK_TOP - of_nat (length (concat_z (drop i (t # ss @ es))))) \<and>
     peek32 m' (A + 4 * of_nat (n + 1)) = 0 \<and>
     (\<forall>i < e. peek32 m' (A + 4 * of_nat (n + 2 + i)) = USER_STACK_TOP - of_nat (length (concat_z (drop i es)))) \<and>
     peek32 m' (A + 4 * of_nat (n + 2 + e)) = 0 \<and> (\<forall>x. x \<notin> X \<longrightarrow> m' x = m x)"
proof -
  define Q where "Q = between (unat A) (unat A + 4096)"
  define L where "L = unat P - 16384"
  have A: "0xC0000000 \<le> unat A" "unat A + 4096 \<le> 2 ^ 32" and L: "0xC0000000 \<le> L" "L + 16384 = unat P" and QB: "Q \<inter> between L (unat P) = {}"
    using room by (auto simp: room_ok_def Q_def L_def)
  define E where "E = A + 4 * of_nat (n + 2)"
  have uE: "unat E = unat A + 4 * (n + 2)" unfolding E_def using A(2) fit(1) by (intro unat_index) auto
  have uA1: "unat (A + 4) = unat A + 4" using unat_index [OF A(2), of 1] by simp
  have low: "x \<notin> Q" "x \<notin> between L (unat P)" if "x \<in> between 0 0xC0000000" for x
    using that A(1) L(1) by (auto simp: Q_def between_def)
  define m1 where "m1 = poke32 m (A + 4 * of_nat (n + 1)) 0"
  define m2 where "m2 = poke32 m1 (E + 4 * of_nat e) 0"
  have r1: "region (A + 4 * of_nat (n + 1)) 4 = between (unat A + 4 * (n + 1)) (unat A + 4 * (n + 1) + 4)"
    using A(2) fit(1) by (intro region_index) auto
  have Ee: "E + 4 * of_nat e = A + 4 * of_nat (n + 2 + e)" by (simp add: E_def algebra_simps)
  have r2: "region (E + 4 * of_nat e) 4 = between (unat A + 4 * (n + 2 + e)) (unat A + 4 * (n + 2 + e) + 4)"
    unfolding Ee using A(2) fit(1) by (intro region_index) auto
  have sub: "between (unat A + 4 * (n + 1)) (unat A + 4 * (n + 1) + 4) \<subseteq> Q" "between (unat A + 4 * (n + 2 + e)) (unat A + 4 * (n + 2 + e) + 4) \<subseteq> Q"
    unfolding Q_def using fit(1) by (intro between_mono; simp)+
  have f2: "m2 x = m x" if "x \<notin> Q" for x
  proof -
    have "x \<notin> region (A + 4 * of_nat (n + 1)) 4" "x \<notin> region (E + 4 * of_nat e) 4" using that sub unfolding r1 r2 by blast+
    then show ?thesis unfolding m2_def m1_def by (simp only: poke32_frame not_False_eq_True)
  qed
  have w2: "peek32 m2 (A + 4 * of_nat (n + 1)) = 0" "peek32 m2 (E + 4 * of_nat e) = 0"
  proof -
    have "region (A + 4 * of_nat (n + 1)) 4 \<inter> region (E + 4 * of_nat e) 4 = {}" unfolding r1 r2 by (auto simp: between_def)
    then have "peek32 m2 (A + 4 * of_nat (n + 1)) = peek32 m1 (A + 4 * of_nat (n + 1))"
      unfolding m2_def by (intro peek32_frame poke32_frame) blast
    then show "peek32 m2 (A + 4 * of_nat (n + 1)) = 0" by (simp add: m1_def)
    show "peek32 m2 (E + 4 * of_nat e) = 0" by (simp add: m2_def)
  qed
  have user: "S \<inter> Q = {}" "S \<inter> between L (unat P) = {}" using arg(5) low by blast+
  let ?Ze = "concat_z es" and ?Zs = "concat_z ss" and ?T = "length (concat_z (t # ss @ es))"
  have tot: "?T = Suc (length t) + length ?Zs + length ?Ze" by simp
  have env_in: "strings_in m2 envp es S" by (rule strings_in_frame [OF arg(2)]) (use f2 user in blast)
  have subE: "between (unat E) (unat E + 4 * e) \<subseteq> Q" unfolding Q_def uE using fit(1) by (intro between_mono) simp_all
  have "\<exists>m3. copy_strings m2 envp E P USER_STACK_TOP (length es) = Some (m3, P - of_nat (length ?Ze), USER_STACK_TOP - of_nat (length ?Ze)) \<and>
     bytes_at m3 (P - of_nat (length ?Ze)) (length ?Ze) = ?Ze \<and>
     (\<forall>i < length es. peek32 m3 (E + 4 * of_nat i) = USER_STACK_TOP - of_nat (length ?Ze) + of_nat (length (concat_z (take i es)))) \<and>
     (\<forall>x. x \<notin> between (unat P - length ?Ze) (unat P) \<and> x \<notin> between (unat E) (unat E + 4 * length es) \<longrightarrow> m3 x = m2 x)"
  proof (rule copy_strings_spec [OF env_in])
    show "S \<inter> between L (unat P) = {}" by (rule user)
    show "L + length ?Ze \<le> unat P" using L(2) fit(2) tot by linarith
    show "S \<inter> between (unat E) (unat E + 4 * length es) = {}" using subE user(1) unfolding e_def by blast
    show "unat E + 4 * length es \<le> 2 ^ 32" using uE A(2) fit(1) by (simp add: e_def)
    show "between (unat E) (unat E + 4 * length es) \<inter> between L (unat P) = {}" using subE QB unfolding e_def by blast
  qed
  then obtain m3 where m3: "copy_strings m2 envp E P USER_STACK_TOP e = Some (m3, P - of_nat (length ?Ze), USER_STACK_TOP - of_nat (length ?Ze))"
     "bytes_at m3 (P - of_nat (length ?Ze)) (length ?Ze) = ?Ze"
     "\<And>i. i < e \<Longrightarrow> peek32 m3 (E + 4 * of_nat i) = USER_STACK_TOP - of_nat (length (concat_z (drop i es)))"
     "\<And>x. x \<notin> between (unat P - length ?Ze) (unat P) \<Longrightarrow> x \<notin> between (unat E) (unat E + 4 * e) \<Longrightarrow> m3 x = m2 x"
    unfolding e_def [symmetric] offset_drop by blast
  define k3 where "k3 = P - of_nat (length ?Ze)"
  have k3: "unat k3 = unat P - length ?Ze"
  proof -
    have "unat (of_nat (length ?Ze) :: u32) = length ?Ze" using fit(2) tot by (intro unat_of_nat_less) simp
    then show ?thesis unfolding k3_def using L(2) fit(2) tot by (subst unat_sub) (simp_all add: word_le_nat_alt)
  qed
  have b3: "between (unat P - length ?Ze) (unat P) \<subseteq> between L (unat P)" using L(2) fit(2) tot by (intro between_mono) linarith+
  have f3: "m3 x = m x" if "x \<notin> Q" "x \<notin> between L (unat P)" for x
  proof -
    have "x \<notin> between (unat P - length ?Ze) (unat P)" "x \<notin> between (unat E) (unat E + 4 * e)" using that b3 subE by blast+
    then show ?thesis using m3(4) f2 that(1) by simp
  qed
  have keep3: "m3 x = m x" if "x \<in> S" for x using f3 [of x] user that by blast
  have arg_in: "strings_in m3 argv ss S" by (rule strings_in_frame [OF arg(1)]) (rule keep3)
  have subA: "between (unat (A + 4)) (unat (A + 4) + 4 * n) \<subseteq> Q" unfolding Q_def uA1 using fit(1) by (intro between_mono) simp_all
  have mono3: "between L (unat k3) \<subseteq> between L (unat P)" using k3 by (intro between_mono) simp_all
  have "\<exists>m4. copy_strings m3 argv (A + 4) k3 (USER_STACK_TOP - of_nat (length ?Ze)) (length ss) =
       Some (m4, k3 - of_nat (length ?Zs), USER_STACK_TOP - of_nat (length ?Ze) - of_nat (length ?Zs)) \<and>
     bytes_at m4 (k3 - of_nat (length ?Zs)) (length ?Zs) = ?Zs \<and>
     (\<forall>i < length ss. peek32 m4 (A + 4 + 4 * of_nat i) =
        USER_STACK_TOP - of_nat (length ?Ze) - of_nat (length ?Zs) + of_nat (length (concat_z (take i ss)))) \<and>
     (\<forall>x. x \<notin> between (unat k3 - length ?Zs) (unat k3) \<and> x \<notin> between (unat (A + 4)) (unat (A + 4) + 4 * length ss) \<longrightarrow> m4 x = m3 x)"
  proof (rule copy_strings_spec [OF arg_in])
    show "S \<inter> between L (unat k3) = {}" using user(2) mono3 by blast
    show "L + length ?Zs \<le> unat k3" using k3 L(2) fit(2) tot by linarith
    show "S \<inter> between (unat (A + 4)) (unat (A + 4) + 4 * length ss) = {}" using subA user(1) unfolding n_def by blast
    show "unat (A + 4) + 4 * length ss \<le> 2 ^ 32" using uA1 A(2) fit(1) by (simp add: n_def)
    show "between (unat (A + 4)) (unat (A + 4) + 4 * length ss) \<inter> between L (unat k3) = {}"
      using subA QB mono3 unfolding n_def by blast
  qed
  then obtain m4 where m4: "copy_strings m3 argv (A + 4) k3 (USER_STACK_TOP - of_nat (length ?Ze)) n =
       Some (m4, k3 - of_nat (length ?Zs), USER_STACK_TOP - of_nat (length ?Ze) - of_nat (length ?Zs))"
     "bytes_at m4 (k3 - of_nat (length ?Zs)) (length ?Zs) = ?Zs"
     "\<And>i. i < n \<Longrightarrow> peek32 m4 (A + 4 + 4 * of_nat i) = USER_STACK_TOP - of_nat (length ?Ze) - of_nat (length (concat_z (drop i ss)))"
     "\<And>x. x \<notin> between (unat k3 - length ?Zs) (unat k3) \<Longrightarrow> x \<notin> between (unat (A + 4)) (unat (A + 4) + 4 * n) \<Longrightarrow> m4 x = m3 x"
    unfolding n_def [symmetric] offset_drop by blast
  define k4 where "k4 = k3 - of_nat (length ?Zs)"
  have k4: "unat k4 = unat P - length ?Ze - length ?Zs"
  proof -
    have "unat (of_nat (length ?Zs) :: u32) = length ?Zs" using fit(2) tot by (intro unat_of_nat_less) simp
    then show ?thesis unfolding k4_def using k3 L(2) fit(2) tot by (subst unat_sub) (simp_all add: word_le_nat_alt)
  qed
  have b4: "between (unat k3 - length ?Zs) (unat k3) \<subseteq> between L (unat P)" using k3 L(2) fit(2) tot by (intro between_mono) linarith+
  have f4: "m4 x = m x" if "x \<notin> Q" "x \<notin> between L (unat P)" for x
  proof -
    have "x \<notin> between (unat k3 - length ?Zs) (unat k3)" "x \<notin> between (unat (A + 4)) (unat (A + 4) + 4 * n)" using that b4 subA by blast+
    then show ?thesis using m4(4) f3 [OF that] by simp
  qed
  have keep4: "m4 x = m x" if "x \<in> S" for x using f4 [of x] user that by blast
  have path: "cstr m4 f t" using arg(3,4) cstr_frame [of f t m4 m] keep4 by blast
  have mono4: "between L (unat k4) \<subseteq> between L (unat P)" using k4 by (intro between_mono) simp_all
  have u4: "S \<inter> between L (unat k4) = {}" using user(2) mono4 by blast
  have l4: "L + Suc (length t) \<le> unat k4" using k4 L(2) fit(2) tot by linarith
  define k5 where "k5 = k4 - (of_nat (length t) + 1)"
  define m5 where "m5 = memcpy_loop m4 k5 f (Suc (length t))"
  note c = copy_string_spec [OF path arg(4) u4 l4, folded k5_def, folded m5_def]
  have k5: "unat k5 = unat P - ?T"
  proof -
    have "unat k5 = unat k4 - Suc (length t)" unfolding k5_def using c(2) l4 by (subst unat_sub) (simp_all add: word_le_nat_alt)
    then show ?thesis using k4 tot by linarith
  qed
  define m6 where "m6 = poke32 m5 A (USER_STACK_TOP - of_nat (length ?Ze) - of_nat (length ?Zs) - (of_nat (length t) + 1))"
  have rA: "region A 4 = between (unat A) (unat A + 4)" using region_index [OF A(2), of 0] by simp
  have subA0: "between (unat A) (unat A + 4) \<subseteq> Q" unfolding Q_def by (intro between_mono) simp_all
  have f6: "m6 x = m5 x" if "x \<notin> between (unat A) (unat A + 4)" for x
    using poke32_frame [of x A m5] that unfolding m6_def rA by simp
  have b5: "between (unat k4 - Suc (length t)) (unat k4) \<subseteq> between L (unat P)" using k4 l4 by (intro between_mono) linarith+
  have fin: "m6 x = m x" if "x \<notin> Q" "x \<notin> between L (unat P)" for x
  proof -
    have "x \<notin> between (unat k4 - Suc (length t)) (unat k4)" "x \<notin> between (unat A) (unat A + 4)" using that b5 subA0 by blast+
    then show ?thesis using f6 c(4) f4 [OF that] by simp
  qed
  have words: "peek32 m6 (A + 4 * of_nat j) = peek32 m4 (A + 4 * of_nat j)" if "0 < j" "4 * j < 4096" for j
  proof (rule peek32_frame)
    fix x assume "x \<in> region (A + 4 * of_nat j) 4"
    then have x: "x \<in> between (unat A + 4 * j) (unat A + 4 * j + 4)" unfolding region_index [OF A(2) that(2)] .
    have "between (unat A + 4 * j) (unat A + 4 * j + 4) \<subseteq> Q" unfolding Q_def by (rule between_index) (rule that(2))
    then have "x \<notin> between L (unat P)" using x QB by blast
    moreover have "x \<notin> between (unat A) (unat A + 4)" using x that(1) by (auto simp: between_def)
    moreover have "x \<notin> between (unat k4 - Suc (length t)) (unat k4)" using calculation(1) b5 by blast
    ultimately show "m6 x = m4 x" using f6 c(4) by simp
  qed
  have words4: "peek32 m4 (A + 4 * of_nat j) = peek32 m3 (A + 4 * of_nat j)" if "n < j" "4 * j < 4096" for j
  proof (rule peek32_frame)
    fix x assume "x \<in> region (A + 4 * of_nat j) 4"
    then have x: "x \<in> between (unat A + 4 * j) (unat A + 4 * j + 4)" unfolding region_index [OF A(2) that(2)] .
    have "between (unat A + 4 * j) (unat A + 4 * j + 4) \<subseteq> Q" unfolding Q_def by (rule between_index) (rule that(2))
    then have "x \<notin> between L (unat P)" using x QB by blast
    moreover have "x \<notin> between (unat (A + 4)) (unat (A + 4) + 4 * n)" using x that(1) uA1 by (auto simp: between_def)
    moreover have "x \<notin> between (unat k3 - length ?Zs) (unat k3)" using calculation(1) b4 by blast
    ultimately show "m4 x = m3 x" using m4(4) by simp
  qed
  have words3: "peek32 m3 (A + 4 * of_nat j) = peek32 m2 (A + 4 * of_nat j)" if "j = n + 1 \<or> j = n + 2 + e" for j
  proof (rule peek32_frame)
    have j: "4 * j < 4096" using that fit(1) by auto
    fix x assume "x \<in> region (A + 4 * of_nat j) 4"
    then have x: "x \<in> between (unat A + 4 * j) (unat A + 4 * j + 4)" unfolding region_index [OF A(2) j] .
    have "between (unat A + 4 * j) (unat A + 4 * j + 4) \<subseteq> Q" unfolding Q_def by (rule between_index) (rule j)
    then have "x \<notin> between L (unat P)" using x QB by blast
    moreover have "x \<notin> between (unat E) (unat E + 4 * e)" using x that uE by (auto simp: between_def)
    moreover have "x \<notin> between (unat P - length ?Ze) (unat P)" using calculation(1) b3 by blast
    ultimately show "m3 x = m2 x" using m3(4) by simp
  qed
  have low_block: "bytes_at m6 a k = bytes_at m5 a k" if "region a k \<subseteq> between L (unat P)" for a k
    by (rule bytes_keep [of _ _ "between (unat A) (unat A + 4)"]) (use that subA0 QB f6 in blast)+
  have rt: "region k5 (Suc (length t)) = between (unat k4 - Suc (length t)) (unat k4)"
  proof -
    have "unat k5 = unat k4 - Suc (length t)" using k5 k4 tot by linarith
    then show ?thesis using l4 unat_lt2p [of k4] by (subst region_between) simp_all
  qed
  have rs: "region k4 (length ?Zs) = between (unat k4) (unat k3)"
    using k3 k4 fit(2) tot L(2) unat_lt2p [of P] by (subst region_between) simp_all
  have re: "region k3 (length ?Ze) = between (unat k3) (unat P)"
    using k3 fit(2) tot L(2) unat_lt2p [of P] by (subst region_between) simp_all
  have inB: "between (unat k4) (unat k3) \<subseteq> between L (unat P)" "between (unat k3) (unat P) \<subseteq> between L (unat P)"
    using k3 k4 l4 by (intro between_mono; linarith)+
  have bt: "bytes_at m6 k5 (Suc (length t)) = t @ [EOS]"
    using trans [OF low_block [of k5 "Suc (length t)", unfolded rt, OF b5] c(3)] .
  have bs: "bytes_at m6 k4 (length ?Zs) = ?Zs"
  proof -
    have "bytes_at m5 k4 (length ?Zs) = bytes_at m4 k4 (length ?Zs)"
      by (rule bytes_keep [of _ _ "between (unat k4 - Suc (length t)) (unat k4)"]) (use rs c(4) in \<open>auto simp: between_def\<close>)
    then show ?thesis using low_block [of k4 "length ?Zs"] rs inB(1) m4(2) by (simp add: k4_def)
  qed
  have be: "bytes_at m6 k3 (length ?Ze) = ?Ze"
  proof -
    have "bytes_at m5 k3 (length ?Ze) = bytes_at m4 k3 (length ?Ze)"
    proof (rule bytes_keep [of _ _ "between (unat k4 - Suc (length t)) (unat k4)"])
      show "region k3 (length ?Ze) \<inter> between (unat k4 - Suc (length t)) (unat k4) = {}" unfolding re using k3 k4 by (auto simp: between_def)
    qed (rule c(4))
    moreover have "bytes_at m4 k3 (length ?Ze) = bytes_at m3 k3 (length ?Ze)"
    proof (rule bytes_keep [of _ _ "between (unat k3 - length ?Zs) (unat k3) \<union> between (unat (A + 4)) (unat (A + 4) + 4 * n)"])
      have "between (unat k3) (unat P) \<inter> between (unat (A + 4)) (unat (A + 4) + 4 * n) = {}" using inB(2) subA QB by blast
      moreover have "between (unat k3) (unat P) \<inter> between (unat k3 - length ?Zs) (unat k3) = {}" by (auto simp: between_def)
      ultimately show "region k3 (length ?Ze) \<inter> (between (unat k3 - length ?Zs) (unat k3) \<union> between (unat (A + 4)) (unat (A + 4) + 4 * n)) = {}"
        unfolding re by blast
    qed (use m4(4) in blast)
    ultimately show ?thesis using low_block [of k3 "length ?Ze"] re inB(2) m3(2) by (simp add: k3_def)
  qed
  have kT: "k5 = P - of_nat ?T" unfolding k5_def k4_def k3_def tot by (simp add: algebra_simps)
  have "bytes_at m6 k5 (Suc (length t) + length ?Zs + length ?Ze) = (t @ [EOS]) @ ?Zs @ ?Ze"
  proof -
    have a: "k5 + of_nat (Suc (length t)) = k4" "k5 + of_nat (Suc (length t) + length ?Zs) = k3"
      unfolding k5_def k4_def by (simp_all add: algebra_simps)
    show ?thesis unfolding bytes_at_add a bt bs be by simp
  qed
  then have block: "bytes_at m6 (P - of_nat ?T) ?T = concat_z (t # ss @ es)" unfolding kT [symmetric] tot [symmetric] by simp
  have ptr: "peek32 m6 (A + 4 * of_nat i) = USER_STACK_TOP - of_nat (length (concat_z (drop i (t # ss @ es))))" if "i < n + 1" for i
  proof (cases i)
    case 0
    have "peek32 m6 A = USER_STACK_TOP - of_nat (length ?Ze) - of_nat (length ?Zs) - (of_nat (length t) + 1)" by (simp add: m6_def)
    then show ?thesis unfolding 0 by (simp add: algebra_simps)
  next
    case (Suc j)
    then have j: "j < n" using that by simp
    have ix: "A + 4 + 4 * of_nat j = A + 4 * of_nat i" by (simp add: Suc algebra_simps)
    have "4 * i < 4096" "0 < i" using that fit(1) Suc by auto
    then have "peek32 m6 (A + 4 * of_nat i) = USER_STACK_TOP - of_nat (length ?Ze) - of_nat (length (concat_z (drop j ss)))"
      using words m4(3) [OF j] ix by simp
    moreover have "drop i (t # ss @ es) = drop j ss @ es" using j by (simp add: Suc n_def)
    ultimately show ?thesis by (simp add: algebra_simps)
  qed
  have null: "peek32 m6 (A + 4 * of_nat (n + 1)) = 0" "peek32 m6 (A + 4 * of_nat (n + 2 + e)) = 0"
    using words [of "n + 1"] words4 [of "n + 1"] words3 [of "n + 1"] words [of "n + 2 + e"] words4 [of "n + 2 + e"] words3 [of "n + 2 + e"]
      w2 fit(1) unfolding Ee by simp_all
  have env: "peek32 m6 (A + 4 * of_nat (n + 2 + i)) = USER_STACK_TOP - of_nat (length (concat_z (drop i es)))" if "i < e" for i
  proof -
    have eq: "E + 4 * of_nat i = A + 4 * of_nat (n + 2 + i)" by (simp add: E_def algebra_simps)
    have j: "0 < n + 2 + i" "n < n + 2 + i" "4 * (n + 2 + i) < 4096" using that fit(1) by simp_all
    show ?thesis unfolding words [OF j(1,3)] words4 [OF j(2,3)] using m3(3) [OF that] unfolding eq .
  qed
  have run: "args_strings m P A (of_nat (n + 1)) (of_nat e) f argv envp = Some (m6, P - of_nat ?T)"
  proof -
    have ix: "A + 4 * (of_nat (n + 1) + 1) = E" by (simp add: E_def algebra_simps)
    have cnt: "unat (of_nat e :: u32) = e" "unat (of_nat (n + 1) - 1 :: u32) = n" using fit(1) by (simp_all add: unat_of_nat take_bit_nat_eq_self)
    show ?thesis unfolding args_strings_def Let_def ix cnt m1_def [symmetric] m2_def [symmetric] m3(1) kT [symmetric]
      by (simp add: m4(1) [folded k3_def, folded k4_def] k3_def [symmetric] k4_def [symmetric] c(1,2) k5_def [symmetric] m5_def [symmetric] m6_def del: memcpy_loop.simps)
  qed
  show ?thesis using run block ptr null env fin unfolding X_def Q_def [symmetric] L_def [symmetric] by (intro exI [of _ m6]) blast
qed


lemma bytes_at_part:
  assumes "bytes_at m' d N = bytes_at m s N" "i + k \<le> N"
  shows "bytes_at m' (d + of_nat i) k = bytes_at m (s + of_nat i) k"
proof -
  have "bytes_at m a (i + k + (N - (i + k))) = bytes_at m a i @ bytes_at m (a + of_nat i) k @ bytes_at m (a + of_nat (i + k)) (N - (i + k))" for m a
    by (simp only: bytes_at_add append_assoc)
  then have "take k (drop i (bytes_at m a N)) = bytes_at m (a + of_nat i) k" for m a using assms(2) by (simp add: take_append)
  then show ?thesis using assms(1) by metis
qed

lemma peek32_of_bytes: "bytes_at m' b 4 = bytes_at m a 4 \<Longrightarrow> peek32 m' b = peek32 m a"
  by (simp add: peek32_def eval_nat_numeral add.assoc)

lemma peek32_bytes:
  assumes "bytes_at m' d N = bytes_at m s N" "4 * i + 4 \<le> N"
  shows "peek32 m' (d + 4 * of_nat i) = peek32 m (s + 4 * of_nat i)"
  using bytes_at_part [OF assms] by (intro peek32_of_bytes) simp

lemma concat_z_cstr:
  "bytes_at m p (length (concat_z zs)) = concat_z zs \<Longrightarrow> \<forall>z \<in> set zs. EOS \<notin> set z \<Longrightarrow> i < length zs \<Longrightarrow>
   cstr m (p + of_nat (length (concat_z (take i zs)))) (zs ! i)"
proof (induction zs arbitrary: p i)
  case (Cons z zs)
  have "bytes_at m p (Suc (length z) + length (concat_z zs)) = (z @ [EOS]) @ concat_z zs" using Cons.prems(1) by simp
  then have b: "bytes_at m p (Suc (length z)) = z @ [EOS]" "bytes_at m (p + of_nat (Suc (length z))) (length (concat_z zs)) = concat_z zs"
    unfolding bytes_at_add
    using append_eq_append_conv [of "bytes_at m p (Suc (length z))" "z @ [EOS]" "bytes_at m (p + of_nat (Suc (length z))) (length (concat_z zs))"
        "concat_z zs"] by (simp_all only: length_bytes_at length_append_singleton simp_thms)
  show ?case
  proof (cases i)
    case 0
    then show ?thesis using b(1) Cons.prems(2) by (simp add: cstr_bytes del: bytes_at.simps)
  next
    case (Suc j)
    then have "cstr m (p + of_nat (Suc (length z)) + of_nat (length (concat_z (take j zs)))) (zs ! j)"
      using Cons.IH [OF b(2)] Cons.prems(2,3) by simp
    then show ?thesis using Suc by (simp add: algebra_simps)
  qed
qed simp

text \<open>One more part of the block below \<open>k\<close>: what is above it stays.\<close>

lemma copy_below:
  assumes "N \<le> unat k" "region s N \<inter> between (unat k - N) (unat k) = {}"
  shows "unat (k - of_nat N) = unat k - N" "bytes_at (memcpy_loop m (k - of_nat N) s N) (k - of_nat N) N = bytes_at m s N"
    "x \<notin> between (unat k - N) (unat k) \<Longrightarrow> memcpy_loop m (k - of_nat N) s N x = m x"
proof -
  have N: "N < 2 ^ 32" using assms(1) unat_lt2p [of k] by simp
  then have "unat (of_nat N :: u32) = N" by (intro unat_of_nat_less) simp
  then show u: "unat (k - of_nat N) = unat k - N" using assms(1) by (subst unat_sub) (simp_all add: word_le_nat_alt)
  have r: "region (k - of_nat N) N = between (unat k - N) (unat k)"
    using u assms(1) unat_lt2p [of k] by (subst region_between) simp_all
  then have "region (k - of_nat N) N \<inter> region s N = {}" using assms(2) by blast
  note M = memcpy_loop_spec [OF this N, of m, unfolded r]
  from M show "bytes_at (memcpy_loop m (k - of_nat N) s N) (k - of_nat N) N = bytes_at m s N" by blast
  from M show "x \<notin> between (unat k - N) (unat k) \<Longrightarrow> memcpy_loop m (k - of_nat N) s N x = m x" by blast
qed


text \<open>An array of \<open>argv\<close> form: the pointers, none of them null, and a null pointer behind them.\<close>

definition argv_of :: "mem \<Rightarrow> u32 \<Rightarrow> u8 list list \<Rightarrow> u32 set \<Rightarrow> bool" where
  "argv_of m argv ss S \<longleftrightarrow> argv \<noteq> 0 \<and> strings_in m argv ss S \<and> (\<forall>i < length ss. peek32 m (argv + 4 * of_nat i) \<noteq> 0) \<and>
     peek32 m (argv + 4 * of_nat (length ss)) = 0"

lemma count_argv_of:
  assumes "argv_of m argv ss S" shows "count_argv m argv = Some (of_nat (length ss))"
proof -
  have "i \<le> length ss \<Longrightarrow> count_from m argv (of_nat i) = Some (of_nat (length ss))" for i
  proof (induction "length ss - i" arbitrary: i)
    case 0
    then show ?case using assms by (subst count_from.simps) (simp add: argv_of_def)
  next
    case (Suc k)
    then have i: "i < length ss" by simp
    have "count_from m argv (of_nat (Suc i)) = Some (of_nat (length ss))" by (rule Suc.hyps(1)) (use Suc.hyps(2) i in simp_all)
    with i show ?case using assms by (subst count_from.simps) (simp add: argv_of_def add.commute)
  qed
  from this [of 0] show ?thesis using assms by (simp add: count_argv_def argv_of_def)
qed

lemma build_args_spec:
  fixes A P :: u32 and ss es :: "u8 list list" and t :: "u8 list"
  defines "n \<equiv> length ss" and "e \<equiv> length es" and "T \<equiv> length (concat_z (t # ss @ es))"
  defines "N \<equiv> T + 4 * (n + e + 4)"
  assumes room: "room_ok A P"
    and arg: "strings_in m argv ss S" "strings_in m envp es S" "cstr m f t" "region f (Suc (length t)) \<subseteq> S" "S \<subseteq> between 0 0xC0000000"
    and fit: "n + e + 3 \<le> 1024" "N < 16384"
  shows "\<exists>b. build_args m P A (of_nat (n + 1)) (of_nat e) f argv envp = Some (b, P - of_nat N) \<and>
     bytes_at b (P - of_nat T) T = concat_z (t # ss @ es) \<and> peek32 b (P - of_nat N) = of_nat (n + 1) \<and>
     (\<forall>i < n + 1. peek32 b (P - of_nat N + 4 + 4 * of_nat i) = USER_STACK_TOP - of_nat (length (concat_z (drop i (t # ss @ es))))) \<and>
     peek32 b (P - of_nat N + 4 + 4 * of_nat (n + 1)) = 0 \<and>
     (\<forall>i < e. peek32 b (P - of_nat N + 4 + 4 * of_nat (n + 2 + i)) = USER_STACK_TOP - of_nat (length (concat_z (drop i es)))) \<and>
     peek32 b (P - of_nat N + 4 + 4 * of_nat (n + 2 + e)) = 0"
proof -
  define Q where "Q = between (unat A) (unat A + 4096)"
  define L where "L = unat P - 16384"
  have A: "unat A + 4096 \<le> 2 ^ 32" and L: "0xC0000000 \<le> L" "L + 16384 = unat P" and QB: "Q \<inter> between L (unat P) = {}"
    using room by (auto simp: room_ok_def Q_def L_def)
  have fit4: "4 * (length ss + length es + 3) \<le> 4096" "length (concat_z (t # ss @ es)) \<le> 16384"
    using fit unfolding n_def e_def N_def T_def by simp_all
  from args_strings_spec [OF room arg fit4, folded n_def e_def T_def] obtain m6 where m6:
     "args_strings m P A (of_nat (n + 1)) (of_nat e) f argv envp = Some (m6, P - of_nat T)"
     "bytes_at m6 (P - of_nat T) T = concat_z (t # ss @ es)"
     "\<And>i. i < n + 1 \<Longrightarrow> peek32 m6 (A + 4 * of_nat i) = USER_STACK_TOP - of_nat (length (concat_z (drop i (t # ss @ es))))"
     "peek32 m6 (A + 4 * of_nat (n + 1)) = 0"
     "\<And>i. i < e \<Longrightarrow> peek32 m6 (A + 4 * of_nat (n + 2 + i)) = USER_STACK_TOP - of_nat (length (concat_z (drop i es)))"
     "peek32 m6 (A + 4 * of_nat (n + 2 + e)) = 0" by blast
  define E where "E = A + 4 * of_nat (n + 2)"
  have uE: "unat E = unat A + 4 * (n + 2)" unfolding E_def using A fit(1) by (intro unat_index) auto
  have rE: "region E (4 * (e + 1)) \<subseteq> Q"
    using uE A fit(1) unfolding Q_def by (subst region_between, simp) (intro between_mono; simp)
  have rA: "region A (4 * (n + 2)) \<subseteq> Q" using A fit(1) unfolding Q_def by (subst region_between, simp) (intro between_mono; simp)
  define k6 where "k6 = P - of_nat T"
  have k6: "unat k6 = unat P - T"
  proof -
    have "unat (of_nat T :: u32) = T" using fit(2) unfolding N_def by (intro unat_of_nat_less) simp
    then show ?thesis unfolding k6_def using L(2) fit(2) N_def by (subst unat_sub) (simp_all add: word_le_nat_alt)
  qed
  have e1: "4 * (e + 1) \<le> unat k6" "L \<le> unat k6 - 4 * (e + 1)" using k6 L(2) fit(2) unfolding N_def by simp_all
  have s1: "between (unat k6 - 4 * (e + 1)) (unat k6) \<subseteq> between L (unat P)" using e1 k6 by (intro between_mono; simp)
  then have "region E (4 * (e + 1)) \<inter> between (unat k6 - 4 * (e + 1)) (unat k6) = {}" using rE QB by blast
  note c1 = copy_below(1) [OF e1(1) this] copy_below(2,3) [OF e1(1) this, where m = m6]
  define k7 where "k7 = k6 - of_nat (4 * (e + 1))"
  define m7 where "m7 = memcpy_loop m6 k7 E (4 * (e + 1))"
  note c1 = c1 [folded k7_def, folded m7_def]
  have e2: "4 * (n + 2) \<le> unat k7" "L \<le> unat k7 - 4 * (n + 2)" using c1(1) k6 L(2) fit(2) unfolding N_def by simp_all
  have s2: "between (unat k7 - 4 * (n + 2)) (unat k7) \<subseteq> between L (unat P)" using e2 c1(1) k6 by (intro between_mono; simp)
  then have "region A (4 * (n + 2)) \<inter> between (unat k7 - 4 * (n + 2)) (unat k7) = {}" using rA QB by blast
  note c2 = copy_below(1) [OF e2(1) this] copy_below(2,3) [OF e2(1) this, where m = m7]
  define k8 where "k8 = k7 - of_nat (4 * (n + 2))"
  define m8 where "m8 = memcpy_loop m7 k8 A (4 * (n + 2))"
  note c2 = c2 [folded k8_def, folded m8_def]
  define k9 where "k9 = k8 - 4"
  have u9: "unat k9 = unat k8 - 4" "L \<le> unat k9" "4 \<le> unat k8"
  proof -
    show "4 \<le> unat k8" using c2(1) c1(1) k6 L fit(2) unfolding N_def by simp
    then show "unat k9 = unat k8 - 4" unfolding k9_def by (subst unat_sub) (simp_all add: word_le_nat_alt)
    then show "L \<le> unat k9" using c2(1) c1(1) k6 L fit(2) unfolding N_def by simp
  qed
  define b where "b = poke32 m8 k9 (of_nat (n + 1))"
  have r9: "region k9 4 = between (unat k9) (unat k8)" using u9 unat_lt2p [of k8] by (subst region_between) simp_all
  have fb: "b x = m8 x" if "x \<notin> between (unat k9) (unat k8)" for x
    using poke32_frame [of x k9 m8] that unfolding b_def r9 by simp
  have kN: "k9 = P - of_nat N" "k8 = P - of_nat N + 4" "k7 = P - of_nat N + 4 + 4 * of_nat (n + 2)"
    unfolding k9_def k8_def k7_def k6_def N_def by (simp_all add: algebra_simps)
  have above: "b x = m6 x" if "unat k6 \<le> unat x" for x
  proof -
    have "x \<notin> between (unat k9) (unat k8)" "x \<notin> between (unat k7 - 4 * (n + 2)) (unat k7)" "x \<notin> between (unat k6 - 4 * (e + 1)) (unat k6)"
      using that c1(1) c2(1) by (auto simp: between_def)
    then show ?thesis using fb c2(3) c1(3) by simp
  qed
  have strs: "bytes_at b (P - of_nat T) T = concat_z (t # ss @ es)"
  proof -
    have "bytes_at b k6 T = bytes_at m6 k6 T"
    proof (rule bytes_at_frame)
      fix x assume "x \<in> region k6 T"
      then have "x \<in> between (unat k6) (unat k6 + T)" using k6 fit(2) N_def L unat_lt2p [of P] by (subst (asm) region_between) simp_all
      then show "b x = m6 x" using above by (simp add: between_def)
    qed
    then show ?thesis using m6(2) by (simp add: k6_def)
  qed
  have r8: "region k8 (4 * (n + 2)) = between (unat k8) (unat k7)"
    using c2(1) e2 unat_lt2p [of k7] by (subst region_between) simp_all
  have r7: "region k7 (4 * (e + 1)) = between (unat k7) (unat k6)"
    using c1(1) e1 unat_lt2p [of k6] by (subst region_between) simp_all
  have m76: "bytes_at m7 A (4 * (n + 2)) = bytes_at m6 A (4 * (n + 2))"
    by (rule bytes_keep [of _ _ "between (unat k6 - 4 * (e + 1)) (unat k6)"]) (use rA s1 QB c1(3) in blast)+
  have args: "bytes_at b k8 (4 * (n + 2)) = bytes_at m6 A (4 * (n + 2))"
  proof -
    have "bytes_at b k8 (4 * (n + 2)) = bytes_at m8 k8 (4 * (n + 2))"
    proof (rule bytes_keep [of _ _ "between (unat k9) (unat k8)"])
      show "region k8 (4 * (n + 2)) \<inter> between (unat k9) (unat k8) = {}" unfolding r8 by (auto simp: between_def)
    qed (rule fb)
    then show ?thesis using c2(2) m76 by (simp only:)
  qed
  have envs: "bytes_at b k7 (4 * (e + 1)) = bytes_at m6 E (4 * (e + 1))"
  proof -
    have "bytes_at b k7 (4 * (e + 1)) = bytes_at m7 k7 (4 * (e + 1))"
    proof (rule bytes_at_frame)
      fix x assume "x \<in> region k7 (4 * (e + 1))"
      then have "x \<notin> between (unat k9) (unat k8)" "x \<notin> between (unat k7 - 4 * (n + 2)) (unat k7)"
        unfolding r7 using c2(1) by (auto simp: between_def)
      then show "b x = m7 x" using fb c2(3) by simp
    qed
    then show ?thesis using c1(2) by (simp only:)
  qed
  have wa: "peek32 b (P - of_nat N + 4 + 4 * of_nat i) = peek32 m6 (A + 4 * of_nat i)" if "i < n + 2" for i
    using peek32_bytes [OF args, of i] that unfolding kN(2) by simp
  have we: "peek32 b (P - of_nat N + 4 + 4 * of_nat (n + 2 + i)) = peek32 m6 (A + 4 * of_nat (n + 2 + i))" if "i < e + 1" for i
  proof -
    have "k7 + 4 * of_nat i = P - of_nat N + 4 + 4 * of_nat (n + 2 + i)" "E + 4 * of_nat i = A + 4 * of_nat (n + 2 + i)"
      unfolding kN(3) E_def by (simp_all add: algebra_simps)
    then show ?thesis using peek32_bytes [OF envs, of i] that by (simp only:) simp
  qed
  have "peek32 b (P - of_nat N) = of_nat (n + 1)" unfolding kN(1) [symmetric] b_def by (rule peek32_poke32)
  moreover have "build_args m P A (of_nat (n + 1)) (of_nat e) f argv envp = Some (b, P - of_nat N)"
  proof -
    have w: "(of_nat e + 1) * 4 = (of_nat (4 * (e + 1)) :: u32)" "(of_nat (n + 1) + 1) * 4 = (of_nat (4 * (n + 2)) :: u32)"
      "A + 4 * (of_nat (n + 1) + 1) = E" by (simp_all add: E_def algebra_simps)
    have u: "unat (of_nat (4 * (e + 1)) :: u32) = 4 * (e + 1)" "unat (of_nat (4 * (n + 2)) :: u32) = 4 * (n + 2)"
      by (rule unat_of_nat_less; use fit(1) in simp)+
    show ?thesis unfolding build_args_def m6(1) Option.bind.simps split_conv Let_def w u k6_def [symmetric] k7_def [symmetric] m7_def [symmetric]
        k8_def [symmetric] m8_def [symmetric] k9_def [symmetric] b_def [symmetric] kN(1) [symmetric] ..
  qed
  moreover have "peek32 b (P - of_nat N + 4 + 4 * of_nat (n + 1)) = 0" using wa [of "n + 1"] m6(4) by simp
  moreover have "peek32 b (P - of_nat N + 4 + 4 * of_nat (n + 2 + e)) = 0" using we [of e] m6(6) by simp
  ultimately show ?thesis using strs wa m6(3) we m6(5) by (intro exI [of _ b] conjI) simp_all
qed


section \<open>What the new program finds on its stack\<close>

text \<open>
  The contract with the program: at \<open>sp\<close> the number of arguments, then their addresses and a null pointer, then the
  addresses of the environment and a null pointer, every address one of a string.
\<close>

definition stack_holds :: "mem \<Rightarrow> u32 \<Rightarrow> u8 list list \<Rightarrow> u8 list list \<Rightarrow> bool" where
  "stack_holds u sp args env \<longleftrightarrow>
     peek32 u sp = of_nat (length args) \<and>
     (\<forall>i < length args. cstr u (peek32 u (sp + 4 + 4 * of_nat i)) (args ! i)) \<and>
     peek32 u (sp + 4 + 4 * of_nat (length args)) = 0 \<and>
     (\<forall>i < length env. cstr u (peek32 u (sp + 4 + 4 * of_nat (length args + 1 + i))) (env ! i)) \<and>
     peek32 u (sp + 4 + 4 * of_nat (length args + 1 + length env)) = 0"

text \<open>The bytes that \<open>set_env_and_clean_fork\<close> moves, without what it does to tasks, files and pages.\<close>

definition stack_bytes :: "mem \<Rightarrow> mem \<Rightarrow> u32 \<Rightarrow> u32 \<Rightarrow> u32 \<Rightarrow> u32 \<Rightarrow> u32 \<Rightarrow> (u32 \<times> mem) option" where
  "stack_bytes junk m pages argvk filename argv envp = do {
     n \<leftarrow> count_argv m argv;
     envc \<leftarrow> count_argv m envp;
     (b, ktop) \<leftarrow> build_args m (pages + 4 * PAGE_SIZE) argvk (n + 1) envc filename argv envp;
     kassert (ktop > pages);
     let len = pages + 4 * PAGE_SIZE - ktop;
     Some (USER_STACK_TOP - len, memcpy_loop (drop_user junk b) (USER_STACK_TOP - len) ktop (unat len)) }"

lemma on_mm_bytes: "on_mm f s = Some s' \<Longrightarrow> bytes_of s' = bytes_of s"
  by (auto simp: on_mm_def bind_eq_Some_conv)

lemma on_fs_bytes: "on_fs f s = Some s' \<Longrightarrow> bytes_of s' = bytes_of s"
  by (auto simp: on_fs_def bind_eq_Some_conv)

lemma fork_clean_bytes: "fork_clean junk s = Some s' \<Longrightarrow> bytes_of s' = drop_user junk (bytes_of s)"
  unfolding fork_clean_def by (auto simp: bind_eq_Some_conv dest!: on_mm_bytes on_fs_bytes)

lemma set_env_bytes:
  assumes "set_env_and_clean_fork junk s filename argv envp = Some (utop, s')"
  shows "\<exists>pages m argvk m'. alloc_kpage (mm_part s) 4 = Some (pages, m) \<and> alloc_kpage m 1 = Some (argvk, m') \<and>
    stack_bytes junk (bytes_of s) pages argvk filename argv envp = Some (utop, bytes_of s')"
  using assms unfolding set_env_and_clean_fork_def Let_def
  by (auto simp: bind_eq_Some_conv stack_bytes_def Let_def split: if_splits dest!: on_mm_bytes fork_clean_bytes)
    (intro exI conjI impI, (rule refl | assumption)+)

text \<open>The block moves as one piece, so every word and string of it stays at its distance from the top.\<close>

lemma moved_block:
  assumes b: "bytes_at b (P - of_nat T) T = concat_z zs" and T: "T = length (concat_z zs)" "T \<le> N"
    and u: "bytes_at u (U - of_nat N) N = bytes_at b (P - of_nat N) N"
    and z: "\<forall>z \<in> set zs. EOS \<notin> set z" and i: "i < length zs"
  shows "cstr u (U - of_nat (length (concat_z (drop i zs)))) (zs ! i)"
proof -
  have e: "x - of_nat N + of_nat (N - T) = x - of_nat T" for x :: u32 using T(2) by (simp add: of_nat_diff)
  have "bytes_at u (U - of_nat T) T = bytes_at b (P - of_nat T) T"
    using bytes_at_part [OF u, of "N - T" T] T(2) unfolding e by simp
  then have "bytes_at u (U - of_nat T) (length (concat_z zs)) = concat_z zs" using b T(1) by simp
  from concat_z_cstr [OF this z i] show ?thesis unfolding T(1) offset_drop .
qed


text \<open>
  C9. The arguments and the environment reach the new program. Two arrays of strings in user space and the path of
  the program, in all at most 1021 pointers and less than 16 KiB with the strings and the count, are
  copied through the kernel to the top of the user stack: the program finds there the number of its arguments, the
  path and the arguments, a null pointer, the environment and a null pointer, whatever its new stack pages
  held before and although the old ones are gone.
\<close>

theorem exec_args_arrive:
  assumes room: "room_ok argvk (pages + 4 * PAGE_SIZE)" "unat pages + 16384 = unat (pages + 4 * PAGE_SIZE)"
    and args: "argv_of m argv ss S" "argv_of m envp es S" "cstr m f t" "region f (Suc (length t)) \<subseteq> S" "S \<subseteq> between 0 0xC0000000"
    and fit: "length ss + length es + 3 \<le> 1024" "length (concat_z (t # ss @ es)) + 4 * (length ss + length es + 4) < 16384"
  shows "\<exists>sp u. stack_bytes junk m pages argvk f argv envp = Some (sp, u) \<and> sp < USER_STACK_TOP \<and> stack_holds u sp (t # ss) es"
proof -
  let ?zs = "t # ss @ es"
  define P where "P = pages + 4 * PAGE_SIZE"
  define T where "T = length (concat_z ?zs)"
  define N where "N = T + 4 * (length ss + length es + 4)"
  have N: "N < 16384" "T \<le> N" using fit(2) by (simp_all add: N_def T_def)
  have P: "0xC0004000 \<le> unat P" "unat pages + 16384 = unat P" using room by (simp_all add: room_ok_def P_def)
  have str: "strings_in m argv ss S" "strings_in m envp es S" using args(1,2) by (simp_all add: argv_of_def)
  from build_args_spec [OF room(1) str args(3-5) fit, folded P_def T_def, folded N_def] obtain b where
    b: "build_args m P argvk (of_nat (length ss + 1)) (of_nat (length es)) f argv envp = Some (b, P - of_nat N)"
      "bytes_at b (P - of_nat T) T = concat_z ?zs" "peek32 b (P - of_nat N) = of_nat (length ss + 1)"
      "\<And>i. i < length ss + 1 \<Longrightarrow> peek32 b (P - of_nat N + 4 + 4 * of_nat i) = USER_STACK_TOP - of_nat (length (concat_z (drop i ?zs)))"
      "peek32 b (P - of_nat N + 4 + 4 * of_nat (length ss + 1)) = 0"
      "\<And>i. i < length es \<Longrightarrow> peek32 b (P - of_nat N + 4 + 4 * of_nat (length ss + 2 + i)) = USER_STACK_TOP - of_nat (length (concat_z (drop i es)))"
      "peek32 b (P - of_nat N + 4 + 4 * of_nat (length ss + 2 + length es)) = 0" by blast
  define sp where "sp = USER_STACK_TOP - of_nat N"
  define u where "u = memcpy_loop (drop_user junk b) sp (P - of_nat N) N"
  have uN: "unat (of_nat N :: u32) = N" using N(1) by (intro unat_of_nat_less) simp
  have uP: "unat (P - of_nat N) = unat P - N" using P N(1) uN by (subst unat_sub) (simp_all add: word_le_nat_alt)
  have usp: "unat sp = 0xBFFFFFFF - N" unfolding sp_def USER_STACK_TOP_def KERNEL_PAGE_DIR_VADDR_def
    using N(1) uN by (subst unat_sub) (simp_all add: word_le_nat_alt)
  have rk: "region (P - of_nat N) N = between (unat P - N) (unat P)"
    using uP P N(1) unat_lt2p [of P] by (subst region_between) simp_all
  have ru: "region sp N = between (0xBFFFFFFF - N) 0xBFFFFFFF" using usp N(1) by (subst region_between) simp_all
  have apart: "region sp N \<inter> region (P - of_nat N) N = {}" unfolding rk ru using N(1) P by (auto simp: between_def)
  have "bytes_at u sp N = bytes_at (drop_user junk b) (P - of_nat N) N"
    unfolding u_def using memcpy_loop_spec [OF apart] N(1) by simp
  also have "\<dots> = bytes_at b (P - of_nat N) N"
    by (rule bytes_at_frame) (use P N(1) in \<open>auto simp: rk between_def drop_user_def KERNEL_PAGE_DIR_VADDR_def word_less_nat_alt\<close>)
  finally have blk: "bytes_at u sp N = bytes_at b (P - of_nat N) N" .
  have word: "peek32 u (sp + 4 + 4 * of_nat i) = peek32 b (P - of_nat N + 4 + 4 * of_nat i)" if "i < length ss + length es + 3" for i
    using peek32_bytes [OF blk, of "Suc i"] that by (simp add: N_def algebra_simps)
  have z: "\<forall>z \<in> set ?zs. EOS \<notin> set z"
    using cstr_no_EOS [OF args(3)] strings_inD(1) [OF str(1), THEN cstr_no_EOS] strings_inD(1) [OF str(2), THEN cstr_no_EOS]
    by (auto simp: in_set_conv_nth)
  have s: "cstr u (USER_STACK_TOP - of_nat (length (concat_z (drop i ?zs)))) (?zs ! i)" if "i < length ?zs" for i
    using moved_block [OF b(2) T_def N(2) blk [unfolded sp_def] z that] .
  have held: "stack_holds u sp (t # ss) es"
    unfolding stack_holds_def
  proof (intro conjI allI impI)
    show "peek32 u sp = of_nat (length (t # ss))" using peek32_bytes [OF blk, of 0] b(3) by (simp add: N_def)
    show "cstr u (peek32 u (sp + 4 + 4 * of_nat i)) ((t # ss) ! i)" if "i < length (t # ss)" for i
      using s [of i] word [of i] b(4) [of i] that by (simp add: nth_append del: drop.simps nth_Cons concat_z_simps) (simp add: nth_append nth_Cons split: nat.splits)
    show "peek32 u (sp + 4 + 4 * of_nat (length (t # ss))) = 0" using word [of "length ss + 1"] b(5) by simp
    show "cstr u (peek32 u (sp + 4 + 4 * of_nat (length (t # ss) + 1 + i))) (es ! i)" if "i < length es" for i
      using s [of "length ss + 1 + i"] word [of "length ss + 2 + i"] b(6) [of i] that by (simp add: nth_append)
    show "peek32 u (sp + 4 + 4 * of_nat (length (t # ss) + 1 + length es)) = 0" using word [of "length ss + 2 + length es"] b(7) by simp
  qed
  have "stack_bytes junk m pages argvk f argv envp = Some (sp, u)"
  proof -
    have n: "(of_nat (length ss) :: u32) + 1 = of_nat (length ss + 1)" by simp
    have "pages < P - of_nat N" using uP P N(1) by (simp add: word_less_nat_alt)
    moreover have "P - (P - of_nat N) = of_nat N" by simp
    ultimately show ?thesis unfolding stack_bytes_def count_argv_of [OF args(1)] count_argv_of [OF args(2)] P_def [symmetric]
      by (simp only: Option.bind.simps n b(1) split_conv bind_kassert if_True Let_def uN sp_def [symmetric] u_def [symmetric])
  qed
  moreover have "sp < USER_STACK_TOP" using usp N fit(2) by (simp add: word_less_nat_alt USER_STACK_TOP_def KERNEL_PAGE_DIR_VADDR_def N_def)
  ultimately show ?thesis using held by blast
qed


text \<open>A caller with one argument and one environment string.\<close>

definition exec_demo :: mem where
  "exec_demo = (\<lambda>a. if a = 0x1000 then 0x70 else if a = 0x2001 then 0x30 else if a = 0x2101 then 0x31
     else if a = 0x3000 then 0x78 else if a = 0x3100 then 0x45 else 0)"

lemma exec_demo_args: "argv_of exec_demo 0x2000 [[0x78]] (between 0 0xC0000000)" "argv_of exec_demo 0x2100 [[0x45]] (between 0 0xC0000000)"
  by (simp_all add: argv_of_def strings_in_def exec_demo_def peek32_def region_4 between_def less_Suc_eq EOS_def)

lemma exec_args_arrive_witness:
  "\<exists>sp u. stack_bytes (\<lambda>_. 0xCC) exec_demo 0xC0200000 0xC0300000 0x1000 0x2000 0x2100 = Some (sp, u) \<and> sp < USER_STACK_TOP \<and>
     stack_holds u sp [[0x70], [0x78]] [[0x45]]"
proof (rule exec_args_arrive [OF _ _ exec_demo_args])
  show "room_ok 0xC0300000 (0xC0200000 + 4 * PAGE_SIZE)" by (auto simp: room_ok_def between_def PAGE_SIZE_def)
  show "cstr exec_demo 0x1000 [0x70]" by (simp add: exec_demo_def EOS_def)
  show "region 0x1000 (Suc (length [0x70])) \<subseteq> between 0 0xC0000000" by (simp add: between_def)
qed (simp_all add: PAGE_SIZE_def)

text \<open>
  C27. The header pointer of \<^verbatim>\<open>load_elf\<close> moves only past a header that it loads: from the first header on that is
  not of type \<^verbatim>\<open>PT_LOAD\<close>, all the other turns of the loop look at the same header, nothing more is loaded and
  the call goes on as if the program were complete. A program that begins with a note or an interpreter header
  is started without any of its segments.
\<close>

theorem load_headers_stuck:
  assumes "p_type (phdr_at (bytes_of s) ptr) \<noteq> PT_LOAD"
  shows "load_headers s n i ptr = Some s"
proof (induction "unat (ucast (e_phnum (ehdr_at (bytes_of s) USER_EXEC_ADDR)) - i :: u32)" arbitrary: i rule: less_induct)
  case less
  let ?k = "ucast (e_phnum (ehdr_at (bytes_of s) USER_EXEC_ADDR)) :: u32"
  show ?case
  proof (cases "i < ?k")
    case True
    then have "?k - i \<noteq> 0" by auto
    then have "unat (?k - (i + 1)) < unat (?k - i)" using unat_minus_one [of "?k - i"] by (simp add: diff_diff_eq unat_gt_0)
    then have "load_headers s n (i + 1) ptr = Some s" by (rule less)
    then show ?thesis using assms True by (subst load_headers.simps) simp
  qed (subst load_headers.simps, simp)
qed


text \<open>Two headers, the first one a note.\<close>

definition note_elf :: mem where
  "note_elf = (\<lambda>a. if a = USER_EXEC_ADDR + 44 then 2 else if a = USER_EXEC_ADDR + 52 then 4 else if a = USER_EXEC_ADDR + 84 then 1 else 0)"

lemma load_headers_stuck_witness:
  "\<forall>v m vp tp n. e_phnum (ehdr_at note_elf USER_EXEC_ADDR) = 2 \<and> p_type (phdr_at note_elf (USER_EXEC_ADDR + 84)) = PT_LOAD \<and>
     load_headers \<lparr>fs_part = v, mm_part = m, bytes_of = note_elf, vmap_page = vp, tty_pgid = tp\<rparr> n 0 (USER_EXEC_ADDR + 52) = Some \<lparr>fs_part = v, mm_part = m, bytes_of = note_elf, vmap_page = vp, tty_pgid = tp\<rparr>"
proof (intro allI conjI)
  show "e_phnum (ehdr_at note_elf USER_EXEC_ADDR) = 2" by (simp add: ehdr_at_def note_elf_def peek16_def USER_EXEC_ADDR_def)
  show "p_type (phdr_at note_elf (USER_EXEC_ADDR + 84)) = PT_LOAD" by (simp add: phdr_at_def note_elf_def peek32_def PT_LOAD_def USER_EXEC_ADDR_def)
  show "load_headers \<lparr>fs_part = v, mm_part = m, bytes_of = note_elf, vmap_page = vp, tty_pgid = tp\<rparr> n 0 (USER_EXEC_ADDR + 52) = Some \<lparr>fs_part = v, mm_part = m, bytes_of = note_elf, vmap_page = vp, tty_pgid = tp\<rparr>" for v m vp tp n
    by (rule load_headers_stuck) (simp add: phdr_at_def note_elf_def peek32_def PT_LOAD_def USER_EXEC_ADDR_def)
qed

end
