(* ===== verification/Fork_Pages.thy ===== *)
theory Fork_Pages
  imports Paging
begin

text \<open>
  What \<^verbatim>\<open>copy_pte\<close> of \<^verbatim>\<open>src/kernel/memory.c\<close> does to an address space when a process forks: parent and child
  see the same frames afterwards, private pages are read-only in both, and every page has one more owner. Together with
  the write fault of theory Paging this is copy on write.

  An address space is seen as its entries, indexed by the position in the directory and the position in the table.
\<close>

section \<open>Entries\<close>

definition entry :: "mm \<Rightarrow> u32 \<Rightarrow> nat \<Rightarrow> nat \<Rightarrow> u32 option" where
  "entry m pd d j =
     (if bit (phys m pd d) PTE_PRESENT \<and> bit (phys m (pte_index (phys m pd d)) j) PTE_PRESENT
      then Some (phys m (pte_index (phys m pd d)) j) else None)"

lemma walk_entry: "walk m pd v = entry m pd (PDE_IDX v) (PTE_IDX v)"
  by (simp add: walk_def entry_def Let_def)

text \<open>A private page loses the right to be written; a shared mapping keeps it.\<close>

definition shared_out :: "u32 \<Rightarrow> u32" where
  "shared_out e = (if bit e PTE_SHARED then e else pte_set PTE_WRITE False e)"

lemma shared_out_bits [simp]:
  "pte_index (shared_out e) = pte_index e" "bit (shared_out e) PTE_PRESENT = bit e PTE_PRESENT" "bit (shared_out e) PTE_SHARED = bit e PTE_SHARED"
  by (simp_all add: shared_out_def pte_set_bits)

definition out_table :: "nat set \<Rightarrow> (nat \<Rightarrow> u32) \<Rightarrow> nat \<Rightarrow> u32" where
  "out_table J T j = (if j \<in> J \<and> bit (T j) PTE_PRESENT then shared_out (T j) else T j)"

lemma out_table_present [simp]: "bit (out_table J T j) PTE_PRESENT = bit (T j) PTE_PRESENT"
  by (simp add: out_table_def)

text \<open>Every page of a user space is a referenced user frame of its own, that is no table, and has room for an owner.\<close>

definition page_ok :: "mm \<Rightarrow> nat \<Rightarrow> bool" where
  "page_ok m k \<longleftrightarrow> 4096 \<le> k \<and> k < unat (total_pages m) \<and> mem_map m ! k \<noteq> 0 \<and> mem_map m ! k < 254"

definition tables :: "mm \<Rightarrow> u32 \<Rightarrow> u32 set" where
  "tables m pd = {pte_index (phys m pd d) | d. d < 768 \<and> bit (phys m pd d) PTE_PRESENT}"

definition pages_ok :: "mm \<Rightarrow> u32 \<Rightarrow> nat set \<Rightarrow> bool" where
  "pages_ok m pd D \<longleftrightarrow>
     (\<forall>d \<in> D. \<forall>j < 1024. \<forall>e. entry m pd d j = Some e \<longrightarrow> page_ok m (unat (pte_index e)) \<and> pte_index e \<notin> tables m pd) \<and>
     (\<forall>d \<in> D. \<forall>j < 1024. \<forall>d' \<in> D. \<forall>j' < 1024. \<forall>e e'. entry m pd d j = Some e \<longrightarrow> entry m pd d' j' = Some e' \<longrightarrow>
        pte_index e = pte_index e' \<longrightarrow> d = d' \<and> j = j')"

section \<open>Owners\<close>

definition add_owner :: "mm \<Rightarrow> nat \<Rightarrow> mm" where
  "add_owner m k = m\<lparr>mem_map := (mem_map m)[k := mem_map m ! k + 1]\<rparr>"

fun add_owners :: "mm \<Rightarrow> nat list \<Rightarrow> mm" where
  "add_owners m [] = m"
| "add_owners m (k # ks) = add_owners (add_owner m k) ks"

lemma add_owner_fields [simp]:
  "phys (add_owner m k) = phys m" "total_pages (add_owner m k) = total_pages m" "kmap_pool (add_owner m k) = kmap_pool m"
  "kmap_pte (add_owner m k) = kmap_pte m" "kmap_start_vaddr (add_owner m k) = kmap_start_vaddr m" "mm_kern (add_owner m k) = mm_kern m"
  "vmap (add_owner m k) = vmap m" "length (mem_map (add_owner m k)) = length (mem_map m)"
  by (simp_all add: add_owner_def)

lemma add_owners_fields [simp]:
  "phys (add_owners m ks) = phys m" "total_pages (add_owners m ks) = total_pages m" "kmap_pool (add_owners m ks) = kmap_pool m"
  "kmap_pte (add_owners m ks) = kmap_pte m" "kmap_start_vaddr (add_owners m ks) = kmap_start_vaddr m"
  "mm_kern (add_owners m ks) = mm_kern m" "vmap (add_owners m ks) = vmap m" "length (mem_map (add_owners m ks)) = length (mem_map m)"
  by (induction ks arbitrary: m) simp_all

lemma add_owner_phys: "add_owner (m\<lparr>phys := q\<rparr>) k = (add_owner m k)\<lparr>phys := q\<rparr>"
  by (simp add: add_owner_def)

lemma add_owners_phys: "add_owners (m\<lparr>phys := q\<rparr>) ks = (add_owners m ks)\<lparr>phys := q\<rparr>"
  by (induction ks arbitrary: m) (simp_all add: add_owner_phys)

lemma small_count: "c < 254 \<Longrightarrow> c + 1 \<noteq> (0 :: u8)" "c < 254 \<Longrightarrow> c + 1 < (255 :: u8)"
proof -
  assume "c < 254"
  then have "unat c < 254" by (simp add: word_less_nat_alt)
  then have "unat (c + 1) = Suc (unat c)" by (intro unat_Suc_less) simp
  with \<open>unat c < 254\<close> show "c + 1 \<noteq> 0" "c + 1 < 255" by (auto simp: word_less_nat_alt word_unat_eq_iff)
qed

lemma add_owner_inv:
  assumes "mm_inv m" "page_ok m k"
  shows "mm_inv (add_owner m k)"
proof -
  have c: "counts_ok m" "kmap_bits_ok m" using assms(1) by (simp_all add: mm_inv_def)
  have k: "4096 \<le> k" "k < unat (total_pages m)" "mem_map m ! k \<noteq> 0" "mem_map m ! k + 1 \<noteq> 0"
    using assms(2) small_count by (auto simp: page_ok_def)
  show ?thesis using counts_same [OF c(1) k(2-4)] kmap_bits_user(2) [OF c(2) k(1)] by (simp add: mm_inv_def add_owner_def)
qed

lemma add_owners_spec:
  "distinct ks \<Longrightarrow> mm_inv m \<Longrightarrow> \<forall>k \<in> set ks. page_ok m k \<Longrightarrow>
   mm_inv (add_owners m ks) \<and> (\<forall>k. mem_map (add_owners m ks) ! k = (if k \<in> set ks then mem_map m ! k + 1 else mem_map m ! k))"
proof (induction ks arbitrary: m)
  case (Cons k ks)
  have k: "page_ok m k" and len: "k < length (mem_map m)"
    using Cons.prems(2,3) by (auto simp: page_ok_def mm_inv_def counts_ok_def)
  have ok: "\<forall>l \<in> set ks. page_ok (add_owner m k) l"
  proof
    fix l assume "l \<in> set ks"
    then have "l \<noteq> k" "page_ok m l" using Cons.prems(1,3) by auto
    then show "page_ok (add_owner m k) l" by (simp add: page_ok_def add_owner_def)
  qed
  have "mm_inv (add_owners (add_owner m k) ks) \<and> (\<forall>l. mem_map (add_owners (add_owner m k) ks) ! l =
      (if l \<in> set ks then mem_map (add_owner m k) ! l + 1 else mem_map (add_owner m k) ! l))"
    using Cons.IH [of "add_owner m k"] Cons.prems(1) add_owner_inv [OF Cons.prems(2) k] ok by simp
  then show ?case using Cons.prems(1) len by (auto simp: add_owner_def nth_list_update)
qed simp

section \<open>One table\<close>

definition page_list :: "(nat \<Rightarrow> u32) \<Rightarrow> nat list \<Rightarrow> nat list" where
  "page_list T js = map (\<lambda>j. unat (pte_index (T j))) (filter (\<lambda>j. bit (T j) PTE_PRESENT) js)"

lemma copy_entries_spec:
  "distinct js \<Longrightarrow> kframe m v = Some f \<Longrightarrow> distinct (page_list (phys m f) js) \<Longrightarrow> mm_inv m \<Longrightarrow>
   \<forall>k \<in> set (page_list (phys m f) js). page_ok m k \<Longrightarrow>
   copy_entries m v js = Some ((add_owners m (page_list (phys m f) js))\<lparr>phys := (phys m)(f := out_table (set js) (phys m f))\<rparr>)"
proof (induction js arbitrary: m)
  case Nil
  have "out_table {} (phys m f) = phys m f" by (rule ext) (simp add: out_table_def)
  then show ?case by (simp add: page_list_def)
next
  case (Cons j js)
  let ?e = "phys m f j"
  show ?case
  proof (cases "bit ?e PTE_PRESENT")
    case False
    then have "page_list (phys m f) (j # js) = page_list (phys m f) js" by (simp add: page_list_def)
    moreover have "out_table (set (j # js)) (phys m f) = out_table (set js) (phys m f)" using False by (intro ext) (auto simp: out_table_def)
    moreover have "copy_entries m v (j # js) = copy_entries m v js" using Cons.prems(2) False by (simp add: kread_def)
    ultimately show ?thesis using Cons.IH [of m] Cons.prems by simp
  next
    case True
    define k where "k = unat (pte_index ?e)"
    have pl: "page_list (phys m f) (j # js) = k # page_list (phys m f) js" using True by (simp add: page_list_def k_def)
    have k: "page_ok m k" and kn: "k \<notin> set (page_list (phys m f) js)" and len: "k < length (mem_map m)"
      using Cons.prems(3-5) unfolding pl by (auto simp: page_ok_def mm_inv_def counts_ok_def)
    define m1 where "m1 = m\<lparr>phys := (phys m)(f := (phys m f)(j := shared_out ?e))\<rparr>"
    define m2 where "m2 = add_owner m1 k"
    have so: "out_table {j} (phys m f) = (phys m f)(j := shared_out ?e)" using True by (intro ext) (auto simp: out_table_def)
    have w: "(if \<not> bit ?e PTE_SHARED then kwrite m v j (pte_set PTE_WRITE False ?e) else Some m) = Some m1"
      using Cons.prems(2) by (simp add: kwrite_def m1_def shared_out_def set_word_def fun_upd_idem)
    have c: "aget (mem_map m1) k = Some (mem_map m ! k)" "aset (mem_map m1) k (mem_map m ! k + 1) = Some (mem_map m2)" "mem_map m ! k + 1 < 255"
      using len k small_count(2) by (simp_all add: m1_def m2_def aget_def aset_def add_owner_def page_ok_def)
    have m2: "m1\<lparr>mem_map := mem_map m2\<rparr> = m2" by (simp add: m2_def add_owner_def)
    have step: "copy_entries m v (j # js) = copy_entries m2 v js"
      using Cons.prems(2) True w c m2 by (simp add: kread_def k_def [symmetric])
    have T: "phys m2 f = (phys m f)(j := shared_out ?e)" by (simp add: m2_def m1_def)
    have jn: "j \<notin> set js" using Cons.prems(1) by simp
    have pl2: "page_list (phys m2 f) js = page_list (phys m f) js"
    proof -
      have "phys m2 f i = phys m f i" if "i \<in> set js" for i using that jn unfolding T by auto
      then show ?thesis unfolding page_list_def by (simp cong: filter_cong)
    qed
    have inv1: "mm_inv m1" using Cons.prems(4) by (simp add: m1_def mm_inv_cong)
    have k1: "page_ok m1 k" using k by (simp add: page_ok_def m1_def)
    have "mm_inv m2" unfolding m2_def by (rule add_owner_inv [OF inv1 k1])
    moreover have "kframe m2 v = Some f" using Cons.prems(2) by (simp add: kframe_def m2_def m1_def kmap_get_index_def)
    moreover have "\<forall>l \<in> set (page_list (phys m2 f) js). page_ok m2 l"
    proof
      fix l assume l: "l \<in> set (page_list (phys m2 f) js)"
      then have "l \<noteq> k" "page_ok m l" using kn Cons.prems(5) unfolding pl pl2 by auto
      then show "page_ok m2 l" by (simp add: page_ok_def m2_def m1_def add_owner_def)
    qed
    moreover have "distinct (page_list (phys m2 f) js)" using Cons.prems(3) unfolding pl pl2 by simp
    ultimately have "copy_entries m2 v js = Some ((add_owners m2 (page_list (phys m f) js))\<lparr>phys := (phys m2)(f := out_table (set js) (phys m2 f))\<rparr>)"
      using Cons.IH [of m2] Cons.prems(1) pl2 by (simp add: fun_upd_def)
    moreover have "out_table (set js) (phys m2 f) = out_table (set (j # js)) (phys m f)"
      using jn True unfolding T by (intro ext) (auto simp: out_table_def)
    moreover have "(phys m2)(f := x) = (phys m)(f := x)" for x by (simp add: m2_def m1_def)
    moreover have "(add_owners m2 ks)\<lparr>phys := p\<rparr> = (add_owners (add_owner m k) ks)\<lparr>phys := p\<rparr>" for ks p
    proof -
      have "m2 = (add_owner m k)\<lparr>phys := phys m1\<rparr>" by (simp add: m2_def m1_def add_owner_def)
      then show ?thesis by (simp add: add_owners_phys)
    qed
    ultimately show ?thesis unfolding step pl by (simp only: add_owners.simps)
  qed
qed


lemma add_owners_window [simp]:
  "window_ok (add_owners m ks) = window_ok m" "mapped (add_owners m ks) v f = mapped m v f" "free_slots (add_owners m ks) = free_slots m"
  by (simp_all add: window_ok_def mapped_def free_slots_def)

lemma page_list_keep: "T' = T \<Longrightarrow> page_list T' js = page_list T js"
  by simp

text \<open>One turn of the loop over the directory, for a table that is present.\<close>

lemma copy_table_step:
  fixes m :: mm and pd c :: u32 and i :: nat
  defines "t \<equiv> pte_index (phys m pd i)"
  defines "ps \<equiv> page_list (phys m t) [0..<1024]"
  assumes inv: "mm_inv m" "window_ok m" "2 \<le> free_slots m" and us: "uspace_ok m pd" and i: "i < 768" "bit (phys m pd i) PTE_PRESENT"
    and c: "c < 0x1000" "c \<noteq> pd" and fr: "user_free m a"
    and ps: "distinct ps" "\<forall>k \<in> set ps. page_ok m k"
  shows "\<exists>m' F. copy_tables m pd c (i # is) = copy_tables m' pd c is \<and> user_free m (unat F) \<and> window_ok m' \<and> mm_inv m' \<and>
     free_slots m \<le> free_slots m' \<and> total_pages m' = total_pages m \<and> mm_kern m' = mm_kern m \<and> vmap m' = vmap m \<and>
     phys m' = (phys m)(c := (phys m c)(i := pte_set PTE_USER True (entry_init F)),
                        t := out_table {0..<1024} (phys m t), F := out_table {0..<1024} (phys m t)) \<and>
     (\<forall>k. mem_map m' ! k = (if k = unat F then 1 else if k \<in> set ps then mem_map m ! k + 1 else mem_map m ! k))"
proof -
  have t: "0x1000 \<le> t" "t < total_pages m" "mem_map m ! unat t \<noteq> 0" and pd: "pd < 0x1000" using us i unfolding uspace_ok_def t_def by blast+
  have tot: "unat (total_pages m) < 2 ^ 20" "unat (total_pages m) \<le> length (mem_map m)" using inv(1) by (auto simp: mm_inv_def counts_ok_def)
  have t20: "t < 0x100000" using t(2) tot(1) by (simp add: word_less_nat_alt)
  obtain n where n: "get_user_page m = Some (PAGE (of_nat n), take_frame m n)" "user_free m n" "mm_inv (take_frame m n)"
    using get_user_page_spec [OF inv(1) fr] by blast
  define F where "F = (of_nat n :: u32)"
  note fw = user_frame_word [OF inv(1) n(2), folded F_def]
  have Fc: "F \<noteq> c" "F \<noteq> pd" "t \<noteq> c" using fw(1) c(1) pd t(1) by auto
  have Ft: "F \<noteq> t" using t(3) n(2) fw(4) by (auto simp: user_free_def)
  have nps: "n \<notin> set ps" using ps(2) n(2) by (auto simp: user_free_def page_ok_def)
  define E where "E = pte_set PTE_USER True (entry_init F)"
  define m2 where "m2 = set_word (take_frame m n) c i E"
  have m2: "window_ok m2" "free_slots m2 = free_slots m" "mm_inv m2" using inv n(3) by (simp_all add: m2_def set_word_def mm_inv_cong)
  have ph2: "phys m2 = (phys m)(c := (phys m c)(i := E))" by (simp add: m2_def set_word_def)
  obtain x pool3 pte3 where k3: "kmap m2 (PAGE t) = Some (x, m2\<lparr>kmap_pool := pool3, kmap_pte := pte3\<rparr>)"
      "window_ok (m2\<lparr>kmap_pool := pool3, kmap_pte := pte3\<rparr>)" "mapped (m2\<lparr>kmap_pool := pool3, kmap_pte := pte3\<rparr>) x t"
      "free_slots m2 \<le> Suc (free_slots (m2\<lparr>kmap_pool := pool3, kmap_pte := pte3\<rparr>))"
    using kmap_spec [OF m2(1) t(1) t20] m2(2) inv(3) by auto
  define m3 where "m3 = m2\<lparr>kmap_pool := pool3, kmap_pte := pte3\<rparr>"
  note k3 = k3 [folded m3_def]
  have room3: "0 < free_slots m3" using k3(4) m2(2) inv(3) by simp
  obtain y pool4 pte4 where k4: "kmap m3 (PAGE F) = Some (y, m3\<lparr>kmap_pool := pool4, kmap_pte := pte4\<rparr>)"
      "window_ok (m3\<lparr>kmap_pool := pool4, kmap_pte := pte4\<rparr>)" "mapped (m3\<lparr>kmap_pool := pool4, kmap_pte := pte4\<rparr>) y F"
      "\<forall>u g. mapped m3 u g \<longrightarrow> mapped (m3\<lparr>kmap_pool := pool4, kmap_pte := pte4\<rparr>) u g"
      "free_slots m3 \<le> Suc (free_slots (m3\<lparr>kmap_pool := pool4, kmap_pte := pte4\<rparr>))"
    using kmap_spec [OF k3(2) fw(1,2) room3] by blast
  define m4 where "m4 = m3\<lparr>kmap_pool := pool4, kmap_pte := pte4\<rparr>"
  note k4 = k4 [folded m4_def]
  have map4: "mapped m4 x t" "mapped m4 y F" using k3(3) k4(3,4) by blast+
  have f4: "phys m4 = phys m2" "mem_map m4 = (mem_map m)[n := 1]" "total_pages m4 = total_pages m" "mm_kern m4 = mm_kern m" "vmap m4 = vmap m"
    by (simp_all add: m4_def m3_def m2_def set_word_def)
  have inv4: "mm_inv m4" using m2(3) by (simp add: m4_def m3_def mm_inv_cong)
  define T where "T = out_table {0..<1024} (phys m t)"
  have T4: "phys m4 t = phys m t" using Fc(3) by (simp add: f4(1) ph2)
  have pl: "page_list (phys m4 t) [0..<1024] = ps" unfolding ps_def T4 ..
  define m5 where "m5 = (add_owners m4 ps)\<lparr>phys := (phys m4)(t := T)\<rparr>"
  have ce: "copy_entries m4 x [0..<1024] = Some m5"
  proof -
    have "\<forall>k \<in> set ps. page_ok m4 k"
    proof
      fix k assume k: "k \<in> set ps"
      then have "k \<noteq> n" "page_ok m k" using nps ps(2) by auto
      then show "page_ok m4 k" by (simp add: page_ok_def f4)
    qed
    with copy_entries_spec [of "[0..<1024]" m4 x t] mapped_kframe [OF k4(2) map4(1)] ps(1) inv4
    show ?thesis unfolding pl by (simp add: m5_def T_def T4 atLeast0LessThan)
  qed
  have ps4: "\<forall>k \<in> set ps. page_ok m4 k"
  proof
    fix k assume "k \<in> set ps"
    then have "k \<noteq> n" "page_ok m k" using nps ps(2) by auto
    then show "page_ok m4 k" by (simp add: page_ok_def f4)
  qed
  note ow = add_owners_spec [OF ps(1) inv4 ps4]
  have m5: "window_ok m5" "mapped m5 x t" "mapped m5 y F" "free_slots m5 = free_slots m4" "mm_inv m5"
    using k4(2) map4 ow by (simp_all add: m5_def mm_inv_cong)
  define m6 where "m6 = m5\<lparr>phys := (phys m5)(F := phys m5 t)\<rparr>"
  have kc: "kcopy_page m5 y x = Some m6"
    using mapped_kframe [OF m5(1,3)] mapped_kframe [OF m5(1,2)] by (simp add: kcopy_page_def m6_def)
  have m6: "window_ok m6" "mapped m6 x t" "mapped m6 y F" "free_slots m6 = free_slots m4" "mm_inv m6"
    using m5 by (simp_all add: m6_def mm_inv_cong)
  obtain pool7 pte7 where u7: "kunmap m6 x = Some (m6\<lparr>kmap_pool := pool7, kmap_pte := pte7\<rparr>)"
      "window_ok (m6\<lparr>kmap_pool := pool7, kmap_pte := pte7\<rparr>)"
      "\<forall>u g. mapped m6 u g \<and> u \<noteq> x \<longrightarrow> mapped (m6\<lparr>kmap_pool := pool7, kmap_pte := pte7\<rparr>) u g"
      "free_slots m6 < free_slots (m6\<lparr>kmap_pool := pool7, kmap_pte := pte7\<rparr>)"
    using kunmap_spec [OF m6(1,2)] by blast
  define m7 where "m7 = m6\<lparr>kmap_pool := pool7, kmap_pte := pte7\<rparr>"
  note u7 = u7 [folded m7_def]
  have "y \<noteq> x" using mapped_inj m6(2,3) Ft by metis
  then have "mapped m7 y F" using u7(3) m6(3) by blast
  then obtain pool8 pte8 where u8: "kunmap m7 y = Some (m7\<lparr>kmap_pool := pool8, kmap_pte := pte8\<rparr>)"
      "window_ok (m7\<lparr>kmap_pool := pool8, kmap_pte := pte8\<rparr>)"
      "free_slots m7 < free_slots (m7\<lparr>kmap_pool := pool8, kmap_pte := pte8\<rparr>)"
    using kunmap_spec [OF u7(2)] by blast
  define m8 where "m8 = m7\<lparr>kmap_pool := pool8, kmap_pte := pte8\<rparr>"
  note u8 = u8 [folded m8_def]
  have run: "copy_tables m pd c (i # is) = copy_tables m8 pd c is"
  proof -
    have a: "IDX (PAGE F) = F" by (rule page_align(2) [OF fw(2)])
    have b: "set_word (take_frame m n) c i E = m2" by (simp add: m2_def)
    have p: "phys m2 pd i = phys m pd i" using c(2) by (simp add: ph2)
    have q: "get_user_page m = Some (PAGE F, take_frame m n)" using n(1) by (simp add: F_def)
    show ?thesis
      by (simp add: i(2) q Let_def a E_def [symmetric] b p t_def [symmetric] k3(1) [folded m3_def] k4(1) [folded m4_def] ce kc u7(1) [folded m7_def] u8(1) [folded m8_def])
  qed
  have fields: "total_pages m8 = total_pages m" "mm_kern m8 = mm_kern m" "vmap m8 = vmap m" "mem_map m8 = mem_map (add_owners m4 ps)"
    by (simp_all add: m8_def m7_def m6_def m5_def f4)
  have "phys m8 = (phys m)(c := (phys m c)(i := E), t := T, F := T)"
    by (simp add: m8_def m7_def m6_def m5_def f4(1) ph2)
  moreover have "mem_map m8 ! k = (if k = unat F then 1 else if k \<in> set ps then mem_map m ! k + 1 else mem_map m ! k)" for k
  proof -
    have "n < length (mem_map m)" using n(2) tot by (auto simp: user_free_def)
    then have "mem_map m4 ! k = (if k = n then 1 else mem_map m ! k)" by (simp add: f4 nth_list_update)
    then show ?thesis using ow nps by (auto simp: fields fw(4))
  qed
  moreover have "window_ok m8" "mm_inv m8" using u8(2) m6(5) by (simp_all add: m8_def m7_def mm_inv_cong)
  moreover have "free_slots m \<le> free_slots m8" using u8(3) u7(4) m6(4) k4(5) k3(4) m2(2) by (simp add: m4_def [symmetric])
  moreover have "user_free m (unat F)" using n(2) fw(4) by simp
  ultimately show ?thesis using run fields unfolding E_def T_def by (intro exI [of _ m8] exI [of _ F]) simp
qed


section \<open>All tables\<close>

definition used_by :: "mm \<Rightarrow> u32 \<Rightarrow> nat set \<Rightarrow> nat set" where
  "used_by m pd D = {unat (pte_index e) | d j e. d \<in> D \<and> j < 1024 \<and> entry m pd d j = Some e}"

definition table_at :: "mm \<Rightarrow> u32 \<Rightarrow> nat \<Rightarrow> u32" where
  "table_at m pd d = pte_index (phys m pd d)"

definition present_in :: "mm \<Rightarrow> u32 \<Rightarrow> nat set \<Rightarrow> nat set" where
  "present_in m pd D = {d \<in> D. bit (phys m pd d) PTE_PRESENT}"

text \<open>What the loop needs, and what it has done, for the tables in \<open>D\<close>.\<close>

definition copy_ready :: "mm \<Rightarrow> u32 \<Rightarrow> u32 \<Rightarrow> nat set \<Rightarrow> bool" where
  "copy_ready m pd c D \<longleftrightarrow> mm_inv m \<and> window_ok m \<and> 2 \<le> free_slots m \<and> uspace_ok m pd \<and> c < 0x1000 \<and> c \<noteq> pd \<and> D \<subseteq> {..<768} \<and>
     pages_ok m pd D \<and> (\<forall>d \<in> D. \<not> bit (phys m pd d) PTE_PRESENT \<longrightarrow> \<not> bit (phys m c d) PTE_PRESENT) \<and>
     card (present_in m pd D) \<le> card {k. user_free m k}"

definition same_rest :: "mm \<Rightarrow> mm \<Rightarrow> bool" where
  "same_rest m m' \<longleftrightarrow> mm_inv m' \<and> window_ok m' \<and> free_slots m \<le> free_slots m' \<and> total_pages m' = total_pages m \<and>
     mm_kern m' = mm_kern m \<and> vmap m' = vmap m"

definition copied :: "mm \<Rightarrow> mm \<Rightarrow> u32 \<Rightarrow> u32 \<Rightarrow> nat set \<Rightarrow> bool" where
  "copied m m' pd c D \<longleftrightarrow> phys m' pd = phys m pd \<and>
     (\<forall>d \<in> D. \<forall>j < 1024. entry m' pd d j = map_option shared_out (entry m pd d j) \<and> entry m' c d j = map_option shared_out (entry m pd d j)) \<and>
     (\<forall>d. d \<notin> D \<longrightarrow> phys m' c d = phys m c d) \<and>
     (\<forall>g. g \<noteq> c \<and> \<not> user_free m (unat g) \<and> g \<notin> table_at m pd ` present_in m pd D \<longrightarrow> phys m' g = phys m g) \<and>
     (\<forall>k. \<not> user_free m k \<longrightarrow> mem_map m' ! k = (if k \<in> used_by m pd D then mem_map m ! k + 1 else mem_map m ! k)) \<and>
     (\<forall>k. user_free m' k \<longrightarrow> user_free m k) \<and>
     (\<forall>d \<in> D. bit (phys m' c d) PTE_PRESENT = bit (phys m pd d) PTE_PRESENT) \<and>
     (\<forall>d \<in> present_in m pd D. user_free m (unat (table_at m' c d)) \<and> mem_map m' ! unat (table_at m' c d) = 1) \<and>
     inj_on (table_at m' c) (present_in m pd D)"

lemma used_byI: "d \<in> D \<Longrightarrow> j < 1024 \<Longrightarrow> entry m pd d j = Some e \<Longrightarrow> unat (pte_index e) \<in> used_by m pd D"
  unfolding used_by_def by blast

lemma used_by_insert: "used_by m pd (insert i D) = used_by m pd {i} \<union> used_by m pd D"
  by (auto simp: used_by_def)

lemma used_by_ok: "pages_ok m pd D \<Longrightarrow> k \<in> used_by m pd D \<Longrightarrow> page_ok m k"
  by (auto simp: used_by_def pages_ok_def)

lemma used_by_disjoint:
  assumes "pages_ok m pd (insert i D)" "i \<notin> D" shows "used_by m pd {i} \<inter> used_by m pd D = {}"
proof (rule ccontr)
  assume "used_by m pd {i} \<inter> used_by m pd D \<noteq> {}"
  then obtain j e d j' e' where "j < 1024" "entry m pd i j = Some e" "d \<in> D" "j' < 1024" "entry m pd d j' = Some e'"
      "unat (pte_index e) = unat (pte_index e')" by (auto simp: used_by_def)
  moreover have "pte_index e = pte_index e'" using calculation(6) by (simp add: word_unat_eq_iff)
  ultimately have "i = d" using assms(1) unfolding pages_ok_def by (metis insertCI)
  then show False using assms(2) \<open>d \<in> D\<close> by simp
qed

lemma page_list_set:
  "bit (phys m pd i) PTE_PRESENT \<Longrightarrow> set (page_list (phys m (table_at m pd i)) [0..<1024]) = used_by m pd {i}"
  by (auto simp: page_list_def used_by_def entry_def table_at_def)

lemma page_list_distinct:
  assumes "pages_ok m pd D" "i \<in> D" "bit (phys m pd i) PTE_PRESENT"
  shows "distinct (page_list (phys m (table_at m pd i)) [0..<1024])"
  unfolding page_list_def distinct_map
proof (intro conjI inj_onI)
  let ?T = "phys m (table_at m pd i)"
  fix j j' assume j: "j \<in> set (filter (\<lambda>j. bit (?T j) PTE_PRESENT) [0..<1024])" "j' \<in> set (filter (\<lambda>j. bit (?T j) PTE_PRESENT) [0..<1024])"
    and e: "unat (pte_index (?T j)) = unat (pte_index (?T j'))"
  then have "entry m pd i j = Some (?T j)" "entry m pd i j' = Some (?T j')" "j < 1024" "j' < 1024" "pte_index (?T j) = pte_index (?T j')"
    using assms(3) unfolding word_unat_eq_iff by (simp_all add: entry_def table_at_def)
  then show "j = j'" using assms(1,2) unfolding pages_ok_def by blast
qed simp

lemma entry_cong: "phys m' pd d = phys m pd d \<Longrightarrow> phys m' (table_at m pd d) = phys m (table_at m pd d) \<Longrightarrow> entry m' pd d j = entry m pd d j"
  by (simp add: entry_def table_at_def)


lemma copied_step:
  fixes m :: mm and pd t F :: u32 and i :: nat
  defines "t \<equiv> table_at m pd i"
  assumes rd: "copy_ready m pd c (insert i D)" and i: "i \<notin> D" "bit (phys m pd i) PTE_PRESENT"
    and F: "user_free m (unat F)" and sr: "same_rest m m1"
    and ph: "phys m1 = (phys m)(c := (phys m c)(i := pte_set PTE_USER True (entry_init F)),
                t := out_table {0..<1024} (phys m t), F := out_table {0..<1024} (phys m t))"
    and mp: "\<And>k. mem_map m1 ! k = (if k = unat F then 1 else if k \<in> used_by m pd {i} then mem_map m ! k + 1 else mem_map m ! k)"
  shows "copy_ready m1 pd c D" "copied m1 m' pd c D \<Longrightarrow> copied m m' pd c (insert i D)"
proof -
  let ?E = "pte_set PTE_USER True (entry_init F)" and ?T = "out_table {0..<1024} (phys m t)"
  have us: "uspace_ok m pd" and c: "c < 0x1000" "c \<noteq> pd" and pg: "pages_ok m pd (insert i D)" and lt: "i < 768" "D \<subseteq> {..<768}"
    using rd by (auto simp: copy_ready_def)
  have tot: "unat (total_pages m) < 2 ^ 20" using rd by (auto simp: copy_ready_def mm_inv_def counts_ok_def)
  have pd: "pd < 0x1000" using us by (simp add: uspace_ok_def)
  have tab: "0x1000 \<le> table_at m pd d" "mem_map m ! unat (table_at m pd d) \<noteq> 0" "\<not> user_free m (unat (table_at m pd d))"
    "table_at m pd d < total_pages m"
    if "d < 768" "bit (phys m pd d) PTE_PRESENT" for d
    using us that by (auto simp: uspace_ok_def table_at_def user_free_def)
  have tabi: "table_at m pd d \<noteq> table_at m pd d'"
    if "d < 768" "d' < 768" "bit (phys m pd d) PTE_PRESENT" "bit (phys m pd d') PTE_PRESENT" "d \<noteq> d'" for d d'
    using us that unfolding uspace_ok_def table_at_def by blast
  have t: "0x1000 \<le> t" "\<not> user_free m (unat t)" using tab [OF lt(1) i(2)] by (simp_all add: t_def)
  have F1: "0x1000 \<le> F" "F < 0x100000" using F tot by (auto simp: user_free_def word_le_nat_alt word_less_nat_alt)
  have ne: "t \<noteq> c" "t \<noteq> pd" "F \<noteq> c" "F \<noteq> pd" "F \<noteq> t" using t F F1 c pd by auto
  have E: "bit ?E PTE_PRESENT" "pte_index ?E = F" using entry_init_bits(1) entry_init_bits(4) [OF F1(2)] by (simp_all add: pte_set_bits)
  have ppd: "phys m1 pd = phys m pd" using ne c by (simp add: ph)
  have pc: "phys m1 c = (phys m c)(i := ?E)" using ne by (simp add: ph)
  have pt: "phys m1 t = ?T" "phys m1 F = ?T" using ne by (simp_all add: ph)
  have other: "phys m1 g = phys m g" if "g \<noteq> c" "g \<noteq> t" "g \<noteq> F" for g using that by (simp add: ph)
  have ta: "table_at m1 pd = table_at m pd" "present_in m1 pd = present_in m pd" by (auto simp: table_at_def present_in_def ppd fun_eq_iff)
  have tp: "total_pages m1 = total_pages m" using sr by (simp add: same_rest_def)
  have used1: "mem_map m ! k \<noteq> 0" "mem_map m ! k + 1 \<noteq> 0" "k \<noteq> unat F" "\<not> user_free m k" if "k \<in> used_by m pd (insert i D)" for k
    using used_by_ok [OF pg that] small_count(1) F by (auto simp: page_ok_def user_free_def)
  have nz: "mem_map m1 ! k \<noteq> 0" if "mem_map m ! k \<noteq> 0" for k
    using that used1(2) [of k] by (auto simp: mp used_by_insert [of m pd i D])
  have uf: "user_free m1 k \<longleftrightarrow> user_free m k \<and> k \<noteq> unat F" for k
  proof
    assume "user_free m1 k"
    then show "user_free m k \<and> k \<noteq> unat F" using nz [of k] by (auto simp: user_free_def tp mp split: if_splits)
  next
    assume k: "user_free m k \<and> k \<noteq> unat F"
    then have "k \<notin> used_by m pd {i}" using used1(4) [of k] by (auto simp: used_by_insert [of m pd i D])
    then show "user_free m1 k" using k by (simp add: user_free_def tp mp)
  qed
  have ent: "entry m1 pd d j = entry m pd d j" if "d \<in> D" "bit (phys m pd d) PTE_PRESENT" for d j
  proof (rule entry_cong)
    have d: "d < 768" "d \<noteq> i" using that lt(2) i(1) by auto
    have "table_at m pd d \<noteq> t" using tabi [OF d(1) lt(1) that(2) i(2) d(2)] by (simp add: t_def)
    moreover have "table_at m pd d \<noteq> F" "table_at m pd d \<noteq> c" using tab [OF d(1) that(2)] F c(1) by auto
    ultimately show "phys m1 (table_at m pd d) = phys m (table_at m pd d)" by (intro other) auto
  qed (simp add: ppd)
  have ent': "entry m1 pd d j = entry m pd d j" if "d \<in> D" for d j
    using ent [OF that] by (cases "bit (phys m pd d) PTE_PRESENT") (simp_all add: entry_def ppd)
  have ub: "used_by m1 pd D = used_by m pd D" unfolding used_by_def by (simp add: ent' cong: conj_cong)
  have usd: "uspace_ok m1 pd" using us nz unfolding uspace_ok_def ppd tp by blast
  have tabs: "tables m1 pd = tables m pd" by (simp add: tables_def ppd)
  have dis: "used_by m pd {i} \<inter> used_by m pd D = {}" by (rule used_by_disjoint [OF pg i(1)])
  have pg1: "pages_ok m1 pd D"
    unfolding pages_ok_def
  proof (intro conjI ballI allI impI)
    fix d j e assume d: "d \<in> D" "j < 1024" "entry m1 pd d j = Some e"
    then have e: "entry m pd d j = Some e" using ent' by simp
    then have "page_ok m (unat (pte_index e))" "pte_index e \<notin> tables m pd" using pg d by (auto simp: pages_ok_def)
    moreover have "unat (pte_index e) \<in> used_by m pd D" by (rule used_byI [OF d(1,2) e])
    then have "unat (pte_index e) \<notin> used_by m pd {i}" "unat (pte_index e) \<noteq> unat F" using dis used1(3) by (auto simp: used_by_insert [of m pd i D])
    ultimately show "page_ok m1 (unat (pte_index e))" "pte_index e \<notin> tables m1 pd" by (simp_all add: page_ok_def tp mp tabs)
  next
    fix d j d' j' e e' assume "d \<in> D" "j < 1024" "d' \<in> D" "j' < 1024" "entry m1 pd d j = Some e" "entry m1 pd d' j' = Some e'"
      "pte_index e = pte_index e'"
    then show "d = d'" "j = j'" using pg unfolding pages_ok_def by (simp_all add: ent')
  qed
  have fin: "finite {k. user_free m k}" by (rule finite_subset [of _ "{..<unat (total_pages m)}"]) (auto simp: user_free_def)
  have less: "{k. user_free m1 k} = {k. user_free m k} - {unat F}" using uf by auto
  have "unat F \<in> {k. user_free m k}" using F by simp
  then have cf: "Suc (card {k. user_free m1 k}) = card {k. user_free m k}" unfolding less by (rule card_Suc_Diff1 [OF fin])
  have finD: "finite D" by (rule finite_subset [OF lt(2)]) simp
  have "present_in m pd (insert i D) = insert i (present_in m pd D)" using i(2) by (auto simp: present_in_def)
  moreover have "i \<notin> present_in m pd D" "finite (present_in m pd D)" using i(1) finD by (auto simp: present_in_def)
  ultimately have cp: "card (present_in m pd (insert i D)) = Suc (card (present_in m pd D))" by simp
  show "copy_ready m1 pd c D"
    unfolding copy_ready_def
  proof (intro conjI)
    show "mm_inv m1" "window_ok m1" using sr by (simp_all add: same_rest_def)
    show "2 \<le> free_slots m1" using rd sr by (auto simp: copy_ready_def same_rest_def)
    show "\<forall>d \<in> D. \<not> bit (phys m1 pd d) PTE_PRESENT \<longrightarrow> \<not> bit (phys m1 c d) PTE_PRESENT" using rd i(1) by (auto simp: copy_ready_def ppd pc)
    show "card (present_in m1 pd D) \<le> card {k. user_free m1 k}" using rd cf cp by (simp add: copy_ready_def ta)
  qed (use c usd pg1 lt in auto)
  show "copied m m' pd c (insert i D)" if cd: "copied m1 m' pd c D"
  proof -
    have k: "phys m' pd = phys m1 pd" "\<And>d j. d \<in> D \<Longrightarrow> j < 1024 \<Longrightarrow> entry m' pd d j = map_option shared_out (entry m1 pd d j)"
      "\<And>d j. d \<in> D \<Longrightarrow> j < 1024 \<Longrightarrow> entry m' c d j = map_option shared_out (entry m1 pd d j)"
      "\<And>d. d \<notin> D \<Longrightarrow> phys m' c d = phys m1 c d"
      "\<And>g. g \<noteq> c \<Longrightarrow> \<not> user_free m1 (unat g) \<Longrightarrow> g \<notin> table_at m pd ` present_in m pd D \<Longrightarrow> phys m' g = phys m1 g"
      "\<And>k. \<not> user_free m1 k \<Longrightarrow> mem_map m' ! k = (if k \<in> used_by m pd D then mem_map m1 ! k + 1 else mem_map m1 ! k)"
      "\<And>k. user_free m' k \<Longrightarrow> user_free m1 k" "\<And>d. d \<in> D \<Longrightarrow> bit (phys m' c d) PTE_PRESENT = bit (phys m1 pd d) PTE_PRESENT"
      "\<And>d. d \<in> present_in m pd D \<Longrightarrow> user_free m1 (unat (table_at m' c d)) \<and> mem_map m' ! unat (table_at m' c d) = 1"
      "inj_on (table_at m' c) (present_in m pd D)"
      using cd unfolding copied_def ta ub by blast+
    have old: "table_at m pd ` present_in m pd D \<subseteq> table_at m pd ` present_in m pd (insert i D)" by (auto simp: present_in_def)
    have tn: "t \<notin> table_at m pd ` present_in m pd D"
      using tabi [OF lt(1) _ i(2)] lt(2) i(1) by (auto simp: t_def present_in_def)
    have Fn: "F \<notin> table_at m pd ` present_in m pd D" using tab(3) F lt(2) by (auto simp: present_in_def)
    have t1: "phys m' t = ?T" using k(5) [OF ne(1) _ tn] uf t(2) pt(1) by simp
    have F': "phys m' F = ?T" using k(5) [OF ne(3) _ Fn] uf pt(2) by simp
    have ci: "phys m' c i = ?E" using k(4) [OF i(1)] by (simp add: pc)
    have ei: "entry m' pd i j = map_option shared_out (entry m pd i j)" "entry m' c i j = map_option shared_out (entry m pd i j)" if "j < 1024" for j
    proof -
      have T: "?T j = (if bit (phys m t j) PTE_PRESENT then shared_out (phys m t j) else phys m t j)" using that by (simp add: out_table_def)
      have "pte_index (phys m pd i) = t" by (simp add: t_def table_at_def)
      then show "entry m' pd i j = map_option shared_out (entry m pd i j)" "entry m' c i j = map_option shared_out (entry m pd i j)"
        using i(2) E T by (simp_all add: entry_def k(1) ppd t1 ci F')
    qed
    have ins: "present_in m pd (insert i D) = insert i (present_in m pd D)" using i(2) by (auto simp: present_in_def)
    have ti: "table_at m' c i = F" by (simp add: table_at_def ci E(2))
    have mF: "mem_map m' ! unat F = 1"
    proof -
      have "unat F \<notin> used_by m pd D" using used1(3) by (auto simp: used_by_insert [of m pd i D])
      then show ?thesis using k(6) [of "unat F"] uf by (simp add: mp)
    qed
    have own: "mem_map m' ! l = (if l \<in> used_by m pd (insert i D) then mem_map m ! l + 1 else mem_map m ! l)" if "\<not> user_free m l" for l
    proof -
      have "l \<noteq> unat F" using that F by auto
      then have "mem_map m1 ! l = (if l \<in> used_by m pd {i} then mem_map m ! l + 1 else mem_map m ! l)" by (simp add: mp)
      moreover have "mem_map m' ! l = (if l \<in> used_by m pd D then mem_map m1 ! l + 1 else mem_map m1 ! l)" using k(6) that uf by simp
      moreover have "\<not> (l \<in> used_by m pd D \<and> l \<in> used_by m pd {i})" using dis by blast
      ultimately show ?thesis unfolding used_by_insert [of m pd i D] by auto
    qed
    show ?thesis
      unfolding copied_def ins
    proof (intro conjI allI impI ballI)
      show "phys m' pd = phys m pd" using k(1) ppd by simp
      show "entry m' pd d j = map_option shared_out (entry m pd d j)" "entry m' c d j = map_option shared_out (entry m pd d j)"
        if "d \<in> insert i D" "j < 1024" for d j using that k(2,3) ei ent' by auto
      show "phys m' c d = phys m c d" if "d \<notin> insert i D" for d using that k(4) [of d] by (simp add: pc)
      show "phys m' g = phys m g" if "g \<noteq> c \<and> \<not> user_free m (unat g) \<and> g \<notin> table_at m pd ` insert i (present_in m pd D)" for g
        using that k(5) [of g] other [of g] uf F by (auto simp: t_def)
      show "mem_map m' ! l = (if l \<in> used_by m pd (insert i D) then mem_map m ! l + 1 else mem_map m ! l)" if "\<not> user_free m l" for l
        by (rule own [OF that])
      show "user_free m l" if "user_free m' l" for l using k(7) [OF that] uf by simp
      show "bit (phys m' c d) PTE_PRESENT = bit (phys m pd d) PTE_PRESENT" if "d \<in> insert i D" for d
        using that k(8) i(2) E(1) by (auto simp: ci ppd)
      show "user_free m (unat (table_at m' c d))" "mem_map m' ! unat (table_at m' c d) = 1" if "d \<in> insert i (present_in m pd D)" for d
        using that k(9) uf F mF ti by auto
      show "inj_on (table_at m' c) (insert i (present_in m pd D))"
        using k(9,10) uf ti i(1) by (auto simp: present_in_def inj_on_insert) metis
    qed
  qed
qed

lemma copy_tables_spec:
  "distinct is \<Longrightarrow> copy_ready m pd c (set is) \<Longrightarrow> \<exists>m'. copy_tables m pd c is = Some m' \<and> same_rest m m' \<and> copied m m' pd c (set is)"
proof (induction "is" arbitrary: m)
  case Nil
  then have "same_rest m m" "copied m m pd c {}"
    by (auto simp: same_rest_def copied_def copy_ready_def used_by_def present_in_def)
  then show ?case by simp
next
  case (Cons i "is")
  have rd: "copy_ready m pd c (insert i (set is))" and i: "i \<notin> set is" using Cons.prems by simp_all
  show ?case
  proof (cases "bit (phys m pd i) PTE_PRESENT")
    case False
    have none: "entry m pd i j = None" for j using False by (simp add: entry_def)
    have "present_in m pd (insert i (set is)) = present_in m pd (set is)" "used_by m pd (insert i (set is)) = used_by m pd (set is)"
      using False none by (auto simp: present_in_def used_by_def)
    note same = this
    have "copy_ready m pd c (set is)" using rd unfolding copy_ready_def same pages_ok_def by simp
    then obtain m' where m': "copy_tables m pd c is = Some m'" "same_rest m m'" "copied m m' pd c (set is)" using Cons.IH Cons.prems(1) by auto
    have "\<not> bit (phys m c i) PTE_PRESENT" using rd False by (simp add: copy_ready_def)
    then have c: "\<not> bit (phys m' c i) PTE_PRESENT" using m'(3) i by (simp add: copied_def)
    then have "entry m' c i j = None" "entry m' pd i j = None" for j using m'(3) False by (simp_all add: entry_def copied_def)
    then have "copied m m' pd c (insert i (set is))"
      using m'(3) False c none unfolding copied_def same by simp
    then show ?thesis using m' False by simp
  next
    case True
    have r: "mm_inv m" "window_ok m" "2 \<le> free_slots m" "uspace_ok m pd" "i < 768" "c < 0x1000" "c \<noteq> pd" "pages_ok m pd (insert i (set is))"
      "card (present_in m pd (insert i (set is))) \<le> card {k. user_free m k}"
      using rd by (auto simp: copy_ready_def)
    have "i \<in> present_in m pd (insert i (set is))" using True by (simp add: present_in_def)
    moreover have "finite (present_in m pd (insert i (set is)))" by (simp add: present_in_def)
    ultimately have "0 < card {k. user_free m k}" using r(9) card_gt_0_iff by (metis empty_iff gr0I le_zero_eq)
    then obtain a where a: "user_free m a" by (metis (no_types, lifting) card_gt_0_iff empty_Collect_eq)
    have d: "distinct (page_list (phys m (pte_index (phys m pd i))) [0..<1024])"
      "set (page_list (phys m (pte_index (phys m pd i))) [0..<1024]) = used_by m pd {i}"
      using page_list_distinct [OF r(8) _ True] page_list_set [OF True] by (simp_all add: table_at_def)
    have ok: "\<forall>k \<in> set (page_list (phys m (pte_index (phys m pd i))) [0..<1024]). page_ok m k"
      unfolding d(2) using used_by_ok [OF r(8)] by (auto simp: used_by_insert [of m pd i "set is"])
    from copy_table_step [OF r(1-5) True r(6,7) a d(1) ok, of "is"] obtain m1 F where
      m1: "copy_tables m pd c (i # is) = copy_tables m1 pd c is" "user_free m (unat F)" "same_rest m m1"
        "phys m1 = (phys m)(c := (phys m c)(i := pte_set PTE_USER True (entry_init F)),
           table_at m pd i := out_table {0..<1024} (phys m (table_at m pd i)), F := out_table {0..<1024} (phys m (table_at m pd i)))"
        "\<forall>k. mem_map m1 ! k = (if k = unat F then 1 else if k \<in> used_by m pd {i} then mem_map m ! k + 1 else mem_map m ! k)"
      unfolding d(2) same_rest_def table_at_def by blast
    note st = copied_step [OF rd i True m1(2-4) m1(5) [rule_format]]
    obtain m' where m': "copy_tables m1 pd c is = Some m'" "same_rest m1 m'" "copied m1 m' pd c (set is)"
      using Cons.IH [OF _ st(1)] Cons.prems(1) by auto
    have "same_rest m m'" using m1(3) m'(2) by (auto simp: same_rest_def)
    then show ?thesis using st(2) [OF m'(3)] m1(1) m'(1) by simp
  qed
qed


section \<open>The directory\<close>

lemma copy_pde_spec:
  assumes inv: "mm_inv m" and pd: "get_pde m = Some pd" and n: "task_at (mm_kern m) n = Some t" "n \<noteq> cur (mm_kern m)"
    and room: "free_run (kernel_map m) 1 s0"
  shows "\<exists>c m1. copy_pde m n = Some m1 \<and> mm_inv m1 \<and> 0x100 \<le> c \<and> c < 0x1000 \<and> mem_map m ! unat c = 0 \<and>
     phys m1 = (phys m)(c := phys m pd) \<and> mm_kern m1 = put_task (mm_kern m) n (t\<lparr>t_pde := PAGE c\<rparr>) \<and>
     total_pages m1 = total_pages m \<and> kmap_pool m1 = kmap_pool m \<and> kmap_pte m1 = kmap_pte m \<and>
     kmap_start_vaddr m1 = kmap_start_vaddr m \<and> vmap m1 = vmap m \<and>
     (\<forall>j. mem_map m1 ! j = (if j = unat c then 1 else mem_map m ! j))"
proof -
  have one: "unat (1 :: u32) = 1" by simp
  from alloc_kpage_spec [of m 1 s0, unfolded one, OF inv zero_less_one room] obtain s m0 where a: "alloc_kpage m 1 = Some (kpage_vaddr s, m0)" "mm_inv m0"
      "s + 1 \<le> 3840" "\<forall>j. mem_map m0 ! j = (if s + 256 \<le> j \<and> j < s + 256 + 1 then 1 else mem_map m ! j)"
      "\<forall>j. s + 256 \<le> j \<and> j < s + 256 + 1 \<longrightarrow> mem_map m ! j = 0" "\<exists>bm mmap f. m0 = m\<lparr>kernel_map := bm, mem_map := mmap, free_pages := f\<rparr>"
    by blast
  define c where "c = (of_nat (256 + s) :: u32)"
  have c: "unat c = 256 + s" "c < 0x1000" "0x100 \<le> c" using a(3) by (simp_all add: c_def word_less_nat_alt word_le_nat_alt unat_word_ariths)
  have v: "kpage_vaddr s - KERNEL_PAGE_DIR_VADDR = PAGE c"
    by (simp add: kpage_vaddr_def KERNEL_PAGE_DIR_VADDR_def PAGE_def push_bit_eq_mult c_def algebra_simps)
  have "c < 0x100000" using c(1) a(3) by (simp add: word_less_nat_alt)
  then have ic: "IDX (PAGE c) = c" by (rule page_align)
  have f: "phys m0 = phys m" "mm_kern m0 = mm_kern m" "total_pages m0 = total_pages m" "kmap_pool m0 = kmap_pool m" "kmap_pte m0 = kmap_pte m"
    "kmap_start_vaddr m0 = kmap_start_vaddr m" "vmap m0 = vmap m" using a(6) by auto
  have gp: "get_pde m0 = Some pd" using pd by (simp add: get_pde_def f)
  let ?m1 = "m0\<lparr>phys := (phys m)(c := phys m pd), mm_kern := put_task (mm_kern m) n (t\<lparr>t_pde := PAGE c\<rparr>)\<rparr>"
  have "copy_pde m n = Some ?m1"
    using a(1) gp n by (simp add: copy_pde_def v ic f Let_def)
  moreover have "mm_inv ?m1" using a(2) by (simp add: mm_inv_def counts_ok_def kmap_bits_ok_def)
  moreover have "mem_map m ! unat c = 0" "\<forall>j. mem_map ?m1 ! j = (if j = unat c then 1 else mem_map m ! j)"
    using a(4,5) c(1) by auto
  ultimately show ?thesis using c f by (intro exI [of _ c] exI [of _ ?m1]) simp
qed

lemma copy_pte_shares:
  assumes ok: "vm_ok m pd" "mem_map m ! unat pd \<noteq> 0" "pages_ok m pd {..<768}" and room: "2 \<le> free_slots m" "free_run (kernel_map m) 1 s0"
    and n: "task_at (mm_kern m) n = Some t" "n \<noteq> cur (mm_kern m)" and cur: "get_current (mm_kern m) = Some p" "t_pde p AND 0xFFF = 0"
    and fr: "card (tables m pd) \<le> card {k. user_free m k}"
  shows "\<exists>m' c. copy_pte m n = Some m' \<and> mm_kern m' = put_task (mm_kern m) n (t\<lparr>t_pde := PAGE c\<rparr>) \<and> c \<noteq> pd \<and>
     vm_ok m' pd \<and> uspace_ok m' c \<and> tables m' pd = tables m pd \<and> tables m' c \<inter> tables m pd = {} \<and>
     (\<forall>u. PDE_IDX u < 768 \<longrightarrow> walk m' pd u = map_option shared_out (walk m pd u) \<and> walk m' c u = map_option shared_out (walk m pd u)) \<and>
     (\<forall>u e. PDE_IDX u < 768 \<and> walk m pd u = Some e \<longrightarrow>
        mem_map m' ! unat (pte_index e) = mem_map m ! unat (pte_index e) + 1 \<and> phys m' (pte_index e) = phys m (pte_index e)) \<and>
     (\<forall>d. 768 \<le> d \<longrightarrow> phys m' c d = phys m pd d) \<and> vmap m' = vmap m \<and>
     (\<forall>k < 4096. mem_map m' ! k = (if k = unat c then 1 else mem_map m ! k))"
proof -
  have v: "mm_inv m" "window_ok m" "get_pde m = Some pd" "uspace_ok m pd" using ok(1) by (auto simp: vm_ok_def)
  obtain c m1 where m1: "copy_pde m n = Some m1" "mm_inv m1" "0x100 \<le> c" "c < 0x1000" "mem_map m ! unat c = 0"
      "phys m1 = (phys m)(c := phys m pd)" "mm_kern m1 = put_task (mm_kern m) n (t\<lparr>t_pde := PAGE c\<rparr>)"
      "total_pages m1 = total_pages m" "kmap_pool m1 = kmap_pool m" "kmap_pte m1 = kmap_pte m" "kmap_start_vaddr m1 = kmap_start_vaddr m"
      "vmap m1 = vmap m" "\<forall>j. mem_map m1 ! j = (if j = unat c then 1 else mem_map m ! j)"
    using copy_pde_spec [OF v(1,3) n room(2)] by blast
  have cpd: "c \<noteq> pd" using m1(5) ok(2) by auto
  have tab: "0x1000 \<le> pte_index (phys m pd d)" "mem_map m ! unat (pte_index (phys m pd d)) \<noteq> 0"
    if "d < 768" "bit (phys m pd d) PTE_PRESENT" for d using v(4) that by (auto simp: uspace_ok_def)
  have ent: "entry m1 pd d j = entry m pd d j" if "d < 768" for d j
  proof (cases "bit (phys m pd d) PTE_PRESENT")
    case True
    then have "pte_index (phys m pd d) \<noteq> c" using tab(1) [OF that] m1(4) by auto
    then show ?thesis using cpd by (simp add: entry_def m1(6))
  qed (use cpd in \<open>simp add: entry_def m1(6)\<close>)
  have ppd: "phys m1 pd = phys m pd" using cpd by (simp add: m1(6))
  have uc: "unat c < 4096" using m1(4) by (simp add: word_less_nat_alt)
  have uf: "user_free m1 k = user_free m k" for k using uc by (auto simp: user_free_def m1(8,13))
  have po: "page_ok m1 k = page_ok m k" for k using uc by (auto simp: page_ok_def m1(8,13))
  have tb: "tables m1 pd = tables m pd" by (simp add: tables_def ppd)
  have rd: "copy_ready m1 pd c {..<768}"
    unfolding copy_ready_def
  proof (intro conjI)
    show "uspace_ok m1 pd" using v(4) m1(13) by (auto simp: uspace_ok_def ppd m1(8))
    show "pages_ok m1 pd {..<768}" using ok(3) ent unfolding pages_ok_def po tb by simp
    have "inj_on (table_at m pd) (present_in m pd {..<768})" using v(4) by (auto simp: inj_on_def uspace_ok_def table_at_def present_in_def)
    moreover have "table_at m pd ` present_in m pd {..<768} = tables m pd" by (auto simp: tables_def table_at_def present_in_def)
    ultimately have "card (present_in m pd {..<768}) = card (tables m pd)" using card_image by force
    then show "card (present_in m1 pd {..<768}) \<le> card {k. user_free m1 k}" using fr by (simp add: uf present_in_def ppd)
  qed (use v m1 cpd room in \<open>auto simp: window_ok_def free_slots_def ppd\<close>)
  have z: "set [0..<768] = {..<768}" by auto
  obtain m2 where m2: "copy_tables m1 pd c [0..<768] = Some m2" "same_rest m1 m2" "copied m1 m2 pd c {..<768}"
    using copy_tables_spec [of "[0..<768]" m1 pd c] rd unfolding z by auto
  have cp: "phys m2 pd = phys m pd"
      "\<And>d j. d < 768 \<Longrightarrow> j < 1024 \<Longrightarrow> entry m2 pd d j = map_option shared_out (entry m pd d j)"
      "\<And>d j. d < 768 \<Longrightarrow> j < 1024 \<Longrightarrow> entry m2 c d j = map_option shared_out (entry m pd d j)"
      "\<And>d. 768 \<le> d \<Longrightarrow> phys m2 c d = phys m pd d"
      "\<And>g. g \<noteq> c \<Longrightarrow> \<not> user_free m (unat g) \<Longrightarrow> g \<notin> tables m pd \<Longrightarrow> phys m2 g = phys m g"
      "\<And>k. \<not> user_free m k \<Longrightarrow> k \<noteq> unat c \<Longrightarrow> mem_map m2 ! k = (if k \<in> used_by m pd {..<768} then mem_map m ! k + 1 else mem_map m ! k)"
      "\<And>d. d < 768 \<Longrightarrow> bit (phys m2 c d) PTE_PRESENT = bit (phys m pd d) PTE_PRESENT"
      "\<And>d. d < 768 \<Longrightarrow> bit (phys m pd d) PTE_PRESENT \<Longrightarrow> user_free m (unat (table_at m2 c d)) \<and> mem_map m2 ! unat (table_at m2 c d) = 1"
      "inj_on (table_at m2 c) (present_in m pd {..<768})" "mem_map m2 ! unat c = 1"
  proof -
    have u: "used_by m1 pd {..<768} = used_by m pd {..<768}" unfolding used_by_def by (simp add: ent cong: conj_cong)
    have pr: "present_in m1 pd = present_in m pd" "table_at m1 pd = table_at m pd" by (auto simp: present_in_def table_at_def ppd fun_eq_iff)
    have ti: "table_at m pd ` present_in m pd {..<768} = tables m pd" by (auto simp: tables_def table_at_def present_in_def)
    note D = m2(3) [unfolded copied_def u pr ti uf ppd]
    show "phys m2 pd = phys m pd" using D by blast
    show "entry m2 pd d j = map_option shared_out (entry m pd d j)" "entry m2 c d j = map_option shared_out (entry m pd d j)"
      if "d < 768" "j < 1024" for d j using D that ent by simp_all
    show "phys m2 c d = phys m pd d" if "768 \<le> d" for d using D that by (simp add: m1(6))
    show "phys m2 g = phys m g" if "g \<noteq> c" "\<not> user_free m (unat g)" "g \<notin> tables m pd" for g using D that by (simp add: m1(6))
    show "mem_map m2 ! k = (if k \<in> used_by m pd {..<768} then mem_map m ! k + 1 else mem_map m ! k)" if "\<not> user_free m k" "k \<noteq> unat c" for k
      using D that by (simp add: m1(13))
    show "bit (phys m2 c d) PTE_PRESENT = bit (phys m pd d) PTE_PRESENT" if "d < 768" for d using D that by simp
    show "user_free m (unat (table_at m2 c d)) \<and> mem_map m2 ! unat (table_at m2 c d) = 1" if "d < 768" "bit (phys m pd d) PTE_PRESENT" for d
      using D that by (simp add: present_in_def)
    show "inj_on (table_at m2 c) (present_in m pd {..<768})" using D by blast
    have "unat c \<notin> used_by m pd {..<768}" using used_by_ok [OF ok(3), of "unat c"] uc by (auto simp: page_ok_def)
    moreover have "\<not> user_free m (unat c)" using uc by (simp add: user_free_def)
    ultimately show "mem_map m2 ! unat c = 1" using D by (simp add: m1(13))
  qed
  have kern: "mm_kern m2 = put_task (mm_kern m) n (t\<lparr>t_pde := PAGE c\<rparr>)" using m2(2) m1(7) by (simp add: same_rest_def)
  have gc: "get_current (mm_kern m2) = Some p" using cur(1) n(2) by (simp add: kern get_current_def)
  define m' where "m' = m2\<lparr>cr3_reg := t_pde p\<rparr>"
  have fields: "phys m' = phys m2" "mem_map m' = mem_map m2" "total_pages m' = total_pages m2" "mm_kern m' = mm_kern m2"
    by (simp_all add: m'_def)
  have tp: "total_pages m2 = total_pages m" using m2(2) m1(8) by (simp add: same_rest_def)
  have "c < 0x100000" using m1(4) by (simp add: word_less_nat_alt)
  then have ic: "IDX (PAGE c) = c" by (rule page_align)
  have run: "copy_pte m n = Some m'"
  proof -
    have "n < length (task_list (mm_kern m))" by (rule task_at_bound [OF n(1)])
    then have "task_at (mm_kern m1) n = Some (t\<lparr>t_pde := PAGE c\<rparr>)" by (simp add: m1(7))
    moreover have "PDE_IDX KERNEL_PAGE_DIR_VADDR = 768" by (simp add: PDE_IDX_def KERNEL_PAGE_DIR_VADDR_def drop_bit_eq_div)
    ultimately show ?thesis using v(3) m1(1) m2(1) gc cur(2) by (simp add: copy_pte_def ic set_cr3_def ASSERT_PAGE_def m'_def)
  qed
  have tabm: "mem_map m2 ! unat (pte_index (phys m pd d)) \<noteq> 0" "\<not> user_free m (unat (pte_index (phys m pd d)))"
    if "d < 768" "bit (phys m pd d) PTE_PRESENT" for d
  proof -
    let ?k = "unat (pte_index (phys m pd d))"
    show nf: "\<not> user_free m ?k" using tab(2) [OF that] by (simp add: user_free_def)
    have "pte_index (phys m pd d) \<in> tables m pd" using that by (auto simp: tables_def)
    moreover have "e \<notin> tables m pd" if u: "unat e \<in> used_by m pd {..<768}" for e
    proof -
      obtain d j x where x: "d \<in> {..<768}" "j < 1024" "entry m pd d j = Some x" "unat e = unat (pte_index x)" using u by (auto simp: used_by_def)
      then have "e = pte_index x" by (simp add: word_unat_eq_iff)
      then show ?thesis using ok(3) x(1-3) unfolding pages_ok_def by blast
    qed
    ultimately have "?k \<notin> used_by m pd {..<768}" by blast
    moreover have "?k \<noteq> unat c" using tab(1) [OF that] uc by (auto simp: word_le_nat_alt)
    ultimately show "mem_map m2 ! ?k \<noteq> 0" using cp(6) [OF nf] tab(2) [OF that] by simp
  qed
  have vm: "vm_ok m' pd"
  proof -
    have "mm_inv m' = mm_inv m2" "window_ok m' = window_ok m2" by (simp_all add: m'_def mm_inv_def counts_ok_def kmap_bits_ok_def window_ok_def)
    then have "mm_inv m'" "window_ok m'" using m2(2) by (simp_all add: same_rest_def)
    moreover have "get_pde m' = Some pd" using v(3) gc cur(1) by (simp add: get_pde_def fields)
    moreover have "uspace_ok m' pd" using v(4) tabm(1) by (auto simp: uspace_ok_def fields cp(1) tp)
    ultimately show ?thesis by (simp add: vm_ok_def)
  qed
  have child: "0x1000 \<le> table_at m2 c d" "table_at m2 c d < total_pages m" "mem_map m2 ! unat (table_at m2 c d) \<noteq> 0"
    if "d < 768" "bit (phys m2 c d) PTE_PRESENT" for d
    using cp(8) [OF that(1)] cp(7) [OF that(1)] that(2) by (auto simp: user_free_def word_le_nat_alt word_less_nat_alt)
  have us: "uspace_ok m' c"
    unfolding uspace_ok_def fields tp
  proof (intro conjI allI impI)
    show "c < 0x1000" by (rule m1(4))
    show "0x1000 \<le> pte_index (phys m2 c i)" "pte_index (phys m2 c i) < total_pages m" "mem_map m2 ! unat (pte_index (phys m2 c i)) \<noteq> 0"
      if "i < 768" "bit (phys m2 c i) PTE_PRESENT" for i using child [OF that] by (simp_all add: table_at_def)
    show "i = j" if "i < 768" "j < 768" "bit (phys m2 c i) PTE_PRESENT \<and> bit (phys m2 c j) PTE_PRESENT \<and> pte_index (phys m2 c i) = pte_index (phys m2 c j)" for i j
      using inj_onD [OF cp(9), of i j] that cp(7) by (simp add: table_at_def present_in_def)
  qed
  have disj: "tables m' c \<inter> tables m pd = {}"
  proof -
    have "table_at m2 c d \<noteq> pte_index (phys m pd e)" if "d < 768" "bit (phys m2 c d) PTE_PRESENT" "e < 768" "bit (phys m pd e) PTE_PRESENT" for d e
      using cp(8) [OF that(1)] cp(7) [OF that(1)] that(2) tabm(2) [OF that(3,4)] by auto
    then show ?thesis by (auto simp: tables_def fields table_at_def)
  qed
  have ptei: "PTE_IDX u < 1024" for u
  proof -
    have "PTE_IDX u = take_bit 10 (unat (drop_bit 12 u))"
      by (simp add: PTE_IDX_def take_bit_eq_mask mask_eq_exp_minus_1 unsigned_and_eq)
    then show ?thesis using take_bit_nat_less_exp [of 10] by simp
  qed
  have wk: "walk m' x u = entry m2 x (PDE_IDX u) (PTE_IDX u)" for x u by (simp add: walk_entry entry_def fields)
  have data: "mem_map m' ! unat (pte_index e) = mem_map m ! unat (pte_index e) + 1" "phys m' (pte_index e) = phys m (pte_index e)"
    if "PDE_IDX u < 768" "walk m pd u = Some e" for u e
  proof -
    have e: "entry m pd (PDE_IDX u) (PTE_IDX u) = Some e" using that(2) by (simp add: walk_entry)
    have k: "page_ok m (unat (pte_index e))" "pte_index e \<notin> tables m pd" using ok(3) that(1) ptei e by (auto simp: pages_ok_def)
    have "unat (pte_index e) \<in> used_by m pd {..<768}" using used_byI [OF _ ptei e] that(1) by simp
    moreover have nf: "\<not> user_free m (unat (pte_index e))" "unat (pte_index e) \<noteq> unat c" using k(1) uc by (auto simp: page_ok_def user_free_def)
    ultimately show "mem_map m' ! unat (pte_index e) = mem_map m ! unat (pte_index e) + 1" using cp(6) by (simp add: fields)
    have "pte_index e \<noteq> c" using nf(2) by auto
    then show "phys m' (pte_index e) = phys m (pte_index e)" using cp(5) nf(1) k(2) by (simp add: fields)
  qed
  have "tables m' pd = tables m pd" by (simp add: tables_def fields cp(1))
  moreover have "walk m' pd u = map_option shared_out (walk m pd u)" "walk m' c u = map_option shared_out (walk m pd u)" if "PDE_IDX u < 768" for u
    unfolding wk walk_entry [of m] by (rule cp(2,3) [OF that ptei])+
  moreover have "phys m' c d = phys m pd d" if "768 \<le> d" for d using cp(4) [OF that] by (simp add: fields)
  moreover have "mm_kern m' = put_task (mm_kern m) n (t\<lparr>t_pde := PAGE c\<rparr>)" using kern by (simp add: fields)
  moreover have "vmap m' = vmap m" using m2(2) m1(12) by (simp add: m'_def same_rest_def)
  moreover have "mem_map m' ! k = (if k = unat c then 1 else mem_map m ! k)" if "k < 4096" for k
  proof -
    have "\<not> user_free m k" "k \<notin> used_by m pd {..<768}" using that used_by_ok [OF ok(3), of k] by (auto simp: user_free_def page_ok_def)
    then show ?thesis using cp(6) [of k] cp(10) by (auto simp: fields)
  qed
  ultimately show ?thesis using run cpd vm us disj data by (intro exI [of _ m'] exI [of _ c]) blast
qed


text \<open>
  C3. Fork shares the address space. On a well-formed space whose pages each have one place and fewer than 254 owners,
  with a free kernel page, two window slots and a free frame for every table, \<^verbatim>\<open>copy_pte\<close> returns: the child has a
  directory of its own with tables of its own, every user address leads both processes to the same frame as before, the
  contents are untouched, a private page can be written in neither, every page has one more owner, the kernel half is the
  same, and both spaces are well-formed.
\<close>

theorem fork_shares_pages:
  assumes ok: "vm_ok m pd" "mem_map m ! unat pd \<noteq> 0" "pages_ok m pd {..<768}" and room: "2 \<le> free_slots m" "free_run (kernel_map m) 1 s0"
    and n: "task_at (mm_kern m) n = Some t" "n \<noteq> cur (mm_kern m)" and cur: "get_current (mm_kern m) = Some p" "t_pde p AND 0xFFF = 0"
    and fr: "card (tables m pd) \<le> card {k. user_free m k}"
  shows "\<exists>m' c. copy_pte m n = Some m' \<and> mm_kern m' = put_task (mm_kern m) n (t\<lparr>t_pde := PAGE c\<rparr>) \<and> c \<noteq> pd \<and>
     vm_ok m' pd \<and> uspace_ok m' c \<and> tables m' pd = tables m pd \<and> tables m' c \<inter> tables m pd = {} \<and>
     (\<forall>u. PDE_IDX u < 768 \<longrightarrow> walk m' pd u = map_option shared_out (walk m pd u) \<and> walk m' c u = map_option shared_out (walk m pd u)) \<and>
     (\<forall>u e. PDE_IDX u < 768 \<and> walk m pd u = Some e \<longrightarrow>
        mem_map m' ! unat (pte_index e) = mem_map m ! unat (pte_index e) + 1 \<and> phys m' (pte_index e) = phys m (pte_index e)) \<and>
     (\<forall>d. 768 \<le> d \<longrightarrow> phys m' c d = phys m pd d)"
  using copy_pte_shares [OF assms] by blast

text \<open>The machine of theory Paging with one writable page and a second task in slot 1.\<close>

definition demo_fork :: "mm \<Rightarrow> mm" where
  "demo_fork b = (set_word (demo_shared 1 (demo_vm b)) 4096 72 (pte_set PTE_USER True (entry_init 4097)))
     \<lparr>mm_kern := no_tasks\<lparr>task_list := [Some demo_user, Some demo_user]\<rparr>\<rparr>"

lemma demo_fork:
  assumes b: "mm_inv b" "user_free b 4096" "user_free b 4097" "user_free b 4098" "free_run (kernel_map b) 3 2"
  defines "m \<equiv> demo_fork b"
  shows "vm_ok m 0" "mem_map m ! unat (0 :: u32) \<noteq> 0" "pages_ok m 0 {..<768}" "2 \<le> free_slots m" "free_run (kernel_map m) 1 2"
    "task_at (mm_kern m) 1 = Some demo_user" "1 \<noteq> cur (mm_kern m)" "get_current (mm_kern m) = Some demo_user"
    "card (tables m 0) \<le> card {k. user_free m k}" "walk m 0 0x8048000 = Some (pte_set PTE_USER True (entry_init 4097))" "mem_map m ! 4097 = 1"
proof -
  have one: "(1 :: u8) \<noteq> 0" by simp
  let ?s = "demo_shared 1 (demo_vm b)" and ?e = "pte_set PTE_USER True (entry_init 4097) :: u32" and ?t = "pte_set PTE_USER True (entry_init 4096) :: u32"
  note d = demo_shared [OF b(1-3) one]
  have i: "PDE_IDX 0x8048000 = 32" "PTE_IDX 0x8048000 = 72" by (simp_all add: PDE_IDX_def PTE_IDX_def drop_bit_eq_div)
  have bits: "bit ?t PTE_PRESENT" "pte_index ?t = 4096" "bit ?e PTE_PRESENT" "pte_index ?e = 4097"
    using entry_init_bits(1,4) [of 4096] entry_init_bits(1,4) [of 4097] by (simp_all add: pte_set_bits word_less_nat_alt)
  have ph: "phys m 0 j = (if j = 32 then ?t else 0)" "phys m 4096 j = (if j = 72 then ?e else 0)" for j
    by (simp_all add: m_def demo_fork_def demo_shared_def set_word_def demo_vm_def)
  have same: "mem_map m = mem_map ?s" "total_pages m = total_pages ?s" "kernel_map m = kernel_map b" "free_slots m = free_slots ?s"
    by (simp_all add: m_def demo_fork_def demo_shared_def set_word_def demo_vm_def free_slots_def)
  have tp: "4097 < unat (total_pages b)" "unat (total_pages b) \<le> length (mem_map b)" "mem_map b ! 0 \<noteq> 0" "unat (total_pages b) < 2 ^ 20"
    using b by (auto simp: user_free_def mm_inv_def counts_ok_def)
  have mp: "mem_map m = ((mem_map b)[4096 := 1])[4097 := 1]" "total_pages m = total_pages b"
    by (simp_all add: m_def demo_fork_def demo_shared_def set_word_def demo_vm_def)
  show g: "get_current (mm_kern m) = Some demo_user" "task_at (mm_kern m) 1 = Some demo_user" "1 \<noteq> cur (mm_kern m)"
    by (simp_all add: m_def demo_fork_def get_current_def task_at_def no_tasks_def)
  have p32: "bit (phys ?s 0 (PDE_IDX 0x8048000)) PTE_PRESENT" "pte_index (phys ?s 0 (PDE_IDX 0x8048000)) = 4096"
    using bits by (simp_all add: i demo_shared_def set_word_def demo_vm_def)
  have "vm_ok (set_word ?s 4096 72 ?e) 0" using entry_write(1) [OF d(1,2) p32(1), of ?e] by (simp add: i p32(2) [unfolded i])
  moreover have "IDX (t_pde demo_user) = 0" by (simp add: demo_user_def zero_task_def IDX_def)
  ultimately show "vm_ok m 0"
    using g(1) d(4) by (simp add: vm_ok_def get_pde_def m_def demo_fork_def mm_inv_def counts_ok_def kmap_bits_ok_def window_ok_def uspace_ok_def)
  show "mem_map m ! unat (0 :: u32) \<noteq> 0" using tp(3) by (simp add: mp)
  show "2 \<le> free_slots m" using d(3) same(4) by simp
  have "{2..<2 + 1} \<subseteq> {2..<2 + (3 :: nat)}" by auto
  then show "free_run (kernel_map m) 1 2" using b(5) unfolding same(3) free_run_def by (meson add_leD1 disjoint_iff le_trans one_le_numeral add_le_cancel_left subsetD)
  show "walk m 0 0x8048000 = Some ?e" using bits by (simp add: walk_def i ph Let_def)
  show "mem_map m ! 4097 = 1" using tp by (simp add: mp)
  have tb: "tables m 0 = {4096}" using bits by (auto simp: tables_def ph split: if_splits)
  have en: "entry m 0 d j = (if d = 32 \<and> j = 72 then Some ?e else None)" for d j using bits by (simp add: entry_def ph)
  show "pages_ok m 0 {..<768}"
    using tp bits(4) unfolding pages_ok_def en tb by (simp add: page_ok_def mp)
  have "user_free m 4098" using b(4) by (simp add: user_free_def mp)
  moreover have "finite {k. user_free m k}" by (rule finite_subset [of _ "{..<unat (total_pages m)}"]) (auto simp: user_free_def)
  ultimately have "0 < card {k. user_free m k}" by (auto simp: card_gt_0_iff)
  then show "card (tables m 0) \<le> card {k. user_free m k}" by (simp add: tb)
qed

theorem fork_shares_pages_witness:
  "\<exists>m m' c. bit (pte_set PTE_USER True (entry_init 4097)) PTE_WRITE \<and> walk m 0 0x8048000 = Some (pte_set PTE_USER True (entry_init 4097)) \<and>
     mem_map m ! 4097 = 1 \<and> copy_pte m 1 = Some m' \<and> c \<noteq> 0 \<and> walk m' 0 0x8048000 = walk m' c 0x8048000 \<and>
     walk m' c 0x8048000 = Some (shared_out (pte_set PTE_USER True (entry_init 4097))) \<and> mem_map m' ! 4097 = 2"
proof -
  obtain b where b: "mm_inv b" "user_free b 4096" "user_free b 4097" "user_free b 4098" "free_run (kernel_map b) 3 2" using demo_mm by blast
  note d = demo_fork [OF b]
  have a: "t_pde demo_user AND 0xFFF = 0" by (simp add: demo_user_def zero_task_def)
  have i: "PDE_IDX 0x8048000 < 768" by (simp add: PDE_IDX_def drop_bit_eq_div)
  let ?e = "pte_set PTE_USER True (entry_init 4097) :: u32"
  have e: "pte_index ?e = 4097" "bit ?e PTE_WRITE" using entry_init_bits(2,4) [of 4097] by (simp_all add: pte_set_bits word_less_nat_alt)
  obtain m' c where r: "copy_pte (demo_fork b) 1 = Some m'" "c \<noteq> 0"
      "\<forall>u. PDE_IDX u < 768 \<longrightarrow> walk m' 0 u = map_option shared_out (walk (demo_fork b) 0 u) \<and> walk m' c u = map_option shared_out (walk (demo_fork b) 0 u)"
      "\<forall>u e. PDE_IDX u < 768 \<and> walk (demo_fork b) 0 u = Some e \<longrightarrow>
        mem_map m' ! unat (pte_index e) = mem_map (demo_fork b) ! unat (pte_index e) + 1 \<and> phys m' (pte_index e) = phys (demo_fork b) (pte_index e)"
    using fork_shares_pages [OF d(1-8) a d(9)] by blast
  have "mem_map m' ! 4097 = 2" using r(4) i d(10,11) e(1) by fastforce
  moreover have "walk m' 0 0x8048000 = Some (shared_out ?e)" "walk m' c 0x8048000 = Some (shared_out ?e)" using r(3) i d(10) by simp_all
  ultimately show ?thesis using r(1,2) d(10,11) e(2) by metis
qed

end
