(* ===== verification/Process.thy ===== *)
theory Process
  imports Execve Fork_Pages
begin

text \<open>
  The life of a process: the parts of \<^verbatim>\<open>src/kernel/task.c\<close> that theory Task leaves out because they reach into
  memory and files, \<^verbatim>\<open>sys_fork\<close>, \<^verbatim>\<open>sys_exit\<close> and the end of \<^verbatim>\<open>sys_waitpid\<close>, and the first process of
  \<^verbatim>\<open>src/init/init.c\<close>. They run on the state of theory Execve.

  The bitmap of a task's mappings and the copy of its working directory lie in blocks of the kernel heap; theory
  Arena shows what \<^verbatim>\<open>kmalloc\<close> and \<^verbatim>\<open>kfree\<close> do, and here they leave no trace. The page behind the bitmap is
  \<open>vmap_page\<close>.
\<close>

section \<open>Fork\<close>

text \<open>One more reference for every open descriptor.\<close>

fun count_files :: "kernel \<Rightarrow> nat option list \<Rightarrow> kernel" where
  "count_files k [] = k"
| "count_files k (None # fs) = count_files k fs"
| "count_files k (Some f # fs) = count_files (k\<lparr>file_count := (file_count k)(f := file_count k f + 1)\<rparr>) fs"

text \<open>
  The child's task structure: a copy of the parent's page at \<open>page\<close> with the fields that differ. The kernel stack pointers
  of the caller at the end of the function move to the same place in the child's page.
\<close>

definition child_of :: "task \<Rightarrow> u32 \<Rightarrow> u32 \<Rightarrow> task" where
  "child_of t page pid = (let c = t\<lparr>t_addr := page\<rparr> in
     c\<lparr>t_pid := pid, t_ppid := t_pid t, t_ticks := t_priority c, t_state := TASK_READY,
       t_tss := (t_tss c)\<lparr>r_eax := pid\<rparr>, t_esp0 := page + PAGE_SIZE\<rparr>)"

text \<open>
  The child's bitmap: its structure is the parent's, but only one page of its bits is copied; what follows is what
  lies behind the new page.
\<close>

definition child_vmap :: "mem \<Rightarrow> u32 \<Rightarrow> bitmap \<Rightarrow> bitmap" where
  "child_vmap m page b = b\<lparr>bits := take 4096 (bits b) @ bytes_at m (page + 4096) (length (bits b) - 4096)\<rparr>"

definition count_dirs :: "vfs \<Rightarrow> task \<Rightarrow> vfs option" where
  "count_dirs v t = do {
     w \<leftarrow> t_ipwd t;
     let v = set_icount v w (icount v w + 1);
     r \<leftarrow> t_iroot t;
     let v = set_icount v r (icount v r + 1);
     Some (case t_iexec t of None \<Rightarrow> v | Some x \<Rightarrow> set_icount v x (icount v x + 1)) }"

definition fork_return :: "u32 \<Rightarrow> regs \<Rightarrow> u32 \<Rightarrow> task \<Rightarrow> task" where
  "fork_return child_task r page c = c\<lparr>t_tss := (t_tss c)\<lparr>r_eip := child_task, r_eax := 0,
     r_esp := (0xFFF AND r_esp r) OR page, r_ebp := (0xFFF AND r_ebp r) OR page\<rparr>\<rparr>"

definition sys_fork :: "u32 \<Rightarrow> proc \<Rightarrow> (u32 \<times> proc) option" where
  "sys_fork child_task s = do {
     let me = cur (kern_of (fs_part s));
     t \<leftarrow> get_current (kern_of (fs_part s));
     kassert (t_uid t = USER_RING3);
     (page, m) \<leftarrow> alloc_kpage (mm_part s) 1;
     let s = s\<lparr>mm_part := m\<rparr>;
     (i, k) \<leftarrow> get_free_task (kern_of (fs_part s)) (zero_task page);
     let pid = of_nat i;
     let k = put_task k i (child_of t page pid);
     s \<leftarrow> on_mm (\<lambda>m. copy_pte m i) (s\<lparr>fs_part := set_kern (fs_part s) k\<rparr>);
     (vp, m) \<leftarrow> alloc_kpage (mm_part s) 1;
     let m = m\<lparr>vmap := (vmap m)(i := child_vmap (bytes_of s) vp (vmap m me))\<rparr>;
     let s = s\<lparr>mm_part := m, vmap_page := (vmap_page s)(i := vp)\<rparr>;
     s \<leftarrow> on_fs (\<lambda>v. Some (v\<lparr>pwd_room := (pwd_room v)(i := length (t_pwd t))\<rparr>)) s;
     s \<leftarrow> on_fs (\<lambda>v. count_dirs v t) s;
     s \<leftarrow> on_fs (\<lambda>v. Some (set_kern v (count_files (kern_of v) (t_files t)))) s;
     let k = kern_of (fs_part s);
     p \<leftarrow> task_at k me;
     let k = put_task k me (p\<lparr>t_tss := (t_tss p)\<lparr>r_eax := pid\<rparr>\<rparr>);
     c \<leftarrow> task_at k i;
     let k = put_task k i (fork_return child_task (cpu k) page c);
     t \<leftarrow> get_current k;
     Some (r_eax (t_tss t), s\<lparr>fs_part := set_kern (fs_part s) k\<rparr>) }"

section \<open>Exit\<close>

text \<open>A session leader hangs its session up and clears the foreground group of its terminal.\<close>

definition exit_session :: "proc \<Rightarrow> task \<Rightarrow> proc option" where
  "exit_session s t =
     (if task_sess_leader t then do {
        s \<leftarrow> on_fs (\<lambda>v. Some (set_kern v (exit_hangup (kern_of v) t))) s;
        Some (if 0 < t_tty t then s\<lparr>tty_pgid := (tty_pgid s)(t_tty t := 0)\<rparr> else s) }
      else Some s)"

definition exit_memory :: "proc \<Rightarrow> task \<Rightarrow> proc option" where
  "exit_memory s t = do {
     s \<leftarrow> on_mm (\<lambda>m. free_pte m (cur (mm_kern m))) s;
     s \<leftarrow> on_mm (\<lambda>m. free_kpage m (t_pde t + KERNEL_PAGE_DIR_VADDR) 1) s;
     on_mm (\<lambda>m. free_kpage m (vmap_page s (cur (mm_kern m))) 1) s }"

definition sys_exit :: "u32 \<Rightarrow> proc \<Rightarrow> u32 \<Rightarrow> proc option" where
  "sys_exit resume s status = do {
     t \<leftarrow> get_current (kern_of (fs_part s));
     kassert (t_state t = TASK_RUNNING);
     kassert (t_pid t \<noteq> 0 \<and> t_pid t \<noteq> 1);
     s \<leftarrow> on_task (\<lambda>t. t\<lparr>t_state := TASK_DEAD, t_status := status\<rparr>) s;
     s \<leftarrow> exit_memory s t;
     s \<leftarrow> on_fs (\<lambda>v. iput v (t_ipwd t)) s;
     s \<leftarrow> on_fs (\<lambda>v. iput v (t_iroot t)) s;
     s \<leftarrow> on_fs (\<lambda>v. iput v (t_iexec t)) s;
     s \<leftarrow> on_fs (\<lambda>v. Some (v\<lparr>clk := timer_remove (clk v) (cur (kern_of v))\<rparr>)) s;
     s \<leftarrow> on_fs (\<lambda>v. do { k \<leftarrow> task_tell_father (kern_of v) t; Some (set_kern v k) }) s;
     s \<leftarrow> exit_session s t;
     s \<leftarrow> on_fs (\<lambda>v. close_from v [0..<unat TASK_FILE_NR]) s;
     s \<leftarrow> on_fs (\<lambda>v. do { k \<leftarrow> exit_reparent (kern_of v) t [0..<unat TASK_NR]; Some (set_kern v k) }) s;
     on_fs (\<lambda>v. do { k \<leftarrow> schedule resume (kern_of v); Some (set_kern v k) }) s }"

section \<open>Waiting\<close>

datatype wait_end = No_child | Blocked proc | Reaped u32 u32 proc

definition wait_child :: "u32 \<Rightarrow> proc \<Rightarrow> u32 \<Rightarrow> wait_end option" where
  "wait_child resume s pid = do {
     let k = kern_of (fs_part s);
     r \<leftarrow> sys_waitpid resume k pid;
     case r of
       W_no_child \<Rightarrow> Some No_child
     | W_blocked k \<Rightarrow> Some (Blocked (s\<lparr>fs_part := set_kern (fs_part s) k\<rparr>))
     | W_reaped status child k' \<Rightarrow> do {
         c \<leftarrow> task_at k (unat child);
         s \<leftarrow> on_mm (\<lambda>m. free_kpage m (t_addr c) 1) (s\<lparr>fs_part := set_kern (fs_part s) k'\<rparr>);
         Some (Reaped status child s) } }"

section \<open>The first process\<close>

definition vmap_bytes :: u32 where "vmap_bytes = USER_MMAP_SIZE div PAGE_SIZE div 8"

text \<open>
  \<^verbatim>\<open>bitmap_init\<close> on one page: it clears as many bytes as the bitmap has, in the page and behind it. The path is the string
  constant at \<open>path\<close>. When \<^verbatim>\<open>sys_execve\<close> returns the kernel panics.
\<close>

definition init_vmap :: "proc \<Rightarrow> (u32 \<times> proc) option" where
  "init_vmap s = do {
     let me = cur (kern_of (fs_part s));
     (buf, m) \<leftarrow> alloc_kpage (mm_part s) 1;
     let m = m\<lparr>vmap := (vmap m)(me := bitmap_make (replicate (unat vmap_bytes) 0) vmap_bytes (USER_MMAP_ADDR div PAGE_SIZE))\<rparr>;
     Some (buf, s\<lparr>mm_part := m, vmap_page := (vmap_page s)(me := buf),
       bytes_of := memset_loop (bytes_of s) buf 0 (unat vmap_bytes)\<rparr>) }"

definition move_to_user_mode :: "mem \<Rightarrow> u32 \<Rightarrow> proc \<Rightarrow> proc option" where
  "move_to_user_mode junk path s = do {
     (buf, s) \<leftarrow> init_vmap s;
     s \<leftarrow> on_mm (\<lambda>m. copy_pde m (cur (mm_kern m))) s;
     t \<leftarrow> get_current (kern_of (fs_part s));
     s \<leftarrow> on_mm (set_cr3 (t_pde t)) s;
     s \<leftarrow> on_task (\<lambda>t. t\<lparr>t_iframe := (t_iframe t)\<lparr>if_edx := 6, if_ecx := 7, if_eax := 8, if_eflags := 0x202,
       if_esp := USER_STACK_TOP\<rparr>\<rparr>) s;
     s \<leftarrow> on_task (\<lambda>t. t\<lparr>t_uid := USER_RING3, t_ppid := t_pid t\<rparr>) s;
     r \<leftarrow> sys_execve junk s path 0 0;
     case r of Exec_fails e s \<Rightarrow> kpanic | Exec_starts s \<Rightarrow> Some s }"


section \<open>Kernel pages\<close>

definition kfree :: "mm \<Rightarrow> nat set" where
  "kfree m = {j. 256 \<le> j \<and> j < 4096 \<and> mem_map m ! j = 0}"

lemma kfree_run:
  assumes "mm_inv m" "j \<in> kfree m" shows "free_run (kernel_map m) 1 (j - 256)"
proof -
  have k: "blength (kernel_map m) = 480" "bm_used (kernel_map m) = {i. i < 3840 \<and> mem_map m ! (i + 256) \<noteq> 0}"
    using assms(1) by (auto simp: mm_inv_def kmap_bits_ok_def)
  have j: "256 \<le> j" "j < 4096" "mem_map m ! j = 0" using assms(2) by (auto simp: kfree_def)
  then have "j - 256 \<notin> bm_used (kernel_map m)" unfolding k(2) by simp
  moreover have "{j - 256..<j - 256 + 1} = {j - 256}" by auto
  ultimately have d: "{j - 256..<j - 256 + 1} \<inter> bm_used (kernel_map m) = {}" by simp
  have "j - 256 + 1 \<le> 3840" using j by simp
  then show ?thesis unfolding free_run_def using d k(1) by simp
qed

lemma alloc_one:
  assumes "mm_inv m" "kfree m \<noteq> {}"
  shows "\<exists>a c m'. alloc_kpage m 1 = Some (a, m') \<and> mm_inv m' \<and> c \<in> kfree m \<and>
     (\<forall>j. mem_map m' ! j = (if j = c then 1 else mem_map m ! j)) \<and> (\<exists>bm mmap f. m' = m\<lparr>kernel_map := bm, mem_map := mmap, free_pages := f\<rparr>)"
proof -
  obtain j where j: "j \<in> kfree m" using assms(2) by blast
  have one: "unat (1 :: u32) = 1" by simp
  from alloc_kpage_spec [of m 1, unfolded one, OF assms(1) zero_less_one kfree_run [OF assms(1) j]] obtain s m' where
    a: "alloc_kpage m 1 = Some (kpage_vaddr s, m')" "mm_inv m'" "s + 1 \<le> 3840"
      "\<forall>j. mem_map m' ! j = (if s + 256 \<le> j \<and> j < s + 256 + 1 then 1 else mem_map m ! j)"
      "\<forall>j. s + 256 \<le> j \<and> j < s + 256 + 1 \<longrightarrow> mem_map m ! j = 0" "\<exists>bm mmap f. m' = m\<lparr>kernel_map := bm, mem_map := mmap, free_pages := f\<rparr>"
    by blast
  have "s + 256 \<in> kfree m" using a(3,5) by (auto simp: kfree_def)
  moreover have "mem_map m' ! j = (if j = s + 256 then 1 else mem_map m ! j)" for j using a(4) by auto
  ultimately show ?thesis using a(1,2,6) by blast
qed

text \<open>What lies in user frames does not see it.\<close>

lemma alloc_space:
  assumes m': "m' = m\<lparr>kernel_map := bm, mem_map := mmap, free_pages := f\<rparr>" and mp: "\<And>j. mem_map m' ! j = (if j = c then 1 else mem_map m ! j)"
    and c: "c \<in> kfree m" and inv: "mm_inv m'"
  shows "vm_ok m pd \<Longrightarrow> vm_ok m' pd" "pages_ok m' pd D = pages_ok m pd D" "tables m' pd = tables m pd" "user_free m' k = user_free m k"
    "free_slots m' = free_slots m" "walk m' pd v = walk m pd v" "kfree m' = kfree m - {c}"
proof -
  have c4: "c < 4096" "mem_map m ! c = 0" using c by (auto simp: kfree_def)
  have f: "phys m' = phys m" "total_pages m' = total_pages m" "kmap_pool m' = kmap_pool m" "kmap_pte m' = kmap_pte m"
    "kmap_start_vaddr m' = kmap_start_vaddr m" "mm_kern m' = mm_kern m" by (simp_all add: m')
  have po: "page_ok m' k = page_ok m k" for k using c4 by (auto simp: page_ok_def f mp)
  show "vm_ok m pd \<Longrightarrow> vm_ok m' pd" using inv c4 by (auto simp: vm_ok_def window_ok_def get_pde_def uspace_ok_def f mp)
  show t: "tables m' pd = tables m pd" by (simp add: tables_def f)
  have e: "entry m' pd d j = entry m pd d j" for d j by (simp add: entry_def f)
  show "pages_ok m' pd D = pages_ok m pd D" by (simp add: pages_ok_def po t e)
  show "user_free m' k = user_free m k" using c4 by (auto simp: user_free_def f mp)
  show "free_slots m' = free_slots m" by (simp add: free_slots_def f)
  show "walk m' pd v = walk m pd v" by (simp add: walk_entry e)
  show "kfree m' = kfree m - {c}" using c4 by (auto simp: kfree_def mp split: if_splits)
qed

lemma mm_kern_space:
  assumes "get_pde (m\<lparr>mm_kern := k\<rparr>) = get_pde m"
  shows "vm_ok (m\<lparr>mm_kern := k\<rparr>) pd = vm_ok m pd" "pages_ok (m\<lparr>mm_kern := k\<rparr>) pd D = pages_ok m pd D"
    "tables (m\<lparr>mm_kern := k\<rparr>) pd = tables m pd" "user_free (m\<lparr>mm_kern := k\<rparr>) i = user_free m i"
    "free_slots (m\<lparr>mm_kern := k\<rparr>) = free_slots m" "walk (m\<lparr>mm_kern := k\<rparr>) pd v = walk m pd v" "kfree (m\<lparr>mm_kern := k\<rparr>) = kfree m"
    "mm_inv (m\<lparr>mm_kern := k\<rparr>) = mm_inv m"
proof -
  show i: "mm_inv (m\<lparr>mm_kern := k\<rparr>) = mm_inv m" by (simp add: mm_inv_def counts_ok_def kmap_bits_ok_def)
  show "vm_ok (m\<lparr>mm_kern := k\<rparr>) pd = vm_ok m pd" by (simp add: vm_ok_def i assms window_ok_def uspace_ok_def)
  show t: "tables (m\<lparr>mm_kern := k\<rparr>) pd = tables m pd" by (simp add: tables_def)
  show "pages_ok (m\<lparr>mm_kern := k\<rparr>) pd D = pages_ok m pd D" by (simp add: pages_ok_def t entry_def page_ok_def)
qed (simp_all add: user_free_def free_slots_def walk_entry entry_def kfree_def)

section \<open>Counts\<close>

lemma count_files_spec:
  "count_files k fs = k\<lparr>file_count := file_count (count_files k fs)\<rparr> \<and>
   file_count (count_files k fs) f = file_count k f + of_nat (count_list fs (Some f))"
proof (induction fs arbitrary: k)
  case (Cons x fs)
  show ?case
  proof (cases x)
    case (Some g)
    let ?k = "k\<lparr>file_count := (file_count k)(g := file_count k g + 1)\<rparr>"
    have a: "count_files ?k fs = ?k\<lparr>file_count := file_count (count_files ?k fs)\<rparr>" using Cons.IH [of ?k] by blast
    then have "count_files ?k fs = k\<lparr>file_count := file_count (count_files ?k fs)\<rparr>" by (metis (no_types, lifting) kernel.update_convs(9) kernel.fold_congs(9) kernel.surjective)
    then show ?thesis using Cons.IH [of ?k] Some by simp
  qed (use Cons.IH in simp)
qed simp


lemma count_dirs_spec:
  assumes "t_ipwd t = Some w" "t_iroot t = Some r"
  shows "\<exists>ic. count_dirs v t = Some (set_kern v ((kern_of v)\<lparr>inode_count := ic\<rparr>)) \<and>
     (\<forall>n. ic n = inode_count (kern_of v) n + of_nat (count_list [t_ipwd t, t_iroot t, t_iexec t] (Some n)))"
proof -
  let ?ic = "\<lambda>n. inode_count (kern_of v) n + of_nat (count_list [t_ipwd t, t_iroot t, t_iexec t] (Some n))"
  have "count_dirs v t = Some (set_kern v ((kern_of v)\<lparr>inode_count := ?ic\<rparr>))"
    using assms by (cases "t_iexec t") (auto simp: count_dirs_def set_icount_def set_kern_def Let_def fun_eq_iff)
  then show ?thesis by (intro exI [of _ ?ic]) simp
qed

lemma free_slot_spec:
  "None \<in> set ts \<Longrightarrow> \<exists>j. free_slot_from ts i = Some (i + j) \<and> j < length ts \<and> ts ! j = None"
proof (induction ts arbitrary: i)
  case (Cons x ts)
  show ?case
  proof (cases x)
    case None
    then show ?thesis by (intro exI [of _ 0]) simp
  next
    case (Some t)
    then obtain j where "free_slot_from ts (Suc i) = Some (Suc i + j)" "j < length ts" "ts ! j = None"
      using Cons.IH [of "Suc i"] Cons.prems by auto
    then show ?thesis using Some by (intro exI [of _ "Suc j"]) simp
  qed
qed simp

lemma mm_inv_kern: "mm_inv (m\<lparr>mm_kern := k\<rparr>) = mm_inv m" "kfree (m\<lparr>mm_kern := k\<rparr>) = kfree m" "mm_inv (m\<lparr>vmap := v\<rparr>) = mm_inv m"
  by (simp_all add: mm_inv_def counts_ok_def kmap_bits_ok_def kfree_def)

text \<open>The child of \<open>t\<close> in slot \<open>i\<close>, with the directory in frame \<open>c\<close>.\<close>

definition forked :: "task \<Rightarrow> task \<Rightarrow> nat \<Rightarrow> u32 \<Rightarrow> u32 \<Rightarrow> bool" where
  "forked t child i child_task c \<longleftrightarrow> t_pid child = of_nat i \<and> t_ppid child = t_pid t \<and> t_state child = TASK_READY \<and>
     t_ticks child = t_priority t \<and> r_eax (t_tss child) = 0 \<and> r_eip (t_tss child) = child_task \<and> t_iframe child = t_iframe t \<and>
     t_files child = t_files t \<and> t_ipwd child = t_ipwd t \<and> t_pwd child = t_pwd t \<and> t_actions child = t_actions t \<and> t_pde child = PAGE c"

lemma child_fields: "forked t (fork_return ct r page ((child_of t page (of_nat i))\<lparr>t_pde := PAGE c\<rparr>)) i ct c"
  by (simp add: forked_def fork_return_def child_of_def Let_def)


lemma set_kern_simps [simp]:
  "kern_of (set_kern v k) = k" "set_kern (set_kern v k) k' = set_kern v k'" "kern_of (v\<lparr>pwd_room := r\<rparr>) = kern_of v"
  "set_kern (v\<lparr>pwd_room := r\<rparr>) k = (set_kern v k)\<lparr>pwd_room := r\<rparr>"
  by (simp_all add: set_kern_def)

text \<open>
  C2. \<^verbatim>\<open>sys_fork\<close> makes a child. A user process with a well-formed address space, a free task slot, three free
  kernel pages and a free frame for every page table gets the child's pid back. The child is in the slot of that pid, ready,
  with the parent as its parent, the same interrupt frame, files and signal actions, a fresh time slice, and it will return 0 from
  the call; no other task changes, every open descriptor and directory of the parent has one more reference, and both
  processes find the same frames at all user addresses, private pages writable in neither.
\<close>

theorem sys_fork_makes_child:
  assumes k: "kern_of (fs_part s) = k" "(mm_part s)\<lparr>mm_kern := k\<rparr> = m"
    and t: "get_current k = Some t" "t_uid t = USER_RING3" "t_pde t AND 0xFFF = 0" "t_ipwd t = Some w" "t_iroot t = Some r"
    and slot: "None \<in> set (task_list k)"
    and ok: "vm_ok m pd" "mem_map m ! unat pd \<noteq> 0" "pages_ok m pd {..<768}" "2 \<le> free_slots m"
    and room: "3 \<le> card (kfree m)" "card (tables m pd) \<le> card {n. user_free m n}"
  shows "\<exists>i s' child c. sys_fork ct s = Some (of_nat i, s') \<and> task_at k i = None \<and>
     task_at (kern_of (fs_part s')) i = Some child \<and> forked t child i ct c \<and>
     get_current (kern_of (fs_part s')) = Some (t\<lparr>t_tss := (t_tss t)\<lparr>r_eax := of_nat i\<rparr>\<rparr>) \<and>
     (\<forall>n. n \<noteq> i \<and> n \<noteq> cur k \<longrightarrow> task_at (kern_of (fs_part s')) n = task_at k n) \<and>
     (\<forall>f. file_count (kern_of (fs_part s')) f = file_count k f + of_nat (count_list (t_files t) (Some f))) \<and>
     (\<forall>n. inode_count (kern_of (fs_part s')) n = inode_count k n + of_nat (count_list [t_ipwd t, t_iroot t, t_iexec t] (Some n))) \<and>
     (\<forall>u. PDE_IDX u < 768 \<longrightarrow> walk (mm_part s') pd u = map_option shared_out (walk m pd u) \<and>
        walk (mm_part s') c u = map_option shared_out (walk m pd u))"
proof -
  define m0 where "m0 = mm_part s"
  have m: "m = m0\<lparr>mm_kern := k\<rparr>" using k(2) by (simp add: m0_def)
  have kf: "finite (kfree n)" for n by (rule finite_subset [of _ "{..<4096}"]) (auto simp: kfree_def)
  have inv0: "mm_inv m0" "kfree m0 = kfree m" "mm_kern m = k" using ok(1) by (simp_all add: m mm_inv_kern vm_ok_def)
  have "kfree m0 \<noteq> {}" using room(1) inv0(2) by auto
  then obtain page c0 m1 bm mmap f where m1: "alloc_kpage m0 1 = Some (page, m1)" "mm_inv m1" "c0 \<in> kfree m0"
      "\<forall>j. mem_map m1 ! j = (if j = c0 then 1 else mem_map m0 ! j)" "m1 = m0\<lparr>kernel_map := bm, mem_map := mmap, free_pages := f\<rparr>"
    using alloc_one [OF inv0(1)] by blast
  define n1 where "n1 = m1\<lparr>mm_kern := k\<rparr>"
  have n1: "n1 = m\<lparr>kernel_map := bm, mem_map := mmap, free_pages := f\<rparr>" by (simp add: n1_def m1(5) m)
  have mp1: "mem_map n1 ! j = (if j = c0 then 1 else mem_map m ! j)" for j using m1(4) by (simp add: n1_def m)
  have c0: "c0 \<in> kfree m" "mm_inv n1" using m1(2,3) inv0(2) by (simp_all add: n1_def mm_inv_kern)
  note a1 = alloc_space [OF n1 mp1 c0]
  obtain i where i: "free_slot_from (task_list k) 0 = Some i" "i < length (task_list k)" "task_list k ! i = None"
    using free_slot_spec [OF slot, of 0] by auto
  have none: "task_at k i = None" using i(2,3) by (simp add: task_at_def)
  have ic: "i \<noteq> cur k" "cur k < length (task_list k)" using none t(1) by (auto simp: get_current_def task_at_def split: if_splits)
  define ch where "ch = child_of t page (of_nat i)"
  define k1 where "k1 = put_task (put_task k i (zero_task page)) i ch"
  have k1: "k1 = put_task k i ch" by (simp add: k1_def put_task_def)
  have gc1: "get_current k1 = Some t" using t(1) ic(1) by (simp add: k1 get_current_def)
  have gs: "get_pde (n1\<lparr>mm_kern := k1\<rparr>) = get_pde n1" using gc1 t(1) by (simp add: n1_def get_pde_def)
  note s1 = mm_kern_space [OF gs]
  define n2 where "n2 = n1\<lparr>mm_kern := k1\<rparr>"
  note s1 = s1 [folded n2_def]
  have c2: "card (kfree n2) = card (kfree m) - 1" unfolding s1(7) a1(7) using c0(1) kf by (simp add: card_Diff_singleton)
  then have "kfree n2 \<noteq> {}" using room(1) by auto
  then obtain j where j: "j \<in> kfree n2" by blast
  have ok2: "vm_ok n2 pd" "mem_map n2 ! unat pd \<noteq> 0" "pages_ok n2 pd {..<768}" "2 \<le> free_slots n2"
    using a1(1) [OF ok(1)] s1(1,2,5) a1(2,5) ok by (auto simp: n2_def mp1)
  have run2: "free_run (kernel_map n2) 1 (j - 256)" using kfree_run [OF _ j] ok2(1) by (simp add: vm_ok_def)
  have tk: "task_at (mm_kern n2) i = Some ch" "i \<noteq> cur (mm_kern n2)" "get_current (mm_kern n2) = Some t"
    using i(2) ic(1) gc1 by (simp_all add: n2_def k1)
  have fr2: "card (tables n2 pd) \<le> card {l. user_free n2 l}" using room(2) by (simp add: s1(3,4) a1(3,4))
  from copy_pte_shares [OF ok2 run2 tk t(3) fr2] obtain m3 c where
    m3: "copy_pte n2 i = Some m3" "mm_kern m3 = put_task k1 i (ch\<lparr>t_pde := PAGE c\<rparr>)" "vm_ok m3 pd"
      "\<forall>u. PDE_IDX u < 768 \<longrightarrow> walk m3 pd u = map_option shared_out (walk n2 pd u) \<and> walk m3 c u = map_option shared_out (walk n2 pd u)"
      "\<forall>l < 4096. mem_map m3 ! l = (if l = unat c then 1 else mem_map n2 ! l)"
    unfolding n2_def by auto
  define k3 where "k3 = mm_kern m3"
  have k3: "k3 = put_task k i (ch\<lparr>t_pde := PAGE c\<rparr>)" by (simp add: k3_def m3(2) k1 put_task_def)
  have "kfree n2 - {unat c} \<subseteq> kfree m3" using m3(5) by (auto simp: kfree_def)
  then have "card (kfree n2 - {unat c}) \<le> card (kfree m3)" by (intro card_mono kf)
  moreover have "card (kfree n2) - 1 \<le> card (kfree n2 - {unat c})" by (simp add: card_Diff_singleton_if)
  ultimately have "kfree m3 \<noteq> {}" using c2 room(1) by auto
  moreover have "mm_inv m3" using m3(3) by (simp add: vm_ok_def)
  ultimately obtain vp c4 m4 bm4 mmap4 f4 where m4: "alloc_kpage m3 1 = Some (vp, m4)" "mm_inv m4" "c4 \<in> kfree m3"
      "\<forall>j. mem_map m4 ! j = (if j = c4 then 1 else mem_map m3 ! j)" "m4 = m3\<lparr>kernel_map := bm4, mem_map := mmap4, free_pages := f4\<rparr>"
    using alloc_one by blast
  note a4 = alloc_space [OF m4(5) m4(4) [rule_format] m4(3,2)]
  define m5 where "m5 = m4\<lparr>vmap := (vmap m4)(i := child_vmap (bytes_of s) vp (vmap m4 (cur k)))\<rparr>"
  define v where "v = (set_kern (fs_part s) k3)\<lparr>pwd_room := (pwd_room (fs_part s))(i := length (t_pwd t))\<rparr>"
  have kv: "kern_of v = k3" by (simp add: v_def)
  obtain cnt where cnt: "count_dirs v t = Some (set_kern v (k3\<lparr>inode_count := cnt\<rparr>))"
      "\<forall>n. cnt n = inode_count k3 n + of_nat (count_list [t_ipwd t, t_iroot t, t_iexec t] (Some n))"
    using count_dirs_spec [OF t(4,5), of v] unfolding kv by blast
  define k4 where "k4 = count_files (k3\<lparr>inode_count := cnt\<rparr>) (t_files t)"
  have k4: "k4 = k3\<lparr>inode_count := cnt, file_count := file_count k4\<rparr>" "\<And>f. file_count k4 f = file_count k3 f + of_nat (count_list (t_files t) (Some f))"
    using count_files_spec [of "k3\<lparr>inode_count := cnt\<rparr>" "t_files t"] by (simp_all add: k4_def)
  have at4: "task_at k4 n = (if n = i then Some (ch\<lparr>t_pde := PAGE c\<rparr>) else task_at k n)" "cur k4 = cur k" "cpu k4 = cpu k"
    "length (task_list k4) = length (task_list k)" "inode_count k4 = cnt" for n
    by (subst k4(1), simp add: k3 i(2))+
  define t' where "t' = t\<lparr>t_tss := (t_tss t)\<lparr>r_eax := of_nat i\<rparr>\<rparr>"
  define k6 where "k6 = put_task (put_task k4 (cur k) t') i (fork_return ct (cpu k) page (ch\<lparr>t_pde := PAGE c\<rparr>))"
  define s' where "s' = s\<lparr>fs_part := set_kern v k6, mm_part := m5, vmap_page := (vmap_page s)(i := vp)\<rparr>"
  have at6: "task_at k6 n = (if n = i then Some (fork_return ct (cpu k) page (ch\<lparr>t_pde := PAGE c\<rparr>)) else if n = cur k then Some t' else task_at k n)" for n
    using i(2) ic by (simp add: k6_def at4)
  have c6: "cur k6 = cur k" "get_current k6 = Some t'" using ic by (simp_all add: k6_def get_current_def at4)
  have mine: "task_at k (cur k) = Some t" using t(1) by (simp add: get_current_def)
  have r: "r_eax (t_tss t') = of_nat i" by (simp add: t'_def)
  have n2': "m1\<lparr>mm_kern := k1\<rparr> = n2" by (simp add: n2_def n1_def)
  have vm: "(set_kern (fs_part s) k3)\<lparr>pwd_room := (pwd_room (set_kern (fs_part s) k3))(i := length (t_pwd t))\<rparr> = v"
    by (simp add: v_def set_kern_def)
  have run: "sys_fork ct s = Some (of_nat i, s')"
    unfolding sys_fork_def k(1) t(1) Let_def
    by (simp add: t(2) m1(1) [unfolded m0_def] get_free_task_def i(1) ch_def [symmetric] k1_def [symmetric] on_mm_def on_fs_def n2' m3(1) k3_def [symmetric]
      m4(1) k(1) vm cnt(1) kv k4_def [symmetric] at4 mine ic(1) ic(1) [symmetric] t'_def [symmetric] k6_def [symmetric] c6(2) r s'_def m5_def)
  have fc: "file_count k6 = file_count k4" "inode_count k6 = cnt" "file_count k3 = file_count k" "inode_count k3 = inode_count k"
    by (simp_all add: k6_def k3 put_task_def at4(5))
  have wk: "walk m5 x u = walk m3 x u" "walk n2 x u = walk m x u" for x u
  proof -
    have "walk m5 x u = walk m4 x u" by (simp add: m5_def walk_entry entry_def)
    then show "walk m5 x u = walk m3 x u" by (simp only: a4(6))
    show "walk n2 x u = walk m x u" by (simp only: s1(6) a1(6))
  qed
  have s': "kern_of (fs_part s') = k6" "mm_part s' = m5" by (simp_all add: s'_def)
  have "forked t (fork_return ct (cpu k) page (ch\<lparr>t_pde := PAGE c\<rparr>)) i ct c" unfolding ch_def by (rule child_fields)
  then show ?thesis
    using run none at6 c6(2) k4(2) cnt(2) m3(4) fc wk unfolding t'_def
    by (intro exI [of _ i] exI [of _ s'] exI [of _ "fork_return ct (cpu k) page (ch\<lparr>t_pde := PAGE c\<rparr>)"] exI [of _ c]) (simp add: s')
qed

text \<open>A parent with one page, its standard output twice and its working directory in the root, and a free slot.\<close>

definition demo_parent :: task where
  "demo_parent = demo_user\<lparr>t_ipwd := Some 0, t_iroot := Some 0, t_files := [None, Some 1, Some 1], t_priority := 5\<rparr>"

definition demo_proc :: "mm \<Rightarrow> proc" where
  "demo_proc b = \<lparr>fs_part = demo_vfs (no_tasks\<lparr>task_list := [Some demo_parent, None]\<rparr>) (\<lambda>_. []), mm_part = demo_fork b,
     bytes_of = (\<lambda>_. 0), vmap_page = (\<lambda>_. 0), tty_pgid = (\<lambda>_. 0)\<rparr>"

theorem sys_fork_makes_child_witness:
  "\<exists>s s' i child c. sys_fork 0xC0101234 s = Some (of_nat i, s') \<and> task_at (kern_of (fs_part s)) i = None \<and>
     task_at (kern_of (fs_part s')) i = Some child \<and> forked demo_parent child i 0xC0101234 c \<and>
     file_count (kern_of (fs_part s')) 1 = file_count (kern_of (fs_part s)) 1 + 2 \<and>
     walk (mm_part s') c 0x8048000 = Some (shared_out (pte_set PTE_USER True (entry_init 4097)))"
proof -
  obtain b where b: "mm_inv b" "user_free b 4096" "user_free b 4097" "user_free b 4098" "free_run (kernel_map b) 3 2" using demo_mm by blast
  note d = demo_fork [OF b]
  define s where "s = demo_proc b"
  define k where "k = no_tasks\<lparr>task_list := [Some demo_parent, None]\<rparr>"
  define m where "m = (mm_part s)\<lparr>mm_kern := k\<rparr>"
  have ks: "kern_of (fs_part s) = k" by (simp add: s_def demo_proc_def k_def demo_vfs_def)
  have ms: "m = (demo_fork b)\<lparr>mm_kern := k\<rparr>" by (simp add: m_def s_def demo_proc_def)
  have t: "get_current k = Some demo_parent" "t_uid demo_parent = USER_RING3" "t_pde demo_parent AND 0xFFF = 0"
    "t_ipwd demo_parent = Some 0" "t_iroot demo_parent = Some 0" "None \<in> set (task_list k)"
    by (simp_all add: k_def get_current_def task_at_def no_tasks_def demo_parent_def demo_user_def zero_task_def)
  have "get_pde ((demo_fork b)\<lparr>mm_kern := k\<rparr>) = get_pde (demo_fork b)"
    using t(1) d(8) by (simp add: get_pde_def demo_parent_def)
  note sp = mm_kern_space [OF this, folded ms]
  have z: "mem_map b ! 258 = 0" "mem_map b ! 259 = 0" "mem_map b ! 260 = 0"
  proof -
    have u: "bm_used (kernel_map b) = {i. i < 3840 \<and> mem_map b ! (i + 256) \<noteq> 0}" "{2..<2 + 3} \<inter> bm_used (kernel_map b) = {}"
      using b(1,5) by (auto simp: mm_inv_def kmap_bits_ok_def free_run_def)
    have "j \<notin> bm_used (kernel_map b)" if "j \<in> {2, 3, 4}" for j
    proof -
      have "j \<in> {2..<2 + 3}" using that by auto
      then show ?thesis using u(2) by blast
    qed
    from this [of 2] this [of 3] this [of 4] show "mem_map b ! 258 = 0" "mem_map b ! 259 = 0" "mem_map b ! 260 = 0" unfolding u(1) by simp_all
  qed
  have "{258, 259, 260} \<subseteq> kfree m" unfolding sp(7)
    using z by (simp add: kfree_def demo_fork_def demo_shared_def set_word_def demo_vm_def)
  moreover have "finite (kfree m)" by (rule finite_subset [of _ "{..<4096}"]) (auto simp: kfree_def)
  ultimately have "card {258, 259, 260 :: nat} \<le> card (kfree m)" by (intro card_mono)
  then have three: "3 \<le> card (kfree m)" by simp
  have mm: "vm_ok m 0" "mem_map m ! unat (0 :: u32) \<noteq> 0" "pages_ok m 0 {..<768}" "2 \<le> free_slots m" "card (tables m 0) \<le> card {n. user_free m n}"
    using d(1-4,9) sp by (simp_all add: ms)
  from sys_fork_makes_child [OF ks m_def [symmetric] t mm(1-4) three mm(5), where ct = "0xC0101234"] obtain i s' child c where
    r: "sys_fork 0xC0101234 s = Some (of_nat i, s')" "task_at k i = None" "task_at (kern_of (fs_part s')) i = Some child"
      "forked demo_parent child i 0xC0101234 c"
      "\<forall>f. file_count (kern_of (fs_part s')) f = file_count k f + of_nat (count_list (t_files demo_parent) (Some f))"
      "\<forall>u. PDE_IDX u < 768 \<longrightarrow> walk (mm_part s') 0 u = map_option shared_out (walk m 0 u) \<and>
        walk (mm_part s') c u = map_option shared_out (walk m 0 u)"
    by blast
  have "file_count (kern_of (fs_part s')) 1 = file_count (kern_of (fs_part s)) 1 + 2"
    using r(5) unfolding ks by (simp add: demo_parent_def)
  moreover have "walk (mm_part s') c 0x8048000 = Some (shared_out (pte_set PTE_USER True (entry_init 4097)))"
  proof -
    have "PDE_IDX 0x8048000 < 768" by (simp add: PDE_IDX_def drop_bit_eq_div)
    then have "walk (mm_part s') c 0x8048000 = map_option shared_out (walk m 0 0x8048000)" using r(6) by blast
    then show ?thesis by (simp add: sp(6) d(10))
  qed
  moreover have "task_at (kern_of (fs_part s)) i = None" using r(2) by (simp only: ks)
  ultimately show ?thesis using r(1,3,4) by blast
qed

text \<open>
  C28. The first process clears a bitmap of 90047 bytes in a block of one page: the 85951 bytes behind the page, which the
  kernel has not allocated for it, are zero afterwards, whatever they held.
\<close>

theorem init_vmap_clears_neighbours:
  assumes "alloc_kpage (mm_part s) 1 = Some (page, m)"
  shows "\<exists>s'. init_vmap s = Some (page, s') \<and> (\<forall>i < 90047. bytes_of s' (page + of_nat i) = 0)"
proof -
  have v: "unat vmap_bytes = 90047"
    by (simp add: vmap_bytes_def USER_MMAP_SIZE_def USER_STACK_BOTTOM_def USER_STACK_TOP_def KERNEL_PAGE_DIR_VADDR_def USER_MMAP_ADDR_def PAGE_SIZE_def)
  have z: "memset_loop b page 0 90047 (page + of_nat i) = 0" if "i < 90047" for b i
  proof -
    have "bytes_at (memset_loop b page 0 90047) page 90047 = replicate 90047 0" using memset_loop_spec [of 90047] by simp
    then have "bytes_at (memset_loop b page 0 90047) page 90047 ! i = 0" using that by (metis nth_replicate)
    then show ?thesis using that by (simp only: bytes_at_nth)
  qed
  show ?thesis using assms z by (simp add: init_vmap_def v Let_def del: memset_loop.simps)
qed


theorem init_vmap_clears_neighbours_witness:
  "\<exists>s page m s'. alloc_kpage (mm_part s) 1 = Some (page, m) \<and> bytes_of s (page + 4096) = 0xCC \<and>
     init_vmap s = Some (page, s') \<and> bytes_of s' (page + 4096) = 0"
proof -
  obtain b where b: "mm_inv b" "free_run (kernel_map b) 3 2" using demo_mm by blast
  have "mem_map b ! 258 = 0"
  proof -
    have u: "bm_used (kernel_map b) = {i. i < 3840 \<and> mem_map b ! (i + 256) \<noteq> 0}" "{2..<2 + 3} \<inter> bm_used (kernel_map b) = {}"
      using b by (auto simp: mm_inv_def kmap_bits_ok_def free_run_def)
    have "2 \<in> {2..<2 + (3 :: nat)}" by simp
    then have "2 \<notin> bm_used (kernel_map b)" using u(2) by blast
    then show ?thesis unfolding u(1) by simp
  qed
  then have "258 \<in> kfree b" by (simp add: kfree_def)
  then have "kfree b \<noteq> {}" by blast
  from alloc_one [OF b(1) this] obtain page m where a: "alloc_kpage b 1 = Some (page, m)" by blast
  define s where "s = (demo_proc b)\<lparr>mm_part := b, bytes_of := (\<lambda>_. 0xCC)\<rparr>"
  have as: "alloc_kpage (mm_part s) 1 = Some (page, m)" using a by (simp add: s_def)
  obtain s' where s': "init_vmap s = Some (page, s')" "\<forall>i < 90047. bytes_of s' (page + of_nat i) = 0"
    using init_vmap_clears_neighbours [OF as] by blast
  have "bytes_of s' (page + 4096) = 0" using s'(2) [rule_format, of 4096] by simp
  moreover have "bytes_of s (page + 4096) = 0xCC" by (simp add: s_def)
  ultimately show ?thesis using as s'(1) by blast
qed

end
