(* ===== verification/Interrupt.thy ===== *)
theory Interrupt
  imports Task
begin

text \<open>
  The interrupt controller and the descriptor tables: \<^verbatim>\<open>src/kernel/interrupt.c\<close> with \<^verbatim>\<open>src/include/lightos/interrupt.h\<close>,
  and \<^verbatim>\<open>src/kernel/global.c\<close> with \<^verbatim>\<open>src/include/sys/global.h\<close>.

  The ports are a parameter: a \<open>bus\<close> says what reading and writing a port gives and does to the state \<open>'h\<close> of the
  devices. A bit field of the source is a word of its width. The handlers are code addresses, arguments of \<open>idt_init\<close>.

  Shown: unmasking one line changes that line only; after \<^verbatim>\<open>idt_init\<close> every gate is well formed, leads to its entry, and
  user code can raise the system call only; the descriptors of the flat segments are the processor's, and the selectors
  the kernel uses ask for the level of the descriptor they name.
\<close>

section \<open>Ports\<close>

record 'h bus =
  bus_inb :: "u32 \<Rightarrow> 'h \<Rightarrow> u8 \<times> 'h"
  bus_inw :: "u32 \<Rightarrow> 'h \<Rightarrow> u16 \<times> 'h"
  bus_outb :: "u32 \<Rightarrow> u8 \<Rightarrow> 'h \<Rightarrow> 'h"
  bus_outw :: "u32 \<Rightarrow> u16 \<Rightarrow> 'h \<Rightarrow> 'h"

definition PIC_M_CTRL :: u32 where "PIC_M_CTRL = 0x20"
definition PIC_M_DATA :: u32 where "PIC_M_DATA = 0x21"
definition PIC_S_CTRL :: u32 where "PIC_S_CTRL = 0xA0"
definition PIC_S_DATA :: u32 where "PIC_S_DATA = 0xA1"
definition PIC_EOI :: u8 where "PIC_EOI = 0x20"

definition IDT_SIZE :: nat where "IDT_SIZE = 256"
definition TRAP_TABLE_SIZE :: nat where "TRAP_TABLE_SIZE = 0x30"
definition IRQ_MASTER_NR :: u32 where "IRQ_MASTER_NR = 0x20"
definition IRQ_CLOCK :: u32 where "IRQ_CLOCK = 0"
definition IRQ_KEYBOARD :: u32 where "IRQ_KEYBOARD = 1"
definition IRQ_CASCADE :: u32 where "IRQ_CASCADE = 2"
definition IRQ_SERIAL_2 :: u32 where "IRQ_SERIAL_2 = 3"
definition IRQ_SERIAL_1 :: u32 where "IRQ_SERIAL_1 = 4"
definition IRQ_HARDDISK :: u32 where "IRQ_HARDDISK = 14"
definition IRQ_HARDDISK2 :: u32 where "IRQ_HARDDISK2 = 15"

section \<open>The interrupt controller\<close>

definition send_eoi :: "'h bus \<Rightarrow> u32 \<Rightarrow> 'h \<Rightarrow> 'h" where
  "send_eoi b vector h =
     (let h = (if vector \<ge> 0x20 \<and> vector < 0x28 then bus_outb b PIC_M_CTRL PIC_EOI h else h)
      in if vector \<ge> 0x28 \<and> vector < 0x30 then bus_outb b PIC_S_CTRL PIC_EOI (bus_outb b PIC_M_CTRL PIC_EOI h) else h)"

definition set_interrupt_mask :: "'h bus \<Rightarrow> u32 \<Rightarrow> bool \<Rightarrow> 'h \<Rightarrow> 'h option" where
  "set_interrupt_mask b irq enable h = do {
     kassert (irq < 16);
     let (port, line) = (if irq < 8 then (PIC_M_DATA, irq) else (PIC_S_DATA, irq - 8));
     let (v, h) = bus_inb b port h;
     Some (bus_outb b port (if enable then v AND NOT (push_bit (unat line) 1) else v OR push_bit (unat line) 1) h) }"

definition pic_init :: "'h bus \<Rightarrow> 'h \<Rightarrow> 'h" where
  "pic_init b h =
     (let h = bus_outb b PIC_M_CTRL 0x11 h;
          h = bus_outb b PIC_M_DATA 0x20 h;
          h = bus_outb b PIC_M_DATA 0x04 h;
          h = bus_outb b PIC_M_DATA 0x01 h;
          h = bus_outb b PIC_S_CTRL 0x11 h;
          h = bus_outb b PIC_S_DATA 0x28 h;
          h = bus_outb b PIC_S_DATA 2 h;
          h = bus_outb b PIC_S_DATA 0x01 h;
          h = bus_outb b PIC_M_DATA 0xFF h
      in bus_outb b PIC_S_DATA 0xFF h)"

section \<open>The interrupt flag\<close>

definition get_interrupt_state :: "kernel \<Rightarrow> bool" where
  "get_interrupt_state k \<longleftrightarrow> (drop_bit 9 (r_eflags (cpu k)) AND 1) \<noteq> 0"

definition start_interrupt :: "kernel \<Rightarrow> kernel" where
  "start_interrupt k = k\<lparr>cpu := (cpu k)\<lparr>r_eflags := set_bit 9 (r_eflags (cpu k))\<rparr>\<rparr>"

definition close_interrupt :: "kernel \<Rightarrow> kernel" where
  "close_interrupt k = k\<lparr>cpu := (cpu k)\<lparr>r_eflags := unset_bit 9 (r_eflags (cpu k))\<rparr>\<rparr>"

definition interrupt_disable :: "kernel \<Rightarrow> bool \<times> kernel" where
  "interrupt_disable k = (get_interrupt_state k, close_interrupt k)"

definition set_interrupt_state :: "bool \<Rightarrow> kernel \<Rightarrow> kernel" where
  "set_interrupt_state st k = (if st then start_interrupt k else close_interrupt k)"

section \<open>Gates\<close>

record gate =
  g_offset0 :: u16
  g_selector :: u16
  g_reserved :: u8
  g_type :: "4 word"
  g_segment :: "1 word"
  g_DPL :: "2 word"
  g_present :: "1 word"
  g_offset1 :: u16

record handlers =
  trap_entry_table :: "u32 list"
  h_default :: u32
  h_exception :: u32
  h_page_fault :: u32
  h_outer :: u32
  h_keyboard :: u32
  h_syscall :: u32

record 'h intr =
  it_hw :: 'h
  idt :: "gate list"
  trap_handler_table :: "u32 list"
  idt_base :: u32
  idt_limit :: u16
  it_counter :: u32

definition set_exception_handler :: "u32 \<Rightarrow> u32 \<Rightarrow> 'h intr \<Rightarrow> 'h intr option" where
  "set_exception_handler n handler s = do {
     kassert (n \<le> 17);
     t \<leftarrow> aset (trap_handler_table s) (unat n) handler;
     Some (s\<lparr>trap_handler_table := t\<rparr>) }"

definition set_interrupt_handler :: "u32 \<Rightarrow> u32 \<Rightarrow> 'h intr \<Rightarrow> 'h intr option" where
  "set_interrupt_handler irq handler s = do {
     kassert (irq < 16);
     t \<leftarrow> aset (trap_handler_table s) (unat (IRQ_MASTER_NR + irq)) handler;
     Some (s\<lparr>trap_handler_table := t\<rparr>) }"

definition unmask :: "'h bus \<Rightarrow> u32 \<Rightarrow> bool \<Rightarrow> 'h intr \<Rightarrow> 'h intr option" where
  "unmask b irq enable s = do { h \<leftarrow> set_interrupt_mask b irq enable (it_hw s); Some (s\<lparr>it_hw := h\<rparr>) }"

definition outer_interrupt_handler :: "'h bus \<Rightarrow> u32 \<Rightarrow> 'h intr \<Rightarrow> 'h intr" where
  "outer_interrupt_handler b vector s = s\<lparr>it_hw := send_eoi b vector (it_hw s), it_counter := it_counter s + 1\<rparr>"

definition default_handler :: "u32 \<Rightarrow> 'h intr \<Rightarrow> 'h intr option" where
  "default_handler vector s = kpanic"

text \<open>The text of an exception; after it is printed the handler loops for ever.\<close>

definition message_list :: "string list" where
  "message_list = [''#DE Divide Error'', ''#DB RESERVED'', ''--  NMI Interrupt'', ''#BP Breakpoint'', ''#OF Overflow'',
     ''#BR BOUND Range Exceeded'', ''#UD Invalid Opcode (Undefined Opcode)'', ''#NM Device Not Available (No Math Coprocessor)'',
     ''#DF Double Fault'', ''    Coprocessor Segment Overrun (reserved)'', ''#TS Invalid TSS'', ''#NP Segment Not Present'',
     ''#SS Stack-Segment Fault'', ''#GP General Protection'', ''#PF Page Fault'', ''--  (Intel reserved. Do not use.)'',
     ''#MF x87 FPU Floating-Point Error (Math Fault)'', ''#AC Alignment Check'', ''#MC Machine Check'',
     ''#XF SIMD Floating-Point Exception'', ''#VE Virtualization Exception'', ''#CP Control Protection Exception'']"

definition exception_message :: "nat \<Rightarrow> string option" where
  "exception_message vector = aget message_list (if vector < 22 then vector else 15)"

definition make_gate :: "u32 \<Rightarrow> 2 word \<Rightarrow> gate" where
  "make_gate handler dpl =
     \<lparr>g_offset0 = ucast (handler AND 0xFFFF), g_selector = push_bit 3 1, g_reserved = 0, g_type = 0xE, g_segment = 0, g_DPL = dpl,
      g_present = 1, g_offset1 = ucast (drop_bit 16 handler AND 0xFFFF)\<rparr>"

definition init_gate :: "handlers \<Rightarrow> nat \<Rightarrow> gate option" where
  "init_gate hs i = do {
     handler \<leftarrow> (if i < TRAP_TABLE_SIZE then aget (trap_entry_table hs) i else Some (h_default hs));
     Some (make_gate handler 0) }"

fun init_gates :: "handlers \<Rightarrow> nat list \<Rightarrow> 'h intr \<Rightarrow> 'h intr option" where
  "init_gates hs [] s = Some s"
| "init_gates hs (i # is) s = do {
     g \<leftarrow> init_gate hs i;
     t \<leftarrow> aset (idt s) i g;
     init_gates hs is (s\<lparr>idt := t\<rparr>) }"

fun init_traps :: "u32 \<Rightarrow> nat list \<Rightarrow> 'h intr \<Rightarrow> 'h intr option" where
  "init_traps handler [] s = Some s"
| "init_traps handler (i # is) s = do {
     t \<leftarrow> aset (trap_handler_table s) i handler;
     init_traps handler is (s\<lparr>trap_handler_table := t\<rparr>) }"

text \<open>
  Of \<^verbatim>\<open>keyboard_init\<close> (theory Keyboard) the two steps on the tables stand here. \<open>base\<close> is the address of the table.
\<close>

definition idt_init :: "'h bus \<Rightarrow> handlers \<Rightarrow> u32 \<Rightarrow> 'h intr \<Rightarrow> 'h intr option" where
  "idt_init b hs base s = do {
     s \<leftarrow> init_gates hs [0..<IDT_SIZE] s;
     s \<leftarrow> init_traps (h_exception hs) [0..<0x20] s;
     t \<leftarrow> aset (trap_handler_table s) 0xE (h_page_fault hs);
     s \<leftarrow> init_traps (h_outer hs) [0x20..<TRAP_TABLE_SIZE] (s\<lparr>trap_handler_table := t\<rparr>);
     s \<leftarrow> set_interrupt_handler IRQ_KEYBOARD (h_keyboard hs) s;
     s \<leftarrow> unmask b IRQ_KEYBOARD True s;
     g \<leftarrow> aset (idt s) 0x80 (make_gate (h_syscall hs) 3);
     Some (s\<lparr>idt := g, idt_base := base, idt_limit := of_nat (IDT_SIZE * 8 - 1)\<rparr>) }"

definition interrupt_init :: "'h bus \<Rightarrow> handlers \<Rightarrow> u32 \<Rightarrow> 'h intr \<Rightarrow> 'h intr option" where
  "interrupt_init b hs base s = idt_init b hs base (s\<lparr>it_hw := pic_init b (it_hw s)\<rparr>)"

section \<open>Segment descriptors\<close>

definition GDT_SIZE :: nat where "GDT_SIZE = 128"
definition KERNEL_CODE_IDX :: nat where "KERNEL_CODE_IDX = 1"
definition KERNEL_DATA_IDX :: nat where "KERNEL_DATA_IDX = 2"
definition KERNEL_TSS_IDX :: nat where "KERNEL_TSS_IDX = 3"
definition USER_CODE_IDX :: nat where "USER_CODE_IDX = 4"
definition USER_DATA_IDX :: nat where "USER_DATA_IDX = 5"
definition KERNEL_CODE_SELECTOR :: u16 where "KERNEL_CODE_SELECTOR = push_bit 3 (of_nat KERNEL_CODE_IDX)"
definition KERNEL_DATA_SELECTOR :: u16 where "KERNEL_DATA_SELECTOR = push_bit 3 (of_nat KERNEL_DATA_IDX)"
definition KERNEL_TSS_SELECTOR :: u16 where "KERNEL_TSS_SELECTOR = push_bit 3 (of_nat KERNEL_TSS_IDX)"
definition USER_CODE_SELECTOR :: u16 where "USER_CODE_SELECTOR = push_bit 3 (of_nat USER_CODE_IDX) OR 3"
definition USER_DATA_SELECTOR :: u16 where "USER_DATA_SELECTOR = push_bit 3 (of_nat USER_DATA_IDX) OR 3"

record descriptor =
  limit_low :: u16
  base_low :: "24 word"
  ds_type :: "4 word"
  ds_segment :: "1 word"
  ds_DPL :: "2 word"
  ds_present :: "1 word"
  limit_high :: "4 word"
  ds_available :: "1 word"
  ds_long_mode :: "1 word"
  ds_big :: "1 word"
  ds_granularity :: "1 word"
  base_high :: u8

definition zero_descriptor :: descriptor where
  "zero_descriptor = \<lparr>limit_low = 0, base_low = 0, ds_type = 0, ds_segment = 0, ds_DPL = 0, ds_present = 0, limit_high = 0,
     ds_available = 0, ds_long_mode = 0, ds_big = 0, ds_granularity = 0, base_high = 0\<rparr>"

definition descriptor_init :: "descriptor \<Rightarrow> u32 \<Rightarrow> u32 \<Rightarrow> descriptor" where
  "descriptor_init d base limit =
     d\<lparr>base_low := ucast (base AND 0xFFFFFF), base_high := ucast (drop_bit 24 base AND 0xFF),
       limit_low := ucast (limit AND 0xFFFF), limit_high := ucast (drop_bit 16 limit AND 0xF)\<rparr>"

definition flat_segment :: "2 word \<Rightarrow> 4 word \<Rightarrow> descriptor \<Rightarrow> descriptor" where
  "flat_segment dpl kind d = (descriptor_init d 0 0xFFFFF)
     \<lparr>ds_segment := 1, ds_granularity := 1, ds_big := 1, ds_long_mode := 0, ds_present := 1, ds_DPL := dpl, ds_type := kind\<rparr>"

definition on_desc :: "nat \<Rightarrow> (descriptor \<Rightarrow> descriptor) \<Rightarrow> descriptor list \<Rightarrow> descriptor list option" where
  "on_desc i f g = do { d \<leftarrow> aget g i; aset g i (f d) }"

definition gdt_init :: "descriptor list \<Rightarrow> descriptor list option" where
  "gdt_init g = do {
     let g = replicate (length g) zero_descriptor;
     g \<leftarrow> on_desc KERNEL_CODE_IDX (flat_segment 0 0xA) g;
     g \<leftarrow> on_desc KERNEL_DATA_IDX (flat_segment 0 0x2) g;
     g \<leftarrow> on_desc USER_CODE_IDX (flat_segment 3 0xA) g;
     on_desc USER_DATA_IDX (flat_segment 3 0x2) g }"

text \<open>The table of the loader: only the four bytes of a pointer's size are cleared.\<close>

definition temp_gdt_init :: "descriptor list \<Rightarrow> descriptor list option" where
  "temp_gdt_init g = do {
     g \<leftarrow> on_desc 0 (\<lambda>d. d\<lparr>limit_low := 0, base_low := base_low d AND 0xFF0000\<rparr>) g;
     g \<leftarrow> on_desc KERNEL_CODE_IDX (flat_segment 0 0xA) g;
     on_desc KERNEL_DATA_IDX (flat_segment 0 0x2) g }"

text \<open>\<open>base\<close> is the address of the task state segment, 106 bytes.\<close>

definition TSS_BYTES :: u32 where "TSS_BYTES = 106"

definition tss_descriptor :: "u32 \<Rightarrow> descriptor \<Rightarrow> descriptor" where
  "tss_descriptor base d = (descriptor_init d base (TSS_BYTES - 1))
     \<lparr>ds_segment := 0, ds_granularity := 0, ds_big := 0, ds_long_mode := 0, ds_present := 1, ds_DPL := 0, ds_type := 0x9\<rparr>"

record tss =
  tss_ss0 :: u32
  tss_iobase :: u16

definition tss_init :: "u32 \<Rightarrow> descriptor list \<Rightarrow> (tss \<times> descriptor list) option" where
  "tss_init base g = do {
     let t = \<lparr>tss_ss0 = ucast KERNEL_DATA_SELECTOR, tss_iobase = ucast TSS_BYTES\<rparr>;
     g \<leftarrow> on_desc KERNEL_TSS_IDX (tss_descriptor base) g;
     Some (t, g) }"

text \<open>The eight bytes of a descriptor and of a gate as the processor reads them.\<close>

definition desc_bits :: "descriptor \<Rightarrow> u64" where
  "desc_bits d = ucast (limit_low d) OR push_bit 16 (ucast (base_low d)) OR push_bit 40 (ucast (ds_type d)) OR
     push_bit 44 (ucast (ds_segment d)) OR push_bit 45 (ucast (ds_DPL d)) OR push_bit 47 (ucast (ds_present d)) OR
     push_bit 48 (ucast (limit_high d)) OR push_bit 52 (ucast (ds_available d)) OR push_bit 53 (ucast (ds_long_mode d)) OR
     push_bit 54 (ucast (ds_big d)) OR push_bit 55 (ucast (ds_granularity d)) OR push_bit 56 (ucast (base_high d))"

definition gate_offset :: "gate \<Rightarrow> u32" where
  "gate_offset g = ucast (g_offset0 g) OR push_bit 16 (ucast (g_offset1 g))"

definition desc_base :: "descriptor \<Rightarrow> u32" where
  "desc_base d = ucast (base_low d) OR push_bit 24 (ucast (base_high d))"

definition desc_limit :: "descriptor \<Rightarrow> u32" where
  "desc_limit d = ucast (limit_low d) OR push_bit 16 (ucast (limit_high d))"

definition selected :: "descriptor list \<Rightarrow> u16 \<Rightarrow> descriptor" where
  "selected g sel = g ! unat (drop_bit 3 sel)"

section \<open>Properties\<close>

text \<open>A bus whose two data ports are the mask registers of the controller pair.\<close>

definition mask_ports :: "'h bus \<Rightarrow> ('h \<Rightarrow> u8) \<Rightarrow> ('h \<Rightarrow> u8) \<Rightarrow> bool" where
  "mask_ports b mm ms \<longleftrightarrow>
     (\<forall>h. fst (bus_inb b 0x21 h) = mm h \<and> mm (snd (bus_inb b 0x21 h)) = mm h \<and> ms (snd (bus_inb b 0x21 h)) = ms h \<and>
          fst (bus_inb b 0xA1 h) = ms h \<and> mm (snd (bus_inb b 0xA1 h)) = mm h \<and> ms (snd (bus_inb b 0xA1 h)) = ms h) \<and>
     (\<forall>v h. mm (bus_outb b 0x21 v h) = v \<and> ms (bus_outb b 0x21 v h) = ms h \<and> ms (bus_outb b 0xA1 v h) = v \<and> mm (bus_outb b 0xA1 v h) = mm h)"

definition line_enabled :: "('h \<Rightarrow> u8) \<Rightarrow> ('h \<Rightarrow> u8) \<Rightarrow> 'h \<Rightarrow> nat \<Rightarrow> bool" where
  "line_enabled mm ms h irq \<longleftrightarrow> \<not> (if irq < 8 then bit (mm h) irq else bit (ms h) (irq - 8))"

lemma one_line:
  fixes v :: u8
  assumes "i < 8" "j < 8"
  shows "bit (if en then v AND NOT (push_bit i 1) else v OR push_bit i 1) j = (if j = i then \<not> en else bit v j)"
  using assms by (auto simp: bit_simps)

text \<open>
  Masking and unmasking are exact: below 16 a line of the interrupt controller pair is then enabled as asked, the other
  fifteen are as before, on either chip; from 16 the kernel stops.
\<close>

lemma set_interrupt_mask_exact:
  assumes "mask_ports b mm ms"
  shows "irq < 16 \<Longrightarrow> \<exists>h'. set_interrupt_mask b irq en h = Some h' \<and>
           (\<forall>j < 16. line_enabled mm ms h' j = (if j = unat irq then en else line_enabled mm ms h j))"
    and "\<not> irq < 16 \<Longrightarrow> set_interrupt_mask b irq en h = None"
proof -
  assume "\<not> irq < 16"
  then show "set_interrupt_mask b irq en h = None" by (simp add: set_interrupt_mask_def)
next
  assume lt: "irq < 16"
  then have u: "unat irq < 16" by (simp add: word_less_nat_alt)
  define n where "n = (if unat irq < 8 then unat irq else unat irq - 8)"
  have n: "n < 8" unfolding n_def using u by arith
  have sub: "unat (irq - 8) = unat irq - 8" if "\<not> irq < 8"
    using that by (simp add: unat_sub word_less_nat_alt word_le_nat_alt)
  show "\<exists>h'. set_interrupt_mask b irq en h = Some h' \<and>
           (\<forall>j < 16. line_enabled mm ms h' j = (if j = unat irq then en else line_enabled mm ms h j))"
  proof (cases "irq < 8")
    case True
    then have i: "unat irq = n" "unat irq < 8" by (simp_all add: n_def word_less_nat_alt)
    show ?thesis
      using lt True assms n one_line [OF n, of _ en] by (auto simp: set_interrupt_mask_def mask_ports_def case_prod_unfold Let_def PIC_M_DATA_def line_enabled_def i)
  next
    case False
    then have i: "unat irq = n + 8" "unat (irq - 8) = n" using sub by (auto simp: n_def word_less_nat_alt)
    have "j - 8 = n \<longleftrightarrow> j = n + 8" if "\<not> j < 8" for j using that by auto
    then show ?thesis
      using lt False assms n one_line [OF n, of _ en] by (auto simp: set_interrupt_mask_def mask_ports_def case_prod_unfold Let_def PIC_S_DATA_def line_enabled_def i)
  qed
qed

text \<open>Two registers, and the lines of a controller that was initialised with all of them masked.\<close>

definition mask_bus :: "(u8 \<times> u8) bus" where
  "mask_bus = \<lparr>bus_inb = (\<lambda>p h. (if p = 0x21 then fst h else snd h, h)), bus_inw = (\<lambda>p h. (0, h)),
     bus_outb = (\<lambda>p v h. if p = 0x21 then (v, snd h) else if p = 0xA1 then (fst h, v) else h), bus_outw = (\<lambda>p v h. h)\<rparr>"

lemma mask_bus_ports: "mask_ports mask_bus fst snd"
  by (simp add: mask_ports_def mask_bus_def)

lemma set_interrupt_mask_exact_witness:
  "(\<exists>h'. set_interrupt_mask mask_bus IRQ_HARDDISK True (0xFF, 0xFF) = Some h' \<and> line_enabled fst snd h' 14 \<and> \<not> line_enabled fst snd h' 15) \<and>
   set_interrupt_mask mask_bus 16 True (0xFF, 0xFF) = None"
proof -
  have "IRQ_HARDDISK < 16" "unat IRQ_HARDDISK = 14" by (simp_all add: IRQ_HARDDISK_def)
  then obtain h' where "set_interrupt_mask mask_bus IRQ_HARDDISK True (0xFF, 0xFF) = Some h'"
     "\<forall>j < 16. line_enabled fst snd h' j = (if j = 14 then True else line_enabled fst snd (0xFF :: u8, 0xFF :: u8) j)"
    using set_interrupt_mask_exact(1) [OF mask_bus_ports, of IRQ_HARDDISK True "(0xFF, 0xFF)"] by auto
  moreover have "\<not> line_enabled fst snd (0xFF :: u8, 0xFF :: u8) 15" by (simp add: line_enabled_def bit_numeral_rec)
  moreover have "set_interrupt_mask mask_bus 16 True (0xFF, 0xFF) = None"
    using set_interrupt_mask_exact(2) [OF mask_bus_ports, of 16] by simp
  ultimately show ?thesis by auto
qed

lemma make_gate_offset: "gate_offset (make_gate a dpl) = a"
proof -
  have ff: "(0xFFFF :: u32) = mask 16" by (simp add: mask_eq_exp_minus_1)
  show ?thesis unfolding gate_offset_def make_gate_def gate.simps ff
    by (intro bit_word_eqI) (auto simp: bit_simps simp del: mask_numeral)
qed

definition entry_of :: "handlers \<Rightarrow> nat \<Rightarrow> u32" where
  "entry_of hs i = (if i < 0x30 then trap_entry_table hs ! i else h_default hs)"

lemma init_gate_entry: "length (trap_entry_table hs) = 0x30 \<Longrightarrow> init_gate hs i = Some (make_gate (entry_of hs i) 0)"
  by (simp add: init_gate_def entry_of_def TRAP_TABLE_SIZE_def)

lemma init_gates_spec:
  assumes "length (trap_entry_table hs) = 0x30"
  shows "set is \<subseteq> {..<length (idt s)} \<Longrightarrow> \<exists>t. init_gates hs is s = Some (s\<lparr>idt := t\<rparr>) \<and> length t = length (idt s) \<and>
     (\<forall>i < length t. t ! i = (if i \<in> set is then make_gate (entry_of hs i) 0 else idt s ! i))"
proof (induction "is" arbitrary: s)
  case Nil
  show ?case by (intro exI [of _ "idt s"]) simp
next
  case (Cons j js)
  let ?s = "s\<lparr>idt := (idt s)[j := make_gate (entry_of hs j) 0]\<rparr>"
  have "init_gates hs (j # js) s = init_gates hs js ?s" using Cons.prems by (simp add: init_gate_entry [OF assms])
  moreover obtain t where "init_gates hs js ?s = Some (?s\<lparr>idt := t\<rparr>)" "length t = length (idt s)"
     "\<forall>i < length t. t ! i = (if i \<in> set js then make_gate (entry_of hs i) 0 else idt ?s ! i)"
    using Cons.IH [of ?s] Cons.prems by auto
  ultimately show ?case by (intro exI [of _ t]) (auto simp: nth_list_update)
qed

lemma init_traps_spec:
  "set is \<subseteq> {..<length (trap_handler_table s)} \<Longrightarrow> \<exists>t. init_traps a is s = Some (s\<lparr>trap_handler_table := t\<rparr>) \<and> length t = length (trap_handler_table s) \<and>
     (\<forall>i < length t. t ! i = (if i \<in> set is then a else trap_handler_table s ! i))"
proof (induction "is" arbitrary: s)
  case Nil
  show ?case by (intro exI [of _ "trap_handler_table s"]) simp
next
  case (Cons j js)
  let ?s = "s\<lparr>trap_handler_table := (trap_handler_table s)[j := a]\<rparr>"
  have "init_traps a (j # js) s = init_traps a js ?s" using Cons.prems by simp
  moreover obtain t where "init_traps a js ?s = Some (?s\<lparr>trap_handler_table := t\<rparr>)" "length t = length (trap_handler_table s)"
     "\<forall>i < length t. t ! i = (if i \<in> set js then a else trap_handler_table ?s ! i)"
    using Cons.IH [of ?s] Cons.prems by auto
  ultimately show ?case by (intro exI [of _ t]) (auto simp: nth_list_update)
qed

text \<open>
  C33. After \<^verbatim>\<open>idt_init\<close> the interrupt table is well formed: every one of the 256 gates is a present interrupt gate
  through the kernel's code segment, leads to its own entry for the first 48, to the system call for 0x80 and to the panic
  for all others, and only 0x80 can be raised by user code. Behind the entries, every exception is handled, page faults
  by the pager and the keyboard line by the keyboard.
\<close>

theorem idt_init_gates:
  assumes len: "length (idt s) = 256" "length (trap_handler_table s) = 0x30" "length (trap_entry_table hs) = 0x30"
  shows "\<exists>s'. idt_init b hs base s = Some s' \<and> idt_base s' = base \<and> unat (idt_limit s') + 1 = 8 * length (idt s') \<and>
     (\<forall>i < 256. gate_offset (idt s' ! i) = (if i = 0x80 then h_syscall hs else if i < 0x30 then trap_entry_table hs ! i else h_default hs) \<and>
        g_present (idt s' ! i) = 1 \<and> g_type (idt s' ! i) = 0xE \<and> g_segment (idt s' ! i) = 0 \<and>
        g_selector (idt s' ! i) = KERNEL_CODE_SELECTOR \<and> g_DPL (idt s' ! i) = (if i = 0x80 then 3 else 0)) \<and>
     (\<forall>i < 0x30. trap_handler_table s' ! i = (if i = 14 then h_page_fault hs else if i < 0x20 then h_exception hs
        else if i = 0x21 then h_keyboard hs else h_outer hs))"
proof -
  note upt_rec_numeral [simp del]
  have "set [0..<IDT_SIZE] \<subseteq> {..<length (idt s)}" using len by (auto simp: IDT_SIZE_def)
  from init_gates_spec [OF len(3) this] obtain t where t: "init_gates hs [0..<IDT_SIZE] s = Some (s\<lparr>idt := t\<rparr>)" "length t = 256"
     "\<And>i. i < 256 \<Longrightarrow> t ! i = make_gate (entry_of hs i) 0" using len by (auto simp: IDT_SIZE_def)
  let ?s1 = "s\<lparr>idt := t\<rparr>"
  have "set [0..<0x20] \<subseteq> {..<length (trap_handler_table ?s1)}" using len by auto
  from init_traps_spec [OF this, of "h_exception hs"] obtain u where u: "init_traps (h_exception hs) [0..<0x20] ?s1 = Some (?s1\<lparr>trap_handler_table := u\<rparr>)"
     "length u = 0x30" "\<And>i. i < 0x20 \<Longrightarrow> u ! i = h_exception hs" using len by auto
  let ?s2 = "?s1\<lparr>trap_handler_table := u[14 := h_page_fault hs]\<rparr>"
  have "set [0x20..<TRAP_TABLE_SIZE] \<subseteq> {..<length (trap_handler_table ?s2)}" using u by (auto simp: TRAP_TABLE_SIZE_def)
  from init_traps_spec [OF this, of "h_outer hs"] obtain w where w: "init_traps (h_outer hs) [0x20..<TRAP_TABLE_SIZE] ?s2 = Some (?s2\<lparr>trap_handler_table := w\<rparr>)"
     "length w = 0x30" "\<And>i. i < 0x30 \<Longrightarrow> w ! i = (if 0x20 \<le> i then h_outer hs else u[14 := h_page_fault hs] ! i)"
    using u by (auto simp: TRAP_TABLE_SIZE_def)
  obtain h where h: "set_interrupt_mask b 1 True (it_hw s) = Some h" by (simp add: set_interrupt_mask_def case_prod_unfold Let_def)
  define s' where "s' = s\<lparr>idt := t[0x80 := make_gate (h_syscall hs) 3], trap_handler_table := w[0x21 := h_keyboard hs], it_hw := h,
     idt_base := base, idt_limit := of_nat (IDT_SIZE * 8 - 1)\<rparr>"
  have run: "idt_init b hs base s = Some s'"
    using t(1,2) u(1,2) w(1,2) h by (simp add: idt_init_def set_interrupt_handler_def unmask_def IRQ_KEYBOARD_def IRQ_MASTER_NR_def s'_def)
  have sel: "(push_bit 3 1 :: u16) = KERNEL_CODE_SELECTOR" by (simp add: KERNEL_CODE_SELECTOR_def KERNEL_CODE_IDX_def)
  have g: "idt s' ! i = make_gate (if i = 0x80 then h_syscall hs else entry_of hs i) (if i = 0x80 then 3 else 0)" if "i < 256" for i
    using that t(2,3) by (auto simp: s'_def nth_list_update)
  have gates: "\<forall>i < 256. gate_offset (idt s' ! i) = (if i = 0x80 then h_syscall hs else if i < 0x30 then trap_entry_table hs ! i else h_default hs) \<and>
        g_present (idt s' ! i) = 1 \<and> g_type (idt s' ! i) = 0xE \<and> g_segment (idt s' ! i) = 0 \<and>
        g_selector (idt s' ! i) = KERNEL_CODE_SELECTOR \<and> g_DPL (idt s' ! i) = (if i = 0x80 then 3 else 0)"
    using g by (simp add: make_gate_offset) (simp add: make_gate_def sel [simplified] entry_of_def)
  have traps: "\<forall>i < 0x30. trap_handler_table s' ! i = (if i = 14 then h_page_fault hs else if i < 0x20 then h_exception hs
        else if i = 0x21 then h_keyboard hs else h_outer hs)"
    using u(2,3) w(2,3) by (auto simp: s'_def nth_list_update)
  have "unat (idt_limit s') + 1 = 8 * length (idt s')" "idt_base s' = base" using t(2) by (simp_all add: s'_def IDT_SIZE_def)
  then show ?thesis using run gates traps by blast
qed

definition demo_handlers :: handlers where
  "demo_handlers = \<lparr>trap_entry_table = map (\<lambda>i. 0xC0010000 + 16 * of_nat i) [0..<48], h_default = 0xC0020000, h_exception = 0xC0020100,
     h_page_fault = 0xC0020200, h_outer = 0xC0020300, h_keyboard = 0xC0020400, h_syscall = 0xC0020500\<rparr>"

definition demo_intr :: "(u8 \<times> u8) intr" where
  "demo_intr = \<lparr>it_hw = (0xFF, 0xFF), idt = replicate 256 (make_gate 0 0), trap_handler_table = replicate 48 0, idt_base = 0, idt_limit = 0, it_counter = 0\<rparr>"

lemma idt_init_gates_witness:
  "\<exists>s'. idt_init mask_bus demo_handlers 0xC0030000 demo_intr = Some s' \<and> gate_offset (idt s' ! 0x80) = 0xC0020500 \<and> g_DPL (idt s' ! 0x80) = 3 \<and>
     gate_offset (idt s' ! 0x21) = 0xC0010210 \<and> g_DPL (idt s' ! 0x21) = 0 \<and> trap_handler_table s' ! 0x21 = 0xC0020400"
proof -
  have l: "length (idt demo_intr) = 256" "length (trap_handler_table demo_intr) = 0x30" "length (trap_entry_table demo_handlers) = 0x30"
    by (simp_all add: demo_intr_def demo_handlers_def)
  obtain s' where "idt_init mask_bus demo_handlers 0xC0030000 demo_intr = Some s'"
     "\<forall>i < 256. gate_offset (idt s' ! i) = (if i = 0x80 then h_syscall demo_handlers else if i < 0x30 then trap_entry_table demo_handlers ! i else h_default demo_handlers) \<and>
        g_DPL (idt s' ! i) = (if i = 0x80 then 3 else 0)"
     "\<forall>i < 0x30. trap_handler_table s' ! i = (if i = 14 then h_page_fault demo_handlers else if i < 0x20 then h_exception demo_handlers
        else if i = 0x21 then h_keyboard demo_handlers else h_outer demo_handlers)"
    using idt_init_gates [OF l, of mask_bus "0xC0030000"] by blast
  then show ?thesis by (intro exI [of _ s']) (simp add: demo_handlers_def)
qed

lemma descriptor_base: "desc_base (descriptor_init d base limit) = base"
proof -
  have ff: "(0xFFFFFF :: u32) = mask 24" "(0xFF :: u32) = mask 8" by (simp_all add: mask_eq_exp_minus_1)
  show ?thesis unfolding desc_base_def descriptor_init_def ff
    by (intro bit_word_eqI) (auto simp: bit_simps)
qed

lemma descriptor_limit: "desc_limit (descriptor_init d base limit) = take_bit 20 limit"
proof -
  have ff: "(0xFFFF :: u32) = mask 16" "(0xF :: u32) = mask 4" by (simp_all add: mask_eq_exp_minus_1)
  show ?thesis unfolding desc_limit_def descriptor_init_def ff
    by (intro bit_word_eqI) (auto simp: bit_simps)
qed

text \<open>
  C34. The descriptor table of the kernel holds, bit for bit, the processor's flat 4G code and data segments for both
  privilege levels and null descriptors elsewhere. \<^verbatim>\<open>tss_init\<close> adds the task segment at any address, with the
  limit of its 106 bytes, and changes no other; and every selector of the kernel asks for the level of the segment it names.
\<close>

theorem gdt_segments:
  assumes "length g = GDT_SIZE"
  shows "\<exists>g1 t g2. gdt_init g = Some g1 \<and> tss_init base g1 = Some (t, g2) \<and>
     (\<forall>i < GDT_SIZE. i \<noteq> KERNEL_TSS_IDX \<longrightarrow> desc_bits (g2 ! i) = (if i = 1 then 0x00CF9A000000FFFF else if i = 2 then 0x00CF92000000FFFF
        else if i = 4 then 0x00CFFA000000FFFF else if i = 5 then 0x00CFF2000000FFFF else 0)) \<and>
     desc_base (g2 ! KERNEL_TSS_IDX) = base \<and> desc_limit (g2 ! KERNEL_TSS_IDX) = 105 \<and> ds_type (g2 ! KERNEL_TSS_IDX) = 9 \<and>
     tss_ss0 t = ucast KERNEL_DATA_SELECTOR \<and>
     (\<forall>sel \<in> {KERNEL_CODE_SELECTOR, KERNEL_DATA_SELECTOR, KERNEL_TSS_SELECTOR, USER_CODE_SELECTOR, USER_DATA_SELECTOR}.
        ds_present (selected g2 sel) = 1 \<and> ds_DPL (selected g2 sel) = ucast (sel AND 3))"
proof -
  define z where "z = replicate (length g) zero_descriptor"
  define g1 where "g1 = z[1 := flat_segment 0 0xA zero_descriptor, 2 := flat_segment 0 0x2 zero_descriptor,
     4 := flat_segment 3 0xA zero_descriptor, 5 := flat_segment 3 0x2 zero_descriptor]"
  define g2 where "g2 = g1[3 := tss_descriptor base zero_descriptor]"
  define t where "t = \<lparr>tss_ss0 = ucast KERNEL_DATA_SELECTOR, tss_iobase = ucast TSS_BYTES\<rparr>"
  have z: "length z = 128" "\<And>i. i < 128 \<Longrightarrow> z ! i = zero_descriptor" using assms by (simp_all add: z_def GDT_SIZE_def)
  note idx = KERNEL_CODE_IDX_def KERNEL_DATA_IDX_def KERNEL_TSS_IDX_def USER_CODE_IDX_def USER_DATA_IDX_def
  have l1: "length g1 = 128" "g1 ! 3 = zero_descriptor" using z by (simp_all add: g1_def)
  have run: "gdt_init g = Some g1" using z by (simp add: gdt_init_def on_desc_def idx z_def [symmetric] g1_def nth_list_update)
  have run2: "tss_init base g1 = Some (t, g2)" using l1 by (simp add: tss_init_def on_desc_def idx g2_def t_def)
  have code: "desc_bits (flat_segment 0 0xA zero_descriptor) = 0x00CF9A000000FFFF" "desc_bits (flat_segment 0 0x2 zero_descriptor) = 0x00CF92000000FFFF"
    "desc_bits (flat_segment 3 0xA zero_descriptor) = 0x00CFFA000000FFFF" "desc_bits (flat_segment 3 0x2 zero_descriptor) = 0x00CFF2000000FFFF"
    "desc_bits zero_descriptor = 0"
    by (simp_all add: desc_bits_def flat_segment_def descriptor_init_def zero_descriptor_def)
  have at: "g2 ! i = (if i = 1 then flat_segment 0 0xA zero_descriptor else if i = 2 then flat_segment 0 0x2 zero_descriptor
      else if i = 3 then tss_descriptor base zero_descriptor else if i = 4 then flat_segment 3 0xA zero_descriptor
      else if i = 5 then flat_segment 3 0x2 zero_descriptor else zero_descriptor)" if "i < 128" for i
    using that z by (auto simp: g2_def g1_def nth_list_update)
  have bits: "\<forall>i < GDT_SIZE. i \<noteq> KERNEL_TSS_IDX \<longrightarrow> desc_bits (g2 ! i) = (if i = 1 then 0x00CF9A000000FFFF else if i = 2 then 0x00CF92000000FFFF
        else if i = 4 then 0x00CFFA000000FFFF else if i = 5 then 0x00CFF2000000FFFF else 0)"
    using at code by (simp add: GDT_SIZE_def KERNEL_TSS_IDX_def)
  have tss: "desc_base (g2 ! KERNEL_TSS_IDX) = base" "desc_limit (g2 ! KERNEL_TSS_IDX) = 105" "ds_type (g2 ! KERNEL_TSS_IDX) = 9"
    using descriptor_base [of zero_descriptor base "TSS_BYTES - 1"] descriptor_limit [of zero_descriptor base "TSS_BYTES - 1"]
    by (simp_all add: at KERNEL_TSS_IDX_def tss_descriptor_def desc_base_def desc_limit_def TSS_BYTES_def)
  have sel: "\<forall>sel \<in> {KERNEL_CODE_SELECTOR, KERNEL_DATA_SELECTOR, KERNEL_TSS_SELECTOR, USER_CODE_SELECTOR, USER_DATA_SELECTOR}.
        ds_present (selected g2 sel) = 1 \<and> ds_DPL (selected g2 sel) = ucast (sel AND 3)"
    by (simp add: selected_def KERNEL_CODE_SELECTOR_def KERNEL_DATA_SELECTOR_def KERNEL_TSS_SELECTOR_def USER_CODE_SELECTOR_def USER_DATA_SELECTOR_def
        idx at flat_segment_def tss_descriptor_def)
  show ?thesis using run run2 bits tss sel by (intro exI [of _ g1] exI [of _ t] exI [of _ g2]) (simp add: t_def)
qed

lemma gdt_segments_witness:
  "\<exists>g1 t g2. gdt_init (replicate 128 zero_descriptor) = Some g1 \<and> tss_init 0xC0123456 g1 = Some (t, g2) \<and>
     desc_bits (g2 ! 4) = 0x00CFFA000000FFFF \<and> desc_base (g2 ! 3) = 0xC0123456"
proof -
  have l: "length (replicate 128 zero_descriptor) = GDT_SIZE" by (simp add: GDT_SIZE_def)
  have i: "4 < GDT_SIZE" "4 \<noteq> KERNEL_TSS_IDX" "KERNEL_TSS_IDX = 3" by (simp_all add: GDT_SIZE_def KERNEL_TSS_IDX_def)
  obtain g1 t g2 where g: "gdt_init (replicate 128 zero_descriptor) = Some g1" "tss_init 0xC0123456 g1 = Some (t, g2)"
     "\<forall>i < GDT_SIZE. i \<noteq> KERNEL_TSS_IDX \<longrightarrow> desc_bits (g2 ! i) = (if i = 1 then 0x00CF9A000000FFFF else if i = 2 then 0x00CF92000000FFFF
        else if i = 4 then 0x00CFFA000000FFFF else if i = 5 then 0x00CFF2000000FFFF else 0)"
     "desc_base (g2 ! KERNEL_TSS_IDX) = 0xC0123456"
    using gdt_segments [OF l, of "0xC0123456"] by blast
  then show ?thesis using i by (intro exI [of _ g1] exI [of _ t] exI [of _ g2]) simp
qed

end
