(* ===== verification/Ide.thy ===== *)
theory Ide
  imports Device Vsprintf Mutex Interrupt
begin

text \<open>
  The IDE disk driver, \<^verbatim>\<open>src/kernel/ide.c\<close> with \<^verbatim>\<open>src/include/lightos/ide.h\<close>.

  The hardware is a parameter, the \<open>bus\<close> of theory Interrupt. Also a parameter is \<open>elapse\<close>, what happens between the sleep of a task in the driver and its next turn: other
  tasks run and the interrupt handler wakes it. A transfer holds the controller's lock, with the code of a mutex over this state. A disk is named by its controller and its number there; the device pointers that \<open>device_install\<close> stores count the disks
  and the partitions of all controllers.

  Shown: the registers of a command give the sector number back exactly when it has 28 bits; a sector goes
  through the data port word by word, unchanged; the byte order of the identification strings.
\<close>

section \<open>Registers\<close>

definition IDE_IOBASE_PRIMARY :: u32 where "IDE_IOBASE_PRIMARY = 0x1F0"
definition IDE_IOBASE_SECONDARY :: u32 where "IDE_IOBASE_SECONDARY = 0x170"
definition IDE_DATA :: u32 where "IDE_DATA = 0"
definition IDE_ERR :: u32 where "IDE_ERR = 1"
definition IDE_SECTOR :: u32 where "IDE_SECTOR = 2"
definition IDE_LBA_LOW :: u32 where "IDE_LBA_LOW = 3"
definition IDE_LBA_MID :: u32 where "IDE_LBA_MID = 4"
definition IDE_LBA_HIGH :: u32 where "IDE_LBA_HIGH = 5"
definition IDE_HDDEVSEL :: u32 where "IDE_HDDEVSEL = 6"
definition IDE_STATUS :: u32 where "IDE_STATUS = 7"
definition IDE_COMMAND :: u32 where "IDE_COMMAND = 7"
definition IDE_ALT_STATUS :: u32 where "IDE_ALT_STATUS = 0x206"
definition IDE_CONTROL :: u32 where "IDE_CONTROL = 0x206"
definition IDE_CMD_READ :: u8 where "IDE_CMD_READ = 0x20"
definition IDE_CMD_WRITE :: u8 where "IDE_CMD_WRITE = 0x30"
definition IDE_CMD_IDENTIFY :: u8 where "IDE_CMD_IDENTIFY = 0xEC"
definition IDE_SR_NULL :: u8 where "IDE_SR_NULL = 0"
definition IDE_SR_ERR :: u8 where "IDE_SR_ERR = 1"
definition IDE_SR_DRQ :: u8 where "IDE_SR_DRQ = 8"
definition IDE_SR_DRDY :: u8 where "IDE_SR_DRDY = 0x40"
definition IDE_SR_BSY :: u8 where "IDE_SR_BSY = 0x80"
definition IDE_CTRL_SRST :: u8 where "IDE_CTRL_SRST = 4"
definition IDE_LBA_MASTER :: u8 where "IDE_LBA_MASTER = 0xE0"
definition IDE_LBA_SLAVE :: u8 where "IDE_LBA_SLAVE = 0xF0"
definition PART_FS_EXTENDED :: u8 where "PART_FS_EXTENDED = 5"
definition IDE_CTRL_NR :: nat where "IDE_CTRL_NR = 2"
definition IDE_DISK_NR :: nat where "IDE_DISK_NR = 2"
definition IDE_PART_NR :: nat where "IDE_PART_NR = 4"
definition DEV_IDE_DISK :: u32 where "DEV_IDE_DISK = 5"
definition DEV_IDE_PART :: u32 where "DEV_IDE_PART = 6"
definition EIO :: u32 where "EIO = 1"

section \<open>State\<close>

record ide_part =
  pt_name :: "u8 list"
  pt_system :: u32
  pt_start :: u32
  pt_count :: u32

record ide_disk =
  dk_name :: "u8 list"
  dk_selector :: u8
  dk_master :: bool
  dk_total_lba :: u32
  dk_cylinders :: u32
  dk_heads :: u32
  dk_sectors :: u32
  dk_sector_size :: u32
  dk_parts :: "ide_part list"

record ide_ctrl =
  ct_name :: "u8 list"
  ct_value :: u32
  ct_waiters :: u32
  ct_iobase :: u32
  ct_disks :: "ide_disk list"
  ct_active :: "nat option"
  ct_control :: u8
  ct_waiter :: "nat option"

record 'h ide =
  hw :: 'h
  controllers :: "ide_ctrl list"
  id_kern :: kernel
  id_mem :: mem
  id_tables :: "unit intr"

definition ctrl_at :: "'h ide \<Rightarrow> nat \<Rightarrow> ide_ctrl option" where
  "ctrl_at s c = aget (controllers s) c"

definition set_ctrl :: "'h ide \<Rightarrow> nat \<Rightarrow> (ide_ctrl \<Rightarrow> ide_ctrl) \<Rightarrow> 'h ide option" where
  "set_ctrl s c f = do { x \<leftarrow> ctrl_at s c; Some (s\<lparr>controllers := (controllers s)[c := f x]\<rparr>) }"

definition disk_at :: "'h ide \<Rightarrow> nat \<Rightarrow> nat \<Rightarrow> ide_disk option" where
  "disk_at s c d = do { x \<leftarrow> ctrl_at s c; aget (ct_disks x) d }"

definition set_disk :: "'h ide \<Rightarrow> nat \<Rightarrow> nat \<Rightarrow> (ide_disk \<Rightarrow> ide_disk) \<Rightarrow> 'h ide option" where
  "set_disk s c d f = do { x \<leftarrow> disk_at s c d; set_ctrl s c (\<lambda>y. y\<lparr>ct_disks := (ct_disks y)[d := f x]\<rparr>) }"

definition inb :: "'h bus \<Rightarrow> 'h ide \<Rightarrow> u32 \<Rightarrow> u8 \<times> 'h ide" where
  "inb b s port = (let (v, h) = bus_inb b port (hw s) in (v, s\<lparr>hw := h\<rparr>))"

definition inw :: "'h bus \<Rightarrow> 'h ide \<Rightarrow> u32 \<Rightarrow> u16 \<times> 'h ide" where
  "inw b s port = (let (v, h) = bus_inw b port (hw s) in (v, s\<lparr>hw := h\<rparr>))"

definition outb :: "'h bus \<Rightarrow> 'h ide \<Rightarrow> u32 \<Rightarrow> u8 \<Rightarrow> 'h ide" where
  "outb b s port v = s\<lparr>hw := bus_outb b port v (hw s)\<rparr>"

definition outw :: "'h bus \<Rightarrow> 'h ide \<Rightarrow> u32 \<Rightarrow> u16 \<Rightarrow> 'h ide" where
  "outw b s port v = s\<lparr>hw := bus_outw b port v (hw s)\<rparr>"

definition load16 :: "mem \<Rightarrow> u32 \<Rightarrow> u16" where
  "load16 m a = ucast (m a) OR push_bit 8 (ucast (m (a + 1)))"

definition store16 :: "mem \<Rightarrow> u32 \<Rightarrow> u16 \<Rightarrow> mem" where
  "store16 m a w = m(a := ucast w, a + 1 := ucast (drop_bit 8 w))"

section \<open>The controller\<close>

definition ide_handler :: "'h bus \<Rightarrow> u32 \<Rightarrow> 'h ide \<Rightarrow> 'h ide option" where
  "ide_handler b vector s = do {
     let s = s\<lparr>hw := send_eoi b vector (hw s)\<rparr>;
     let c = unat (vector - IRQ_HARDDISK - 0x20);
     x \<leftarrow> ctrl_at s c;
     let (state, s) = inb b s (ct_iobase x + IDE_STATUS);
     case ct_waiter x of
       None \<Rightarrow> Some s
     | Some n \<Rightarrow> do {
         k \<leftarrow> task_intr_unblock_no_waiting_list (id_kern s) n;
         set_ctrl (s\<lparr>id_kern := k\<rparr>) c (\<lambda>x. x\<lparr>ct_waiter := None\<rparr>) } }"

text \<open>The error register is read, and its bits only logged.\<close>

definition ide_error :: "'h bus \<Rightarrow> u32 \<Rightarrow> 'h ide \<Rightarrow> 'h ide" where
  "ide_error b iobase s = snd (inb b s (iobase + IDE_ERR))"

partial_function (option) ide_busy_wait :: "'h bus \<Rightarrow> u32 \<Rightarrow> u8 \<Rightarrow> 'h ide \<Rightarrow> 'h ide option" where
  "ide_busy_wait b iobase wanted s =
     (let (state, s) = inb b s (iobase + IDE_ALT_STATUS);
          s = (if state AND IDE_SR_ERR \<noteq> 0 then ide_error b iobase s else s)
      in if state AND IDE_SR_BSY \<noteq> 0 then ide_busy_wait b iobase wanted s
         else if state AND wanted = wanted then Some s
         else ide_busy_wait b iobase wanted s)"

definition ide_reset_controller :: "'h bus \<Rightarrow> ('h ide \<Rightarrow> 'h ide option) \<Rightarrow> 'h ide \<Rightarrow> nat \<Rightarrow> 'h ide option" where
  "ide_reset_controller b delay s c = do {
     x \<leftarrow> ctrl_at s c;
     s \<leftarrow> delay (outb b s (ct_iobase x + IDE_CONTROL) IDE_CTRL_SRST);
     x \<leftarrow> ctrl_at s c;
     ide_busy_wait b (ct_iobase x) IDE_SR_NULL (outb b s (ct_iobase x + IDE_CONTROL) (ct_control x)) }"

definition ide_select_drive :: "'h bus \<Rightarrow> 'h ide \<Rightarrow> nat \<Rightarrow> nat \<Rightarrow> 'h ide option" where
  "ide_select_drive b s c d = do {
     x \<leftarrow> ctrl_at s c;
     disk \<leftarrow> aget (ct_disks x) d;
     set_ctrl (outb b s (ct_iobase x + IDE_HDDEVSEL) (dk_selector disk)) c (\<lambda>x. x\<lparr>ct_active := Some d\<rparr>) }"

definition ide_select_sector :: "'h bus \<Rightarrow> 'h ide \<Rightarrow> nat \<Rightarrow> nat \<Rightarrow> u32 \<Rightarrow> u8 \<Rightarrow> 'h ide option" where
  "ide_select_sector b s c d lba count = do {
     x \<leftarrow> ctrl_at s c;
     disk \<leftarrow> aget (ct_disks x) d;
     let io = ct_iobase x;
     let s = outb b s (io + IDE_SECTOR) count;
     let s = outb b s (io + IDE_LBA_LOW) (ucast (lba AND 0xFF));
     let s = outb b s (io + IDE_LBA_MID) (ucast (drop_bit 8 lba AND 0xFF));
     let s = outb b s (io + IDE_LBA_HIGH) (ucast (drop_bit 16 lba AND 0xFF));
     let s = outb b s (io + IDE_HDDEVSEL) (ucast ((drop_bit 24 lba AND 0xF) OR ucast (dk_selector disk)));
     set_ctrl s c (\<lambda>x. x\<lparr>ct_active := Some d\<rparr>) }"

fun pio_in :: "'h bus \<Rightarrow> u32 \<Rightarrow> u32 \<Rightarrow> nat \<Rightarrow> 'h ide \<Rightarrow> 'h ide" where
  "pio_in b port buf 0 s = s"
| "pio_in b port buf (Suc n) s =
     (let (w, s) = inw b s port in pio_in b port (buf + 2) n (s\<lparr>id_mem := store16 (id_mem s) buf w\<rparr>))"

fun pio_out :: "'h bus \<Rightarrow> u32 \<Rightarrow> u32 \<Rightarrow> nat \<Rightarrow> 'h ide \<Rightarrow> 'h ide" where
  "pio_out b port buf 0 s = s"
| "pio_out b port buf (Suc n) s = pio_out b port (buf + 2) n (outw b s port (load16 (id_mem s) buf))"

definition ide_pio_read_sector :: "'h bus \<Rightarrow> 'h ide \<Rightarrow> nat \<Rightarrow> nat \<Rightarrow> u32 \<Rightarrow> 'h ide option" where
  "ide_pio_read_sector b s c d buf = do {
     x \<leftarrow> ctrl_at s c;
     disk \<leftarrow> aget (ct_disks x) d;
     Some (pio_in b (ct_iobase x + IDE_DATA) buf (unat (dk_sector_size disk div 2)) s) }"

definition ide_pio_write_sector :: "'h bus \<Rightarrow> 'h ide \<Rightarrow> nat \<Rightarrow> nat \<Rightarrow> u32 \<Rightarrow> 'h ide option" where
  "ide_pio_write_sector b s c d buf = do {
     x \<leftarrow> ctrl_at s c;
     disk \<leftarrow> aget (ct_disks x) d;
     Some (pio_out b (ct_iobase x + IDE_DATA) buf (unat (dk_sector_size disk div 2)) s) }"


section \<open>Transfers\<close>

text \<open>A task other than the idle task sleeps until the controller is ready for the next sector.\<close>

definition ide_sleep :: "u32 \<Rightarrow> ('h ide \<Rightarrow> 'h ide option) \<Rightarrow> 'h ide \<Rightarrow> nat \<Rightarrow> nat \<Rightarrow> u32 \<Rightarrow> 'h ide option" where
  "ide_sleep resume elapse s c me pid =
     (if pid \<noteq> 0 then do {
        s \<leftarrow> set_ctrl s c (\<lambda>x. x\<lparr>ct_waiter := Some me\<rparr>);
        k \<leftarrow> task_block resume (id_kern s) me None TASK_BLOCKED;
        elapse (s\<lparr>id_kern := k\<rparr>) }
      else Some s)"

fun ide_read_sectors :: "'h bus \<Rightarrow> u32 \<Rightarrow> ('h ide \<Rightarrow> 'h ide option) \<Rightarrow> nat \<Rightarrow> nat \<Rightarrow> nat \<Rightarrow> u32 \<Rightarrow> u32 \<Rightarrow> nat list \<Rightarrow> 'h ide \<Rightarrow> 'h ide option" where
  "ide_read_sectors b resume elapse c d me pid buf [] s = Some s"
| "ide_read_sectors b resume elapse c d me pid buf (i # is) s = do {
     s \<leftarrow> ide_sleep resume elapse s c me pid;
     x \<leftarrow> ctrl_at s c;
     s \<leftarrow> ide_busy_wait b (ct_iobase x) IDE_SR_DRQ s;
     s \<leftarrow> ide_pio_read_sector b s c d (buf + of_nat i * SECTOR_SIZE);
     ide_read_sectors b resume elapse c d me pid buf is s }"

fun ide_write_sectors :: "'h bus \<Rightarrow> u32 \<Rightarrow> ('h ide \<Rightarrow> 'h ide option) \<Rightarrow> nat \<Rightarrow> nat \<Rightarrow> nat \<Rightarrow> u32 \<Rightarrow> u32 \<Rightarrow> nat list \<Rightarrow> 'h ide \<Rightarrow> 'h ide option" where
  "ide_write_sectors b resume elapse c d me pid buf [] s = Some s"
| "ide_write_sectors b resume elapse c d me pid buf (i # is) s = do {
     s \<leftarrow> ide_pio_write_sector b s c d (buf + of_nat i * SECTOR_SIZE);
     s \<leftarrow> ide_sleep resume elapse s c me pid;
     x \<leftarrow> ctrl_at s c;
     s \<leftarrow> ide_busy_wait b (ct_iobase x) IDE_SR_NULL s;
     ide_write_sectors b resume elapse c d me pid buf is s }"

text \<open>
  \<^verbatim>\<open>mutex_lock\<close> and \<^verbatim>\<open>mutex_unlock\<close> on the lock of a controller. The first may never return. Waking a task can let it run at
  once.
\<close>

partial_function (option) ide_lock :: "u32 \<Rightarrow> ('h ide \<Rightarrow> 'h ide option) \<Rightarrow> nat \<Rightarrow> nat \<Rightarrow> 'h ide \<Rightarrow> 'h ide option" where
  "ide_lock resume elapse c me s = do {
     x \<leftarrow> ctrl_at s c;
     let (v, ok) = cmpxchg01 (ct_value x);
     if ok then set_ctrl s c (\<lambda>x. x\<lparr>ct_value := v\<rparr>)
     else do {
       k \<leftarrow> task_block resume (id_kern s) me (Some (ct_waiters x)) TASK_BLOCKED;
       s \<leftarrow> elapse (s\<lparr>id_kern := k\<rparr>);
       ide_lock resume elapse c me s } }"

definition ide_unlock :: "u32 \<Rightarrow> ('h ide \<Rightarrow> 'h ide option) \<Rightarrow> nat \<Rightarrow> 'h ide \<Rightarrow> 'h ide option" where
  "ide_unlock resume elapse c s = do {
     let me = cur (id_kern s);
     x \<leftarrow> ctrl_at s c;
     s \<leftarrow> set_ctrl s c (\<lambda>x. x\<lparr>ct_value := ct_value x - 1\<rparr>);
     k \<leftarrow> task_unblock resume (id_kern s) (ct_waiters x);
     if cur k = me then Some (s\<lparr>id_kern := k\<rparr>) else elapse (s\<lparr>id_kern := k\<rparr>) }"

text \<open>Up to the command: the lock, the drive, its readiness, the sector registers.\<close>

definition ide_command :: "'h bus \<Rightarrow> u32 \<Rightarrow> ('h ide \<Rightarrow> 'h ide option) \<Rightarrow> 'h ide \<Rightarrow> nat \<Rightarrow> nat \<Rightarrow> u32 \<Rightarrow> u8 \<Rightarrow> u8 \<Rightarrow> 'h ide option" where
  "ide_command b resume elapse s c d lba count cmd = do {
     kassert (count > 0);
     kassert (\<not> get_interrupt_state (id_kern s));
     s \<leftarrow> ide_lock resume elapse c (cur (id_kern s)) s;
     s \<leftarrow> ide_select_drive b s c d;
     x \<leftarrow> ctrl_at s c;
     s \<leftarrow> ide_busy_wait b (ct_iobase x) IDE_SR_DRDY s;
     s \<leftarrow> ide_select_sector b s c d lba count;
     Some (outb b s (ct_iobase x + IDE_COMMAND) cmd) }"

definition ide_pio_read :: "'h bus \<Rightarrow> u32 \<Rightarrow> ('h ide \<Rightarrow> 'h ide option) \<Rightarrow> 'h ide \<Rightarrow> nat \<Rightarrow> nat \<Rightarrow> u32 \<Rightarrow> u8 \<Rightarrow> u32 \<Rightarrow> (u32 \<times> 'h ide) option" where
  "ide_pio_read b resume elapse s c d buf count lba = do {
     s \<leftarrow> ide_command b resume elapse s c d lba count IDE_CMD_READ;
     t \<leftarrow> get_current (id_kern s);
     s \<leftarrow> ide_read_sectors b resume elapse c d (cur (id_kern s)) (t_pid t) buf [0..<unat count] s;
     s \<leftarrow> ide_unlock resume elapse c s;
     Some (0, s) }"

definition ide_pio_write :: "'h bus \<Rightarrow> u32 \<Rightarrow> ('h ide \<Rightarrow> 'h ide option) \<Rightarrow> 'h ide \<Rightarrow> nat \<Rightarrow> nat \<Rightarrow> u32 \<Rightarrow> u8 \<Rightarrow> u32 \<Rightarrow> (u32 \<times> 'h ide) option" where
  "ide_pio_write b resume elapse s c d buf count lba = do {
     s \<leftarrow> ide_command b resume elapse s c d lba count IDE_CMD_WRITE;
     t \<leftarrow> get_current (id_kern s);
     s \<leftarrow> ide_write_sectors b resume elapse c d (cur (id_kern s)) (t_pid t) buf [0..<unat count] s;
     s \<leftarrow> ide_unlock resume elapse c s;
     Some (0, s) }"

section \<open>Drivers\<close>

definition disk_of :: "u32 \<Rightarrow> nat \<times> nat" where
  "disk_of ptr = (unat ptr div IDE_DISK_NR, unat ptr mod IDE_DISK_NR)"

definition part_of :: "u32 \<Rightarrow> nat \<times> nat \<times> nat" where
  "part_of ptr = (let (c, d) = disk_of (of_nat (unat ptr div IDE_PART_NR)) in (c, d, unat ptr mod IDE_PART_NR))"

definition part_at :: "'h ide \<Rightarrow> u32 \<Rightarrow> (nat \<times> nat \<times> ide_part) option" where
  "part_at s ptr = do { let (c, d, i) = part_of ptr; x \<leftarrow> disk_at s c d; p \<leftarrow> aget (dk_parts x) i; Some (c, d, p) }"

definition ide_pio_ioctl :: "'h ide driver" where
  "ide_pio_ioctl ptr cmd arg flg z s = do {
     x \<leftarrow> disk_at s (fst (disk_of ptr)) (snd (disk_of ptr));
     if cmd = DEV_CMD_SECTOR_START then Some (0, s)
     else if cmd = DEV_CMD_SECTOR_COUNT then Some (dk_total_lba x, s)
     else kpanic }"

definition ide_disk_read :: "'h bus \<Rightarrow> u32 \<Rightarrow> ('h ide \<Rightarrow> 'h ide option) \<Rightarrow> 'h ide driver" where
  "ide_disk_read b resume elapse ptr buf count lba flg s =
     ide_pio_read b resume elapse s (fst (disk_of ptr)) (snd (disk_of ptr)) buf (ucast count) lba"

definition ide_disk_write :: "'h bus \<Rightarrow> u32 \<Rightarrow> ('h ide \<Rightarrow> 'h ide option) \<Rightarrow> 'h ide driver" where
  "ide_disk_write b resume elapse ptr buf count lba flg s =
     ide_pio_write b resume elapse s (fst (disk_of ptr)) (snd (disk_of ptr)) buf (ucast count) lba"

definition ide_pio_part_ioctl :: "'h ide driver" where
  "ide_pio_part_ioctl ptr cmd arg flg z s = do {
     (c, d, p) \<leftarrow> part_at s ptr;
     if cmd = DEV_CMD_SECTOR_START then Some (pt_start p, s)
     else if cmd = DEV_CMD_SECTOR_COUNT then Some (pt_count p, s)
     else kpanic }"

definition ide_pio_part_read :: "'h bus \<Rightarrow> u32 \<Rightarrow> ('h ide \<Rightarrow> 'h ide option) \<Rightarrow> 'h ide driver" where
  "ide_pio_part_read b resume elapse ptr buf count lba flg s = do {
     (c, d, p) \<leftarrow> part_at s ptr;
     ide_pio_read b resume elapse s c d buf (ucast count) (pt_start p + lba) }"

definition ide_pio_part_write :: "'h bus \<Rightarrow> u32 \<Rightarrow> ('h ide \<Rightarrow> 'h ide option) \<Rightarrow> 'h ide driver" where
  "ide_pio_part_write b resume elapse ptr buf count lba flg s = do {
     (c, d, p) \<leftarrow> part_at s ptr;
     ide_pio_write b resume elapse s c d buf (ucast count) (pt_start p + lba) }"

section \<open>Partitions\<close>

record part_entry =
  pe_bootable :: u8
  pe_system :: u8
  pe_start :: u32
  pe_count :: u32

definition part_entry_at :: "mem \<Rightarrow> u32 \<Rightarrow> nat \<Rightarrow> part_entry" where
  "part_entry_at m boot i = (let a = boot + 446 + 16 * of_nat i in
     \<lparr>pe_bootable = m a, pe_system = m (a + 4), pe_start = peek32 m (a + 8), pe_count = peek32 m (a + 12)\<rparr>)"

definition boot_signature :: "mem \<Rightarrow> u32 \<Rightarrow> u16" where
  "boot_signature m boot = load16 m (boot + 510)"

text \<open>
  The boot is the idle task's, so a read in here does not sleep. The buffer for an extended partition is \<^verbatim>\<open>SECTOR_SIZE\<close>
  halfwords behind the first. What is found there is only logged.
\<close>

fun ide_part_entries :: "'h bus \<Rightarrow> u32 \<Rightarrow> ('h ide \<Rightarrow> 'h ide option) \<Rightarrow> nat \<Rightarrow> nat \<Rightarrow> u32 \<Rightarrow> nat list \<Rightarrow> 'h ide \<Rightarrow> 'h ide option" where
  "ide_part_entries b resume elapse c d buf [] s = Some s"
| "ide_part_entries b resume elapse c d buf (i # is) s = do {
     let e = part_entry_at (id_mem s) buf i;
     if pe_count e = 0 then ide_part_entries b resume elapse c d buf is s
     else do {
       s \<leftarrow> set_disk s c d (\<lambda>x. x\<lparr>dk_parts := (dk_parts x)[i := \<lparr>pt_name = dk_name x @ [of_nat i + 49],
              pt_system = ucast (pe_system e), pt_start = pe_start e, pt_count = pe_count e\<rparr>]\<rparr>);
       s \<leftarrow> (if pe_system (part_entry_at (id_mem s) buf i) = PART_FS_EXTENDED
             then map_option snd (ide_pio_read b resume elapse s c d (buf + 2 * SECTOR_SIZE) 1 (pe_start (part_entry_at (id_mem s) buf i)))
             else Some s);
       ide_part_entries b resume elapse c d buf is s } }"

definition ide_part_init :: "'h bus \<Rightarrow> u32 \<Rightarrow> ('h ide \<Rightarrow> 'h ide option) \<Rightarrow> 'h ide \<Rightarrow> nat \<Rightarrow> nat \<Rightarrow> u32 \<Rightarrow> 'h ide option" where
  "ide_part_init b resume elapse s c d buf = do {
     (_, s) \<leftarrow> ide_pio_read b resume elapse s c d buf 1 0;
     if boot_signature (id_mem s) buf \<noteq> 0xAA55 then Some s
     else ide_part_entries b resume elapse c d buf [0..<IDE_PART_NR] s }"

section \<open>Identification\<close>

fun swap_pairs :: "mem \<Rightarrow> u32 \<Rightarrow> nat \<Rightarrow> mem" where
  "swap_pairs m buf 0 = m"
| "swap_pairs m buf (Suc n) = swap_pairs (m(buf := m (buf + 1), buf + 1 := m buf)) (buf + 2) n"

definition ide_fixstrings :: "mem \<Rightarrow> u32 \<Rightarrow> nat \<Rightarrow> mem" where
  "ide_fixstrings m buf len = (swap_pairs m buf ((len + 1) div 2))(buf + of_nat len - 1 := EOS)"

text \<open>The members of \<^verbatim>\<open>ide_params_t\<close> that are used: words 1, 3, 6 and 60, the strings at words 10 and 23.\<close>

definition ide_identify :: "'h bus \<Rightarrow> 'h ide \<Rightarrow> nat \<Rightarrow> nat \<Rightarrow> u32 \<Rightarrow> (u32 \<times> 'h ide) option" where
  "ide_identify b s c d buf = do {
     s \<leftarrow> ide_select_drive b s c d;
     x \<leftarrow> ctrl_at s c;
     let s = outb b s (ct_iobase x + IDE_COMMAND) IDE_CMD_IDENTIFY;
     s \<leftarrow> ide_busy_wait b (ct_iobase x) IDE_SR_NULL s;
     s \<leftarrow> ide_pio_read_sector b s c d buf;
     if peek32 (id_mem s) (buf + 120) = 0 then Some (EOF, s)
     else do {
       let m = ide_fixstrings (id_mem s) (buf + 20) 20;
       let m = ide_fixstrings m (buf + 46) 8;
       let m = ide_fixstrings m (buf + 20) 20;
       s \<leftarrow> set_disk (s\<lparr>id_mem := m\<rparr>) c d (\<lambda>x. x\<lparr>dk_total_lba := peek32 m (buf + 120), dk_cylinders := ucast (load16 m (buf + 2)),
              dk_heads := ucast (load16 m (buf + 6)), dk_sectors := ucast (load16 m (buf + 12))\<rparr>);
       Some (0, s) } }"

fun ide_disks_init :: "'h bus \<Rightarrow> u32 \<Rightarrow> ('h ide \<Rightarrow> 'h ide option) \<Rightarrow> nat \<Rightarrow> u32 \<Rightarrow> nat list \<Rightarrow> 'h ide \<Rightarrow> 'h ide option" where
  "ide_disks_init b resume elapse c buf [] s = Some s"
| "ide_disks_init b resume elapse c buf (d # ds) s = do {
     s \<leftarrow> set_disk s c d (\<lambda>x. x\<lparr>dk_name := [0x68, 0x64, 0x61 + of_nat (c * 2 + d)], dk_sector_size := SECTOR_SIZE,
            dk_selector := (if d \<noteq> 0 then IDE_LBA_SLAVE else IDE_LBA_MASTER), dk_master := (d = 0)\<rparr>);
     (r, s) \<leftarrow> ide_identify b s c d buf;
     s \<leftarrow> (if r = 0 then ide_part_init b resume elapse s c d buf else Some s);
     ide_disks_init b resume elapse c buf ds s }"

fun ide_ctrls_init :: "'h bus \<Rightarrow> u32 \<Rightarrow> ('h ide \<Rightarrow> 'h ide option) \<Rightarrow> u32 \<Rightarrow> nat list \<Rightarrow> 'h ide \<Rightarrow> 'h ide option" where
  "ide_ctrls_init b resume elapse buf [] s = Some s"
| "ide_ctrls_init b resume elapse buf (c # cs) s = do {
     s \<leftarrow> set_ctrl s c (\<lambda>x. x\<lparr>ct_name := [0x69, 0x64, 0x65, 0x30 + of_nat c], ct_value := clear_byte (ct_value x), ct_active := None, ct_waiter := None,
            ct_iobase := (if c \<noteq> 0 then IDE_IOBASE_SECONDARY else IDE_IOBASE_PRIMARY)\<rparr>);
     x \<leftarrow> ctrl_at s c;
     let s = s\<lparr>id_kern := (id_kern s)\<lparr>waiting := (waiting (id_kern s))(ct_waiters x := [])\<rparr>\<rparr>;
     let (v, s) = inb b s (ct_iobase x + IDE_CONTROL);
     s \<leftarrow> set_ctrl s c (\<lambda>x. x\<lparr>ct_control := v\<rparr>);
     s \<leftarrow> ide_disks_init b resume elapse c buf [0..<IDE_DISK_NR] s;
     ide_ctrls_init b resume elapse buf cs s }"

text \<open>\<open>buf\<close> is the page for the sectors, given back at the end.\<close>

definition ide_ctrl_init :: "'h bus \<Rightarrow> u32 \<Rightarrow> ('h ide \<Rightarrow> 'h ide option) \<Rightarrow> u32 \<Rightarrow> 'h ide \<Rightarrow> 'h ide option" where
  "ide_ctrl_init b resume elapse buf s = ide_ctrls_init b resume elapse buf [0..<IDE_CTRL_NR] s"

fun install_parts :: "'h bus \<Rightarrow> u32 \<Rightarrow> ('h ide \<Rightarrow> 'h ide option) \<Rightarrow> nat \<Rightarrow> nat \<Rightarrow> u32 \<Rightarrow> nat list \<Rightarrow> 'h ide devs \<Rightarrow> 'h ide devs option" where
  "install_parts b resume elapse c d parent [] s = Some s"
| "install_parts b resume elapse c d parent (i # is) s = do {
     x \<leftarrow> disk_at (dv_io s) c d;
     p \<leftarrow> aget (dk_parts x) i;
     s \<leftarrow> (if pt_count p = 0 then Some s
           else map_option snd (device_install s DEV_BLOCK DEV_IDE_PART (of_nat ((c * IDE_DISK_NR + d) * IDE_PART_NR + i)) (pt_name p) parent
             (Some ide_pio_part_ioctl) (Some (ide_pio_part_read b resume elapse)) (Some (ide_pio_part_write b resume elapse))));
     install_parts b resume elapse c d parent is s }"

fun ide_install :: "'h bus \<Rightarrow> u32 \<Rightarrow> ('h ide \<Rightarrow> 'h ide option) \<Rightarrow> (nat \<times> nat) list \<Rightarrow> 'h ide devs \<Rightarrow> 'h ide devs option" where
  "ide_install b resume elapse [] s = Some s"
| "ide_install b resume elapse ((c, d) # ds) s = do {
     x \<leftarrow> disk_at (dv_io s) c d;
     if dk_total_lba x = 0 then ide_install b resume elapse ds s
     else do {
       (parent, s) \<leftarrow> device_install s DEV_BLOCK DEV_IDE_DISK (of_nat (c * IDE_DISK_NR + d)) (dk_name x) 0
         (Some ide_pio_ioctl) (Some (ide_disk_read b resume elapse)) (Some (ide_disk_write b resume elapse));
       s \<leftarrow> install_parts b resume elapse c d parent [0..<IDE_PART_NR] s;
       ide_install b resume elapse ds s } }"

definition all_disks :: "(nat \<times> nat) list" where
  "all_disks = [(0, 0), (0, 1), (1, 0), (1, 1)]"

text \<open>\<open>handler\<close> is the address of \<^verbatim>\<open>ide_handler\<close>.\<close>

definition ide_init :: "'h bus \<Rightarrow> u32 \<Rightarrow> ('h ide \<Rightarrow> 'h ide option) \<Rightarrow> u32 \<Rightarrow> u32 \<Rightarrow> 'h ide devs \<Rightarrow> 'h ide devs option" where
  "ide_init b resume elapse handler buf s = do {
     io \<leftarrow> ide_ctrl_init b resume elapse buf (dv_io s);
     t \<leftarrow> set_interrupt_handler IRQ_HARDDISK handler (id_tables io);
     t \<leftarrow> set_interrupt_handler IRQ_HARDDISK2 handler t;
     h \<leftarrow> set_interrupt_mask b IRQ_HARDDISK True (hw io);
     h \<leftarrow> set_interrupt_mask b IRQ_HARDDISK2 True h;
     h \<leftarrow> set_interrupt_mask b IRQ_CASCADE True h;
     ide_install b resume elapse all_disks (s\<lparr>dv_io := io\<lparr>id_tables := t, hw := h\<rparr>\<rparr>) }"


section \<open>Properties\<close>

lemma outb_hw [simp]: "hw (outb b s port v) = bus_outb b port v (hw s)" "controllers (outb b s port v) = controllers s"
  "ctrl_at (outb b s port v) c = ctrl_at s c"
  by (simp_all add: outb_def ctrl_at_def)

lemma lba_parts:
  fixes lba :: u32
  shows "(ucast (ucast (lba AND 0xFF) :: u8) OR push_bit 8 (ucast (ucast (drop_bit 8 lba AND 0xFF) :: u8)) OR
      push_bit 16 (ucast (ucast (drop_bit 16 lba AND 0xFF) :: u8)) OR push_bit 24 (ucast (ucast (drop_bit 24 lba AND 0xF) :: u8)) = lba) = (lba < 2 ^ 28)"
    (is "(?w = lba) = _")
proof -
  have ff: "(0xFF :: u32) = mask 8" "(0xF :: u32) = mask 4" by (simp_all add: mask_eq_exp_minus_1)
  have "?w = take_bit 28 lba"
    unfolding ff by (rule bit_word_eqI) (auto simp: bit_simps split: nat_diff_split)
  moreover have "(take_bit 28 lba = lba) = (lba < 2 ^ 28)"
    by (simp add: word_unat_eq_iff unsigned_take_bit_eq take_bit_nat_eq_self_iff word_less_nat_alt)
  ultimately show ?thesis by simp
qed

text \<open>
  C35. The five registers of a transfer command name the sector: after \<^verbatim>\<open>ide_select_sector\<close> the controller has
  received the count, three bytes and the device register, in that order, whose sector bits give back the sector number exactly when
  it is below 2 to the 28th; the upper bits of the device register are those of the selected drive. From sector 2
  to the 28th on another sector is addressed, silently.
\<close>

theorem ide_lba_registers:
  assumes "ctrl_at s c = Some x" "aget (ct_disks x) d = Some disk" "dk_selector disk AND 0xF = 0"
  shows "\<exists>l m h v s'. ide_select_sector b s c d lba count = Some s' \<and>
     hw s' = bus_outb b (ct_iobase x + 6) v (bus_outb b (ct_iobase x + 5) h (bus_outb b (ct_iobase x + 4) m
       (bus_outb b (ct_iobase x + 3) l (bus_outb b (ct_iobase x + 2) count (hw s))))) \<and>
     (ucast l OR push_bit 8 (ucast m) OR push_bit 16 (ucast h) OR push_bit 24 (ucast (v AND 0xF)) = lba \<longleftrightarrow> lba < 2 ^ 28) \<and>
     v AND 0xF0 = dk_selector disk"
proof -
  let ?t = "ucast (drop_bit 24 lba AND 0xF) :: u8" and ?sel = "dk_selector disk"
  define v where "v = (ucast ((drop_bit 24 lba AND 0xF) OR ucast ?sel) :: u8)"
  have v: "v = ?t OR ?sel" unfolding v_def by (rule bit_word_eqI) (auto simp: bit_simps)
  have f: "(0xF :: u8) = mask 4" "(0xF :: u32) = mask 4" by (simp_all add: mask_eq_exp_minus_1)
  have sel: "\<not> bit ?sel i" if "i < 4" for i
  proof -
    have "bit (?sel AND mask 4) i = bit (0 :: u8) i" using assms(3) by (simp only: f)
    then show ?thesis using that by (simp add: bit_simps)
  qed
  have v1: "v AND 0xF = ?t" unfolding v f by (rule bit_word_eqI) (auto simp: bit_simps sel)
  have f0: "(0xF0 :: u8) = NOT (mask 4)" by (simp add: mask_eq_exp_minus_1)
  have v2: "v AND 0xF0 = ?sel" unfolding v f0 f(2)
    by (rule bit_word_eqI) (use sel in \<open>auto simp: bit_simps not_less [symmetric]\<close>)
  obtain s' where s': "ide_select_sector b s c d lba count = Some s'"
     "hw s' = bus_outb b (ct_iobase x + 6) v (bus_outb b (ct_iobase x + 5) (ucast (drop_bit 16 lba AND 0xFF)) (bus_outb b (ct_iobase x + 4) (ucast (drop_bit 8 lba AND 0xFF))
       (bus_outb b (ct_iobase x + 3) (ucast (lba AND 0xFF)) (bus_outb b (ct_iobase x + 2) count (hw s)))))"
    using assms(1,2) by (simp add: ide_select_sector_def set_ctrl_def v_def Let_def
        IDE_SECTOR_def IDE_LBA_LOW_def IDE_LBA_MID_def IDE_LBA_HIGH_def IDE_HDDEVSEL_def)
  show ?thesis
    by (rule exI [of _ "ucast (lba AND 0xFF)"], rule exI [of _ "ucast (drop_bit 8 lba AND 0xFF)"], rule exI [of _ "ucast (drop_bit 16 lba AND 0xFF)"],
        rule exI [of _ v], rule exI [of _ s']) (use s' v2 lba_parts [of lba] in \<open>simp add: v1\<close>)
qed


text \<open>A bus that writes down what the ports receive, and a controller with two disks.\<close>

definition log_bus :: "(u32 \<times> u8) list bus" where
  "log_bus = \<lparr>bus_inb = (\<lambda>p h. (0x50, h)), bus_inw = (\<lambda>p h. (0, h)), bus_outb = (\<lambda>p v h. h @ [(p, v)]), bus_outw = (\<lambda>p v h. h)\<rparr>"

definition no_tables :: "unit intr" where
  "no_tables = \<lparr>it_hw = (), idt = replicate 256 (make_gate 0 0), trap_handler_table = replicate 48 0, idt_base = 0, idt_limit = 0, it_counter = 0\<rparr>"

definition demo_disk :: "u8 \<Rightarrow> ide_disk" where
  "demo_disk sel = \<lparr>dk_name = [0x68, 0x64, 0x61], dk_selector = sel, dk_master = True, dk_total_lba = 100, dk_cylinders = 0, dk_heads = 0,
     dk_sectors = 0, dk_sector_size = 512, dk_parts = []\<rparr>"

definition demo_ide :: "(u32 \<times> u8) list ide" where
  "demo_ide = \<lparr>hw = [], controllers = [\<lparr>ct_name = [], ct_value = 0, ct_waiters = 0x100, ct_iobase = IDE_IOBASE_PRIMARY, ct_disks = [demo_disk IDE_LBA_MASTER, demo_disk IDE_LBA_SLAVE],
     ct_active = None, ct_control = 0, ct_waiter = None\<rparr>], id_kern = no_tasks, id_mem = (\<lambda>_. 0), id_tables = no_tables\<rparr>"

lemma ide_lba_registers_witness:
  "\<exists>(l :: u8) (m :: u8) (h :: u8) v s'. ide_select_sector log_bus demo_ide 0 1 0x1234567 8 = Some s' \<and> map fst (hw s') = [0x1F2, 0x1F3, 0x1F4, 0x1F5, 0x1F6] \<and>
     ucast l OR push_bit 8 (ucast m) OR push_bit 16 (ucast h) OR push_bit 24 (ucast (v AND 0xF)) = (0x1234567 :: u32) \<and>
     snd (last (hw s')) = v \<and> v AND 0xF0 = IDE_LBA_SLAVE"
proof -
  have c: "ctrl_at demo_ide 0 = Some (controllers demo_ide ! 0)" "aget (ct_disks (controllers demo_ide ! 0)) 1 = Some (demo_disk IDE_LBA_SLAVE)"
      "dk_selector (demo_disk IDE_LBA_SLAVE) AND 0xF = 0"
    by (simp_all add: ctrl_at_def demo_ide_def aget_def demo_disk_def IDE_LBA_SLAVE_def)
  have io: "ct_iobase (controllers demo_ide ! 0) = 0x1F0" "hw demo_ide = []" "dk_selector (demo_disk IDE_LBA_SLAVE) = IDE_LBA_SLAVE"
    by (simp_all add: demo_ide_def IDE_IOBASE_PRIMARY_def demo_disk_def)
  obtain l m h v s' where r: "ide_select_sector log_bus demo_ide 0 1 0x1234567 8 = Some s'"
     "hw s' = bus_outb log_bus (0x1F0 + 6) v (bus_outb log_bus (0x1F0 + 5) h (bus_outb log_bus (0x1F0 + 4) m
       (bus_outb log_bus (0x1F0 + 3) l (bus_outb log_bus (0x1F0 + 2) 8 []))))"
     "ucast l OR push_bit 8 (ucast m) OR push_bit 16 (ucast h) OR push_bit 24 (ucast (v AND 0xF)) = (0x1234567 :: u32) \<longleftrightarrow> (0x1234567 :: u32) < 2 ^ 28"
     "v AND 0xF0 = IDE_LBA_SLAVE"
    using ide_lba_registers [OF c, of log_bus "0x1234567" 8] unfolding io by blast
  have "hw s' = [(0x1F2, 8), (0x1F3, l), (0x1F4, m), (0x1F5, h), (0x1F6, v)]" unfolding r(2) by (simp add: log_bus_def)
  then show ?thesis using r(1,3,4) by (intro exI [of _ l] exI [of _ m] exI [of _ h] exI [of _ v] exI [of _ s']) simp
qed

lemma load_store16 [simp]: "load16 (store16 m a w) a = w"
  by (rule bit_word_eqI) (auto simp: load16_def store16_def bit_simps)

lemma store_bytes16: "ucast (load16 m a) = m a" "ucast (drop_bit 8 (load16 m a)) = m (a + 1)"
  by (rule bit_word_eqI, auto simp: load16_def bit_simps dest: bit_imp_le_length)+

text \<open>The words that \<open>pio_out\<close> sends, and the memory that \<open>pio_in\<close> fills from a queue of words.\<close>

definition words_at :: "mem \<Rightarrow> u32 \<Rightarrow> nat \<Rightarrow> u16 list" where
  "words_at m a n = map (\<lambda>i. load16 m (a + 2 * of_nat i)) [0..<n]"

lemma words_at_Suc: "words_at m a (Suc n) = load16 m a # words_at m (a + 2) n"
proof -
  have "[0..<Suc n] = 0 # map Suc [0..<n]" by (simp add: map_Suc_upt upt_conv_Cons del: upt_Suc)
  then show ?thesis by (simp add: words_at_def algebra_simps del: upt_Suc)
qed

lemma pio_out_queue:
  assumes "\<And>h w. q (bus_outw b port w h) = q h @ [w]"
  shows "q (hw (pio_out b port a n s)) = q (hw s) @ words_at (id_mem s) a n \<and> id_mem (pio_out b port a n s) = id_mem s"
proof (induction n arbitrary: a s)
  case 0
  then show ?case by (simp add: words_at_def)
next
  case (Suc n)
  then show ?case using assms by (simp add: words_at_Suc outw_def)
qed

lemma pio_in_queue:
  assumes "\<And>h w ws. q h = w # ws \<Longrightarrow> fst (bus_inw b port h) = w \<and> q (snd (bus_inw b port h)) = ws"
  shows "length ws = n \<Longrightarrow> q (hw s) = ws @ rest \<Longrightarrow> 2 * n \<le> 2 ^ 32 \<Longrightarrow>
    words_at (id_mem (pio_in b port a n s)) a n = ws \<and> q (hw (pio_in b port a n s)) = rest \<and>
    (\<forall>x. x \<notin> region a (2 * n) \<longrightarrow> id_mem (pio_in b port a n s) x = id_mem s x)"
proof (induction n arbitrary: a s ws)
  case 0
  then show ?case by (simp add: words_at_def)
next
  case (Suc n)
  from Suc.prems(1) obtain w vs where ws: "ws = w # vs" "length vs = n" by (cases ws) auto
  define h where "h = snd (bus_inw b port (hw s))"
  have h: "fst (bus_inw b port (hw s)) = w" "q h = vs @ rest" using assms Suc.prems(2) by (simp_all add: ws h_def)
  define s1 where "s1 = s\<lparr>hw := h, id_mem := store16 (id_mem s) a w\<rparr>"
  have run: "pio_in b port a (Suc n) s = pio_in b port (a + 2) n s1"
    using h(1) by (simp add: inw_def s1_def h_def case_prod_unfold Let_def)
  have IH: "words_at (id_mem (pio_in b port (a + 2) n s1)) (a + 2) n = vs" "q (hw (pio_in b port (a + 2) n s1)) = rest"
    "\<And>x. x \<notin> region (a + 2) (2 * n) \<Longrightarrow> id_mem (pio_in b port (a + 2) n s1) x = store16 (id_mem s) a w x"
    using Suc.IH [OF ws(2), of s1 "a + 2"] h(2) Suc.prems(3) by (simp_all add: s1_def)
  have out: "a \<notin> region (a + 2) (2 * n)" "a + 1 \<notin> region (a + 2) (2 * n)"
  proof -
    have "(of_nat j :: u32) \<noteq> 0" if "0 < j" "j < 2 * Suc n" for j
    proof -
      have "j < 2 ^ 32" using that(2) Suc.prems(3) by simp
      then have "unat (of_nat j :: u32) = j" by (intro unat_of_nat_less) simp
      then show ?thesis using that(1) by auto
    qed
    note nz = this
    show "a \<notin> region (a + 2) (2 * n)"
    proof
      assume "a \<in> region (a + 2) (2 * n)"
      then obtain i where i: "i < 2 * n" "a = a + 2 + of_nat i" by (auto simp: region_iff)
      then have "(of_nat (i + 2) :: u32) = 0" by (simp add: algebra_simps)
      then show False using nz [of "i + 2"] i(1) by simp
    qed
    show "a + 1 \<notin> region (a + 2) (2 * n)"
    proof
      assume "a + 1 \<in> region (a + 2) (2 * n)"
      then obtain i where i: "i < 2 * n" "a + 1 = a + 2 + of_nat i" by (auto simp: region_iff)
      then have "(of_nat (i + 1) :: u32) = 0" by (simp add: algebra_simps)
      then show False using nz [of "i + 1"] i(1) by simp
    qed
  qed
  have "load16 (id_mem (pio_in b port (a + 2) n s1)) a = load16 (store16 (id_mem s) a w) a"
    using IH(3) out unfolding load16_def by simp
  then have first: "load16 (id_mem (pio_in b port (a + 2) n s1)) a = w" by simp
  have "id_mem (pio_in b port (a + 2) n s1) x = id_mem s x" if "x \<notin> region a (2 * Suc n)" for x
  proof -
    have "region a (2 * Suc n) = insert a (insert (a + 1) (region (a + 2) (2 * n)))" by (simp add: add.assoc)
    then have "x \<noteq> a" "x \<noteq> a + 1" "x \<notin> region (a + 2) (2 * n)" using that by blast+
    then show ?thesis using IH(3) by (simp add: store16_def)
  qed
  then show ?case unfolding run words_at_Suc ws(1) using IH(1,2) first by blast
qed


lemma pio_out_ctrl [simp]: "controllers (pio_out b port a n s) = controllers s"
  by (induction n arbitrary: a s) (simp_all add: outw_def)

text \<open>
  A sector goes through the data port unchanged: on a controller whose data port is a queue of words, the 256
  words written from one address are the 256 words read to another, in order, and nothing else in memory changes.
\<close>

lemma ide_sector_transfer:
  assumes disk: "ctrl_at s c = Some x" "aget (ct_disks x) d = Some disk" "dk_sector_size disk = SECTOR_SIZE"
    and out: "\<forall>h w. q (bus_outw b (ct_iobase x + IDE_DATA) w h) = q h @ [w]"
    and in': "\<forall>h w ws. q h = w # ws \<longrightarrow> fst (bus_inw b (ct_iobase x + IDE_DATA) h) = w \<and> q (snd (bus_inw b (ct_iobase x + IDE_DATA) h)) = ws"
    and empty: "q (hw s) = []"
  shows "\<exists>s1 s2. ide_pio_write_sector b s c d src = Some s1 \<and> ide_pio_read_sector b s1 c d dst = Some s2 \<and>
     words_at (id_mem s2) dst 256 = words_at (id_mem s) src 256 \<and> q (hw s2) = [] \<and>
     (\<forall>y. y \<notin> region dst 512 \<longrightarrow> id_mem s2 y = id_mem s y)"
proof -
  let ?p = "ct_iobase x + IDE_DATA"
  define s1 where "s1 = pio_out b ?p src 256 s"
  define s2 where "s2 = pio_in b ?p dst 256 s1"
  have sz: "unat (dk_sector_size disk div 2) = 256" by (simp add: disk(3) SECTOR_SIZE_def)
  have o: "q (hw s1) = words_at (id_mem s) src 256" "id_mem s1 = id_mem s"
    using pio_out_queue [of q b ?p src 256 s] out empty by (simp_all add: s1_def del: pio_out.simps)
  have pop: "fst (bus_inw b ?p h) = w \<and> q (snd (bus_inw b ?p h)) = ws" if "q h = w # ws" for h w ws using in' that by blast
  have len: "length (words_at (id_mem s) src 256) = 256" by (simp add: words_at_def)
  have i: "words_at (id_mem s2) dst 256 = words_at (id_mem s) src 256" "q (hw s2) = []" "\<And>y. y \<notin> region dst (2 * 256) \<Longrightarrow> id_mem s2 y = id_mem s1 y"
    using pio_in_queue [of q b ?p, OF pop len, of s1 "[]" dst] o unfolding s2_def [symmetric] by simp_all
  have "controllers s1 = controllers s" by (simp add: s1_def del: pio_out.simps)
  then have "ctrl_at s1 c = Some x" using disk(1) by (simp add: ctrl_at_def)
  then have "ide_pio_read_sector b s1 c d dst = Some s2" using disk(2) sz by (simp add: ide_pio_read_sector_def s2_def del: pio_in.simps)
  moreover have "ide_pio_write_sector b s c d src = Some s1" using disk(1,2) sz by (simp add: ide_pio_write_sector_def s1_def del: pio_out.simps)
  ultimately show ?thesis using i o(2) by auto
qed

definition fifo_bus :: "u16 list bus" where
  "fifo_bus = \<lparr>bus_inb = (\<lambda>p h. (0x50, h)), bus_inw = (\<lambda>p h. (hd h, tl h)), bus_outb = (\<lambda>p v h. h), bus_outw = (\<lambda>p w h. h @ [w])\<rparr>"

definition demo_fifo :: "u16 list ide" where
  "demo_fifo = \<lparr>hw = [], controllers = [\<lparr>ct_name = [], ct_value = 0, ct_waiters = 0x100, ct_iobase = IDE_IOBASE_PRIMARY, ct_disks = [demo_disk IDE_LBA_MASTER],
     ct_active = None, ct_control = 0, ct_waiter = None\<rparr>], id_kern = no_tasks, id_mem = (\<lambda>a. ucast a), id_tables = no_tables\<rparr>"

lemma ide_sector_transfer_witness:
  "\<exists>s1 s2. ide_pio_write_sector fifo_bus demo_fifo 0 0 0x1002 = Some s1 \<and> ide_pio_read_sector fifo_bus s1 0 0 0x2000 = Some s2 \<and>
     hw s2 = [] \<and> id_mem s2 0x3000 = 0 \<and> words_at (id_mem s2) 0x2000 256 = words_at (id_mem demo_fifo) 0x1002 256 \<and> load16 (id_mem demo_fifo) 0x1002 = 0x0302"
proof -
  let ?x = "controllers demo_fifo ! 0"
  have d: "ctrl_at demo_fifo 0 = Some ?x" "aget (ct_disks ?x) 0 = Some (demo_disk IDE_LBA_MASTER)" "dk_sector_size (demo_disk IDE_LBA_MASTER) = SECTOR_SIZE"
    by (simp_all add: ctrl_at_def demo_fifo_def aget_def demo_disk_def SECTOR_SIZE_def)
  have h: "\<forall>h w. id (bus_outw fifo_bus (ct_iobase ?x + IDE_DATA) w h) = id h @ [w]"
    "\<forall>h w ws. id h = w # ws \<longrightarrow> fst (bus_inw fifo_bus (ct_iobase ?x + IDE_DATA) h) = w \<and> id (snd (bus_inw fifo_bus (ct_iobase ?x + IDE_DATA) h)) = ws"
    "id (hw demo_fifo) = []" by (simp_all add: fifo_bus_def demo_fifo_def)
  obtain s1 s2 where r: "ide_pio_write_sector fifo_bus demo_fifo 0 0 0x1002 = Some s1" "ide_pio_read_sector fifo_bus s1 0 0 0x2000 = Some s2"
     "words_at (id_mem s2) 0x2000 256 = words_at (id_mem demo_fifo) 0x1002 256" "hw s2 = []"
     "\<forall>y. y \<notin> region 0x2000 512 \<longrightarrow> id_mem s2 y = id_mem demo_fifo y"
    using ide_sector_transfer [OF d h, of "0x1002" "0x2000"] by auto
  have "0x3000 \<notin> region 0x2000 512"
  proof
    assume "0x3000 \<in> region 0x2000 512"
    then obtain i where i: "i < 512" "(0x3000 :: u32) = 0x2000 + of_nat i" unfolding region_iff by blast
    then have "(of_nat i :: u32) = 0x1000" by (simp add: eq_diff_eq [symmetric] algebra_simps)
    then have "unat (of_nat i :: u32) = 0x1000" by simp
    then show False using i(1) by simp
  qed
  then have "id_mem s2 0x3000 = 0" using r(5) by (simp add: demo_fifo_def)
  moreover have "load16 (id_mem demo_fifo) 0x1002 = 0x0302" by (simp add: load16_def demo_fifo_def)
  ultimately show ?thesis using r(1-4) by blast
qed

text \<open>
  A disk that reports an error instead of data is waited for without end: the wait returns only with the bits it wants.
\<close>

lemma ide_busy_wait_returns:
  assumes "ide_busy_wait b io wanted s = Some s'"
  shows "\<exists>h. fst (bus_inb b (io + IDE_ALT_STATUS) h) AND wanted = wanted \<and> fst (bus_inb b (io + IDE_ALT_STATUS) h) AND IDE_SR_BSY = 0"
proof (rule ide_busy_wait.raw_induct [OF _ assms, where P = "\<lambda>b io wanted s s'. \<exists>h. fst (bus_inb b (io + IDE_ALT_STATUS) h) AND wanted = wanted \<and>
      fst (bus_inb b (io + IDE_ALT_STATUS) h) AND IDE_SR_BSY = 0"])
  fix w and b :: "'h bus" and io wanted s s'
  assume IH: "\<And>b io wanted s s'. w b io wanted s = Some s' \<Longrightarrow> \<exists>h. fst (bus_inb b (io + IDE_ALT_STATUS) h) AND wanted = wanted \<and>
      fst (bus_inb b (io + IDE_ALT_STATUS) h) AND IDE_SR_BSY = 0"
    and run: "(let (state, s) = inb b s (io + IDE_ALT_STATUS);
          s = (if state AND IDE_SR_ERR \<noteq> 0 then ide_error b io s else s)
      in if state AND IDE_SR_BSY \<noteq> 0 then w b io wanted s else if state AND wanted = wanted then Some s else w b io wanted s) = Some s'"
  show "\<exists>h. fst (bus_inb b (io + IDE_ALT_STATUS) h) AND wanted = wanted \<and> fst (bus_inb b (io + IDE_ALT_STATUS) h) AND IDE_SR_BSY = 0"
    using run IH by (auto simp: inb_def Let_def case_prod_unfold split: if_splits)
qed

lemma ide_error_hangs:
  assumes "\<forall>h. fst (bus_inb b (io + IDE_ALT_STATUS) h) AND IDE_SR_DRQ = 0"
  shows "ide_busy_wait b io IDE_SR_DRQ s = None"
proof (rule ccontr)
  assume "ide_busy_wait b io IDE_SR_DRQ s \<noteq> None"
  then obtain s' where "ide_busy_wait b io IDE_SR_DRQ s = Some s'" by auto
  then obtain h where "fst (bus_inb b (io + IDE_ALT_STATUS) h) AND IDE_SR_DRQ = IDE_SR_DRQ" using ide_busy_wait_returns by blast
  then show False using assms by (simp add: IDE_SR_DRQ_def)
qed

text \<open>
  The serial number of a disk is put into byte order twice, which undoes it: the first 18 bytes are those the disk
  sent. The model number is not touched.
\<close>

definition flip_pair :: "nat \<Rightarrow> nat" where
  "flip_pair j = (if even j then j + 1 else j - 1)"

lemma offset_eq: "i < 2 ^ 32 \<Longrightarrow> j < 2 ^ 32 \<Longrightarrow> (a :: u32) + of_nat i = a + of_nat j \<longleftrightarrow> i = j"
  by (simp add: word_of_nat_eq_iff take_bit_nat_eq_self)

lemma swap_pairs_spec:
  "2 * n \<le> 2 ^ 32 \<Longrightarrow> j < 2 ^ 32 \<Longrightarrow>
   swap_pairs m a n (a + of_nat j) = m (a + of_nat (if j < 2 * n then flip_pair j else j))"
proof (induction n arbitrary: m a j)
  case (Suc n)
  define m1 where "m1 = m(a := m (a + 1), a + 1 := m a)"
  have m1: "m1 (a + of_nat i) = m (a + of_nat (if i < 2 then flip_pair i else i))" if "i < 2 ^ 32" for i
  proof -
    have "a + of_nat i = a \<longleftrightarrow> i = 0" "a + of_nat i = a + 1 \<longleftrightarrow> i = 1"
      using offset_eq [OF that, of 0 a] offset_eq [OF that, of 1 a] by simp_all
    then show ?thesis by (cases "i = 0"; cases "i = 1") (auto simp: m1_def flip_pair_def)
  qed
  define k where "k = (if 2 \<le> j then j - 2 else 2 ^ 32 - 2 + j)"
  have k: "k < 2 ^ 32" "a + of_nat j = a + 2 + of_nat k"
  proof -
    show "k < 2 ^ 32" using Suc.prems(2) by (auto simp: k_def)
    show "a + of_nat j = a + 2 + of_nat k"
    proof (cases "2 \<le> j")
      case False
      then have "j = 0 \<or> j = 1" by auto
      then show ?thesis by (elim disjE) (simp_all add: k_def)
    qed (simp add: k_def of_nat_diff)
  qed
  have "swap_pairs m a (Suc n) (a + of_nat j) = swap_pairs m1 (a + 2) n (a + 2 + of_nat k)" by (simp add: m1_def k(2))
  also have "\<dots> = m1 (a + 2 + of_nat (if k < 2 * n then flip_pair k else k))" using Suc.IH [of k m1 "a + 2"] Suc.prems(1) k(1) by simp
  also have "\<dots> = m (a + of_nat (if j < 2 * Suc n then flip_pair j else j))"
  proof (cases "2 \<le> j")
    case True
    then have j: "j = k + 2" by (simp add: k_def)
    show ?thesis
    proof (cases "k < 2 * n")
      case True
      then have "flip_pair k + 2 < 2 ^ 32" using Suc.prems(1) by (auto simp: flip_pair_def)
      then have "m1 (a + of_nat (flip_pair k + 2)) = m (a + of_nat (flip_pair k + 2))" using m1 [of "flip_pair k + 2"] by simp
      moreover have "flip_pair j = flip_pair k + 2" using j by (auto simp: flip_pair_def)
      ultimately show ?thesis using True j by (simp add: algebra_simps)
    next
      case False
      then have "m1 (a + of_nat (k + 2)) = m (a + of_nat (k + 2))" using m1 [of "k + 2"] j Suc.prems(2) by simp
      then show ?thesis using False j by (simp add: add.assoc)
    qed
  next
    case False
    then have "\<not> k < 2 * n" using Suc.prems(1) by (simp add: k_def)
    then have "m1 (a + 2 + of_nat (if k < 2 * n then flip_pair k else k)) = m1 (a + of_nat j)" by (simp only: if_False k(2))
    then show ?thesis using m1 [OF Suc.prems(2)] False by simp
  qed
  finally show ?case .
qed simp

lemma serial_fixed_twice:
  assumes "i < 18" shows "ide_fixstrings (ide_fixstrings m a 20) a 20 (a + of_nat i) = m (a + of_nat i)"
proof -
  have last: "a + of_nat 20 - 1 = a + of_nat 19" by simp
  have at: "ide_fixstrings n a 20 (a + of_nat j) = (if j = 19 then EOS else n (a + of_nat (flip_pair j)))" if "j < 20" for n j
  proof -
    have "a + of_nat j = a + of_nat 19 \<longleftrightarrow> j = 19" using that by (intro offset_eq) simp_all
    moreover have "swap_pairs n a 10 (a + of_nat j) = n (a + of_nat (flip_pair j))" using swap_pairs_spec [of 10 j n a] that by simp
    ultimately show ?thesis unfolding ide_fixstrings_def last by simp
  qed
  have "flip_pair i < 18" using assms by (auto simp: flip_pair_def)
  moreover have "flip_pair (flip_pair i) = i" by (auto simp: flip_pair_def)
  ultimately show ?thesis using assms by (simp add: at)
qed

end
