(* ===== verification/Serial.thy ===== *)
theory Serial
  imports Kfifo Device Mutex Interrupt
begin

text \<open>
  The serial lines, \<^verbatim>\<open>src/kernel/serial.c\<close>: two ports with a ring of received bytes each, a reader that sleeps until
  the interrupt handler has put one there, and a writer that waits for the port.

  Parameters: the \<open>bus\<close> of theory Interrupt, and \<open>elapse\<close>, what happens between the sleep of a task and its next
  turn. The device pointer is the index of the port.

  Shown: what the interrupts receive on the first line is what a reader gets, in order, with carriage returns turned into
  line feeds; the interrupt of the second line finds no port.
\<close>

section \<open>Constants and state\<close>

definition COM1_IOBASE :: u32 where "COM1_IOBASE = 0x3F8"
definition COM2_IOBASE :: u32 where "COM2_IOBASE = 0x2F8"
definition COM_DATA :: u32 where "COM_DATA = 0"
definition COM_INTR_ENABLE :: u32 where "COM_INTR_ENABLE = 1"
definition COM_BAUD_LSB :: u32 where "COM_BAUD_LSB = 0"
definition COM_BAUD_MSB :: u32 where "COM_BAUD_MSB = 1"
definition COM_INTR_IDENTIFY :: u32 where "COM_INTR_IDENTIFY = 2"
definition COM_LINE_CONTROL :: u32 where "COM_LINE_CONTROL = 3"
definition COM_MODEM_CONTROL :: u32 where "COM_MODEM_CONTROL = 4"
definition COM_LINE_STATUS :: u32 where "COM_LINE_STATUS = 5"
definition LSR_DR :: u8 where "LSR_DR = 0x1"
definition LSR_THRE :: u8 where "LSR_THRE = 0x20"
definition SERIAL_BUF_LEN :: u32 where "SERIAL_BUF_LEN = 64"
definition DEV_SERIAL :: u32 where "DEV_SERIAL = 3"

record serial =
  sr_iobase :: u32
  rx_fifo :: kfifo
  rx_waiter :: "nat option"
  tx_waiter :: "nat option"
  rlock :: u32
  wlock :: u32
  rlock_waiters :: u32
  wlock_waiters :: u32

record 'h com =
  cm_hw :: 'h
  serials :: "serial list"
  cm_kern :: kernel
  cm_mem :: mem
  cm_tables :: "unit intr"

definition set_serial :: "'h com \<Rightarrow> nat \<Rightarrow> (serial \<Rightarrow> serial) \<Rightarrow> 'h com option" where
  "set_serial s i f = do { x \<leftarrow> aget (serials s) i; Some (s\<lparr>serials := (serials s)[i := f x]\<rparr>) }"

definition com_inb :: "'h bus \<Rightarrow> 'h com \<Rightarrow> u32 \<Rightarrow> u8 \<times> 'h com" where
  "com_inb b s port = (let (v, h) = bus_inb b port (cm_hw s) in (v, s\<lparr>cm_hw := h\<rparr>))"

definition com_outb :: "'h bus \<Rightarrow> u32 \<Rightarrow> u8 \<Rightarrow> 'h com \<Rightarrow> 'h com" where
  "com_outb b port v s = s\<lparr>cm_hw := bus_outb b port v (cm_hw s)\<rparr>"

section \<open>The interrupt\<close>

definition recv_data :: "'h bus \<Rightarrow> nat \<Rightarrow> 'h com \<Rightarrow> 'h com option" where
  "recv_data b i s = do {
     x \<leftarrow> aget (serials s) i;
     let (ch, s) = com_inb b s (sr_iobase x);
     let ch = (if ch = 0x0D then 0x0A else ch);
     f \<leftarrow> kfifo_put (rx_fifo x) ch;
     s \<leftarrow> set_serial s i (\<lambda>x. x\<lparr>rx_fifo := f\<rparr>);
     case rx_waiter x of
       None \<Rightarrow> Some s
     | Some n \<Rightarrow> do {
         k \<leftarrow> task_intr_unblock_no_waiting_list (cm_kern s) n;
         set_serial (s\<lparr>cm_kern := k\<rparr>) i (\<lambda>x. x\<lparr>rx_waiter := None\<rparr>) } }"

definition serial_handler :: "'h bus \<Rightarrow> u32 \<Rightarrow> 'h com \<Rightarrow> 'h com option" where
  "serial_handler b vector s = do {
     let irq = vector - 0x20;
     kassert (irq = IRQ_SERIAL_1 \<or> irq = IRQ_SERIAL_2);
     let s = s\<lparr>cm_hw := send_eoi b vector (cm_hw s)\<rparr>;
     let i = unat (irq - IRQ_SERIAL_1);
     x \<leftarrow> aget (serials s) i;
     let (state, s) = com_inb b s (sr_iobase x + COM_LINE_STATUS);
     s \<leftarrow> (if state AND LSR_DR \<noteq> 0 then recv_data b i s else Some s);
     x \<leftarrow> aget (serials s) i;
     case tx_waiter x of
       None \<Rightarrow> Some s
     | Some n \<Rightarrow>
         if state AND LSR_THRE \<noteq> 0 then do {
           k \<leftarrow> task_intr_unblock_no_waiting_list (cm_kern s) n;
           set_serial (s\<lparr>cm_kern := k\<rparr>) i (\<lambda>x. x\<lparr>tx_waiter := None\<rparr>) }
         else Some s }"

section \<open>Reading and writing\<close>

text \<open>
  \<^verbatim>\<open>mutex_lock\<close> and \<^verbatim>\<open>mutex_unlock\<close> on the read lock or the write lock of a port, each the word of
  its byte and padding as in theory Mutex.
\<close>

definition lock_value :: "bool \<Rightarrow> serial \<Rightarrow> u32" where
  "lock_value rd x = (if rd then rlock x else wlock x)"

definition lock_list :: "bool \<Rightarrow> serial \<Rightarrow> u32" where
  "lock_list rd x = (if rd then rlock_waiters x else wlock_waiters x)"

definition set_lock :: "bool \<Rightarrow> u32 \<Rightarrow> serial \<Rightarrow> serial" where
  "set_lock rd v x = (if rd then x\<lparr>rlock := v\<rparr> else x\<lparr>wlock := v\<rparr>)"

partial_function (option) serial_lock :: "u32 \<Rightarrow> ('h com \<Rightarrow> 'h com option) \<Rightarrow> bool \<Rightarrow> nat \<Rightarrow> nat \<Rightarrow> 'h com \<Rightarrow> 'h com option" where
  "serial_lock resume elapse rd i me s = do {
     x \<leftarrow> aget (serials s) i;
     let (v, ok) = cmpxchg01 (lock_value rd x);
     if ok then set_serial s i (set_lock rd v)
     else do {
       k \<leftarrow> task_block resume (cm_kern s) me (Some (lock_list rd x)) TASK_BLOCKED;
       s \<leftarrow> elapse (s\<lparr>cm_kern := k\<rparr>);
       serial_lock resume elapse rd i me s } }"

definition serial_unlock :: "u32 \<Rightarrow> ('h com \<Rightarrow> 'h com option) \<Rightarrow> bool \<Rightarrow> nat \<Rightarrow> 'h com \<Rightarrow> 'h com option" where
  "serial_unlock resume elapse rd i s = do {
     let me = cur (cm_kern s);
     x \<leftarrow> aget (serials s) i;
     s \<leftarrow> set_serial s i (\<lambda>x. set_lock rd (lock_value rd x - 1) x);
     k \<leftarrow> task_unblock resume (cm_kern s) (lock_list rd x);
     if cur k = me then Some (s\<lparr>cm_kern := k\<rparr>) else elapse (s\<lparr>cm_kern := k\<rparr>) }"

partial_function (option) serial_wait :: "u32 \<Rightarrow> ('h com \<Rightarrow> 'h com option) \<Rightarrow> nat \<Rightarrow> 'h com \<Rightarrow> 'h com option" where
  "serial_wait resume elapse i s = do {
     x \<leftarrow> aget (serials s) i;
     if kfifo_empty (rx_fifo x) then do {
       _ \<leftarrow> kassert (rx_waiter x = None);
       s \<leftarrow> set_serial s i (\<lambda>x. x\<lparr>rx_waiter := Some (cur (cm_kern s))\<rparr>);
       k \<leftarrow> task_block resume (cm_kern s) (cur (cm_kern s)) None TASK_BLOCKED;
       s \<leftarrow> elapse (s\<lparr>cm_kern := k\<rparr>);
       serial_wait resume elapse i s }
     else Some s }"

fun serial_read_loop :: "u32 \<Rightarrow> ('h com \<Rightarrow> 'h com option) \<Rightarrow> nat \<Rightarrow> u32 \<Rightarrow> nat \<Rightarrow> 'h com \<Rightarrow> 'h com option" where
  "serial_read_loop resume elapse i dst 0 s = Some s"
| "serial_read_loop resume elapse i dst (Suc n) s = do {
     s \<leftarrow> serial_wait resume elapse i s;
     x \<leftarrow> aget (serials s) i;
     (ch, f) \<leftarrow> kfifo_get (rx_fifo x);
     s \<leftarrow> set_serial s i (\<lambda>x. x\<lparr>rx_fifo := f\<rparr>);
     serial_read_loop resume elapse i (dst + 1) n (s\<lparr>cm_mem := (cm_mem s)(dst := ch)\<rparr>) }"

text \<open>The count is compared without its sign.\<close>

definition serial_read :: "u32 \<Rightarrow> ('h com \<Rightarrow> 'h com option) \<Rightarrow> 'h com driver" where
  "serial_read resume elapse ptr dst count idx flg s = do {
     s \<leftarrow> serial_lock resume elapse True (unat ptr) (cur (cm_kern s)) s;
     s \<leftarrow> serial_read_loop resume elapse (unat ptr) dst (unat count) s;
     s \<leftarrow> serial_unlock resume elapse True (unat ptr) s;
     Some (count, s) }"

partial_function (option) serial_ready :: "'h bus \<Rightarrow> u32 \<Rightarrow> 'h com \<Rightarrow> 'h com option" where
  "serial_ready b io s =
     (let (state, s) = com_inb b s (io + COM_LINE_STATUS)
      in if state AND LSR_THRE \<noteq> 0 then Some s else serial_ready b io s)"

fun serial_write_loop :: "'h bus \<Rightarrow> u32 \<Rightarrow> u32 \<Rightarrow> nat \<Rightarrow> 'h com \<Rightarrow> 'h com option" where
  "serial_write_loop b io dst 0 s = Some s"
| "serial_write_loop b io dst (Suc n) s = do {
     s \<leftarrow> serial_ready b io s;
     serial_write_loop b io (dst + 1) n (com_outb b io (cm_mem s dst) s) }"

definition serial_write :: "'h bus \<Rightarrow> u32 \<Rightarrow> ('h com \<Rightarrow> 'h com option) \<Rightarrow> 'h com driver" where
  "serial_write b resume elapse ptr dst count idx flg s = do {
     s \<leftarrow> serial_lock resume elapse False (unat ptr) (cur (cm_kern s)) s;
     x \<leftarrow> aget (serials s) (unat ptr);
     s \<leftarrow> serial_write_loop b (sr_iobase x) dst (unat count) s;
     s \<leftarrow> serial_unlock resume elapse False (unat ptr) s;
     Some (count, s) }"

section \<open>Initialisation\<close>

text \<open>\<open>handler\<close> is the address of \<^verbatim>\<open>serial_handler\<close>.\<close>

definition serial_setup :: "'h bus \<Rightarrow> u32 \<Rightarrow> 'h com \<Rightarrow> 'h com" where
  "serial_setup b io s =
     (let s = com_outb b (io + COM_INTR_ENABLE) 0 s;
          s = com_outb b (io + COM_LINE_CONTROL) 0x80 s;
          s = com_outb b (io + COM_BAUD_LSB) 0x30 s;
          s = com_outb b (io + COM_BAUD_MSB) 0 s;
          s = com_outb b (io + COM_LINE_CONTROL) 0x03 s;
          s = com_outb b (io + COM_INTR_ENABLE) 0x0D s;
          s = com_outb b (io + COM_INTR_IDENTIFY) 0xC7 s;
          s = com_outb b (io + COM_MODEM_CONTROL) 0x1B s
      in com_outb b io 0xAE s)"

definition serial_init_port :: "'h bus \<Rightarrow> u32 \<Rightarrow> ('h com \<Rightarrow> 'h com option) \<Rightarrow> u32 \<Rightarrow> nat \<Rightarrow> 'h com devs \<Rightarrow> 'h com devs option" where
  "serial_init_port b resume elapse handler i d = do {
     let s = dv_io d;
     x \<leftarrow> aget (serials s) i;
     let irq = (if i = 0 then IRQ_SERIAL_1 else IRQ_SERIAL_2);
     let io = (if i = 0 then COM1_IOBASE else COM2_IOBASE);
     s \<leftarrow> set_serial s i (\<lambda>x. x\<lparr>rx_fifo := kfifo_init (buf (rx_fifo x)) SERIAL_BUF_LEN, rx_waiter := None, tx_waiter := None,
            rlock := clear_byte (rlock x), wlock := clear_byte (wlock x), sr_iobase := io\<rparr>);
     let s = s\<lparr>cm_kern := (cm_kern s)\<lparr>waiting := (waiting (cm_kern s))(rlock_waiters x := [], wlock_waiters x := [])\<rparr>\<rparr>;
     let (v, s) = com_inb b (serial_setup b io s) io;
     if v \<noteq> 0xAE then Some (d\<lparr>dv_io := s\<rparr>)
     else do {
       let s = com_outb b (io + COM_MODEM_CONTROL) 0x0B s;
       t \<leftarrow> set_interrupt_handler irq handler (cm_tables s);
       h \<leftarrow> set_interrupt_mask b irq True (cm_hw s);
       (_, d) \<leftarrow> device_install (d\<lparr>dv_io := s\<lparr>cm_tables := t, cm_hw := h\<rparr>\<rparr>) DEV_CHAR DEV_SERIAL (of_nat i) [0x63, 0x6F, 0x6D, 0x31 + of_nat i] 0
         None (Some (serial_read resume elapse)) (Some (serial_write b resume elapse));
       Some d } }"

definition serial_init :: "'h bus \<Rightarrow> u32 \<Rightarrow> ('h com \<Rightarrow> 'h com option) \<Rightarrow> u32 \<Rightarrow> 'h com devs \<Rightarrow> 'h com devs option" where
  "serial_init b resume elapse handler d = do {
     d \<leftarrow> serial_init_port b resume elapse handler 0 d;
     serial_init_port b resume elapse handler 1 d }"

section \<open>Properties\<close>

text \<open>\<open>n\<close> interrupts of the first line.\<close>

fun serial_irqs :: "'h bus \<Rightarrow> nat \<Rightarrow> 'h com \<Rightarrow> 'h com option" where
  "serial_irqs b 0 s = Some s"
| "serial_irqs b (Suc n) s = do { s \<leftarrow> serial_handler b 0x24 s; serial_irqs b n s }"

definition newline :: "u8 \<Rightarrow> u8" where
  "newline ch = (if ch = 0x0D then 0x0A else ch)"

text \<open>
  A bus whose first serial port has the bytes \<open>q\<close> waiting, and says so: each read of the data port takes one.
\<close>

definition line_input :: "'h bus \<Rightarrow> ('h \<Rightarrow> u8 list) \<Rightarrow> bool" where
  "line_input b q \<longleftrightarrow>
     (\<forall>h ch chs. q h = ch # chs \<longrightarrow> fst (bus_inb b 0x3FD h) AND LSR_DR \<noteq> 0 \<and> q (snd (bus_inb b 0x3FD h)) = q h \<and>
        fst (bus_inb b 0x3F8 h) = ch \<and> q (snd (bus_inb b 0x3F8 h)) = chs) \<and>
     (\<forall>h. q (bus_outb b 0x20 0x20 h) = q h)"

lemma serial_irqs_spec:
  assumes "line_input b q"
  shows "serials s = x # xs \<Longrightarrow> sr_iobase x = COM1_IOBASE \<Longrightarrow> kfifo_inv (rx_fifo x) \<Longrightarrow> buf_size (rx_fifo x) = 64 \<Longrightarrow>
     rx_waiter x = None \<Longrightarrow> tx_waiter x = None \<Longrightarrow> length (kfifo_list (rx_fifo x)) + length bs < 64 \<Longrightarrow> q (cm_hw s) = bs \<Longrightarrow>
     \<exists>h f. serial_irqs b (length bs) s = Some (s\<lparr>cm_hw := h, serials := x\<lparr>rx_fifo := f\<rparr> # xs\<rparr>) \<and> kfifo_inv f \<and> buf_size f = 64 \<and>
       kfifo_list f = kfifo_list (rx_fifo x) @ map newline bs"
proof (induction bs arbitrary: s x)
  case Nil
  then show ?case by (intro exI [of _ "cm_hw s"] exI [of _ "rx_fifo x"]) simp
next
  case (Cons ch bs)
  define h where "h = snd (bus_inb b 0x3F8 (snd (bus_inb b 0x3FD (bus_outb b 0x20 0x20 (cm_hw s)))))"
  have io: "fst (bus_inb b 0x3FD (bus_outb b 0x20 0x20 (cm_hw s))) AND LSR_DR \<noteq> 0"
    "fst (bus_inb b 0x3F8 (snd (bus_inb b 0x3FD (bus_outb b 0x20 0x20 (cm_hw s))))) = ch" "q h = bs"
    using assms Cons.prems(8) by (simp_all add: line_input_def h_def)
  have room: "kfifo_count (rx_fifo x) \<noteq> unat (buf_size (rx_fifo x)) - 1" using Cons.prems(4,7) by simp
  obtain f where f: "kfifo_put (rx_fifo x) (newline ch) = Some f" "kfifo_inv f" "buf_size f = 64" "kfifo_list f = kfifo_list (rx_fifo x) @ [newline ch]"
    using kfifo_put_spec [OF Cons.prems(3), of "newline ch"] room Cons.prems(4) by auto
  define s1 where "s1 = s\<lparr>cm_hw := h, serials := x\<lparr>rx_fifo := f\<rparr> # xs\<rparr>"
  have eoi: "send_eoi b 0x24 g = bus_outb b 0x20 0x20 g" for g by (simp add: send_eoi_def PIC_M_CTRL_def PIC_EOI_def)
  have "serial_handler b 0x24 s = Some s1"
    using Cons.prems(1,2,5,6) io f(1)
    by (simp add: serial_handler_def IRQ_SERIAL_1_def eoi com_inb_def case_prod_unfold Let_def COM1_IOBASE_def COM_LINE_STATUS_def recv_data_def
        set_serial_def s1_def h_def newline_def [symmetric] aget_def)
  moreover have "\<exists>h' f'. serial_irqs b (length bs) s1 = Some (s1\<lparr>cm_hw := h', serials := x\<lparr>rx_fifo := f\<rparr>\<lparr>rx_fifo := f'\<rparr> # xs\<rparr>) \<and> kfifo_inv f' \<and> buf_size f' = 64 \<and>
      kfifo_list f' = kfifo_list f @ map newline bs"
    using Cons.IH [of s1 "x\<lparr>rx_fifo := f\<rparr>"] Cons.prems f io(3) by (simp add: s1_def)
  ultimately show ?case using f(4) by (auto simp: s1_def)
qed

lemma serial_read_loop_spec:
  "serials s = x # xs \<Longrightarrow> kfifo_inv (rx_fifo x) \<Longrightarrow> n \<le> length (kfifo_list (rx_fifo x)) \<Longrightarrow> n < 2 ^ 32 \<Longrightarrow>
   \<exists>f m. serial_read_loop resume elapse 0 dst n s = Some (s\<lparr>cm_mem := m, serials := x\<lparr>rx_fifo := f\<rparr> # xs\<rparr>) \<and> kfifo_inv f \<and>
     kfifo_list f = drop n (kfifo_list (rx_fifo x)) \<and> bytes_at m dst n = take n (kfifo_list (rx_fifo x)) \<and>
     (\<forall>a. a \<notin> region dst n \<longrightarrow> m a = cm_mem s a)"
proof (induction n arbitrary: s x dst)
  case 0
  then show ?case by (intro exI [of _ "rx_fifo x"] exI [of _ "cm_mem s"]) simp
next
  case (Suc n)
  have ne: "kfifo_list (rx_fifo x) \<noteq> []" using Suc.prems(3) by (auto simp: kfifo_list_Nil)
  obtain f where f: "kfifo_get (rx_fifo x) = Some (hd (kfifo_list (rx_fifo x)), f)" "kfifo_inv f" "kfifo_list f = tl (kfifo_list (rx_fifo x))"
    using kfifo_get_spec [OF Suc.prems(2) ne] by blast
  have "\<not> kfifo_empty (rx_fifo x)" using ne Suc.prems(2) by (simp add: kfifo_empty_count kfifo_list_Nil)
  then have w: "serial_wait resume elapse 0 s = Some s" using Suc.prems(1) by (simp add: serial_wait.simps)
  define s1 where "s1 = s\<lparr>serials := x\<lparr>rx_fifo := f\<rparr> # xs, cm_mem := (cm_mem s)(dst := hd (kfifo_list (rx_fifo x)))\<rparr>"
  have run: "serial_read_loop resume elapse 0 dst (Suc n) s = serial_read_loop resume elapse 0 (dst + 1) n s1"
    using w Suc.prems(1) f(1) by (simp add: set_serial_def s1_def)
  have "n \<le> length (tl (kfifo_list (rx_fifo x)))" unfolding length_tl using Suc.prems(3) by linarith
  then have "n \<le> length (kfifo_list f)" using f(3) by metis
  then obtain g m where g: "serial_read_loop resume elapse 0 (dst + 1) n s1 = Some (s1\<lparr>cm_mem := m, serials := x\<lparr>rx_fifo := f\<rparr>\<lparr>rx_fifo := g\<rparr> # xs\<rparr>)" "kfifo_inv g"
     "kfifo_list g = drop n (kfifo_list f)" "bytes_at m (dst + 1) n = take n (kfifo_list f)" "\<forall>a. a \<notin> region (dst + 1) n \<longrightarrow> m a = cm_mem s1 a"
    using Suc.IH [of s1 "x\<lparr>rx_fifo := f\<rparr>" "dst + 1"] f(2) Suc.prems(4) by (auto simp: s1_def simp del: length_kfifo_list)
  have "dst \<notin> region (dst + 1) n" using Suc.prems(4) by (intro self_not_in_next_region) simp
  then have "m dst = hd (kfifo_list (rx_fifo x))" using g(5) by (simp add: s1_def)
  then have "bytes_at m dst (Suc n) = take (Suc n) (kfifo_list (rx_fifo x))" using g(4) f(3) ne by (simp add: take_Suc)
  moreover have "kfifo_list g = drop (Suc n) (kfifo_list (rx_fifo x))" using g(3) f(3) by (simp add: drop_Suc)
  moreover have "\<forall>a. a \<notin> region dst (Suc n) \<longrightarrow> m a = cm_mem s a" using g(5) by (auto simp: s1_def)
  ultimately show ?case using run g(1,2) by (intro exI [of _ g] exI [of _ m]) (simp add: s1_def)
qed

text \<open>
  C31. The first serial line delivers: bytes that arrive one interrupt each, while the ring has room for them, are what a later
  read of that many bytes puts into the caller's buffer, in order and with carriage returns turned into line feeds. The
  read does not sleep, gives the lock back and changes no other memory.
\<close>

theorem serial_line_delivers:
  assumes bus: "line_input b q" and x: "serials s = x # xs" "sr_iobase x = COM1_IOBASE" "kfifo_inv (rx_fifo x)" "buf_size (rx_fifo x) = 64"
    and quiet: "rx_waiter x = None" "tx_waiter x = None" "rlock x = 0" "waiting (cm_kern s) (rlock_waiters x) = []"
    and fresh: "kfifo_empty (rx_fifo x)" and len: "length bs < 64" and q: "q (cm_hw s) = bs"
  shows "\<exists>s1 s2. serial_irqs b (length bs) s = Some s1 \<and> serial_read resume elapse 0 dst (of_nat (length bs)) 0 0 s1 = Some (of_nat (length bs), s2) \<and>
     bytes_at (cm_mem s2) dst (length bs) = map newline bs \<and> (\<forall>a. a \<notin> region dst (length bs) \<longrightarrow> cm_mem s2 a = cm_mem s a) \<and>
     rlock (serials s2 ! 0) = 0 \<and> kfifo_empty (rx_fifo (serials s2 ! 0)) \<and> cm_kern s2 = cm_kern s"
proof -
  have nil: "kfifo_list (rx_fifo x) = []" using fresh x(3) by (simp add: kfifo_empty_count kfifo_list_Nil)
  obtain h f where f: "serial_irqs b (length bs) s = Some (s\<lparr>cm_hw := h, serials := x\<lparr>rx_fifo := f\<rparr> # xs\<rparr>)" "kfifo_inv f"
     "kfifo_list f = map newline bs"
    using serial_irqs_spec [OF bus x quiet(1,2) _ q] len by (auto simp: nil simp del: length_kfifo_list)
  define s1 where "s1 = s\<lparr>cm_hw := h, serials := x\<lparr>rx_fifo := f\<rparr> # xs\<rparr>"
  define x2 where "x2 = x\<lparr>rx_fifo := f, rlock := 1\<rparr>"
  define s2 where "s2 = s1\<lparr>serials := x2 # xs\<rparr>"
  have lock: "serial_lock resume elapse True 0 (cur (cm_kern s1)) s1 = Some s2"
    using quiet(3) by (simp add: serial_lock.simps s1_def s2_def x2_def cmpxchg01_def lock_value_def set_serial_def set_lock_def)
  have n: "unat (of_nat (length bs) :: u32) = length bs" using len by (intro unat_of_nat_less) simp
  have x2s: "serials s2 = x2 # xs" "kfifo_inv (rx_fifo x2)" "kfifo_list (rx_fifo x2) = map newline bs" using f by (simp_all add: s2_def x2_def)
  obtain g m where g: "serial_read_loop resume elapse 0 dst (length bs) s2 = Some (s2\<lparr>cm_mem := m, serials := x2\<lparr>rx_fifo := g\<rparr> # xs\<rparr>)" "kfifo_inv g"
     "kfifo_list g = []" "bytes_at m dst (length bs) = map newline bs" "\<forall>a. a \<notin> region dst (length bs) \<longrightarrow> m a = cm_mem s2 a"
    using serial_read_loop_spec [OF x2s(1,2), of "length bs" resume elapse dst] x2s(3) len by (auto simp del: length_kfifo_list)
  define s3 where "s3 = s2\<lparr>cm_mem := m, serials := x2\<lparr>rx_fifo := g\<rparr> # xs\<rparr>"
  define s4 where "s4 = s3\<lparr>serials := x2\<lparr>rx_fifo := g, rlock := 0\<rparr> # xs\<rparr>"
  have "serial_unlock resume elapse True 0 s3 = Some s4"
    using quiet(4) by (simp add: serial_unlock_def s4_def s3_def s2_def s1_def x2_def set_serial_def set_lock_def lock_value_def lock_list_def task_unblock_def)
  then have "serial_read resume elapse 0 dst (of_nat (length bs)) 0 0 s1 = Some (of_nat (length bs), s4)"
    using lock g(1) n by (simp add: serial_read_def s3_def)
  moreover have "kfifo_empty g" using g(2,3) by (simp add: kfifo_empty_count kfifo_list_Nil)
  ultimately show ?thesis using f(1) g(4,5)
    by (intro exI [of _ s1] exI [of _ s4]) (simp add: s4_def s3_def s2_def s1_def)
qed

text \<open>Bytes on the line, taken one by one.\<close>

definition line_bus :: "u8 list bus" where
  "line_bus = \<lparr>bus_inb = (\<lambda>p h. if p = 0x3FD then (0x61, h) else (hd h, tl h)), bus_inw = (\<lambda>p h. (0, h)),
     bus_outb = (\<lambda>p v h. h), bus_outw = (\<lambda>p v h. h)\<rparr>"

definition demo_serial :: serial where
  "demo_serial = \<lparr>sr_iobase = COM1_IOBASE, rx_fifo = kfifo_init (replicate 64 0) 64, rx_waiter = None, tx_waiter = None, rlock = 0, wlock = 0,
     rlock_waiters = 0x100, wlock_waiters = 0x108\<rparr>"

definition demo_com :: "u8 list com" where
  "demo_com = \<lparr>cm_hw = [0x48, 0x69, 0x0D], serials = [demo_serial, demo_serial\<lparr>sr_iobase := COM2_IOBASE\<rparr>], cm_kern = no_tasks, cm_mem = (\<lambda>_. 0),
     cm_tables = \<lparr>it_hw = (), idt = [], trap_handler_table = [], idt_base = 0, idt_limit = 0, it_counter = 0\<rparr>\<rparr>"

lemma serial_line_delivers_witness:
  "\<exists>s1 s2. serial_irqs line_bus 3 demo_com = Some s1 \<and> serial_read 0 Some 0 0x2000 3 0 0 s1 = Some (3, s2) \<and>
     bytes_at (cm_mem s2) 0x2000 3 = [0x48, 0x69, 0x0A]"
proof -
  have b: "line_input line_bus (\<lambda>h. h)" by (simp add: line_input_def line_bus_def LSR_DR_def)
  have x: "serials demo_com = demo_serial # [demo_serial\<lparr>sr_iobase := COM2_IOBASE\<rparr>]" "sr_iobase demo_serial = COM1_IOBASE" "kfifo_inv (rx_fifo demo_serial)"
    "buf_size (rx_fifo demo_serial) = 64" "rx_waiter demo_serial = None" "tx_waiter demo_serial = None" "rlock demo_serial = 0"
    "waiting (cm_kern demo_com) (rlock_waiters demo_serial) = []" "kfifo_empty (rx_fifo demo_serial)" "length [0x48, 0x69, 0x0D :: u8] < 64"
    "cm_hw demo_com = [0x48, 0x69, 0x0D]"
    by (simp_all add: demo_com_def demo_serial_def kfifo_inv_def kfifo_init_def kfifo_empty_def no_tasks_def)
  have l: "length [0x48, 0x69, 0x0D :: u8] = 3" "(of_nat 3 :: u32) = 3" by simp_all
  obtain s1 s2 where "serial_irqs line_bus 3 demo_com = Some s1" "serial_read 0 Some 0 0x2000 3 0 0 s1 = Some (3, s2)"
     "bytes_at (cm_mem s2) 0x2000 3 = map newline [0x48, 0x69, 0x0D]"
    using serial_line_delivers [OF b x, of 0 Some "0x2000"] unfolding l by blast
  then show ?thesis by (intro exI [of _ s1] exI [of _ s2] conjI) (simp_all only: newline_def list.map, simp)
qed

text \<open>
  The second line uses interrupt 3, one below that of the first: its handler would need the port with index -1.
\<close>

lemma serial_second_line:
  assumes "length (serials s) = 2"
  shows "serial_handler b 0x23 s = None"
  using assms by (simp add: serial_handler_def IRQ_SERIAL_1_def IRQ_SERIAL_2_def aget_def Let_def unsigned_minus_1_eq_mask mask_eq_exp_minus_1)

end
