(* ===== verification/Syscall.thy ===== *)
theory Syscall
  imports Serial
begin

text \<open>
  System calls: the stubs of \<^verbatim>\<open>src/lib/syscall.c\<close> with the numbers of \<^verbatim>\<open>src/include/lib/syscall.h\<close>, the table that
  \<^verbatim>\<open>src/kernel/gate.c\<close> fills, and the entry \<^verbatim>\<open>syscall_handler\<close> of \<^verbatim>\<open>src/kernel/interrupt_handler.asm\<close>.

  A stub is a function on the registers at the \<^verbatim>\<open>int\<close> instruction. The entry is modelled as far as the choice of the
  handler and its arguments; the handlers themselves are in the theories of their components, here they are names.

  Shown: every stub reaches the handler it is named for, with its arguments in order; every other number of the table
  reaches the default handler; numbers behind the table are not refused.
\<close>

section \<open>Numbers\<close>

definition NR_SYSCALL :: nat where "NR_SYSCALL = 256"

definition SYS_NR_TEST :: u32 where "SYS_NR_TEST = 0"
definition SYS_NR_EXIT :: u32 where "SYS_NR_EXIT = 1"
definition SYS_NR_FORK :: u32 where "SYS_NR_FORK = 2"
definition SYS_NR_READ :: u32 where "SYS_NR_READ = 3"
definition SYS_NR_WRITE :: u32 where "SYS_NR_WRITE = 4"
definition SYS_NR_OPEN :: u32 where "SYS_NR_OPEN = 5"
definition SYS_NR_CLOSE :: u32 where "SYS_NR_CLOSE = 6"
definition SYS_NR_WAITPID :: u32 where "SYS_NR_WAITPID = 7"
definition SYS_NR_CREAT :: u32 where "SYS_NR_CREAT = 8"
definition SYS_NR_LINK :: u32 where "SYS_NR_LINK = 9"
definition SYS_NR_UNLINK :: u32 where "SYS_NR_UNLINK = 10"
definition SYS_NR_EXECVE :: u32 where "SYS_NR_EXECVE = 11"
definition SYS_NR_CHDIR :: u32 where "SYS_NR_CHDIR = 12"
definition SYS_NR_TIME :: u32 where "SYS_NR_TIME = 13"
definition SYS_NR_MKNOD :: u32 where "SYS_NR_MKNOD = 14"
definition SYS_NR_STAT :: u32 where "SYS_NR_STAT = 18"
definition SYS_NR_LSEEK :: u32 where "SYS_NR_LSEEK = 19"
definition SYS_NR_GETPID :: u32 where "SYS_NR_GETPID = 20"
definition SYS_NR_MOUNT :: u32 where "SYS_NR_MOUNT = 21"
definition SYS_NR_UMOUNT :: u32 where "SYS_NR_UMOUNT = 22"
definition SYS_NR_ALARM :: u32 where "SYS_NR_ALARM = 27"
definition SYS_NR_FSTAT :: u32 where "SYS_NR_FSTAT = 28"
definition SYS_NR_STTY :: u32 where "SYS_NR_STTY = 31"
definition SYS_NR_GTTY :: u32 where "SYS_NR_GTTY = 32"
definition SYS_NR_KILL :: u32 where "SYS_NR_KILL = 37"
definition SYS_NR_MKDIR :: u32 where "SYS_NR_MKDIR = 39"
definition SYS_NR_RMDIR :: u32 where "SYS_NR_RMDIR = 40"
definition SYS_NR_DUP :: u32 where "SYS_NR_DUP = 41"
definition SYS_NR_PIPE :: u32 where "SYS_NR_PIPE = 42"
definition SYS_NR_BRK :: u32 where "SYS_NR_BRK = 45"
definition SYS_NR_SIGNAL :: u32 where "SYS_NR_SIGNAL = 48"
definition SYS_NR_IOCTL :: u32 where "SYS_NR_IOCTL = 54"
definition SYS_NR_SETPGID :: u32 where "SYS_NR_SETPGID = 57"
definition SYS_NR_UNAME :: u32 where "SYS_NR_UNAME = 59"
definition SYS_NR_UMASK :: u32 where "SYS_NR_UMASK = 60"
definition SYS_NR_CHROOT :: u32 where "SYS_NR_CHROOT = 61"
definition SYS_NR_DUP2 :: u32 where "SYS_NR_DUP2 = 63"
definition SYS_NR_GETPPID :: u32 where "SYS_NR_GETPPID = 64"
definition SYS_NR_GETPGRP :: u32 where "SYS_NR_GETPGRP = 65"
definition SYS_NR_SETSID :: u32 where "SYS_NR_SETSID = 66"
definition SYS_NR_SIGACTION :: u32 where "SYS_NR_SIGACTION = 67"
definition SYS_NR_SGETMASK :: u32 where "SYS_NR_SGETMASK = 68"
definition SYS_NR_SSETMASK :: u32 where "SYS_NR_SSETMASK = 69"
definition SYS_NR_READDIR :: u32 where "SYS_NR_READDIR = 89"
definition SYS_NR_MMAP :: u32 where "SYS_NR_MMAP = 90"
definition SYS_NR_MUNMAP :: u32 where "SYS_NR_MUNMAP = 91"
definition SYS_NR_YIELD :: u32 where "SYS_NR_YIELD = 158"
definition SYS_NR_SLEEP :: u32 where "SYS_NR_SLEEP = 162"
definition SYS_NR_GETCWD :: u32 where "SYS_NR_GETCWD = 183"
definition SYS_NR_SOCKET :: u32 where "SYS_NR_SOCKET = 359"
definition SYS_NR_BIND :: u32 where "SYS_NR_BIND = 361"
definition SYS_NR_CONNECT :: u32 where "SYS_NR_CONNECT = 362"
definition SYS_NR_LISTEN :: u32 where "SYS_NR_LISTEN = 363"
definition SYS_NR_ACCEPT :: u32 where "SYS_NR_ACCEPT = 364"
definition SYS_NR_GETSOCKOPT :: u32 where "SYS_NR_GETSOCKOPT = 365"
definition SYS_NR_SETSOCKOPT :: u32 where "SYS_NR_SETSOCKOPT = 366"
definition SYS_NR_GETSOCKNAME :: u32 where "SYS_NR_GETSOCKNAME = 367"
definition SYS_NR_GETPEERNAME :: u32 where "SYS_NR_GETPEERNAME = 368"
definition SYS_NR_SENDTO :: u32 where "SYS_NR_SENDTO = 369"
definition SYS_NR_SENDMSG :: u32 where "SYS_NR_SENDMSG = 370"
definition SYS_NR_RECVFROM :: u32 where "SYS_NR_RECVFROM = 371"
definition SYS_NR_RECVMSG :: u32 where "SYS_NR_RECVMSG = 372"
definition SYS_NR_SHUTDOWN :: u32 where "SYS_NR_SHUTDOWN = 373"
definition SYS_NR_RESOLV :: u32 where "SYS_NR_RESOLV = 374"
definition SYS_NR_MKFS :: u32 where "SYS_NR_MKFS = 255"

section \<open>The table of handlers\<close>

datatype sysfn =
    Sys_default | Sys_test | Sys_yield | Sys_sleep | Sys_read | Sys_write | Sys_brk | Sys_getpid
  | Sys_getppid | Sys_fork | Sys_exit | Sys_waitpid | Sys_time | Sys_umask | Sys_mkdir | Sys_rmdir | Sys_link
  | Sys_unlink | Sys_open | Sys_creat | Sys_close | Sys_lseek | Sys_getcwd | Sys_chdir | Sys_chroot
  | Sys_readdir | Sys_stat | Sys_fstat | Sys_mknod | Sys_mount | Sys_umount | Sys_mkfs | Sys_mmap
  | Sys_munmap | Sys_execve | Sys_dup | Sys_dup2 | Sys_pipe | Sys_setsid | Sys_setpgid | Sys_getpgrp
  | Sys_ioctl | Sys_stty | Sys_gtty | Sys_kill | Sys_signal | Sys_sgetmask | Sys_ssetmask | Sys_sigaction

definition sys_default :: u32 where "sys_default = - 1"

text \<open>The test call: one byte from the serial line, then to the serial line and to the console. \<open>ch\<close> is the address of its variable.\<close>

definition dev_of :: "'s devs \<Rightarrow> nat \<Rightarrow> u32 option" where
  "dev_of s n = map_option d_dev (aget (device_list s) n)"

definition sys_test :: "'s devs \<Rightarrow> u32 \<Rightarrow> (u32 \<times> 's devs) option" where
  "sys_test s ch = do {
     serial \<leftarrow> device_find s DEV_SERIAL 0;
     let console = device_find s DEV_CONSOLE 0;
     dev \<leftarrow> dev_of s serial;
     (_, s) \<leftarrow> device_read s dev ch 1 0 0;
     (_, s) \<leftarrow> device_write s dev ch 1 0 0;
     n \<leftarrow> console;
     dev \<leftarrow> dev_of s n;
     (_, s) \<leftarrow> device_write s dev ch 1 0 0;
     Some (255, s) }"

text \<open>The assignments of \<^verbatim>\<open>syscall_init\<close>, in their order.\<close>

definition syscall_entries :: "(u32 \<times> sysfn) list" where
  "syscall_entries = [
     (SYS_NR_TEST, Sys_test), (SYS_NR_YIELD, Sys_yield), (SYS_NR_SLEEP, Sys_sleep), (SYS_NR_READ, Sys_read),
     (SYS_NR_WRITE, Sys_write), (SYS_NR_BRK, Sys_brk), (SYS_NR_GETPID, Sys_getpid), (SYS_NR_GETPPID, Sys_getppid),
     (SYS_NR_FORK, Sys_fork), (SYS_NR_EXIT, Sys_exit), (SYS_NR_WAITPID, Sys_waitpid), (SYS_NR_TIME, Sys_time),
     (SYS_NR_UMASK, Sys_umask), (SYS_NR_MKDIR, Sys_mkdir), (SYS_NR_RMDIR, Sys_rmdir), (SYS_NR_LINK, Sys_link),
     (SYS_NR_UNLINK, Sys_unlink), (SYS_NR_OPEN, Sys_open), (SYS_NR_CREAT, Sys_creat), (SYS_NR_CLOSE, Sys_close),
     (SYS_NR_LSEEK, Sys_lseek), (SYS_NR_GETCWD, Sys_getcwd), (SYS_NR_CHDIR, Sys_chdir), (SYS_NR_CHROOT, Sys_chroot),
     (SYS_NR_READDIR, Sys_readdir), (SYS_NR_STAT, Sys_stat), (SYS_NR_FSTAT, Sys_fstat), (SYS_NR_MKNOD, Sys_mknod),
     (SYS_NR_MOUNT, Sys_mount), (SYS_NR_UMOUNT, Sys_umount), (SYS_NR_MKFS, Sys_mkfs), (SYS_NR_MMAP, Sys_mmap),
     (SYS_NR_MUNMAP, Sys_munmap), (SYS_NR_EXECVE, Sys_execve), (SYS_NR_DUP, Sys_dup), (SYS_NR_DUP2, Sys_dup2),
     (SYS_NR_PIPE, Sys_pipe), (SYS_NR_SETSID, Sys_setsid), (SYS_NR_SETPGID, Sys_setpgid), (SYS_NR_GETPGRP, Sys_getpgrp),
     (SYS_NR_IOCTL, Sys_ioctl), (SYS_NR_STTY, Sys_stty), (SYS_NR_GTTY, Sys_gtty), (SYS_NR_KILL, Sys_kill),
     (SYS_NR_SIGNAL, Sys_signal), (SYS_NR_SGETMASK, Sys_sgetmask), (SYS_NR_SSETMASK, Sys_ssetmask), (SYS_NR_SIGACTION, Sys_sigaction)]"

definition syscall_init :: "sysfn list" where
  "syscall_init = foldl (\<lambda>t (n, f). t[unat n := f]) (replicate NR_SYSCALL Sys_default) syscall_entries"

section \<open>Stubs\<close>

record sysregs =
  eax :: u32
  ebx :: u32
  ecx :: u32
  edx :: u32
  esi :: u32
  edi :: u32

definition syscall0 :: "u32 \<Rightarrow> sysregs \<Rightarrow> sysregs" where
  "syscall0 nr r = r\<lparr>eax := nr\<rparr>"

definition syscall1 :: "u32 \<Rightarrow> u32 \<Rightarrow> sysregs \<Rightarrow> sysregs" where
  "syscall1 nr a r = r\<lparr>eax := nr, ebx := a\<rparr>"

definition syscall2 :: "u32 \<Rightarrow> u32 \<Rightarrow> u32 \<Rightarrow> sysregs \<Rightarrow> sysregs" where
  "syscall2 nr a b r = r\<lparr>eax := nr, ebx := a, ecx := b\<rparr>"

definition syscall3 :: "u32 \<Rightarrow> u32 \<Rightarrow> u32 \<Rightarrow> u32 \<Rightarrow> sysregs \<Rightarrow> sysregs" where
  "syscall3 nr a b c r = r\<lparr>eax := nr, ebx := a, ecx := b, edx := c\<rparr>"

definition syscall4 :: "u32 \<Rightarrow> u32 \<Rightarrow> u32 \<Rightarrow> u32 \<Rightarrow> u32 \<Rightarrow> sysregs \<Rightarrow> sysregs" where
  "syscall4 nr a b c d r = r\<lparr>eax := nr, ebx := a, ecx := b, edx := c, esi := d\<rparr>"

definition syscall5 :: "u32 \<Rightarrow> u32 \<Rightarrow> u32 \<Rightarrow> u32 \<Rightarrow> u32 \<Rightarrow> u32 \<Rightarrow> sysregs \<Rightarrow> sysregs" where
  "syscall5 nr a b c d e r = r\<lparr>eax := nr, ebx := a, ecx := b, edx := c, esi := d, edi := e\<rparr>"

definition lib_test :: "sysregs \<Rightarrow> sysregs" where "lib_test r = syscall0 SYS_NR_TEST r"
definition lib_yield :: "sysregs \<Rightarrow> sysregs" where "lib_yield r = syscall0 SYS_NR_YIELD r"
definition lib_sleep :: "u32 \<Rightarrow> sysregs \<Rightarrow> sysregs" where "lib_sleep ms r = syscall1 SYS_NR_SLEEP ms r"
definition lib_read :: "u32 \<Rightarrow> u32 \<Rightarrow> u32 \<Rightarrow> sysregs \<Rightarrow> sysregs" where "lib_read fd dst len r = syscall3 SYS_NR_READ fd dst len r"
definition lib_write :: "u32 \<Rightarrow> u32 \<Rightarrow> u32 \<Rightarrow> sysregs \<Rightarrow> sysregs" where "lib_write fd dst len r = syscall3 SYS_NR_WRITE fd dst len r"
definition lib_brk :: "u32 \<Rightarrow> sysregs \<Rightarrow> sysregs" where "lib_brk addr r = syscall1 SYS_NR_BRK addr r"
definition lib_getpid :: "sysregs \<Rightarrow> sysregs" where "lib_getpid r = syscall0 SYS_NR_GETPID r"
definition lib_getppid :: "sysregs \<Rightarrow> sysregs" where "lib_getppid r = syscall0 SYS_NR_GETPPID r"
definition lib_fork :: "sysregs \<Rightarrow> sysregs" where "lib_fork r = syscall0 SYS_NR_FORK r"
definition lib_exit :: "u32 \<Rightarrow> sysregs \<Rightarrow> sysregs" where "lib_exit status r = syscall1 SYS_NR_EXIT status r"
definition lib_waitpid :: "u32 \<Rightarrow> u32 \<Rightarrow> u32 \<Rightarrow> sysregs \<Rightarrow> sysregs" where "lib_waitpid pid status options r = syscall3 SYS_NR_WAITPID pid status options r"
definition lib_time :: "sysregs \<Rightarrow> sysregs" where "lib_time r = syscall0 SYS_NR_TIME r"
definition lib_umask :: "u32 \<Rightarrow> sysregs \<Rightarrow> sysregs" where "lib_umask um r = syscall1 SYS_NR_UMASK um r"
definition lib_mkdir :: "u32 \<Rightarrow> u32 \<Rightarrow> sysregs \<Rightarrow> sysregs" where "lib_mkdir pathname perm r = syscall2 SYS_NR_MKDIR pathname perm r"
definition lib_rmdir :: "u32 \<Rightarrow> sysregs \<Rightarrow> sysregs" where "lib_rmdir pathname r = syscall1 SYS_NR_RMDIR pathname r"
definition lib_link :: "u32 \<Rightarrow> u32 \<Rightarrow> sysregs \<Rightarrow> sysregs" where "lib_link oldname newname r = syscall2 SYS_NR_LINK oldname newname r"
definition lib_unlink :: "u32 \<Rightarrow> sysregs \<Rightarrow> sysregs" where "lib_unlink filename r = syscall1 SYS_NR_UNLINK filename r"
definition lib_open :: "u32 \<Rightarrow> u32 \<Rightarrow> u32 \<Rightarrow> sysregs \<Rightarrow> sysregs" where "lib_open filename flags perm r = syscall3 SYS_NR_OPEN filename flags perm r"
definition lib_creat :: "u32 \<Rightarrow> u32 \<Rightarrow> sysregs \<Rightarrow> sysregs" where "lib_creat filename perm r = syscall2 SYS_NR_CREAT filename perm r"
definition lib_close :: "u32 \<Rightarrow> sysregs \<Rightarrow> sysregs" where "lib_close fd r = syscall1 SYS_NR_CLOSE fd r"
definition lib_lseek :: "u32 \<Rightarrow> u32 \<Rightarrow> u32 \<Rightarrow> sysregs \<Rightarrow> sysregs" where "lib_lseek fd offset whence r = syscall3 SYS_NR_LSEEK fd offset whence r"
definition lib_getcwd :: "u32 \<Rightarrow> u32 \<Rightarrow> sysregs \<Rightarrow> sysregs" where "lib_getcwd dst sz r = syscall2 SYS_NR_GETCWD dst sz r"
definition lib_chdir :: "u32 \<Rightarrow> sysregs \<Rightarrow> sysregs" where "lib_chdir pathname r = syscall1 SYS_NR_CHDIR pathname r"
definition lib_chroot :: "u32 \<Rightarrow> sysregs \<Rightarrow> sysregs" where "lib_chroot pathname r = syscall1 SYS_NR_CHROOT pathname r"
definition lib_readdir :: "u32 \<Rightarrow> u32 \<Rightarrow> u32 \<Rightarrow> sysregs \<Rightarrow> sysregs" where "lib_readdir fd dir n r = syscall3 SYS_NR_READDIR fd dir n r"
definition lib_stat :: "u32 \<Rightarrow> u32 \<Rightarrow> sysregs \<Rightarrow> sysregs" where "lib_stat filename statbuf r = syscall2 SYS_NR_STAT filename statbuf r"
definition lib_fstat :: "u32 \<Rightarrow> u32 \<Rightarrow> sysregs \<Rightarrow> sysregs" where "lib_fstat fd statbuf r = syscall2 SYS_NR_FSTAT fd statbuf r"
definition lib_mknod :: "u32 \<Rightarrow> u32 \<Rightarrow> u32 \<Rightarrow> sysregs \<Rightarrow> sysregs" where "lib_mknod filename perm dev r = syscall3 SYS_NR_MKNOD filename perm dev r"
definition lib_mount :: "u32 \<Rightarrow> u32 \<Rightarrow> u32 \<Rightarrow> sysregs \<Rightarrow> sysregs" where "lib_mount devname dirname flags r = syscall3 SYS_NR_MOUNT devname dirname flags r"
definition lib_umount :: "u32 \<Rightarrow> sysregs \<Rightarrow> sysregs" where "lib_umount target r = syscall1 SYS_NR_UMOUNT target r"
definition lib_mkfs :: "u32 \<Rightarrow> u32 \<Rightarrow> sysregs \<Rightarrow> sysregs" where "lib_mkfs devname icount r = syscall2 SYS_NR_MKFS devname icount r"
text \<open>\<^verbatim>\<open>mmap\<close> puts its six arguments into a structure on the stack, at \<open>p\<close>.\<close>

definition mmap_args_at :: "mem \<Rightarrow> u32 \<Rightarrow> u32 \<Rightarrow> u32 \<Rightarrow> u32 \<Rightarrow> u32 \<Rightarrow> u32 \<Rightarrow> u32 \<Rightarrow> mem" where
  "mmap_args_at m p addr length' prot flg fd offset =
     poke32 (poke32 (poke32 (poke32 (poke32 (poke32 m p addr) (p + 4) length') (p + 8) prot) (p + 12) flg) (p + 16) fd) (p + 20) offset"

definition lib_mmap :: "mem \<Rightarrow> u32 \<Rightarrow> u32 \<Rightarrow> u32 \<Rightarrow> u32 \<Rightarrow> u32 \<Rightarrow> u32 \<Rightarrow> u32 \<Rightarrow> sysregs \<Rightarrow> mem \<times> sysregs" where
  "lib_mmap m p addr length' prot flg fd offset r = (mmap_args_at m p addr length' prot flg fd offset, syscall1 SYS_NR_MMAP p r)"

definition lib_munmap :: "u32 \<Rightarrow> u32 \<Rightarrow> sysregs \<Rightarrow> sysregs" where "lib_munmap addr len r = syscall2 SYS_NR_MUNMAP addr len r"
definition lib_execve :: "u32 \<Rightarrow> u32 \<Rightarrow> u32 \<Rightarrow> sysregs \<Rightarrow> sysregs" where "lib_execve filename argv envp r = syscall3 SYS_NR_EXECVE filename argv envp r"
definition lib_dup :: "u32 \<Rightarrow> sysregs \<Rightarrow> sysregs" where "lib_dup oldfd r = syscall1 SYS_NR_DUP oldfd r"
definition lib_dup2 :: "u32 \<Rightarrow> u32 \<Rightarrow> sysregs \<Rightarrow> sysregs" where "lib_dup2 oldfd newfd r = syscall2 SYS_NR_DUP2 oldfd newfd r"
definition lib_pipe :: "u32 \<Rightarrow> sysregs \<Rightarrow> sysregs" where "lib_pipe pipefd r = syscall1 SYS_NR_PIPE pipefd r"
definition lib_setsid :: "sysregs \<Rightarrow> sysregs" where "lib_setsid r = syscall0 SYS_NR_SETSID r"
definition lib_setpgid :: "u32 \<Rightarrow> u32 \<Rightarrow> sysregs \<Rightarrow> sysregs" where "lib_setpgid pid pgid r = syscall2 SYS_NR_SETPGID pid pgid r"
definition lib_setpgrp :: "sysregs \<Rightarrow> sysregs" where "lib_setpgrp r = lib_setpgid 0 0 r"
definition lib_getpgrp :: "sysregs \<Rightarrow> sysregs" where "lib_getpgrp r = syscall0 SYS_NR_GETPGRP r"
definition lib_stty :: "sysregs \<Rightarrow> sysregs" where "lib_stty r = syscall0 SYS_NR_STTY r"
definition lib_gtty :: "sysregs \<Rightarrow> sysregs" where "lib_gtty r = syscall0 SYS_NR_GTTY r"
definition lib_ioctl :: "u32 \<Rightarrow> u32 \<Rightarrow> u32 \<Rightarrow> sysregs \<Rightarrow> sysregs" where "lib_ioctl fd cmd args r = syscall3 SYS_NR_IOCTL fd cmd args r"
definition lib_kill :: "u32 \<Rightarrow> u32 \<Rightarrow> sysregs \<Rightarrow> sysregs" where "lib_kill pid signal r = syscall2 SYS_NR_KILL pid signal r"
definition lib_sgetmask :: "sysregs \<Rightarrow> sysregs" where "lib_sgetmask r = syscall0 SYS_NR_SGETMASK r"
definition lib_ssetmask :: "u32 \<Rightarrow> sysregs \<Rightarrow> sysregs" where "lib_ssetmask newmask r = syscall1 SYS_NR_SSETMASK newmask r"
definition lib_signal :: "u32 \<Rightarrow> u32 \<Rightarrow> u32 \<Rightarrow> sysregs \<Rightarrow> sysregs" where "lib_signal restorer sig handler r = syscall3 SYS_NR_SIGNAL sig handler restorer r"
definition lib_sigaction :: "u32 \<Rightarrow> u32 \<Rightarrow> u32 \<Rightarrow> sysregs \<Rightarrow> sysregs" where "lib_sigaction sig action oldaction r = syscall3 SYS_NR_SIGACTION sig action oldaction r"

section \<open>The entry\<close>

text \<open>
  The number is compared with the address of the variable \<^verbatim>\<open>nr_syscall\<close>, less one, not with its value. The handler gets the
  five argument registers; a number behind the table calls whatever word stands there, which has no value here.
\<close>

definition syscall_handler :: "u32 \<Rightarrow> sysfn list \<Rightarrow> sysregs \<Rightarrow> (u32 + sysfn \<times> u32 list) option" where
  "syscall_handler nr_syscall_addr table r =
     (if eax r > nr_syscall_addr - 1 then Some (Inl (- 1))
      else do {
        f \<leftarrow> aget table (unat (eax r));
        Some (Inr (f, [ebx r, ecx r, edx r, esi r, edi r])) })"

section \<open>Properties\<close>

lemmas syscall_numbers =
  SYS_NR_TEST_def SYS_NR_EXIT_def SYS_NR_FORK_def SYS_NR_READ_def SYS_NR_WRITE_def SYS_NR_OPEN_def
  SYS_NR_CLOSE_def SYS_NR_WAITPID_def SYS_NR_CREAT_def SYS_NR_LINK_def SYS_NR_UNLINK_def SYS_NR_EXECVE_def
  SYS_NR_CHDIR_def SYS_NR_TIME_def SYS_NR_MKNOD_def SYS_NR_STAT_def SYS_NR_LSEEK_def SYS_NR_GETPID_def
  SYS_NR_MOUNT_def SYS_NR_UMOUNT_def SYS_NR_ALARM_def SYS_NR_FSTAT_def SYS_NR_STTY_def SYS_NR_GTTY_def
  SYS_NR_KILL_def SYS_NR_MKDIR_def SYS_NR_RMDIR_def SYS_NR_DUP_def SYS_NR_PIPE_def SYS_NR_BRK_def
  SYS_NR_SIGNAL_def SYS_NR_IOCTL_def SYS_NR_SETPGID_def SYS_NR_UNAME_def SYS_NR_UMASK_def SYS_NR_CHROOT_def
  SYS_NR_DUP2_def SYS_NR_GETPPID_def SYS_NR_GETPGRP_def SYS_NR_SETSID_def SYS_NR_SIGACTION_def SYS_NR_SGETMASK_def
  SYS_NR_SSETMASK_def SYS_NR_READDIR_def SYS_NR_MMAP_def SYS_NR_MUNMAP_def SYS_NR_YIELD_def SYS_NR_SLEEP_def
  SYS_NR_GETCWD_def SYS_NR_SOCKET_def SYS_NR_BIND_def SYS_NR_CONNECT_def SYS_NR_LISTEN_def SYS_NR_ACCEPT_def
  SYS_NR_GETSOCKOPT_def SYS_NR_SETSOCKOPT_def SYS_NR_GETSOCKNAME_def SYS_NR_GETPEERNAME_def SYS_NR_SENDTO_def SYS_NR_SENDMSG_def
  SYS_NR_RECVFROM_def SYS_NR_RECVMSG_def SYS_NR_SHUTDOWN_def SYS_NR_RESOLV_def SYS_NR_MKFS_def

lemmas stub_defs =
  lib_test_def lib_yield_def lib_sleep_def lib_read_def lib_write_def lib_brk_def lib_getpid_def lib_getppid_def
  lib_fork_def lib_exit_def lib_waitpid_def lib_time_def lib_umask_def lib_mkdir_def lib_rmdir_def lib_link_def
  lib_unlink_def lib_open_def lib_creat_def lib_close_def lib_lseek_def lib_getcwd_def lib_chdir_def lib_chroot_def
  lib_readdir_def lib_stat_def lib_fstat_def lib_mknod_def lib_mount_def lib_umount_def lib_mkfs_def lib_munmap_def
  lib_execve_def lib_dup_def lib_dup2_def lib_pipe_def lib_setsid_def lib_setpgid_def lib_getpgrp_def lib_stty_def
  lib_gtty_def lib_ioctl_def lib_kill_def lib_sgetmask_def lib_ssetmask_def lib_signal_def lib_sigaction_def
  lib_setpgrp_def lib_mmap_def

definition reaches :: "u32 \<Rightarrow> sysregs \<Rightarrow> sysfn \<Rightarrow> u32 list \<Rightarrow> bool" where
  "reaches addr r f args \<longleftrightarrow> (\<exists>rest. syscall_handler addr syscall_init r = Some (Inr (f, args @ rest)))"

lemma table_nth:
  "i < 256 \<Longrightarrow> syscall_init ! i = (case map_of (rev (map (\<lambda>(n, f). (unat n, f)) syscall_entries)) i of None \<Rightarrow> Sys_default | Some f \<Rightarrow> f)"
proof -
  have "i < length t \<Longrightarrow> foldl (\<lambda>t (n, f). t[unat n := f]) t es ! i =
      (case map_of (rev (map (\<lambda>(n, f). (unat n, f)) es)) i of None \<Rightarrow> t ! i | Some f \<Rightarrow> f)" for t :: "sysfn list" and es :: "(u32 \<times> sysfn) list"
    by (induction es arbitrary: t) (auto simp: map_add_def nth_list_update split: option.splits)
  then show "i < 256 \<Longrightarrow> syscall_init ! i = (case map_of (rev (map (\<lambda>(n, f). (unat n, f)) syscall_entries)) i of None \<Rightarrow> Sys_default | Some f \<Rightarrow> f)"
    by (simp add: syscall_init_def NR_SYSCALL_def split: option.split)
qed

lemma table_length: "length syscall_init = 256"
proof -
  have "length (foldl (\<lambda>t (n, f). t[unat n := f]) t es) = length t" for t :: "sysfn list" and es :: "(u32 \<times> sysfn) list"
    by (induction es arbitrary: t) auto
  then show ?thesis by (simp add: syscall_init_def NR_SYSCALL_def)
qed

lemma table_distinct: "distinct (map (\<lambda>(n, f). unat n) syscall_entries)" "\<forall>(n, f) \<in> set syscall_entries. n < 256"
  by (simp_all add: syscall_entries_def syscall_numbers)

lemma table_entry: "(n, f) \<in> set syscall_entries \<Longrightarrow> syscall_init ! unat n = f"
proof -
  assume e: "(n, f) \<in> set syscall_entries"
  let ?es = "map (\<lambda>(n, f). (unat n, f)) syscall_entries"
  have d: "distinct (map fst (rev ?es))" using table_distinct(1) by (simp add: rev_map [symmetric] comp_def case_prod_unfold)
  have "(unat n, f) \<in> set (rev ?es)" using e by force
  then have "map_of (rev ?es) (unat n) = Some f" using d by (simp add: map_of_is_SomeI)
  moreover have "unat n < 256" using table_distinct(2) e by (auto simp: word_less_nat_alt)
  ultimately show "syscall_init ! unat n = f" by (simp add: table_nth)
qed

lemma reaches_entry:
  assumes "(eax r, f) \<in> set syscall_entries" "256 \<le> addr" "args @ rest = [ebx r, ecx r, edx r, esi r, edi r]"
  shows "reaches addr r f args"
proof -
  have lt: "eax r < 256" using table_distinct(2) assms(1) by auto
  then have "unat (eax r) < 256" by (simp add: word_less_nat_alt)
  moreover have "\<not> eax r > addr - 1"
  proof -
    have "unat (addr - 1) = unat addr - 1" using assms(2) by (subst unat_sub) (auto simp: word_le_nat_alt)
    then show ?thesis using lt assms(2) by (auto simp: word_less_nat_alt word_le_nat_alt)
  qed
  ultimately have "syscall_handler addr syscall_init r = Some (Inr (f, args @ rest))"
    using table_entry [OF assms(1)] assms(3) by (simp add: syscall_handler_def table_length)
  then show ?thesis unfolding reaches_def by blast
qed

lemma reaches_stub:
  assumes "256 \<le> addr"
  shows "(nr, f) \<in> set syscall_entries \<Longrightarrow> reaches addr (syscall0 nr r) f []"
    and "(nr, f) \<in> set syscall_entries \<Longrightarrow> reaches addr (syscall1 nr a r) f [a]"
    and "(nr, f) \<in> set syscall_entries \<Longrightarrow> reaches addr (syscall2 nr a b r) f [a, b]"
    and "(nr, f) \<in> set syscall_entries \<Longrightarrow> reaches addr (syscall3 nr a b c r) f [a, b, c]"
  by (rule reaches_entry [OF _ assms]; force simp: syscall0_def syscall1_def syscall2_def syscall3_def)+

lemma mmap_args_read:
  "map (peek32 (fst (lib_mmap m p a len prot flg fd offset r))) [p, p + 4, p + 8, p + 12, p + 16, p + 20] = [a, len, prot, flg, fd, offset]"
  by (simp add: lib_mmap_def mmap_args_at_def peek32_poke32_other)

text \<open>
  C32. Every stub of the system library reaches the handler it is named for, with its arguments in their order, whatever
  the registers held; \<^verbatim>\<open>signal\<close> adds the restorer and \<^verbatim>\<open>setpgrp\<close> is \<^verbatim>\<open>setpgid\<close> of zeros. The structure whose address \<^verbatim>\<open>mmap\<close>
  passes holds its six arguments in the order of the fields of \<^verbatim>\<open>mmap_args\<close>.
\<close>

theorem stubs_reach_handlers:
  assumes "256 \<le> lim"
  shows "reaches lim (lib_test r) Sys_test [] \<and> reaches lim (lib_yield r) Sys_yield [] \<and>
    reaches lim (lib_sleep ms r) Sys_sleep [ms] \<and> reaches lim (lib_read fd dst len r) Sys_read [fd, dst, len] \<and>
    reaches lim (lib_write fd dst len r) Sys_write [fd, dst, len] \<and> reaches lim (lib_brk addr r) Sys_brk [addr] \<and>
    reaches lim (lib_getpid r) Sys_getpid [] \<and> reaches lim (lib_getppid r) Sys_getppid [] \<and>
    reaches lim (lib_fork r) Sys_fork [] \<and> reaches lim (lib_exit status r) Sys_exit [status] \<and>
    reaches lim (lib_waitpid pid status options r) Sys_waitpid [pid, status, options] \<and> reaches lim (lib_time r) Sys_time [] \<and>
    reaches lim (lib_umask um r) Sys_umask [um] \<and> reaches lim (lib_mkdir pathname perm r) Sys_mkdir [pathname, perm] \<and>
    reaches lim (lib_rmdir pathname r) Sys_rmdir [pathname] \<and> reaches lim (lib_link oldname newname r) Sys_link [oldname, newname] \<and>
    reaches lim (lib_unlink filename r) Sys_unlink [filename] \<and> reaches lim (lib_open filename flags perm r) Sys_open [filename, flags, perm] \<and>
    reaches lim (lib_creat filename perm r) Sys_creat [filename, perm] \<and> reaches lim (lib_close fd r) Sys_close [fd] \<and>
    reaches lim (lib_lseek fd offset whence r) Sys_lseek [fd, offset, whence] \<and> reaches lim (lib_getcwd dst sz r) Sys_getcwd [dst, sz] \<and>
    reaches lim (lib_chdir pathname r) Sys_chdir [pathname] \<and> reaches lim (lib_chroot pathname r) Sys_chroot [pathname] \<and>
    reaches lim (lib_readdir fd dir n r) Sys_readdir [fd, dir, n] \<and> reaches lim (lib_stat filename statbuf r) Sys_stat [filename, statbuf] \<and>
    reaches lim (lib_fstat fd statbuf r) Sys_fstat [fd, statbuf] \<and> reaches lim (lib_mknod filename perm dev r) Sys_mknod [filename, perm, dev] \<and>
    reaches lim (lib_mount devname dirname flags r) Sys_mount [devname, dirname, flags] \<and> reaches lim (lib_umount target r) Sys_umount [target] \<and>
    reaches lim (lib_mkfs devname icount r) Sys_mkfs [devname, icount] \<and> reaches lim (lib_munmap addr len r) Sys_munmap [addr, len] \<and>
    reaches lim (lib_execve filename argv envp r) Sys_execve [filename, argv, envp] \<and> reaches lim (lib_dup oldfd r) Sys_dup [oldfd] \<and>
    reaches lim (lib_dup2 oldfd newfd r) Sys_dup2 [oldfd, newfd] \<and> reaches lim (lib_pipe pipefd r) Sys_pipe [pipefd] \<and>
    reaches lim (lib_setsid r) Sys_setsid [] \<and> reaches lim (lib_setpgid pid pgid r) Sys_setpgid [pid, pgid] \<and>
    reaches lim (lib_getpgrp r) Sys_getpgrp [] \<and> reaches lim (lib_stty r) Sys_stty [] \<and>
    reaches lim (lib_gtty r) Sys_gtty [] \<and> reaches lim (lib_ioctl fd cmd args r) Sys_ioctl [fd, cmd, args] \<and>
    reaches lim (lib_kill pid signal r) Sys_kill [pid, signal] \<and> reaches lim (lib_sgetmask r) Sys_sgetmask [] \<and>
    reaches lim (lib_ssetmask newmask r) Sys_ssetmask [newmask] \<and> reaches lim (lib_signal restorer sig handler r) Sys_signal [sig, handler, restorer] \<and>
    reaches lim (lib_sigaction sig action oldaction r) Sys_sigaction [sig, action, oldaction] \<and>
    reaches lim (lib_setpgrp r) Sys_setpgid [0, 0] \<and> reaches lim (snd (lib_mmap m p a len prot flg fd offset r)) Sys_mmap [p] \<and>
    map (peek32 (fst (lib_mmap m p a len prot flg fd offset r))) [p, p + 4, p + 8, p + 12, p + 16, p + 20] = [a, len, prot, flg, fd, offset]"
  by (intro conjI mmap_args_read; simp only: stub_defs snd_conv; rule reaches_stub [OF assms]; simp add: syscall_entries_def)

definition zero_sysregs :: sysregs where
  "zero_sysregs = \<lparr>eax = 0, ebx = 0, ecx = 0, edx = 0, esi = 0, edi = 0\<rparr>"

lemma stubs_reach_handlers_witness:
  "reaches 0xC0012340 (lib_read 3 0x8000 512 zero_sysregs) Sys_read [3, 0x8000, 512] \<and>
   reaches 0xC0012340 (lib_kill 5 9 zero_sysregs) Sys_kill [5, 9]"
  using stubs_reach_handlers [of "0xC0012340" zero_sysregs] by simp

lemma table_used: "syscall_init ! unat n \<noteq> Sys_default" if n: "n \<in> fst ` set syscall_entries"
proof -
  obtain f where f: "(n, f) \<in> set syscall_entries" using n by force
  then have "f \<noteq> Sys_default" by (auto simp: syscall_entries_def)
  then show ?thesis using table_entry [OF f] by simp
qed

lemma table_unused: "syscall_init ! unat n = Sys_default" if "n < 256" "n \<notin> fst ` set syscall_entries"
proof -
  have "unat n \<notin> fst ` set (rev (map (\<lambda>(n, f). (unat n, f)) syscall_entries))"
  proof
    assume "unat n \<in> fst ` set (rev (map (\<lambda>(n, f). (unat n, f)) syscall_entries))"
    then obtain k f where "(k, f) \<in> set syscall_entries" "unat n = unat k" by auto
    then show False using that(2) by (force simp: word_unat_eq_iff)
  qed
  then have "map_of (rev (map (\<lambda>(n, f). (unat n, f)) syscall_entries)) (unat n) = None" by (simp only: map_of_eq_None_iff) simp
  moreover have "unat n < 256" using that(1) by (simp add: word_less_nat_alt)
  ultimately show ?thesis by (simp add: table_nth)
qed

text \<open>
  C39. What the entry of the system calls does with a number, for a kernel whose variable \<^verbatim>\<open>nr_syscall\<close> lies at \<open>lim\<close>: below 256 it calls
  the table's handler, which is the default one exactly for the numbers without an entry; from the variable's address on it returns
  -1; and all numbers from 256 up to that address are not refused, it calls what lies behind the table.
\<close>

theorem syscall_number_unchecked:
  assumes "256 \<le> lim"
  shows "(eax r < 256 \<longrightarrow> (\<exists>f. reaches lim r f [ebx r, ecx r, edx r, esi r, edi r] \<and> (f = Sys_default \<longleftrightarrow> eax r \<notin> fst ` set syscall_entries))) \<and>
     (lim \<le> eax r \<longrightarrow> syscall_handler lim syscall_init r = Some (Inl (- 1))) \<and>
     (256 \<le> eax r \<and> eax r < lim \<longrightarrow> syscall_handler lim syscall_init r = None)"
proof -
  have sub: "unat (lim - 1) = unat lim - 1" "256 \<le> unat lim" using assms unat_sub [of 1 lim] by (auto simp: word_le_nat_alt)
  have gt: "eax r > lim - 1 \<longleftrightarrow> lim \<le> eax r" using sub by (auto simp: word_less_nat_alt word_le_nat_alt)
  have high: "lim \<le> eax r \<longrightarrow> syscall_handler lim syscall_init r = Some (Inl (- 1))" using gt by (simp add: syscall_handler_def)
  have mid: "256 \<le> eax r \<and> eax r < lim \<longrightarrow> syscall_handler lim syscall_init r = None"
    using gt by (simp add: syscall_handler_def aget_def table_length word_le_nat_alt not_le word_less_nat_alt)
  have "\<exists>f. reaches lim r f [ebx r, ecx r, edx r, esi r, edi r] \<and> (f = Sys_default \<longleftrightarrow> eax r \<notin> fst ` set syscall_entries)" if lt: "eax r < 256"
  proof -
    have "unat (eax r) < 256" "\<not> eax r > lim - 1" using lt gt assms by (auto simp: word_less_nat_alt word_le_nat_alt)
    then have "reaches lim r (syscall_init ! unat (eax r)) [ebx r, ecx r, edx r, esi r, edi r]"
      by (simp add: reaches_def syscall_handler_def table_length)
    then show ?thesis using table_used table_unused [OF lt] by blast
  qed
  then show ?thesis using high mid by blast
qed

lemma syscall_number_unchecked_witness:
  "syscall_handler 0xC0012340 syscall_init (syscall0 SYS_NR_SOCKET zero_sysregs) = None \<and>
   syscall_handler 0xC0012340 syscall_init (syscall0 0xD0000000 zero_sysregs) = Some (Inl (- 1)) \<and>
   (\<exists>f. reaches 0xC0012340 (syscall0 SYS_NR_ALARM zero_sysregs) f [0, 0, 0, 0, 0])"
proof -
  have lim: "256 \<le> (0xC0012340 :: u32)" by simp
  have "256 \<le> eax (syscall0 SYS_NR_SOCKET zero_sysregs)" "eax (syscall0 SYS_NR_SOCKET zero_sysregs) < 0xC0012340"
    "0xC0012340 \<le> eax (syscall0 0xD0000000 zero_sysregs)" "eax (syscall0 SYS_NR_ALARM zero_sysregs) < 256"
    "ebx (syscall0 n zero_sysregs) = 0" "ecx (syscall0 n zero_sysregs) = 0" "edx (syscall0 n zero_sysregs) = 0" "esi (syscall0 n zero_sysregs) = 0"
    "edi (syscall0 n zero_sysregs) = 0" for n
    by (simp_all add: syscall0_def SYS_NR_SOCKET_def SYS_NR_ALARM_def zero_sysregs_def)
  then show ?thesis using syscall_number_unchecked [OF lim, of "syscall0 SYS_NR_SOCKET zero_sysregs"]
      syscall_number_unchecked [OF lim, of "syscall0 0xD0000000 zero_sysregs"] syscall_number_unchecked [OF lim, of "syscall0 SYS_NR_ALARM zero_sysregs"]
    by metis
qed

end
