(* ===== verification/Terminal.thy ===== *)
theory Terminal
  imports Keyboard Mount File_Ops Ide Serial
begin

text \<open>
  The terminal device, \<^verbatim>\<open>src/kernel/tty.c\<close> beyond its part in the keyboard interrupt (theory Keyboard), and the special
  files of \<^verbatim>\<open>src/fs/dev.c\<close>.

  A driver is a function of the input and output state of the devices, while the terminal's drivers go through the
  table of devices again; they are arguments of \<open>tty_init\<close>. \<^verbatim>\<open>dev_init\<close> uses the table of devices and the file system, two
  states here; it changes the second only.

  Shown: which special files \<^verbatim>\<open>dev_init\<close> makes, and that its endless loop ends.
\<close>

section \<open>The terminal device\<close>

definition DEV_KEYBOARD :: u32 where "DEV_KEYBOARD = 2"
definition DEV_TTY :: u32 where "DEV_TTY = 4"
definition ENOSYS :: u32 where "ENOSYS = 38"

record terminal =
  td_tty :: tty
  td_rdev :: u32
  td_wdev :: u32

definition tty_read :: "terminal \<Rightarrow> 's devs \<Rightarrow> u32 \<Rightarrow> u32 \<Rightarrow> (u32 \<times> 's devs) option" where
  "tty_read t d dst count = device_read d (td_rdev t) dst count 0 0"

definition tty_write :: "terminal \<Rightarrow> 's devs \<Rightarrow> u32 \<Rightarrow> u32 \<Rightarrow> (u32 \<times> 's devs) option" where
  "tty_write t d src count = device_write d (td_wdev t) src count 0 0"

definition sys_stty :: u32 where "sys_stty = - ENOSYS"
definition sys_gtty :: u32 where "sys_gtty = - ENOSYS"

definition find_dev :: "'s devs \<Rightarrow> u32 \<Rightarrow> u32 option" where
  "find_dev d subtype = do { n \<leftarrow> device_find d subtype 0; v \<leftarrow> aget (device_list d) n; Some (d_dev v) }"

definition tty_name :: "u8 list" where "tty_name = [0x74, 0x74, 0x79]"

definition tty_init :: "'s driver \<Rightarrow> 's driver \<Rightarrow> 's driver \<Rightarrow> u32 \<Rightarrow> terminal \<Rightarrow> 's devs \<Rightarrow> (terminal \<times> 's devs) option" where
  "tty_init ioctl rd wr ptr t d = do {
     r \<leftarrow> find_dev d DEV_KEYBOARD;
     let t = t\<lparr>td_rdev := r\<rparr>;
     w \<leftarrow> find_dev d DEV_CONSOLE;
     let t = t\<lparr>td_tty := (td_tty t)\<lparr>tty_echo := True\<rparr>, td_wdev := w\<rparr>;
     (_, d) \<leftarrow> device_install d DEV_CHAR DEV_TTY ptr tty_name 0 (Some ioctl) (Some rd) (Some wr);
     Some (t, d) }"

section \<open>Special files\<close>

definition IRUSR :: u32 where "IRUSR = 0x100"
definition IWUSR :: u32 where "IWUSR = 0x80"
definition STDIN_FILENO :: nat where "STDIN_FILENO = 0"
definition STDOUT_FILENO :: nat where "STDOUT_FILENO = 1"
definition STDERR_FILENO :: nat where "STDERR_FILENO = 2"

definition ascii :: "string \<Rightarrow> u8 list" where
  "ascii s = map (\<lambda>c. of_nat (of_char c)) s"

definition dev_path :: "u8 list \<Rightarrow> u8 list" where
  "dev_path name = ascii ''/dev/'' @ name"

type_synonym node = "u8 list \<times> u32 \<times> u32"

definition subtype_list :: "u32 list" where
  "subtype_list = [DEV_IDE_DISK, DEV_IDE_PART, DEV_RAMDISK, DEV_SERIAL]"

definition make_node :: "u32 \<Rightarrow> 's device \<Rightarrow> node" where
  "make_node subtype v = (dev_path (d_name v), (if subtype = DEV_SERIAL then IFCHR else IFBLK) OR (IRUSR OR IWUSR), d_dev v)"

text \<open>
  The loop as the list of nodes it makes. Its bound lets \<open>target\<close> reach 4, the word behind the four subtypes, \<open>behind\<close>. The
  index is raised before the comparison that is to skip the first disk.
\<close>

partial_function (option) dev_loop :: "'s devs \<Rightarrow> u32 \<Rightarrow> nat \<Rightarrow> u32 \<Rightarrow> node list option" where
  "dev_loop d behind target i = do {
     subtype \<leftarrow> aget (subtype_list @ [behind]) target;
     case device_find d subtype i of
       None \<Rightarrow> if target + 1 > length subtype_list then Some [] else dev_loop d behind (target + 1) 0
     | Some n \<Rightarrow> do {
         v \<leftarrow> aget (device_list d) n;
         if subtype = DEV_RAMDISK \<and> i + 1 = 0 then dev_loop d behind target (i + 1)
         else do {
           nodes \<leftarrow> dev_loop d behind target (i + 1);
           Some (make_node subtype v # nodes) } } }"

fun mknods :: "vfs \<Rightarrow> node list \<Rightarrow> vfs option" where
  "mknods s [] = Some s"
| "mknods s ((name, mode, dev) # ns) = do { (_, s) \<leftarrow> sys_mknod s (Some name) mode dev; mknods s ns }"

definition std_file :: "nat \<Rightarrow> string \<Rightarrow> u32 \<Rightarrow> vfs \<Rightarrow> vfs option" where
  "std_file fd name flg s = do {
     (p, s) \<leftarrow> namei s (Some (ascii name));
     n \<leftarrow> p;
     x \<leftarrow> idesc s n;
     upd_file s fd (\<lambda>f. f\<lparr>f_inode := Some n, f_mode := ucast (d_mode x), f_flags := flg, f_offset := 0\<rparr>) }"

definition dev_init :: "u32 \<Rightarrow> u32 \<Rightarrow> 's devs \<Rightarrow> vfs \<Rightarrow> vfs option" where
  "dev_init sectors behind d s = do {
     (_, s) \<leftarrow> sys_mkdir s (Some (ascii ''/dev'')) 0x1ED;
     ram \<leftarrow> find_dev d DEV_RAMDISK;
     (_, s) \<leftarrow> devmkfs sectors s ram 0;
     (p, s) \<leftarrow> read_super s ram;
     sb \<leftarrow> p;
     (root, s) \<leftarrow> iget s ram 1;
     s \<leftarrow> upd_super s sb (\<lambda>b. b\<lparr>s_iroot := Some root\<rparr>);
     (q, s) \<leftarrow> namei s (Some (ascii ''/dev''));
     s \<leftarrow> upd_super s sb (\<lambda>b. b\<lparr>s_imount := q\<rparr>);
     n \<leftarrow> q;
     s \<leftarrow> upd_inode s n (\<lambda>x. x\<lparr>i_mount := ram\<rparr>);
     console \<leftarrow> find_dev d DEV_CONSOLE;
     (_, s) \<leftarrow> sys_mknod s (Some (ascii ''/dev/console'')) (IFCHR OR IWUSR) console;
     keyboard \<leftarrow> find_dev d DEV_KEYBOARD;
     (_, s) \<leftarrow> sys_mknod s (Some (ascii ''/dev/keyboard'')) (IFCHR OR IRUSR) keyboard;
     tty \<leftarrow> find_dev d DEV_TTY;
     (_, s) \<leftarrow> sys_mknod s (Some (ascii ''/dev/tty'')) (IFCHR OR (IRUSR OR IWUSR)) tty;
     nodes \<leftarrow> dev_loop d behind 0 0;
     s \<leftarrow> mknods s nodes;
     (_, s) \<leftarrow> sys_link s (Some (ascii ''/dev/tty'')) (Some (ascii ''/dev/stdout''));
     (_, s) \<leftarrow> sys_link s (Some (ascii ''/dev/tty'')) (Some (ascii ''/dev/stderr''));
     (_, s) \<leftarrow> sys_link s (Some (ascii ''/dev/tty'')) (Some (ascii ''/dev/stdin''));
     s \<leftarrow> std_file STDIN_FILENO ''/dev/stdin'' O_RDONLY s;
     s \<leftarrow> std_file STDOUT_FILENO ''/dev/stdout'' O_WRONLY s;
     std_file STDERR_FILENO ''/dev/stderr'' O_WRONLY s }"

section \<open>Properties\<close>

definition of_subtype :: "'s devs \<Rightarrow> u32 \<Rightarrow> 's device list" where
  "of_subtype d subtype = filter (\<lambda>v. d_subtype v = subtype) (device_list d)"

lemma find_from_spec:
  "case device_find_from ds k st nr idx of
     None \<Rightarrow> \<forall>j < length (filter (\<lambda>v. d_subtype v = st) ds). nr + of_nat j \<noteq> idx
   | Some n \<Rightarrow> \<exists>j < length (filter (\<lambda>v. d_subtype v = st) ds). nr + of_nat j = idx \<and> k \<le> n \<and> n < k + length ds \<and>
       ds ! (n - k) = filter (\<lambda>v. d_subtype v = st) ds ! j"
proof (induction ds arbitrary: k nr)
  case (Cons v ds)
  show ?case
  proof (cases "d_subtype v = st")
    case True
    show ?thesis
    proof (cases "nr = idx")
      case True
      then show ?thesis using \<open>d_subtype v = st\<close> by auto
    next
      case False
      with \<open>d_subtype v = st\<close> have r: "device_find_from (v # ds) k st nr idx = device_find_from ds (k + 1) st (nr + 1) idx" by simp
      show ?thesis
      proof (cases "device_find_from ds (k + 1) st (nr + 1) idx")
        case None
        then have "\<forall>j < length (filter (\<lambda>v. d_subtype v = st) ds). (nr + 1) + of_nat j \<noteq> idx" using Cons.IH [where k = "k + 1" and nr = "nr + 1"] by simp
        then have "nr + of_nat j \<noteq> idx" if "j < length (filter (\<lambda>v. d_subtype v = st) (v # ds))" for j
          using that False \<open>d_subtype v = st\<close> by (cases j) (auto simp: algebra_simps)
        then show ?thesis using r None by simp
      next
        case (Some n)
        then obtain j where j: "j < length (filter (\<lambda>v. d_subtype v = st) ds)" "nr + 1 + of_nat j = idx" "k + 1 \<le> n" "n < k + 1 + length ds"
            "ds ! (n - (k + 1)) = filter (\<lambda>v. d_subtype v = st) ds ! j"
          using Cons.IH [where k = "k + 1" and nr = "nr + 1"] by auto
        have "(v # ds) ! (n - k) = ds ! (n - (k + 1))" using j(3) by (simp add: nth_Cons')
        then show ?thesis using r Some j \<open>d_subtype v = st\<close> by (simp add: exI [of _ "Suc j"] algebra_simps)
      qed
    qed
  next
    case False
    then have r: "device_find_from (v # ds) k st nr idx = device_find_from ds (k + 1) st nr idx" by simp
    have "(v # ds) ! (n - k) = ds ! (n - (k + 1))" if "k + 1 \<le> n" for n using that by (simp add: nth_Cons')
    then show ?thesis using Cons.IH [where k = "k + 1" and nr = nr] False by (fastforce simp: r split: option.splits)
  qed
qed simp

lemma find_at:
  assumes "length (device_list d) < 2 ^ 32" "j \<le> length (of_subtype d st)"
  shows "case device_find d st (of_nat j) of
     None \<Rightarrow> j = length (of_subtype d st)
   | Some n \<Rightarrow> j < length (of_subtype d st) \<and> n < length (device_list d) \<and> device_list d ! n = of_subtype d st ! j"
proof -
  have len: "length (of_subtype d st) < 2 ^ 32" unfolding of_subtype_def by (rule le_less_trans [OF length_filter_le assms(1)])
  have same: "i = j" if "i < length (of_subtype d st)" "0 + of_nat i = (of_nat j :: u32)" for i
  proof -
    have "i < 2 ^ 32" "j < 2 ^ 32" using that(1) assms(2) len by linarith+
    then have "(0 :: u32) + of_nat i = 0 + of_nat j \<longleftrightarrow> i = j" by (rule offset_eq)
    then show ?thesis using that(2) by (simp only: add_0)
  qed
  show ?thesis
  proof (cases "device_find d st (of_nat j)")
    case None
    then have "\<forall>i < length (of_subtype d st). 0 + of_nat i \<noteq> (of_nat j :: u32)"
      using find_from_spec [where ds = "device_list d" and k = 0 and st = st and nr = 0 and idx = "of_nat j"] by (simp add: device_find_def of_subtype_def)
    then show ?thesis using None assms(2) by (auto simp: le_less)
  next
    case (Some n)
    then obtain i where "i < length (of_subtype d st)" "0 + of_nat i = (of_nat j :: u32)" "n < length (device_list d)" "device_list d ! n = of_subtype d st ! i"
      using find_from_spec [where ds = "device_list d" and k = 0 and st = st and nr = 0 and idx = "of_nat j"] by (auto simp: device_find_def of_subtype_def)
    then show ?thesis using same Some by auto
  qed
qed

lemma dev_loop_rest:
  assumes len: "length (device_list d) < 2 ^ 32 - 1" and st: "aget (subtype_list @ [behind]) target = Some st"
    and next': "(if target + 1 > length subtype_list then Some [] else dev_loop d behind (target + 1) 0) = Some rest"
  shows "j \<le> length (of_subtype d st) \<Longrightarrow>
    dev_loop d behind target (of_nat j) = Some (map (make_node st) (drop j (of_subtype d st)) @ rest)"
proof (induction "length (of_subtype d st) - j" arbitrary: j)
  case 0
  then have "j = length (of_subtype d st)" by simp
  moreover have "device_find d st (of_nat j) = None" using find_at [of d j st] len calculation by (auto split: option.splits)
  ultimately show ?case using next' by (subst dev_loop.simps) (simp add: st)
next
  case (Suc k)
  then have j: "j < length (of_subtype d st)" by simp
  obtain n where n: "device_find d st (of_nat j) = Some n" "n < length (device_list d)" "device_list d ! n = of_subtype d st ! j"
    using find_at [of d j st] len j by (auto split: option.splits)
  have l: "length (of_subtype d st) \<le> length (device_list d)" by (simp add: of_subtype_def)
  have nz: "(of_nat j :: u32) + 1 \<noteq> 0"
  proof
    assume "(of_nat j :: u32) + 1 = 0"
    then have "(of_nat (Suc j) :: u32) = 0" by (simp add: add.commute)
    moreover have "unat (of_nat (Suc j) :: u32) = Suc j" using j l len by (intro unat_of_nat_less) simp
    ultimately show False by simp
  qed
  have "dev_loop d behind target (of_nat j + 1) = Some (map (make_node st) (drop (Suc j) (of_subtype d st)) @ rest)"
    using Suc.hyps(1) [of "Suc j"] Suc.hyps(2) j by (simp add: add.commute)
  then show ?case using n nz j by (subst dev_loop.simps) (simp add: st Cons_nth_drop_Suc [symmetric])
qed

text \<open>
  C40. The endless loop of \<^verbatim>\<open>dev_init\<close> ends, for every table of devices: it makes one special file for each disk, partition, RAM
  disk and serial line, in that order, and for each device whose subtype is the word behind the array. The first RAM
  disk, which holds these files and is to be skipped, is among them.
\<close>

theorem dev_loop_ends:
  assumes "length (device_list d) = DEVICE_NR"
  shows "dev_loop d behind 0 0 =
     Some (concat (map (\<lambda>st. map (make_node st) (of_subtype d st)) [DEV_IDE_DISK, DEV_IDE_PART, DEV_RAMDISK, DEV_SERIAL, behind]))"
proof -
  let ?n = "\<lambda>st. map (make_node st) (of_subtype d st)"
  have len: "length (device_list d) < 2 ^ 32 - 1" using assms by (simp add: DEVICE_NR_def)
  have step: "dev_loop d behind target 0 = Some (?n st @ rest)"
    if "aget (subtype_list @ [behind]) target = Some st"
       "(if target + 1 > length subtype_list then Some [] else dev_loop d behind (target + 1) 0) = Some rest" for target st rest
    using dev_loop_rest [OF len that, of 0] by simp
  have e4: "dev_loop d behind 4 0 = Some (?n behind @ [])" by (rule step) (simp_all add: subtype_list_def)
  have e3: "dev_loop d behind 3 0 = Some (?n DEV_SERIAL @ ?n behind @ [])" by (rule step) (simp_all add: subtype_list_def e4)
  have e2: "dev_loop d behind 2 0 = Some (?n DEV_RAMDISK @ ?n DEV_SERIAL @ ?n behind @ [])" by (rule step) (simp_all add: subtype_list_def e3)
  have e1: "dev_loop d behind 1 0 = Some (?n DEV_IDE_PART @ ?n DEV_RAMDISK @ ?n DEV_SERIAL @ ?n behind @ [])" by (rule step) (simp_all add: subtype_list_def e2 [unfolded numeral_2_eq_2])
  have "dev_loop d behind 0 0 = Some (?n DEV_IDE_DISK @ ?n DEV_IDE_PART @ ?n DEV_RAMDISK @ ?n DEV_SERIAL @ ?n behind @ [])"
    by (rule step) (simp_all add: subtype_list_def e1 [unfolded One_nat_def])
  then show ?thesis by simp
qed

text \<open>A table with two RAM disks and a serial line.\<close>

definition demo_first :: "unit device list" where
  "demo_first = [(null_device 0)\<lparr>d_subtype := DEV_RAMDISK, d_name := [0x6D, 0x61]\<rparr>, (null_device 1)\<lparr>d_subtype := DEV_SERIAL, d_name := [0x63]\<rparr>,
      (null_device 2)\<lparr>d_subtype := DEV_RAMDISK, d_name := [0x6D, 0x62]\<rparr>]"

definition demo_devs :: "unit devs" where
  "demo_devs = \<lparr>dv_kern = no_tasks, device_list = demo_first @ map null_device (map of_nat [3..<64]), dv_io = ()\<rparr>"

lemma dev_loop_ends_witness:
  "\<exists>rest. dev_loop demo_devs 99 0 0 = Some ((dev_path [0x6D, 0x61], IFBLK OR (IRUSR OR IWUSR), 0) # rest) \<and> length rest = 2"
proof -
  have l: "length (device_list demo_devs) = DEVICE_NR" by (simp add: demo_devs_def demo_first_def DEVICE_NR_def)
  have null: "filter (\<lambda>v. d_subtype v = st) (map null_device ns) = []" if "st \<noteq> DEV_NULL" for st and ns :: "u32 list"
    using that by (induction ns) (simp_all add: null_device_def)
  have sub: "of_subtype demo_devs st = filter (\<lambda>v. d_subtype v = st) demo_first" if "st \<noteq> DEV_NULL" for st
    by (simp only: of_subtype_def demo_devs_def devs.simps filter_append null [OF that] append_Nil2)
  have "concat (map (\<lambda>st. map (make_node st) (of_subtype demo_devs st)) [DEV_IDE_DISK, DEV_IDE_PART, DEV_RAMDISK, DEV_SERIAL, 99]) =
      [make_node DEV_RAMDISK (demo_first ! 0), make_node DEV_RAMDISK (demo_first ! 2), make_node DEV_SERIAL (demo_first ! 1)]"
    by (simp add: sub DEV_IDE_DISK_def DEV_IDE_PART_def DEV_RAMDISK_def DEV_SERIAL_def DEV_NULL_def demo_first_def)
  then show ?thesis using dev_loop_ends [OF l, of 99]
    by (simp add: make_node_def demo_first_def null_device_def DEV_RAMDISK_def DEV_SERIAL_def)
qed

end
