(* ===== verification/Shell.thy ===== *)
theory Shell
  imports Syscall Terminal Vsprintf Execve Rtc
begin

text \<open>
  The shell, \<^verbatim>\<open>src/buildroot/lsh.c\<close>, a user program, with \<^verbatim>\<open>src/lib/printf.c\<close>.

  It works on its memory and calls the system through the stubs of theory Syscall. What a system call does is the
  parameter \<open>os\<close>: from the registers, the memory and the world it makes the result, and has no value when it does not return
  (the end of the program; a read that waits for ever). The addresses of the program's variables are the record \<open>vars\<close>.

  Shown: \<^verbatim>\<open>cmd_parse\<close> splits a line into its words; \<^verbatim>\<open>readline\<close> gives the line as edited, and writes behind its
  buffer when the line fills it.
\<close>

section \<open>State\<close>

definition MAX_CMD_LEN :: u32 where "MAX_CMD_LEN = 256"
definition MAX_ARG_NR :: nat where "MAX_ARG_NR = 16"

record vars =
  a_cwd :: u32
  a_cmd :: u32
  a_argv :: u32
  a_buf :: u32
  a_print :: u32
  a_ch :: u32
  a_stat :: u32
  a_status :: u32
  a_envp :: u32
  a_handler :: u32
  a_restorer :: u32

record 'w shell =
  sh_mem :: mem
  sh_world :: 'w
  sh_interrupt :: bool

type_synonym 'w os = "sysregs \<Rightarrow> mem \<Rightarrow> 'w \<Rightarrow> (u32 \<times> mem \<times> 'w) option"

definition invoke :: "'w os \<Rightarrow> (sysregs \<Rightarrow> sysregs) \<Rightarrow> 'w shell \<Rightarrow> (u32 \<times> 'w shell) option" where
  "invoke os stub s = do {
     (v, m, w) \<leftarrow> os (stub zero_sysregs) (sh_mem s) (sh_world s);
     Some (v, s\<lparr>sh_mem := m, sh_world := w\<rparr>) }"

definition shell_put :: "u32 \<Rightarrow> u8 \<Rightarrow> 'w shell \<Rightarrow> 'w shell" where
  "shell_put p v s = s\<lparr>sh_mem := (sh_mem s)(p := v)\<rparr>"

definition cstring :: "mem \<Rightarrow> u32 \<Rightarrow> u8 list option" where
  "cstring m p = do { n \<leftarrow> strlen m p; Some (bytes_at m p (unat n)) }"

definition printf :: "'w os \<Rightarrow> vars \<Rightarrow> u8 list \<Rightarrow> fmt_arg list \<Rightarrow> 'w shell \<Rightarrow> 'w shell option" where
  "printf os a fmt args s = do {
     (out, n, st) \<leftarrow> vsprintf fmt args;
     let s = s\<lparr>sh_mem := store_bytes (sh_mem s) (a_print a) (out @ [EOS])\<rparr>;
     (r, s) \<leftarrow> invoke os (lib_write 1 (a_print a) (of_nat n)) s;
     Some s }"

definition argp :: "'w shell \<Rightarrow> u32 \<Rightarrow> nat \<Rightarrow> u32" where
  "argp s argv i = peek32 (sh_mem s) (argv + 4 * of_nat i)"

definition say1 :: "'w os \<Rightarrow> vars \<Rightarrow> string \<Rightarrow> u32 \<Rightarrow> 'w shell \<Rightarrow> 'w shell option" where
  "say1 os a fmt p s = do { t \<leftarrow> cstring (sh_mem s) p; printf os a (ascii fmt @ [0x0A]) [A_str t] s }"

section \<open>Reading a line\<close>

partial_function (option) readline_loop :: "'w os \<Rightarrow> vars \<Rightarrow> u32 \<Rightarrow> u32 \<Rightarrow> u32 \<Rightarrow> 'w shell \<Rightarrow> 'w shell option" where
  "readline_loop os a dst count idx s =
     (if \<not> idx < count then Some (shell_put (dst + idx) EOS s)
      else do {
        (ret, s) \<leftarrow> invoke os (lib_read 0 (dst + idx) 1) s;
        if ret = - 1 then Some (shell_put (dst + idx) EOS s)
        else do {
          let c = sh_mem s (dst + idx);
          if c = 0x0A \<or> c = 0x0D then do {
            (r, s) \<leftarrow> invoke os (lib_write 1 (a_ch a) 1) (shell_put (a_ch a) 0x0A (shell_put (dst + idx) EOS s));
            Some s }
          else if c = 0x08 then
            (if 0 < idx then do {
               (r, s) \<leftarrow> invoke os (lib_write 1 (a_ch a) 1) (shell_put (a_ch a) 0x08 s);
               readline_loop os a dst count (idx - 1) s }
             else readline_loop os a dst count idx s)
          else if c = 0x09 then readline_loop os a dst count idx s
          else do {
            (r, s) \<leftarrow> invoke os (lib_write 1 (dst + idx) 1) s;
            readline_loop os a dst count (idx + 1) s } } })"

definition readline :: "'w os \<Rightarrow> vars \<Rightarrow> u32 \<Rightarrow> u32 \<Rightarrow> 'w shell \<Rightarrow> 'w shell option" where
  "readline os a dst count s = (if dst = 0 then Some s else readline_loop os a dst count 0 (shell_put (a_ch a) 0 s))"

section \<open>Splitting a line\<close>

partial_function (option) skip_token :: "mem \<Rightarrow> u8 \<Rightarrow> u32 \<Rightarrow> u32 option" where
  "skip_token m tok p = (if m p = tok then skip_token m tok (p + 1) else Some p)"

partial_function (option) word_end :: "mem \<Rightarrow> u8 \<Rightarrow> u32 \<Rightarrow> u32 option" where
  "word_end m tok p = (if m p \<noteq> EOS \<and> m p \<noteq> tok then word_end m tok (p + 1) else Some p)"

partial_function (option) parse_loop :: "u8 \<Rightarrow> u32 \<Rightarrow> mem \<Rightarrow> u32 \<Rightarrow> nat \<Rightarrow> (mem \<times> nat) option" where
  "parse_loop tok argv m next argc =
     (if m next = EOS \<or> \<not> argc < MAX_ARG_NR then Some (m, argc)
      else do {
        p \<leftarrow> skip_token m tok next;
        if m p = EOS then Some (m, argc)
        else do {
          let m = poke32 m (argv + 4 * of_nat argc) p;
          e \<leftarrow> word_end m tok p;
          if m e \<noteq> EOS then parse_loop tok argv (m(e := EOS)) (e + 1) (argc + 1)
          else parse_loop tok argv m e (argc + 1) } })"

definition cmd_parse :: "u8 \<Rightarrow> u32 \<Rightarrow> mem \<Rightarrow> u32 \<Rightarrow> (mem \<times> nat) option" where
  "cmd_parse tok argv m cmd =
     (if cmd = 0 then Some (m, 0)
      else do {
        (m, argc) \<leftarrow> parse_loop tok argv m cmd 0;
        Some (poke32 m (argv + 4 * of_nat argc) 0, argc) })"

section \<open>Mode and date\<close>

definition mode_list :: "(u32 \<times> u8) list" where
  "mode_list = [(IFREG, 0x2D), (IFBLK, 0x62), (IFDIR, 0x64), (IFCHR, 0x63), (0x1000, 0x70), (0xA000, 0x6C), (0xC000, 0x73)]"

definition mode_char :: "u32 \<Rightarrow> u8" where
  "mode_char mode = (case map_of mode_list (mode AND IFMT) of Some c \<Rightarrow> c | None \<Rightarrow> 0x2D)"

text \<open>The three permission characters at one shift; the last test multiplies.\<close>

definition mode_triple :: "u32 \<Rightarrow> nat \<Rightarrow> u8 list" where
  "mode_triple mode i =
     (let fmt = drop_bit i mode AND 7
      in [if fmt AND 4 \<noteq> 0 then 0x72 else 0x2D, if fmt AND 2 \<noteq> 0 then 0x77 else 0x2D, if fmt * 1 \<noteq> 0 then 0x78 else 0x2D])"

definition parsemode :: "u32 \<Rightarrow> mem \<Rightarrow> u32 \<Rightarrow> mem" where
  "parsemode mode m dst =
     store_bytes m dst (mode_char mode # mode_triple mode 6 @ mode_triple mode 3 @ mode_triple mode 0 @ [EOS])"

definition zero_tm :: tm where
  "zero_tm = \<lparr>tm_sec = 0, tm_min = 0, tm_hour = 0, tm_mday = 0, tm_mon = 0, tm_year = 0, tm_wday = 0, tm_yday = 0, tm_isdst = 0\<rparr>"

definition strftime :: "u32 \<Rightarrow> mem \<Rightarrow> u32 \<Rightarrow> mem option" where
  "strftime stamp m dst = do {
     t \<leftarrow> localtime stamp zero_tm;
     (out, n, st) \<leftarrow> sprintf (ascii ''%04d-%02d-%02d %02d:%02d:%02d'')
        [A_int (word_of_int (tm_year t + 1900)), A_int (word_of_int (tm_mon t)), A_int (word_of_int (tm_mday t)),
         A_int (word_of_int (tm_hour t)), A_int (word_of_int (tm_min t)), A_int (word_of_int (tm_sec t))];
     Some (store_bytes m dst (out @ [EOS])) }"

section \<open>Built-in commands\<close>

definition MAGENTA :: "u8 list" where "MAGENTA = 0x1B # ascii ''[35m''"
definition RESET :: "u8 list" where "RESET = 0x1B # ascii ''[0m''"

definition print_prompt :: "'w os \<Rightarrow> vars \<Rightarrow> 'w shell \<Rightarrow> 'w shell option" where
  "print_prompt os a s = do {
     (r, s) \<leftarrow> invoke os (lib_getcwd (a_cwd a) (of_nat MAX_PATH_LEN)) s;
     ptr \<leftarrow> strrsep (sh_mem s) (a_cwd a);
     kassert (ptr \<noteq> 0);
     t \<leftarrow> cstring (sh_mem s) (if sh_mem s (ptr + 1) \<noteq> 0 then ptr + 1 else ptr);
     printf os a (MAGENTA @ ascii ''[root %s]# '' @ RESET) [A_str t] s }"

definition builtin_logo :: "u8 list \<Rightarrow> 'w os \<Rightarrow> vars \<Rightarrow> 'w shell \<Rightarrow> 'w shell option" where
  "builtin_logo logo os a s = printf os a logo [] s"

definition builtin_pwd :: "'w os \<Rightarrow> vars \<Rightarrow> 'w shell \<Rightarrow> 'w shell option" where
  "builtin_pwd os a s = do {
     (r, s) \<leftarrow> invoke os (lib_getcwd (a_cwd a) (of_nat MAX_PATH_LEN)) s;
     say1 os a ''%s'' (a_cwd a) s }"

definition builtin_exit :: "'w os \<Rightarrow> nat \<Rightarrow> u32 \<Rightarrow> 'w shell \<Rightarrow> 'w shell option" where
  "builtin_exit os argc argv s = do {
     code \<leftarrow> (if argc = 2 then do { t \<leftarrow> cstring (sh_mem s) (argp s argv 1); Some (atoi (Some t)) } else Some 0);
     (r, s) \<leftarrow> invoke os (lib_exit code) s;
     Some s }"

definition builtin_cd :: "'w os \<Rightarrow> vars \<Rightarrow> nat \<Rightarrow> u32 \<Rightarrow> 'w shell \<Rightarrow> 'w shell option" where
  "builtin_cd os a argc argv s =
     (if argc > 1 then do {
        (r, s) \<leftarrow> invoke os (lib_chdir (argp s argv 1)) s;
        if r <s 0 then say1 os a ''cd: no such dir %s'' (argp s argv 1) s else Some s }
      else Some s)"

text \<open>The loops over the arguments of \<^verbatim>\<open>mkdir\<close>, \<^verbatim>\<open>rmdir\<close> and \<^verbatim>\<open>rm\<close>.\<close>

fun mkdir_loop :: "'w os \<Rightarrow> vars \<Rightarrow> u32 \<Rightarrow> nat list \<Rightarrow> 'w shell \<Rightarrow> 'w shell option" where
  "mkdir_loop os a argv [] s = Some s"
| "mkdir_loop os a argv (i # is) s = do {
     (r, s) \<leftarrow> invoke os (lib_mkdir (argp s argv i) 0x1ED) s;
     s \<leftarrow> (if r <s 0 then say1 os a ''mkdir: error creating dir %s'' (argp s argv i) s else Some s);
     mkdir_loop os a argv is s }"

fun rmdir_loop :: "'w os \<Rightarrow> vars \<Rightarrow> u32 \<Rightarrow> nat list \<Rightarrow> 'w shell \<Rightarrow> 'w shell option" where
  "rmdir_loop os a argv [] s = Some s"
| "rmdir_loop os a argv (i # is) s = do {
     (r, s) \<leftarrow> invoke os (lib_rmdir (argp s argv i)) s;
     s \<leftarrow> say1 os a (if r <s 0 then ''rmdir: error removing dir %s'' else ''rmdir: %s'') (argp s argv i) s;
     rmdir_loop os a argv is s }"

fun rm_loop :: "'w os \<Rightarrow> u32 \<Rightarrow> nat list \<Rightarrow> 'w shell \<Rightarrow> 'w shell option" where
  "rm_loop os argv [] s = Some s"
| "rm_loop os argv (i # is) s = do { (r, s) \<leftarrow> invoke os (lib_unlink (argp s argv i)) s; rm_loop os argv is s }"

definition builtin_mkdir :: "'w os \<Rightarrow> vars \<Rightarrow> nat \<Rightarrow> u32 \<Rightarrow> 'w shell \<Rightarrow> 'w shell option" where
  "builtin_mkdir os a argc argv s =
     (if argc < 2 then printf os a (ascii ''mkdir: no input dir'' @ [0x0A]) [] s else mkdir_loop os a argv [1..<argc] s)"

definition builtin_rmdir :: "'w os \<Rightarrow> vars \<Rightarrow> nat \<Rightarrow> u32 \<Rightarrow> 'w shell \<Rightarrow> 'w shell option" where
  "builtin_rmdir os a argc argv s =
     (if argc < 2 then printf os a (ascii ''rmdir: no input dir'' @ [0x0A]) [] s else rmdir_loop os a argv [1..<argc] s)"

definition builtin_rm :: "'w os \<Rightarrow> vars \<Rightarrow> nat \<Rightarrow> u32 \<Rightarrow> 'w shell \<Rightarrow> 'w shell option" where
  "builtin_rm os a argc argv s =
     (if argc < 2 then printf os a (ascii ''rm: no input dir'' @ [0x0A]) [] s else rm_loop os argv [1..<argc] s)"

definition builtin_date :: "'w os \<Rightarrow> vars \<Rightarrow> 'w shell \<Rightarrow> 'w shell option" where
  "builtin_date os a s = do {
     (t, s) \<leftarrow> invoke os lib_time s;
     m \<leftarrow> strftime t (sh_mem s) (a_buf a);
     say1 os a ''%s'' (a_buf a) (s\<lparr>sh_mem := m\<rparr>) }"

definition builtin_mount :: "'w os \<Rightarrow> vars \<Rightarrow> nat \<Rightarrow> u32 \<Rightarrow> 'w shell \<Rightarrow> 'w shell option" where
  "builtin_mount os a argc argv s =
     (if argc < 3 then Some s
      else do {
        (r, s) \<leftarrow> invoke os (lib_mount (argp s argv 1) (argp s argv 2) 0) s;
        if r \<noteq> 0 then do {
          t \<leftarrow> cstring (sh_mem s) (argp s argv 1);
          u \<leftarrow> cstring (sh_mem s) (argp s argv 2);
          printf os a (ascii ''error mount %s to %s'' @ [0x0A]) [A_str t, A_str u] s }
        else Some s })"

definition builtin_umount :: "'w os \<Rightarrow> vars \<Rightarrow> nat \<Rightarrow> u32 \<Rightarrow> 'w shell \<Rightarrow> 'w shell option" where
  "builtin_umount os a argc argv s =
     (if argc < 2 then Some s
      else do {
        (r, s) \<leftarrow> invoke os (lib_umount (argp s argv 1)) s;
        if r \<noteq> 0 then say1 os a ''error umount %s'' (argp s argv 1) s else Some s })"

definition builtin_mkfs :: "'w os \<Rightarrow> vars \<Rightarrow> nat \<Rightarrow> u32 \<Rightarrow> 'w shell \<Rightarrow> 'w shell option" where
  "builtin_mkfs os a argc argv s =
     (if argc < 3 then Some s
      else do {
        t \<leftarrow> cstring (sh_mem s) (argp s argv 2);
        (r, s) \<leftarrow> invoke os (lib_mkfs (argp s argv 1) (atoi (Some t))) s;
        if r \<noteq> 0 then say1 os a ''error mkfs %s'' (argp s argv 1) s
        else printf os a (ascii ''success'' @ [0x0A]) [] s })"

section \<open>Redirection and programs\<close>

record redirect =
  rd_in :: u32
  rd_out :: u32
  rd_err :: u32
  rd_outappend :: u32
  rd_errappend :: u32

definition no_redirect :: redirect where
  "no_redirect = \<lparr>rd_in = 0, rd_out = 0, rd_err = 0, rd_outappend = 0, rd_errappend = 0\<rparr>"

text \<open>The scan of the arguments: an operator takes the argument behind it and ends the argument list.\<close>

function scan_args :: "u32 \<Rightarrow> nat \<Rightarrow> nat \<Rightarrow> redirect \<Rightarrow> 'w shell \<Rightarrow> (redirect \<times> 'w shell) option" where
  "scan_args argv argc i d s =
     (if \<not> i < argc then Some (d, s)
      else do {
        t \<leftarrow> cstring (sh_mem s) (argp s argv i);
        let f = argp s argv (i + 1);
        let cut = s\<lparr>sh_mem := poke32 (sh_mem s) (argv + 4 * of_nat i) 0\<rparr>;
        if i + 1 < argc \<and> t = ascii ''<'' then scan_args argv argc (i + 2) (d\<lparr>rd_in := f\<rparr>) cut
        else if i + 1 < argc \<and> t = ascii ''>'' then scan_args argv argc (i + 2) (d\<lparr>rd_out := f, rd_outappend := O_TRUNC\<rparr>) cut
        else if i + 1 < argc \<and> t = ascii ''>>'' then scan_args argv argc (i + 2) (d\<lparr>rd_out := f, rd_outappend := O_APPEND\<rparr>) cut
        else if i + 1 < argc \<and> t = ascii ''2>'' then scan_args argv argc (i + 2) (d\<lparr>rd_err := f\<rparr>) cut
        else if i + 1 < argc \<and> t = ascii ''2>>'' then scan_args argv argc (i + 2) (d\<lparr>rd_err := f, rd_errappend := O_APPEND\<rparr>) cut
        else scan_args argv argc (i + 1) d s })"
  by pat_completeness auto
termination by (relation "measure (\<lambda>(argv, argc, i, d, s). argc - i)") auto

fun close_all :: "'w os \<Rightarrow> u32 list \<Rightarrow> 'w shell \<Rightarrow> 'w shell option" where
  "close_all os [] s = Some s"
| "close_all os (fd # fds) s =
     (if fd \<noteq> EOF then do { (r, s) \<leftarrow> invoke os (lib_close fd) s; close_all os fds s } else close_all os fds s)"

text \<open>The three descriptors; after an error they are closed but keep their numbers. The error file is opened under the name of the output file.\<close>

definition dupfile :: "'w os \<Rightarrow> vars \<Rightarrow> nat \<Rightarrow> u32 \<Rightarrow> 'w shell \<Rightarrow> ((u32 \<times> u32 \<times> u32) \<times> 'w shell) option" where
  "dupfile os a argc argv s = do {
     (d, s) \<leftarrow> scan_args argv argc 0 no_redirect s;
     (fd0, s) \<leftarrow> (if rd_in d \<noteq> 0 then invoke os (lib_open (rd_in d) (O_RDONLY OR O_CREAT) 0x1ED) s else Some (EOF, s));
     if rd_in d \<noteq> 0 \<and> fd0 = EOF then do {
       s \<leftarrow> say1 os a ''open infile %s failure'' (rd_in d) s;
       s \<leftarrow> close_all os [EOF, EOF, EOF] s;
       Some ((EOF, EOF, EOF), s) }
     else do {
       (fd1, s) \<leftarrow> (if rd_out d \<noteq> 0 then invoke os (lib_open (rd_out d) (O_WRONLY OR rd_outappend d OR O_CREAT) 0x1ED) s else Some (EOF, s));
       if rd_out d \<noteq> 0 \<and> fd1 = EOF then do {
         s \<leftarrow> say1 os a ''open outfile %s failure'' (rd_out d) s;
         s \<leftarrow> close_all os [fd0, EOF, EOF] s;
         Some ((fd0, EOF, EOF), s) }
       else do {
         (fd2, s) \<leftarrow> (if rd_err d \<noteq> 0 then invoke os (lib_open (rd_out d) (O_WRONLY OR rd_errappend d OR O_CREAT) 0x1ED) s else Some (EOF, s));
         if rd_err d \<noteq> 0 \<and> fd2 = EOF then do {
           s \<leftarrow> say1 os a ''open errfile %s failure'' (rd_out d) s;
           (r, s) \<leftarrow> invoke os (lib_exit EOF) s;
           Some ((fd0, fd1, EOF), s) }
         else Some ((fd0, fd1, fd2), s) } } }"

text \<open>One redirection in the child: the descriptor takes the number, and is closed.\<close>

definition take_over :: "'w os \<Rightarrow> u32 \<Rightarrow> u32 \<Rightarrow> 'w shell \<Rightarrow> 'w shell option" where
  "take_over os fd std s =
     (if fd \<noteq> EOF then do {
        (r, s) \<leftarrow> invoke os (lib_dup2 fd std) s;
        (r, s) \<leftarrow> invoke os (lib_close fd) s;
        Some s }
      else Some s)"

text \<open>\<open>fork\<close> returns once here: in the parent with the child's number, in the child with 0, which ends with \<^verbatim>\<open>exit\<close>.\<close>

definition builtin_command :: "'w os \<Rightarrow> vars \<Rightarrow> u32 \<Rightarrow> u32 \<Rightarrow> u32 \<times> u32 \<times> u32 \<Rightarrow> 'w shell \<Rightarrow> (u32 \<times> 'w shell) option" where
  "builtin_command os a name argv fds s = do {
     let (infd, outfd, errfd) = fds;
     (pid, s) \<leftarrow> invoke os lib_fork s;
     if pid \<noteq> 0 then do { s \<leftarrow> close_all os [infd, outfd, errfd] s; Some (pid, s) }
     else do {
       s \<leftarrow> take_over os infd 0 s;
       s \<leftarrow> take_over os outfd 1 s;
       s \<leftarrow> take_over os errfd 2 s;
       (r, s) \<leftarrow> invoke os (lib_signal (a_restorer a) (of_nat SIGINT) SIG_DFL) s;
       (me, s) \<leftarrow> invoke os lib_getpid s;
       (r, s) \<leftarrow> invoke os (lib_ioctl 0 TIOCSPGRP me) s;
       (p, s) \<leftarrow> invoke os lib_getpid s;
       (q, s) \<leftarrow> invoke os lib_getpid s;
       (r, s) \<leftarrow> invoke os (lib_setpgid p q) s;
       (i, s) \<leftarrow> invoke os (lib_execve name argv (a_envp a)) s;
       (r, s) \<leftarrow> invoke os (lib_exit i) s;
       Some (0, s) } }"

definition builtin_exec :: "'w os \<Rightarrow> vars \<Rightarrow> nat \<Rightarrow> u32 \<Rightarrow> 'w shell \<Rightarrow> 'w shell option" where
  "builtin_exec os a argc argv s = do {
     t \<leftarrow> cstring (sh_mem s) (argp s argv 0);
     (out, n, st) \<leftarrow> sprintf (ascii ''/bin/%s.out'') [A_str t];
     let s = s\<lparr>sh_mem := store_bytes (sh_mem s) (a_buf a) (out @ [EOS])\<rparr>;
     (r, s) \<leftarrow> invoke os (lib_stat (a_buf a) (a_stat a)) s;
     if r = EOF then say1 os a ''lsh: commnand not fount: %s'' (argp s argv 0) s
     else do {
       (fds, s) \<leftarrow> dupfile os a argc argv s;
       (pid, s) \<leftarrow> builtin_command os a (a_buf a) (argv + 4) fds s;
       (r, s) \<leftarrow> invoke os (lib_waitpid pid (a_status a) 0) s;
       (me, s) \<leftarrow> invoke os lib_getpid s;
       (r, s) \<leftarrow> invoke os (lib_ioctl 0 TIOCSPGRP me) s;
       Some s } }"

definition execute :: "u8 list \<Rightarrow> 'w os \<Rightarrow> vars \<Rightarrow> nat \<Rightarrow> u32 \<Rightarrow> 'w shell \<Rightarrow> 'w shell option" where
  "execute logo os a argc argv s = do {
     line \<leftarrow> cstring (sh_mem s) (argp s argv 0);
     if line = ascii ''logo'' then builtin_logo logo os a s
     else if line = ascii ''pwd'' then builtin_pwd os a s
     else if line = ascii ''clear'' then Some s
     else if line = ascii ''exit'' then builtin_exit os argc argv s
     else if line = ascii ''cd'' then builtin_cd os a argc argv s
     else if line = ascii ''mkdir'' then builtin_mkdir os a argc argv s
     else if line = ascii ''rmdir'' then builtin_rmdir os a argc argv s
     else if line = ascii ''rm'' then builtin_rm os a argc argv s
     else if line = ascii ''date'' then builtin_date os a s
     else if line = ascii ''mount'' then builtin_mount os a argc argv s
     else if line = ascii ''umount'' then builtin_umount os a argc argv s
     else if line = ascii ''mkfs'' then builtin_mkfs os a argc argv s
     else builtin_exec os a argc argv s }"

text \<open>The handler of the interrupt key, and one round of the main loop with what comes before the first.\<close>

definition signal_handler :: "'w os \<Rightarrow> vars \<Rightarrow> 'w shell \<Rightarrow> 'w shell option" where
  "signal_handler os a s = do {
     (r, s) \<leftarrow> invoke os (lib_signal (a_restorer a) (of_nat SIGINT) (a_handler a)) s;
     Some (s\<lparr>sh_interrupt := True\<rparr>) }"

definition shell_start :: "u8 list \<Rightarrow> 'w os \<Rightarrow> vars \<Rightarrow> 'w shell \<Rightarrow> 'w shell option" where
  "shell_start logo os a s = do {
     (r, s) \<leftarrow> invoke os (lib_signal (a_restorer a) (of_nat SIGINT) (a_handler a)) s;
     (r, s) \<leftarrow> invoke os lib_setsid s;
     (me, s) \<leftarrow> invoke os lib_getpid s;
     (r, s) \<leftarrow> invoke os (lib_ioctl 0 TIOCSPGRP me) s;
     let m = store_bytes (sh_mem s) (a_cmd a) (replicate (unat MAX_CMD_LEN) 0);
     let m = store_bytes m (a_cwd a) (replicate MAX_PATH_LEN 0);
     builtin_logo logo os a (s\<lparr>sh_mem := m\<rparr>) }"

definition shell_round :: "u8 list \<Rightarrow> 'w os \<Rightarrow> vars \<Rightarrow> 'w shell \<Rightarrow> 'w shell option" where
  "shell_round logo os a s = do {
     s \<leftarrow> print_prompt os a s;
     s \<leftarrow> readline os a (a_cmd a) MAX_CMD_LEN s;
     if sh_interrupt s then Some (s\<lparr>sh_interrupt := False\<rparr>)
     else if sh_mem s (a_cmd a) = 0 then Some s
     else do {
       (m, argc) \<leftarrow> cmd_parse 0x20 (a_argv a) (sh_mem s) (a_cmd a);
       let s = s\<lparr>sh_mem := m\<rparr>;
       if argc \<ge> MAX_ARG_NR then Some s
       else execute logo os a argc (a_argv a) s } }"

section \<open>Words of a line\<close>

function words :: "u8 \<Rightarrow> u8 list \<Rightarrow> u8 list list" where
  "words tok s = (let t = dropWhile (\<lambda>c. c = tok) s in
     if t = [] then [] else takeWhile (\<lambda>c. c \<noteq> tok) t # words tok (drop 1 (dropWhile (\<lambda>c. c \<noteq> tok) t)))"
  by pat_completeness auto
termination
proof (relation "measure (\<lambda>(tok, s). length s)")
  fix tok :: u8 and s t
  assume t: "t = dropWhile (\<lambda>c. c = tok) s" "t \<noteq> []"
  have "hd t \<noteq> tok" using hd_dropWhile [of "\<lambda>c. c = tok" s] t by simp
  then have "length (dropWhile (\<lambda>c. c \<noteq> tok) t) < length t"
    using t(2) length_dropWhile_le [of "\<lambda>c. c \<noteq> tok" "tl t"] by (cases t) simp_all
  moreover have "length t \<le> length s" unfolding t(1) by (rule length_dropWhile_le)
  ultimately show "((tok, drop 1 (dropWhile (\<lambda>c. c \<noteq> tok) t)), tok, s) \<in> measure (\<lambda>(tok, s). length s)" by simp
qed simp

declare words.simps [simp del]

lemma skip_token_spec:
  "tok \<noteq> EOS \<Longrightarrow> cstr m p s \<Longrightarrow> skip_token m tok p = Some (p + of_nat (length (takeWhile (\<lambda>c. c = tok) s)))"
  by (induction s arbitrary: p) (subst skip_token.simps, simp add: add.assoc [symmetric])+

lemma word_end_spec:
  "cstr m p s \<Longrightarrow> word_end m tok p = Some (p + of_nat (length (takeWhile (\<lambda>c. c \<noteq> tok) s)))"
  by (induction s arbitrary: p) (subst word_end.simps, simp add: add.assoc [symmetric])+

lemma cstr_drop: "cstr m p (a @ b) \<Longrightarrow> cstr m (p + of_nat (length a)) b"
  by (simp add: cstr_append)

lemma cstr_takeWhile:
  assumes "cstr m p s"
  shows "cstr m (p + of_nat (length (takeWhile P s))) (dropWhile P s)"
  using cstr_drop [of m p "takeWhile P s" "dropWhile P s"] assms by simp

lemma region_part: "a + b \<le> n \<Longrightarrow> region (p + of_nat a) b \<subseteq> region p n"
proof -
  assume "a + b \<le> n"
  then obtain c where "n = a + (b + c)" by (metis add.assoc le_iff_add)
  then show ?thesis by (simp only: region_split) blast
qed

lemma region_apart: "a + b \<le> 2 ^ 32 \<Longrightarrow> region p a \<inter> region (p + of_nat a) b = {}"
proof -
  assume le: "a + b \<le> 2 ^ 32"
  have False if x: "x \<in> region p a" "x \<in> region (p + of_nat a) b" for x
  proof -
    obtain i j where ij: "i < a" "x = p + of_nat i" "j < b" "x = p + of_nat a + of_nat j" using x unfolding region_iff by blast
    then have "p + of_nat i = p + of_nat (a + j)" by (simp add: add.assoc)
    moreover have "i < 2 ^ 32" "a + j < 2 ^ 32" using ij le by linarith+
    ultimately have "i = a + j" using offset_eq by blast
    then show False using ij(1) by simp
  qed
  then show ?thesis by blast
qed

abbreviation argv_from :: "u32 \<Rightarrow> nat \<Rightarrow> u32 set" where
  "argv_from argv argc \<equiv> region (argv + 4 * of_nat argc) (4 * (16 - argc))"

lemma argv_split:
  assumes "argc < 16"
  shows "argv_from argv argc = region (argv + 4 * of_nat argc) 4 \<union> argv_from argv (argc + 1)"
    and "region (argv + 4 * of_nat argc) 4 \<inter> argv_from argv (argc + 1) = {}"
proof -
  have at: "argv + 4 * of_nat (argc + 1) = argv + 4 * of_nat argc + of_nat 4" by (simp add: algebra_simps)
  have n: "4 * (16 - argc) = 4 + 4 * (16 - (argc + 1))" using assms by simp
  show "argv_from argv argc = region (argv + 4 * of_nat argc) 4 \<union> argv_from argv (argc + 1)" unfolding n region_split at ..
  have "4 + 4 * (16 - (argc + 1)) \<le> 2 ^ 32" by simp
  then show "region (argv + 4 * of_nat argc) 4 \<inter> argv_from argv (argc + 1) = {}" unfolding at by (rule region_apart)
qed

text \<open>One word: what the loop stores for it, and that the rest of the work leaves it alone.\<close>

lemma word_kept:
  assumes t: "cstr m p (w @ c # r)" "length w + Suc (Suc (length r)) \<le> 2 ^ 32"
    and keep: "\<And>x. x \<notin> region (p + of_nat (length w) + 1) (Suc (length r)) \<Longrightarrow> x \<notin> A \<Longrightarrow> m' x = (m(p + of_nat (length w) := EOS)) x"
    and A: "region p (Suc (length w)) \<inter> A = {}"
  shows "cstr m' p w"
proof -
  let ?e = "p + of_nat (length w)"
  have "?e \<notin> region p (length w)" using region_apart [of "length w" 1 p] t(2) by auto
  then have "bytes_at (m(?e := EOS)) p (length w) = bytes_at m p (length w)" by (intro bytes_at_frame) auto
  then have c: "cstr (m(?e := EOS)) p w" using t(1) cstr_append [of "m(?e := EOS)" p w "[]"] by (simp add: cstr_append)
  have "region p (Suc (length w)) \<inter> region (p + of_nat (Suc (length w))) (Suc (length r)) = {}" using t(2) by (intro region_apart) simp
  moreover have e1: "p + of_nat (Suc (length w)) = ?e + 1" by (simp add: algebra_simps)
  ultimately have d: "region p (Suc (length w)) \<inter> region (?e + 1) (Suc (length r)) = {}" by (simp only: e1)
  have "m' x = (m(?e := EOS)) x" if "x \<in> region p (Suc (length w))" for x using that d A by (intro keep) blast+
  then have "cstr m' p w = cstr (m(?e := EOS)) p w" by (rule cstr_frame)
  then show ?thesis using c by simp
qed

lemma parse_loop_spec:
  assumes tok: "tok \<noteq> EOS"
  shows "cstr m next s \<Longrightarrow> length s + 1 < 2 ^ 32 \<Longrightarrow> argc \<le> 16 \<Longrightarrow> region next (Suc (length s)) \<inter> argv_from argv argc = {} \<Longrightarrow>
    \<exists>m'. parse_loop tok argv m next argc = Some (m', argc + length (take (16 - argc) (words tok s))) \<and>
      (\<forall>i < length (take (16 - argc) (words tok s)). cstr m' (peek32 m' (argv + 4 * of_nat (argc + i))) (words tok s ! i) \<and>
         region (peek32 m' (argv + 4 * of_nat (argc + i))) (Suc (length (words tok s ! i))) \<subseteq> region next (Suc (length s))) \<and>
      (\<forall>x. x \<notin> region next (Suc (length s)) \<longrightarrow> x \<notin> argv_from argv argc \<longrightarrow> m' x = m x)"
proof (induction "length s" arbitrary: m "next" s argc rule: less_induct)
  case less
  note str = less.prems(1) and len = less.prems(2) and apart = less.prems(4)
  show ?case
  proof (cases "m next = EOS \<or> \<not> argc < 16")
    case True
    then have tk: "take (16 - argc) (words tok s) = []" using str less.prems(3) by (cases s) (auto simp: words.simps)
    show ?thesis using True unfolding tk by (intro exI [of _ m]) (simp add: parse_loop.simps MAX_ARG_NR_def)
  next
    case False
    then have argc: "argc < 16" and ne: "m next \<noteq> EOS" by auto
    define k where "k = length (takeWhile (\<lambda>c. c = tok) s)"
    define t where "t = dropWhile (\<lambda>c. c = tok) s"
    define p where "p = next + of_nat k"
    have kt: "length s = k + length t" unfolding k_def t_def by (metis length_append takeWhile_dropWhile_id)
    have skip: "skip_token m tok next = Some p" using skip_token_spec [OF tok str] by (simp add: p_def k_def)
    have tstr: "cstr m p t" using cstr_takeWhile [OF str] by (simp add: p_def k_def t_def)
    show ?thesis
    proof (cases "t = []")
      case True
      then have "words tok s = []" by (simp add: words.simps t_def)
      then show ?thesis using True argc ne skip tstr by (intro exI [of _ m]) (simp add: parse_loop.simps MAX_ARG_NR_def)
    next
      case False
      define w where "w = takeWhile (\<lambda>c. c \<noteq> tok) t"
      define r where "r = dropWhile (\<lambda>c. c \<noteq> tok) t"
      define e where "e = p + of_nat (length w)"
      let ?cell = "argv + 4 * of_nat argc"
      define m1 where "m1 = poke32 m ?cell p"
      have wr: "t = w @ r" by (simp add: w_def r_def)
      have words: "words tok s = w # words tok (drop 1 r)" using False by (subst words.simps) (simp add: t_def [symmetric] w_def r_def Let_def del: dropWhile_eq_Nil_conv)
      have inside: "region p (Suc (length t)) \<subseteq> region next (Suc (length s))" unfolding p_def by (rule region_part) (simp add: kt)
      have m1: "m1 x = m x" if "x \<in> region next (Suc (length s))" for x
        unfolding m1_def by (rule poke32_frame) (use that apart argv_split(1) [OF argc] in blast)
      have "cstr m1 p t = cstr m p t" using m1 inside by (intro cstr_frame) blast
      then have t1: "cstr m1 p t" using tstr by simp
      have wend: "word_end m1 tok p = Some e" using word_end_spec [OF t1] by (simp add: e_def w_def)
      have er: "cstr m1 e r" using cstr_takeWhile [OF t1] by (simp add: e_def w_def r_def)
      have run: "parse_loop tok argv m next argc = (if m1 e \<noteq> EOS then parse_loop tok argv (m1(e := EOS)) (e + 1) (argc + 1) else parse_loop tok argv m1 e (argc + 1))"
        using argc ne skip False tstr wend by (subst parse_loop.simps) (cases t; simp add: MAX_ARG_NR_def m1_def)
      have cellw: "region ?cell 4 \<inter> region next (Suc (length s)) = {}" using apart argv_split(1) [OF argc] by blast
      show ?thesis
      proof (cases r)
        case Nil
        have e0: "m1 e = EOS" using er Nil by simp
        have "words tok s = [w]" "t = w" using words wr Nil by (simp_all add: words.simps)
        moreover have "parse_loop tok argv m1 e (argc + 1) = Some (m1, argc + 1)" using e0 by (simp add: parse_loop.simps)
        moreover have "m1 x = m x" if "x \<notin> argv_from argv argc" for x
          unfolding m1_def by (rule poke32_frame) (use that argv_split(1) [OF argc] in blast)
        moreover have "peek32 m1 ?cell = p" by (simp add: m1_def)
        ultimately show ?thesis using run e0 argc t1 inside by (intro exI [of _ m1]) (simp add: take_Cons')
      next
        case (Cons c r')
        have c: "c = tok" "m1 e \<noteq> EOS" using Cons er hd_dropWhile [of "\<lambda>c. c \<noteq> tok" t] by (auto simp: r_def)
        define m2 where "m2 = m1(e := EOS)"
        have len': "length s = k + length w + Suc (length r')" using kt wr Cons by simp
        have e1: "e + 1 = next + of_nat (k + length w + 1)" by (simp add: e_def p_def algebra_simps)
        have sub: "region (e + 1) (Suc (length r')) \<subseteq> region next (Suc (length s))" unfolding e1 by (rule region_part) (simp add: len')
        have ein: "e \<in> region next (Suc (length s))"
        proof -
          have "e = next + of_nat (k + length w)" by (simp add: e_def p_def algebra_simps)
          then show ?thesis unfolding region_iff using len' by (intro exI [of _ "k + length w"]) simp
        qed
        have next1: "cstr m2 (e + 1) r'"
        proof -
          have "e \<notin> region (e + 1) (Suc (length r'))" using len len' by (intro self_not_in_next_region) simp
          then have "cstr m2 (e + 1) r' = cstr m1 (e + 1) r'" by (intro cstr_frame) (auto simp: m2_def)
          then show ?thesis using er Cons by simp
        qed
        have ap: "region (e + 1) (Suc (length r')) \<inter> argv_from argv (argc + 1) = {}" using sub apart argv_split(1) [OF argc] by blast
        let ?ws = "take (16 - (argc + 1)) (words tok r')"
        obtain m' where IH: "parse_loop tok argv m2 (e + 1) (argc + 1) = Some (m', argc + 1 + length ?ws)"
            "\<And>i. i < length ?ws \<Longrightarrow> cstr m' (peek32 m' (argv + 4 * of_nat (argc + 1 + i))) (words tok r' ! i) \<and>
               region (peek32 m' (argv + 4 * of_nat (argc + 1 + i))) (Suc (length (words tok r' ! i))) \<subseteq> region (e + 1) (Suc (length r'))"
            "\<And>x. x \<notin> region (e + 1) (Suc (length r')) \<Longrightarrow> x \<notin> argv_from argv (argc + 1) \<Longrightarrow> m' x = m2 x"
          using less.hyps [OF _ next1 _ _ ap] len len' argc by auto
        have ws: "take (16 - argc) (words tok s) = w # ?ws" using words Cons argc by (simp add: take_Cons')
        have cell: "peek32 m' ?cell = p"
        proof -
          have "peek32 m' ?cell = peek32 m1 ?cell"
          proof (rule peek32_frame)
            fix x assume x: "x \<in> region ?cell 4"
            then have "x \<notin> region (e + 1) (Suc (length r'))" "x \<notin> argv_from argv (argc + 1)" "x \<noteq> e"
              using cellw sub ein argv_split(2) [OF argc] by blast+
            then show "m' x = m1 x" using IH(3) by (simp add: m2_def)
          qed
          then show ?thesis by (simp add: m1_def)
        qed
        have wlen: "length w + Suc (Suc (length r')) \<le> 2 ^ 32" using len len' by simp
        have "region p (Suc (length w)) \<subseteq> region p (Suc (length t))" using wr region_part [of 0 "Suc (length w)" "Suc (length t)" p] by simp
        then have win: "region p (Suc (length w)) \<subseteq> region next (Suc (length s))" using inside by blast
        have wA: "region p (Suc (length w)) \<inter> argv_from argv (argc + 1) = {}" using win apart argv_split(1) [OF argc] by blast
        have "cstr m' p w"
          by (rule word_kept [OF _ wlen _ wA]) (use t1 wr Cons IH(3) in \<open>simp_all add: m2_def e_def\<close>)
        then have all: "cstr m' (peek32 m' (argv + 4 * of_nat (argc + i))) (words tok s ! i) \<and>
             region (peek32 m' (argv + 4 * of_nat (argc + i))) (Suc (length (words tok s ! i))) \<subseteq> region next (Suc (length s))"
          if "i < Suc (length ?ws)" for i
        proof (cases i)
          case 0
          then show ?thesis using cell win \<open>cstr m' p w\<close> by (simp add: words)
        next
          case (Suc j)
          then have "j < length ?ws" using that by simp
          note IH(2) [OF this]
          moreover have "words tok s ! i = words tok r' ! j" using words Cons Suc by simp
          moreover have "argc + i = argc + 1 + j" using Suc by simp
          ultimately show ?thesis using sub by (simp only:) blast
        qed
        have frame: "m' x = m x" if "x \<notin> region next (Suc (length s))" "x \<notin> argv_from argv argc" for x
        proof -
          have "m' x = m2 x" using that sub argv_split(1) [OF argc] by (intro IH(3)) blast+
          also have "\<dots> = m1 x" using that(1) ein by (auto simp: m2_def)
          also have "\<dots> = m x" unfolding m1_def by (rule poke32_frame) (use that(2) argv_split(1) [OF argc] in blast)
          finally show ?thesis .
        qed
        have "parse_loop tok argv m next argc = Some (m', argc + length (take (16 - argc) (words tok s)))"
          using run c(2) IH(1) unfolding ws by (simp add: m2_def)
        then show ?thesis using all frame unfolding ws by (intro exI [of _ m']) simp
      qed
    qed
  qed
qed

text \<open>
  C30. The shell splits a line into its words: for a line with the separators a blank makes and an array of argument pointers
  that does not overlap it, \<^verbatim>\<open>cmd_parse\<close> returns the number of words, at most 16, stores a pointer to each of them in order, ends
  each with a zero byte, and a null pointer behind the last. With 16 words or more this null pointer lies behind the array.
\<close>

theorem cmd_parse_words:
  assumes "cstr m cmd s" "cmd \<noteq> 0" "length s + 1 < 2 ^ 32" "region cmd (Suc (length s)) \<inter> region argv 68 = {}"
  shows "\<exists>m'. cmd_parse 0x20 argv m cmd = Some (m', length (take 16 (words 0x20 s))) \<and>
     (\<forall>i < length (take 16 (words 0x20 s)). cstr m' (peek32 m' (argv + 4 * of_nat i)) (words 0x20 s ! i)) \<and>
     peek32 m' (argv + 4 * of_nat (length (take 16 (words 0x20 s)))) = 0 \<and>
     (\<forall>x. x \<notin> region cmd (Suc (length s)) \<longrightarrow> x \<notin> region argv 68 \<longrightarrow> m' x = m x)"
proof -
  let ?ws = "take 16 (words 0x20 s)"
  have sub: "argv_from argv 0 \<subseteq> region argv 68" using region_part [of 0 64 68 argv] by simp
  then have ap: "region cmd (Suc (length s)) \<inter> argv_from argv 0 = {}" using assms(4) by blast
  have "(0x20 :: u8) \<noteq> EOS" by (simp add: EOS_def)
  from parse_loop_spec [OF this assms(1,3) _ ap] obtain m1 where r: "parse_loop 0x20 argv m cmd 0 = Some (m1, length ?ws)"
     "\<And>i. i < length ?ws \<Longrightarrow> cstr m1 (peek32 m1 (argv + 4 * of_nat i)) (words 0x20 s ! i) \<and>
        region (peek32 m1 (argv + 4 * of_nat i)) (Suc (length (words 0x20 s ! i))) \<subseteq> region cmd (Suc (length s))"
     "\<And>x. x \<notin> region cmd (Suc (length s)) \<Longrightarrow> x \<notin> argv_from argv 0 \<Longrightarrow> m1 x = m x"
    by auto
  let ?n = "length ?ws"
  let ?cell = "argv + 4 * of_nat ?n"
  define m' where "m' = poke32 m1 ?cell 0"
  have n: "?n \<le> 16" by simp
  have at: "argv + 4 * of_nat i = argv + of_nat (4 * i)" for i by simp
  have cell: "region ?cell 4 \<subseteq> region argv 68" unfolding at by (rule region_part) (use n in simp)
  have keep: "cstr m' (peek32 m' (argv + 4 * of_nat i)) (words 0x20 s ! i)" if i: "i < ?n" for i
  proof -
    have "region (argv + 4 * of_nat i) 4 \<inter> region ?cell 4 = {}"
    proof -
      have "region (argv + of_nat (4 * i)) 4 \<subseteq> region argv (4 * ?n)" using i by (intro region_part) linarith
      moreover have "region argv (4 * ?n) \<inter> region (argv + of_nat (4 * ?n)) 4 = {}" using n by (intro region_apart) simp
      ultimately show ?thesis unfolding at by blast
    qed
    then have p: "peek32 m' (argv + 4 * of_nat i) = peek32 m1 (argv + 4 * of_nat i)"
      unfolding m'_def by (intro peek32_frame poke32_frame) blast
    have "cstr m' (peek32 m1 (argv + 4 * of_nat i)) (words 0x20 s ! i) = cstr m1 (peek32 m1 (argv + 4 * of_nat i)) (words 0x20 s ! i)"
      unfolding m'_def by (intro cstr_frame poke32_frame) (use r(2) [OF i] cell assms(4) in blast)
    then show ?thesis unfolding p using r(2) [OF i] by simp
  qed
  have "m' x = m x" if "x \<notin> region cmd (Suc (length s))" "x \<notin> region argv 68" for x
  proof -
    have "m' x = m1 x" unfolding m'_def by (rule poke32_frame) (use that cell in blast)
    then show ?thesis using r(3) [of x] that sub by auto
  qed
  moreover have "cmd_parse 0x20 argv m cmd = Some (m', ?n)" using r(1) assms(2) by (simp add: cmd_parse_def m'_def)
  moreover have "peek32 m' ?cell = 0" by (simp add: m'_def)
  ultimately show ?thesis using keep by blast
qed

definition demo_line :: mem where
  "demo_line = (\<lambda>_. 0)(0x1000 := 0x20, 0x1001 := 0x6C, 0x1002 := 0x73, 0x1003 := 0x20, 0x1004 := 0x20, 0x1005 := 0x2F)"

lemma cmd_parse_words_witness:
  "\<exists>m'. cmd_parse 0x20 0x2000 demo_line 0x1000 = Some (m', 2) \<and> cstr m' (peek32 m' 0x2000) [0x6C, 0x73] \<and> cstr m' (peek32 m' 0x2004) [0x2F] \<and>
     peek32 m' 0x2008 = 0"
proof -
  let ?s = "[0x20, 0x6C, 0x73, 0x20, 0x20, 0x2F] :: u8 list"
  have w: "words 0x20 ?s = [[0x6C, 0x73], [0x2F]]" by (simp add: words.simps)
  have c: "cstr demo_line 0x1000 ?s" by (simp add: demo_line_def EOS_def)
  have n: "length (take 16 (words 0x20 ?s)) = 2" by (simp add: w)
  have "region 0x1000 (Suc (length ?s)) = between 0x1000 0x1007" "region 0x2000 68 = between 0x2000 0x2044"
    by (subst region_between; simp)+
  then have "region 0x1000 (Suc (length ?s)) \<inter> region 0x2000 68 = {}" by (auto simp: between_def)
  note r = cmd_parse_words [OF c _ _ this]
  have "(0x1000 :: u32) \<noteq> 0" "length ?s + 1 < 2 ^ 32" by simp_all
  from r [OF this] obtain m' where m': "cmd_parse 0x20 0x2000 demo_line 0x1000 = Some (m', 2)"
     "\<forall>i < 2. cstr m' (peek32 m' (0x2000 + 4 * of_nat i)) ([[0x6C, 0x73], [0x2F]] ! i)" "peek32 m' (0x2000 + 4 * of_nat 2) = 0"
    unfolding n unfolding w by blast
  have "cstr m' (peek32 m' 0x2000) [0x6C, 0x73]" using m'(2) [rule_format, of 0] by simp
  moreover have "cstr m' (peek32 m' 0x2004) [0x2F]" using m'(2) [rule_format, of 1] by simp
  ultimately show ?thesis using m'(1,3) by (intro exI [of _ m']) simp
qed

section \<open>Editing a line\<close>

text \<open>
  A terminal whose input is \<open>inp\<close>: reading one byte takes the first, and writing changes neither the memory nor the input.
\<close>

definition line_os :: "'w os \<Rightarrow> ('w \<Rightarrow> u8 list) \<Rightarrow> bool" where
  "line_os os inp \<longleftrightarrow>
     (\<forall>p m w c cs. inp w = c # cs \<longrightarrow> (\<exists>w'. os (lib_read 0 p 1 zero_sysregs) m w = Some (1, m(p := c), w') \<and> inp w' = cs)) \<and>
     (\<forall>p m w. \<exists>v w'. os (lib_write 1 p 1 zero_sysregs) m w = Some (v, m, w') \<and> inp w' = inp w)"

definition edit_step :: "u8 list \<Rightarrow> u8 \<Rightarrow> u8 list" where
  "edit_step ln c = (if c = 0x08 then butlast ln else if c = 0x09 then ln else ln @ [c])"

fun fits :: "nat \<Rightarrow> u8 list \<Rightarrow> u8 list \<Rightarrow> bool" where
  "fits n ln [] \<longleftrightarrow> length ln < n"
| "fits n ln (c # cs) \<longleftrightarrow> length ln < n \<and> fits n (edit_step ln c) cs"

lemma fits_now: "fits n ln cs \<Longrightarrow> length ln < n"
  by (cases cs) simp_all

lemma line_read:
  assumes "line_os os inp" "inp (sh_world s) = c # cs"
  obtains w where "invoke os (lib_read 0 p 1) s = Some (1, s\<lparr>sh_mem := (sh_mem s)(p := c), sh_world := w\<rparr>)" "inp w = cs"
proof -
  obtain w where "os (lib_read 0 p 1 zero_sysregs) (sh_mem s) (sh_world s) = Some (1, (sh_mem s)(p := c), w)" "inp w = cs"
    using assms unfolding line_os_def by blast
  then show thesis using that [of w] by (simp add: invoke_def)
qed

lemma line_write:
  assumes "line_os os inp"
  obtains v w where "invoke os (lib_write 1 p 1) s = Some (v, s\<lparr>sh_world := w\<rparr>)" "inp w = inp (sh_world s)"
proof -
  obtain v w where "os (lib_write 1 p 1 zero_sysregs) (sh_mem s) (sh_world s) = Some (v, sh_mem s, w)" "inp w = inp (sh_world s)"
    using assms unfolding line_os_def by blast
  then show thesis using that [of v w] by (simp add: invoke_def)
qed

lemma bytes_at_snoc: "bytes_at m p (Suc n) = bytes_at m p n @ [m (p + of_nat n)]"
  using bytes_at_add [of m p n 1] by simp

lemma bytes_at_butlast: "bytes_at m p n = ln \<Longrightarrow> bytes_at m p (n - 1) = butlast ln"
proof (cases n)
  case (Suc k)
  assume "bytes_at m p n = ln"
  then have "ln = bytes_at m p k @ [m (p + of_nat k)]" using Suc bytes_at_snoc by simp
  then show ?thesis using Suc by simp
qed auto

lemma bytes_at_beyond:
  assumes "n \<le> j" "j < N" "N \<le> 2 ^ 32"
  shows "bytes_at (m(p + of_nat j := v)) p n = bytes_at m p n"
proof (rule bytes_at_frame)
  fix x assume "x \<in> region p n"
  then obtain i where i: "i < n" "x = p + of_nat i" unfolding region_iff by blast
  have "i < 2 ^ 32" "j < 2 ^ 32" using i assms by linarith+
  then have "x \<noteq> p + of_nat j" using i assms(1) offset_eq [of i j p] by simp
  then show "(m(p + of_nat j := v)) x = m x" by simp
qed

lemma readline_loop_spec:
  assumes os: "line_os os inp" and nl: "nl = 0x0A \<or> nl = 0x0D" and ch: "a_ch a \<notin> region dst (unat count)"
  shows "fits (unat count) ln cs \<Longrightarrow> inp (sh_world s) = cs @ nl # rest \<Longrightarrow> \<forall>c \<in> set cs. c \<notin> {0x0A, 0x0D, EOS} \<Longrightarrow> EOS \<notin> set ln \<Longrightarrow>
     bytes_at (sh_mem s) dst (length ln) = ln \<Longrightarrow>
     \<exists>s'. readline_loop os a dst count (of_nat (length ln)) s = Some s' \<and> cstr (sh_mem s') dst (foldl edit_step ln cs) \<and>
       inp (sh_world s') = rest \<and> (\<forall>x. x \<notin> insert (a_ch a) (region dst (unat count)) \<longrightarrow> sh_mem s' x = sh_mem s x)"
proof (induction cs arbitrary: ln s)
  case Nil
  let ?n = "length ln"
  let ?at = "dst + of_nat ?n"
  have lt: "?n < unat count" using Nil.prems(1) by simp
  have big: "unat count \<le> 2 ^ 32" using unat_lt2p [of count] by simp
  have "?n < 2 ^ 32" using lt big by linarith
  then have "unat (of_nat ?n :: u32) = ?n" by (intro unat_of_nat_less) simp
  then have idx: "(of_nat ?n :: u32) < count" using lt by (simp add: word_less_nat_alt)
  have at: "?at \<in> region dst (unat count)" unfolding region_iff using lt by blast
  obtain w where r: "invoke os (lib_read 0 ?at 1) s = Some (1, s\<lparr>sh_mem := (sh_mem s)(?at := nl), sh_world := w\<rparr>)" "inp w = rest"
    using line_read [OF os] Nil.prems(2) by (metis append_Nil)
  define s1 where "s1 = shell_put (a_ch a) 0x0A (shell_put ?at EOS (s\<lparr>sh_mem := (sh_mem s)(?at := nl), sh_world := w\<rparr>))"
  obtain v w' where w': "invoke os (lib_write 1 (a_ch a) 1) s1 = Some (v, s1\<lparr>sh_world := w'\<rparr>)" "inp w' = inp (sh_world s1)"
    using line_write [OF os] by blast
  have run: "readline_loop os a dst count (of_nat ?n) s = Some (s1\<lparr>sh_world := w'\<rparr>)"
    using idx r(1) nl w'(1) by (subst readline_loop.simps) (auto simp: s1_def)
  have m: "sh_mem s1 = (sh_mem s)(?at := EOS, a_ch a := 0x0A)" by (simp add: s1_def shell_put_def)
  have "bytes_at (sh_mem s1) dst (Suc ?n) = bytes_at ((sh_mem s)(?at := EOS)) dst (Suc ?n)"
  proof (rule bytes_at_frame)
    fix x assume "x \<in> region dst (Suc ?n)"
    then have "x \<in> region dst (unat count)" using region_part [of 0 "Suc ?n" "unat count" dst] lt by auto
    then show "sh_mem s1 x = ((sh_mem s)(?at := EOS)) x" using ch m by auto
  qed
  also have "\<dots> = ln @ [EOS]" using bytes_at_beyond [OF le_refl lt big, of "sh_mem s" dst EOS] Nil.prems(5) by (simp add: bytes_at_snoc del: bytes_at.simps)
  finally have "cstr (sh_mem s1) dst ln" using Nil.prems(4) by (simp add: cstr_bytes del: bytes_at.simps)
  moreover have "\<forall>x. x \<notin> insert (a_ch a) (region dst (unat count)) \<longrightarrow> sh_mem s1 x = sh_mem s x" using at m by auto
  moreover have "inp w' = rest" using w'(2) r(2) by (simp add: s1_def shell_put_def)
  ultimately show ?case using run by (intro exI [of _ "s1\<lparr>sh_world := w'\<rparr>"]) simp
next
  case (Cons c cs)
  let ?n = "length ln"
  let ?at = "dst + of_nat ?n"
  have lt: "?n < unat count" using fits_now [OF Cons.prems(1)] .
  have big: "unat count \<le> 2 ^ 32" using unat_lt2p [of count] by simp
  have "?n < 2 ^ 32" using lt big by linarith
  then have n: "unat (of_nat ?n :: u32) = ?n" by (intro unat_of_nat_less) simp
  have idx: "(of_nat ?n :: u32) < count" using lt n by (simp add: word_less_nat_alt)
  have at: "?at \<in> region dst (unat count)" unfolding region_iff using lt by blast
  have c: "c \<noteq> 0x0A" "c \<noteq> 0x0D" "c \<noteq> EOS" "\<forall>c \<in> set cs. c \<notin> {0x0A, 0x0D, EOS}" using Cons.prems(3) by auto
  have fits': "fits (unat count) (edit_step ln c) cs" using Cons.prems(1) by simp
  obtain w where r: "invoke os (lib_read 0 ?at 1) s = Some (1, s\<lparr>sh_mem := (sh_mem s)(?at := c), sh_world := w\<rparr>)" "inp w = cs @ nl # rest"
    using line_read [OF os] Cons.prems(2) by (metis append_Cons)
  define s1 where "s1 = s\<lparr>sh_mem := (sh_mem s)(?at := c), sh_world := w\<rparr>"
  have keep: "bytes_at (sh_mem s1) dst ?n = ln" using bytes_at_beyond [OF le_refl lt big, of "sh_mem s" dst c] Cons.prems(5) by (simp add: s1_def)
  have same: "sh_mem s1 x = sh_mem s x" if "x \<notin> insert (a_ch a) (region dst (unat count))" for x using that at by (auto simp: s1_def)
  have step: ?case
    if run: "readline_loop os a dst count (of_nat ?n) s = readline_loop os a dst count (of_nat (length (edit_step ln c))) s2"
      and mem: "\<And>x. x \<noteq> a_ch a \<Longrightarrow> sh_mem s2 x = sh_mem s1 x" and inp2: "inp (sh_world s2) = inp w"
      and b: "bytes_at (sh_mem s1) dst (length (edit_step ln c)) = edit_step ln c" for s2
  proof -
    have "EOS \<notin> set (edit_step ln c)" using Cons.prems(4) c(3) by (auto simp: edit_step_def dest: in_set_butlastD)
    moreover have "bytes_at (sh_mem s2) dst (length (edit_step ln c)) = bytes_at (sh_mem s1) dst (length (edit_step ln c))"
    proof (rule bytes_at_frame)
      fix x assume "x \<in> region dst (length (edit_step ln c))"
      then have "x \<in> region dst (unat count)" using region_part [of 0 "length (edit_step ln c)" "unat count" dst] fits_now [OF fits'] by auto
      then show "sh_mem s2 x = sh_mem s1 x" using ch by (intro mem) auto
    qed
    moreover have "inp (sh_world s2) = cs @ nl # rest" using inp2 r(2) by simp
    ultimately obtain s' where "readline_loop os a dst count (of_nat (length (edit_step ln c))) s2 = Some s'" "cstr (sh_mem s') dst (foldl edit_step (edit_step ln c) cs)"
       "inp (sh_world s') = rest" "\<forall>x. x \<notin> insert (a_ch a) (region dst (unat count)) \<longrightarrow> sh_mem s' x = sh_mem s2 x"
      using Cons.IH [OF fits' _ c(4), of s2] b by auto
    then show ?thesis using run mem same by (intro exI [of _ s']) auto
  qed
  consider "c = 0x08" "0 < ?n" | "c = 0x08" "ln = []" | "c = 0x09" | "c \<noteq> 0x08" "c \<noteq> 0x09" by blast
  then show ?case
  proof cases
    case 1
    let ?s = "shell_put (a_ch a) 0x08 s1"
    obtain v w' where w': "invoke os (lib_write 1 (a_ch a) 1) ?s = Some (v, ?s\<lparr>sh_world := w'\<rparr>)" "inp w' = inp (sh_world ?s)"
      using line_write [OF os] by blast
    have "(0 :: u32) < of_nat ?n" using 1(2) n by (simp add: word_less_nat_alt)
    moreover have minus: "of_nat (length (edit_step ln c)) = (of_nat ?n :: u32) - 1" using 1 by (cases ln) (simp_all add: edit_step_def)
    ultimately have "readline_loop os a dst count (of_nat ?n) s = readline_loop os a dst count (of_nat (length (edit_step ln c))) (?s\<lparr>sh_world := w'\<rparr>)"
      unfolding minus using idx r(1) w'(1) 1 by (subst readline_loop.simps) (simp add: s1_def)
    then show ?thesis
      by (rule step) (use w'(2) bytes_at_butlast [OF keep] 1 in \<open>simp_all add: shell_put_def edit_step_def s1_def\<close>)
  next
    case 2
    then have "readline_loop os a dst count (of_nat ?n) s = readline_loop os a dst count (of_nat (length (edit_step ln c))) s1"
      using idx r(1) by (subst readline_loop.simps) (simp add: s1_def edit_step_def)
    then show ?thesis by (rule step) (use 2 in \<open>simp_all add: s1_def edit_step_def\<close>)
  next
    case 3
    then have "readline_loop os a dst count (of_nat ?n) s = readline_loop os a dst count (of_nat (length (edit_step ln c))) s1"
      using idx r(1) by (subst readline_loop.simps) (simp add: s1_def edit_step_def)
    then show ?thesis by (rule step) (use 3 keep in \<open>simp_all add: edit_step_def, simp add: s1_def\<close>)
  next
    case 4
    obtain v w' where w': "invoke os (lib_write 1 ?at 1) s1 = Some (v, s1\<lparr>sh_world := w'\<rparr>)" "inp w' = inp (sh_world s1)"
      using line_write [OF os] by blast
    have "readline_loop os a dst count (of_nat ?n) s = readline_loop os a dst count (of_nat (length (edit_step ln c))) (s1\<lparr>sh_world := w'\<rparr>)"
      using idx r(1) w'(1) 4 c by (subst readline_loop.simps) (simp add: s1_def edit_step_def add.commute)
    then show ?thesis
      by (rule step) (use w'(2) keep 4 in \<open>simp_all add: edit_step_def bytes_at_snoc del: bytes_at.simps\<close>, simp_all add: s1_def)
  qed
qed

text \<open>
  C29. Reading a line edits it: on a terminal that delivers characters without zero bytes and then a line feed or a carriage return,
  \<^verbatim>\<open>readline\<close> returns and leaves the line in its buffer, as backspaces and tabs edited it, with its zero byte,
  provided the line never fills the buffer. It reads up to the end of the line and writes to its buffer and one
  variable only.
\<close>

theorem readline_edits:
  assumes "line_os os inp" "inp (sh_world s) = cs @ nl # rest" "nl = 0x0A \<or> nl = 0x0D" "\<forall>c \<in> set cs. c \<notin> {0x0A, 0x0D, EOS}"
    and "dst \<noteq> 0" "a_ch a \<notin> region dst (unat count)" "fits (unat count) [] cs"
  shows "\<exists>s'. readline os a dst count s = Some s' \<and> cstr (sh_mem s') dst (foldl edit_step [] cs) \<and> inp (sh_world s') = rest \<and>
     (\<forall>x. x \<notin> insert (a_ch a) (region dst (unat count)) \<longrightarrow> sh_mem s' x = sh_mem s x)"
proof -
  let ?s = "shell_put (a_ch a) 0 s"
  have "inp (sh_world ?s) = cs @ nl # rest" using assms(2) by (simp add: shell_put_def)
  from readline_loop_spec [OF assms(1,3,6,7) this assms(4)] obtain s' where
    "readline_loop os a dst count 0 ?s = Some s'" "cstr (sh_mem s') dst (foldl edit_step [] cs)" "inp (sh_world s') = rest"
    "\<forall>x. x \<notin> insert (a_ch a) (region dst (unat count)) \<longrightarrow> sh_mem s' x = sh_mem ?s x" by auto
  then show ?thesis using assms(5) by (intro exI [of _ s']) (auto simp: readline_def shell_put_def)
qed

text \<open>A terminal that only delivers bytes.\<close>

definition demo_os :: "u8 list os" where
  "demo_os r m w = (if eax r = SYS_NR_READ then (case w of [] \<Rightarrow> None | c # cs \<Rightarrow> Some (1, m(ecx r := c), cs)) else Some (1, m, w))"

definition demo_vars :: vars where
  "demo_vars = \<lparr>a_cwd = 0x5000, a_cmd = 0x1000, a_argv = 0x2000, a_buf = 0x3000, a_print = 0x4000, a_ch = 0x2100, a_stat = 0x2200, a_status = 0x2300,
     a_envp = 0x2400, a_handler = 0x100, a_restorer = 0x200\<rparr>"

definition demo_shell :: "u8 list shell" where
  "demo_shell = \<lparr>sh_mem = (\<lambda>_. 0), sh_world = [0x6C, 0x78, 0x08, 0x73, 0x0A, 0x41], sh_interrupt = False\<rparr>"

lemma readline_edits_witness:
  "\<exists>s'. readline demo_os demo_vars 0x1000 256 demo_shell = Some s' \<and> cstr (sh_mem s') 0x1000 [0x6C, 0x73] \<and> sh_world s' = [0x41]"
proof -
  have os: "line_os demo_os (\<lambda>w. w)"
    by (simp add: line_os_def demo_os_def stub_defs syscall3_def SYS_NR_READ_def SYS_NR_WRITE_def)
  have inp: "sh_world demo_shell = [0x6C, 0x78, 0x08, 0x73] @ 0x0A # [0x41]" by (simp add: demo_shell_def)
  have cs: "\<forall>c \<in> set [0x6C, 0x78, 0x08, 0x73 :: u8]. c \<notin> {0x0A, 0x0D, EOS}" "fits (unat (256 :: u32)) [] [0x6C, 0x78, 0x08, 0x73]"
    by (simp_all add: EOS_def edit_step_def)
  have "region 0x1000 (unat (256 :: u32)) = between 0x1000 0x1100" by (subst region_between; simp)
  then have ch: "a_ch demo_vars \<notin> region 0x1000 (unat (256 :: u32))" by (simp add: between_def demo_vars_def)
  have e: "foldl edit_step [] [0x6C, 0x78, 0x08, 0x73] = [0x6C, 0x73]" by (simp add: edit_step_def)
  have nl: "(0x0A :: u8) = 0x0A \<or> (0x0A :: u8) = 0x0D" "(0x1000 :: u32) \<noteq> 0" by simp_all
  show ?thesis using readline_edits [OF os inp nl(1) cs(1) nl(2) ch cs(2)] unfolding e by blast
qed

text \<open>A line that fills the buffer is ended behind it.\<close>

lemma readline_full: "readline_loop os a dst count count s = Some (shell_put (dst + count) EOS s)"
  by (simp add: readline_loop.simps)

text \<open>A file with no execute bit but any other shows the letter of an executable one.\<close>

lemma mode_triple_read_only: "mode_triple 0x124 6 = [0x72, 0x2D, 0x78]"
  by (simp add: mode_triple_def)

end
