(* ===== verification/Spec2Isabelle.thy ===== *)
theory Spec2Isabelle
  imports Stdlib Kfifo Bitmap Linked_List Strings Console Mutex Task Signal Timer Keyboard Memory Paging Rtc Device Cache Vsprintf
    Minix Vfs Zones Namei Pipe File_Ops Mount Arena Execve Fork_Pages Process Interrupt Ide Serial Syscall Terminal Shell
begin

text \<open>
  LightOS: a verification library beside the kernel.

  LightOS is a small 32-bit Unix-like kernel in C. Paths below are under \<^verbatim>\<open>src/\<close>. This root theory imports all others;
  each opens with a text on its own model.

  \<^bold>\<open>The program.\<close> The boot records tell the memory manager (\<^verbatim>\<open>kernel/memory.c\<close>) which frames exist; it counts the
  owners of each frame and keeps the page tables. On it stand the kernel heap (\<^verbatim>\<open>lib/arena.c\<close>) and the tasks
  (\<^verbatim>\<open>kernel/task.c\<close>, \<^verbatim>\<open>kernel/schedule.c\<close>), which the clock interrupt switches in turn and which sleep on waiting
  lists, timers, locks and devices. Devices (\<^verbatim>\<open>kernel/device.c\<close>) are rows of a table with driver functions: console, keyboard,
  serial lines, terminal, IDE disks with their partitions, RAM disks. A block cache (\<^verbatim>\<open>kernel/cache.c\<close>) lies over
  the disks, and a MINIX V1 file system (\<^verbatim>\<open>fs/\<close>) over the cache. System calls reach all this through a table
  (\<^verbatim>\<open>kernel/gate.c\<close>); \<^verbatim>\<open>fork\<close>, \<^verbatim>\<open>execve\<close> and \<^verbatim>\<open>exit\<close> tie tasks, memory and files together.

  \<^bold>\<open>How the code is read.\<close> Integers are words of their width, with a \<^verbatim>\<open>struct\<close> a record and an array a list that is read
  and written through \<open>aget\<close> and \<open>aset\<close>; a pointer into a table is an index, any other pointer an address of a byte
  memory \<open>mem\<close>. A failed assertion, a panic, a null pointer, an index out of range and an endless loop all have the value \<open>None\<close>
  of the option monad (theory Prelude), and error returns of the source are returned values. State is passed explicitly. An operation
  that sleeps ends its step there: either it is split at that point, or what happens until its next turn is an
  argument, \<open>elapse\<close>.

  \<^bold>\<open>Theories and sources, from the bottom.\<close>
    \<^item> Library: Prelude (\<^verbatim>\<open>sys/types.h\<close>, \<^verbatim>\<open>kernel/assert.c\<close>), Stdlib (\<^verbatim>\<open>lib/stdlib.c\<close>), Bitmap (\<^verbatim>\<open>lib/bitmap.c\<close>), Kfifo
      (\<^verbatim>\<open>lib/kfifo.c\<close>), Linked_List (\<^verbatim>\<open>lib/list.c\<close>), Strings (\<^verbatim>\<open>lib/string.c\<close>), Vsprintf (\<^verbatim>\<open>lib/vsprintf.c\<close>), Rtc
      (\<^verbatim>\<open>lib/time.c\<close>, \<^verbatim>\<open>kernel/time.c\<close>, \<^verbatim>\<open>kernel/rtc.c\<close>), Mutex (\<^verbatim>\<open>lib/mutex.c\<close>).
    \<^item> Memory and Paging (\<^verbatim>\<open>kernel/memory.c\<close>), Fork_Pages (its \<^verbatim>\<open>copy_pte\<close>), Arena (\<^verbatim>\<open>lib/arena.c\<close>).
    \<^item> Task (\<^verbatim>\<open>kernel/task.c\<close>, \<^verbatim>\<open>kernel/schedule.c\<close>), Signal (\<^verbatim>\<open>kernel/signal.c\<close>, \<^verbatim>\<open>lib/restorer.asm\<close>), Timer
      (\<^verbatim>\<open>kernel/timer.c\<close>, \<^verbatim>\<open>kernel/clock.c\<close>).
    \<^item> Interrupt (\<^verbatim>\<open>kernel/interrupt.c\<close>, \<^verbatim>\<open>kernel/global.c\<close>), Syscall (\<^verbatim>\<open>kernel/gate.c\<close>, \<^verbatim>\<open>lib/syscall.c\<close>, the entry of
      \<^verbatim>\<open>kernel/interrupt_handler.asm\<close>).
    \<^item> Devices: Device (\<^verbatim>\<open>kernel/device.c\<close>, \<^verbatim>\<open>kernel/ramdisk.c\<close>), Console (\<^verbatim>\<open>kernel/console.c\<close>), Keyboard
      (\<^verbatim>\<open>kernel/keyboard.c\<close>, \<^verbatim>\<open>kernel/tty.c\<close>), Serial (\<^verbatim>\<open>kernel/serial.c\<close>), Ide (\<^verbatim>\<open>kernel/ide.c\<close>), Cache
      (\<^verbatim>\<open>kernel/cache.c\<close>), Terminal (\<^verbatim>\<open>kernel/tty.c\<close>, \<^verbatim>\<open>fs/dev.c\<close>).
    \<^item> Files: Minix (\<^verbatim>\<open>lightos/fs.h\<close>), Vfs and Zones (\<^verbatim>\<open>fs/inode.c\<close>, \<^verbatim>\<open>fs/super.c\<close>, \<^verbatim>\<open>fs/bmap.c\<close>), Namei
      (\<^verbatim>\<open>fs/namei.c\<close>), Pipe (\<^verbatim>\<open>fs/pipe.c\<close>), File_Ops (\<^verbatim>\<open>fs/file.c\<close>, \<^verbatim>\<open>fs/stat.c\<close>, \<^verbatim>\<open>fs/ioctl.c\<close>,
      \<^verbatim>\<open>kernel/system.c\<close>), Mount (the rest of \<^verbatim>\<open>fs/super.c\<close>).
    \<^item> Processes: Execve (\<^verbatim>\<open>kernel/execve.c\<close>), Process (fork, exit and wait of \<^verbatim>\<open>kernel/task.c\<close>, \<^verbatim>\<open>init/init.c\<close>).
    \<^item> Shell (\<^verbatim>\<open>buildroot/lsh.c\<close>, \<^verbatim>\<open>lib/printf.c\<close>), a user program over the system calls.

  \<^bold>\<open>States.\<close> \<open>kernel\<close> (Task) has the task table, waiting lists, processor registers and the reference counts of
  inodes and files; \<open>vfs\<close> (Vfs) contains it and adds buffers, inodes, super blocks and open files; the memory manager \<open>mm\<close> is the frames with their
  counts, the page tables and the window; Execve puts \<open>vfs\<close>, \<open>mm\<close> and the bytes of the current address space together. A device
  table \<open>devs\<close> has the state of its drivers as a type variable.

  \<^bold>\<open>Interfaces.\<close> \<open>byte_queue\<close> (Kfifo) is a bounded queue, interpreted on the ring buffer; \<open>node_queue\<close> (Linked_List)
  a queue of nodes, interpreted on both ends of the list; \<open>block_driver\<close> (Device) the law of a disk, interpreted on
  the RAM disks; \<open>cached_driver\<close> (Cache) extends it to what the cache relies on.

  \<^bold>\<open>What is shown.\<close>
    \<^item> Invariants: every operation on tasks keeps the table well formed and the scheduler's assertions true; free pages are the frames
      without owner, from boot on; the console never writes outside its video memory; the disk queue never stalls;
      after boot all interrupt gates are well formed.
    \<^item> Refinement of abstract specifications: the cache is transparent; a file is its byte list; a pipe delivers the bytes written; a
      fork shares pages read-only with one owner more each; the keyboard tracks the set of pressed keys.
    \<^item> Round trips: allocation and release of pages, heap blocks and zones; signal frames; new file, write and
      read; decimal output and \<^verbatim>\<open>atoi\<close>.
    \<^item> Equivalence: start time and Gregorian calendar; the segment descriptors and the processor's constants; every stub of the system
      library and its handler.
    \<^item> Time: what one clock interrupt does to the running task, the sleepers, the beeper and the table of timers; a task that is switched
      away from gets its registers back, whatever runs in between.
    \<^item> Errors and endings: mutual exclusion and the lost wake-up of the mutex; the left-over header that makes the heap lose memory; what a program that
      cannot be loaded does; numbers of system calls that are not checked; loops that end and loops that do not.
    \<^item> The shell: a line as edited, and its words.

  \<^bold>\<open>Bounds.\<close> A counted loop recurs on its counter, or on the list of indexes it goes through. A loop that may not end is a
  \<open>partial_function\<close> on options; where it is used in a property, the property states that the result is \<open>Some\<close>. The only fuel is
  that of shrinking the break in theory Paging, \<open>2 ^ 20 + 1\<close> rounds, one more than there are pages in an address space. Reference counts
  of frames have eight bits; theorems state the bound under which they do not overflow.

  \<^bold>\<open>Parameters.\<close> Hardware ports (\<open>bus\<close>); the bytes the keyboard controller, the CMOS and the disk return; what other tasks do
  during a sleep (\<open>elapse\<close>, \<open>resume\<close>); the drivers behind character and block files (\<open>dread\<close>, \<open>dwrite\<close>, \<open>dctl\<close>);
  the size of a device (\<open>sectors\<close>); the contents of a fresh page (\<open>junk\<close>); words of the stack behind an array (\<open>behind\<close>); code
  addresses.

  \<^bold>\<open>Not modelled.\<close> Assembly that loads and enters the kernel, and of the interrupt entries all but the choice of a system call's
  handler; the order of initialisation in \<^verbatim>\<open>init/main.c\<close>, whose steps work on different states here; the wrappers around
  \<^verbatim>\<open>vsprintf\<close> that print; log output; the translation cache of the processor; the other commands of \<^verbatim>\<open>buildroot/\<close>, which only call the
  system.
\<close>

end
